(* ===== verification/Prelude.thy ===== *)
theory Prelude
  imports Main "HOL-Library.Word" "HOL-Library.Monad_Syntax"
begin

text \<open>
  Shared vocabulary of the development: the 32-bit machine word that models
  \<open>int32_t\<close>, \<open>uint32_t\<close> and the raw bits of a \<open>float\<close>, the C++ reading of signed
  division, runs of instruction lists, and the two interfaces (as locales) that the
  instruction-rewriting passes and the liveness-based passes share.
\<close>

unbundle bit_operations_syntax

section \<open>Machine integers\<close>

type_synonym w32 = "32 word"

named_theorems word32_simps \<open>facts that move 32-bit word expressions to integers\<close>
named_theorems run_simps \<open>unfolding of instruction runs\<close>

text \<open>C++ division and remainder of integers: truncation towards zero.\<close>

definition c_quot :: "int \<Rightarrow> int \<Rightarrow> int" where
  "c_quot a b = sgn a * sgn b * (\<bar>a\<bar> div \<bar>b\<bar>)"

definition c_rem :: "int \<Rightarrow> int \<Rightarrow> int" where
  "c_rem a b = a - b * c_quot a b"

lemma c_quot_pos: "0 \<le> a \<Longrightarrow> 0 < b \<Longrightarrow> c_quot a b = a div b"
  by (cases "a = 0") (simp_all add: c_quot_def sgn_if)

lemma c_quot_neg: "a < 0 \<Longrightarrow> 0 < b \<Longrightarrow> c_quot a b = - ((- a) div b)"
  by (simp add: c_quot_def sgn_if)

lemma c_quot_bounds:
  assumes "0 < b"
  shows "\<bar>c_quot a b\<bar> \<le> \<bar>a\<bar>"
proof (cases "0 \<le> a")
  case True
  have "a div b \<le> a div 1" using True assms by (intro zdiv_mono2) auto
  then show ?thesis using True assms by (simp add: c_quot_pos pos_imp_zdiv_nonneg_iff)
next
  case False
  then have n: "0 \<le> - a" by simp
  have "(- a) div b \<le> (- a) div 1" using n assms by (intro zdiv_mono2) auto
  moreover have "0 \<le> (- a) div b" using n assms by (simp add: pos_imp_zdiv_nonneg_iff)
  ultimately show ?thesis using False assms by (simp add: c_quot_neg)
qed

text \<open>The signed range of a 32-bit word.\<close>

lemma sint_ge_m31: "- (2 ^ 31) \<le> sint (x :: w32)"
  using sint_greater_eq [of x] by simp

lemma sint_lt_31: "sint (x :: w32) < 2 ^ 31"
  using sint_lt [of x] by simp

lemma sint_w32_of_int:
  assumes "- (2 ^ 31) \<le> i" and "i < 2 ^ 31"
  shows "sint (word_of_int i :: w32) = i"
  using assms by (simp add: sint_sbintrunc' signed_take_bit_int_eq_self)

lemma w32_of_int_sint [simp]: "word_of_int (sint (x :: w32)) = x"
  by simp

lemma word_of_int_eqI:
  assumes "sint (x :: w32) = i"
  shows "x = word_of_int i"
  using assms w32_of_int_sint [of x] by simp

section \<open>Runs of instruction lists\<close>

text \<open>A straight-line run: every instruction must be defined on the state it meets.\<close>

fun run_list :: "('i \<Rightarrow> 's \<Rightarrow> 's option) \<Rightarrow> 'i list \<Rightarrow> 's \<Rightarrow> 's option" where
  "run_list step [] s = Some s"
| "run_list step (i # is) s = (case step i s of None \<Rightarrow> None | Some s' \<Rightarrow> run_list step is s')"

lemma run_list_append [run_simps]:
  "run_list step (xs @ ys) s =
     (case run_list step xs s of None \<Rightarrow> None | Some s' \<Rightarrow> run_list step ys s')"
  by (induction xs arbitrary: s) (auto split: option.split)

lemma run_list_append_Some:
  "run_list step xs s = Some t \<Longrightarrow> run_list step (xs @ ys) s = run_list step ys t"
  by (simp add: run_list_append)

lemma run_list_Some_append:
  "run_list step (xs @ ys) s = Some u \<Longrightarrow>
     \<exists>t. run_list step xs s = Some t \<and> run_list step ys t = Some u"
  by (auto simp: run_list_append split: option.splits)

section \<open>Interface: passes that rewrite a block instruction by instruction\<close>

text \<open>
  Several passes of the back end walk a block from its first instruction to its last, carry
  some context along (a stack offset, the constants known to be in registers) and replace
  each instruction by a list. \<open>rewrite_block\<close> is that walk; \<open>ctx_all\<close> says that a
  condition holds of every instruction in the context it is visited in.
\<close>

fun rewrite_block :: "('c \<Rightarrow> 'i \<Rightarrow> 'j list \<times> 'c) \<Rightarrow> 'c \<Rightarrow> 'i list \<Rightarrow> 'j list" where
  "rewrite_block rw c [] = []"
| "rewrite_block rw c (i # is) = fst (rw c i) @ rewrite_block rw (snd (rw c i)) is"

fun rewrite_ctx :: "('c \<Rightarrow> 'i \<Rightarrow> 'j list \<times> 'c) \<Rightarrow> 'c \<Rightarrow> 'i list \<Rightarrow> 'c" where
  "rewrite_ctx rw c [] = c"
| "rewrite_ctx rw c (i # is) = rewrite_ctx rw (snd (rw c i)) is"

fun ctx_all :: "('c \<Rightarrow> 'i \<Rightarrow> 'j list \<times> 'c) \<Rightarrow> ('c \<Rightarrow> 'i \<Rightarrow> bool) \<Rightarrow> 'c \<Rightarrow> 'i list \<Rightarrow> bool" where
  "ctx_all rw ok c [] = True"
| "ctx_all rw ok c (i # is) = (ok c i \<and> ctx_all rw ok (snd (rw c i)) is)"

locale rewriting_pass =
  fixes step :: "'i \<Rightarrow> 's \<Rightarrow> 's option"
    and step' :: "'j \<Rightarrow> 't \<Rightarrow> 't option"
    and rw :: "'c \<Rightarrow> 'i \<Rightarrow> 'j list \<times> 'c"
    and ok :: "'c \<Rightarrow> 'i \<Rightarrow> bool"
    and sim :: "'c \<Rightarrow> 's \<Rightarrow> 't \<Rightarrow> bool"
  assumes rw_step: "ok c i \<Longrightarrow> sim c s t \<Longrightarrow> step i s = Some s' \<Longrightarrow>
     \<exists>t'. run_list step' (fst (rw c i)) t = Some t' \<and> sim (snd (rw c i)) s' t'"
begin

lemma block_sim:
  "ctx_all rw ok c is \<Longrightarrow> sim c s t \<Longrightarrow> run_list step is s = Some s' \<Longrightarrow>
     \<exists>t'. run_list step' (rewrite_block rw c is) t = Some t' \<and> sim (rewrite_ctx rw c is) s' t'"
proof (induction "is" arbitrary: c s t)
  case Nil
  then show ?case by simp
next
  case (Cons i "is")
  from Cons.prems obtain s1 where s1: "step i s = Some s1" "run_list step is s1 = Some s'"
    by (auto split: option.splits)
  from rw_step [OF _ Cons.prems(2) s1(1)] Cons.prems(1) obtain t1 where
    t1: "run_list step' (fst (rw c i)) t = Some t1" "sim (snd (rw c i)) s1 t1" by auto
  from Cons.IH [OF _ t1(2) s1(2)] Cons.prems(1) t1(1) show ?case
    by (auto simp: run_list_append)
qed

end

text \<open>The context-free case: each instruction is replaced by a list of its own.\<close>

locale local_rewriting =
  fixes step :: "'i \<Rightarrow> 's \<Rightarrow> 's option"
    and step' :: "'j \<Rightarrow> 't \<Rightarrow> 't option"
    and rw1 :: "'i \<Rightarrow> 'j list"
    and ok1 :: "'i \<Rightarrow> bool"
    and sim1 :: "'s \<Rightarrow> 't \<Rightarrow> bool"
  assumes rw1_step: "ok1 i \<Longrightarrow> sim1 s t \<Longrightarrow> step i s = Some s' \<Longrightarrow>
     \<exists>t'. run_list step' (rw1 i) t = Some t' \<and> sim1 s' t'"

sublocale local_rewriting \<subseteq> pass: rewriting_pass step step'
  "\<lambda>(_ :: unit) i. (rw1 i, ())" "\<lambda>_. ok1" "\<lambda>_. sim1"
  by unfold_locales (use rw1_step in auto)

lemma rewrite_block_unit: "rewrite_block (\<lambda>(_ :: unit) i. (f i, ())) c is = concat (map f is)"
  by (induction "is" arbitrary: c) auto

lemma ctx_all_unit: "ctx_all (\<lambda>(_ :: unit) i. (f i, ())) (\<lambda>_. p) c is = list_all p is"
  by (induction "is" arbitrary: c) auto

context local_rewriting
begin

lemma local_block_sim:
  assumes "list_all ok1 is" and "sim1 s t" and "run_list step is s = Some s'"
  shows "\<exists>t'. run_list step' (concat (map rw1 is)) t = Some t' \<and> sim1 s' t'"
  using pass.block_sim [of "()" "is" s t s'] assms by (simp add: rewrite_block_unit ctx_all_unit)

end

section \<open>Interface: machines whose instructions declare what they define and use\<close>

text \<open>
  The liveness-based passes rely on what each instruction declares: the locations it may
  change, the locations its outcome depends on, and whether it has an effect beyond its
  locations. \<open>agree l s t\<close>: the two states hold the same value at location \<open>l\<close>;
  \<open>same_env s t\<close>: they agree on everything that is not a location.
\<close>

locale def_use_machine =
  fixes step :: "'i \<Rightarrow> 's \<Rightarrow> 's option"
    and agree :: "'l \<Rightarrow> 's \<Rightarrow> 's \<Rightarrow> bool"
    and same_env :: "'s \<Rightarrow> 's \<Rightarrow> bool"
    and defs :: "'i \<Rightarrow> 'l set"
    and uses :: "'i \<Rightarrow> 'l set"
    and effect :: "'i \<Rightarrow> bool"
    and good :: "'i \<Rightarrow> bool"
  assumes step_local: "good i \<Longrightarrow> \<forall>l \<in> uses i. agree l s t \<Longrightarrow> same_env s t \<Longrightarrow> step i s = Some s' \<Longrightarrow>
      \<exists>t'. step i t = Some t' \<and> same_env s' t' \<and> (\<forall>l \<in> defs i. agree l s' t')
         \<and> (\<forall>l. l \<notin> defs i \<longrightarrow> agree l s t \<longrightarrow> agree l s' t')"
    and step_dead: "good i \<Longrightarrow> \<not> effect i \<Longrightarrow> step i s = Some s' \<Longrightarrow> same_env s t \<Longrightarrow>
      same_env s' t \<and> (\<forall>l. l \<notin> defs i \<longrightarrow> agree l s t \<longrightarrow> agree l s' t)"
begin

text \<open>Keeping an instruction: agreement before on its uses and on what lives past it.\<close>

lemma keep_step:
  assumes "good i" and "\<forall>l \<in> (L - defs i) \<union> uses i. agree l s t" and "same_env s t"
    and "step i s = Some s'"
  shows "\<exists>t'. step i t = Some t' \<and> same_env s' t' \<and> (\<forall>l \<in> L. agree l s' t')"
proof -
  from assms(2) have "\<forall>l \<in> uses i. agree l s t" by blast
  from step_local [OF assms(1) this assms(3,4)] assms(2) show ?thesis by blast
qed

text \<open>Dropping an instruction: it has no effect and defines nothing that lives past it.\<close>

lemma drop_step:
  assumes "good i" and "\<not> effect i" and "defs i \<inter> L = {}" and "\<forall>l \<in> L. agree l s t"
    and "same_env s t" and "step i s = Some s'"
  shows "same_env s' t \<and> (\<forall>l \<in> L. agree l s' t)"
  using step_dead [OF assms(1,2,6,5)] assms(3,4) by blast

end

end
