(* ===== verification/Common.thy ===== *)
theory Common
  imports Prelude "HOL-Library.Sublist"
begin

text \<open>
  \<open>src/common/common.hpp\<close> and \<open>src/common/common.cpp\<close>: scalar types, the helpers on
  integers and strings, the mangling of global names, the command line and the
  configuration, the union-find structure and the generic list erasers.
\<close>

section \<open>Scalar types and small helpers\<close>

datatype scalar_type = Void | IntT | FloatT | CharT

fun print_scalar_type :: "scalar_type \<Rightarrow> string" where
  "print_scalar_type Void = ''void''"
| "print_scalar_type IntT = ''int''"
| "print_scalar_type FloatT = ''float''"
| "print_scalar_type CharT = ''char''"

text \<open>\<open>concat\<close>: the 16-bit halves of a word as the \<open>int32_t\<close> it denotes, by cases on
  the unsigned value, as an integer (every branch is a conversion that keeps its value).\<close>

definition concat_halves :: "w32 \<Rightarrow> w32 \<Rightarrow> int" where
  "concat_halves bottom top_h =
     (let s = uint (bottom OR push_bit 16 top_h) in
      if s \<le> 2 ^ 31 - 1 then s
      else if s = 2 ^ 31 then - (2 ^ 31)
      else - ((2 ^ 32 - 1) - s + 1))"

text \<open>\<open>startswith\<close>: the length test, then the loop over the positions of \<open>s2\<close>.\<close>

fun startswith_from :: "nat \<Rightarrow> string \<Rightarrow> string \<Rightarrow> nat \<Rightarrow> bool" where
  "startswith_from i s1 s2 0 = True"
| "startswith_from i s1 s2 (Suc n) = (if s1 ! i \<noteq> s2 ! i then False else startswith_from (Suc i) s1 s2 n)"

definition startswith :: "string \<Rightarrow> string \<Rightarrow> bool" where
  "startswith s1 s2 = (if length s1 < length s2 then False else startswith_from 0 s1 s2 (length s2))"

lemma startswith_from_iff:
  "startswith_from i s1 s2 n = (\<forall>j. i \<le> j \<and> j < i + n \<longrightarrow> s1 ! j = s2 ! j)"
proof (induction n arbitrary: i)
  case 0
  then show ?case by auto
next
  case (Suc n)
  have "(\<forall>j. i \<le> j \<and> j < i + Suc n \<longrightarrow> s1 ! j = s2 ! j) \<longleftrightarrow>
      s1 ! i = s2 ! i \<and> (\<forall>j. Suc i \<le> j \<and> j < Suc i + n \<longrightarrow> s1 ! j = s2 ! j)"
    by (metis Suc_leI add_Suc add_Suc_right le_eq_less_or_eq less_add_Suc1 order_refl Suc_le_lessD less_imp_le)
  then show ?case using Suc.IH by simp
qed

lemma startswith_prefix: "startswith s1 s2 = prefix s2 s1"
proof (cases "length s1 < length s2")
  case True
  then show ?thesis by (auto simp: startswith_def dest: prefix_length_le)
next
  case False
  then have "startswith s1 s2 = (\<forall>j < length s2. s1 ! j = s2 ! j)"
    by (simp add: startswith_def startswith_from_iff)
  also have "\<dots> = (take (length s2) s1 = s2)"
    using False by (auto simp: list_eq_iff_nth_eq)
  also have "\<dots> = prefix s2 s1"
    by (metis append_take_drop_id prefixI prefix_def append_eq_conv_conj)
  finally show ?thesis .
qed

section \<open>Mangling of global names\<close>

definition char_code :: "char \<Rightarrow> nat" where
  "char_code c = of_char c"

definition is_alpha :: "char \<Rightarrow> bool" where
  "is_alpha c = (65 \<le> char_code c \<and> char_code c \<le> 90 \<or> 97 \<le> char_code c \<and> char_code c \<le> 122)"

definition is_digit :: "char \<Rightarrow> bool" where
  "is_digit c = (48 \<le> char_code c \<and> char_code c \<le> 57)"

definition legal_char :: "char \<Rightarrow> bool" where
  "legal_char ch = (is_alpha ch \<or> is_digit ch \<or> ch = CHR ''_'')"

definition digit_char :: "nat \<Rightarrow> char" where
  "digit_char d = (if d < 10 then char_of (48 + d) else char_of (87 + d))"

text \<open>Stream output of an unsigned number in base \<open>b\<close> (\<open>std::to_string\<close>, \<open>std::hex\<close>).\<close>

function digits_base :: "nat \<Rightarrow> nat \<Rightarrow> string" where
  "digits_base b n =
     (if n < b \<or> b < 2 then [digit_char n] else digits_base b (n div b) @ [digit_char (n mod b)])"
  by pat_completeness auto
termination
  by (relation "measure snd") auto

declare digits_base.simps [simp del]

text \<open>\<open>unsigned int cur = s[i]\<close> with the host's signed \<open>char\<close>.\<close>

definition char_as_uint :: "char \<Rightarrow> nat" where
  "char_as_uint c = (if char_code c < 128 then char_code c else 2 ^ 32 - 256 + char_code c)"

definition substr :: "string \<Rightarrow> nat \<Rightarrow> nat \<Rightarrow> string" where
  "substr s pos n = take n (drop pos s)"

text \<open>The loop of \<open>mangle_global_var_name\<close> (\<open>last_i\<close> is the position of the last illegal
  character, \<open>-1\<close> before the first), then the flush of the final run.\<close>

function mangle_loop :: "string \<Rightarrow> nat \<Rightarrow> int \<Rightarrow> string \<Rightarrow> int \<times> string" where
  "mangle_loop s i last_i ret =
     (if i < length s then
        if \<not> legal_char (s ! i) then
          let ret1 = (if int i - last_i - 1 > 0
                      then ret @ digits_base 10 (nat (int i - last_i - 1))
                               @ substr s (nat (last_i + 1)) (nat (int i - last_i - 1))
                      else ret);
              cur = char_as_uint (s ! i)
          in mangle_loop s (Suc i) (int i)
               (ret1 @ ''0'' @ digits_base 16 (cur div 16) @ digits_base 16 (cur mod 16))
        else mangle_loop s (Suc i) last_i ret
      else (last_i, ret))"
  by pat_completeness auto
termination
  by (relation "measure (\<lambda>(s, i, last_i, ret). length s - i)") auto

declare mangle_loop.simps [simp del]

definition mangle_global_var_name :: "string \<Rightarrow> string option" where
  "mangle_global_var_name s =
     (if length s > 0 then
        let (last_i, ret) = mangle_loop s 0 (-1) ''_m'' in
        if last_i < int (length s) - 1
        then Some (ret @ digits_base 10 (nat (int (length s) - 1 - last_i))
                       @ substr s (nat (last_i + 1)) (length s))
        else Some ret
      else None)"

text \<open>
  The same string without the positions: a run of legal characters is written as its
  length and itself, an illegal character as \<open>0\<close> and two hexadecimal digits.
\<close>

function mangle_spec :: "string \<Rightarrow> string" where
  "mangle_spec s =
     (let run = takeWhile legal_char s in
      (if run \<noteq> [] then digits_base 10 (length run) @ run else []) @
      (case dropWhile legal_char s of
         [] \<Rightarrow> []
       | c # cs \<Rightarrow> ''0'' @ digits_base 16 (char_as_uint c div 16)
                       @ digits_base 16 (char_as_uint c mod 16) @ mangle_spec cs))"
  by pat_completeness auto
termination
proof (relation "measure length", simp, goal_cases)
  case (1 s x c cs)
  then show ?case using length_dropWhile_le [of legal_char s] by simp
qed

declare mangle_spec.simps [simp del]

lemma takeWhile_all_append: "\<forall>x \<in> set xs. P x \<Longrightarrow> takeWhile P (xs @ ys) = xs @ takeWhile P ys"
  by (induction xs) auto

lemma dropWhile_all_append: "\<forall>x \<in> set xs. P x \<Longrightarrow> dropWhile P (xs @ ys) = dropWhile P ys"
  by (induction xs) auto

lemma mangle_spec_run:
  assumes "\<forall>x \<in> set run. legal_char x"
  shows "mangle_spec run = (if run \<noteq> [] then digits_base 10 (length run) @ run else [])"
proof -
  have "takeWhile legal_char run = run" "dropWhile legal_char run = []"
    using assms by (simp_all add: takeWhile_eq_all_conv)
  then show ?thesis 
    by (simp add: mangle_spec.simps [of run] Let_def
        del: takeWhile_eq_all_conv dropWhile_eq_Nil_conv)
qed

lemma mangle_spec_run_illegal:
  assumes "\<forall>x \<in> set run. legal_char x" and "\<not> legal_char c"
  shows "mangle_spec (run @ c # cs) =
     (if run \<noteq> [] then digits_base 10 (length run) @ run else []) @
     ''0'' @ digits_base 16 (char_as_uint c div 16) @ digits_base 16 (char_as_uint c mod 16)
     @ mangle_spec cs"
proof -
  have "takeWhile legal_char (run @ c # cs) = run" "dropWhile legal_char (run @ c # cs) = c # cs"
    using assms by (simp_all add: takeWhile_all_append dropWhile_all_append)
  then show ?thesis by (simp add: mangle_spec.simps [of "run @ c # cs"] Let_def)
qed

text \<open>The flush at the end of \<open>mangle_global_var_name\<close>.\<close>

definition mangle_flush :: "string \<Rightarrow> int \<times> string \<Rightarrow> string" where
  "mangle_flush s lr = (case lr of (last_i, ret) \<Rightarrow>
     if last_i < int (length s) - 1
     then ret @ digits_base 10 (nat (int (length s) - 1 - last_i)) @ substr s (nat (last_i + 1)) (length s)
     else ret)"

lemma mangle_loop_spec:
  assumes "i = length pre + length run" and "s = pre @ run @ rest"
    and "\<forall>x \<in> set run. legal_char x" and "last_i = int (length pre) - 1"
  shows "mangle_flush s (mangle_loop s i last_i ret) = ret @ mangle_spec (run @ rest)"
  using assms
proof (induction rest arbitrary: i pre run last_i ret)
  case Nil
  then have "mangle_loop s i last_i ret = (last_i, ret)" by (subst mangle_loop.simps) simp
  then show ?case using Nil by (auto simp: mangle_flush_def mangle_spec_run substr_def)
next
  case (Cons c cs)
  have si: "s ! i = c" and il: "i < length s" using Cons.prems by (auto simp: nth_append)
  show ?case
  proof (cases "legal_char c")
    case True
    have "mangle_flush s (mangle_loop s (Suc i) last_i ret) = ret @ mangle_spec ((run @ [c]) @ cs)"
      by (rule Cons.IH [of _ pre]) (use Cons.prems True in auto)
    then show ?thesis
      using si il True by (simp add: mangle_loop.simps [of s i])
  next
    case False
    let ?ret = "(if run \<noteq> [] then ret @ digits_base 10 (length run) @ run else ret) @ ''0''
      @ digits_base 16 (char_as_uint c div 16) @ digits_base 16 (char_as_uint c mod 16)"
    have IH: "mangle_flush s (mangle_loop s (Suc i) (int i) ?ret) = ?ret @ mangle_spec ([] @ cs)"
      by (rule Cons.IH [of _ "pre @ run @ [c]"]) (use Cons.prems in auto)
    have gap: "int i - last_i - 1 = int (length run)" "nat (last_i + 1) = length pre"
      "substr s (length pre) (length run) = run"
      using Cons.prems by (simp_all add: substr_def)
    have "mangle_loop s i last_i ret = mangle_loop s (Suc i) (int i) ?ret"
      by (subst mangle_loop.simps) (use si il False gap in \<open>auto simp: Let_def\<close>)
    then show ?thesis
      using IH by (simp add: mangle_spec_run_illegal [OF Cons.prems(3) False])
  qed
qed

lemma mangle_global_var_name_spec:
  "mangle_global_var_name s = (if s \<noteq> [] then Some (''_m'' @ mangle_spec s) else None)"
proof (cases "s = []")
  case True
  then show ?thesis by (simp add: mangle_global_var_name_def)
next
  case False
  have "mangle_flush s (mangle_loop s 0 (-1) ''_m'') = ''_m'' @ mangle_spec ([] @ s)"
    by (rule mangle_loop_spec [of _ "[]"]) auto
  then show ?thesis using False
    by (auto simp: mangle_global_var_name_def mangle_flush_def Let_def split: prod.splits if_splits)
qed

subsection \<open>A reader for mangled names\<close>

fun read_dec :: "nat \<Rightarrow> string \<Rightarrow> nat \<times> string" where
  "read_dec n [] = (n, [])"
| "read_dec n (c # cs) =
     (if is_digit c then read_dec (10 * n + (char_code c - 48)) cs else (n, c # cs))"

lemma read_dec_length: "length (snd (read_dec n s)) \<le> length s"
  by (induction n s rule: read_dec.induct) auto

definition hex_val :: "char \<Rightarrow> nat" where
  "hex_val c = (if is_digit c then char_code c - 48 else char_code c - 87)"

function demangle :: "string \<Rightarrow> string option" where
  "demangle [] = Some []"
| "demangle (c # cs) =
     (if c = CHR ''0'' then
        (case cs of
           h # l # rest \<Rightarrow> map_option ((#) (char_of (16 * hex_val h + hex_val l))) (demangle rest)
         | _ \<Rightarrow> None)
      else if is_digit c then
        (let (n, rest) = read_dec 0 (c # cs) in
         if n = 0 \<or> length rest < n then None
         else map_option ((@) (take n rest)) (demangle (drop n rest)))
      else None)"
  by pat_completeness auto
termination
proof (relation "measure length", simp, simp, goal_cases)
  case (1 c cs x n rest)
  then show ?case using read_dec_length [of 0 "c # cs"]
    by (cases "read_dec (char_code c - 48) cs") auto
qed

declare demangle.simps(2) [simp del]

text \<open>Names as the front end produces them: 7-bit characters, and a digit only after a
  letter, a digit or an underscore.\<close>

fun well_named :: "bool \<Rightarrow> string \<Rightarrow> bool" where
  "well_named prev [] = True"
| "well_named prev (c # cs) =
     (char_code c < 128 \<and> (is_digit c \<longrightarrow> prev) \<and> well_named (legal_char c) cs)"

lemma char_code_of [simp]: "n < 256 \<Longrightarrow> char_code (char_of n) = n"
  by (simp add: char_code_def)

lemma char_of_code [simp]: "char_of (char_code c) = c"
  by (simp add: char_code_def)

lemma is_digit_digit_char: "d < 10 \<Longrightarrow> is_digit (digit_char d)"
  by (simp add: digit_char_def is_digit_def)

lemma char_code_digit_char: "d < 10 \<Longrightarrow> char_code (digit_char d) = 48 + d"
  by (simp add: digit_char_def)

lemma hex_val_digit_char: "d < 16 \<Longrightarrow> hex_val (digit_char d) = d"
  by (simp add: digit_char_def hex_val_def is_digit_def)

lemma digits_base_small: "n < b \<Longrightarrow> digits_base b n = [digit_char n]"
  by (simp add: digits_base.simps)

lemma read_dec_append:
  "\<forall>x \<in> set xs. is_digit x \<Longrightarrow> read_dec a (xs @ ys) = read_dec (fst (read_dec a xs)) ys"
  by (induction xs arbitrary: a) auto

lemma digits_base10_digits: "\<forall>x \<in> set (digits_base 10 n). is_digit x"
proof (induction n rule: less_induct)
  case (less n)
  show ?case
    using less [of "n div 10"]
    by (cases "n < 10") (auto simp: digits_base.simps [of 10 n] is_digit_digit_char)
qed

lemma read_dec_digits: "fst (read_dec 0 (digits_base 10 n)) = n"
proof (induction n rule: less_induct)
  case (less n)
  show ?case
  proof (cases "n < 10")
    case True
    then show ?thesis by (simp add: digits_base_small is_digit_digit_char char_code_digit_char)
  next
    case False
    then have "digits_base 10 n = digits_base 10 (n div 10) @ [digit_char (n mod 10)]"
      by (simp add: digits_base.simps [of 10 n])
    then show ?thesis
      using False less [of "n div 10"]
      by (simp add: read_dec_append digits_base10_digits is_digit_digit_char char_code_digit_char)
  qed
qed

lemma hd_digits_base10: "0 < n \<Longrightarrow> \<exists>d. 0 < d \<and> d < 10 \<and> hd (digits_base 10 n) = digit_char d"
proof (induction n rule: less_induct)
  case (less n)
  show ?case
  proof (cases "n < 10")
    case True
    with less.prems show ?thesis by (auto simp: digits_base_small)
  next
    case False
    then have "digits_base 10 n = digits_base 10 (n div 10) @ [digit_char (n mod 10)]"
      by (simp add: digits_base.simps [of 10 n])
    moreover have "digits_base 10 (n div 10) \<noteq> []" by (simp add: digits_base.simps [of 10 "n div 10"])
    ultimately show ?thesis using False less.IH [of "n div 10"] by auto
  qed
qed

lemma well_named_append:
  "well_named b (xs @ ys) \<Longrightarrow>
     well_named b xs \<and> well_named (if xs = [] then b else legal_char (last xs)) ys"
  by (induction xs arbitrary: b) auto

lemma demangle_run:
  assumes "run \<noteq> []" and "well_named False (run @ rest)"
  shows "demangle (digits_base 10 (length run) @ run @ t) = map_option ((@) run) (demangle t)"
proof -
  let ?d = "digits_base 10 (length run)"
  obtain d where d: "0 < d" "d < 10" "hd ?d = digit_char d"
    using hd_digits_base10 [of "length run"] assms(1) by auto
  have ne: "?d \<noteq> []" by (simp add: digits_base.simps [of 10 "length run"])
  then obtain ds where ds: "?d = digit_char d # ds" using d(3) by (cases ?d) auto
  obtain r rs where r: "run = r # rs" using assms(1) by (cases run) auto
  then have nd: "\<not> is_digit r" using assms(2) by auto
  have rd: "read_dec 0 (?d @ run @ t) = (length run, run @ t)"
    using nd r by (simp add: read_dec_append digits_base10_digits read_dec_digits)
  have nz: "digit_char d \<noteq> CHR ''0''"
  proof
    assume "digit_char d = CHR ''0''"
    then have "char_code (digit_char d) = 48" by (simp add: char_code_def)
    with d show False by (simp add: char_code_digit_char)
  qed
  from rd have "read_dec 0 (digit_char d # ds @ run @ t) = (length run, run @ t)"
    unfolding ds by simp
  with nz d(2) r show ?thesis
    unfolding ds by (simp add: demangle.simps(2) is_digit_digit_char)
qed

lemma demangle_illegal:
  assumes "char_code c < 128"
  shows "demangle (''0'' @ digits_base 16 (char_as_uint c div 16)
            @ digits_base 16 (char_as_uint c mod 16) @ t) = map_option ((#) c) (demangle t)"
proof -
  have u: "char_as_uint c = char_code c" using assms by (simp add: char_as_uint_def)
  have "char_code c div 16 < 16" using assms by simp
  then show ?thesis
    by (simp add: u digits_base_small demangle.simps(2) hex_val_digit_char)
qed

lemma demangle_mangle_spec: "well_named False s \<Longrightarrow> demangle (mangle_spec s) = Some s"
proof (induction s rule: mangle_spec.induct)
  case (1 s)
  define run where "run = takeWhile legal_char s"
  have s: "s = run @ dropWhile legal_char s" by (simp add: run_def)
  have legal: "\<forall>x \<in> set run. legal_char x" by (auto simp: run_def dest: set_takeWhileD)
  show ?case
  proof (cases "dropWhile legal_char s")
    case Nil
    then have sr: "s = run" using s by (metis append_Nil2)
    then show ?thesis
      using mangle_spec_run [OF legal] demangle_run [of run "[]" "[]"] "1.prems" by auto
  next
    case (Cons c cs)
    then have sc: "s = run @ c # cs" using s by simp
    have nl: "\<not> legal_char c" using Cons hd_dropWhile [of legal_char s] by fastforce
    from well_named_append [of False run "c # cs"] "1.prems" sc nl
    have c: "char_code c < 128" and wn: "well_named False cs" by auto
    have IH: "demangle (mangle_spec cs) = Some cs"
      using "1.IH" [OF run_def] Cons wn by auto
    show ?thesis
      unfolding sc mangle_spec_run_illegal [OF legal nl]
      using demangle_run [of run "c # cs"] demangle_illegal [OF c] IH "1.prems" sc by auto
  qed
qed

end
