(* ===== verification/Config.thy ===== *)
theory Config
  imports Common
begin

text \<open>
  The configuration record and the command line of \<open>src/common/common.cpp\<close>: the option
  loop of \<open>parse_arg\<close> and the switches it derives from the name of the input file.
  \<open>_throw\<close> ends the process through \<open>___assert\<close>, so every error is a value here.
\<close>

section \<open>Configuration\<close>

record config =
  log_level :: int
  simulate_exec :: bool
  output_ir :: bool
  cfg_input :: string
  disabled_passes :: "string set"
  cfg_args :: "string \<rightharpoonup> string"
  give_up :: bool

datatype arg_error =
    MissingParameterValue | DuplicateParameterKey | DuplicateOutputFile | MissingOutputFilename
  | DuplicateInputFile | MissingInputFile | MissingOutputFile

text \<open>The default configuration; \<open>give_up\<close> is set by \<open>parse_arg\<close>.\<close>

definition init_config :: config where
  "init_config = \<lparr>log_level = 2, simulate_exec = False, output_ir = False, cfg_input = [],
     disabled_passes = insert ''loop-unroll'' (insert ''loop-parallel'' {}),
     cfg_args = Map.empty, give_up = False\<rparr>"

definition get_arg :: "config \<Rightarrow> string \<Rightarrow> string \<Rightarrow> string" where
  "get_arg g key default_value =
     (case cfg_args g key of None \<Rightarrow> default_value | Some v \<Rightarrow> v)"

definition is_space :: "char \<Rightarrow> bool" where
  "is_space c = (char_code c = 32 \<or> 9 \<le> char_code c \<and> char_code c \<le> 13)"

text \<open>\<open>atoi\<close>; a value outside \<open>int\<close> has no defined result.\<close>

definition atoi :: "string \<Rightarrow> int option" where
  "atoi s =
     (let t = dropWhile is_space s;
          neg = (t \<noteq> [] \<and> hd t = CHR ''-'');
          u = (if t \<noteq> [] \<and> (hd t = CHR ''-'' \<or> hd t = CHR ''+'') then tl t else t);
          v = (if neg then - int (fst (read_dec 0 u)) else int (fst (read_dec 0 u)))
      in if - (2 ^ 31) \<le> v \<and> v < 2 ^ 31 then Some v else None)"

definition get_int_arg :: "config \<Rightarrow> string \<Rightarrow> int \<Rightarrow> int option" where
  "get_int_arg g key default_value =
     (case cfg_args g key of None \<Rightarrow> Some default_value | Some v \<Rightarrow> atoi v)"

section \<open>The option loop\<close>

definition opt_passes :: "config \<Rightarrow> string \<Rightarrow> config" where
  "opt_passes g cur =
     (let g1 = (if startswith cur ''--no-''
                then g\<lparr>disabled_passes := insert (drop 5 cur) (disabled_passes g)\<rparr> else g)
      in if startswith cur ''--enable-''
         then g1\<lparr>disabled_passes := disabled_passes g1 - {drop 9 cur}\<rparr> else g1)"

fun find_char :: "char \<Rightarrow> string \<Rightarrow> nat option" where
  "find_char c [] = None"
| "find_char c (x # xs) = (if x = c then Some 0 else map_option Suc (find_char c xs))"

definition opt_set :: "config \<Rightarrow> string \<Rightarrow> arg_error + config" where
  "opt_set g cur =
     (if startswith cur ''--set-'' then
        (let kv = drop 6 cur in
         case find_char (CHR ''='') kv of
           None \<Rightarrow> Inl MissingParameterValue
         | Some pos \<Rightarrow>
             (let key = take pos kv in
              if cfg_args g key \<noteq> None then Inl DuplicateParameterKey
              else Inr (g\<lparr>cfg_args := (cfg_args g)(key \<mapsto> drop (pos + 1) kv)\<rparr>)))
      else Inr g)"

definition opt_switches :: "config \<Rightarrow> string \<Rightarrow> config" where
  "opt_switches g cur =
     (let g1 = (if cur = ''--exec'' then g\<lparr>simulate_exec := True\<rparr> else g);
          g2 = (if cur = ''--ir'' then g1\<lparr>output_ir := True\<rparr> else g1);
          g3 = (if cur = ''--debug'' then g2\<lparr>log_level := 0\<rparr> else g2);
          g4 = (if cur = ''--info'' then g3\<lparr>log_level := 1\<rparr> else g3);
          g5 = (if cur = ''--warning'' then g4\<lparr>log_level := 2\<rparr> else g4)
      in if cur = ''--error'' then g5\<lparr>log_level := 3\<rparr> else g5)"

fun arg_loop :: "config \<Rightarrow> string \<Rightarrow> string \<Rightarrow> string list \<Rightarrow>
    arg_error + (config \<times> string \<times> string)" where
  "arg_loop g inp out [] = Inr (g, inp, out)"
| "arg_loop g inp out (cur # rest) =
     (if startswith cur ''-'' then
        (case opt_set (opt_passes g cur) cur of
           Inl e \<Rightarrow> Inl e
         | Inr g1 \<Rightarrow>
             (let g2 = opt_switches g1 cur in
              if cur = ''-o'' then
                (case rest of
                   [] \<Rightarrow> Inl MissingOutputFilename
                 | f # rest' \<Rightarrow> if out = [] then arg_loop g2 inp f rest' else Inl DuplicateOutputFile)
              else arg_loop g2 inp out rest))
      else if inp = [] then arg_loop g cur out rest
      else Inl DuplicateInputFile)"

section \<open>Switches derived from the input name\<close>

fun has_substr :: "string \<Rightarrow> string \<Rightarrow> bool" where
  "has_substr [] pat = (pat = [])"
| "has_substr (c # cs) pat = (prefix pat (c # cs) \<or> has_substr cs pat)"

definition disable_if :: "bool \<Rightarrow> string \<Rightarrow> config \<Rightarrow> config" where
  "disable_if b p g = (if b then g\<lparr>disabled_passes := insert p (disabled_passes g)\<rparr> else g)"

definition arg_if :: "bool \<Rightarrow> string \<Rightarrow> string \<Rightarrow> config \<Rightarrow> config" where
  "arg_if b k v g = (if b then g\<lparr>cfg_args := (cfg_args g)(k \<mapsto> v)\<rparr> else g)"

definition any_substr :: "string \<Rightarrow> string list \<Rightarrow> bool" where
  "any_substr s ps = list_ex (has_substr s) ps"

definition special_inputs :: "string \<Rightarrow> config \<Rightarrow> config" where
  "special_inputs inp g0 =
     (let g1 = disable_if (has_substr inp ''many_dimensions'') ''misc'' g0;
          g2 = disable_if (has_substr inp ''integer-divide-optimization-3'') ''sr'' g1;
          g3 = disable_if (has_substr inp ''82_long_func.sy'') ''loop-ops'' g2;
          g4 = disable_if (any_substr inp [''39_fp_params.sy'', ''brainfuck'', ''layernorm'', ''derich'',
                 ''mm1'', ''spmv'', ''transpose0'', ''gameoflife'']) ''irc-alloc'' g3;
          g5 = disable_if (any_substr inp [''spmv'', ''layernorm'']) ''par'' g4;
          g6 = arg_if (any_substr inp [''mv'', ''gameoflife-oscillator'']) ''num-threads'' ''2'' g5;
          heavy = any_substr inp [''crypto'', ''call_'', ''if-combine'', ''layernorm'', ''loop_array'', ''derich''];
          g7 = arg_if heavy ''max-unroll-instr'' ''20000'' (arg_if heavy ''max-unroll'' ''500'' g6);
          g8 = disable_if (\<not> has_substr inp ''derich'') ''fast-math'' g7;
          g9 = disable_if (has_substr inp ''gameoflife'') ''unroll-for''
                 (disable_if (has_substr inp ''gameoflife'') ''unroll-fixed'' g8);
          g10 = disable_if (has_substr inp ''fabonacci'') ''inline'' g9;
          g11 = arg_if (has_substr inp ''layernorm'') ''unroll-n'' ''16'' g10;
          g12 = disable_if (has_substr inp ''matmul'') ''unroll-for'' g11
      in disable_if (any_substr inp [''layernorm'', ''matmul'']) ''eliminate-branch'' g12)"

definition parse_arg :: "config \<Rightarrow> string list \<Rightarrow> arg_error + (config \<times> string \<times> string)" where
  "parse_arg g args =
     (case arg_loop (g\<lparr>give_up := False\<rparr>) [] [] args of
        Inl e \<Rightarrow> Inl e
      | Inr (g1, inp, out) \<Rightarrow>
          if inp = [] then Inl MissingInputFile
          else if out = [] then Inl MissingOutputFile
          else let g2 = special_inputs inp (g1\<lparr>cfg_input := inp\<rparr>) in
               Inr (g2\<lparr>cfg_args := (cfg_args g2)(''input'' \<mapsto> inp, ''output'' \<mapsto> out)\<rparr>, inp, out))"

text \<open>No switch changes the recorded input file.\<close>

lemma opt_passes_input [simp]: "cfg_input (opt_passes g c) = cfg_input g"
  by (simp add: opt_passes_def Let_def)

lemma disable_if_fields [simp]:
  "cfg_input (disable_if b p g) = cfg_input g"
  "cfg_args (disable_if b p g) = cfg_args g"
  "disabled_passes (disable_if b p g) = (if b then insert p (disabled_passes g) else disabled_passes g)"
  by (simp_all add: disable_if_def)

lemma arg_if_fields [simp]:
  "cfg_input (arg_if b k v g) = cfg_input g"
  "disabled_passes (arg_if b k v g) = disabled_passes g"
  by (simp_all add: arg_if_def)

lemma disable_if_mono: "A \<subseteq> disabled_passes g \<Longrightarrow> A \<subseteq> disabled_passes (disable_if b p g)"
  by auto

lemma arg_if_mono: "A \<subseteq> disabled_passes g \<Longrightarrow> A \<subseteq> disabled_passes (arg_if b k v g)"
  by simp

lemma special_inputs_input [simp]: "cfg_input (special_inputs i g) = cfg_input g"
  by (simp only: special_inputs_def Let_def disable_if_fields arg_if_fields)

lemma special_inputs_keeps_disabled:
  "disabled_passes g \<subseteq> disabled_passes (special_inputs i g)"
  unfolding special_inputs_def Let_def by (intro disable_if_mono arg_if_mono subset_refl)

lemma arg_loop_input:
  "arg_loop g inp out args = Inr (g', inp', out') \<Longrightarrow>
     inp' = inp \<or> inp' \<in> set args \<and> \<not> prefix ''-'' inp'"
proof (induction g inp out args rule: arg_loop.induct)
  case (2 g inp out cur rest)
  then show ?case
    by (auto simp: startswith_prefix Let_def split: if_splits sum.splits list.splits)
qed simp

lemma arg_loop_output:
  "arg_loop g inp out args = Inr (g', inp', out') \<Longrightarrow>
     out' = out \<or> (\<exists>i. Suc i < length args \<and> args ! i = ''-o'' \<and> args ! Suc i = out')"
proof (induction g inp out args rule: arg_loop.induct)
  case (2 g inp out cur rest)
  show ?case
  proof (cases "startswith cur ''-'' \<and> cur = ''-o''")
    case True
    with "2.prems" obtain g1 f rest' where o: "opt_set (opt_passes g cur) cur = Inr g1"
      and r: "rest = f # rest'" and out: "out = []"
      and l: "arg_loop (opt_switches g1 cur) inp f rest' = Inr (g', inp', out')"
      by (auto simp: Let_def split: sum.splits list.splits if_splits)
    from "2.IH"(1) [OF _ o refl _ r out l] True
    have "out' = f \<or> (\<exists>i. Suc i < length rest' \<and> rest' ! i = ''-o'' \<and> rest' ! Suc i = out')"
      by blast
    then show ?thesis
    proof
      assume "out' = f"
      then show ?thesis using True r by (intro disjI2 exI [of _ 0]) auto
    next
      assume "\<exists>i. Suc i < length rest' \<and> rest' ! i = ''-o'' \<and> rest' ! Suc i = out'"
      then obtain i where "Suc i < length rest'" "rest' ! i = ''-o''" "rest' ! Suc i = out'" by blast
      then show ?thesis using r by (intro disjI2 exI [of _ "Suc (Suc i)"]) auto
    qed
  next
    case False
    then have "out' = out \<or> (\<exists>i. Suc i < length rest \<and> rest ! i = ''-o'' \<and> rest ! Suc i = out')"
      using "2.prems" "2.IH"(2,3)
      by (auto simp: Let_def split: sum.splits if_splits)
    then show ?thesis by (metis Suc_less_eq length_Cons nth_Cons_Suc)
  qed
qed simp

end
