(* ===== verification/UnionFind.thy ===== *)
theory UnionFind
  imports Common
begin

text \<open>
  \<open>UnionFind\<close> of \<open>src/common/common.hpp\<close> (union-find with path halving, used by the type
  checker and by the removal of trivial blocks) and the erasers \<open>remove_if\<close>,
  \<open>remove_if_vec\<close>. A table maps an element to its parent; an element that is not in the
  table is entered as its own root the first time it is looked at.
\<close>

type_synonym 'a ufind = "'a \<rightharpoonup> 'a"

text \<open>\<open>f(x)\<close>: the parent, entering \<open>x\<close> when it is missing.\<close>

definition uf_f :: "'a ufind \<Rightarrow> 'a \<Rightarrow> 'a \<times> 'a ufind" where
  "uf_f m x = (case m x of Some y \<Rightarrow> (y, m) | None \<Rightarrow> (x, m(x \<mapsto> x)))"

definition uf_add :: "'a ufind \<Rightarrow> 'a \<Rightarrow> 'a ufind" where
  "uf_add m x = m(x \<mapsto> x)"

text \<open>\<open>operator[]\<close>: \<open>while (x != f(x)) x = f(x) = f(f(x))\<close>.\<close>

partial_function (option) uf_find :: "'a ufind \<Rightarrow> 'a \<Rightarrow> ('a \<times> 'a ufind) option" where
  "uf_find m x =
     (let (p, m1) = uf_f m x in
      if x = p then Some (x, m1)
      else let (g, m2) = uf_f m1 p in uf_find (m2(x \<mapsto> g)) g)"

text \<open>\<open>merge\<close>: the right operand \<open>(*this)[y]\<close> is evaluated before the left one (C++17).\<close>

definition uf_merge :: "'a ufind \<Rightarrow> 'a \<Rightarrow> 'a \<Rightarrow> 'a ufind option" where
  "uf_merge m x y =
     do { (ry, m1) \<leftarrow> uf_find m y;
          (rx, m2) \<leftarrow> uf_find m1 x;
          let (_, m3) = uf_f m2 rx;
          Some (m3(rx \<mapsto> ry)) }"

section \<open>Specification: the root of an element\<close>

inductive uf_root :: "'a ufind \<Rightarrow> 'a \<Rightarrow> 'a \<Rightarrow> bool" for m where
  root_none: "m x = None \<Longrightarrow> uf_root m x x"
| root_self: "m x = Some x \<Longrightarrow> uf_root m x x"
| root_step: "m x = Some y \<Longrightarrow> y \<noteq> x \<Longrightarrow> uf_root m y r \<Longrightarrow> uf_root m x r"

text \<open>A table is a forest when some rank decreases along every parent link.\<close>

definition uf_ranked :: "'a ufind \<Rightarrow> ('a \<Rightarrow> nat) \<Rightarrow> bool" where
  "uf_ranked m rk = (\<forall>x y. m x = Some y \<longrightarrow> y \<noteq> x \<longrightarrow> rk y < rk x)"

definition uf_forest :: "'a ufind \<Rightarrow> bool" where
  "uf_forest m = (\<exists>rk. uf_ranked m rk)"

lemma uf_root_unique: "uf_root m x r \<Longrightarrow> uf_root m x r' \<Longrightarrow> r = r'"
proof (induction arbitrary: r' rule: uf_root.induct)
  case (root_none x)
  from root_none.prems show ?case using root_none.hyps by cases auto
next
  case (root_self x)
  from root_self.prems show ?case using root_self.hyps by cases auto
next
  case (root_step x y r)
  from root_step.prems have "uf_root m y r'" using root_step.hyps by cases auto
  then show ?case by (rule root_step.IH)
qed

lemma uf_root_exists: "uf_ranked m rk \<Longrightarrow> \<exists>r. uf_root m x r"
proof (induction "rk x" arbitrary: x rule: less_induct)
  case less
  show ?case
  proof (cases "m x")
    case None
    then show ?thesis by (auto intro: root_none)
  next
    case (Some y)
    show ?thesis
    proof (cases "y = x")
      case True
      then show ?thesis using Some root_self [of m x] by blast
    next
      case False
      then have "rk y < rk x" using Some less.prems by (auto simp: uf_ranked_def)
      then obtain r where "uf_root m y r" using less by blast
      then show ?thesis using Some False root_step [of m x y r] by blast
    qed
  qed
qed

lemma uf_root_is_root: "uf_root m x r \<Longrightarrow> m r = None \<or> m r = Some r"
  by (induction rule: uf_root.induct) auto

text \<open>Entering a missing element as its own root changes no root.\<close>

lemma uf_root_enter_1:
  assumes "uf_root (m(x \<mapsto> x)) z r" and "m x = None"
  shows "uf_root m z r"
  using assms(1)
proof (induction rule: uf_root.induct)
  case (root_none z)
  then show ?case by (intro uf_root.root_none) (simp split: if_splits)
next
  case (root_self z)
  then show ?case
    by (cases "z = x") (simp_all add: uf_root.root_none uf_root.root_self assms(2))
next
  case (root_step z y r)
  then have "z \<noteq> x" by auto
  with root_step show ?case by (intro uf_root.root_step [of m z y]) simp_all
qed

lemma uf_root_enter_2:
  assumes "uf_root m z r" and "m x = None"
  shows "uf_root (m(x \<mapsto> x)) z r"
  using assms(1)
proof (induction rule: uf_root.induct)
  case (root_none z)
  then show ?case
    by (cases "z = x") (simp_all add: uf_root.root_none uf_root.root_self)
next
  case (root_self z)
  then show ?case by (intro uf_root.root_self) simp
next
  case (root_step z y r)
  then have "z \<noteq> x" using assms(2) by auto
  with root_step show ?case by (intro uf_root.root_step [of _ z y]) simp_all
qed

lemma uf_root_enter: "m x = None \<Longrightarrow> uf_root (m(x \<mapsto> x)) z r \<longleftrightarrow> uf_root m z r"
  using uf_root_enter_1 uf_root_enter_2 by metis

lemma uf_f_root: "uf_root (snd (uf_f m x)) z r \<longleftrightarrow> uf_root m z r"
  by (auto simp: uf_f_def uf_root_enter split: option.split)

lemma uf_f_ranked: "uf_ranked m rk \<Longrightarrow> uf_ranked (snd (uf_f m x)) rk"
  by (auto simp: uf_f_def uf_ranked_def split: option.split)

lemma uf_f_entered: "uf_f m x = (p, m') \<Longrightarrow> m' x = Some p"
  by (auto simp: uf_f_def split: option.splits)

lemma uf_f_keeps: "uf_f m x = (p, m') \<Longrightarrow> m z = Some q \<Longrightarrow> m' z = Some q"
  by (auto simp: uf_f_def split: option.splits)

lemma uf_rankedD: "uf_ranked m rk \<Longrightarrow> m x = Some y \<Longrightarrow> y \<noteq> x \<Longrightarrow> rk y < rk x"
  by (simp add: uf_ranked_def)

lemma uf_ranked_grand:
  assumes "uf_ranked m rk" and "m x = Some p" and "m p = Some g" and "p \<noteq> x"
  shows "rk g < rk x"
  using uf_rankedD [OF assms(1,2,4)] uf_rankedD [OF assms(1,3)] by (cases "g = p") auto

text \<open>One halving step changes no root and keeps the rank.\<close>

lemma uf_halve_root:
  assumes rk: "uf_ranked m rk" and x: "m x = Some p" and p: "m p = Some g" and ne: "p \<noteq> x"
  shows "uf_root (m(x \<mapsto> g)) z r \<longleftrightarrow> uf_root m z r"
proof -
  have gx: "g \<noteq> x" using uf_ranked_grand [OF assms] by blast
  have gr: "uf_root m g r" if "uf_root m x r" for r
  proof -
    from that x ne have "uf_root m p r" by (auto elim: uf_root.cases)
    then show ?thesis
    proof cases
      case root_self
      with p show ?thesis by (simp add: uf_root.root_self)
    qed (use p in simp_all)
  qed
  have fwd: "uf_root (m(x \<mapsto> g)) z r" if "uf_root m z r" for z r
    using that
  proof (induction "rk z" arbitrary: z rule: less_induct)
    case less
    show ?case
    proof (cases "z = x")
      case True
      have "rk g < rk z" using uf_ranked_grand [OF assms] True by simp
      moreover have "uf_root m g r" by (rule gr) (use less.prems True in simp)
      ultimately have "uf_root (m(x \<mapsto> g)) g r" by (rule less.hyps)
      then have "uf_root (m(x \<mapsto> g)) x r" by (rule root_step [rotated 2]) (simp_all add: gx)
      then show ?thesis unfolding True .
    next
      case False
      from less.prems show ?thesis
      proof cases
        case (root_step y)
        have "uf_root (m(x \<mapsto> g)) y r"
          by (rule less.hyps [OF uf_rankedD [OF rk root_step(1,2)] root_step(3)])
        then show ?thesis by (rule uf_root.root_step [rotated 2]) (simp_all add: False root_step)
      next
        case root_none
        then have "m z = None" by simp
        then have "uf_root (m(x \<mapsto> g)) z z" by (intro uf_root.root_none) (simp add: False)
        then show ?thesis using root_none by simp
      next
        case root_self
        then have "m z = Some z" by simp
        then have "uf_root (m(x \<mapsto> g)) z z" by (intro uf_root.root_self) (simp add: False)
        then show ?thesis using root_self by simp
      qed
    qed
  qed
  show ?thesis
  proof
    assume a: "uf_root (m(x \<mapsto> g)) z r"
    obtain r' where r': "uf_root m z r'" using uf_root_exists [OF rk] by blast
    from uf_root_unique [OF a fwd [OF r']] r' show "uf_root m z r" by simp
  qed (rule fwd)
qed

lemma uf_find_correct:
  assumes "uf_ranked m rk"
  shows "\<exists>r m'. uf_find m x = Some (r, m') \<and> uf_root m x r \<and> uf_ranked m' rk
     \<and> m' r = Some r \<and> (\<forall>z q. uf_root m' z q = uf_root m z q)"
  using assms
proof (induction "rk x" arbitrary: m x rule: less_induct)
  case less
  obtain p m1 where f1: "uf_f m x = (p, m1)" by (cases "uf_f m x")
  have m1: "uf_ranked m1 rk" "\<And>z q. uf_root m1 z q = uf_root m z q" "m1 x = Some p"
    using uf_f_ranked [OF less.prems, of x] uf_f_root [of m x] uf_f_entered [OF f1] f1 by simp_all
  show ?case
  proof (cases "x = p")
    case True
    have x: "uf_root m x x" using m1(2,3) root_self [of m1 x] True by simp
    have "uf_find m x = Some (x, m1)" by (subst uf_find.simps) (use True f1 in simp)
    then show ?thesis using x m1 True by auto
  next
    case False
    obtain g m2 where f2: "uf_f m1 p = (g, m2)" by (cases "uf_f m1 p")
    have m2: "uf_ranked m2 rk" "\<And>z q. uf_root m2 z q = uf_root m z q" "m2 p = Some g" "m2 x = Some p"
      using uf_f_ranked [OF m1(1), of p] uf_f_root [of m1 p] uf_f_entered [OF f2]
        uf_f_keeps [OF f2 m1(3)] m1(2) f2 by simp_all
    let ?m = "m2(x \<mapsto> g)"
    have rk: "rk g < rk x" using uf_ranked_grand [OF m2(1,4,3)] False by simp
    have hm: "uf_ranked ?m rk" using m2(1) rk by (auto simp: uf_ranked_def)
    have hr: "\<And>z q. uf_root ?m z q = uf_root m z q"
      using uf_halve_root [OF m2(1,4,3) False [symmetric]] m2(2) by simp
    from less.hyps [OF rk hm] obtain r m' where
      r: "uf_find ?m g = Some (r, m')" "uf_root ?m g r" "uf_ranked m' rk" "m' r = Some r"
         "\<forall>z q. uf_root m' z q = uf_root ?m z q" by blast
    have "uf_root ?m x r" by (rule root_step [of _ _ g]) (use r(2) rk in auto)
    then have "uf_root m x r" by (simp add: hr)
    moreover have "uf_find m x = Some (r, m')"
      by (subst uf_find.simps) (use r(1) f1 f2 False in simp)
    moreover have "\<forall>z q. uf_root m' z q = uf_root m z q" using r(5) hr by simp
    ultimately show ?thesis using r(3,4) by blast
  qed
qed

text \<open>\<open>merge\<close> joins the class of \<open>x\<close> to the root of \<open>y\<close> and leaves every other class alone.\<close>

lemma uf_link_root:
  assumes rk: "uf_ranked m rk" and rx: "m rx = Some rx" and ry: "m ry = Some ry \<or> m ry = None"
    and z: "uf_root m z q"
  shows "uf_root (m(rx \<mapsto> ry)) z (if q = rx then ry else q)"
  using z
proof (induction rule: uf_root.induct)
  case (root_none z)
  then have "z \<noteq> rx" using rx by auto
  then show ?case using root_none by (simp add: uf_root.root_none)
next
  case (root_self z)
  have "uf_root (m(rx \<mapsto> ry)) ry ry"
    using ry uf_root.root_self [of "m(rx \<mapsto> ry)" ry] uf_root.root_none [of "m(rx \<mapsto> ry)" ry]
    by (cases "rx = ry") auto
  then have "uf_root (m(rx \<mapsto> ry)) rx ry"
    using uf_root.root_step [of "m(rx \<mapsto> ry)" rx ry ry] by (cases "ry = rx") simp_all
  moreover have "z \<noteq> rx \<Longrightarrow> uf_root (m(rx \<mapsto> ry)) z z"
    using root_self by (intro uf_root.root_self) simp
  ultimately show ?case by (cases "z = rx") (simp_all del: fun_upd_apply)
next
  case (root_step z y r)
  then have "z \<noteq> rx" using rx by auto
  then have "(m(rx \<mapsto> ry)) z = Some y" using root_step by simp
  then show ?case using root_step by (intro uf_root.root_step [of "m(rx \<mapsto> ry)" z y])
qed

lemma uf_link_forest:
  assumes rk: "uf_ranked m rk" and rx: "m rx = Some rx" and ry: "m ry = Some ry \<or> m ry = None"
  shows "uf_forest (m(rx \<mapsto> ry))"
proof -
  define rk' where "rk' = (\<lambda>z. if uf_root m z rx then rk z + Suc (rk ry) else rk z)"
  have "uf_ranked (m(rx \<mapsto> ry)) rk'"
    unfolding uf_ranked_def
  proof (intro allI impI)
    fix a b assume ab: "(m(rx \<mapsto> ry)) a = Some b" "b \<noteq> a"
    show "rk' b < rk' a"
    proof (cases "a = rx")
      case True
      then have b: "b = ry" "ry \<noteq> rx" using ab by simp_all
      have "uf_root m rx rx" using rx by (rule root_self)
      moreover have "\<not> uf_root m ry rx"
      proof
        assume "uf_root m ry rx"
        moreover have "uf_root m ry ry" using ry root_self [of m ry] root_none [of m ry] by blast
        ultimately show False using b(2) uf_root_unique [of m ry rx ry] by simp
      qed
      ultimately show ?thesis using True b by (simp add: rk'_def)
    next
      case False
      then have "m a = Some b" using ab by simp
      note a = this
      have "uf_root m a rx \<longleftrightarrow> uf_root m b rx"
      proof
        assume "uf_root m a rx"
        then show "uf_root m b rx" by cases (use a ab(2) in simp_all)
      next
        assume "uf_root m b rx"
        then show "uf_root m a rx" by (rule root_step [of m a b rx, OF a ab(2)])
      qed
      then show ?thesis using uf_rankedD [OF rk a ab(2)] by (simp add: rk'_def)
    qed
  qed
  then show ?thesis by (auto simp: uf_forest_def)
qed

lemma uf_merge_correct:
  assumes "uf_forest m"
  shows "\<exists>m' rx ry. uf_merge m x y = Some m' \<and> uf_forest m' \<and> uf_root m x rx \<and> uf_root m y ry
     \<and> (\<forall>z q. uf_root m z q \<longrightarrow> uf_root m' z (if q = rx then ry else q))"
proof -
  from assms obtain rk where rk: "uf_ranked m rk" by (auto simp: uf_forest_def)
  from uf_find_correct [OF rk, of y] obtain ry m1 where y: "uf_find m y = Some (ry, m1)"
    "uf_root m y ry" "uf_ranked m1 rk" "m1 ry = Some ry" "\<forall>z q. uf_root m1 z q = uf_root m z q" by blast
  from uf_find_correct [OF y(3), of x] obtain rx m2 where x: "uf_find m1 x = Some (rx, m2)"
    "uf_root m1 x rx" "uf_ranked m2 rk" "m2 rx = Some rx" "\<forall>z q. uf_root m2 z q = uf_root m1 z q" by blast
  have "uf_root m2 ry ry" using y(4,5) x(5) root_self [of m1 ry] by simp
  then have ry: "m2 ry = Some ry \<or> m2 ry = None" by (auto dest: uf_root_is_root)
  have "uf_merge m x y = Some (m2(rx \<mapsto> ry))"
    using y(1) x(1,4) by (simp add: uf_merge_def uf_f_def)
  moreover have "\<forall>z q. uf_root m z q \<longrightarrow> uf_root (m2(rx \<mapsto> ry)) z (if q = rx then ry else q)"
    using uf_link_root [OF x(3,4) ry] x(5) y(5) by blast
  moreover have "uf_root m x rx" using x(2) y(5) by blast
  ultimately show ?thesis using uf_link_forest [OF x(3,4) ry] y(2) by blast
qed

section \<open>Erasing elements\<close>

text \<open>\<open>remove_if\<close> walks a container from its end; \<open>remove_if_vec\<close> compacts a vector. Both
  test every element once and keep the others in order.\<close>

fun remove_if_rev :: "('a \<Rightarrow> bool) \<Rightarrow> 'a list \<Rightarrow> 'a list \<Rightarrow> 'a list" where
  "remove_if_rev f [] kept = kept"
| "remove_if_rev f (x # before) kept =
     (if f x then remove_if_rev f before kept else remove_if_rev f before (x # kept))"

definition remove_if :: "'a list \<Rightarrow> ('a \<Rightarrow> bool) \<Rightarrow> 'a list" where
  "remove_if ls f = remove_if_rev f (rev ls) []"

fun remove_if_vec :: "'a list \<Rightarrow> ('a \<Rightarrow> bool) \<Rightarrow> 'a list" where
  "remove_if_vec [] f = []"
| "remove_if_vec (x # xs) f = (if f x then remove_if_vec xs f else x # remove_if_vec xs f)"

lemma remove_if_rev_filter: "remove_if_rev f xs kept = filter (\<lambda>x. \<not> f x) (rev xs) @ kept"
  by (induction xs arbitrary: kept) auto

lemma remove_if_filter: "remove_if ls f = filter (\<lambda>x. \<not> f x) ls"
  by (simp add: remove_if_def remove_if_rev_filter)

lemma remove_if_vec_filter: "remove_if_vec ls f = filter (\<lambda>x. \<not> f x) ls"
  by (induction ls) auto

end
