(* ===== verification/Float32.thy ===== *)
theory Float32
  imports Prelude
begin

text \<open>
  The \<open>float\<close> arithmetic the compiler itself performs when it folds constants and when it
  interprets the intermediate representation: IEEE 754 binary32 on the raw bits, rounding to
  nearest with ties to even. A finite value is a sign, an integer significand and a power of
  two; every operation computes the exact result (a quotient with a sticky bit) and rounds
  once. A result that is not a number is the default quiet NaN: C++ leaves its payload open.
\<close>

section \<open>Values\<close>

datatype fval = NaN | Inf bool | Fin bool nat int

definition f_sign :: "w32 \<Rightarrow> bool" where
  "f_sign w = (2 ^ 31 \<le> unat w)"

definition f_exp :: "w32 \<Rightarrow> nat" where
  "f_exp w = unat w div 2 ^ 23 mod 256"

definition f_frac :: "w32 \<Rightarrow> nat" where
  "f_frac w = unat w mod 2 ^ 23"

text \<open>\<open>Fin s m e\<close> is \<open>(-1)^s * m * 2^e\<close>; subnormal numbers have the exponent of the
  smallest normal one and no implicit bit.\<close>

definition f_decode :: "w32 \<Rightarrow> fval" where
  "f_decode w =
     (if f_exp w = 255 then (if f_frac w = 0 then Inf (f_sign w) else NaN)
      else if f_exp w = 0 then Fin (f_sign w) (f_frac w) (- 149)
      else Fin (f_sign w) (2 ^ 23 + f_frac w) (int (f_exp w) - 150))"

definition f_nan :: w32 where "f_nan = 0x7FC00000"

definition f_pack :: "bool \<Rightarrow> nat \<Rightarrow> w32" where
  "f_pack s n = of_nat ((if s then 2 ^ 31 else 0) + n)"

definition f_inf :: "bool \<Rightarrow> w32" where "f_inf s = f_pack s 0x7F800000"

definition f_zero :: "bool \<Rightarrow> w32" where "f_zero s = f_pack s 0"

fun bit_length :: "nat \<Rightarrow> nat" where
  "bit_length n = (if n = 0 then 0 else Suc (bit_length (n div 2)))"

declare bit_length.simps [simp del]

text \<open>Division by \<open>2^d\<close> to the nearest integer, ties to even.\<close>

definition rne_shift :: "nat \<Rightarrow> nat \<Rightarrow> nat" where
  "rne_shift m d =
     (let q = m div 2 ^ d; r = m mod 2 ^ d in
      if 2 * r < 2 ^ d then q
      else if 2 * r > 2 ^ d then q + 1
      else if even q then q else q + 1)"

text \<open>Rounding \<open>m * 2^e\<close>. The significand of the result has 24 bits, fewer at the
  smallest exponent; a carry out of it moves to the next exponent by itself.\<close>

definition f_round :: "bool \<Rightarrow> nat \<Rightarrow> int \<Rightarrow> w32" where
  "f_round s m e =
     (if m = 0 then f_zero s else
      let q = max (e + int (bit_length m) - 24) (- 149);
          n = (if q \<le> e then m * 2 ^ nat (e - q) else rne_shift m (nat (q - e)));
          bits = n + nat (q + 149) * 2 ^ 23
      in if 0x7F800000 \<le> bits then f_inf s else f_pack s bits)"

section \<open>Operations\<close>

definition fneg :: "w32 \<Rightarrow> w32" where
  "fneg w = (if f_sign w then of_nat (unat w - 2 ^ 31) else of_nat (unat w + 2 ^ 31))"

definition signed_mag :: "bool \<Rightarrow> nat \<Rightarrow> int" where
  "signed_mag s m = (if s then - int m else int m)"

definition fadd :: "w32 \<Rightarrow> w32 \<Rightarrow> w32" where
  "fadd x y =
     (case (f_decode x, f_decode y) of
        (NaN, _) \<Rightarrow> f_nan
      | (_, NaN) \<Rightarrow> f_nan
      | (Inf s, Inf t) \<Rightarrow> if s = t then f_inf s else f_nan
      | (Inf s, _) \<Rightarrow> f_inf s
      | (_, Inf t) \<Rightarrow> f_inf t
      | (Fin s m e, Fin t n f) \<Rightarrow>
          let g = min e f;
              v = signed_mag s (m * 2 ^ nat (e - g)) + signed_mag t (n * 2 ^ nat (f - g))
          in if v = 0 then f_zero (if m = 0 \<and> n = 0 then s \<and> t else False)
             else f_round (v < 0) (nat \<bar>v\<bar>) g)"

definition fsub :: "w32 \<Rightarrow> w32 \<Rightarrow> w32" where
  "fsub x y = fadd x (fneg y)"

definition fmul :: "w32 \<Rightarrow> w32 \<Rightarrow> w32" where
  "fmul x y =
     (case (f_decode x, f_decode y) of
        (NaN, _) \<Rightarrow> f_nan
      | (_, NaN) \<Rightarrow> f_nan
      | (Inf s, Inf t) \<Rightarrow> f_inf (s \<noteq> t)
      | (Inf s, Fin t n _) \<Rightarrow> if n = 0 then f_nan else f_inf (s \<noteq> t)
      | (Fin s m _, Inf t) \<Rightarrow> if m = 0 then f_nan else f_inf (s \<noteq> t)
      | (Fin s m e, Fin t n f) \<Rightarrow> f_round (s \<noteq> t) (m * n) (e + f))"

text \<open>The quotient is taken with 60 extra bits; the last bit says whether it is inexact.\<close>

definition fdiv :: "w32 \<Rightarrow> w32 \<Rightarrow> w32" where
  "fdiv x y =
     (case (f_decode x, f_decode y) of
        (NaN, _) \<Rightarrow> f_nan
      | (_, NaN) \<Rightarrow> f_nan
      | (Inf s, Inf t) \<Rightarrow> f_nan
      | (Inf s, Fin t _ _) \<Rightarrow> f_inf (s \<noteq> t)
      | (Fin s _ _, Inf t) \<Rightarrow> f_zero (s \<noteq> t)
      | (Fin s m e, Fin t n f) \<Rightarrow>
          if n = 0 then (if m = 0 then f_nan else f_inf (s \<noteq> t))
          else f_round (s \<noteq> t)
                 (2 * (m * 2 ^ 60 div n) + (if m * 2 ^ 60 mod n = 0 then 0 else 1)) (e - f - 61))"

text \<open>Comparison of finite values at the smaller exponent.\<close>

definition fin_int :: "bool \<Rightarrow> nat \<Rightarrow> int \<Rightarrow> int \<Rightarrow> int" where
  "fin_int s m e g = signed_mag s (m * 2 ^ nat (e - g))"

definition flt :: "w32 \<Rightarrow> w32 \<Rightarrow> bool" where
  "flt x y =
     (case (f_decode x, f_decode y) of
        (NaN, _) \<Rightarrow> False
      | (_, NaN) \<Rightarrow> False
      | (Inf s, Inf t) \<Rightarrow> s \<and> \<not> t
      | (Inf s, Fin _ _ _) \<Rightarrow> s
      | (Fin _ _ _, Inf t) \<Rightarrow> \<not> t
      | (Fin s m e, Fin t n f) \<Rightarrow> fin_int s m e (min e f) < fin_int t n f (min e f))"

definition feq :: "w32 \<Rightarrow> w32 \<Rightarrow> bool" where
  "feq x y =
     (case (f_decode x, f_decode y) of
        (NaN, _) \<Rightarrow> False
      | (_, NaN) \<Rightarrow> False
      | (Inf s, Inf t) \<Rightarrow> s = t
      | (Inf _, Fin _ _ _) \<Rightarrow> False
      | (Fin _ _ _, Inf _) \<Rightarrow> False
      | (Fin s m e, Fin t n f) \<Rightarrow> fin_int s m e (min e f) = fin_int t n f (min e f))"

definition fle :: "w32 \<Rightarrow> w32 \<Rightarrow> bool" where
  "fle x y = (flt x y \<or> feq x y)"

text \<open>\<open>float\<close> to \<open>int\<close> truncates; a value outside \<open>int\<close> has no defined result.\<close>

definition f2i :: "w32 \<Rightarrow> w32 option" where
  "f2i x =
     (case f_decode x of
        Fin s m e \<Rightarrow>
          let v = signed_mag s (if 0 \<le> e then m * 2 ^ nat e else m div 2 ^ nat (- e))
          in if - (2 ^ 31) \<le> v \<and> v < 2 ^ 31 then Some (word_of_int v) else None
      | _ \<Rightarrow> None)"

definition i2f :: "w32 \<Rightarrow> w32" where
  "i2f x = f_round (sint x < 0) (nat \<bar>sint x\<bar>) 0"

section \<open>Conversion to \<open>double\<close>\<close>

text \<open>The bits of an exact binary64 number with at most 53 significant bits.\<close>

definition d_encode :: "bool \<Rightarrow> nat \<Rightarrow> int \<Rightarrow> nat" where
  "d_encode s m e =
     (if s then 2 ^ 63 else 0) +
     (if m = 0 then 0
      else nat (e + int (bit_length m) - 1 + 1023) * 2 ^ 52
           + (m * 2 ^ (53 - bit_length m) - 2 ^ 52))"

definition f2d :: "w32 \<Rightarrow> nat" where
  "f2d x =
     (case f_decode x of
        NaN \<Rightarrow> 0x7FF8000000000000
      | Inf s \<Rightarrow> (if s then 2 ^ 63 else 0) + 0x7FF0000000000000
      | Fin s m e \<Rightarrow> d_encode s m e)"

definition i2d :: "w32 \<Rightarrow> nat" where
  "i2d x = d_encode (sint x < 0) (nat \<bar>sint x\<bar>) 0"

definition d_lo :: "nat \<Rightarrow> w32" where "d_lo d = of_nat (d mod 2 ^ 32)"
definition d_hi :: "nat \<Rightarrow> w32" where "d_hi d = of_nat (d div 2 ^ 32)"

section \<open>Facts\<close>

lemma fadd_commute: "fadd x y = fadd y x"
  by (auto simp: fadd_def min.commute add.commute conj_commute Let_def split: fval.splits)

lemma fmul_commute: "fmul x y = fmul y x"
  by (auto simp: fmul_def mult.commute add.commute eq_commute split: fval.splits)

lemma feq_commute: "feq x y = feq y x"
  by (auto simp: feq_def min.commute split: fval.splits)

lemma flt_asym: "flt x y \<Longrightarrow> \<not> flt y x"
  by (auto simp: flt_def min.commute split: fval.splits)

text \<open>Packing and unpacking agree: the fields of a packed word, and the word of its fields.\<close>

lemma unat_f_pack: "n < 2 ^ 31 \<Longrightarrow> unat (f_pack s n) = (if s then 2 ^ 31 else 0) + n"
  by (auto simp del: of_nat_add simp: f_pack_def unat_of_nat)

lemma f_fields_of_pack:
  assumes "n < 2 ^ 31"
  shows "f_sign (f_pack s n) = s" "f_exp (f_pack s n) = n div 2 ^ 23" "f_frac (f_pack s n) = n mod 2 ^ 23"
proof -
  show "f_sign (f_pack s n) = s" using assms by (simp add: f_sign_def unat_f_pack)
  have "(2 ^ 31 + n) div 2 ^ 23 = 256 + n div 2 ^ 23" by simp
  moreover have "n div 2 ^ 23 < 256" using assms by simp
  ultimately show "f_exp (f_pack s n) = n div 2 ^ 23"
    using assms by (auto simp: f_exp_def unat_f_pack simp del: div_mult2_eq)
  have "(2 ^ 31 + n) mod 2 ^ 23 = n mod 2 ^ 23"
    using mod_mult_self1 [of n 256 "2 ^ 23"] by (simp add: add.commute)
  then show "f_frac (f_pack s n) = n mod 2 ^ 23" using assms by (simp add: f_frac_def unat_f_pack)
qed

lemma f_pack_fields: "f_pack (f_sign w) (f_exp w * 2 ^ 23 + f_frac w) = w"
proof -
  have lt: "unat w < 2 ^ 32" using unsigned_less [of w] by simp
  have "unat w mod 2 ^ 31 = f_exp w * 2 ^ 23 + f_frac w"
    using mod_mult2_eq [of "unat w" "2 ^ 23" "256"] by (simp add: f_exp_def f_frac_def)
  moreover have "unat w = (if f_sign w then 2 ^ 31 else 0) + unat w mod 2 ^ 31"
  proof (cases "f_sign w")
    case True
    then have "unat w mod 2 ^ 31 = unat w - 2 ^ 31"
      using lt by (simp add: f_sign_def mod_if)
    then show ?thesis using True by (simp add: f_sign_def)
  next
    case False
    then show ?thesis by (simp add: f_sign_def)
  qed
  ultimately have "f_pack (f_sign w) (f_exp w * 2 ^ 23 + f_frac w) = of_nat (unat w)"
    unfolding f_pack_def by metis
  then show ?thesis by simp
qed

lemma f_exp_le: "f_exp w \<le> 255" by (simp add: f_exp_def less_Suc_eq_le [symmetric])
lemma f_frac_lt: "f_frac w < 2 ^ 23" by (simp add: f_frac_def)

lemma bit_length_bounds: "0 < n \<Longrightarrow> 2 ^ (bit_length n - 1) \<le> n \<and> n < 2 ^ bit_length n"
proof (induction n rule: less_induct)
  case (less n)
  show ?case
  proof (cases "n = 1")
    case True
    moreover have "bit_length 1 = 1" by (simp add: bit_length.simps [of "Suc 0"] bit_length.simps [of 0])
    ultimately show ?thesis by simp
  next
    case False
    with less.prems have h: "0 < n div 2" "n div 2 < n" by auto
    from less.IH [OF h(2,1)] have IH: "2 ^ (bit_length (n div 2) - 1) \<le> n div 2" "n div 2 < 2 ^ bit_length (n div 2)"
      by auto
    have pos: "bit_length (n div 2) \<noteq> 0" using h(1) by (simp add: bit_length.simps [of "n div 2"])
    have b: "bit_length n = Suc (bit_length (n div 2))" using less.prems by (simp add: bit_length.simps [of n])
    have "(2::nat) ^ bit_length (n div 2) = 2 * 2 ^ (bit_length (n div 2) - 1)"
      using pos by (cases "bit_length (n div 2)") auto
    then show ?thesis using IH by (simp add: b) linarith
  qed
qed

lemma bit_length_unique:
  assumes "2 ^ k \<le> n" and "n < 2 ^ Suc k"
  shows "bit_length n = Suc k"
proof -
  have n: "0 < n" using assms(1) by (metis gr0I le_zero_eq power_not_zero zero_neq_numeral)
  note b = bit_length_bounds [OF n]
  have "bit_length n \<noteq> 0" using n by (simp add: bit_length.simps [of n])
  then obtain j where j: "bit_length n = Suc j" by (cases "bit_length n") auto
  have "(2::nat) ^ j < 2 ^ Suc k" using b assms j by simp
  moreover have "(2::nat) ^ k < 2 ^ Suc j" using b assms j by (metis le_less_trans)
  ultimately have "j < Suc k" "k < Suc j" by (metis power_less_imp_less_exp one_less_numeral_iff semiring_norm(76))+
  then show ?thesis using j by simp
qed

text \<open>Rounding is exact on a value the format holds: the bits come back.\<close>

lemma f_round_exact:
  assumes "f_decode w = Fin s m e"
  shows "f_round s (m * 2 ^ k) (e - int k) = w"
proof (cases "m = 0")
  case True
  then have "f_exp w = 0" "f_frac w = 0" "s = f_sign w"
    using assms by (auto simp: f_decode_def split: if_splits)
  then show ?thesis using f_pack_fields [of w] True by (simp add: f_round_def f_zero_def)
next
  case False
  have bl: "bit_length (m * 2 ^ k) = bit_length m + k" if "0 < m" for m k :: nat
  proof -
    from that have "bit_length m \<noteq> 0" by (simp add: bit_length.simps [of m])
    then obtain j where j: "bit_length m = Suc j" by (cases "bit_length m") auto
    note b = bit_length_bounds [OF that]
    have "2 ^ (j + k) \<le> m * 2 ^ k" "m * 2 ^ k < 2 ^ Suc (j + k)"
      using b j by (auto simp: power_add)
    then show ?thesis using bit_length_unique [of "j + k"] j by simp
  qed
  have r: "rne_shift (m * 2 ^ k) k = m" by (simp add: rne_shift_def)
  have d: "s = f_sign w \<and> (f_exp w = 0 \<and> e = -149 \<and> m = f_frac w
            \<or> f_exp w \<noteq> 0 \<and> f_exp w < 255 \<and> m = 2 ^ 23 + f_frac w \<and> e = int (f_exp w) - 150)"
    using assms f_exp_le [of w] by (auto simp: f_decode_def split: if_splits)
  have q: "max (e - int k + int (bit_length (m * 2 ^ k)) - 24) (- 149) = e"
    and bits: "m + nat (e + 149) * 2 ^ 23 = f_exp w * 2 ^ 23 + f_frac w"
  proof -
    show "max (e - int k + int (bit_length (m * 2 ^ k)) - 24) (- 149) = e"
    proof (cases "f_exp w = 0")
      case True
      then have m: "m < 2 ^ 23" "e = -149" using d f_frac_lt [of w] by auto
      have "bit_length m \<le> 23"
      proof (rule ccontr)
        assume "\<not> bit_length m \<le> 23"
        then have "(2::nat) ^ 23 \<le> 2 ^ (bit_length m - 1)" by (intro power_increasing) auto
        then show False using bit_length_bounds [of m] False m by simp
      qed
      then show ?thesis using bl [of m k] False m by simp
    next
      case n: False
      then have "bit_length m = 24"
        using bit_length_unique [of 23 m] d f_frac_lt [of w] by auto
      then show ?thesis using bl [of m k] False d n by auto
    qed
    show "m + nat (e + 149) * 2 ^ 23 = f_exp w * 2 ^ 23 + f_frac w"
    proof -
      have "f_exp w \<noteq> 0 \<Longrightarrow> nat (int (f_exp w) - 150 + 149) = f_exp w - 1" by simp
      moreover have "f_exp w \<noteq> 0 \<Longrightarrow> 2 ^ 23 + (f_exp w - 1) * 2 ^ 23 = f_exp w * 2 ^ 23"
        by (cases "f_exp w") simp_all
      ultimately show ?thesis using d by auto
    qed
  qed
  have n: "(if e \<le> e - int k then m * 2 ^ k * 2 ^ nat (e - int k - e)
            else rne_shift (m * 2 ^ k) (nat (e - (e - int k)))) = m"
    using r by simp
  have "f_exp w * 2 ^ 23 + f_frac w < 0x7F800000" using d f_frac_lt [of w] by auto
  then show ?thesis
    unfolding f_round_def Let_def q n bits using False d f_pack_fields [of w] by simp
qed

end
