(* ===== verification/Scalar.thy ===== *)
theory Scalar
  imports Common Float32
begin

text \<open>
  \<open>src/ir/scalar.hpp\<close> and the operator classes of \<open>src/ir/ir.hpp\<close>: the operators of the
  intermediate representation, their evaluation on typed scalars (the constant folder) and
  on raw 32-bit values (the interpreter), and the tests the value numbering relies on.
  Signed overflow wraps, as it does on the target; a division by zero, \<open>INT_MIN / -1\<close>, a
  shift by an illegal amount, a conversion that does not fit and a failed \<open>assert\<close> or
  \<open>throw\<close> are the value \<open>None\<close>.
\<close>

section \<open>Operators\<close>

datatype unary_compute = LNOT | NEG | ID | FNEG | F2I | I2F | F2D0 | F2D1

datatype binary_compute =
    ADD | SUB | MUL | DIV | LESS | LEQ | EQ | NEQ | MOD | SHL
  | FADD | FSUB | FMUL | FDIV | FLESS | FLEQ | FEQ | FNEQ

datatype typed_scalar = SInt w32 | SFloat w32

text \<open>The bits of a typed scalar, as a \<open>typeless_scalar_t\<close> holds them.\<close>

fun scalar_bits :: "typed_scalar \<Rightarrow> w32" where
  "scalar_bits (SInt x) = x"
| "scalar_bits (SFloat x) = x"

text \<open>\<open>std::variant\<close> equality: the same alternative and equal values.\<close>

fun scalar_eq :: "typed_scalar \<Rightarrow> typed_scalar \<Rightarrow> bool" where
  "scalar_eq (SInt x) (SInt y) = (x = y)"
| "scalar_eq (SFloat x) (SFloat y) = feq x y"
| "scalar_eq _ _ = False"

definition opt_scalar_eq :: "typed_scalar option \<Rightarrow> typed_scalar \<Rightarrow> bool" where
  "opt_scalar_eq s t = (case s of None \<Rightarrow> False | Some v \<Rightarrow> scalar_eq v t)"

definition f_one :: w32 where "f_one = 0x3F800000"
definition f_minus_zero :: w32 where "f_minus_zero = 0x80000000"

definition is_useless_unary :: "unary_compute \<Rightarrow> bool" where
  "is_useless_unary u = (u = ID)"

fun is_commutable_compute :: "binary_compute \<Rightarrow> bool" where
  "is_commutable_compute b =
     (if b = ADD then True else if b = FADD then True else if b = MUL then True
      else if b = FMUL then True else if b = EQ then True else if b = FEQ then True
      else if b = NEQ then True else if b = FNEQ then True else False)"

fun is_useless_compute :: "binary_compute \<Rightarrow> typed_scalar option \<Rightarrow> typed_scalar option \<Rightarrow> bool" where
  "is_useless_compute ADD s1 s2 = (opt_scalar_eq s1 (SInt 0) \<or> opt_scalar_eq s2 (SInt 0))"
| "is_useless_compute FADD s1 s2 =
     (opt_scalar_eq s1 (SFloat f_minus_zero) \<or> opt_scalar_eq s2 (SFloat f_minus_zero))"
| "is_useless_compute SUB s1 s2 = opt_scalar_eq s2 (SInt 0)"
| "is_useless_compute FSUB s1 s2 = opt_scalar_eq s2 (SFloat 0)"
| "is_useless_compute MUL s1 s2 = (opt_scalar_eq s1 (SInt 1) \<or> opt_scalar_eq s2 (SInt 1))"
| "is_useless_compute FMUL s1 s2 = (opt_scalar_eq s1 (SFloat f_one) \<or> opt_scalar_eq s2 (SFloat f_one))"
| "is_useless_compute DIV s1 s2 = opt_scalar_eq s2 (SInt 1)"
| "is_useless_compute FDIV s1 s2 = opt_scalar_eq s2 (SFloat f_one)"
| "is_useless_compute _ s1 s2 = False"

section \<open>Evaluation on typed scalars\<close>

definition of_bool32 :: "bool \<Rightarrow> w32" where
  "of_bool32 b = (if b then 1 else 0)"

text \<open>\<open>/\<close> and \<open>%\<close> on \<open>int32_t\<close>: they trap when the quotient does not exist.\<close>

definition i_div :: "w32 \<Rightarrow> w32 \<Rightarrow> w32 option" where
  "i_div x y = (if y = 0 \<or> sint x = - (2 ^ 31) \<and> sint y = - 1 then None
                else Some (word_of_int (c_quot (sint x) (sint y))))"

definition i_mod :: "w32 \<Rightarrow> w32 \<Rightarrow> w32 option" where
  "i_mod x y = (if y = 0 \<or> sint x = - (2 ^ 31) \<and> sint y = - 1 then None
                else Some (word_of_int (c_rem (sint x) (sint y))))"

text \<open>\<open>typed_compute\<close> of a unary operator at \<open>int32_t\<close> and at \<open>float\<close>.\<close>

fun typed_unary_int :: "unary_compute \<Rightarrow> w32 \<Rightarrow> typed_scalar option" where
  "typed_unary_int LNOT s = Some (SInt (of_bool32 (s = 0)))"
| "typed_unary_int NEG s = Some (SInt (- s))"
| "typed_unary_int ID s = Some (SInt s)"
| "typed_unary_int FNEG s = Some (SInt (- s))"
| "typed_unary_int F2I s = Some (SInt s)"
| "typed_unary_int I2F s = Some (SFloat (i2f s))"
| "typed_unary_int F2D0 s = Some (SFloat (d_lo (i2d s)))"
| "typed_unary_int F2D1 s = Some (SFloat (d_hi (i2d s)))"

fun typed_unary_float :: "unary_compute \<Rightarrow> w32 \<Rightarrow> typed_scalar option" where
  "typed_unary_float LNOT s = Some (SInt (of_bool32 (feq s 0)))"
| "typed_unary_float NEG s = Some (SFloat (fneg s))"
| "typed_unary_float ID s = Some (SFloat s)"
| "typed_unary_float FNEG s = Some (SFloat (fneg s))"
| "typed_unary_float F2I s = map_option SInt (f2i s)"
| "typed_unary_float I2F s = Some (SFloat s)"
| "typed_unary_float F2D0 s = Some (SFloat (d_lo (f2d s)))"
| "typed_unary_float F2D1 s = Some (SFloat (d_hi (f2d s)))"

fun typed_binary_int :: "binary_compute \<Rightarrow> w32 \<Rightarrow> w32 \<Rightarrow> typed_scalar option" where
  "typed_binary_int ADD s t = Some (SInt (s + t))"
| "typed_binary_int SUB s t = Some (SInt (s - t))"
| "typed_binary_int MUL s t = Some (SInt (s * t))"
| "typed_binary_int DIV s t = map_option SInt (i_div s t)"
| "typed_binary_int LESS s t = Some (SInt (of_bool32 (s <s t)))"
| "typed_binary_int LEQ s t = Some (SInt (of_bool32 (s <=s t)))"
| "typed_binary_int EQ s t = Some (SInt (of_bool32 (s = t)))"
| "typed_binary_int NEQ s t = Some (SInt (of_bool32 (s \<noteq> t)))"
| "typed_binary_int MOD s t = map_option SInt (i_mod s t)"
| "typed_binary_int SHL s t = None"
| "typed_binary_int FADD s t = Some (SInt (s + t))"
| "typed_binary_int FSUB s t = Some (SInt (s - t))"
| "typed_binary_int FMUL s t = Some (SInt (s * t))"
| "typed_binary_int FDIV s t = map_option SInt (i_div s t)"
| "typed_binary_int FLESS s t = Some (SInt (of_bool32 (s <s t)))"
| "typed_binary_int FLEQ s t = Some (SInt (of_bool32 (s <=s t)))"
| "typed_binary_int FEQ s t = Some (SInt (of_bool32 (s = t)))"
| "typed_binary_int FNEQ s t = Some (SInt (of_bool32 (s \<noteq> t)))"

fun typed_binary_float :: "binary_compute \<Rightarrow> w32 \<Rightarrow> w32 \<Rightarrow> typed_scalar option" where
  "typed_binary_float ADD s t = Some (SFloat (fadd s t))"
| "typed_binary_float SUB s t = Some (SFloat (fsub s t))"
| "typed_binary_float MUL s t = Some (SFloat (fmul s t))"
| "typed_binary_float DIV s t = Some (SFloat (fdiv s t))"
| "typed_binary_float LESS s t = Some (SInt (of_bool32 (flt s t)))"
| "typed_binary_float LEQ s t = Some (SInt (of_bool32 (fle s t)))"
| "typed_binary_float EQ s t = Some (SInt (of_bool32 (feq s t)))"
| "typed_binary_float NEQ s t = Some (SInt (of_bool32 (\<not> feq s t)))"
| "typed_binary_float MOD s t = None"
| "typed_binary_float SHL s t = None"
| "typed_binary_float FADD s t = Some (SFloat (fadd s t))"
| "typed_binary_float FSUB s t = Some (SFloat (fsub s t))"
| "typed_binary_float FMUL s t = Some (SFloat (fmul s t))"
| "typed_binary_float FDIV s t = Some (SFloat (fdiv s t))"
| "typed_binary_float FLESS s t = Some (SInt (of_bool32 (flt s t)))"
| "typed_binary_float FLEQ s t = Some (SInt (of_bool32 (fle s t)))"
| "typed_binary_float FEQ s t = Some (SInt (of_bool32 (feq s t)))"
| "typed_binary_float FNEQ s t = Some (SInt (of_bool32 (\<not> feq s t)))"

fun compute_unary_typed :: "unary_compute \<Rightarrow> typed_scalar \<Rightarrow> typed_scalar option" where
  "compute_unary_typed u (SInt s) = typed_unary_int u s"
| "compute_unary_typed u (SFloat s) = typed_unary_float u s"

fun compute_binary_typed :: "binary_compute \<Rightarrow> typed_scalar \<Rightarrow> typed_scalar \<Rightarrow> typed_scalar option" where
  "compute_binary_typed b (SInt s) (SInt t) = typed_binary_int b s t"
| "compute_binary_typed b (SFloat s) (SFloat t) = typed_binary_float b s t"
| "compute_binary_typed b _ _ = None"

section \<open>Evaluation on raw values\<close>

text \<open>The two members \<open>f0\<close>, \<open>f1\<close> of the union overlay the same (lower) half of the
  \<open>double\<close>.\<close>

fun compute_unary :: "unary_compute \<Rightarrow> w32 \<Rightarrow> w32 option" where
  "compute_unary LNOT s = Some (of_bool32 (s = 0))"
| "compute_unary NEG s = Some (- s)"
| "compute_unary ID s = Some s"
| "compute_unary FNEG s = Some (fneg s)"
| "compute_unary F2I s = f2i s"
| "compute_unary I2F s = Some (i2f s)"
| "compute_unary F2D0 s = Some (d_lo (f2d s))"
| "compute_unary F2D1 s = Some (d_lo (f2d s))"

fun compute_binary :: "binary_compute \<Rightarrow> w32 \<Rightarrow> w32 \<Rightarrow> w32 option" where
  "compute_binary ADD s t = Some (s + t)"
| "compute_binary SUB s t = Some (s - t)"
| "compute_binary MUL s t = Some (s * t)"
| "compute_binary DIV s t =
     (if t \<noteq> 0 \<and> \<not> (sint s = - 2147483648 \<and> sint t = - 1) then i_div s t else Some 0)"
| "compute_binary LESS s t = Some (of_bool32 (s <s t))"
| "compute_binary LEQ s t = Some (of_bool32 (s <=s t))"
| "compute_binary EQ s t = Some (of_bool32 (s = t))"
| "compute_binary NEQ s t = Some (of_bool32 (s \<noteq> t))"
| "compute_binary MOD s t = (if t \<noteq> 0 then i_mod s t else Some 0)"
| "compute_binary SHL s t = (if 0 \<le> sint t \<and> sint t < 32 then Some (push_bit (unat t) s) else None)"
| "compute_binary FADD s t = Some (fadd s t)"
| "compute_binary FSUB s t = Some (fsub s t)"
| "compute_binary FMUL s t = Some (fmul s t)"
| "compute_binary FDIV s t = Some (fdiv s t)"
| "compute_binary FLESS s t = Some (of_bool32 (flt s t))"
| "compute_binary FLEQ s t = Some (of_bool32 (fle s t))"
| "compute_binary FEQ s t = Some (of_bool32 (feq s t))"
| "compute_binary FNEQ s t = Some (of_bool32 (\<not> feq s t))"

section \<open>The operator classes\<close>

fun unary_input_type :: "unary_compute \<Rightarrow> scalar_type" where
  "unary_input_type u = (if u = FNEG \<or> u = F2I \<or> u = F2D0 \<or> u = F2D1 then FloatT else IntT)"

fun unary_ret_type :: "unary_compute \<Rightarrow> scalar_type" where
  "unary_ret_type u = (if u = FNEG \<or> u = I2F \<or> u = F2D0 \<or> u = F2D1 then FloatT else IntT)"

fun binary_ret_type :: "binary_compute \<Rightarrow> scalar_type" where
  "binary_ret_type b = (if b = FADD \<or> b = FSUB \<or> b = FMUL \<or> b = FDIV then FloatT else IntT)"

fun binary_input_type :: "binary_compute \<Rightarrow> scalar_type" where
  "binary_input_type b =
     (if b = FLESS \<or> b = FLEQ \<or> b = FEQ \<or> b = FNEQ then FloatT else binary_ret_type b)"

text \<open>The constructors pick the floating-point operator; a failed \<open>assert\<close> is \<open>None\<close>.\<close>

fun unary_op :: "scalar_type \<Rightarrow> unary_compute \<Rightarrow> unary_compute option" where
  "unary_op ty u =
     (if unary_input_type u \<noteq> IntT \<or> unary_ret_type u \<noteq> IntT then None
      else case ty of
        IntT \<Rightarrow> Some u
      | FloatT \<Rightarrow> (case u of NEG \<Rightarrow> Some FNEG | _ \<Rightarrow> None)
      | _ \<Rightarrow> None)"

fun binary_op :: "scalar_type \<Rightarrow> binary_compute \<Rightarrow> binary_compute option" where
  "binary_op ty b =
     (if binary_ret_type b \<noteq> IntT then None
      else case ty of
        IntT \<Rightarrow> Some b
      | FloatT \<Rightarrow>
          (case b of
             ADD \<Rightarrow> Some FADD | SUB \<Rightarrow> Some FSUB | MUL \<Rightarrow> Some FMUL | DIV \<Rightarrow> Some FDIV
           | LESS \<Rightarrow> Some FLESS | LEQ \<Rightarrow> Some FLEQ | EQ \<Rightarrow> Some FEQ | NEQ \<Rightarrow> Some FNEQ
           | _ \<Rightarrow> None)
      | _ \<Rightarrow> None)"

fun binary_comm :: "binary_compute \<Rightarrow> bool" where
  "binary_comm b = (b = ADD \<or> b = MUL \<or> b = EQ \<or> b = NEQ)"

fun unary_name :: "unary_compute \<Rightarrow> string" where
  "unary_name LNOT = ''!''"
| "unary_name NEG = ''-''"
| "unary_name ID = ''+''"
| "unary_name FNEG = ''(-F)''"
| "unary_name F2I = ''(int)''"
| "unary_name I2F = ''(float)''"
| "unary_name F2D0 = ''(double.0)''"
| "unary_name F2D1 = ''(double.1)''"

fun binary_name :: "binary_compute \<Rightarrow> string" where
  "binary_name ADD = ''+''"
| "binary_name SUB = ''-''"
| "binary_name MUL = ''*''"
| "binary_name DIV = ''/''"
| "binary_name LESS = ''<''"
| "binary_name LEQ = ''<=''"
| "binary_name EQ = ''==''"
| "binary_name NEQ = ''!=''"
| "binary_name MOD = ''%''"
| "binary_name SHL = ''<<''"
| "binary_name FADD = ''(F+F)''"
| "binary_name FSUB = ''(F-F)''"
| "binary_name FMUL = ''(F*F)''"
| "binary_name FDIV = ''(F/F)''"
| "binary_name FLESS = ''(F<F)''"
| "binary_name FLEQ = ''(F<=F)''"
| "binary_name FEQ = ''(F==F)''"
| "binary_name FNEQ = ''(F!=F)''"

section \<open>Facts\<close>

lemma sint_eq_iff: "sint (x :: w32) = sint y \<longleftrightarrow> x = y"
  by (metis w32_of_int_sint)

lemma sint_zero_iff: "sint (x :: w32) = 0 \<longleftrightarrow> x = 0"
  using sint_eq_iff [of x 0] by simp

text \<open>The folder and the interpreter agree at the types an operator is meant for.\<close>

definition scalar_has_type :: "typed_scalar \<Rightarrow> scalar_type \<Rightarrow> bool" where
  "scalar_has_type s t = (case s of SInt _ \<Rightarrow> t = IntT | SFloat _ \<Rightarrow> t = FloatT)"

lemma typed_binary_agrees:
  assumes "scalar_has_type s (binary_input_type b)" and "scalar_has_type t (binary_input_type b)"
    and "compute_binary_typed b s t = Some v"
  shows "compute_binary b (scalar_bits s) (scalar_bits t) = Some (scalar_bits v)
     \<and> scalar_has_type v (binary_ret_type b)"
  using assms
  by (cases b; cases s; cases t) (auto simp: scalar_has_type_def i_div_def i_mod_def)

lemma typed_unary_agrees:
  assumes "scalar_has_type s (unary_input_type u)" and "compute_unary_typed u s = Some v"
    and "u \<noteq> F2D1"
  shows "compute_unary u (scalar_bits s) = Some (scalar_bits v)
     \<and> scalar_has_type v (unary_ret_type u)"
  using assms by (cases u; cases s) (auto simp: scalar_has_type_def)

text \<open>Two finite numbers that compare equal have the same bits, zeros apart.\<close>

definition is_nan :: "w32 \<Rightarrow> bool" where
  "is_nan x = (f_decode x = NaN)"

definition is_fzero :: "w32 \<Rightarrow> bool" where
  "is_fzero x = (\<exists>s e. f_decode x = Fin s 0 e)"

lemma f_decode_Inf: "f_decode x = Inf s \<Longrightarrow> x = f_inf s"
  using f_pack_fields [of x] by (auto simp: f_decode_def f_inf_def split: if_splits)

lemma feq_bits:
  assumes "feq x y" and "\<not> is_fzero x"
  shows "x = y"
proof (cases "f_decode x")
  case NaN
  then show ?thesis using assms by (simp add: feq_def)
next
  case (Inf s)
  then have "f_decode y = Inf s" using assms by (auto simp: feq_def split: fval.splits)
  then show ?thesis using Inf by (metis f_decode_Inf)
next
  case x: (Fin s m e)
  then obtain t n f where y: "f_decode y = Fin t n f"
    and eq: "fin_int s m e (min e f) = fin_int t n f (min e f)"
    using assms by (auto simp: feq_def split: fval.splits)
  define g where "g = min e f"
  define M where "M = m * 2 ^ nat (e - g)"
  define N where "N = n * 2 ^ nat (f - g)"
  have m: "m \<noteq> 0" using assms(2) x by (auto simp: is_fzero_def)
  have MN: "signed_mag s M = signed_mag t N" using eq by (simp add: fin_int_def M_def N_def g_def)
  have "M \<noteq> 0" using m by (simp add: M_def)
  with MN have st: "s = t" "M = N" by (auto simp: signed_mag_def split: if_splits)
  have "f_round s M g = x" using f_round_exact [OF x, of "nat (e - g)"] by (simp add: M_def g_def)
  moreover have "f_round t N g = y" using f_round_exact [OF y, of "nat (f - g)"] by (simp add: N_def g_def)
  ultimately show ?thesis using st by simp
qed

lemma feq_zero: "feq x y \<Longrightarrow> is_fzero y \<Longrightarrow> is_fzero x"
  by (auto simp: feq_def is_fzero_def fin_int_def signed_mag_def split: fval.splits if_splits)

lemma feq_of_zeros: "is_fzero x \<Longrightarrow> is_fzero y \<Longrightarrow> feq x y"
  by (auto simp: feq_def is_fzero_def fin_int_def signed_mag_def)

lemma feq_refl: "\<not> is_nan x \<Longrightarrow> feq x x"
  by (auto simp: feq_def is_nan_def split: fval.splits)

text \<open>Equal up to the sign of a zero and the payload of a NaN.\<close>

definition same_float :: "w32 \<Rightarrow> w32 \<Rightarrow> bool" where
  "same_float x y = (x = y \<or> feq x y \<or> is_nan x \<and> is_nan y)"

lemma f_decode_nan [simp]: "f_decode f_nan = NaN"
  by (simp add: f_decode_def f_nan_def f_exp_def f_frac_def)

lemma f_decode_one: "f_decode f_one = Fin False (2 ^ 23) (- 23)"
  by (simp add: f_decode_def f_one_def f_exp_def f_frac_def f_sign_def)

lemma f_zero_decode: "f_decode (f_zero s) = Fin s 0 (- 149)"
  by (simp add: f_decode_def f_zero_def f_fields_of_pack)

lemma f_zero_fzero [simp]: "is_fzero (f_zero s)"
  by (simp add: f_zero_decode is_fzero_def)

lemma f_zero_values: "f_zero False = 0" "f_zero True = f_minus_zero"
  by (simp_all add: f_zero_def f_pack_def f_minus_zero_def)

lemma fadd_zero:
  assumes "is_fzero z"
  shows "same_float (fadd x z) x"
proof -
  from assms obtain t f where z: "f_decode z = Fin t 0 f" by (auto simp: is_fzero_def)
  show ?thesis
  proof (cases "f_decode x")
    case NaN
    then show ?thesis by (simp add: same_float_def fadd_def is_nan_def)
  next
    case (Inf s)
    then show ?thesis using z f_decode_Inf [OF Inf] by (simp add: same_float_def fadd_def)
  next
    case x: (Fin s m e)
    show ?thesis
    proof (cases "m = 0")
      case True
      then have "is_fzero x" using x by (simp add: is_fzero_def)
      moreover have "is_fzero (fadd x z)"
        using True x z by (simp add: fadd_def signed_mag_def Let_def)
      ultimately show ?thesis by (simp add: same_float_def feq_of_zeros)
    next
      case False
      let ?g = "min e f"
      define M where "M = m * 2 ^ nat (e - ?g)"
      have "M \<noteq> 0" using False by (simp add: M_def)
      then have "fadd x z = f_round s M ?g"
        using False x z by (simp add: fadd_def signed_mag_def Let_def flip: M_def)
      then show ?thesis
        using f_round_exact [OF x, of "nat (e - ?g)"] by (simp add: same_float_def M_def)
    qed
  qed
qed

lemma fneg_zero: "is_fzero z \<Longrightarrow> is_fzero (fneg z)"
proof -
  assume "is_fzero z"
  then have "f_exp z = 0" "f_frac z = 0"
    by (auto simp: is_fzero_def f_decode_def split: if_splits)
  then have "z = f_zero (f_sign z)" using f_pack_fields [of z] by (simp add: f_zero_def)
  then have "z = 0 \<or> z = f_minus_zero" using f_zero_values by (cases "f_sign z") auto
  then have "fneg z = f_zero True \<or> fneg z = f_zero False"
    by (auto simp: fneg_def f_zero_values f_sign_def f_minus_zero_def)
  then show ?thesis by (elim disjE) simp_all
qed

lemma fmul_one: "same_float (fmul x f_one) x"
proof (cases "f_decode x")
  case NaN
  then show ?thesis by (simp add: same_float_def fmul_def is_nan_def)
next
  case (Inf s)
  then show ?thesis using f_decode_Inf [OF Inf] by (simp add: same_float_def fmul_def f_decode_one)
next
  case x: (Fin s m e)
  have "fmul x f_one = f_round s (m * 2 ^ 23) (e - int 23)"
    using x by (simp add: fmul_def f_decode_one)
  then show ?thesis using f_round_exact [OF x, of 23] by (simp add: same_float_def)
qed

lemma fdiv_one: "same_float (fdiv x f_one) x"
proof (cases "f_decode x")
  case NaN
  then show ?thesis by (simp add: same_float_def fdiv_def is_nan_def)
next
  case (Inf s)
  then show ?thesis using f_decode_Inf [OF Inf] by (simp add: same_float_def fdiv_def f_decode_one)
next
  case x: (Fin s m e)
  have "m * 2 ^ 60 = (m * 2 ^ 37) * 2 ^ 23" by simp
  then have "m * 2 ^ 60 div 2 ^ 23 = m * 2 ^ 37" "m * 2 ^ 60 mod 2 ^ 23 = 0"
    by (metis nonzero_mult_div_cancel_right power_not_zero zero_neq_numeral, metis mod_mult_self2_is_0)
  then have "fdiv x f_one = f_round s (m * 2 ^ 38) (e - int 38)"
    using x by (simp add: fdiv_def f_decode_one mult.commute)
  then show ?thesis using f_round_exact [OF x, of 38] by (simp add: same_float_def)
qed

lemma feq_one: "feq c f_one \<Longrightarrow> c = f_one"
  using feq_bits [of f_one c] by (auto simp: feq_commute is_fzero_def f_decode_one)

lemma feq_zero_const: "feq c 0 \<Longrightarrow> is_fzero c" "feq c f_minus_zero \<Longrightarrow> is_fzero c"
  using feq_zero f_zero_fzero f_zero_values by metis+

lemma i_div_one: "i_div x 1 = Some x"
proof -
  have "sgn (sint x) * \<bar>sint x\<bar> = sint x" by (rule sgn_mult_abs)
  then have "c_quot (sint x) 1 = sint x" by (simp add: c_quot_def)
  then show ?thesis by (simp add: i_div_def)
qed

text \<open>When the numbering pass calls an operation useless because one operand is a known
  constant, the result is the other operand.\<close>

lemma useless_right_const:
  assumes "is_useless_compute b None (Some c)"
  shows "\<exists>v. compute_binary b x (scalar_bits c) = Some v \<and> same_float v x"
  using assms fadd_zero [of "scalar_bits c" x] fadd_zero [OF fneg_zero, of "scalar_bits c" x]
    fmul_one [of x] fdiv_one [of x]
  by (cases b; cases c)
    (auto simp: opt_scalar_eq_def i_div_one same_float_def fsub_def dest: feq_one feq_zero_const)

lemma useless_left_const:
  assumes "is_useless_compute b (Some c) None"
  shows "\<exists>v. compute_binary b (scalar_bits c) y = Some v \<and> same_float v y"
  using assms fadd_zero [of "scalar_bits c" y] fmul_one [of y]
    fadd_commute [of y "scalar_bits c"] fmul_commute [of y "scalar_bits c"]
  by (cases b; cases c)
    (auto simp: opt_scalar_eq_def same_float_def dest: feq_one feq_zero_const)

lemma commutable_sound: "is_commutable_compute b \<Longrightarrow> compute_binary b x y = compute_binary b y x"
  using fadd_commute [of x y] fmul_commute [of x y] feq_commute [of x y] eq_commute [of x y]
  by (cases b) simp_all

lemma binary_op_input_type:
  "binary_op ty b = Some b' \<Longrightarrow> binary_input_type b = IntT \<Longrightarrow> binary_input_type b' = ty"
  by (cases ty; cases b) auto

end
