(* ===== verification/IR.thy ===== *)
theory IR
  imports Scalar
begin

text \<open>
  The data of the intermediate representation (\<open>src/ir/ir.hpp\<close>) and the generic traversals
  of \<open>src/ir/ir.cpp\<close>. Pointers are keys: a basic block and a memory object carry a number
  that is unique in the compile unit, a function is named. A register is its \<open>id\<close>.
\<close>

section \<open>Registers, memory objects and scopes\<close>

type_synonym reg = int
type_synonym bb_key = nat
type_synonym obj_key = nat

text \<open>\<open>initial_value\<close>: \<open>NULL\<close>, an array of \<open>int32_t\<close> or \<open>float\<close>, or an array of \<open>char\<close>.\<close>

datatype init_data = NoData | WordData "w32 list" | CharData "8 word list"

record mem_object =
  mo_key :: obj_key
  mo_name :: string
  mo_size :: nat
  mo_offset :: w32
  mo_global :: bool
  mo_arg :: bool
  mo_init :: init_data
  mo_type :: scalar_type
  mo_is_const :: bool
  mo_is_volatile :: bool
  mo_dims :: "nat list"

record mem_scope =
  ms_name :: string
  ms_global :: bool
  ms_objects :: "mem_object list"
  ms_array_args :: "int \<rightharpoonup> obj_key"
  ms_array_arg_id :: "obj_key \<rightharpoonup> int"
  ms_size :: w32

definition mo_init_words :: "mem_object \<Rightarrow> scalar_type \<Rightarrow> w32 list \<Rightarrow> nat \<Rightarrow> mem_object" where
  "mo_init_words m ty xs sz = m\<lparr>mo_init := WordData xs, mo_type := ty, mo_size := sz\<rparr>"

definition mo_init_chars :: "mem_object \<Rightarrow> 8 word list \<Rightarrow> nat \<Rightarrow> mem_object" where
  "mo_init_chars m xs sz = m\<lparr>mo_init := CharData xs, mo_type := CharT, mo_size := sz\<rparr>"

definition is_single_var :: "mem_object \<Rightarrow> bool" where
  "is_single_var m = (\<not> mo_arg m \<and> mo_size m = 4 \<and> mo_dims m = [])"

text \<open>\<open>at<T>\<close> at a 4-byte type: an access that is out of range or not aligned reads 0.\<close>

definition mo_at :: "mem_object \<Rightarrow> nat \<Rightarrow> w32" where
  "mo_at m x =
     (if \<not> (x \<le> mo_size m \<and> x + 4 \<le> mo_size m) then 0
      else if x mod 4 \<noteq> 0 then 0
      else case mo_init m of WordData ws \<Rightarrow> ws ! (x div 4) | _ \<Rightarrow> 0)"

text \<open>\<open>set<T>\<close>: the same guards; a missing initial value is a failed \<open>assert\<close>.\<close>

definition mo_set :: "mem_object \<Rightarrow> nat \<Rightarrow> w32 \<Rightarrow> mem_object option" where
  "mo_set m x y =
     (if \<not> (x \<le> mo_size m \<and> x + 4 \<le> mo_size m) then Some m
      else if x mod 4 \<noteq> 0 then Some m
      else case mo_init m of
        WordData ws \<Rightarrow> Some (m\<lparr>mo_init := WordData (ws[x div 4 := y])\<rparr>)
      | _ \<Rightarrow> None)"

definition new_mem_object :: "mem_scope \<Rightarrow> obj_key \<Rightarrow> string \<Rightarrow> mem_scope" where
  "new_mem_object s k name =
     s\<lparr>ms_objects := ms_objects s @
       [\<lparr>mo_key = k, mo_name = ms_name s @ ''::'' @ name, mo_size = 0, mo_offset = 0,
         mo_global = ms_global s, mo_arg = False, mo_init = NoData, mo_type = IntT,
         mo_is_const = False, mo_is_volatile = False, mo_dims = []\<rparr>]\<rparr>"

definition ms_has :: "mem_scope \<Rightarrow> obj_key \<Rightarrow> bool" where
  "ms_has s k = (\<exists>m \<in> set (ms_objects s). mo_key m = k)"

definition ms_add :: "mem_scope \<Rightarrow> mem_object \<Rightarrow> mem_scope option" where
  "ms_add s m =
     (if mo_global m then None
      else Some (s\<lparr>ms_objects := ms_objects s @ [m\<lparr>mo_name := ms_name s @ ''::'' @ mo_name m\<rparr>]\<rparr>))"

definition ms_set_arg :: "mem_scope \<Rightarrow> int \<Rightarrow> obj_key \<Rightarrow> mem_scope option" where
  "ms_set_arg s i k =
     (if \<not> ms_has s k \<or> ms_array_args s i \<noteq> None \<or> ms_array_arg_id s k \<noteq> None then None
      else Some (s\<lparr>ms_objects := map (\<lambda>m. if mo_key m = k then m\<lparr>mo_arg := True\<rparr> else m) (ms_objects s),
                   ms_array_args := (ms_array_args s)(i \<mapsto> k),
                   ms_array_arg_id := (ms_array_arg_id s)(k \<mapsto> i)\<rparr>))"

section \<open>Instructions\<close>

datatype func_ref = NormalF string | LibF string

datatype simd_type =
    VADD_I32 | VADD_F32 | VSUB_I32 | VSUB_F32 | VMUL_S32 | VMUL_F32 | VMLA_S32 | VMLA_F32
  | VDUP_32 | VLDM | VSTM | VCVT_S32_F32 | VCVT_F32_S32

datatype instr =
    LoadAddr reg obj_key
  | LoadConstI reg w32
  | LoadConstF reg w32
  | LoadArg scalar_type reg int
  | UnaryOpI reg reg unary_compute
  | BinaryOpI reg reg reg binary_compute
  | LoadInstr reg reg w32 "reg option"
  | StoreInstr reg reg w32 "reg option"
  | JumpInstr bb_key
  | BranchInstr reg bb_key bb_key
  | ReturnInstr scalar_type reg bool
  | CallInstr reg func_ref "(reg \<times> scalar_type) list" scalar_type bool bool
  | ArrayIndex reg reg reg w32 w32
  | SIMDInstr reg func_ref simd_type "reg option" "nat list" nat
  | PhiInstr reg "(reg \<times> bb_key) list"

text \<open>\<open>Instr::map\<close>: every register by \<open>f1\<close>, every block by \<open>f2\<close>, every memory object by
  \<open>f3\<close>. (A SIMD instruction passes only its scalar source.)\<close>

fun map_instr :: "(reg \<Rightarrow> reg) \<Rightarrow> (bb_key \<Rightarrow> bb_key) \<Rightarrow> (obj_key \<Rightarrow> obj_key) \<Rightarrow> instr \<Rightarrow> instr" where
  "map_instr f1 f2 f3 (LoadAddr d k) = LoadAddr (f1 d) (f3 k)"
| "map_instr f1 f2 f3 (LoadConstI d v) = LoadConstI (f1 d) v"
| "map_instr f1 f2 f3 (LoadConstF d v) = LoadConstF (f1 d) v"
| "map_instr f1 f2 f3 (LoadArg t d i) = LoadArg t (f1 d) i"
| "map_instr f1 f2 f3 (UnaryOpI d s u) = UnaryOpI (f1 d) (f1 s) u"
| "map_instr f1 f2 f3 (BinaryOpI d s t b) = BinaryOpI (f1 d) (f1 s) (f1 t) b"
| "map_instr f1 f2 f3 (ArrayIndex d s t sz l) = ArrayIndex (f1 d) (f1 s) (f1 t) sz l"
| "map_instr f1 f2 f3 (LoadInstr d a off r) = LoadInstr (f1 d) (f1 a) off (map_option f1 r)"
| "map_instr f1 f2 f3 (StoreInstr a s off r) = StoreInstr (f1 a) (f1 s) off (map_option f1 r)"
| "map_instr f1 f2 f3 (JumpInstr b) = JumpInstr (f2 b)"
| "map_instr f1 f2 f3 (BranchInstr c b1 b0) = BranchInstr (f1 c) (f2 b1) (f2 b0)"
| "map_instr f1 f2 f3 (ReturnInstr t s ig) = ReturnInstr t (f1 s) ig"
| "map_instr f1 f2 f3 (SIMDInstr d f ty s rs n) = SIMDInstr d f ty (map_option f1 s) rs n"
| "map_instr f1 f2 f3 (CallInstr d f as t nl ns) =
     CallInstr (f1 d) f (map (\<lambda>(r, ty). (f1 r, ty)) as) t nl ns"
| "map_instr f1 f2 f3 (PhiInstr d us) = PhiInstr (f1 d) (map (\<lambda>(r, b). (f1 r, f2 b)) us)"

text \<open>\<open>map_use\<close>: the same walk, leaving the destination of a register-writing instruction.\<close>

fun map_use :: "(reg \<Rightarrow> reg) \<Rightarrow> instr \<Rightarrow> instr" where
  "map_use f (LoadAddr d k) = LoadAddr d k"
| "map_use f (LoadConstI d v) = LoadConstI d v"
| "map_use f (LoadConstF d v) = LoadConstF d v"
| "map_use f (LoadArg t d i) = LoadArg t d i"
| "map_use f (UnaryOpI d s u) = UnaryOpI d (f s) u"
| "map_use f (BinaryOpI d s t b) = BinaryOpI d (f s) (f t) b"
| "map_use f (ArrayIndex d s t sz l) = ArrayIndex d (f s) (f t) sz l"
| "map_use f (LoadInstr d a off r) = LoadInstr d (f a) off (map_option f r)"
| "map_use f (StoreInstr a s off r) = StoreInstr (f a) (f s) off (map_option f r)"
| "map_use f (JumpInstr b) = JumpInstr b"
| "map_use f (BranchInstr c b1 b0) = BranchInstr (f c) b1 b0"
| "map_use f (ReturnInstr t s ig) = ReturnInstr t (f s) ig"
| "map_use f (SIMDInstr d g ty s rs n) = SIMDInstr d g ty (map_option f s) rs n"
| "map_use f (CallInstr d g as t nl ns) =
     CallInstr d g (map (\<lambda>(r, ty). (f r, ty)) as) t nl ns"
| "map_use f (PhiInstr d us) = PhiInstr d (map (\<lambda>(r, b). (f r, b)) us)"

definition map_bb :: "(bb_key \<Rightarrow> bb_key) \<Rightarrow> instr \<Rightarrow> instr" where
  "map_bb f = map_instr (\<lambda>r. r) f (\<lambda>k. k)"

definition copy_instr :: "instr \<Rightarrow> instr" where
  "copy_instr = map_instr (\<lambda>r. r) (\<lambda>b. b) (\<lambda>k. k)"

text \<open>The replacement functions passed to these traversals.\<close>

definition partial_map1 :: "'a \<Rightarrow> 'a \<Rightarrow> 'a \<Rightarrow> 'a" where
  "partial_map1 a b x = (if x = a then b else x)"

definition partial_map :: "('a \<rightharpoonup> 'a) \<Rightarrow> 'a \<Rightarrow> 'a" where
  "partial_map mp x = (case mp x of Some y \<Rightarrow> y | None \<Rightarrow> x)"

definition sequential_map :: "('a \<Rightarrow> 'a) \<Rightarrow> ('a \<Rightarrow> 'a) \<Rightarrow> 'a \<Rightarrow> 'a" where
  "sequential_map a b x = b (a x)"

text \<open>The register an instruction writes and the registers it reads.\<close>

fun def_of :: "instr \<Rightarrow> reg option" where
  "def_of (LoadAddr d k) = Some d"
| "def_of (LoadConstI d v) = Some d"
| "def_of (LoadConstF d v) = Some d"
| "def_of (LoadArg t d i) = Some d"
| "def_of (UnaryOpI d s u) = Some d"
| "def_of (BinaryOpI d s t b) = Some d"
| "def_of (ArrayIndex d s t sz l) = Some d"
| "def_of (LoadInstr d a off r) = Some d"
| "def_of (SIMDInstr d g ty s rs n) = Some d"
| "def_of (CallInstr d g as t nl ns) = Some d"
| "def_of (PhiInstr d us) = Some d"
| "def_of _ = None"

fun uses_of :: "instr \<Rightarrow> reg list" where
  "uses_of (UnaryOpI d s u) = [s]"
| "uses_of (BinaryOpI d s t b) = [s, t]"
| "uses_of (ArrayIndex d s t sz l) = [s, t]"
| "uses_of (LoadInstr d a off r) = a # (case r of Some x \<Rightarrow> [x] | None \<Rightarrow> [])"
| "uses_of (StoreInstr a s off r) = [a, s] @ (case r of Some x \<Rightarrow> [x] | None \<Rightarrow> [])"
| "uses_of (BranchInstr c b1 b0) = [c]"
| "uses_of (ReturnInstr t s ig) = [s]"
| "uses_of (SIMDInstr d g ty s rs n) = (case s of Some x \<Rightarrow> [x] | None \<Rightarrow> [])"
| "uses_of (CallInstr d g as t nl ns) = map fst as"
| "uses_of (PhiInstr d us) = map fst us"
| "uses_of _ = []"

definition is_control :: "instr \<Rightarrow> bool" where
  "is_control i = (case i of JumpInstr _ \<Rightarrow> True | BranchInstr _ _ _ \<Rightarrow> True
     | ReturnInstr _ _ _ \<Rightarrow> True | _ \<Rightarrow> False)"

section \<open>Blocks, functions, the compile unit\<close>

record bb =
  bb_key :: bb_key
  bb_name :: string
  bb_instrs :: "instr list"
  bb_id :: int
  bb_disable_unroll :: bool
  bb_disable_parallel :: bool
  bb_thread_id :: int

text \<open>The editing operations of a block at an instruction list.\<close>

definition bb_push :: "instr \<Rightarrow> bb \<Rightarrow> bb" where
  "bb_push i b = b\<lparr>bb_instrs := bb_instrs b @ [i]\<rparr>"

definition bb_push_front :: "instr \<Rightarrow> bb \<Rightarrow> bb" where
  "bb_push_front i b = b\<lparr>bb_instrs := i # bb_instrs b\<rparr>"

definition bb_push1 :: "instr \<Rightarrow> bb \<Rightarrow> bb" where
  "bb_push1 i b = b\<lparr>bb_instrs := butlast (bb_instrs b) @ [i] @
     (if bb_instrs b = [] then [] else [last (bb_instrs b)])\<rparr>"

definition bb_pop :: "bb \<Rightarrow> bb" where
  "bb_pop b = b\<lparr>bb_instrs := butlast (bb_instrs b)\<rparr>"

text \<open>\<open>getOutNodes\<close>: the false target of a branch comes first.\<close>

definition out_nodes :: "bb \<Rightarrow> bb_key list option" where
  "out_nodes b =
     (if bb_instrs b = [] then None
      else case last (bb_instrs b) of
        JumpInstr t \<Rightarrow> Some [t]
      | BranchInstr _ t1 t0 \<Rightarrow> Some [t0, t1]
      | ReturnInstr _ _ _ \<Rightarrow> Some []
      | _ \<Rightarrow> None)"

text \<open>\<open>map_phi_use\<close> of a block.\<close>

definition map_phi_use :: "(reg \<Rightarrow> reg) \<Rightarrow> (bb_key \<Rightarrow> bb_key) \<Rightarrow> instr \<Rightarrow> instr" where
  "map_phi_use f1 f2 i =
     (case i of PhiInstr d us \<Rightarrow> PhiInstr d (map (\<lambda>(r, b). (f1 r, f2 b)) us) | _ \<Rightarrow> i)"

definition bb_map_phi_use :: "(reg \<Rightarrow> reg) \<Rightarrow> (bb_key \<Rightarrow> bb_key) \<Rightarrow> bb \<Rightarrow> bb" where
  "bb_map_phi_use f1 f2 b = b\<lparr>bb_instrs := map (map_phi_use f1 f2) (bb_instrs b)\<rparr>"

record nfunc =
  nf_name :: string
  nf_ignore_return_value :: bool
  nf_scope :: mem_scope
  nf_entry :: bb_key
  nf_bbs :: "bb list"
  nf_max_reg_id :: reg
  nf_max_bb_id :: int
  nf_reg_names :: "string list"
  nf_arg_types :: "scalar_type list"

record lib_func =
  lf_name :: string
  lf_ignore_return_value :: bool
  lf_array_args :: "int \<rightharpoonup> bool"
  lf_in :: bool
  lf_out :: bool
  lf_pure :: bool
  lf_impl :: "(w32 list \<Rightarrow> w32 option) option"

record compile_unit =
  cu_scope :: mem_scope
  cu_funcs :: "nfunc list"
  cu_lib_funcs :: "lib_func list"

definition new_reg_named :: "nfunc \<Rightarrow> string \<Rightarrow> reg \<times> nfunc" where
  "new_reg_named f name =
     (nf_max_reg_id f + 1,
      f\<lparr>nf_reg_names := nf_reg_names f @ [name], nf_max_reg_id := nf_max_reg_id f + 1\<rparr>)"

definition new_reg :: "nfunc \<Rightarrow> reg \<times> nfunc" where
  "new_reg f = new_reg_named f (''R'' @ digits_base 10 (nat (nf_max_reg_id f + 1)))"

definition find_func :: "compile_unit \<Rightarrow> string \<Rightarrow> nfunc option" where
  "find_func c name = find (\<lambda>f. nf_name f = name) (cu_funcs c)"

definition find_lib :: "compile_unit \<Rightarrow> string \<Rightarrow> lib_func option" where
  "find_lib c name = find (\<lambda>f. lf_name f = name) (cu_lib_funcs c)"

definition find_bb :: "compile_unit \<Rightarrow> bb_key \<Rightarrow> bb option" where
  "find_bb c k = find (\<lambda>b. bb_key b = k) (concat (map nf_bbs (cu_funcs c)))"

definition find_obj :: "compile_unit \<Rightarrow> obj_key \<Rightarrow> mem_object option" where
  "find_obj c k = find (\<lambda>m. mo_key m = k)
     (ms_objects (cu_scope c) @ concat (map (\<lambda>f. ms_objects (nf_scope f)) (cu_funcs c)))"

text \<open>\<open>map_use(f, mp_reg)\<close>: every use in a function, by a table.\<close>

definition func_map_use :: "(reg \<rightharpoonup> reg) \<Rightarrow> nfunc \<Rightarrow> nfunc" where
  "func_map_use mp f =
     f\<lparr>nf_bbs := map (\<lambda>b. b\<lparr>bb_instrs := map (map_use (partial_map mp)) (bb_instrs b)\<rparr>) (nf_bbs f)\<rparr>"

section \<open>Data layout\<close>

text \<open>\<open>compute_data_offset\<close>: the objects of a scope one after the other.\<close>

fun layout_objects :: "w32 \<Rightarrow> mem_object list \<Rightarrow> mem_object list \<times> w32" where
  "layout_objects sz [] = ([], sz)"
| "layout_objects sz (x # xs) =
     (let (xs', sz') = layout_objects (sz + of_nat (mo_size x)) xs in (x\<lparr>mo_offset := sz\<rparr> # xs', sz'))"

definition layout_scope :: "mem_scope \<Rightarrow> mem_scope" where
  "layout_scope s =
     (let (xs, sz) = layout_objects 0 (ms_objects s) in s\<lparr>ms_objects := xs, ms_size := sz\<rparr>)"

definition compute_data_offset :: "compile_unit \<Rightarrow> compile_unit" where
  "compute_data_offset c =
     c\<lparr>cu_scope := layout_scope (cu_scope c),
       cu_funcs := map (\<lambda>f. f\<lparr>nf_scope := layout_scope (nf_scope f)\<rparr>) (cu_funcs c)\<rparr>"

section \<open>Facts\<close>

lemma map_instr_id [simp]: "map_instr (\<lambda>r. r) (\<lambda>b. b) (\<lambda>k. k) i = i"
  by (cases i) (auto simp: option.map_ident)

lemma map_use_map_instr:
  "def_of i = None \<Longrightarrow> map_use f i = map_instr f (\<lambda>b. b) (\<lambda>k. k) i"
  by (cases i) auto

lemma def_of_map_use [simp]: "def_of (map_use f i) = def_of i"
  by (cases i) auto

lemma uses_of_map_use: "uses_of (map_use f i) = map f (uses_of i)"
  by (cases i) (auto split: option.splits)

lemma map_use_cong: "(\<And>r. r \<in> set (uses_of i) \<Longrightarrow> f r = g r) \<Longrightarrow> map_use f i = map_use g i"
  by (cases i) (force split: option.splits intro!: map_option_cong)+

lemma map_use_comp: "map_use f (map_use g i) = map_use (sequential_map g f) i"
  by (cases i) (auto simp: sequential_map_def [abs_def] option.map_comp o_def case_prod_beta)

lemma map_use_control [simp]: "is_control (map_use f i) = is_control i"
  by (cases i) (auto simp: is_control_def)

lemma out_nodes_map_use:
  "out_nodes (b\<lparr>bb_instrs := map (map_use f) (bb_instrs b)\<rparr>) = out_nodes b"
  by (cases "last (bb_instrs b)") (auto simp: out_nodes_def last_map)

lemma mo_set_at:
  assumes "mo_set m x v = Some m'" and "mo_init m = WordData ws" and "mo_size m = 4 * length ws"
    and "x mod 4 = 0" and "x + 4 \<le> mo_size m" and "y mod 4 = 0"
  shows "mo_at m' y = (if y = x then v else mo_at m y)"
proof -
  from assms(1,2,4,5) have m': "m' = m\<lparr>mo_init := WordData (ws[x div 4 := v])\<rparr>"
    by (auto simp: mo_set_def split: if_splits)
  have "x div 4 < length ws" using assms(3,5) by simp
  moreover have "y \<noteq> x \<Longrightarrow> y div 4 \<noteq> x div 4"
    using assms(4,6) by (metis mult_div_mod_eq)
  ultimately show ?thesis
    using assms(2,4,5) by (auto simp: m' mo_at_def nth_list_update)
qed

lemma layout_objects_length [simp]: "length (fst (layout_objects sz xs)) = length xs"
  by (induction sz xs rule: layout_objects.induct) (auto simp: case_prod_beta Let_def)

text \<open>As long as the total fits, an object's offset is the sum of the sizes before it.\<close>

lemma layout_objects_offset:
  "i < length xs \<Longrightarrow>
     mo_offset (fst (layout_objects sz xs) ! i) = sz + of_nat (sum_list (map mo_size (take i xs)))
     \<and> mo_size (fst (layout_objects sz xs) ! i) = mo_size (xs ! i)
     \<and> mo_key (fst (layout_objects sz xs) ! i) = mo_key (xs ! i)"
proof (induction xs arbitrary: sz i)
  case (Cons x xs)
  then show ?case by (cases i) (auto simp: case_prod_beta Let_def algebra_simps)
qed simp

lemma layout_objects_size: "snd (layout_objects sz xs) = sz + of_nat (sum_list (map mo_size xs))"
  by (induction xs arbitrary: sz) (auto simp: case_prod_beta Let_def algebra_simps)

lemma sum_list_take_mono:
  assumes "i < j" and "j < length xs"
  shows "sum_list (map mo_size (take i xs)) + mo_size (xs ! i) \<le> sum_list (map mo_size (take j xs))"
proof -
  have "take j xs = take (Suc i) xs @ take (j - Suc i) (drop (Suc i) xs)"
    using assms by (metis Suc_leI append_take_drop_id le_add_diff_inverse take_add)
  moreover have "take (Suc i) xs = take i xs @ [xs ! i]"
    using assms by (simp add: take_Suc_conv_app_nth)
  ultimately show ?thesis by simp
qed

lemma sum_list_take_le:
  fixes xs :: "nat list"
  shows "sum_list (take i xs) \<le> sum_list xs"
  by (metis append_take_drop_id le_add1 sum_list_append)

text \<open>Two objects of a laid-out scope do not overlap and lie inside the scope.\<close>

lemma layout_scope_disjoint:
  assumes total: "sum_list (map mo_size (ms_objects s)) < 2 ^ 32"
    and ij: "i < j" "j < length (ms_objects s)"
    and a: "a = ms_objects (layout_scope s) ! i" and b: "b = ms_objects (layout_scope s) ! j"
  shows "unat (mo_offset a) + mo_size a \<le> unat (mo_offset b)
     \<and> unat (mo_offset b) + mo_size b \<le> unat (ms_size (layout_scope s))"
proof -
  let ?xs = "ms_objects s"
  let ?t = "\<lambda>k. sum_list (map mo_size (take k ?xs))"
  have le: "?t k \<le> sum_list (map mo_size ?xs)" for k
    using sum_list_take_le [of k "map mo_size ?xs"] by (simp add: take_map)
  have un: "unat (of_nat (?t k) :: w32) = ?t k" for k
    using le [of k] total by (simp add: unat_of_nat)
  have obj: "mo_offset (ms_objects (layout_scope s) ! k) = of_nat (?t k)"
    "mo_size (ms_objects (layout_scope s) ! k) = mo_size (?xs ! k)" if "k < length ?xs" for k
    using layout_objects_offset [OF that, of 0] by (auto simp: layout_scope_def case_prod_beta Let_def)
  have size: "unat (ms_size (layout_scope s)) = sum_list (map mo_size ?xs)"
    using total by (simp add: layout_scope_def case_prod_beta Let_def layout_objects_size unat_of_nat)
  have step: "?t (Suc j) = ?t j + mo_size (?xs ! j)" using ij by (simp add: take_Suc_conv_app_nth)
  show ?thesis
    using ij un obj sum_list_take_mono [OF ij] size step le [of "Suc j"] by (simp add: a b)
qed

end
