(* ===== verification/IRExec.thy ===== *)
theory IRExec
  imports IR Config
begin

text \<open>
  \<open>exec\<close> of \<open>src/ir/ir.cpp\<close>, the interpreter of the intermediate representation, with the
  library functions of \<open>CompileUnit::CompileUnit\<close> and the SIMD instructions. The
  interpreter is a step loop over an explicit state: the word-addressed memory, the stack
  pointer, the running thread, the queue of suspended threads, the input and output text.
  A failed \<open>assert\<close> or an undefined operation is \<open>Stuck\<close>. The C++ loop may run forever, so
  the model has fuel; \<open>NoFuel\<close> says that it has run out. What C++ leaves indeterminate (a
  register never written, fresh memory) is a parameter of the run.
\<close>

datatype 'a outcome = Done 'a | Stuck | NoFuel

fun outcome_of_option :: "'a option \<Rightarrow> 'a outcome" where
  "outcome_of_option (Some x) = Done x"
| "outcome_of_option None = Stuck"

section \<open>Library functions\<close>

definition u64 :: "nat \<Rightarrow> nat" where "u64 n = n mod 2 ^ 64"

text \<open>A value of \<open>long long\<close>; overflow cannot happen in the uses below.\<close>

definition umulmod :: "w32 list \<Rightarrow> w32 option" where
  "umulmod args = (case args of
     [a, b, c] \<Rightarrow> if c = 0 then None else Some (of_nat (u64 (unat a * unat b) mod unat c))
   | _ \<Rightarrow> None)"

definition u_c_np1_2_mod :: "w32 list \<Rightarrow> w32 option" where
  "u_c_np1_2_mod args = (case args of
     [a, b] \<Rightarrow> if b = 0 then None else Some (of_nat (u64 (u64 (unat a * unat a) + unat a) div 2 mod unat b))
   | _ \<Rightarrow> None)"

definition s_c_np1_2 :: "w32 list \<Rightarrow> w32 option" where
  "s_c_np1_2 args = (case args of
     [a] \<Rightarrow> Some (word_of_int (c_quot (sint a * sint a + sint a) 2))
   | _ \<Rightarrow> None)"

definition umod_impl :: "w32 list \<Rightarrow> w32 option" where
  "umod_impl args = (case args of
     [a, b] \<Rightarrow> if b = 0 then None else Some (a mod b)
   | _ \<Rightarrow> None)"

definition fixmod_impl :: "w32 list \<Rightarrow> w32 option" where
  "fixmod_impl args = (case args of
     [a, b] \<Rightarrow> (case i_mod a b of None \<Rightarrow> None
               | Some r \<Rightarrow> Some (if r <s 0 then r + b else r))
   | _ \<Rightarrow> None)"

definition mla_impl :: "w32 list \<Rightarrow> w32 option" where
  "mla_impl args = (case args of [a, b, c] \<Rightarrow> Some (a + b * c) | _ \<Rightarrow> None)"

definition mls_impl :: "w32 list \<Rightarrow> w32 option" where
  "mls_impl args = (case args of [a, b, c] \<Rightarrow> Some (a - b * c) | _ \<Rightarrow> None)"

text \<open>\<open>a / (1 << b)\<close>: at \<open>b = 31\<close> the divisor is \<open>INT_MIN\<close>.\<close>

definition divpow2_impl :: "w32 list \<Rightarrow> w32 option" where
  "divpow2_impl args = (case args of
     [a, b] \<Rightarrow> if 32 \<le> unat b then Some 0 else i_div a (push_bit (unat b) 1)
   | _ \<Rightarrow> None)"

definition f_mov_to_i_impl :: "w32 list \<Rightarrow> w32 option" where
  "f_mov_to_i_impl args = (case args of [a] \<Rightarrow> Some a | _ \<Rightarrow> None)"

definition new_lib_func :: "string \<Rightarrow> bool \<Rightarrow> lib_func" where
  "new_lib_func name ig =
     \<lparr>lf_name = name, lf_ignore_return_value = ig, lf_array_args = Map.empty,
      lf_in = False, lf_out = False, lf_pure = False, lf_impl = None\<rparr>"

definition io_func :: "string \<Rightarrow> bool \<Rightarrow> lib_func" where
  "io_func name ig = (new_lib_func name ig)\<lparr>lf_in := True, lf_out := True\<rparr>"

definition pure_func :: "string \<Rightarrow> (w32 list \<Rightarrow> w32 option) \<Rightarrow> lib_func" where
  "pure_func name impl = (new_lib_func name False)\<lparr>lf_pure := True, lf_impl := Some impl\<rparr>"

definition lib_funcs :: "lib_func list" where
  "lib_funcs =
     [io_func ''__create_threads'' False, io_func ''__join_threads'' True, io_func ''__bind_core'' True,
      io_func ''__lock'' True, io_func ''__unlock'' True, io_func ''__ld_volatile'' False,
      io_func ''__st_volatile'' True, io_func ''__barrier'' True,
      pure_func ''__umulmod'' umulmod, pure_func ''__u_c_np1_2_mod'' u_c_np1_2_mod,
      pure_func ''__s_c_np1_2'' s_c_np1_2, pure_func ''__umod'' umod_impl,
      pure_func ''__fixmod'' fixmod_impl, pure_func ''__mla'' mla_impl, pure_func ''__mls'' mls_impl,
      pure_func ''__divpow2'' divpow2_impl, pure_func ''__f_mov_to_i'' f_mov_to_i_impl,
      io_func ''__simd'' True] @
     map (\<lambda>n. (new_lib_func n False)\<lparr>lf_in := True\<rparr>) [''getint'', ''getch'', ''getfloat''] @
     map (\<lambda>n. (new_lib_func n False)\<lparr>lf_array_args := [0 \<mapsto> True], lf_in := True\<rparr>)
       [''getarray'', ''getfarray''] @
     map (\<lambda>n. (new_lib_func n True)\<lparr>lf_out := True\<rparr>) [''putint'', ''putch'', ''putfloat''] @
     map (\<lambda>n. (new_lib_func n True)\<lparr>lf_array_args := [1 \<mapsto> False], lf_out := True\<rparr>)
       [''putarray'', ''putfarray''] @
     [(new_lib_func ''putf'' True)\<lparr>lf_array_args := [0 \<mapsto> False], lf_out := True\<rparr>,
      io_func ''starttime'' True, io_func ''stoptime'' True]"

section \<open>SIMD registers\<close>

type_synonym simd_file = "nat \<Rightarrow> nat \<Rightarrow> w32"

text \<open>One lane of \<open>SIMDInstr::compute\<close>: the destination lane from its old value and the
  two sources.\<close>

fun simd_lane :: "simd_type \<Rightarrow> w32 \<Rightarrow> w32 \<Rightarrow> w32 \<Rightarrow> w32 option" where
  "simd_lane VCVT_S32_F32 d s t = f2i s"
| "simd_lane VCVT_F32_S32 d s t = Some (i2f s)"
| "simd_lane VADD_I32 d s t = Some (s + t)"
| "simd_lane VADD_F32 d s t = Some (fadd s t)"
| "simd_lane VSUB_I32 d s t = Some (s - t)"
| "simd_lane VSUB_F32 d s t = Some (fsub s t)"
| "simd_lane VMUL_S32 d s t = Some (s * t)"
| "simd_lane VMUL_F32 d s t = Some (fmul s t)"
| "simd_lane VMLA_S32 d s t = Some (d + s * t)"
| "simd_lane VMLA_F32 d s t = Some (fadd d (fmul s t))"
| "simd_lane _ d s t = None"

definition set_lane :: "simd_file \<Rightarrow> nat \<Rightarrow> nat \<Rightarrow> w32 \<Rightarrow> simd_file" where
  "set_lane v r i x = v(r := (v r)(i := x))"

fun simd_loop :: "simd_type \<Rightarrow> nat \<Rightarrow> nat \<Rightarrow> nat \<Rightarrow> nat list \<Rightarrow> simd_file \<Rightarrow> simd_file option" where
  "simd_loop ty r0 r1 r2 [] v = Some v"
| "simd_loop ty r0 r1 r2 (i # is) v =
     (case simd_lane ty (v r0 i) (v r1 i) (v r2 i) of
        None \<Rightarrow> None
      | Some x \<Rightarrow> simd_loop ty r0 r1 r2 is (set_lane v r0 i x))"

definition simd_compute :: "simd_type \<Rightarrow> nat list \<Rightarrow> simd_file \<Rightarrow> simd_file option" where
  "simd_compute ty rs v =
     (case rs of
        [r0, r1, r2] \<Rightarrow>
          if ty = VCVT_S32_F32 \<or> ty = VCVT_F32_S32 \<or> 8 \<le> r0 \<or> 8 \<le> r1 \<or> 8 \<le> r2 then None
          else simd_loop ty r0 r1 r2 [0, 1, 2, 3] v
      | [r0, r1] \<Rightarrow>
          if \<not> (ty = VCVT_S32_F32 \<or> ty = VCVT_F32_S32) \<or> 8 \<le> r0 \<or> 8 \<le> r1 then None
          else simd_loop ty r0 r1 r1 [0, 1, 2, 3] v
      | _ \<Rightarrow> None)"

section \<open>State\<close>

record thread_ctx =
  th_bb :: "bb_key option"
  th_it :: nat
  th_id :: int
  th_waiting_id :: int
  th_waiting :: bool
  th_write_reg :: "(reg \<times> w32) option"
  th_simd :: simd_file

record exec_state =
  ex_mem :: "int \<Rightarrow> w32"
  ex_limit :: int
  ex_sp :: w32
  ex_cur :: thread_ctx
  ex_threads :: "thread_ctx list"
  ex_finished :: "int set"
  ex_fork_cnt :: int
  ex_in :: string
  ex_out :: string
  ex_eol :: bool
  ex_instr_cnt :: int
  ex_mem_r_cnt :: int
  ex_mem_w_cnt :: int
  ex_jump_cnt :: int
  ex_par_cnt :: int

text \<open>What a call of \<open>run\<close> keeps of its own.\<close>

record frame =
  fr_func :: nfunc
  fr_args :: "w32 list"
  fr_regs :: "reg \<rightharpoonup> w32"
  fr_tmps :: "reg \<rightharpoonup> w32"
  fr_last_bb :: "bb_key option"
  fr_time :: int
  fr_ret :: w32

record exec_env =
  env_unit :: compile_unit
  env_enable_phi :: bool
  env_junk :: w32
  env_junk_mem :: "int \<Rightarrow> w32"
  env_junk_simd :: simd_file

section \<open>Registers and memory\<close>

definition w_reg :: "reg \<Rightarrow> w32 \<Rightarrow> frame \<Rightarrow> frame option" where
  "w_reg x v fr =
     (if 1 \<le> x \<and> x \<le> nf_max_reg_id (fr_func fr) then Some (fr\<lparr>fr_regs := (fr_regs fr)(x \<mapsto> v)\<rparr>)
      else None)"

definition r_reg :: "exec_env \<Rightarrow> frame \<Rightarrow> reg \<Rightarrow> w32 option" where
  "r_reg env fr x =
     (if 1 \<le> x \<and> x \<le> nf_max_reg_id (fr_func fr)
      then Some (case fr_regs fr x of Some v \<Rightarrow> v | None \<Rightarrow> env_junk env)
      else None)"

definition mem_ok :: "exec_state \<Rightarrow> w32 \<Rightarrow> bool" where
  "mem_ok st a = (0 \<le> sint a \<and> sint a < ex_limit st \<and> sint a mod 4 = 0)"

definition w_mem :: "w32 \<Rightarrow> w32 \<Rightarrow> exec_state \<Rightarrow> exec_state option" where
  "w_mem a v st =
     (if mem_ok st a
      then Some (st\<lparr>ex_mem := (ex_mem st)(sint a div 4 := v), ex_mem_w_cnt := ex_mem_w_cnt st + 1\<rparr>)
      else None)"

definition r_mem :: "w32 \<Rightarrow> exec_state \<Rightarrow> (w32 \<times> exec_state) option" where
  "r_mem a st =
     (if mem_ok st a
      then Some (ex_mem st (sint a div 4), st\<lparr>ex_mem_r_cnt := ex_mem_r_cnt st + 1\<rparr>)
      else None)"

definition load_store_addr :: "exec_env \<Rightarrow> frame \<Rightarrow> reg \<Rightarrow> w32 \<Rightarrow> reg option \<Rightarrow> w32 option" where
  "load_store_addr env fr a off ro =
     do { base \<leftarrow> r_reg env fr a;
          case ro of
            None \<Rightarrow> Some (base + off)
          | Some r \<Rightarrow> do { x \<leftarrow> r_reg env fr r; Some (base + off + x * 4) } }"

section \<open>Threads\<close>

text \<open>The rotation of \<open>schedule\<close>: the first thread of the queue that does not wait for an
  unfinished one; the queue then starts after it. \<open>None\<close>: every thread waits, the loop of
  \<open>schedule\<close> never ends.\<close>

fun pick_thread :: "int set \<Rightarrow> thread_ctx list \<Rightarrow> thread_ctx list \<Rightarrow> (thread_ctx \<times> thread_ctx list) option" where
  "pick_thread fin [] skipped = None"
| "pick_thread fin (t # ts) skipped =
     (if th_waiting t \<and> th_waiting_id t \<notin> fin then pick_thread fin ts (skipped @ [t])
      else Some (t, ts @ skipped))"

definition schedule :: "frame \<Rightarrow> exec_state \<Rightarrow> (frame \<times> exec_state) outcome" where
  "schedule fr st =
     (if ex_threads st = [] then Stuck
      else case pick_thread (ex_finished st) (ex_threads st) [] of
        None \<Rightarrow> NoFuel
      | Some (t, ts) \<Rightarrow>
          (let st1 = st\<lparr>ex_cur := t\<lparr>th_waiting := False, th_write_reg := None\<rparr>, ex_threads := ts\<rparr>;
               fr1 = fr\<lparr>fr_time := 0\<rparr>
           in case th_write_reg t of
                None \<Rightarrow> Done (fr1, st1)
              | Some (r, v) \<Rightarrow> (case w_reg r v fr1 of None \<Rightarrow> Stuck | Some fr2 \<Rightarrow> Done (fr2, st1))))"

definition push_cur :: "exec_state \<Rightarrow> exec_state" where
  "push_cur st = st\<lparr>ex_threads := ex_threads st @ [ex_cur st]\<rparr>"

section \<open>Text of numbers\<close>

definition print_int :: "int \<Rightarrow> string" where
  "print_int i = (if i < 0 then ''-'' @ digits_base 10 (nat (- i)) else digits_base 10 (nat i))"

text \<open>\<open>%d\<close>: blanks, a sign, digits; a value that does not fit has no defined result.\<close>

definition scan_int :: "string \<Rightarrow> (w32 \<times> string) option" where
  "scan_int s =
     (let t = dropWhile is_space s;
          neg = (t \<noteq> [] \<and> hd t = CHR ''-'');
          u = (if t \<noteq> [] \<and> (hd t = CHR ''-'' \<or> hd t = CHR ''+'') then tl t else t)
      in if u = [] \<or> \<not> is_digit (hd u) then None
         else let (n, rest) = read_dec 0 u;
                  v = (if neg then - int n else int n)
              in if - (2 ^ 31) \<le> v \<and> v < 2 ^ 31 then Some (word_of_int v, rest) else None)"

definition strip_zeros :: "string \<Rightarrow> string" where
  "strip_zeros s = rev (dropWhile (\<lambda>c. c = CHR ''0'') (rev s))"

fun hex_fixed :: "nat \<Rightarrow> nat \<Rightarrow> string" where
  "hex_fixed 0 n = []"
| "hex_fixed (Suc k) n = hex_fixed k (n div 16) @ [digit_char (n mod 16)]"

text \<open>\<open>%a\<close> of a \<open>float\<close> promoted to \<open>double\<close>.\<close>

definition print_float_a :: "w32 \<Rightarrow> string" where
  "print_float_a x =
     (let sg = (if f_sign x then ''-'' else []) in
      case f_decode x of
        NaN \<Rightarrow> sg @ ''nan''
      | Inf _ \<Rightarrow> sg @ ''inf''
      | Fin s m e \<Rightarrow>
          if m = 0 then sg @ ''0x0p+0''
          else let frac = m * 2 ^ (53 - bit_length m) - 2 ^ 52;
                   ds = strip_zeros (hex_fixed 13 frac);
                   ex = e + int (bit_length m) - 1
               in sg @ ''0x1'' @ (if ds = [] then [] else ''.'' @ ds) @ ''p''
                    @ (if ex < 0 then print_int ex else ''+'' @ print_int ex))"

definition is_hex :: "char \<Rightarrow> bool" where
  "is_hex c = (is_digit c \<or> 97 \<le> char_code c \<and> char_code c \<le> 102 \<or> 65 \<le> char_code c \<and> char_code c \<le> 70)"

definition hex_digit :: "char \<Rightarrow> nat" where
  "hex_digit c = (if is_digit c then char_code c - 48
                  else if 97 \<le> char_code c then char_code c - 87 else char_code c - 55)"

definition digits_value :: "nat \<Rightarrow> string \<Rightarrow> nat" where
  "digits_value b s = foldl (\<lambda>a c. a * b + hex_digit c) 0 s"

text \<open>Digits with an optional point: all digits as a number and how many follow the point.\<close>

definition scan_mantissa :: "(char \<Rightarrow> bool) \<Rightarrow> nat \<Rightarrow> string \<Rightarrow> (nat \<times> nat \<times> string) option" where
  "scan_mantissa p b s =
     (let ip = takeWhile p s; r = dropWhile p s;
          fp = (if r \<noteq> [] \<and> hd r = CHR ''.'' then takeWhile p (tl r) else []);
          r' = (if r \<noteq> [] \<and> hd r = CHR ''.'' then dropWhile p (tl r) else r)
      in if ip = [] \<and> fp = [] then None
         else Some (digits_value b (ip @ fp), length fp, r'))"

definition scan_exponent :: "string \<Rightarrow> string \<Rightarrow> (int \<times> string) option" where
  "scan_exponent marks s =
     (if s \<noteq> [] \<and> hd s \<in> set marks then
        (let t = tl s; neg = (t \<noteq> [] \<and> hd t = CHR ''-'');
             u = (if t \<noteq> [] \<and> (hd t = CHR ''-'' \<or> hd t = CHR ''+'') then tl t else t)
         in if u = [] \<or> \<not> is_digit (hd u) then None
            else let (n, rest) = read_dec 0 u in Some (if neg then - int n else int n, rest))
      else Some (0, s))"

text \<open>\<open>n / d\<close> rounded once.\<close>

definition f_ratio :: "bool \<Rightarrow> nat \<Rightarrow> nat \<Rightarrow> w32" where
  "f_ratio s n d =
     (let k = bit_length d + 60; q = n * 2 ^ k div d
      in f_round s (2 * q + (if n * 2 ^ k mod d = 0 then 0 else 1)) (- int k - 1))"

text \<open>\<open>%a\<close> on input, for decimal and hexadecimal numbers.\<close>

definition scan_float_a :: "string \<Rightarrow> (w32 \<times> string) option" where
  "scan_float_a s =
     (let t = dropWhile is_space s;
          neg = (t \<noteq> [] \<and> hd t = CHR ''-'');
          u = (if t \<noteq> [] \<and> (hd t = CHR ''-'' \<or> hd t = CHR ''+'') then tl t else t)
      in if startswith u ''0x'' \<or> startswith u ''0X'' then
           do { (n, fl, r) \<leftarrow> scan_mantissa is_hex 16 (drop 2 u);
                (e, r') \<leftarrow> scan_exponent ''pP'' r;
                Some (f_round neg n (e - 4 * int fl), r') }
         else
           do { (n, fl, r) \<leftarrow> scan_mantissa is_digit 10 u;
                (e, r') \<leftarrow> scan_exponent ''eE'' r;
                let k = e - int fl;
                Some (if 0 \<le> k then f_round neg (n * 10 ^ nat k) 0 else f_ratio neg n (10 ^ nat (- k)), r') })"

section \<open>Instructions\<close>

text \<open>After an instruction the loop goes to the next one or leaves the block.\<close>

datatype ctl = NextInstr | LeaveBlock

fun load_lanes :: "nat \<Rightarrow> w32 \<Rightarrow> nat list \<Rightarrow> exec_state \<Rightarrow> exec_state option" where
  "load_lanes r a [] st = Some st"
| "load_lanes r a (i # is) st =
     do { (v, st1) \<leftarrow> r_mem (a + of_nat i * 4) st;
          load_lanes r a is (st1\<lparr>ex_cur := (ex_cur st1)\<lparr>th_simd := set_lane (th_simd (ex_cur st1)) r i v\<rparr>\<rparr>) }"

fun store_lanes :: "nat \<Rightarrow> w32 \<Rightarrow> nat list \<Rightarrow> exec_state \<Rightarrow> exec_state option" where
  "store_lanes r a [] st = Some st"
| "store_lanes r a (i # is) st =
     do { st1 \<leftarrow> w_mem (a + of_nat i * 4) (th_simd (ex_cur st) r i) st; store_lanes r a is st1 }"

text \<open>\<open>VLDM\<close>/\<open>VSTM\<close> over \<open>size\<close> consecutive vector registers.\<close>

fun simd_mem :: "(nat \<Rightarrow> w32 \<Rightarrow> nat list \<Rightarrow> exec_state \<Rightarrow> exec_state option) \<Rightarrow> nat \<Rightarrow> w32 \<Rightarrow> nat \<Rightarrow>
    exec_state \<Rightarrow> exec_state option" where
  "simd_mem f r a 0 st = Some st"
| "simd_mem f r a (Suc n) st =
     (if 8 \<le> r then None
      else do { st1 \<leftarrow> f r a [0, 1, 2, 3] st; simd_mem f (Suc r) (a + 16) n st1 })"

definition exec_simd :: "exec_env \<Rightarrow> simd_type \<Rightarrow> reg option \<Rightarrow> nat list \<Rightarrow> nat \<Rightarrow> frame \<Rightarrow> exec_state \<Rightarrow>
    exec_state option" where
  "exec_simd env ty s1 rs n fr st =
     (case ty of
        VDUP_32 \<Rightarrow>
          (case (s1, rs) of
             (Some s, r # _) \<Rightarrow>
               do { v \<leftarrow> r_reg env fr s;
                    if 8 \<le> r then None
                    else Some (st\<lparr>ex_cur := (ex_cur st)\<lparr>th_simd :=
                      (th_simd (ex_cur st))(r := (\<lambda>i. if i < 4 then v else th_simd (ex_cur st) r i))\<rparr>\<rparr>) }
           | _ \<Rightarrow> None)
      | VLDM \<Rightarrow>
          (case (s1, rs) of
             (Some s, r # _) \<Rightarrow> do { a \<leftarrow> r_reg env fr s; simd_mem load_lanes r a n st }
           | _ \<Rightarrow> None)
      | VSTM \<Rightarrow>
          (case (s1, rs) of
             (Some s, r # _) \<Rightarrow> do { a \<leftarrow> r_reg env fr s; simd_mem store_lanes r a n st }
           | _ \<Rightarrow> None)
      | _ \<Rightarrow>
          do { v \<leftarrow> simd_compute ty rs (th_simd (ex_cur st));
               Some (st\<lparr>ex_cur := (ex_cur st)\<lparr>th_simd := v\<rparr>\<rparr>) })"

text \<open>\<open>last_bb = cur; cur = target\<close> and the count of taken jumps.\<close>

definition goto_bb :: "exec_env \<Rightarrow> bb_key \<Rightarrow> frame \<Rightarrow> exec_state \<Rightarrow> (ctl \<times> frame \<times> exec_state) option" where
  "goto_bb env t fr st =
     do { k \<leftarrow> th_bb (ex_cur st);
          b \<leftarrow> find_bb (env_unit env) k;
          b' \<leftarrow> find_bb (env_unit env) t;
          Some (LeaveBlock, fr\<lparr>fr_last_bb := Some k\<rparr>,
            st\<lparr>ex_cur := (ex_cur st)\<lparr>th_bb := Some t\<rparr>,
               ex_jump_cnt := ex_jump_cnt st + (if bb_id b + 1 \<noteq> bb_id b' then 1 else 0)\<rparr>) }"

fun exec_simple :: "exec_env \<Rightarrow> instr \<Rightarrow> frame \<Rightarrow> exec_state \<Rightarrow> (ctl \<times> frame \<times> exec_state) option" where
  "exec_simple env (PhiInstr d us) fr st =
     (if env_enable_phi env
      then do { v \<leftarrow> fr_tmps fr d; fr1 \<leftarrow> w_reg d v fr; Some (NextInstr, fr1, st) } else None)"
| "exec_simple env (LoadAddr d k) fr st =
     do { m \<leftarrow> find_obj (env_unit env) k;
          fr1 \<leftarrow> w_reg d ((if mo_global m then 0 else ex_sp st) + mo_offset m) fr;
          Some (NextInstr, fr1, st) }"
| "exec_simple env (LoadConstI d v) fr st =
     do { fr1 \<leftarrow> w_reg d v fr; Some (NextInstr, fr1, st) }"
| "exec_simple env (LoadConstF d v) fr st =
     do { fr1 \<leftarrow> w_reg d v fr; Some (NextInstr, fr1, st) }"
| "exec_simple env (LoadArg t d i) fr st =
     (if 0 \<le> i \<and> nat i < length (fr_args fr)
      then do { fr1 \<leftarrow> w_reg d (fr_args fr ! nat i) fr; Some (NextInstr, fr1, st) } else None)"
| "exec_simple env (UnaryOpI d s u) fr st =
     do { x \<leftarrow> r_reg env fr s; v \<leftarrow> compute_unary u x; fr1 \<leftarrow> w_reg d v fr; Some (NextInstr, fr1, st) }"
| "exec_simple env (BinaryOpI d s t b) fr st =
     do { x \<leftarrow> r_reg env fr s; y \<leftarrow> r_reg env fr t; v \<leftarrow> compute_binary b x y;
          fr1 \<leftarrow> w_reg d v fr; Some (NextInstr, fr1, st) }"
| "exec_simple env (ArrayIndex d s t sz l) fr st =
     do { x \<leftarrow> r_reg env fr s; y \<leftarrow> r_reg env fr t; fr1 \<leftarrow> w_reg d (x + y * sz) fr;
          Some (NextInstr, fr1, st) }"
| "exec_simple env (SIMDInstr d f ty s rs n) fr st =
     do { st1 \<leftarrow> exec_simd env ty s rs n fr st; Some (NextInstr, fr, st1) }"
| "exec_simple env (LoadInstr d a off ro) fr st =
     do { addr \<leftarrow> load_store_addr env fr a off ro; (v, st1) \<leftarrow> r_mem addr st;
          fr1 \<leftarrow> w_reg d v fr; Some (NextInstr, fr1, st1) }"
| "exec_simple env (StoreInstr a s off ro) fr st =
     do { addr \<leftarrow> load_store_addr env fr a off ro; v \<leftarrow> r_reg env fr s;
          st1 \<leftarrow> w_mem addr v st; Some (NextInstr, fr, st1) }"
| "exec_simple env (JumpInstr t) fr st = goto_bb env t fr st"
| "exec_simple env (BranchInstr c t1 t0) fr st =
     do { v \<leftarrow> r_reg env fr c; goto_bb env (if v \<noteq> 0 then t1 else t0) fr st }"
| "exec_simple env (ReturnInstr ty s ig) fr st =
     do { v \<leftarrow> r_reg env fr s;
          Some (LeaveBlock, fr\<lparr>fr_ret := v, fr_last_bb := th_bb (ex_cur st)\<rparr>,
            st\<lparr>ex_cur := (ex_cur st)\<lparr>th_bb := None\<rparr>, ex_jump_cnt := ex_jump_cnt st + 2\<rparr>) }"
| "exec_simple env (CallInstr d f as t nl ns) fr st = None"

subsection \<open>Input and output functions\<close>

fun read_words :: "(string \<Rightarrow> (w32 \<times> string) option) \<Rightarrow> nat \<Rightarrow> w32 \<Rightarrow> exec_state \<Rightarrow> exec_state option" where
  "read_words scan 0 a st = Some st"
| "read_words scan (Suc n) a st =
     do { (x, rest) \<leftarrow> scan (ex_in st);
          st1 \<leftarrow> w_mem a x (st\<lparr>ex_in := rest\<rparr>);
          read_words scan n (a + 4) st1 }"

fun print_words :: "(w32 \<Rightarrow> string) \<Rightarrow> nat \<Rightarrow> w32 \<Rightarrow> exec_state \<Rightarrow> exec_state option" where
  "print_words pr 0 a st = Some st"
| "print_words pr (Suc n) a st =
     do { (v, st1) \<leftarrow> r_mem a st;
          print_words pr n (a + 4) (st1\<lparr>ex_out := ex_out st1 @ '' '' @ pr v\<rparr>) }"

definition put_text :: "string \<Rightarrow> bool \<Rightarrow> exec_state \<Rightarrow> exec_state" where
  "put_text s e st = st\<lparr>ex_out := ex_out st @ s, ex_eol := e\<rparr>"

definition newline :: string where "newline = [char_of (10 :: nat)]"

definition print_int32 :: "w32 \<Rightarrow> string" where "print_int32 v = print_int (sint v)"

definition put_array :: "(w32 \<Rightarrow> string) \<Rightarrow> w32 \<Rightarrow> w32 \<Rightarrow> exec_state \<Rightarrow> exec_state option" where
  "put_array pr n a st =
     do { st1 \<leftarrow> print_words pr (nat (sint n)) a (st\<lparr>ex_out := ex_out st @ print_int (sint n) @ '':''\<rparr>);
          Some (put_text newline True st1) }"

text \<open>The functions after \<open>assert(threads.empty())\<close>: their value and effect.\<close>

definition call_io :: "exec_env \<Rightarrow> string \<Rightarrow> w32 list \<Rightarrow> exec_state \<Rightarrow> (w32 \<times> exec_state) option" where
  "call_io env name args st =
     (if name = ''getint'' then
        (if args = [] then map_option (\<lambda>(v, r). (v, st\<lparr>ex_in := r\<rparr>)) (scan_int (ex_in st)) else None)
      else if name = ''getfloat'' then
        (if args = [] then map_option (\<lambda>(v, r). (v, st\<lparr>ex_in := r\<rparr>)) (scan_float_a (ex_in st)) else None)
      else if name = ''getch'' then
        (if args \<noteq> [] then None
         else case ex_in st of
                [] \<Rightarrow> Some (- 1, st)
              | c # cs \<Rightarrow> Some (of_nat (char_code c), st\<lparr>ex_in := cs\<rparr>))
      else if name = ''getarray'' \<or> name = ''getfarray'' then
        (case args of
           [a] \<Rightarrow>
             do { (n, r) \<leftarrow> scan_int (ex_in st);
                  st1 \<leftarrow> read_words (if name = ''getarray'' then scan_int else scan_float_a)
                           (nat (sint n)) a (st\<lparr>ex_in := r\<rparr>);
                  Some (n, st1) }
         | _ \<Rightarrow> None)
      else if name = ''putint'' then
        (case args of [v] \<Rightarrow> Some (0, put_text (print_int (sint v)) False st) | _ \<Rightarrow> None)
      else if name = ''putfloat'' then
        (case args of [v] \<Rightarrow> Some (0, put_text (print_float_a v) False st) | _ \<Rightarrow> None)
      else if name = ''putch'' then
        (case args of
           [v] \<Rightarrow> Some (0, put_text [char_of (unat v mod 256)] (v = 10) st)
         | _ \<Rightarrow> None)
      else if name = ''putarray'' then
        (case args of
           [n, a] \<Rightarrow> map_option (Pair 0) (put_array print_int32 n a st)
         | _ \<Rightarrow> None)
      else if name = ''putfarray'' then
        (case args of
           [n, a] \<Rightarrow> map_option (Pair 0) (put_array print_float_a n a st)
         | _ \<Rightarrow> None)
      else if name = ''putf'' then None
      else if name = ''starttime'' \<or> name = ''stoptime'' then Some (0, st)
      else case find_lib (env_unit env) name of
             None \<Rightarrow> None
           | Some f \<Rightarrow> (case lf_impl f of None \<Rightarrow> None
                       | Some g \<Rightarrow> map_option (\<lambda>v. (v, st)) (g args)))"

text \<open>The functions that handle threads; they skip the end of the loop body.\<close>

definition call_thread :: "exec_env \<Rightarrow> string \<Rightarrow> reg \<Rightarrow> w32 list \<Rightarrow> frame \<Rightarrow> exec_state \<Rightarrow>
    (frame \<times> exec_state) outcome" where
  "call_thread env name d args fr st =
     (if name = ''__lock'' then
        (case args of
           [a] \<Rightarrow>
             (case r_mem a st of
                None \<Rightarrow> Stuck
              | Some (v, st1) \<Rightarrow>
                  if v = 0 then (case w_mem a 1 st1 of None \<Rightarrow> Stuck | Some st2 \<Rightarrow> Done (fr, st2))
                  else schedule fr (push_cur st1))
         | _ \<Rightarrow> Stuck)
      else if name = ''__unlock'' then
        (case args of
           [a] \<Rightarrow> (case w_mem a 0 st of None \<Rightarrow> Stuck | Some st1 \<Rightarrow> Done (fr, st1))
         | _ \<Rightarrow> Stuck)
      else if name = ''__create_threads'' then
        (if args \<noteq> [] then Stuck
         else let n = ex_fork_cnt st + 1;
                  t = \<lparr>th_bb = th_bb (ex_cur st), th_it = th_it (ex_cur st), th_id = n,
                       th_waiting_id = - 1, th_waiting = False, th_write_reg = Some (d, 0),
                       th_simd = env_junk_simd env\<rparr>;
                  st1 = st\<lparr>ex_threads := ex_threads st @ [t], ex_fork_cnt := n,
                           ex_cur := (ex_cur st)\<lparr>th_waiting_id := n\<rparr>\<rparr>
              in (case w_reg d 1 fr of None \<Rightarrow> Stuck | Some fr1 \<Rightarrow> Done (fr1\<lparr>fr_time := 0\<rparr>, st1)))
      else
        (case args of
           [v] \<Rightarrow>
             if \<not> (0 \<le> sint v \<and> sint v \<le> 1) then Stuck
             else if v \<noteq> 0
             then schedule fr (st\<lparr>ex_finished := insert (th_id (ex_cur st)) (ex_finished st)\<rparr>)
             else schedule fr (push_cur (st\<lparr>ex_cur := (ex_cur st)\<lparr>th_waiting := True\<rparr>\<rparr>))
         | _ \<Rightarrow> Stuck))"

definition is_thread_func :: "string \<Rightarrow> bool" where
  "is_thread_func name = (name = ''__lock'' \<or> name = ''__unlock'' \<or> name = ''__create_threads''
     \<or> name = ''__join_threads'')"

section \<open>The interpreter loop\<close>

text \<open>Entering a block: the values of its phis are read before any is written, then the
  first instruction.\<close>

fun phi_use :: "exec_env \<Rightarrow> frame \<Rightarrow> reg \<Rightarrow> (reg \<times> bb_key) list \<Rightarrow> (reg \<rightharpoonup> w32) \<Rightarrow> (reg \<rightharpoonup> w32) option" where
  "phi_use env fr d [] tmps = Some tmps"
| "phi_use env fr d ((r, b) # us) tmps =
     (if fr_last_bb fr = Some b
      then do { v \<leftarrow> r_reg env fr r; phi_use env fr d us (tmps(d \<mapsto> v)) }
      else phi_use env fr d us tmps)"

fun phi_temps :: "exec_env \<Rightarrow> frame \<Rightarrow> instr list \<Rightarrow> (reg \<rightharpoonup> w32) \<Rightarrow> (reg \<rightharpoonup> w32) option" where
  "phi_temps env fr [] tmps = Some tmps"
| "phi_temps env fr (i # is) tmps =
     (case i of
        PhiInstr d us \<Rightarrow> do { t \<leftarrow> phi_use env fr d us tmps; phi_temps env fr is t }
      | _ \<Rightarrow> phi_temps env fr is tmps)"

definition enter_block :: "exec_env \<Rightarrow> frame \<Rightarrow> exec_state \<Rightarrow> (frame \<times> exec_state) option" where
  "enter_block env fr st =
     do { k \<leftarrow> th_bb (ex_cur st);
          b \<leftarrow> find_bb (env_unit env) k;
          t \<leftarrow> (if env_enable_phi env then phi_temps env fr (bb_instrs b) Map.empty else Some Map.empty);
          Some (fr\<lparr>fr_tmps := t\<rparr>, st\<lparr>ex_cur := (ex_cur st)\<lparr>th_it := 0\<rparr>\<rparr>) }"

text \<open>The instruction the running thread is at.\<close>

definition fetch :: "exec_env \<Rightarrow> exec_state \<Rightarrow> instr option option" where
  "fetch env st =
     do { k \<leftarrow> th_bb (ex_cur st); b \<leftarrow> find_bb (env_unit env) k;
          Some (if th_it (ex_cur st) < length (bb_instrs b) then Some (bb_instrs b ! th_it (ex_cur st))
                else None) }"

definition count_instr :: "frame \<Rightarrow> exec_state \<Rightarrow> frame \<times> exec_state" where
  "count_instr fr st =
     (fr\<lparr>fr_time := fr_time fr + 1\<rparr>,
      st\<lparr>ex_instr_cnt := ex_instr_cnt st + 1,
         ex_par_cnt := ex_par_cnt st + (if ex_threads st \<noteq> [] then 1 else 0)\<rparr>)"

definition advance :: "exec_state \<Rightarrow> exec_state" where
  "advance st = st\<lparr>ex_cur := (ex_cur st)\<lparr>th_it := th_it (ex_cur st) + 1\<rparr>\<rparr>"

text \<open>The time slice at the end of the loop body.\<close>

definition time_slice :: "frame \<Rightarrow> exec_state \<Rightarrow> (frame \<times> exec_state) outcome" where
  "time_slice fr st = (if fr_time fr > 32 then schedule fr (push_cur st) else Done (fr, st))"

fun arg_regs :: "exec_env \<Rightarrow> frame \<Rightarrow> (reg \<times> scalar_type) list \<Rightarrow> w32 list option" where
  "arg_regs env fr [] = Some []"
| "arg_regs env fr ((r, ty) # as) =
     do { v \<leftarrow> r_reg env fr r; vs \<leftarrow> arg_regs env fr as; Some (v # vs) }"

fun set_args :: "reg \<Rightarrow> w32 list \<Rightarrow> frame \<Rightarrow> frame option" where
  "set_args i [] fr = Some fr"
| "set_args i (v # vs) fr = do { fr1 \<leftarrow> w_reg i v fr; set_args (i + 1) vs fr1 }"

definition start_frame :: "nfunc \<Rightarrow> w32 list \<Rightarrow> frame option" where
  "start_frame f args =
     (if nf_bbs f = [] then None
      else set_args 1 args \<lparr>fr_func = f, fr_args = args, fr_regs = Map.empty, fr_tmps = Map.empty,
             fr_last_bb = None, fr_time = 0, fr_ret = 0\<rparr>)"

text \<open>The result of a call is written under the two guards of the code.\<close>

definition write_result :: "bool \<Rightarrow> bool \<Rightarrow> scalar_type \<Rightarrow> reg \<Rightarrow> w32 \<Rightarrow> frame \<Rightarrow> frame option" where
  "write_result normal ignore ty d v fr =
     do { fr1 \<leftarrow> (if normal \<and> \<not> ignore then w_reg d v fr else Some fr);
          if \<not> ignore \<and> ty \<noteq> Void then w_reg d v fr1 else Some fr1 }"

definition bind_outcome :: "'a outcome \<Rightarrow> ('a \<Rightarrow> 'b outcome) \<Rightarrow> 'b outcome" where
  "bind_outcome x f = (case x of Done v \<Rightarrow> f v | Stuck \<Rightarrow> Stuck | NoFuel \<Rightarrow> NoFuel)"

text \<open>\<open>exec_loop\<close> is the two nested loops of \<open>run\<close>, from the instruction of the running
  thread on; \<open>exec_run\<close> is a call of \<open>run\<close>.\<close>

fun exec_loop :: "nat \<Rightarrow> exec_env \<Rightarrow> frame \<Rightarrow> exec_state \<Rightarrow> (w32 \<times> exec_state) outcome"
  and exec_run :: "nat \<Rightarrow> exec_env \<Rightarrow> nfunc \<Rightarrow> w32 list \<Rightarrow> exec_state \<Rightarrow> (w32 \<times> exec_state) outcome" where
  "exec_loop 0 env fr st = NoFuel"
| "exec_loop (Suc n) env fr st =
     (case fetch env st of
        None \<Rightarrow> Stuck
      | Some None \<Rightarrow>
          bind_outcome (outcome_of_option (enter_block env fr st)) (\<lambda>(fr1, st1). exec_loop n env fr1 st1)
      | Some (Some i) \<Rightarrow>
          (let (fr, st) = count_instr fr st in
           case i of
             CallInstr d f as ty nl ns \<Rightarrow>
               (case arg_regs env fr as of
                  None \<Rightarrow> Stuck
                | Some args \<Rightarrow>
                    (case f of
                       NormalF name \<Rightarrow>
                         (case find_func (env_unit env) name of
                            None \<Rightarrow> Stuck
                          | Some g \<Rightarrow>
                              bind_outcome
                                (exec_run n env g args (st\<lparr>ex_sp := ex_sp st + ms_size (nf_scope (fr_func fr))\<rparr>))
                                (\<lambda>(v, st1).
                                  let st2 = st1\<lparr>ex_cur := (ex_cur st1)\<lparr>th_bb := th_bb (ex_cur st),
                                                             th_it := th_it (ex_cur st)\<rparr>,
                                                ex_sp := ex_sp st1 - ms_size (nf_scope (fr_func fr))\<rparr>
                                  in bind_outcome
                                       (outcome_of_option (write_result True (nf_ignore_return_value g) ty d v fr))
                                       (\<lambda>fr1. bind_outcome (time_slice fr1 st2)
                                          (\<lambda>(fr2, st3). exec_loop n env fr2 (advance st3)))))
                     | LibF name \<Rightarrow>
                         if is_thread_func name
                         then bind_outcome (call_thread env name d args fr st)
                                (\<lambda>(fr1, st1). exec_loop n env fr1 (advance st1))
                         else if ex_threads st \<noteq> [] then Stuck
                         else case (call_io env name args st, find_lib (env_unit env) name) of
                                (Some (v, st1), Some g) \<Rightarrow>
                                  bind_outcome
                                    (outcome_of_option (write_result False (lf_ignore_return_value g) ty d v fr))
                                    (\<lambda>fr1. bind_outcome (time_slice fr1 st1)
                                       (\<lambda>(fr2, st2). exec_loop n env fr2 (advance st2)))
                              | _ \<Rightarrow> Stuck))
           | _ \<Rightarrow>
               (case exec_simple env i fr st of
                  None \<Rightarrow> Stuck
                | Some (NextInstr, fr1, st1) \<Rightarrow>
                    bind_outcome (time_slice fr1 st1) (\<lambda>(fr2, st2). exec_loop n env fr2 (advance st2))
                | Some (LeaveBlock, fr1, st1) \<Rightarrow>
                    if th_bb (ex_cur st1) = None then Done (fr_ret fr1, st1)
                    else bind_outcome (outcome_of_option (enter_block env fr1 st1))
                           (\<lambda>(fr2, st2). exec_loop n env fr2 st2))))"
| "exec_run 0 env f args st = NoFuel"
| "exec_run (Suc n) env f args st =
     (case start_frame f args of
        None \<Rightarrow> Stuck
      | Some fr \<Rightarrow>
          bind_outcome
            (outcome_of_option (enter_block env fr (st\<lparr>ex_cur := (ex_cur st)\<lparr>th_bb := Some (nf_entry f)\<rparr>\<rparr>)))
            (\<lambda>(fr1, st1). exec_loop n env fr1 st1))"

declare exec_loop.simps(2) [simp del] exec_run.simps(2) [simp del]

section \<open>The whole execution\<close>

definition word_byte :: "w32 \<Rightarrow> nat \<Rightarrow> 8 word" where
  "word_byte w i = ucast (drop_bit (8 * i) w)"

definition set_word_byte :: "w32 \<Rightarrow> nat \<Rightarrow> 8 word \<Rightarrow> w32" where
  "set_word_byte w i b = (w AND NOT (push_bit (8 * i) 0xFF)) OR push_bit (8 * i) (ucast b)"

definition init_byte :: "init_data \<Rightarrow> nat \<Rightarrow> 8 word" where
  "init_byte d i =
     (case d of
        NoData \<Rightarrow> 0
      | WordData ws \<Rightarrow> (if i div 4 < length ws then word_byte (ws ! (i div 4)) (i mod 4) else 0)
      | CharData bs \<Rightarrow> (if i < length bs then bs ! i else 0))"

text \<open>\<open>memcpy\<close>/\<open>memset\<close> of a global object, byte by byte (little-endian words).\<close>

fun copy_bytes :: "init_data \<Rightarrow> int \<Rightarrow> nat list \<Rightarrow> (int \<Rightarrow> w32) \<Rightarrow> (int \<Rightarrow> w32)" where
  "copy_bytes d off [] m = m"
| "copy_bytes d off (i # is) m =
     (let a = off + int i in
      copy_bytes d off is (m(a div 4 := set_word_byte (m (a div 4)) (nat (a mod 4)) (init_byte d i))))"

definition init_memory :: "mem_scope \<Rightarrow> (int \<Rightarrow> w32) \<Rightarrow> (int \<Rightarrow> w32)" where
  "init_memory s m0 =
     foldl (\<lambda>m x. copy_bytes (mo_init x) (sint (mo_offset x)) [0..<mo_size x] m) m0 (ms_objects s)"

definition init_thread :: "exec_env \<Rightarrow> thread_ctx" where
  "init_thread env =
     \<lparr>th_bb = None, th_it = 0, th_id = 0, th_waiting_id = - 1, th_waiting = False,
      th_write_reg = None, th_simd = env_junk_simd env\<rparr>"

definition init_state :: "exec_env \<Rightarrow> string \<Rightarrow> exec_state" where
  "init_state env input =
     (let s = cu_scope (env_unit env) in
      \<lparr>ex_mem = init_memory s (env_junk_mem env), ex_limit = sint (ms_size s) + 8 * 2 ^ 20,
       ex_sp = ms_size s, ex_cur = init_thread env, ex_threads = [], ex_finished = {},
       ex_fork_cnt = 0, ex_in = input, ex_out = [], ex_eol = True, ex_instr_cnt = 0,
       ex_mem_r_cnt = 0, ex_mem_w_cnt = 0, ex_jump_cnt = 0, ex_par_cnt = 0\<rparr>)"

text \<open>\<open>exec\<close>: the layout, the run of \<open>main\<close>, and the output text with the exit code.\<close>

definition exec :: "nat \<Rightarrow> exec_env \<Rightarrow> string \<Rightarrow> (w32 \<times> string) outcome" where
  "exec fuel env0 input =
     (let env = env0\<lparr>env_unit := compute_data_offset (env_unit env0)\<rparr> in
      case find_func (env_unit env) ''main'' of
        None \<Rightarrow> Stuck
      | Some f \<Rightarrow>
          bind_outcome (exec_run fuel env f [] (init_state env input))
            (\<lambda>(v, st). Done (v, ex_out st @ (if ex_eol st then [] else newline)
                                @ digits_base 10 (unat (v AND 255)) @ newline)))"

end
