(* ===== verification/IRExecFacts.thy ===== *)
theory IRExecFacts
  imports IRExec
begin

text \<open>
  Facts about the interpreter: more fuel changes no result, and an interface for the
  properties of the state that every step keeps (\<open>exec_invariant\<close>), used for the memory
  bounds and for the stack pointer.
\<close>

section \<open>Fuel\<close>

definition le_outcome :: "'a outcome \<Rightarrow> 'a outcome \<Rightarrow> bool" where
  "le_outcome x y = (x = NoFuel \<or> x = y)"

named_theorems le_outcome_intros

lemma le_outcome_refl [le_outcome_intros]: "le_outcome x x"
  by (simp add: le_outcome_def)

lemma le_outcome_NoFuel [le_outcome_intros]: "le_outcome NoFuel x"
  by (simp add: le_outcome_def)

lemma le_outcome_bind [le_outcome_intros]:
  "le_outcome x y \<Longrightarrow> (\<And>v. le_outcome (f v) (g v)) \<Longrightarrow> le_outcome (bind_outcome x f) (bind_outcome y g)"
  by (cases x) (auto simp: le_outcome_def bind_outcome_def split: outcome.splits)

lemma le_outcome_case_option [le_outcome_intros]:
  "(x = None \<Longrightarrow> le_outcome a b) \<Longrightarrow> (\<And>v. x = Some v \<Longrightarrow> le_outcome (f v) (g v)) \<Longrightarrow>
     le_outcome (case x of None \<Rightarrow> a | Some v \<Rightarrow> f v) (case x of None \<Rightarrow> b | Some v \<Rightarrow> g v)"
  by (cases x) auto

lemma le_outcome_case_prod [le_outcome_intros]:
  "(\<And>u v. x = (u, v) \<Longrightarrow> le_outcome (f u v) (g u v)) \<Longrightarrow>
     le_outcome (case x of (u, v) \<Rightarrow> f u v) (case x of (u, v) \<Rightarrow> g u v)"
  by (cases x) auto

lemma le_outcome_case_ctl [le_outcome_intros]:
  "le_outcome a b \<Longrightarrow> le_outcome c d \<Longrightarrow>
     le_outcome (case x of NextInstr \<Rightarrow> a | LeaveBlock \<Rightarrow> c) (case x of NextInstr \<Rightarrow> b | LeaveBlock \<Rightarrow> d)"
  by (cases x) auto

lemma le_outcome_case_func [le_outcome_intros]:
  "(\<And>n. le_outcome (a n) (b n)) \<Longrightarrow> (\<And>n. le_outcome (c n) (d n)) \<Longrightarrow>
     le_outcome (case x of NormalF n \<Rightarrow> a n | LibF n \<Rightarrow> c n) (case x of NormalF n \<Rightarrow> b n | LibF n \<Rightarrow> d n)"
  by (cases x) auto

lemma le_outcome_if [le_outcome_intros]:
  "le_outcome a b \<Longrightarrow> le_outcome c d \<Longrightarrow> le_outcome (if p then a else c) (if p then b else d)"
  by auto

lemma exec_mono_step:
  "le_outcome (exec_loop n env fr st) (exec_loop (Suc n) env fr st) \<and>
   le_outcome (exec_run n env f args st) (exec_run (Suc n) env f args st)"
proof (induction n arbitrary: env fr st f args)
  case 0
  then show ?case by (simp add: le_outcome_def)
next
  case (Suc n)
  then have IH: "le_outcome (exec_loop n env fr st) (exec_loop (Suc n) env fr st)"
    "le_outcome (exec_run n env f args st) (exec_run (Suc n) env f args st)" for env fr st f args
    by blast+
  have "le_outcome (exec_loop (Suc n) env fr st) (exec_loop (Suc (Suc n)) env fr st)"
  proof (cases "fetch env st")
    case None
    then show ?thesis by (simp add: exec_loop.simps(2) le_outcome_def)
  next
    case (Some oi)
    show ?thesis
    proof (cases oi)
      case None
      show ?thesis
        unfolding exec_loop.simps(2) [of n env fr st] exec_loop.simps(2) [of "Suc n" env fr st] Some None option.case
        by (intro le_outcome_intros IH)
    next
      case i: (Some i)
      show ?thesis
        unfolding exec_loop.simps(2) [of n env fr st] exec_loop.simps(2) [of "Suc n" env fr st] Some i option.case Let_def
        by (cases i) (simp_all only: instr.case, (intro le_outcome_intros IH)+)
    qed
  qed
  moreover have "le_outcome (exec_run (Suc n) env f args st) (exec_run (Suc (Suc n)) env f args st)"
    unfolding exec_run.simps(2) [of n] exec_run.simps(2) [of "Suc n"]
    by (intro le_outcome_intros IH)
  ultimately show ?case by blast
qed

lemma exec_run_mono:
  assumes "exec_run n env f args st = r" and "r \<noteq> NoFuel" and "n \<le> m"
  shows "exec_run m env f args st = r"
  using assms(3)
proof (induction rule: dec_induct)
  case (step m)
  then show ?case using exec_mono_step [of m env undefined st f args] assms(2)
    by (auto simp: le_outcome_def)
qed (rule assms(1))

text \<open>The step of the loop, for a call and for any other instruction.\<close>

definition is_call :: "instr \<Rightarrow> bool" where
  "is_call i = (case i of CallInstr d f as ty nl ns \<Rightarrow> True | _ \<Rightarrow> False)"

definition after_simple :: "nat \<Rightarrow> exec_env \<Rightarrow> (ctl \<times> frame \<times> exec_state) option \<Rightarrow> (w32 \<times> exec_state) outcome" where
  "after_simple n env r =
     (case r of
        None \<Rightarrow> Stuck
      | Some (NextInstr, fr1, st1) \<Rightarrow>
          bind_outcome (time_slice fr1 st1) (\<lambda>(fr2, st2). exec_loop n env fr2 (advance st2))
      | Some (LeaveBlock, fr1, st1) \<Rightarrow>
          if th_bb (ex_cur st1) = None then Done (fr_ret fr1, st1)
          else bind_outcome (outcome_of_option (enter_block env fr1 st1))
                 (\<lambda>(fr2, st2). exec_loop n env fr2 st2))"

lemma exec_loop_simple:
  assumes "fetch env st = Some (Some i)" and "\<not> is_call i"
  shows "exec_loop (Suc n) env fr st =
     (case count_instr fr st of (fr, st) \<Rightarrow> after_simple n env (exec_simple env i fr st))"
  using assms(2)
  unfolding exec_loop.simps(2) assms(1) option.case Let_def after_simple_def
  by (cases i) (simp_all only: is_call_def instr.case simp_thms)

lemma exec_loop_lib:
  assumes "fetch env st0 = Some (Some (CallInstr d (LibF name) as ty nl ns))"
    and "count_instr fr0 st0 = (fr, st)" and "arg_regs env fr as = Some args"
  shows "exec_loop (Suc n) env fr0 st0 =
     (if is_thread_func name
      then bind_outcome (call_thread env name d args fr st)
             (\<lambda>(fr1, st1). exec_loop n env fr1 (advance st1))
      else if ex_threads st \<noteq> [] then Stuck
      else case (call_io env name args st, find_lib (env_unit env) name) of
             (Some (v, st1), Some g) \<Rightarrow>
               bind_outcome
                 (outcome_of_option (write_result False (lf_ignore_return_value g) ty d v fr))
                 (\<lambda>fr1. bind_outcome (time_slice fr1 st1)
                    (\<lambda>(fr2, st2). exec_loop n env fr2 (advance st2)))
           | _ \<Rightarrow> Stuck)"
  by (simp add: exec_loop.simps(2) assms)

section \<open>Interface: properties every step keeps\<close>

locale exec_invariant =
  fixes P :: "'a \<Rightarrow> exec_state \<Rightarrow> bool"
    and down :: "'a \<Rightarrow> w32 \<Rightarrow> 'a"
  assumes P_simple: "P a st \<Longrightarrow> exec_simple env i fr st = Some (c, fr', st') \<Longrightarrow> P a st'"
    and P_io: "P a st \<Longrightarrow> call_io env name args st = Some (v, st') \<Longrightarrow> P a st'"
    and P_thread: "P a st \<Longrightarrow> call_thread env name d args fr st = Done (fr', st') \<Longrightarrow> P a st'"
    and P_slice: "P a st \<Longrightarrow> time_slice fr st = Done (fr', st') \<Longrightarrow> P a st'"
    and P_enter: "P a st \<Longrightarrow> enter_block env fr st = Some (fr', st') \<Longrightarrow> P a st'"
    and P_count: "P a st \<Longrightarrow> P a (snd (count_instr fr st))"
    and P_advance: "P a st \<Longrightarrow> P a (advance st)"
    and P_start: "P a st \<Longrightarrow> P a (st\<lparr>ex_cur := (ex_cur st)\<lparr>th_bb := k\<rparr>\<rparr>)"
    and P_call: "P a st \<Longrightarrow> P (down a sz) (st\<lparr>ex_sp := ex_sp st + sz\<rparr>)"
    and P_return: "P (down a sz) st \<Longrightarrow>
      P a (st\<lparr>ex_cur := (ex_cur st)\<lparr>th_bb := k, th_it := j\<rparr>, ex_sp := ex_sp st - sz\<rparr>)"
begin

lemma bind_Done: "bind_outcome x f = Done r \<Longrightarrow> \<exists>v. x = Done v \<and> f v = Done r"
  by (cases x) (auto simp: bind_outcome_def)

lemma of_option_Done: "outcome_of_option x = Done v \<Longrightarrow> x = Some v"
  by (cases x) auto

lemma after_slice:
  assumes IH: "\<forall>a fr st v st'. P a st \<longrightarrow> exec_loop n env fr st = Done (v, st') \<longrightarrow> P a st'"
    and "P a st"
    and "bind_outcome (time_slice fr st) (\<lambda>(fr2, st2). exec_loop n env fr2 (advance st2)) = Done (v, st')"
  shows "P a st'"
proof -
  from bind_Done [OF assms(3)] obtain fr2 st2 where
    "time_slice fr st = Done (fr2, st2)" "exec_loop n env fr2 (advance st2) = Done (v, st')" by auto
  then show ?thesis using IH P_advance P_slice assms(2) by meson
qed

lemma after_enter:
  assumes IH: "\<forall>a fr st v st'. P a st \<longrightarrow> exec_loop n env fr st = Done (v, st') \<longrightarrow> P a st'"
    and "P a st"
    and "bind_outcome (outcome_of_option (enter_block env fr st)) (\<lambda>(fr2, st2). exec_loop n env fr2 st2) = Done (v, st')"
  shows "P a st'"
proof -
  from bind_Done [OF assms(3)] obtain fr2 st2 where
    "enter_block env fr st = Some (fr2, st2)" "exec_loop n env fr2 st2 = Done (v, st')"
    by (auto dest: of_option_Done)
  then show ?thesis using IH P_enter assms(2) by meson
qed

lemma simple_case:
  assumes IH: "\<forall>a fr st v st'. P a st \<longrightarrow> exec_loop n env fr st = Done (v, st') \<longrightarrow> P a st'"
    and "P a st"
    and "after_simple n env (exec_simple env i fr st) = Done (v, st')"
  shows "P a st'"
proof -
  note e = assms(3) [unfolded after_simple_def]
  from e obtain c fr1 st1 where s: "exec_simple env i fr st = Some (c, fr1, st1)"
    by (auto split: option.splits)
  have p: "P a st1" using P_simple [OF assms(2) s] .
  show ?thesis
  proof (cases c)
    case NextInstr
    then show ?thesis using e s after_slice [OF IH p] by simp
  next
    case LeaveBlock
    then show ?thesis using e s p after_enter [OF IH p] by (auto split: if_splits)
  qed
qed

lemma normal_call:
  assumes IH: "\<forall>a fr st v st'. P a st \<longrightarrow> exec_loop n env fr st = Done (v, st') \<longrightarrow> P a st'"
    and IHr: "\<forall>a f args st v st'. P a st \<longrightarrow> exec_run n env f args st = Done (v, st') \<longrightarrow> P a st'"
    and "P a st"
    and eq: "bind_outcome (exec_run n env g args (st\<lparr>ex_sp := ex_sp st + sz\<rparr>))
          (\<lambda>(v, st1).
            let st2 = st1\<lparr>ex_cur := (ex_cur st1)\<lparr>th_bb := k, th_it := j\<rparr>, ex_sp := ex_sp st1 - sz\<rparr>
            in bind_outcome (outcome_of_option (write_result True ig ty d v fr))
                 (\<lambda>fr1. bind_outcome (time_slice fr1 st2)
                    (\<lambda>(fr2, st3). exec_loop n env fr2 (advance st3)))) = Done (v, st')"
  shows "P a st'"
proof -
  from bind_Done [OF eq] obtain v1 st1 where
    r: "exec_run n env g args (st\<lparr>ex_sp := ex_sp st + sz\<rparr>) = Done (v1, st1)" and
    b: "bind_outcome (outcome_of_option (write_result True ig ty d v1 fr))
          (\<lambda>fr1. bind_outcome (time_slice fr1
              (st1\<lparr>ex_cur := (ex_cur st1)\<lparr>th_bb := k, th_it := j\<rparr>, ex_sp := ex_sp st1 - sz\<rparr>))
             (\<lambda>(fr2, st3). exec_loop n env fr2 (advance st3))) = Done (v, st')"
    unfolding Let_def by fast
  from bind_Done [OF b] obtain fr1 where
    l: "bind_outcome (time_slice fr1 (st1\<lparr>ex_cur := (ex_cur st1)\<lparr>th_bb := k, th_it := j\<rparr>, ex_sp := ex_sp st1 - sz\<rparr>))
          (\<lambda>(fr2, st3). exec_loop n env fr2 (advance st3)) = Done (v, st')"
    by blast
  from IHr P_call [OF assms(3)] r have "P (down a sz) st1" by blast
  from after_slice [OF IH P_return [OF this] l] show ?thesis by simp
qed

lemma lib_call:
  assumes IH: "\<forall>a fr st v st'. P a st \<longrightarrow> exec_loop n env fr st = Done (v, st') \<longrightarrow> P a st'"
    and "P a st"
    and eq: "(if is_thread_func name
          then bind_outcome (call_thread env name d args fr st)
                 (\<lambda>(fr1, st1). exec_loop n env fr1 (advance st1))
          else if ex_threads st \<noteq> [] then Stuck
          else case (call_io env name args st, find_lib (env_unit env) name) of
                 (Some (v, st1), Some g) \<Rightarrow>
                   bind_outcome
                     (outcome_of_option (write_result False (lf_ignore_return_value g) ty d v fr))
                     (\<lambda>fr1. bind_outcome (time_slice fr1 st1)
                        (\<lambda>(fr2, st2). exec_loop n env fr2 (advance st2)))
               | _ \<Rightarrow> Stuck) = Done (v, st')"
  shows "P a st'"
proof (cases "is_thread_func name")
  case True
  with eq obtain fr1 st1 where t: "call_thread env name d args fr st = Done (fr1, st1)"
    and l: "exec_loop n env fr1 (advance st1) = Done (v, st')"
    by (auto dest!: bind_Done)
  show ?thesis using IH P_advance [OF P_thread [OF assms(2) t]] l by blast
next
  case False
  with eq obtain w st1 g where io: "call_io env name args st = Some (w, st1)"
    and g: "find_lib (env_unit env) name = Some g"
    and b: "bind_outcome (outcome_of_option (write_result False (lf_ignore_return_value g) ty d w fr))
              (\<lambda>fr1. bind_outcome (time_slice fr1 st1)
                 (\<lambda>(fr2, st2). exec_loop n env fr2 (advance st2))) = Done (v, st')"
  proof -
    from eq False have "ex_threads st = []" by (simp split: if_splits)
    moreover from eq False this obtain w st1 where io: "call_io env name args st = Some (w, st1)"
      by (cases "call_io env name args st") auto
    moreover from eq False calculation obtain g where "find_lib (env_unit env) name = Some g"
      by (cases "find_lib (env_unit env) name") auto
    ultimately show ?thesis using eq False by (intro that [OF io]) simp_all
  qed
  from bind_Done [OF b] obtain fr1 where
    l: "bind_outcome (time_slice fr1 st1) (\<lambda>(fr2, st2). exec_loop n env fr2 (advance st2)) = Done (v, st')"
    by blast
  show ?thesis by (rule after_slice [OF IH P_io [OF assms(2) io] l])
qed

lemma run_keeps:
  "(P a st \<longrightarrow> exec_loop n env fr st = Done (v, st') \<longrightarrow> P a st') \<and>
   (P a st \<longrightarrow> exec_run n env f args st = Done (v, st') \<longrightarrow> P a st')"
proof (induction n arbitrary: a fr st v st' f args)
  case (Suc n)
  then have IH: "\<forall>a fr st v st'. P a st \<longrightarrow> exec_loop n env fr st = Done (v, st') \<longrightarrow> P a st'"
    and IHr: "\<forall>a f args st v st'. P a st \<longrightarrow> exec_run n env f args st = Done (v, st') \<longrightarrow> P a st'"
    by blast+
  have "P a st'" if p: "P a st" and e: "exec_loop (Suc n) env fr st = Done (v, st')"
  proof -
    from e obtain oi where oi: "fetch env st = Some oi"
      by (auto simp: exec_loop.simps(2) split: option.splits)
    show ?thesis
    proof (cases oi)
      case None
      with e oi have "bind_outcome (outcome_of_option (enter_block env fr st))
        (\<lambda>(fr2, st2). exec_loop n env fr2 st2) = Done (v, st')" by (simp add: exec_loop.simps(2))
      from after_enter [OF IH p this] show ?thesis by simp
    next
      case (Some i)
      obtain fr0 st0 where c: "count_instr fr st = (fr0, st0)" by (cases "count_instr fr st")
      have p0: "P a st0" using P_count [OF p, of fr] c by simp
      show ?thesis
      proof (cases "is_call i")
        case True
        then obtain d g as ty nl ns where i: "i = CallInstr d g as ty nl ns"
          by (cases i) (simp_all add: is_call_def)
        note e' = e [unfolded exec_loop.simps(2) oi Some option.case c Let_def prod.case i instr.case]
        from e' obtain args where args: "arg_regs env fr0 as = Some args"
          by (cases "arg_regs env fr0 as") simp_all
        note e'' = e' [unfolded args option.case]
        show ?thesis
        proof (cases g)
          case (NormalF name)
          from e'' NormalF obtain h where h: "find_func (env_unit env) name = Some h"
            by (cases "find_func (env_unit env) name") simp_all
          from normal_call [OF IH IHr p0, unfolded Let_def] e'' [unfolded NormalF func_ref.case h option.case]
          show ?thesis by blast
        next
          case (LibF name)
          from lib_call [OF IH p0] e exec_loop_lib [OF oi [unfolded Some i LibF] c args, of n]
          show ?thesis by metis
        qed
      next
        case False
        from e have "after_simple n env (exec_simple env i fr0 st0) = Done (v, st')"
          using exec_loop_simple [OF oi [unfolded Some] False, of n fr] c by simp
        from simple_case [OF IH p0 this] show ?thesis by simp
      qed
    qed
  qed
  moreover have "P a st'" if p: "P a st" and e: "exec_run (Suc n) env f args st = Done (v, st')"
  proof -
    from e obtain fr where "bind_outcome (outcome_of_option (enter_block env fr
        (st\<lparr>ex_cur := (ex_cur st)\<lparr>th_bb := Some (nf_entry f)\<rparr>\<rparr>))) (\<lambda>(fr2, st2). exec_loop n env fr2 st2) = Done (v, st')"
      by (auto simp: exec_run.simps(2) split: option.splits)
    from after_enter [OF IH P_start [OF p] this] show ?thesis by simp
  qed
  ultimately show ?case by blast
qed simp

end

section \<open>What the operations change\<close>

text \<open>Every elementary operation keeps the stack pointer and the memory limit, and writes
  memory only inside it.\<close>

definition same_space :: "exec_state \<Rightarrow> exec_state \<Rightarrow> bool" where
  "same_space st st' =
     (ex_sp st' = ex_sp st \<and> ex_limit st' = ex_limit st \<and>
      (\<forall>a. \<not> (0 \<le> a \<and> 4 * a < ex_limit st) \<longrightarrow> ex_mem st' a = ex_mem st a))"

lemma same_space_refl [simp]: "same_space st st"
  by (simp add: same_space_def)

lemma same_space_trans [trans]: "same_space st st1 \<Longrightarrow> same_space st1 st2 \<Longrightarrow> same_space st st2"
  by (auto simp: same_space_def)

lemma same_space_upd [simp]:
  "same_space st (st1\<lparr>ex_cur := t\<rparr>) = same_space st st1"
  "same_space st (st1\<lparr>ex_threads := ts\<rparr>) = same_space st st1"
  "same_space st (st1\<lparr>ex_finished := fin\<rparr>) = same_space st st1"
  "same_space st (st1\<lparr>ex_fork_cnt := n\<rparr>) = same_space st st1"
  "same_space st (st1\<lparr>ex_in := s\<rparr>) = same_space st st1"
  "same_space st (st1\<lparr>ex_out := s\<rparr>) = same_space st st1"
  "same_space st (st1\<lparr>ex_eol := b\<rparr>) = same_space st st1"
  "same_space st (st1\<lparr>ex_instr_cnt := n\<rparr>) = same_space st st1"
  "same_space st (st1\<lparr>ex_mem_r_cnt := n\<rparr>) = same_space st st1"
  "same_space st (st1\<lparr>ex_mem_w_cnt := n\<rparr>) = same_space st st1"
  "same_space st (st1\<lparr>ex_jump_cnt := n\<rparr>) = same_space st st1"
  "same_space st (st1\<lparr>ex_par_cnt := n\<rparr>) = same_space st st1"
  by (simp_all add: same_space_def)

lemma same_space_upd_left [simp]:
  "same_space (st\<lparr>ex_cur := t\<rparr>) st1 = same_space st st1"
  "same_space (st\<lparr>ex_in := s\<rparr>) st1 = same_space st st1"
  "same_space (st\<lparr>ex_out := s\<rparr>) st1 = same_space st st1"
  "same_space (st\<lparr>ex_threads := ts\<rparr>) st1 = same_space st st1"
  "same_space (st\<lparr>ex_finished := fin\<rparr>) st1 = same_space st st1"
  by (simp_all add: same_space_def)

lemma w_mem_space: "w_mem a v st = Some st' \<Longrightarrow> same_space st st'"
proof -
  assume w: "w_mem a v st = Some st'"
  then have ok: "0 \<le> sint a" "sint a < ex_limit st" "sint a mod 4 = 0"
    and st': "st' = st\<lparr>ex_mem := (ex_mem st)(sint a div 4 := v), ex_mem_w_cnt := ex_mem_w_cnt st + 1\<rparr>"
    by (auto simp: w_mem_def mem_ok_def split: if_splits)
  have "0 \<le> sint a div 4 \<and> 4 * (sint a div 4) < ex_limit st"
    using ok by (auto simp: pos_imp_zdiv_nonneg_iff)
  then show ?thesis by (auto simp: st' same_space_def)
qed

lemma r_mem_space: "r_mem a st = Some (v, st') \<Longrightarrow> same_space st st'"
  by (auto simp: r_mem_def split: if_splits)

lemma load_lanes_space: "load_lanes r a is st = Some st' \<Longrightarrow> same_space st st'"
  by (induction r a "is" st rule: load_lanes.induct)
    (fastforce simp: bind_eq_Some_conv dest: r_mem_space elim: same_space_trans)+

lemma store_lanes_space: "store_lanes r a is st = Some st' \<Longrightarrow> same_space st st'"
  by (induction r a "is" st rule: store_lanes.induct)
    (fastforce simp: bind_eq_Some_conv dest: w_mem_space elim: same_space_trans)+

lemma simd_mem_space:
  assumes "\<And>r a is st st'. f r a is st = Some st' \<Longrightarrow> same_space st st'"
    and "simd_mem f r a n st = Some st'"
  shows "same_space st st'"
  using assms(2)
proof (induction n arbitrary: r a st)
  case (Suc n)
  then show ?case
    by (fastforce simp: bind_eq_Some_conv split: if_splits dest: assms(1) elim: same_space_trans)
qed simp

lemma vldm_space: "simd_mem load_lanes r a n st = Some st' \<Longrightarrow> same_space st st'"
  by (rule simd_mem_space [of load_lanes]) (rule load_lanes_space)

lemma vstm_space: "simd_mem store_lanes r a n st = Some st' \<Longrightarrow> same_space st st'"
  by (rule simd_mem_space [of store_lanes]) (rule store_lanes_space)

lemma exec_simd_space: "exec_simd env ty s1 rs n fr st = Some st' \<Longrightarrow> same_space st st'"
  by (cases ty)
    (auto simp: exec_simd_def bind_eq_Some_conv split: option.splits list.splits if_splits
      dest: vldm_space vstm_space)

lemma goto_bb_space: "goto_bb env t fr st = Some (c, fr', st') \<Longrightarrow> same_space st st'"
  by (auto simp: goto_bb_def bind_eq_Some_conv)

lemma exec_simple_space: "exec_simple env i fr st = Some (c, fr', st') \<Longrightarrow> same_space st st'"
  by (cases i)
    (auto simp: bind_eq_Some_conv split: if_splits
      dest: w_mem_space r_mem_space goto_bb_space exec_simd_space)

lemma schedule_space: "schedule fr st = Done (fr', st') \<Longrightarrow> same_space st st'"
  by (auto simp: schedule_def Let_def split: if_splits option.splits)

lemma call_thread_space: "call_thread env name d args fr st = Done (fr', st') \<Longrightarrow> same_space st st'"
  apply (auto simp: call_thread_def push_cur_def Let_def split: if_splits option.splits list.splits
      dest!: w_mem_space r_mem_space schedule_space)
   apply (erule same_space_trans, assumption)+
  done

lemma read_words_space: "read_words scan n a st = Some st' \<Longrightarrow> same_space st st'"
proof (induction n arbitrary: a st)
  case (Suc n)
  then show ?case
    by (fastforce simp: bind_eq_Some_conv dest: w_mem_space elim: same_space_trans)
qed simp

lemma print_words_space: "print_words pr n a st = Some st' \<Longrightarrow> same_space st st'"
proof (induction n arbitrary: a st)
  case (Suc n)
  then show ?case
    by (fastforce simp: bind_eq_Some_conv dest: r_mem_space elim: same_space_trans)
qed simp

lemma call_io_space: "call_io env name args st = Some (v, st') \<Longrightarrow> same_space st st'"
  by (auto simp: call_io_def put_array_def put_text_def bind_eq_Some_conv
      split: if_splits list.splits option.splits dest!: read_words_space print_words_space)

lemma time_slice_space: "time_slice fr st = Done (fr', st') \<Longrightarrow> same_space st st'"
  by (auto simp: time_slice_def push_cur_def split: if_splits dest: schedule_space)

lemma enter_block_space: "enter_block env fr st = Some (fr', st') \<Longrightarrow> same_space st st'"
  by (auto simp: enter_block_def bind_eq_Some_conv)

text \<open>The two invariants: memory outside the limit, and the stack pointer at every depth
  of the call stack.\<close>

interpretation mem_inv: exec_invariant
  "\<lambda>(m0, L) st. ex_limit st = L \<and> (\<forall>a. \<not> (0 \<le> a \<and> 4 * a < L) \<longrightarrow> ex_mem st a = m0 a)"
  "\<lambda>a _. a"
  by unfold_locales
    (auto simp: same_space_def count_instr_def advance_def
      dest!: exec_simple_space call_io_space call_thread_space time_slice_space enter_block_space)

interpretation sp_inv: exec_invariant "\<lambda>s st. ex_sp st = s" "(+)"
  by unfold_locales
    (auto simp: same_space_def count_instr_def advance_def
      dest!: exec_simple_space call_io_space call_thread_space time_slice_space enter_block_space)

text \<open>The reads of the phis of a block see the registers as they were on entry.\<close>

lemma phi_use_other: "phi_use env fr d us tmps = Some t \<Longrightarrow> x \<noteq> d \<Longrightarrow> t x = tmps x"
  by (induction env fr d us tmps rule: phi_use.induct) (auto simp: bind_eq_Some_conv split: if_splits)

lemma phi_temps_other:
  "phi_temps env fr is tmps = Some t \<Longrightarrow> \<forall>d us. PhiInstr d us \<in> set is \<longrightarrow> d \<noteq> x \<Longrightarrow> t x = tmps x"
proof (induction "is" arbitrary: tmps)
  case (Cons i "is")
  obtain tmps' where t: "phi_temps env fr is tmps' = Some t" "tmps' x = tmps x"
  proof (cases "\<exists>d us. i = PhiInstr d us")
    case True
    then obtain d us where i: "i = PhiInstr d us" by blast
    then obtain y where "phi_use env fr d us tmps = Some y" "phi_temps env fr is y = Some t"
      using Cons.prems(1) by (auto simp: bind_eq_Some_conv)
    moreover have "x \<noteq> d" using Cons.prems(2) i by auto
    ultimately show ?thesis using that phi_use_other by metis
  next
    case False
    then show ?thesis using that Cons.prems(1) by (cases i) auto
  qed
  have "t x = tmps' x" by (rule Cons.IH [OF t(1)]) (use Cons.prems(2) in auto)
  then show ?case by (simp add: t(2))
qed simp

lemma phi_use_value:
  assumes "phi_use env fr d us tmps = Some t" and "(r, b) \<in> set us" and "fr_last_bb fr = Some b"
    and "distinct (map snd us)"
  shows "t d = r_reg env fr r \<and> r_reg env fr r \<noteq> None"
  using assms
proof (induction env fr d us tmps rule: phi_use.induct)
  case (2 env fr d r' b' us tmps)
  have skip: "phi_use env fr d us tmps' = Some t \<Longrightarrow> b \<notin> snd ` set us \<Longrightarrow> t d = tmps' d" for tmps'
    using "2.prems"(3)
    by (induction us arbitrary: tmps') (auto simp: bind_eq_Some_conv split: if_splits)
  show ?case
  proof (cases "b' = b")
    case True
    then have "r' = r" using "2.prems"(2,4) by (auto simp: image_iff)
    then show ?thesis using True "2.prems" skip by (auto simp: bind_eq_Some_conv)
  next
    case False
    then show ?thesis using "2.prems" "2.IH"(2) by auto
  qed
qed simp

lemma phi_temps_value:
  assumes "phi_temps env fr is tmps = Some t" and "PhiInstr d us \<in> set is"
    and "(r, b) \<in> set us" and "fr_last_bb fr = Some b" and "distinct (map snd us)"
    and "distinct (map def_of (filter (\<lambda>i. def_of i \<noteq> None) is))"
  shows "t d = r_reg env fr r \<and> r_reg env fr r \<noteq> None"
  using assms
proof (induction "is" arbitrary: tmps)
  case (Cons i "is")
  show ?case
  proof (cases "i = PhiInstr d us")
    case True
    with Cons.prems(1) obtain t1 where t1: "phi_use env fr d us tmps = Some t1" "phi_temps env fr is t1 = Some t"
      by (auto simp: bind_eq_Some_conv)
    have "\<forall>d' us'. PhiInstr d' us' \<in> set is \<longrightarrow> d' \<noteq> d"
    proof (intro allI impI notI)
      fix d' us' assume "PhiInstr d' us' \<in> set is" "d' = d"
      then have "Some d \<in> def_of ` set (filter (\<lambda>i. def_of i \<noteq> None) is)" by force
      then show False using Cons.prems(6) True by simp
    qed
    then show ?thesis
      using phi_temps_other [OF t1(2)] phi_use_value [OF t1(1) Cons.prems(3,4,5)] by simp
  next
    case False
    from Cons.prems(1) obtain tmps' where "phi_temps env fr is tmps' = Some t"
      by (cases i) (auto simp: bind_eq_Some_conv)
    then show ?thesis using Cons False by (auto split: if_splits)
  qed
qed simp

end
