(* ===== verification/ArchInfo.thy ===== *)
theory ArchInfo
  imports Common
begin

text \<open>
  \<open>src/arm/archinfo.hpp\<close> and the register class of \<open>src/arm/block.hpp\<close>: the register
  conventions of the target and the immediates its data-processing instructions can hold.
\<close>

section \<open>Registers\<close>

definition scalar_rank :: "scalar_type \<Rightarrow> nat" where
  "scalar_rank t = (case t of Void \<Rightarrow> 0 | IntT \<Rightarrow> 1 | FloatT \<Rightarrow> 2 | CharT \<Rightarrow> 3)"

lemma scalar_rank_inj: "scalar_rank s = scalar_rank t \<longleftrightarrow> s = t"
  by (cases s; cases t) (simp_all add: scalar_rank_def)

instantiation scalar_type :: linorder
begin

definition less_eq_scalar_type :: "scalar_type \<Rightarrow> scalar_type \<Rightarrow> bool" where
  "less_eq_scalar_type s t = (scalar_rank s \<le> scalar_rank t)"

definition less_scalar_type :: "scalar_type \<Rightarrow> scalar_type \<Rightarrow> bool" where
  "less_scalar_type s t = (scalar_rank s < scalar_rank t)"

instance
  by standard (auto simp: less_eq_scalar_type_def less_scalar_type_def scalar_rank_inj)

end

datatype areg = AReg (ar_type: scalar_type) (ar_id: int)

text \<open>\<open>operator<\<close> of \<open>Reg\<close>: by type, then by number.\<close>

instantiation areg :: linorder
begin

definition less_areg :: "areg \<Rightarrow> areg \<Rightarrow> bool" where
  "less_areg a b = (if ar_type a \<noteq> ar_type b then ar_type a < ar_type b else ar_id a < ar_id b)"

definition less_eq_areg :: "areg \<Rightarrow> areg \<Rightarrow> bool" where
  "less_eq_areg a b = (a < b \<or> a = b)"

instance
proof
  fix x y z :: areg
  show "(x < y) = (x \<le> y \<and> \<not> y \<le> x)"
    by (auto simp: less_areg_def less_eq_areg_def split: if_splits)
  show "x \<le> x" by (simp add: less_eq_areg_def)
  show "x \<le> y \<Longrightarrow> y \<le> z \<Longrightarrow> x \<le> z"
    by (auto simp: less_areg_def less_eq_areg_def split: if_splits)
  show "x \<le> y \<Longrightarrow> y \<le> x \<Longrightarrow> x = y"
    by (auto simp: less_areg_def less_eq_areg_def split: if_splits)
  show "x \<le> y \<or> y \<le> x"
    by (cases x; cases y) (auto simp: less_areg_def less_eq_areg_def split: if_splits)
qed

end

abbreviation (input) ireg :: "int \<Rightarrow> areg" where "ireg i \<equiv> AReg IntT i"
abbreviation (input) freg :: "int \<Rightarrow> areg" where "freg i \<equiv> AReg FloatT i"

definition sp_reg :: areg where "sp_reg = AReg IntT 13"
definition lr_reg :: areg where "lr_reg = AReg IntT 14"
definition pc_reg :: areg where "pc_reg = AReg IntT 15"

datatype register_usage = CallerSave | CalleeSave | Special

definition int_register_usage :: "register_usage list" where
  "int_register_usage =
     [CallerSave, CallerSave, CallerSave, CallerSave,
      CalleeSave, CalleeSave, CalleeSave, CalleeSave, CalleeSave,
      CalleeSave,
      CalleeSave, CalleeSave,
      CallerSave, Special,
      CalleeSave, Special]"

definition float_register_usage :: "register_usage list" where
  "float_register_usage =
     [CallerSave, CallerSave, CallerSave, CallerSave,
      CalleeSave, CalleeSave, CalleeSave, CalleeSave, CalleeSave, CalleeSave,
      CalleeSave, CalleeSave, CalleeSave, CalleeSave, CalleeSave, CalleeSave,
      CallerSave, CallerSave, CallerSave, CallerSave, CallerSave, CallerSave,
      CallerSave, CallerSave, CallerSave, CallerSave, CallerSave, CallerSave,
      CallerSave, CallerSave, CallerSave, CallerSave]"

definition int_count :: int where "int_count = 16"
definition float_count :: int where "float_count = 32"
definition argument_register_count :: nat where "argument_register_count = 4"
definition argument_registers :: "int list" where "argument_registers = [0, 1, 2, 3]"
definition int_allocable_count :: nat where "int_allocable_count = 14"
definition float_allocable_count :: nat where "float_allocable_count = 32"

definition usage_allocable :: "register_usage list \<Rightarrow> int \<Rightarrow> bool" where
  "usage_allocable us r = (us ! nat r = CallerSave \<or> us ! nat r = CalleeSave)"

definition is_machine :: "areg \<Rightarrow> bool" where
  "is_machine r = (if ar_type r = IntT then ar_id r < int_count else ar_id r < float_count)"

definition is_pseudo :: "areg \<Rightarrow> bool" where
  "is_pseudo r = (if ar_type r = IntT then int_count \<le> ar_id r else float_count \<le> ar_id r)"

text \<open>\<open>is_allocable\<close> reads the usage table; it is asked of machine registers only.\<close>

definition is_allocable :: "areg \<Rightarrow> bool" where
  "is_allocable r =
     (if ar_type r = IntT then usage_allocable int_register_usage (ar_id r)
      else usage_allocable float_register_usage (ar_id r))"

definition caller_save_regs :: "areg list" where
  "caller_save_regs =
     map (\<lambda>i. AReg IntT (int i)) (filter (\<lambda>i. int_register_usage ! i = CallerSave) [0..<16]) @
     map (\<lambda>i. AReg FloatT (int i)) (filter (\<lambda>i. float_register_usage ! i = CallerSave) [0..<32])"

lemma pseudo_not_machine: "is_pseudo r = (\<not> is_machine r)"
  by (auto simp: is_pseudo_def is_machine_def)

text \<open>The tables are as the counts say.\<close>

lemma allocable_counts:
  "length int_register_usage = 16" "length float_register_usage = 32"
  "length (filter (\<lambda>u. u \<noteq> Special) int_register_usage) = int_allocable_count"
  "length (filter (\<lambda>u. u \<noteq> Special) float_register_usage) = float_allocable_count"
  by (simp_all add: int_register_usage_def float_register_usage_def int_allocable_count_def
      float_allocable_count_def)

lemma caller_save_regs_eq:
  "caller_save_regs =
     [ireg 0, ireg 1, ireg 2, ireg 3, ireg 12,
      freg 0, freg 1, freg 2, freg 3, freg 16, freg 17, freg 18, freg 19, freg 20, freg 21,
      freg 22, freg 23, freg 24, freg 25, freg 26, freg 27, freg 28, freg 29, freg 30, freg 31]"
  by (simp add: caller_save_regs_def int_register_usage_def float_register_usage_def upt_rec)

section \<open>Immediates\<close>

text \<open>\<open>(u << (2 * i)) | (u >> (32 - 2 * i))\<close>\<close>

definition rotate_left2 :: "w32 \<Rightarrow> nat \<Rightarrow> w32" where
  "rotate_left2 u i = push_bit (2 * i) u OR drop_bit (32 - 2 * i) u"

fun legal_from :: "w32 \<Rightarrow> nat list \<Rightarrow> bool" where
  "legal_from u [] = False"
| "legal_from u (i # is) = (if rotate_left2 u i \<le> 0xFF then True else legal_from u is)"

definition is_legal_immediate :: "w32 \<Rightarrow> bool" where
  "is_legal_immediate u = (if u \<le> 0xFF then True else legal_from u [1..<16])"

lemma legal_from_iff: "legal_from u is = (\<exists>i \<in> set is. rotate_left2 u i \<le> 0xFF)"
  by (induction "is") auto

lemma rotate_left2_rotl:
  assumes "i < 16"
  shows "rotate_left2 u i = word_rotl (2 * i) u"
proof (rule bit_word_eqI)
  fix n assume n: "n < LENGTH(32)"
  have r: "bit (word_rotl (2 * i) u) n = bit u ((n + (32 - 2 * i)) mod 32)"
    using assms n by (simp add: bit_simps)
  show "bit (rotate_left2 u i) n = bit (word_rotl (2 * i) u) n"
  proof (cases "n < 2 * i")
    case True
    then have "(n + (32 - 2 * i)) mod 32 = n + (32 - 2 * i)" using assms n by simp
    then show ?thesis unfolding r using True assms n
      by (auto simp: rotate_left2_def bit_push_bit_iff bit_drop_bit_eq bit_or_iff add.commute)
  next
    case False
    then have "(n + (32 - 2 * i)) mod 32 = n - 2 * i"
      using assms n by (cases "i = 0") (auto simp: mod_if)
    moreover have "\<not> bit u (32 - 2 * i + n)"
      using False by (intro notI) (auto dest: bit_imp_le_length)
    ultimately show ?thesis unfolding r using False assms n
      by (auto simp: rotate_left2_def bit_push_bit_iff bit_drop_bit_eq bit_or_iff add.commute)
  qed
qed

lemma rotl_rotr_eq: "word_rotl n (u :: w32) = v \<longleftrightarrow> u = word_rotr n v"
  by (metis word_rot_rl word_rot_lr)

text \<open>The loop accepts exactly the 8-bit values rotated right by an even amount: the
  immediates of the ARM data-processing instructions.\<close>

lemma legal_immediate_iff:
  "is_legal_immediate u = (\<exists>i < 16. \<exists>b \<le> (0xFF :: w32). u = word_rotr (2 * i) b)"
proof -
  have "is_legal_immediate u = (\<exists>i < 16. rotate_left2 u i \<le> 0xFF)"
  proof
    assume "is_legal_immediate u"
    then have "u \<le> 0xFF \<or> (\<exists>i \<in> {1..<16}. rotate_left2 u i \<le> 0xFF)"
      by (simp add: is_legal_immediate_def legal_from_iff split: if_splits)
    then show "\<exists>i < 16. rotate_left2 u i \<le> 0xFF"
    proof
      assume "u \<le> 0xFF"
      then have "rotate_left2 u 0 \<le> 0xFF" by (simp add: rotate_left2_def)
      then show ?thesis by (intro exI [of _ 0]) simp
    qed auto
  next
    assume "\<exists>i < 16. rotate_left2 u i \<le> 0xFF"
    then obtain i where i: "i < 16" "rotate_left2 u i \<le> 0xFF" by blast
    show "is_legal_immediate u"
    proof (cases "i = 0")
      case True
      then show ?thesis using i by (simp add: is_legal_immediate_def rotate_left2_def)
    next
      case False
      then have "legal_from u [1..<16]" using i by (auto simp: legal_from_iff)
      then show ?thesis by (simp add: is_legal_immediate_def)
    qed
  qed
  also have "\<dots> = (\<exists>i < 16. \<exists>b \<le> (0xFF :: w32). u = word_rotr (2 * i) b)"
    using rotate_left2_rotl rotl_rotr_eq by metis
  finally show ?thesis .
qed

text \<open>Each byte of a word is a legal immediate.\<close>

lemma legal_immediate_byte:
  assumes "i < 4"
  shows "is_legal_immediate (u AND push_bit (8 * i) 0xFF)"
proof -
  let ?v = "u AND push_bit (8 * i) 0xFF"
  have d: "drop_bit (8 * i) ?v = drop_bit (8 * i) u AND 0xFF"
    by (rule bit_word_eqI) (auto simp: bit_simps dest: bit_imp_le_length)
  have p: "push_bit (32 - 8 * i) ?v = 0"
  proof (rule bit_word_eqI)
    fix n assume n: "n < LENGTH(32)"
    have "\<not> bit (push_bit (32 - 8 * i) ?v) n"
      unfolding bit_push_bit_iff bit_and_iff using assms n by auto
    then show "bit (push_bit (32 - 8 * i) ?v) n = bit (0 :: w32) n" by simp
  qed
  show ?thesis
  proof (cases "i = 0")
    case True
    have "u AND 0xFF \<le> (0xFF :: w32)" by (rule word_and_le1)
    then show ?thesis using True by (simp add: is_legal_immediate_def)
  next
    case False
    have "2 * (16 - 4 * i) = 32 - 8 * i" "32 - (32 - 8 * i) = 8 * i" using assms by auto
    then have "rotate_left2 ?v (16 - 4 * i) = drop_bit (8 * i) u AND 0xFF"
      using d p by (simp add: rotate_left2_def)
    then have "rotate_left2 ?v (16 - 4 * i) \<le> 0xFF" by (simp add: word_and_le1)
    moreover have "16 - 4 * i \<in> {1..<16}" using False assms by auto
    ultimately show ?thesis unfolding is_legal_immediate_def legal_from_iff by auto
  qed
qed

end
