(* ===== verification/ArmInst.thy ===== *)
theory ArmInst
  imports ArchInfo IRExec
begin

text \<open>
  \<open>src/arm/inst.hpp\<close> and the parts of \<open>src/arm/inst.cpp\<close> that build instruction lists: the
  instructions of the back end, the registers each defines and uses, and the loading of
  constants. A stack object and a block are keys.
\<close>

section \<open>Instructions\<close>

datatype inst_cond = Always | Eq | Ne | Ge | Gt | Le | Lt

datatype shift_type = LSL | LSR | ASR | ROR
datatype shift = Shift shift_type nat

definition no_shift :: shift where "no_shift = Shift LSL 0"

fun shift_w :: "shift \<Rightarrow> nat" where "shift_w (Shift t w) = w"

datatype rr_op = RAdd | RSub | RMul | RDiv | RRevSub | RMod | RAnd
datatype frr_op = FAdd | FSub | FMul | FDiv
datatype ml_op = Mla | Mls
datatype ri_op = IAdd | ISub | IRevSub | ILsl | ILsr | IAsr | IBic
datatype fr_op = FrNeg | FrI2F | FrF2I | FrF2D0 | FrF2D1
datatype mi_op = Mov | Mvn
datatype cmp_op = Cmp | Cmn

type_synonym obj = nat
type_synonym blk = nat

datatype iop =
    RegRegInst rr_op areg areg areg shift
  | FRegRegInst frr_op areg areg areg
  | MLInst ml_op areg areg areg areg
  | SMulL areg areg areg areg
  | RegImmInst ri_op areg areg w32
  | MoveReg areg areg
  | FRegInst fr_op areg areg
  | ShiftInst areg areg shift
  | MoveImm mi_op areg w32
  | MoveW areg w32
  | MoveT areg w32
  | LoadSymbolAddrLower16 areg string
  | LoadSymbolAddrUpper16 areg string
  | Load areg areg w32
  | Store areg areg w32
  | ComplexLoad areg areg areg shift
  | ComplexStore areg areg areg shift
  | LoadStack areg w32 obj
  | StoreStack areg w32 obj
  | Push "areg list"
  | ChangeSP w32
  | LoadStackAddr areg w32 obj
  | LoadStackOffset areg w32 obj
  | RegRegCmp cmp_op areg areg
  | FRegRegCmp areg areg
  | RegImmCmp cmp_op areg w32
  | SIMD "areg option" simd_type "nat list" nat
  | Branch blk
  | FuncCall string nat nat
  | Return scalar_type

datatype inst = Inst (i_cond: inst_cond) (i_op: iop)

fun logical_not :: "inst_cond \<Rightarrow> inst_cond option" where
  "logical_not Eq = Some Ne"
| "logical_not Ne = Some Eq"
| "logical_not Ge = Some Lt"
| "logical_not Gt = Some Le"
| "logical_not Le = Some Gt"
| "logical_not Lt = Some Ge"
| "logical_not Always = None"

fun reverse_operand :: "inst_cond \<Rightarrow> inst_cond" where
  "reverse_operand Ge = Le"
| "reverse_operand Gt = Lt"
| "reverse_operand Le = Ge"
| "reverse_operand Lt = Gt"
| "reverse_operand c = c"

fun cond_of_ir :: "binary_compute \<Rightarrow> inst_cond option" where
  "cond_of_ir LEQ = Some Le"
| "cond_of_ir FLEQ = Some Le"
| "cond_of_ir LESS = Some Lt"
| "cond_of_ir FLESS = Some Lt"
| "cond_of_ir EQ = Some Eq"
| "cond_of_ir FEQ = Some Eq"
| "cond_of_ir NEQ = Some Ne"
| "cond_of_ir FNEQ = Some Ne"
| "cond_of_ir _ = None"

fun rr_op_of_ir :: "binary_compute \<Rightarrow> rr_op option" where
  "rr_op_of_ir ADD = Some RAdd"
| "rr_op_of_ir SUB = Some RSub"
| "rr_op_of_ir MUL = Some RMul"
| "rr_op_of_ir DIV = Some RDiv"
| "rr_op_of_ir MOD = Some RMod"
| "rr_op_of_ir _ = None"

fun frr_op_of_ir :: "binary_compute \<Rightarrow> frr_op option" where
  "frr_op_of_ir FADD = Some FAdd"
| "frr_op_of_ir FSUB = Some FSub"
| "frr_op_of_ir FMUL = Some FMul"
| "frr_op_of_ir FDIV = Some FDiv"
| "frr_op_of_ir _ = None"

text \<open>The constructor of \<open>RegRegInst\<close> with a shift asserts that the operation has one.\<close>

definition reg_reg_inst :: "rr_op \<Rightarrow> areg \<Rightarrow> areg \<Rightarrow> areg \<Rightarrow> shift \<Rightarrow> iop option" where
  "reg_reg_inst op d l r sh =
     (if shift_w sh \<noteq> 0 \<and> \<not> (op = RAdd \<or> op = RSub \<or> op = RRevSub \<or> op = RAnd) then None
      else Some (RegRegInst op d l r sh))"

section \<open>What an instruction defines and uses\<close>

fun op_def_reg :: "iop \<Rightarrow> areg list" where
  "op_def_reg (RegRegInst _ d l r sh) = [d]"
| "op_def_reg (FRegRegInst _ d l r) = [d]"
| "op_def_reg (MLInst _ d s1 s2 s3) = [d]"
| "op_def_reg (SMulL d1 d2 s1 s2) = [d1, d2]"
| "op_def_reg (RegImmInst _ d l v) = [d]"
| "op_def_reg (MoveReg d s) = [d]"
| "op_def_reg (FRegInst _ d s) = [d]"
| "op_def_reg (ShiftInst d s sh) = [d]"
| "op_def_reg (MoveImm _ d v) = [d]"
| "op_def_reg (MoveW d v) = [d]"
| "op_def_reg (MoveT d v) = [d]"
| "op_def_reg (LoadSymbolAddrLower16 d symb) = [d]"
| "op_def_reg (LoadSymbolAddrUpper16 d symb) = [d]"
| "op_def_reg (Load d b off) = [d]"
| "op_def_reg (ComplexLoad d b off sh) = [d]"
| "op_def_reg (LoadStack d off k) = [d]"
| "op_def_reg (LoadStackAddr d off k) = [d]"
| "op_def_reg (LoadStackOffset d off k) = [d]"
| "op_def_reg (SIMD src ty rs n) = (if ty = VDUP_32 then [AReg IntT 0] else [])"
| "op_def_reg (FuncCall f ni nf) = caller_save_regs @ [lr_reg]"
| "op_def_reg _ = []"

definition def_reg :: "inst \<Rightarrow> areg list" where
  "def_reg i = op_def_reg (i_op i)"

text \<open>A conditional instruction may keep its destination, so it uses it.\<close>

definition if_cond :: "inst_cond \<Rightarrow> areg list \<Rightarrow> areg list" where
  "if_cond c ds = (if c \<noteq> Always then ds else [])"

fun op_use_reg :: "inst_cond \<Rightarrow> iop \<Rightarrow> areg list" where
  "op_use_reg c (RegRegInst _ d l r sh) = if_cond c [d] @ [l, r]"
| "op_use_reg c (FRegRegInst _ d l r) = if_cond c [d] @ [l, r]"
| "op_use_reg c (MLInst _ d s1 s2 s3) = if_cond c [d] @ [s1, s2, s3]"
| "op_use_reg c (SMulL d1 d2 s1 s2) = if_cond c [d1, d2] @ [s1, s2]"
| "op_use_reg c (RegImmInst _ d l v) = if_cond c [d] @ [l]"
| "op_use_reg c (MoveReg d s) = if_cond c [d] @ [s]"
| "op_use_reg c (FRegInst _ d s) = [s]"
| "op_use_reg c (ShiftInst d s sh) = if_cond c [d] @ [s]"
| "op_use_reg c (MoveImm _ d v) = if_cond c [d]"
| "op_use_reg c (MoveW d v) = if_cond c [d]"
| "op_use_reg c (MoveT d v) = [d]"
| "op_use_reg c (LoadSymbolAddrLower16 d symb) = if_cond c [d]"
| "op_use_reg c (LoadSymbolAddrUpper16 d symb) = [d]"
| "op_use_reg c (Load d b off) = [b] @ if_cond c [d]"
| "op_use_reg c (Store s b off) = [s, b]"
| "op_use_reg c (ComplexLoad d b off sh) = [b, off] @ if_cond c [d]"
| "op_use_reg c (ComplexStore s b off sh) = [s, b, off]"
| "op_use_reg c (LoadStack d off k) = if_cond c [d]"
| "op_use_reg c (StoreStack s off k) = [s]"
| "op_use_reg c (Push src) = src"
| "op_use_reg c (ChangeSP v) = []"
| "op_use_reg c (LoadStackAddr d off k) = if_cond c [d]"
| "op_use_reg c (LoadStackOffset d off k) = if_cond c [d]"
| "op_use_reg c (RegRegCmp _ l r) = [l, r]"
| "op_use_reg c (FRegRegCmp l r) = [l, r]"
| "op_use_reg c (RegImmCmp _ l v) = [l]"
| "op_use_reg c (SIMD src ty rs n) = (case src of Some s \<Rightarrow> [s] | None \<Rightarrow> [])"
| "op_use_reg c (Branch b) = []"
| "op_use_reg c (FuncCall f ni nf) =
     (if c \<noteq> Always then caller_save_regs @ [lr_reg]
      else map (AReg IntT) (take (min ni argument_register_count) argument_registers)
           @ map (AReg FloatT) (take (min nf argument_register_count) argument_registers))"
| "op_use_reg c (Return t) =
     (case t of IntT \<Rightarrow> [AReg IntT 0] | FloatT \<Rightarrow> [AReg FloatT 0] | _ \<Rightarrow> [])"

definition use_reg :: "inst \<Rightarrow> areg list" where
  "use_reg i = op_use_reg (i_cond i) (i_op i)"

fun op_change_cpsr :: "iop \<Rightarrow> bool" where
  "op_change_cpsr (RegRegCmp _ _ _) = True"
| "op_change_cpsr (FRegRegCmp _ _) = True"
| "op_change_cpsr (RegImmCmp _ _ _) = True"
| "op_change_cpsr (FuncCall _ _ _) = True"
| "op_change_cpsr _ = False"

definition change_cpsr :: "inst \<Rightarrow> bool" where "change_cpsr i = op_change_cpsr (i_op i)"

definition use_cpsr :: "inst \<Rightarrow> bool" where "use_cpsr i = (i_cond i \<noteq> Always)"

fun op_side_effect :: "iop \<Rightarrow> bool" where
  "op_side_effect (Store _ _ _) = True"
| "op_side_effect (ComplexStore _ _ _ _) = True"
| "op_side_effect (StoreStack _ _ _) = True"
| "op_side_effect (Push _) = True"
| "op_side_effect (ChangeSP _) = True"
| "op_side_effect (SIMD _ _ _ _) = True"
| "op_side_effect (Branch _) = True"
| "op_side_effect (FuncCall _ _ _) = True"
| "op_side_effect (Return _) = True"
| "op_side_effect _ = False"

definition side_effect :: "inst \<Rightarrow> bool" where "side_effect i = op_side_effect (i_op i)"

text \<open>\<open>maintain_sp\<close>: how an instruction moves the stack pointer.\<close>

fun op_maintain_sp :: "iop \<Rightarrow> w32 \<Rightarrow> w32" where
  "op_maintain_sp (Push src) off = off - 4 * of_nat (length src)"
| "op_maintain_sp (ChangeSP c) off = off + c"
| "op_maintain_sp _ off = off"

definition maintain_sp :: "inst \<Rightarrow> w32 \<Rightarrow> w32" where "maintain_sp i = op_maintain_sp (i_op i)"

text \<open>\<open>regs\<close>: the registers an allocation may rename, as a map over them.\<close>

fun map_op_regs :: "(areg \<Rightarrow> areg) \<Rightarrow> iop \<Rightarrow> iop" where
  "map_op_regs f (RegRegInst x d l r sh) = RegRegInst x (f d) (f l) (f r) sh"
| "map_op_regs f (FRegRegInst x d l r) = FRegRegInst x (f d) (f l) (f r)"
| "map_op_regs f (MLInst x d s1 s2 s3) = MLInst x (f d) (f s1) (f s2) (f s3)"
| "map_op_regs f (SMulL d1 d2 s1 s2) = SMulL (f d1) (f d2) (f s1) (f s2)"
| "map_op_regs f (RegImmInst x d l v) = RegImmInst x (f d) (f l) v"
| "map_op_regs f (MoveReg d s) = MoveReg (f d) (f s)"
| "map_op_regs f (FRegInst x d s) = FRegInst x (f d) (f s)"
| "map_op_regs f (ShiftInst d s sh) = ShiftInst (f d) (f s) sh"
| "map_op_regs f (MoveImm x d v) = MoveImm x (f d) v"
| "map_op_regs f (MoveW d v) = MoveW (f d) v"
| "map_op_regs f (MoveT d v) = MoveT (f d) v"
| "map_op_regs f (LoadSymbolAddrLower16 d symb) = LoadSymbolAddrLower16 (f d) symb"
| "map_op_regs f (LoadSymbolAddrUpper16 d symb) = LoadSymbolAddrUpper16 (f d) symb"
| "map_op_regs f (Load d b off) = Load (f d) (f b) off"
| "map_op_regs f (Store s b off) = Store (f s) (f b) off"
| "map_op_regs f (ComplexLoad d b off sh) = ComplexLoad (f d) (f b) (f off) sh"
| "map_op_regs f (ComplexStore s b off sh) = ComplexStore (f s) (f b) (f off) sh"
| "map_op_regs f (LoadStack d off k) = LoadStack (f d) off k"
| "map_op_regs f (StoreStack s off k) = StoreStack (f s) off k"
| "map_op_regs f (Push src) = Push (map f src)"
| "map_op_regs f (LoadStackAddr d off k) = LoadStackAddr (f d) off k"
| "map_op_regs f (LoadStackOffset d off k) = LoadStackOffset (f d) off k"
| "map_op_regs f (RegRegCmp x l r) = RegRegCmp x (f l) (f r)"
| "map_op_regs f (FRegRegCmp l r) = FRegRegCmp (f l) (f r)"
| "map_op_regs f (RegImmCmp x l v) = RegImmCmp x (f l) v"
| "map_op_regs f (SIMD src ty rs n) = SIMD (map_option f src) ty rs n"
| "map_op_regs f (ChangeSP v) = ChangeSP v"
| "map_op_regs f (Branch b) = Branch b"
| "map_op_regs f (FuncCall g ni nf) = FuncCall g ni nf"
| "map_op_regs f (Return t) = Return t"

definition map_regs :: "(areg \<Rightarrow> areg) \<Rightarrow> inst \<Rightarrow> inst" where
  "map_regs f i = Inst (i_cond i) (map_op_regs f (i_op i))"

definition replace_reg :: "areg \<Rightarrow> areg \<Rightarrow> inst \<Rightarrow> inst" where
  "replace_reg before after i = map_regs (\<lambda>r. if r = before then after else r) i"

definition inst_def :: "inst \<Rightarrow> areg \<Rightarrow> bool" where "inst_def i r = (r \<in> set (def_reg i))"
definition inst_use :: "inst \<Rightarrow> areg \<Rightarrow> bool" where "inst_use i r = (r \<in> set (use_reg i))"
definition inst_relate :: "inst \<Rightarrow> areg \<Rightarrow> bool" where
  "inst_relate i r = (inst_def i r \<or> inst_use i r)"

definition tracked :: "areg \<Rightarrow> bool" where
  "tracked r = (is_pseudo r \<or> is_allocable r)"

definition update_live :: "inst \<Rightarrow> areg set \<Rightarrow> areg set" where
  "update_live i live =
     (live - {r \<in> set (def_reg i). tracked r}) \<union> {r \<in> set (use_reg i). tracked r}"

definition set_cond :: "inst_cond \<Rightarrow> inst \<Rightarrow> inst" where
  "set_cond c i = Inst c (i_op i)"

section \<open>Constants and addresses\<close>

definition always :: "iop list \<Rightarrow> inst list" where
  "always ops = map (Inst Always) ops"

definition load_imm :: "areg \<Rightarrow> w32 \<Rightarrow> inst list" where
  "load_imm dst imm =
     (if is_legal_immediate imm then always [MoveImm Mov dst imm]
      else if is_legal_immediate (NOT imm) then always [MoveImm Mvn dst (NOT imm)]
      else let upper = drop_bit 16 imm; bot = imm AND 0xFFFF in
           always ([MoveW dst bot] @ (if upper \<noteq> 0 then [MoveT dst upper] else [])))"

definition reg_imm_sum :: "areg \<Rightarrow> areg \<Rightarrow> w32 \<Rightarrow> inst list" where
  "reg_imm_sum dst lhs rhs =
     (if is_legal_immediate rhs then always [RegImmInst IAdd dst lhs rhs]
      else if is_legal_immediate (- rhs) then always [RegImmInst ISub dst lhs (- rhs)]
      else load_imm dst rhs @ always [RegRegInst RAdd dst lhs dst no_shift])"

definition load_symbol_addr :: "areg \<Rightarrow> string \<Rightarrow> inst list" where
  "load_symbol_addr dst symbol =
     always [LoadSymbolAddrLower16 dst symbol, LoadSymbolAddrUpper16 dst symbol]"

definition load_store_offset_range :: "int \<Rightarrow> bool" where
  "load_store_offset_range off = (- 1023 \<le> off \<and> off \<le> 1023)"

text \<open>The loops of \<open>sp_move\<close> over the four bytes of the change.\<close>

fun sp_bytes :: "(w32 \<Rightarrow> w32) \<Rightarrow> w32 \<Rightarrow> nat list \<Rightarrow> inst list" where
  "sp_bytes f v [] = []"
| "sp_bytes f v (i # is) =
     (let cur = v AND push_bit (i * 8) 0xFF in
      (if cur \<noteq> 0 then [Inst Always (ChangeSP (f cur))] else []) @ sp_bytes f v is)"

definition sp_move :: "w32 \<Rightarrow> inst list" where
  "sp_move change =
     (if change = 0 then []
      else if is_legal_immediate change \<or> is_legal_immediate (- change)
      then [Inst Always (ChangeSP change)]
      else if 0 <s change then sp_bytes (\<lambda>x. x) change [0..<4]
      else sp_bytes uminus (- change) [0..<4])"

text \<open>The registers of an instruction after a renaming.\<close>

lemma def_reg_cond [simp]: "def_reg (set_cond c i) = def_reg i"
  by (simp add: def_reg_def set_cond_def)

lemma use_reg_always:
  "set (use_reg (Inst Always x)) \<subseteq> set (use_reg (Inst c x)) \<or> (\<exists>f ni nf. x = FuncCall f ni nf)"
  by (cases x) (auto simp: use_reg_def if_cond_def split: option.splits scalar_type.splits)

lemma logical_not_inverse: "logical_not c = Some d \<Longrightarrow> logical_not d = Some c"
  by (cases c) auto

text \<open>The pieces of a stack-pointer move are legal and add up to it.\<close>

lemma sp_bytes_legal:
  assumes "\<forall>i \<in> set is. i < 4"
  shows "\<forall>c. Inst Always (ChangeSP c) \<in> set (sp_bytes (\<lambda>x. x) v is) \<longrightarrow> is_legal_immediate c"
    and "\<forall>c. Inst Always (ChangeSP c) \<in> set (sp_bytes uminus v is) \<longrightarrow> is_legal_immediate (- c)"
  using assms
  by (induction "is") (auto simp: Let_def mult.commute [of _ 8] legal_immediate_byte)

fun sp_total :: "inst list \<Rightarrow> w32" where
  "sp_total [] = 0"
| "sp_total (i # is) = maintain_sp i 0 + sp_total is"

lemma sp_total_bytes:
  "sp_total (sp_bytes f v is) = (\<Sum>i\<leftarrow>is. if v AND push_bit (i * 8) 0xFF \<noteq> 0 then f (v AND push_bit (i * 8) 0xFF) else 0)"
  by (induction "is") (auto simp: Let_def maintain_sp_def)

lemma and_masks_add:
  fixes v m n :: w32
  assumes "m AND n = 0"
  shows "(v AND m) + (v AND n) = v AND (m OR n)"
proof -
  have "(v AND m) AND (v AND n) = v AND (m AND n)"
    by (rule bit_word_eqI) (auto simp: bit_and_iff)
  then have "(v AND m) AND (v AND n) = 0" by (simp add: assms)
  then show ?thesis
    using word_plus_and_or [of "v AND m" "v AND n"] by (simp add: bit.conj_disj_distrib)
qed

lemma word_byte_sum:
  "(\<Sum>i\<leftarrow>[0..<4]. v AND push_bit (i * 8) 0xFF) = (v :: w32)"
proof -
  have "(v AND 0xFF0000) + (v AND 0xFF000000) = v AND 0xFFFF0000"
    using and_masks_add [of "0xFF0000" "0xFF000000" v] by simp
  moreover have "(v AND 0xFF00) + (v AND 0xFFFF0000) = v AND 0xFFFFFF00"
    using and_masks_add [of "0xFF00" "0xFFFF0000" v] by simp
  moreover have "(v AND 0xFF) + (v AND 0xFFFFFF00) = v AND 0xFFFFFFFF"
    using and_masks_add [of "0xFF" "0xFFFFFF00" v] by simp
  moreover have "v AND 0xFFFFFFFF = v"
  proof -
    have "(0xFFFFFFFF :: w32) = - 1" by simp
    then show ?thesis by (simp only: and.right_neutral)
  qed
  ultimately show ?thesis by (simp add: upt_rec)
qed

lemma sp_move_total: "sp_total (sp_move v) = v"
proof -
  have "(\<Sum>i\<leftarrow>is. if v AND push_bit (i * 8) 0xFF \<noteq> 0 then v AND push_bit (i * 8) 0xFF else 0)
      = (\<Sum>i\<leftarrow>is. v AND push_bit (i * 8) 0xFF)" for v :: w32 and "is"
    by (induction "is") auto
  moreover have "(\<Sum>i\<leftarrow>is. if v AND push_bit (i * 8) 0xFF \<noteq> 0 then - (v AND push_bit (i * 8) 0xFF) else 0)
      = - (\<Sum>i\<leftarrow>is. v AND push_bit (i * 8) 0xFF)" for v :: w32 and "is"
    by (induction "is") auto
  ultimately show ?thesis
    by (simp add: sp_move_def sp_total_bytes word_byte_sum maintain_sp_def)
qed

lemma sp_bytes_shape: "i \<in> set (sp_bytes f v is) \<Longrightarrow> \<exists>c. i = Inst Always (ChangeSP c)"
  by (induction "is") (auto simp: Let_def split: if_splits)

lemma sp_move_legal:
  assumes "i \<in> set (sp_move v)"
  shows "\<exists>c. i = Inst Always (ChangeSP c) \<and> (is_legal_immediate c \<or> is_legal_immediate (- c))"
proof -
  from assms obtain c where c: "i = Inst Always (ChangeSP c)"
    by (auto simp: sp_move_def split: if_splits dest: sp_bytes_shape)
  then show ?thesis
    using assms sp_bytes_legal [of "[0..<4]" v] sp_bytes_legal [of "[0..<4]" "- v"]
    by (auto simp: sp_move_def split: if_splits)
qed

end
