(* ===== verification/ArmSem.thy ===== *)
theory ArmSem
  imports ArmInst
begin

text \<open>
  The reference meaning of the instructions the back end emits: what the assembly text that
  \<open>gen_asm\<close> prints for an instruction does to the registers, the memory and the flags of an
  ARMv7 core. It is the specification the passes of the back end are proved against. A stack
  object lies at a fixed distance from the base of the frame (\<open>a_base\<close>). A called function
  is a parameter of the environment.
\<close>

section \<open>State\<close>

datatype flags = Flags (fl_n: bool) (fl_z: bool) (fl_c: bool) (fl_v: bool)

text \<open>Straight-line control: still in the block, a branch taken, or returned.\<close>

datatype control = Fall | Goto blk | Returned

record arm_state =
  a_reg :: "areg \<Rightarrow> w32"
  a_mem :: "w32 \<Rightarrow> w32"
  a_flags :: flags
  a_fpscr :: flags
  a_base :: w32
  a_simd :: simd_file
  a_ctl :: control

record arm_env =
  ae_pos :: "obj \<Rightarrow> w32"
  ae_sym :: "string \<Rightarrow> w32"
  ae_call :: "string \<Rightarrow> nat \<Rightarrow> nat \<Rightarrow> arm_state \<Rightarrow> arm_state option"

definition set_reg :: "areg \<Rightarrow> w32 \<Rightarrow> arm_state \<Rightarrow> arm_state" where
  "set_reg r v s = s\<lparr>a_reg := (a_reg s)(r := v)\<rparr>"

lemma set_reg_simps [simp]:
  "a_reg (set_reg r v s) = (a_reg s)(r := v)"
  "a_mem (set_reg r v s) = a_mem s" "a_flags (set_reg r v s) = a_flags s"
  "a_fpscr (set_reg r v s) = a_fpscr s" "a_base (set_reg r v s) = a_base s"
  "a_simd (set_reg r v s) = a_simd s" "a_ctl (set_reg r v s) = a_ctl s"
  by (simp_all add: set_reg_def)

definition read_word :: "arm_state \<Rightarrow> w32 \<Rightarrow> w32 option" where
  "read_word s a = (if a AND 3 = 0 then Some (a_mem s a) else None)"

definition write_word :: "w32 \<Rightarrow> w32 \<Rightarrow> arm_state \<Rightarrow> arm_state option" where
  "write_word a v s = (if a AND 3 = 0 then Some (s\<lparr>a_mem := (a_mem s)(a := v)\<rparr>) else None)"

section \<open>Flags and conditions\<close>

text \<open>\<open>cmp a, b\<close> and \<open>cmn a, b\<close>; \<open>vcmp\<close> with its unordered result.\<close>

definition flags_sub :: "w32 \<Rightarrow> w32 \<Rightarrow> flags" where
  "flags_sub a b = Flags (a - b <s 0) (a = b) (b \<le> a)
     (sint a - sint b < - (2 ^ 31) \<or> 2 ^ 31 \<le> sint a - sint b)"

definition flags_add :: "w32 \<Rightarrow> w32 \<Rightarrow> flags" where
  "flags_add a b = Flags (a + b <s 0) (a + b = 0) (2 ^ 32 \<le> uint a + uint b)
     (sint a + sint b < - (2 ^ 31) \<or> 2 ^ 31 \<le> sint a + sint b)"

definition flags_float :: "w32 \<Rightarrow> w32 \<Rightarrow> flags" where
  "flags_float a b =
     (if feq a b then Flags False True True False
      else if flt a b then Flags True False False False
      else if flt b a then Flags False False True False
      else Flags False False True True)"

fun cond_holds :: "inst_cond \<Rightarrow> flags \<Rightarrow> bool" where
  "cond_holds Always f = True"
| "cond_holds Eq f = fl_z f"
| "cond_holds Ne f = (\<not> fl_z f)"
| "cond_holds Ge f = (fl_n f = fl_v f)"
| "cond_holds Lt f = (fl_n f \<noteq> fl_v f)"
| "cond_holds Gt f = (\<not> fl_z f \<and> fl_n f = fl_v f)"
| "cond_holds Le f = (fl_z f \<or> fl_n f \<noteq> fl_v f)"

section \<open>Operations\<close>

fun apply_shift :: "shift \<Rightarrow> w32 \<Rightarrow> w32" where
  "apply_shift (Shift LSL w) x = push_bit w x"
| "apply_shift (Shift LSR w) x = drop_bit w x"
| "apply_shift (Shift ASR w) x = signed_drop_bit w x"
| "apply_shift (Shift ROR w) x = word_rotr w x"

text \<open>\<open>sdiv\<close>: a division by zero gives zero, the one overflow wraps.\<close>

definition sdiv32 :: "w32 \<Rightarrow> w32 \<Rightarrow> w32" where
  "sdiv32 x y = (if y = 0 then 0 else word_of_int (c_quot (sint x) (sint y)))"

fun rr_value :: "rr_op \<Rightarrow> w32 \<Rightarrow> w32 \<Rightarrow> w32" where
  "rr_value RAdd x y = x + y"
| "rr_value RSub x y = x - y"
| "rr_value RMul x y = x * y"
| "rr_value RDiv x y = sdiv32 x y"
| "rr_value RRevSub x y = y - x"
| "rr_value RMod x y = x - sdiv32 x y * y"
| "rr_value RAnd x y = x AND y"

fun frr_value :: "frr_op \<Rightarrow> w32 \<Rightarrow> w32 \<Rightarrow> w32" where
  "frr_value FAdd x y = fadd x y"
| "frr_value FSub x y = fsub x y"
| "frr_value FMul x y = fmul x y"
| "frr_value FDiv x y = fdiv x y"

fun ri_value :: "ri_op \<Rightarrow> w32 \<Rightarrow> w32 \<Rightarrow> w32" where
  "ri_value IAdd x v = x + v"
| "ri_value ISub x v = x - v"
| "ri_value IRevSub x v = v - x"
| "ri_value ILsl x v = push_bit (unat v) x"
| "ri_value ILsr x v = drop_bit (unat v) x"
| "ri_value IAsr x v = signed_drop_bit (unat v) x"
| "ri_value IBic x v = x AND NOT v"

text \<open>\<open>vcvt.s32.f32\<close> truncates and saturates.\<close>

definition vcvt_f2i :: "w32 \<Rightarrow> w32" where
  "vcvt_f2i x =
     (case f2i x of
        Some v \<Rightarrow> v
      | None \<Rightarrow> (if f_decode x = NaN then 0 else if f_sign x then 0x80000000 else 0x7FFFFFFF))"

fun fr_value :: "fr_op \<Rightarrow> w32 \<Rightarrow> w32" where
  "fr_value FrNeg x = fneg x"
| "fr_value FrI2F x = i2f x"
| "fr_value FrF2I x = vcvt_f2i x"
| "fr_value FrF2D0 x = d_lo (f2d x)"
| "fr_value FrF2D1 x = d_hi (f2d x)"

definition smull_lo :: "w32 \<Rightarrow> w32 \<Rightarrow> w32" where
  "smull_lo x y = word_of_int (sint x * sint y)"

definition smull_hi :: "w32 \<Rightarrow> w32 \<Rightarrow> w32" where
  "smull_hi x y = word_of_int (sint x * sint y div 2 ^ 32)"

text \<open>The value of an instruction with one destination.\<close>

fun op_value :: "arm_env \<Rightarrow> iop \<Rightarrow> arm_state \<Rightarrow> w32 option" where
  "op_value env (RegRegInst x d l r sh) s = Some (rr_value x (a_reg s l) (apply_shift sh (a_reg s r)))"
| "op_value env (FRegRegInst x d l r) s = Some (frr_value x (a_reg s l) (a_reg s r))"
| "op_value env (MLInst x d s1 s2 s3) s =
     Some (case x of Mla \<Rightarrow> a_reg s s1 * a_reg s s2 + a_reg s s3
                   | Mls \<Rightarrow> a_reg s s3 - a_reg s s1 * a_reg s s2)"
| "op_value env (RegImmInst x d l v) s = Some (ri_value x (a_reg s l) v)"
| "op_value env (MoveReg d r) s = Some (a_reg s r)"
| "op_value env (FRegInst x d r) s = Some (fr_value x (a_reg s r))"
| "op_value env (ShiftInst d r sh) s = Some (apply_shift sh (a_reg s r))"
| "op_value env (MoveImm x d v) s = Some (case x of Mov \<Rightarrow> v | Mvn \<Rightarrow> NOT v)"
| "op_value env (MoveW d v) s = Some (v AND 0xFFFF)"
| "op_value env (MoveT d v) s = Some ((a_reg s d AND 0xFFFF) OR push_bit 16 v)"
| "op_value env (LoadSymbolAddrLower16 d symb) s = Some (ae_sym env symb AND 0xFFFF)"
| "op_value env (LoadSymbolAddrUpper16 d symb) s =
     Some ((a_reg s d AND 0xFFFF) OR (ae_sym env symb AND 0xFFFF0000))"
| "op_value env (Load d b off) s = read_word s (a_reg s b + off)"
| "op_value env (ComplexLoad d b off sh) s = read_word s (a_reg s b + apply_shift sh (a_reg s off))"
| "op_value env (LoadStack d off k) s = read_word s (a_base s + ae_pos env k + off)"
| "op_value env (LoadStackAddr d off k) s = Some (a_base s + ae_pos env k + off)"
| "op_value env (LoadStackOffset d off k) s = Some (a_base s + ae_pos env k + off - a_reg s sp_reg)"
| "op_value env _ s = None"

fun push_regs :: "areg list \<Rightarrow> arm_state \<Rightarrow> arm_state option" where
  "push_regs [] s = Some s"
| "push_regs (r # rs) s =
     (case write_word (a_reg s sp_reg - 4) (a_reg s r) s of
        None \<Rightarrow> None
      | Some s1 \<Rightarrow> push_regs rs (set_reg sp_reg (a_reg s sp_reg - 4) s1))"

fun vldm_lanes :: "nat \<Rightarrow> w32 \<Rightarrow> nat list \<Rightarrow> arm_state \<Rightarrow> arm_state option" where
  "vldm_lanes r a [] s = Some s"
| "vldm_lanes r a (i # is) s =
     (case read_word s (a + of_nat i * 4) of
        None \<Rightarrow> None
      | Some v \<Rightarrow> vldm_lanes r a is (s\<lparr>a_simd := set_lane (a_simd s) r i v\<rparr>))"

fun vstm_lanes :: "nat \<Rightarrow> w32 \<Rightarrow> nat list \<Rightarrow> arm_state \<Rightarrow> arm_state option" where
  "vstm_lanes r a [] s = Some s"
| "vstm_lanes r a (i # is) s =
     (case write_word (a + of_nat i * 4) (a_simd s r i) s of
        None \<Rightarrow> None
      | Some s1 \<Rightarrow> vstm_lanes r a is s1)"

definition simd_exec :: "areg option \<Rightarrow> simd_type \<Rightarrow> nat list \<Rightarrow> arm_state \<Rightarrow> arm_state option" where
  "simd_exec src ty rs s =
     (case ty of
        VDUP_32 \<Rightarrow>
          (case (src, rs) of
             (Some x, r # _) \<Rightarrow>
               (let s1 = (if ar_type x = FloatT then set_reg (AReg IntT 0) (a_reg s x) s else s) in
                Some (s1\<lparr>a_simd := (a_simd s)(r := (\<lambda>_. a_reg s x))\<rparr>))
           | _ \<Rightarrow> None)
      | VLDM \<Rightarrow> (case (src, rs) of (Some x, r # _) \<Rightarrow> vldm_lanes r (a_reg s x) [0, 1, 2, 3] s | _ \<Rightarrow> None)
      | VSTM \<Rightarrow> (case (src, rs) of (Some x, r # _) \<Rightarrow> vstm_lanes r (a_reg s x) [0, 1, 2, 3] s | _ \<Rightarrow> None)
      | _ \<Rightarrow> map_option (\<lambda>v. s\<lparr>a_simd := v\<rparr>) (simd_compute ty rs (a_simd s)))"

text \<open>A conversion to \<open>double\<close> goes through \<open>d8\<close>, the pair \<open>s16\<close>, \<open>s17\<close>.\<close>

definition clobber_d8 :: "w32 \<Rightarrow> arm_state \<Rightarrow> arm_state" where
  "clobber_d8 x s = set_reg (AReg FloatT 17) (d_hi (f2d x)) (set_reg (AReg FloatT 16) (d_lo (f2d x)) s)"

definition is_f2d :: "iop \<Rightarrow> bool" where
  "is_f2d x = (case x of FRegInst op d r \<Rightarrow> op = FrF2D0 \<or> op = FrF2D1 | _ \<Rightarrow> False)"

fun exec_op :: "arm_env \<Rightarrow> iop \<Rightarrow> arm_state \<Rightarrow> arm_state option" where
  "exec_op env (SMulL d1 d2 s1 s2) s =
     Some (set_reg d2 (smull_hi (a_reg s s1) (a_reg s s2)) (set_reg d1 (smull_lo (a_reg s s1) (a_reg s s2)) s))"
| "exec_op env (Store r b off) s = write_word (a_reg s b + off) (a_reg s r) s"
| "exec_op env (ComplexStore r b off sh) s = write_word (a_reg s b + apply_shift sh (a_reg s off)) (a_reg s r) s"
| "exec_op env (StoreStack r off k) s = write_word (a_base s + ae_pos env k + off) (a_reg s r) s"
| "exec_op env (Push rs) s = push_regs rs s"
| "exec_op env (ChangeSP c) s =
     Some (if is_legal_immediate c \<or> is_legal_immediate (- c)
           then set_reg sp_reg (a_reg s sp_reg + c) s else s)"
| "exec_op env (RegRegCmp x l r) s =
     Some (s\<lparr>a_flags := (case x of Cmp \<Rightarrow> flags_sub | Cmn \<Rightarrow> flags_add) (a_reg s l) (a_reg s r)\<rparr>)"
| "exec_op env (RegImmCmp x l v) s =
     Some (s\<lparr>a_flags := (case x of Cmp \<Rightarrow> flags_sub | Cmn \<Rightarrow> flags_add) (a_reg s l) v\<rparr>)"
| "exec_op env (FRegRegCmp l r) s =
     Some (s\<lparr>a_fpscr := flags_float (a_reg s l) (a_reg s r), a_flags := flags_float (a_reg s l) (a_reg s r)\<rparr>)"
| "exec_op env (SIMD src ty rs n) s = simd_exec src ty rs s"
| "exec_op env (Branch b) s = Some (s\<lparr>a_ctl := Goto b\<rparr>)"
| "exec_op env (FuncCall f ni nf) s = ae_call env f ni nf s"
| "exec_op env (Return t) s = Some (s\<lparr>a_ctl := Returned\<rparr>)"
| "exec_op env (FRegInst x d r) s =
     Some (set_reg d (fr_value x (a_reg s r))
       (if x = FrF2D0 \<or> x = FrF2D1 then clobber_d8 (a_reg s r) s else s))"
| "exec_op env x s = map_option (\<lambda>v. set_reg (hd (op_def_reg x)) v s) (op_value env x s)"

text \<open>\<open>vmrs\<close> has no condition: it copies the floating-point flags in any case.\<close>

definition skip_op :: "iop \<Rightarrow> arm_state \<Rightarrow> arm_state" where
  "skip_op x s = (case x of FRegRegCmp l r \<Rightarrow> s\<lparr>a_flags := a_fpscr s\<rparr> | _ \<Rightarrow> s)"

definition arm_step :: "arm_env \<Rightarrow> inst \<Rightarrow> arm_state \<Rightarrow> arm_state option" where
  "arm_step env i s =
     (if a_ctl s \<noteq> Fall then Some s
      else if cond_holds (i_cond i) (a_flags s) then exec_op env (i_op i) s
      else Some (skip_op (i_op i) s))"

abbreviation arm_run :: "arm_env \<Rightarrow> inst list \<Rightarrow> arm_state \<Rightarrow> arm_state option" where
  "arm_run env \<equiv> run_list (arm_step env)"

section \<open>Facts\<close>

lemma arm_step_always:
  "a_ctl s = Fall \<Longrightarrow> arm_step env (Inst Always x) s = exec_op env x s"
  by (simp add: arm_step_def)

lemma arm_run_left: "a_ctl s \<noteq> Fall \<Longrightarrow> arm_run env is s = Some s"
  by (induction "is") (auto simp: arm_step_def)

text \<open>The sign of a wrapped difference.\<close>

lemma sint_wrap:
  assumes "- (2 ^ 32) \<le> d" and "d < 2 ^ 32"
  shows "sint (word_of_int d :: w32) =
     (if d < - (2 ^ 31) then d + 2 ^ 32 else if 2 ^ 31 \<le> d then d - 2 ^ 32 else d)"
proof -
  have w: "(word_of_int (d + 4294967296) :: w32) = word_of_int d"
    "(word_of_int (d - 4294967296) :: w32) = word_of_int d"
    by (simp_all add: word_of_int_eq_iff take_bit_int_def del: of_int_add of_int_diff wi_hom_add wi_hom_sub)
  show ?thesis
    using sint_w32_of_int [of d] sint_w32_of_int [of "d + 4294967296", unfolded w]
      sint_w32_of_int [of "d - 4294967296", unfolded w] assms
    by auto
qed

lemma sint_diff_wrap:
  "sint (a - b :: w32) =
     (let d = sint a - sint b in
      if d < - (2 ^ 31) then d + 2 ^ 32 else if 2 ^ 31 \<le> d then d - 2 ^ 32 else d)"
proof -
  have w: "a - b = word_of_int (sint a - sint b)" by simp
  show ?thesis
    unfolding w Let_def
    by (rule sint_wrap) (use sint_ge_m31 [of a] sint_lt_31 [of a] sint_ge_m31 [of b] sint_lt_31 [of b] in auto)
qed

text \<open>After a compare the conditions are the comparisons of the two operands.\<close>

lemma flags_sub_lt: "(fl_n (flags_sub a b) \<noteq> fl_v (flags_sub a b)) = (sint a < sint b)"
proof -
  have n: "fl_n (flags_sub a b) = (sint (a - b) < 0)" by (simp add: flags_sub_def word_sless_alt)
  have v: "fl_v (flags_sub a b) = (sint a - sint b < - (2 ^ 31) \<or> 2 ^ 31 \<le> sint a - sint b)"
    by (simp add: flags_sub_def)
  show ?thesis
    unfolding n v sint_diff_wrap Let_def
    using sint_ge_m31 [of a] sint_lt_31 [of a] sint_ge_m31 [of b] sint_lt_31 [of b] by auto
qed

lemma cond_after_cmp:
  "cond_holds Eq (flags_sub a b) = (a = b)"
  "cond_holds Ne (flags_sub a b) = (a \<noteq> b)"
  "cond_holds Lt (flags_sub a b) = (a <s b)"
  "cond_holds Ge (flags_sub a b) = (b <=s a)"
  "cond_holds Gt (flags_sub a b) = (b <s a)"
  "cond_holds Le (flags_sub a b) = (a <=s b)"
proof -
  have e: "fl_z (flags_sub a b) = (sint a = sint b)"
    by (simp add: flags_sub_def sint_eq_iff)
  show "cond_holds Eq (flags_sub a b) = (a = b)" "cond_holds Ne (flags_sub a b) = (a \<noteq> b)"
    by (simp_all add: flags_sub_def)
  show "cond_holds Lt (flags_sub a b) = (a <s b)" "cond_holds Ge (flags_sub a b) = (b <=s a)"
    "cond_holds Gt (flags_sub a b) = (b <s a)" "cond_holds Le (flags_sub a b) = (a <=s b)"
    using flags_sub_lt [of a b] e by (auto simp: word_sless_alt word_sle_eq)
qed

text \<open>On floats the conditions mean the comparison only when the operands are ordered.\<close>

lemma cond_after_vcmp:
  assumes "\<not> is_nan a" and "\<not> is_nan b"
  shows "cond_holds Eq (flags_float a b) = feq a b"
    and "cond_holds Lt (flags_float a b) = flt a b"
    and "cond_holds Le (flags_float a b) = fle a b"
proof -
  have "feq a b \<Longrightarrow> \<not> flt a b"
    by (auto simp: feq_def flt_def split: fval.splits)
  moreover have "\<not> feq a b \<Longrightarrow> \<not> flt a b \<Longrightarrow> flt b a"
    using assms by (auto simp: feq_def flt_def is_nan_def min.commute split: fval.splits)
  ultimately show "cond_holds Eq (flags_float a b) = feq a b"
    "cond_holds Lt (flags_float a b) = flt a b" "cond_holds Le (flags_float a b) = fle a b"
    by (auto simp: flags_float_def fle_def)
qed

lemma cond_holds_not: "logical_not c = Some d \<Longrightarrow> cond_holds d f = (\<not> cond_holds c f)"
  by (cases c) auto

end
