(* ===== verification/DivOpt.thy ===== *)
theory DivOpt
  imports ArmSem
begin

text \<open>
  Division by a constant in \<open>src/arm/opt/merge_instr.cpp\<close>: \<open>div_opt\<close>, which finds the
  multiplier and the shift for a divisor, and the arithmetic that makes the emitted sequence
  the truncated quotient.
\<close>

section \<open>The search for the multiplier\<close>

text \<open>\<open>__builtin_ctz\<close> and \<open>__builtin_popcount\<close> (of a non-zero value).\<close>

fun ctz_loop :: "nat \<Rightarrow> nat \<Rightarrow> nat" where
  "ctz_loop 0 n = 0"
| "ctz_loop (Suc k) n = (if odd n then 0 else Suc (ctz_loop k (n div 2)))"

definition ctz :: "w32 \<Rightarrow> nat" where
  "ctz v = ctz_loop 32 (unat v)"

fun popcount_loop :: "nat \<Rightarrow> nat \<Rightarrow> nat" where
  "popcount_loop 0 n = 0"
| "popcount_loop (Suc k) n = n mod 2 + popcount_loop k (n div 2)"

definition popcount :: "w32 \<Rightarrow> nat" where
  "popcount v = popcount_loop 32 (unat v)"

lemma div_lt_mult:
  fixes e L c :: int
  assumes "0 < e" and "L div e < c"
  shows "L < c * e"
proof -
  have "(L div e + 1) * e \<le> c * e" using assms by (intro mult_right_mono) auto
  moreover have "L < (L div e + 1) * e"
    using div_mult_mod_eq [of L e] pos_mod_bound [OF assms(1), of L] unfolding distrib_right by linarith
  ultimately show ?thesis by linarith
qed

lemma le_div_mult:
  fixes e L c :: int
  assumes "0 < e" and "c \<le> L div e"
  shows "c * e \<le> L"
proof -
  have "c * e \<le> (L div e) * e" using assms by (intro mult_right_mono) auto
  moreover have "(L div e) * e \<le> L"
    using div_mult_mod_eq [of L e] pos_mod_sign [OF assms(1), of L] by linarith
  ultimately show ?thesis by linarith
qed

text \<open>\<open>while (L / (A - L % A) < (1ll << 31)) L <<= 1, ++log2L;\<close> on the positive numbers it
  is run on (the first two tests always hold there).\<close>

function div_loop :: "int \<Rightarrow> int \<Rightarrow> nat \<Rightarrow> int \<times> nat" where
  "div_loop A L k =
     (if 0 < A \<and> 0 < L \<and> L div (A - L mod A) < 2 ^ 31 then div_loop A (2 * L) (k + 1) else (L, k))"
  by pat_completeness auto
termination
proof (relation "measure (\<lambda>(A, L, k). nat (2 ^ 31 * A - L))", simp, goal_cases)
  case (1 A L k)
  then have e: "0 < A - L mod A" "A - L mod A \<le> A" by (auto simp: pos_mod_bound)
  from 1 have "L < 2 ^ 31 * (A - L mod A)" by (intro div_lt_mult e(1)) simp
  also have "\<dots> \<le> 2 ^ 31 * A" using e(2) by simp
  finally show ?case using 1 by simp
qed

declare div_loop.simps [simp del]

definition div_opt :: "w32 \<Rightarrow> int \<times> nat" where
  "div_opt A0 =
     (let ex = ctz A0; A = sint A0 div 2 ^ ex;
          (L, log2L) = div_loop A (2 ^ 32) 32;
          B = L div A + 1;
          s = ex + log2L - 32
      in (B, s))"

section \<open>What the search finds\<close>

lemma ctz_loop_spec: "0 < n \<Longrightarrow> n < 2 ^ k \<Longrightarrow> \<exists>m. n = 2 ^ ctz_loop k n * m \<and> odd m"
proof (induction k arbitrary: n)
  case (Suc k)
  show ?case
  proof (cases "odd n")
    case False
    then have "0 < n div 2" "n div 2 < 2 ^ k" using Suc.prems by auto
    from Suc.IH [OF this] obtain m where m: "n div 2 = 2 ^ ctz_loop k (n div 2) * m" "odd m" by blast
    have "n = 2 * (n div 2)" using False by simp
    then show ?thesis using False m by (intro exI [of _ m]) (metis ctz_loop.simps(2) mult.assoc power_Suc)
  qed auto
qed simp

lemma ctz_spec:
  assumes "v \<noteq> 0"
  obtains m where "unat v = 2 ^ ctz v * m" "odd m"
proof -
  have "0 < unat v" using assms by (simp add: unat_gt_0)
  moreover have "unat v < 2 ^ 32" using unsigned_less [of v] by simp
  ultimately show ?thesis using ctz_loop_spec [of "unat v" 32] that by (auto simp: ctz_def)
qed

lemma div_loop_spec:
  assumes "0 < A" and "0 < L" and "div_loop A L k = (L', k')" and "L = 2 ^ k"
  shows "L' = 2 ^ k' \<and> k \<le> k' \<and> 2 ^ 31 * (A - L' mod A) \<le> L' \<and>
    (k' = k \<or> L' < 2 ^ 32 * (A - 2 ^ (k' - 1) mod A))"
  using assms
proof (induction A L k rule: div_loop.induct)
  case (1 A L k)
  show ?case
  proof (cases "L div (A - L mod A) < 2 ^ 31")
    case True
    then have l: "div_loop A (2 * L) (k + 1) = (L', k')"
      using "1.prems"(1-3) by (simp add: div_loop.simps [of A L k])
    have e: "0 < A - L mod A" using "1.prems" by simp
    have lt: "L < 2 ^ 31 * (A - L mod A)" by (rule div_lt_mult [OF e True])
    have IH: "L' = 2 ^ k' \<and> k + 1 \<le> k' \<and> 2 ^ 31 * (A - L' mod A) \<le> L' \<and>
        (k' = k + 1 \<or> L' < 2 ^ 32 * (A - 2 ^ (k' - 1) mod A))"
      by (rule "1.IH") (use True l "1.prems" in auto)
    show ?thesis
    proof (cases "k' = k + 1")
      case True
      then have "L' = 2 * L" using IH "1.prems" by simp
      then show ?thesis using IH lt True "1.prems" by auto
    next
      case False
      then show ?thesis using IH by auto
    qed
  next
    case False
    then have r: "L' = L" "k' = k" using "1.prems"(3) by (auto simp: div_loop.simps [of A L k])
    have "0 < A - L mod A" using "1.prems" by simp
    then have "2 ^ 31 * (A - L mod A) \<le> L"
      by (rule le_div_mult) (use False in simp)
    then show ?thesis using r "1.prems" by simp
  qed
qed

lemma odd_not_dvd_power2:
  fixes A :: int
  assumes "odd A" and "1 < A"
  shows "2 ^ k mod A \<noteq> 0"
proof
  assume "2 ^ k mod A = 0"
  then have "A dvd 2 ^ k" by auto
  moreover have "coprime A (2 ^ k)" using assms by simp
  ultimately have "is_unit A" by (metis coprime_common_divisor dvd_refl)
  then show False using assms by auto
qed

text \<open>The multiplier as the proof needs it: \<open>B * A0\<close> exceeds \<open>N = 2^(32 + s)\<close> by a
  positive amount that is at most \<open>N / 2^31\<close>.\<close>

definition good_magic :: "int \<Rightarrow> int \<Rightarrow> nat \<Rightarrow> bool" where
  "good_magic A0 B s =
     (0 < B \<and> B < 2 ^ 32 \<and> s < 31 \<and>
      2 ^ (32 + s) < B * A0 \<and> (B * A0 - 2 ^ (32 + s)) * 2 ^ 31 \<le> 2 ^ (32 + s))"

lemma div_opt_magic:
  assumes v: "1 < sint v" and np: "\<forall>k. sint v \<noteq> 2 ^ k"
  shows "case div_opt v of (B, s) \<Rightarrow> good_magic (sint v) B s"
proof -
  define ex where "ex = ctz v"
  have v0: "v \<noteq> 0" using v by auto
  have us: "int (unat v) = sint v"
    using v sint_lt_31 [of v] by (simp add: uint_sint take_bit_int_def flip: uint_nat)
  obtain m where m: "unat v = 2 ^ ex * m" "odd m" using ctz_spec [OF v0] ex_def by blast
  define A where "A = int m"
  have vA: "sint v = 2 ^ ex * A" using m us by (metis A_def of_nat_mult of_nat_numeral of_nat_power)
  have A: "sint v div 2 ^ ex = A" "odd A" using vA m by (simp_all add: A_def)
  have "A \<noteq> 1" using vA np by auto
  moreover have "0 < A" using v vA by (metis less_trans zero_less_mult_pos zero_less_numeral zero_less_one zero_less_power)
  ultimately have A1: "1 < A" by simp
  obtain L k where Lk: "div_loop A (2 ^ 32) 32 = (L, k)" by (cases "div_loop A (2 ^ 32) 32")
  have spec: "L = 2 ^ k" "32 \<le> k" "2 ^ 31 * (A - L mod A) \<le> L"
    "k = 32 \<or> L < 2 ^ 32 * (A - 2 ^ (k - 1) mod A)"
    using div_loop_spec [OF _ _ Lk] A1 by auto
  define B where "B = L div A + 1"
  define s where "s = ex + k - 32"
  have d: "div_opt v = (B, s)"
    unfolding div_opt_def Let_def ex_def [symmetric] A(1) Lk by (simp add: B_def s_def)
  define e where "e = A - L mod A"
  have e: "0 < e" using A1 by (simp add: e_def)
  have BA: "B * A = L + e"
    using div_mult_mod_eq [of L A] by (simp add: B_def e_def algebra_simps)
  have N: "2 ^ (32 + s) = L * 2 ^ ex"
  proof -
    have "32 + s = k + ex" using spec(2) by (simp add: s_def)
    then show ?thesis by (simp add: spec(1) power_add)
  qed
  have Bv: "B * sint v = 2 ^ (32 + s) + e * 2 ^ ex"
  proof -
    have "B * sint v = (B * A) * 2 ^ ex" by (simp add: vA)
    then show ?thesis by (simp add: BA N distrib_right)
  qed
  have Lb: "L < 2 ^ 32 * A" "B < 2 ^ 32"
  proof -
    have Ale: "A \<le> sint v"
    proof -
      have "1 * A \<le> 2 ^ ex * A" using A1 by (intro mult_right_mono) auto
      then show ?thesis by (simp add: vA)
    qed
    then have A31: "A < 2 ^ 31" using sint_lt_31 [of v] by simp
    have "L \<le> 2 ^ 32 * (A - 1)"
    proof (cases "k = 32")
      case True
      then show ?thesis using A1 spec(1) by simp
    next
      case False
      have "2 ^ (k - 1) mod A \<noteq> 0" by (rule odd_not_dvd_power2 [OF A(2) A1])
      moreover have "0 \<le> 2 ^ (k - 1) mod A" using A1 by simp
      ultimately have "A - 2 ^ (k - 1) mod A \<le> A - 1" by linarith
      then have "2 ^ 32 * (A - 2 ^ (k - 1) mod A) \<le> 2 ^ 32 * (A - 1)" by simp
      then show ?thesis using spec(4) False by linarith
    qed
    then have le: "L \<le> 2 ^ 32 * A - 2 ^ 32" by (simp add: algebra_simps)
    show "L < 2 ^ 32 * A" using le by simp
    have "L < (2 ^ 32 - 1) * A" using le A31 by (simp add: algebra_simps)
    then have "L div A < 2 ^ 32 - 1" using le_div_mult [of A "2 ^ 32 - 1" L] A1 by linarith
    then show "B < 2 ^ 32" by (simp add: B_def)
  qed
  have "s < 31"
  proof (rule ccontr)
    assume "\<not> s < 31"
    then have "(2::int) ^ 63 \<le> 2 ^ (32 + s)" by (intro power_increasing) auto
    also have "\<dots> = L * 2 ^ ex" by (rule N)
    also have "\<dots> < 2 ^ 32 * A * 2 ^ ex" using Lb(1) by simp
    also have "\<dots> = 2 ^ 32 * sint v" by (simp add: vA)
    also have "\<dots> < 2 ^ 32 * 2 ^ 31" using sint_lt_31 [of v] by simp
    finally show False by simp
  qed
  moreover have "0 < B"
  proof -
    have "0 \<le> L div A" using A1 spec(1) by (simp add: pos_imp_zdiv_nonneg_iff)
    then show ?thesis by (simp add: B_def)
  qed
  moreover have "(B * sint v - 2 ^ (32 + s)) * 2 ^ 31 \<le> 2 ^ (32 + s)"
  proof -
    have "(e * 2 ^ ex) * 2 ^ 31 = (2 ^ 31 * e) * 2 ^ ex" by simp
    also have "\<dots> \<le> L * 2 ^ ex" using spec(3) by (intro mult_right_mono) (auto simp: e_def)
    finally show ?thesis by (simp add: Bv N)
  qed
  ultimately show ?thesis using Lb(2) e by (simp add: d good_magic_def Bv)
qed

section \<open>The quotient\<close>

lemma magic_pos:
  fixes x A0 B N :: int
  assumes "0 < A0" and "N < B * A0" and "(B * A0 - N) * 2 ^ 31 \<le> N" and "0 < N"
    and "0 \<le> x" and "x < 2 ^ 31"
  shows "x * B div N = x div A0"
proof -
  define q r where "q = x div A0" and "r = x mod A0"
  have x: "x = q * A0 + r" "0 \<le> r" "r \<le> A0 - 1" using assms(1) by (simp_all add: q_def r_def zle_diff1_eq)
  define E where "E = B * A0 - N"
  have E: "0 < E" "E * 2 ^ 31 \<le> N" using assms by (simp_all add: E_def)
  have xE: "x * E < N"
  proof -
    have "x * E < 2 ^ 31 * E" using assms(6) E(1) by (intro mult_strict_right_mono)
    then show ?thesis using E(2) by (simp add: mult.commute)
  qed
  have eq: "(x * B) * A0 = x * N + x * E" by (simp add: E_def algebra_simps)
  have lo: "q * N \<le> x * B"
  proof -
    have "q * A0 * N \<le> x * N" using x assms(4) by (intro mult_right_mono) auto
    moreover have "0 \<le> x * E" using assms(5) E(1) by simp
    moreover have "(q * N) * A0 = q * A0 * N" by simp
    ultimately have "(q * N) * A0 \<le> (x * B) * A0" using eq by linarith
    then show ?thesis using assms(1) by simp
  qed
  have hi: "x * B < (q + 1) * N"
  proof -
    have "x * N \<le> (q * A0 + (A0 - 1)) * N" using x assms(4) by (intro mult_right_mono) auto
    moreover have "((q + 1) * N) * A0 = (q * A0 + (A0 - 1)) * N + N" by (simp add: algebra_simps)
    ultimately have "(x * B) * A0 < ((q + 1) * N) * A0" using xE eq by linarith
    then show ?thesis using assms(1) by (simp add: mult_less_cancel_right)
  qed
  have "x * B div N = q" using lo hi assms(4) by (intro int_div_pos_eq [of _ _ _ "x * B - q * N"]) (auto simp: algebra_simps)
  then show ?thesis by (simp add: q_def)
qed

lemma magic_neg:
  fixes y A0 B N :: int
  assumes "0 < A0" and "N < B * A0" and "(B * A0 - N) * 2 ^ 31 \<le> N" and "0 < N"
    and "0 < y" and "y \<le> 2 ^ 31"
  shows "(- y) * B div N + 1 = - (y div A0)"
proof -
  define q r where "q = y div A0" and "r = y mod A0"
  have y: "y = q * A0 + r" "0 \<le> r" "r \<le> A0 - 1" using assms(1) by (simp_all add: q_def r_def zle_diff1_eq)
  define E where "E = B * A0 - N"
  have E: "0 < E" "E * 2 ^ 31 \<le> N" using assms by (simp_all add: E_def)
  have yE: "y * E \<le> N" "0 < y * E"
  proof -
    have "y * E \<le> 2 ^ 31 * E" using assms(6) E(1) by (intro mult_right_mono) auto
    then show "y * E \<le> N" using E(2) by (simp add: mult.commute)
    show "0 < y * E" using assms(5) E(1) by simp
  qed
  have eq: "(y * B) * A0 = y * N + y * E" by (simp add: E_def algebra_simps)
  have lo: "q * N < y * B"
  proof -
    have "q * A0 * N \<le> y * N" using y assms(4) by (intro mult_right_mono) auto
    moreover have "(q * N) * A0 = q * A0 * N" by simp
    ultimately have "(q * N) * A0 < (y * B) * A0" using yE(2) eq by linarith
    then show ?thesis using assms(1) by (simp add: mult_less_cancel_right)
  qed
  have hi: "y * B \<le> (q + 1) * N"
  proof -
    have "y * N \<le> (q * A0 + (A0 - 1)) * N" using y assms(4) by (intro mult_right_mono) auto
    moreover have "((q + 1) * N) * A0 = (q * A0 + (A0 - 1)) * N + N" by (simp add: algebra_simps)
    ultimately have "(y * B) * A0 \<le> ((q + 1) * N) * A0" using yE(1) eq by linarith
    then show ?thesis using assms(1) by simp
  qed
  have "(- y) * B div N = - q - 1"
    using lo hi assms(4) by (intro int_div_pos_eq [of _ _ _ "(q + 1) * N - y * B"]) (auto simp: algebra_simps)
  then show ?thesis by (simp add: q_def)
qed

text \<open>The quotient as the sequence computes it: the floor, plus one for a negative value.\<close>

lemma magic_quot:
  assumes "good_magic A0 B s" and "0 < A0" and "- (2 ^ 31) \<le> x" and "x < 2 ^ 31"
  shows "x * B div 2 ^ 32 div 2 ^ s + (if x < 0 then 1 else 0) = c_quot x A0"
proof -
  let ?N = "2 ^ (32 + s) :: int"
  have g: "?N < B * A0" "(B * A0 - ?N) * 2 ^ 31 \<le> ?N" "0 < ?N"
    using assms(1) by (auto simp: good_magic_def)
  have dd: "x * B div 2 ^ 32 div 2 ^ s = x * B div ?N"
    by (simp add: power_add zdiv_zmult2_eq)
  show ?thesis
  proof (cases "0 \<le> x")
    case True
    then show ?thesis using magic_pos [OF assms(2) g True assms(4)] dd assms(2) by (simp add: c_quot_pos)
  next
    case False
    then show ?thesis using magic_neg [OF assms(2) g, of "- x"] dd assms(2,3) by (simp add: c_quot_neg)
  qed
qed

end
