(* ===== verification/ArmDefUse.thy ===== *)
theory ArmDefUse
  imports ArmSem
begin

text \<open>
  The registers an instruction declares (\<open>def_reg\<close>, \<open>use_reg\<close>, \<open>change_cpsr\<close>,
  \<open>side_effect\<close>) against what it does: outside a few instructions whose declaration is not
  exact, two states that agree on what an instruction uses still agree on what it defines
  afterwards, and an instruction without a side effect changes nothing else. This is the
  instance of the interface \<open>def_use_machine\<close> that the passes of the back end rest on.
\<close>

datatype loc = LReg areg | LFlags

fun loc_agree :: "loc \<Rightarrow> arm_state \<Rightarrow> arm_state \<Rightarrow> bool" where
  "loc_agree (LReg r) s t = (a_reg s r = a_reg t r)"
| "loc_agree LFlags s t = (a_flags s = a_flags t)"

text \<open>Everything else: memory, vector registers, control, the frame, and the registers no
  allocation touches (\<open>sp\<close> and \<open>pc\<close>).\<close>

definition arm_same_env :: "arm_state \<Rightarrow> arm_state \<Rightarrow> bool" where
  "arm_same_env s t =
     (a_mem s = a_mem t \<and> a_base s = a_base t \<and> a_simd s = a_simd t \<and> a_ctl s = a_ctl t \<and>
      (\<forall>r. \<not> tracked r \<longrightarrow> a_reg s r = a_reg t r))"

definition inst_defs :: "inst \<Rightarrow> loc set" where
  "inst_defs i = LReg ` set (def_reg i) \<union> (if change_cpsr i then {LFlags} else {})"

definition inst_uses :: "inst \<Rightarrow> loc set" where
  "inst_uses i = LReg ` set (use_reg i) \<union> (if use_cpsr i then {LFlags} else {})"

definition inst_effect :: "inst \<Rightarrow> bool" where
  "inst_effect i = (side_effect i \<or> (\<exists>r \<in> set (def_reg i). \<not> tracked r))"

text \<open>What a called function is relied on for: its outcome is decided by its argument
  registers, the memory and the stack pointer, it leaves the registers it must save, and
  its frame is gone when it returns.\<close>

definition call_contract :: "arm_env \<Rightarrow> bool" where
  "call_contract env =
     (\<forall>f ni nf s t s'.
        arm_same_env s t \<longrightarrow> a_ctl s = Fall \<longrightarrow>
        (\<forall>r \<in> set (op_use_reg Always (FuncCall f ni nf)). a_reg s r = a_reg t r) \<longrightarrow>
        ae_call env f ni nf s = Some s' \<longrightarrow>
        (\<exists>t'. ae_call env f ni nf t = Some t' \<and> arm_same_env s' t' \<and> a_flags s' = a_flags t' \<and>
           a_ctl s' = Fall \<and>
           (\<forall>r \<in> set (op_def_reg (FuncCall f ni nf)). a_reg s' r = a_reg t' r) \<and>
           (\<forall>r. r \<notin> set (op_def_reg (FuncCall f ni nf)) \<longrightarrow>
              a_reg s' r = a_reg s r \<and> a_reg t' r = a_reg t r)))"

text \<open>The instructions whose declaration is exact: not a conversion to \<open>double\<close> (it also
  writes \<open>s16\<close>, \<open>s17\<close>), not a conditional \<open>FRegInst\<close> (its old destination is not declared
  used), not a conditional \<open>vcmp\<close> (\<open>vmrs\<close> runs anyway), not a \<open>vdup\<close> of an integer
  register (it does not write the \<open>r0\<close> it declares).\<close>

definition exact :: "arm_env \<Rightarrow> inst \<Rightarrow> bool" where
  "exact env i =
     (case i_op i of
        FRegInst x d r \<Rightarrow> x \<noteq> FrF2D0 \<and> x \<noteq> FrF2D1 \<and> i_cond i = Always
      | FRegRegCmp l r \<Rightarrow> i_cond i = Always
      | SIMD src ty rs n \<Rightarrow> ty = VDUP_32 \<longrightarrow>
          (case src of Some x \<Rightarrow> ar_type x = FloatT \<and> i_cond i = Always | None \<Rightarrow> False)
      | FuncCall f ni nf \<Rightarrow> call_contract env
      | _ \<Rightarrow> True)"

lemma arm_same_env_refl [simp]: "arm_same_env s s"
  by (simp add: arm_same_env_def)

lemma sp_untracked [simp]: "\<not> tracked sp_reg"
  by (simp add: tracked_def is_pseudo_def is_allocable_def sp_reg_def int_count_def
      usage_allocable_def int_register_usage_def)

lemma arm_same_env_sp: "arm_same_env s t \<Longrightarrow> a_reg s sp_reg = a_reg t sp_reg"
  by (simp add: arm_same_env_def)

lemma arm_same_env_fields:
  "arm_same_env s t \<Longrightarrow> a_mem s = a_mem t" "arm_same_env s t \<Longrightarrow> a_base s = a_base t"
  "arm_same_env s t \<Longrightarrow> a_simd s = a_simd t" "arm_same_env s t \<Longrightarrow> a_ctl s = a_ctl t"
  by (simp_all add: arm_same_env_def)

lemma read_word_env: "arm_same_env s t \<Longrightarrow> read_word s a = read_word t a"
  by (simp add: read_word_def arm_same_env_def)

text \<open>The value of a one-destination instruction depends on what it uses.\<close>

lemma op_value_cong:
  assumes "\<forall>r \<in> set (op_use_reg Always x). a_reg s r = a_reg t r" and "arm_same_env s t"
  shows "op_value env x s = op_value env x t"
  using assms(1) arm_same_env_fields [OF assms(2)] arm_same_env_sp [OF assms(2)]
  by (cases x) (auto simp: read_word_env [OF assms(2)] if_cond_def split: ml_op.splits)

definition single_dst :: "iop \<Rightarrow> bool" where
  "single_dst x =
     (case x of
        RegRegInst _ _ _ _ _ \<Rightarrow> True | FRegRegInst _ _ _ _ \<Rightarrow> True | MLInst _ _ _ _ _ \<Rightarrow> True
      | RegImmInst _ _ _ _ \<Rightarrow> True | MoveReg _ _ \<Rightarrow> True | ShiftInst _ _ _ \<Rightarrow> True
      | FRegInst y _ _ \<Rightarrow> y \<noteq> FrF2D0 \<and> y \<noteq> FrF2D1
      | MoveImm _ _ _ \<Rightarrow> True | MoveW _ _ \<Rightarrow> True | MoveT _ _ \<Rightarrow> True
      | LoadSymbolAddrLower16 _ _ \<Rightarrow> True | LoadSymbolAddrUpper16 _ _ \<Rightarrow> True
      | Load _ _ _ \<Rightarrow> True | ComplexLoad _ _ _ _ \<Rightarrow> True | LoadStack _ _ _ \<Rightarrow> True
      | LoadStackAddr _ _ _ \<Rightarrow> True | LoadStackOffset _ _ _ \<Rightarrow> True
      | _ \<Rightarrow> False)"

lemma exec_single:
  assumes "single_dst x"
  shows "exec_op env x s = map_option (\<lambda>v. set_reg (hd (op_def_reg x)) v s) (op_value env x s)"
    and "op_def_reg x = [hd (op_def_reg x)]"
  using assms by (cases x; auto simp: single_dst_def)+

lemma set_reg_same_env:
  "arm_same_env s t \<Longrightarrow> arm_same_env (set_reg r v s) (set_reg r v t)"
  by (simp add: arm_same_env_def)

lemma set_reg_tracked_env: "tracked r \<Longrightarrow> arm_same_env s t \<Longrightarrow> arm_same_env (set_reg r v s) t"
  by (auto simp: arm_same_env_def)

text \<open>The writes to memory.\<close>

lemma write_word_cong:
  assumes "arm_same_env s t" and "write_word a v s = Some s'"
  shows "\<exists>t'. write_word a v t = Some t' \<and> arm_same_env s' t' \<and>
     a_reg s' = a_reg s \<and> a_reg t' = a_reg t \<and> a_flags s' = a_flags s \<and> a_flags t' = a_flags t"
  using assms by (auto simp: write_word_def arm_same_env_def split: if_splits)

lemma push_regs_cong:
  assumes "arm_same_env s t" and "\<forall>r \<in> set rs. a_reg s r = a_reg t r" and "push_regs rs s = Some s'"
  shows "\<exists>t'. push_regs rs t = Some t' \<and> arm_same_env s' t' \<and>
     (\<forall>r. a_reg s r = a_reg t r \<longrightarrow> a_reg s' r = a_reg t' r) \<and>
     (a_flags s = a_flags t \<longrightarrow> a_flags s' = a_flags t')"
  using assms
proof (induction rs arbitrary: s t)
  case (Cons r rs)
  let ?a = "a_reg s sp_reg - 4"
  from Cons.prems(3) obtain s1 where s1: "write_word ?a (a_reg s r) s = Some s1"
    "push_regs rs (set_reg sp_reg ?a s1) = Some s'" by (auto split: option.splits)
  from write_word_cong [OF Cons.prems(1) s1(1)] obtain t1 where
    t1: "write_word ?a (a_reg s r) t = Some t1" "arm_same_env s1 t1" "a_reg s1 = a_reg s" "a_reg t1 = a_reg t"
      "a_flags s1 = a_flags s" "a_flags t1 = a_flags t" by blast
  have e: "arm_same_env (set_reg sp_reg ?a s1) (set_reg sp_reg ?a t1)" by (rule set_reg_same_env [OF t1(2)])
  have u: "\<forall>r \<in> set rs. a_reg (set_reg sp_reg ?a s1) r = a_reg (set_reg sp_reg ?a t1) r"
    using Cons.prems(2) t1 by simp
  from Cons.IH [OF e u s1(2)] t1 Cons.prems(2) arm_same_env_sp [OF Cons.prems(1)] show ?case by auto
qed simp

lemma vldm_lanes_cong:
  assumes "arm_same_env s t" and "vldm_lanes r a is s = Some s'"
  shows "\<exists>t'. vldm_lanes r a is t = Some t' \<and> arm_same_env s' t' \<and>
     a_reg s' = a_reg s \<and> a_reg t' = a_reg t \<and> a_flags s' = a_flags s \<and> a_flags t' = a_flags t"
  using assms
proof (induction "is" arbitrary: s t)
  case (Cons i "is")
  from Cons.prems(2) obtain v where v: "read_word s (a + of_nat i * 4) = Some v"
    "vldm_lanes r a is (s\<lparr>a_simd := set_lane (a_simd s) r i v\<rparr>) = Some s'" by (auto split: option.splits)
  have "arm_same_env (s\<lparr>a_simd := set_lane (a_simd s) r i v\<rparr>) (t\<lparr>a_simd := set_lane (a_simd t) r i v\<rparr>)"
    using Cons.prems(1) by (simp add: arm_same_env_def)
  from Cons.IH [OF this v(2)] v(1) read_word_env [OF Cons.prems(1)] show ?case by auto
qed simp

lemma vstm_lanes_cong:
  assumes "arm_same_env s t" and "vstm_lanes r a is s = Some s'"
  shows "\<exists>t'. vstm_lanes r a is t = Some t' \<and> arm_same_env s' t' \<and>
     a_reg s' = a_reg s \<and> a_reg t' = a_reg t \<and> a_flags s' = a_flags s \<and> a_flags t' = a_flags t"
  using assms
proof (induction "is" arbitrary: s t)
  case (Cons i "is")
  from Cons.prems(2) obtain s1 where s1: "write_word (a + of_nat i * 4) (a_simd s r i) s = Some s1"
    "vstm_lanes r a is s1 = Some s'" by (auto split: option.splits)
  from write_word_cong [OF Cons.prems(1) s1(1)] obtain t1 where
    t1: "write_word (a + of_nat i * 4) (a_simd s r i) t = Some t1" "arm_same_env s1 t1"
      "a_reg s1 = a_reg s" "a_reg t1 = a_reg t" "a_flags s1 = a_flags s" "a_flags t1 = a_flags t" by blast
  from Cons.IH [OF t1(2) s1(2)] t1 arm_same_env_fields(3) [OF Cons.prems(1)] show ?case by auto
qed simp

section \<open>One instruction\<close>

definition local_post :: "iop \<Rightarrow> arm_state \<Rightarrow> arm_state \<Rightarrow> arm_state \<Rightarrow> arm_state \<Rightarrow> bool" where
  "local_post x s t s' t' =
     (arm_same_env s' t' \<and>
      (\<forall>r. r \<in> set (op_def_reg x) \<or> a_reg s r = a_reg t r \<longrightarrow> a_reg s' r = a_reg t' r) \<and>
      (op_change_cpsr x \<or> a_flags s = a_flags t \<longrightarrow> a_flags s' = a_flags t'))"

lemma single_local:
  assumes "single_dst x" and "\<forall>r \<in> set (op_use_reg Always x). a_reg s r = a_reg t r"
    and "arm_same_env s t" and "exec_op env x s = Some s'"
  shows "\<exists>t'. exec_op env x t = Some t' \<and> local_post x s t s' t'"
proof -
  let ?d = "hd (op_def_reg x)"
  from assms(4) obtain v where v: "op_value env x s = Some v" "s' = set_reg ?d v s"
    by (auto simp: exec_single(1) [OF assms(1)])
  have "exec_op env x t = Some (set_reg ?d v t)"
    using v(1) op_value_cong [OF assms(2,3), of env] by (simp add: exec_single(1) [OF assms(1)])
  moreover have "local_post x s t s' (set_reg ?d v t)"
  proof -
    obtain d where d: "op_def_reg x = [d]" using exec_single(2) [OF assms(1)] by blast
    have "\<not> op_change_cpsr x" using assms(1) by (cases x) (auto simp: single_dst_def)
    then show ?thesis
      using d set_reg_same_env [OF assms(3), of d v] by (auto simp: local_post_def v(2))
  qed
  ultimately show ?thesis by blast
qed

lemma store_local:
  assumes "arm_same_env s t" and "write_word a v s = Some s'" and "op_def_reg x = []" and "\<not> op_change_cpsr x"
  shows "\<exists>t'. write_word a v t = Some t' \<and> local_post x s t s' t'"
  using write_word_cong [OF assms(1,2)] assms(3,4) by (auto simp: local_post_def)

lemma simd_local:
  assumes "arm_same_env s t" and "\<forall>r \<in> set (op_use_reg Always (SIMD src ty rs n)). a_reg s r = a_reg t r"
    and "simd_exec src ty rs s = Some s'"
    and "ty = VDUP_32 \<longrightarrow> (case src of Some x \<Rightarrow> ar_type x = FloatT | None \<Rightarrow> True)"
  shows "\<exists>t'. simd_exec src ty rs t = Some t' \<and> local_post (SIMD src ty rs n) s t s' t'"
proof (cases "ty = VDUP_32 \<or> ty = VLDM \<or> ty = VSTM")
  case False
  then have e: "simd_exec src ty rs u = map_option (\<lambda>v. u\<lparr>a_simd := v\<rparr>) (simd_compute ty rs (a_simd u))" for u
    by (cases ty) (auto simp: simd_exec_def)
  from assms(3) e obtain v where "simd_compute ty rs (a_simd s) = Some v" "s' = s\<lparr>a_simd := v\<rparr>" by auto
  then show ?thesis
    using e [of t] arm_same_env_fields(3) [OF assms(1)] assms(1) False
    by (auto simp: local_post_def arm_same_env_def)
next
  case True
  then obtain x r rs' where x: "src = Some x" "rs = r # rs'"
    using assms(3) by (auto simp: simd_exec_def split: option.splits list.splits)
  have ax: "a_reg s x = a_reg t x" using assms(2) x by simp
  from True consider "ty = VDUP_32" | "ty = VLDM" | "ty = VSTM" by blast
  then show ?thesis
  proof cases
    case 1
    then have "ar_type x = FloatT" using assms(4) x by simp
    then show ?thesis
      using 1 x ax assms(1,3) by (auto simp: simd_exec_def local_post_def arm_same_env_def)
  next
    case 2
    then have "vldm_lanes r (a_reg s x) [0, 1, 2, 3] s = Some s'" using assms(3) x by (simp add: simd_exec_def)
    from vldm_lanes_cong [OF assms(1) this] show ?thesis using 2 x ax by (auto simp: simd_exec_def local_post_def)
  next
    case 3
    then have "vstm_lanes r (a_reg s x) [0, 1, 2, 3] s = Some s'" using assms(3) x by (simp add: simd_exec_def)
    from vstm_lanes_cong [OF assms(1) this] show ?thesis using 3 x ax by (auto simp: simd_exec_def local_post_def)
  qed
qed

lemma call_local:
  assumes "call_contract env" and "arm_same_env s t" and "a_ctl s = Fall"
    and "\<forall>r \<in> set (op_use_reg Always (FuncCall f ni nf)). a_reg s r = a_reg t r"
    and "ae_call env f ni nf s = Some s'"
  shows "\<exists>t'. ae_call env f ni nf t = Some t' \<and> local_post (FuncCall f ni nf) s t s' t'"
proof -
  from assms obtain t' where t': "ae_call env f ni nf t = Some t'" "arm_same_env s' t'" "a_flags s' = a_flags t'"
    "\<forall>r \<in> set (op_def_reg (FuncCall f ni nf)). a_reg s' r = a_reg t' r"
    "\<forall>r. r \<notin> set (op_def_reg (FuncCall f ni nf)) \<longrightarrow> a_reg s' r = a_reg s r \<and> a_reg t' r = a_reg t r"
    using assms(1) [unfolded call_contract_def, rule_format, OF assms(2,3) _ assms(5)] assms(4) by blast
  have "a_reg s' r = a_reg t' r"
    if "r \<in> set (op_def_reg (FuncCall f ni nf)) \<or> a_reg s r = a_reg t r" for r
    using t'(4,5) that by metis
  then have "local_post (FuncCall f ni nf) s t s' t'" using t'(2,3) unfolding local_post_def by blast
  then show ?thesis using t'(1) by blast
qed

lemma exec_local:
  assumes "exact env (Inst c x)" and "\<forall>r \<in> set (op_use_reg Always x). a_reg s r = a_reg t r"
    and "arm_same_env s t" and "a_ctl s = Fall" and "exec_op env x s = Some s'"
  shows "\<exists>t'. exec_op env x t = Some t' \<and> local_post x s t s' t'"
proof (cases "single_dst x")
  case True
  from single_local [OF True assms(2,3,5)] show ?thesis .
next
  case False
  have sp: "a_reg s sp_reg = a_reg t sp_reg" by (rule arm_same_env_sp [OF assms(3)])
  note env = arm_same_env_fields [OF assms(3)]
  show ?thesis
  proof (cases x)
    case (SMulL d1 d2 s1 s2)
    then show ?thesis
      using assms(2,3,5) set_reg_same_env
      by (auto simp: local_post_def if_cond_def intro!: set_reg_same_env)
  next
    case (Store r b off)
    then show ?thesis using store_local [OF assms(3), of _ _ s' x] assms(2,5) by simp
  next
    case (ComplexStore r b off sh)
    then show ?thesis using store_local [OF assms(3), of _ _ s' x] assms(2,5) by simp
  next
    case (StoreStack r off k)
    then show ?thesis using store_local [OF assms(3), of _ _ s' x] assms(2,5) env(2) by simp
  next
    case (Push rs)
    then show ?thesis using push_regs_cong [OF assms(3), of rs s'] assms(2,5) by (auto simp: local_post_def)
  next
    case (ChangeSP v)
    then show ?thesis using assms(3,5) sp by (auto simp: local_post_def arm_same_env_def)
  next
    case (RegRegCmp y l r)
    then show ?thesis using assms(2,3,5) by (auto simp: local_post_def arm_same_env_def)
  next
    case (RegImmCmp y l v)
    then show ?thesis using assms(2,3,5) by (auto simp: local_post_def arm_same_env_def)
  next
    case (FRegRegCmp l r)
    then show ?thesis using assms(2,3,5) by (auto simp: local_post_def arm_same_env_def)
  next
    case (SIMD src ty rs n)
    have "ty = VDUP_32 \<longrightarrow> (case src of Some x \<Rightarrow> ar_type x = FloatT | None \<Rightarrow> True)"
      using assms(1) SIMD by (auto simp: exact_def split: option.splits)
    from simd_local [OF assms(3) _ _ this, of rs n s'] show ?thesis using assms(2,5) SIMD by simp
  next
    case (Branch b)
    then show ?thesis using assms(3,5) by (auto simp: local_post_def arm_same_env_def)
  next
    case (FuncCall f ni nf)
    then have "call_contract env" using assms(1) by (simp add: exact_def)
    from call_local [OF this assms(3,4)] show ?thesis using assms(2,5) FuncCall by simp
  next
    case (Return ty)
    then show ?thesis using assms(3,5) by (auto simp: local_post_def arm_same_env_def)
  next
    case (FRegInst y d r)
    then show ?thesis using assms(1) False by (auto simp: exact_def single_dst_def)
  qed (use False in \<open>simp_all add: single_dst_def\<close>)
qed

lemma op_use_always: "set (op_use_reg Always x) \<subseteq> set (op_use_reg c x)"
proof (cases "\<exists>f ni nf. x = FuncCall f ni nf")
  case True
  then obtain f ni nf where x: "x = FuncCall f ni nf" by blast
  have "set (take n argument_registers) \<subseteq> {0, 1, 2, 3}" for n
    using set_take_subset [of n argument_registers] by (simp add: argument_registers_def)
  then have "set (op_use_reg Always x) \<subseteq> AReg IntT ` {0, 1, 2, 3} \<union> AReg FloatT ` {0, 1, 2, 3}"
    by (auto simp: x simp del: take_Cons_numeral)
  also have "\<dots> \<subseteq> set caller_save_regs" by (simp add: caller_save_regs_eq)
  finally show ?thesis by (auto simp: x)
next
  case False
  then show ?thesis by (cases x) (auto simp: if_cond_def)
qed

text \<open>A step of a block that is still running.\<close>

definition body_step :: "arm_env \<Rightarrow> inst \<Rightarrow> arm_state \<Rightarrow> arm_state option" where
  "body_step env i s = (if a_ctl s = Fall then arm_step env i s else None)"

lemma skip_exact: "exact env i \<Longrightarrow> \<not> cond_holds (i_cond i) f \<Longrightarrow> skip_op (i_op i) s = s"
  by (auto simp: skip_op_def exact_def split: iop.splits)

text \<open>When its condition fails, a conditional instruction declares what it keeps.\<close>

lemma cond_keeps:
  assumes "exact env i" and "i_cond i \<noteq> Always"
  shows "inst_defs i \<subseteq> inst_uses i"
proof -
  have "set (op_def_reg (i_op i)) \<subseteq> set (op_use_reg (i_cond i) (i_op i))"
    using assms by (cases "i_op i") (auto simp: if_cond_def exact_def split: option.splits)
  then show ?thesis
    using assms(2) by (auto simp: inst_defs_def inst_uses_def def_reg_def use_reg_def use_cpsr_def)
qed

lemma body_step_local:
  assumes "exact env i" and "\<forall>l \<in> inst_uses i. loc_agree l s t" and "arm_same_env s t"
    and "body_step env i s = Some s'"
  shows "\<exists>t'. body_step env i t = Some t' \<and> arm_same_env s' t' \<and> (\<forall>l \<in> inst_defs i. loc_agree l s' t')
     \<and> (\<forall>l. l \<notin> inst_defs i \<longrightarrow> loc_agree l s t \<longrightarrow> loc_agree l s' t')"
proof -
  have ctl: "a_ctl s = Fall" "a_ctl t = Fall"
    using assms(4) arm_same_env_fields(4) [OF assms(3)] by (auto simp: body_step_def split: if_splits)
  have fl: "cond_holds (i_cond i) (a_flags s) = cond_holds (i_cond i) (a_flags t)"
    using assms(2) by (cases "i_cond i = Always") (auto simp: inst_uses_def use_cpsr_def)
  show ?thesis
  proof (cases "cond_holds (i_cond i) (a_flags s)")
    case True
    have u: "\<forall>r \<in> set (op_use_reg Always (i_op i)). a_reg s r = a_reg t r"
      using assms(2) op_use_always [of "i_op i" "i_cond i"] by (force simp: inst_uses_def use_reg_def)
    have "exec_op env (i_op i) s = Some s'" using assms(4) True ctl by (simp add: body_step_def arm_step_def)
    from exec_local [of env "i_cond i" "i_op i", OF _ u assms(3) ctl(1) this] assms(1) obtain t' where
      t': "exec_op env (i_op i) t = Some t'" "local_post (i_op i) s t s' t'" by auto
    have "loc_agree l s' t'" if "l \<in> inst_defs i \<or> loc_agree l s t" for l
      using t'(2) that
      by (cases l) (auto simp: local_post_def inst_defs_def def_reg_def change_cpsr_def split: if_splits)
    moreover have "body_step env i t = Some t'"
      using t'(1) fl True ctl by (simp add: body_step_def arm_step_def)
    moreover have "arm_same_env s' t'" using t'(2) by (simp add: local_post_def)
    ultimately show ?thesis by blast
  next
    case False
    then have c: "i_cond i \<noteq> Always" by auto
    have "s' = s" "body_step env i t = Some t"
      using assms(4) False fl ctl skip_exact [OF assms(1) False] by (auto simp: body_step_def arm_step_def)
    then show ?thesis using assms(2,3) cond_keeps [OF assms(1) c] by blast
  qed
qed

lemma body_step_dead:
  assumes "exact env i" and "\<not> inst_effect i" and "body_step env i s = Some s'" and "arm_same_env s t"
  shows "arm_same_env s' t \<and> (\<forall>l. l \<notin> inst_defs i \<longrightarrow> loc_agree l s t \<longrightarrow> loc_agree l s' t)"
proof -
  have ctl: "a_ctl s = Fall" using assms(3) by (auto simp: body_step_def split: if_splits)
  have tr: "\<forall>r \<in> set (op_def_reg (i_op i)). tracked r" and se: "\<not> op_side_effect (i_op i)"
    using assms(2) by (auto simp: inst_effect_def def_reg_def side_effect_def)
  show ?thesis
  proof (cases "cond_holds (i_cond i) (a_flags s)")
    case False
    then have "s' = s"
      using assms(3) ctl skip_exact [OF assms(1) False] by (simp add: body_step_def arm_step_def)
    then show ?thesis using assms(4) by simp
  next
    case True
    then have e: "exec_op env (i_op i) s = Some s'" using assms(3) ctl by (simp add: body_step_def arm_step_def)
    consider "single_dst (i_op i)" | d1 d2 s1 s2 where "i_op i = SMulL d1 d2 s1 s2" | "op_change_cpsr (i_op i)"
      using se assms(1) by (cases "i_op i") (auto simp: single_dst_def exact_def)
    then show ?thesis
    proof cases
      case 1
      obtain d where d: "op_def_reg (i_op i) = [d]" using exec_single(2) [OF 1] by blast
      from e obtain v where s': "s' = set_reg d v s" by (auto simp: exec_single(1) [OF 1] d)
      have "loc_agree l s' t" if "l \<notin> inst_defs i" "loc_agree l s t" for l
        using that s' d by (cases l) (auto simp: inst_defs_def def_reg_def)
      then show ?thesis using set_reg_tracked_env [OF _ assms(4), of d v] tr d s' by auto
    next
      case 2
      have "loc_agree l s' t" if "l \<notin> inst_defs i" "loc_agree l s t" for l
        using that e 2 by (cases l) (auto simp: inst_defs_def def_reg_def)
      then show ?thesis using tr e 2 assms(4) by (auto intro!: set_reg_tracked_env)
    next
      case 3
      have "loc_agree l s' t" if "l \<notin> inst_defs i" "loc_agree l s t" for l
        using that e 3 se by (cases l; cases "i_op i") (auto simp: inst_defs_def def_reg_def change_cpsr_def)
      moreover have "arm_same_env s' t"
        using e 3 se assms(4) by (cases "i_op i") (auto simp: arm_same_env_def)
      ultimately show ?thesis by blast
    qed
  qed
qed

text \<open>A register that is not declared defined keeps its value.\<close>

lemma write_word_regs: "write_word a v s = Some s' \<Longrightarrow> a_reg s' = a_reg s"
  by (auto simp: write_word_def split: if_splits)

lemma push_regs_frame: "push_regs rs s = Some s' \<Longrightarrow> r \<noteq> sp_reg \<Longrightarrow> a_reg s' r = a_reg s r"
proof (induction rs arbitrary: s)
  case (Cons x rs)
  then show ?case by (auto split: option.splits dest: write_word_regs)
qed simp

lemma simd_frame:
  "simd_exec src ty rs s = Some s' \<Longrightarrow> ty = VDUP_32 \<longrightarrow> r \<noteq> AReg IntT 0 \<Longrightarrow> a_reg s' r = a_reg s r"
proof -
  assume e: "simd_exec src ty rs s = Some s'" and n: "ty = VDUP_32 \<longrightarrow> r \<noteq> AReg IntT 0"
  have l: "vldm_lanes q a is u = Some u' \<Longrightarrow> a_reg u' = a_reg u" for q a "is" u u'
    by (induction "is" arbitrary: u) (fastforce split: option.splits)+
  have v: "vstm_lanes q a is u = Some u' \<Longrightarrow> a_reg u' = a_reg u" for q a "is" u u'
    by (induction "is" arbitrary: u) (fastforce split: option.splits dest: write_word_regs)+
  show ?thesis
    using e n
    by (cases ty) (auto simp: simd_exec_def Let_def simp del: vldm_lanes.simps vstm_lanes.simps
          split: option.splits list.splits if_splits dest!: l v)
qed

lemma body_step_frame:
  assumes "exact env i" and "body_step env i s = Some s'" and "r \<notin> set (def_reg i)" and "tracked r"
  shows "a_reg s' r = a_reg s r"
proof -
  have sp: "r \<noteq> sp_reg" using assms(4) sp_untracked by metis
  have ctl: "a_ctl s = Fall" using assms(2) by (auto simp: body_step_def split: if_splits)
  show ?thesis
  proof (cases "cond_holds (i_cond i) (a_flags s)")
    case False
    then show ?thesis
      using assms(2) ctl skip_exact [OF assms(1) False] by (simp add: body_step_def arm_step_def)
  next
    case True
    then have e: "exec_op env (i_op i) s = Some s'" using assms(2) ctl by (simp add: body_step_def arm_step_def)
    have d: "r \<notin> set (op_def_reg (i_op i))" using assms(3) by (simp add: def_reg_def)
    show ?thesis
    proof (cases "single_dst (i_op i)")
      case True
      then show ?thesis using e d exec_single [OF True] by (cases "op_def_reg (i_op i)") auto
    next
      case False
      then show ?thesis
      proof (cases "i_op i")
        case (Push rs)
        then show ?thesis using e sp push_regs_frame by simp
      next
        case (SIMD src ty rs n)
        then show ?thesis using e d simd_frame [of src ty rs s s' r] by (auto split: if_splits)
      next
        case (FuncCall f ni nf)
        then have "call_contract env" using assms(1) by (simp add: exact_def)
        from this [unfolded call_contract_def, rule_format, OF arm_same_env_refl [of s] ctl _ , of f ni nf s'] e d FuncCall
        show ?thesis by simp
      next
        case (FRegInst y dd x)
        then show ?thesis using assms(1) False by (auto simp: exact_def single_dst_def)
      qed (use e d False sp in \<open>auto simp: single_dst_def dest: write_word_regs\<close>)
    qed
  qed
qed

interpretation arm: def_use_machine "body_step env" loc_agree arm_same_env inst_defs inst_uses
  inst_effect "exact env" for env :: arm_env
  by unfold_locales (rule body_step_local body_step_dead, assumption+)+

end
