(* ===== verification/WordArith.thy ===== *)
theory WordArith
  imports Prelude
begin

text \<open>
  Facts on 32-bit words the constant-operand rewrites rest on: the sign bit, shifts as
  divisions, and the rounding of a division by a power of two.
\<close>

lemma uint_of_sint: "uint (x :: w32) = (if sint x < 0 then sint x + 2 ^ 32 else sint x)"
proof -
  have u: "uint x = sint x mod 2 ^ 32" by (simp add: uint_sint take_bit_int_def)
  show ?thesis
  proof (cases "sint x < 0")
    case True
    have "(sint x + 2 ^ 32) mod 2 ^ 32 = sint x + 2 ^ 32"
      using True sint_ge_m31 [of x] by (intro mod_pos_pos_trivial) auto
    then show ?thesis using True u by simp
  next
    case False
    then show ?thesis using u sint_lt_31 [of x] by simp
  qed
qed

lemma sint_nonneg_uint: "0 \<le> sint (x :: w32) \<Longrightarrow> uint x = sint x"
  by (simp add: uint_of_sint)

lemma sint_eqI: "sint (x :: w32) = sint y \<Longrightarrow> x = y"
  by (metis w32_of_int_sint)

text \<open>The sign bit, moved to the bottom or spread over the word.\<close>

lemma drop_bit_31: "drop_bit 31 (x :: w32) = (if sint x < 0 then 1 else 0)"
proof (rule word_uint_eqI)
  have "uint (drop_bit 31 x) = uint x div 2 ^ 31"
    by (simp add: uint_div drop_bit_eq_div)
  also have "\<dots> = (if sint x < 0 then 1 else 0)"
    using sint_ge_m31 [of x] sint_lt_31 [of x]
    by (auto simp: uint_of_sint intro!: int_div_pos_eq [where r = "sint x + 2 ^ 31"])
  finally show "uint (drop_bit 31 x) = uint (if sint x < 0 then 1 else 0 :: w32)" by simp
qed

lemma sint_signed_drop_bit: "sint (signed_drop_bit n (x :: w32)) = sint x div 2 ^ n"
  by (simp add: sint_signed_drop_bit_eq drop_bit_eq_div)

lemma signed_drop_bit_31: "signed_drop_bit 31 (x :: w32) = (if sint x < 0 then - 1 else 0)"
proof (rule sint_eqI)
  have "sint x div 2 ^ 31 = (if sint x < 0 then - 1 else 0)"
    using sint_ge_m31 [of x] sint_lt_31 [of x]
    by (auto intro!: int_div_pos_eq [where r = "sint x + 2 ^ 31"])
  then show "sint (signed_drop_bit 31 x) = sint (if sint x < 0 then - 1 else 0 :: w32)"
    by (simp add: sint_signed_drop_bit)
qed

lemma drop_bit_minus_one:
  assumes "k \<le> 32"
  shows "drop_bit (32 - k) (- 1 :: w32) = mask k"
  by (rule bit_word_eqI) (use assms in \<open>auto simp: bit_simps\<close>)

lemma w32_pow2_sint: "k < 31 \<Longrightarrow> sint (2 ^ k :: w32) = 2 ^ k"
proof -
  assume "k < 31"
  then have "(2 :: int) ^ k < 2 ^ 31" by (intro power_strict_increasing) auto
  moreover have "(0 :: int) \<le> 2 ^ k" by simp
  ultimately have "sint (word_of_int (2 ^ k) :: w32) = 2 ^ k" by (intro sint_w32_of_int) linarith+
  then show ?thesis by simp
qed

text \<open>Truncated division by a power of two: add \<open>2^k - 1\<close> to a negative value, shift.\<close>

lemma c_quot_pow2:
  "c_quot x (2 ^ k) = (x + (if x < 0 then 2 ^ k - 1 else 0)) div 2 ^ k"
proof (cases "x < 0")
  case False
  then show ?thesis by (simp add: c_quot_pos)
next
  case True
  define q r where "q = (- x) div 2 ^ k" and "r = (- x) mod 2 ^ k"
  have x: "- x = q * 2 ^ k + r" "0 \<le> r" "r < 2 ^ k"
    using div_mult_mod_eq [of "- x" "2 ^ k"] by (simp_all add: q_def r_def)
  have "(x + (2 ^ k - 1)) div 2 ^ k = - q"
    using x by (intro int_div_pos_eq [where r = "2 ^ k - 1 - r"]) (auto simp: algebra_simps)
  then show ?thesis using True by (simp add: c_quot_neg q_def)
qed

definition pow2_bias_value :: "nat \<Rightarrow> w32 \<Rightarrow> w32" where
  "pow2_bias_value k x = (if sint x < 0 then mask k else 0)"

lemma sint_add_bias:
  assumes "k \<le> 31"
  shows "sint (x + pow2_bias_value k x) = sint x + (if sint x < 0 then 2 ^ k - 1 else 0)"
proof (cases "sint x < 0")
  case True
  have "(2 :: int) ^ k \<le> 2 ^ 31" using assms by (intro power_increasing) auto
  then have "sint (word_of_int (sint x + (2 ^ k - 1)) :: w32) = sint x + (2 ^ k - 1)"
    using True sint_ge_m31 [of x] zero_less_power [of "2 :: int" k]
    by (intro sint_w32_of_int) linarith+
  then show ?thesis using True by (simp add: pow2_bias_value_def mask_eq_exp_minus_1)
qed (simp add: pow2_bias_value_def)

lemma pow2_quot_word:
  assumes "k \<le> 31"
  shows "signed_drop_bit k (x + pow2_bias_value k x) = word_of_int (c_quot (sint x) (2 ^ k))"
  by (rule word_of_int_eqI) (simp add: sint_signed_drop_bit sint_add_bias [OF assms] c_quot_pow2)

text \<open>Clearing the low bits, in both ways.\<close>

lemma clear_low_bits:
  assumes "k < 32"
  shows "y AND NOT (mask k) = push_bit k (drop_bit k (y :: w32))"
    and "push_bit k (signed_drop_bit k y) = push_bit k (drop_bit k (y :: w32))"
proof -
  show "y AND NOT (mask k) = push_bit k (drop_bit k y)"
    by (rule bit_word_eqI) (auto simp: bit_simps)
  show "push_bit k (signed_drop_bit k y) = push_bit k (drop_bit k y)"
    by (rule bit_word_eqI) (use assms in \<open>auto simp: bit_simps min_def\<close>)
qed

lemma push_bit_mult: "push_bit k (x :: w32) = x * 2 ^ k"
  by (rule push_bit_eq_mult)

lemma pow2_rem_word:
  assumes "k \<le> 31"
  shows "x - push_bit k (drop_bit k (x + pow2_bias_value k x)) =
     x - word_of_int (c_quot (sint x) (2 ^ k)) * 2 ^ k"
  using pow2_quot_word [OF assms, of x] clear_low_bits(2) [of k "x + pow2_bias_value k x"] assms
  by (simp add: push_bit_mult)

text \<open>Upper and lower half of a product with the top multiplier bit split off.\<close>

lemma hi_carry:
  fixes x :: w32 and b :: int
  assumes "0 \<le> b" and "b < 2 ^ 31"
  defines "p \<equiv> sint x * b"
  shows "(sint x * (b + 2 ^ 31)) div 2 ^ 32 =
     p div 2 ^ 32 + sint x div 2 + (if odd (sint x) \<and> 2 ^ 31 \<le> p mod 2 ^ 32 then 1 else 0)"
proof -
  define q where "q = sint x div 2"
  define t where "t = sint x mod 2"
  have x: "sint x = 2 * q + t" "t = 0 \<or> t = 1" by (auto simp: q_def t_def)
  have o: "odd (sint x) = (t = 1)" by (simp add: t_def odd_iff_mod_2_eq_one)
  define u v where "u = p div 2 ^ 32" and "v = p mod 2 ^ 32"
  have p: "p = u * 2 ^ 32 + v" "0 \<le> v" "v < 2 ^ 32" by (simp_all add: u_def v_def)
  have "sint x * (b + 2 ^ 31) = (u + q) * 2 ^ 32 + (v + t * 2 ^ 31)"
    using p(1) x(1) by (simp add: p_def algebra_simps)
  moreover have "((u + q) * 2 ^ 32 + (v + t * 2 ^ 31)) div 2 ^ 32 = u + q + (v + t * 2 ^ 31) div 2 ^ 32"
    by simp
  moreover have "(v + t * 2 ^ 31) div 2 ^ 32 = (if t = 1 \<and> 2 ^ 31 \<le> v then 1 else 0)"
  proof (cases "t = 1 \<and> 2 ^ 31 \<le> v")
    case True
    then have "(v + t * 2 ^ 31) div 2 ^ 32 = 1"
      using p(2,3) by (intro int_div_pos_eq [where r = "v - 2 ^ 31"]) auto
    then show ?thesis using True by simp
  next
    case False
    then have "0 \<le> v + t * 2 ^ 31" "v + t * 2 ^ 31 < 2 ^ 32" using p(2,3) x(2) by auto
    then have "(v + t * 2 ^ 31) div 2 ^ 32 = 0" by (rule div_pos_pos_trivial)
    then show ?thesis using False by simp
  qed
  ultimately show ?thesis by (simp add: o u_def v_def q_def)
qed

end
