(* ===== verification/MergeInstr.thy ===== *)
theory MergeInstr
  imports DivOpt ArmDefUse WordArith
begin

text \<open>
  \<open>merge_instr\<close> of \<open>src/arm/opt/merge_instr.cpp\<close>: instructions with an operand that is a
  known constant become instructions with an immediate, shifts, or a multiplication by the
  reciprocal. A constant register is one of \<open>f->constant_reg\<close>.
\<close>

section \<open>The rewriting\<close>

type_synonym const_regs = "areg \<rightharpoonup> w32"

definition is_pow2 :: "w32 \<Rightarrow> bool" where "is_pow2 v = (v = (v AND - v))"

definition lo_reg :: areg where "lo_reg = AReg IntT 4"
definition hi_reg :: areg where "hi_reg = AReg IntT 5"

definition merge_mul :: "areg \<Rightarrow> areg \<Rightarrow> w32 \<Rightarrow> inst list option" where
  "merge_mul dst lhs v =
     (if v <=s 1 then None
      else let log2v = ctz v; v0 = push_bit log2v 1 in
        if v = v0 then Some (always [RegImmInst ILsl dst lhs (of_nat log2v)])
        else if popcount (v - v0) = 1 then
          Some (always ([RegRegInst RAdd dst lhs lhs (Shift LSL (ctz (v - v0) - log2v))]
            @ (if log2v \<noteq> 0 then [RegImmInst ILsl dst dst (of_nat log2v)] else [])))
        else if popcount (v + v0) = 1 then
          Some (always ([RegRegInst RRevSub dst lhs lhs (Shift LSL (ctz (v + v0) - log2v))]
            @ (if log2v \<noteq> 0 then [RegImmInst ILsl dst dst (of_nat log2v)] else [])))
        else None)"

text \<open>The rounding towards zero shared by division and remainder by a power of two.\<close>

definition pow2_bias :: "areg \<Rightarrow> areg \<Rightarrow> w32 \<Rightarrow> iop list" where
  "pow2_bias dst lhs v =
     (if v = 2 then [RegRegInst RAdd dst lhs lhs (Shift LSR 31)]
      else [RegImmInst IAsr dst lhs 31, RegRegInst RAdd dst lhs dst (Shift LSR (32 - ctz v))])"

text \<open>The quotient by multiplication, in \<open>dst\<close>, with \<open>r4\<close> and \<open>r5\<close> as scratch.\<close>

definition div_seq :: "areg \<Rightarrow> areg \<Rightarrow> w32 \<Rightarrow> inst list" where
  "div_seq dst x v =
     (case div_opt v of (B, s) \<Rightarrow>
        load_imm lo_reg (word_of_int B AND 0x7FFFFFFF) @
        always ([SMulL lo_reg hi_reg x lo_reg] @
          (if odd (B div 2 ^ 31) then
             [RegRegInst RAdd hi_reg hi_reg x (Shift ASR 1),
              RegRegInst RAnd lo_reg x lo_reg (Shift LSR 31),
              RegRegInst RAdd hi_reg hi_reg lo_reg no_shift] else []) @
          [RegImmInst IAsr dst hi_reg (of_nat s),
           RegRegInst RAdd dst dst hi_reg (Shift LSR 31)]))"

definition merge_div :: "areg \<Rightarrow> areg \<Rightarrow> w32 \<Rightarrow> inst list option" where
  "merge_div dst lhs v =
     (if 1 <s v \<and> is_pow2 v then
        Some (always (pow2_bias dst lhs v @ [RegImmInst IAsr dst dst (of_nat (ctz v))]))
      else if 1 <s v then Some (div_seq dst lhs v)
      else None)"

definition merge_mod :: "areg \<Rightarrow> areg \<Rightarrow> areg \<Rightarrow> w32 \<Rightarrow> inst list option" where
  "merge_mod dst lhs rhs v =
     (if 1 <s v \<and> is_pow2 v then
        Some (always (pow2_bias dst lhs v @
          (if is_legal_immediate (v - 1)
           then [RegImmInst IBic dst dst (v - 1), RegRegInst RSub dst lhs dst no_shift]
           else [RegImmInst ILsr dst dst (of_nat (ctz v)),
                 RegRegInst RSub dst lhs dst (Shift LSL (ctz v))])))
      else if 1 <s v then Some (div_seq dst lhs v @ always [MLInst Mls dst dst rhs lhs])
      else None)"

definition merge_rr :: "rr_op \<Rightarrow> areg \<Rightarrow> areg \<Rightarrow> areg \<Rightarrow> w32 \<Rightarrow> inst list option" where
  "merge_rr op dst lhs rhs v =
     (case op of
        RAdd \<Rightarrow> (if is_legal_immediate v then Some (always [RegImmInst IAdd dst lhs v]) else None)
      | RSub \<Rightarrow> (if is_legal_immediate v then Some (always [RegImmInst ISub dst lhs v]) else None)
      | RMul \<Rightarrow> merge_mul dst lhs v
      | RDiv \<Rightarrow> merge_div dst lhs v
      | RMod \<Rightarrow> merge_mod dst lhs rhs v
      | _ \<Rightarrow> None)"

definition merge_ml :: "const_regs \<Rightarrow> ml_op \<Rightarrow> areg \<Rightarrow> areg \<Rightarrow> areg \<Rightarrow> areg \<Rightarrow> inst list option" where
  "merge_ml cs op dst s1 s2 s3 =
     (let (s1, s2) = (if cs s2 = None then (s2, s1) else (s1, s2)) in
      case cs s2 of
        None \<Rightarrow> None
      | Some v \<Rightarrow>
          if 0 <s v \<and> is_pow2 v
          then Some (always [RegRegInst (case op of Mla \<Rightarrow> RAdd | Mls \<Rightarrow> RSub) dst s3 s1 (Shift LSL (ctz v))])
          else None)"

text \<open>The new instructions carry no condition; an instruction with no rule stays.\<close>

definition merge_op :: "const_regs \<Rightarrow> iop \<Rightarrow> inst list option" where
  "merge_op cs x =
     (case x of
        RegRegCmp op lhs rhs \<Rightarrow>
          (case cs rhs of
             None \<Rightarrow> None
           | Some v \<Rightarrow> if is_legal_immediate v then Some (always [RegImmCmp Cmp lhs v]) else None)
      | RegRegInst op dst lhs rhs sh \<Rightarrow>
          (if shift_w sh \<noteq> 0 then None
           else case cs rhs of None \<Rightarrow> None | Some v \<Rightarrow> merge_rr op dst lhs rhs v)
      | MLInst op dst s1 s2 s3 \<Rightarrow> merge_ml cs op dst s1 s2 s3
      | _ \<Rightarrow> None)"

definition merge_inst :: "const_regs \<Rightarrow> inst \<Rightarrow> inst list" where
  "merge_inst cs i = (case merge_op cs (i_op i) of None \<Rightarrow> [i] | Some is \<Rightarrow> is)"

definition merge_block :: "const_regs \<Rightarrow> inst list \<Rightarrow> inst list" where
  "merge_block cs is = concat (map (merge_inst cs) is)"

section \<open>Powers of two\<close>

lemma popcount_loop_0: "popcount_loop k n = 0 \<Longrightarrow> n < 2 ^ k \<Longrightarrow> n = 0"
proof (induction k arbitrary: n)
  case (Suc k)
  then have "even n" "popcount_loop k (n div 2) = 0" "n div 2 < 2 ^ k" by auto
  with Suc.IH show ?case by auto
qed simp

lemma popcount_loop_1:
  "popcount_loop k n = 1 \<Longrightarrow> n < 2 ^ k \<Longrightarrow> n = 2 ^ ctz_loop k n \<and> ctz_loop k n < k"
proof (induction k arbitrary: n)
  case (Suc k)
  show ?case
  proof (cases "odd n")
    case True
    then have "popcount_loop k (n div 2) = 0" "n div 2 < 2 ^ k"
      using Suc.prems by (auto simp: odd_iff_mod_2_eq_one)
    then have "n div 2 = 0" by (rule popcount_loop_0)
    then have "n = 1" using True by (metis One_nat_def div_mult_mod_eq add.left_neutral mult_0 odd_iff_mod_2_eq_one)
    then show ?thesis by simp
  next
    case False
    then have "popcount_loop k (n div 2) = 1" "n div 2 < 2 ^ k" using Suc.prems by auto
    from Suc.IH [OF this] have "n div 2 = 2 ^ ctz_loop k (n div 2)" "ctz_loop k (n div 2) < k" by auto
    moreover have "n = 2 * (n div 2)" using False by simp
    ultimately show ?thesis using False by (metis Suc_less_eq ctz_loop.simps(2) power_Suc)
  qed
qed simp

lemma of_nat_unat32: "of_nat (unat v) = (v :: w32)"
  by simp

lemma unat_lt_32: "unat (v :: w32) < 2 ^ 32"
  using unsigned_less [of v] by simp

lemma popcount_1: "popcount v = 1 \<Longrightarrow> v = 2 ^ ctz v \<and> ctz v < 32"
proof -
  assume "popcount v = 1"
  then have u: "unat v = 2 ^ ctz v" "ctz v < 32"
    using popcount_loop_1 [of 32 "unat v"] unat_lt_32 [of v] by (simp_all add: popcount_def ctz_def)
  then have "v = of_nat (2 ^ ctz v)" using of_nat_unat32 [of v] by metis
  then show ?thesis using u by simp
qed

lemma ctz_lt: "v \<noteq> 0 \<Longrightarrow> ctz v < 32"
proof (rule ccontr)
  assume "v \<noteq> 0" "\<not> ctz v < 32"
  then obtain m where m: "unat v = 2 ^ ctz v * m" "odd m" using ctz_spec by blast
  have "(2 :: nat) ^ 32 \<le> 2 ^ ctz v" using \<open>\<not> ctz v < 32\<close> by (intro power_increasing) auto
  also have "\<dots> \<le> unat v" using m by (cases m) auto
  finally show False using unat_lt_32 [of v] by simp
qed

lemma unat_pow2: "k < 32 \<Longrightarrow> unat (2 ^ k :: w32) = 2 ^ k"
proof -
  assume "k < 32"
  then have "(2 :: nat) ^ k < 2 ^ 32" by (intro power_strict_increasing) auto
  then have "unat (of_nat (2 ^ k) :: w32) = 2 ^ k" unfolding unat_of_nat by simp
  then show ?thesis by simp
qed

lemma sint_pos_unat: "0 \<le> sint v \<Longrightarrow> int (unat v) = sint (v :: w32)"
  by (simp add: sint_nonneg_uint flip: uint_nat)

text \<open>\<open>v == (v & -v)\<close> on a positive value: a power of two.\<close>

lemma is_pow2_imp:
  assumes "is_pow2 v" and "0 < sint v"
  shows "v = 2 ^ ctz v \<and> ctz v < 31 \<and> sint v = 2 ^ ctz v"
proof -
  let ?k = "ctz v"
  have v0: "v \<noteq> 0" using assms(2) by auto
  obtain m where m: "unat v = 2 ^ ?k * m" "odd m" using ctz_spec [OF v0] by blast
  have k: "?k < 32" by (rule ctz_lt [OF v0])
  have "v AND - v = v" using assms(1) by (simp add: is_pow2_def)
  moreover have "- v = NOT (v - 1)" by (rule minus_eq_not_minus_1)
  ultimately have "v AND (v - 1) = (v AND NOT (v - 1)) AND (v - 1)" by simp
  then have z: "v AND (v - 1) = 0" by (simp add: and.assoc)
  have u1: "unat (v - 1) = unat v - 1" using v0 by (simp add: unat_minus_one)
  have half: "(unat v - 1) div 2 ^ Suc ?k = unat v div 2 ^ Suc ?k"
  proof -
    obtain j where j: "m = 2 * j + 1" using m(2) by (auto elim: oddE)
    define P where "P = (2 :: nat) ^ Suc ?k"
    have P: "P \<noteq> 0" "2 ^ ?k - 1 < P" "2 ^ ?k < P" by (auto simp: P_def intro: less_imp_diff_less)
    define r where "r = (2 :: nat) ^ ?k - 1"
    have "unat v - 1 = P * j + r" using m(1) j by (simp add: P_def r_def algebra_simps)
    moreover have "r < P" using P(2) by (simp only: r_def)
    ultimately have "(unat v - 1) div P = j" using P(1) by simp
    moreover have "unat v = P * j + 2 ^ ?k" using m(1) j by (simp add: P_def algebra_simps)
    then have "unat v div P = j" using P by simp
    ultimately show ?thesis by (simp only: P_def)
  qed
  have "unat v div 2 ^ Suc ?k = 0"
  proof (rule ccontr)
    assume "unat v div 2 ^ Suc ?k \<noteq> 0"
    then have "drop_bit (Suc ?k) (unat v) \<noteq> 0" by (simp add: drop_bit_eq_div)
    then obtain n where "bit (drop_bit (Suc ?k) (unat v)) n" by (auto simp: bit_eq_iff)
    then have b: "bit (unat v) (Suc ?k + n)" by (simp add: bit_drop_bit_eq)
    have "bit (unat v - 1) (Suc ?k + n)"
      using b half by (metis bit_drop_bit_eq comp_apply drop_bit_eq_div)
    then have "bit (unat (v - 1)) (Suc ?k + n)" by (simp only: u1)
    then have "bit (v AND (v - 1)) (Suc ?k + n)"
      using b by (simp only: bit_and_iff bit_unsigned_iff)
    then show False using z by simp
  qed
  moreover have "unat v div 2 ^ Suc ?k = m div 2"
  proof -
    have "unat v div 2 ^ Suc ?k = unat v div 2 ^ ?k div 2" by (simp add: div_mult2_eq [symmetric] mult.commute)
    then show ?thesis using m(1) by simp
  qed
  ultimately have "m div 2 = 0" by simp
  then have "m = 1" using m(2) by (cases m) auto
  then have u: "unat v = 2 ^ ?k" using m(1) by simp
  have s: "sint v = 2 ^ ?k" using sint_pos_unat [of v] assms(2) u by simp
  have "?k < 31"
  proof (rule ccontr)
    assume "\<not> ?k < 31"
    then have "(2::int) ^ 31 \<le> 2 ^ ?k" by (intro power_increasing) auto
    then show False using s sint_lt_31 [of v] by simp
  qed
  moreover have "v = 2 ^ ?k"
  proof -
    have "v = of_nat (2 ^ ?k)" using u using of_nat_unat32 [of v] by metis
    then show ?thesis by simp
  qed
  ultimately show ?thesis using s by simp
qed

lemma not_pow2:
  assumes "\<not> is_pow2 v"
  shows "\<forall>k. sint v \<noteq> 2 ^ k"
proof (intro allI notI)
  fix k assume s: "sint v = 2 ^ k"
  have k: "k < 31"
  proof (rule ccontr)
    assume "\<not> k < 31"
    then have "(2::int) ^ 31 \<le> 2 ^ k" by (intro power_increasing) auto
    then show False using s sint_lt_31 [of v] by simp
  qed
  then have v: "v = 2 ^ k" using s by (intro sint_eqI) (simp add: w32_pow2_sint)
  have "v AND - v = v"
  proof (rule bit_word_eqI)
    fix n assume "n < LENGTH(32)"
    then show "bit (v AND - v) n = bit v n"
      using k by (auto simp: v bit_and_iff minus_exp_eq_not_mask bit_not_iff bit_mask_iff bit_exp_iff)
  qed
  then show False using assms by (simp add: is_pow2_def)
qed

section \<open>Runs of the emitted sequences\<close>

lemma set_reg_twice [simp]: "set_reg r a (set_reg r b s) = set_reg r a s"
  by (simp add: set_reg_def)

lemma arm_run_always:
  "a_ctl s = Fall \<Longrightarrow> arm_run env (always (x # xs)) s =
     (case exec_op env x s of None \<Rightarrow> None | Some s' \<Rightarrow> arm_run env (always xs) s')"
  by (simp add: always_def arm_step_always split: option.split)

lemma arm_run_nil [simp]: "arm_run env (always []) s = Some s"
  by (simp add: always_def)

lemma always_append: "always (xs @ ys) = always xs @ always ys"
  by (simp add: always_def)

lemma movw_movt: "(v AND 0xFFFF) AND 0xFFFF OR push_bit 16 (drop_bit 16 v) = (v :: w32)"
proof -
  have m: "w AND 0xFFFF = take_bit 16 w" for w :: w32
    by (simp add: take_bit_eq_mask mask_eq_exp_minus_1)
  have "(v AND 0xFFFF) AND 0xFFFF = take_bit 16 v" by (simp only: m take_bit_take_bit min.idem)
  moreover have "take_bit 16 v OR push_bit 16 (drop_bit 16 v) = v"
  proof (rule bit_word_eqI)
    fix n assume "n < LENGTH(32)"
    then show "bit (take_bit 16 v OR push_bit 16 (drop_bit 16 v)) n = bit v n"
      by (cases "n < 16") (simp_all add: bit_simps)
  qed
  ultimately show ?thesis by (simp only:)
qed

lemma movw_low: "drop_bit 16 v = 0 \<Longrightarrow> (v AND 0xFFFF) AND 0xFFFF = (v :: w32)"
  using movw_movt [of v] by simp

text \<open>\<open>load_imm\<close> puts the constant into its register and changes nothing else.\<close>

lemma load_imm_run:
  assumes "a_ctl s = Fall"
  shows "arm_run env (load_imm d v) s = Some (set_reg d v s)"
  using assms movw_movt [of v] movw_low [of v]
  by (simp add: load_imm_def Let_def arm_run_always)

text \<open>\<open>reg_imm_sum\<close> adds a constant; its third form writes the constant to the destination
  first, so the operand must be another register there.\<close>

lemma reg_imm_sum_run:
  assumes "a_ctl s = Fall" and "dst \<noteq> lhs"
  shows "arm_run env (reg_imm_sum dst lhs v) s = Some (set_reg dst (a_reg s lhs + v) s)"
  using assms
  by (simp add: reg_imm_sum_def arm_run_always run_list_append load_imm_run no_shift_def)

lemma load_symbol_addr_run:
  assumes "a_ctl s = Fall"
  shows "arm_run env (load_symbol_addr d symb) s = Some (set_reg d (ae_sym env symb) s)"
proof -
  have m: "(w AND 0xFFFF) OR (w AND 0xFFFF0000) = w" for w :: w32
  proof -
    have "(w AND 0xFFFF) OR (w AND 0xFFFF0000) = w AND (0xFFFF OR 0xFFFF0000)"
      by (simp only: bit.conj_disj_distrib)
    also have "(0xFFFF OR 0xFFFF0000 :: w32) = - 1" by simp
    finally show ?thesis by (simp only: and.right_neutral)
  qed
  show ?thesis using assms m [of "ae_sym env symb"] by (simp add: load_symbol_addr_def arm_run_always)
qed

text \<open>Agreement of two states outside some registers.\<close>

definition same_but :: "areg set \<Rightarrow> arm_state \<Rightarrow> arm_state \<Rightarrow> bool" where
  "same_but R s t = ((\<forall>r. r \<notin> R \<longrightarrow> a_reg s r = a_reg t r) \<and> t = s\<lparr>a_reg := a_reg t\<rparr>)"

lemma same_but_refl [simp]: "same_but R s s" by (simp add: same_but_def)

lemma same_but_set: "same_but R s t \<Longrightarrow> r \<in> R \<Longrightarrow> same_but R s (set_reg r v t)"
  by (cases s; cases t) (auto simp: same_but_def set_reg_def)

lemma same_but_set_both: "same_but R s t \<Longrightarrow> same_but R (set_reg r v s) (set_reg r v t)"
  by (cases s; cases t) (auto simp: same_but_def set_reg_def)

subsection \<open>Multiplication\<close>

lemma merge_mul_run:
  assumes "merge_mul dst lhs v = Some is" and "a_ctl s = Fall"
  shows "arm_run env is s = Some (set_reg dst (a_reg s lhs * v) s)"
proof -
  let ?k = "ctz v" and ?v0 = "push_bit (ctz v) 1 :: w32" and ?x = "a_reg s lhs"
  have nle: "\<not> v <=s 1"
  proof
    assume "v <=s 1"
    then have "merge_mul dst lhs v = None" unfolding merge_mul_def by (rule if_P)
    with assms(1) show False by simp
  qed
  then have pos: "1 < sint v" by (simp add: word_sle_eq)
  then have v0: "v \<noteq> 0" by auto
  have k: "?k < 32" by (rule ctz_lt [OF v0])
  obtain m where m: "unat v = 2 ^ ?k * m" "odd m" using ctz_spec [OF v0] by blast
  have v0': "?v0 = 2 ^ ?k" by (simp add: push_bit_eq_mult)
  have u: "unat (2 ^ ?k :: w32) = 2 ^ ?k" by (rule unat_pow2 [OF k])
  have le: "(2::nat) ^ ?k \<le> unat v" using m by (cases m) auto
  have uk: "unat (of_nat ?k :: w32) = ?k" using k by (simp add: unat_of_nat)
  have fits: "unat v + 2 ^ ?k < 2 ^ 32"
  proof -
    have "int (unat v) < 2 ^ 31" using sint_pos_unat [of v] pos sint_lt_31 [of v] by simp
    then have "int (unat v) < int (2 ^ 31)" by simp
    then have "unat v < 2 ^ 31" by (simp only: of_nat_less_iff)
    then show ?thesis using le by simp
  qed
  have shift: "?k \<le> j" if "(2::nat) ^ j = 2 ^ ?k * n" for j n
  proof -
    have "(2::nat) ^ ?k dvd 2 ^ j" unfolding that by simp
    then show ?thesis using dvd_power_iff_le [of "2::nat" ?k j] by simp
  qed
  from assms(1) pos consider
      "v = ?v0" "is = always [RegImmInst ILsl dst lhs (of_nat ?k)]"
    | "popcount (v - ?v0) = 1" "is = always ([RegRegInst RAdd dst lhs lhs (Shift LSL (ctz (v - ?v0) - ?k))]
            @ (if ?k \<noteq> 0 then [RegImmInst ILsl dst dst (of_nat ?k)] else []))"
    | "popcount (v + ?v0) = 1" "is = always ([RegRegInst RRevSub dst lhs lhs (Shift LSL (ctz (v + ?v0) - ?k))]
            @ (if ?k \<noteq> 0 then [RegImmInst ILsl dst dst (of_nat ?k)] else []))"
  proof -
    note eq = assms(1) [unfolded merge_mul_def Let_def if_not_P [OF nle]]
    show ?thesis
    proof (cases "v = ?v0")
      case True
      show ?thesis
        by (rule that(1) [OF True eq [unfolded if_P [OF True] option.inject, symmetric]])
    next
      case False
      note eq2 = eq [unfolded if_not_P [OF False]]
      show ?thesis
      proof (cases "popcount (v - ?v0) = 1")
        case True
        show ?thesis
          by (rule that(2) [OF True eq2 [unfolded if_P [OF True] option.inject, symmetric]])
      next
        case False
        note eq3 = eq2 [unfolded if_not_P [OF False]]
        have p: "popcount (v + ?v0) = 1"
        proof (rule ccontr)
          assume "popcount (v + ?v0) \<noteq> 1"
          from eq3 [unfolded if_not_P [OF this]] show False by blast
        qed
        show ?thesis
          by (rule that(3) [OF p eq3 [unfolded if_P [OF p] option.inject, symmetric]])
      qed
    qed
  qed
  then show ?thesis
  proof cases
    case 1
    have "push_bit ?k ?x = ?x * v" by (subst (2) 1(1)) (simp add: push_bit_eq_mult)
    then show ?thesis using 1(2) assms(2) uk by (simp add: arm_run_always)
  next
    case 2
    define j where "j = ctz (v - ?v0)"
    have j: "v - 2 ^ ?k = 2 ^ j" "j < 32"
      using popcount_1 [OF 2(1)] unfolding j_def v0' by blast+
    have "unat (v - 2 ^ ?k) = unat v - 2 ^ ?k"
      using le u by (simp add: unat_sub word_le_nat_alt)
    then have "(2::nat) ^ j = 2 ^ ?k * (m - 1)"
      using j unat_pow2 [OF j(2)] m(1) by (simp add: diff_mult_distrib2)
    then have kj: "?k \<le> j" by (rule shift)
    have val: "push_bit ?k (?x + push_bit (j - ?k) ?x) = ?x * v"
    proof -
      have "push_bit ?k (?x + push_bit (j - ?k) ?x) = ?x * 2 ^ ?k + ?x * 2 ^ j"
        using kj by (simp add: push_bit_eq_mult distrib_right mult.assoc flip: power_add)
      also have "\<dots> = ?x * (2 ^ ?k + (v - 2 ^ ?k))" by (simp only: j(1) distrib_left)
      finally show ?thesis by simp
    qed
    then show ?thesis using 2(2) [folded j_def] assms(2) uk by (cases "?k = 0") (simp_all add: arm_run_always)
  next
    case 3
    define j where "j = ctz (v + ?v0)"
    have j: "v + 2 ^ ?k = 2 ^ j" "j < 32"
      using popcount_1 [OF 3(1)] unfolding j_def v0' by blast+
    have "unat (v + 2 ^ ?k) = unat v + 2 ^ ?k"
      using fits u by (simp add: unat_word_ariths)
    then have "(2::nat) ^ j = 2 ^ ?k * (m + 1)"
      using j unat_pow2 [OF j(2)] m(1) by simp
    then have kj: "?k \<le> j" by (rule shift)
    have val: "push_bit ?k (push_bit (j - ?k) ?x - ?x) = ?x * v"
    proof -
      have "push_bit ?k (push_bit (j - ?k) ?x - ?x) = ?x * 2 ^ j - ?x * 2 ^ ?k"
        using kj by (simp add: push_bit_eq_mult left_diff_distrib mult.assoc flip: power_add)
      also have "\<dots> = ?x * ((v + 2 ^ ?k) - 2 ^ ?k)" by (simp only: j(1) right_diff_distrib)
      finally show ?thesis by simp
    qed
    then show ?thesis using 3(2) [folded j_def] assms(2) uk by (cases "?k = 0") (simp_all add: arm_run_always)
  qed
qed

end
