(* ===== verification/MergeFacts.thy ===== *)
theory MergeFacts
  imports MergeInstr
begin

text \<open>
  \<open>merge_instr\<close> is right: every sequence it emits leaves in the destination what the
  replaced instruction would have left, and changes nothing else but its two scratch
  registers; a block keeps its meaning.
\<close>

section \<open>Division by a power of two\<close>

lemma pow2_bias_run:
  assumes "is_pow2 v" and "1 < sint v" and "a_ctl s = Fall" and "v \<noteq> 2 \<longrightarrow> dst \<noteq> lhs"
  shows "arm_run env (always (pow2_bias dst lhs v @ xs)) s =
    arm_run env (always xs) (set_reg dst (a_reg s lhs + pow2_bias_value (ctz v) (a_reg s lhs)) s)"
proof -
  have k: "ctz v < 31" "v = 2 ^ ctz v" "sint v = 2 ^ ctz v" using is_pow2_imp [OF assms(1)] assms(2) by auto
  show ?thesis
  proof (cases "v = 2")
    case True
    then have "(2::int) ^ ctz v = 2 ^ 1" using k(3) by simp
    then have "ctz v = 1" by (simp only: power_inject_exp) 
    then show ?thesis
      using True assms(3) by (simp add: pow2_bias_def arm_run_always drop_bit_31 pow2_bias_value_def mask_Suc_0)
  next
    case False
    have "unat (31 :: w32) = 31" by simp
    moreover have "drop_bit (32 - ctz v) (if sint x < 0 then - 1 else 0 :: w32) = pow2_bias_value (ctz v) x" for x
      using k(1) drop_bit_minus_one [of "ctz v"] by (simp add: pow2_bias_value_def)
    ultimately show ?thesis
      using False assms(3,4) by (simp add: pow2_bias_def arm_run_always signed_drop_bit_31)
  qed
qed

lemma pow2_div_run:
  assumes "is_pow2 v" and "1 < sint v" and "a_ctl s = Fall" and "v \<noteq> 2 \<longrightarrow> dst \<noteq> lhs"
  shows "arm_run env (always (pow2_bias dst lhs v @ [RegImmInst IAsr dst dst (of_nat (ctz v))])) s =
    Some (set_reg dst (sdiv32 (a_reg s lhs) v) s)"
proof -
  have k: "ctz v < 31" "sint v = 2 ^ ctz v" using is_pow2_imp [OF assms(1)] assms(2) by auto
  have "unat (of_nat (ctz v) :: w32) = ctz v" using k(1) by (simp add: unat_of_nat)
  moreover have "v \<noteq> 0" using assms(2) by auto
  ultimately show ?thesis
    using pow2_quot_word [of "ctz v" "a_reg s lhs"] k assms(3)
    by (simp add: pow2_bias_run [OF assms] arm_run_always sdiv32_def)
qed

lemma pow2_mod_run:
  assumes "is_pow2 v" and "1 < sint v" and "a_ctl s = Fall" and "dst \<noteq> lhs"
  shows "arm_run env (always (pow2_bias dst lhs v @
      (if is_legal_immediate (v - 1)
       then [RegImmInst IBic dst dst (v - 1), RegRegInst RSub dst lhs dst no_shift]
       else [RegImmInst ILsr dst dst (of_nat (ctz v)), RegRegInst RSub dst lhs dst (Shift LSL (ctz v))]))) s =
    Some (set_reg dst (a_reg s lhs - sdiv32 (a_reg s lhs) v * v) s)"
proof -
  have k: "ctz v < 31" "sint v = 2 ^ ctz v" "v = 2 ^ ctz v" using is_pow2_imp [OF assms(1)] assms(2) by auto
  have un: "unat (of_nat (ctz v) :: w32) = ctz v" using k(1) by (simp add: unat_of_nat)
  have m: "v - 1 = mask (ctz v)" by (subst k(3)) (simp add: mask_eq_exp_minus_1)
  have v0: "v \<noteq> 0" using assms(2) by auto
  let ?y = "a_reg s lhs + pow2_bias_value (ctz v) (a_reg s lhs)"
  have rem: "a_reg s lhs - push_bit (ctz v) (drop_bit (ctz v) ?y) = a_reg s lhs - sdiv32 (a_reg s lhs) v * v"
    using pow2_rem_word [of "ctz v" "a_reg s lhs"] k v0 by (simp add: sdiv32_def)
  have ne: "v \<noteq> 2 \<longrightarrow> dst \<noteq> lhs" using assms(4) by simp
  show ?thesis
    using assms(3,4) rem un clear_low_bits(1) [of "ctz v" ?y] k(1)
    by (simp add: pow2_bias_run [OF assms(1-3) ne] arm_run_always no_shift_def m)
qed

section \<open>Division by multiplication\<close>

lemma smull_values:
  "smull_lo x y = word_of_int (sint x * sint y)"
  "sint (smull_hi x y) = sint x * sint y div 2 ^ 32"
proof -
  show "smull_lo x y = word_of_int (sint x * sint y)" by (rule smull_lo_def)
  have "\<bar>sint x\<bar> \<le> 2 ^ 31" "\<bar>sint y\<bar> \<le> 2 ^ 31"
    using sint_ge_m31 [of x] sint_lt_31 [of x] sint_ge_m31 [of y] sint_lt_31 [of y] by auto
  then have "\<bar>sint x\<bar> * \<bar>sint y\<bar> \<le> 2 ^ 31 * 2 ^ 31" by (intro mult_mono) auto
  then have "\<bar>sint x * sint y\<bar> \<le> 2 ^ 62" by (simp add: abs_mult)
  then have "- (2 ^ 62) \<le> sint x * sint y" "sint x * sint y \<le> 2 ^ 62" by auto
  then have "- (2 ^ 62) div 2 ^ 32 \<le> sint x * sint y div 2 ^ 32" "sint x * sint y div 2 ^ 32 \<le> 2 ^ 62 div 2 ^ 32"
    by (intro zdiv_mono1; simp)+
  then show "sint (smull_hi x y) = sint x * sint y div 2 ^ 32"
    unfolding smull_hi_def by (intro sint_w32_of_int) auto
qed

text \<open>The upper word the sequence builds is that of the product with the full multiplier.\<close>

lemma hi_bounds:
  fixes x :: w32
  assumes "0 < B" and "B < 2 ^ 32"
  shows "- (2 ^ 31) \<le> sint x * B div 2 ^ 32" and "sint x * B div 2 ^ 32 < 2 ^ 31"
proof -
  have "- (2 ^ 31) * B \<le> sint x * B" using sint_ge_m31 [of x] assms(1) by (intro mult_right_mono) auto
  moreover have "- (2 ^ 31) * 2 ^ 32 \<le> - (2 ^ 31) * B" using assms(2) by simp
  ultimately have "- (2 ^ 31) * 2 ^ 32 \<le> sint x * B" by linarith
  then have "- (2 ^ 31) * 2 ^ 32 div 2 ^ 32 \<le> sint x * B div 2 ^ 32" by (rule zdiv_mono1) simp
  then show "- (2 ^ 31) \<le> sint x * B div 2 ^ 32" by simp
  have "sint x * B \<le> (2 ^ 31 - 1) * B" using sint_lt_31 [of x] assms(1) by (intro mult_right_mono) auto
  moreover have "(2 ^ 31 - 1) * B \<le> (2 ^ 31 - 1) * 2 ^ 32" using assms(2) by simp
  ultimately have "sint x * B \<le> (2 ^ 31 - 1) * 2 ^ 32" by linarith
  then have "sint x * B div 2 ^ 32 \<le> (2 ^ 31 - 1) * 2 ^ 32 div 2 ^ 32" by (rule zdiv_mono1) simp
  then show "sint x * B div 2 ^ 32 < 2 ^ 31" by simp
qed

lemma hi_word:
  fixes x :: w32
  assumes "0 < B" and "B < 2 ^ 32"
  defines "y \<equiv> word_of_int B AND 0x7FFFFFFF :: w32"
  defines "h \<equiv> smull_hi x y"
  shows "sint (if odd (B div 2 ^ 31) then h + signed_drop_bit 1 x + (x AND drop_bit 31 (smull_lo x y)) else h)
    = sint x * B div 2 ^ 32"
proof -
  define b where "b = B mod 2 ^ 31"
  have b: "0 \<le> b" "b < 2 ^ 31" by (simp_all add: b_def)
  have yb: "sint y = b"
  proof -
    have "y = take_bit 31 (word_of_int B)" by (simp add: y_def take_bit_eq_mask mask_eq_exp_minus_1)
    then have "uint y = take_bit 31 (uint (word_of_int B :: w32))" by (simp add: unsigned_take_bit_eq)
    also have "uint (word_of_int B :: w32) = B" using assms(1,2) by (simp add: uint_word_of_int)
    finally have "uint y = b" by (simp add: take_bit_int_def b_def)
    then show ?thesis using b uint_of_sint [of y] sint_ge_m31 [of y] by (auto split: if_splits)
  qed
  have h: "sint h = sint x * b div 2 ^ 32" by (simp add: h_def smull_values yb)
  have dv: "B = b + (B div 2 ^ 31) * 2 ^ 31" "B div 2 ^ 31 = 0 \<or> B div 2 ^ 31 = 1"
  proof -
    show "B = b + (B div 2 ^ 31) * 2 ^ 31" using mod_div_mult_eq [of B "2 ^ 31"] by (simp add: b_def)
    have "0 \<le> B div 2 ^ 31" using assms(1) by (simp add: pos_imp_zdiv_nonneg_iff)
    moreover have "B div 2 ^ 31 < 2"
    proof (rule ccontr)
      assume "\<not> B div 2 ^ 31 < 2"
      then have "2 * 2 ^ 31 \<le> B" by (intro le_div_mult) auto
      then show False using assms(2) by simp
    qed
    ultimately show "B div 2 ^ 31 = 0 \<or> B div 2 ^ 31 = 1" by auto
  qed
  show ?thesis
  proof (cases "odd (B div 2 ^ 31)")
    case False
    then have "B = b" using dv by auto
    then show ?thesis using False h by simp
  next
    case True
    then have B: "B = b + 2 ^ 31" using dv by auto
    let ?p = "sint x * b"
    have lo: "sint (smull_lo x y) < 0 \<longleftrightarrow> 2 ^ 31 \<le> ?p mod 2 ^ 32"
    proof -
      have u: "uint (smull_lo x y) = ?p mod 2 ^ 32"
        by (simp only: smull_values(1) yb uint_word_of_int len_of_numeral_defs) simp
      show ?thesis using uint_of_sint [of "smull_lo x y"] sint_ge_m31 [of "smull_lo x y"] sint_lt_31 [of "smull_lo x y"]
        unfolding u by (auto split: if_splits)
    qed
    have c: "x AND drop_bit 31 (smull_lo x y) = (if odd (sint x) \<and> 2 ^ 31 \<le> ?p mod 2 ^ 32 then 1 else 0)"
    proof (cases "2 ^ 31 \<le> ?p mod 2 ^ 32")
      case True
      then have "drop_bit 31 (smull_lo x y) = 1" using lo by (simp add: drop_bit_31)
      moreover have "odd x = odd (sint x)"
        unfolding bit_0 [symmetric] by (simp only: bit_sint_iff) simp
      then have "x AND 1 = of_bool (odd (sint x))" by (simp add: and_one_eq mod_2_eq_odd)
      ultimately show ?thesis using True by simp
    next
      case False
      then have "drop_bit 31 (smull_lo x y) = 0" using lo by (simp add: drop_bit_31)
      then show ?thesis using False by simp
    qed
    let ?i = "?p div 2 ^ 32 + sint x div 2 + (if odd (sint x) \<and> 2 ^ 31 \<le> ?p mod 2 ^ 32 then 1 else 0)"
    have i: "sint x * B div 2 ^ 32 = ?i" using hi_carry [OF b, of x] by (simp add: B)
    have "h + signed_drop_bit 1 x + (x AND drop_bit 31 (smull_lo x y)) = word_of_int ?i"
    proof -
      have "h = word_of_int (?p div 2 ^ 32)" by (rule word_of_int_eqI [OF h])
      moreover have "signed_drop_bit 1 x = word_of_int (sint x div 2)"
        by (rule word_of_int_eqI) (simp add: sint_signed_drop_bit)
      ultimately show ?thesis by (simp add: c)
    qed
    moreover have "- (2 ^ 31) \<le> ?i" "?i < 2 ^ 31"
      unfolding i [symmetric] by (rule hi_bounds [OF assms(1,2)])+
    ultimately have v: "sint (h + signed_drop_bit 1 x + (x AND drop_bit 31 (smull_lo x y))) = ?i"
      by (simp only: sint_w32_of_int)
    show ?thesis unfolding if_P [OF True] i by (rule v)
  qed
qed

text \<open>The last two instructions: shift, and add the sign.\<close>

lemma shift_and_sign:
  fixes h :: w32
  assumes "sint h = n" and "s < 32"
  shows "signed_drop_bit s h + drop_bit 31 h = word_of_int (n div 2 ^ s + (if n < 0 then 1 else 0))"
proof -
  have "signed_drop_bit s h = word_of_int (n div 2 ^ s)"
    by (rule word_of_int_eqI) (simp add: sint_signed_drop_bit assms(1))
  then show ?thesis using assms by (simp add: drop_bit_31)
qed

lemma div_seq_run:
  assumes "1 < sint v" and "\<not> is_pow2 v" and "a_ctl s = Fall"
    and "x \<noteq> lo_reg" and "x \<noteq> hi_reg" and "dst \<noteq> lo_reg" and "dst \<noteq> hi_reg"
  shows "\<exists>t. arm_run env (div_seq dst x v) s = Some t \<and>
    same_but {lo_reg, hi_reg} (set_reg dst (sdiv32 (a_reg s x) v) s) t"
proof -
  obtain B n where d: "div_opt v = (B, n)" by (cases "div_opt v")
  have g: "good_magic (sint v) B n" using div_opt_magic [OF assms(1) not_pow2 [OF assms(2)]] d by simp
  then have B: "0 < B" "B < 2 ^ 32" and n: "n < 31" by (auto simp: good_magic_def)
  define a where "a = a_reg s x"
  define y where "y = (word_of_int B AND 0x7FFFFFFF :: w32)"
  define h where "h = (if odd (B div 2 ^ 31)
    then smull_hi a y + signed_drop_bit 1 a + (a AND drop_bit 31 (smull_lo a y)) else smull_hi a y)"
  have h: "sint h = sint a * B div 2 ^ 32" unfolding h_def y_def by (rule hi_word [OF B])
  have neg: "(sint a * B div 2 ^ 32 < 0) = (sint a < 0)"
    using B(1) by (simp add: neg_imp_zdiv_neg_iff pos_imp_zdiv_neg_iff mult_less_0_iff)
  have "0 < sint v" using assms(1) by simp
  note quot = magic_quot [OF g this sint_ge_m31 [of a] sint_lt_31 [of a]]
  have "signed_drop_bit n h + drop_bit 31 h = word_of_int (c_quot (sint a) (sint v))"
    using shift_and_sign [OF h, of n] n unfolding neg quot by simp
  moreover have "v \<noteq> 0" using assms(1) by auto
  ultimately have q: "signed_drop_bit n h + drop_bit 31 h = sdiv32 a v" by (simp add: sdiv32_def)
  have un: "unat (of_nat n :: w32) = n" using n by (simp add: unat_of_nat)
  have lh: "lo_reg \<noteq> hi_reg" by (simp add: lo_reg_def hi_reg_def)
  obtain t where t: "arm_run env (div_seq dst x v) s = Some t"
    "a_reg t dst = signed_drop_bit n h + drop_bit 31 h"
    "\<forall>r. r \<noteq> dst \<longrightarrow> r \<noteq> lo_reg \<longrightarrow> r \<noteq> hi_reg \<longrightarrow> a_reg t r = a_reg s r"
    "t = s\<lparr>a_reg := a_reg t\<rparr>"
  proof (cases "odd (B div 2 ^ 31)")
    case True
    then show ?thesis
      using assms(3-7) lh that
      by (auto simp: div_seq_def d run_list_append load_imm_run arm_run_always un h_def no_shift_def
          set_reg_def y_def [symmetric] a_def)
  next
    case False
    then show ?thesis
      using assms(3-7) lh that
      by (auto simp: div_seq_def d run_list_append load_imm_run arm_run_always un h_def no_shift_def
          set_reg_def y_def [symmetric] a_def)
  qed
  have "same_but {lo_reg, hi_reg} (set_reg dst (sdiv32 (a_reg s x) v) s) t"
    using t(2-4) by (cases s; cases t) (auto simp: same_but_def set_reg_def q a_def)
  with t(1) show ?thesis by blast
qed

section \<open>One rewritten instruction\<close>

definition scratch :: "areg set" where "scratch = {lo_reg, hi_reg}"

text \<open>What the rewriting takes for granted about the instruction it replaces: the code before
  allocation is in SSA form, so a quotient is not written over an operand.\<close>

definition merge_shape :: "iop \<Rightarrow> bool" where
  "merge_shape x =
     (set (op_def_reg x) \<inter> scratch = {} \<and>
      (case x of
         RegRegCmp c l r \<Rightarrow> c = Cmp
       | RegRegInst c d l r sh \<Rightarrow> (c = RDiv \<longrightarrow> d \<noteq> l) \<and> (c = RMod \<longrightarrow> d \<noteq> l \<and> d \<noteq> r)
       | _ \<Rightarrow> True))"

definition const_ok :: "const_regs \<Rightarrow> arm_state \<Rightarrow> bool" where
  "const_ok cs s = (\<forall>r v. cs r = Some v \<longrightarrow> a_reg s r = v)"

lemma sless_1 [simp]: "(1 <s (v :: w32)) = (1 < sint v)"
  by (simp add: word_sless_alt)

lemma sless_0 [simp]: "(0 <s (v :: w32)) = (0 < sint v)"
  by (simp add: word_sless_alt)

lemma same_but_fields:
  assumes "same_but R s t"
  shows "a_ctl t = a_ctl s" and "a_mem t = a_mem s" and "a_flags t = a_flags s" and "a_base t = a_base s"
    and "a_simd t = a_simd s" and "r \<notin> R \<Longrightarrow> a_reg t r = a_reg s r"
proof -
  have e: "t = s\<lparr>a_reg := a_reg t\<rparr>" and r: "r \<notin> R \<Longrightarrow> a_reg t r = a_reg s r" using assms by (auto simp: same_but_def)
  show "a_ctl t = a_ctl s" "a_mem t = a_mem s" "a_flags t = a_flags s" "a_base t = a_base s"
    "a_simd t = a_simd s" by (subst e, simp)+
  show "r \<notin> R \<Longrightarrow> a_reg t r = a_reg s r" by (rule r)
qed

lemma merge_div_run:
  assumes "merge_div dst lhs v = Some is" and "a_ctl s = Fall" and "dst \<noteq> lhs"
    and "dst \<notin> scratch" and "lhs \<notin> scratch"
  shows "\<exists>t. arm_run env is s = Some t \<and> same_but scratch (set_reg dst (sdiv32 (a_reg s lhs) v) s) t"
proof (cases "is_pow2 v")
  case True
  then have "1 < sint v" "is = always (pow2_bias dst lhs v @ [RegImmInst IAsr dst dst (of_nat (ctz v))])"
    using assms(1) by (auto simp: merge_div_def split: if_splits)
  then show ?thesis using pow2_div_run [OF True _ assms(2)] assms(3) by simp
next
  case False
  then have "1 < sint v" "is = div_seq dst lhs v"
    using assms(1) by (auto simp: merge_div_def split: if_splits)
  then show ?thesis using div_seq_run [OF _ False assms(2)] assms(4,5) by (simp add: scratch_def)
qed

lemma merge_mod_run:
  assumes "merge_mod dst lhs rhs v = Some is" and "a_ctl s = Fall" and "dst \<noteq> lhs" and "dst \<noteq> rhs"
    and "a_reg s rhs = v" and "dst \<notin> scratch" and "lhs \<notin> scratch" and "rhs \<notin> scratch"
  shows "\<exists>t. arm_run env is s = Some t \<and>
    same_but scratch (set_reg dst (a_reg s lhs - sdiv32 (a_reg s lhs) v * v) s) t"
proof (cases "is_pow2 v")
  case True
  have pos: "1 < sint v" using assms(1) by (auto simp: merge_mod_def split: if_splits)
  note eq = assms(1) [unfolded merge_mod_def sless_1 if_P [OF conjI [OF pos True]] option.inject, symmetric]
  show ?thesis
    unfolding eq using pow2_mod_run [OF True pos assms(2,3)] by simp
next
  case False
  then have pos: "1 < sint v" and eq: "is = div_seq dst lhs v @ always [MLInst Mls dst dst rhs lhs]"
    using assms(1) by (auto simp: merge_mod_def split: if_splits)
  let ?q = "sdiv32 (a_reg s lhs) v"
  obtain t where t: "arm_run env (div_seq dst lhs v) s = Some t"
    and b: "same_but scratch (set_reg dst ?q s) t"
    using div_seq_run [OF pos False assms(2), of lhs dst env] assms(6,7) unfolding scratch_def by blast
  have c: "a_ctl t = Fall" using same_but_fields(1) [OF b] assms(2) by simp
  have r: "a_reg t dst = ?q" "a_reg t lhs = a_reg s lhs" "a_reg t rhs = v"
    using same_but_fields(6) [OF b] assms(3-8) by simp_all
  have "arm_run env is s = Some (set_reg dst (a_reg s lhs - ?q * v) t)"
    using t c r by (simp add: eq run_list_append arm_run_always)
  moreover have "same_but scratch (set_reg dst (a_reg s lhs - ?q * v) s) (set_reg dst (a_reg s lhs - ?q * v) t)"
    using same_but_set_both [OF b, of dst] by simp
  ultimately show ?thesis by blast
qed

lemma merge_rr_run:
  assumes "merge_rr op dst lhs rhs v = Some is" and "a_ctl s = Fall" and "a_reg s rhs = v"
    and "merge_shape (RegRegInst op dst lhs rhs sh)" and "lhs \<notin> scratch" and "rhs \<notin> scratch"
  shows "\<exists>t. arm_run env is s = Some t \<and> same_but scratch (set_reg dst (rr_value op (a_reg s lhs) v) s) t"
proof (cases op)
  case RMul
  then show ?thesis using merge_mul_run [OF _ assms(2)] assms(1) by (auto simp: merge_rr_def)
next
  case RDiv
  then show ?thesis using merge_div_run [OF _ assms(2)] assms by (simp add: merge_rr_def merge_shape_def)
next
  case RMod
  then show ?thesis using merge_mod_run [OF _ assms(2) _ _ assms(3)] assms by (simp add: merge_rr_def merge_shape_def)
qed (use assms(1,2) in \<open>auto simp: merge_rr_def arm_run_always split: if_splits\<close>)

lemma merge_ml_run:
  assumes "merge_ml cs op dst s1 s2 s3 = Some is" and "a_ctl s = Fall" and "const_ok cs s"
  shows "arm_run env is s =
    Some (set_reg dst (case op of Mla \<Rightarrow> a_reg s s1 * a_reg s s2 + a_reg s s3
                                | Mls \<Rightarrow> a_reg s s3 - a_reg s s1 * a_reg s s2) s)"
proof -
  obtain a b v where ab: "(a, b) = (s1, s2) \<or> (a, b) = (s2, s1)" and v: "cs b = Some v" "0 < sint v" "is_pow2 v"
    and eq: "is = always [RegRegInst (case op of Mla \<Rightarrow> RAdd | Mls \<Rightarrow> RSub) dst s3 a (Shift LSL (ctz v))]"
    using assms(1) by (auto simp: merge_ml_def Let_def split: option.splits if_splits)
  have "v = 2 ^ ctz v" using is_pow2_imp [OF v(3,2)] by simp
  then have p: "push_bit (ctz v) x = x * v" for x :: w32
    by (metis push_bit_eq_mult)
  have "a_reg s b = v" using assms(3) v(1) by (simp add: const_ok_def)
  then have m: "push_bit (ctz v) (a_reg s a) = a_reg s s1 * a_reg s s2"
    using ab p by (auto simp: mult.commute)
  show ?thesis using assms(2) by (cases op) (simp_all add: eq arm_run_always m add.commute)
qed

lemma merge_op_run:
  assumes "merge_op cs x = Some is" and "a_ctl s = Fall" and "const_ok cs s" and "merge_shape x"
    and "set (op_use_reg Always x) \<inter> scratch = {}"
  shows "\<exists>u t. exec_op env x s = Some u \<and> arm_run env is s = Some t \<and> same_but scratch u t"
proof (cases x)
  case (RegRegCmp c l r)
  with assms obtain v where "cs r = Some v" "is = always [RegImmCmp Cmp l v]" "c = Cmp"
    by (auto simp: merge_op_def merge_shape_def split: option.splits if_splits)
  then show ?thesis using assms(2,3) RegRegCmp by (auto simp: arm_run_always const_ok_def)
next
  case (RegRegInst op d l r sh)
  with assms obtain v where v: "cs r = Some v" "merge_rr op d l r v = Some is" "shift_w sh = 0"
    by (auto simp: merge_op_def split: option.splits if_splits)
  have rv: "a_reg s r = v" using assms(3) v(1) by (simp add: const_ok_def)
  obtain k where "sh = Shift k 0" using v(3) by (cases sh) auto
  then have "apply_shift sh y = y" for y 
    by (cases k) (auto intro!: bit_word_eqI simp: bit_word_rotr_iff)
  then show ?thesis
    using merge_rr_run [OF v(2) assms(2) rv, of sh env] assms(4,5) RegRegInst rv by simp
next
  case (MLInst op d s1 s2 s3)
  then show ?thesis using merge_ml_run [OF _ assms(2,3)] assms(1) by (simp add: merge_op_def)
qed (use assms(1) in \<open>auto simp: merge_op_def\<close>)

section \<open>Whole blocks\<close>

text \<open>Agreement outside the scratch registers, with the constant registers holding their
  constants as long as control is in the block.\<close>

definition merge_sim :: "const_regs \<Rightarrow> arm_state \<Rightarrow> arm_state \<Rightarrow> bool" where
  "merge_sim cs s t =
     (arm_same_env s t \<and> a_flags s = a_flags t \<and> (\<forall>r. r \<notin> scratch \<longrightarrow> a_reg s r = a_reg t r) \<and>
      (a_ctl s = Fall \<longrightarrow> const_ok cs s))"

definition const_regs_ok :: "const_regs \<Rightarrow> bool" where
  "const_regs_ok cs = (\<forall>r \<in> dom cs. tracked r \<and> r \<notin> scratch)"

definition merge_ok :: "arm_env \<Rightarrow> const_regs \<Rightarrow> inst \<Rightarrow> bool" where
  "merge_ok env cs i =
     (exact env i \<and> const_regs_ok cs \<and> set (use_reg i) \<inter> scratch = {} \<and>
      list_all (\<lambda>r. cs r = None) (def_reg i) \<and>
      (merge_op cs (i_op i) = None \<or> i_cond i = Always \<and> merge_shape (i_op i)))"

lemma scratch_tracked: "r \<in> scratch \<Longrightarrow> tracked r"
  by (auto simp: scratch_def lo_reg_def hi_reg_def tracked_def is_pseudo_def is_allocable_def int_count_def
      usage_allocable_def int_register_usage_def)

lemma same_but_scratch_sim:
  assumes "merge_sim cs s t" and "same_but scratch t u"
  shows "merge_sim cs s u"
proof -
  have "a_reg u r = a_reg t r" if "\<not> tracked r" for r
    using that scratch_tracked same_but_fields(6) [OF assms(2)] by blast
  then show ?thesis
    using assms(1) same_but_fields [OF assms(2)] unfolding merge_sim_def arm_same_env_def by auto
qed

lemma const_ok_sim:
  assumes "merge_sim cs s t" and "const_regs_ok cs" and "a_ctl s = Fall"
  shows "const_ok cs t"
  using assms by (fastforce simp: merge_sim_def const_ok_def const_regs_ok_def dom_def)

lemma keep_sim:
  assumes ok: "exact env i" "const_regs_ok cs" "set (use_reg i) \<inter> scratch = {}" "list_all (\<lambda>r. cs r = None) (def_reg i)"
    and sim: "merge_sim cs s t" and ctl: "a_ctl s = Fall" and st: "arm_step env i s = Some s'"
  shows "\<exists>t'. arm_step env i t = Some t' \<and> merge_sim cs s' t'"
proof -
  have b: "body_step env i s = Some s'" and ct: "a_ctl t = Fall"
    using ctl st sim by (auto simp: body_step_def merge_sim_def arm_same_env_def)
  have "\<forall>l \<in> inst_uses i. loc_agree l s t"
    using ok(3) sim by (auto simp: inst_uses_def merge_sim_def split: if_splits)
  from body_step_local [OF ok(1) this _ b] sim obtain t' where t': "body_step env i t = Some t'" "arm_same_env s' t'"
    and l: "\<forall>l \<in> inst_defs i. loc_agree l s' t'" "\<forall>l. l \<notin> inst_defs i \<longrightarrow> loc_agree l s t \<longrightarrow> loc_agree l s' t'"
    by (auto simp: merge_sim_def)
  have a: "loc_agree l s' t'" if "loc_agree l s t" for l using l that by blast
  have "const_ok cs s'"
    unfolding const_ok_def
  proof (intro allI impI)
    fix r v assume r: "cs r = Some v"
    then have "r \<notin> set (def_reg i)" using ok(4) by (auto simp: list_all_iff)
    moreover have "tracked r" using r ok(2) by (auto simp: const_regs_ok_def)
    ultimately have "a_reg s' r = a_reg s r" by (rule body_step_frame [OF ok(1) b])
    then show "a_reg s' r = v" using sim ctl r by (simp add: merge_sim_def const_ok_def)
  qed
  moreover have "a_flags s' = a_flags t'" using a [of LFlags] sim by (simp add: merge_sim_def)
  moreover have "\<forall>r. r \<notin> scratch \<longrightarrow> a_reg s' r = a_reg t' r" using a [of "LReg r" for r] sim by (simp add: merge_sim_def)
  ultimately show ?thesis
    using t' ct by (auto simp: merge_sim_def body_step_def)
qed

lemma merge_inst_step:
  assumes ok: "merge_ok env cs i" and sim: "merge_sim cs s t" and st: "arm_step env i s = Some s'"
  shows "\<exists>t'. arm_run env (merge_inst cs i) t = Some t' \<and> merge_sim cs s' t'"
proof (cases "a_ctl s = Fall")
  case False
  then have "s' = s" "a_ctl t \<noteq> Fall" using st sim by (auto simp: arm_step_def merge_sim_def arm_same_env_def)
  then show ?thesis using arm_run_left sim by blast
next
  case True
  from ok have "exact env i" "const_regs_ok cs" "set (use_reg i) \<inter> scratch = {}" "list_all (\<lambda>r. cs r = None) (def_reg i)"
    by (auto simp: merge_ok_def)
  from keep_sim [OF this sim True st] obtain t1 where t1: "arm_step env i t = Some t1" "merge_sim cs s' t1" by blast
  show ?thesis
  proof (cases "merge_op cs (i_op i)")
    case None
    then show ?thesis using t1 by (simp add: merge_inst_def)
  next
    case (Some "is")
    with ok have c: "i_cond i = Always" and sh: "merge_shape (i_op i)"
      and u: "set (op_use_reg Always (i_op i)) \<inter> scratch = {}" by (auto simp: merge_ok_def use_reg_def)
    have ct: "a_ctl t = Fall" using True sim by (simp add: merge_sim_def arm_same_env_def)
    have "const_ok cs t" by (rule const_ok_sim [OF sim _ True]) (use ok in \<open>simp add: merge_ok_def\<close>)
    from merge_op_run [OF Some ct this sh u] obtain w t' where
      "exec_op env (i_op i) t = Some w" "arm_run env is t = Some t'" "same_but scratch w t'" by blast
    moreover have "w = t1" using calculation(1) t1(1) c ct by (simp add: arm_step_def)
    ultimately show ?thesis using Some same_but_scratch_sim [OF t1(2)] by (auto simp: merge_inst_def)
  qed
qed

interpretation merge: local_rewriting "arm_step env" "arm_step env" "merge_inst cs" "merge_ok env cs" "merge_sim cs"
  for env cs
  by unfold_locales (rule merge_inst_step)

end
