(* ===== verification/ArmFlow.thy ===== *)
theory ArmFlow
  imports ArmDefUse
begin

text \<open>
  The blocks of a function of the back end (\<open>src/arm/block.hpp\<close>, \<open>src/arm/program.cpp\<close>): their
  instructions and edges, how control passes between them, and \<open>Func::get_in_deg\<close>. The run
  of a function is the machine's: a block that falls through goes on with the next one.
\<close>

section \<open>Blocks and control flow\<close>

text \<open>A block: its identity (the \<open>Block*\<close>), its instructions and its \<open>in_edge\<close>.\<close>

record flow_block =
  fb_id :: blk
  fb_insts :: "inst list"
  fb_in :: "blk list"

fun is_jump :: "iop \<Rightarrow> bool" where
  "is_jump (Branch b) = True"
| "is_jump (Return t) = True"
| "is_jump _ = False"

text \<open>\<open>go_next\<close> of \<open>get_in_deg\<close>: no unconditional branch and no return.\<close>

fun falls_through :: "inst list \<Rightarrow> bool" where
  "falls_through [] = True"
| "falls_through (i # is) =
     (case i_op i of
        Branch b \<Rightarrow> (i_cond i \<noteq> Always \<and> falls_through is)
      | Return t \<Rightarrow> False
      | _ \<Rightarrow> falls_through is)"

fun branch_targets :: "inst list \<Rightarrow> blk list" where
  "branch_targets [] = []"
| "branch_targets (i # is) = (case i_op i of Branch b \<Rightarrow> [b] | _ \<Rightarrow> []) @ branch_targets is"

text \<open>\<open>Func::get_in_deg\<close>: how often each block is a target or the next block; the entry counts
  one. \<open>None\<close> is its assertion that the last block does not fall through.\<close>

fun deg_loop :: "flow_block list \<Rightarrow> (blk \<Rightarrow> nat) \<Rightarrow> (blk \<Rightarrow> nat) option" where
  "deg_loop [] d = Some d"
| "deg_loop (b # bs) d =
     (let d1 = foldl (\<lambda>d t. d(t := d t + 1)) d (branch_targets (fb_insts b)) in
      if falls_through (fb_insts b)
      then (case bs of [] \<Rightarrow> None | c # _ \<Rightarrow> deg_loop bs (d1(fb_id c := d1 (fb_id c) + 1)))
      else deg_loop bs d1)"

definition get_in_deg :: "flow_block list \<Rightarrow> (blk \<Rightarrow> nat) option" where
  "get_in_deg bs = (case bs of [] \<Rightarrow> None | b # _ \<Rightarrow> deg_loop bs ((\<lambda>_. 0)(fb_id b := 1)))"

section \<open>Runs of a function\<close>

text \<open>A function as its sequence of labelled blocks; the second argument is what is left of the
  sequence at the block to run. \<open>None\<close>: an instruction that is not defined, a missing target, the end
  of the function reached by falling through, or no fuel.\<close>

type_synonym flow = "(blk \<times> inst list) list"

definition flow_from :: "flow \<Rightarrow> blk \<Rightarrow> flow" where
  "flow_from p b = dropWhile (\<lambda>x. fst x \<noteq> b) p"

fun flow_run :: "arm_env \<Rightarrow> flow \<Rightarrow> nat \<Rightarrow> flow \<Rightarrow> arm_state \<Rightarrow> arm_state option" where
  "flow_run env p 0 xs s = None"
| "flow_run env p (Suc n) [] s = None"
| "flow_run env p (Suc n) ((b, is) # xs) s =
     (case arm_run env is s of
        None \<Rightarrow> None
      | Some s' \<Rightarrow>
          (case a_ctl s' of
             Fall \<Rightarrow> flow_run env p n xs s'
           | Goto t \<Rightarrow> flow_run env p n (flow_from p t) (s'\<lparr>a_ctl := Fall\<rparr>)
           | Returned \<Rightarrow> Some s'))"

definition flow_of :: "flow_block list \<Rightarrow> flow" where
  "flow_of bs = map (\<lambda>b. (fb_id b, fb_insts b)) bs"

text \<open>More fuel never changes the outcome.\<close>

lemma flow_run_more: "flow_run env p n xs s = Some s' \<Longrightarrow> n \<le> m \<Longrightarrow> flow_run env p m xs s = Some s'"
proof (induction n arbitrary: xs s m)
  case (Suc n)
  obtain k where m: "m = Suc k" "n \<le> k" using Suc.prems(2) by (cases m) auto
  show ?case
  proof (cases xs)
    case (Cons x ys)
    then show ?thesis
      using Suc.prems(1) Suc.IH [OF _ m(2)] by (cases x) (auto simp: m split: option.splits control.splits)
  qed (use Suc.prems in simp)
qed simp

section \<open>The shape of blocks and edges\<close>

text \<open>Jumps stand at the end of a block, and a return is unconditional.\<close>

fun jump_tail :: "inst list \<Rightarrow> bool" where
  "jump_tail [] = True"
| "jump_tail (i # is) = (if is_jump (i_op i) then list_all (\<lambda>i. is_jump (i_op i)) is else jump_tail is)"

definition plain_return :: "inst \<Rightarrow> bool" where
  "plain_return i = (case i_op i of Return t \<Rightarrow> i_cond i = Always | _ \<Rightarrow> True)"

text \<open>\<open>in_edge\<close> holds every block control can come from.\<close>

fun fall_edges :: "flow_block list \<Rightarrow> bool" where
  "fall_edges (b # c # bs) = ((falls_through (fb_insts b) \<longrightarrow> fb_id b \<in> set (fb_in c)) \<and> fall_edges (c # bs))"
| "fall_edges _ = True"

definition block_at :: "flow_block list \<Rightarrow> blk \<Rightarrow> flow_block" where
  "block_at bs i = (case find (\<lambda>b. fb_id b = i) bs of Some b \<Rightarrow> b | None \<Rightarrow> \<lparr>fb_id = i, fb_insts = [], fb_in = []\<rparr>)"

definition branch_edges :: "flow_block list \<Rightarrow> bool" where
  "branch_edges bs =
     list_all (\<lambda>b. list_all (\<lambda>t. fb_id b \<in> set (fb_in (block_at bs t))) (branch_targets (fb_insts b))) bs"

text \<open>The blocks of a function are distinct, and every predecessor is one of them.\<close>

definition edges_ok :: "flow_block list \<Rightarrow> bool" where
  "edges_ok bs = (distinct (map fb_id bs) \<and> list_all (\<lambda>b. list_all (\<lambda>p. p \<in> fb_id ` set bs) (fb_in b)) bs)"

lemma block_at_in: "edges_ok bs \<Longrightarrow> b \<in> set bs \<Longrightarrow> block_at bs (fb_id b) = b"
proof -
  assume e: "edges_ok bs" and b: "b \<in> set bs"
  then have "find (\<lambda>c. fb_id c = fb_id b) bs \<noteq> None" by (auto simp: find_None_iff)
  then obtain c where c: "find (\<lambda>c. fb_id c = fb_id b) bs = Some c" by blast
  then have "c \<in> set bs" "fb_id c = fb_id b" by (auto simp: find_Some_iff)
  moreover have "inj_on fb_id (set bs)" using e by (simp add: edges_ok_def distinct_map)
  ultimately show "block_at bs (fb_id b) = b" using b by (simp add: block_at_def c inj_on_def)
qed

lemma block_at_out: "i \<notin> fb_id ` set bs \<Longrightarrow> block_at bs i = \<lparr>fb_id = i, fb_insts = [], fb_in = []\<rparr>"
  by (auto simp: block_at_def find_None_iff split: option.splits dest!: find_Some_iff [THEN iffD1])

text \<open>A run that does not leave the block by a jump falls through it: callees return.\<close>

definition calls_return :: "arm_env \<Rightarrow> bool" where
  "calls_return env =
     (\<forall>f ni nf s s'. ae_call env f ni nf s = Some s' \<longrightarrow> a_ctl s = Fall \<longrightarrow> a_ctl s' = Fall)"

definition call_ok :: "arm_env \<Rightarrow> inst \<Rightarrow> bool" where
  "call_ok env i = (case i_op i of FuncCall f ni nf \<Rightarrow> calls_return env | _ \<Rightarrow> True)"

lemma exact_call_ok: "exact env i \<Longrightarrow> call_ok env i"
proof (cases "i_op i")
  case (FuncCall f ni nf)
  assume "exact env i"
  then have "call_contract env" using FuncCall by (simp add: exact_def)
  then have "calls_return env"
    unfolding calls_return_def call_contract_def using arm_same_env_refl by blast
  then show ?thesis by (simp add: call_ok_def FuncCall)
qed (simp_all add: call_ok_def)

lemma write_word_ctl: "write_word a v u = Some u' \<Longrightarrow> a_ctl u' = a_ctl u"
  by (auto simp: write_word_def split: if_splits)

lemma push_regs_ctl: "push_regs rs u = Some u' \<Longrightarrow> a_ctl u' = a_ctl u"
  by (induction rs arbitrary: u) (auto split: option.splits dest: write_word_ctl)

lemma simd_ctl: "simd_exec src ty rs s = Some s' \<Longrightarrow> a_ctl s' = a_ctl s"
proof -
  assume e: "simd_exec src ty rs s = Some s'"
  have l: "vldm_lanes q a is u = Some u' \<Longrightarrow> a_ctl u' = a_ctl u" for q a "is" u u'
    by (induction "is" arbitrary: u) (fastforce split: option.splits)+
  have v: "vstm_lanes q a is u = Some u' \<Longrightarrow> a_ctl u' = a_ctl u" for q a "is" u u'
    by (induction "is" arbitrary: u) (fastforce split: option.splits dest: write_word_ctl)+
  show ?thesis
    using e
    by (cases ty) (auto simp: simd_exec_def Let_def simp del: vldm_lanes.simps vstm_lanes.simps
        split: option.splits list.splits if_splits dest!: l v)
qed

lemma exec_op_ctl:
  assumes "call_ok env (Inst c x)" and "\<not> is_jump x" and "exec_op env x s = Some s'" and "a_ctl s = Fall"
  shows "a_ctl s' = Fall"
proof (cases "single_dst x")
  case True
  then show ?thesis using assms(3,4) by (auto simp: exec_single(1) [OF True])
next
  case False
  show ?thesis
  proof (cases x)
    case (SIMD src ty rs n)
    then show ?thesis using assms(3,4) simd_ctl by simp
  next
    case (FuncCall f ni nf)
    then show ?thesis using assms by (auto simp: call_ok_def calls_return_def)
  next
    case (FRegInst y d r)
    then show ?thesis using assms(3,4) by (auto simp: clobber_d8_def split: if_splits)
  qed (use assms False in \<open>auto simp: single_dst_def dest: write_word_ctl push_regs_ctl\<close>)
qed

lemma skip_op_ctl [simp]: "a_ctl (skip_op x s) = a_ctl s"
  by (simp add: skip_op_def split: iop.split)

lemma arm_step_ctl:
  assumes "call_ok env i" and "\<not> is_jump (i_op i)" and "arm_step env i s = Some s'" and "a_ctl s = Fall"
  shows "a_ctl s' = Fall"
  using assms exec_op_ctl [of env "i_cond i" "i_op i" s s'] by (auto simp: arm_step_def split: if_splits)

text \<open>How a block is left.\<close>

lemma run_exit:
  assumes "list_all (call_ok env) is" and "list_all plain_return is" and "a_ctl s = Fall"
    and "arm_run env is s = Some s'"
  shows "(\<forall>t. a_ctl s' = Goto t \<longrightarrow> t \<in> set (branch_targets is)) \<and> (a_ctl s' = Fall \<longrightarrow> falls_through is)"
  using assms
proof (induction "is" arbitrary: s)
  case (Cons i "is")
  obtain s1 where s1: "arm_step env i s = Some s1" "arm_run env is s1 = Some s'"
    using Cons.prems(4) by (auto split: option.splits)
  have ih: "a_ctl s1 = Fall \<Longrightarrow> (\<forall>t. a_ctl s' = Goto t \<longrightarrow> t \<in> set (branch_targets is)) \<and>
      (a_ctl s' = Fall \<longrightarrow> falls_through is)"
    using Cons.IH [of s1] Cons.prems s1(2) by simp
  have left: "a_ctl s1 \<noteq> Fall \<Longrightarrow> s' = s1" using s1(2) by (simp add: arm_run_left)
  show ?case
  proof (cases "is_jump (i_op i)")
    case False
    then have "a_ctl s1 = Fall" using arm_step_ctl [of env i s s1] Cons.prems s1(1) by simp
    with ih False show ?thesis by (cases "i_op i") auto
  next
    case True
    show ?thesis
    proof (cases "cond_holds (i_cond i) (a_flags s)")
      case holds: True
      have e: "exec_op env (i_op i) s = Some s1" using s1(1) holds Cons.prems(3) by (simp add: arm_step_def)
      then have "a_ctl s1 \<noteq> Fall" using True by (cases "i_op i") auto
      then show ?thesis using left e True by (cases "i_op i") auto
    next
      case False
      then have c: "i_cond i \<noteq> Always" "s1 = s"
        using s1(1) Cons.prems(3) True by (cases "i_op i"; auto simp: arm_step_def skip_op_def)+
      then show ?thesis
        using ih True Cons.prems(2,3) by (cases "i_op i") (auto simp: plain_return_def)
    qed
  qed
qed simp

lemma flow_from_of: "flow_from (flow_of bs) t = flow_of (dropWhile (\<lambda>b. fb_id b \<noteq> t) bs)"
  by (induction bs) (auto simp: flow_from_def flow_of_def)

lemma fall_edges_append: "fall_edges (ys @ xs) \<Longrightarrow> fall_edges xs"
proof (induction ys)
  case (Cons y ys)
  then have "fall_edges (ys @ xs)" by (cases "ys @ xs") auto
  then show ?case by (rule Cons.IH)
qed simp

end
