(* ===== verification/Liveness.thy ===== *)
theory Liveness
  imports ArmFlow
begin

text \<open>
  Liveness of registers (\<open>Func::calc_live\<close> of \<open>src/arm/program.cpp\<close>): the worklist ends, with the
  least solution of the liveness equations.
\<close>

section \<open>Liveness\<close>

text \<open>\<open>live_use\<close> and \<open>def\<close> of a block, by the loop from the last instruction.\<close>

fun block_use_def :: "inst list \<Rightarrow> areg set \<times> areg set" where
  "block_use_def [] = ({}, {})"
| "block_use_def (i # is) =
     (let (us, ds) = block_use_def is;
          dr = {r \<in> set (def_reg i). tracked r};
          ur = {r \<in> set (use_reg i). tracked r}
      in ((us - dr) \<union> ur, (ds \<union> dr) - ur))"

definition live_use :: "flow_block \<Rightarrow> areg set" where "live_use b = fst (block_use_def (fb_insts b))"
definition live_def :: "flow_block \<Rightarrow> areg set" where "live_def b = snd (block_use_def (fb_insts b))"

type_synonym live_sets = "nat \<Rightarrow> areg set"
type_synonym live_state = "live_sets \<times> live_sets \<times> (nat \<times> areg) list"

text \<open>One entry of the queue: register \<open>r\<close> is live at the start of a block, and so at the end of
  each predecessor.\<close>

definition live_visit :: "live_sets \<Rightarrow> areg \<Rightarrow> nat \<Rightarrow> live_state \<Rightarrow> live_state" where
  "live_visit df r p st =
     (case st of (lin, lout, q) \<Rightarrow>
        if r \<notin> lout p then
          (if r \<notin> df p \<and> r \<notin> lin p
           then (lin(p := insert r (lin p)), lout(p := insert r (lout p)), q @ [(p, r)])
           else (lin, lout(p := insert r (lout p)), q))
        else (lin, lout, q))"

fun live_prop :: "live_sets \<Rightarrow> areg \<Rightarrow> nat list \<Rightarrow> live_state \<Rightarrow> live_state" where
  "live_prop df r [] st = st"
| "live_prop df r (p # ps) st = live_prop df r ps (live_visit df r p st)"

partial_function (option) live_loop ::
  "(nat \<Rightarrow> nat list) \<Rightarrow> live_sets \<Rightarrow> live_state \<Rightarrow> (live_sets \<times> live_sets) option" where
  "live_loop preds df st =
     (case st of
        (lin, lout, []) \<Rightarrow> Some (lin, lout)
      | (lin, lout, (b, r) # q) \<Rightarrow> live_loop preds df (live_prop df r (preds b) (lin, lout, q)))"

declare live_loop.simps [code]

definition use_of :: "flow_block list \<Rightarrow> live_sets" where "use_of bs i = live_use (block_at bs i)"
definition def_set_of :: "flow_block list \<Rightarrow> live_sets" where "def_set_of bs i = live_def (block_at bs i)"
definition preds_of :: "flow_block list \<Rightarrow> nat \<Rightarrow> nat list" where "preds_of bs i = fb_in (block_at bs i)"

definition init_queue :: "flow_block list \<Rightarrow> (nat \<times> areg) list" where
  "init_queue bs = concat (map (\<lambda>b. map (Pair (fb_id b)) (sorted_list_of_set (live_use b))) bs)"

definition calc_live :: "flow_block list \<Rightarrow> (live_sets \<times> live_sets) option" where
  "calc_live bs = live_loop (preds_of bs) (def_set_of bs) (use_of bs, (\<lambda>_. {}), init_queue bs)"

section \<open>The worklist\<close>

text \<open>What the gen and kill sets mean: the effect of a block on a live set.\<close>

lemma use_def_transfer:
  "foldr update_live is L = fst (block_use_def is) \<union> (L - snd (block_use_def is))"
  by (induction "is") (auto simp: update_live_def Let_def split: prod.splits)

lemma finite_use [simp]: "finite (fst (block_use_def is))"
  by (induction "is") (auto simp: Let_def split: prod.splits)

text \<open>The equations of the analysis: \<open>live_in = use \<union> (live_out - def)\<close>, and \<open>live_out\<close> is the
  union over the successors. \<open>live_closed\<close> is the half a solution need not exceed.\<close>

definition live_solution :: "live_sets \<Rightarrow> live_sets \<Rightarrow> (nat \<Rightarrow> nat list) \<Rightarrow> live_sets \<Rightarrow> live_sets \<Rightarrow> bool" where
  "live_solution us df preds lin lout =
     ((\<forall>b. lin b = us b \<union> (lout b - df b)) \<and> (\<forall>p. lout p = (\<Union>b \<in> {b. p \<in> set (preds b)}. lin b)))"

definition live_closed :: "live_sets \<Rightarrow> live_sets \<Rightarrow> (nat \<Rightarrow> nat list) \<Rightarrow> live_sets \<Rightarrow> live_sets \<Rightarrow> bool" where
  "live_closed us df preds Lin Lout =
     ((\<forall>b. us b \<union> (Lout b - df b) \<subseteq> Lin b) \<and> (\<forall>b. \<forall>p \<in> set (preds b). Lin b \<subseteq> Lout p))"

text \<open>The invariant of the worklist; \<open>ps\<close> are the predecessors of the entry \<open>(b0, r0)\<close> still to be
  visited.\<close>

definition live_inv ::
  "live_sets \<Rightarrow> live_sets \<Rightarrow> (nat \<Rightarrow> nat list) \<Rightarrow> nat \<Rightarrow> areg \<Rightarrow> nat list \<Rightarrow> live_state \<Rightarrow> bool" where
  "live_inv us df preds b0 r0 ps st =
     (case st of (lin, lout, q) \<Rightarrow>
        (\<forall>b. lin b = us b \<union> (lout b - df b)) \<and>
        (\<forall>b r. r \<in> lin b \<longrightarrow> (\<forall>p \<in> set (preds b). r \<in> lout p \<or> (b, r) \<in> set q \<or> b = b0 \<and> r = r0 \<and> p \<in> set ps)) \<and>
        (\<forall>p. lout p \<subseteq> (\<Union>b \<in> {b. p \<in> set (preds b)}. lin b)) \<and>
        (\<forall>(b, r) \<in> set q. r \<in> lin b) \<and> (ps = [] \<or> r0 \<in> lin b0) \<and> set ps \<subseteq> set (preds b0))"

lemma live_invI:
  assumes "\<And>b. lin b = us b \<union> (lout b - df b)"
    and "\<And>b r p. r \<in> lin b \<Longrightarrow> p \<in> set (preds b) \<Longrightarrow>
       r \<in> lout p \<or> (b, r) \<in> set q \<or> b = b0 \<and> r = r0 \<and> p \<in> set ps"
    and "\<And>p r. r \<in> lout p \<Longrightarrow> \<exists>b. p \<in> set (preds b) \<and> r \<in> lin b"
    and "\<And>b r. (b, r) \<in> set q \<Longrightarrow> r \<in> lin b"
    and "ps = [] \<or> r0 \<in> lin b0" and "set ps \<subseteq> set (preds b0)"
  shows "live_inv us df preds b0 r0 ps (lin, lout, q)"
proof -
  have "\<forall>p. lout p \<subseteq> (\<Union>b \<in> {b. p \<in> set (preds b)}. lin b)" using assms(3) by blast
  moreover have "\<forall>(b, r) \<in> set q. r \<in> lin b" using assms(4) by blast
  ultimately show ?thesis using assms(1,2,5,6) unfolding live_inv_def prod.case by blast
qed

lemma live_invD:
  assumes "live_inv us df preds b0 r0 ps (lin, lout, q)"
  shows "lin b = us b \<union> (lout b - df b)"
    and "r \<in> lin b \<Longrightarrow> p \<in> set (preds b) \<Longrightarrow> r \<in> lout p \<or> (b, r) \<in> set q \<or> b = b0 \<and> r = r0 \<and> p \<in> set ps"
    and "r \<in> lout p \<Longrightarrow> \<exists>b. p \<in> set (preds b) \<and> r \<in> lin b"
    and "(b, r) \<in> set q \<Longrightarrow> r \<in> lin b"
    and "ps = [] \<or> r0 \<in> lin b0" and "set ps \<subseteq> set (preds b0)"
proof -
  note i = assms [unfolded live_inv_def prod.case]
  show "lin b = us b \<union> (lout b - df b)" using i by blast
  show "r \<in> lin b \<Longrightarrow> p \<in> set (preds b) \<Longrightarrow> r \<in> lout p \<or> (b, r) \<in> set q \<or> b = b0 \<and> r = r0 \<and> p \<in> set ps"
    using i by blast
  show "r \<in> lout p \<Longrightarrow> \<exists>b. p \<in> set (preds b) \<and> r \<in> lin b" using i by blast
  show "(b, r) \<in> set q \<Longrightarrow> r \<in> lin b" using i by blast
  show "ps = [] \<or> r0 \<in> lin b0" "set ps \<subseteq> set (preds b0)" using i by blast+
qed

lemma live_visit_inv:
  assumes "live_inv us df preds b0 r (p # ps) st"
  shows "live_inv us df preds b0 r ps (live_visit df r p st)"
proof -
  obtain lin lout q where st: "st = (lin, lout, q)" by (cases st)
  note inv = live_invD [OF assms [unfolded st]]
  have r: "r \<in> lin b0" and p: "p \<in> set (preds b0)" using inv(5,6) by auto
  consider (a) "r \<in> lout p" | (b) "r \<notin> lout p" "r \<notin> df p" "r \<notin> lin p" | (c) "r \<notin> lout p" "r \<in> df p \<or> r \<in> lin p" by blast
  then show ?thesis
  proof cases
    case a
    have "live_inv us df preds b0 r ps (lin, lout, q)"
    proof (rule live_invI)
      show "x \<in> lin b \<Longrightarrow> p' \<in> set (preds b) \<Longrightarrow>
          x \<in> lout p' \<or> (b, x) \<in> set q \<or> b = b0 \<and> x = r \<and> p' \<in> set ps" for b x p'
        using inv(2) [of x b p'] a by (cases "p' = p") auto
      show "lin b = us b \<union> (lout b - df b)" for b by (rule inv(1))
    qed (use inv(3,4,6) r in simp_all)
    then show ?thesis using a by (simp add: st live_visit_def)
  next
    case b
    let ?lin = "lin(p := insert r (lin p))" and ?lout = "lout(p := insert r (lout p))"
    have "live_inv us df preds b0 r ps (?lin, ?lout, q @ [(p, r)])"
    proof (rule live_invI)
      show "?lin b = us b \<union> (?lout b - df b)" for b using inv(1) [of b] b by auto
      show "x \<in> ?lin b \<Longrightarrow> p' \<in> set (preds b) \<Longrightarrow>
          x \<in> ?lout p' \<or> (b, x) \<in> set (q @ [(p, r)]) \<or> b = b0 \<and> x = r \<and> p' \<in> set ps" for b x p'
        using inv(2) [of x b p'] by (auto split: if_splits)
      show "x \<in> ?lout p' \<Longrightarrow> \<exists>b. p' \<in> set (preds b) \<and> x \<in> ?lin b" for p' x
      proof (cases "x \<in> lout p'")
        case True
        then show ?thesis using inv(3) [of x p'] by fastforce
      next
        case False
        assume "x \<in> ?lout p'"
        with False have "x = r" "p' = p" by (auto split: if_splits)
        then show ?thesis using r p by (intro exI [of _ b0]) auto
      qed
    qed (use inv(4,6) r in auto)
    then show ?thesis using b by (simp add: st live_visit_def)
  next
    case c
    let ?lout = "lout(p := insert r (lout p))"
    have "live_inv us df preds b0 r ps (lin, ?lout, q)"
    proof (rule live_invI)
      show "lin b = us b \<union> (?lout b - df b)" for b using inv(1) [of b] c by auto
      show "x \<in> lin b \<Longrightarrow> p' \<in> set (preds b) \<Longrightarrow>
          x \<in> ?lout p' \<or> (b, x) \<in> set q \<or> b = b0 \<and> x = r \<and> p' \<in> set ps" for b x p'
        using inv(2) [of x b p'] by (auto split: if_splits)
      show "x \<in> ?lout p' \<Longrightarrow> \<exists>b. p' \<in> set (preds b) \<and> x \<in> lin b" for p' x
        using inv(3) [of x p'] r p by (auto split: if_splits)
    qed (use inv(4,6) r in auto)
    then show ?thesis using c by (auto simp: st live_visit_def)
  qed
qed

lemma live_prop_inv:
  "live_inv us df preds b0 r0 ps st \<Longrightarrow> live_inv us df preds b0 r0 [] (live_prop df r0 ps st)"
proof (induction ps arbitrary: st)
  case (Cons p ps)
  show ?case using Cons.IH [OF live_visit_inv [OF Cons.prems]] by simp
qed simp

text \<open>Everything found is below every closed pair of sets.\<close>

definition live_below :: "live_sets \<Rightarrow> live_sets \<Rightarrow> live_state \<Rightarrow> bool" where
  "live_below Lin Lout st =
     (case st of (lin, lout, q) \<Rightarrow>
        (\<forall>b. lin b \<subseteq> Lin b) \<and> (\<forall>p. lout p \<subseteq> Lout p) \<and> (\<forall>(b, r) \<in> set q. r \<in> Lin b))"

lemma live_prop_below:
  assumes "live_closed us df preds Lin Lout" and "r \<in> Lin b" and "set ps \<subseteq> set (preds b)"
    and "live_below Lin Lout st"
  shows "live_below Lin Lout (live_prop df r ps st)"
  using assms(3,4)
proof (induction ps arbitrary: st)
  case (Cons p ps)
  have "Lin b \<subseteq> Lout p" and lp: "us p \<union> (Lout p - df p) \<subseteq> Lin p"
    using assms(1) Cons.prems(1) by (simp_all add: live_closed_def)
  then have o: "r \<in> Lout p" using assms(2) by blast
  then have "r \<notin> df p \<Longrightarrow> r \<in> Lin p" using lp by blast
  then have "live_below Lin Lout (live_visit df r p st)"
    using Cons.prems(2) o
    by (cases st) (auto simp: live_below_def live_visit_def subset_eq split: if_splits)
  then show ?case using Cons by simp
qed simp

text \<open>A pair is put in the queue at most once: the pairs still missing and the length of the queue
  bound the number of steps.\<close>

definition live_measure :: "nat \<Rightarrow> areg set \<Rightarrow> live_state \<Rightarrow> nat" where
  "live_measure n U st =
     (case st of (lin, lout, q) \<Rightarrow> card {(b, r). b < n \<and> r \<in> U \<and> r \<notin> lin b} + length q)"

lemma missing_finite: "finite U \<Longrightarrow> finite {(b, r). b < (n :: nat) \<and> r \<in> U \<and> r \<notin> lin b}"
  by (rule finite_subset [of _ "{..<n} \<times> U"]) auto

lemma live_visit_measure:
  assumes "finite U" and "r \<in> U" and "p < n"
  shows "live_measure n U (live_visit df r p st) = live_measure n U st"
proof -
  obtain lin lout q where st: "st = (lin, lout, q)" by (cases st)
  let ?M = "\<lambda>l. {(b, r). b < n \<and> r \<in> U \<and> r \<notin> l b}"
  have "card (?M (lin(p := insert r (lin p)))) + 1 = card (?M lin)" if "r \<notin> lin p"
  proof -
    have "?M lin = insert (p, r) (?M (lin(p := insert r (lin p))))" using that assms(2,3) by (auto split: if_splits)
    moreover have "(p, r) \<notin> ?M (lin(p := insert r (lin p)))" by simp
    ultimately show ?thesis using missing_finite [OF assms(1), of n "lin(p := insert r (lin p))"] by simp
  qed
  then show ?thesis by (auto simp: st live_visit_def live_measure_def)
qed

lemma live_prop_measure:
  assumes "finite U" and "r \<in> U" and "\<forall>p \<in> set ps. p < n"
  shows "live_measure n U (live_prop df r ps st) = live_measure n U st"
  using assms(3) by (induction ps arbitrary: st) (simp_all add: live_visit_measure [OF assms(1,2)])

definition live_within :: "areg set \<Rightarrow> live_state \<Rightarrow> bool" where
  "live_within U st = (case st of (lin, lout, q) \<Rightarrow> \<forall>(b, r) \<in> set q. r \<in> U)"

lemma live_prop_within: "r \<in> U \<Longrightarrow> live_within U st \<Longrightarrow> live_within U (live_prop df r ps st)"
proof (induction ps arbitrary: st)
  case (Cons p ps)
  have "live_within U (live_visit df r p st)"
    using Cons.prems by (cases st) (auto simp: live_within_def live_visit_def)
  then show ?case using Cons by simp
qed simp

lemma live_loop_returns:
  assumes "finite U" and "\<forall>b. \<forall>p \<in> set (preds b). p < n"
    and step: "\<And>lin lout b r q. P (lin, lout, (b, r) # q) \<Longrightarrow> P (live_prop df r (preds b) (lin, lout, q))"
  shows "live_within U st \<Longrightarrow> P st \<Longrightarrow> \<exists>lin lout. live_loop preds df st = Some (lin, lout) \<and> P (lin, lout, [])"
proof (induction "live_measure n U st" arbitrary: st rule: less_induct)
  case less
  obtain lin lout q where st: "st = (lin, lout, q)" by (cases st)
  show ?case
  proof (cases q)
    case Nil
    then show ?thesis using less.prems(2) by (simp add: st live_loop.simps [of preds df])
  next
    case (Cons br q')
    obtain b r where br: "br = (b, r)" by (cases br)
    let ?st = "live_prop df r (preds b) (lin, lout, q')"
    have r: "r \<in> U" and w: "live_within U (lin, lout, q')"
      using less.prems by (auto simp: st Cons br live_within_def)
    have "live_measure n U ?st < live_measure n U st"
      using live_prop_measure [OF assms(1) r, of "preds b" n df] assms(2) by (simp add: st Cons live_measure_def)
    from less.hyps [OF this live_prop_within [OF r w]] step [of lin lout b r q'] less.prems(2) show ?thesis
      by (simp add: st Cons br live_loop.simps [of preds df "(lin, lout, (b, r) # q')"])
  qed
qed

text \<open>The result is a solution, and below every closed pair.\<close>

definition live_ok :: "live_sets \<Rightarrow> live_sets \<Rightarrow> (nat \<Rightarrow> nat list) \<Rightarrow> live_state \<Rightarrow> bool" where
  "live_ok us df preds st =
     ((\<exists>b0 r0. live_inv us df preds b0 r0 [] st) \<and>
      (\<forall>Lin Lout. live_closed us df preds Lin Lout \<longrightarrow> live_below Lin Lout st))"

lemma live_ok_step:
  assumes "live_ok us df preds (lin, lout, (b, r) # q)"
  shows "live_ok us df preds (live_prop df r (preds b) (lin, lout, q))"
proof -
  obtain b0 r0 where "live_inv us df preds b0 r0 [] (lin, lout, (b, r) # q)"
    using assms by (auto simp: live_ok_def)
  note inv = live_invD [OF this]
  have "live_inv us df preds b r (preds b) (lin, lout, q)"
  proof (rule live_invI)
    show "lin c = us c \<union> (lout c - df c)" for c by (rule inv(1))
    show "x \<in> lin c \<Longrightarrow> p \<in> set (preds c) \<Longrightarrow> x \<in> lout p \<or> (c, x) \<in> set q \<or> c = b \<and> x = r \<and> p \<in> set (preds b)"
      for x c p using inv(2) [of x c p] by auto
  qed (use inv(3,4) in simp_all)
  then have "live_inv us df preds b r [] (live_prop df r (preds b) (lin, lout, q))" by (rule live_prop_inv)
  moreover have "live_below Lin Lout (live_prop df r (preds b) (lin, lout, q))"
    if "live_closed us df preds Lin Lout" for Lin Lout
  proof -
    have "live_below Lin Lout (lin, lout, (b, r) # q)" using assms that by (simp add: live_ok_def)
    then show ?thesis by (intro live_prop_below [OF that]) (auto simp: live_below_def)
  qed
  ultimately show ?thesis by (auto simp: live_ok_def)
qed

lemma live_ok_final:
  assumes "live_ok us df preds (lin, lout, [])"
  shows "live_solution us df preds lin lout"
    and "live_closed us df preds Lin Lout \<Longrightarrow> lin b \<subseteq> Lin b \<and> lout b \<subseteq> Lout b"
proof -
  obtain b0 r0 where "live_inv us df preds b0 r0 [] (lin, lout, [])"
    using assms by (auto simp: live_ok_def)
  note inv = live_invD [OF this]
  have "lout p = (\<Union>b \<in> {b. p \<in> set (preds b)}. lin b)" for p
    using inv(2,3) by fastforce
  then show "live_solution us df preds lin lout" unfolding live_solution_def using inv(1) by blast
  show "live_closed us df preds Lin Lout \<Longrightarrow> lin b \<subseteq> Lin b \<and> lout b \<subseteq> Lout b"
    using assms by (simp add: live_ok_def live_below_def)
qed

text \<open>The whole computation.\<close>

lemma use_of_out: "b \<notin> fb_id ` set bs \<Longrightarrow> use_of bs b = {}"
  by (simp add: use_of_def block_at_out live_use_def)

lemma live_use_finite [simp]: "finite (live_use b)"
  by (simp add: live_use_def)

lemma use_of_finite [simp]: "finite (use_of bs b)"
  by (simp add: use_of_def)

lemma init_queue_set:
  assumes "edges_ok bs"
  shows "set (init_queue bs) = {(b, r). r \<in> use_of bs b}"
proof -
  have "set (init_queue bs) = {(b, r). \<exists>c \<in> set bs. b = fb_id c \<and> r \<in> live_use c}"
    by (auto simp: init_queue_def)
  also have "\<dots> = {(b, r). r \<in> use_of bs b}"
  proof (intro equalityI subsetI; clarify)
    fix c r assume "c \<in> set bs" "r \<in> live_use c"
    then show "r \<in> use_of bs (fb_id c)" using block_at_in [OF assms] by (simp add: use_of_def)
  next
    fix b r assume r: "r \<in> use_of bs b"
    then obtain c where c: "c \<in> set bs" "b = fb_id c" using use_of_out [of b bs] by blast
    then show "\<exists>c \<in> set bs. b = fb_id c \<and> r \<in> live_use c"
      using r block_at_in [OF assms c(1)] by (auto simp: use_of_def)
  qed
  finally show ?thesis .
qed

lemma live_ok_init:
  assumes "edges_ok bs"
  shows "live_ok (use_of bs) df preds (use_of bs, (\<lambda>_. {}), init_queue bs)"
proof -
  have "live_inv (use_of bs) df preds 0 r0 [] (use_of bs, (\<lambda>_. {}), init_queue bs)" for r0
    by (rule live_invI) (auto simp: init_queue_set [OF assms])
  moreover have "live_below Lin Lout (use_of bs, (\<lambda>_. {}), init_queue bs)"
    if "live_closed (use_of bs) df preds Lin Lout" for Lin Lout
    using that by (auto simp: live_below_def init_queue_set [OF assms] live_closed_def)
  ultimately show ?thesis by (auto simp: live_ok_def)
qed

lemma calc_live_result:
  assumes "edges_ok bs"
  shows "\<exists>lin lout. calc_live bs = Some (lin, lout) \<and>
     live_ok (use_of bs) (def_set_of bs) (preds_of bs) (lin, lout, [])"
proof -
  let ?U = "\<Union>b \<in> fb_id ` set bs. use_of bs b" and ?n = "Suc (sum_list (map fb_id bs))"
  have "r \<in> use_of bs b \<Longrightarrow> r \<in> ?U" for b r using use_of_out [of b bs] by blast
  then have w: "live_within ?U (use_of bs, (\<lambda>_. {}), init_queue bs)"
    unfolding live_within_def prod.case init_queue_set [OF assms] by blast
  have fin: "finite ?U" by simp
  have p: "\<forall>b. \<forall>p \<in> set (preds_of bs b). p < ?n"
  proof (intro allI ballI)
    fix b p assume p: "p \<in> set (preds_of bs b)"
    then obtain c where c: "c \<in> set bs" "b = fb_id c"
      using block_at_out [of b bs] by (fastforce simp: preds_of_def)
    then have "p \<in> fb_id ` set bs"
      using assms p block_at_in [OF assms c(1)] by (auto simp: edges_ok_def preds_of_def list_all_iff)
    then show "p < ?n" using member_le_sum_list [of p "map fb_id bs"] by (auto simp: less_Suc_eq_le)
  qed
  show ?thesis
    unfolding calc_live_def
    by (rule live_loop_returns [where U = ?U and n = ?n and
          P = "live_ok (use_of bs) (def_set_of bs) (preds_of bs)",
          OF fin p live_ok_step w live_ok_init [OF assms]])
qed

end
