(* ===== verification/Coloring.thy ===== *)
theory Coloring
  imports Liveness
begin

text \<open>
  The register allocator \<open>SimpleColoringAllocator\<close> (\<open>src/arm/simple_coloring_alloc.hpp\<close>): the
  interference graph, simplification, the choice of the nodes to spill, and the colouring. The
  template parameter is a scalar type here.
\<close>

section \<open>Registers of one type\<close>

definition reg_count :: "scalar_type \<Rightarrow> int" where
  "reg_count ty = (if ty = IntT then int_count else float_count)"

definition allocable_count :: "scalar_type \<Rightarrow> nat" where
  "allocable_count ty = (if ty = IntT then int_allocable_count else float_allocable_count)"

definition reg_usage :: "scalar_type \<Rightarrow> register_usage list" where
  "reg_usage ty = (if ty = IntT then int_register_usage else float_register_usage)"

text \<open>\<open>r.type == type && (r.is_pseudo() || RegConvention<type>::allocable(r.id))\<close>\<close>

definition in_graph :: "scalar_type \<Rightarrow> areg \<Rightarrow> bool" where
  "in_graph ty r = (ar_type r = ty \<and> (is_pseudo r \<or> usage_allocable (reg_usage ty) (ar_id r)))"

section \<open>The interference graph\<close>

text \<open>\<open>occur\<close> as a set, \<open>interfere_edge\<close> as the sets of the neighbours.\<close>

type_synonym edges = "int \<Rightarrow> int set"

definition add_edge :: "int \<Rightarrow> int \<Rightarrow> edges \<Rightarrow> edges" where
  "add_edge a b e = (let e1 = e(a := insert b (e a)) in e1(b := insert a (e1 b)))"

text \<open>The double loop over \<open>temp\<close> and \<open>new_nodes\<close>.\<close>

fun add_pairs :: "int list \<Rightarrow> int list \<Rightarrow> edges \<Rightarrow> edges" where
  "add_pairs seen [] e = e"
| "add_pairs seen (x # xs) e =
     add_pairs (seen @ [x]) xs (foldl (\<lambda>e y. if y \<noteq> x then add_edge y x e else e) e seen)"

definition link_live :: "areg \<Rightarrow> areg set \<Rightarrow> edges \<Rightarrow> edges" where
  "link_live r live e = foldl (\<lambda>e o'. add_edge (ar_id r) (ar_id o') e) e (sorted_list_of_set live)"

fun graph_uses :: "areg list \<Rightarrow> areg set \<Rightarrow> edges \<Rightarrow> areg set \<times> edges" where
  "graph_uses [] live e = (live, e)"
| "graph_uses (r # rs) live e =
     (if r \<notin> live then graph_uses rs (insert r live) (link_live r live e) else graph_uses rs live e)"

fun graph_defs :: "areg list \<Rightarrow> areg set \<Rightarrow> edges \<Rightarrow> edges" where
  "graph_defs [] live e = e"
| "graph_defs (r # rs) live e = graph_defs rs live (if r \<notin> live then link_live r live e else e)"

text \<open>The loop from the last instruction to the first; the argument is the reversed block.\<close>

fun graph_insts :: "scalar_type \<Rightarrow> inst list \<Rightarrow> areg set \<Rightarrow> int set \<times> edges \<Rightarrow> int set \<times> edges" where
  "graph_insts ty [] live g = g"
| "graph_insts ty (i # is) live (oc, e) =
     (let ds = filter (in_graph ty) (def_reg i);
          us = filter (in_graph ty) (use_reg i);
          nd = (case is of [] \<Rightarrow> [] | j # _ \<Rightarrow> filter (in_graph ty) (def_reg j));
          (live2, e2) = graph_uses us (live - set ds) e;
          e3 = graph_defs nd live2 e2;
          e4 = add_pairs [] (map ar_id (us @ nd)) e3
      in graph_insts ty is live2 (oc \<union> ar_id ` set ds \<union> ar_id ` set us, e4))"

definition graph_block :: "scalar_type \<Rightarrow> areg set \<Rightarrow> inst list \<Rightarrow> int set \<times> edges \<Rightarrow> int set \<times> edges" where
  "graph_block ty out is g =
     (let live = {r \<in> out. ar_type r = ty};
          temp = map ar_id (sorted_list_of_set {r \<in> live. in_graph ty r}) @
            (if is = [] then [] else map ar_id (filter (in_graph ty) (def_reg (last is))))
      in graph_insts ty (rev is) live (fst g, add_pairs [] temp (snd g)))"

fun graph_blocks :: "scalar_type \<Rightarrow> live_sets \<Rightarrow> flow_block list \<Rightarrow> int set \<times> edges \<Rightarrow> int set \<times> edges" where
  "graph_blocks ty lout [] g = g"
| "graph_blocks ty lout (b # bs) g = graph_blocks ty lout bs (graph_block ty (lout (fb_id b)) (fb_insts b) g)"

definition build_graph :: "scalar_type \<Rightarrow> flow_block list \<Rightarrow> (int set \<times> edges) option" where
  "build_graph ty bs =
     (case calc_live bs of
        None \<Rightarrow> None
      | Some (lin, lout) \<Rightarrow> Some (graph_blocks ty lout bs ({}, (\<lambda>_. {}))))"

section \<open>Simplification\<close>

record simp_state =
  ss_edges :: edges
  ss_queue :: "int list"
  ss_hist :: "(int \<times> int list) list"
  ss_remain :: "int set"

text \<open>\<open>remove\<close>: the loop over the neighbours, then the node itself.\<close>

fun remove_from :: "scalar_type \<Rightarrow> int \<Rightarrow> int list \<Rightarrow> edges \<times> int list \<Rightarrow> edges \<times> int list" where
  "remove_from ty x [] st = st"
| "remove_from ty x (i # is) (e, q) =
     (let e1 = e(i := e i - {x}) in
      remove_from ty x is
        (e1, if card (e1 i) = allocable_count ty - 1 \<and> reg_count ty \<le> i then q @ [i] else q))"

definition remove_node :: "scalar_type \<Rightarrow> int \<Rightarrow> simp_state \<Rightarrow> simp_state" where
  "remove_node ty x st =
     (let (e, q) = remove_from ty x (sorted_list_of_set (ss_edges st x)) (ss_edges st, ss_queue st) in
      st\<lparr>ss_edges := e(x := {}), ss_queue := q, ss_remain := ss_remain st - {x}\<rparr>)"

partial_function (option) simplify :: "scalar_type \<Rightarrow> simp_state \<Rightarrow> simp_state option" where
  "simplify ty st =
     (case ss_queue st of
        [] \<Rightarrow> Some st
      | cur # q \<Rightarrow>
          (let ns = sorted_list_of_set (ss_edges st cur);
               st1 = remove_node ty cur (st\<lparr>ss_queue := q\<rparr>)
           in simplify ty (st1\<lparr>ss_hist := ss_hist st1 @ [(cur, ns)]\<rparr>)))"

section \<open>Spilling\<close>

text \<open>What \<open>choose_spill\<close> asks of the function: which registers come from spilling, and which hold
  a constant or the address of a symbol.\<close>

fun best_spill :: "edges \<Rightarrow> (int \<Rightarrow> bool) \<Rightarrow> int option \<Rightarrow> int list \<Rightarrow> int option" where
  "best_spill e ok best [] = best"
| "best_spill e ok best (i # is) =
     best_spill e ok
       (if ok i then (case best of None \<Rightarrow> Some i | Some b \<Rightarrow> if card (e b) < card (e i) then Some i else best)
        else best) is"

definition choose_spill :: "(int \<Rightarrow> bool) \<Rightarrow> (int \<Rightarrow> bool) \<Rightarrow> simp_state \<Rightarrow> int option" where
  "choose_spill spilling cheap st =
     (let ns = sorted_list_of_set (ss_remain st) in
      case best_spill (ss_edges st) (\<lambda>i. \<not> spilling i \<and> cheap i) None ns of
        Some b \<Rightarrow> Some b
      | None \<Rightarrow> best_spill (ss_edges st) (\<lambda>i. \<not> spilling i) None ns)"

text \<open>The loop of \<open>run\<close> over what simplification leaves; \<open>None\<close> is the assertion of \<open>choose_spill\<close>.\<close>

partial_function (option) spill_loop ::
  "scalar_type \<Rightarrow> (int \<Rightarrow> bool) \<Rightarrow> (int \<Rightarrow> bool) \<Rightarrow> simp_state \<Rightarrow> int list \<Rightarrow> int list option" where
  "spill_loop ty spilling cheap st nodes =
     (if ss_remain st = {} then Some nodes
      else (case choose_spill spilling cheap st of
              None \<Rightarrow> None
            | Some cur \<Rightarrow>
                (case simplify ty (remove_node ty cur st) of
                   None \<Rightarrow> None
                 | Some st1 \<Rightarrow> spill_loop ty spilling cheap st1 (nodes @ [cur]))))"

declare simplify.simps [code] and spill_loop.simps [code]

section \<open>Colouring\<close>

text \<open>The two searches for a register: first one that costs nothing, then any.\<close>

definition pick_reg :: "scalar_type \<Rightarrow> (int \<Rightarrow> bool) \<Rightarrow> int set \<Rightarrow> int option" where
  "pick_reg ty used flag =
     (case find (\<lambda>j. (reg_usage ty ! nat j = CallerSave \<or> reg_usage ty ! nat j = CalleeSave \<and> used j) \<and> j \<notin> flag)
             [0..reg_count ty - 1] of
        Some j \<Rightarrow> Some j
      | None \<Rightarrow> find (\<lambda>j. usage_allocable (reg_usage ty) j \<and> j \<notin> flag) [0..reg_count ty - 1])"

fun color_nodes ::
  "scalar_type \<Rightarrow> (int \<times> int list) list \<Rightarrow> (int \<Rightarrow> int) \<Rightarrow> (int \<Rightarrow> bool) \<Rightarrow> ((int \<Rightarrow> int) \<times> (int \<Rightarrow> bool)) option" where
  "color_nodes ty [] ans used = Some (ans, used)"
| "color_nodes ty ((x, ns) # hs) ans used =
     (if ans x \<noteq> - 1 then None
      else (case pick_reg ty used (ans ` set ns) of
              None \<Rightarrow> None
            | Some j \<Rightarrow> color_nodes ty hs (ans(x := j)) (used(j := True))))"

definition machine_ans :: "scalar_type \<Rightarrow> int set \<Rightarrow> int \<Rightarrow> int" where
  "machine_ans ty oc i = (if 0 \<le> i \<and> i < reg_count ty \<and> i \<in> oc then i else - 1)"

definition machine_used :: "scalar_type \<Rightarrow> int set \<Rightarrow> int \<Rightarrow> bool" where
  "machine_used ty oc i = (0 \<le> i \<and> i < reg_count ty \<and> i \<in> oc)"

datatype alloc_result = Allocated "int list" | Spilled "int list"

definition init_simp :: "scalar_type \<Rightarrow> int \<Rightarrow> int set \<times> edges \<Rightarrow> simp_state" where
  "init_simp ty n g =
     (let ps = filter (\<lambda>i. i \<in> fst g) [reg_count ty..n - 1] in
      \<lparr>ss_edges = snd g, ss_queue = filter (\<lambda>i. card (snd g i) < allocable_count ty) ps, ss_hist = [],
       ss_remain = set ps\<rparr>)"

text \<open>\<open>run\<close>, up to the rewriting of the function when nodes are spilled.\<close>

definition run_alloc ::
  "scalar_type \<Rightarrow> int \<Rightarrow> (int \<Rightarrow> bool) \<Rightarrow> (int \<Rightarrow> bool) \<Rightarrow> flow_block list \<Rightarrow> alloc_result option" where
  "run_alloc ty n spilling cheap bs =
     (case build_graph ty bs of
        None \<Rightarrow> None
      | Some g \<Rightarrow>
          (case simplify ty (init_simp ty n g) of
             None \<Rightarrow> None
           | Some st \<Rightarrow>
               if ss_remain st \<noteq> {} then map_option Spilled (spill_loop ty spilling cheap st [])
               else (case color_nodes ty (rev (ss_hist st)) (machine_ans ty (fst g)) (machine_used ty (fst g)) of
                       None \<Rightarrow> None
                     | Some (ans, used) \<Rightarrow> Some (Allocated (map ans [0..n - 1])))))"

end
