(* ===== verification/ColorFacts.thy ===== *)
theory ColorFacts
  imports Coloring
begin

text \<open>
  The allocator colours properly: simplification removes nodes with few neighbours and records
  what each was adjacent to, so that on the way back every node finds a free register.
\<close>

section \<open>Removing a node\<close>

lemma remove_from_edges:
  "fst (remove_from ty x is (e, q)) = (\<lambda>i. if i \<in> set is then e i - {x} else e i)"
  by (induction "is" arbitrary: e q) (auto simp: Let_def fun_eq_iff)

lemma remove_from_queue:
  "distinct is \<Longrightarrow> snd (remove_from ty x is (e, q)) =
     q @ filter (\<lambda>i. card (e i - {x}) = allocable_count ty - 1 \<and> reg_count ty \<le> i) is"
proof (induction "is" arbitrary: e q)
  case (Cons i "is")
  have "filter (\<lambda>j. card ((e(i := e i - {x})) j - {x}) = allocable_count ty - 1 \<and> reg_count ty \<le> j) is
     = filter (\<lambda>j. card (e j - {x}) = allocable_count ty - 1 \<and> reg_count ty \<le> j) is"
    using Cons.prems by (intro filter_cong) auto
  then show ?case using Cons by (simp add: Let_def)
qed simp

text \<open>A graph: symmetric, without loops, with finite neighbourhoods; \<open>P\<close> are the nodes to colour.\<close>

definition graph_wf :: "scalar_type \<Rightarrow> int set \<Rightarrow> edges \<Rightarrow> bool" where
  "graph_wf ty P E =
     ((\<forall>i. finite (E i)) \<and> (\<forall>i. i \<notin> E i) \<and> (\<forall>i j. j \<in> E i \<longrightarrow> i \<in> E j) \<and>
      (\<forall>i j. j \<in> E i \<longrightarrow> reg_count ty \<le> j \<longrightarrow> j \<in> P) \<and> finite P \<and> (\<forall>i \<in> P. reg_count ty \<le> i))"

text \<open>The invariant: \<open>R\<close> are the removed nodes; the queue holds the remaining nodes of small degree.\<close>

definition simp_inv :: "scalar_type \<Rightarrow> int set \<Rightarrow> edges \<Rightarrow> int set \<Rightarrow> simp_state \<Rightarrow> bool" where
  "simp_inv ty P E R st =
     (ss_edges st = (\<lambda>i. if i \<in> R then {} else E i - R) \<and> ss_remain st = P - R \<and> R \<subseteq> P \<and>
      distinct (ss_queue st) \<and> set (ss_queue st) = {i \<in> P - R. card (E i - R) < allocable_count ty})"

lemma graph_wfD:
  assumes "graph_wf ty P E"
  shows "finite (E i)" and "i \<notin> E i" and "j \<in> E i \<Longrightarrow> i \<in> E j" and "j \<in> E i \<Longrightarrow> reg_count ty \<le> j \<Longrightarrow> j \<in> P"
    and "finite P" and "i \<in> P \<Longrightarrow> reg_count ty \<le> i"
  using assms unfolding graph_wf_def by blast+

lemma allocable_pos: "0 < allocable_count ty"
  by (simp add: allocable_count_def int_allocable_count_def float_allocable_count_def)

lemma remove_node_inv:
  assumes wf: "graph_wf ty P E" and inv: "simp_inv ty P E R (st\<lparr>ss_queue := Q\<rparr>)"
    and x: "x \<in> P" "x \<notin> R" and Q: "distinct q" "set q = set Q - {x}"
  shows "simp_inv ty P E (insert x R) (remove_node ty x (st\<lparr>ss_queue := q\<rparr>))"
    and "ss_hist (remove_node ty x (st\<lparr>ss_queue := q\<rparr>)) = ss_hist st"
proof -
  let ?N = "E x - R" and ?R = "insert x R"
  note g = graph_wfD [OF wf]
  have e: "ss_edges st = (\<lambda>i. if i \<in> R then {} else E i - R)" and r: "ss_remain st = P - R" and RP: "R \<subseteq> P"
    and sq: "set Q = {i \<in> P - R. card (E i - R) < allocable_count ty}"
    using inv by (auto simp: simp_inv_def)
  have fin: "finite ?N" using g(1) by simp
  have ex: "ss_edges st x = ?N" using e x by simp
  let ?c = "\<lambda>i. card (ss_edges st i - {x}) = allocable_count ty - 1 \<and> reg_count ty \<le> i"
  let ?l = "sorted_list_of_set ?N"
  obtain e' q' where rf: "remove_from ty x ?l (ss_edges st, q) = (e', q')" by (cases "remove_from ty x ?l (ss_edges st, q)")
  have e': "e' = (\<lambda>i. if i \<in> ?N then ss_edges st i - {x} else ss_edges st i)"
    using remove_from_edges [of ty x ?l "ss_edges st" q] rf fin by simp
  have q': "q' = q @ filter ?c ?l"
    using remove_from_queue [of ?l ty x "ss_edges st" q] rf by simp
  have rn: "remove_node ty x (st\<lparr>ss_queue := q\<rparr>) = st\<lparr>ss_edges := e'(x := {}), ss_queue := q', ss_remain := P - R - {x}\<rparr>"
    using rf by (simp add: remove_node_def ex r)
  have edges: "e'(x := {}) = (\<lambda>i. if i \<in> ?R then {} else E i - ?R)"
  proof
    fix i
    have "x \<notin> E i" if "i \<notin> E x" using g(3) [of x i] that by blast
    then show "(e'(x := {})) i = (if i \<in> ?R then {} else E i - ?R)" by (auto simp: e' e)
  qed
  have deg: "card (E i - ?R) = (if i \<in> E x then card (E i - R) - 1 else card (E i - R))" for i
  proof (cases "i \<in> E x")
    case True
    then have "x \<in> E i - R" using g(3) x(2) by blast
    moreover have "E i - ?R = (E i - R) - {x}" by auto
    ultimately show ?thesis using g(1) True by (simp add: card_Diff_singleton)
  next
    case False
    then have "x \<notin> E i" using g(3) [of x i] by blast
    then have "E i - ?R = E i - R" by auto
    then show ?thesis using False by simp
  qed
  have pos: "0 < card (E i - R)" if "i \<in> E x" for i
  proof -
    have "x \<in> E i - R" using g(3) [OF that] x(2) by blast
    moreover have "finite (E i - R)" using g(1) by simp
    ultimately show ?thesis by (auto simp: card_gt_0_iff)
  qed
  have pushed: "set (filter ?c ?l) = {i \<in> P - ?R. i \<in> E x \<and> card (E i - R) = allocable_count ty}"
  proof -
    have "?c i \<longleftrightarrow> i \<in> P \<and> card (E i - R) = allocable_count ty" if i: "i \<in> E x" "i \<notin> R" for i
    proof -
      have s: "ss_edges st i - {x} = E i - ?R" using i(2) by (auto simp: e)
      have c: "card (ss_edges st i - {x}) = card (E i - R) - 1" unfolding s using deg [of i] i(1) by (simp only: if_True)
      have "card (E i - R) - 1 = allocable_count ty - 1 \<longleftrightarrow> card (E i - R) = allocable_count ty"
        using pos [OF i(1)] allocable_pos [of ty] by arith
      moreover have "reg_count ty \<le> i \<longleftrightarrow> i \<in> P" using g(4) [OF i(1)] g(6) by blast
      ultimately show ?thesis unfolding c by blast
    qed
    moreover have "i \<noteq> x" if "i \<in> E x" for i using that g(2) by blast
    ultimately show ?thesis using fin by auto
  qed
  have qs: "set q' = {i \<in> P - ?R. card (E i - ?R) < allocable_count ty}"
  proof -
    have "set q' = set q \<union> {i \<in> P - ?R. i \<in> E x \<and> card (E i - R) = allocable_count ty}"
      using pushed by (simp add: q')
    also have "set q = {i \<in> P - ?R. card (E i - R) < allocable_count ty}" using Q(2) sq by auto
    also have "\<dots> \<union> {i \<in> P - ?R. i \<in> E x \<and> card (E i - R) = allocable_count ty}
        = {i \<in> P - ?R. card (E i - ?R) < allocable_count ty}"
    proof (intro equalityI subsetI)
      fix i assume "i \<in> {i \<in> P - ?R. card (E i - R) < allocable_count ty}
        \<union> {i \<in> P - ?R. i \<in> E x \<and> card (E i - R) = allocable_count ty}"
      then show "i \<in> {i \<in> P - ?R. card (E i - ?R) < allocable_count ty}"
        using deg [of i] pos [of i] by (auto split: if_splits)
    next
      fix i assume "i \<in> {i \<in> P - ?R. card (E i - ?R) < allocable_count ty}"
      then show "i \<in> {i \<in> P - ?R. card (E i - R) < allocable_count ty}
        \<union> {i \<in> P - ?R. i \<in> E x \<and> card (E i - R) = allocable_count ty}"
        using deg [of i] pos [of i] by (cases "i \<in> E x") auto
    qed
    finally show ?thesis .
  qed
  have "distinct q'"
    using Q sq pushed by (auto simp: q')
  then show "simp_inv ty P E ?R (remove_node ty x (st\<lparr>ss_queue := q\<rparr>))"
    using edges qs RP x(1) by (auto simp: rn simp_inv_def)
  show "ss_hist (remove_node ty x (st\<lparr>ss_queue := q\<rparr>)) = ss_hist st" by (simp add: rn)
qed

section \<open>Simplification ends\<close>

text \<open>The recorded neighbours: those not removed before, fewer than there are registers.\<close>

fun hist_ok :: "scalar_type \<Rightarrow> edges \<Rightarrow> int set \<Rightarrow> (int \<times> int list) list \<Rightarrow> bool" where
  "hist_ok ty E R [] = True"
| "hist_ok ty E R ((x, ns) # hs) =
     (x \<notin> R \<and> set ns = E x - R \<and> length ns < allocable_count ty \<and> hist_ok ty E (insert x R) hs)"

lemma simplify_ok:
  assumes "graph_wf ty P E"
  shows "simp_inv ty P E R st \<Longrightarrow>
    \<exists>st' hs. simplify ty st = Some st' \<and> ss_hist st' = ss_hist st @ hs \<and> hist_ok ty E R hs \<and> fst ` set hs \<subseteq> P \<and>
      simp_inv ty P E (R \<union> fst ` set hs) st' \<and> ss_queue st' = []"
proof (induction "card (P - R)" arbitrary: R st rule: less_induct)
  case less
  show ?case
  proof (cases "ss_queue st")
    case Nil
    then show ?thesis using less.prems by (intro exI [of _ st] exI [of _ "[]"]) (simp add: simplify.simps [of ty st])
  next
    case (Cons x q)
    have q: "distinct q" "set q = set (ss_queue st) - {x}" and x: "x \<in> P" "x \<notin> R" "card (E x - R) < allocable_count ty"
      using less.prems by (auto simp: simp_inv_def Cons)
    have fin: "finite (E x)" "finite P" using graph_wfD [OF assms] by blast+
    have ex: "ss_edges st x = E x - R" using less.prems x by (simp add: simp_inv_def)
    let ?st = "remove_node ty x (st\<lparr>ss_queue := q\<rparr>)"
    let ?ns = "sorted_list_of_set (E x - R)"
    have "simp_inv ty P E R (st\<lparr>ss_queue := ss_queue st\<rparr>)" using less.prems by simp
    note rm = remove_node_inv [OF assms this x(1,2) q]
    have "simp_inv ty P E (insert x R) (?st\<lparr>ss_hist := ss_hist ?st @ [(x, ?ns)]\<rparr>)"
      using rm(1) by (simp add: simp_inv_def)
    moreover have "card (P - insert x R) < card (P - R)"
    proof -
      have "P - insert x R \<subset> P - R" using x by blast
      then show ?thesis using fin(2) by (intro psubset_card_mono) auto
    qed
    ultimately obtain st' hs where r: "simplify ty (?st\<lparr>ss_hist := ss_hist ?st @ [(x, ?ns)]\<rparr>) = Some st'"
      "ss_hist st' = ss_hist ?st @ [(x, ?ns)] @ hs" "hist_ok ty E (insert x R) hs" "fst ` set hs \<subseteq> P"
      "simp_inv ty P E (insert x R \<union> fst ` set hs) st'" "ss_queue st' = []"
      using less.hyps [of "insert x R" "?st\<lparr>ss_hist := ss_hist ?st @ [(x, ?ns)]\<rparr>"] by auto
    have "simplify ty st = Some st'" using r(1) Cons ex by (simp add: simplify.simps [of ty st] Let_def)
    moreover have "hist_ok ty E R ((x, ?ns) # hs)" using r(3) x fin(1) by simp
    moreover have "ss_hist st' = ss_hist st @ (x, ?ns) # hs" using r(2) rm(2) by simp
    moreover have "fst ` set ((x, ?ns) # hs) \<subseteq> P" using r(4) x(1) by simp
    moreover have "simp_inv ty P E (R \<union> fst ` set ((x, ?ns) # hs)) st'" using r(5) by simp
    ultimately show ?thesis using r(6) by blast
  qed
qed

lemma simp_remain: "simp_inv ty P E R st \<Longrightarrow> ss_remain st = P - R"
  by (simp add: simp_inv_def)

text \<open>The spill loop: without registers that come from spilling it always finds a node.\<close>

lemma best_spill_some: "best \<noteq> None \<Longrightarrow> best_spill e ok best is \<noteq> None"
proof (induction "is" arbitrary: best)
  case (Cons i "is")
  then show ?case by (cases best) auto
qed simp

lemma best_spill_found: "(\<exists>i \<in> set is. ok i) \<Longrightarrow> best_spill e ok best is \<noteq> None"
proof (induction "is" arbitrary: best)
  case (Cons i "is")
  show ?case
  proof (cases "ok i")
    case True
    then show ?thesis using best_spill_some by (cases best) auto
  next
    case False
    then show ?thesis using Cons by simp
  qed
qed simp

lemma best_spill_in:
  "best_spill e ok best is = Some b \<Longrightarrow> (b \<in> set is \<and> ok b) \<or> best = Some b"
proof (induction "is" arbitrary: best)
  case (Cons i "is")
  then show ?case by (fastforce split: if_splits option.splits)
qed simp

lemma choose_spill_in:
  assumes "choose_spill spilling cheap st = Some b" and "finite (ss_remain st)"
  shows "b \<in> ss_remain st \<and> \<not> spilling b"
  using assms best_spill_in [of "ss_edges st" _ None "sorted_list_of_set (ss_remain st)" b]
  by (fastforce simp: choose_spill_def Let_def split: option.splits)

lemma choose_spill_found:
  assumes "i \<in> ss_remain st" and "\<not> spilling i" and "finite (ss_remain st)"
  shows "choose_spill spilling cheap st \<noteq> None"
  using best_spill_found [of "sorted_list_of_set (ss_remain st)" "\<lambda>i. \<not> spilling i" "ss_edges st" None] assms
  by (auto simp: choose_spill_def Let_def split: option.splits)

lemma spill_loop_ok:
  assumes "graph_wf ty P E" and "\<forall>i \<in> P. \<not> spilling i"
  shows "simp_inv ty P E R st \<Longrightarrow> ss_queue st = [] \<Longrightarrow> \<exists>ns. spill_loop ty spilling cheap st nodes = Some (nodes @ ns) \<and>
    set ns \<subseteq> P - R \<and> (ss_remain st \<noteq> {} \<longrightarrow> ns \<noteq> [])"
proof (induction "card (P - R)" arbitrary: R st nodes rule: less_induct)
  case less
  have rem: "ss_remain st = P - R" using less.prems(1) by (rule simp_remain)
  have finP: "finite P" using graph_wfD [OF assms(1)] by blast
  show ?case
  proof (cases "P - R = {}")
    case True
    then show ?thesis using rem by (simp add: spill_loop.simps [of ty spilling cheap st])
  next
    case False
    then obtain i where "i \<in> P - R" by blast
    then have "choose_spill spilling cheap st \<noteq> None"
      using choose_spill_found [of i st spilling cheap] rem assms(2) finP by auto
    then obtain x where x: "choose_spill spilling cheap st = Some x" by blast
    then have xP: "x \<in> P" "x \<notin> R" using choose_spill_in [OF x] rem finP by auto
    have e: "st\<lparr>ss_queue := []\<rparr> = st" using less.prems(2) by (cases st) simp
    then have "simp_inv ty P E R (st\<lparr>ss_queue := []\<rparr>)" using less.prems(1) by (simp only:)
    from remove_node_inv(1) [OF assms(1) this xP, of "[]"]
    have "simp_inv ty P E (insert x R) (remove_node ty x st)" by (simp add: e)
    from simplify_ok [OF assms(1) this] obtain st1 and hs :: "(int \<times> int list) list" where
      st1: "simplify ty (remove_node ty x st) = Some st1"
      "simp_inv ty P E (insert x R \<union> fst ` set hs) st1" "ss_queue st1 = []" by blast
    have "P - (insert x R \<union> fst ` set hs) \<subset> P - R" using xP by blast
    then have "card (P - (insert x R \<union> fst ` set hs)) < card (P - R)" using finP by (intro psubset_card_mono) auto
    from less.hyps [OF this st1(2,3), of "nodes @ [x]"] obtain ns where
      ns: "spill_loop ty spilling cheap st1 (nodes @ [x]) = Some ((nodes @ [x]) @ ns)"
        "set ns \<subseteq> P - (insert x R \<union> fst ` set hs)" by blast
    have "spill_loop ty spilling cheap st nodes = Some (nodes @ x # ns)"
      using ns(1) False rem x st1(1) by (simp add: spill_loop.simps [of ty spilling cheap st])
    then show ?thesis using ns(2) xP by (intro exI [of _ "x # ns"]) auto
  qed
qed

section \<open>Colours\<close>

definition machine_regs :: "scalar_type \<Rightarrow> int set" where
  "machine_regs ty = {j. 0 \<le> j \<and> j < reg_count ty \<and> usage_allocable (reg_usage ty) j}"

lemma machine_regs_card:
  assumes "ty = IntT \<or> ty = FloatT"
  shows "card (machine_regs ty) = allocable_count ty"
proof -
  have m: "machine_regs ty = set (filter (usage_allocable (reg_usage ty)) [0..reg_count ty - 1])"
    by (auto simp: machine_regs_def)
  have "length (filter (usage_allocable (reg_usage ty)) [0..reg_count ty - 1]) = allocable_count ty"
    using assms
    by (auto simp: reg_count_def int_count_def float_count_def reg_usage_def usage_allocable_def int_register_usage_def
        float_register_usage_def allocable_count_def int_allocable_count_def float_allocable_count_def upto_rec1)
  then show ?thesis unfolding m by (simp only: distinct_card distinct_filter distinct_upto)
qed

lemma pick_reg_ok:
  assumes "pick_reg ty used flag = Some j"
  shows "j \<in> machine_regs ty \<and> j \<notin> flag"
  using assms
  by (auto simp: pick_reg_def machine_regs_def usage_allocable_def find_Some_iff split: option.splits)

lemma pick_reg_found:
  assumes "ty = IntT \<or> ty = FloatT" and "finite flag" and "card flag < allocable_count ty"
  shows "\<exists>j. pick_reg ty used flag = Some j"
proof -
  have "\<not> machine_regs ty \<subseteq> flag"
    using assms card_mono [of flag "machine_regs ty"] machine_regs_card [OF assms(1)] by auto
  then obtain j where "j \<in> machine_regs ty" "j \<notin> flag" by blast
  then have "find (\<lambda>j. usage_allocable (reg_usage ty) j \<and> j \<notin> flag) [0..reg_count ty - 1] \<noteq> None"
    by (auto simp: machine_regs_def find_None_iff)
  then show ?thesis by (auto simp: pick_reg_def split: option.splits)
qed

text \<open>The colouring of the recorded nodes in reverse. \<open>C\<close> are the nodes that have a colour.\<close>

definition color_inv :: "scalar_type \<Rightarrow> edges \<Rightarrow> int set \<Rightarrow> (int \<Rightarrow> int) \<Rightarrow> bool" where
  "color_inv ty E C ans =
     ((\<forall>i \<in> C. ans i \<in> machine_regs ty) \<and> (\<forall>i. i \<notin> C \<longrightarrow> ans i = - 1) \<and>
      (\<forall>i \<in> C. \<forall>j \<in> C. j \<in> E i \<longrightarrow> ans i \<noteq> ans j))"

lemma color_step:
  assumes "color_inv ty E C ans" and "\<forall>i j. j \<in> E i \<longrightarrow> i \<in> E j" and "x \<notin> C" and "x \<notin> E x"
    and "E x \<inter> C \<subseteq> set ns" and "pick_reg ty used (ans ` set ns) = Some j"
  shows "color_inv ty E (insert x C) (ans(x := j))"
proof -
  have j: "j \<in> machine_regs ty" "j \<notin> ans ` set ns" using pick_reg_ok [OF assms(6)] by blast+
  have "ans i \<noteq> j" if "i \<in> C" "i \<in> E x" for i using that assms(5) j(2) by blast
  then show ?thesis
    using assms(1-4) j(1) unfolding color_inv_def by (auto split: if_splits)
qed

lemma color_nodes_append:
  "color_nodes ty (xs @ ks) a u =
     (case color_nodes ty xs a u of None \<Rightarrow> None | Some (a', u') \<Rightarrow> color_nodes ty ks a' u')"
proof (induction xs arbitrary: a u)
  case (Cons x xs)
  obtain y ns where x: "x = (y, ns)" by (cases x)
  show ?case
  proof (cases "pick_reg ty u (a ` set ns)")
    case (Some j)
    then show ?thesis using Cons.IH [of "a(y := j)" "u(j := True)"] by (simp add: x del: fun_upd_apply)
  qed (simp add: x)
qed simp

text \<open>History entries in reverse order: what is coloured first was removed last.\<close>

lemma color_nodes_ok:
  assumes ty: "ty = IntT \<or> ty = FloatT" and wf: "graph_wf ty P E" and M: "M \<inter> P = {}"
    and "hist_ok ty E R hs" and "fst ` set hs \<union> R = P" and "fst ` set hs \<inter> R = {}"
    and "\<forall>x \<in> P. E x \<subseteq> P \<union> M" and "color_inv ty E M ans0"
  shows "\<exists>ans used'. color_nodes ty (rev hs) ans0 used = Some (ans, used') \<and> color_inv ty E (M \<union> fst ` set hs) ans"
  using assms(4-6)
proof (induction hs arbitrary: R)
  case Nil
  then show ?case using assms(8) by simp
next
  case (Cons h hs)
  obtain x ns where h: "h = (x, ns)" by (cases h)
  have ho: "x \<notin> R" "set ns = E x - R" "length ns < allocable_count ty" "hist_ok ty E (insert x R) hs"
    using Cons.prems(1) by (simp_all add: h)
  have later: "hist_ok ty E R' hs' \<Longrightarrow> fst ` set hs' \<inter> R' = {}" for R' hs'
    by (induction hs' arbitrary: R') force+
  have disj: "fst ` set hs \<inter> insert x R = {}" by (rule later [OF ho(4)])
  have "fst ` set hs \<union> insert x R = P" using Cons.prems(2) by (auto simp: h)
  from Cons.IH [OF ho(4) this disj] obtain ans used' where
    c: "color_nodes ty (rev hs) ans0 used = Some (ans, used')" "color_inv ty E (M \<union> fst ` set hs) ans" by blast
  note g = graph_wfD [OF wf]
  have xP: "x \<in> P" using Cons.prems(2) by (auto simp: h)
  have xC: "x \<notin> M \<union> fst ` set hs" using disj xP M by blast
  then have ax: "ans x = - 1" using c(2) by (simp add: color_inv_def)
  have "finite (set ns)" "card (ans ` set ns) < allocable_count ty"
    using ho(3) card_image_le [of "set ns" ans] card_length [of ns] by auto
  then obtain j where j: "pick_reg ty used' (ans ` set ns) = Some j" using pick_reg_found [OF ty] by blast
  have "E x \<inter> (M \<union> fst ` set hs) \<subseteq> set ns"
    using ho(2) disj M Cons.prems(2) by (auto simp: h)
  from color_step [OF c(2) _ xC g(2) this j] g(3)
  have "color_inv ty E (insert x (M \<union> fst ` set hs)) (ans(x := j))" by blast
  then show ?case using c(1) ax j by (simp add: h color_nodes_append)
qed

text \<open>The allocator on a graph: it gives a proper colouring, or leaves nodes to spill.\<close>

definition proper_alloc :: "scalar_type \<Rightarrow> int set \<Rightarrow> edges \<Rightarrow> (int \<Rightarrow> int) \<Rightarrow> bool" where
  "proper_alloc ty oc E ans =
     ((\<forall>i \<in> oc. ans i \<in> machine_regs ty) \<and> (\<forall>i \<in> oc. i < reg_count ty \<longrightarrow> ans i = i) \<and>
      (\<forall>i \<in> oc. \<forall>j \<in> oc. j \<in> E i \<longrightarrow> ans i \<noteq> ans j))"

definition graph_ok :: "scalar_type \<Rightarrow> int \<Rightarrow> int set \<times> edges \<Rightarrow> bool" where
  "graph_ok ty n g =
     ((\<forall>i. finite (snd g i)) \<and> (\<forall>i. i \<notin> snd g i) \<and> (\<forall>i j. j \<in> snd g i \<longrightarrow> i \<in> snd g j) \<and>
      (\<forall>i. snd g i \<subseteq> fst g) \<and> (\<forall>i \<in> fst g. i < n \<and> (i < reg_count ty \<longrightarrow> i \<in> machine_regs ty)))"

lemma color_keeps_machine:
  "color_nodes ty hs ans used = Some (ans', used') \<Longrightarrow> x \<notin> fst ` set hs \<Longrightarrow> ans' x = ans x"
proof (induction hs arbitrary: ans used)
  case (Cons h hs)
  obtain y ns where h: "h = (y, ns)" by (cases h)
  obtain j where j: "ans y = - 1" "pick_reg ty used (ans ` set ns) = Some j"
    using Cons.prems(1) by (auto simp: h split: option.splits if_splits)
  have "ans' x = (ans(y := j)) x"
    by (rule Cons.IH [of _ "used(j := True)"]) (use Cons.prems j in \<open>simp_all add: h del: fun_upd_apply\<close>)
  then show ?case using Cons.prems(2) by (simp add: h)
qed simp

lemma alloc_graph_ok:
  assumes ty: "ty = IntT \<or> ty = FloatT" and g: "graph_ok ty n g"
  shows "\<exists>st. simplify ty (init_simp ty n g) = Some st \<and>
    (ss_remain st = {} \<longrightarrow> (\<exists>ans used. color_nodes ty (rev (ss_hist st)) (machine_ans ty (fst g)) (machine_used ty (fst g))
        = Some (ans, used) \<and> proper_alloc ty (fst g) (snd g) ans)) \<and>
    (\<exists>P R. graph_wf ty P (snd g) \<and> simp_inv ty P (snd g) R st \<and> ss_queue st = [] \<and> P \<subseteq> fst g)"
proof -
  let ?E = "snd g"
  let ?P = "set (filter (\<lambda>i. i \<in> fst g) [reg_count ty..n - 1])"
  let ?M = "{i \<in> fst g. i < reg_count ty}"
  note gd = g [unfolded graph_ok_def]
  have P: "?P = {i \<in> fst g. reg_count ty \<le> i}" using gd by auto
  have wf: "graph_wf ty ?P ?E"
  proof -
    have "j \<in> ?P" if "j \<in> ?E i" "reg_count ty \<le> j" for i j using that gd unfolding P by blast
    moreover have "finite ?P" by (rule finite_set)
    moreover have "reg_count ty \<le> i" if "i \<in> ?P" for i using that unfolding P by blast
    ultimately show ?thesis unfolding graph_wf_def using gd by blast
  qed
  have inv: "simp_inv ty ?P ?E {} (init_simp ty n g)"
    by (auto simp: simp_inv_def init_simp_def Let_def)
  from simplify_ok [OF wf inv] obtain st hs where st: "simplify ty (init_simp ty n g) = Some st"
    "ss_hist st = ss_hist (init_simp ty n g) @ hs" "hist_ok ty ?E {} hs" "fst ` set hs \<subseteq> ?P"
    "simp_inv ty ?P ?E ({} \<union> fst ` set hs) st" "ss_queue st = []" by blast
  have hist: "ss_hist st = hs" using st(2) by (simp add: init_simp_def Let_def)
  have colored: "\<exists>ans used. color_nodes ty (rev hs) (machine_ans ty (fst g)) (machine_used ty (fst g)) = Some (ans, used)
      \<and> proper_alloc ty (fst g) ?E ans" if "ss_remain st = {}"
  proof -
    have all: "fst ` set hs \<union> {} = ?P" using that simp_remain [OF st(5)] st(4) by auto
    have disj: "?M \<inter> ?P = {}" by (auto simp: P)
    have mc: "machine_ans ty (fst g) i = i" if "i \<in> ?M" for i
      using that gd by (auto simp: machine_ans_def machine_regs_def)
    have "color_inv ty ?E ?M (machine_ans ty (fst g))"
      unfolding color_inv_def
    proof (intro conjI ballI allI impI)
      fix i assume i: "i \<in> ?M"
      then show "machine_ans ty (fst g) i \<in> machine_regs ty" using gd mc [OF i] by auto
      fix j assume "j \<in> ?M" "j \<in> ?E i"
      then show "machine_ans ty (fst g) i \<noteq> machine_ans ty (fst g) j" using gd i mc by metis
    next
      fix i assume "i \<notin> ?M"
      then show "machine_ans ty (fst g) i = - 1" by (auto simp: machine_ans_def)
    qed
    moreover have "\<forall>x \<in> ?P. ?E x \<subseteq> ?P \<union> ?M"
    proof
      fix x
      have "?E x \<subseteq> fst g" using gd by blast
      then show "?E x \<subseteq> ?P \<union> ?M" unfolding P by (auto simp: not_le)
    qed
    ultimately obtain ans used where c: "color_nodes ty (rev hs) (machine_ans ty (fst g)) (machine_used ty (fst g)) = Some (ans, used)"
      "color_inv ty ?E (?M \<union> fst ` set hs) ans"
      using color_nodes_ok [OF ty wf disj st(3) all] by blast
    have "fst ` set hs = {i \<in> fst g. reg_count ty \<le> i}" using all P by blast
    then have oc: "?M \<union> fst ` set hs = fst g" by auto
    have "ans i = i" if "i \<in> fst g" "i < reg_count ty" for i
    proof -
      have "i \<notin> fst ` set (rev hs)" using st(4) that(2) unfolding P by auto
      from color_keeps_machine [OF c(1) this] mc [of i] that show ?thesis by simp
    qed
    then have "proper_alloc ty (fst g) ?E ans"
      using c(2) unfolding oc by (auto simp: proper_alloc_def color_inv_def)
    then show ?thesis using c(1) by blast
  qed
  have "?P \<subseteq> fst g" by auto
  then show ?thesis using st(1,5,6) wf colored hist by (intro exI [of _ st]) auto
qed

end
