(* ===== verification/GraphFacts.thy ===== *)
theory GraphFacts
  imports ColorFacts
begin

text \<open>
  The interference graph has the edges a colouring must respect: at every instruction, what it
  defines is adjacent to everything live after it. And it is a graph the allocator can colour.
\<close>

section \<open>Edges as a relation\<close>

definition rel :: "edges \<Rightarrow> (int \<times> int) set" where "rel e = {(i, j). j \<in> e i}"

lemma rel_add_edge: "rel (add_edge a b e) = rel e \<union> {(a, b), (b, a)}"
  by (auto simp: rel_def add_edge_def Let_def split: if_splits)

lemma rel_link_live:
  assumes "finite live"
  shows "rel (link_live r live e) = rel e \<union> (\<Union>x \<in> live. {(ar_id r, ar_id x), (ar_id x, ar_id r)})"
proof -
  have "rel (foldl (\<lambda>e x. add_edge (ar_id r) (ar_id x) e) e xs) =
      rel e \<union> (\<Union>x \<in> set xs. {(ar_id r, ar_id x), (ar_id x, ar_id r)})" for xs
    by (induction xs arbitrary: e) (auto simp: rel_add_edge)
  then show ?thesis using assms by (simp add: link_live_def)
qed

definition all_pairs :: "int set \<Rightarrow> (int \<times> int) set" where
  "all_pairs A = {(a, b). a \<in> A \<and> b \<in> A \<and> a \<noteq> b}"

lemma rel_add_pairs:
  "rel (add_pairs seen xs e) = rel e \<union> {(a, b). a \<noteq> b \<and>
     (a \<in> set xs \<and> b \<in> set seen \<union> set xs \<or> a \<in> set seen \<union> set xs \<and> b \<in> set xs)}"
proof (induction xs arbitrary: seen e)
  case (Cons x xs)
  have "rel (foldl (\<lambda>e y. if y \<noteq> x then add_edge y x e else e) e ys) =
      rel e \<union> {(a, b). a \<noteq> b \<and> (a = x \<and> b \<in> set ys \<or> a \<in> set ys \<and> b = x)}" for ys e
    by (induction ys arbitrary: e) (auto simp: rel_add_edge)
  then show ?case using Cons by auto
qed simp

lemma rel_all_pairs: "rel (add_pairs [] xs e) = rel e \<union> all_pairs (set xs)"
  by (auto simp: rel_add_pairs all_pairs_def)

section \<open>One block\<close>

definition gdefs :: "scalar_type \<Rightarrow> inst \<Rightarrow> areg set" where "gdefs ty i = {r \<in> set (def_reg i). in_graph ty r}"
definition guses :: "scalar_type \<Rightarrow> inst \<Rightarrow> areg set" where "guses ty i = {r \<in> set (use_reg i). in_graph ty r}"

definition live_before :: "scalar_type \<Rightarrow> inst \<Rightarrow> areg set \<Rightarrow> areg set" where
  "live_before ty i live = (live - gdefs ty i) \<union> guses ty i"

definition clique :: "areg set \<Rightarrow> edges \<Rightarrow> bool" where
  "clique A e = (\<forall>a \<in> A. \<forall>b \<in> A. a \<noteq> b \<longrightarrow> (ar_id a, ar_id b) \<in> rel e)"

definition defs_linked :: "scalar_type \<Rightarrow> inst \<Rightarrow> areg set \<Rightarrow> edges \<Rightarrow> bool" where
  "defs_linked ty i live e = (\<forall>d \<in> gdefs ty i. \<forall>x \<in> live \<union> gdefs ty i. x \<noteq> d \<longrightarrow> (ar_id d, ar_id x) \<in> rel e)"

text \<open>The argument is the reversed block, as for \<open>graph_insts\<close>.\<close>

fun interf_ok :: "scalar_type \<Rightarrow> inst list \<Rightarrow> areg set \<Rightarrow> edges \<Rightarrow> bool" where
  "interf_ok ty [] live e = True"
| "interf_ok ty (i # is) live e = (defs_linked ty i live e \<and> interf_ok ty is (live_before ty i live) e)"

lemma defs_linked_mono: "defs_linked ty i live e \<Longrightarrow> rel e \<subseteq> rel e' \<Longrightarrow> defs_linked ty i live e'"
  unfolding defs_linked_def by blast

lemma interf_ok_mono: "interf_ok ty is live e \<Longrightarrow> rel e \<subseteq> rel e' \<Longrightarrow> interf_ok ty is live e'"
  by (induction "is" arbitrary: live) (auto intro: defs_linked_mono)

definition of_type :: "scalar_type \<Rightarrow> areg set \<Rightarrow> bool" where
  "of_type ty A = (finite A \<and> (\<forall>r \<in> A. in_graph ty r))"

lemma of_type_id: "of_type ty A \<Longrightarrow> a \<in> A \<Longrightarrow> in_graph ty b \<Longrightarrow> ar_id a = ar_id b \<Longrightarrow> a = b"
  by (cases a; cases b) (auto simp: of_type_def in_graph_def)

lemma gdefs_type [simp]: "of_type ty (gdefs ty i)" and guses_type [simp]: "of_type ty (guses ty i)"
  by (auto simp: of_type_def gdefs_def guses_def)

lemma live_before_type: "of_type ty live \<Longrightarrow> of_type ty (live_before ty i live)"
  by (auto simp: of_type_def live_before_def gdefs_def guses_def)

text \<open>A step extends the relation, by pairs inside a set, off the diagonal.\<close>

definition extends :: "areg set \<Rightarrow> edges \<Rightarrow> edges \<Rightarrow> bool" where
  "extends A e e' = (rel e \<subseteq> rel e' \<and> rel e' \<subseteq> rel e \<union> all_pairs (ar_id ` A) \<and> (sym (rel e) \<longrightarrow> sym (rel e')))"

lemma extends_trans: "extends A e e1 \<Longrightarrow> extends B e1 e2 \<Longrightarrow> A \<subseteq> C \<Longrightarrow> B \<subseteq> C \<Longrightarrow> extends C e e2"
  unfolding extends_def all_pairs_def by blast

lemma extends_refl: "extends A e e"
  by (simp add: extends_def)

lemma extends_link:
  assumes "of_type ty live" and "in_graph ty r" and "r \<notin> live"
  shows "extends (insert r live) e (link_live r live e)"
proof -
  have "finite live" using assms(1) by (simp add: of_type_def)
  note l = rel_link_live [OF this, of r e]
  have n: "ar_id r \<noteq> ar_id x" if "x \<in> live" for x using of_type_id [OF assms(1) that assms(2)] assms(3) that by metis
  then have "(\<Union>x \<in> live. {(ar_id r, ar_id x), (ar_id x, ar_id r)}) \<subseteq> all_pairs (ar_id ` insert r live)"
    by (fastforce simp: all_pairs_def)
  moreover have "sym (\<Union>x \<in> live. {(ar_id r, ar_id x), (ar_id x, ar_id r)})" by (auto simp: sym_def)
  ultimately show ?thesis unfolding extends_def l by (auto simp: sym_Un)
qed

lemma extends_pairs: "set xs \<subseteq> ar_id ` A \<Longrightarrow> extends A e (add_pairs [] xs e)"
  by (auto simp: extends_def rel_all_pairs all_pairs_def sym_def)

lemma graph_uses_ok:
  assumes "of_type ty live" and "\<forall>r \<in> set rs. in_graph ty r" and "clique live e" and "sym (rel e)"
  shows "fst (graph_uses rs live e) = live \<union> set rs \<and> clique (live \<union> set rs) (snd (graph_uses rs live e)) \<and>
    extends (live \<union> set rs) e (snd (graph_uses rs live e))"
  using assms
proof (induction rs arbitrary: live e)
  case (Cons r rs)
  show ?case
  proof (cases "r \<in> live")
    case True
    then show ?thesis using Cons by (simp add: insert_absorb)
  next
    case False
    let ?e = "link_live r live e"
    have fin: "finite live" and t: "of_type ty (insert r live)" using Cons.prems by (auto simp: of_type_def)
    have ex: "extends (insert r live) e ?e" using extends_link [OF Cons.prems(1) _ False] Cons.prems(2) by simp
    then have "clique (insert r live) ?e"
      using Cons.prems(3) rel_link_live [OF fin, of r e] by (auto simp: clique_def extends_def)
    moreover have "sym (rel ?e)" using ex Cons.prems(4) by (simp add: extends_def)
    ultimately have ih: "fst (graph_uses rs (insert r live) ?e) = insert r live \<union> set rs \<and>
        clique (insert r live \<union> set rs) (snd (graph_uses rs (insert r live) ?e)) \<and>
        extends (insert r live \<union> set rs) ?e (snd (graph_uses rs (insert r live) ?e))"
      using Cons.IH [OF t] Cons.prems(2) by simp
    have u: "live \<union> set (r # rs) = insert r live \<union> set rs" by auto
    have "extends (live \<union> set (r # rs)) e (snd (graph_uses rs (insert r live) ?e))"
      unfolding u by (rule extends_trans [OF ex]) (use ih in auto)
    then show ?thesis using ih False unfolding u by simp
  qed
qed (simp add: extends_refl)

lemma graph_defs_ok:
  assumes "of_type ty live" and "\<forall>r \<in> set rs. in_graph ty r" and "clique live e"
  shows "extends (live \<union> set rs) e (graph_defs rs live e) \<and>
    (\<forall>r \<in> set rs. \<forall>x \<in> live. x \<noteq> r \<longrightarrow> (ar_id r, ar_id x) \<in> rel (graph_defs rs live e))"
  using assms
proof (induction rs arbitrary: e)
  case (Cons r rs)
  let ?e = "if r \<notin> live then link_live r live e else e"
  have fin: "finite live" using Cons.prems by (simp add: of_type_def)
  have ex: "extends (insert r live) e ?e"
    using extends_link [OF Cons.prems(1), of r e] Cons.prems(2) by (simp add: extends_refl)
  have "clique live ?e" using Cons.prems(3) ex unfolding clique_def extends_def by blast
  then have ih: "extends (live \<union> set rs) ?e (graph_defs rs live ?e)"
    "\<forall>r \<in> set rs. \<forall>x \<in> live. x \<noteq> r \<longrightarrow> (ar_id r, ar_id x) \<in> rel (graph_defs rs live ?e)"
    using Cons.IH [OF Cons.prems(1)] Cons.prems(2) by auto
  have "(ar_id r, ar_id x) \<in> rel ?e" if "x \<in> live" "x \<noteq> r" for x
    using that Cons.prems(3) rel_link_live [OF fin, of r e] by (auto simp: clique_def)
  then have "(ar_id r, ar_id x) \<in> rel (graph_defs rs live ?e)" if "x \<in> live" "x \<noteq> r" for x
    using that ih(1) unfolding extends_def by blast
  moreover have "extends (live \<union> set (r # rs)) e (graph_defs rs live ?e)"
    by (rule extends_trans [OF ex ih(1)]) auto
  ultimately show ?case using ih(2) by simp
qed (simp add: extends_refl)

definition regs_in :: "scalar_type \<Rightarrow> inst list \<Rightarrow> areg set" where
  "regs_in ty is = (\<Union>i \<in> set is. gdefs ty i \<union> guses ty i)"

lemma regs_in_Cons [simp]: "regs_in ty (i # is) = gdefs ty i \<union> guses ty i \<union> regs_in ty is"
  by (simp add: regs_in_def)

lemma regs_in_Nil [simp]: "regs_in ty [] = {}"
  by (simp add: regs_in_def)

lemma clique_mono: "clique A e \<Longrightarrow> B \<subseteq> A \<Longrightarrow> rel e \<subseteq> rel e' \<Longrightarrow> clique B e'"
  unfolding clique_def by blast

lemma graph_insts_ok:
  assumes "of_type ty live" and "clique live e" and "sym (rel e)"
    and "is \<noteq> [] \<longrightarrow> defs_linked ty (hd is) live e"
  shows "interf_ok ty is live (snd (graph_insts ty is live (oc, e))) \<and>
    extends (live \<union> regs_in ty is) e (snd (graph_insts ty is live (oc, e))) \<and>
    fst (graph_insts ty is live (oc, e)) = oc \<union> ar_id ` regs_in ty is"
  using assms
proof (induction "is" arbitrary: live oc e)
  case (Cons i "is")
  let ?ds = "filter (in_graph ty) (def_reg i)" and ?us = "filter (in_graph ty) (use_reg i)"
  let ?nd = "case is of [] \<Rightarrow> [] | j # _ \<Rightarrow> filter (in_graph ty) (def_reg j)"
  let ?l1 = "live - set ?ds" and ?live = "live_before ty i live"
  let ?e2 = "snd (graph_uses ?us ?l1 e)"
  let ?e3 = "graph_defs ?nd ?live ?e2"
  let ?e4 = "add_pairs [] (map ar_id (?us @ ?nd)) ?e3"
  let ?oc = "oc \<union> ar_id ` set ?ds \<union> ar_id ` set ?us"
  have ds: "set ?ds = gdefs ty i" "set ?us = guses ty i" by (auto simp: gdefs_def guses_def)
  have nd: "set ?nd = (if is = [] then {} else gdefs ty (hd is))" "\<forall>r \<in> set ?nd. in_graph ty r"
    by (cases "is"; auto simp: gdefs_def)+
  have t1: "of_type ty ?l1" using Cons.prems(1) by (auto simp: of_type_def)
  have "clique ?l1 e" by (rule clique_mono [OF Cons.prems(2)]) auto
  from graph_uses_ok [OF t1 _ this Cons.prems(3), of ?us] have
    u: "fst (graph_uses ?us ?l1 e) = ?live" "clique ?live ?e2" "extends ?live e ?e2"
    by (simp_all add: live_before_def ds [symmetric])
  have t2: "of_type ty ?live" by (rule live_before_type [OF Cons.prems(1)])
  from graph_defs_ok [OF t2 nd(2) u(2)] have
    d: "extends (?live \<union> set ?nd) ?e2 ?e3" "\<forall>r \<in> set ?nd. \<forall>x \<in> ?live. x \<noteq> r \<longrightarrow> (ar_id r, ar_id x) \<in> rel ?e3" by auto
  have us: "set ?us \<subseteq> ?live" unfolding ds live_before_def by blast
  have "set (map ar_id (?us @ ?nd)) \<subseteq> ar_id ` (?live \<union> set ?nd)" unfolding set_map set_append using us by blast
  from extends_pairs [OF this] have p: "extends (?live \<union> set ?nd) ?e3 ?e4" .
  have step: "extends (?live \<union> set ?nd) e ?e4"
    using extends_trans [OF extends_trans [OF u(3) d(1) Un_upper1 subset_refl] p subset_refl subset_refl] .
  have sym4: "sym (rel ?e4)" using step Cons.prems(3) by (simp add: extends_def)
  have cl: "clique ?live ?e4"
    by (rule clique_mono [OF u(2) subset_refl]) (use d(1) p in \<open>auto simp: extends_def\<close>)
  have dl: "is \<noteq> [] \<longrightarrow> defs_linked ty (hd is) ?live ?e4"
  proof
    assume ne: "is \<noteq> []"
    show "defs_linked ty (hd is) ?live ?e4"
      unfolding defs_linked_def
    proof (intro ballI impI)
      fix x y assume x: "x \<in> gdefs ty (hd is)" and y: "y \<in> ?live \<union> gdefs ty (hd is)" "y \<noteq> x"
      have xn: "x \<in> set ?nd" using x ne nd(1) by simp
      show "(ar_id x, ar_id y) \<in> rel ?e4"
      proof (cases "y \<in> ?live")
        case True
        then have "(ar_id x, ar_id y) \<in> rel ?e3" using d(2) xn y(2) by blast
        then show ?thesis using p by (auto simp: extends_def)
      next
        case False
        then have yn: "y \<in> set ?nd" using y ne nd(1) by simp
        have "ar_id x \<noteq> ar_id y"
          using of_type_id [OF gdefs_type, of x ty "hd is" y] x y(2) nd(2) yn by metis
        then show ?thesis using xn yn by (auto simp: rel_all_pairs all_pairs_def)
      qed
    qed
  qed
  obtain e4 where e4: "e4 = ?e4" by blast
  obtain G where G: "G = graph_insts ty is ?live (?oc, e4)" by blast
  have g: "graph_insts ty (i # is) live (oc, e) = G"
    using u(1) by (simp add: Let_def case_prod_beta G e4)
  have ih: "interf_ok ty is ?live (snd G)" "extends (?live \<union> regs_in ty is) e4 (snd G)"
    "fst G = ?oc \<union> ar_id ` regs_in ty is"
    using Cons.IH [OF t2 cl sym4 dl, of ?oc] unfolding G e4 by blast+
  note step = step [folded e4]
  have r: "rel e \<subseteq> rel (snd G)" using step ih(2) unfolding extends_def by blast
  have "defs_linked ty i live e" using Cons.prems(4) by simp
  then have "defs_linked ty i live (snd G)" using r by (rule defs_linked_mono)
  then have "interf_ok ty (i # is) live (snd G)" using ih(1) by simp
  moreover have "extends (live \<union> regs_in ty (i # is)) e (snd G)"
  proof (rule extends_trans [OF step ih(2)])
    show "?live \<union> set ?nd \<subseteq> live \<union> regs_in ty (i # is)"
      unfolding nd(1) by (cases "is") (auto simp: live_before_def)
    show "?live \<union> regs_in ty is \<subseteq> live \<union> regs_in ty (i # is)" by (auto simp: live_before_def)
  qed
  moreover have "fst G = oc \<union> ar_id ` regs_in ty (i # is)"
    unfolding ih(3) ds regs_in_Cons by blast
  ultimately show ?case unfolding g by blast
qed (simp add: extends_refl)

lemma graph_block_ok:
  assumes "finite out" and "\<forall>r \<in> out. tracked r" and "sym (rel e)"
  shows "interf_ok ty (rev is) {r \<in> out. ar_type r = ty} (snd (graph_block ty out is (oc, e))) \<and>
    extends ({r \<in> out. ar_type r = ty} \<union> regs_in ty is) e (snd (graph_block ty out is (oc, e))) \<and>
    fst (graph_block ty out is (oc, e)) = oc \<union> ar_id ` regs_in ty is"
proof -
  let ?live = "{r \<in> out. ar_type r = ty}"
  have ig: "in_graph ty r" if "r \<in> ?live" for r
    using that assms(2) by (auto simp: in_graph_def tracked_def is_allocable_def reg_usage_def)
  then have eq: "{r \<in> ?live. in_graph ty r} = ?live" by blast
  have t: "of_type ty ?live" using assms(1) ig by (auto simp: of_type_def)
  let ?temp = "map ar_id (sorted_list_of_set ?live) @
      (if is = [] then [] else map ar_id (filter (in_graph ty) (def_reg (last is))))"
  let ?e = "add_pairs [] ?temp e"
  let ?D = "if is = [] then {} else gdefs ty (last is)"
  have temp: "set ?temp = ar_id ` (?live \<union> ?D)" using assms(1) by (auto simp: gdefs_def)
  have D: "?D \<subseteq> regs_in ty is" by (auto simp: regs_in_def intro!: bexI [of _ "last is"])
  have "of_type ty (?live \<union> ?D)" using t by (auto simp: of_type_def gdefs_def)
  then have inj: "ar_id a \<noteq> ar_id b" if "a \<in> ?live \<union> ?D" "b \<in> ?live \<union> ?D" "a \<noteq> b" for a b
    using that of_type_id [of ty "?live \<union> ?D" a b] by (auto simp: of_type_def)
  have pairs: "(ar_id a, ar_id b) \<in> rel ?e" if "a \<in> ?live \<union> ?D" "b \<in> ?live \<union> ?D" "a \<noteq> b" for a b
    unfolding rel_all_pairs all_pairs_def temp using that inj [OF that] by blast
  then have cl: "clique ?live ?e" unfolding clique_def by blast
  have dl: "rev is \<noteq> [] \<longrightarrow> defs_linked ty (hd (rev is)) ?live ?e"
    using pairs by (auto simp: defs_linked_def hd_rev)
  have ex: "extends (?live \<union> ?D) e ?e" by (rule extends_pairs) (simp only: temp subset_refl)
  then have sym: "sym (rel ?e)" using assms(3) by (simp add: extends_def)
  have ri: "regs_in ty (rev is) = regs_in ty is" by (simp add: regs_in_def)
  have gb: "graph_block ty out is (oc, e) = graph_insts ty (rev is) ?live (oc, ?e)"
    unfolding graph_block_def Let_def eq by simp
  note gi = graph_insts_ok [OF t cl sym dl, of oc, unfolded ri]
  have "extends (?live \<union> regs_in ty is) e (snd (graph_insts ty (rev is) ?live (oc, ?e)))"
    by (rule extends_trans [OF ex, of "?live \<union> regs_in ty is"]) (use gi D in auto)
  then show ?thesis unfolding gb using gi by simp
qed

section \<open>The function\<close>

lemma graph_blocks_ok:
  assumes "\<forall>b. finite (lout b) \<and> (\<forall>r \<in> lout b. tracked r)" and "sym (rel e)"
  shows "(\<forall>b \<in> set bs. interf_ok ty (rev (fb_insts b)) {r \<in> lout (fb_id b). ar_type r = ty} (snd (graph_blocks ty lout bs (oc, e)))) \<and>
    extends ((\<Union>b \<in> set bs. {r \<in> lout (fb_id b). ar_type r = ty} \<union> regs_in ty (fb_insts b))) e (snd (graph_blocks ty lout bs (oc, e))) \<and>
    fst (graph_blocks ty lout bs (oc, e)) = oc \<union> (\<Union>b \<in> set bs. ar_id ` regs_in ty (fb_insts b))"
  using assms(2)
proof (induction bs arbitrary: oc e)
  case (Cons b bs)
  obtain oc1 e1 where g: "graph_block ty (lout (fb_id b)) (fb_insts b) (oc, e) = (oc1, e1)"
    by (cases "graph_block ty (lout (fb_id b)) (fb_insts b) (oc, e)")
  from graph_block_ok [of "lout (fb_id b)" e ty "fb_insts b" oc] assms(1) Cons.prems
  have b: "interf_ok ty (rev (fb_insts b)) {r \<in> lout (fb_id b). ar_type r = ty} e1"
    "extends ({r \<in> lout (fb_id b). ar_type r = ty} \<union> regs_in ty (fb_insts b)) e e1"
    "oc1 = oc \<union> ar_id ` regs_in ty (fb_insts b)" by (simp_all add: g)
  then have "sym (rel e1)" using Cons.prems by (simp add: extends_def)
  obtain G where G: "G = graph_blocks ty lout bs (oc1, e1)" by blast
  from Cons.IH [OF \<open>sym (rel e1)\<close>, of oc1, folded G] have ih:
    "\<forall>b \<in> set bs. interf_ok ty (rev (fb_insts b)) {r \<in> lout (fb_id b). ar_type r = ty} (snd G)"
    "extends ((\<Union>b \<in> set bs. {r \<in> lout (fb_id b). ar_type r = ty} \<union> regs_in ty (fb_insts b))) e1 (snd G)"
    "fst G = oc1 \<union> (\<Union>b \<in> set bs. ar_id ` regs_in ty (fb_insts b))" by blast+
  have "interf_ok ty (rev (fb_insts b)) {r \<in> lout (fb_id b). ar_type r = ty} (snd G)"
    by (rule interf_ok_mono [OF b(1)]) (use ih(2) in \<open>simp add: extends_def\<close>)
  moreover have "extends ((\<Union>b \<in> set (b # bs). {r \<in> lout (fb_id b). ar_type r = ty} \<union> regs_in ty (fb_insts b))) e (snd G)"
    by (rule extends_trans [OF b(2) ih(2)]) auto
  moreover have "graph_blocks ty lout (b # bs) (oc, e) = G" by (simp add: g G)
  ultimately show ?case using ih(1,3) b(3) by auto
qed (simp add: extends_refl)

lemma block_use_def_uses: "fst (block_use_def is) \<subseteq> {r. tracked r \<and> (\<exists>i \<in> set is. r \<in> set (use_reg i))}"
  by (induction "is") (auto simp: Let_def split: prod.splits)

definition fun_regs :: "scalar_type \<Rightarrow> flow_block list \<Rightarrow> areg set" where
  "fun_regs ty bs = (\<Union>b \<in> set bs. regs_in ty (fb_insts b))"

text \<open>Only registers that are used somewhere are ever live.\<close>

lemma live_used:
  assumes "live_ok (use_of bs) (def_set_of bs) (preds_of bs) (lin, lout, [])"
  shows "lout b \<subseteq> {r. tracked r \<and> (\<exists>c \<in> set bs. \<exists>i \<in> set (fb_insts c). r \<in> set (use_reg i))}" (is "_ \<subseteq> ?W")
proof -
  have "use_of bs b \<subseteq> ?W" for b
  proof (cases "b \<in> fb_id ` set bs")
    case True
    then have "find (\<lambda>c. fb_id c = b) bs \<noteq> None" by (auto simp: find_None_iff)
    then obtain c where f: "find (\<lambda>c. fb_id c = b) bs = Some c" by blast
    then have "block_at bs b = c" by (simp add: block_at_def)
    moreover have "c \<in> set bs" using f by (auto simp: find_Some_iff)
    ultimately have "block_at bs b = c" "c \<in> set bs" .
    then show ?thesis using block_use_def_uses [of "fb_insts c"] unfolding use_of_def live_use_def by blast
  next
    case False
    then show ?thesis by (simp add: use_of_out)
  qed
  then have "live_closed (use_of bs) (def_set_of bs) (preds_of bs) (\<lambda>_. ?W) (\<lambda>_. ?W)"
    unfolding live_closed_def by blast
  from live_ok_final(2) [OF assms this] show ?thesis by blast
qed

lemma tracked_in_graph: "tracked r \<Longrightarrow> in_graph (ar_type r) r"
  by (auto simp: in_graph_def tracked_def is_allocable_def reg_usage_def)

lemma in_graph_tracked: "in_graph ty r \<Longrightarrow> tracked r \<and> ar_type r = ty"
  by (auto simp: in_graph_def tracked_def is_allocable_def reg_usage_def)

text \<open>\<open>numbers_ok\<close>: the numbers of the registers lie in the range the allocator works on.\<close>

definition numbers_ok :: "scalar_type \<Rightarrow> int \<Rightarrow> flow_block list \<Rightarrow> bool" where
  "numbers_ok ty n bs = (\<forall>r \<in> fun_regs ty bs. 0 \<le> ar_id r \<and> ar_id r < n)"

lemma build_graph_ok:
  assumes "edges_ok bs" and "ty = IntT \<or> ty = FloatT" and "numbers_ok ty n bs"
  shows "\<exists>lin lout g. calc_live bs = Some (lin, lout) \<and>
    live_ok (use_of bs) (def_set_of bs) (preds_of bs) (lin, lout, []) \<and>
    build_graph ty bs = Some g \<and> graph_ok ty n g \<and> fst g = ar_id ` fun_regs ty bs \<and>
    (\<forall>b \<in> set bs. interf_ok ty (rev (fb_insts b)) {r \<in> lout (fb_id b). ar_type r = ty} (snd g))"
proof -
  from calc_live_result [OF assms(1)] obtain lin lout where
    c: "calc_live bs = Some (lin, lout)" "live_ok (use_of bs) (def_set_of bs) (preds_of bs) (lin, lout, [])" by blast
  note used = live_used [OF c(2)]
  have "finite {r. tracked r \<and> (\<exists>c \<in> set bs. \<exists>i \<in> set (fb_insts c). r \<in> set (use_reg i))}"
    by (rule finite_subset [of _ "\<Union>c \<in> set bs. \<Union>i \<in> set (fb_insts c). set (use_reg i)"]) auto
  then have lo: "\<forall>b. finite (lout b) \<and> (\<forall>r \<in> lout b. tracked r)" using used finite_subset by blast
  obtain g where g: "g = graph_blocks ty lout bs ({}, (\<lambda>_. {}))" by blast
  have "sym (rel (\<lambda>_. {}))" by (simp add: rel_def sym_def)
  from graph_blocks_ok [OF lo this, of bs ty "{}", folded g] have
    r: "\<forall>b \<in> set bs. interf_ok ty (rev (fb_insts b)) {r \<in> lout (fb_id b). ar_type r = ty} (snd g)"
      "extends (\<Union>b \<in> set bs. {r \<in> lout (fb_id b). ar_type r = ty} \<union> regs_in ty (fb_insts b)) (\<lambda>_. {}) (snd g)"
      "fst g = (\<Union>b \<in> set bs. ar_id ` regs_in ty (fb_insts b))" by auto
  have fg: "fst g = ar_id ` fun_regs ty bs" using r(3) by (auto simp: fun_regs_def)
  have "(\<Union>b \<in> set bs. {r \<in> lout (fb_id b). ar_type r = ty} \<union> regs_in ty (fb_insts b)) \<subseteq> fun_regs ty bs"
  proof
    fix r assume "r \<in> (\<Union>b \<in> set bs. {r \<in> lout (fb_id b). ar_type r = ty} \<union> regs_in ty (fb_insts b))"
    then consider b where "r \<in> lout b" "ar_type r = ty" | "r \<in> fun_regs ty bs" by (auto simp: fun_regs_def)
    then show "r \<in> fun_regs ty bs"
    proof cases
      case 1
      then obtain c i where "c \<in> set bs" "i \<in> set (fb_insts c)" "r \<in> set (use_reg i)" "tracked r" using used by blast
      then show ?thesis using tracked_in_graph [of r] 1(2) by (auto simp: fun_regs_def regs_in_def guses_def)
    qed
  qed
  moreover have "rel (\<lambda>_. {}) = {}" by (simp add: rel_def)
  ultimately have sub: "rel (snd g) \<subseteq> all_pairs (fst g)" and sy: "sym (rel (snd g))"
    using r(2) unfolding extends_def fg all_pairs_def by (blast, simp add: sym_def)
  have fin: "finite (fst g)" unfolding r(3) by (auto simp: regs_in_def gdefs_def guses_def)
  have "graph_ok ty n g"
    unfolding graph_ok_def
  proof (intro conjI allI ballI impI)
    fix i
    have "snd g i \<subseteq> fst g" using sub by (auto simp: rel_def all_pairs_def)
    then show "snd g i \<subseteq> fst g" "finite (snd g i)" using fin by (auto intro: finite_subset)
    show "i \<notin> snd g i" using sub by (auto simp: rel_def all_pairs_def)
    show "j \<in> snd g i \<Longrightarrow> i \<in> snd g j" for j using sy by (auto simp: rel_def sym_def)
  next
    fix i assume "i \<in> fst g"
    then obtain x where x: "x \<in> fun_regs ty bs" "i = ar_id x" using fg by auto
    then show "i < n" using assms(3) by (auto simp: numbers_ok_def)
    assume "i < reg_count ty"
    moreover have "in_graph ty x" using x(1) by (auto simp: fun_regs_def regs_in_def gdefs_def guses_def)
    moreover have "0 \<le> i" using assms(3) x by (auto simp: numbers_ok_def)
    ultimately show "i \<in> machine_regs ty"
      using assms(2) x(2)
      by (auto simp: machine_regs_def in_graph_def is_pseudo_def reg_count_def)
  qed
  then show ?thesis using c r(1) fg by (simp add: build_graph_def g)
qed

end
