(* ===== verification/Dce.thy ===== *)
theory Dce
  imports Liveness
begin

text \<open>
  The removal of dead instructions (\<open>src/arm/opt/dce.cpp\<close>) and what it preserves: with the sets
  of \<open>Liveness\<close>, and on instructions whose declared registers are exact, the remaining
  function computes the same result, memory and stack.
\<close>

section \<open>Removal of dead instructions\<close>

text \<open>The test of \<open>dce\<close> on one instruction, with what is live after it.\<close>

definition dce_used :: "inst \<Rightarrow> areg set \<Rightarrow> bool \<Rightarrow> bool" where
  "dce_used i live use_flags =
     (side_effect i \<or> change_cpsr i \<and> use_flags \<or>
      list_ex (\<lambda>r. is_machine r \<and> \<not> is_allocable r \<or> r \<in> live) (def_reg i))"

text \<open>The loop from the last instruction: the instructions kept, what is live before them, and
  whether the flags are used.\<close>

fun dce_insts :: "inst list \<Rightarrow> areg set \<Rightarrow> bool \<Rightarrow> inst list \<times> areg set \<times> bool" where
  "dce_insts [] live fl = ([], live, fl)"
| "dce_insts (i # is) live fl =
     (let (ks, lv, f) = dce_insts is live fl in
      if dce_used i lv f
      then (i # ks, update_live i lv, f \<and> \<not> change_cpsr i \<or> use_cpsr i)
      else (ks, lv, f))"

definition dce_block :: "areg set \<Rightarrow> flow_block \<Rightarrow> flow_block" where
  "dce_block live b = b\<lparr>fb_insts := fst (dce_insts (fb_insts b) live False)\<rparr>"

definition dce :: "flow_block list \<Rightarrow> flow_block list option" where
  "dce bs = map_option (\<lambda>(lin, lout). map (\<lambda>b. dce_block (lout (fb_id b)) b) bs) (calc_live bs)"

section \<open>One block\<close>

text \<open>The locations that matter after an instruction.\<close>

definition live_locs :: "areg set \<Rightarrow> bool \<Rightarrow> loc set" where
  "live_locs lv f = LReg ` lv \<union> (if f then {LFlags} else {})"

lemma loc_agree_regs: "\<forall>l \<in> live_locs L f. loc_agree l s t \<Longrightarrow> r \<in> L \<Longrightarrow> a_reg s r = a_reg t r"
  by (simp add: live_locs_def ball_Un)

lemma dce_live_le: "fst (snd (dce_insts is L f)) \<subseteq> foldr update_live is L"
proof (induction "is")
  case (Cons i "is")
  obtain ks lv g where d: "dce_insts is L f = (ks, lv, g)" by (cases "dce_insts is L f")
  have "lv \<subseteq> foldr update_live is L" using Cons d by simp
  moreover have "lv \<subseteq> update_live i lv" if "\<not> dce_used i lv g"
    using that by (auto simp: dce_used_def update_live_def list_ex_iff)
  moreover have "update_live i lv \<subseteq> update_live i (foldr update_live is L)" if "lv \<subseteq> foldr update_live is L"
    using that by (auto simp: update_live_def)
  ultimately show ?case by (auto simp: d split: if_splits)
qed simp

lemma jump_defs: "is_jump (i_op i) \<Longrightarrow> def_reg i = [] \<and> side_effect i \<and> \<not> change_cpsr i"
  by (cases "i_op i") (simp_all add: def_reg_def side_effect_def change_cpsr_def)

lemma dce_jumps_live:
  "list_all (\<lambda>i. is_jump (i_op i)) is \<Longrightarrow> L \<subseteq> fst (snd (dce_insts is L f))"
proof (induction "is")
  case (Cons i "is")
  obtain ks lv g where d: "dce_insts is L f = (ks, lv, g)" by (cases "dce_insts is L f")
  then show ?case using Cons jump_defs [of i] by (auto simp: dce_used_def update_live_def)
qed simp

lemma dead_no_effect:
  "\<not> dce_used i lv f \<Longrightarrow> \<not> inst_effect i \<and> inst_defs i \<inter> live_locs lv f = {}"
  by (auto simp: dce_used_def inst_effect_def inst_defs_def live_locs_def tracked_def is_machine_def
      is_pseudo_def list_ex_iff split: if_splits)

lemma agree_before:
  assumes "\<forall>l \<in> live_locs (update_live i lv) (f \<and> \<not> change_cpsr i \<or> use_cpsr i). loc_agree l s t"
    and "arm_same_env s t"
  shows "\<forall>l \<in> (live_locs lv f - inst_defs i) \<union> inst_uses i. loc_agree l s t"
proof
  fix l assume l: "l \<in> (live_locs lv f - inst_defs i) \<union> inst_uses i"
  show "loc_agree l s t"
  proof (cases l)
    case (LReg r)
    show ?thesis
    proof (cases "tracked r")
      case True
      then have "r \<in> update_live i lv"
        using l by (auto simp: LReg live_locs_def inst_defs_def inst_uses_def update_live_def split: if_splits)
      then show ?thesis using loc_agree_regs [OF assms(1)] by (simp add: LReg)
    next
      case False
      then show ?thesis using assms(2) by (simp add: LReg arm_same_env_def)
    qed
  next
    case LFlags
    then have "f \<and> \<not> change_cpsr i \<or> use_cpsr i"
      using l by (auto simp: live_locs_def inst_defs_def inst_uses_def split: if_splits)
    then show ?thesis using assms(1) by (simp add: LFlags live_locs_def)
  qed
qed

text \<open>A jump: the same one is taken in both states.\<close>

definition ret_agree :: "scalar_type \<Rightarrow> arm_state \<Rightarrow> arm_state \<Rightarrow> bool" where
  "ret_agree rt s t = (a_ctl s = Returned \<longrightarrow> (\<forall>r \<in> set (op_use_reg Always (Return rt)). a_reg s r = a_reg t r))"

definition ret_type :: "scalar_type \<Rightarrow> inst \<Rightarrow> bool" where
  "ret_type rt i = (case i_op i of Return t \<Rightarrow> t = rt | _ \<Rightarrow> True)"

lemma jump_step:
  assumes "is_jump (i_op i)" and "ret_type rt i" and "a_ctl s = Fall"
    and "\<forall>l \<in> inst_uses i. loc_agree l s t" and "arm_same_env s t" and "arm_step env i s = Some s'"
  shows "\<exists>t'. arm_step env i t = Some t' \<and> arm_same_env s' t' \<and> (\<forall>l. loc_agree l s t \<longrightarrow> loc_agree l s' t')
     \<and> ret_agree rt s' t' \<and> (a_ctl s' = Fall \<longrightarrow> s' = s \<and> t' = t)"
proof -
  have t: "a_ctl t = Fall" using assms(3,5) by (simp add: arm_same_env_def)
  have f: "cond_holds (i_cond i) (a_flags s) = cond_holds (i_cond i) (a_flags t)"
    using assms(4) by (cases "i_cond i = Always") (auto simp: inst_uses_def use_cpsr_def)
  have same: "arm_same_env (s\<lparr>a_ctl := c\<rparr>) (t\<lparr>a_ctl := c\<rparr>)" for c
    using assms(5) by (simp add: arm_same_env_def)
  have ag: "loc_agree l s t \<Longrightarrow> loc_agree l (s\<lparr>a_ctl := c\<rparr>) (t\<lparr>a_ctl := c\<rparr>)" for l c by (cases l) auto
  show ?thesis
  proof (cases "cond_holds (i_cond i) (a_flags s)")
    case True
    show ?thesis
    proof (cases "i_op i")
      case (Branch b)
      then show ?thesis using assms(6) True f assms(3) t same ag by (auto simp: arm_step_def ret_agree_def)
    next
      case (Return x)
      have "\<forall>r \<in> set (use_reg i). a_reg s r = a_reg t r" using assms(4) by (simp add: inst_uses_def ball_Un)
      then have "ret_agree rt (s\<lparr>a_ctl := Returned\<rparr>) (t\<lparr>a_ctl := Returned\<rparr>)"
        using assms(2) Return by (simp add: ret_agree_def ret_type_def use_reg_def)
      then show ?thesis using Return assms(6) True f assms(3) t same ag by (auto simp: arm_step_def)
    qed (use assms(1) in auto)
  next
    case False
    then have "s' = s" "arm_step env i t = Some t"
      using assms(1,3,6) t f by (cases "i_op i"; auto simp: arm_step_def skip_op_def)+
    then show ?thesis using assms(3,5) by (auto simp: ret_agree_def)
  qed
qed


lemma jumps_tail: "list_all (\<lambda>i. is_jump (i_op i)) is \<Longrightarrow> jump_tail is"
  by (cases "is") auto

lemma dce_insts_sim:
  assumes "list_all (exact env) is" and "list_all (ret_type rt) is" and "jump_tail is"
    and "dce_insts is L False = (ks, lv, f)" and "\<forall>l \<in> live_locs lv f. loc_agree l s t"
    and "arm_same_env s t" and "a_ctl s = Fall" and "arm_run env is s = Some s'"
  shows "\<exists>t'. arm_run env ks t = Some t' \<and> arm_same_env s' t' \<and> (\<forall>r \<in> L. a_reg s' r = a_reg t' r)
     \<and> ret_agree rt s' t'"
  using assms
proof (induction "is" arbitrary: ks lv f s t)
  case Nil
  then show ?case by (auto simp: live_locs_def ret_agree_def)
next
  case (Cons i "is")
  obtain ks1 lv1 f1 where d: "dce_insts is L False = (ks1, lv1, f1)" by (cases "dce_insts is L False")
  obtain s1 where s1: "arm_step env i s = Some s1" "arm_run env is s1 = Some s'"
    using Cons.prems(8) by (auto split: option.splits)
  have ex: "exact env i" "list_all (exact env) is" "ret_type rt i" "list_all (ret_type rt) is"
    using Cons.prems(1,2) by auto
  have ctl: "a_ctl t = Fall" using Cons.prems(6,7) by (simp add: arm_same_env_def)
  show ?case
  proof (cases "is_jump (i_op i)")
    case True
    then have js: "list_all (\<lambda>i. is_jump (i_op i)) is" using Cons.prems(3) by simp
    have kept: "ks = i # ks1" "lv = update_live i lv1" "f = (f1 \<and> \<not> change_cpsr i \<or> use_cpsr i)"
      using Cons.prems(4) d jump_defs [OF True] by (auto simp: dce_used_def)
    note ag = agree_before [OF Cons.prems(5) [unfolded kept] Cons.prems(6)]
    have "\<forall>l \<in> inst_uses i. loc_agree l s t" using ag by blast
    from jump_step [OF True ex(3) Cons.prems(7) this Cons.prems(6) s1(1)] obtain t1 where
      t1: "arm_step env i t = Some t1" "arm_same_env s1 t1" "\<forall>l. loc_agree l s t \<longrightarrow> loc_agree l s1 t1"
        "ret_agree rt s1 t1" "a_ctl s1 = Fall \<longrightarrow> s1 = s \<and> t1 = t" by blast
    have "inst_defs i = {}" using jump_defs [OF True] by (simp add: inst_defs_def)
    then have ag1: "\<forall>l \<in> live_locs lv1 f1. loc_agree l s1 t1" using ag t1(3) by blast
    show ?thesis
    proof (cases "a_ctl s1 = Fall")
      case True
      from Cons.IH [OF ex(2,4) jumps_tail [OF js] d ag1 t1(2) True s1(2)] t1(1) show ?thesis
        by (simp add: kept)
    next
      case False
      then have "s' = s1" "arm_run env ks1 t1 = Some t1"
        using s1(2) t1(2) by (simp_all add: arm_run_left arm_same_env_def)
      moreover have "L \<subseteq> lv1" using dce_jumps_live [OF js, of L False] by (simp add: d)
      ultimately show ?thesis using t1 loc_agree_regs [OF ag1] by (auto simp: kept)
    qed
  next
    case False
    then have jt: "jump_tail is" using Cons.prems(3) by simp
    have b: "body_step env i s = Some s1" using s1(1) Cons.prems(7) by (simp add: body_step_def)
    have ctl1: "a_ctl s1 = Fall" by (rule arm_step_ctl [OF exact_call_ok [OF ex(1)] False s1(1) Cons.prems(7)])
    show ?thesis
    proof (cases "dce_used i lv1 f1")
      case True
      then have kept: "ks = i # ks1" "lv = update_live i lv1" "f = (f1 \<and> \<not> change_cpsr i \<or> use_cpsr i)"
        using Cons.prems(4) d by auto
      from arm.keep_step [OF ex(1) agree_before [OF Cons.prems(5) [unfolded kept] Cons.prems(6)] Cons.prems(6) b]
      obtain t1 where t1: "body_step env i t = Some t1" "arm_same_env s1 t1"
        "\<forall>l \<in> live_locs lv1 f1. loc_agree l s1 t1" by blast
      from Cons.IH [OF ex(2,4) jt d t1(3,2) ctl1 s1(2)] t1(1) ctl show ?thesis
        by (simp add: kept body_step_def)
    next
      case False
      then have kept: "ks = ks1" "lv = lv1" "f = f1" using Cons.prems(4) d by auto
      have "arm_same_env s1 t \<and> (\<forall>l \<in> live_locs lv1 f1. loc_agree l s1 t)"
        using dead_no_effect [OF False] Cons.prems(5)
        by (intro arm.drop_step [OF ex(1) _ _ _ Cons.prems(6) b]) (auto simp: kept)
      then show ?thesis using Cons.IH [OF ex(2,4) jt d _ _ ctl1 s1(2)] by (simp add: kept)
    qed
  qed
qed

section \<open>A function\<close>

text \<open>The flags are set in the block that reads them: the pass takes them as dead at its end.\<close>

fun reads_entry_flags :: "inst list \<Rightarrow> bool" where
  "reads_entry_flags [] = False"
| "reads_entry_flags (i # is) = (use_cpsr i \<or> \<not> change_cpsr i \<and> reads_entry_flags is)"

lemma dce_flags: "snd (snd (dce_insts is L False)) \<Longrightarrow> reads_entry_flags is"
proof (induction "is")
  case (Cons i "is")
  then show ?case by (auto simp: Let_def dce_used_def split: prod.splits if_splits)
qed simp

text \<open>What the pass relies on: the edges are those of the control flow, jumps stand at the end of a
  block, and the declared registers are exact.\<close>

definition dce_pre :: "arm_env \<Rightarrow> scalar_type \<Rightarrow> flow_block list \<Rightarrow> bool" where
  "dce_pre env rt bs =
     (edges_ok bs \<and> branch_edges bs \<and> fall_edges bs \<and>
      list_all (\<lambda>b. list_all (exact env) (fb_insts b) \<and> list_all (ret_type rt) (fb_insts b) \<and>
         list_all plain_return (fb_insts b) \<and> jump_tail (fb_insts b) \<and>
         \<not> reads_entry_flags (fb_insts b)) bs)"

lemma dce_block_id [simp]: "fb_id (dce_block L b) = fb_id b"
  by (simp add: dce_block_def)

lemma dce_drop:
  "dropWhile (\<lambda>b. fb_id b \<noteq> t) (map (\<lambda>b. dce_block (lout (fb_id b)) b) bs) =
   map (\<lambda>b. dce_block (lout (fb_id b)) b) (dropWhile (\<lambda>b. fb_id b \<noteq> t) bs)"
  by (induction bs) auto

lemma live_transfer:
  assumes "live_solution (use_of bs) (def_set_of bs) (preds_of bs) lin lout" and "edges_ok bs" and "b \<in> set bs"
  shows "foldr update_live (fb_insts b) (lout (fb_id b)) = lin (fb_id b)"
proof -
  have "lin (fb_id b) = use_of bs (fb_id b) \<union> (lout (fb_id b) - def_set_of bs (fb_id b))"
    using assms(1) unfolding live_solution_def by blast
  then show ?thesis
    using block_at_in [OF assms(2,3)]
    by (simp add: use_def_transfer use_of_def def_set_of_def live_use_def live_def_def)
qed

lemma dce_block_sim:
  assumes "live_solution (use_of bs) (def_set_of bs) (preds_of bs) lin lout" and "dce_pre env rt bs"
    and "b \<in> set bs" and "arm_same_env s t" and "\<forall>r \<in> lin (fb_id b). a_reg s r = a_reg t r"
    and "a_ctl s = Fall" and "arm_run env (fb_insts b) s = Some s'"
  shows "\<exists>t'. arm_run env (fb_insts (dce_block (lout (fb_id b)) b)) t = Some t' \<and> arm_same_env s' t' \<and>
     (\<forall>r \<in> lout (fb_id b). a_reg s' r = a_reg t' r) \<and> ret_agree rt s' t'"
proof -
  obtain ks lv f where d: "dce_insts (fb_insts b) (lout (fb_id b)) False = (ks, lv, f)"
    by (cases "dce_insts (fb_insts b) (lout (fb_id b)) False")
  have "lv \<subseteq> lin (fb_id b)"
    using dce_live_le [of "fb_insts b" "lout (fb_id b)" False] live_transfer [OF assms(1) _ assms(3)] assms(2) d
    by (simp add: dce_pre_def)
  moreover have "\<not> f"
    using dce_flags [of "fb_insts b" "lout (fb_id b)"] d assms(2,3) by (auto simp: dce_pre_def list_all_iff)
  ultimately have "\<forall>l \<in> live_locs lv f. loc_agree l s t" using assms(5) by (auto simp: live_locs_def)
  moreover have "list_all (exact env) (fb_insts b)" "list_all (ret_type rt) (fb_insts b)" "jump_tail (fb_insts b)"
    using assms(2,3) by (auto simp: dce_pre_def list_all_iff)
  ultimately show ?thesis
    using dce_insts_sim [OF _ _ _ d _ assms(4,6,7)] by (simp add: dce_block_def d)
qed

lemma live_edge:
  assumes "live_solution us df preds lin lout" and "p \<in> set (preds b)"
  shows "lin b \<subseteq> lout p"
  using assms unfolding live_solution_def by blast

text \<open>The run of the reduced function, from any block on.\<close>

lemma dce_flow_sim:
  assumes sol: "live_solution (use_of bs) (def_set_of bs) (preds_of bs) lin lout" and pre: "dce_pre env rt bs"
    and "bs = ys @ xs" and "arm_same_env s t" and "xs \<noteq> [] \<longrightarrow> (\<forall>r \<in> lin (fb_id (hd xs)). a_reg s r = a_reg t r)"
    and "a_ctl s = Fall" and "flow_run env (flow_of bs) n (flow_of xs) s = Some s'"
  shows "\<exists>t'. flow_run env (flow_of (map (\<lambda>b. dce_block (lout (fb_id b)) b) bs)) n
       (flow_of (map (\<lambda>b. dce_block (lout (fb_id b)) b) xs)) t = Some t' \<and> arm_same_env s' t' \<and> ret_agree rt s' t'
       \<and> a_ctl s' = Returned"
  using assms(3-)
proof (induction n arbitrary: ys xs s t)
  case (Suc n)
  let ?f = "\<lambda>b. dce_block (lout (fb_id b)) b"
  obtain b zs where xs: "xs = b # zs" using Suc.prems(5) by (cases xs) (auto simp: flow_of_def)
  have b: "b \<in> set bs" using Suc.prems(1) xs by simp
  obtain s1 where s1: "arm_run env (fb_insts b) s = Some s1"
    using Suc.prems(5) by (auto simp: xs flow_of_def split: option.splits)
  have ag: "\<forall>r \<in> lin (fb_id b). a_reg s r = a_reg t r" using Suc.prems(3) by (simp add: xs)
  from dce_block_sim [OF sol pre b Suc.prems(2) ag Suc.prems(4) s1] obtain t1 where
    t1: "arm_run env (fb_insts (?f b)) t = Some t1" "arm_same_env s1 t1"
      "\<forall>r \<in> lout (fb_id b). a_reg s1 r = a_reg t1 r" "ret_agree rt s1 t1" by blast
  have ctl: "a_ctl t1 = a_ctl s1" using t1(2) by (simp add: arm_same_env_def)
  have "list_all (call_ok env) (fb_insts b)" "list_all plain_return (fb_insts b)"
    using pre b exact_call_ok by (auto simp: dce_pre_def list_all_iff)
  note exit = run_exit [OF this Suc.prems(4) s1]
  have head: "flow_of (map ?f xs) = (fb_id b, fb_insts (?f b)) # flow_of (map ?f zs)" by (simp add: flow_of_def xs)
  have head0: "flow_of xs = (fb_id b, fb_insts b) # flow_of zs" by (simp add: flow_of_def xs)
  show ?case
  proof (cases "a_ctl s1")
    case Fall
    have "zs \<noteq> [] \<longrightarrow> (\<forall>r \<in> lin (fb_id (hd zs)). a_reg s1 r = a_reg t1 r)"
    proof
      assume "zs \<noteq> []"
      then obtain c ws where zs: "zs = c # ws" by (cases zs) auto
      have "fall_edges (b # c # ws)"
        using pre Suc.prems(1) fall_edges_append [of ys xs] by (simp add: dce_pre_def xs zs)
      then have "fb_id b \<in> set (fb_in c)" using exit Fall by simp
      then have "fb_id b \<in> set (preds_of bs (fb_id c))"
        using pre block_at_in [of bs c] Suc.prems(1) by (simp add: dce_pre_def preds_of_def xs zs)
      from live_edge [OF sol this] t1(3) show "\<forall>r \<in> lin (fb_id (hd zs)). a_reg s1 r = a_reg t1 r"
        by (auto simp: zs)
    qed
    from Suc.IH [of "ys @ [b]" zs s1 t1, OF _ t1(2) this Fall] Suc.prems(1,5) s1 t1(1) Fall ctl show ?thesis
      unfolding head head0 by (simp add: xs)
  next
    case (Goto g)
    let ?zs = "dropWhile (\<lambda>b. fb_id b \<noteq> g) bs"
    have app: "bs = takeWhile (\<lambda>b. fb_id b \<noteq> g) bs @ ?zs" by simp
    have env: "arm_same_env (s1\<lparr>a_ctl := Fall\<rparr>) (t1\<lparr>a_ctl := Fall\<rparr>)" using t1(2) by (simp add: arm_same_env_def)
    have "fb_id b \<in> set (preds_of bs g)"
      using exit Goto pre b by (auto simp: dce_pre_def branch_edges_def list_all_iff preds_of_def)
    from live_edge [OF sol this] t1(3)
    have "?zs \<noteq> [] \<longrightarrow> (\<forall>r \<in> lin (fb_id (hd ?zs)). a_reg (s1\<lparr>a_ctl := Fall\<rparr>) r = a_reg (t1\<lparr>a_ctl := Fall\<rparr>) r)"
      using hd_dropWhile [of "\<lambda>b. fb_id b \<noteq> g" bs] by auto
    from Suc.IH [OF app env this] Suc.prems(5) s1 t1(1) Goto ctl show ?thesis
      unfolding head head0 by (simp add: flow_from_of dce_drop)
  next
    case Returned
    then show ?thesis using Suc.prems(5) s1 t1 ctl unfolding head head0 by simp
  qed
qed simp

text \<open>The pass on a function: it returns, and the function it returns does the same.\<close>

lemma dce_result:
  assumes "dce_pre env rt bs"
  shows "\<exists>bs'. dce bs = Some bs' \<and>
     (\<forall>n s s'. a_ctl s = Fall \<longrightarrow> flow_run env (flow_of bs) n (flow_of bs) s = Some s' \<longrightarrow>
       (\<exists>t'. flow_run env (flow_of bs') n (flow_of bs') s = Some t' \<and> arm_same_env s' t' \<and> ret_agree rt s' t'
          \<and> a_ctl s' = Returned))"
proof -
  have "edges_ok bs" using assms by (simp add: dce_pre_def)
  from calc_live_result [OF this] obtain lin lout where
    c: "calc_live bs = Some (lin, lout)" "live_ok (use_of bs) (def_set_of bs) (preds_of bs) (lin, lout, [])" by blast
  have d: "dce bs = Some (map (\<lambda>b. dce_block (lout (fb_id b)) b) bs)" by (simp add: dce_def c(1))
  show ?thesis
  proof (rule exI, rule conjI, rule d, intro allI impI)
    fix n s s' assume "a_ctl s = Fall" "flow_run env (flow_of bs) n (flow_of bs) s = Some s'"
    then show "\<exists>t'. flow_run env (flow_of (map (\<lambda>b. dce_block (lout (fb_id b)) b) bs)) n
       (flow_of (map (\<lambda>b. dce_block (lout (fb_id b)) b) bs)) s = Some t' \<and> arm_same_env s' t' \<and> ret_agree rt s' t'
       \<and> a_ctl s' = Returned"
      using dce_flow_sim [OF live_ok_final(1) [OF c(2)] assms, of "[]" bs s s n s'] by simp
  qed
qed

end
