(* ===== verification/RegAlloc.thy ===== *)
theory RegAlloc
  imports GraphFacts Dce
begin

text \<open>
  The result of the allocation: \<open>Func::replace_with_reg_alloc\<close> (\<open>src/arm/program.cpp\<close>) renames the
  pseudo registers of a function, and a proper colouring of the graphs of both types makes the
  renamed function do what the function did.
\<close>

section \<open>Renaming\<close>

definition alloc_reg :: "int list \<Rightarrow> int list \<Rightarrow> areg \<Rightarrow> areg" where
  "alloc_reg ints floats r =
     (if is_pseudo r then AReg (ar_type r) ((if ar_type r = IntT then ints else floats) ! nat (ar_id r)) else r)"

definition replace_with_reg_alloc :: "int list \<Rightarrow> int list \<Rightarrow> flow_block list \<Rightarrow> flow_block list" where
  "replace_with_reg_alloc ints floats bs =
     map (\<lambda>b. b\<lparr>fb_insts := map (map_regs (alloc_reg ints floats)) (fb_insts b)\<rparr>) bs"

section \<open>One renamed instruction\<close>

text \<open>The registers of the renamed program, under their names before the renaming.\<close>

definition view :: "(areg \<Rightarrow> areg) \<Rightarrow> arm_state \<Rightarrow> arm_state" where
  "view f t = t\<lparr>a_reg := \<lambda>r. a_reg t (f r)\<rparr>"

lemma view_fields [simp]:
  "a_reg (view f t) r = a_reg t (f r)" "a_mem (view f t) = a_mem t" "a_flags (view f t) = a_flags t"
  "a_fpscr (view f t) = a_fpscr t" "a_base (view f t) = a_base t" "a_simd (view f t) = a_simd t"
  "a_ctl (view f t) = a_ctl t"
  by (simp_all add: view_def)

definition machine_fixed :: "(areg \<Rightarrow> areg) \<Rightarrow> bool" where
  "machine_fixed f = ((\<forall>r. \<not> is_pseudo r \<longrightarrow> f r = r) \<and> (\<forall>r. ar_type (f r) = ar_type r))"

text \<open>Two states that are the same but for the names of the registers in \<open>X\<close>.\<close>

definition view_agree :: "(areg \<Rightarrow> areg) \<Rightarrow> areg set \<Rightarrow> arm_state \<Rightarrow> arm_state \<Rightarrow> bool" where
  "view_agree f X u t =
     (a_mem u = a_mem t \<and> a_base u = a_base t \<and> a_simd u = a_simd t \<and> a_ctl u = a_ctl t \<and>
      a_flags u = a_flags t \<and> (\<forall>x \<in> X. a_reg u x = a_reg t (f x)))"

lemma view_agree_view [simp]: "view_agree f X (view f t) t"
  by (simp add: view_agree_def)

lemma sp_not_pseudo [simp]: "\<not> is_pseudo sp_reg"
  by (simp add: is_pseudo_def sp_reg_def int_count_def)

lemma fixed_machine: "machine_fixed f \<Longrightarrow> \<not> is_pseudo r \<Longrightarrow> f r = r"
  by (auto simp: machine_fixed_def)

lemma fixed_sp [simp]: "machine_fixed f \<Longrightarrow> f sp_reg = sp_reg"
  by (simp add: machine_fixed_def)

lemma fixed_type [simp]: "machine_fixed f \<Longrightarrow> ar_type (f r) = ar_type r"
  by (simp add: machine_fixed_def)

lemma map_op_def:
  assumes "machine_fixed f"
  shows "op_def_reg (map_op_regs f x) = map f (op_def_reg x)"
proof (cases x)
  case (FuncCall g ni nf)
  have "f r = r" if "r \<in> set (caller_save_regs @ [lr_reg])" for r
  proof -
    have "\<not> is_pseudo r"
      using that by (auto simp: caller_save_regs_eq lr_reg_def is_pseudo_def int_count_def float_count_def)
    then show ?thesis by (rule fixed_machine [OF assms])
  qed
  then show ?thesis by (simp add: FuncCall map_idI)
next
  case (SIMD src ty rs n)
  have "f (AReg IntT 0) = AReg IntT 0" by (rule fixed_machine [OF assms]) (simp add: is_pseudo_def int_count_def)
  then show ?thesis by (simp add: SIMD)
qed simp_all

lemma view_value:
  assumes "machine_fixed f"
  shows "op_value env (map_op_regs f x) t = op_value env x (view f t)"
proof -
  have rd: "read_word (view f t) a = read_word t a" for a by (simp add: read_word_def)
  note sp = fixed_sp [OF assms]
  show ?thesis by (cases x) (simp_all only: map_op_regs.simps op_value.simps view_fields rd sp)
qed

lemma view_single:
  assumes "machine_fixed f" and "single_dst x" and "exec_op env x (view f t) = Some u'"
    and "\<forall>d \<in> set (op_def_reg x). \<forall>y \<in> X \<union> set (op_def_reg x). y \<noteq> d \<longrightarrow> f y \<noteq> f d"
  shows "\<exists>t'. exec_op env (map_op_regs f x) t = Some t' \<and> view_agree f (X \<union> set (op_def_reg x)) u' t'"
proof -
  let ?y = "map_op_regs f x"
  obtain d where d: "op_def_reg x = [d]" using exec_single(2) [OF assms(2)] by blast
  have y: "single_dst ?y" using assms(2) by (cases x) (auto simp: single_dst_def)
  obtain v where v: "op_value env x (view f t) = Some v" "u' = set_reg d v (view f t)"
    using assms(3) by (auto simp: exec_single(1) [OF assms(2)] d)
  have "exec_op env ?y t = Some (set_reg (f d) v t)"
    using v(1) by (simp add: exec_single(1) [OF y] map_op_def [OF assms(1)] d view_value [OF assms(1)])
  moreover have "view_agree f (X \<union> {d}) (set_reg d v (view f t)) (set_reg (f d) v t)"
    using assms(4) d by (auto simp: view_agree_def)
  ultimately show ?thesis by (simp add: v(2) d)
qed

lemma view_set:
  assumes "\<forall>x \<in> X. x \<noteq> d \<longrightarrow> f x \<noteq> f d" and "view_agree f X u t"
  shows "view_agree f (insert d X) (set_reg d v u) (set_reg (f d) v t)"
  using assms by (auto simp: view_agree_def)

lemma view_agree_mono: "view_agree f Y u t \<Longrightarrow> X \<subseteq> Y \<Longrightarrow> view_agree f X u t"
  by (auto simp: view_agree_def)

lemma write_view:
  assumes "write_word a v u = Some u'" and "view_agree f X u t"
  shows "\<exists>t'. write_word a v t = Some t' \<and> view_agree f X u' t'"
  using assms by (auto simp: write_word_def view_agree_def split: if_splits)

text \<open>The registers named apart from \<open>sp\<close>, which is written without being declared.\<close>

definition sp_apart :: "(areg \<Rightarrow> areg) \<Rightarrow> areg set \<Rightarrow> bool" where
  "sp_apart f X = (sp_reg \<in> X \<and> (\<forall>x \<in> X. f x = sp_reg \<longrightarrow> x = sp_reg))"

lemma set_sp_view:
  assumes "machine_fixed f" and "sp_apart f X" and "view_agree f X u t"
  shows "view_agree f X (set_reg sp_reg v u) (set_reg sp_reg v t)"
  using assms fixed_sp [OF assms(1)] by (auto simp: view_agree_def sp_apart_def)

lemma view_sp: "machine_fixed f \<Longrightarrow> sp_apart f X \<Longrightarrow> view_agree f X u t \<Longrightarrow> a_reg u sp_reg = a_reg t sp_reg"
  by (simp add: view_agree_def sp_apart_def)

lemma push_view:
  assumes "machine_fixed f" and "sp_apart f X" and "view_agree f X u t" and "set rs \<subseteq> X" and "push_regs rs u = Some u'"
  shows "\<exists>t'. push_regs (map f rs) t = Some t' \<and> view_agree f X u' t'"
  using assms(3-)
proof (induction rs arbitrary: u t)
  case (Cons r rs)
  let ?a = "a_reg u sp_reg - 4"
  obtain u1 where u1: "write_word ?a (a_reg u r) u = Some u1" "push_regs rs (set_reg sp_reg ?a u1) = Some u'"
    using Cons.prems(3) by (auto split: option.splits)
  from write_view [OF u1(1) Cons.prems(1)] obtain t1 where
    t1: "write_word ?a (a_reg u r) t = Some t1" "view_agree f X u1 t1" by blast
  have r: "a_reg u r = a_reg t (f r)" using Cons.prems(1,2) by (simp add: view_agree_def)
  from Cons.IH [OF set_sp_view [OF assms(1,2) t1(2)] _ u1(2)] t1(1) r view_sp [OF assms(1,2) Cons.prems(1)]
    Cons.prems(2) show ?case by simp
qed simp

lemma vldm_view:
  assumes "view_agree f X u t" and "vldm_lanes q a is u = Some u'"
  shows "\<exists>t'. vldm_lanes q a is t = Some t' \<and> view_agree f X u' t'"
  using assms
proof (induction "is" arbitrary: u t)
  case (Cons i "is")
  obtain v where v: "read_word u (a + of_nat i * 4) = Some v"
    "vldm_lanes q a is (u\<lparr>a_simd := set_lane (a_simd u) q i v\<rparr>) = Some u'"
    using Cons.prems(2) by (auto split: option.splits)
  have "read_word t (a + of_nat i * 4) = Some v"
    using v(1) Cons.prems(1) by (auto simp: read_word_def view_agree_def split: if_splits)
  moreover have "view_agree f X (u\<lparr>a_simd := set_lane (a_simd u) q i v\<rparr>) (t\<lparr>a_simd := set_lane (a_simd t) q i v\<rparr>)"
    using Cons.prems(1) by (simp add: view_agree_def)
  ultimately show ?case using Cons.IH [OF _ v(2)] by simp
qed simp

lemma vstm_view:
  assumes "view_agree f X u t" and "vstm_lanes q a is u = Some u'"
  shows "\<exists>t'. vstm_lanes q a is t = Some t' \<and> view_agree f X u' t'"
  using assms
proof (induction "is" arbitrary: u t)
  case (Cons i "is")
  obtain u1 where u1: "write_word (a + of_nat i * 4) (a_simd u q i) u = Some u1" "vstm_lanes q a is u1 = Some u'"
    using Cons.prems(2) by (auto split: option.splits)
  from write_view [OF u1(1) Cons.prems(1)] obtain t1 where
    t1: "write_word (a + of_nat i * 4) (a_simd u q i) t = Some t1" "view_agree f X u1 t1" by blast
  have "a_simd t = a_simd u" using Cons.prems(1) by (simp add: view_agree_def)
  then show ?case using t1 Cons.IH [OF t1(2) u1(2)] by simp
qed simp

lemma simd_view:
  assumes "machine_fixed f" and "simd_exec src ty rs (view f t) = Some u'"
    and "ty = VDUP_32 \<longrightarrow> (\<forall>y \<in> X. f y = AReg IntT 0 \<longrightarrow> y = AReg IntT 0)"
    and "ty = VDUP_32 \<longrightarrow> (case src of Some x \<Rightarrow> ar_type x = FloatT | None \<Rightarrow> True)"
  shows "\<exists>t'. simd_exec (map_option f src) ty rs t = Some t' \<and>
    view_agree f (X \<union> set (op_def_reg (SIMD src ty rs n))) u' t'"
proof (cases "ty = VDUP_32 \<or> ty = VLDM \<or> ty = VSTM")
  case False
  then have e: "simd_exec s ty rs u = map_option (\<lambda>v. u\<lparr>a_simd := v\<rparr>) (simd_compute ty rs (a_simd u))" for s u
    by (cases ty) (auto simp: simd_exec_def)
  from assms(2) e obtain v where "simd_compute ty rs (a_simd t) = Some v" "u' = (view f t)\<lparr>a_simd := v\<rparr>" by auto
  then show ?thesis using e False by (auto simp: view_agree_def)
next
  case True
  then obtain x r rs' where x: "src = Some x" "rs = r # rs'"
    using assms(2) by (auto simp: simd_exec_def split: option.splits list.splits)
  have f0: "f (AReg IntT 0) = AReg IntT 0"
    by (rule fixed_machine [OF assms(1)]) (simp add: is_pseudo_def int_count_def)
  from True consider "ty = VDUP_32" | "ty = VLDM" | "ty = VSTM" by blast
  then show ?thesis
  proof cases
    case 1
    then have "ar_type x = FloatT" using assms(4) x by simp
    then have fx: "ar_type (f x) = FloatT" using fixed_type [OF assms(1)] by simp
    let ?v = "a_reg t (f x)"
    have u: "u' = (set_reg (AReg IntT 0) ?v (view f t))\<lparr>a_simd := (a_simd t)(r := (\<lambda>_. ?v))\<rparr>"
      using assms(2) 1 x \<open>ar_type x = FloatT\<close> by (simp add: simd_exec_def)
    have t: "simd_exec (map_option f src) ty rs t = Some ((set_reg (AReg IntT 0) ?v t)\<lparr>a_simd := (a_simd t)(r := (\<lambda>_. ?v))\<rparr>)"
      using 1 x fx by (simp add: simd_exec_def)
    have "\<forall>y \<in> X. f y = AReg IntT 0 \<longrightarrow> y = AReg IntT 0" using assms(3) 1 by simp
    then show ?thesis unfolding t u using 1 f0 by (auto simp: view_agree_def)
  next
    case 2
    then have "vldm_lanes r (a_reg t (f x)) [0, 1, 2, 3] (view f t) = Some u'" using assms(2) x by (simp add: simd_exec_def)
    from vldm_view [OF view_agree_view [of f "X \<union> {}"] this] show ?thesis using 2 x by (simp add: simd_exec_def)
  next
    case 3
    then have "vstm_lanes r (a_reg t (f x)) [0, 1, 2, 3] (view f t) = Some u'" using assms(2) x by (simp add: simd_exec_def)
    from vstm_view [OF view_agree_view [of f "X \<union> {}"] this] show ?thesis using 3 x by (simp add: simd_exec_def)
  qed
qed

lemma machine_call_defs: "r \<in> set (op_def_reg (FuncCall g ni nf)) \<Longrightarrow> \<not> is_pseudo r"
  by (auto simp: caller_save_regs_eq lr_reg_def is_pseudo_def int_count_def float_count_def)

lemma machine_call_uses:
  assumes "r \<in> set (op_use_reg Always (FuncCall g ni nf))"
  shows "\<not> is_pseudo r"
proof -
  have "set (take n argument_registers) \<subseteq> {0, 1, 2, 3}" for n
    using set_take_subset [of n argument_registers] by (simp add: argument_registers_def)
  then have "set (op_use_reg Always (FuncCall g ni nf)) \<subseteq> AReg IntT ` {0, 1, 2, 3} \<union> AReg FloatT ` {0, 1, 2, 3}"
    by (auto simp del: take_Cons_numeral)
  then show ?thesis using assms by (auto simp: is_pseudo_def int_count_def float_count_def)
qed

lemma view_same_env: "machine_fixed f \<Longrightarrow> arm_same_env (view f t) t"
  by (auto simp: arm_same_env_def tracked_def fixed_machine)

lemma call_view:
  assumes "machine_fixed f" and "call_contract env" and "a_ctl t = Fall"
    and "ae_call env g ni nf (view f t) = Some u'"
    and "\<forall>d \<in> set (op_def_reg (FuncCall g ni nf)). \<forall>y \<in> X. y \<noteq> d \<longrightarrow> f y \<noteq> f d"
  shows "\<exists>t'. ae_call env g ni nf t = Some t' \<and> view_agree f (X \<union> set (op_def_reg (FuncCall g ni nf))) u' t'"
proof -
  let ?D = "set (op_def_reg (FuncCall g ni nf))"
  have args: "\<forall>r \<in> set (op_use_reg Always (FuncCall g ni nf)). a_reg (view f t) r = a_reg t r"
    using fixed_machine [OF assms(1) machine_call_uses] by auto
  have "a_ctl (view f t) = Fall" using assms(3) by simp
  from assms(2) [unfolded call_contract_def, rule_format, OF view_same_env [OF assms(1)] this _ assms(4)] args
  obtain t' where t': "ae_call env g ni nf t = Some t'" "arm_same_env u' t'" "a_flags u' = a_flags t'"
    "\<forall>r \<in> ?D. a_reg u' r = a_reg t' r"
    "\<forall>r. r \<notin> ?D \<longrightarrow> a_reg u' r = a_reg (view f t) r \<and> a_reg t' r = a_reg t r" by blast
  have "a_reg u' x = a_reg t' (f x)" if "x \<in> X \<union> ?D" for x
  proof (cases "x \<in> ?D")
    case True
    then have "f x = x" using fixed_machine [OF assms(1) machine_call_defs] by blast
    then show ?thesis using t'(4) [rule_format, OF True] by argo
  next
    case False
    then have ne: "x \<in> X" "\<And>d. d \<in> ?D \<Longrightarrow> x \<noteq> d" using \<open>x \<in> X \<union> ?D\<close> by blast+
    have "f x \<notin> ?D"
    proof
      assume d: "f x \<in> ?D"
      have "f (f x) = f x" by (rule fixed_machine [OF assms(1) machine_call_defs [OF d]])
      then show False using assms(5) [rule_format, OF d ne(1) ne(2) [OF d]] by simp
    qed
    then have "a_reg t' (f x) = a_reg t (f x)" using t'(5) by blast
    moreover have "a_reg u' x = a_reg (view f t) x" using t'(5) False by blast
    ultimately show ?thesis by simp
  qed
  then show ?thesis using t'(1-3) by (auto simp: view_agree_def arm_same_env_def)
qed

text \<open>The names are apart: what an instruction defines shares its new name with nothing in \<open>X\<close>.\<close>

definition names_apart :: "(areg \<Rightarrow> areg) \<Rightarrow> inst \<Rightarrow> areg set \<Rightarrow> bool" where
  "names_apart f i X = (\<forall>d \<in> set (def_reg i). \<forall>y \<in> X \<union> set (def_reg i). y \<noteq> d \<longrightarrow> f y \<noteq> f d)"

lemma exec_view:
  assumes "machine_fixed f" and "exact env (Inst c x)" and "a_ctl t = Fall" and "sp_apart f X"
    and "names_apart f (Inst c x) X" and "exec_op env x (view f t) = Some u'"
    and "\<forall>rs. x = Push rs \<longrightarrow> set rs \<subseteq> X"
  shows "\<exists>t'. exec_op env (map_op_regs f x) t = Some t' \<and> view_agree f (X \<union> set (op_def_reg x)) u' t'"
proof (cases "single_dst x")
  case True
  from view_single [OF assms(1) True assms(6)] assms(5) show ?thesis by (simp add: names_apart_def def_reg_def)
next
  case False
  note vw = view_agree_view [of f X t]
  show ?thesis
  proof (cases x)
    case (SMulL d1 d2 s1 s2)
    let ?lo = "smull_lo (a_reg t (f s1)) (a_reg t (f s2))" and ?hi = "smull_hi (a_reg t (f s1)) (a_reg t (f s2))"
    have ap: "\<forall>y \<in> insert d1 X. y \<noteq> d2 \<longrightarrow> f y \<noteq> f d2" "\<forall>y \<in> X. y \<noteq> d1 \<longrightarrow> f y \<noteq> f d1"
      using assms(5) unfolding SMulL names_apart_def def_reg_def by simp_all
    have "view_agree f (insert d2 (insert d1 X)) (set_reg d2 ?hi (set_reg d1 ?lo (view f t)))
        (set_reg (f d2) ?hi (set_reg (f d1) ?lo t))"
      by (rule view_set [OF ap(1) view_set [OF ap(2) vw]])
    then show ?thesis using assms(6) SMulL by (auto simp: insert_commute)
  next
    case (Store r b off)
    then show ?thesis using assms(6) write_view [OF _ vw, of _ _ u'] by simp
  next
    case (ComplexStore r b off sh)
    then show ?thesis using assms(6) write_view [OF _ vw, of _ _ u'] by simp
  next
    case (StoreStack r off k)
    then show ?thesis using assms(6) write_view [OF _ vw, of _ _ u'] by simp
  next
    case (Push rs)
    then show ?thesis using assms(6,7) push_view [OF assms(1,4) vw, of rs u'] by simp
  next
    case (ChangeSP v)
    then show ?thesis
      using assms(6) set_sp_view [OF assms(1,4) vw, of "a_reg t sp_reg + v"] fixed_sp [OF assms(1)] by auto
  next
    case (RegRegCmp y l r)
    then show ?thesis using assms(6) by (auto simp: view_agree_def)
  next
    case (RegImmCmp y l v)
    then show ?thesis using assms(6) by (auto simp: view_agree_def)
  next
    case (FRegRegCmp l r)
    then show ?thesis using assms(6) by (auto simp: view_agree_def)
  next
    case (SIMD src ty rs n)
    have z: "ty = VDUP_32 \<longrightarrow> (case src of Some x \<Rightarrow> ar_type x = FloatT | None \<Rightarrow> True)"
      using assms(2) SIMD by (auto simp: exact_def split: option.splits)
    have "f (AReg IntT 0) = AReg IntT 0"
      by (rule fixed_machine [OF assms(1)]) (simp add: is_pseudo_def int_count_def)
    then have "ty = VDUP_32 \<longrightarrow> (\<forall>y \<in> X. f y = AReg IntT 0 \<longrightarrow> y = AReg IntT 0)"
      using assms(5) SIMD by (auto simp: names_apart_def def_reg_def)
    from simd_view [OF assms(1) _ this z, of rs t u' n] show ?thesis using assms(6) SIMD by simp
  next
    case (Branch b)
    then show ?thesis using assms(6) by (auto simp: view_agree_def)
  next
    case (FuncCall g ni nf)
    then have "call_contract env" using assms(2) by (simp add: exact_def)
    from call_view [OF assms(1) this assms(3), of g ni nf u' X] show ?thesis
      using assms(5,6) FuncCall by (simp add: names_apart_def def_reg_def)
  next
    case (Return ty)
    then show ?thesis using assms(6) by (auto simp: view_agree_def)
  next
    case (FRegInst y d r)
    then show ?thesis using assms(2) False by (auto simp: exact_def single_dst_def)
  qed (use False in \<open>simp_all add: single_dst_def\<close>)
qed

text \<open>The state of the function and that of the renamed one, with the registers in \<open>L\<close> alive.\<close>

definition rn_agree :: "(areg \<Rightarrow> areg) \<Rightarrow> areg set \<Rightarrow> arm_state \<Rightarrow> arm_state \<Rightarrow> bool" where
  "rn_agree f L s t = (arm_same_env s t \<and> a_flags s = a_flags t \<and> (\<forall>r \<in> L. a_reg s r = a_reg t (f r)))"

abbreviation untracked :: "areg set" where "untracked \<equiv> {r. \<not> tracked r}"

lemma sp_apart_ok:
  assumes "machine_fixed f" and "\<forall>r \<in> Y. tracked r \<longrightarrow> tracked (f r)"
  shows "sp_apart f (Y \<union> untracked)"
proof -
  have "x = sp_reg" if "x \<in> Y \<union> untracked" "f x = sp_reg" for x
  proof (cases "tracked x")
    case True
    then have "tracked (f x)" using assms(2) that(1) by blast
    then show ?thesis using that(2) by simp
  next
    case False
    then have "f x = x" by (intro fixed_machine [OF assms(1)]) (simp add: tracked_def)
    then show ?thesis using that(2) by simp
  qed
  then show ?thesis by (auto simp: sp_apart_def)
qed

lemma rn_view:
  assumes "machine_fixed f" and "rn_agree f (update_live i L) s t"
  shows "arm_same_env s (view f t)" and "\<forall>l \<in> inst_uses i. loc_agree l s (view f t)"
    and "\<forall>r \<in> L. r \<notin> set (def_reg i) \<longrightarrow> loc_agree (LReg r) s (view f t)"
proof -
  note a = assms(2) [unfolded rn_agree_def]
  have un: "f r = r" if "\<not> tracked r" for r
    using that by (intro fixed_machine [OF assms(1)]) (simp add: tracked_def)
  show env: "arm_same_env s (view f t)" using a un by (auto simp: arm_same_env_def)
  show "\<forall>l \<in> inst_uses i. loc_agree l s (view f t)"
  proof
    fix l assume l: "l \<in> inst_uses i"
    show "loc_agree l s (view f t)"
    proof (cases l)
      case (LReg r)
      then have r: "r \<in> set (use_reg i)" using l by (auto simp: inst_uses_def split: if_splits)
      show ?thesis
      proof (cases "tracked r")
        case True
        then have "r \<in> update_live i L" using r by (simp add: update_live_def)
        then show ?thesis using a by (simp add: LReg)
      next
        case False
        then show ?thesis using env by (simp add: LReg arm_same_env_def)
      qed
    next
      case LFlags
      then show ?thesis using a by simp
    qed
  qed
  show "\<forall>r \<in> L. r \<notin> set (def_reg i) \<longrightarrow> loc_agree (LReg r) s (view f t)"
    using a by (auto simp: update_live_def)
qed

lemma rn_step:
  assumes "machine_fixed f" and "exact env i" and "\<forall>r \<in> L \<union> set (use_reg i). tracked r \<longrightarrow> tracked (f r)"
    and "names_apart f i (L \<union> untracked)" and "rn_agree f (update_live i L) s t" and "body_step env i s = Some s'"
  shows "\<exists>t'. body_step env (map_regs f i) t = Some t' \<and> rn_agree f L s' t'"
proof -
  let ?u = "view f t"
  note vw = rn_view [OF assms(1,5)]
  from body_step_local [OF assms(2) vw(2,1) assms(6)] obtain u' where
    u': "body_step env i ?u = Some u'" "arm_same_env s' u'" "\<forall>l \<in> inst_defs i. loc_agree l s' u'"
      "\<forall>l. l \<notin> inst_defs i \<longrightarrow> loc_agree l s ?u \<longrightarrow> loc_agree l s' u'" by blast
  have regs: "a_reg s' r = a_reg u' r" if "r \<in> L" for r
  proof (cases "LReg r \<in> inst_defs i")
    case True
    then show ?thesis using u'(3) by force
  next
    case False
    then have "loc_agree (LReg r) s ?u" using vw(3) that by (auto simp: inst_defs_def)
    then have "loc_agree (LReg r) s' u'" using u'(4) False by blast
    then show ?thesis by simp
  qed
  have "loc_agree LFlags s ?u" using assms(5) by (simp add: rn_agree_def)
  then have "loc_agree LFlags s' u'" using u'(3,4) by blast
  then have flags: "a_flags s' = a_flags u'" by simp
  have ctl: "a_ctl t = Fall" using u'(1) by (auto simp: body_step_def split: if_splits)
  have "\<exists>t'. body_step env (map_regs f i) t = Some t' \<and> view_agree f (L \<union> untracked) u' t'"
  proof (cases "cond_holds (i_cond i) (a_flags t)")
    case False
    then have "u' = ?u" using u'(1) ctl skip_exact [OF assms(2)] by (simp add: body_step_def arm_step_def)
    moreover have "skip_op (map_op_regs f (i_op i)) t = t"
    proof -
      have "i_cond i \<noteq> Always" using False by auto
      then show ?thesis using assms(2) by (cases "i_op i") (auto simp: skip_op_def exact_def)
    qed
    ultimately show ?thesis using False ctl by (simp add: body_step_def arm_step_def map_regs_def)
  next
    case True
    then have e: "exec_op env (i_op i) ?u = Some u'" using u'(1) ctl by (simp add: body_step_def arm_step_def)
    let ?X = "(L \<union> (if def_reg i = [] then set (use_reg i) else {})) \<union> untracked"
    have sp: "sp_apart f ?X" by (rule sp_apart_ok [OF assms(1)]) (use assms(3) in auto)
    have "\<forall>rs. i_op i = Push rs \<longrightarrow> set rs \<subseteq> ?X" by (auto simp: def_reg_def use_reg_def)
    moreover have "names_apart f i ?X" using assms(4) by (auto simp: names_apart_def)
    ultimately obtain t' where "exec_op env (map_op_regs f (i_op i)) t = Some t'"
      "view_agree f (?X \<union> set (op_def_reg (i_op i))) u' t'"
      using exec_view [OF assms(1) _ ctl sp _ e, of "i_cond i"] assms(2) by auto
    then show ?thesis
      using True ctl view_agree_mono [of f "?X \<union> set (op_def_reg (i_op i))" u' t' "L \<union> untracked"]
      by (auto simp: body_step_def arm_step_def map_regs_def)
  qed
  then obtain t' where t': "body_step env (map_regs f i) t = Some t'" "view_agree f (L \<union> untracked) u' t'" by blast
  have "a_reg u' r = a_reg t' r" if "\<not> tracked r" for r
  proof -
    have "f r = r" using that by (intro fixed_machine [OF assms(1)]) (simp add: tracked_def)
    then show ?thesis using t'(2) that by (auto simp: view_agree_def)
  qed
  then have "rn_agree f L s' t'"
    using t'(2) u'(2) flags regs by (auto simp: rn_agree_def view_agree_def arm_same_env_def)
  then show ?thesis using t'(1) by blast
qed

section \<open>Names from the interference graphs\<close>

text \<open>What two colourings give: allocable registers, and distinct ones for linked nodes. \<open>R\<close> are the
  registers of the function, \<open>E\<close> the edges for each type.\<close>

definition names_ok :: "(areg \<Rightarrow> areg) \<Rightarrow> areg set \<Rightarrow> (scalar_type \<Rightarrow> edges) \<Rightarrow> bool" where
  "names_ok f R E =
     (machine_fixed f \<and> (\<forall>r \<in> R. tracked r \<and> (ar_type r = IntT \<or> ar_type r = FloatT) \<and> tracked (f r)) \<and>
      (\<forall>a \<in> R. \<forall>b \<in> R. ar_type a = ar_type b \<longrightarrow> (ar_id a, ar_id b) \<in> rel (E (ar_type a)) \<longrightarrow> f a \<noteq> f b))"

definition typed_regs :: "scalar_type \<Rightarrow> areg set \<Rightarrow> areg set" where
  "typed_regs ty L = {r \<in> L. ar_type r = ty}"

lemma names_apart_ok:
  assumes "names_ok f R E" and "L \<subseteq> R" and "{r \<in> set (def_reg i). tracked r} \<subseteq> R"
    and "\<forall>ty \<in> {IntT, FloatT}. defs_linked ty i (typed_regs ty L) (E ty)"
  shows "names_apart f i (L \<union> untracked)"
proof -
  note ok = assms(1) [unfolded names_ok_def]
  have fixed: "machine_fixed f" using ok by blast
  have un: "f r = r" if "\<not> tracked r" for r
    using that by (intro fixed_machine [OF fixed]) (simp add: tracked_def)
  have "f y \<noteq> f d" if d: "d \<in> set (def_reg i)" and y: "y \<in> (L \<union> untracked) \<union> set (def_reg i)" and "y \<noteq> d" for d y
  proof -
    have R: "tracked r \<Longrightarrow> r \<in> R" if "r = d \<or> r = y" for r
      using that d y assms(2,3) by auto
    show ?thesis
    proof (cases "tracked d \<and> tracked y \<and> ar_type y = ar_type d")
      case False
      then consider "\<not> tracked d" "\<not> tracked y" | "\<not> tracked d" "tracked y" | "tracked d" "\<not> tracked y"
        | "ar_type y \<noteq> ar_type d" by blast
      then show ?thesis
      proof cases
        case 4
        then show ?thesis using fixed_type [OF fixed] by metis
      qed (use un ok R \<open>y \<noteq> d\<close> in metis)+
    next
      case True
      let ?ty = "ar_type d"
      have ty: "?ty \<in> {IntT, FloatT}" using ok R True by blast
      have dg: "d \<in> gdefs ?ty i" using d True tracked_in_graph [of d] by (simp add: gdefs_def)
      have "in_graph ?ty y" using tracked_in_graph [of y] True by simp
      then have "y \<in> typed_regs ?ty L \<union> gdefs ?ty i"
        using y True by (auto simp: typed_regs_def gdefs_def)
      then have "(ar_id d, ar_id y) \<in> rel (E ?ty)"
        using assms(4) ty dg \<open>y \<noteq> d\<close> unfolding defs_linked_def by blast
      then have "f d \<noteq> f y" using ok R True by metis
      then show ?thesis by simp
    qed
  qed
  then show ?thesis by (auto simp: names_apart_def)
qed

text \<open>The graph of a block, read forwards.\<close>

lemma interf_ok_append:
  "interf_ok ty (xs @ ys) L e = (interf_ok ty xs L e \<and> interf_ok ty ys (foldl (\<lambda>l i. live_before ty i l) L xs) e)"
  by (induction xs arbitrary: L) auto

lemma in_graph_iff: "in_graph ty r = (tracked r \<and> ar_type r = ty)"
  using tracked_in_graph [of r] in_graph_tracked [of ty r] by blast

lemma live_before_typed:
  "live_before ty i (typed_regs ty L) = typed_regs ty (update_live i L)"
  by (auto simp: live_before_def typed_regs_def update_live_def gdefs_def guses_def in_graph_iff)

lemma live_back: "foldl (\<lambda>l i. live_before ty i l) (typed_regs ty L) (rev is) = typed_regs ty (foldr update_live is L)"
  by (induction "is") (auto simp: live_before_typed)

lemma interf_Cons:
  assumes "interf_ok ty (rev (i # is)) (typed_regs ty L) e"
  shows "interf_ok ty (rev is) (typed_regs ty L) e" and "defs_linked ty i (typed_regs ty (foldr update_live is L)) e"
  using assms live_back [of ty L "is"] by (simp_all add: interf_ok_append)

section \<open>The renamed function\<close>

definition regs_within :: "areg set \<Rightarrow> inst list \<Rightarrow> bool" where
  "regs_within R is = list_all (\<lambda>i. {r \<in> set (def_reg i) \<union> set (use_reg i). tracked r} \<subseteq> R) is"

lemma live_within: "regs_within R is \<Longrightarrow> L \<subseteq> R \<Longrightarrow> foldr update_live is L \<subseteq> R"
  by (induction "is") (auto simp: regs_within_def update_live_def)

lemma rn_return:
  assumes "machine_fixed f" and "rn_agree f (update_live i L) s t" and "ret_type rt i" and "is_jump (i_op i)"
    and "a_ctl s = Fall" and "arm_step env i s = Some s1" and "arm_step env (map_regs f i) t = Some t1"
  shows "ret_agree rt s1 t1"
proof (cases "a_ctl s1 = Returned")
  case True
  note a = assms(2) [unfolded rn_agree_def arm_same_env_def]
  have c: "cond_holds (i_cond i) (a_flags s)"
    using True assms(4-6) by (cases "i_op i") (auto simp: arm_step_def skip_op_def split: if_splits)
  have x: "i_op i = Return rt"
    using True assms(3-6) c by (cases "i_op i") (auto simp: arm_step_def ret_type_def)
  have s1: "s1 = s\<lparr>a_ctl := Returned\<rparr>" using assms(5,6) c x by (simp add: arm_step_def)
  have t1: "t1 = t\<lparr>a_ctl := Returned\<rparr>" using assms(5,7) c x a by (simp add: arm_step_def map_regs_def)
  have "a_reg s r = a_reg t r" if r: "r \<in> set (op_use_reg Always (Return rt))" for r
  proof -
    have "r \<in> set (use_reg i)" using r by (simp add: use_reg_def x)
    moreover have "\<not> is_pseudo r" using r by (cases rt) (auto simp: is_pseudo_def int_count_def float_count_def)
    ultimately show ?thesis
      using a fixed_machine [OF assms(1), of r] by (cases "tracked r") (auto simp: update_live_def)
  qed
  then show ?thesis by (simp add: ret_agree_def s1 t1)
qed (simp add: ret_agree_def)

lemma live_jumps: "list_all (\<lambda>i. is_jump (i_op i)) is \<Longrightarrow> L \<subseteq> foldr update_live is L"
proof (induction "is")
  case (Cons i "is")
  then show ?case using jump_defs [of i] by (auto simp: update_live_def)
qed simp

lemma rn_insts_sim:
  assumes "names_ok f R E" and "L \<subseteq> R" and "list_all (exact env) is" and "list_all (ret_type rt) is"
    and "jump_tail is" and "regs_within R is"
    and "\<forall>ty \<in> {IntT, FloatT}. interf_ok ty (rev is) (typed_regs ty L) (E ty)"
    and "rn_agree f (foldr update_live is L) s t" and "a_ctl s = Fall" and "arm_run env is s = Some s'"
  shows "\<exists>t'. arm_run env (map (map_regs f) is) t = Some t' \<and> rn_agree f L s' t' \<and> ret_agree rt s' t'"
  using assms(3-)
proof (induction "is" arbitrary: s t)
  case Nil
  then show ?case by (auto simp: ret_agree_def)
next
  case (Cons i "is")
  have fixed: "machine_fixed f" using assms(1) by (simp add: names_ok_def)
  let ?L = "foldr update_live is L"
  have w: "regs_within R is" "{r \<in> set (def_reg i) \<union> set (use_reg i). tracked r} \<subseteq> R"
    using Cons.prems(4) by (simp_all add: regs_within_def)
  have sub: "?L \<subseteq> R" by (rule live_within [OF w(1) assms(2)])
  have ex: "exact env i" "list_all (exact env) is" "ret_type rt i" "list_all (ret_type rt) is"
    using Cons.prems(1,2) by auto
  obtain s1 where s1: "arm_step env i s = Some s1" "arm_run env is s1 = Some s'"
    using Cons.prems(8) by (auto split: option.splits)
  have ctl: "a_ctl t = Fall" using Cons.prems(6,7) by (simp add: rn_agree_def arm_same_env_def)
  have b: "body_step env i s = Some s1" using s1(1) Cons.prems(7) by (simp add: body_step_def)
  have li: "\<forall>ty \<in> {IntT, FloatT}. interf_ok ty (rev is) (typed_regs ty L) (E ty)"
    "\<forall>ty \<in> {IntT, FloatT}. defs_linked ty i (typed_regs ty ?L) (E ty)"
    using Cons.prems(5) interf_Cons by blast+
  have "\<forall>r \<in> ?L \<union> set (use_reg i). tracked r \<longrightarrow> tracked (f r)"
    using sub w(2) assms(1) unfolding names_ok_def by blast
  moreover have "names_apart f i (?L \<union> untracked)"
    by (rule names_apart_ok [OF assms(1) sub _ li(2)]) (use w(2) in blast)
  moreover have ag: "rn_agree f (update_live i ?L) s t" using Cons.prems(6) by simp
  ultimately obtain t1 where t1: "body_step env (map_regs f i) t = Some t1" "rn_agree f ?L s1 t1"
    using rn_step [OF fixed ex(1) _ _ _ b] by blast
  have t1s: "arm_step env (map_regs f i) t = Some t1" using t1(1) ctl by (simp add: body_step_def)
  show ?case
  proof (cases "a_ctl s1 = Fall")
    case True
    have "jump_tail is" using Cons.prems(3) jumps_tail by (auto split: if_splits)
    from Cons.IH [OF ex(2,4) this w(1) li(1) t1(2) True s1(2)] t1s show ?thesis by simp
  next
    case False
    then have j: "is_jump (i_op i)" using arm_step_ctl [OF exact_call_ok [OF ex(1)] _ s1(1) Cons.prems(7)] by blast
    then have "list_all (\<lambda>i. is_jump (i_op i)) is" using Cons.prems(3) by simp
    then have "L \<subseteq> ?L" by (rule live_jumps)
    moreover have "s' = s1" "arm_run env (map (map_regs f) is) t1 = Some t1"
      using False s1(2) t1(2) by (simp_all add: arm_run_left rn_agree_def arm_same_env_def)
    moreover have "ret_agree rt s1 t1" by (rule rn_return [OF fixed ag ex(3) j Cons.prems(7) s1(1) t1s])
    ultimately show ?thesis using t1(2) t1s by (auto simp: rn_agree_def)
  qed
qed

text \<open>What the allocation relies on: the edges are those of the control flow, jumps stand at the end of a
  block, declared registers are exact and every register is an integer or a float.\<close>

definition typed_inst :: "inst \<Rightarrow> bool" where
  "typed_inst i = list_all (\<lambda>r. ar_type r = IntT \<or> ar_type r = FloatT) (def_reg i @ use_reg i)"

definition alloc_pre :: "arm_env \<Rightarrow> scalar_type \<Rightarrow> flow_block list \<Rightarrow> bool" where
  "alloc_pre env rt bs =
     (edges_ok bs \<and> branch_edges bs \<and> fall_edges bs \<and>
      list_all (\<lambda>b. list_all (exact env) (fb_insts b) \<and> list_all (ret_type rt) (fb_insts b) \<and>
         list_all plain_return (fb_insts b) \<and> jump_tail (fb_insts b) \<and> list_all typed_inst (fb_insts b)) bs)"

definition all_regs :: "flow_block list \<Rightarrow> areg set" where
  "all_regs bs = fun_regs IntT bs \<union> fun_regs FloatT bs"

lemma all_regs_within:
  assumes "alloc_pre env rt bs" and "b \<in> set bs"
  shows "regs_within (all_regs bs) (fb_insts b)"
proof -
  have "r \<in> all_regs bs"
    if i: "i \<in> set (fb_insts b)" and r: "r \<in> set (def_reg i) \<union> set (use_reg i)" "tracked r" for i r
  proof -
    have "ar_type r = IntT \<or> ar_type r = FloatT"
      using assms i r by (auto simp: alloc_pre_def list_all_iff typed_inst_def)
    moreover have "r \<in> fun_regs (ar_type r) bs"
      using i r assms(2) tracked_in_graph [OF r(2)] by (auto simp: fun_regs_def regs_in_def gdefs_def guses_def)
    ultimately show ?thesis by (auto simp: all_regs_def)
  qed
  then show ?thesis by (auto simp: regs_within_def list_all_iff)
qed

lemma live_out_within:
  assumes "alloc_pre env rt bs" and "live_ok (use_of bs) (def_set_of bs) (preds_of bs) (lin, lout, [])"
  shows "lout b \<subseteq> all_regs bs"
proof
  fix r assume "r \<in> lout b"
  then obtain c i where c: "c \<in> set bs" "i \<in> set (fb_insts c)" "r \<in> set (use_reg i)" "tracked r"
    using live_used [OF assms(2), of b] by blast
  then show "r \<in> all_regs bs"
    using all_regs_within [OF assms(1) c(1)] by (auto simp: regs_within_def list_all_iff)
qed

text \<open>The sets and graphs the simulation works with.\<close>

definition alloc_facts ::
  "(areg \<Rightarrow> areg) \<Rightarrow> (scalar_type \<Rightarrow> edges) \<Rightarrow> live_sets \<Rightarrow> live_sets \<Rightarrow> flow_block list \<Rightarrow> bool" where
  "alloc_facts f E lin lout bs =
     (live_solution (use_of bs) (def_set_of bs) (preds_of bs) lin lout \<and> names_ok f (all_regs bs) E \<and>
      (\<forall>b. lout b \<subseteq> all_regs bs) \<and>
      (\<forall>b \<in> set bs. \<forall>ty \<in> {IntT, FloatT}. interf_ok ty (rev (fb_insts b)) (typed_regs ty (lout (fb_id b))) (E ty)))"

definition rename_block :: "(areg \<Rightarrow> areg) \<Rightarrow> flow_block \<Rightarrow> flow_block" where
  "rename_block f b = b\<lparr>fb_insts := map (map_regs f) (fb_insts b)\<rparr>"

lemma rename_drop:
  "dropWhile (\<lambda>b. fb_id b \<noteq> t) (map (rename_block f) bs) = map (rename_block f) (dropWhile (\<lambda>b. fb_id b \<noteq> t) bs)"
  by (induction bs) (auto simp: rename_block_def)

lemma rename_block_sim:
  assumes "alloc_facts f E lin lout bs" and "alloc_pre env rt bs" and "b \<in> set bs"
    and "rn_agree f (lin (fb_id b)) s t" and "a_ctl s = Fall" and "arm_run env (fb_insts b) s = Some s'"
  shows "\<exists>t'. arm_run env (fb_insts (rename_block f b)) t = Some t' \<and> rn_agree f (lout (fb_id b)) s' t' \<and> ret_agree rt s' t'"
proof -
  note a = assms(1) [unfolded alloc_facts_def]
  have "edges_ok bs" using assms(2) by (simp add: alloc_pre_def)
  then have "foldr update_live (fb_insts b) (lout (fb_id b)) = lin (fb_id b)"
    using live_transfer [OF _ _ assms(3)] a by blast
  moreover have "list_all (exact env) (fb_insts b)" "list_all (ret_type rt) (fb_insts b)" "jump_tail (fb_insts b)"
    using assms(2,3) by (auto simp: alloc_pre_def list_all_iff)
  ultimately show ?thesis
    using rn_insts_sim [of f "all_regs bs" E "lout (fb_id b)" env "fb_insts b" rt s t s'] a assms(3-)
      all_regs_within [OF assms(2,3)] by (simp add: rename_block_def)
qed

lemma rename_flow_sim:
  assumes facts: "alloc_facts f E lin lout bs" and pre: "alloc_pre env rt bs"
    and "bs = ys @ xs" and "xs \<noteq> [] \<longrightarrow> rn_agree f (lin (fb_id (hd xs))) s t"
    and "a_ctl s = Fall" and "flow_run env (flow_of bs) n (flow_of xs) s = Some s'"
  shows "\<exists>t'. flow_run env (flow_of (map (rename_block f) bs)) n (flow_of (map (rename_block f) xs)) t = Some t' \<and>
     arm_same_env s' t' \<and> ret_agree rt s' t' \<and> a_ctl s' = Returned"
  using assms(3-)
proof (induction n arbitrary: ys xs s t)
  case (Suc n)
  have sol: "live_solution (use_of bs) (def_set_of bs) (preds_of bs) lin lout" using facts by (simp add: alloc_facts_def)
  obtain b zs where xs: "xs = b # zs" using Suc.prems(4) by (cases xs) (auto simp: flow_of_def)
  have b: "b \<in> set bs" using Suc.prems(1) xs by simp
  obtain s1 where s1: "arm_run env (fb_insts b) s = Some s1"
    using Suc.prems(4) by (auto simp: xs flow_of_def split: option.splits)
  have "rn_agree f (lin (fb_id b)) s t" using Suc.prems(2) by (simp add: xs)
  from rename_block_sim [OF facts pre b this Suc.prems(3) s1] obtain t1 where
    t1: "arm_run env (fb_insts (rename_block f b)) t = Some t1" "rn_agree f (lout (fb_id b)) s1 t1" "ret_agree rt s1 t1"
    by blast
  have same: "arm_same_env s1 t1" and ctl: "a_ctl t1 = a_ctl s1" using t1(2) by (simp_all add: rn_agree_def arm_same_env_def)
  have le: "rn_agree f (lin c) s1 t1" if "fb_id b \<in> set (preds_of bs c)" for c
    using t1(2) live_edge [OF sol that] by (auto simp: rn_agree_def)
  have "list_all (call_ok env) (fb_insts b)" "list_all plain_return (fb_insts b)"
    using pre b exact_call_ok by (auto simp: alloc_pre_def list_all_iff)
  note exit = run_exit [OF this Suc.prems(3) s1]
  have head: "flow_of (map (rename_block f) xs) = (fb_id b, fb_insts (rename_block f b)) # flow_of (map (rename_block f) zs)"
    by (simp add: flow_of_def xs rename_block_def)
  have head0: "flow_of xs = (fb_id b, fb_insts b) # flow_of zs" by (simp add: flow_of_def xs)
  show ?case
  proof (cases "a_ctl s1")
    case Fall
    have "zs \<noteq> [] \<longrightarrow> rn_agree f (lin (fb_id (hd zs))) s1 t1"
    proof
      assume "zs \<noteq> []"
      then obtain c ws where zs: "zs = c # ws" by (cases zs) auto
      have "fall_edges (b # c # ws)"
        using pre Suc.prems(1) fall_edges_append [of ys xs] by (simp add: alloc_pre_def xs zs)
      then have "fb_id b \<in> set (fb_in c)" using exit Fall by simp
      then have "fb_id b \<in> set (preds_of bs (fb_id c))"
        using pre block_at_in [of bs c] Suc.prems(1) by (simp add: alloc_pre_def preds_of_def xs zs)
      then show "rn_agree f (lin (fb_id (hd zs))) s1 t1" using le by (simp add: zs)
    qed
    from Suc.IH [of "ys @ [b]" zs s1 t1, OF _ this Fall] Suc.prems(1,4) s1 t1(1) Fall ctl show ?thesis
      unfolding head head0 by (simp add: xs)
  next
    case (Goto g)
    let ?zs = "dropWhile (\<lambda>b. fb_id b \<noteq> g) bs"
    have app: "bs = takeWhile (\<lambda>b. fb_id b \<noteq> g) bs @ ?zs" by simp
    have "fb_id b \<in> set (preds_of bs g)"
      using exit Goto pre b by (auto simp: alloc_pre_def branch_edges_def list_all_iff preds_of_def)
    from le [OF this] have "?zs \<noteq> [] \<longrightarrow> rn_agree f (lin (fb_id (hd ?zs))) (s1\<lparr>a_ctl := Fall\<rparr>) (t1\<lparr>a_ctl := Fall\<rparr>)"
      using hd_dropWhile [of "\<lambda>b. fb_id b \<noteq> g" bs] by (auto simp: rn_agree_def arm_same_env_def)
    from Suc.IH [OF app this] Suc.prems(4) s1 t1(1) Goto ctl show ?thesis
      unfolding head head0 by (simp add: flow_from_of rename_drop)
  next
    case Returned
    then show ?thesis using Suc.prems(4) s1 t1 ctl same unfolding head head0 by simp
  qed
qed simp

section \<open>The result of the allocator\<close>

text \<open>A run of the allocator: it ends, and either every register of the type got a register of its own
  among its neighbours, or it names pseudo registers to spill.\<close>

definition may_spill :: "scalar_type \<Rightarrow> (int \<Rightarrow> bool) \<Rightarrow> flow_block list \<Rightarrow> bool" where
  "may_spill ty spilling bs = (\<forall>r \<in> fun_regs ty bs. reg_count ty \<le> ar_id r \<longrightarrow> \<not> spilling (ar_id r))"

lemma run_alloc_graph:
  assumes "edges_ok bs" and ty: "ty = IntT \<or> ty = FloatT" and "numbers_ok ty n bs"
    and "run_alloc ty n spilling cheap bs = Some (Allocated xs)" and "calc_live bs = Some (lin, lout)"
  shows "\<exists>ans E. xs = map ans [0..n - 1] \<and> proper_alloc ty (ar_id ` fun_regs ty bs) E ans \<and>
    (\<forall>b \<in> set bs. interf_ok ty (rev (fb_insts b)) (typed_regs ty (lout (fb_id b))) E)"
proof -
  from build_graph_ok [OF assms(1) ty assms(3)] assms(5) obtain g where
    g: "build_graph ty bs = Some g" "graph_ok ty n g" "fst g = ar_id ` fun_regs ty bs"
      "\<forall>b \<in> set bs. interf_ok ty (rev (fb_insts b)) {r \<in> lout (fb_id b). ar_type r = ty} (snd g)" by auto
  from alloc_graph_ok [OF ty g(2)] obtain st where
    st: "simplify ty (init_simp ty n g) = Some st"
      "ss_remain st = {} \<Longrightarrow> (\<exists>ans used. color_nodes ty (rev (ss_hist st)) (machine_ans ty (fst g)) (machine_used ty (fst g))
        = Some (ans, used) \<and> proper_alloc ty (fst g) (snd g) ans)" by blast
  have r: "ss_remain st = {}"
    using assms(4) g(1) st(1) by (auto simp: run_alloc_def split: if_splits)
  from st(2) [OF r] obtain ans used where
    a: "color_nodes ty (rev (ss_hist st)) (machine_ans ty (fst g)) (machine_used ty (fst g)) = Some (ans, used)"
      "proper_alloc ty (fst g) (snd g) ans" by blast
  have "xs = map ans [0..n - 1]" using assms(4) g(1) st(1) r a(1) by (simp add: run_alloc_def)
  then show ?thesis using a(2) g(3,4) unfolding typed_regs_def by metis
qed

lemma fun_regs_graph: "r \<in> fun_regs ty bs \<Longrightarrow> in_graph ty r"
  by (auto simp: fun_regs_def regs_in_def gdefs_def guses_def)

lemma alloc_reg_at:
  assumes "proper_alloc ty (ar_id ` fun_regs ty bs) E ans" and "numbers_ok ty n bs" and "r \<in> fun_regs ty bs"
    and "(if ty = IntT then ints else floats) = map ans [0..n - 1]"
  shows "alloc_reg ints floats r = AReg ty (ans (ar_id r)) \<and> tracked (AReg ty (ans (ar_id r)))"
proof -
  have g: "in_graph ty r" by (rule fun_regs_graph [OF assms(3)])
  have n: "0 \<le> ar_id r" "ar_id r < n" using assms(2,3) by (auto simp: numbers_ok_def)
  have at: "map ans [0..n - 1] ! nat (ar_id r) = ans (ar_id r)" using n by (simp add: nth_upto)
  have oc: "ar_id r \<in> ar_id ` fun_regs ty bs" using assms(3) by blast
  note pa = assms(1) [unfolded proper_alloc_def]
  have m: "ans (ar_id r) \<in> machine_regs ty" using pa oc by blast
  then have t: "tracked (AReg ty (ans (ar_id r)))"
    using tracked_in_graph in_graph_iff [of ty "AReg ty (ans (ar_id r))"] by (simp add: in_graph_def machine_regs_def)
  have ty: "ar_type r = ty" using g by (simp add: in_graph_def)
  have "alloc_reg ints floats r = AReg ty (ans (ar_id r))"
  proof (cases "is_pseudo r")
    case True
    then show ?thesis using assms(4) at ty by (simp add: alloc_reg_def)
  next
    case False
    then have "ar_id r < reg_count ty" using ty by (simp add: is_pseudo_def reg_count_def split: if_splits)
    then have "ans (ar_id r) = ar_id r" using pa oc by blast
    then show ?thesis using False ty by (cases r) (simp add: alloc_reg_def)
  qed
  then show ?thesis using t by simp
qed

lemma alloc_reg_fixed: "machine_fixed (alloc_reg ints floats)"
  by (simp add: machine_fixed_def alloc_reg_def)

lemma run_alloc_names:
  assumes "edges_ok bs" and "numbers_ok IntT n bs" and "numbers_ok FloatT n bs"
    and "run_alloc IntT n sp1 ch1 bs = Some (Allocated ints)" and "run_alloc FloatT n sp2 ch2 bs = Some (Allocated floats)"
    and "calc_live bs = Some (lin, lout)"
  shows "\<exists>E. names_ok (alloc_reg ints floats) (all_regs bs) E \<and>
    (\<forall>b \<in> set bs. \<forall>ty \<in> {IntT, FloatT}. interf_ok ty (rev (fb_insts b)) (typed_regs ty (lout (fb_id b))) (E ty))"
proof -
  let ?f = "alloc_reg ints floats"
  from run_alloc_graph [OF assms(1) _ assms(2,4,6)] obtain a1 E1 where
    i: "ints = map a1 [0..n - 1]" "proper_alloc IntT (ar_id ` fun_regs IntT bs) E1 a1"
      "\<forall>b \<in> set bs. interf_ok IntT (rev (fb_insts b)) (typed_regs IntT (lout (fb_id b))) E1" by blast
  from run_alloc_graph [OF assms(1) _ assms(3,5,6)] obtain a2 E2 where
    f: "floats = map a2 [0..n - 1]" "proper_alloc FloatT (ar_id ` fun_regs FloatT bs) E2 a2"
      "\<forall>b \<in> set bs. interf_ok FloatT (rev (fb_insts b)) (typed_regs FloatT (lout (fb_id b))) E2" by blast
  let ?E = "\<lambda>ty. if ty = IntT then E1 else E2"
  let ?a = "\<lambda>ty. if ty = IntT then a1 else a2"
  have pa: "proper_alloc ty (ar_id ` fun_regs ty bs) (?E ty) (?a ty)" if "ty = IntT \<or> ty = FloatT" for ty
    using i(2) f(2) that by auto
  have at: "?f r = AReg ty (?a ty (ar_id r)) \<and> tracked (AReg ty (?a ty (ar_id r)))"
    if "r \<in> fun_regs ty bs" "ty = IntT \<or> ty = FloatT" for r ty
    using alloc_reg_at [OF pa [OF that(2)] _ that(1), of n ints floats] that(2) assms(2,3) i(1) f(1) by auto
  have typed: "r \<in> all_regs bs \<Longrightarrow> r \<in> fun_regs (ar_type r) bs \<and> (ar_type r = IntT \<or> ar_type r = FloatT) \<and> tracked r" for r
    using in_graph_tracked [OF fun_regs_graph] by (auto simp: all_regs_def)
  have "?f a \<noteq> ?f b"
    if "a \<in> all_regs bs" "b \<in> all_regs bs" "ar_type a = ar_type b" "(ar_id a, ar_id b) \<in> rel (?E (ar_type a))" for a b
  proof -
    note ta = typed [OF that(1)] and tb = typed [OF that(2)]
    have "?a (ar_type a) (ar_id a) \<noteq> ?a (ar_type a) (ar_id b)"
      using pa [of "ar_type a"] ta tb that(3,4) unfolding proper_alloc_def rel_def by auto
    then show ?thesis using at [of a "ar_type a"] at [of b "ar_type a"] ta tb that(3) by simp
  qed
  moreover have "tracked r \<and> (ar_type r = IntT \<or> ar_type r = FloatT) \<and> tracked (?f r)" if "r \<in> all_regs bs" for r
    using typed [OF that] at [of r "ar_type r"] by simp
  ultimately have "names_ok ?f (all_regs bs) ?E" using alloc_reg_fixed by (simp add: names_ok_def)
  moreover have "\<forall>b \<in> set bs. \<forall>ty \<in> {IntT, FloatT}. interf_ok ty (rev (fb_insts b)) (typed_regs ty (lout (fb_id b))) (?E ty)"
    using i(3) f(3) by simp
  ultimately show ?thesis by blast
qed

lemma replace_rename: "replace_with_reg_alloc ints floats bs = map (rename_block (alloc_reg ints floats)) bs"
  by (simp add: replace_with_reg_alloc_def rename_block_def)

text \<open>The allocated function does what the function did, from states that agree on what is live at the
  entry.\<close>

lemma reg_alloc_result:
  assumes pre: "alloc_pre env rt bs" and "numbers_ok IntT n bs" and "numbers_ok FloatT n bs"
    and "run_alloc IntT n sp1 ch1 bs = Some (Allocated ints)" and "run_alloc FloatT n sp2 ch2 bs = Some (Allocated floats)"
  shows "\<exists>lin lout. calc_live bs = Some (lin, lout) \<and>
     (\<forall>k s t s'. a_ctl s = Fall \<longrightarrow> rn_agree (alloc_reg ints floats) (lin (fb_id (hd bs))) s t \<longrightarrow>
       flow_run env (flow_of bs) k (flow_of bs) s = Some s' \<longrightarrow>
       (\<exists>t'. flow_run env (flow_of (replace_with_reg_alloc ints floats bs)) k
            (flow_of (replace_with_reg_alloc ints floats bs)) t = Some t' \<and>
          arm_same_env s' t' \<and> ret_agree rt s' t' \<and> a_ctl s' = Returned))"
proof -
  have e: "edges_ok bs" using pre by (simp add: alloc_pre_def)
  from calc_live_result [OF this] obtain lin lout where
    c: "calc_live bs = Some (lin, lout)" "live_ok (use_of bs) (def_set_of bs) (preds_of bs) (lin, lout, [])" by blast
  from run_alloc_names [OF e assms(2-5) c(1)] obtain E where
    E: "names_ok (alloc_reg ints floats) (all_regs bs) E"
      "\<forall>b \<in> set bs. \<forall>ty \<in> {IntT, FloatT}. interf_ok ty (rev (fb_insts b)) (typed_regs ty (lout (fb_id b))) (E ty)" by blast
  have "alloc_facts (alloc_reg ints floats) E lin lout bs"
    using live_ok_final(1) [OF c(2)] E live_out_within [OF pre c(2)] unfolding alloc_facts_def by blast
  note sim = rename_flow_sim [OF this pre, of "[]" bs]
  show ?thesis
    unfolding replace_rename
  proof (rule exI, rule exI, rule conjI, rule c(1), intro allI impI)
    fix k s t s'
    assume "a_ctl s = Fall" "rn_agree (alloc_reg ints floats) (lin (fb_id (hd bs))) s t"
      "flow_run env (flow_of bs) k (flow_of bs) s = Some s'"
    then show "\<exists>t'. flow_run env (flow_of (map (rename_block (alloc_reg ints floats)) bs)) k
            (flow_of (map (rename_block (alloc_reg ints floats)) bs)) t = Some t' \<and>
          arm_same_env s' t' \<and> ret_agree rt s' t' \<and> a_ctl s' = Returned"
      using sim [of s t k s'] by simp
  qed
qed

text \<open>A run of the allocator ends, with a colouring or with pseudo registers to spill.\<close>

lemma run_alloc_ends:
  assumes e: "edges_ok bs" and ty: "ty = IntT \<or> ty = FloatT" and n: "numbers_ok ty n bs" and m: "may_spill ty spilling bs"
  shows "(\<exists>ns. run_alloc ty n spilling cheap bs = Some (Spilled ns) \<and> ns \<noteq> [] \<and>
      (\<forall>x \<in> set ns. \<exists>r \<in> fun_regs ty bs. ar_id r = x \<and> is_pseudo r)) \<or>
    (\<exists>ans E lin lout. run_alloc ty n spilling cheap bs = Some (Allocated (map ans [0..n - 1])) \<and>
      proper_alloc ty (ar_id ` fun_regs ty bs) E ans \<and> calc_live bs = Some (lin, lout) \<and>
      (\<forall>b \<in> set bs. interf_ok ty (rev (fb_insts b)) (typed_regs ty (lout (fb_id b))) E))"
proof -
  from build_graph_ok [OF e ty n] obtain lin lout g where
    g: "calc_live bs = Some (lin, lout)" "build_graph ty bs = Some g" "graph_ok ty n g" "fst g = ar_id ` fun_regs ty bs" by blast
  from alloc_graph_ok [OF ty g(3)] obtain st P R where
    st: "simplify ty (init_simp ty n g) = Some st"
      "ss_remain st = {} \<longrightarrow> (\<exists>ans used. color_nodes ty (rev (ss_hist st)) (machine_ans ty (fst g)) (machine_used ty (fst g))
        = Some (ans, used) \<and> proper_alloc ty (fst g) (snd g) ans)"
    and inv: "graph_wf ty P (snd g)" "simp_inv ty P (snd g) R st" "ss_queue st = []" "P \<subseteq> fst g" by blast
  show ?thesis
  proof (cases "ss_remain st = {}")
    case True
    then obtain ans used where
      a: "color_nodes ty (rev (ss_hist st)) (machine_ans ty (fst g)) (machine_used ty (fst g)) = Some (ans, used)"
      using st(2) by blast
    then have "run_alloc ty n spilling cheap bs = Some (Allocated (map ans [0..n - 1]))"
      using g(2) st(1) True by (simp add: run_alloc_def)
    moreover from run_alloc_graph [OF e ty n this g(1)] obtain ans2 E where
      "map ans [0..n - 1] = map ans2 [0..n - 1]" "proper_alloc ty (ar_id ` fun_regs ty bs) E ans2"
      "\<forall>b \<in> set bs. interf_ok ty (rev (fb_insts b)) (typed_regs ty (lout (fb_id b))) E" by blast
    ultimately show ?thesis using g(1) by metis
  next
    case False
    have pseudo: "\<exists>r \<in> fun_regs ty bs. ar_id r = x \<and> is_pseudo r" if "x \<in> P" for x
    proof -
      have "x \<in> ar_id ` fun_regs ty bs" using that inv(4) g(4) by blast
      then obtain r where r: "r \<in> fun_regs ty bs" "ar_id r = x" by blast
      have "reg_count ty \<le> x" using graph_wfD(6) [OF inv(1) that] .
      then show ?thesis using r fun_regs_graph [OF r(1)] by (auto simp: is_pseudo_def reg_count_def in_graph_def)
    qed
    have "\<not> spilling x" if "x \<in> P" for x
      using pseudo [OF that] m graph_wfD(6) [OF inv(1) that] by (auto simp: may_spill_def)
    then obtain ns where "spill_loop ty spilling cheap st [] = Some ns" "set ns \<subseteq> P" "ns \<noteq> []"
      using spill_loop_ok [OF inv(1) _ inv(2,3), of spilling cheap "[]"] False by auto
    then show ?thesis using g(2) st(1) False pseudo by (auto simp: run_alloc_def)
  qed
qed

text \<open>No pseudo register is live at the entry: the registers that are live there hold the arguments.\<close>

definition entry_machine :: "flow_block list \<Rightarrow> bool" where
  "entry_machine bs =
     (case calc_live bs of None \<Rightarrow> False | Some (lin, lout) \<Rightarrow> \<forall>r \<in> lin (fb_id (hd bs)). \<not> is_pseudo r)"

lemma reg_alloc_run:
  assumes "alloc_pre env rt bs" and "numbers_ok IntT n bs" and "numbers_ok FloatT n bs"
    and "run_alloc IntT n sp1 ch1 bs = Some (Allocated ints)" and "run_alloc FloatT n sp2 ch2 bs = Some (Allocated floats)"
    and "entry_machine bs" and "a_ctl s = Fall" and "flow_run env (flow_of bs) k (flow_of bs) s = Some s'"
  shows "\<exists>t'. flow_run env (flow_of (replace_with_reg_alloc ints floats bs)) k
            (flow_of (replace_with_reg_alloc ints floats bs)) s = Some t' \<and>
          arm_same_env s' t' \<and> ret_agree rt s' t' \<and> a_ctl t' = Returned"
proof -
  from reg_alloc_result [OF assms(1-5)] obtain lin lout where
    c: "calc_live bs = Some (lin, lout)" and
    r: "\<And>k s t s'. a_ctl s = Fall \<Longrightarrow> rn_agree (alloc_reg ints floats) (lin (fb_id (hd bs))) s t \<Longrightarrow>
       flow_run env (flow_of bs) k (flow_of bs) s = Some s' \<Longrightarrow>
       \<exists>t'. flow_run env (flow_of (replace_with_reg_alloc ints floats bs)) k
            (flow_of (replace_with_reg_alloc ints floats bs)) t = Some t' \<and>
          arm_same_env s' t' \<and> ret_agree rt s' t' \<and> a_ctl s' = Returned" by blast
  have "rn_agree (alloc_reg ints floats) (lin (fb_id (hd bs))) s s"
    using assms(6) c fixed_machine [OF alloc_reg_fixed] by (simp add: entry_machine_def rn_agree_def)
  from r [OF assms(7) this assms(8)] show ?thesis by (auto simp: arm_same_env_def)
qed

end
