(* ===== verification/ArmOpt.thy ===== *)
theory ArmOpt
  imports MergeFacts ArmFlow
begin

text \<open>
  The passes of the back end that rewrite a block instruction by instruction:
  \<open>replace_pseduo_inst\<close>, \<open>remove_trivial_inst\<close>, \<open>replace_complex_inst\<close> (\<open>src/arm/opt\<close>) and
  \<open>Func::check_store_stack\<close> (\<open>src/arm/func.cpp\<close>). Each is an instance of \<open>rewriting_pass\<close>,
  with the context the code carries through the block.
\<close>

section \<open>Remainders\<close>

text \<open>\<open>replace_pseduo_inst\<close>: there is no remainder instruction.\<close>

definition replace_pseudo :: "inst \<Rightarrow> inst list" where
  "replace_pseudo i =
     (case i_op i of
        RegRegInst RMod dst s1 s2 sh \<Rightarrow>
          always [RegRegInst RDiv dst s1 s2 no_shift, MLInst Mls dst s2 dst s1]
      | _ \<Rightarrow> [i])"

definition replace_pseudo_block :: "inst list \<Rightarrow> inst list" where
  "replace_pseudo_block is = concat (map replace_pseudo is)"

text \<open>The remainder must be unconditional and unshifted, and its destination a third register.\<close>

definition pseudo_ok :: "inst \<Rightarrow> bool" where
  "pseudo_ok i =
     (case i_op i of
        RegRegInst x dst s1 s2 sh \<Rightarrow>
          x = RMod \<longrightarrow> i_cond i = Always \<and> sh = no_shift \<and> dst \<noteq> s1 \<and> dst \<noteq> s2
      | _ \<Rightarrow> True)"

section \<open>Instructions without effect\<close>

text \<open>\<open>remove_trivial_inst\<close>: \<open>const_info\<close> maps the number of a register to the constant it holds.\<close>

type_synonym const_info = "int \<Rightarrow> w32 option"

definition trivial_step :: "const_info \<Rightarrow> inst \<Rightarrow> inst list \<times> const_info" where
  "trivial_step c i =
     (case i_op i of
        MoveReg d r \<Rightarrow>
          (if d = r then ([], c) else ([i], c(ar_id d := None)))
      | MoveImm x d v \<Rightarrow>
          (if x = Mov \<and> c (ar_id d) = Some v then ([], c)
           else if x = Mov \<and> i_cond i = Always then ([i], c(ar_id d := Some v))
           else ([i], c(ar_id d := None)))
      | _ \<Rightarrow> ([i], foldl (\<lambda>c r. c(ar_id r := None)) c (def_reg i)))"

definition remove_trivial :: "inst list \<Rightarrow> inst list" where
  "remove_trivial is = rewrite_block trivial_step (\<lambda>_. None) is"

section \<open>Stack accesses\<close>

text \<open>\<open>replace_complex_inst\<close>; the context is \<open>sp_offset\<close>, the distance the stack pointer has moved.\<close>

definition complex_step :: "(obj \<Rightarrow> w32) \<Rightarrow> w32 \<Rightarrow> inst \<Rightarrow> inst list \<times> w32" where
  "complex_step pos sp i =
     (let sp' = maintain_sp i sp in
      (case i_op i of
         LoadStack dst off k \<Rightarrow>
           (let total = pos k + off - sp' in
            if \<not> load_store_offset_range (sint total)
            then map (set_cond (i_cond i)) (load_imm (AReg IntT (ar_id dst)) total)
                 @ [Inst (i_cond i) (ComplexLoad dst sp_reg (AReg IntT (ar_id dst)) no_shift)]
            else [i])
       | LoadStackAddr dst off k \<Rightarrow> map (set_cond (i_cond i)) (reg_imm_sum dst sp_reg (pos k + off - sp'))
       | LoadStackOffset dst off k \<Rightarrow> map (set_cond (i_cond i)) (load_imm dst (pos k + off - sp'))
       | _ \<Rightarrow> [i], sp'))"

definition replace_complex :: "(obj \<Rightarrow> w32) \<Rightarrow> inst list \<Rightarrow> inst list" where
  "replace_complex pos is = rewrite_block (complex_step pos) 0 is"

text \<open>\<open>check_store_stack\<close>; the context is \<open>sp_offset\<close> and \<open>reg_n\<close>. The pass also tells whether
  every offset was in range.\<close>

definition store_step :: "(obj \<Rightarrow> w32) \<Rightarrow> w32 \<times> int \<Rightarrow> inst \<Rightarrow> inst list \<times> w32 \<times> int" where
  "store_step pos c i =
     (case c of (sp, n) \<Rightarrow>
        let sp' = maintain_sp i sp in
        (case i_op i of
           StoreStack src off k \<Rightarrow>
             (if \<not> load_store_offset_range (sint (pos k + off - sp'))
              then ([Inst (i_cond i) (LoadStackOffset (AReg IntT n) off k),
                     Inst (i_cond i) (ComplexStore src sp_reg (AReg IntT n) no_shift)], sp', n + 1)
              else ([i], sp', n))
         | _ \<Rightarrow> ([i], sp', n)))"

fun check_store_blocks :: "(obj \<Rightarrow> w32) \<Rightarrow> int \<Rightarrow> inst list list \<Rightarrow> inst list list \<times> int" where
  "check_store_blocks pos n [] = ([], n)"
| "check_store_blocks pos n (b # bs) =
     (let n1 = snd (rewrite_ctx (store_step pos) (0, n) b);
          (cs, n2) = check_store_blocks pos n1 bs
      in (rewrite_block (store_step pos) (0, n) b # cs, n2))"

text \<open>The result of \<open>check_store_stack\<close>: the blocks, the new \<open>reg_n\<close>, and whether nothing changed.\<close>

definition check_store_stack :: "(obj \<Rightarrow> w32) \<Rightarrow> int \<Rightarrow> inst list list \<Rightarrow> inst list list \<times> int \<times> bool" where
  "check_store_stack pos n bs = (let (cs, m) = check_store_blocks pos n bs in (cs, m, m = n))"

section \<open>Facts\<close>

lemma pseudo_step:
  assumes "pseudo_ok i" and "s = t" and "arm_step env i s = Some s'"
  shows "\<exists>t'. arm_run env (replace_pseudo i) t = Some t' \<and> s' = t'"
proof (cases "\<exists>dst s1 s2 sh. i_op i = RegRegInst RMod dst s1 s2 sh \<and> a_ctl s = Fall")
  case True
  then obtain dst s1 s2 sh where i: "i_op i = RegRegInst RMod dst s1 s2 sh" and c: "a_ctl s = Fall" by blast
  with assms(1) have "i_cond i = Always" "sh = no_shift" "dst \<noteq> s1" "dst \<noteq> s2" by (auto simp: pseudo_ok_def)
  then show ?thesis
    using assms(2,3) i c by (auto simp: replace_pseudo_def arm_run_always arm_step_def no_shift_def mult.commute)
next
  case False
  show ?thesis
  proof (cases "a_ctl s = Fall")
    case True
    with False have "replace_pseudo i = [i]"
      by (auto simp: replace_pseudo_def split: iop.splits rr_op.splits)
    then show ?thesis using assms by simp
  next
    case False
    then show ?thesis using assms arm_run_left [of s env "replace_pseudo i"] by (auto simp: arm_step_def)
  qed
qed

interpretation pseudo: local_rewriting "arm_step env" "arm_step env" replace_pseudo pseudo_ok "(=)" for env
  by unfold_locales (rule pseudo_step)

text \<open>The constants known in a block.\<close>

definition info_ok :: "const_info \<Rightarrow> arm_state \<Rightarrow> bool" where
  "info_ok c s = (\<forall>r v. ar_type r = IntT \<longrightarrow> c (ar_id r) = Some v \<longrightarrow> tracked r \<and> a_reg s r = v)"

definition trivial_sim :: "const_info \<Rightarrow> arm_state \<Rightarrow> arm_state \<Rightarrow> bool" where
  "trivial_sim c s t = (s = t \<and> (a_ctl s = Fall \<longrightarrow> info_ok c s))"

text \<open>A constant goes to an integer register that allocation handles.\<close>

definition trivial_ok :: "arm_env \<Rightarrow> inst \<Rightarrow> bool" where
  "trivial_ok env i =
     (exact env i \<and> (case i_op i of MoveImm x d v \<Rightarrow> ar_type d = IntT \<and> tracked d | _ \<Rightarrow> True))"

lemma erase_all: "foldl (\<lambda>c r. c(ar_id r := None)) c rs n = (if n \<in> ar_id ` set rs then None else c n)"
  by (induction rs arbitrary: c) auto

lemma info_erase:
  assumes "exact env i" and "info_ok c s" and "a_ctl s = Fall" and "arm_step env i s = Some s'"
  shows "info_ok (\<lambda>n. if n \<in> ar_id ` set (def_reg i) then None else c n) s'"
proof -
  have b: "body_step env i s = Some s'" using assms(3,4) by (simp add: body_step_def)
  have "a_reg s' r = a_reg s r" if "ar_id r \<notin> ar_id ` set (def_reg i)" "tracked r" for r
    by (rule body_step_frame [OF assms(1) b _ that(2)]) (use that(1) in blast)
  then show ?thesis using assms(2) by (auto simp: info_ok_def split: if_splits)
qed

lemma info_set:
  assumes "exact env i" and "info_ok c s" and "a_ctl s = Fall" and "arm_step env i s = Some s'"
    and "i = Inst Always (MoveImm Mov d v)" and "ar_type d = IntT" and "tracked d"
  shows "info_ok (c(ar_id d := Some v)) s'"
proof -
  have "s' = set_reg d v s" using assms(3-5) by (simp add: arm_step_def)
  moreover have "r = d" if "ar_type r = IntT" "ar_id r = ar_id d" for r
    using that assms(6) by (cases r; cases d) auto
  ultimately show ?thesis using assms(2,7) by (auto simp: info_ok_def split: if_splits)
qed

lemma trivial_keeps:
  assumes "exact env i" and "trivial_sim c s t" and "arm_step env i s = Some s'"
    and "rw = ([i], \<lambda>n. if n \<in> ar_id ` set (def_reg i) then None else c n)"
  shows "\<exists>t'. arm_run env (fst rw) t = Some t' \<and> trivial_sim (snd rw) s' t'"
proof (cases "a_ctl s = Fall")
  case True
  then have "s = t" "info_ok c s" using assms(2) by (auto simp: trivial_sim_def)
  then show ?thesis using assms(3,4) info_erase [OF assms(1) _ True assms(3), of c] by (simp add: trivial_sim_def)
next
  case False
  then have "s' = s" using assms(3) by (simp add: arm_step_def)
  then show ?thesis using assms(2-4) False by (simp add: trivial_sim_def)
qed

lemma trivial_drop:
  assumes "trivial_sim c s t" and "arm_step env i s = Some s'" and "i_op i = MoveReg d d"
    and "a_reg s d = v"
  shows "trivial_sim c s' t"
proof -
  have "s' = s" using assms(2,3) by (auto simp: arm_step_def skip_op_def set_reg_def split: if_splits)
  then show ?thesis using assms(1) by simp
qed

lemma trivial_step_sim:
  assumes "trivial_ok env i" and "trivial_sim c s t" and "arm_step env i s = Some s'"
  shows "\<exists>t'. arm_run env (fst (trivial_step c i)) t = Some t' \<and> trivial_sim (snd (trivial_step c i)) s' t'"
proof -
  have ex: "exact env i" using assms(1) by (simp add: trivial_ok_def)
  note keeps = trivial_keeps [OF ex assms(2,3)]
  have st: "s = t" and info: "a_ctl s = Fall \<Longrightarrow> info_ok c s" using assms(2) by (auto simp: trivial_sim_def)
  have other: "(\<forall>d r. i_op i \<noteq> MoveReg d r) \<Longrightarrow> (\<forall>x d v. i_op i \<noteq> MoveImm x d v) \<Longrightarrow> ?thesis"
    by (rule keeps) (auto simp: trivial_step_def erase_all fun_eq_iff split: iop.splits)
  show ?thesis
  proof (cases "i_op i")
    case (MoveReg d r)
    show ?thesis
    proof (cases "d = r")
      case True
      then have "trivial_sim c s' t" using trivial_drop [OF assms(2,3)] MoveReg by simp
      then show ?thesis by (simp add: trivial_step_def MoveReg True)
    next
      case False
      then show ?thesis by (intro keeps) (auto simp: trivial_step_def MoveReg def_reg_def fun_eq_iff)
    qed
  next
    case (MoveImm x d v)
    have d: "ar_type d = IntT" "tracked d" using assms(1) by (simp_all add: trivial_ok_def MoveImm)
    consider (same) "x = Mov" "c (ar_id d) = Some v"
      | (new) "x = Mov" "c (ar_id d) \<noteq> Some v" "i_cond i = Always"
      | (other) "x = Mov \<longrightarrow> c (ar_id d) \<noteq> Some v \<and> i_cond i \<noteq> Always" by blast
    then show ?thesis
    proof cases
      case same
      have "s' = s"
      proof (cases "a_ctl s = Fall")
        case True
        then have "a_reg s d = v" using info d same by (simp add: info_ok_def)
        then show ?thesis
          using assms(3) MoveImm same(1) by (auto simp: arm_step_def skip_op_def set_reg_def split: if_splits)
      qed (use assms(3) in \<open>simp add: arm_step_def\<close>)
      then show ?thesis using assms(2) by (simp add: trivial_step_def MoveImm same)
    next
      case new
      have "a_ctl s' = Fall \<Longrightarrow> info_ok (c(ar_id d := Some v)) s'"
      proof -
        assume f: "a_ctl s' = Fall"
        then have "a_ctl s = Fall" using assms(3) by (auto simp: arm_step_def split: if_splits)
        then show ?thesis
          using info_set [OF ex info _ assms(3) _ d] MoveImm new by (cases i) auto
      qed
      then show ?thesis
        using assms(3) st new by (simp add: trivial_step_def MoveImm trivial_sim_def)
    next
      case other
      then show ?thesis by (intro keeps) (auto simp: trivial_step_def MoveImm def_reg_def fun_eq_iff)
    qed
  qed (rule other, simp, simp)+
qed

interpretation trivial: rewriting_pass "arm_step env" "arm_step env" trivial_step "\<lambda>_. trivial_ok env" trivial_sim
  for env
  by unfold_locales (rule trivial_step_sim)

text \<open>Conditional sequences: without a change of the flags, a block of instructions under one
  condition runs as a whole or not at all.\<close>

definition quiet :: "inst \<Rightarrow> bool" where "quiet i = (i_cond i = Always \<and> single_dst (i_op i))"

lemma skip_single: "single_dst x \<Longrightarrow> skip_op x s = s"
  by (cases x) (simp_all add: skip_op_def single_dst_def)

lemma cond_run:
  assumes "list_all quiet is" and "a_ctl s = Fall"
  shows "arm_run env (map (set_cond c) is) s =
    (if cond_holds c (a_flags s) then arm_run env is s else Some s)"
  using assms
proof (induction "is" arbitrary: s)
  case (Cons i "is")
  have q: "i_cond i = Always" "single_dst (i_op i)" using Cons.prems(1) by (auto simp: quiet_def)
  have skip: "arm_run env (map (set_cond c) is) s = Some s" if "\<not> cond_holds c (a_flags s)"
    using Cons that by simp
  show ?case
  proof (cases "cond_holds c (a_flags s)")
    case True
    have e: "arm_step env (set_cond c i) s = arm_step env i s"
      using True q(1) Cons.prems(2) by (simp add: arm_step_def set_cond_def)
    show ?thesis
    proof (cases "arm_step env i s")
      case (Some s1)
      then obtain v where "s1 = set_reg (hd (op_def_reg (i_op i))) v s"
        using q Cons.prems(2) by (auto simp: arm_step_def exec_single(1) [OF q(2)])
      then have "a_ctl s1 = Fall" "a_flags s1 = a_flags s" using Cons.prems(2) by simp_all
      then show ?thesis using Cons.IH [of s1] Cons.prems(1) True e Some by simp
    qed (simp add: e True)
  next
    case False
    then have "arm_step env (set_cond c i) s = Some s"
      using Cons.prems(2) skip_single [OF q(2)] by (simp add: arm_step_def set_cond_def)
    then show ?thesis using skip False by simp
  qed
qed simp

lemma quiet_load_imm: "list_all quiet (load_imm d v)"
  by (simp add: load_imm_def always_def quiet_def single_dst_def Let_def)

lemma quiet_reg_imm_sum: "list_all quiet (reg_imm_sum d l v)"
  using quiet_load_imm [of d v] by (simp add: reg_imm_sum_def always_def quiet_def single_dst_def)

lemma cond_seq:
  assumes "list_all quiet is" and "arm_run env is s = exec_op env x s" and "single_dst x" and "a_ctl s = Fall"
  shows "arm_run env (map (set_cond c) is) s = arm_step env (Inst c x) s"
  using cond_run [OF assms(1,4), of env c] assms(2,4) skip_single [OF assms(3)]
  by (simp add: arm_step_def)

text \<open>What holds of the stack pointer in a block, and what the passes on stack accesses rely on:
  only pushes and legal changes move it, unconditionally, and a callee gives it back.\<close>

definition sp_sim :: "w32 \<Rightarrow> arm_state \<Rightarrow> bool" where
  "sp_sim sp s = (a_ctl s = Fall \<longrightarrow> a_reg s sp_reg = a_base s + sp)"

definition sp_ok :: "arm_env \<Rightarrow> inst \<Rightarrow> bool" where
  "sp_ok env i =
     (sp_reg \<notin> set (def_reg i) \<and>
      (case i_op i of
         Push rs \<Rightarrow> i_cond i = Always
       | ChangeSP c \<Rightarrow> i_cond i = Always \<and> (is_legal_immediate c \<or> is_legal_immediate (- c))
       | FuncCall f ni nf \<Rightarrow>
           (\<forall>s s'. ae_call env f ni nf s = Some s' \<longrightarrow> a_reg s' sp_reg = a_reg s sp_reg \<and> a_base s' = a_base s)
       | SIMD src ty rs n \<Rightarrow> src \<noteq> Some sp_reg \<or> ty \<noteq> VDUP_32
       | _ \<Rightarrow> True))"

lemma write_word_frame: "write_word a v s = Some s' \<Longrightarrow> a_base s' = a_base s \<and> a_reg s' = a_reg s"
  by (auto simp: write_word_def split: if_splits)

lemma push_regs_sp:
  "push_regs rs s = Some s' \<Longrightarrow> a_base s' = a_base s \<and> a_reg s' sp_reg = a_reg s sp_reg - 4 * of_nat (length rs)"
proof (induction rs arbitrary: s)
  case (Cons r rs)
  then obtain s1 where s1: "write_word (a_reg s sp_reg - 4) (a_reg s r) s = Some s1"
    "push_regs rs (set_reg sp_reg (a_reg s sp_reg - 4) s1) = Some s'" by (auto split: option.splits)
  from Cons.IH [OF s1(2)] write_word_frame [OF s1(1)] show ?case by (simp add: algebra_simps)
qed simp

lemma simd_base: "simd_exec src ty rs s = Some s' \<Longrightarrow> a_base s' = a_base s"
proof -
  assume e: "simd_exec src ty rs s = Some s'"
  have l: "vldm_lanes q a is u = Some u' \<Longrightarrow> a_base u' = a_base u" for q a "is" u u'
    by (induction "is" arbitrary: u) (fastforce split: option.splits)+
  have v: "vstm_lanes q a is u = Some u' \<Longrightarrow> a_base u' = a_base u" for q a "is" u u'
    by (induction "is" arbitrary: u) (fastforce split: option.splits dest: write_word_frame)+
  show ?thesis
    using e
    by (cases ty) (auto simp: simd_exec_def Let_def simp del: vldm_lanes.simps vstm_lanes.simps
          split: option.splits list.splits if_splits dest!: l v)
qed

lemma sp_exec:
  assumes "sp_ok env (Inst c x)" and "exec_op env x s = Some s'"
  shows "a_base s' = a_base s \<and> a_reg s' sp_reg = a_reg s sp_reg + op_maintain_sp x 0"
proof -
  have d: "sp_reg \<notin> set (op_def_reg x)" using assms(1) by (simp add: sp_ok_def def_reg_def)
  show ?thesis
  proof (cases "single_dst x")
    case True
    have "op_maintain_sp x 0 = 0" using True by (cases x) (simp_all add: single_dst_def)
    then show ?thesis
      using assms(2) d exec_single(2) [OF True] by (cases "op_def_reg x") (auto simp: exec_single(1) [OF True])
  next
    case False
    then show ?thesis
    proof (cases x)
      case (Push rs)
      then show ?thesis using assms(2) push_regs_sp by simp
    next
      case (SIMD src ty rs n)
      then have "a_reg s' sp_reg = a_reg s sp_reg"
        using assms(2) simd_frame [of src ty rs s s' sp_reg] by (simp add: sp_reg_def)
      then show ?thesis using SIMD assms(2) simd_base by simp
    next
      case (FuncCall f ni nf)
      then show ?thesis using assms by (simp add: sp_ok_def)
    next
      case (FRegInst y dd r)
      then have "y = FrF2D0 \<or> y = FrF2D1" using False by (simp add: single_dst_def)
      then show ?thesis using assms(2) FRegInst d by (auto simp: clobber_d8_def sp_reg_def)
    qed (use assms d False in \<open>auto simp: single_dst_def sp_ok_def dest: write_word_frame\<close>)
  qed
qed

lemma op_maintain_add: "op_maintain_sp x v = v + op_maintain_sp x 0"
  by (cases x) simp_all

lemma sp_step:
  assumes "sp_ok env i" and "sp_sim sp s" and "arm_step env i s = Some s'"
  shows "sp_sim (maintain_sp i sp) s'"
proof (cases "a_ctl s = Fall")
  case True
  have ms: "maintain_sp i sp = sp + op_maintain_sp (i_op i) 0"
    using op_maintain_add [of "i_op i" sp] by (simp add: maintain_sp_def)
  show ?thesis
  proof (cases "cond_holds (i_cond i) (a_flags s)")
    case holds: True
    then have "exec_op env (i_op i) s = Some s'" using assms(3) True by (simp add: arm_step_def)
    then show ?thesis
      using sp_exec [of env "i_cond i" "i_op i" s s'] assms(1,2) True by (simp add: sp_sim_def ms)
  next
    case False
    then have c: "i_cond i \<noteq> Always" by auto
    have "op_maintain_sp (i_op i) 0 = 0"
      using assms(1) c by (cases "i_op i") (simp_all add: sp_ok_def)
    moreover have "a_base s' = a_base s" "a_reg s' = a_reg s"
      using assms(3) True False by (auto simp: arm_step_def skip_op_def split: iop.splits)
    ultimately show ?thesis using assms(2) True by (simp add: sp_sim_def ms)
  qed
next
  case False
  then show ?thesis using assms(3) by (simp add: arm_step_def sp_sim_def)
qed

text \<open>The stack accesses replaced.\<close>

definition complex_sim :: "w32 \<Rightarrow> arm_state \<Rightarrow> arm_state \<Rightarrow> bool" where
  "complex_sim sp s t = (s = t \<and> sp_sim sp s)"

definition complex_ok :: "arm_env \<Rightarrow> w32 \<Rightarrow> inst \<Rightarrow> bool" where
  "complex_ok env sp i =
     (sp_ok env i \<and>
      (case i_op i of
         LoadStack dst off k \<Rightarrow> ar_type dst = IntT \<or> load_store_offset_range (sint (ae_pos env k + off - sp))
       | _ \<Rightarrow> True))"

lemma load_stack_run:
  assumes "a_ctl s = Fall" and "a_reg s sp_reg = a_base s + sp" and "dst \<noteq> sp_reg"
  shows "arm_run env (load_imm dst (ae_pos env k + off - sp) @ [Inst Always (ComplexLoad dst sp_reg dst no_shift)]) s
     = exec_op env (LoadStack dst off k) s"
proof -
  have a: "a_base s + (ae_pos env k + off) = a_base s + ae_pos env k + off" by (simp only: add.assoc)
  have r: "read_word (set_reg dst v s) x = read_word s x" for v x by (simp add: read_word_def)
  show ?thesis
    using assms(1,3)
    by (simp add: run_list_append load_imm_run arm_step_always no_shift_def assms(2) r a split: option.split)
qed

lemma load_addr_run:
  assumes "a_ctl s = Fall" and "a_reg s sp_reg = a_base s + sp" and "dst \<noteq> sp_reg"
  shows "arm_run env (reg_imm_sum dst sp_reg (ae_pos env k + off - sp)) s = exec_op env (LoadStackAddr dst off k) s"
  using assms(1,3) by (simp add: reg_imm_sum_run assms(2) algebra_simps)

lemma load_offset_run:
  assumes "a_ctl s = Fall" and "a_reg s sp_reg = a_base s + sp"
  shows "arm_run env (load_imm dst (ae_pos env k + off - sp)) s = exec_op env (LoadStackOffset dst off k) s"
  using assms(1) by (simp add: load_imm_run assms(2) algebra_simps)

lemma maintain_same: "op_maintain_sp x 0 = 0 \<Longrightarrow> op_maintain_sp x v = v"
  using op_maintain_add [of x v] by simp

lemma int_reg_eq: "ar_type r = IntT \<Longrightarrow> AReg IntT (ar_id r) = r"
  by (cases r) simp

lemma complex_step_run:
  assumes "complex_ok env sp i" and "a_ctl s = Fall" and "a_reg s sp_reg = a_base s + sp"
  shows "arm_run env (fst (complex_step (ae_pos env) sp i)) s = arm_step env i s"
proof -
  have sp: "sp_reg \<notin> set (op_def_reg (i_op i))" using assms(1) by (simp add: complex_ok_def sp_ok_def def_reg_def)
  have i: "i = Inst (i_cond i) (i_op i)" by simp
  have single: "arm_run env [i] s = arm_step env i s" by (simp split: option.split)
  show ?thesis
  proof (cases "i_op i")
    case (LoadStack dst off k)
    let ?tot = "ae_pos env k + off - sp"
    have d: "dst \<noteq> sp_reg" using sp LoadStack by simp
    show ?thesis
    proof (cases "load_store_offset_range (sint ?tot)")
      case True
      then show ?thesis using single by (simp add: complex_step_def LoadStack maintain_sp_def)
    next
      case False
      then have "ar_type dst = IntT" using assms(1) by (simp add: complex_ok_def LoadStack)
      then have r: "AReg IntT (ar_id dst) = dst" by (rule int_reg_eq)
      have m: "map (set_cond (i_cond i)) (load_imm dst ?tot) @ [Inst (i_cond i) (ComplexLoad dst sp_reg dst no_shift)]
         = map (set_cond (i_cond i)) (load_imm dst ?tot @ [Inst Always (ComplexLoad dst sp_reg dst no_shift)])"
        by (simp add: set_cond_def)
      have "list_all quiet (load_imm dst ?tot @ [Inst Always (ComplexLoad dst sp_reg dst no_shift)])"
        using quiet_load_imm [of dst ?tot] by (simp add: quiet_def single_dst_def)
      from cond_seq [where c = "i_cond i", OF this load_stack_run [OF assms(2,3) d] _ assms(2)] False show ?thesis
        using i by (simp add: complex_step_def LoadStack maintain_sp_def r m single_dst_def del: map_append)
    qed
  next
    case (LoadStackAddr dst off k)
    then have d: "dst \<noteq> sp_reg" using sp by simp
    from cond_seq [where c = "i_cond i", OF quiet_reg_imm_sum load_addr_run [OF assms(2,3) d] _ assms(2)] show ?thesis
      using i by (simp add: complex_step_def LoadStackAddr maintain_sp_def single_dst_def)
  next
    case (LoadStackOffset dst off k)
    from cond_seq [where c = "i_cond i", OF quiet_load_imm load_offset_run [OF assms(2,3)] _ assms(2)] show ?thesis
      using i by (simp add: complex_step_def LoadStackOffset maintain_sp_def single_dst_def)
  qed (use single in \<open>simp_all add: complex_step_def\<close>)
qed

lemma complex_step_sim:
  assumes "complex_ok env sp i" and "complex_sim sp s t" and "arm_step env i s = Some s'"
  shows "\<exists>t'. arm_run env (fst (complex_step (ae_pos env) sp i)) t = Some t'
     \<and> complex_sim (snd (complex_step (ae_pos env) sp i)) s' t'"
proof -
  have st: "s = t" "sp_sim sp s" using assms(2) by (auto simp: complex_sim_def)
  have "sp_ok env i" using assms(1) by (simp add: complex_ok_def)
  note step = sp_step [OF this st(2) assms(3)]
  have "snd (complex_step (ae_pos env) sp i) = maintain_sp i sp"
    by (simp add: complex_step_def Let_def)
  moreover have "arm_run env (fst (complex_step (ae_pos env) sp i)) t = Some s'"
  proof (cases "a_ctl s = Fall")
    case True
    then show ?thesis using complex_step_run [OF assms(1) True] st assms(3) by (simp add: sp_sim_def)
  next
    case False
    then show ?thesis using assms(3) st(1) by (simp add: arm_step_def arm_run_left)
  qed
  ultimately show ?thesis using step by (simp add: complex_sim_def)
qed

interpretation complex: rewriting_pass "arm_step env" "arm_step env" "complex_step (ae_pos env)" "complex_ok env" complex_sim
  for env
  by unfold_locales (rule complex_step_sim)

text \<open>Stores out of range: the registers from \<open>reg_n\<close> on are new.\<close>

definition fresh_from :: "int \<Rightarrow> areg \<Rightarrow> bool" where
  "fresh_from N r = (ar_type r = IntT \<and> N \<le> ar_id r)"

definition store_sim :: "int \<Rightarrow> w32 \<times> int \<Rightarrow> arm_state \<Rightarrow> arm_state \<Rightarrow> bool" where
  "store_sim N c s t =
     (arm_same_env s t \<and> a_flags s = a_flags t \<and> (\<forall>r. \<not> fresh_from N r \<longrightarrow> a_reg s r = a_reg t r) \<and>
      sp_sim (fst c) s \<and> N \<le> snd c)"

definition store_ok :: "arm_env \<Rightarrow> int \<Rightarrow> inst \<Rightarrow> bool" where
  "store_ok env N i =
     (exact env i \<and> sp_ok env i \<and> list_all (\<lambda>r. \<not> fresh_from N r) (use_reg i) \<and> int_count \<le> N)"

lemma store_keep:
  assumes "store_ok env N i" and "store_sim N (sp, n) s t" and "arm_step env i s = Some s'" and "n \<le> m"
  shows "\<exists>t'. arm_step env i t = Some t' \<and> store_sim N (maintain_sp i sp, m) s' t'"
proof -
  have sim: "arm_same_env s t" "a_flags s = a_flags t" "\<forall>r. \<not> fresh_from N r \<longrightarrow> a_reg s r = a_reg t r"
    "sp_sim sp s" "N \<le> n" using assms(2) by (auto simp: store_sim_def)
  have ok: "exact env i" "sp_ok env i" "list_all (\<lambda>r. \<not> fresh_from N r) (use_reg i)"
    using assms(1) by (simp_all add: store_ok_def)
  note sp = sp_step [OF ok(2) sim(4) assms(3)]
  show ?thesis
  proof (cases "a_ctl s = Fall")
    case False
    then have "s' = s" "arm_step env i t = Some t"
      using assms(3) sim(1) by (simp_all add: arm_step_def arm_same_env_def)
    then show ?thesis using sim sp assms(4) by (simp add: store_sim_def)
  next
    case True
    then have ctl: "a_ctl t = Fall" using sim(1) by (simp add: arm_same_env_def)
    have "\<forall>l \<in> inst_uses i. loc_agree l s t"
      using ok(3) sim(2,3) by (auto simp: inst_uses_def list_all_iff split: if_splits)
    from body_step_local [OF ok(1) this sim(1), of s'] assms(3) True obtain t' where
      t': "body_step env i t = Some t'" "arm_same_env s' t'" "\<forall>l \<in> inst_defs i. loc_agree l s' t'"
        "\<forall>l. l \<notin> inst_defs i \<longrightarrow> loc_agree l s t \<longrightarrow> loc_agree l s' t'" by (auto simp: body_step_def)
    have a: "loc_agree l s t \<Longrightarrow> loc_agree l s' t'" for l using t'(3,4) by blast
    have "a_flags s' = a_flags t'" using a [of LFlags] sim(2) by simp
    moreover have "\<forall>r. \<not> fresh_from N r \<longrightarrow> a_reg s' r = a_reg t' r" using a [of "LReg r" for r] sim(3) by simp
    ultimately show ?thesis using t'(1,2) ctl sp sim(5) assms(4) by (simp add: store_sim_def body_step_def)
  qed
qed

lemma fresh_tracked: "int_count \<le> N \<Longrightarrow> fresh_from N r \<Longrightarrow> tracked r"
  by (auto simp: fresh_from_def tracked_def is_pseudo_def)

lemma store_split:
  assumes "a_ctl t = Fall" and "a_reg t sp_reg = a_base t + sp" and "imm \<noteq> src" and "imm \<noteq> sp_reg"
    and "arm_step env (Inst c (StoreStack src off k)) t = Some t1"
  shows "\<exists>v. arm_run env [Inst c (LoadStackOffset imm off k), Inst c (ComplexStore src sp_reg imm no_shift)] t =
     Some (if cond_holds c (a_flags t) then set_reg imm v t1 else t1)"
proof (cases "cond_holds c (a_flags t)")
  case True
  let ?v = "a_base t + ae_pos env k + off - a_reg t sp_reg"
  have a: "a_base t + (ae_pos env k + off) = a_base t + ae_pos env k + off" by (simp only: add.assoc)
  have "write_word x y (set_reg imm v t) = map_option (set_reg imm v) (write_word x y t)" for x y v
    by (simp add: write_word_def set_reg_def)
  then have "arm_run env [Inst c (LoadStackOffset imm off k), Inst c (ComplexStore src sp_reg imm no_shift)] t
     = Some (set_reg imm ?v t1)"
    using True assms by (simp add: arm_step_def no_shift_def a)
  then show ?thesis using True by auto
next
  case False
  then show ?thesis using assms(1,5) by (simp add: arm_step_def skip_op_def)
qed

lemma store_step_sim:
  assumes "store_ok env N i" and "store_sim N c s t" and "arm_step env i s = Some s'"
  shows "\<exists>t'. arm_run env (fst (store_step (ae_pos env) c i)) t = Some t'
     \<and> store_sim N (snd (store_step (ae_pos env) c i)) s' t'"
proof -
  obtain sp n where c: "c = (sp, n)" by (cases c)
  note keep = store_keep [OF assms(1) assms(2) [unfolded c] assms(3)]
  have plain: ?thesis if "store_step (ae_pos env) c i = ([i], maintain_sp i sp, n)"
    using keep [of n] that by auto
  show ?thesis
  proof (cases "i_op i")
    case (StoreStack src off k)
    show ?thesis
    proof (cases "load_store_offset_range (sint (ae_pos env k + off - maintain_sp i sp))")
      case True
      then show ?thesis by (intro plain) (simp add: store_step_def c StoreStack Let_def)
    next
      case False
      let ?imm = "AReg IntT n"
      let ?is = "[Inst (i_cond i) (LoadStackOffset ?imm off k), Inst (i_cond i) (ComplexStore src sp_reg ?imm no_shift)]"
      have step: "store_step (ae_pos env) c i = (?is, maintain_sp i sp, n + 1)"
        using False by (simp add: store_step_def c StoreStack Let_def)
      obtain t1 where t1: "arm_step env i t = Some t1" "store_sim N (maintain_sp i sp, n + 1) s' t1"
        using keep [of "n + 1"] by auto
      have N: "N \<le> n" "int_count \<le> N" using assms(1,2) by (simp_all add: store_sim_def store_ok_def c)
      then have fr: "fresh_from N ?imm" by (simp add: fresh_from_def)
      have src: "?imm \<noteq> src"
        using assms(1) StoreStack fr by (auto simp: store_ok_def use_reg_def)
      have neq: "?imm \<noteq> sp_reg" using N by (simp add: sp_reg_def int_count_def)
      have env: "arm_same_env s t" "sp_sim sp s" using assms(2) by (simp_all add: store_sim_def c)
      have run: "\<exists>v b. arm_run env ?is t = Some (if b then set_reg ?imm v t1 else t1)"
      proof (cases "a_ctl t = Fall")
        case True
        then have "a_reg t sp_reg = a_base t + sp"
          using env arm_same_env_sp [OF env(1)] by (simp add: arm_same_env_def sp_sim_def)
        moreover have "arm_step env (Inst (i_cond i) (StoreStack src off k)) t = Some t1"
          using t1(1) StoreStack by (cases i) simp
        ultimately show ?thesis using store_split [OF True _ src neq, of sp env "i_cond i" off k t1] by blast
      next
        case False
        then have "t1 = t" using t1(1) by (simp add: arm_step_def)
        moreover have "arm_run env ?is t = Some t" by (rule arm_run_left [OF False])
        ultimately have "arm_run env ?is t = Some (if False then set_reg ?imm 0 t1 else t1)" by simp
        then show ?thesis by blast
      qed
      then obtain t' where t': "arm_run env ?is t = Some t'" "t' = t1 \<or> (\<exists>v. t' = set_reg ?imm v t1)"
        by (auto split: if_splits)
      have "store_sim N (maintain_sp i sp, n + 1) s' t'"
        using t1(2) t'(2) fr fresh_tracked [OF N(2) fr] by (auto simp: store_sim_def arm_same_env_def)
      then show ?thesis using t'(1) by (simp add: step del: run_list.simps)
    qed
  qed (rule plain, simp add: store_step_def c Let_def)+
qed

interpretation store_stack: rewriting_pass "arm_step env" "arm_step env" "store_step (ae_pos env)"
  "\<lambda>_. store_ok env N" "store_sim N" for env N
  by unfold_locales (rule store_step_sim)

text \<open>After the pass every stack store is in range.\<close>

fun stores_in_range :: "(obj \<Rightarrow> w32) \<Rightarrow> w32 \<Rightarrow> inst list \<Rightarrow> bool" where
  "stores_in_range pos sp [] = True"
| "stores_in_range pos sp (i # is) =
     (let sp' = maintain_sp i sp in
      (case i_op i of
         StoreStack src off k \<Rightarrow> load_store_offset_range (sint (pos k + off - sp'))
       | _ \<Rightarrow> True) \<and> stores_in_range pos sp' is)"

lemma store_step_range:
  "stores_in_range pos sp (rewrite_block (store_step pos) (sp, n) is)"
proof (induction "is" arbitrary: sp n)
  case (Cons i "is")
  obtain js sp' m where st: "store_step pos (sp, n) i = (js, sp', m)" by (cases "store_step pos (sp, n) i") auto
  have "stores_in_range pos sp (js @ ks) = stores_in_range pos sp' ks" for ks
    using st by (cases "i_op i") (auto simp: store_step_def Let_def maintain_sp_def split: if_splits)
  then show ?case using Cons.IH by (simp add: st)
qed simp

lemma check_store_range: "list_all (stores_in_range pos 0) (fst (check_store_blocks pos n bs))"
proof (induction bs arbitrary: n)
  case (Cons b bs)
  show ?case
    using Cons [of "snd (rewrite_ctx (store_step pos) (0, n) b)"] store_step_range [of pos 0 n b]
    by (auto simp: Let_def case_prod_beta)
qed simp

lemma store_ctx_mono: "snd c \<le> snd (rewrite_ctx (store_step pos) c is)"
proof (induction "is" arbitrary: c)
  case (Cons i "is")
  have "snd c \<le> snd (snd (store_step pos c i))"
    by (cases c; cases "i_op i") (auto simp: store_step_def Let_def)
  then show ?case using Cons [of "snd (store_step pos c i)"] by simp
qed simp

lemma store_unchanged:
  "snd (rewrite_ctx (store_step pos) c is) = snd c \<Longrightarrow> rewrite_block (store_step pos) c is = is"
proof (induction "is" arbitrary: c)
  case (Cons i "is")
  obtain sp n where c: "c = (sp, n)" by (cases c)
  let ?st = "store_step pos c i"
  have m: "snd (snd ?st) \<le> snd c"
    using store_ctx_mono [of "snd ?st" pos "is"] Cons.prems by simp
  have "fst ?st = [i] \<and> snd (snd ?st) = snd c"
    using m by (cases "i_op i") (auto simp: c store_step_def Let_def split: if_splits)
  then show ?case using Cons by simp
qed simp

lemma check_store_mono: "n \<le> snd (check_store_blocks pos n bs)"
proof (induction bs arbitrary: n)
  case (Cons b bs)
  show ?case
    using Cons [of "snd (rewrite_ctx (store_step pos) (0, n) b)"] store_ctx_mono [of "(0, n)" pos b]
    by (simp add: Let_def case_prod_beta)
qed simp

lemma check_store_same: "snd (check_store_blocks pos n bs) = n \<Longrightarrow> fst (check_store_blocks pos n bs) = bs"
proof (induction bs arbitrary: n)
  case (Cons b bs)
  let ?n = "snd (rewrite_ctx (store_step pos) (0, n) b)"
  have "?n = n"
    using Cons.prems check_store_mono [of ?n pos bs] store_ctx_mono [of "(0, n)" pos b]
    by (simp add: Let_def case_prod_beta)
  then show ?case
    using Cons store_unchanged [of pos "(0, n)" b] by (simp add: Let_def case_prod_beta)
qed simp

text \<open>After \<open>replace_complex_inst\<close> no stack address is left, and every stack load is in range.\<close>

fun loads_in_range :: "(obj \<Rightarrow> w32) \<Rightarrow> w32 \<Rightarrow> inst list \<Rightarrow> bool" where
  "loads_in_range pos sp [] = True"
| "loads_in_range pos sp (i # is) =
     (let sp' = maintain_sp i sp in
      (case i_op i of
         LoadStack dst off k \<Rightarrow> load_store_offset_range (sint (pos k + off - sp'))
       | LoadStackAddr dst off k \<Rightarrow> False
       | LoadStackOffset dst off k \<Rightarrow> False
       | _ \<Rightarrow> True) \<and> loads_in_range pos sp' is)"

definition sp_neutral :: "inst \<Rightarrow> bool" where
  "sp_neutral i =
     (case i_op i of Push rs \<Rightarrow> False | ChangeSP c \<Rightarrow> False | LoadStack d off k \<Rightarrow> False
        | LoadStackAddr d off k \<Rightarrow> False | LoadStackOffset d off k \<Rightarrow> False | _ \<Rightarrow> True)"

lemma neutral_range: "list_all sp_neutral js \<Longrightarrow> loads_in_range pos sp (js @ ks) = loads_in_range pos sp ks"
proof (induction js)
  case (Cons j js)
  then show ?case by (cases "i_op j") (auto simp: sp_neutral_def maintain_sp_def Let_def)
qed simp

lemma neutral_load_imm: "list_all sp_neutral (map (set_cond c) (load_imm d v))"
  by (simp add: load_imm_def always_def sp_neutral_def set_cond_def Let_def)

lemma neutral_reg_imm_sum: "list_all sp_neutral (map (set_cond c) (reg_imm_sum d l v))"
  using neutral_load_imm [of c d v] by (simp add: reg_imm_sum_def always_def sp_neutral_def set_cond_def)

lemma replace_complex_range: "loads_in_range pos sp (rewrite_block (complex_step pos) sp is)"
proof (induction "is" arbitrary: sp)
  case (Cons i "is")
  have "loads_in_range pos sp (fst (complex_step pos sp i) @ ks) = loads_in_range pos (snd (complex_step pos sp i)) ks" for ks
  proof (cases "i_op i")
    case (LoadStack dst off k)
    have "list_all sp_neutral (map (set_cond (i_cond i)) (load_imm (AReg IntT (ar_id dst)) v) @
        [Inst (i_cond i) (ComplexLoad dst sp_reg (AReg IntT (ar_id dst)) no_shift)])" for v
      using neutral_load_imm by (simp add: sp_neutral_def)
    from neutral_range [OF this] show ?thesis
      by (cases "load_store_offset_range (sint (pos k + off - sp))")
        (simp_all add: complex_step_def LoadStack maintain_sp_def)
  next
    case (LoadStackAddr dst off k)
    then show ?thesis
      using neutral_range [OF neutral_reg_imm_sum] by (simp add: complex_step_def maintain_sp_def)
  next
    case (LoadStackOffset dst off k)
    then show ?thesis
      using neutral_range [OF neutral_load_imm] by (simp add: complex_step_def maintain_sp_def)
  qed (simp_all add: complex_step_def maintain_sp_def Let_def)
  then show ?case using Cons.IH by simp
qed simp

end
