(* ===== verification/AsmPrint.thy ===== *)
theory AsmPrint
  imports ArmInst
begin

text \<open>
  Assembly text: \<open>gen_asm\<close> of every instruction in \<open>src/arm/inst.cpp\<close>, the blocks of
  \<open>src/arm/block.cpp\<close>, prologue and epilogue of \<open>src/arm/func.cpp\<close>. The printer keeps the
  distance of the stack pointer from its value at the start of the block. None: an
  \<open>assert\<close> fails or \<open>unreachable()\<close> is reached.
\<close>

section \<open>Operands\<close>

fun show_reg :: "areg \<Rightarrow> string" where
  "show_reg (AReg t i) =
     (if t = FloatT then ''s'' @ print_int i
      else if i = 13 then ''sp'' else if i = 15 then ''pc'' else if i = 14 then ''lr''
      else ''r'' @ print_int i)"

fun show_cond :: "inst_cond \<Rightarrow> string" where
  "show_cond Always = []"
| "show_cond Eq = ''eq''"
| "show_cond Ne = ''ne''"
| "show_cond Ge = ''ge''"
| "show_cond Gt = ''gt''"
| "show_cond Le = ''le''"
| "show_cond Lt = ''lt''"

fun show_shift :: "shift \<Rightarrow> string" where
  "show_shift (Shift t w) =
     (if w = 0 then []
      else '','' @ (case t of LSL \<Rightarrow> ''LSL'' | LSR \<Rightarrow> ''LSR'' | ASR \<Rightarrow> ''ASR'' | ROR \<Rightarrow> ''ROR'')
        @ '' #'' @ print_int (int w))"

definition int_reg :: "areg \<Rightarrow> bool" where "int_reg r = (ar_type r = IntT)"
definition float_reg :: "areg \<Rightarrow> bool" where "float_reg r = (ar_type r = FloatT)"

definition commas :: "string list \<Rightarrow> string" where
  "commas xs = (if xs = [] then [] else hd xs @ concat (map (\<lambda>x. '','' @ x) (tl xs)))"

definition v_prefix :: "areg \<Rightarrow> string" where
  "v_prefix r = (if float_reg r then ''v'' else [])"

section \<open>SIMD instructions\<close>

fun simd_name :: "simd_type \<Rightarrow> string" where
  "simd_name VADD_I32 = ''vadd.i32''"
| "simd_name VADD_F32 = ''vadd.f32''"
| "simd_name VSUB_I32 = ''vsub.i32''"
| "simd_name VSUB_F32 = ''vsub.f32''"
| "simd_name VMUL_S32 = ''vmul.s32''"
| "simd_name VMUL_F32 = ''vmul.f32''"
| "simd_name VMLA_S32 = ''vmla.s32''"
| "simd_name VMLA_F32 = ''vmla.f32''"
| "simd_name VDUP_32 = ''vdup.32''"
| "simd_name VLDM = ''vldm''"
| "simd_name VSTM = ''vstm''"
| "simd_name VCVT_S32_F32 = ''vcvt.s32.f32''"
| "simd_name VCVT_F32_S32 = ''vcvt.f32.s32''"

text \<open>\<open>get_id\<close>: the eight vector registers are \<open>q8\<close> to \<open>q15\<close>.\<close>

definition simd_id :: "nat \<Rightarrow> nat option" where
  "simd_id x = (if x < 8 then Some (x + 8) else None)"

fun simd_ids :: "nat list \<Rightarrow> nat list option" where
  "simd_ids [] = Some []"
| "simd_ids (x # xs) = do { i \<leftarrow> simd_id x; is \<leftarrow> simd_ids xs; Some (i # is) }"

text \<open>The instructions without a source register print as the IR prints them.\<close>

definition simd_ir_print :: "simd_type \<Rightarrow> nat list \<Rightarrow> nat \<Rightarrow> string option" where
  "simd_ir_print ty rs n =
     do { is \<leftarrow> simd_ids rs;
          Some (simd_name ty @ '' '' @ commas (map (\<lambda>i. ''q'' @ print_int (int i)) is)
            @ (if n \<noteq> 0 then ''(x'' @ print_int (int n) @ '')'' else [])) }"

definition show_simd :: "areg option \<Rightarrow> simd_type \<Rightarrow> nat list \<Rightarrow> nat \<Rightarrow> string option" where
  "show_simd src ty rs n =
     (case ty of
        VDUP_32 \<Rightarrow>
          (case (src, rs) of
             (Some x, r # _) \<Rightarrow>
               do { i \<leftarrow> simd_id r;
                    Some ((if float_reg x then ''vmov r0,'' @ show_reg x @ newline else [])
                      @ simd_name ty @ '' q'' @ print_int (int i) @ '',''
                      @ (if float_reg x then ''r0'' else show_reg x) @ newline) }
           | _ \<Rightarrow> None)
      | _ \<Rightarrow>
          if ty = VLDM \<or> ty = VSTM then
            (case (src, rs) of
               (Some x, r # _) \<Rightarrow>
                 do { i \<leftarrow> simd_id r;
                      Some (simd_name ty @ '' '' @ show_reg x @ '',{''
                        @ commas (map (\<lambda>j. ''d'' @ print_int (int (i * 2 + j))) [0 ..< n * 2])
                        @ ''}'' @ newline) }
             | _ \<Rightarrow> None)
          else map_option (\<lambda>t. t @ newline) (simd_ir_print ty rs n))"

section \<open>Instructions\<close>

text \<open>What the printer needs beside the instruction: block labels, the positions of the
  stack objects, and the epilogue with whether it has returned already.\<close>

record asm_ctx =
  ac_label :: "blk \<Rightarrow> string"
  ac_pos :: "obj \<Rightarrow> w32"
  ac_epilogue :: "string \<times> bool"

definition rr_name :: "rr_op \<Rightarrow> string option" where
  "rr_name x =
     (case x of RAdd \<Rightarrow> Some ''add'' | RSub \<Rightarrow> Some ''sub'' | RMul \<Rightarrow> Some ''mul'' | RDiv \<Rightarrow> Some ''sdiv''
      | RRevSub \<Rightarrow> Some ''rsb'' | RAnd \<Rightarrow> Some ''and'' | RMod \<Rightarrow> None)"

definition frr_name :: "frr_op \<Rightarrow> string" where
  "frr_name x = (case x of FAdd \<Rightarrow> ''vadd'' | FSub \<Rightarrow> ''vsub'' | FMul \<Rightarrow> ''vmul'' | FDiv \<Rightarrow> ''vdiv'')"

definition ri_name :: "ri_op \<Rightarrow> string" where
  "ri_name x =
     (case x of IAdd \<Rightarrow> ''add'' | ISub \<Rightarrow> ''sub'' | IRevSub \<Rightarrow> ''rsb'' | ILsl \<Rightarrow> ''lsl''
      | ILsr \<Rightarrow> ''lsr'' | IAsr \<Rightarrow> ''asr'' | IBic \<Rightarrow> ''bic'')"

definition cmp_name :: "cmp_op \<Rightarrow> string" where
  "cmp_name x = (case x of Cmp \<Rightarrow> ''cmp'' | Cmn \<Rightarrow> ''cmn'')"

definition guard :: "bool \<Rightarrow> 'a \<Rightarrow> 'a option" where
  "guard b x = (if b then Some x else None)"

definition show_freg :: "fr_op \<Rightarrow> string \<Rightarrow> areg \<Rightarrow> areg \<Rightarrow> string" where
  "show_freg x c d r =
     (case x of
        FrF2D0 \<Rightarrow> ''vcvt'' @ c @ ''.f64.f32 d8,'' @ show_reg r @ newline
                  @ ''vmov'' @ c @ ''.f32 '' @ show_reg d @ '',s16'' @ newline
      | FrF2D1 \<Rightarrow> ''vcvt'' @ c @ ''.f64.f32 d8,'' @ show_reg r @ newline
                  @ ''vmov'' @ c @ ''.f32 '' @ show_reg d @ '',s17'' @ newline
      | _ \<Rightarrow> (case x of FrNeg \<Rightarrow> ''vneg'' @ c @ ''.f32'' | FrF2I \<Rightarrow> ''vcvt'' @ c @ ''.s32.f32''
                | _ \<Rightarrow> ''vcvt'' @ c @ ''.f32.s32'')
             @ '' '' @ show_reg d @ '','' @ show_reg r @ newline)"

definition stack_offset :: "asm_ctx \<Rightarrow> w32 \<Rightarrow> w32 \<Rightarrow> obj \<Rightarrow> w32" where
  "stack_offset ac sp off k = ac_pos ac k + off - sp"

text \<open>The text of an instruction under a condition, and the stack pointer distance after it.\<close>

text \<open>Compares, branches, calls and returns.\<close>

fun gen_asm_ctl :: "asm_ctx \<Rightarrow> w32 \<Rightarrow> string \<Rightarrow> iop \<Rightarrow> (string \<times> w32) option" where
  "gen_asm_ctl ac sp c (LoadStackAddr d off k) = None"
| "gen_asm_ctl ac sp c (LoadStackOffset d off k) = None"
| "gen_asm_ctl ac sp c (RegRegCmp x l r) =
     guard (int_reg l \<and> int_reg r)
       (cmp_name x @ c @ '' '' @ show_reg l @ '','' @ show_reg r @ newline, sp)"
| "gen_asm_ctl ac sp c (FRegRegCmp l r) =
     guard (float_reg l \<and> float_reg r)
       (''vcmp'' @ c @ ''.f32 '' @ show_reg l @ '','' @ show_reg r @ newline
          @ ''vmrs APSR_nzcv,fpscr'' @ newline, sp)"
| "gen_asm_ctl ac sp c (RegImmCmp x l v) =
     guard (\<not> float_reg l)
       (cmp_name x @ c @ '' '' @ show_reg l @ '',#'' @ print_int32 v @ newline, sp)"
| "gen_asm_ctl ac sp c (Branch b) = Some (''b'' @ c @ '' '' @ ac_label ac b @ newline, sp)"
| "gen_asm_ctl ac sp c (FuncCall f ni nf) =
     Some (''bl'' @ c @ '' '' @ (if f = ''starttime'' then ''_sysy_starttime''
        else if f = ''stoptime'' then ''_sysy_stoptime'' else f) @ newline, sp)"
| "gen_asm_ctl ac sp c (Return t) =
     Some (fst (ac_epilogue ac) @ (if snd (ac_epilogue ac) then [] else ''bx lr'' @ newline), sp)"
| "gen_asm_ctl ac sp c x = None"

text \<open>Memory, the stack and the vector unit.\<close>

fun gen_asm_mem :: "asm_ctx \<Rightarrow> w32 \<Rightarrow> string \<Rightarrow> iop \<Rightarrow> (string \<times> w32) option" where
  "gen_asm_mem ac sp c (Load d b off) =
     guard (load_store_offset_range (sint off))
       (v_prefix d @ ''ldr'' @ c @ '' '' @ show_reg d @ '',['' @ show_reg b @ '',#'' @ print_int32 off @ '']'' @ newline, sp)"
| "gen_asm_mem ac sp c (Store r b off) =
     guard (load_store_offset_range (sint off))
       (v_prefix r @ ''str'' @ c @ '' '' @ show_reg r @ '',['' @ show_reg b @ '',#'' @ print_int32 off @ '']'' @ newline, sp)"
| "gen_asm_mem ac sp c (SIMD src ty rs n) = map_option (\<lambda>t. (t, sp)) (show_simd src ty rs n)"
| "gen_asm_mem ac sp c (ComplexLoad d b off sh) =
     guard (\<not> float_reg d)
       (''ldr'' @ c @ '' '' @ show_reg d @ '',['' @ show_reg b @ '','' @ show_reg off @ show_shift sh @ '']'' @ newline, sp)"
| "gen_asm_mem ac sp c (ComplexStore r b off sh) =
     guard (\<not> float_reg r)
       (''str'' @ c @ '' '' @ show_reg r @ '',['' @ show_reg b @ '','' @ show_reg off @ show_shift sh @ '']'' @ newline, sp)"
| "gen_asm_mem ac sp c (LoadStack d off k) =
     guard (load_store_offset_range (sint (stack_offset ac sp off k)))
       (v_prefix d @ ''ldr'' @ c @ '' '' @ show_reg d @ '',[sp,#'' @ print_int32 (stack_offset ac sp off k)
          @ '']'' @ newline, sp)"
| "gen_asm_mem ac sp c (StoreStack r off k) =
     guard (load_store_offset_range (sint (stack_offset ac sp off k)))
       (v_prefix r @ ''str'' @ c @ '' '' @ show_reg r @ '',[sp,#'' @ print_int32 (stack_offset ac sp off k)
          @ '']'' @ newline, sp)"
| "gen_asm_mem ac sp c (Push rs) =
     Some (concat (map (\<lambda>r. v_prefix r @ ''push'' @ c @ '' {'' @ show_reg r @ ''}'' @ newline) rs),
       sp - 4 * of_nat (length rs))"
| "gen_asm_mem ac sp c (ChangeSP v) =
     Some (if is_legal_immediate v then ''add'' @ c @ '' sp,sp,#'' @ print_int32 v @ newline
           else if is_legal_immediate (- v) then ''sub'' @ c @ '' sp,sp,#'' @ print_int32 (- v) @ newline
           else [], sp + v)"
| "gen_asm_mem ac sp c x = gen_asm_ctl ac sp c x"

text \<open>Shifts, constants and symbols.\<close>

fun gen_asm_move :: "asm_ctx \<Rightarrow> w32 \<Rightarrow> string \<Rightarrow> iop \<Rightarrow> (string \<times> w32) option" where
  "gen_asm_move ac sp c (ShiftInst d r sh) =
     guard (int_reg d \<and> int_reg r)
       (''mov'' @ c @ '' '' @ show_reg d @ '','' @ show_reg r @ show_shift sh @ newline, sp)"
| "gen_asm_move ac sp c (MoveImm x d v) =
     guard (int_reg d)
       ((case x of Mov \<Rightarrow> ''mov'' | Mvn \<Rightarrow> ''mvn'') @ c @ '' '' @ show_reg d @ '',#'' @ print_int32 v @ newline, sp)"
| "gen_asm_move ac sp c (MoveW d v) =
     guard (int_reg d) (''movw'' @ c @ '' '' @ show_reg d @ '',#'' @ print_int32 v @ newline, sp)"
| "gen_asm_move ac sp c (MoveT d v) =
     guard (int_reg d) (''movt'' @ c @ '' '' @ show_reg d @ '',#'' @ print_int32 v @ newline, sp)"
| "gen_asm_move ac sp c (LoadSymbolAddrLower16 d symb) =
     guard (int_reg d) (''movw'' @ c @ '' '' @ show_reg d @ '',#:lower16:'' @ symb @ newline, sp)"
| "gen_asm_move ac sp c (LoadSymbolAddrUpper16 d symb) =
     guard (int_reg d) (''movt'' @ c @ '' '' @ show_reg d @ '',#:upper16:'' @ symb @ newline, sp)"
| "gen_asm_move ac sp c x = gen_asm_mem ac sp c x"

text \<open>Data processing; any other instruction is one of the above.\<close>

fun gen_asm_op :: "asm_ctx \<Rightarrow> w32 \<Rightarrow> string \<Rightarrow> iop \<Rightarrow> (string \<times> w32) option" where
  "gen_asm_op ac sp c (RegRegInst x d l r sh) =
     (case rr_name x of
        None \<Rightarrow> None
      | Some n \<Rightarrow> guard (int_reg d \<and> int_reg l \<and> int_reg r)
          (n @ c @ '' '' @ show_reg d @ '','' @ show_reg l @ '','' @ show_reg r @ show_shift sh @ newline, sp))"
| "gen_asm_op ac sp c (FRegRegInst x d l r) =
     guard (float_reg d \<and> float_reg l \<and> float_reg r)
       (frr_name x @ c @ ''.f32 '' @ show_reg d @ '','' @ show_reg l @ '','' @ show_reg r @ newline, sp)"
| "gen_asm_op ac sp c (MLInst x d s1 s2 s3) =
     guard (int_reg d \<and> int_reg s1 \<and> int_reg s2 \<and> int_reg s3)
       ((case x of Mla \<Rightarrow> ''mla'' | Mls \<Rightarrow> ''mls'') @ c @ '' '' @ show_reg d @ '','' @ show_reg s1
          @ '','' @ show_reg s2 @ '','' @ show_reg s3 @ newline, sp)"
| "gen_asm_op ac sp c (SMulL d1 d2 s1 s2) =
     guard (int_reg d1 \<and> int_reg d2 \<and> int_reg s1 \<and> int_reg s2)
       (''smull'' @ c @ '' '' @ show_reg d1 @ '','' @ show_reg d2 @ '','' @ show_reg s1
          @ '','' @ show_reg s2 @ newline, sp)"
| "gen_asm_op ac sp c (RegImmInst x d l v) =
     guard (int_reg d \<and> int_reg l)
       (ri_name x @ c @ '' '' @ show_reg d @ '','' @ show_reg l @ '',#'' @ print_int32 v @ newline, sp)"
| "gen_asm_op ac sp c (MoveReg d r) =
     Some ((if float_reg d \<and> float_reg r then ''vmov'' @ c @ ''.f32''
            else if float_reg d \<or> float_reg r then ''vmov'' @ c else ''mov'' @ c)
          @ '' '' @ show_reg d @ '','' @ show_reg r @ newline, sp)"
| "gen_asm_op ac sp c (FRegInst x d r) = guard (float_reg d \<and> float_reg r) (show_freg x c d r, sp)"
| "gen_asm_op ac sp c x = gen_asm_move ac sp c x"

definition gen_asm :: "asm_ctx \<Rightarrow> w32 \<Rightarrow> inst \<Rightarrow> (string \<times> w32) option" where
  "gen_asm ac sp i = gen_asm_op ac sp (show_cond (i_cond i)) (i_op i)"

fun gen_insts :: "asm_ctx \<Rightarrow> w32 \<Rightarrow> inst list \<Rightarrow> (string \<times> w32) option" where
  "gen_insts ac sp [] = Some ([], sp)"
| "gen_insts ac sp (i # is) =
     do { (t, sp1) \<leftarrow> gen_asm ac sp i;
          (u, sp2) \<leftarrow> gen_insts ac sp1 is;
          Some (t @ u, sp2) }"

definition gen_block :: "asm_ctx \<Rightarrow> bool \<Rightarrow> string \<Rightarrow> inst list \<Rightarrow> string option" where
  "gen_block ac used label is =
     map_option (\<lambda>(t, _). (if used then label @ '':'' @ newline else []) @ t) (gen_insts ac 0 is)"

section \<open>Text printed without instructions\<close>

definition load_imm_asm :: "areg \<Rightarrow> w32 \<Rightarrow> inst_cond \<Rightarrow> string" where
  "load_imm_asm dst imm c =
     (if is_legal_immediate imm then
        ''mov'' @ show_cond c @ '' '' @ show_reg dst @ '',#'' @ print_int32 imm @ newline
      else if is_legal_immediate (NOT imm) then
        ''mvn'' @ show_cond c @ '' '' @ show_reg dst @ '',#'' @ print_int32 (NOT imm) @ newline
      else let upper = drop_bit 16 imm; bot = imm AND 0xFFFF in
        ''movw'' @ show_cond c @ '' '' @ show_reg dst @ '',#'' @ print_int (uint bot) @ newline
        @ (if upper \<noteq> 0
           then ''movt'' @ show_cond c @ '' '' @ show_reg dst @ '',#'' @ print_int (uint upper) @ newline
           else []))"

fun sp_bytes_asm :: "string \<Rightarrow> w32 \<Rightarrow> nat list \<Rightarrow> string" where
  "sp_bytes_asm m v [] = []"
| "sp_bytes_asm m v (i # is) =
     (let cur = v AND push_bit (i * 8) 0xFF in
      (if cur \<noteq> 0 then m @ '' sp,sp,#'' @ print_int32 cur @ newline else []) @ sp_bytes_asm m v is)"

definition sp_move_asm :: "w32 \<Rightarrow> string" where
  "sp_move_asm change =
     (if change = 0 then []
      else if is_legal_immediate change then ''add sp,sp,#'' @ print_int32 change @ newline
      else if is_legal_immediate (- change) then ''sub sp,sp,#'' @ print_int32 (- change) @ newline
      else if 0 <s change then sp_bytes_asm ''add'' change [0..<4]
      else sp_bytes_asm ''sub'' (- change) [0..<4])"

section \<open>Facts\<close>

lemma gen_insts_append:
  "gen_insts ac sp (xs @ ys) =
     do { (t, sp1) \<leftarrow> gen_insts ac sp xs; (u, sp2) \<leftarrow> gen_insts ac sp1 ys; Some (t @ u, sp2) }"
  by (induction xs arbitrary: sp) (auto split: Option.bind_splits)

text \<open>The printer moves its stack pointer distance as \<open>maintain_sp\<close> does.\<close>

lemma gen_asm_sp: "gen_asm ac sp i = Some (t, sp') \<Longrightarrow> sp' = maintain_sp i sp"
  by (cases "i_op i") (auto simp: gen_asm_def maintain_sp_def guard_def split: option.splits if_splits)

text \<open>The constants are printed as the instructions would be.\<close>

lemma sint_small: "uint (v :: w32) < 2 ^ 31 \<Longrightarrow> sint v = uint v"
proof -
  assume "uint v < 2 ^ 31"
  moreover have "- (2 ^ 31) \<le> uint v" by (rule order_trans [OF _ uint_ge_0]) simp
  ultimately show ?thesis by (simp add: sint_uint signed_take_bit_int_eq_self_iff)
qed

lemma uint_high_half: "uint (drop_bit 16 (v :: w32)) < 2 ^ 31"
proof -
  have "uint (drop_bit 16 v) = drop_bit 16 (uint v)"
    using uint_lt2p [of v] by (simp only: unsigned_drop_bit_eq) (simp add: take_bit_int_eq_self)
  then show ?thesis using uint_lt2p [of v] by (simp only: drop_bit_eq_div) simp
qed

lemma uint_low_half: "uint ((v :: w32) AND 0xFFFF) < 2 ^ 31"
proof -
  have "v AND 0xFFFF \<le> 0xFFFF" by (rule word_and_le1)
  then show ?thesis by (simp add: word_le_def)
qed

lemma uint_pred: "w \<noteq> 0 \<Longrightarrow> uint (w :: w32) < 2 ^ n \<Longrightarrow> uint (w - 1) < 2 ^ n"
proof -
  assume a: "w \<noteq> 0" "uint (w :: w32) < 2 ^ n"
  have "unat (w - 1) < unat w" using a(1) by (simp add: unat_minus_one unat_gt_0)
  then have "w - 1 < w" by (simp only: word_less_nat_alt)
  then show ?thesis using a(2) by (simp add: word_less_alt)
qed

lemma bit_small: "uint (w :: w32) < 2 ^ n \<Longrightarrow> n \<le> k \<Longrightarrow> \<not> bit w k"
proof -
  assume a: "uint w < 2 ^ n" "n \<le> k"
  have "take_bit n w = w" by (rule word_uint_eqI) (use a(1) in \<open>simp add: unsigned_take_bit_eq take_bit_int_eq_self\<close>)
  then have "bit w k = bit (take_bit n w) k" by simp
  then show ?thesis using a(2) by (simp add: bit_take_bit_iff)
qed

lemma load_imm_asm_text:
  assumes "int_reg dst"
  shows "gen_insts ac sp (map (set_cond c) (load_imm dst imm)) = Some (load_imm_asm dst imm c, sp)"
proof -
  have "sint (imm AND 0xFFFF) = uint (imm AND 0xFFFF)" "sint (drop_bit 16 imm) = uint (drop_bit 16 imm)"
    by (rule sint_small uint_low_half uint_high_half)+
  then show ?thesis
    using assms by (simp add: load_imm_def load_imm_asm_def Let_def always_def set_cond_def gen_asm_def guard_def
        print_int32_def)
qed

text \<open>The negative of a single byte below the top one is not an immediate, so that each piece
  of a downward move prints as a subtraction.\<close>

lemma neg_low_not_legal:
  fixes w :: w32
  assumes "w \<noteq> 0" and "uint w < 2 ^ 24"
  shows "\<not> is_legal_immediate (- w)"
proof
  assume "is_legal_immediate (- w)"
  then obtain i b where i: "i < 16" and b: "b \<le> 0xFF" and r: "- w = word_rotr (2 * i) b"
    unfolding legal_immediate_iff by blast
  have "uint b < 2 ^ 8" using b by (simp add: word_le_def)
  then have low: "\<not> bit b n" if "8 \<le> n" for n using that by (rule bit_small)
  have neg: "- w = NOT (w - 1)" by (rule minus_eq_not_minus_1)
  have high: "bit (- w) n" if "24 \<le> n" "n < 32" for n
    using bit_small [OF uint_pred [OF assms] that(1)] that(2) by (simp add: neg bit_not_iff)
  have rot: "bit (- w) n = bit b ((n + 2 * i) mod 32)" if "n < 32" for n
    unfolding r using that by (simp add: bit_word_rotr_iff)
  have set: "(n + 2 * i) mod 32 < 8" if "24 \<le> n" "n < 32" for n
    using high [OF that] rot [OF that(2)] low not_le by blast
  have "(31 + 2 * i) mod 32 < 8" "(24 + 2 * i) mod 32 < 8" by (rule set; simp)+
  note top = this
  have "\<not> i < 4"
  proof
    assume "i < 4"
    then have "(24 + 2 * i) mod 32 = 24 + 2 * i" by simp
    then show False using top(2) by simp
  qed
  moreover have "\<not> 4 < i"
  proof
    assume "4 < i"
    then have "(31 + 2 * i) mod 32 = ((2 * i - 1) + 32) mod 32" by simp
    also have "\<dots> = 2 * i - 1" using i unfolding mod_add_self2 by simp
    finally show False using top(1) \<open>4 < i\<close> by simp
  qed
  ultimately have i4: "i = 4" by simp
  have clear: "\<not> bit (- w) n" if "n < 24" for n
  proof -
    have "(n + 2 * i) mod 32 = n + 8" using that i4 by simp
    then show ?thesis using rot [of n] low [of "n + 8"] that by simp
  qed
  have "bit (w - 1) n = (n < 24)" if "n < 32" for n
    using high [of n] clear [of n] that unfolding neg by (cases "n < 24") (simp_all add: bit_not_iff)
  then have "w - 1 = mask 24" by (intro bit_word_eqI) (simp add: bit_mask_iff)
  then have "w = mask 24 + 1" by (simp add: algebra_simps)
  then have "w = 2 ^ 24" by (simp add: mask_eq_exp_minus_1)
  then show False using assms(2) by simp
qed

lemma sp_up_text:
  assumes "\<forall>i \<in> set is. i < 4"
  shows "gen_insts ac sp (sp_bytes (\<lambda>x. x) v is) =
    Some (sp_bytes_asm ''add'' v is, sp + sp_total (sp_bytes (\<lambda>x. x) v is))"
  using assms
  by (induction "is" arbitrary: sp)
    (auto simp: Let_def gen_asm_def maintain_sp_def legal_immediate_byte mult.commute [of _ 8] add.assoc)

lemma neg_byte_not_legal:
  assumes "i < 3" and "v AND push_bit (8 * i) 0xFF \<noteq> (0 :: w32)"
  shows "\<not> is_legal_immediate (- (v AND push_bit (8 * i) 0xFF))"
proof -
  from assms(1) consider "i = 0" | "i = 1" | "i = 2" by linarith
  then have "v AND push_bit (8 * i) 0xFF \<le> 0xFF0000"
    by cases (auto intro: order_trans [OF word_and_le1])
  then show ?thesis using neg_low_not_legal [OF assms(2)] by (simp add: word_le_def)
qed

lemma sp_down_text:
  assumes "\<forall>i \<in> set is. i < 3"
  shows "gen_insts ac sp (sp_bytes uminus v is) =
    Some (sp_bytes_asm ''sub'' v is, sp + sp_total (sp_bytes uminus v is))"
  using assms
  by (induction "is" arbitrary: sp)
    (auto simp: Let_def gen_asm_def maintain_sp_def neg_byte_not_legal legal_immediate_byte
      mult.commute [of _ 8] add.assoc)

lemma sp_move_asm_text:
  assumes "- (2 ^ 24) < sint v"
  shows "gen_insts ac sp (sp_move v) = Some (sp_move_asm v, sp + v)"
proof -
  consider "v = 0" | "v \<noteq> 0" "is_legal_immediate v \<or> is_legal_immediate (- v)"
    | "\<not> is_legal_immediate v" "\<not> is_legal_immediate (- v)" "v \<noteq> 0" "0 <s v"
    | "\<not> is_legal_immediate v" "\<not> is_legal_immediate (- v)" "v \<noteq> 0" "\<not> 0 <s v" by blast
  then show ?thesis
  proof cases
    case 1
    then show ?thesis by (simp add: sp_move_def sp_move_asm_def)
  next
    case 2
    then show ?thesis by (auto simp: sp_move_def sp_move_asm_def gen_asm_def)
  next
    case 3
    then have "sp_move v = sp_bytes (\<lambda>x. x) v [0..<4]" "sp_move_asm v = sp_bytes_asm ''add'' v [0..<4]"
      by (simp_all add: sp_move_def sp_move_asm_def)
    then show ?thesis using sp_up_text [of "[0..<4]" ac sp v] sp_move_total [of v] by simp
  next
    case 4
    have neg: "sint v < 0" using 4 by (simp add: word_sless_alt sint_eq_iff [symmetric] not_less)
    have "uint (- v) = - sint v"
      using neg assms by (subst uint_word_of_int_eq [of "- sint v", where 'a = 32, simplified]) (simp add: take_bit_int_eq_self)
    then have u: "uint (- v) < 2 ^ 24" using assms by simp
    have top: "- v AND push_bit (3 * 8) 0xFF = 0"
    proof (rule bit_word_eqI)
      fix n assume "n < LENGTH(32)"
      then show "bit (- v AND push_bit (3 * 8) 0xFF) n = bit (0 :: w32) n"
        using bit_small [OF u, of n] unfolding bit_and_iff bit_push_bit_iff by auto
    qed
    have s: "[0..<4] = [0..<3] @ [3]" by (simp add: upt_rec)
    have "sp_bytes f (- v) [0..<4] = sp_bytes f (- v) [0..<3]"
      "sp_bytes_asm m (- v) [0..<4] = sp_bytes_asm m (- v) [0..<3]" for f m
      using top by (simp_all add: upt_rec)
    then have "sp_move v = sp_bytes uminus (- v) [0..<3]" "sp_move_asm v = sp_bytes_asm ''sub'' (- v) [0..<3]"
      using 4 by (simp_all add: sp_move_def sp_move_asm_def)
    then show ?thesis using sp_down_text [of "[0..<3]" ac sp "- v"] sp_move_total [of v] by simp
  qed
qed

end
