(* ===== verification/Frame.thy ===== *)
theory Frame
  imports AsmPrint
begin

text \<open>
  The stack frame of a function (\<open>Func::allocate_register\<close> of \<open>src/arm/func.cpp\<close>): where
  the stack objects lie, which registers are saved, prologue and epilogue; and the text of
  whole functions and of the global variables (\<open>src/arm/program.cpp\<close>).
\<close>

section \<open>Layout\<close>

text \<open>A running position over the sizes.\<close>

fun place :: "int \<Rightarrow> int list \<Rightarrow> int list" where
  "place p [] = []"
| "place p (s # ss) = p # place (p + s) ss"

text \<open>The stack objects are placed from the last one to the first.\<close>

definition stack_positions :: "int list \<Rightarrow> int list" where
  "stack_positions sizes = rev (place 0 (rev sizes))"

text \<open>The callee-saved registers among those an allocation uses; \<open>-1\<close> is no register.\<close>

definition save_regs :: "register_usage list \<Rightarrow> int list \<Rightarrow> int list" where
  "save_regs us alloc = map int (filter (\<lambda>i. us ! i = CalleeSave \<and> int i \<in> set alloc) [0..<length us])"

record frame_layout =
  fr_int_saves :: "int list"
  fr_float_saves :: "int list"
  fr_size :: int
  fr_objects :: "int list"
  fr_callers :: "int list"

definition save_count :: "frame_layout \<Rightarrow> int" where
  "save_count f = int (length (fr_int_saves f)) + int (length (fr_float_saves f))"

definition pad8 :: "int \<Rightarrow> int \<Rightarrow> int" where
  "pad8 n saved = (if (n + saved * 4) mod 8 \<noteq> 0 then n + 4 else n)"

definition make_frame :: "int list \<Rightarrow> int list \<Rightarrow> int list \<Rightarrow> int list \<Rightarrow> frame_layout" where
  "make_frame int_alloc float_alloc sizes caller_sizes =
     (let ints = save_regs int_register_usage int_alloc;
          floats = save_regs float_register_usage float_alloc;
          saved = int (length ints) + int (length floats);
          total = pad8 (sum_list sizes) saved in
      \<lparr>fr_int_saves = ints, fr_float_saves = floats, fr_size = total,
       fr_objects = stack_positions sizes, fr_callers = place (total + saved * 4) caller_sizes\<rparr>)"

section \<open>Prologue and epilogue\<close>

text \<open>The floats are pushed as the whole range from the smallest to the largest.\<close>

definition vpush_range :: "int list \<Rightarrow> int list" where
  "vpush_range fs = (if fs = [] then [] else [Min (set fs) .. Max (set fs)])"

definition braces :: "string \<Rightarrow> string list \<Rightarrow> string" where
  "braces m xs = (if xs = [] then [] else m @ '' {'' @ commas xs @ ''}'' @ newline)"

definition prologue :: "frame_layout \<Rightarrow> string" where
  "prologue f =
     braces ''push'' (map (\<lambda>i. show_reg (AReg IntT i)) (fr_int_saves f)) @
     braces ''vpush'' (map (\<lambda>i. ''s'' @ print_int i) (vpush_range (fr_float_saves f))) @
     (if fr_size f \<noteq> 0 then sp_move_asm (- word_of_int (fr_size f)) else [])"

text \<open>When \<open>lr\<close> was saved it is popped into \<open>pc\<close>, and the function has returned.\<close>

definition epilogue :: "frame_layout \<Rightarrow> string \<times> bool" where
  "epilogue f =
     ((if fr_size f \<noteq> 0 then sp_move_asm (word_of_int (fr_size f)) else []) @
      braces ''vpop'' (map (\<lambda>i. ''s'' @ print_int i) (vpush_range (fr_float_saves f))) @
      braces ''pop'' (map (\<lambda>i. if i = 14 then ''pc'' else show_reg (AReg IntT i)) (fr_int_saves f)),
      14 \<in> set (fr_int_saves f))"

section \<open>Functions\<close>

record asm_block =
  b_label :: string
  b_label_used :: bool
  b_insts :: "inst list"

fun gen_blocks :: "asm_ctx \<Rightarrow> asm_block list \<Rightarrow> string option" where
  "gen_blocks ac [] = Some []"
| "gen_blocks ac (b # bs) =
     do { t \<leftarrow> gen_block ac (b_label_used b) (b_label b) (b_insts b);
          u \<leftarrow> gen_blocks ac bs;
          Some (t @ u) }"

definition gen_func :: "asm_ctx \<Rightarrow> frame_layout \<Rightarrow> string \<Rightarrow> asm_block list \<Rightarrow> string option" where
  "gen_func ac f name bs =
     map_option (\<lambda>t. newline @ name @ '':'' @ newline @ prologue f @ t)
       (gen_blocks (ac\<lparr>ac_epilogue := epilogue f\<rparr>) bs)"

section \<open>Global variables\<close>

datatype global_init = NoInit | IntInit "w32 list" | FloatInit "w32 list" | CharInit string

record global_object =
  g_name :: string
  g_size :: nat
  g_init :: global_init
  g_type :: scalar_type

definition hex32 :: "w32 \<Rightarrow> string" where
  "hex32 v = ''0x'' @ digits_base 16 (nat (uint v))"

definition data_asm :: "global_object \<Rightarrow> string" where
  "data_asm g =
     (case g_init g of
        NoInit \<Rightarrow> []
      | IntInit ws \<Rightarrow> ''.align'' @ newline @ g_name g @ '':'' @ newline @ ''    .4byte ''
          @ commas (map print_int32 (take (g_size g div 4) ws)) @ newline
      | FloatInit ws \<Rightarrow> ''.align'' @ newline @ g_name g @ '':'' @ newline @ ''    .4byte ''
          @ commas (map hex32 (take (g_size g div 4) ws)) @ newline
      | CharInit s \<Rightarrow> g_name g @ '':'' @ newline @ ''    .asciz '' @ s @ newline)"

definition bss_asm :: "global_object \<Rightarrow> string option" where
  "bss_asm g =
     (if g_init g \<noteq> NoInit then Some []
      else guard (g_type g = IntT \<or> g_type g = FloatT)
        (''.align'' @ newline @ g_name g @ '':'' @ newline @ ''    .space '' @ print_int (int (g_size g)) @ newline))"

definition gen_global_var_asm :: "global_object list \<Rightarrow> string option" where
  "gen_global_var_asm gs =
     (let data = filter (\<lambda>g. g_init g \<noteq> NoInit) gs; bss = filter (\<lambda>g. g_init g = NoInit) gs in
      if \<exists>g \<in> set bss. bss_asm g = None then None
      else Some ((if data \<noteq> [] then ''.section .data'' @ newline @ concat (map data_asm data) else []) @
                 (if bss \<noteq> [] then ''.section .bss'' @ newline @ concat (map (the \<circ> bss_asm) bss) else [])))"

section \<open>Facts\<close>

lemma length_place [simp]: "length (place p ss) = length ss"
  by (induction ss arbitrary: p) auto

lemma place_nth: "i < length ss \<Longrightarrow> place p ss ! i = p + sum_list (take i ss)"
  by (induction ss arbitrary: p i) (auto simp: nth_Cons' take_Cons' split: nat.splits)

lemma place_take_mono:
  fixes ss :: "int list"
  assumes "\<forall>s \<in> set ss. 0 \<le> s" and "i \<le> j"
  shows "sum_list (take i ss) \<le> sum_list (take j ss)"
proof -
  have "take j ss = take i ss @ take (j - i) (drop i ss)"
    using assms(2) by (metis le_add_diff_inverse take_add)
  moreover have "0 \<le> sum_list (take (j - i) (drop i ss))"
    using assms(1) by (intro sum_list_nonneg) (auto dest!: in_set_takeD in_set_dropD)
  ultimately show ?thesis by simp
qed

lemma place_bounds:
  assumes "\<forall>s \<in> set ss. 0 \<le> s" and "i < length ss"
  shows "p \<le> place p ss ! i" and "place p ss ! i + ss ! i \<le> p + sum_list ss"
    and "i < j \<Longrightarrow> j < length ss \<Longrightarrow> place p ss ! i + ss ! i \<le> place p ss ! j"
proof -
  have s: "sum_list (take i ss) + ss ! i = sum_list (take (Suc i) ss)"
    using assms(2) by (simp add: take_Suc_conv_app_nth)
  show "p \<le> place p ss ! i"
    using place_take_mono [OF assms(1), of 0 i] assms(2) by (simp add: place_nth)
  show "place p ss ! i + ss ! i \<le> p + sum_list ss"
    using s place_take_mono [OF assms(1), of "Suc i" "length ss"] assms(2) by (simp add: place_nth)
  show "i < j \<Longrightarrow> j < length ss \<Longrightarrow> place p ss ! i + ss ! i \<le> place p ss ! j"
    using s place_take_mono [OF assms(1), of "Suc i" j] assms(2) by (simp add: place_nth)
qed

text \<open>The stack objects lie inside the frame and do not overlap.\<close>

lemma stack_positions_ok:
  assumes "\<forall>s \<in> set sizes. 0 \<le> s" and "i < j" and "j < length sizes"
  shows "0 \<le> stack_positions sizes ! j"
    and "stack_positions sizes ! j + sizes ! j \<le> stack_positions sizes ! i"
    and "stack_positions sizes ! i + sizes ! i \<le> sum_list sizes"
proof -
  let ?n = "length sizes"
  let ?r = "\<lambda>k. ?n - 1 - k"
  have r: "?r j < ?r i" "?r i < length (rev sizes)" "?r j < length (rev sizes)" using assms by auto
  have nn: "\<forall>s \<in> set (rev sizes). 0 \<le> s" using assms(1) by simp
  have p: "stack_positions sizes ! k = place 0 (rev sizes) ! ?r k" "rev sizes ! ?r k = sizes ! k" if "k < ?n" for k
    using that by (simp_all add: stack_positions_def rev_nth)
  show "0 \<le> stack_positions sizes ! j" using place_bounds(1) [OF nn r(3), of 0] p(1) [OF assms(3)] by simp
  show "stack_positions sizes ! j + sizes ! j \<le> stack_positions sizes ! i"
    using place_bounds(3) [OF nn r(3) r(1) r(2), of 0] p [OF assms(3)] p(1) [of i] assms by simp
  show "stack_positions sizes ! i + sizes ! i \<le> sum_list sizes"
    using place_bounds(2) [OF nn r(2), of 0] p [of i] assms by (simp add: sum_list_rev)
qed

lemma pad8_aligned:
  assumes "4 dvd n"
  shows "(pad8 n saved + saved * 4) mod 8 = 0"
  using assms by (auto simp: pad8_def dvd_def) presburger+

lemma pad8_ge: "n \<le> pad8 n saved"
  by (simp add: pad8_def)

text \<open>Consecutive saved floats: \<open>vpush\<close> pushes exactly the registers that were counted.\<close>

lemma vpush_exact:
  assumes "fs = [a .. b]"
  shows "vpush_range fs = fs"
proof (cases "a \<le> b")
  case True
  then have "Min (set fs) = a" "Max (set fs) = b" unfolding assms
    by (auto intro!: Min_eqI Max_eqI)
  then show ?thesis using True assms by (simp add: vpush_range_def)
qed (use assms in \<open>simp add: vpush_range_def\<close>)

end
