(* ===== verification/Spill.thy ===== *)
theory Spill
  imports RegAlloc ArmOpt Frame
begin

text \<open>
  What the allocator does with the nodes it has to spill (\<open>spill\<close> of
  \<open>src/arm/simple_coloring_alloc.hpp\<close>), the loop around a type's allocation and the loop over both
  types (\<open>reg_allocate\<close> and \<open>Func::allocate_register\<close> of \<open>src/arm/func.cpp\<close>). A spilled register
  lives in a stack object, or is computed again where it holds a constant or an address; it
  occurs nowhere afterwards.
\<close>

section \<open>The function under allocation\<close>

text \<open>The part of \<open>Func\<close> that spilling changes. A stack object is a key with its size.\<close>

record alloc_fun =
  af_blocks :: "flow_block list"
  af_reg_n :: int
  af_objects :: "(obj \<times> int) list"
  af_callers :: "(obj \<times> int) list"
  af_next_obj :: obj
  af_spilling :: "areg set"
  af_constant :: "areg \<Rightarrow> w32 option"
  af_symbol :: "areg \<Rightarrow> string option"
  af_float :: "areg set"

definition is_remat :: "alloc_fun \<Rightarrow> areg \<Rightarrow> bool" where
  "is_remat fn r = (af_constant fn r \<noteq> None \<or> af_symbol fn r \<noteq> None)"

text \<open>The first loop of \<open>spill\<close>: a stack object for every node that is not computed again.\<close>

fun spill_objs :: "scalar_type \<Rightarrow> int list \<Rightarrow> alloc_fun \<Rightarrow> (int \<times> obj option) list \<times> alloc_fun" where
  "spill_objs ty [] fn = ([], fn)"
| "spill_objs ty (x # xs) fn =
     (if is_remat fn (AReg ty x)
      then (let (os, fn') = spill_objs ty xs fn in ((x, None) # os, fn'))
      else (let k = af_next_obj fn;
                (os, fn') = spill_objs ty xs (fn\<lparr>af_objects := af_objects fn @ [(k, 4)], af_next_obj := k + 1\<rparr>)
            in ((x, Some k) # os, fn')))"

text \<open>A new register \<open>tmp\<close> for a node.\<close>

definition spill_tmp :: "scalar_type \<Rightarrow> alloc_fun \<Rightarrow> areg" where
  "spill_tmp ty fn = AReg ty (af_reg_n fn)"

definition take_tmp :: "scalar_type \<Rightarrow> alloc_fun \<Rightarrow> alloc_fun" where
  "take_tmp ty fn = fn\<lparr>af_reg_n := af_reg_n fn + 1, af_spilling := insert (spill_tmp ty fn) (af_spilling fn)\<rparr>"

text \<open>The loop over the nodes at one instruction: what is inserted before it, the instruction, what is
  inserted after it. A later store goes directly behind the instruction. \<open>None\<close> is a failed assertion.\<close>

fun spill_at ::
  "scalar_type \<Rightarrow> (int \<times> obj option) list \<Rightarrow> inst \<Rightarrow> alloc_fun \<Rightarrow> (inst list \<times> inst \<times> inst list \<times> alloc_fun) option" where
  "spill_at ty [] i fn = Some ([], i, [], fn)"
| "spill_at ty ((x, k) # xs) i fn =
     (let r = AReg ty x; d = inst_def i r; u = inst_use i r; tmp = spill_tmp ty fn; fn1 = take_tmp ty fn;
          i1 = replace_reg r tmp i in
      (case af_constant fn r of
         Some v \<Rightarrow>
           (if ty \<noteq> IntT \<or> d then None
            else if u
            then map_option (\<lambda>(pre, j, post, fn'). (load_imm tmp v @ pre, j, post, fn'))
                   (spill_at ty xs i1 (fn1\<lparr>af_constant := (af_constant fn1)(tmp := Some v)\<rparr>))
            else spill_at ty xs i fn)
       | None \<Rightarrow>
           (case af_symbol fn r of
              Some nm \<Rightarrow>
                (if d then None
                 else if u
                 then map_option (\<lambda>(pre, j, post, fn'). (load_symbol_addr tmp nm @ pre, j, post, fn'))
                        (spill_at ty xs i1 (fn1\<lparr>af_symbol := (af_symbol fn1)(tmp := Some nm)\<rparr>))
                 else spill_at ty xs i fn)
            | None \<Rightarrow>
                (if d \<or> u
                 then (case k of
                         None \<Rightarrow> None
                       | Some ob \<Rightarrow>
                           map_option (\<lambda>(pre, j, post, fn').
                               ((if u then [Inst Always (LoadStack tmp 0 ob)] else []) @ pre, j,
                                post @ (if d then [Inst Always (StoreStack tmp 0 ob)] else []), fn'))
                             (spill_at ty xs i1
                                (if ty = FloatT then fn1\<lparr>af_float := insert tmp (af_float fn1)\<rparr> else fn1)))
                 else spill_at ty xs i fn))))"

text \<open>The loop over a block; the stores inserted after an instruction are visited next.\<close>

partial_function (option) spill_insts ::
  "scalar_type \<Rightarrow> int set \<Rightarrow> (int \<times> obj option) list \<Rightarrow> inst list \<Rightarrow> alloc_fun \<Rightarrow> (inst list \<times> alloc_fun) option" where
  "spill_insts ty remat nodes is fn =
     (case is of
        [] \<Rightarrow> Some ([], fn)
      | i # rest \<Rightarrow>
          if list_ex (\<lambda>r. ar_id r \<in> remat) (def_reg i) then spill_insts ty remat nodes rest fn
          else do { p \<leftarrow> spill_at ty nodes i fn;
                    q \<leftarrow> spill_insts ty remat nodes (fst (snd (snd p)) @ rest) (snd (snd (snd p)));
                    Some (fst p @ [fst (snd p)] @ fst q, snd q) })"

fun spill_blocks ::
  "scalar_type \<Rightarrow> int set \<Rightarrow> (int \<times> obj option) list \<Rightarrow> flow_block list \<Rightarrow> alloc_fun \<Rightarrow> (flow_block list \<times> alloc_fun) option" where
  "spill_blocks ty remat nodes [] fn = Some ([], fn)"
| "spill_blocks ty remat nodes (b # bs) fn =
     (case spill_insts ty remat nodes (fb_insts b) fn of
        None \<Rightarrow> None
      | Some (is, fn1) \<Rightarrow>
          map_option (\<lambda>(cs, fn2). (b\<lparr>fb_insts := is\<rparr> # cs, fn2)) (spill_blocks ty remat nodes bs fn1))"

definition spill :: "scalar_type \<Rightarrow> int list \<Rightarrow> alloc_fun \<Rightarrow> alloc_fun option" where
  "spill ty nodes fn =
     (let remat = {x \<in> set nodes. is_remat fn (AReg ty x)};
          (objs, fn1) = spill_objs ty nodes fn
      in map_option (\<lambda>(bs, fn2). fn2\<lparr>af_blocks := bs\<rparr>) (spill_blocks ty remat objs (af_blocks fn1) fn1))"

section \<open>The loops\<close>

definition alloc_round :: "scalar_type \<Rightarrow> alloc_fun \<Rightarrow> alloc_result option" where
  "alloc_round ty fn =
     run_alloc ty (af_reg_n fn) (\<lambda>x. AReg ty x \<in> af_spilling fn) (\<lambda>x. is_remat fn (AReg ty x)) (af_blocks fn)"

partial_function (option) reg_allocate :: "scalar_type \<Rightarrow> alloc_fun \<Rightarrow> (int list \<times> alloc_fun) option" where
  "reg_allocate ty fn =
     do { r \<leftarrow> alloc_round ty fn;
          (case r of
             Allocated xs \<Rightarrow> Some (xs, fn)
           | Spilled ns \<Rightarrow> do { fn' \<leftarrow> spill ty ns fn; reg_allocate ty fn' }) }"

text \<open>The frame of a function whose registers are allocated, and the position it gives an object.\<close>

definition alloc_frame :: "int list \<Rightarrow> int list \<Rightarrow> alloc_fun \<Rightarrow> frame_layout" where
  "alloc_frame ints floats fn = make_frame ints floats (map snd (af_objects fn)) (map snd (af_callers fn))"

definition frame_pos :: "frame_layout \<Rightarrow> alloc_fun \<Rightarrow> obj \<Rightarrow> w32" where
  "frame_pos fr fn k =
     (case map_of (zip (map fst (af_objects fn)) (fr_objects fr) @ zip (map fst (af_callers fn)) (fr_callers fr)) k of
        Some p \<Rightarrow> word_of_int p
      | None \<Rightarrow> - 1)"

definition set_insts :: "flow_block list \<Rightarrow> inst list list \<Rightarrow> flow_block list" where
  "set_insts bs iss = map (\<lambda>(b, is). b\<lparr>fb_insts := is\<rparr>) (zip bs iss)"

partial_function (option) allocate_register :: "alloc_fun \<Rightarrow> (frame_layout \<times> alloc_fun) option" where
  "allocate_register fn =
     do { ri \<leftarrow> reg_allocate IntT fn;
          rf \<leftarrow> reg_allocate FloatT (snd ri);
          (let fr = alloc_frame (fst ri) (fst rf) (snd rf);
               chk = check_store_stack (frame_pos fr (snd rf)) (af_reg_n (snd rf)) (map fb_insts (af_blocks (snd rf)));
               fn3 = (snd rf)\<lparr>af_blocks := set_insts (af_blocks (snd rf)) (fst chk), af_reg_n := fst (snd chk)\<rparr> in
           if snd (snd chk)
           then Some (fr, fn3\<lparr>af_blocks := replace_with_reg_alloc (fst ri) (fst rf) (af_blocks fn3)\<rparr>)
           else allocate_register fn3) }"

section \<open>Spilled registers are gone\<close>

definition inst_regs :: "inst \<Rightarrow> areg set" where
  "inst_regs i = set (def_reg i) \<union> set (use_reg i)"

lemma map_op_use:
  assumes "machine_fixed f"
  shows "op_use_reg c (map_op_regs f x) = map f (op_use_reg c x)"
proof (cases x)
  case (FuncCall g ni nf)
  have "f r = r" if "r \<in> set (op_use_reg c x)" for r
  proof (cases "c = Always")
    case True
    then show ?thesis using fixed_machine [OF assms machine_call_uses [of r g ni nf]] that by (simp add: FuncCall)
  next
    case False
    then show ?thesis using fixed_machine [OF assms machine_call_defs [of r g ni nf]] that by (simp add: FuncCall)
  qed
  then have "map f (op_use_reg c x) = op_use_reg c x" by (intro map_idI)
  then show ?thesis by (simp add: FuncCall)
next
  case (Return t)
  have "f (AReg ty 0) = AReg ty 0" for ty
    by (rule fixed_machine [OF assms]) (simp add: is_pseudo_def int_count_def float_count_def)
  then show ?thesis by (cases t) (simp_all add: Return)
next
  case (SIMD src ty rs n)
  then show ?thesis by (cases src) simp_all
qed (simp_all add: if_cond_def)

lemma replace_fixed: "is_pseudo a \<Longrightarrow> ar_type b = ar_type a \<Longrightarrow> machine_fixed (\<lambda>r. if r = a then b else r)"
  by (auto simp: machine_fixed_def)

lemma replace_reg_regs:
  assumes "is_pseudo a" and "ar_type b = ar_type a"
  shows "set (def_reg (replace_reg a b i)) = (\<lambda>r. if r = a then b else r) ` set (def_reg i)"
    and "set (use_reg (replace_reg a b i)) = (\<lambda>r. if r = a then b else r) ` set (use_reg i)"
  using replace_fixed [OF assms]
  by (simp_all add: replace_reg_def map_regs_def def_reg_def use_reg_def map_op_def map_op_use)

definition new_regs :: "scalar_type \<Rightarrow> alloc_fun \<Rightarrow> alloc_fun \<Rightarrow> areg set" where
  "new_regs ty fn fn' = {AReg ty m |m. af_reg_n fn \<le> m \<and> m < af_reg_n fn'}"

text \<open>A later state of the function: more registers, all of them recorded as spilling registers.\<close>

definition later :: "scalar_type \<Rightarrow> alloc_fun \<Rightarrow> alloc_fun \<Rightarrow> bool" where
  "later ty fn fn' =
     (af_reg_n fn \<le> af_reg_n fn' \<and> af_spilling fn' = af_spilling fn \<union> new_regs ty fn fn' \<and>
      (\<forall>r. ar_id r < af_reg_n fn \<longrightarrow> af_constant fn' r = af_constant fn r \<and> af_symbol fn' r = af_symbol fn r))"

lemma later_refl: "later ty fn fn"
  by (auto simp: later_def new_regs_def)

lemma new_regs_split:
  "af_reg_n a \<le> af_reg_n b \<Longrightarrow> af_reg_n b \<le> af_reg_n c \<Longrightarrow> new_regs ty a c = new_regs ty a b \<union> new_regs ty b c"
  by (auto simp: new_regs_def)

lemma later_trans: "later ty a b \<Longrightarrow> later ty b c \<Longrightarrow> later ty a c"
  by (auto simp: later_def new_regs_split [of a b c])

text \<open>What the loop over an instruction relies on.\<close>

definition spill_pre :: "scalar_type \<Rightarrow> int set \<Rightarrow> (int \<times> obj option) list \<Rightarrow> alloc_fun \<Rightarrow> bool" where
  "spill_pre ty remat xs fn =
     (\<forall>(x, k) \<in> set xs. reg_count ty \<le> x \<and> x < af_reg_n fn \<and> (k = None) = is_remat fn (AReg ty x) \<and>
        (x \<in> remat) = is_remat fn (AReg ty x) \<and> (ty \<noteq> IntT \<longrightarrow> af_constant fn (AReg ty x) = None))"

lemma spill_pre_later: "spill_pre ty remat xs fn \<Longrightarrow> later ty fn fn' \<Longrightarrow> spill_pre ty remat xs fn'"
  unfolding spill_pre_def later_def is_remat_def by fastforce

lemma spill_pre_pseudo: "spill_pre ty remat ((x, k) # xs) fn \<Longrightarrow> ty = IntT \<or> ty = FloatT \<Longrightarrow> is_pseudo (AReg ty x)"
  by (auto simp: spill_pre_def is_pseudo_def reg_count_def)

lemma load_regs:
  "j \<in> set (load_imm tmp v) \<Longrightarrow> inst_regs j \<subseteq> {tmp}" "j \<in> set (load_symbol_addr tmp nm) \<Longrightarrow> inst_regs j \<subseteq> {tmp}"
  by (auto simp: load_imm_def load_symbol_addr_def always_def inst_regs_def def_reg_def use_reg_def if_cond_def Let_def
      split: if_splits)

text \<open>The outcome at one instruction.\<close>

definition node_regs :: "scalar_type \<Rightarrow> (int \<times> obj option) list \<Rightarrow> areg set" where
  "node_regs ty xs = AReg ty ` fst ` set xs"

definition spill_post ::
  "scalar_type \<Rightarrow> (int \<times> obj option) list \<Rightarrow> inst \<Rightarrow> alloc_fun \<Rightarrow> inst list \<times> inst \<times> inst list \<times> alloc_fun \<Rightarrow> bool" where
  "spill_post ty xs i fn p =
     (case p of (pre, j, post, fn') \<Rightarrow>
        later ty fn fn' \<and> inst_regs j \<subseteq> (inst_regs i - node_regs ty xs) \<union> new_regs ty fn fn' \<and>
        (\<forall>k \<in> set pre \<union> set post. inst_regs k \<subseteq> new_regs ty fn fn') \<and> (\<forall>k \<in> set post. def_reg k = []))"

text \<open>One node that occurs in the instruction is replaced by a new register.\<close>

definition tmp_step :: "scalar_type \<Rightarrow> alloc_fun \<Rightarrow> alloc_fun \<Rightarrow> bool" where
  "tmp_step ty fn fn1 = (later ty fn fn1 \<and> af_reg_n fn1 = af_reg_n fn + 1)"

lemma take_tmp_step:
  "tmp_step ty fn (take_tmp ty fn)"
  "tmp_step ty fn ((take_tmp ty fn)\<lparr>af_constant := (af_constant (take_tmp ty fn))(spill_tmp ty fn := v)\<rparr>)"
  "tmp_step ty fn ((take_tmp ty fn)\<lparr>af_symbol := (af_symbol (take_tmp ty fn))(spill_tmp ty fn := w)\<rparr>)"
  "tmp_step ty fn ((take_tmp ty fn)\<lparr>af_float := F\<rparr>)"
  by (auto simp: tmp_step_def later_def take_tmp_def spill_tmp_def new_regs_def)

lemma spill_post_tmp:
  assumes "tmp_step ty fn fn1" and "is_pseudo (AReg ty x)" and "x < af_reg_n fn" and "\<forall>y \<in> fst ` set xs. y < af_reg_n fn"
    and "spill_post ty xs (replace_reg (AReg ty x) (spill_tmp ty fn) i) fn1 (pre, j, post, fn')"
    and "\<forall>k \<in> set pre0 \<union> set post0. inst_regs k \<subseteq> {spill_tmp ty fn}" and "\<forall>k \<in> set post0. def_reg k = []"
  shows "spill_post ty ((x, k) # xs) i fn (pre0 @ pre, j, post @ post0, fn')"
proof -
  let ?i = "replace_reg (AReg ty x) (spill_tmp ty fn) i"
  note p = assms(5) [unfolded spill_post_def prod.case]
  have l: "later ty fn fn'" using assms(1) p later_trans unfolding tmp_step_def by blast
  have n: "new_regs ty fn fn' = insert (spill_tmp ty fn) (new_regs ty fn1 fn')"
    using assms(1) p by (auto simp: tmp_step_def later_def new_regs_def spill_tmp_def)
  have i: "inst_regs ?i \<subseteq> (inst_regs i - {AReg ty x}) \<union> {spill_tmp ty fn}"
    using replace_reg_regs [OF assms(2), of "spill_tmp ty fn" i] assms(3)
    by (auto simp: inst_regs_def spill_tmp_def)
  have "inst_regs j \<subseteq> (inst_regs i - node_regs ty ((x, k) # xs)) \<union> new_regs ty fn fn'"
  proof
    fix r assume "r \<in> inst_regs j"
    then have "r \<in> inst_regs ?i - node_regs ty xs \<or> r \<in> new_regs ty fn1 fn'" using p by blast
    then show "r \<in> (inst_regs i - node_regs ty ((x, k) # xs)) \<union> new_regs ty fn fn'"
      using i n by (auto simp: node_regs_def)
  qed
  then show ?thesis using l n p assms(6,7) unfolding spill_post_def by auto
qed

lemma spill_post_skip:
  assumes "spill_post ty xs i fn p" and "AReg ty x \<notin> inst_regs i" and "x < af_reg_n fn"
  shows "spill_post ty ((x, k) # xs) i fn p"
  using assms by (cases p) (auto simp: spill_post_def node_regs_def)

lemma inst_relate_regs: "(AReg ty x \<notin> inst_regs i) = (\<not> inst_def i (AReg ty x) \<and> \<not> inst_use i (AReg ty x))"
  by (auto simp: inst_regs_def inst_def_def inst_use_def)

lemma spill_pre_Cons:
  assumes "spill_pre ty remat ((x, k) # xs) fn"
  shows "spill_pre ty remat xs fn" and "x < af_reg_n fn" and "\<forall>y \<in> fst ` set xs. y < af_reg_n fn"
    and "(k = None) = is_remat fn (AReg ty x)" and "(x \<in> remat) = is_remat fn (AReg ty x)"
    and "ty \<noteq> IntT \<Longrightarrow> af_constant fn (AReg ty x) = None"
  using assms by (auto simp: spill_pre_def)

text \<open>No spilled constant is defined by the instruction: the loop has erased those that do.\<close>

definition no_const_def :: "int set \<Rightarrow> inst \<Rightarrow> bool" where
  "no_const_def remat i = (\<forall>r \<in> set (def_reg i). ar_id r \<notin> remat)"

lemma no_const_replace:
  assumes "no_const_def remat i" and "is_pseudo (AReg ty x)" and "af_reg_n fn \<notin> remat"
  shows "no_const_def remat (replace_reg (AReg ty x) (spill_tmp ty fn) i)"
  using assms(1,3) replace_reg_regs(1) [OF assms(2), of "spill_tmp ty fn" i]
  by (auto simp: no_const_def_def spill_tmp_def)

lemma spill_at_ok:
  assumes ty: "ty = IntT \<or> ty = FloatT" and "spill_pre ty remat xs fn" and "no_const_def remat i"
    and "\<forall>x \<in> remat. x < af_reg_n fn"
  shows "\<exists>p. spill_at ty xs i fn = Some p \<and> spill_post ty xs i fn p"
  using assms(2-)
proof (induction xs arbitrary: i fn)
  case Nil
  then show ?case by (simp add: spill_post_def node_regs_def later_refl)
next
  case (Cons h xs)
  obtain x k where h: "h = (x, k)" by (cases h)
  let ?r = "AReg ty x" and ?tmp = "spill_tmp ty fn"
  note pre = spill_pre_Cons [OF Cons.prems(1) [unfolded h]]
  have ps: "is_pseudo ?r" by (rule spill_pre_pseudo [OF Cons.prems(1) [unfolded h] ty])
  have nd: "\<not> inst_def i ?r" if "is_remat fn ?r"
    using Cons.prems(2) pre(5) that by (auto simp: no_const_def_def inst_def_def)
  have tmp_not: "af_reg_n fn \<notin> remat" using Cons.prems(3) by auto
  have step: "\<exists>pre1 j post1 fn'. spill_at ty xs (replace_reg ?r ?tmp i) fn1 = Some (pre1, j, post1, fn') \<and>
      spill_post ty ((x, k) # xs) i fn (pre0 @ pre1, j, post1 @ post0, fn')"
    if "tmp_step ty fn fn1" "\<forall>k \<in> set pre0 \<union> set post0. inst_regs k \<subseteq> {?tmp}" "\<forall>k \<in> set post0. def_reg k = []"
    for fn1 pre0 post0
  proof -
    have "spill_pre ty remat xs fn1" using spill_pre_later [OF pre(1)] that(1) by (simp add: tmp_step_def)
    moreover have "\<forall>x \<in> remat. x < af_reg_n fn1" using Cons.prems(3) that(1) by (auto simp: tmp_step_def)
    moreover note no_const_replace [OF Cons.prems(2) ps tmp_not]
    ultimately obtain p where p: "spill_at ty xs (replace_reg ?r ?tmp i) fn1 = Some p"
      "spill_post ty xs (replace_reg ?r ?tmp i) fn1 p" using Cons.IH by blast
    obtain a j b c where "p = (a, j, b, c)" by (cases p)
    then show ?thesis using p spill_post_tmp [OF that(1) ps pre(2,3) _ that(2,3)] by blast
  qed
  have skip: ?case if "AReg ty x \<notin> inst_regs i" "spill_at ty (h # xs) i fn = spill_at ty xs i fn"
  proof -
    obtain p where "spill_at ty xs i fn = Some p" "spill_post ty xs i fn p"
      using Cons.IH [OF pre(1) Cons.prems(2,3)] by blast
    then show ?thesis using spill_post_skip [OF _ that(1) pre(2)] that(2) h by auto
  qed
  show ?case
  proof (cases "inst_def i ?r \<or> inst_use i ?r")
    case False
    have "spill_at ty (h # xs) i fn = spill_at ty xs i fn"
      using False pre(6) by (auto simp: h Let_def split: option.splits)
    then show ?thesis using False by (intro skip) (auto simp: inst_relate_regs)
  next
    case occurs: True
    show ?thesis
    proof (cases "af_constant fn ?r")
      case (Some v)
      then have d: "\<not> inst_def i ?r" "inst_use i ?r" using nd occurs by (auto simp: is_remat_def)
      have "ty = IntT" using pre(6) Some by fastforce
      then show ?thesis
        using step [OF take_tmp_step(2), of "load_imm ?tmp v" "[]" "Some v"] load_regs(1) Some d
        by (auto simp: h Let_def)
    next
      case None
      show ?thesis
      proof (cases "af_symbol fn ?r")
        case (Some nm)
        then have d: "\<not> inst_def i ?r" "inst_use i ?r" using nd occurs by (auto simp: is_remat_def)
        show ?thesis
          using step [OF take_tmp_step(3), of "load_symbol_addr ?tmp nm" "[]" "Some nm"] load_regs(2) Some None d
          by (auto simp: h Let_def)
      next
        case None2: None
        then obtain ob where k: "k = Some ob" using pre(4) None by (auto simp: is_remat_def)
        let ?pre = "if inst_use i ?r then [Inst Always (LoadStack ?tmp 0 ob)] else []"
        let ?post = "if inst_def i ?r then [Inst Always (StoreStack ?tmp 0 ob)] else []"
        let ?fn = "if ty = FloatT then (take_tmp ty fn)\<lparr>af_float := insert ?tmp (af_float (take_tmp ty fn))\<rparr> else take_tmp ty fn"
        have "tmp_step ty fn ?fn" using take_tmp_step(1,4) by simp
        moreover have "\<forall>k \<in> set ?pre \<union> set ?post. inst_regs k \<subseteq> {?tmp}" "\<forall>k \<in> set ?post. def_reg k = []"
          by (auto simp: inst_regs_def def_reg_def use_reg_def if_cond_def)
        ultimately obtain a j b c where "spill_at ty xs (replace_reg ?r ?tmp i) ?fn = Some (a, j, b, c)"
          "spill_post ty ((x, k) # xs) i fn (?pre @ a, j, b @ ?post, c)" using step by blast
        then show ?thesis using None None2 occurs k by (auto simp: h Let_def)
      qed
    qed
  qed
qed

text \<open>The stores behind an instruction pass through the loop unchanged.\<close>

lemma spill_at_clean:
  assumes "spill_pre ty remat xs fn" and "inst_regs i \<inter> node_regs ty xs = {}"
  shows "spill_at ty xs i fn = Some ([], i, [], fn)"
  using assms
proof (induction xs)
  case (Cons h xs)
  obtain x k where h: "h = (x, k)" by (cases h)
  note pre = spill_pre_Cons [OF Cons.prems(1) [unfolded h]]
  have "AReg ty x \<notin> inst_regs i" using Cons.prems(2) by (auto simp: h node_regs_def)
  moreover have "inst_regs i \<inter> node_regs ty xs = {}" using Cons.prems(2) by (auto simp: node_regs_def)
  ultimately show ?case
    using Cons.IH [OF pre(1)] pre(6) by (auto simp: h Let_def inst_relate_regs split: option.splits)
qed simp

lemma spill_insts_clean:
  assumes "spill_pre ty remat xs fn" and "\<forall>k \<in> set ps. inst_regs k \<inter> node_regs ty xs = {} \<and> def_reg k = []"
  shows "spill_insts ty remat xs (ps @ is) fn =
    map_option (\<lambda>q. (ps @ fst q, snd q)) (spill_insts ty remat xs is fn)"
  using assms(2)
proof (induction ps)
  case Nil
  then show ?case by (simp add: option.map_ident)
next
  case (Cons k ps)
  then show ?case
    using spill_at_clean [OF assms(1), of k]
    by (cases "spill_insts ty remat xs is fn") (simp_all add: spill_insts.simps [of ty remat xs "k # ps @ is"])
qed

definition spilled_ok :: "scalar_type \<Rightarrow> (int \<times> obj option) list \<Rightarrow> inst list \<Rightarrow> alloc_fun \<Rightarrow> inst list \<Rightarrow> alloc_fun \<Rightarrow> bool" where
  "spilled_ok ty xs is fn js fn' =
     (later ty fn fn' \<and> (\<Union>j \<in> set js. inst_regs j) \<subseteq> ((\<Union>i \<in> set is. inst_regs i) - node_regs ty xs) \<union> new_regs ty fn fn')"

lemma new_not_node: "spill_pre ty remat xs fn \<Longrightarrow> new_regs ty fn fn' \<inter> node_regs ty xs = {}"
  by (auto simp: spill_pre_def new_regs_def node_regs_def)

lemma spilled_erase: "spilled_ok ty xs is fn js fn' \<Longrightarrow> spilled_ok ty xs (i # is) fn js fn'"
  unfolding spilled_ok_def by auto

lemma spill_insts_ok:
  assumes ty: "ty = IntT \<or> ty = FloatT" and "spill_pre ty remat xs fn" and "\<forall>x \<in> remat. x < af_reg_n fn"
  shows "\<exists>js fn'. spill_insts ty remat xs is fn = Some (js, fn') \<and> spilled_ok ty xs is fn js fn'"
  using assms(2-)
proof (induction "is" arbitrary: fn)
  case Nil
  then show ?case by (simp add: spill_insts.simps spilled_ok_def later_refl)
next
  case (Cons i "is")
  note unf = spill_insts.simps [of ty remat xs "i # is" fn]
  show ?case
  proof (cases "list_ex (\<lambda>r. ar_id r \<in> remat) (def_reg i)")
    case True
    then show ?thesis using Cons.IH [OF Cons.prems] unf spilled_erase by auto
  next
    case False
    then have nc: "no_const_def remat i" by (auto simp: no_const_def_def list_ex_iff)
    from spill_at_ok [OF ty Cons.prems(1) nc Cons.prems(2)] obtain pre j post fn1 where
      p: "spill_at ty xs i fn = Some (pre, j, post, fn1)" "spill_post ty xs i fn (pre, j, post, fn1)" by auto
    note pst = p(2) [unfolded spill_post_def prod.case]
    have pre1: "spill_pre ty remat xs fn1" using spill_pre_later [OF Cons.prems(1)] pst by blast
    moreover have c1: "\<forall>x \<in> remat. x < af_reg_n fn1" using Cons.prems(2) pst by (auto simp: later_def)
    ultimately obtain js fn' where r: "spill_insts ty remat xs is fn1 = Some (js, fn')" "spilled_ok ty xs is fn1 js fn'"
      using Cons.IH by blast
    have "\<forall>k \<in> set post. inst_regs k \<inter> node_regs ty xs = {} \<and> def_reg k = []"
      using pst new_not_node [OF Cons.prems(1)] by blast
    from spill_insts_clean [OF pre1 this, of "is"] r(1) have
      "spill_insts ty remat xs (i # is) fn = Some (pre @ [j] @ post @ js, fn')"
      using False p(1) unf by simp
    moreover have "spilled_ok ty xs (i # is) fn (pre @ [j] @ post @ js) fn'"
    proof -
      note ro = r(2) [unfolded spilled_ok_def]
      have l: "later ty fn fn1" "later ty fn1 fn'" using pst ro by blast+
      have n: "new_regs ty fn fn' = new_regs ty fn fn1 \<union> new_regs ty fn1 fn'"
        using l by (intro new_regs_split) (simp_all add: later_def)
      have "later ty fn fn'" by (rule later_trans [OF l])
      moreover have "inst_regs k \<subseteq> (\<Union>(inst_regs ` set (i # is)) - node_regs ty xs) \<union> new_regs ty fn fn'"
        if "k \<in> set (pre @ [j] @ post @ js)" for k
      proof (cases "k \<in> set js")
        case True
        then have "inst_regs k \<subseteq> (\<Union>(inst_regs ` set is) - node_regs ty xs) \<union> new_regs ty fn1 fn'"
          using ro by blast
        then show ?thesis unfolding n by auto
      next
        case False
        then have "inst_regs k \<subseteq> (inst_regs i - node_regs ty xs) \<union> new_regs ty fn fn1" using that pst by auto
        then show ?thesis unfolding n by auto
      qed
      ultimately show ?thesis unfolding spilled_ok_def by (intro conjI UN_least)
    qed
    ultimately show ?thesis by blast
  qed
qed

lemma spill_blocks_ok:
  assumes ty: "ty = IntT \<or> ty = FloatT" and "spill_pre ty remat xs fn" and "\<forall>x \<in> remat. x < af_reg_n fn"
  shows "\<exists>cs fn'. spill_blocks ty remat xs bs fn = Some (cs, fn') \<and> map fb_id cs = map fb_id bs \<and> map fb_in cs = map fb_in bs \<and>
    spilled_ok ty xs (List.concat (map fb_insts bs)) fn (List.concat (map fb_insts cs)) fn'"
  using assms(2-)
proof (induction bs arbitrary: fn)
  case Nil
  then show ?case by (simp add: spilled_ok_def later_refl)
next
  case (Cons b bs)
  from spill_insts_ok [OF ty Cons.prems] obtain js fn1 where
    j: "spill_insts ty remat xs (fb_insts b) fn = Some (js, fn1)" "spilled_ok ty xs (fb_insts b) fn js fn1" by blast
  note jo = j(2) [unfolded spilled_ok_def]
  have "spill_pre ty remat xs fn1" using spill_pre_later [OF Cons.prems(1)] jo by blast
  moreover have "\<forall>x \<in> remat. x < af_reg_n fn1" using Cons.prems(2) jo by (auto simp: later_def)
  ultimately obtain cs fn' where c: "spill_blocks ty remat xs bs fn1 = Some (cs, fn')" "map fb_id cs = map fb_id bs"
    "map fb_in cs = map fb_in bs"
    "spilled_ok ty xs (List.concat (map fb_insts bs)) fn1 (List.concat (map fb_insts cs)) fn'" using Cons.IH by blast
  note co = c(4) [unfolded spilled_ok_def]
  have l: "later ty fn fn1" "later ty fn1 fn'" using jo co by blast+
  have n: "new_regs ty fn fn' = new_regs ty fn fn1 \<union> new_regs ty fn1 fn'"
    using l by (intro new_regs_split) (simp_all add: later_def)
  have "later ty fn fn'" by (rule later_trans [OF l])
  moreover have "\<Union>(inst_regs ` set (js @ List.concat (map fb_insts cs))) \<subseteq>
      (\<Union>(inst_regs ` set (List.concat (map fb_insts (b # bs)))) - node_regs ty xs) \<union> new_regs ty fn fn'"
  proof -
    have u: "\<Union>(inst_regs ` set (ks @ ls)) = \<Union>(inst_regs ` set ks) \<union> \<Union>(inst_regs ` set ls)" for ks ls by auto
    have c: "List.concat (map fb_insts (b # bs)) = fb_insts b @ List.concat (map fb_insts bs)" by simp
    show ?thesis using jo co unfolding n c u by blast
  qed
  ultimately have "spilled_ok ty xs (List.concat (map fb_insts (b # bs))) fn (js @ List.concat (map fb_insts cs)) fn'"
    unfolding spilled_ok_def by blast
  then show ?case using j(1) c(1-3) by auto
qed

lemma spill_objs_ok:
  "map fst (fst (spill_objs ty xs fn)) = xs \<and>
   (\<forall>(x, k) \<in> set (fst (spill_objs ty xs fn)). (k = None) = is_remat fn (AReg ty x)) \<and>
   (let fn' = snd (spill_objs ty xs fn) in
      af_blocks fn' = af_blocks fn \<and> af_reg_n fn' = af_reg_n fn \<and> af_spilling fn' = af_spilling fn \<and>
      af_constant fn' = af_constant fn \<and> af_symbol fn' = af_symbol fn)"
proof (induction xs arbitrary: fn)
  case (Cons x xs)
  let ?fn = "fn\<lparr>af_objects := af_objects fn @ [(af_next_obj fn, 4)], af_next_obj := af_next_obj fn + 1\<rparr>"
  have r: "is_remat ?fn = is_remat fn" by (simp add: is_remat_def fun_eq_iff)
  show ?case
    using Cons.IH [of fn] Cons.IH [of ?fn, unfolded r] by (simp add: Let_def case_prod_beta)
qed simp

text \<open>Constants are integers, as the code asserts.\<close>

definition int_constants :: "alloc_fun \<Rightarrow> bool" where
  "int_constants fn = (\<forall>x. af_constant fn (AReg FloatT x) = None)"

definition same_shape :: "flow_block list \<Rightarrow> flow_block list \<Rightarrow> bool" where
  "same_shape bs cs = (map fb_id cs = map fb_id bs \<and> map fb_in cs = map fb_in bs)"

definition occurring :: "flow_block list \<Rightarrow> areg set" where
  "occurring bs = (\<Union>b \<in> set bs. \<Union>i \<in> set (fb_insts b). inst_regs i)"

lemma occurring_concat: "occurring bs = \<Union>(inst_regs ` set (List.concat (map fb_insts bs)))"
  by (auto simp: occurring_def)

lemma spill_ok:
  assumes ty: "ty = IntT \<or> ty = FloatT" and nodes: "\<forall>x \<in> set ns. reg_count ty \<le> x \<and> x < af_reg_n fn" and "int_constants fn"
  shows "\<exists>fn'. spill ty ns fn = Some fn' \<and> same_shape (af_blocks fn) (af_blocks fn') \<and> later ty fn fn' \<and>
    occurring (af_blocks fn') \<subseteq> (occurring (af_blocks fn) - AReg ty ` set ns) \<union> new_regs ty fn fn'"
proof -
  let ?C = "{x \<in> set ns. is_remat fn (AReg ty x)}"
  obtain os fn1 where o: "spill_objs ty ns fn = (os, fn1)" by (cases "spill_objs ty ns fn")
  from spill_objs_ok [of ty ns fn] have
    os: "map fst os = ns" "\<forall>(x, k) \<in> set os. (k = None) = is_remat fn (AReg ty x)"
    and f: "af_blocks fn1 = af_blocks fn" "af_reg_n fn1 = af_reg_n fn" "af_spilling fn1 = af_spilling fn"
      "af_constant fn1 = af_constant fn" "af_symbol fn1 = af_symbol fn" by (simp_all add: o Let_def)
  have rem: "is_remat fn1 = is_remat fn" by (simp add: is_remat_def f fun_eq_iff)
  have img: "fst ` set os = set ns" using os(1) by (metis set_map)
  have "spill_pre ty ?C os fn1"
  proof -
    have "reg_count ty \<le> x \<and> x < af_reg_n fn \<and> (k = None) = is_remat fn (AReg ty x) \<and>
        (x \<in> ?C) = is_remat fn (AReg ty x) \<and> (ty \<noteq> IntT \<longrightarrow> af_constant fn (AReg ty x) = None)"
      if "(x, k) \<in> set os" for x k
    proof -
      have "x \<in> set ns" using that img by force
      then show ?thesis using nodes os(2) that assms(3) ty by (auto simp: int_constants_def)
    qed
    then show ?thesis unfolding spill_pre_def rem f by blast
  qed
  moreover have "\<forall>x \<in> ?C. x < af_reg_n fn1" using nodes f by auto
  ultimately obtain cs fn2 where c: "spill_blocks ty ?C os (af_blocks fn1) fn1 = Some (cs, fn2)"
    "map fb_id cs = map fb_id (af_blocks fn1)" "map fb_in cs = map fb_in (af_blocks fn1)"
    "spilled_ok ty os (List.concat (map fb_insts (af_blocks fn1))) fn1 (List.concat (map fb_insts cs)) fn2"
    using spill_blocks_ok [OF ty] by blast
  let ?fn' = "fn2\<lparr>af_blocks := cs\<rparr>"
  have "spill ty ns fn = Some ?fn'" using o c(1) by (simp add: spill_def)
  moreover have "later ty fn ?fn'" "new_regs ty fn ?fn' = new_regs ty fn1 fn2"
    using c(4) f by (auto simp: spilled_ok_def later_def new_regs_def)
  moreover have "occurring cs \<subseteq> (occurring (af_blocks fn) - AReg ty ` set ns) \<union> new_regs ty fn1 fn2"
    using c(4) img unfolding spilled_ok_def occurring_concat f node_regs_def by (simp only:)
  ultimately show ?thesis using c(2,3) f by (auto simp: same_shape_def)
qed

text \<open>One round of the allocator, with the rewriting of the function.\<close>

definition alloc_fun_ok :: "scalar_type \<Rightarrow> alloc_fun \<Rightarrow> bool" where
  "alloc_fun_ok ty fn =
     (edges_ok (af_blocks fn) \<and> numbers_ok ty (af_reg_n fn) (af_blocks fn) \<and> int_constants fn \<and>
      (\<forall>r \<in> fun_regs ty (af_blocks fn). is_pseudo r \<longrightarrow> r \<notin> af_spilling fn))"

lemma fun_regs_occurring: "fun_regs ty bs = {r \<in> occurring bs. in_graph ty r}"
  by (auto simp: fun_regs_def regs_in_def gdefs_def guses_def occurring_def inst_regs_def)

lemma alloc_round_result:
  assumes ty: "ty = IntT \<or> ty = FloatT" and ok: "alloc_fun_ok ty fn"
  shows "(\<exists>ans E lin lout. alloc_round ty fn = Some (Allocated (map ans [0..af_reg_n fn - 1])) \<and>
      proper_alloc ty (ar_id ` fun_regs ty (af_blocks fn)) E ans \<and> calc_live (af_blocks fn) = Some (lin, lout) \<and>
      (\<forall>b \<in> set (af_blocks fn). interf_ok ty (rev (fb_insts b)) (typed_regs ty (lout (fb_id b))) E)) \<or>
    (\<exists>ns fn'. alloc_round ty fn = Some (Spilled ns) \<and> ns \<noteq> [] \<and> spill ty ns fn = Some fn' \<and>
      same_shape (af_blocks fn) (af_blocks fn') \<and> numbers_ok ty (af_reg_n fn') (af_blocks fn') \<and>
      fun_regs ty (af_blocks fn') \<subseteq> (fun_regs ty (af_blocks fn) - AReg ty ` set ns) \<union> new_regs ty fn fn' \<and>
      af_spilling fn' = af_spilling fn \<union> new_regs ty fn fn')"
proof -
  note o = ok [unfolded alloc_fun_ok_def]
  have num: "numbers_ok ty (af_reg_n fn) (af_blocks fn)" and e: "edges_ok (af_blocks fn)" using o by blast+
  have ms: "may_spill ty (\<lambda>x. AReg ty x \<in> af_spilling fn) (af_blocks fn)"
    unfolding may_spill_def
  proof (intro ballI impI)
    fix r assume r: "r \<in> fun_regs ty (af_blocks fn)" "reg_count ty \<le> ar_id r"
    have t: "ar_type r = ty" using fun_regs_graph [OF r(1)] by (simp add: in_graph_def)
    then have "is_pseudo r" using r(2) ty by (auto simp: is_pseudo_def reg_count_def)
    then have "r \<notin> af_spilling fn" using o r(1) by blast
    then show "AReg ty (ar_id r) \<notin> af_spilling fn" using t by (cases r) simp
  qed
  from run_alloc_ends [OF e ty num ms, of "\<lambda>x. is_remat fn (AReg ty x)"]
  consider (ok) "\<exists>ans E lin lout. alloc_round ty fn = Some (Allocated (map ans [0..af_reg_n fn - 1])) \<and>
      proper_alloc ty (ar_id ` fun_regs ty (af_blocks fn)) E ans \<and> calc_live (af_blocks fn) = Some (lin, lout) \<and>
      (\<forall>b \<in> set (af_blocks fn). interf_ok ty (rev (fb_insts b)) (typed_regs ty (lout (fb_id b))) E)"
    | (spill) ns where "alloc_round ty fn = Some (Spilled ns)" "ns \<noteq> []"
      "\<forall>x \<in> set ns. \<exists>r \<in> fun_regs ty (af_blocks fn). ar_id r = x \<and> is_pseudo r"
    unfolding alloc_round_def by blast
  then show ?thesis
  proof cases
    case ok
    then show ?thesis by blast
  next
    case spill
    have n: "reg_count ty \<le> x \<and> x < af_reg_n fn" if x: "x \<in> set ns" for x
    proof -
      obtain r where r: "r \<in> fun_regs ty (af_blocks fn)" "ar_id r = x" "is_pseudo r" using spill(3) x by blast
      have "ar_type r = ty" using fun_regs_graph [OF r(1)] by (simp add: in_graph_def)
      then show ?thesis using r num ty by (auto simp: is_pseudo_def reg_count_def numbers_ok_def)
    qed
    from spill_ok [OF ty, of ns fn] n o obtain fn' where
      f: "spill ty ns fn = Some fn'" "same_shape (af_blocks fn) (af_blocks fn')" "later ty fn fn'"
        "occurring (af_blocks fn') \<subseteq> (occurring (af_blocks fn) - AReg ty ` set ns) \<union> new_regs ty fn fn'" by blast
    have pos: "0 \<le> af_reg_n fn"
      using n spill(2) by (cases ns) (force simp: reg_count_def int_count_def float_count_def split: if_splits)+
    have regs: "fun_regs ty (af_blocks fn') \<subseteq> (fun_regs ty (af_blocks fn) - AReg ty ` set ns) \<union> new_regs ty fn fn'"
      using f(4) unfolding fun_regs_occurring by blast
    moreover have "0 \<le> ar_id r \<and> ar_id r < af_reg_n fn'" if "r \<in> fun_regs ty (af_blocks fn')" for r
    proof -
      have "r \<in> fun_regs ty (af_blocks fn) \<or> r \<in> new_regs ty fn fn'" using regs that by blast
      then show ?thesis using num pos f(3) by (auto simp: numbers_ok_def new_regs_def later_def)
    qed
    then have "numbers_ok ty (af_reg_n fn') (af_blocks fn')" by (simp add: numbers_ok_def)
    ultimately show ?thesis using spill(1,2) f(1-3) by (auto simp: later_def)
  qed
qed

end
