(* ===== verification/ArmBranch.thy ===== *)
theory ArmBranch
  imports ArmFlow
begin

text \<open>
  The clean-up of branches after allocation: \<open>eliminate_branch\<close> and \<open>remove_empty_blocks\<close>
  (\<open>src/arm/opt/eliminate_branch.cpp\<close>, \<open>remove_empty_blocks.cpp\<close>), and the loop of
  \<open>afterplay.hpp\<close> around them. The loop ends, and the function it leaves runs as before.
\<close>

section \<open>Branch elimination\<close>

text \<open>\<open>EBNode::next\<close>: the target of the last instruction, when that is a branch.\<close>

definition eb_next :: "inst list \<Rightarrow> blk option" where
  "eb_next is =
     (if is = [] then None else (case i_op (last is) of Branch b \<Rightarrow> Some b | _ \<Rightarrow> None))"

text \<open>\<open>in_deg_cnt\<close>: the branches of the function to a block.\<close>

definition eb_in_deg :: "flow \<Rightarrow> blk \<Rightarrow> nat" where
  "eb_in_deg p b = count_list (concat (map (\<lambda>x. branch_targets (snd x)) p)) b"

text \<open>\<open>EBNode::ok\<close>: the instructions may be made conditional.\<close>

fun eb_insts_ok :: "inst list \<Rightarrow> bool" where
  "eb_insts_ok [] = True"
| "eb_insts_ok (i # is) =
     (\<not> use_cpsr i \<and> (change_cpsr i \<longrightarrow> is = []) \<and> (case i_op i of Return t \<Rightarrow> False | _ \<Rightarrow> True) \<and> eb_insts_ok is)"

definition eb_ok :: "flow \<Rightarrow> blk \<Rightarrow> inst list \<Rightarrow> bool" where
  "eb_ok p b is = (\<not> 4 < length is \<and> \<not> 0 < eb_in_deg p b \<and> eb_insts_ok is)"

text \<open>\<open>EBContext::eliminate_branch\<close>: the first position where one of the three rewritings applies;
  \<open>None\<close> when there is none.\<close>

fun eb_scan :: "flow \<Rightarrow> flow \<Rightarrow> flow option" where
  "eb_scan p ((b1, is1) # (b2, is2) # rest) =
     (let go_on = map_option (Cons (b1, is1)) (eb_scan p ((b2, is2) # rest)) in
      if eb_next is1 = Some b2 then Some ((b1, butlast is1) # (b2, is2) # rest)
      else if eb_next is1 = None \<and> eb_in_deg p b2 = 0 then Some ((b1, is1 @ is2) # (b2, []) # rest)
      else (case rest of
              [] \<Rightarrow> go_on
            | (b3, is3) # rest' \<Rightarrow>
                if eb_next is1 \<noteq> Some b3 then go_on
                else if \<not> eb_ok p b2 is2 then go_on
                else (case logical_not (i_cond (last is1)) of
                        None \<Rightarrow> go_on
                      | Some c \<Rightarrow> Some ((b1, butlast is1) # (b2, map (set_cond c) is2) # rest))))"
| "eb_scan p _ = None"

definition eliminate_branch :: "flow \<Rightarrow> flow \<times> bool" where
  "eliminate_branch p = (case eb_scan p p of Some q \<Rightarrow> (q, True) | None \<Rightarrow> (p, False))"

section \<open>Empty blocks\<close>

text \<open>\<open>getf\<close> of \<open>relink_empty_blocks\<close>, with path compression.\<close>

partial_function (option) getf :: "nat list \<Rightarrow> nat \<Rightarrow> (nat \<times> nat list) option" where
  "getf fa i =
     (if fa ! i = i then Some (i, fa)
      else do { (r, fa') \<leftarrow> getf fa (fa ! i); Some (r, fa'[i := r]) })"

text \<open>\<open>fa[getf(i)] = getf(i + 1)\<close> for every empty block that is not the last one.\<close>

fun link_blocks :: "flow \<Rightarrow> nat list \<Rightarrow> nat \<Rightarrow> nat list option" where
  "link_blocks [] fa i = Some fa"
| "link_blocks (x # xs) fa i =
     (if snd x = [] \<and> xs \<noteq> []
      then (case getf fa (i + 1) of
              None \<Rightarrow> None
            | Some (r, fa1) \<Rightarrow>
                (case getf fa1 i of None \<Rightarrow> None | Some (l, fa2) \<Rightarrow> link_blocks xs (fa2[l := r]) (i + 1)))
      else link_blocks xs fa (i + 1))"

text \<open>\<open>b2idx[b]\<close>; a missing key gives 0.\<close>

definition block_index :: "flow \<Rightarrow> blk \<Rightarrow> nat" where
  "block_index p b = (if b \<in> fst ` set p then length (takeWhile (\<lambda>x. fst x \<noteq> b) p) else 0)"

definition relink_inst :: "flow \<Rightarrow> nat list \<Rightarrow> inst \<Rightarrow> (inst \<times> nat list) option" where
  "relink_inst p fa i =
     (case i_op i of
        Branch b \<Rightarrow>
          (case getf fa (block_index p b) of
             None \<Rightarrow> None
           | Some (r, fa') \<Rightarrow> Some (Inst (i_cond i) (Branch (fst (p ! r))), fa'))
      | _ \<Rightarrow> Some (i, fa))"

fun relink_insts :: "flow \<Rightarrow> nat list \<Rightarrow> inst list \<Rightarrow> (inst list \<times> nat list) option" where
  "relink_insts p fa [] = Some ([], fa)"
| "relink_insts p fa (i # is) =
     (case relink_inst p fa i of
        None \<Rightarrow> None
      | Some (j, fa1) \<Rightarrow>
          (case relink_insts p fa1 is of None \<Rightarrow> None | Some (js, fa2) \<Rightarrow> Some (j # js, fa2)))"

fun relink_flow :: "flow \<Rightarrow> nat list \<Rightarrow> flow \<Rightarrow> flow option" where
  "relink_flow p fa [] = Some []"
| "relink_flow p fa (x # xs) =
     (case relink_insts p fa (snd x) of
        None \<Rightarrow> None
      | Some (js, fa1) \<Rightarrow> map_option (Cons (fst x, js)) (relink_flow p fa1 xs))"

definition relink_empty_blocks :: "flow \<Rightarrow> flow option" where
  "relink_empty_blocks p =
     (case link_blocks p [0..<length p] 0 of None \<Rightarrow> None | Some fa \<Rightarrow> relink_flow p fa p)"

definition remove_empty :: "flow \<Rightarrow> flow" where
  "remove_empty p =
     (let dests = set (concat (map (\<lambda>x. branch_targets (snd x)) p)) in
      filter (\<lambda>x. \<not> (snd x = [] \<and> fst x \<notin> dests)) p)"

definition remove_empty_blocks :: "flow \<Rightarrow> flow option" where
  "remove_empty_blocks p = map_option remove_empty (relink_empty_blocks p)"

section \<open>The loop\<close>

fun all_some :: "'a option list \<Rightarrow> 'a list option" where
  "all_some [] = Some []"
| "all_some (x # xs) = (case x of None \<Rightarrow> None | Some y \<Rightarrow> map_option (Cons y) (all_some xs))"

text \<open>\<open>while (eliminate_branch(prog)) remove_empty_blocks(prog);\<close> over the functions of the program.\<close>

partial_function (option) branch_loop :: "flow list \<Rightarrow> flow list option" where
  "branch_loop fs =
     (let rs = map eliminate_branch fs in
      if list_ex snd rs
      then (case all_some (map (\<lambda>r. remove_empty_blocks (fst r)) rs) of None \<Rightarrow> None | Some gs \<Rightarrow> branch_loop gs)
      else Some (map fst rs))"

section \<open>Runs as a relation\<close>

inductive flow_exec :: "arm_env \<Rightarrow> flow \<Rightarrow> flow \<Rightarrow> arm_state \<Rightarrow> arm_state \<Rightarrow> bool" for env p where
  exec_return: "arm_run env is s = Some s' \<Longrightarrow> a_ctl s' = Returned \<Longrightarrow> flow_exec env p ((b, is) # xs) s s'"
| exec_goto: "arm_run env is s = Some s1 \<Longrightarrow> a_ctl s1 = Goto t \<Longrightarrow>
    flow_exec env p (flow_from p t) (s1\<lparr>a_ctl := Fall\<rparr>) s' \<Longrightarrow> flow_exec env p ((b, is) # xs) s s'"
| exec_fall: "arm_run env is s = Some s1 \<Longrightarrow> a_ctl s1 = Fall \<Longrightarrow>
    flow_exec env p xs s1 s' \<Longrightarrow> flow_exec env p ((b, is) # xs) s s'"

inductive_cases flow_execE: "flow_exec env p ((b, is) # xs) s s'"
inductive_cases flow_exec_NilE: "flow_exec env p [] s s'"

lemma flow_exec_run: "flow_exec env p xs s s' \<Longrightarrow> \<exists>n. flow_run env p n xs s = Some s'"
proof (induction rule: flow_exec.induct)
  case (exec_return "is" s s' b xs)
  then have "flow_run env p (Suc 0) ((b, is) # xs) s = Some s'" by simp
  then show ?case by blast
next
  case (exec_goto "is" s s1 t s' b xs)
  then obtain n where "flow_run env p n (flow_from p t) (s1\<lparr>a_ctl := Fall\<rparr>) = Some s'" by blast
  then have "flow_run env p (Suc n) ((b, is) # xs) s = Some s'" using exec_goto.hyps by simp
  then show ?case by blast
next
  case (exec_fall "is" s s1 xs s' b)
  then obtain n where "flow_run env p n xs s1 = Some s'" by blast
  then have "flow_run env p (Suc n) ((b, is) # xs) s = Some s'" using exec_fall.hyps by simp
  then show ?case by blast
qed

lemma flow_run_exec: "flow_run env p n xs s = Some s' \<Longrightarrow> flow_exec env p xs s s'"
proof (induction n arbitrary: xs s)
  case (Suc n)
  then obtain b "is" ys where xs: "xs = (b, is) # ys" by (cases xs) auto
  obtain s1 where s1: "arm_run env is s = Some s1" using Suc.prems by (auto simp: xs split: option.splits)
  show ?case
  proof (cases "a_ctl s1")
    case Fall
    then show ?thesis using Suc s1 by (auto simp: xs intro: exec_fall)
  next
    case (Goto t)
    then show ?thesis using Suc s1 by (auto simp: xs intro: exec_goto)
  next
    case Returned
    then show ?thesis using Suc.prems s1 by (auto simp: xs intro: exec_return)
  qed
qed simp

lemma flow_exec_iff: "flow_exec env p xs s s' \<longleftrightarrow> (\<exists>n. flow_run env p n xs s = Some s')"
  using flow_exec_run flow_run_exec by blast

section \<open>Branch elimination keeps the runs\<close>

text \<open>The blocks are distinct, callees return, returns are unconditional, and no float is compared:
  \<open>vmrs\<close> copies the flags even when \<open>vcmp\<close> is skipped.\<close>

definition no_vcmp :: "inst \<Rightarrow> bool" where
  "no_vcmp i = (case i_op i of FRegRegCmp l r \<Rightarrow> False | _ \<Rightarrow> True)"

definition inst_pre :: "arm_env \<Rightarrow> inst \<Rightarrow> bool" where
  "inst_pre env i = (call_ok env i \<and> plain_return i \<and> no_vcmp i)"

definition flow_pre :: "arm_env \<Rightarrow> flow \<Rightarrow> bool" where
  "flow_pre env p = (distinct (map fst p) \<and> list_all (\<lambda>x. list_all (inst_pre env) (snd x)) p)"

lemma eb_scan_cases:
  assumes "eb_scan p xs = Some ys"
  obtains (next_block) pre b1 is1 b2 is2 rest where "xs = pre @ (b1, is1) # (b2, is2) # rest"
      "eb_next is1 = Some b2" "ys = pre @ (b1, butlast is1) # (b2, is2) # rest"
  | (merge) pre b1 is1 b2 is2 rest where "xs = pre @ (b1, is1) # (b2, is2) # rest"
      "eb_next is1 = None" "eb_in_deg p b2 = 0" "ys = pre @ (b1, is1 @ is2) # (b2, []) # rest"
  | (convert) pre b1 is1 b2 is2 b3 is3 rest c where "xs = pre @ (b1, is1) # (b2, is2) # (b3, is3) # rest"
      "eb_next is1 = Some b3" "eb_ok p b2 is2" "logical_not (i_cond (last is1)) = Some c"
      "ys = pre @ (b1, butlast is1) # (b2, map (set_cond c) is2) # (b3, is3) # rest"
  using assms
proof (induction p xs arbitrary: ys thesis rule: eb_scan.induct)
  case (1 p b1 is1 b2 is2 rest)
  let ?go = "map_option (Cons (b1, is1)) (eb_scan p ((b2, is2) # rest))"
  have go: thesis if e: "?go = Some ys"
  proof -
    obtain zs where zs: "eb_scan p ((b2, is2) # rest) = Some zs" "ys = (b1, is1) # zs" using e by auto
    show thesis
    proof (rule "1.IH" [OF _ _ _ zs(1)])
      fix pre c1 js1 c2 js2 rest'
      assume "(b2, is2) # rest = pre @ (c1, js1) # (c2, js2) # rest'" "eb_next js1 = Some c2"
        "zs = pre @ (c1, butlast js1) # (c2, js2) # rest'"
      then show thesis using "1.prems"(1) [of "(b1, is1) # pre" c1 js1 c2 js2 rest'] zs(2) by simp
    next
      fix pre c1 js1 c2 js2 rest'
      assume "(b2, is2) # rest = pre @ (c1, js1) # (c2, js2) # rest'" "eb_next js1 = None" "eb_in_deg p c2 = 0"
        "zs = pre @ (c1, js1 @ js2) # (c2, []) # rest'"
      then show thesis using "1.prems"(2) [of "(b1, is1) # pre" c1 js1 c2 js2 rest'] zs(2) by simp
    next
      fix pre c1 js1 c2 js2 c3 js3 rest' c
      assume "(b2, is2) # rest = pre @ (c1, js1) # (c2, js2) # (c3, js3) # rest'" "eb_next js1 = Some c3"
        "eb_ok p c2 js2" "logical_not (i_cond (last js1)) = Some c"
        "zs = pre @ (c1, butlast js1) # (c2, map (set_cond c) js2) # (c3, js3) # rest'"
      then show thesis using "1.prems"(3) [of "(b1, is1) # pre" c1 js1 c2 js2 c3 js3 rest' c] zs(2) by simp
    qed
  qed
  consider (a) "eb_next is1 = Some b2" | (b) "eb_next is1 \<noteq> Some b2" "eb_next is1 = None" "eb_in_deg p b2 = 0"
    | (c) "eb_next is1 \<noteq> Some b2" "\<not> (eb_next is1 = None \<and> eb_in_deg p b2 = 0)" by argo
  then show thesis
  proof cases
    case a
    then show thesis using "1.prems"(1) [of "[]"] "1.prems"(4) by simp
  next
    case b
    then show thesis using "1.prems"(2) [of "[]"] "1.prems"(4) by simp
  next
    case c
    show thesis
    proof (cases rest)
      case Nil
      then show thesis using go "1.prems"(4) c by simp
    next
      case (Cons x rest')
      obtain b3 is3 where x: "x = (b3, is3)" by (cases x)
      show thesis
      proof (cases "eb_next is1 = Some b3 \<and> eb_ok p b2 is2 \<and> logical_not (i_cond (last is1)) \<noteq> None")
        case True
        then obtain d where d: "logical_not (i_cond (last is1)) = Some d" by blast
        then show thesis
          using "1.prems"(3) [of "[]" b1 is1 b2 is2 b3 is3 rest' d] "1.prems"(4) c True by (simp add: Cons x)
      next
        case False
        then have "eb_scan p ((b1, is1) # (b2, is2) # rest) = ?go"
          using c by (auto simp: Cons x Let_def split: option.splits)
        then show thesis using go "1.prems"(4) by simp
      qed
    qed
  qed
qed simp_all

text \<open>With distinct blocks, what follows a block is decided.\<close>

lemma suffix_from: "distinct (map fst p) \<Longrightarrow> p = ys @ (b, is) # xs \<Longrightarrow> flow_from p b = (b, is) # xs"
proof -
  assume d: "distinct (map fst p)" and p: "p = ys @ (b, is) # xs"
  have "\<forall>x \<in> set ys. fst x \<noteq> b" using d by (auto simp: p)
  then show ?thesis by (simp add: flow_from_def p dropWhile_append2)
qed

lemma suffix_eq:
  fixes p :: flow
  assumes "distinct (map fst p)" and "p = ys @ (b, is) # xs" and "p = zs @ (b, js) # ws"
  shows "js = is" and "ws = xs"
  using suffix_from [OF assms(1,2)] suffix_from [OF assms(1,3)] by simp_all

lemma flow_from_suffix: "\<exists>ys. p = ys @ flow_from p t"
  unfolding flow_from_def by (metis takeWhile_dropWhile_id)

lemma flow_from_map:
  "(\<And>x. fst (f x) = fst x) \<Longrightarrow> flow_from (map f p) t = map f (flow_from p t)"
  by (induction p) (simp_all add: flow_from_def)

lemma exec_goto_map:
  assumes "\<And>x. fst (f x) = fst x" and "arm_run env is s = Some s1" and "a_ctl s1 = Goto t"
    and "flow_exec env (map f p) (map f (flow_from p t)) (s1\<lparr>a_ctl := Fall\<rparr>) s'"
  shows "flow_exec env (map f p) ((b, is) # xs) s s'"
  using assms by (intro exec_goto [of env "is" s s1 t]) (simp_all add: flow_from_map)

lemma run_list_Cons_iff: "run_list st (i # is) s = Some s' \<longleftrightarrow> (\<exists>s1. st i s = Some s1 \<and> run_list st is s1 = Some s')"
  by (auto split: option.splits)

lemma eb_next_last:
  assumes "eb_next is = Some b"
  obtains c where "is = butlast is @ [Inst c (Branch b)]" and "i_cond (last is) = c"
proof -
  have ne: "is \<noteq> []" and o: "i_op (last is) = Branch b"
    using assms by (auto simp: eb_next_def split: if_splits iop.splits)
  have "last is = Inst (i_cond (last is)) (Branch b)" using o by (cases "last is") auto
  then show thesis using that [of "i_cond (last is)"] ne append_butlast_last_id [OF ne] by metis
qed

text \<open>A run up to a final branch.\<close>

lemma run_branch:
  assumes "arm_run env (is @ [Inst c (Branch b)]) s = Some s1"
  obtains (left) "arm_run env is s = Some s1" "a_ctl s1 \<noteq> Fall"
  | (taken) s0 where "arm_run env is s = Some s0" "a_ctl s0 = Fall" "cond_holds c (a_flags s0)" "s1 = s0\<lparr>a_ctl := Goto b\<rparr>"
  | (passed) "arm_run env is s = Some s1" "a_ctl s1 = Fall" "\<not> cond_holds c (a_flags s1)"
proof -
  obtain s0 where s0: "arm_run env is s = Some s0" "arm_step env (Inst c (Branch b)) s0 = Some s1"
    using run_list_Some_append [OF assms] by (auto split: option.splits)
  then show thesis
    using left taken passed by (auto simp: arm_step_def skip_op_def split: if_splits)
qed

lemma ctl_back: "a_ctl s = Fall \<Longrightarrow> s\<lparr>a_ctl := g, a_ctl := Fall\<rparr> = s"
  by (cases s) simp

lemma next_block_sim:
  assumes d: "distinct (map fst p)" and p: "p = pre @ (b1, is1) # (b2, is2) # rest" and nx: "eb_next is1 = Some b2"
    and f: "f = (\<lambda>x. if fst x = b1 then (b1, butlast is1) else x)"
    and "flow_exec env p xs s s'" and "\<exists>ys. p = ys @ xs"
  shows "flow_exec env (map f p) (map f xs) s s'"
  using assms(5,6)
proof (induction rule: flow_exec.induct)
  case (exec_return "is" s s' b xs)
  show ?case
  proof (cases "b = b1")
    case True
    obtain ys where "p = ys @ (b1, is) # xs" using exec_return.prems True by blast
    from suffix_eq [OF d p this] have i: "is = is1" by simp
    from eb_next_last [OF nx] obtain c where c: "is1 = butlast is1 @ [Inst c (Branch b2)]" by metis
    have "arm_run env (butlast is1 @ [Inst c (Branch b2)]) s = Some s'" using exec_return.hyps(1) i c by simp
    then have "arm_run env (butlast is1) s = Some s'"
      using exec_return.hyps(2) by (cases rule: run_branch) auto
    then show ?thesis using exec_return.hyps(2) True by (auto simp: f intro: flow_exec.exec_return)
  next
    case False
    then show ?thesis using exec_return.hyps by (auto simp: f intro: flow_exec.exec_return)
  qed
next
  case (exec_goto "is" s s1 t s' b xs)
  have fx: "fst (f x) = fst x" for x by (simp add: f)
  have ih: "flow_exec env (map f p) (map f (flow_from p t)) (s1\<lparr>a_ctl := Fall\<rparr>) s'"
    by (rule exec_goto.IH [OF flow_from_suffix])
  show ?case
  proof (cases "b = b1")
    case True
    obtain ys where "p = ys @ (b1, is) # xs" using exec_goto.prems True by blast
    from suffix_eq [OF d p this] have i: "is = is1" "xs = (b2, is2) # rest" by simp_all
    from eb_next_last [OF nx] obtain c where c: "is1 = butlast is1 @ [Inst c (Branch b2)]" by metis
    have "arm_run env (butlast is1 @ [Inst c (Branch b2)]) s = Some s1" using exec_goto.hyps(1) i c by simp
    then show ?thesis
    proof (cases rule: run_branch)
      case left
      have "flow_exec env (map f p) ((b1, butlast is1) # map f xs) s s'"
        by (rule exec_goto_map [OF fx left(1) exec_goto.hyps(2) ih])
      then show ?thesis using True by (simp add: f)
    next
      case (taken s0)
      then have "t = b2" using exec_goto.hyps(2) by simp
      moreover have "flow_from p b2 = (b2, is2) # rest"
        by (rule suffix_from [OF d, of "pre @ [(b1, is1)]"]) (simp add: p)
      ultimately have "flow_exec env (map f p) (map f xs) s0 s'"
        using ih taken ctl_back [OF taken(2)] i by simp
      then show ?thesis using taken(1,2) True by (auto simp: f intro: flow_exec.exec_fall)
    next
      case passed
      then show ?thesis using exec_goto.hyps(2) by simp
    qed
  next
    case False
    have "flow_exec env (map f p) ((b, is) # map f xs) s s'"
      by (rule exec_goto_map [OF fx exec_goto.hyps(1,2) ih])
    then show ?thesis using False by (simp add: f)
  qed
next
  case (exec_fall "is" s s1 xs s' b)
  obtain ys where ys: "p = ys @ (b, is) # xs" using exec_fall.prems by blast
  have ih: "flow_exec env (map f p) (map f xs) s1 s'"
    by (rule exec_fall.IH) (use ys in \<open>auto intro: exI [of _ "ys @ [(b, is)]"]\<close>)
  show ?case
  proof (cases "b = b1")
    case True
    from suffix_eq [OF d p ys [unfolded True]] have i: "is = is1" by simp
    from eb_next_last [OF nx] obtain c where c: "is1 = butlast is1 @ [Inst c (Branch b2)]" by metis
    have "arm_run env (butlast is1 @ [Inst c (Branch b2)]) s = Some s1" using exec_fall.hyps(1) i c by simp
    then have "arm_run env (butlast is1) s = Some s1"
      using exec_fall.hyps(2) by (cases rule: run_branch) auto
    then show ?thesis using exec_fall.hyps(2) ih True by (auto simp: f intro: flow_exec.exec_fall)
  next
    case False
    then show ?thesis using exec_fall.hyps(1,2) ih by (auto simp: f intro: flow_exec.exec_fall)
  qed
qed

lemma pred_eq:
  fixes p :: flow
  assumes "distinct (map fst p)" and "p = ys @ (b, is) # (c, js) # xs" and "p = zs @ (b', is') # (c, js') # ws"
  shows "b = b'"
proof -
  have "ys @ [(b, is)] @ (c, js) # xs = zs @ [(b', is')] @ (c, js) # xs"
    using suffix_eq [OF assms(1), of "ys @ [(b, is)]" c js xs "zs @ [(b', is')]" js' ws] assms(2,3) by simp
  then have "(ys @ [(b, is)]) @ (c, js) # xs = (zs @ [(b', is')]) @ (c, js) # xs" by simp
  then show ?thesis by blast
qed

lemma in_deg_target: "eb_in_deg p b = 0 \<Longrightarrow> (c, is) \<in> set p \<Longrightarrow> b \<notin> set (branch_targets is)"
  by (force simp: eb_in_deg_def count_list_0_iff)

lemma goto_target:
  assumes "flow_pre env p" and "(b, is) \<in> set p" and "arm_run env is s = Some s1" and "a_ctl s = Fall"
    and "a_ctl s1 = Goto t"
  shows "t \<in> set (branch_targets is)"
proof -
  have "list_all (inst_pre env) is" using assms(1,2) by (auto simp: flow_pre_def list_all_iff)
  then have "list_all (call_ok env) is" "list_all plain_return is" by (auto simp: inst_pre_def list_all_iff)
  from run_exit [OF this assms(4,3)] assms(5) show ?thesis by blast
qed

lemma flow_from_hd: "flow_from p t \<noteq> [] \<Longrightarrow> fst (hd (flow_from p t)) = t"
  using hd_dropWhile [of "\<lambda>x. fst x \<noteq> t" p] by (auto simp: flow_from_def)

lemma flow_exec_nonempty: "flow_exec env p xs s s' \<Longrightarrow> xs \<noteq> []"
  by (auto elim: flow_exec_NilE)

lemma merge_sim:
  assumes pre: "flow_pre env p" and p: "p = pre @ (b1, is1) # (b2, is2) # rest" and deg: "eb_in_deg p b2 = 0"
    and f: "f = (\<lambda>x. if fst x = b1 then (b1, is1 @ is2) else if fst x = b2 then (b2, []) else x)"
    and "flow_exec env p xs s s'" and "\<exists>ys. p = ys @ xs" and "a_ctl s = Fall"
  shows "(fst (hd xs) \<noteq> b2 \<longrightarrow> flow_exec env (map f p) (map f xs) s s') \<and>
    (\<forall>u. xs = (b2, is2) # rest \<longrightarrow> arm_run env is1 u = Some s \<longrightarrow> flow_exec env (map f p) (map f ((b1, is1) # xs)) u s')"
  using assms(5-7)
proof (induction rule: flow_exec.induct)
  case (exec_return "is" s s' b xs)
  have d: "distinct (map fst p)" using pre by (simp add: flow_pre_def)
  have "flow_exec env (map f p) (map f ((b, is) # xs)) s s'" if "b \<noteq> b2"
  proof (cases "b = b1")
    case True
    obtain ys where "p = ys @ (b1, is) # xs" using exec_return.prems True by blast
    from suffix_eq [OF d p this] have "is = is1" by simp
    then have "arm_run env (is1 @ is2) s = Some s'"
      using exec_return.hyps by (simp add: run_list_append_Some arm_run_left)
    then show ?thesis using exec_return.hyps(2) True by (auto simp: f intro: flow_exec.exec_return)
  next
    case False
    then show ?thesis using exec_return.hyps that by (auto simp: f intro: flow_exec.exec_return)
  qed
  moreover have "flow_exec env (map f p) (map f ((b1, is1) # (b, is) # xs)) u s'"
    if "(b, is) # xs = (b2, is2) # rest" "arm_run env is1 u = Some s" for u
  proof -
    have "arm_run env (is1 @ is2) u = Some s'" using that exec_return.hyps(1) by (simp add: run_list_append_Some)
    then show ?thesis using exec_return.hyps(2) by (auto simp: f intro: flow_exec.exec_return)
  qed
  ultimately show ?case by auto
next
  case (exec_goto "is" s s1 t s' b xs)
  have d: "distinct (map fst p)" using pre by (simp add: flow_pre_def)
  have fx: "fst (f x) = fst x" for x by (simp add: f)
  obtain ys where ys: "p = ys @ (b, is) # xs" using exec_goto.prems(1) by blast
  have "t \<in> set (branch_targets is)"
    by (rule goto_target [OF pre _ exec_goto.hyps(1) exec_goto.prems(2) exec_goto.hyps(2), of b]) (simp add: ys)
  moreover have "b2 \<notin> set (branch_targets is)" by (rule in_deg_target [OF deg, of b]) (simp add: ys)
  ultimately have "t \<noteq> b2" by blast
  then have ih: "flow_exec env (map f p) (map f (flow_from p t)) (s1\<lparr>a_ctl := Fall\<rparr>) s'"
    using exec_goto.IH [OF flow_from_suffix] flow_from_hd [OF flow_exec_nonempty [OF exec_goto.hyps(3)]] by simp
  have "flow_exec env (map f p) (map f ((b, is) # xs)) s s'" if "b \<noteq> b2"
  proof (cases "b = b1")
    case True
    from suffix_eq [OF d p ys [unfolded True]] have "is = is1" by simp
    then have r: "arm_run env (is1 @ is2) s = Some s1"
      using exec_goto.hyps(1,2) by (simp add: run_list_append_Some arm_run_left)
    have "flow_exec env (map f p) ((b1, is1 @ is2) # map f xs) s s'"
      by (rule exec_goto_map [OF fx r exec_goto.hyps(2) ih])
    then show ?thesis using True by (simp add: f)
  next
    case False
    have "flow_exec env (map f p) ((b, is) # map f xs) s s'"
      by (rule exec_goto_map [OF fx exec_goto.hyps(1,2) ih])
    then show ?thesis using False that by (simp add: f)
  qed
  moreover have "flow_exec env (map f p) (map f ((b1, is1) # (b, is) # xs)) u s'"
    if "(b, is) # xs = (b2, is2) # rest" "arm_run env is1 u = Some s" for u
  proof -
    have r: "arm_run env (is1 @ is2) u = Some s1" using that exec_goto.hyps(1) by (simp add: run_list_append_Some)
    have "flow_exec env (map f p) ((b1, is1 @ is2) # map f ((b, is) # xs)) u s'"
      by (rule exec_goto_map [OF fx r exec_goto.hyps(2) ih])
    then show ?thesis by (simp add: f)
  qed
  ultimately show ?case by auto
next
  case (exec_fall "is" s s1 xs s' b)
  have d: "distinct (map fst p)" using pre by (simp add: flow_pre_def)
  obtain ys where ys: "p = ys @ (b, is) # xs" using exec_fall.prems by blast
  have suf: "\<exists>zs. p = zs @ xs" using ys by (intro exI [of _ "ys @ [(b, is)]"]) simp
  note ih = exec_fall.IH [OF suf exec_fall.hyps(2)]
  have ne: "xs \<noteq> []" by (rule flow_exec_nonempty [OF exec_fall.hyps(3)])
  have pred: "b = b1" if "fst (hd xs) = b2"
  proof -
    have "xs = (b2, snd (hd xs)) # tl xs" using that ne by (cases xs) auto
    then obtain js zs where "xs = (b2, js) # zs" by blast
    then show ?thesis using pred_eq [OF d _ p] ys by blast
  qed
  have "flow_exec env (map f p) (map f ((b, is) # xs)) s s'" if "b \<noteq> b2"
  proof (cases "b = b1")
    case True
    from suffix_eq [OF d p ys [unfolded True]] have "is = is1" "xs = (b2, is2) # rest" by simp_all
    then show ?thesis using ih exec_fall.hyps(1) True by simp
  next
    case False
    then have "flow_exec env (map f p) (map f xs) s1 s'" using ih pred by blast
    then show ?thesis using False that exec_fall.hyps(1,2) by (auto simp: f intro: flow_exec.exec_fall)
  qed
  moreover have "flow_exec env (map f p) (map f ((b1, is1) # (b, is) # xs)) u s'"
    if u: "(b, is) # xs = (b2, is2) # rest" "arm_run env is1 u = Some s" for u
  proof -
    have "b2 \<notin> fst ` set rest" using d by (simp add: p)
    moreover have "hd rest \<in> set rest" using u(1) ne by simp
    ultimately have h: "fst (hd rest) \<noteq> b2" by fastforce
    have ee: "flow_exec env (map f p) ((b2, []) # map f rest) s1 s'"
      by (rule flow_exec.exec_fall [of env "[]" s1 s1]) (use ih h u(1) exec_fall.hyps(2) in auto)
    have r: "arm_run env (is1 @ is2) u = Some s1" using u exec_fall.hyps(1) by (simp add: run_list_append_Some)
    have "b1 \<noteq> b2" using d by (simp add: p)
    then show ?thesis using flow_exec.exec_fall [OF r exec_fall.hyps(2) ee] u(1) by (simp add: f)
  qed
  ultimately show ?case by auto
qed

text \<open>An instruction that does not declare the flags changed keeps them.\<close>

lemma write_word_flags: "write_word a v u = Some u' \<Longrightarrow> a_flags u' = a_flags u"
  by (auto simp: write_word_def split: if_splits)

lemma push_regs_flags: "push_regs rs u = Some u' \<Longrightarrow> a_flags u' = a_flags u"
  by (induction rs arbitrary: u) (auto split: option.splits dest: write_word_flags)

lemma simd_flags: "simd_exec src ty rs s = Some s' \<Longrightarrow> a_flags s' = a_flags s"
proof -
  assume e: "simd_exec src ty rs s = Some s'"
  have l: "vldm_lanes q a is u = Some u' \<Longrightarrow> a_flags u' = a_flags u" for q a "is" u u'
    by (induction "is" arbitrary: u) (fastforce split: option.splits)+
  have v: "vstm_lanes q a is u = Some u' \<Longrightarrow> a_flags u' = a_flags u" for q a "is" u u'
    by (induction "is" arbitrary: u) (fastforce split: option.splits dest: write_word_flags)+
  show ?thesis
    using e
    by (cases ty) (auto simp: simd_exec_def Let_def simp del: vldm_lanes.simps vstm_lanes.simps
        split: option.splits list.splits if_splits dest!: l v)
qed

lemma exec_flags:
  assumes "\<not> op_change_cpsr x" and "exec_op env x s = Some s'"
  shows "a_flags s' = a_flags s"
proof (cases "single_dst x")
  case True
  then show ?thesis using assms(2) by (auto simp: exec_single(1) [OF True])
next
  case False
  then show ?thesis
    using assms by (cases x) (auto simp: single_dst_def clobber_d8_def split: if_splits
        dest: write_word_flags push_regs_flags simd_flags)
qed

lemma convert_skip:
  assumes "list_all no_vcmp is" and "\<not> cond_holds c (a_flags s)" and "a_ctl s = Fall"
  shows "arm_run env (map (set_cond c) is) s = Some s"
  using assms
proof (induction "is")
  case (Cons i "is")
  have "arm_step env (set_cond c i) s = Some s"
    using Cons.prems by (auto simp: arm_step_def set_cond_def skip_op_def no_vcmp_def split: iop.splits)
  then show ?case using Cons by simp
qed simp

lemma convert_run:
  assumes "eb_insts_ok is" and "cond_holds c (a_flags s)" and "a_ctl s = Fall"
  shows "arm_run env (map (set_cond c) is) s = arm_run env is s"
  using assms
proof (induction "is" arbitrary: s)
  case (Cons i "is")
  have a: "i_cond i = Always" using Cons.prems(1) by (simp add: use_cpsr_def)
  then have e: "arm_step env (set_cond c i) s = exec_op env (i_op i) s" "arm_step env i s = exec_op env (i_op i) s"
    using Cons.prems(2,3) by (simp_all add: arm_step_def set_cond_def)
  show ?case
  proof (cases "exec_op env (i_op i) s")
    case (Some s1)
    have "arm_run env (map (set_cond c) is) s1 = arm_run env is s1"
    proof (cases "a_ctl s1 = Fall \<and> is \<noteq> []")
      case True
      then have "\<not> op_change_cpsr (i_op i)" using Cons.prems(1) by (simp add: change_cpsr_def)
      from exec_flags [OF this Some] show ?thesis using Cons True by simp
    next
      case False
      then show ?thesis by (auto simp: arm_run_left)
    qed
    then show ?thesis using e Some by simp
  qed (simp add: e)
qed simp

lemma convert_sim:
  assumes pre: "flow_pre env p" and p: "p = pre @ (b1, is1) # (b2, is2) # (b3, is3) # rest"
    and nx: "eb_next is1 = Some b3" and ok: "eb_ok p b2 is2" and c: "logical_not (i_cond (last is1)) = Some c"
    and f: "f = (\<lambda>x. if fst x = b1 then (b1, butlast is1) else if fst x = b2 then (b2, map (set_cond c) is2) else x)"
    and "flow_exec env p xs s s'" and "\<exists>ys. p = ys @ xs" and "a_ctl s = Fall"
    and "fst (hd xs) = b2 \<longrightarrow> cond_holds c (a_flags s)"
  shows "flow_exec env (map f p) (map f xs) s s'"
  using assms(7-)
proof (induction rule: flow_exec.induct)
  case (exec_return "is" s s' b xs)
  have d: "distinct (map fst p)" using pre by (simp add: flow_pre_def)
  have p2: "p = (pre @ [(b1, is1)]) @ (b2, is2) # (b3, is3) # rest" by (simp add: p)
  obtain ys where ys: "p = ys @ (b, is) # xs" using exec_return.prems(1) by blast
  consider (1) "b = b1" | (2) "b = b2" "b \<noteq> b1" | (3) "b \<noteq> b1" "b \<noteq> b2" by blast
  then show ?case
  proof cases
    case 1
    from suffix_eq [OF d p ys [unfolded 1]] have i: "is = is1" by simp
    from eb_next_last [OF nx] obtain e where e: "is1 = butlast is1 @ [Inst e (Branch b3)]" by metis
    have "arm_run env (butlast is1 @ [Inst e (Branch b3)]) s = Some s'" using exec_return.hyps(1) i e by simp
    then have "arm_run env (butlast is1) s = Some s'"
      using exec_return.hyps(2) by (cases rule: run_branch) auto
    then show ?thesis using exec_return.hyps(2) 1 by (auto simp: f intro: flow_exec.exec_return)
  next
    case 2
    from suffix_eq(1) [OF d p2 ys [unfolded 2(1)]] have "is = is2" .
    then have "arm_run env (map (set_cond c) is2) s = Some s'"
      using convert_run [of is2 c s env] ok exec_return.prems 2 exec_return.hyps(1) by (simp add: eb_ok_def)
    then show ?thesis using exec_return.hyps(2) 2 by (auto simp: f intro: flow_exec.exec_return)
  next
    case 3
    then show ?thesis using exec_return.hyps by (auto simp: f intro: flow_exec.exec_return)
  qed
next
  case (exec_goto "is" s s1 t s' b xs)
  have d: "distinct (map fst p)" using pre by (simp add: flow_pre_def)
  have p2: "p = (pre @ [(b1, is1)]) @ (b2, is2) # (b3, is3) # rest" by (simp add: p)
  have fx: "fst (f x) = fst x" for x by (simp add: f)
  obtain ys where ys: "p = ys @ (b, is) # xs" using exec_goto.prems(1) by blast
  have "t \<in> set (branch_targets is)"
    by (rule goto_target [OF pre _ exec_goto.hyps(1) exec_goto.prems(2) exec_goto.hyps(2), of b]) (simp add: ys)
  moreover have "b2 \<notin> set (branch_targets is)"
    by (rule in_deg_target [of p b2 b]) (use ok in \<open>simp_all add: eb_ok_def ys\<close>)
  ultimately have "t \<noteq> b2" by blast
  then have ih: "flow_exec env (map f p) (map f (flow_from p t)) (s1\<lparr>a_ctl := Fall\<rparr>) s'"
    using exec_goto.IH [OF flow_from_suffix] flow_from_hd [OF flow_exec_nonempty [OF exec_goto.hyps(3)]] by simp
  consider (1) "b = b1" | (2) "b = b2" "b \<noteq> b1" | (3) "b \<noteq> b1" "b \<noteq> b2" by blast
  then show ?case
  proof cases
    case 1
    from suffix_eq [OF d p ys [unfolded 1]] have i: "is = is1" "xs = (b2, is2) # (b3, is3) # rest" by simp_all
    from eb_next_last [OF nx] obtain e where e: "is1 = butlast is1 @ [Inst e (Branch b3)]" "i_cond (last is1) = e" by metis
    have "arm_run env (butlast is1 @ [Inst e (Branch b3)]) s = Some s1" using exec_goto.hyps(1) i e by simp
    then show ?thesis
    proof (cases rule: run_branch)
      case left
      have "flow_exec env (map f p) ((b1, butlast is1) # map f xs) s s'"
        by (rule exec_goto_map [OF fx left(1) exec_goto.hyps(2) ih])
      then show ?thesis using 1 by (simp add: f)
    next
      case (taken s0)
      then have "t = b3" using exec_goto.hyps(2) by simp
      moreover have "flow_from p b3 = (b3, is3) # rest"
        by (rule suffix_from [OF d, of "pre @ [(b1, is1), (b2, is2)]"]) (simp add: p)
      ultimately have ih3: "flow_exec env (map f p) (map f ((b3, is3) # rest)) s0 s'"
        using ih taken ctl_back [OF taken(2)] by simp
      have "\<not> cond_holds c (a_flags s0)"
        using taken(3) cond_holds_not [OF c [unfolded e(2)], of "a_flags s0"] by simp
      moreover have "list_all no_vcmp is2"
        using pre by (auto simp: flow_pre_def p inst_pre_def list_all_iff)
      ultimately have "arm_run env (map (set_cond c) is2) s0 = Some s0" using convert_skip taken(2) by blast
      from flow_exec.exec_fall [OF this taken(2) ih3]
      have "flow_exec env (map f p) ((b2, map (set_cond c) is2) # map f ((b3, is3) # rest)) s0 s'" .
      from flow_exec.exec_fall [OF taken(1,2) this]
      have "flow_exec env (map f p) ((b1, butlast is1) # (b2, map (set_cond c) is2) # map f ((b3, is3) # rest)) s s'" .
      moreover have "b1 \<noteq> b2" using d by (simp add: p)
      ultimately show ?thesis using i(2) 1 by (simp add: f)
    next
      case passed
      then show ?thesis using exec_goto.hyps(2) by simp
    qed
  next
    case 2
    from suffix_eq(1) [OF d p2 ys [unfolded 2(1)]] have "is = is2" .
    then have r: "arm_run env (map (set_cond c) is2) s = Some s1"
      using convert_run [of is2 c s env] ok exec_goto.prems 2 exec_goto.hyps(1) by (simp add: eb_ok_def)
    have "flow_exec env (map f p) ((b2, map (set_cond c) is2) # map f xs) s s'"
      by (rule exec_goto_map [OF fx r exec_goto.hyps(2) ih])
    then show ?thesis using 2 by (simp add: f)
  next
    case 3
    have "flow_exec env (map f p) ((b, is) # map f xs) s s'"
      by (rule exec_goto_map [OF fx exec_goto.hyps(1,2) ih])
    then show ?thesis using 3 by (simp add: f)
  qed
next
  case (exec_fall "is" s s1 xs s' b)
  have d: "distinct (map fst p)" using pre by (simp add: flow_pre_def)
  have p2: "p = (pre @ [(b1, is1)]) @ (b2, is2) # (b3, is3) # rest" by (simp add: p)
  obtain ys where ys: "p = ys @ (b, is) # xs" using exec_fall.prems(1) by blast
  have suf: "\<exists>zs. p = zs @ xs" using ys by (intro exI [of _ "ys @ [(b, is)]"]) simp
  note ih = exec_fall.IH [OF suf exec_fall.hyps(2)]
  have ne: "xs \<noteq> []" by (rule flow_exec_nonempty [OF exec_fall.hyps(3)])
  have pred: "b = b1" if "fst (hd xs) = b2"
  proof -
    have "xs = (b2, snd (hd xs)) # tl xs" using that ne by (cases xs) auto
    then obtain js zs where "xs = (b2, js) # zs" by blast
    then show ?thesis using pred_eq [OF d _ p] ys by blast
  qed
  consider (1) "b = b1" | (2) "b = b2" "b \<noteq> b1" | (3) "b \<noteq> b1" "b \<noteq> b2" by blast
  then show ?case
  proof cases
    case 1
    from suffix_eq [OF d p ys [unfolded 1]] have i: "is = is1" by simp
    from eb_next_last [OF nx] obtain e where e: "is1 = butlast is1 @ [Inst e (Branch b3)]" "i_cond (last is1) = e" by metis
    have "arm_run env (butlast is1 @ [Inst e (Branch b3)]) s = Some s1" using exec_fall.hyps(1) i e by simp
    then have r: "arm_run env (butlast is1) s = Some s1" and "\<not> cond_holds e (a_flags s1)"
      using exec_fall.hyps(2) by (cases rule: run_branch; auto)+
    then have "cond_holds c (a_flags s1)" using cond_holds_not [OF c [unfolded e(2)], of "a_flags s1"] by simp
    then show ?thesis using flow_exec.exec_fall [OF r exec_fall.hyps(2) ih] 1 by (simp add: f)
  next
    case 2
    from suffix_eq(1) [OF d p2 ys [unfolded 2(1)]] have "is = is2" .
    then have r: "arm_run env (map (set_cond c) is2) s = Some s1"
      using convert_run [of is2 c s env] ok exec_fall.prems 2 exec_fall.hyps(1) by (simp add: eb_ok_def)
    have "flow_exec env (map f p) (map f xs) s1 s'" using ih pred 2 by blast
    then show ?thesis using flow_exec.exec_fall [OF r exec_fall.hyps(2)] 2 by (simp add: f)
  next
    case 3
    have "flow_exec env (map f p) (map f xs) s1 s'" using ih pred 3 by blast
    then show ?thesis using flow_exec.exec_fall [OF exec_fall.hyps(1,2)] 3 by (simp add: f)
  qed
qed

text \<open>The three rewritings together.\<close>

definition targets_ok :: "flow \<Rightarrow> bool" where
  "targets_ok p = (\<forall>x \<in> set p. set (branch_targets (snd x)) \<subseteq> fst ` set p)"

definition branches :: "flow \<Rightarrow> nat" where
  "branches p = length (concat (map (\<lambda>x. branch_targets (snd x)) p))"

definition targets :: "flow \<Rightarrow> blk set" where
  "targets p = set (concat (map (\<lambda>x. branch_targets (snd x)) p))"

lemma targets_ok_iff: "targets_ok p \<longleftrightarrow> targets p \<subseteq> fst ` set p"
  by (auto simp: targets_ok_def targets_def)

lemma branch_targets_append [simp]: "branch_targets (xs @ ys) = branch_targets xs @ branch_targets ys"
  by (induction xs) auto

lemma branch_targets_cond [simp]: "branch_targets (map (set_cond c) is) = branch_targets is"
  by (induction "is") (simp_all add: set_cond_def)

lemma targets_butlast:
  assumes "eb_next is = Some b"
  shows "branch_targets is = branch_targets (butlast is) @ [b]"
proof -
  obtain c where "is = butlast is @ [Inst c (Branch b)]" using eb_next_last [OF assms] by metis
  then have "branch_targets is = branch_targets (butlast is @ [Inst c (Branch b)])" by simp
  then show ?thesis by simp
qed

text \<open>What a rewriting does to the branches: one is gone, or a block that is no target is emptied.\<close>

definition eb_progress :: "flow \<Rightarrow> flow \<Rightarrow> bool" where
  "eb_progress p q =
     (map fst q = map fst p \<and> targets q \<subseteq> targets p \<and>
      (branches q < branches p \<or> branches q = branches p \<and> (\<exists>b. (b, []) \<in> set q \<and> b \<notin> targets q)))"

lemma eb_scan_progress:
  assumes "eb_scan p p = Some q"
  shows "eb_progress p q"
  using assms
proof (cases rule: eb_scan_cases)
  case (next_block pre b1 is1 b2 is2 rest)
  then show ?thesis using targets_butlast [OF next_block(2)] by (auto simp: eb_progress_def targets_def branches_def)
next
  case (merge pre b1 is1 b2 is2 rest)
  have "b2 \<notin> targets p" using merge(3) by (simp add: eb_in_deg_def targets_def count_list_0_iff)
  moreover have "targets q = targets p" "branches q = branches p"
    using merge(1,4) by (auto simp: targets_def branches_def)
  ultimately show ?thesis using merge(1,4) by (auto simp: eb_progress_def)
next
  case (convert pre b1 is1 b2 is2 b3 is3 rest c)
  then show ?thesis using targets_butlast [OF convert(2)] by (auto simp: eb_progress_def targets_def branches_def)
qed

lemma inst_pre_cond: "eb_insts_ok is \<Longrightarrow> list_all (inst_pre env) is \<Longrightarrow> list_all (inst_pre env) (map (set_cond c) is)"
proof (induction "is")
  case (Cons i "is")
  then show ?case
    by (cases "i_op i") (auto simp: inst_pre_def call_ok_def plain_return_def no_vcmp_def set_cond_def)
qed simp

lemma map_local:
  fixes p :: flow
  assumes "distinct (map fst p)" and "p = pre @ (b1, is1) # (b2, is2) # rest"
    and "f = (\<lambda>x. if fst x = b1 then (b1, js1) else if fst x = b2 then (b2, js2) else x)"
  shows "map f p = pre @ (b1, js1) # (b2, js2) # rest" and "fst (hd p) \<noteq> b2"
    and "map (\<lambda>x. if fst x = b1 then (b1, js1) else x) p = pre @ (b1, js1) # (b2, is2) # rest"
proof -
  have n: "\<forall>x \<in> set pre. fst x \<noteq> b1 \<and> fst x \<noteq> b2" "\<forall>x \<in> set rest. fst x \<noteq> b1 \<and> fst x \<noteq> b2" "b1 \<noteq> b2"
    using assms(1) by (auto simp: assms(2))
  have "map f pre = pre" "map f rest = rest" using n by (auto simp: assms(3) intro!: map_idI)
  then show "map f p = pre @ (b1, js1) # (b2, js2) # rest" using n(3) by (simp add: assms(2,3))
  show "fst (hd p) \<noteq> b2" using n by (cases pre) (auto simp: assms(2))
  have "map (\<lambda>x. if fst x = b1 then (b1, js1) else x) pre = pre"
    "map (\<lambda>x. if fst x = b1 then (b1, js1) else x) rest = rest" using n by (auto intro!: map_idI)
  then show "map (\<lambda>x. if fst x = b1 then (b1, js1) else x) p = pre @ (b1, js1) # (b2, is2) # rest"
    using n(3) by (simp add: assms(2))
qed

lemma list_all_butlast: "list_all P xs \<Longrightarrow> list_all P (butlast xs)"
  by (auto simp: list_all_iff dest: in_set_butlastD)

lemma eb_scan_sim:
  assumes pre: "flow_pre env p" and q: "eb_scan p p = Some q"
  shows "flow_pre env q \<and>
    (\<forall>s s'. a_ctl s = Fall \<longrightarrow> flow_exec env p p s s' \<longrightarrow> flow_exec env q q s s')"
  using q
proof (cases rule: eb_scan_cases)
  case (next_block pr b1 is1 b2 is2 rest)
  have d: "distinct (map fst p)" using pre by (simp add: flow_pre_def)
  let ?f = "\<lambda>x. if fst x = b1 then (b1, butlast is1) else x"
  have "map ?f p = q"
    using map_local(3) [OF d next_block(1) refl, of "butlast is1"] next_block(3) by simp
  moreover have "flow_pre env q"
    using pre next_block by (auto simp: flow_pre_def intro: list_all_butlast)
  ultimately show ?thesis
    using next_block_sim [OF d next_block(1,2) refl, of env p] by blast
next
  case (merge pr b1 is1 b2 is2 rest)
  have d: "distinct (map fst p)" using pre by (simp add: flow_pre_def)
  note m = map_local(1) [OF d merge(1) refl, of "is1 @ is2" "[]"] map_local(2) [OF d merge(1) refl]
  have "flow_pre env q" using pre merge by (auto simp: flow_pre_def)
  moreover have "flow_exec env q q s s'" if "a_ctl s = Fall" "flow_exec env p p s s'" for s s'
    using merge_sim [OF pre merge(1,3) refl that(2) _ that(1)] m merge(4) by simp
  ultimately show ?thesis by blast
next
  case (convert pr b1 is1 b2 is2 b3 is3 rest c)
  have d: "distinct (map fst p)" using pre by (simp add: flow_pre_def)
  note m = map_local(1) [OF d convert(1) refl, of "butlast is1" "map (set_cond c) is2"] map_local(2) [OF d convert(1) refl]
  have "list_all (inst_pre env) (map (set_cond c) is2)"
    by (rule inst_pre_cond) (use pre convert in \<open>auto simp: flow_pre_def eb_ok_def\<close>)
  then have "flow_pre env q" using pre convert by (auto simp: flow_pre_def intro: list_all_butlast)
  moreover have "flow_exec env q q s s'" if "a_ctl s = Fall" "flow_exec env p p s s'" for s s'
    using convert_sim [OF pre convert(1-4) refl that(2) _ that(1)] m convert(5) by simp
  ultimately show ?thesis by blast
qed

end
