(* ===== verification/ArmEmpty.thy ===== *)
theory ArmEmpty
  imports ArmBranch
begin

text \<open>
  Facts on the removal of empty blocks and on the loop of \<open>afterplay.hpp\<close>: relinking sends a
  branch over empty blocks only, removal keeps every target, the runs stay, and each round of
  the loop removes a branch or a block.
\<close>

section \<open>The table of \<open>relink_empty_blocks\<close>\<close>

definition empties :: "flow \<Rightarrow> nat \<Rightarrow> nat \<Rightarrow> bool" where
  "empties p i r = (\<forall>m. i \<le> m \<longrightarrow> m < r \<longrightarrow> snd (p ! m) = [])"

lemma empties_trans: "empties p i j \<Longrightarrow> empties p j k \<Longrightarrow> empties p i k"
  by (auto simp: empties_def dest: not_le_imp_less)

text \<open>Every entry points forward over empty blocks.\<close>

definition fa_inv :: "flow \<Rightarrow> nat list \<Rightarrow> bool" where
  "fa_inv p fa =
     (length fa = length p \<and> (\<forall>j < length p. j \<le> fa ! j \<and> fa ! j < length p \<and> empties p j (fa ! j)))"

lemma getf_ok:
  assumes "fa_inv p fa" and "i < length p"
  shows "\<exists>r fa'. getf fa i = Some (r, fa') \<and> fa_inv p fa' \<and> i \<le> r \<and> r < length p \<and> empties p i r \<and> fa ! r = r
    \<and> (\<forall>j. fa' ! j = j \<longleftrightarrow> fa ! j = j) \<and> (fa ! i \<noteq> i \<longrightarrow> i < r)"
  using assms(2)
proof (induction "length p - i" arbitrary: i rule: less_induct)
  case less
  have i: "i \<le> fa ! i" "fa ! i < length p" "empties p i (fa ! i)"
    using assms(1) less.prems by (auto simp: fa_inv_def)
  show ?case
  proof (cases "fa ! i = i")
    case True
    then show ?thesis using assms(1) less.prems by (simp add: getf.simps [of fa i] empties_def)
  next
    case False
    then have lt: "i < fa ! i" using i(1) by simp
    then have "length p - fa ! i < length p - i" using less.prems by simp
    from less.hyps [OF this i(2)] obtain r fa' where
      r: "getf fa (fa ! i) = Some (r, fa')" "fa_inv p fa'" "fa ! i \<le> r" "r < length p" "empties p (fa ! i) r"
        "fa ! r = r" "\<forall>j. fa' ! j = j \<longleftrightarrow> fa ! j = j" by blast
    have e: "empties p i r" by (rule empties_trans [OF i(3) r(5)])
    have "fa_inv p (fa'[i := r])"
      using r(2-4) e lt less.prems by (auto simp: fa_inv_def nth_list_update)
    moreover have "(fa'[i := r]) ! j = j \<longleftrightarrow> fa ! j = j" for j
      using r(2,3,7) False lt less.prems by (cases "j = i") (auto simp: fa_inv_def)
    ultimately show ?thesis using r False e lt by (simp add: getf.simps [of fa i])
  qed
qed

lemma getf_root: "fa ! i = i \<Longrightarrow> getf fa i = Some (i, fa)"
  by (simp add: getf.simps [of fa i])

text \<open>The linking: in the end an empty block that is not the last is no root.\<close>

lemma link_blocks_ok:
  assumes "p = ys @ xs" and "fa_inv p fa" and "\<forall>j. length ys \<le> j \<longrightarrow> j < length p \<longrightarrow> fa ! j = j"
    and "\<forall>j < length ys. snd (p ! j) = [] \<and> Suc j < length p \<longrightarrow> fa ! j \<noteq> j"
  shows "\<exists>fa'. link_blocks xs fa (length ys) = Some fa' \<and> fa_inv p fa' \<and>
     (\<forall>j < length p. snd (p ! j) = [] \<and> Suc j < length p \<longrightarrow> fa' ! j \<noteq> j)"
  using assms
proof (induction xs arbitrary: ys fa)
  case (Cons x xs)
  let ?i = "length ys"
  have p: "p = (ys @ [x]) @ xs" and x: "p ! ?i = x" and i: "?i < length p" using Cons.prems(1) by simp_all
  have len: "length fa = length p" using Cons.prems(2) by (simp add: fa_inv_def)
  show ?case
  proof (cases "snd x = [] \<and> xs \<noteq> []")
    case True
    then have i1: "Suc ?i < length p" using Cons.prems(1) by (cases xs) auto
    then have roots: "fa ! Suc ?i = Suc ?i" "fa ! ?i = ?i" using Cons.prems(3) by auto
    let ?fa = "fa[?i := Suc ?i]"
    have inv: "fa_inv p ?fa"
      using Cons.prems(2) i1 True x by (auto simp: fa_inv_def nth_list_update empties_def less_Suc_eq_le dest: le_antisym)
    have "\<forall>j. length (ys @ [x]) \<le> j \<longrightarrow> j < length p \<longrightarrow> ?fa ! j = j" using Cons.prems(3) by simp
    moreover have "\<forall>j < length (ys @ [x]). snd (p ! j) = [] \<and> Suc j < length p \<longrightarrow> ?fa ! j \<noteq> j"
      using Cons.prems(4) i len by (auto simp: nth_list_update less_Suc_eq)
    ultimately show ?thesis
      using Cons.IH [OF p inv] True roots by (simp add: getf_root)
  next
    case False
    have "\<forall>j < length (ys @ [x]). snd (p ! j) = [] \<and> Suc j < length p \<longrightarrow> fa ! j \<noteq> j"
      using Cons.prems(1,4) False x by (auto simp: less_Suc_eq)
    from Cons.IH [OF p Cons.prems(2) _ this] Cons.prems(3) False show ?thesis by auto
  qed
qed auto

lemma fa_init: "fa_inv p [0..<length p]"
  by (simp add: fa_inv_def empties_def)

section \<open>Relinked instructions\<close>

definition final_root :: "flow \<Rightarrow> nat \<Rightarrow> bool" where
  "final_root p r = (r < length p \<and> (snd (p ! r) = [] \<longrightarrow> \<not> Suc r < length p))"

definition relinked_inst :: "flow \<Rightarrow> inst \<Rightarrow> inst \<Rightarrow> bool" where
  "relinked_inst p i j =
     (case i_op i of
        Branch b \<Rightarrow>
          (\<exists>r. block_index p b \<le> r \<and> empties p (block_index p b) r \<and> final_root p r \<and>
             j = Inst (i_cond i) (Branch (fst (p ! r))))
      | _ \<Rightarrow> j = i)"

definition fa_done :: "flow \<Rightarrow> nat list \<Rightarrow> bool" where
  "fa_done p fa = (fa_inv p fa \<and> (\<forall>j < length p. snd (p ! j) = [] \<and> Suc j < length p \<longrightarrow> fa ! j \<noteq> j))"

lemma block_index_lt: "p \<noteq> [] \<Longrightarrow> block_index p b < length p"
proof -
  assume ne: "p \<noteq> []"
  have "length (takeWhile (\<lambda>x. fst x \<noteq> b) p) < length p" if "b \<in> fst ` set p"
  proof -
    have "takeWhile (\<lambda>x. fst x \<noteq> b) p \<noteq> p" using that by (auto simp: takeWhile_eq_all_conv)
    moreover have "length (takeWhile (\<lambda>x. fst x \<noteq> b) p) \<le> length p" by (rule length_takeWhile_le)
    ultimately show ?thesis
      using takeWhile_eq_take [of "\<lambda>x. fst x \<noteq> b" p] by (metis le_neq_implies_less take_all order_refl)
  qed
  then show ?thesis using ne by (simp add: block_index_def)
qed

lemma relink_inst_ok:
  assumes "p \<noteq> []" and "fa_done p fa"
  shows "\<exists>j fa'. relink_inst p fa i = Some (j, fa') \<and> fa_done p fa' \<and> relinked_inst p i j"
proof (cases "\<exists>b. i_op i = Branch b")
  case True
  then obtain b where b: "i_op i = Branch b" by blast
  from getf_ok [OF _ block_index_lt [OF assms(1), of b], of fa] assms(2) obtain r fa' where
    r: "getf fa (block_index p b) = Some (r, fa')" "fa_inv p fa'" "block_index p b \<le> r" "r < length p"
      "empties p (block_index p b) r" "fa ! r = r" "\<forall>j. fa' ! j = j \<longleftrightarrow> fa ! j = j"
    unfolding fa_done_def by blast
  have "fa_done p fa'" using assms(2) r(2,7) by (simp add: fa_done_def)
  moreover have "final_root p r" using assms(2) r(4,6) by (auto simp: fa_done_def final_root_def)
  ultimately show ?thesis using r by (auto simp: relink_inst_def relinked_inst_def b)
next
  case False
  then show ?thesis using assms(2) by (cases "i_op i") (auto simp: relink_inst_def relinked_inst_def)
qed

lemma relink_insts_ok:
  assumes "p \<noteq> []" and "fa_done p fa"
  shows "\<exists>js fa'. relink_insts p fa is = Some (js, fa') \<and> fa_done p fa' \<and> list_all2 (relinked_inst p) is js"
  using assms(2)
proof (induction "is" arbitrary: fa)
  case (Cons i "is")
  from relink_inst_ok [OF assms(1) Cons.prems, of i] obtain j fa1 where
    j: "relink_inst p fa i = Some (j, fa1)" "fa_done p fa1" "relinked_inst p i j" by blast
  from Cons.IH [OF j(2)] j show ?case by auto
qed simp

definition relinked :: "flow \<Rightarrow> flow \<Rightarrow> flow \<Rightarrow> bool" where
  "relinked p xs ys = list_all2 (\<lambda>x y. fst y = fst x \<and> list_all2 (relinked_inst p) (snd x) (snd y)) xs ys"

lemma relink_flow_ok:
  assumes "p \<noteq> []" and "fa_done p fa"
  shows "\<exists>ys. relink_flow p fa xs = Some ys \<and> relinked p xs ys"
  using assms(2)
proof (induction xs arbitrary: fa)
  case (Cons x xs)
  from relink_insts_ok [OF assms(1) Cons.prems, of "snd x"] obtain js fa1 where
    j: "relink_insts p fa (snd x) = Some (js, fa1)" "fa_done p fa1" "list_all2 (relinked_inst p) (snd x) js" by blast
  from Cons.IH [OF j(2)] j show ?case by (auto simp: relinked_def)
qed (simp add: relinked_def)

lemma relink_ok: "\<exists>q. relink_empty_blocks p = Some q \<and> relinked p p q"
proof (cases "p = []")
  case True
  then show ?thesis by (simp add: relink_empty_blocks_def relinked_def)
next
  case False
  from link_blocks_ok [of p "[]" p "[0..<length p]"] fa_init obtain fa where
    fa: "link_blocks p [0..<length p] 0 = Some fa" "fa_done p fa" by (auto simp: fa_done_def)
  from relink_flow_ok [OF False fa(2), of p] fa(1) show ?thesis by (simp add: relink_empty_blocks_def)
qed

section \<open>Runs over relinked branches\<close>

definition rep_of :: "flow \<Rightarrow> blk \<Rightarrow> nat \<Rightarrow> bool" where
  "rep_of p b r = (block_index p b \<le> r \<and> empties p (block_index p b) r \<and> final_root p r)"

lemma relinked_inst_iff:
  "relinked_inst p i j \<longleftrightarrow>
    (case i_op i of Branch b \<Rightarrow> (\<exists>r. rep_of p b r \<and> j = Inst (i_cond i) (Branch (fst (p ! r)))) | _ \<Rightarrow> j = i)"
  by (auto simp: relinked_inst_def rep_of_def split: iop.splits)

definition relinked_state :: "flow \<Rightarrow> arm_state \<Rightarrow> arm_state \<Rightarrow> bool" where
  "relinked_state p s1 s2 =
     ((\<forall>t. a_ctl s1 \<noteq> Goto t) \<and> s2 = s1 \<or>
      (\<exists>t r. a_ctl s1 = Goto t \<and> rep_of p t r \<and> s2 = s1\<lparr>a_ctl := Goto (fst (p ! r))\<rparr>))"

lemma relinked_run:
  assumes "list_all2 (relinked_inst p) is js" and "list_all (call_ok env) is" and "a_ctl s = Fall"
    and "arm_run env is s = Some s1"
  shows "\<exists>s2. arm_run env js s = Some s2 \<and> relinked_state p s1 s2"
  using assms
proof (induction arbitrary: s rule: list_all2_induct)
  case Nil
  then show ?case by (simp add: relinked_state_def)
next
  case (Cons i "is" j js)
  obtain u where u: "arm_step env i s = Some u" "arm_run env is u = Some s1"
    using Cons.prems(3) by (auto split: option.splits)
  show ?case
  proof (cases "\<exists>b. i_op i = Branch b")
    case True
    then obtain b where b: "i_op i = Branch b" by blast
    then obtain r where r: "rep_of p b r" "j = Inst (i_cond i) (Branch (fst (p ! r)))"
      using Cons.hyps(1) by (auto simp: relinked_inst_iff)
    show ?thesis
    proof (cases "cond_holds (i_cond i) (a_flags s)")
      case True
      then have "u = s\<lparr>a_ctl := Goto b\<rparr>" using u(1) b Cons.prems(2) by (simp add: arm_step_def)
      moreover from this have "s1 = u" using u(2) by (simp add: arm_run_left)
      moreover have "arm_run env (j # js) s = Some (s\<lparr>a_ctl := Goto (fst (p ! r))\<rparr>)"
        using True r(2) Cons.prems(2) by (simp add: arm_step_def arm_run_left)
      ultimately show ?thesis using r(1) by (auto simp: relinked_state_def)
    next
      case False
      then have "u = s" "arm_step env j s = Some s"
        using u(1) b r(2) Cons.prems(2) by (simp_all add: arm_step_def skip_op_def)
      then show ?thesis using Cons.IH [of s] Cons.prems u(2) by simp
    qed
  next
    case False
    then have j: "j = i" using Cons.hyps(1) by (auto simp: relinked_inst_iff split: iop.splits)
    show ?thesis
    proof (cases "a_ctl u = Fall")
      case True
      then show ?thesis using Cons.IH [OF _ True u(2)] Cons.prems(1) u(1) by (simp add: j)
    next
      case nf: False
      have "a_ctl u \<noteq> Goto t" for t
        using arm_step_ctl [of env i s u] u(1) Cons.prems nf False
        by (cases "i_op i") (auto simp: arm_step_def skip_op_def split: if_splits)
      moreover have "s1 = u" "arm_run env js u = Some u" using u(2) nf by (simp_all add: arm_run_left)
      ultimately show ?thesis using u(1) by (simp add: j relinked_state_def)
    qed
  qed
qed

lemma flow_from_index: "t \<in> fst ` set p \<Longrightarrow> flow_from p t = drop (block_index p t) p"
  by (simp add: flow_from_def block_index_def dropWhile_eq_drop)

lemma block_index_nth: "distinct (map fst p) \<Longrightarrow> r < length p \<Longrightarrow> block_index p (fst (p ! r)) = r"
proof -
  assume d: "distinct (map fst p)" and r: "r < length p"
  have "p = take r p @ (fst (p ! r), snd (p ! r)) # drop (Suc r) p" using r by (simp add: id_take_nth_drop [symmetric])
  from suffix_from [OF d this] have "flow_from p (fst (p ! r)) = drop r p" using r by (simp add: Cons_nth_drop_Suc)
  moreover have "fst (p ! r) \<in> fst ` set p" using r by simp
  ultimately have "drop (block_index p (fst (p ! r))) p = drop r p" using flow_from_index by metis
  moreover have "block_index p (fst (p ! r)) < length p" by (rule block_index_lt) (use r in auto)
  ultimately have "length p - block_index p (fst (p ! r)) = length p - r" by (metis length_drop)
  with \<open>block_index p (fst (p ! r)) < length p\<close> r show ?thesis by linarith
qed

lemma relinked_ids: "relinked p xs ys \<Longrightarrow> map fst ys = map fst xs"
  unfolding relinked_def by (induction rule: list_all2_induct) auto

lemma relinked_length: "relinked p xs ys \<Longrightarrow> length ys = length xs"
  by (metis relinked_ids length_map)

lemma relinked_nth: "relinked p xs ys \<Longrightarrow> m < length xs \<Longrightarrow> list_all2 (relinked_inst p) (snd (xs ! m)) (snd (ys ! m))"
  by (simp add: relinked_def list_all2_conv_all_nth)

text \<open>Empty blocks are passed.\<close>

lemma exec_over_empty:
  assumes "flow_exec env q (drop i q) s s'" and "empties q i r" and "i \<le> r" and "r \<le> length q" and "a_ctl s = Fall"
  shows "flow_exec env q (drop r q) s s'"
  using assms
proof (induction "r - i" arbitrary: i)
  case (Suc n)
  then have i: "i < length q" "i < r" by simp_all
  have e: "drop i q = (fst (q ! i), []) # drop (Suc i) q"
    using Cons_nth_drop_Suc [OF i(1)] Suc.prems(2) i(2) by (cases "q ! i") (auto simp: empties_def)
  have "flow_exec env q (drop (Suc i) q) s s'"
    using Suc.prems(1,5) unfolding e by (auto elim: flow_execE)
  moreover have "empties q (Suc i) r" using Suc.prems(2) by (simp add: empties_def)
  ultimately show ?case using Suc.hyps(1) [of "Suc i"] Suc.hyps(2) Suc.prems(4,5) i(2) by simp
qed simp

lemma relinked_step:
  assumes rel: "relinked p p q" and pre: "flow_pre env p"
    and run: "arm_run env is s = Some s1" and suf: "\<exists>k. (b, is) # xs = drop k p \<and> k \<le> length p" and ctl: "a_ctl s = Fall"
  obtains s2 js where "drop (length p - length ((b, is) # xs)) q = (b, js) # drop (length p - length xs) q"
    "arm_run env js s = Some s2" "relinked_state p s1 s2" "(b, is) \<in> set p" "\<exists>k. xs = drop k p \<and> k \<le> length p"
proof -
  obtain k where k: "(b, is) # xs = drop k p" "k \<le> length p" using suf by blast
  have kl: "k < length p" using k by (cases "k = length p") auto
  have nth: "p ! k = (b, is)" and xs: "xs = drop (Suc k) p"
    using k(1) Cons_nth_drop_Suc [OF kl] by (metis list.inject)+
  have lq: "length q = length p" by (rule relinked_length [OF rel])
  have "fst (q ! k) = b"
    using relinked_ids [OF rel] kl nth lq by (metis fst_conv nth_map)
  then have q: "drop k q = (b, snd (q ! k)) # drop (Suc k) q"
    using Cons_nth_drop_Suc [of k q] kl lq by (metis prod.collapse)
  have m: "(b, is) \<in> set p" using nth kl by (metis nth_mem)
  have "list_all (call_ok env) is" using pre m by (auto simp: flow_pre_def inst_pre_def list_all_iff)
  moreover have "list_all2 (relinked_inst p) is (snd (q ! k))" using relinked_nth [OF rel kl] nth by simp
  ultimately obtain s2 where "arm_run env (snd (q ! k)) s = Some s2" "relinked_state p s1 s2"
    using relinked_run ctl run by blast
  moreover have "length p - length ((b, is) # xs) = k" "length p - length xs = Suc k"
    using k kl xs by simp_all
  moreover have "\<exists>k. xs = drop k p \<and> k \<le> length p" using xs kl by (intro exI [of _ "Suc k"]) simp
  ultimately show thesis using q m that [of "snd (q ! k)" s2] by simp
qed

lemma relinked_sim:
  assumes rel: "relinked p p q" and pre: "flow_pre env p" and ok: "targets_ok p"
    and "flow_exec env p xs s s'" and "\<exists>k. xs = drop k p \<and> k \<le> length p" and "a_ctl s = Fall"
  shows "flow_exec env q (drop (length p - length xs) q) s s'"
  using assms(4-6)
proof (induction rule: flow_exec.induct)
  case (exec_return "is" s s' b xs)
  from relinked_step [OF rel pre exec_return.hyps(1) exec_return.prems] obtain s2 js where st: "drop (length p - length ((b, is) # xs)) q = (b, js) # drop (length p - length xs) q"
    "arm_run env js s = Some s2" "relinked_state p s' s2" by blast
  then show ?case using exec_return.hyps(2) by (auto simp: relinked_state_def intro: flow_exec.exec_return)
next
  case (exec_goto "is" s s1 t s' b xs)
  from relinked_step [OF rel pre exec_goto.hyps(1) exec_goto.prems] obtain s2 js where st: "drop (length p - length ((b, is) # xs)) q = (b, js) # drop (length p - length xs) q"
    "arm_run env js s = Some s2" "relinked_state p s1 s2" "(b, is) \<in> set p" by blast
  obtain r where r: "rep_of p t r" "s2 = s1\<lparr>a_ctl := Goto (fst (p ! r))\<rparr>"
    using st(3) exec_goto.hyps(2) by (auto simp: relinked_state_def)
  have "t \<in> set (branch_targets is)" by (rule goto_target [OF pre st(4) exec_goto.hyps(1) exec_goto.prems(2) exec_goto.hyps(2)])
  then have t: "t \<in> fst ` set p" using ok st(4) unfolding targets_ok_def by fastforce
  let ?i = "block_index p t"
  have il: "?i < length p" by (rule block_index_lt) (use st(4) in auto)
  have from_t: "flow_from p t = drop ?i p" by (rule flow_from_index [OF t])
  have lq: "length q = length p" by (rule relinked_length [OF rel])
  have rl: "r < length p" "?i \<le> r" "empties p ?i r" using r(1) by (auto simp: rep_of_def final_root_def)
  have suf: "\<exists>k. flow_from p t = drop k p \<and> k \<le> length p" using from_t il by (intro exI [of _ ?i]) simp
  have "empties q ?i r"
    unfolding empties_def
  proof (intro allI impI)
    fix m assume "?i \<le> m" "m < r"
    then show "snd (q ! m) = []" using rl relinked_nth [OF rel, of m] by (simp add: empties_def)
  qed
  moreover have "flow_exec env q (drop ?i q) (s1\<lparr>a_ctl := Fall\<rparr>) s'"
    using exec_goto.IH [OF suf] from_t il by simp
  ultimately have e: "flow_exec env q (drop r q) (s1\<lparr>a_ctl := Fall\<rparr>) s'"
    using exec_over_empty rl lq by simp
  have dq: "distinct (map fst q)" using pre relinked_ids [OF rel] by (simp add: flow_pre_def)
  have fq: "fst (q ! r) = fst (p ! r)" using relinked_ids [OF rel] rl(1) lq by (metis nth_map)
  have "fst (q ! r) \<in> fst ` set q" using rl(1) lq by simp
  then have "flow_from q (fst (p ! r)) = drop r q"
    using flow_from_index [of "fst (q ! r)" q] block_index_nth [OF dq, of r] rl(1) lq fq by simp
  then show ?case
    unfolding st(1) using flow_exec.exec_goto [OF st(2), of "fst (p ! r)" q s'] r(2) e by simp
next
  case (exec_fall "is" s s1 xs s' b)
  from relinked_step [OF rel pre exec_fall.hyps(1) exec_fall.prems] obtain s2 js where st: "drop (length p - length ((b, is) # xs)) q = (b, js) # drop (length p - length xs) q"
    "arm_run env js s = Some s2" "relinked_state p s1 s2" "\<exists>k. xs = drop k p \<and> k \<le> length p" by blast
  have "s2 = s1" using st(3) exec_fall.hyps(2) by (auto simp: relinked_state_def)
  then show ?case unfolding st(1) using flow_exec.exec_fall [OF st(2)] exec_fall.hyps(2) exec_fall.IH [OF st(4)] by simp
qed

section \<open>Removal\<close>

definition kept_block :: "flow \<Rightarrow> blk \<times> inst list \<Rightarrow> bool" where
  "kept_block p x = (\<not> (snd x = [] \<and> fst x \<notin> targets p))"

lemma remove_empty_filter: "remove_empty p = filter (kept_block p) p"
  unfolding remove_empty_def Let_def kept_block_def targets_def by (rule refl)

lemma targets_filter: "targets (filter (kept_block p) xs) = targets xs"
  by (induction xs) (auto simp: targets_def kept_block_def)

lemma branches_filter: "branches (filter (kept_block p) xs) = branches xs"
  by (induction xs) (auto simp: branches_def kept_block_def)

lemma flow_from_filter:
  "t \<in> targets p \<Longrightarrow> flow_from (filter (kept_block p) xs) t = filter (kept_block p) (flow_from xs t)"
  by (induction xs) (auto simp: flow_from_def kept_block_def)

lemma removed_sim:
  assumes pre: "flow_pre env p" and "flow_exec env p xs s s'" and "set xs \<subseteq> set p" and "a_ctl s = Fall"
  shows "flow_exec env (filter (kept_block p) p) (filter (kept_block p) xs) s s'"
  using assms(2-4)
proof (induction rule: flow_exec.induct)
  case (exec_return "is" s s' b xs)
  then have "kept_block p (b, is)" by (auto simp: kept_block_def)
  then show ?case using exec_return by (auto intro: flow_exec.exec_return)
next
  case (exec_goto "is" s s1 t s' b xs)
  have m: "(b, is) \<in> set p" using exec_goto.prems(1) by simp
  have t: "t \<in> targets p"
    using goto_target [OF pre m exec_goto.hyps(1) exec_goto.prems(2) exec_goto.hyps(2)] m by (force simp: targets_def)
  have "set (flow_from p t) \<subseteq> set p" by (auto simp: flow_from_def dest: set_dropWhileD)
  then have ih: "flow_exec env (filter (kept_block p) p) (flow_from (filter (kept_block p) p) t) (s1\<lparr>a_ctl := Fall\<rparr>) s'"
    using exec_goto.IH by (simp add: flow_from_filter [OF t])
  have "kept_block p (b, is)" using exec_goto.hyps(1,2) exec_goto.prems(2) by (auto simp: kept_block_def)
  then show ?case using flow_exec.exec_goto [OF exec_goto.hyps(1,2) ih] by simp
next
  case (exec_fall "is" s s1 xs s' b)
  have ih: "flow_exec env (filter (kept_block p) p) (filter (kept_block p) xs) s1 s'"
    using exec_fall.IH exec_fall.prems(1) exec_fall.hyps(2) by simp
  show ?case
  proof (cases "kept_block p (b, is)")
    case True
    then show ?thesis using flow_exec.exec_fall [OF exec_fall.hyps(1,2) ih] by simp
  next
    case False
    then have "s1 = s" using exec_fall.hyps(1) by (simp add: kept_block_def)
    then show ?thesis using False ih by simp
  qed
qed

text \<open>What both passes keep: the shape of the function and its branches.\<close>

lemma relinked_branch_targets:
  "list_all2 (relinked_inst p) is js \<Longrightarrow>
     list_all2 (\<lambda>t u. \<exists>r. rep_of p t r \<and> u = fst (p ! r)) (branch_targets is) (branch_targets js)"
proof (induction rule: list_all2_induct)
  case (Cons i "is" j js)
  then show ?case by (cases "i_op i") (auto simp: relinked_inst_iff)
qed simp

lemma list_all2_in_right: "list_all2 P xs ys \<Longrightarrow> y \<in> set ys \<Longrightarrow> \<exists>x \<in> set xs. P x y"
  by (induction rule: list_all2_induct) auto

lemma list_all2_in_left: "list_all2 P xs ys \<Longrightarrow> x \<in> set xs \<Longrightarrow> \<exists>y \<in> set ys. P x y"
  by (induction rule: list_all2_induct) auto

lemma relinked_targets:
  assumes "relinked p xs ys"
  shows "branches ys = branches xs" and "u \<in> targets ys \<Longrightarrow> \<exists>t \<in> targets xs. \<exists>r. rep_of p t r \<and> u = fst (p ! r)"
    and "t \<in> targets xs \<Longrightarrow> \<exists>r. rep_of p t r \<and> fst (p ! r) \<in> targets ys"
  using assms unfolding relinked_def
proof (induction rule: list_all2_induct)
  case (Cons x xs y ys)
  have l: "list_all2 (\<lambda>t u. \<exists>r. rep_of p t r \<and> u = fst (p ! r)) (branch_targets (snd x)) (branch_targets (snd y))"
    using Cons.hyps(1) relinked_branch_targets by blast
  have tx: "targets (x # xs) = set (branch_targets (snd x)) \<union> targets xs"
    and ty: "targets (y # ys) = set (branch_targets (snd y)) \<union> targets ys" by (simp_all add: targets_def)
  { case 1 then show ?case using Cons.IH(1) list_all2_lengthD [OF l] by (simp add: branches_def) }
  { case 2 then show ?case using list_all2_in_right [OF l, of u] Cons.IH(2) unfolding tx ty by blast }
  { case 3 then show ?case using list_all2_in_left [OF l, of t] Cons.IH(3) unfolding tx ty by blast }
qed (simp_all add: branches_def targets_def)

lemma relinked_pre_insts: "list_all2 (relinked_inst p) is js \<Longrightarrow> list_all (inst_pre env) is \<Longrightarrow> list_all (inst_pre env) js"
proof (induction rule: list_all2_induct)
  case (Cons i "is" j js)
  then show ?case
    by (cases "i_op i") (auto simp: relinked_inst_iff inst_pre_def call_ok_def plain_return_def no_vcmp_def)
qed simp

lemma relinked_pre:
  assumes "relinked p p q" and "flow_pre env p"
  shows "flow_pre env q"
proof -
  have "list_all (\<lambda>x. list_all (inst_pre env) (snd x)) ys"
    if "relinked p xs ys" "list_all (\<lambda>x. list_all (inst_pre env) (snd x)) xs" for xs ys
    using that unfolding relinked_def
    by (induction rule: list_all2_induct) (auto dest: relinked_pre_insts)
  then show ?thesis using assms relinked_ids [OF assms(1)] by (simp add: flow_pre_def)
qed

section \<open>One round\<close>

definition flow_ok :: "flow \<Rightarrow> bool" where
  "flow_ok p = (distinct (map fst p) \<and> targets_ok p)"

definition keeps_runs :: "flow \<Rightarrow> flow \<Rightarrow> bool" where
  "keeps_runs p q =
     (\<forall>env. flow_pre env p \<longrightarrow> flow_pre env q \<and>
        (\<forall>s s'. a_ctl s = Fall \<longrightarrow> flow_exec env p p s s' \<longrightarrow> flow_exec env q q s s'))"

lemma keeps_refl: "keeps_runs p p" by (simp add: keeps_runs_def)

lemma keeps_trans: "keeps_runs p q \<Longrightarrow> keeps_runs q r \<Longrightarrow> keeps_runs p r"
  unfolding keeps_runs_def by blast

lemma nth_block_index: "t \<in> fst ` set p \<Longrightarrow> fst (p ! block_index p t) = t"
proof -
  assume t: "t \<in> fst ` set p"
  then have ne: "p \<noteq> []" by auto
  have b: "block_index p t = length (takeWhile (\<lambda>x. fst x \<noteq> t) p)" using t by (simp add: block_index_def)
  show ?thesis
    using nth_length_takeWhile [of "\<lambda>x. fst x \<noteq> t" p] block_index_lt [OF ne, of t] by (simp add: b)
qed

lemma relinked_shrinks:
  assumes rel: "relinked p p q" and ok: "flow_ok p" and b: "(b, []) \<in> set p" "b \<notin> targets p"
  shows "\<exists>x \<in> set q. \<not> kept_block q x"
proof -
  have d: "distinct (map fst p)" and t_ok: "targets p \<subseteq> fst ` set p"
    using ok by (simp_all add: flow_ok_def targets_ok_iff)
  have lq: "length q = length p" by (rule relinked_length [OF rel])
  have empty_q: "\<exists>x \<in> set q. fst x = fst (p ! m) \<and> snd x = []" if "m < length p" "snd (p ! m) = []" for m
  proof (intro bexI [of _ "q ! m"] conjI)
    show "fst (q ! m) = fst (p ! m)" using relinked_ids [OF rel] that(1) lq by (metis nth_map)
    show "snd (q ! m) = []" using relinked_nth [OF rel that(1)] that(2) by simp
    show "q ! m \<in> set q" using that(1) lq by simp
  qed
  show ?thesis
  proof (cases "b \<in> targets q")
    case False
    obtain m where "m < length p" "p ! m = (b, [])" using b(1) by (auto simp: in_set_conv_nth)
    then show ?thesis using empty_q [of m] False by (auto simp: kept_block_def)
  next
    case True
    from relinked_targets(2) [OF rel this] obtain t r where t: "t \<in> targets p" "rep_of p t r" "b = fst (p ! r)" by blast
    let ?i = "block_index p t"
    have tin: "t \<in> fst ` set p" using t(1) t_ok by blast
    have "?i \<noteq> r" using nth_block_index [OF tin] t(1,3) b(2) by auto
    then have i: "?i < r" "r < length p" "snd (p ! ?i) = []"
      using t(2) by (auto simp: rep_of_def empties_def final_root_def)
    have "t \<notin> targets q"
    proof
      assume "t \<in> targets q"
      from relinked_targets(2) [OF rel this] obtain r' where r': "final_root p r'" "t = fst (p ! r')"
        by (auto simp: rep_of_def)
      then have "?i = r'" using block_index_nth [OF d, of r'] by (simp add: final_root_def)
      then show False using r'(1) i by (simp add: final_root_def)
    qed
    then show ?thesis using empty_q [of ?i] i nth_block_index [OF tin] by (auto simp: kept_block_def)
  qed
qed

lemma remove_empty_blocks_ok:
  assumes "flow_ok p"
  shows "\<exists>q. remove_empty_blocks p = Some q \<and> flow_ok q \<and> branches q = branches p \<and> length q \<le> length p \<and>
    ((\<exists>b. (b, []) \<in> set p \<and> b \<notin> targets p) \<longrightarrow> length q < length p) \<and> keeps_runs p q"
proof -
  from relink_ok [of p] obtain z where z: "relink_empty_blocks p = Some z" "relinked p p z" by blast
  let ?q = "filter (kept_block z) z"
  have r: "remove_empty_blocks p = Some ?q" using z(1) by (simp add: remove_empty_blocks_def remove_empty_filter)
  have ids: "map fst z = map fst p" by (rule relinked_ids [OF z(2)])
  have d: "distinct (map fst z)" using assms ids by (simp add: flow_ok_def)
  have tz: "targets z \<subseteq> fst ` set z"
  proof
    fix u assume "u \<in> targets z"
    from relinked_targets(2) [OF z(2) this] obtain r where "u = fst (p ! r)" "r < length p"
      by (auto simp: rep_of_def final_root_def)
    then have "u \<in> set (map fst p)" by simp
    then show "u \<in> fst ` set z" using ids by (metis set_map)
  qed
  have "targets_ok ?q"
    unfolding targets_ok_iff targets_filter
    using tz by (auto simp: kept_block_def image_iff)
  moreover have "distinct (map fst ?q)" using d by (simp add: distinct_map_filter)
  moreover have "branches ?q = branches p" using relinked_targets(1) [OF z(2)] by (simp add: branches_filter)
  moreover have le: "length ?q \<le> length p" using relinked_length [OF z(2)] length_filter_le [of "kept_block z" z] by simp
  moreover have "length ?q < length p" if b: "(b, []) \<in> set p" "b \<notin> targets p" for b
  proof -
    obtain x where "x \<in> set z" "\<not> kept_block z x" using relinked_shrinks [OF z(2) assms b] by blast
    from length_filter_less [of x z "kept_block z", OF this] show ?thesis using relinked_length [OF z(2)] by simp
  qed
  moreover have "keeps_runs p ?q"
    unfolding keeps_runs_def
  proof (intro allI impI)
    fix env assume pre: "flow_pre env p"
    note prez = relinked_pre [OF z(2) pre]
    have "flow_pre env ?q" using prez by (auto simp: flow_pre_def distinct_map_filter list_all_iff)
    moreover have "flow_exec env ?q ?q s s'" if "a_ctl s = Fall" "flow_exec env p p s s'" for s s'
    proof -
      have "flow_exec env z (drop (length p - length p) z) s s'"
        by (rule relinked_sim [OF z(2) pre _ that(2) _ that(1)]) (use assms in \<open>auto simp: flow_ok_def intro: exI [of _ 0]\<close>)
      then have "flow_exec env z z s s'" by simp
      from removed_sim [OF prez this order_refl that(1)] show ?thesis .
    qed
    ultimately show "flow_pre env ?q \<and> (\<forall>s s'. a_ctl s = Fall \<longrightarrow> flow_exec env p p s s' \<longrightarrow> flow_exec env ?q ?q s s')"
      by blast
  qed
  ultimately show ?thesis using r by (auto simp: flow_ok_def)
qed

text \<open>A round on one function: a branch or a block is gone when the elimination found something.\<close>

definition round_ok :: "flow \<Rightarrow> flow \<Rightarrow> bool" where
  "round_ok p q =
     (flow_ok q \<and> keeps_runs p q \<and> branches q \<le> branches p \<and> (branches q = branches p \<longrightarrow> length q \<le> length p) \<and>
      (snd (eliminate_branch p) \<longrightarrow> branches q < branches p \<or> length q < length p))"

lemma round_step:
  assumes "flow_ok p"
  shows "\<exists>q. remove_empty_blocks (fst (eliminate_branch p)) = Some q \<and> round_ok p q"
proof (cases "eb_scan p p")
  case None
  then show ?thesis
    using remove_empty_blocks_ok [OF assms] by (auto simp: eliminate_branch_def round_ok_def)
next
  case (Some q)
  have pr: "eb_progress p q" by (rule eb_scan_progress [OF Some])
  have ok: "flow_ok q"
  proof -
    have m: "map fst q = map fst p" "targets q \<subseteq> targets p" using pr by (auto simp: eb_progress_def)
    then have "fst ` set q = fst ` set p" by (metis set_map)
    then show ?thesis using assms m by (auto simp: flow_ok_def targets_ok_iff)
  qed
  have keep: "keeps_runs p q" unfolding keeps_runs_def using eb_scan_sim [OF _ Some] by blast
  have len: "length q = length p" using pr by (metis eb_progress_def length_map)
  from remove_empty_blocks_ok [OF ok] obtain z where z: "remove_empty_blocks q = Some z" "flow_ok z"
    "branches z = branches q" "length z \<le> length q" "(\<exists>b. (b, []) \<in> set q \<and> b \<notin> targets q) \<longrightarrow> length z < length q"
    "keeps_runs q z" by blast
  have "round_ok p z"
    using z(2-5) keeps_trans [OF keep z(6)] pr len by (auto simp: round_ok_def eb_progress_def)
  then show ?thesis using z(1) by (simp add: eliminate_branch_def Some)
qed

section \<open>The loop ends\<close>

lemma all_some_round:
  "list_all flow_ok fs \<Longrightarrow>
    \<exists>gs. all_some (map (\<lambda>r. remove_empty_blocks (fst r)) (map eliminate_branch fs)) = Some gs \<and> list_all2 round_ok fs gs"
proof (induction fs)
  case (Cons f fs)
  from Cons obtain gs where gs: "all_some (map (\<lambda>r. remove_empty_blocks (fst r)) (map eliminate_branch fs)) = Some gs"
    "list_all2 round_ok fs gs" by auto
  from round_step [of f] Cons.prems obtain g where "remove_empty_blocks (fst (eliminate_branch f)) = Some g" "round_ok f g" by auto
  then show ?case using gs by simp
qed simp

definition loop_rank :: "flow list \<Rightarrow> nat \<times> nat" where
  "loop_rank fs = (sum_list (map branches fs), sum_list (map length fs))"

lemma round_rank:
  assumes "list_all2 round_ok fs gs"
  shows "sum_list (map branches gs) \<le> sum_list (map branches fs)"
    and "sum_list (map branches gs) = sum_list (map branches fs) \<longrightarrow>
      sum_list (map length gs) \<le> sum_list (map length fs) \<and>
      (list_ex (\<lambda>f. snd (eliminate_branch f)) fs \<longrightarrow> sum_list (map length gs) < sum_list (map length fs))"
  using assms
proof (induction rule: list_all2_induct)
  case (Cons f fs g gs)
  { case 1 then show ?case using Cons by (simp add: round_ok_def) }
  { case 2 then show ?case using Cons by (auto simp: round_ok_def) }
qed simp_all

lemma branch_loop_ok:
  "list_all flow_ok fs \<Longrightarrow> \<exists>gs. branch_loop fs = Some gs \<and> list_all2 keeps_runs fs gs \<and> list_all flow_ok gs \<and>
     list_all (\<lambda>p. eb_scan p p = None) gs"
proof (induction fs rule: wf_induct_rule [OF wf_inv_image [OF wf_lex_prod [OF wf_less_than wf_less_than], of loop_rank]])
  case (1 fs)
  have done_iff: "snd (eliminate_branch f) \<longleftrightarrow> eb_scan f f \<noteq> None" for f
    by (simp add: eliminate_branch_def split: option.split)
  show ?case
  proof (cases "list_ex (\<lambda>f. snd (eliminate_branch f)) fs")
    case True
    from all_some_round [OF 1(2)] obtain gs where
      gs: "all_some (map (\<lambda>r. remove_empty_blocks (fst r)) (map eliminate_branch fs)) = Some gs" "list_all2 round_ok fs gs" by blast
    have "(gs, fs) \<in> inv_image (less_than <*lex*> less_than) loop_rank"
      using round_rank [OF gs(2)] True by (auto simp: loop_rank_def)
    moreover have ok: "list_all flow_ok gs" using gs(2) by (induction rule: list_all2_induct) (auto simp: round_ok_def)
    ultimately obtain hs where hs: "branch_loop gs = Some hs" "list_all2 keeps_runs gs hs" "list_all flow_ok hs"
      "list_all (\<lambda>p. eb_scan p p = None) hs" using 1(1) by blast
    have "list_all2 keeps_runs fs gs" using gs(2) by (rule list_all2_mono) (simp add: round_ok_def)
    then have "list_all2 keeps_runs fs hs" using hs(2) by (rule list_all2_trans [rotated]) (rule keeps_trans)
    moreover have "branch_loop fs = Some hs"
      using gs(1) True hs(1) by (simp add: branch_loop.simps [of fs] list_ex_iff comp_def)
    ultimately show ?thesis using hs by blast
  next
    case False
    then have n: "\<forall>f \<in> set fs. eb_scan f f = None" by (simp add: list_ex_iff done_iff)
    then have "map (\<lambda>f. fst (eliminate_branch f)) fs = fs" by (auto simp: eliminate_branch_def intro: map_idI)
    then have "branch_loop fs = Some fs"
      using False by (simp add: branch_loop.simps [of fs] list_ex_iff comp_def)
    then show ?thesis using 1(2) n by (auto simp: list_all_iff intro: list_all2_refl keeps_refl)
  qed
qed

end
