(* ===== verification/Select.thy ===== *)
theory Select
  imports IRExecFacts ArmFlow
begin

text \<open>
  Instruction selection: \<open>Block::construct\<close> (\<open>src/arm/block.cpp\<close>), the numbering of registers in
  \<open>MappingInfo\<close> (\<open>src/arm/program.cpp\<close>) and the parameters of a function (\<open>handle_params\<close>,
  \<open>src/arm/func.cpp\<close>). Every register is made with the integer type; which ones hold floats is
  collected on the way and written into the instructions at the end of the construction.
\<close>

section \<open>The state of the selection\<close>

record cmp_info =
  ci_cond :: inst_cond
  ci_lhs :: areg
  ci_rhs :: areg
  ci_float :: bool

record sel_state =
  sl_reg_n :: int
  sl_regs :: "int \<Rightarrow> areg option"
  sl_float :: "areg set"
  sl_maybe :: "areg \<Rightarrow> areg list"
  sl_constant :: "areg \<Rightarrow> w32 option"
  sl_symbol :: "areg \<Rightarrow> string option"
  sl_stack_addr :: "areg \<Rightarrow> (obj \<times> w32) option"
  sl_cmp :: "areg \<Rightarrow> cmp_info option"
  sl_insts :: "inst list"
  sl_edges :: "(blk \<times> blk) list"

text \<open>What the selection of a block reads: the mappings of objects and blocks, the objects
  themselves, the registers of the parameters, the block, the one after it and its thread.\<close>

record sel_ctx =
  sc_obj :: "obj_key \<Rightarrow> obj option"
  sc_block :: "bb_key \<Rightarrow> blk option"
  sc_mem :: "obj_key \<Rightarrow> mem_object option"
  sc_args :: "areg list"
  sc_this :: blk
  sc_next :: "blk option"
  sc_thread :: int

definition init_mapping :: sel_state where
  "init_mapping =
     \<lparr>sl_reg_n = max int_count float_count, sl_regs = Map.empty, sl_float = {}, sl_maybe = (\<lambda>_. []),
      sl_constant = Map.empty, sl_symbol = Map.empty, sl_stack_addr = Map.empty, sl_cmp = Map.empty,
      sl_insts = [], sl_edges = []\<rparr>"

definition arm_new_reg :: "sel_state \<Rightarrow> areg \<times> sel_state" where
  "arm_new_reg st = (AReg IntT (sl_reg_n st), st\<lparr>sl_reg_n := sl_reg_n st + 1\<rparr>)"

definition from_ir_reg :: "int \<Rightarrow> sel_state \<Rightarrow> areg \<times> sel_state" where
  "from_ir_reg x st =
     (case sl_regs st x of
        Some r \<Rightarrow> (r, st)
      | None \<Rightarrow> (let (r, st1) = arm_new_reg st in (r, st1\<lparr>sl_regs := (sl_regs st1)(x \<mapsto> r)\<rparr>)))"

text \<open>\<open>set_float\<close>: a register that becomes a float passes this on to the registers it is assigned
  to or from. The list is the loop over them.\<close>

partial_function (option) set_floats :: "areg list \<Rightarrow> sel_state \<Rightarrow> sel_state option" where
  "set_floats rs st =
     (case rs of
        [] \<Rightarrow> Some st
      | r # rest \<Rightarrow>
          if r \<in> sl_float st then set_floats rest st
          else do { st1 \<leftarrow> set_floats (sl_maybe st r) (st\<lparr>sl_float := insert r (sl_float st)\<rparr>);
                    set_floats rest (st1\<lparr>sl_maybe := (sl_maybe st1)(r := [])\<rparr>) })"

declare set_floats.simps [code]

definition set_float :: "areg \<Rightarrow> sel_state \<Rightarrow> sel_state option" where
  "set_float r st = set_floats [r] st"

definition set_maybe_float_assign :: "areg \<Rightarrow> areg \<Rightarrow> sel_state \<Rightarrow> sel_state option" where
  "set_maybe_float_assign r1 r2 st =
     (if r1 \<in> sl_float st \<or> r2 \<in> sl_float st
      then do { st1 \<leftarrow> set_float r1 st; set_float r2 st1 }
      else Some (let m1 = (sl_maybe st)(r1 := sl_maybe st r1 @ [r2]) in
                 st\<lparr>sl_maybe := m1(r2 := m1 r2 @ [r1])\<rparr>))"

definition emit :: "inst list \<Rightarrow> sel_state \<Rightarrow> sel_state" where
  "emit is st = st\<lparr>sl_insts := sl_insts st @ is\<rparr>"

definition arg_reg :: "scalar_type \<Rightarrow> nat \<Rightarrow> areg" where
  "arg_reg ty k = AReg ty (argument_registers ! k)"

section \<open>Parameters\<close>

text \<open>\<open>handle_params\<close>: a parameter comes in a register, or lies in the caller's frame; \<open>k\<close> is the key
  of the next stack object. The result adds the registers of the parameters and the keys.\<close>

fun handle_params ::
  "scalar_type list \<Rightarrow> nat \<Rightarrow> nat \<Rightarrow> obj \<Rightarrow> sel_state \<Rightarrow> (areg list \<times> obj list \<times> sel_state) option" where
  "handle_params [] ni nf k st = Some ([], [], st)"
| "handle_params (ty # tys) ni nf k st =
     (let (r, st1) = arm_new_reg st in
      if ty = IntT then
        (if ni < argument_register_count
         then map_option (\<lambda>(rs, ks, st'). (r # rs, ks, st'))
                (handle_params tys (ni + 1) nf k (emit [Inst Always (MoveReg r (arg_reg IntT ni))] st1))
         else map_option (\<lambda>(rs, ks, st'). (r # rs, k # ks, st'))
                (handle_params tys (ni + 1) nf (k + 1) (emit [Inst Always (LoadStack r 0 k)] st1)))
      else if ty = FloatT then
        do { st2 \<leftarrow> set_float r st1;
             if nf < argument_register_count
             then map_option (\<lambda>(rs, ks, st'). (r # rs, ks, st'))
                    (handle_params tys ni (nf + 1) k (emit [Inst Always (MoveReg r (arg_reg FloatT nf))] st2))
             else map_option (\<lambda>(rs, ks, st'). (r # rs, k # ks, st'))
                    (handle_params tys ni (nf + 1) (k + 1) (emit [Inst Always (LoadStack r 0 k)] st2)) }
      else None)"

section \<open>Operators\<close>

definition select_unary :: "int \<Rightarrow> int \<Rightarrow> unary_compute \<Rightarrow> sel_state \<Rightarrow> sel_state option" where
  "select_unary d s u st =
     (let (dst, st1) = from_ir_reg d st; (src, st2) = from_ir_reg s st1 in
      case u of
        LNOT \<Rightarrow> Some (emit [Inst Always (MoveImm Mov dst 0), Inst Always (RegImmCmp Cmp src 0),
                           Inst Eq (MoveImm Mov dst 1)] st2)
      | NEG \<Rightarrow> Some (emit [Inst Always (RegImmInst IRevSub dst src 0)] st2)
      | FNEG \<Rightarrow> do { st3 \<leftarrow> set_float dst st2; st4 \<leftarrow> set_float src st3;
                    Some (emit [Inst Always (FRegInst FrNeg dst src)] st4) }
      | ID \<Rightarrow> do { st3 \<leftarrow> set_maybe_float_assign dst src st2; Some (emit [Inst Always (MoveReg dst src)] st3) }
      | I2F \<Rightarrow> (let (tmp, st3) = arm_new_reg st2 in
               do { st4 \<leftarrow> set_float dst st3; st5 \<leftarrow> set_float tmp st4;
                    Some (emit [Inst Always (MoveReg tmp src), Inst Always (FRegInst FrI2F dst tmp)] st5) })
      | F2I \<Rightarrow> (let (tmp, st3) = arm_new_reg st2 in
               do { st4 \<leftarrow> set_float src st3; st5 \<leftarrow> set_float tmp st4;
                    Some (emit [Inst Always (FRegInst FrF2I tmp src), Inst Always (MoveReg dst tmp)] st5) })
      | F2D0 \<Rightarrow> do { st3 \<leftarrow> set_float dst st2; st4 \<leftarrow> set_float src st3;
                    Some (emit [Inst Always (FRegInst FrF2D0 dst src)] st4) }
      | F2D1 \<Rightarrow> do { st3 \<leftarrow> set_float dst st2; st4 \<leftarrow> set_float src st3;
                    Some (emit [Inst Always (FRegInst FrF2D1 dst src)] st4) })"

text \<open>A comparison gives 0 or 1, and is remembered for the branch on it.\<close>

definition select_compare :: "areg \<Rightarrow> areg \<Rightarrow> areg \<Rightarrow> inst_cond \<Rightarrow> bool \<Rightarrow> sel_state \<Rightarrow> sel_state" where
  "select_compare dst s1 s2 c fl st =
     emit [Inst Always (MoveImm Mov dst 0),
           Inst Always (if fl then FRegRegCmp s1 s2 else RegRegCmp Cmp s1 s2),
           Inst c (MoveImm Mov dst 1)]
       (st\<lparr>sl_cmp := (sl_cmp st)(dst \<mapsto> \<lparr>ci_cond = c, ci_lhs = s1, ci_rhs = s2, ci_float = fl\<rparr>)\<rparr>)"

definition select_binary :: "int \<Rightarrow> int \<Rightarrow> int \<Rightarrow> binary_compute \<Rightarrow> sel_state \<Rightarrow> sel_state option" where
  "select_binary d a b op st =
     (let (dst, st1) = from_ir_reg d st; (s1, st2) = from_ir_reg a st1; (s2, st3) = from_ir_reg b st2 in
      if op \<in> {ADD, SUB, MUL, DIV, MOD} then
        map_option (\<lambda>x. emit [Inst Always (RegRegInst x dst s1 s2 no_shift)] st3) (rr_op_of_ir op)
      else if op \<in> {FADD, FSUB, FMUL, FDIV} then
        do { st4 \<leftarrow> set_float dst st3; st5 \<leftarrow> set_float s1 st4; st6 \<leftarrow> set_float s2 st5;
             map_option (\<lambda>x. emit [Inst Always (FRegRegInst x dst s1 s2)] st6) (frr_op_of_ir op) }
      else if op \<in> {LESS, LEQ, EQ, NEQ} then
        map_option (\<lambda>c. select_compare dst s1 s2 c False st3) (cond_of_ir op)
      else if op \<in> {FLESS, FLEQ, FEQ, FNEQ} then
        do { st4 \<leftarrow> set_float s1 st3; st5 \<leftarrow> set_float s2 st4;
             map_option (\<lambda>c. select_compare dst s1 s2 c True st5) (cond_of_ir op) }
      else None)"

definition select_array_index :: "int \<Rightarrow> int \<Rightarrow> int \<Rightarrow> w32 \<Rightarrow> sel_state \<Rightarrow> sel_state" where
  "select_array_index d a b sz st =
     (let (dst, st1) = from_ir_reg d st; (s1, st2) = from_ir_reg a st1; (s2, st3) = from_ir_reg b st2;
          short = (case sl_constant st3 s2 of
                     Some c \<Rightarrow> if is_legal_immediate (c * sz) then Some (c * sz) else None
                   | None \<Rightarrow> None) in
      case short of
        Some v2 \<Rightarrow> emit [Inst Always (RegImmInst IAdd dst s1 v2)] st3
      | None \<Rightarrow>
          (if sz = 4 then emit [Inst Always (RegRegInst RAdd dst s1 s2 (Shift LSL 2))] st3
           else (let (step, st4) = arm_new_reg st3 in
                 emit (load_imm step sz @ [Inst Always (MLInst Mla dst s2 step s1)]) st4)))"

section \<open>Addresses and memory\<close>

definition select_load_addr :: "sel_ctx \<Rightarrow> int \<Rightarrow> obj_key \<Rightarrow> sel_state \<Rightarrow> sel_state option" where
  "select_load_addr cx d k st =
     (let (dst, st1) = from_ir_reg d st in
      do { m \<leftarrow> sc_mem cx k;
           if mo_global m
           then do { nm \<leftarrow> mangle_global_var_name (mo_name m);
                     (let st2 = emit (load_symbol_addr dst nm) st1 in
                      Some (st2\<lparr>sl_symbol := (sl_symbol st2)(dst \<mapsto> nm)\<rparr>)) }
           else do { ob \<leftarrow> sc_obj cx k;
                     (let st2 = emit [Inst Always (LoadStackAddr dst 0 ob)] st1 in
                      Some (st2\<lparr>sl_stack_addr := (sl_stack_addr st2)(dst \<mapsto> (ob, 0))\<rparr>)) } })"

definition select_const_int :: "int \<Rightarrow> w32 \<Rightarrow> sel_state \<Rightarrow> sel_state" where
  "select_const_int d v st =
     (let (dst, st1) = from_ir_reg d st in
      emit (load_imm dst v) (st1\<lparr>sl_constant := (sl_constant st1)(dst \<mapsto> v)\<rparr>))"

definition select_const_float :: "int \<Rightarrow> w32 \<Rightarrow> sel_state \<Rightarrow> sel_state" where
  "select_const_float d v st =
     (let (tmp, st1) = arm_new_reg st; (dst, st2) = from_ir_reg d st1 in
      emit (load_imm tmp v @ [Inst Always (MoveReg dst tmp)]) (st2\<lparr>sl_constant := (sl_constant st2)(tmp \<mapsto> v)\<rparr>))"

definition select_load_arg :: "sel_ctx \<Rightarrow> scalar_type \<Rightarrow> int \<Rightarrow> int \<Rightarrow> sel_state \<Rightarrow> sel_state option" where
  "select_load_arg cx ty d i st =
     (let (dst, st1) = from_ir_reg d st in
      if 0 \<le> i \<and> nat i < length (sc_args cx) \<and> (ty = IntT \<or> ty = FloatT)
      then do { st2 \<leftarrow> (if ty = FloatT then set_float dst st1 else Some st1);
                Some (emit [Inst Always (MoveReg dst (sc_args cx ! nat i))] st2) }
      else None)"

text \<open>An index register replaces the constant offset.\<close>

definition select_load :: "int \<Rightarrow> int \<Rightarrow> w32 \<Rightarrow> int option \<Rightarrow> sel_state \<Rightarrow> sel_state" where
  "select_load d a off ro st =
     (let (dst, st1) = from_ir_reg d st; (addr, st2) = from_ir_reg a st1 in
      case ro of
        Some x \<Rightarrow> (let (offset, st3) = from_ir_reg x st2 in
                   emit [Inst Always (ComplexLoad dst addr offset (Shift LSL 2))] st3)
      | None \<Rightarrow> emit [Inst Always (Load dst addr off)] st2)"

definition select_store :: "int \<Rightarrow> int \<Rightarrow> w32 \<Rightarrow> int option \<Rightarrow> sel_state \<Rightarrow> sel_state" where
  "select_store a s off ro st =
     (let (addr, st1) = from_ir_reg a st; (src, st2) = from_ir_reg s st1 in
      case ro of
        Some x \<Rightarrow> (let (offset, st3) = from_ir_reg x st2 in
                   emit [Inst Always (ComplexStore src addr offset (Shift LSL 2))] st3)
      | None \<Rightarrow> emit [Inst Always (Store src addr off)] st2)"

definition select_simd :: "simd_type \<Rightarrow> int option \<Rightarrow> nat list \<Rightarrow> nat \<Rightarrow> sel_state \<Rightarrow> sel_state" where
  "select_simd ty s rs n st =
     (case s of
        Some x \<Rightarrow> (let (src, st1) = from_ir_reg x st in emit [Inst Always (SIMD (Some src) ty rs n)] st1)
      | None \<Rightarrow> emit [Inst Always (SIMD None ty rs n)] st)"

section \<open>Control\<close>

definition add_block_edge :: "sel_ctx \<Rightarrow> blk \<Rightarrow> sel_state \<Rightarrow> sel_state" where
  "add_block_edge cx t st = st\<lparr>sl_edges := sl_edges st @ [(sc_this cx, t)]\<rparr>"

definition select_jump :: "sel_ctx \<Rightarrow> bb_key \<Rightarrow> sel_state \<Rightarrow> sel_state option" where
  "select_jump cx t st =
     do { b \<leftarrow> sc_block cx t;
          Some (add_block_edge cx b (emit (if sc_next cx \<noteq> Some b then [Inst Always (Branch b)] else []) st)) }"

text \<open>The branches to the two targets under the condition \<open>c\<close>, with the next block left out;
  \<open>c\<close> is never \<open>Always\<close>, of which \<open>logical_not\<close> has no value.\<close>

definition branch_pair :: "blk option \<Rightarrow> inst_cond \<Rightarrow> blk \<Rightarrow> blk \<Rightarrow> inst list option" where
  "branch_pair nxt c t f =
     (if nxt = Some f then Some [Inst c (Branch t)]
      else if nxt = Some t then map_option (\<lambda>c'. [Inst c' (Branch f)]) (logical_not c)
      else Some [Inst c (Branch t), Inst Always (Branch f)])"

definition select_branch :: "sel_ctx \<Rightarrow> int \<Rightarrow> bb_key \<Rightarrow> bb_key \<Rightarrow> sel_state \<Rightarrow> sel_state option" where
  "select_branch cx c t1 t0 st =
     (let (r, st1) = from_ir_reg c st in
      do { t \<leftarrow> sc_block cx t1;
           f \<leftarrow> sc_block cx t0;
           st2 \<leftarrow> (case sl_cmp st1 r of
                     Some ci \<Rightarrow>
                       map_option (\<lambda>js. emit (Inst Always (if ci_float ci then FRegRegCmp (ci_lhs ci) (ci_rhs ci)
                                                            else RegRegCmp Cmp (ci_lhs ci) (ci_rhs ci)) # js) st1)
                         (branch_pair (sc_next cx) (ci_cond ci) t f)
                   | None \<Rightarrow>
                       map_option (\<lambda>js. emit (Inst Always (RegImmCmp Cmp r 0) # js) st1)
                         (branch_pair (sc_next cx) Ne t f));
           Some (add_block_edge cx f (add_block_edge cx t st2)) })"

definition select_return :: "scalar_type \<Rightarrow> int \<Rightarrow> bool \<Rightarrow> sel_state \<Rightarrow> sel_state option" where
  "select_return ty s ig st =
     (if ty = IntT \<or> ty = FloatT
      then (if ig then Some (emit [Inst Always (Return Void)] st)
            else (let (r, st1) = from_ir_reg s st in
                  Some (emit [Inst Always (MoveReg (arg_reg ty 0) r), Inst Always (Return ty)] st1)))
      else None)"

section \<open>Calls\<close>

definition call_count :: "scalar_type \<Rightarrow> (int \<times> scalar_type) list \<Rightarrow> nat" where
  "call_count ty as = length (filter (\<lambda>a. snd a = ty) as)"

text \<open>The loop over the arguments from the last to the first; \<open>ni\<close> and \<open>nf\<close> count down.\<close>

fun pass_args :: "(int \<times> scalar_type) list \<Rightarrow> nat \<Rightarrow> nat \<Rightarrow> sel_state \<Rightarrow> sel_state option" where
  "pass_args [] ni nf st = Some st"
| "pass_args ((x, ty) # as) ni nf st =
     (let (r, st1) = from_ir_reg x st in
      if ty = IntT then
        pass_args as (ni - 1) nf
          (emit [Inst Always (if argument_register_count \<le> ni - 1 then Push [r] else MoveReg (arg_reg IntT (ni - 1)) r)] st1)
      else
        do { st2 \<leftarrow> set_float r st1;
             pass_args as ni (nf - 1)
               (emit [Inst Always (if argument_register_count \<le> nf - 1 then Push [r] else MoveReg (arg_reg FloatT (nf - 1)) r)] st2) })"

definition stack_passed :: "nat \<Rightarrow> nat \<Rightarrow> nat" where
  "stack_passed ni nf = (ni - argument_register_count) + (nf - argument_register_count)"

text \<open>The result: \<open>__create_threads\<close> leaves it in \<open>r0\<close>, every other call moves it.\<close>

definition select_result :: "string \<Rightarrow> int \<Rightarrow> scalar_type \<Rightarrow> sel_state \<Rightarrow> sel_state option" where
  "select_result name d rty st =
     (if rty = FloatT then
        (let (r, st1) = from_ir_reg d st in
         do { st2 \<leftarrow> set_float r st1; Some (emit [Inst Always (MoveReg r (arg_reg FloatT 0))] st2) })
      else if rty = IntT then
        (if name = ''__create_threads''
         then (if sl_regs st d = None then Some (st\<lparr>sl_regs := (sl_regs st)(d \<mapsto> arg_reg IntT 0)\<rparr>) else None)
         else (let (r, st1) = from_ir_reg d st in Some (emit [Inst Always (MoveReg r (arg_reg IntT 0))] st1)))
      else Some st)"

definition thread_move :: "int \<Rightarrow> w32" where
  "thread_move tid = push_bit 20 (word_of_int tid)"

definition select_fun_call ::
  "sel_ctx \<Rightarrow> int \<Rightarrow> string \<Rightarrow> (int \<times> scalar_type) list \<Rightarrow> scalar_type \<Rightarrow> sel_state \<Rightarrow> sel_state option" where
  "select_fun_call cx d name as rty st =
     (if list_all (\<lambda>a. snd a = IntT \<or> snd a = FloatT) as then
        (let ni = call_count IntT as; nf = call_count FloatT as; sp = stack_passed ni nf;
             sp1 = (if odd sp then sp + 1 else sp); tid = sc_thread cx;
             st1 = emit (if odd sp then sp_move (- 4) else []) st in
         do { st2 \<leftarrow> pass_args (rev as) ni nf st1;
              select_result name d rty
                (emit ((if 0 < tid then sp_move (- thread_move tid) else []) @ [Inst Always (FuncCall name ni nf)] @
                       (if 0 < tid then sp_move (thread_move tid) else []) @
                       (if 0 < sp1 then sp_move (of_nat (sp1 * 4)) else [])) st2) })
      else None)"

definition select_call ::
  "sel_ctx \<Rightarrow> int \<Rightarrow> string \<Rightarrow> (int \<times> scalar_type) list \<Rightarrow> scalar_type \<Rightarrow> sel_state \<Rightarrow> sel_state option" where
  "select_call cx d name as rty st =
     (if name = ''__mla'' \<or> name = ''__mls'' then
        (case as of
           a0 # a1 # a2 # rest \<Rightarrow>
             (let (s1, st1) = from_ir_reg (fst a1) st; (s2, st2) = from_ir_reg (fst a2) st1;
                  (s3, st3) = from_ir_reg (fst a0) st2; (d1, st4) = from_ir_reg d st3 in
              Some (emit [Inst Always (MLInst (if name = ''__mla'' then Mla else Mls) d1 s1 s2 s3)] st4))
         | _ \<Rightarrow> None)
      else if name = ''__f_mov_to_i'' then
        (case as of
           a0 # rest \<Rightarrow>
             (let (d1, st1) = from_ir_reg d st; (s1, st2) = from_ir_reg (fst a0) st1 in
              Some (emit [Inst Always (MoveReg d1 s1)] st2))
         | _ \<Rightarrow> None)
      else select_fun_call cx d name as rty st)"

section \<open>A block and a function\<close>

fun func_ref_name :: "func_ref \<Rightarrow> string" where
  "func_ref_name (NormalF n) = n"
| "func_ref_name (LibF n) = n"

fun select_instr :: "sel_ctx \<Rightarrow> instr \<Rightarrow> sel_state \<Rightarrow> sel_state option" where
  "select_instr cx (LoadAddr d k) st = select_load_addr cx d k st"
| "select_instr cx (LoadConstI d v) st = Some (select_const_int d v st)"
| "select_instr cx (LoadConstF d v) st = Some (select_const_float d v st)"
| "select_instr cx (LoadArg ty d i) st = select_load_arg cx ty d i st"
| "select_instr cx (UnaryOpI d s u) st = select_unary d s u st"
| "select_instr cx (BinaryOpI d a b op) st = select_binary d a b op st"
| "select_instr cx (LoadInstr d a off ro) st = Some (select_load d a off ro st)"
| "select_instr cx (StoreInstr a s off ro) st = Some (select_store a s off ro st)"
| "select_instr cx (SIMDInstr d f ty s rs n) st = Some (select_simd ty s rs n st)"
| "select_instr cx (JumpInstr t) st = select_jump cx t st"
| "select_instr cx (BranchInstr c t1 t0) st = select_branch cx c t1 t0 st"
| "select_instr cx (ReturnInstr ty s ig) st = select_return ty s ig st"
| "select_instr cx (CallInstr d f as rty nl ns) st = select_call cx d (func_ref_name f) as rty st"
| "select_instr cx (ArrayIndex d a b sz l) st = Some (select_array_index d a b sz st)"
| "select_instr cx (PhiInstr d us) st = None"

fun select_instrs :: "sel_ctx \<Rightarrow> instr list \<Rightarrow> sel_state \<Rightarrow> sel_state option" where
  "select_instrs cx [] st = Some st"
| "select_instrs cx (i # is) st = do { st1 \<leftarrow> select_instr cx i st; select_instrs cx is st1 }"

text \<open>A block starts with no instructions of its own.\<close>

definition construct_block :: "sel_ctx \<Rightarrow> bb \<Rightarrow> sel_state \<Rightarrow> sel_state option" where
  "construct_block cx b st = select_instrs cx (bb_instrs b) (st\<lparr>sl_insts := []\<rparr>)"

text \<open>The blocks in their order; block \<open>i\<close> of the IR function becomes block \<open>i + 1\<close>, after the entry.\<close>

fun construct_blocks ::
  "sel_ctx \<Rightarrow> blk \<Rightarrow> bb list \<Rightarrow> sel_state \<Rightarrow> ((blk \<times> inst list) list \<times> sel_state) option" where
  "construct_blocks cx k [] st = Some ([], st)"
| "construct_blocks cx k (b # bs) st =
     do { st1 \<leftarrow> construct_block (cx\<lparr>sc_this := k, sc_next := if bs = [] then None else Some (k + 1),
                                        sc_thread := bb_thread_id b\<rparr>) b st;
          r \<leftarrow> construct_blocks cx (k + 1) bs st1;
          Some ((k, sl_insts st1) # fst r, snd r) }"

text \<open>The types: a register is a float when it was found to be one.\<close>

definition type_reg :: "areg set \<Rightarrow> areg \<Rightarrow> areg" where
  "type_reg fl r = (if is_pseudo r then AReg (if r \<in> fl then FloatT else IntT) (ar_id r) else r)"

text \<open>The constructor of \<open>Func\<close>: stack objects, entry block with the parameters, the blocks, the types.\<close>

definition stack_objs :: "nfunc \<Rightarrow> mem_object list" where
  "stack_objs f = filter (\<lambda>m. mo_size m \<noteq> 0) (ms_objects (nf_scope f))"

definition key_index :: "'a \<Rightarrow> 'a list \<Rightarrow> nat option" where
  "key_index x xs = (if x \<in> set xs then Some (length (takeWhile (\<lambda>y. y \<noteq> x) xs)) else None)"

definition construct_func ::
  "(obj_key \<Rightarrow> mem_object option) \<Rightarrow> nfunc \<Rightarrow> (flow_block list \<times> obj list \<times> sel_state) option" where
  "construct_func mem f =
     (let keys = map mo_key (stack_objs f); bbs = nf_bbs f; bkeys = map bb_key bbs in
      do { p \<leftarrow> handle_params (nf_arg_types f) 0 0 (length keys) init_mapping;
           entry \<leftarrow> map_option Suc (key_index (nf_entry f) bkeys);
           (let st0 = snd (snd p);
                st1 = (if entry \<noteq> 1 then emit [Inst Always (Branch entry)] st0 else st0);
                cx = \<lparr>sc_obj = (\<lambda>k. key_index k keys), sc_block = (\<lambda>b. map_option Suc (key_index b bkeys)),
                      sc_mem = mem, sc_args = fst p, sc_this = 0, sc_next = None, sc_thread = 0\<rparr> in
            do { r \<leftarrow> construct_blocks cx 1 bbs st1;
                 (let st2 = snd r; es = (0, entry) # sl_edges st2;
                      blocks = (0, sl_insts st1) # fst r in
                  Some (map (\<lambda>(b, is). \<lparr>fb_id = b, fb_insts = map (map_regs (type_reg (sl_float st2))) is,
                                         fb_in = map fst (filter (\<lambda>e. snd e = b) es)\<rparr>) blocks,
                        fst (snd p), st2)) }) })"

end
