(* ===== verification/SelectFacts.thy ===== *)
theory SelectFacts
  imports Select MergeFacts
begin

text \<open>
  The code selected for straight-line instructions does what the interpreter does with them: the
  registers of the machine hold the values of the IR registers, its memory those of the
  interpreter's memory.
\<close>

section \<open>The numbering of registers\<close>

definition sel_wf :: "sel_state \<Rightarrow> bool" where
  "sel_wf st =
     (float_count \<le> sl_reg_n st \<and>
      (\<forall>x r. sl_regs st x = Some r \<longrightarrow> ar_type r = IntT \<and> float_count \<le> ar_id r \<and> ar_id r < sl_reg_n st) \<and>
      (\<forall>x y r. sl_regs st x = Some r \<longrightarrow> sl_regs st y = Some r \<longrightarrow> x = y) \<and>
      (\<forall>r c. sl_constant st r = Some c \<longrightarrow> ar_id r < sl_reg_n st))"

text \<open>A later state: registers only get added.\<close>

definition grows :: "sel_state \<Rightarrow> sel_state \<Rightarrow> bool" where
  "grows st st' =
     (sl_reg_n st \<le> sl_reg_n st' \<and> (\<forall>x r. sl_regs st x = Some r \<longrightarrow> sl_regs st' x = Some r) \<and>
      (\<forall>x r. sl_regs st' x = Some r \<longrightarrow> sl_regs st x = Some r \<or> sl_reg_n st \<le> ar_id r) \<and>
      sl_constant st' = sl_constant st \<and> sl_insts st' = sl_insts st)"

lemma grows_refl: "grows st st"
  by (simp add: grows_def)

lemma grows_trans: "grows a b \<Longrightarrow> grows b c \<Longrightarrow> grows a c"
  unfolding grows_def by (metis order_trans)

lemma init_mapping_wf: "sel_wf init_mapping"
  by (simp add: sel_wf_def init_mapping_def)

lemma arm_new_reg_ok:
  assumes "sel_wf st" and "arm_new_reg st = (r, st')"
  shows "sel_wf st'" and "grows st st'" and "r = AReg IntT (sl_reg_n st)" and "sl_reg_n st' = sl_reg_n st + 1"
    and "sl_regs st' = sl_regs st"
  using assms by (auto simp: arm_new_reg_def sel_wf_def grows_def) (fastforce+)?

lemma from_ir_reg_ok:
  assumes "sel_wf st" and "from_ir_reg x st = (r, st')"
  shows "sel_wf st'" and "grows st st'" and "sl_regs st' x = Some r"
proof -
  have "sel_wf st' \<and> grows st st' \<and> sl_regs st' x = Some r"
  proof (cases "sl_regs st x")
    case (Some q)
    then show ?thesis using assms by (auto simp: from_ir_reg_def grows_refl)
  next
    case None
    let ?r = "AReg IntT (sl_reg_n st)"
    have r: "r = ?r" "st' = st\<lparr>sl_reg_n := sl_reg_n st + 1, sl_regs := (sl_regs st)(x \<mapsto> ?r)\<rparr>"
      using assms(2) None by (auto simp: from_ir_reg_def arm_new_reg_def)
    have n: "sl_regs st y \<noteq> Some ?r" for y
    proof
      assume "sl_regs st y = Some ?r"
      then have "ar_id ?r < sl_reg_n st" using assms(1) unfolding sel_wf_def by blast
      then show False by simp
    qed
    have "sel_wf st'"
      unfolding sel_wf_def
    proof (intro conjI allI impI)
      show "float_count \<le> sl_reg_n st'" using assms(1) by (simp add: r sel_wf_def)
    next
      fix y q assume "sl_regs st' y = Some q"
      then have "q = ?r \<or> sl_regs st y = Some q" by (auto simp: r split: if_splits)
      then show "ar_type q = IntT" "float_count \<le> ar_id q" "ar_id q < sl_reg_n st'"
        using assms(1) by (auto simp: r sel_wf_def) (fastforce+)?
    next
      fix y z q assume "sl_regs st' y = Some q" "sl_regs st' z = Some q"
      then show "y = z" using n assms(1) by (auto simp: r sel_wf_def split: if_splits)
    next
      fix q c assume "sl_constant st' q = Some c"
      then have "ar_id q < sl_reg_n st" using assms(1) by (auto simp: r sel_wf_def)
      then show "ar_id q < sl_reg_n st'" by (simp add: r)
    qed
    moreover have "grows st st'" unfolding r grows_def using None by auto
    ultimately show ?thesis by (simp add: r)
  qed
  then show "sel_wf st'" "grows st st'" "sl_regs st' x = Some r" by blast+
qed

text \<open>Bookkeeping of float registers and comparisons leaves the numbering alone.\<close>

definition same_numbers :: "sel_state \<Rightarrow> sel_state \<Rightarrow> bool" where
  "same_numbers st st' =
     (sl_reg_n st' = sl_reg_n st \<and> sl_regs st' = sl_regs st \<and> sl_constant st' = sl_constant st \<and> sl_insts st' = sl_insts st \<and>
      sl_cmp st' = sl_cmp st)"

lemma same_numbers_wf: "same_numbers st st' \<Longrightarrow> sel_wf st' = sel_wf st"
  by (simp add: same_numbers_def sel_wf_def)

lemma same_numbers_grows: "same_numbers st st' \<Longrightarrow> grows st st'"
  by (simp add: same_numbers_def grows_def)

lemma same_numbers_trans: "same_numbers a b \<Longrightarrow> same_numbers b c \<Longrightarrow> same_numbers a c"
  by (simp add: same_numbers_def)

lemma set_floats_same:
  assumes "set_floats rs st = Some st'"
  shows "same_numbers st st'"
proof (rule set_floats.raw_induct [OF _ assms])
  fix run :: "areg list \<Rightarrow> sel_state \<Rightarrow> sel_state option" and rs st st'
  assume ih: "\<And>rs st st'. run rs st = Some st' \<Longrightarrow> same_numbers st st'"
    and e: "(case rs of [] \<Rightarrow> Some st
      | r # rest \<Rightarrow>
          if r \<in> sl_float st then run rest st
          else do { st1 \<leftarrow> run (sl_maybe st r) (st\<lparr>sl_float := insert r (sl_float st)\<rparr>);
                    run rest (st1\<lparr>sl_maybe := (sl_maybe st1)(r := [])\<rparr>) }) = Some st'"
  show "same_numbers st st'"
  proof (cases rs)
    case Nil
    then show ?thesis using e by (simp add: same_numbers_def)
  next
    case (Cons r rest)
    show ?thesis
    proof (cases "r \<in> sl_float st")
      case True
      then show ?thesis using e ih Cons by simp
    next
      case False
      then obtain st1 where s: "run (sl_maybe st r) (st\<lparr>sl_float := insert r (sl_float st)\<rparr>) = Some st1"
        "run rest (st1\<lparr>sl_maybe := (sl_maybe st1)(r := [])\<rparr>) = Some st'"
        using e Cons by (auto simp: bind_eq_Some_conv)
      from ih [OF s(1)] ih [OF s(2)] show ?thesis by (simp add: same_numbers_def)
    qed
  qed
qed

lemma set_float_same: "set_float r st = Some st' \<Longrightarrow> same_numbers st st'"
  unfolding set_float_def by (rule set_floats_same)

lemma set_maybe_same: "set_maybe_float_assign a b st = Some st' \<Longrightarrow> same_numbers st st'"
  by (auto simp: set_maybe_float_assign_def Let_def bind_eq_Some_conv same_numbers_def split: if_splits
      dest!: set_float_same)

text \<open>\<open>set_float\<close> ends: every visit but the first adds a register to the finitely many floats.\<close>

definition maybe_regs :: "sel_state \<Rightarrow> areg set" where
  "maybe_regs st = (\<Union>r. set (sl_maybe st r))"

lemma set_floats_ends:
  assumes "finite U"
  shows "set rs \<subseteq> U \<Longrightarrow> maybe_regs st \<subseteq> U \<Longrightarrow>
    \<exists>st'. set_floats rs st = Some st' \<and> sl_float st \<union> set rs \<subseteq> sl_float st' \<and> maybe_regs st' \<subseteq> maybe_regs st"
proof (induction "card (U - sl_float st)" arbitrary: rs st rule: less_induct)
  case less
  show ?case
    using less.prems less.hyps
  proof (induction rs arbitrary: st)
    case Nil
    then show ?case by (simp add: set_floats.simps)
  next
    case (Cons r rest)
    note IH = Cons.prems(3)
    show ?case
    proof (cases "r \<in> sl_float st")
      case True
      then show ?thesis using Cons.IH [of st] Cons.prems by (auto simp: set_floats.simps [of "r # rest"])
    next
      case False
      let ?st = "st\<lparr>sl_float := insert r (sl_float st)\<rparr>"
      have r: "r \<in> U" using Cons.prems(1) by simp
      have lt: "card (U - F) < card (U - sl_float st)" if "insert r (sl_float st) \<subseteq> F" for F
      proof (rule psubset_card_mono)
        show "finite (U - sl_float st)" using assms by simp
        show "U - F \<subset> U - sl_float st" using that r False by blast
      qed
      have "maybe_regs ?st = maybe_regs st" by (simp add: maybe_regs_def)
      moreover have "set (sl_maybe st r) \<subseteq> U" using Cons.prems(2) by (auto simp: maybe_regs_def)
      ultimately obtain st1 where s1: "set_floats (sl_maybe st r) ?st = Some st1"
        "sl_float ?st \<union> set (sl_maybe st r) \<subseteq> sl_float st1" "maybe_regs st1 \<subseteq> maybe_regs st"
        using IH [of ?st "sl_maybe st r"] lt [of "sl_float ?st"] Cons.prems(2) by auto
      let ?st1 = "st1\<lparr>sl_maybe := (sl_maybe st1)(r := [])\<rparr>"
      have "maybe_regs ?st1 \<subseteq> maybe_regs st1" by (auto simp: maybe_regs_def split: if_splits)
      then have m: "maybe_regs ?st1 \<subseteq> maybe_regs st" using s1(3) by blast
      obtain st' where "set_floats rest ?st1 = Some st'" "sl_float ?st1 \<union> set rest \<subseteq> sl_float st'"
        "maybe_regs st' \<subseteq> maybe_regs ?st1"
        using IH [of ?st1 rest] lt [of "sl_float ?st1"] s1(2) m Cons.prems(1,2) by auto
      then show ?thesis using s1(1,2) m False by (auto simp: set_floats.simps [of "r # rest"])
    qed
  qed
qed

section \<open>The effect of selected code\<close>

text \<open>The types written in at the end rename registers without changing their numbers.\<close>

definition keeps_ids :: "(areg \<Rightarrow> areg) \<Rightarrow> bool" where
  "keeps_ids f = (\<forall>r. ar_id (f r) = ar_id r)"

lemma type_reg_ids: "keeps_ids (type_reg fl)"
  by (simp add: keeps_ids_def type_reg_def)

lemma keeps_ids_inj: "keeps_ids f \<Longrightarrow> ar_id a \<noteq> ar_id b \<Longrightarrow> f a \<noteq> f b"
  by (metis keeps_ids_def)

lemma same_type_id: "ar_type a = ar_type b \<Longrightarrow> a \<noteq> b \<Longrightarrow> ar_id a \<noteq> ar_id b"
  by (cases a; cases b) auto

lemma map_regs_Inst [simp]: "map_regs f (Inst c x) = Inst c (map_op_regs f x)"
  by (simp add: map_regs_def)

lemma map_load_imm: "map (map_regs f) (load_imm d v) = load_imm (f d) v"
  by (simp add: load_imm_def always_def Let_def)

text \<open>The code gives \<open>dst\<close> the value \<open>v\<close> and keeps the other registers with numbers below \<open>n\<close>.\<close>

definition code_ok :: "arm_env \<Rightarrow> (areg \<Rightarrow> areg) \<Rightarrow> int \<Rightarrow> areg \<Rightarrow> w32 \<Rightarrow> inst list \<Rightarrow> arm_state \<Rightarrow> arm_state \<Rightarrow> bool" where
  "code_ok env f n dst v code s s' =
     (arm_run env (map (map_regs f) code) s = Some s' \<and> a_ctl s' = Fall \<and> a_reg s' (f dst) = v \<and>
      (\<forall>r. float_count \<le> ar_id r \<longrightarrow> ar_id r < n \<longrightarrow> ar_id r \<noteq> ar_id dst \<longrightarrow> a_reg s' (f r) = a_reg s (f r)) \<and>
      a_mem s' = a_mem s \<and> a_base s' = a_base s)"

text \<open>One instruction, and code that ends with one.\<close>

lemma code_single:
  assumes "keeps_ids f" and "a_ctl s = Fall" and "exec_op env (map_op_regs f x) s = Some (set_reg (f dst) v s)"
  shows "code_ok env f n dst v [Inst Always x] s (set_reg (f dst) v s)"
  using assms keeps_ids_inj [OF assms(1)] by (simp add: code_ok_def arm_step_always)

lemma code_then:
  assumes "keeps_ids f" and "code_ok env f n tmp w code s s1" and "n \<le> ar_id tmp"
    and "exec_op env (map_op_regs f x) s1 = Some (set_reg (f dst) v s1)"
  shows "code_ok env f n dst v (code @ [Inst Always x]) s (set_reg (f dst) v s1)"
proof -
  have c: "a_ctl s1 = Fall" "arm_run env (map (map_regs f) code) s = Some s1" using assms(2) by (simp_all add: code_ok_def)
  have "arm_run env (map (map_regs f) (code @ [Inst Always x])) s = Some (set_reg (f dst) v s1)"
    using run_list_append_Some [OF c(2), of "[Inst Always (map_op_regs f x)]"] assms(4) c(1) by (simp add: arm_step_always)
  then show ?thesis
    using assms(2,3) keeps_ids_inj [OF assms(1)] unfolding code_ok_def by auto
qed

lemma code_load_imm:
  assumes "keeps_ids f" and "a_ctl s = Fall"
  shows "code_ok env f n dst v (load_imm dst v) s (set_reg (f dst) v s)"
  using assms keeps_ids_inj [OF assms(1)] by (simp add: code_ok_def map_load_imm load_imm_run)

section \<open>Operators\<close>

text \<open>Where the interpreter and the machine agree on an operator: not on the one quotient that
  overflows, on the remainder by zero, or on the order of a NaN; and the interpreter takes the
  lower half of a \<open>double\<close> for the upper one.\<close>

definition unary_selectable :: "unary_compute \<Rightarrow> bool" where
  "unary_selectable u = (u \<noteq> F2D0 \<and> u \<noteq> F2D1)"

definition binary_agrees :: "binary_compute \<Rightarrow> w32 \<Rightarrow> w32 \<Rightarrow> bool" where
  "binary_agrees b x y =
     (case b of
        DIV \<Rightarrow> \<not> (sint x = - (2 ^ 31) \<and> sint y = - 1)
      | MOD \<Rightarrow> y \<noteq> 0
      | FLESS \<Rightarrow> \<not> is_nan x \<and> \<not> is_nan y
      | FLEQ \<Rightarrow> \<not> is_nan x \<and> \<not> is_nan y
      | _ \<Rightarrow> True)"

lemma vcvt_f2i_Some: "f2i x = Some v \<Longrightarrow> vcvt_f2i x = v"
  by (simp add: vcvt_f2i_def)

lemma rr_value_agrees:
  assumes "compute_binary b x y = Some v" and "binary_agrees b x y" and "rr_op_of_ir b = Some op"
  shows "rr_value op x y = v"
proof -
  have m: "word_of_int (c_rem a b) = (word_of_int a - word_of_int (c_quot a b) * word_of_int b :: w32)" for a b
    by (simp add: c_rem_def mult.commute)
  show ?thesis
    using assms by (cases b) (auto simp: binary_agrees_def sdiv32_def i_div_def i_mod_def m split: if_splits)
qed

lemma frr_value_agrees:
  "compute_binary b x y = Some v \<Longrightarrow> frr_op_of_ir b = Some op \<Longrightarrow> frr_value op x y = v"
  by (cases b) auto

lemma compare_agrees:
  assumes "compute_binary b x y = Some v" and "binary_agrees b x y" and "cond_of_ir b = Some c"
  shows "v = of_bool32 (cond_holds c ((if b \<in> {FLESS, FLEQ, FEQ, FNEQ} then flags_float else flags_sub) x y))"
proof -
  have z: "fl_z (flags_float x y) = feq x y" by (simp add: flags_float_def)
  show ?thesis
    using assms cond_after_cmp [of x y] cond_after_vcmp [of x y] z
    by (cases b) (auto simp: binary_agrees_def simp del: cond_holds.simps, auto)
qed

text \<open>\<open>mov dst, 0; cmp; mov<c> dst, 1\<close>.\<close>

lemma code_flag:
  assumes "keeps_ids f" and "a_ctl s = Fall" and "c \<noteq> Always"
    and "exec_op env (map_op_regs f x) (set_reg (f dst) 0 s) = Some s1"
    and "a_reg s1 = (a_reg s)(f dst := 0)" and "a_mem s1 = a_mem s" and "a_base s1 = a_base s" and "a_ctl s1 = Fall"
  shows "\<exists>s'. code_ok env f n dst (of_bool32 (cond_holds c (a_flags s1)))
     [Inst Always (MoveImm Mov dst 0), Inst Always x, Inst c (MoveImm Mov dst 1)] s s'"
proof -
  let ?s' = "if cond_holds c (a_flags s1) then set_reg (f dst) 1 s1 else s1"
  have "arm_run env (map (map_regs f) [Inst Always (MoveImm Mov dst 0), Inst Always x, Inst c (MoveImm Mov dst 1)]) s = Some ?s'"
    using assms(2,4,8) by (simp add: arm_step_always) (simp add: arm_step_def skip_op_def)
  moreover have "a_reg ?s' (f dst) = of_bool32 (cond_holds c (a_flags s1))"
    using assms(5) by (simp add: of_bool32_def)
  moreover have "a_reg ?s' (f r) = a_reg s (f r)" if "ar_id r \<noteq> ar_id dst" for r
    using keeps_ids_inj [OF assms(1) that] assms(5) by simp
  ultimately show ?thesis using assms(6-8) by (intro exI [of _ ?s']) (simp add: code_ok_def)
qed

lemma code_compare:
  assumes "keeps_ids f" and "a_ctl s = Fall" and "c \<noteq> Always" and "ar_id a \<noteq> ar_id dst" and "ar_id b \<noteq> ar_id dst"
  shows "\<exists>s'. code_ok env f n dst (of_bool32 (cond_holds c ((if fl then flags_float else flags_sub) (a_reg s (f a)) (a_reg s (f b)))))
     [Inst Always (MoveImm Mov dst 0), Inst Always (if fl then FRegRegCmp a b else RegRegCmp Cmp a b),
      Inst c (MoveImm Mov dst 1)] s s'"
proof (cases fl)
  case True
  let ?f = "flags_float (a_reg s (f a)) (a_reg s (f b))"
  let ?s1 = "(set_reg (f dst) 0 s)\<lparr>a_fpscr := ?f, a_flags := ?f\<rparr>"
  have "exec_op env (map_op_regs f (FRegRegCmp a b)) (set_reg (f dst) 0 s) = Some ?s1"
    using keeps_ids_inj [OF assms(1)] assms(4,5) by simp
  from code_flag [OF assms(1-3) this] show ?thesis using assms(2) True by simp
next
  case False
  let ?s1 = "(set_reg (f dst) 0 s)\<lparr>a_flags := flags_sub (a_reg s (f a)) (a_reg s (f b))\<rparr>"
  have "exec_op env (map_op_regs f (RegRegCmp Cmp a b)) (set_reg (f dst) 0 s) = Some ?s1"
    using keeps_ids_inj [OF assms(1)] assms(4,5) by simp
  from code_flag [OF assms(1-3) this] show ?thesis using assms(2) False by simp
qed

lemma code_not:
  assumes "keeps_ids f" and "a_ctl s = Fall" and "ar_id a \<noteq> ar_id dst"
  shows "\<exists>s'. code_ok env f n dst (of_bool32 (a_reg s (f a) = 0))
     [Inst Always (MoveImm Mov dst 0), Inst Always (RegImmCmp Cmp a 0), Inst Eq (MoveImm Mov dst 1)] s s'"
proof -
  let ?s1 = "(set_reg (f dst) 0 s)\<lparr>a_flags := flags_sub (a_reg s (f a)) 0\<rparr>"
  have "exec_op env (map_op_regs f (RegImmCmp Cmp a 0)) (set_reg (f dst) 0 s) = Some ?s1"
    using keeps_ids_inj [OF assms(1)] assms(3) by simp
  from code_flag [OF assms(1,2) _ this, of Eq n] show ?thesis
    using assms(2) cond_after_cmp(1) [of "a_reg s (f a)" 0] by simp
qed

section \<open>States\<close>

definition sel_sim :: "(areg \<Rightarrow> areg) \<Rightarrow> sel_state \<Rightarrow> frame \<Rightarrow> exec_state \<Rightarrow> arm_state \<Rightarrow> bool" where
  "sel_sim f sl fr st s =
     (a_ctl s = Fall \<and>
      (\<forall>x v. fr_regs fr x = Some v \<longrightarrow> (\<exists>r. sl_regs sl x = Some r \<and> a_reg s (f r) = v)) \<and>
      (\<forall>x v r c. fr_regs fr x = Some v \<longrightarrow> sl_regs sl x = Some r \<longrightarrow> sl_constant sl r = Some c \<longrightarrow> v = c) \<and>
      (\<forall>a. mem_ok st a \<longrightarrow> a_mem s a = ex_mem st (sint a div 4)))"

definition same_memory :: "exec_state \<Rightarrow> exec_state \<Rightarrow> bool" where
  "same_memory st st' = (ex_mem st' = ex_mem st \<and> ex_limit st' = ex_limit st)"

text \<open>The state after a value has been computed for the IR register \<open>d\<close>.\<close>

lemma sim_write:
  assumes "sel_wf sl" and "sel_wf sl'" and "grows sl sl'" and "sl_regs sl' d = Some dst"
    and "sel_sim f sl fr st s" and "w_reg d v fr = Some fr'" and "code_ok env f (sl_reg_n sl) dst v code s s'"
    and "same_memory st st'" and "sl_constant sl' dst = None"
  shows "sel_sim f sl' fr' st' s'"
proof -
  note sim = assms(5) [unfolded sel_sim_def] and code = assms(7) [unfolded code_ok_def]
  have fr': "fr_regs fr' = (fr_regs fr)(d \<mapsto> v)" using assms(6) by (auto simp: w_reg_def split: if_splits)
  have old: "\<exists>r. sl_regs sl x = Some r \<and> sl_regs sl' x = Some r \<and> a_reg s' (f r) = w" if "fr_regs fr x = Some w" "x \<noteq> d" for x w
  proof -
    obtain r where r: "sl_regs sl x = Some r" "a_reg s (f r) = w" using sim \<open>fr_regs fr x = Some w\<close> by blast
    have r': "sl_regs sl' x = Some r" using assms(3) r(1) by (simp add: grows_def)
    then have "r \<noteq> dst" using assms(2,4) \<open>x \<noteq> d\<close> unfolding sel_wf_def by metis
    moreover have t: "ar_type r = IntT" "ar_type dst = IntT" "float_count \<le> ar_id r" "ar_id r < sl_reg_n sl"
      using assms(1,2,4) r(1) unfolding sel_wf_def by blast+
    ultimately have "a_reg s' (f r) = a_reg s (f r)" using code same_type_id [of r dst] by simp
    then show ?thesis using r r' by simp
  qed
  have "\<exists>r. sl_regs sl' x = Some r \<and> a_reg s' (f r) = w" if "fr_regs fr' x = Some w" for x w
    using old [of x w] that assms(4) code by (cases "x = d") (auto simp: fr')
  moreover have "w = c" if w: "fr_regs fr' x = Some w" "sl_regs sl' x = Some r" "sl_constant sl' r = Some c" for x w r c
  proof (cases "x = d")
    case True
    then show ?thesis using w assms(4,9) by simp
  next
    case False
    then have "fr_regs fr x = Some w" using w(1) by (simp add: fr')
    moreover from old [OF this False] have "sl_regs sl x = Some r" using w(2) by auto
    moreover have "sl_constant sl r = Some c" using w(3) assms(3) by (simp add: grows_def)
    ultimately show ?thesis using sim by blast
  qed
  moreover have "a_mem s' a = ex_mem st' (sint a div 4)" if "mem_ok st' a" for a
    using sim that code assms(8) by (auto simp: same_memory_def mem_ok_def)
  ultimately show ?thesis using code unfolding sel_sim_def by blast
qed

text \<open>The registers known to be constants are those known before, and what was defined.\<close>

definition kept_constants :: "int set \<Rightarrow> sel_state \<Rightarrow> sel_state \<Rightarrow> bool" where
  "kept_constants D sl sl' =
     (\<forall>x r c. sl_regs sl' x = Some r \<longrightarrow> sl_constant sl' r = Some c \<longrightarrow>
        x \<in> D \<or> (sl_regs sl x = Some r \<and> sl_constant sl r = Some c))"

lemma grows_constants:
  assumes "sel_wf sl" and "grows sl sl'"
  shows "kept_constants D sl sl'"
proof -
  have "sl_regs sl x = Some r \<and> sl_constant sl r = Some c"
    if "sl_regs sl' x = Some r" "sl_constant sl' r = Some c" for x r c
  proof -
    have c: "sl_constant sl r = Some c" using assms(2) that(2) by (simp add: grows_def)
    then have "ar_id r < sl_reg_n sl" using assms(1) by (auto simp: sel_wf_def)
    then have "sl_regs sl x = Some r" using assms(2) that(1) unfolding grows_def by fastforce
    then show ?thesis using c by simp
  qed
  then show ?thesis by (auto simp: kept_constants_def)
qed

text \<open>One instruction: the code it appends to the block runs, and the states agree again.\<close>

definition step_ok ::
  "arm_env \<Rightarrow> (areg \<Rightarrow> areg) \<Rightarrow> int set \<Rightarrow> sel_state \<Rightarrow> sel_state \<Rightarrow> frame \<Rightarrow> exec_state \<Rightarrow> arm_state \<Rightarrow> bool" where
  "step_ok env f D sl sl' fr' st' s =
     (sel_wf sl' \<and> kept_constants D sl sl' \<and> (\<exists>code s'. sl_insts sl' = sl_insts sl @ code \<and> arm_run env (map (map_regs f) code) s = Some s' \<and>
        a_base s' = a_base s \<and> sel_sim f sl' fr' st' s'))"

text \<open>A state with the same numbering and more code.\<close>

definition with_code :: "sel_state \<Rightarrow> inst list \<Rightarrow> sel_state \<Rightarrow> bool" where
  "with_code sl code sl' =
     (sl_reg_n sl' = sl_reg_n sl \<and> sl_regs sl' = sl_regs sl \<and> sl_constant sl' = sl_constant sl \<and>
      sl_insts sl' = sl_insts sl @ code)"

lemma with_code_emit [simp]: "with_code sl code (emit code sl)"
  by (simp add: with_code_def emit_def)

lemma with_code_wf: "with_code sl code sl' \<Longrightarrow> sel_wf sl' = sel_wf sl"
  by (simp add: with_code_def sel_wf_def)

lemma with_code_sim: "with_code sl code sl' \<Longrightarrow> sel_sim f sl' = sel_sim f sl"
  by (simp add: with_code_def sel_sim_def fun_eq_iff)

definition not_constant :: "sel_state \<Rightarrow> int \<Rightarrow> bool" where
  "not_constant sl d = (\<forall>r. sl_regs sl d = Some r \<longrightarrow> sl_constant sl r = None)"

lemma dst_not_constant:
  assumes "sel_wf sl" and "grows sl sl1" and "not_constant sl d" and "sl_regs sl1 d = Some dst"
    and "sl_regs sl d = None \<Longrightarrow> sl_reg_n sl \<le> ar_id dst"
  shows "sl_constant sl1 dst = None"
proof (cases "sl_regs sl d")
  case (Some r)
  then have "r = dst" using assms(2,4) by (auto simp: grows_def)
  then show ?thesis using Some assms(2,3) by (simp add: not_constant_def grows_def)
next
  case None
  then have "sl_constant sl dst = None" using assms(1,5) unfolding sel_wf_def by force
  then show ?thesis using assms(2) by (simp add: grows_def)
qed

lemma step_okI:
  assumes "sel_wf sl" and "sel_wf sl1" and "grows sl sl1" and "with_code sl1 code sl'" and "sl_regs sl1 d = Some dst"
    and "sel_sim f sl fr st s" and "w_reg d v fr = Some fr'" and "code_ok env f (sl_reg_n sl) dst v code s s'"
    and "same_memory st st'" and "sl_constant sl1 dst = None"
  shows "step_ok env f {d} sl sl' fr' st' s"
proof -
  have "sel_sim f sl' fr' st' s'"
    using sim_write [OF assms(1-3,5-10)] with_code_sim [OF assms(4)] by simp
  moreover have "sl_insts sl' = sl_insts sl @ code" using assms(3,4) by (simp add: grows_def with_code_def)
  moreover have "kept_constants {d} sl sl'"
    using grows_constants [OF assms(1,3), of "{d}"] assms(4) by (simp add: kept_constants_def with_code_def)
  ultimately show ?thesis
    using assms(2,8) with_code_wf [OF assms(4)] unfolding step_ok_def code_ok_def by blast
qed

lemma from_ir_dst:
  assumes "sel_wf sl" and "from_ir_reg d sl = (dst, sl1)" and "not_constant sl d"
  shows "sel_wf sl1" and "grows sl sl1" and "sl_regs sl1 d = Some dst" and "sl_constant sl1 dst = None"
    and "float_count \<le> ar_id dst" and "ar_type dst = IntT"
proof -
  note ok = from_ir_reg_ok [OF assms(1,2)]
  show "sel_wf sl1" "grows sl sl1" "sl_regs sl1 d = Some dst" by (rule ok)+
  show "float_count \<le> ar_id dst" "ar_type dst = IntT" using ok(1,3) unfolding sel_wf_def by blast+
  show "sl_constant sl1 dst = None"
    by (rule dst_not_constant [OF assms(1) ok(2) assms(3) ok(3)])
      (use assms(2) in \<open>auto simp: from_ir_reg_def arm_new_reg_def\<close>)
qed

lemma from_ir_use:
  assumes "sel_sim f sl fr st s" and "grows sl sla" and "fr_regs fr x = Some v" and "from_ir_reg x sla = (r, slb)"
  shows "a_reg s (f r) = v" and "sl_regs sl x = Some r" and "slb = sla"
proof -
  obtain q where q: "sl_regs sl x = Some q" "a_reg s (f q) = v" using assms(1,3) unfolding sel_sim_def by blast
  then have "sl_regs sla x = Some q" using assms(2) by (simp add: grows_def)
  then show "a_reg s (f r) = v" "sl_regs sl x = Some r" "slb = sla"
    using assms(4) q by (auto simp: from_ir_reg_def)
qed

lemma apart_regs:
  assumes "sel_wf sl" and "sl_regs sl x = Some a" and "sl_regs sl y = Some b" and "x \<noteq> y"
  shows "ar_id a \<noteq> ar_id b"
proof -
  have "a \<noteq> b" using assms unfolding sel_wf_def by metis
  moreover have "ar_type a = ar_type b" using assms(1-3) unfolding sel_wf_def by metis
  ultimately show ?thesis by (rule same_type_id [rotated])
qed

lemma r_reg_defined: "r_reg xe fr x = Some v \<Longrightarrow> fr_regs fr x \<noteq> None \<Longrightarrow> fr_regs fr x = Some v"
  by (auto simp: r_reg_def split: if_splits)

lemma same_memory_refl [simp]: "same_memory st st"
  by (simp add: same_memory_def)

section \<open>Selected instructions\<close>

lemma select_unary_ok:
  assumes wf: "sel_wf sl" and f: "keeps_ids f" and sim: "sel_sim f sl fr st s" and sel: "select_unary d x u sl = Some sl'"
    and "fr_regs fr x = Some a" and "compute_unary u a = Some v" and "unary_selectable u" and "x \<noteq> d"
    and nc: "not_constant sl d" and w: "w_reg d v fr = Some fr'"
  shows "step_ok env f {d} sl sl' fr' st s"
proof -
  obtain dst sl1 where dst: "from_ir_reg d sl = (dst, sl1)" by (cases "from_ir_reg d sl")
  obtain src sl2 where src: "from_ir_reg x sl1 = (src, sl2)" by (cases "from_ir_reg x sl1")
  note d = from_ir_dst [OF wf dst nc] and u = from_ir_use [OF sim d(2) assms(5) src]
  have c: "a_ctl s = Fall" using sim by (simp add: sel_sim_def)
  have sx: "sl_regs sl1 x = Some src" using u(2) d(2) by (simp add: grows_def)
  have ne: "ar_id src \<noteq> ar_id dst" by (rule apart_regs [OF d(1) sx d(3) assms(8)])
  note sel = sel [unfolded select_unary_def Let_def dst src u(3) prod.case]
  have fin: "step_ok env f {d} sl sl' fr' st s"
    if "sel_wf sl3" "grows sl1 sl3" "sl' = emit code sl3" "code_ok env f (sl_reg_n sl) dst v code s s'" for sl3 code s'
  proof (rule step_okI [OF wf that(1) grows_trans [OF d(2) that(2)] _ _ sim w that(4) same_memory_refl])
    show "with_code sl3 code sl'" by (simp add: that(3))
    show "sl_regs sl3 d = Some dst" "sl_constant sl3 dst = None" using that(2) d(3,4) by (simp_all add: grows_def)
  qed
  have same: "sel_wf sl3 \<and> grows sl1 sl3" if "same_numbers sl1 sl3" for sl3
    using that d(1) by (simp add: same_numbers_wf same_numbers_grows)
  have tmp: "sel_wf sl5 \<and> grows sl1 sl5 \<and> tmp = AReg IntT (sl_reg_n sl1)"
    if "arm_new_reg sl1 = (tmp, sl3)" "set_float p sl3 = Some sl4" "set_float q sl4 = Some sl5" for tmp sl3 p sl4 q sl5
  proof -
    note n = arm_new_reg_ok [OF d(1) that(1)]
    have "same_numbers sl3 sl5" by (rule same_numbers_trans [OF set_float_same [OF that(2)] set_float_same [OF that(3)]])
    then show ?thesis using n(1-3) grows_trans [OF n(2) same_numbers_grows] by (simp add: same_numbers_wf)
  qed
  have le: "sl_reg_n sl \<le> sl_reg_n sl1" using d(2) by (simp add: grows_def)
  show ?thesis
  proof (cases u)
    case LNOT
    then have sl': "sl' = emit [Inst Always (MoveImm Mov dst 0), Inst Always (RegImmCmp Cmp src 0), Inst Eq (MoveImm Mov dst 1)] sl1"
      and v: "v = of_bool32 (a_reg s (f src) = 0)" using sel assms(6) u(1) by auto
    from code_not [OF f c ne] obtain s' where "code_ok env f (sl_reg_n sl) dst v
        [Inst Always (MoveImm Mov dst 0), Inst Always (RegImmCmp Cmp src 0), Inst Eq (MoveImm Mov dst 1)] s s'"
      unfolding v by blast
    from fin [OF d(1) grows_refl sl' this] show ?thesis .
  next
    case NEG
    then have sl': "sl' = emit [Inst Always (RegImmInst IRevSub dst src 0)] sl1" and v: "v = 0 - a_reg s (f src)"
      using sel assms(6) u(1) by auto
    show ?thesis
      by (rule fin [OF d(1) grows_refl sl' code_single [OF f c]]) (simp add: v)
  next
    case ID
    then obtain sl3 where m: "set_maybe_float_assign dst src sl1 = Some sl3" and sl': "sl' = emit [Inst Always (MoveReg dst src)] sl3"
      and v: "v = a_reg s (f src)" using sel assms(6) u(1) by (auto simp: bind_eq_Some_conv)
    note k = same [OF set_maybe_same [OF m]]
    show ?thesis by (rule fin [OF conjunct1 [OF k] conjunct2 [OF k] sl' code_single [OF f c]]) (simp add: v)
  next
    case FNEG
    then obtain sl3 sl4 where m: "set_float dst sl1 = Some sl3" "set_float src sl3 = Some sl4"
      and sl': "sl' = emit [Inst Always (FRegInst FrNeg dst src)] sl4" and v: "v = fneg (a_reg s (f src))"
      using sel assms(6) u(1) by (auto simp: bind_eq_Some_conv)
    note k = same [OF same_numbers_trans [OF set_float_same [OF m(1)] set_float_same [OF m(2)]]]
    show ?thesis by (rule fin [OF conjunct1 [OF k] conjunct2 [OF k] sl' code_single [OF f c]]) (simp add: v)
  next
    case I2F
    then obtain t sl3 sl4 sl5 where m: "arm_new_reg sl1 = (t, sl3)" "set_float dst sl3 = Some sl4" "set_float t sl4 = Some sl5"
      and sl': "sl' = emit [Inst Always (MoveReg t src), Inst Always (FRegInst FrI2F dst t)] sl5"
      and v: "v = i2f (a_reg s (f src))"
      using sel assms(6) u(1) by (auto simp: bind_eq_Some_conv split: prod.splits)
    note k = tmp [OF m]
    have one: "code_ok env f (sl_reg_n sl) t (a_reg s (f src)) [Inst Always (MoveReg t src)] s (set_reg (f t) (a_reg s (f src)) s)"
      by (rule code_single [OF f c]) simp
    have sl'': "sl' = emit ([Inst Always (MoveReg t src)] @ [Inst Always (FRegInst FrI2F dst t)]) sl5" using sl' by simp
    show ?thesis
      by (rule fin [OF _ _ sl'' code_then [OF f one]]) (use k le in \<open>simp_all add: v\<close>)
  next
    case F2I
    then obtain t sl3 sl4 sl5 where m: "arm_new_reg sl1 = (t, sl3)" "set_float src sl3 = Some sl4" "set_float t sl4 = Some sl5"
      and sl': "sl' = emit [Inst Always (FRegInst FrF2I t src), Inst Always (MoveReg dst t)] sl5"
      and v: "f2i (a_reg s (f src)) = Some v"
      using sel assms(6) u(1) by (auto simp: bind_eq_Some_conv split: prod.splits)
    note k = tmp [OF m]
    have one: "code_ok env f (sl_reg_n sl) t v [Inst Always (FRegInst FrF2I t src)] s (set_reg (f t) v s)"
      by (rule code_single [OF f c]) (simp add: vcvt_f2i_Some [OF v])
    have sl'': "sl' = emit ([Inst Always (FRegInst FrF2I t src)] @ [Inst Always (MoveReg dst t)]) sl5" using sl' by simp
    show ?thesis
      by (rule fin [OF _ _ sl'' code_then [OF f one]]) (use k le in simp_all)
  qed (use assms(7) in \<open>simp_all add: unary_selectable_def\<close>)
qed

lemma select_binary_ok:
  assumes wf: "sel_wf sl" and f: "keeps_ids f" and sim: "sel_sim f sl fr st s" and sel: "select_binary d x y op sl = Some sl'"
    and "fr_regs fr x = Some a" and "fr_regs fr y = Some b" and "compute_binary op a b = Some v" and "binary_agrees op a b"
    and "x \<noteq> d" and "y \<noteq> d" and nc: "not_constant sl d" and w: "w_reg d v fr = Some fr'"
  shows "step_ok env f {d} sl sl' fr' st s"
proof -
  obtain dst sl1 where dst: "from_ir_reg d sl = (dst, sl1)" by (cases "from_ir_reg d sl")
  obtain s1 sl2 where s1: "from_ir_reg x sl1 = (s1, sl2)" by (cases "from_ir_reg x sl1")
  obtain s2 sl3 where s2: "from_ir_reg y sl2 = (s2, sl3)" by (cases "from_ir_reg y sl2")
  note d = from_ir_dst [OF wf dst nc] and u = from_ir_use [OF sim d(2) assms(5) s1]
  note u2 = from_ir_use [OF sim d(2) assms(6) s2 [unfolded u(3)]]
  have c: "a_ctl s = Fall" using sim by (simp add: sel_sim_def)
  have ne: "ar_id s1 \<noteq> ar_id dst" "ar_id s2 \<noteq> ar_id dst"
    using apart_regs [OF d(1) _ d(3) assms(9), of s1] apart_regs [OF d(1) _ d(3) assms(10), of s2] u(2) u2(2) d(2)
    by (simp_all add: grows_def)
  note sel = sel [unfolded select_binary_def Let_def dst s1 u(3) s2 [unfolded u(3)] u2(3) prod.case]
  have fin: "step_ok env f {d} sl sl' fr' st s"
    if "same_numbers sl1 sl4" "with_code sl4 code sl'" "code_ok env f (sl_reg_n sl) dst v code s s'" for sl4 code s'
  proof (rule step_okI [OF wf _ _ that(2) _ sim w that(3) same_memory_refl])
    show "sel_wf sl4" using that(1) d(1) by (simp add: same_numbers_wf)
    show "grows sl sl4" by (rule grows_trans [OF d(2) same_numbers_grows [OF that(1)]])
    show "sl_regs sl4 d = Some dst" "sl_constant sl4 dst = None" using that(1) d(3,4) by (simp_all add: same_numbers_def)
  qed
  have cmp: "step_ok env f {d} sl sl' fr' st s"
    if k: "same_numbers sl1 sl4" "cond_of_ir op = Some cc" "sl' = select_compare dst s1 s2 cc (op \<in> {FLESS, FLEQ, FEQ, FNEQ}) sl4"
    for sl4 cc
  proof -
    let ?fl = "op \<in> {FLESS, FLEQ, FEQ, FNEQ}"
    have "cc \<noteq> Always" using k(2) by (cases op) auto
    from code_compare [OF f c this ne, of env "sl_reg_n sl" ?fl] obtain s' where
      "code_ok env f (sl_reg_n sl) dst v [Inst Always (MoveImm Mov dst 0),
         Inst Always (if ?fl then FRegRegCmp s1 s2 else RegRegCmp Cmp s1 s2), Inst cc (MoveImm Mov dst 1)] s s'"
      using compare_agrees [OF assms(7,8) k(2)] u(1) u2(1) by auto
    moreover have "with_code sl4 [Inst Always (MoveImm Mov dst 0),
         Inst Always (if ?fl then FRegRegCmp s1 s2 else RegRegCmp Cmp s1 s2), Inst cc (MoveImm Mov dst 1)] sl'"
      by (simp add: k(3) select_compare_def emit_def with_code_def)
    ultimately show ?thesis by (rule fin [OF k(1), rotated])
  qed
  have refl: "same_numbers sl1 sl1" by (simp add: same_numbers_def)
  consider (int) "op \<in> {ADD, SUB, MUL, DIV, MOD}" | (float) "op \<in> {FADD, FSUB, FMUL, FDIV}"
    | (icmp) "op \<in> {LESS, LEQ, EQ, NEQ}" | (fcmp) "op \<in> {FLESS, FLEQ, FEQ, FNEQ}"
    using sel by (auto split: if_splits)
  then show ?thesis
  proof cases
    case int
    then obtain o' where o': "rr_op_of_ir op = Some o'" and sl': "sl' = emit [Inst Always (RegRegInst o' dst s1 s2 no_shift)] sl1"
      using sel by auto
    have v: "rr_value o' a b = v" by (rule rr_value_agrees [OF assms(7,8) o'])
    show ?thesis
      unfolding sl' by (rule fin [unfolded sl', OF refl with_code_emit code_single [OF f c]]) (use u(1) u2(1) v in \<open>simp add: no_shift_def\<close>)
  next
    case float
    then obtain o' sl4 sl5 sl6 where o': "frr_op_of_ir op = Some o'" and
      m: "set_float dst sl1 = Some sl4" "set_float s1 sl4 = Some sl5" "set_float s2 sl5 = Some sl6"
      and sl': "sl' = emit [Inst Always (FRegRegInst o' dst s1 s2)] sl6"
      using sel by (auto simp: bind_eq_Some_conv)
    have v: "frr_value o' a b = v" by (rule frr_value_agrees [OF assms(7) o'])
    have "same_numbers sl1 sl6"
      using same_numbers_trans [OF set_float_same [OF m(1)] same_numbers_trans [OF set_float_same [OF m(2)] set_float_same [OF m(3)]]] .
    then show ?thesis
      unfolding sl' by (rule fin [unfolded sl', OF _ with_code_emit code_single [OF f c]]) (use u(1) u2(1) v in simp)
  next
    case icmp
    then have "op \<notin> {FLESS, FLEQ, FEQ, FNEQ}" by auto
    moreover obtain cc where "cond_of_ir op = Some cc" "sl' = select_compare dst s1 s2 cc False sl1"
      using sel icmp by auto
    ultimately show ?thesis using cmp [OF refl] by simp
  next
    case fcmp
    then obtain cc sl4 sl5 where m: "set_float s1 sl1 = Some sl4" "set_float s2 sl4 = Some sl5" "cond_of_ir op = Some cc"
      "sl' = select_compare dst s1 s2 cc True sl5"
      using sel by (auto simp: bind_eq_Some_conv)
    have "same_numbers sl1 sl5" by (rule same_numbers_trans [OF set_float_same [OF m(1)] set_float_same [OF m(2)]])
    then show ?thesis using cmp m(3,4) fcmp by simp
  qed
qed

lemma select_array_index_ok:
  assumes wf: "sel_wf sl" and f: "keeps_ids f" and sim: "sel_sim f sl fr st s" and sel: "select_array_index d x y sz sl = sl'"
    and "fr_regs fr x = Some a" and "fr_regs fr y = Some b" and "x \<noteq> d" and "y \<noteq> d"
    and nc: "not_constant sl d" and w: "w_reg d (a + b * sz) fr = Some fr'"
  shows "step_ok env f {d} sl sl' fr' st s"
proof -
  obtain dst sl1 where dst: "from_ir_reg d sl = (dst, sl1)" by (cases "from_ir_reg d sl")
  obtain s1 sl2 where s1: "from_ir_reg x sl1 = (s1, sl2)" by (cases "from_ir_reg x sl1")
  obtain s2 sl3 where s2: "from_ir_reg y sl2 = (s2, sl3)" by (cases "from_ir_reg y sl2")
  note d = from_ir_dst [OF wf dst nc] and u = from_ir_use [OF sim d(2) assms(5) s1]
  note u2 = from_ir_use [OF sim d(2) assms(6) s2 [unfolded u(3)]]
  have c: "a_ctl s = Fall" using sim by (simp add: sel_sim_def)
  have le: "sl_reg_n sl \<le> sl_reg_n sl1" using d(2) by (simp add: grows_def)
  note sel = sel [unfolded select_array_index_def Let_def dst s1 u(3) s2 [unfolded u(3)] u2(3) prod.case]
  have fin: "step_ok env f {d} sl sl' fr' st s"
    if "sel_wf sl3" "grows sl1 sl3" "sl' = emit code sl3" "code_ok env f (sl_reg_n sl) dst (a + b * sz) code s s'" for sl3 code s'
  proof (rule step_okI [OF wf that(1) grows_trans [OF d(2) that(2)] _ _ sim w that(4) same_memory_refl])
    show "with_code sl3 code sl'" by (simp add: that(3))
    show "sl_regs sl3 d = Some dst" "sl_constant sl3 dst = None" using that(2) d(3,4) by (simp_all add: grows_def)
  qed
  consider (const) k where "sl_constant sl1 s2 = Some k" "sl' = emit [Inst Always (RegImmInst IAdd dst s1 (k * sz))] sl1"
    | (four) "sz = 4" "sl' = emit [Inst Always (RegRegInst RAdd dst s1 s2 (Shift LSL 2))] sl1"
    | (mla) t sl4 where "arm_new_reg sl1 = (t, sl4)" "sl' = emit (load_imm t sz @ [Inst Always (MLInst Mla dst s2 t s1)]) sl4"
    using sel by (auto split: option.splits if_splits prod.splits)
  then show ?thesis
  proof cases
    case const
    have "sl_constant sl s2 = Some k" using const(1) d(2) by (simp add: grows_def)
    then have "b = k" using sim assms(6) u2(2) unfolding sel_sim_def by blast
    then show ?thesis
      using u(1) by (intro fin [OF d(1) grows_refl const(2) code_single [OF f c]]) simp
  next
    case four
    have "push_bit 2 b = b * (4 :: w32)" by (simp add: push_bit_eq_mult)
    then show ?thesis
      using u(1) u2(1) four(1) by (intro fin [OF d(1) grows_refl four(2) code_single [OF f c]]) simp
  next
    case mla
    note n = arm_new_reg_ok [OF d(1) mla(1)]
    have t: "sl_reg_n sl \<le> ar_id t" using n(3) le by simp
    have apart: "ar_id s1 \<noteq> ar_id t" "ar_id s2 \<noteq> ar_id t"
    proof -
      have "ar_id r < sl_reg_n sl" if "sl_regs sl z = Some r" for z r using wf that unfolding sel_wf_def by blast
      then show "ar_id s1 \<noteq> ar_id t" "ar_id s2 \<noteq> ar_id t" using u(2) u2(2) t by fastforce+
    qed
    have "exec_op env (map_op_regs f (MLInst Mla dst s2 t s1)) (set_reg (f t) sz s) =
        Some (set_reg (f dst) (a + b * sz) (set_reg (f t) sz s))"
      using keeps_ids_inj [OF f apart(1)] keeps_ids_inj [OF f apart(2)] u(1) u2(1) by (simp add: add.commute)
    then show ?thesis
      using n(1,2) by (intro fin [OF _ _ mla(2) code_then [OF f code_load_imm [OF f c] t]])
  qed
qed

text \<open>A constant is remembered under its machine register.\<close>

lemma sim_constant:
  assumes "sel_wf sl" and "sel_sim f sl fr st s" and "sl_regs sl d = Some dst" and "fr_regs fr d = Some v"
  shows "sel_sim f (sl\<lparr>sl_constant := (sl_constant sl)(dst \<mapsto> v)\<rparr>) fr st s"
proof -
  have "x = d" if "sl_regs sl x = Some dst" for x using assms(1,3) that unfolding sel_wf_def by blast
  then show ?thesis using assms(2,4) unfolding sel_sim_def by (auto split: if_splits)
qed

lemma sim_constant_tmp:
  assumes "sel_sim f sl fr st s" and "\<forall>x. sl_regs sl x \<noteq> Some t"
  shows "sel_sim f (sl\<lparr>sl_constant := (sl_constant sl)(t \<mapsto> v)\<rparr>) fr st s"
  using assms unfolding sel_sim_def by auto

lemma wf_constant:
  assumes "sel_wf sl" and "ar_id t < sl_reg_n sl"
  shows "sel_wf (sl\<lparr>sl_constant := (sl_constant sl)(t \<mapsto> v)\<rparr>)"
  using assms unfolding sel_wf_def by auto

lemma step_ok_more:
  assumes "step_ok env f {d} sl sl1 fr st s" and "sl_insts sl2 = sl_insts sl1" and "sel_wf sl1 \<Longrightarrow> sel_wf sl2"
    and "kept_constants {d} sl sl1 \<Longrightarrow> kept_constants {d} sl sl2"
    and "\<And>s'. sel_wf sl1 \<Longrightarrow> sel_sim f sl1 fr st s' \<Longrightarrow> sel_sim f sl2 fr st s'"
  shows "step_ok env f {d} sl sl2 fr st s"
  using assms unfolding step_ok_def by metis

lemma select_const_ok:
  assumes wf: "sel_wf sl" and f: "keeps_ids f" and sim: "sel_sim f sl fr st s" and nc: "not_constant sl d"
    and w: "w_reg d v fr = Some fr'"
  shows "step_ok env f {d} sl (select_const_int d v sl) fr' st s"
proof -
  obtain dst sl1 where dst: "from_ir_reg d sl = (dst, sl1)" by (cases "from_ir_reg d sl")
  note d = from_ir_dst [OF wf dst nc]
  have c: "a_ctl s = Fall" using sim by (simp add: sel_sim_def)
  let ?sl = "emit (load_imm dst v) sl1"
  have "step_ok env f {d} sl ?sl fr' st s"
    by (rule step_okI [OF wf d(1,2) with_code_emit d(3) sim w code_load_imm [OF f c] same_memory_refl d(4)])
  moreover have "select_const_int d v sl = ?sl\<lparr>sl_constant := (sl_constant ?sl)(dst \<mapsto> v)\<rparr>"
    by (simp add: select_const_int_def dst emit_def)
  moreover have "fr_regs fr' d = Some v" using w by (auto simp: w_reg_def split: if_splits)
  moreover have "sl_regs ?sl d = Some dst" using d(3) by (simp add: emit_def)
  moreover have "ar_id dst < sl_reg_n ?sl" using d(1,3) unfolding sel_wf_def by (simp add: emit_def)
  moreover have "kept_constants {d} sl ?sl \<Longrightarrow> kept_constants {d} sl (?sl\<lparr>sl_constant := (sl_constant ?sl)(dst \<mapsto> v)\<rparr>)"
  proof -
    have "x = d" if "sl_regs sl1 x = Some dst" for x using d(1,3) that unfolding sel_wf_def by blast
    then show "kept_constants {d} sl ?sl \<Longrightarrow> kept_constants {d} sl (?sl\<lparr>sl_constant := (sl_constant ?sl)(dst \<mapsto> v)\<rparr>)"
      unfolding kept_constants_def by (auto simp: emit_def split: if_splits)
  qed
  ultimately show ?thesis using step_ok_more [of env f d sl ?sl fr' st s] sim_constant wf_constant by simp
qed

lemma select_const_float_ok:
  assumes wf: "sel_wf sl" and f: "keeps_ids f" and sim: "sel_sim f sl fr st s" and nc: "not_constant sl d"
    and w: "w_reg d v fr = Some fr'"
  shows "step_ok env f {d} sl (select_const_float d v sl) fr' st s"
proof -
  obtain t sl1 where t: "arm_new_reg sl = (t, sl1)" by (cases "arm_new_reg sl")
  obtain dst sl2 where dst: "from_ir_reg d sl1 = (dst, sl2)" by (cases "from_ir_reg d sl1")
  note n = arm_new_reg_ok [OF wf t]
  have nc1: "not_constant sl1 d" using nc n(2,5) by (auto simp: not_constant_def grows_def)
  note d = from_ir_dst [OF n(1) dst nc1]
  have c: "a_ctl s = Fall" using sim by (simp add: sel_sim_def)
  let ?code = "load_imm t v @ [Inst Always (MoveReg dst t)]"
  let ?sl = "emit ?code sl2"
  have code: "code_ok env f (sl_reg_n sl) dst v ?code s (set_reg (f dst) v (set_reg (f t) v s))"
    by (rule code_then [OF f code_load_imm [OF f c]]) (simp_all add: n(3))
  have "step_ok env f {d} sl ?sl fr' st s"
    by (rule step_okI [OF wf d(1) grows_trans [OF n(2) d(2)] with_code_emit d(3) sim w code same_memory_refl d(4)])
  moreover have "select_const_float d v sl = ?sl\<lparr>sl_constant := (sl_constant ?sl)(t \<mapsto> v)\<rparr>"
    by (simp add: select_const_float_def t dst emit_def)
  moreover have "sl_regs ?sl x \<noteq> Some t" for x
  proof
    assume x: "sl_regs ?sl x = Some t"
    then have x2: "sl_regs sl2 x = Some t" by (simp add: emit_def)
    show False
    proof (cases "sl_regs sl1 x")
      case None
      then have "t = AReg IntT (sl_reg_n sl1)"
        using x2 dst by (auto simp: from_ir_reg_def arm_new_reg_def split: option.splits if_splits)
      then show False using n(3,4) by simp
    next
      case (Some r)
      then have "r = t" using x2 d(2) by (auto simp: grows_def)
      then show False using Some n(3,5) wf unfolding sel_wf_def by fastforce
    qed
  qed
  moreover have "ar_id t < sl_reg_n ?sl" using n(3,4) d(2) by (simp add: emit_def grows_def)
  moreover have "kept_constants {d} sl ?sl \<Longrightarrow> kept_constants {d} sl (?sl\<lparr>sl_constant := (sl_constant ?sl)(t \<mapsto> v)\<rparr>)"
    using calculation(3) unfolding kept_constants_def by (auto split: if_splits)
  ultimately show ?thesis using step_ok_more [of env f d sl ?sl fr' st s] sim_constant_tmp wf_constant by simp
qed

text \<open>Loads and stores; the interpreter allows aligned addresses only.\<close>

lemma sint_mod4:
  assumes "0 \<le> sint (a :: w32)" and "sint a mod 4 = 0"
  shows "a AND 3 = 0"
proof -
  have "a AND 3 = take_bit 2 a" by (simp add: take_bit_eq_mask mask_eq_exp_minus_1)
  moreover have "uint a = sint a" using assms(1) by (simp add: uint_of_sint)
  then have "uint (take_bit 2 a) = 0" using assms(2) by (simp add: unsigned_take_bit_eq take_bit_int_def)
  ultimately show ?thesis by (simp add: uint_0_iff)
qed

lemma mem_ok_aligned: "mem_ok st a \<Longrightarrow> a AND 3 = 0"
  by (auto simp: mem_ok_def intro: sint_mod4)

lemma word_slot:
  assumes "mem_ok st a" and "mem_ok st b" and "sint a div 4 = sint b div 4"
  shows "a = b"
proof -
  have "sint a = sint b" using assms by (metis mem_ok_def mult_div_mod_eq add_0_right)
  then show ?thesis by (simp add: sint_eq_iff)
qed

definition plain_offset :: "w32 \<Rightarrow> int option \<Rightarrow> bool" where
  "plain_offset off ro = (ro = None \<or> off = 0)"

lemma select_load_ok:
  assumes wf: "sel_wf sl" and f: "keeps_ids f" and sim: "sel_sim f sl fr st s"
    and "fr_regs fr x = Some a" and "\<forall>y. ro = Some y \<longrightarrow> fr_regs fr y \<noteq> None" and "plain_offset off ro"
    and addr: "load_store_addr xe fr x off ro = Some ad" and mem: "r_mem ad st = Some (v, st')"
    and nc: "not_constant sl d" and w: "w_reg d v fr = Some fr'"
  shows "step_ok env f {d} sl (select_load d x off ro sl) fr' st' s"
proof -
  obtain dst sl1 where dst: "from_ir_reg d sl = (dst, sl1)" by (cases "from_ir_reg d sl")
  obtain s1 sl2 where s1: "from_ir_reg x sl1 = (s1, sl2)" by (cases "from_ir_reg x sl1")
  note d = from_ir_dst [OF wf dst nc] and u = from_ir_use [OF sim d(2) assms(4) s1]
  have c: "a_ctl s = Fall" using sim by (simp add: sel_sim_def)
  have base: "r_reg xe fr x = Some a"
    using addr assms(4) by (auto simp: load_store_addr_def bind_eq_Some_conv r_reg_def split: if_splits)
  have ok: "mem_ok st ad" and v: "v = ex_mem st (sint ad div 4)" and st': "same_memory st st'"
    using mem by (auto simp: r_mem_def same_memory_def split: if_splits)
  have "a_mem s ad = v" using sim ok v by (simp add: sel_sim_def)
  then have rd: "read_word s ad = Some v" using mem_ok_aligned [OF ok] by (simp add: read_word_def)
  note fin = step_okI [OF wf d(1,2) with_code_emit d(3) sim w _ st' d(4)]
  show ?thesis
  proof (cases ro)
    case None
    then have ad: "ad = a + off" using addr base by (simp add: load_store_addr_def)
    have "exec_op env (map_op_regs f (Load dst s1 off)) s = Some (set_reg (f dst) v s)"
      using rd u(1) ad by simp
    from fin [OF code_single [OF f c this]] show ?thesis
      using None by (simp add: select_load_def dst s1 u(3))
  next
    case (Some y)
    obtain s2 sl3 where s2: "from_ir_reg y sl2 = (s2, sl3)" by (cases "from_ir_reg y sl2")
    obtain b where b: "fr_regs fr y = Some b" using assms(5) Some by blast
    note u2 = from_ir_use [OF sim d(2) b s2 [unfolded u(3)]]
    have "r_reg xe fr y = Some b"
      using addr Some b base by (auto simp: load_store_addr_def bind_eq_Some_conv r_reg_def split: if_splits)
    then have ad: "ad = a + push_bit 2 b"
      using addr base Some assms(6) by (simp add: load_store_addr_def plain_offset_def push_bit_eq_mult)
    have "exec_op env (map_op_regs f (ComplexLoad dst s1 s2 (Shift LSL 2))) s = Some (set_reg (f dst) v s)"
      using rd u(1) u2(1) ad by simp
    from fin [OF code_single [OF f c this]] show ?thesis
      using Some by (simp add: select_load_def dst s1 u(3) s2 [unfolded u(3)] u2(3))
  qed
qed

lemma select_store_ok:
  assumes wf: "sel_wf sl" and f: "keeps_ids f" and sim: "sel_sim f sl fr st s"
    and "fr_regs fr x = Some a" and "fr_regs fr y = Some v" and "\<forall>y. ro = Some y \<longrightarrow> fr_regs fr y \<noteq> None"
    and "plain_offset off ro" and addr: "load_store_addr xe fr x off ro = Some ad" and mem: "w_mem ad v st = Some st'"
  shows "step_ok env f {} sl (select_store x y off ro sl) fr st' s"
proof -
  obtain r1 sl1 where r1: "from_ir_reg x sl = (r1, sl1)" by (cases "from_ir_reg x sl")
  note u = from_ir_use [OF sim grows_refl assms(4) r1]
  obtain r2 sl2 where r2: "from_ir_reg y sl1 = (r2, sl2)" by (cases "from_ir_reg y sl1")
  note u2 = from_ir_use [OF sim grows_refl assms(5) r2 [unfolded u(3)]]
  have c: "a_ctl s = Fall" using sim by (simp add: sel_sim_def)
  have base: "r_reg xe fr x = Some a"
    using addr assms(4) by (auto simp: load_store_addr_def bind_eq_Some_conv r_reg_def split: if_splits)
  have ok: "mem_ok st ad" and st': "st' = st\<lparr>ex_mem := (ex_mem st)(sint ad div 4 := v), ex_mem_w_cnt := ex_mem_w_cnt st + 1\<rparr>"
    using mem by (auto simp: w_mem_def split: if_splits)
  let ?s = "s\<lparr>a_mem := (a_mem s)(ad := v)\<rparr>"
  have wr: "write_word ad v s = Some ?s" using mem_ok_aligned [OF ok] by (simp add: write_word_def)
  have slot: "sint b div 4 = sint ad div 4 \<longleftrightarrow> b = ad" if "mem_ok st b" for b using word_slot [OF that ok] by auto
  have sim': "sel_sim f sl fr st' ?s"
    using sim slot by (simp add: sel_sim_def st' mem_ok_def)
  have fin: "step_ok env f {} sl (emit [Inst Always op] sl) fr st' s" if "exec_op env (map_op_regs f op) s = Some ?s" for op
    unfolding step_ok_def
  proof (intro conjI exI)
    show "sel_wf (emit [Inst Always op] sl)" using wf with_code_wf [OF with_code_emit] by simp
    show "kept_constants {} sl (emit [Inst Always op] sl)" by (simp add: kept_constants_def emit_def)
    show "sl_insts (emit [Inst Always op] sl) = sl_insts sl @ [Inst Always op]" by (simp add: emit_def)
    show "arm_run env (map (map_regs f) [Inst Always op]) s = Some ?s" using that c by (simp add: arm_step_always)
    show "a_base ?s = a_base s" by simp
    show "sel_sim f (emit [Inst Always op] sl) fr st' ?s" using sim' with_code_sim [OF with_code_emit] by metis
  qed
  show ?thesis
  proof (cases ro)
    case None
    then have ad: "ad = a + off" using addr base by (simp add: load_store_addr_def)
    have "exec_op env (map_op_regs f (Store r2 r1 off)) s = Some ?s" using wr u(1) u2(1) ad by simp
    from fin [OF this] show ?thesis using None by (simp add: select_store_def r1 u(3) r2 [unfolded u(3)] u2(3))
  next
    case (Some z)
    obtain r3 sl3 where r3: "from_ir_reg z sl2 = (r3, sl3)" by (cases "from_ir_reg z sl2")
    obtain b where b: "fr_regs fr z = Some b" using assms(6) Some by blast
    note u3 = from_ir_use [OF sim grows_refl b r3 [unfolded u2(3) u(3)]]
    have "r_reg xe fr z = Some b"
      using addr Some b base by (auto simp: load_store_addr_def bind_eq_Some_conv r_reg_def split: if_splits)
    then have ad: "ad = a + push_bit 2 b"
      using addr base Some assms(7) by (simp add: load_store_addr_def plain_offset_def push_bit_eq_mult)
    have "exec_op env (map_op_regs f (ComplexStore r2 r1 r3 (Shift LSL 2))) s = Some ?s"
      using wr u(1) u2(1) u3(1) ad by simp
    from fin [OF this] show ?thesis
      using Some by (simp add: select_store_def r1 u(3) r2 [unfolded u(3)] u2(3) r3 [unfolded u2(3) u(3)] u3(3))
  qed
qed

section \<open>Straight-line code\<close>

fun straight :: "instr \<Rightarrow> bool" where
  "straight (LoadConstI d v) = True"
| "straight (LoadConstF d v) = True"
| "straight (UnaryOpI d x u) = unary_selectable u"
| "straight (BinaryOpI d x y op) = (op \<noteq> SHL)"
| "straight (ArrayIndex d x y sz l) = True"
| "straight (LoadInstr d x off ro) = plain_offset off ro"
| "straight (StoreInstr x y off ro) = plain_offset off ro"
| "straight _ = False"

text \<open>The registers of which the selection remembers something, once the instruction is there: the
  defined one may be a constant or a comparison, and a comparison refers to its operands.\<close>

fun pinned :: "instr \<Rightarrow> int set" where
  "pinned (BinaryOpI d x y op) = {d, x, y}"
| "pinned i = set_option (def_of i)"

lemma pinned_def_of: "set_option (def_of i) \<subseteq> pinned i"
  by (cases i) auto

text \<open>No instruction defines a register it reads, or one of \<open>D\<close> or remembered since.\<close>

fun ssa_from :: "int set \<Rightarrow> instr list \<Rightarrow> bool" where
  "ssa_from D [] = True"
| "ssa_from D (i # is) =
     (straight i \<and> set_option (def_of i) \<inter> (D \<union> set (uses_of i)) = {} \<and> ssa_from (D \<union> pinned i) is)"

text \<open>The interpreter on such code, stopped where it reads an undefined register or applies an operator
  to operands on which the machine differs.\<close>

definition defined_at :: "frame \<Rightarrow> instr \<Rightarrow> bool" where
  "defined_at fr i =
     (list_all (\<lambda>x. fr_regs fr x \<noteq> None) (uses_of i) \<and>
      (case i of BinaryOpI d x y op \<Rightarrow> binary_agrees op (the (fr_regs fr x)) (the (fr_regs fr y)) | _ \<Rightarrow> True))"

definition ir_step :: "exec_env \<Rightarrow> instr \<Rightarrow> frame \<times> exec_state \<Rightarrow> (frame \<times> exec_state) option" where
  "ir_step xe i p =
     (if defined_at (fst p) i
      then (case exec_simple xe i (fst p) (snd p) of
              Some (NextInstr, fr, st) \<Rightarrow> Some (fr, st)
            | _ \<Rightarrow> None)
      else None)"

lemma ir_stepD:
  assumes "ir_step xe i (fr, st) = Some (fr', st')"
  shows "defined_at fr i" and "exec_simple xe i fr st = Some (NextInstr, fr', st')"
  using assms by (auto simp: ir_step_def split: if_splits option.splits ctl.splits)

lemma select_instr_ok:
  assumes wf: "sel_wf sl" and f: "keeps_ids f" and sim: "sel_sim f sl fr st s" and "straight i"
    and nc: "\<forall>d. def_of i = Some d \<longrightarrow> not_constant sl d \<and> d \<notin> set (uses_of i)"
    and sel: "select_instr cx i sl = Some sl'" and run: "ir_step xe i (fr, st) = Some (fr', st')"
  shows "step_ok env f (set_option (def_of i)) sl sl' fr' st' s"
proof -
  note df = ir_stepD(1) [OF run, unfolded defined_at_def] and ex = ir_stepD(2) [OF run]
  show ?thesis
  proof (cases i)
    case (LoadConstI d v)
    then show ?thesis using ex sel nc select_const_ok [OF wf f sim, of d v fr'] by (auto simp: bind_eq_Some_conv)
  next
    case (LoadConstF d v)
    then show ?thesis using ex sel nc select_const_float_ok [OF wf f sim, of d v fr'] by (auto simp: bind_eq_Some_conv)
  next
    case (UnaryOpI d x u)
    obtain a where a: "fr_regs fr x = Some a" using df UnaryOpI by auto
    obtain v where v: "compute_unary u a = Some v" "w_reg d v fr = Some fr'" "st' = st"
      using ex UnaryOpI r_reg_defined [of xe fr x] a by (auto simp: bind_eq_Some_conv)
    show ?thesis
      using select_unary_ok [OF wf f sim _ a v(1) _ _ _ v(2), of sl'] sel nc assms(4) UnaryOpI v(3) by auto
  next
    case (BinaryOpI d x y op)
    obtain a b where a: "fr_regs fr x = Some a" "fr_regs fr y = Some b" using df BinaryOpI by auto
    obtain v where v: "compute_binary op a b = Some v" "w_reg d v fr = Some fr'" "st' = st"
      using ex BinaryOpI r_reg_defined [of xe fr x] r_reg_defined [of xe fr y] a by (auto simp: bind_eq_Some_conv)
    show ?thesis
      using select_binary_ok [OF wf f sim _ a v(1) _ _ _ _ v(2), of sl'] sel nc df BinaryOpI a v(3) by auto
  next
    case (ArrayIndex d x y sz l)
    obtain a b where a: "fr_regs fr x = Some a" "fr_regs fr y = Some b" using df ArrayIndex by auto
    have w: "w_reg d (a + b * sz) fr = Some fr'" "st' = st"
      using ex ArrayIndex r_reg_defined [of xe fr x] r_reg_defined [of xe fr y] a by (auto simp: bind_eq_Some_conv)
    show ?thesis
      using select_array_index_ok [OF wf f sim _ a _ _ _ w(1), of sl'] sel nc ArrayIndex w(2) by auto
  next
    case (LoadInstr d x off ro)
    obtain a where a: "fr_regs fr x = Some a" using df LoadInstr by auto
    have ro: "\<forall>y. ro = Some y \<longrightarrow> fr_regs fr y \<noteq> None" using df LoadInstr by auto
    obtain ad v where v: "load_store_addr xe fr x off ro = Some ad" "r_mem ad st = Some (v, st')" "w_reg d v fr = Some fr'"
      using ex LoadInstr by (auto simp: bind_eq_Some_conv)
    show ?thesis
      using select_load_ok [OF wf f sim a ro _ v(1,2) _ v(3)] sel nc assms(4) LoadInstr by auto
  next
    case (StoreInstr x y off ro)
    obtain a v where a: "fr_regs fr x = Some a" "fr_regs fr y = Some v" using df StoreInstr by auto
    have ro: "\<forall>y. ro = Some y \<longrightarrow> fr_regs fr y \<noteq> None" using df StoreInstr by auto
    obtain ad where v: "load_store_addr xe fr x off ro = Some ad" "w_mem ad v st = Some st'" "fr' = fr"
      using ex StoreInstr r_reg_defined [of xe fr y] a by (auto simp: bind_eq_Some_conv)
    show ?thesis
      using select_store_ok [OF wf f sim a ro _ v(1,2)] sel assms(4) StoreInstr v(3) by auto
  qed (use assms(4) in simp_all)
qed

definition constants_in :: "int set \<Rightarrow> sel_state \<Rightarrow> bool" where
  "constants_in D sl = (\<forall>x r c. sl_regs sl x = Some r \<longrightarrow> sl_constant sl r = Some c \<longrightarrow> x \<in> D)"

lemma constants_not: "constants_in D sl \<Longrightarrow> d \<notin> D \<Longrightarrow> not_constant sl d"
  unfolding constants_in_def not_constant_def by (metis not_None_eq)

lemma constants_step: "constants_in D sl \<Longrightarrow> kept_constants E sl sl' \<Longrightarrow> E \<subseteq> F \<Longrightarrow> constants_in (D \<union> F) sl'"
  unfolding constants_in_def kept_constants_def by blast

text \<open>Selection itself always ends on such code.\<close>

lemma set_float_total:
  assumes "finite (maybe_regs st)"
  shows "\<exists>st'. set_float r st = Some st' \<and> finite (maybe_regs st')"
proof -
  from set_floats_ends [of "insert r (maybe_regs st)" "[r]" st] assms obtain st' where
    "set_floats [r] st = Some st'" "maybe_regs st' \<subseteq> maybe_regs st" by auto
  then show ?thesis using assms finite_subset unfolding set_float_def by blast
qed

lemma maybe_from_ir [simp]: "maybe_regs (snd (from_ir_reg x st)) = maybe_regs st"
  by (simp add: from_ir_reg_def arm_new_reg_def maybe_regs_def split: option.split)

lemma maybe_new [simp]: "maybe_regs (snd (arm_new_reg st)) = maybe_regs st"
  by (simp add: arm_new_reg_def maybe_regs_def)

lemma maybe_emit [simp]: "maybe_regs (emit is st) = maybe_regs st"
  by (simp add: emit_def maybe_regs_def)

lemma maybe_fields [simp]:
  "maybe_regs (st\<lparr>sl_constant := c\<rparr>) = maybe_regs st" "maybe_regs (st\<lparr>sl_cmp := d\<rparr>) = maybe_regs st"
  by (simp_all add: maybe_regs_def)

lemma set_maybe_total:
  assumes "finite (maybe_regs st)"
  shows "\<exists>st'. set_maybe_float_assign a b st = Some st' \<and> finite (maybe_regs st')"
proof (cases "a \<in> sl_float st \<or> b \<in> sl_float st")
  case True
  obtain st1 where 1: "set_float a st = Some st1" "finite (maybe_regs st1)" using set_float_total [OF assms] by blast
  obtain st2 where "set_float b st1 = Some st2" "finite (maybe_regs st2)" using set_float_total [OF 1(2)] by blast
  then show ?thesis using 1 True by (simp add: set_maybe_float_assign_def)
next
  case False
  let ?m = "(sl_maybe st)(a := sl_maybe st a @ [b])"
  let ?st = "st\<lparr>sl_maybe := ?m(b := ?m b @ [a])\<rparr>"
  have "maybe_regs ?st \<subseteq> maybe_regs st \<union> {a, b}" by (auto simp: maybe_regs_def split: if_splits)
  then have "finite (maybe_regs ?st)" using assms finite_subset by blast
  then show ?thesis using False by (simp add: set_maybe_float_assign_def Let_def)
qed

lemma select_unary_total:
  assumes "finite (maybe_regs st)" and "unary_selectable u"
  shows "\<exists>st'. select_unary d x u st = Some st' \<and> finite (maybe_regs st')"
proof -
  obtain dst st1 where 1: "from_ir_reg d st = (dst, st1)" by (cases "from_ir_reg d st")
  obtain src st2 where 2: "from_ir_reg x st1 = (src, st2)" by (cases "from_ir_reg x st1")
  obtain t st3 where 3: "arm_new_reg st2 = (t, st3)" by (cases "arm_new_reg st2")
  have f: "finite (maybe_regs st2)" "finite (maybe_regs st3)"
    using assms(1) maybe_from_ir [of d st] maybe_from_ir [of x st1] maybe_new [of st2] 1 2 3 by simp_all
  have two: "\<exists>u v. set_float a w = Some u \<and> set_float b u = Some v \<and> finite (maybe_regs v)"
    if "finite (maybe_regs w)" for a b w
    using set_float_total [OF that, of a] set_float_total by blast
  show ?thesis
    using two [OF f(1), of dst src] two [OF f(2), of dst t] two [OF f(2), of src t] set_maybe_total [OF f(1), of dst src]
      f assms(2) by (cases u) (auto simp: select_unary_def 1 2 3 Let_def unary_selectable_def)
qed

lemma select_binary_total:
  assumes "finite (maybe_regs st)" and "op \<noteq> SHL"
  shows "\<exists>st'. select_binary d x y op st = Some st' \<and> finite (maybe_regs st')"
proof -
  obtain dst st1 where 1: "from_ir_reg d st = (dst, st1)" by (cases "from_ir_reg d st")
  obtain a st2 where 2: "from_ir_reg x st1 = (a, st2)" by (cases "from_ir_reg x st1")
  obtain b st3 where 3: "from_ir_reg y st2 = (b, st3)" by (cases "from_ir_reg y st2")
  have f: "finite (maybe_regs st3)"
    using assms(1) maybe_from_ir [of d st] maybe_from_ir [of x st1] maybe_from_ir [of y st2] 1 2 3 by simp
  obtain u where u: "set_float dst st3 = Some u" "finite (maybe_regs u)" using set_float_total [OF f] by blast
  obtain v where v: "set_float a u = Some v" "finite (maybe_regs v)" using set_float_total [OF u(2)] by blast
  obtain w where w: "set_float b v = Some w" "finite (maybe_regs w)" using set_float_total [OF v(2)] by blast
  obtain p where p: "set_float a st3 = Some p" "finite (maybe_regs p)" using set_float_total [OF f] by blast
  obtain q where q: "set_float b p = Some q" "finite (maybe_regs q)" using set_float_total [OF p(2)] by blast
  show ?thesis
    using f u v w p q assms(2) by (cases op) (simp_all add: select_binary_def 1 2 3 Let_def select_compare_def)
qed

lemma select_straight_total:
  assumes "finite (maybe_regs st)" and "straight i"
  shows "\<exists>st'. select_instr cx i st = Some st' \<and> finite (maybe_regs st')"
proof -
  have pair: "maybe_regs (snd p) = maybe_regs w" if "p = from_ir_reg x w \<or> p = arm_new_reg w" for p x w using that by auto
  show ?thesis
  proof (cases i)
    case (UnaryOpI d x u)
    then show ?thesis using select_unary_total assms by simp
  next
    case (BinaryOpI d x y op)
    then show ?thesis using select_binary_total assms by simp
  next
    case (ArrayIndex d x y sz l)
    then show ?thesis using assms(1)
      by (auto simp: select_array_index_def Let_def case_prod_beta split: option.splits)
  next
    case (LoadInstr d x off ro)
    then show ?thesis using assms(1) by (auto simp: select_load_def Let_def case_prod_beta split: option.splits)
  next
    case (StoreInstr x y off ro)
    then show ?thesis using assms(1) by (auto simp: select_store_def Let_def case_prod_beta split: option.splits)
  qed (use assms in \<open>auto simp: select_const_int_def select_const_float_def Let_def case_prod_beta\<close>)
qed

lemma select_straight_ends:
  "finite (maybe_regs st) \<Longrightarrow> ssa_from D is \<Longrightarrow> \<exists>st'. select_instrs cx is st = Some st'"
proof (induction "is" arbitrary: st D)
  case (Cons i "is")
  have f: "finite (maybe_regs st)" and s: "straight i" using Cons.prems by simp_all
  from select_straight_total [OF f s, of cx] obtain st1
    where st1: "select_instr cx i st = Some st1" "finite (maybe_regs st1)" by blast
  from Cons.prems(2) obtain D' where "ssa_from D' is" by auto
  from Cons.IH [OF st1(2) this] st1(1) show ?case by auto
qed simp

end
