(* ===== verification/SelectBlock.thy ===== *)
theory SelectBlock
  imports SelectFacts
begin

text \<open>
  Whole blocks: what the selection remembers of comparisons stays true, so that the branch at the end of
  a block, which compares again, goes where the interpreter goes.
\<close>

section \<open>Growth of the numbering\<close>

text \<open>Registers only get added, and no comparison is noted.\<close>

definition sel_extends :: "sel_state \<Rightarrow> sel_state \<Rightarrow> bool" where
  "sel_extends a b =
     (sl_reg_n a \<le> sl_reg_n b \<and> sl_cmp b = sl_cmp a \<and> (\<forall>x r. sl_regs a x = Some r \<longrightarrow> sl_regs b x = Some r) \<and>
      (\<forall>x r. sl_regs b x = Some r \<longrightarrow> sl_regs a x = Some r \<or> sl_reg_n a \<le> ar_id r))"

lemma sel_extends_refl [simp]: "sel_extends a a"
  by (simp add: sel_extends_def)

lemma sel_extends_trans [trans]: "sel_extends a b \<Longrightarrow> sel_extends b c \<Longrightarrow> sel_extends a c"
  unfolding sel_extends_def by (metis order_trans)

lemma sel_extends_from_ir: "sel_extends a (snd (from_ir_reg x a))"
  by (auto simp: sel_extends_def from_ir_reg_def arm_new_reg_def split: option.splits)

lemma sel_extends_new: "sel_extends a (snd (arm_new_reg a))"
  by (auto simp: sel_extends_def arm_new_reg_def)

lemma sel_extends_emit [simp]: "sel_extends a (emit is b) = sel_extends a b"
  by (simp add: sel_extends_def emit_def)

lemma sel_extends_constant [simp]: "sel_extends a (b\<lparr>sl_constant := c\<rparr>) = sel_extends a b"
  by (simp add: sel_extends_def)

lemma sel_extends_set_float: "set_float r a = Some b \<Longrightarrow> sel_extends a b"
  by (drule set_float_same) (simp add: sel_extends_def same_numbers_def)

lemma sel_extends_set_maybe: "set_maybe_float_assign x y a = Some b \<Longrightarrow> sel_extends a b"
  by (drule set_maybe_same) (simp add: sel_extends_def same_numbers_def)

text \<open>The composites of these steps.\<close>

lemma sel_extends_from_ir2: "sel_extends a b \<Longrightarrow> sel_extends a (snd (from_ir_reg x b))"
  using sel_extends_from_ir sel_extends_trans by blast

lemma sel_extends_new2: "sel_extends a b \<Longrightarrow> sel_extends a (snd (arm_new_reg b))"
  using sel_extends_new sel_extends_trans by blast

lemma sel_extends_set_float2: "set_float r b = Some c \<Longrightarrow> sel_extends a b \<Longrightarrow> sel_extends a c"
  using sel_extends_set_float sel_extends_trans by blast

lemma sel_extends_set_maybe2: "set_maybe_float_assign x y b = Some c \<Longrightarrow> sel_extends a b \<Longrightarrow> sel_extends a c"
  using sel_extends_set_maybe sel_extends_trans by blast

lemmas extends_rules = sel_extends_refl sel_extends_from_ir2 sel_extends_new2

lemmas extends_assign = sel_extends_set_float2 sel_extends_set_maybe2

lemma select_unary_extends: "select_unary d x u st = Some st' \<Longrightarrow> sel_extends st st'"
  by (cases u) (auto simp: select_unary_def Let_def case_prod_beta bind_eq_Some_conv,
      (erule extends_assign | rule extends_rules)+)

lemma select_array_index_extends: "sel_extends st (select_array_index d x y sz st)"
  by (auto simp: select_array_index_def Let_def case_prod_beta split: option.splits intro!: extends_rules)

text \<open>An operator that is no comparison; a comparison is noted with its operands.\<close>

lemma select_binary_extends:
  assumes "select_binary d x y op st = Some st'"
  shows "cond_of_ir op = None \<Longrightarrow> sel_extends st st'"
    and "cond_of_ir op = Some c \<Longrightarrow>
      \<exists>st1 dst s1 s2. sel_extends st st1 \<and> sl_regs st1 d = Some dst \<and> sl_regs st1 x = Some s1 \<and> sl_regs st1 y = Some s2 \<and>
        sl_reg_n st' = sl_reg_n st1 \<and> sl_regs st' = sl_regs st1 \<and>
        sl_cmp st' = (sl_cmp st1)(dst \<mapsto> \<lparr>ci_cond = c, ci_lhs = s1, ci_rhs = s2, ci_float = (op \<in> {FLESS, FLEQ, FEQ, FNEQ})\<rparr>)"
proof -
  show "sel_extends st st'" if "cond_of_ir op = None"
    using assms that
    by (cases op) (auto simp: select_binary_def Let_def case_prod_beta bind_eq_Some_conv,
      (erule extends_assign | rule extends_rules)+)
next
  assume c: "cond_of_ir op = Some c"
  obtain dst st1 where d: "from_ir_reg d st = (dst, st1)" by (cases "from_ir_reg d st")
  obtain s1 st2 where x: "from_ir_reg x st1 = (s1, st2)" by (cases "from_ir_reg x st1")
  obtain s2 st3 where y: "from_ir_reg y st2 = (s2, st3)" by (cases "from_ir_reg y st2")
  have mapped: "sl_regs w' z = Some r" if "from_ir_reg z w = (r, w')" for z w w' r
    using that by (auto simp: from_ir_reg_def arm_new_reg_def split: option.splits)
  have e: "sel_extends st st1" "sel_extends st1 st2" "sel_extends st2 st3"
    using sel_extends_from_ir [of st d] sel_extends_from_ir [of st1 x] sel_extends_from_ir [of st2 y] d x y by simp_all
  have r: "sl_regs st3 d = Some dst" "sl_regs st3 x = Some s1" "sl_regs st3 y = Some s2"
    using mapped [OF d] mapped [OF x] mapped [OF y] e unfolding sel_extends_def by auto
  obtain st4 where st4: "same_numbers st3 st4" "st' = select_compare dst s1 s2 c (op \<in> {FLESS, FLEQ, FEQ, FNEQ}) st4"
  proof (cases "op \<in> {FLESS, FLEQ, FEQ, FNEQ}")
    case True
    then obtain w v where w: "set_float s1 st3 = Some w" "set_float s2 w = Some v" "st' = select_compare dst s1 s2 c True v"
      using assms c d x y by (auto simp: select_binary_def bind_eq_Some_conv)
    have "same_numbers st3 v" by (rule same_numbers_trans [OF set_float_same [OF w(1)] set_float_same [OF w(2)]])
    then show ?thesis using that w(3) True by auto
  next
    case False
    then have "st' = select_compare dst s1 s2 c False st3"
      using assms c d x y by (cases op) (auto simp: select_binary_def)
    then show ?thesis using that [of st3] False by (simp add: same_numbers_def)
  qed
  have "sel_extends st st4" "sl_regs st4 = sl_regs st3"
    using sel_extends_trans [OF e(1) sel_extends_trans [OF e(2,3)]] st4(1) by (simp_all add: sel_extends_def same_numbers_def)
  then show "\<exists>st1 dst s1 s2. sel_extends st st1 \<and> sl_regs st1 d = Some dst \<and> sl_regs st1 x = Some s1 \<and> sl_regs st1 y = Some s2 \<and>
        sl_reg_n st' = sl_reg_n st1 \<and> sl_regs st' = sl_regs st1 \<and>
        sl_cmp st' = (sl_cmp st1)(dst \<mapsto> \<lparr>ci_cond = c, ci_lhs = s1, ci_rhs = s2, ci_float = (op \<in> {FLESS, FLEQ, FEQ, FNEQ})\<rparr>)"
    using r st4(2) by (intro exI [of _ st4] exI [of _ dst] exI [of _ s1] exI [of _ s2])
      (simp add: select_compare_def emit_def)
qed

text \<open>Whether an instruction is a comparison.\<close>

definition compares :: "instr \<Rightarrow> bool" where
  "compares i = (case i of BinaryOpI d x y op \<Rightarrow> cond_of_ir op \<noteq> None | _ \<Rightarrow> False)"

lemma select_instr_extends:
  assumes "straight i" and "\<not> compares i" and "select_instr cx i st = Some st'"
  shows "sel_extends st st'"
proof (cases i)
  case (UnaryOpI d x u)
  then show ?thesis using assms select_unary_extends by simp
next
  case (BinaryOpI d x y op)
  then show ?thesis using assms select_binary_extends(1) by (simp add: compares_def)
next
  case (ArrayIndex d x y sz l)
  then show ?thesis using assms select_array_index_extends by auto
qed (use assms in \<open>auto simp: select_const_int_def select_const_float_def select_load_def select_store_def Let_def
    case_prod_beta split: option.splits intro!: extends_rules\<close>)

section \<open>Remembered comparisons\<close>

text \<open>A register noted as a comparison holds its result: nonzero exactly when the condition holds of what
  the operands hold. \<open>D\<close> contains all the registers involved.\<close>

definition cmp_holds :: "cmp_info \<Rightarrow> w32 \<Rightarrow> w32 \<Rightarrow> bool" where
  "cmp_holds ci a b = cond_holds (ci_cond ci) ((if ci_float ci then flags_float else flags_sub) a b)"

definition cmp_fact :: "int set \<Rightarrow> sel_state \<Rightarrow> frame \<Rightarrow> int \<Rightarrow> cmp_info \<Rightarrow> bool" where
  "cmp_fact D sl fr x ci =
     (x \<in> D \<and> ci_cond ci \<noteq> Always \<and>
      (\<exists>y z. y \<in> D \<and> z \<in> D \<and> sl_regs sl y = Some (ci_lhs ci) \<and> sl_regs sl z = Some (ci_rhs ci) \<and>
         (\<forall>v. fr_regs fr x = Some v \<longrightarrow>
            (\<exists>a b. fr_regs fr y = Some a \<and> fr_regs fr z = Some b \<and> (v \<noteq> 0) = cmp_holds ci a b))))"

definition cmp_ok :: "int set \<Rightarrow> sel_state \<Rightarrow> frame \<Rightarrow> bool" where
  "cmp_ok D sl fr =
     ((\<forall>r ci. sl_cmp sl r = Some ci \<longrightarrow> ar_id r < sl_reg_n sl) \<and>
      (\<forall>x r ci. sl_regs sl x = Some r \<longrightarrow> sl_cmp sl r = Some ci \<longrightarrow> cmp_fact D sl fr x ci))"

lemma init_cmp_ok: "cmp_ok D init_mapping fr"
  by (simp add: cmp_ok_def init_mapping_def)

text \<open>The interpreter changes the defined register only.\<close>

definition frame_keeps :: "int set \<Rightarrow> frame \<Rightarrow> frame \<Rightarrow> bool" where
  "frame_keeps D fr fr' = (\<forall>x\<in>D. fr_regs fr' x = fr_regs fr x)"

lemma w_reg_keeps: "w_reg d v fr = Some fr' \<Longrightarrow> fr_regs fr' = (fr_regs fr)(d \<mapsto> v)"
  by (auto simp: w_reg_def split: if_splits)

lemma exec_straight_keeps:
  assumes "straight i" and "exec_simple xe i fr st = Some (NextInstr, fr', st')" and "x \<notin> set_option (def_of i)"
  shows "fr_regs fr' x = fr_regs fr x"
proof (cases "\<exists>y z off ro. i = StoreInstr y z off ro")
  case False
  then obtain d v where "def_of i = Some d" "w_reg d v fr = Some fr'"
    using assms(1,2) by (cases i) (auto simp: bind_eq_Some_conv)
  then show ?thesis using assms(3) w_reg_keeps [of d v fr fr'] by auto
qed (use assms in \<open>auto simp: bind_eq_Some_conv\<close>)

lemma ir_step_keeps:
  assumes "ssa_from D (i # is)" and "ir_step xe i (fr, st) = Some (fr', st')"
  shows "frame_keeps D fr fr'"
  unfolding frame_keeps_def
proof
  fix x assume "x \<in> D"
  then have "x \<notin> set_option (def_of i)" using assms(1) by auto
  then show "fr_regs fr' x = fr_regs fr x"
    using exec_straight_keeps [OF _ ir_stepD(2) [OF assms(2)]] assms(1) by simp
qed

lemma cmp_fact_keeps:
  assumes "cmp_fact D sl fr x ci" and "\<And>y r. sl_regs sl y = Some r \<Longrightarrow> sl_regs sl' y = Some r"
    and "frame_keeps D fr fr'" and "D \<subseteq> E"
  shows "cmp_fact E sl' fr' x ci"
proof -
  obtain y z where yz: "y \<in> D" "z \<in> D" "sl_regs sl y = Some (ci_lhs ci)" "sl_regs sl z = Some (ci_rhs ci)"
    and v: "\<forall>v. fr_regs fr x = Some v \<longrightarrow> (\<exists>a b. fr_regs fr y = Some a \<and> fr_regs fr z = Some b \<and> (v \<noteq> 0) = cmp_holds ci a b)"
    using assms(1) unfolding cmp_fact_def by blast
  have x: "x \<in> D" "ci_cond ci \<noteq> Always" using assms(1) by (simp_all add: cmp_fact_def)
  have k: "fr_regs fr' x = fr_regs fr x" "fr_regs fr' y = fr_regs fr y" "fr_regs fr' z = fr_regs fr z"
    using assms(3) x(1) yz(1,2) by (simp_all add: frame_keeps_def)
  show ?thesis
    unfolding cmp_fact_def k using x yz v k assms(2) [OF yz(3)] assms(2) [OF yz(4)] assms(4)
    by (intro conjI exI [of _ y] exI [of _ z]) (auto simp: subset_iff)
qed

lemma cmp_ok_extends:
  assumes "cmp_ok D sl fr" and "sel_extends sl sl'" and "frame_keeps D fr fr'" and "D \<subseteq> E"
  shows "cmp_ok E sl' fr'"
  unfolding cmp_ok_def
proof (intro conjI allI impI)
  fix r ci assume "sl_cmp sl' r = Some ci"
  then show "ar_id r < sl_reg_n sl'" using assms(1,2) unfolding cmp_ok_def sel_extends_def by fastforce
next
  fix x r ci assume x: "sl_regs sl' x = Some r" and c: "sl_cmp sl' r = Some ci"
  have c': "sl_cmp sl r = Some ci" using c assms(2) by (simp add: sel_extends_def)
  then have "ar_id r < sl_reg_n sl" using assms(1) by (simp add: cmp_ok_def)
  then have "sl_regs sl x = Some r" using x assms(2) unfolding sel_extends_def by fastforce
  then have "cmp_fact D sl fr x ci" using assms(1) c' by (simp add: cmp_ok_def)
  then show "cmp_fact E sl' fr' x ci"
    by (rule cmp_fact_keeps [OF _ _ assms(3,4)]) (use assms(2) in \<open>simp add: sel_extends_def\<close>)
qed

lemma cmp_ok_compare:
  assumes "cmp_ok D sl fr" and "sel_wf sl'" and "ssa_from D (BinaryOpI d x y op # is)" and "cond_of_ir op = Some c"
    and sel: "select_binary d x y op sl = Some sl'" and run: "ir_step xe (BinaryOpI d x y op) (fr, st) = Some (fr', st')"
  shows "cmp_ok (D \<union> {d, x, y}) sl' fr'"
proof -
  let ?fl = "op \<in> {FLESS, FLEQ, FEQ, FNEQ}" and ?E = "D \<union> {d, x, y}"
  from select_binary_extends(2) [OF sel assms(4)] obtain sl1 dst s1 s2 where
    e: "sel_extends sl sl1" and r: "sl_regs sl1 d = Some dst" "sl_regs sl1 x = Some s1" "sl_regs sl1 y = Some s2"
    and o: "sl_reg_n sl' = sl_reg_n sl1" "sl_regs sl' = sl_regs sl1"
      "sl_cmp sl' = (sl_cmp sl1)(dst \<mapsto> \<lparr>ci_cond = c, ci_lhs = s1, ci_rhs = s2, ci_float = ?fl\<rparr>)"
    by blast
  have k: "frame_keeps D fr fr'" by (rule ir_step_keeps [OF assms(3) run])
  have ok: "cmp_ok ?E sl1 fr'" by (rule cmp_ok_extends [OF assms(1) e k]) blast
  note df = ir_stepD(1) [OF run, unfolded defined_at_def] and ex = ir_stepD(2) [OF run]
  obtain a b where ab: "fr_regs fr x = Some a" "fr_regs fr y = Some b" "binary_agrees op a b" using df by auto
  have ne: "d \<noteq> x" "d \<noteq> y" using assms(3) by auto
  obtain v where v: "compute_binary op a b = Some v" "w_reg d v fr = Some fr'"
    using ex r_reg_defined [of xe fr x] r_reg_defined [of xe fr y] ab by (auto simp: bind_eq_Some_conv)
  let ?ci = "\<lparr>ci_cond = c, ci_lhs = s1, ci_rhs = s2, ci_float = ?fl\<rparr>"
  have "fr_regs fr' x = Some a" "fr_regs fr' y = Some b" "fr_regs fr' d = Some v"
    using w_reg_keeps [OF v(2)] ab ne by simp_all
  moreover have "(v \<noteq> 0) = cmp_holds ?ci a b"
    using compare_agrees [OF v(1) ab(3) assms(4)] by (simp add: cmp_holds_def of_bool32_def)
  moreover have "c \<noteq> Always" using assms(4) by (cases op) auto
  ultimately have new: "cmp_fact ?E sl' fr' d ?ci"
    unfolding cmp_fact_def using r o(2) by (intro conjI exI [of _ x] exI [of _ y]) auto
  show ?thesis
    unfolding cmp_ok_def
  proof (intro conjI allI impI)
    fix q ci assume "sl_cmp sl' q = Some ci"
    then show "ar_id q < sl_reg_n sl'"
      using ok o assms(2) r(1) by (auto simp: cmp_ok_def sel_wf_def split: if_splits)
  next
    fix z q ci assume z: "sl_regs sl' z = Some q" and q: "sl_cmp sl' q = Some ci"
    show "cmp_fact ?E sl' fr' z ci"
    proof (cases "q = dst")
      case True
      then have "z = d" using z r(1) assms(2) o(2) unfolding sel_wf_def by metis
      then show ?thesis using q o(3) True new by simp
    next
      case False
      then have "cmp_fact ?E sl1 fr' z ci" using ok q z o by (simp add: cmp_ok_def)
      then show ?thesis using o(2) by (simp add: cmp_fact_def)
    qed
  qed
qed

lemma select_instr_cmp:
  assumes "cmp_ok D sl fr" and "sel_wf sl'" and "ssa_from D (i # is)"
    and sel: "select_instr cx i sl = Some sl'" and run: "ir_step xe i (fr, st) = Some (fr', st')"
  shows "cmp_ok (D \<union> pinned i) sl' fr'"
proof (cases "compares i")
  case True
  then obtain d x y op c where i: "i = BinaryOpI d x y op" "cond_of_ir op = Some c"
    by (auto simp: compares_def split: instr.splits)
  then show ?thesis using cmp_ok_compare [OF assms(1,2) assms(3) [unfolded i(1)] i(2)] sel run by simp
next
  case False
  have "sel_extends sl sl'" using select_instr_extends [OF _ False sel] assms(3) by simp
  then show ?thesis by (rule cmp_ok_extends [OF assms(1) _ ir_step_keeps [OF assms(3) run]]) blast
qed

section \<open>The instructions before the last one\<close>

lemma select_instrs_ok:
  assumes "keeps_ids f"
  shows "sel_wf sl \<Longrightarrow> constants_in D sl \<Longrightarrow> cmp_ok D sl fr \<Longrightarrow> finite (maybe_regs sl) \<Longrightarrow> sel_sim f sl fr st s \<Longrightarrow>
    ssa_from D is \<Longrightarrow> run_list (ir_step xe) is (fr, st) = Some (fr', st') \<Longrightarrow>
    \<exists>sl' code s' E. select_instrs cx is sl = Some sl' \<and> sl_insts sl' = sl_insts sl @ code \<and>
      arm_run env (map (map_regs f) code) s = Some s' \<and> a_base s' = a_base s \<and> sel_sim f sl' fr' st' s' \<and>
      sel_wf sl' \<and> constants_in E sl' \<and> cmp_ok E sl' fr' \<and> finite (maybe_regs sl')"
proof (induction "is" arbitrary: sl D fr st s)
  case Nil
  then show ?case by (intro exI [of _ sl] exI [of _ "[]"] exI [of _ s] exI [of _ D]) simp
next
  case (Cons i "is")
  note prems = Cons.prems
  have st: "straight i" and ssa: "ssa_from (D \<union> pinned i) is"
    and fresh: "set_option (def_of i) \<inter> (D \<union> set (uses_of i)) = {}" using prems(6) by simp_all
  obtain sl1 where sl1: "select_instr cx i sl = Some sl1" "finite (maybe_regs sl1)"
    using select_straight_total [OF prems(4) st] by blast
  obtain fr1 st1 where r: "ir_step xe i (fr, st) = Some (fr1, st1)" "run_list (ir_step xe) is (fr1, st1) = Some (fr', st')"
    using prems(7) by (auto split: option.splits)
  have nc: "\<forall>d. def_of i = Some d \<longrightarrow> not_constant sl d \<and> d \<notin> set (uses_of i)"
    using fresh constants_not [OF prems(2)] by auto
  from select_instr_ok [OF prems(1) assms prems(5) st nc sl1(1) r(1), of env] obtain code s1 where
    o: "sel_wf sl1" "kept_constants (set_option (def_of i)) sl sl1" "sl_insts sl1 = sl_insts sl @ code"
      "arm_run env (map (map_regs f) code) s = Some s1" "a_base s1 = a_base s" "sel_sim f sl1 fr1 st1 s1"
    unfolding step_ok_def by blast
  note c = constants_step [OF prems(2) o(2) pinned_def_of] select_instr_cmp [OF prems(3) o(1) prems(6) sl1(1) r(1)]
  from Cons.IH [OF o(1) c sl1(2) o(6) ssa r(2)] obtain sl' code2 s' E where
    p: "select_instrs cx is sl1 = Some sl'" "sl_insts sl' = sl_insts sl1 @ code2"
      "arm_run env (map (map_regs f) code2) s1 = Some s'" "a_base s' = a_base s1" "sel_sim f sl' fr' st' s'"
      "sel_wf sl'" "constants_in E sl'" "cmp_ok E sl' fr'" "finite (maybe_regs sl')" by blast
  have "arm_run env (map (map_regs f) (code @ code2)) s = Some s'"
    using run_list_append_Some [OF o(4), of "map (map_regs f) code2"] p(3) by simp
  moreover have "select_instrs cx (i # is) sl = Some sl'" using sl1(1) p(1) by simp
  moreover have "sl_insts sl' = sl_insts sl @ (code @ code2)" using o(3) p(2) by simp
  ultimately show ?case using o(5) p(4-) by metis
qed

section \<open>The last instruction\<close>

text \<open>Where the control goes: to the block of the interpreter's next block, by a jump or into the next
  block of the text; or back to the caller.\<close>

definition goes_to :: "sel_ctx \<Rightarrow> exec_state \<Rightarrow> arm_state \<Rightarrow> bool" where
  "goes_to cx st s =
     (case th_bb (ex_cur st) of
        None \<Rightarrow> a_ctl s = Returned
      | Some k \<Rightarrow> (\<exists>b. sc_block cx k = Some b \<and> (a_ctl s = Goto b \<or> a_ctl s = Fall \<and> sc_next cx = Some b)))"

definition leave_ok ::
  "arm_env \<Rightarrow> (areg \<Rightarrow> areg) \<Rightarrow> sel_ctx \<Rightarrow> sel_state \<Rightarrow> sel_state \<Rightarrow> frame \<Rightarrow> exec_state \<Rightarrow> arm_state \<Rightarrow> arm_state \<Rightarrow> bool" where
  "leave_ok env f cx sl sl' fr' st' s s' =
     (\<exists>code. sl_insts sl' = sl_insts sl @ code \<and> arm_run env (map (map_regs f) code) s = Some s' \<and>
        a_base s' = a_base s \<and> sel_sim f sl' fr' st' (s'\<lparr>a_ctl := Fall\<rparr>) \<and> goes_to cx st' s')"

definition last_ok :: "sel_ctx \<Rightarrow> frame \<Rightarrow> instr \<Rightarrow> bool" where
  "last_ok cx fr i =
     (list_all (\<lambda>x. fr_regs fr x \<noteq> None) (uses_of i) \<and>
      (case i of
         JumpInstr t \<Rightarrow> sc_block cx t \<noteq> None
       | BranchInstr c t1 t0 \<Rightarrow> sc_block cx t1 \<noteq> None \<and> sc_block cx t0 \<noteq> None
       | ReturnInstr ty x ig \<Rightarrow> ty = IntT \<or> ty = FloatT
       | _ \<Rightarrow> False))"

lemma sim_left:
  assumes "sel_sim f sl fr st s" and "with_code sl code sl'" and "fr_regs fr' = fr_regs fr" and "same_memory st st'"
    and "\<And>r. float_count \<le> ar_id r \<Longrightarrow> a_reg s' (f r) = a_reg s (f r)" and "a_mem s' = a_mem s" and "sel_wf sl"
  shows "sel_sim f sl' fr' st' (s'\<lparr>a_ctl := Fall\<rparr>)"
proof -
  have "\<exists>r. sl_regs sl x = Some r \<and> a_reg s' (f r) = v" if "fr_regs fr x = Some v" for x v
  proof -
    obtain r where r: "sl_regs sl x = Some r" "a_reg s (f r) = v"
      using assms(1) \<open>fr_regs fr x = Some v\<close> unfolding sel_sim_def by blast
    then have "float_count \<le> ar_id r" using assms(7) unfolding sel_wf_def by blast
    then show ?thesis using r assms(5) by auto
  qed
  moreover have "mem_ok st' = mem_ok st" using assms(4) by (auto simp: mem_ok_def same_memory_def)
  ultimately show ?thesis
    using assms(1,3,4,6) unfolding with_code_sim [OF assms(2)] sel_sim_def same_memory_def by simp
qed

lemma goto_bbD:
  assumes "goto_bb xe t fr st = Some (k, fr', st')"
  shows "fr_regs fr' = fr_regs fr" and "same_memory st st'" and "th_bb (ex_cur st') = Some t"
  using assms by (auto simp: goto_bb_def same_memory_def bind_eq_Some_conv)

lemma add_block_edge_fields [simp]:
  "sl_insts (add_block_edge cx b st) = sl_insts st" "sl_regs (add_block_edge cx b st) = sl_regs st"
  "with_code sl code (add_block_edge cx b st) = with_code sl code st"
  by (simp_all add: add_block_edge_def with_code_def)

lemma select_jump_ok:
  assumes "sel_wf sl" and "sel_sim f sl fr st s" and "sc_block cx t \<noteq> None" and "goto_bb xe t fr st = Some (k, fr', st')"
  shows "\<exists>sl' s'. select_jump cx t sl = Some sl' \<and> leave_ok env f cx sl sl' fr' st' s s'"
proof -
  obtain b where b: "sc_block cx t = Some b" using assms(3) by blast
  let ?code = "if sc_next cx \<noteq> Some b then [Inst Always (Branch b)] else []"
  let ?sl' = "add_block_edge cx b (emit ?code sl)"
  let ?s' = "if sc_next cx \<noteq> Some b then s\<lparr>a_ctl := Goto b\<rparr> else s"
  note g = goto_bbD [OF assms(4)]
  have c: "a_ctl s = Fall" using assms(2) by (simp add: sel_sim_def)
  have "with_code sl ?code ?sl'" by simp
  then have "sel_sim f ?sl' fr' st' (?s'\<lparr>a_ctl := Fall\<rparr>)"
    by (rule sim_left [OF assms(2) _ g(1,2)]) (simp_all add: assms(1))
  moreover have "arm_run env (map (map_regs f) ?code) s = Some ?s'" using c by (simp add: arm_step_always)
  moreover have "goes_to cx st' ?s'" using g(3) b c by (simp add: goes_to_def)
  moreover have "sl_insts ?sl' = sl_insts sl @ ?code" by (simp add: emit_def)
  ultimately have "leave_ok env f cx sl ?sl' fr' st' s ?s'" unfolding leave_ok_def by auto
  moreover have "select_jump cx t sl = Some ?sl'" using b by (simp add: select_jump_def)
  ultimately show ?thesis by blast
qed

lemma branch_pair_run:
  assumes "branch_pair nxt c t e = Some js" and "c \<noteq> Always" and "a_ctl s = Fall"
  shows "\<exists>ctl. arm_run env (map (map_regs f) js) s = Some (s\<lparr>a_ctl := ctl\<rparr>) \<and>
    (let b = (if cond_holds c (a_flags s) then t else e) in ctl = Goto b \<or> ctl = Fall \<and> nxt = Some b)"
proof -
  have s: "s\<lparr>a_ctl := Fall\<rparr> = s" using assms(3) by simp
  consider (fall) "nxt = Some e" "js = [Inst c (Branch t)]"
    | (swap) d where "nxt = Some t" "nxt \<noteq> Some e" "logical_not c = Some d" "js = [Inst d (Branch e)]"
    | (both) "js = [Inst c (Branch t), Inst Always (Branch e)]"
    using assms(1) by (auto simp: branch_pair_def split: if_splits)
  then show ?thesis
  proof cases
    case fall
    then show ?thesis
      using assms(3) s by (intro exI [of _ "if cond_holds c (a_flags s) then Goto t else Fall"])
        (auto simp: arm_step_def skip_op_def)
  next
    case swap
    have "cond_holds d (a_flags s) = (\<not> cond_holds c (a_flags s))" by (rule cond_holds_not [OF swap(3)])
    then show ?thesis
      using assms(3) s swap by (intro exI [of _ "if cond_holds c (a_flags s) then Fall else Goto e"])
        (auto simp: arm_step_def skip_op_def)
  next
    case both
    then show ?thesis
      using assms(3) by (intro exI [of _ "if cond_holds c (a_flags s) then Goto t else Goto e"])
        (auto simp: arm_step_def skip_op_def)
  qed
qed

lemma branch_pair_total: "c \<noteq> Always \<Longrightarrow> \<exists>js. branch_pair nxt c t e = Some js"
  by (cases c) (auto simp: branch_pair_def)

text \<open>A comparison, and the branches on its flags.\<close>

lemma branch_tail:
  assumes "sel_wf sl" and "sel_sim f sl fr st s" and "c \<noteq> Always"
    and cmp: "arm_step env (map_regs f cmp) s = Some s1" "a_ctl s1 = Fall" "a_reg s1 = a_reg s" "a_mem s1 = a_mem s" "a_base s1 = a_base s"
    and "cond_holds c (a_flags s1) = (v \<noteq> 0)" and b: "sc_block cx t1 = Some t" "sc_block cx t0 = Some e"
    and go: "goto_bb xe (if v \<noteq> 0 then t1 else t0) fr st = Some (k, fr', st')"
  shows "\<exists>js s'. branch_pair (sc_next cx) c t e = Some js \<and>
    leave_ok env f cx sl (add_block_edge cx e (add_block_edge cx t (emit (cmp # js) sl))) fr' st' s s'"
proof -
  obtain js where js: "branch_pair (sc_next cx) c t e = Some js" using branch_pair_total [OF assms(3)] by blast
  obtain ctl where r: "arm_run env (map (map_regs f) js) s1 = Some (s1\<lparr>a_ctl := ctl\<rparr>)"
    and ctl: "let b = (if cond_holds c (a_flags s1) then t else e) in ctl = Goto b \<or> ctl = Fall \<and> sc_next cx = Some b"
    using branch_pair_run [OF js assms(3) cmp(2)] by blast
  note g = goto_bbD [OF go]
  let ?sl' = "add_block_edge cx e (add_block_edge cx t (emit (cmp # js) sl))" and ?s' = "s1\<lparr>a_ctl := ctl\<rparr>"
  have "with_code sl (cmp # js) ?sl'" by simp
  then have "sel_sim f ?sl' fr' st' (?s'\<lparr>a_ctl := Fall\<rparr>)"
    by (rule sim_left [OF assms(2) _ g(1,2)]) (simp_all add: cmp assms(1))
  moreover have "arm_run env (map (map_regs f) (cmp # js)) s = Some ?s'" using r cmp(1) by simp
  moreover have "goes_to cx st' ?s'" using g(3) b ctl assms(9) by (auto simp: goes_to_def Let_def split: if_splits)
  moreover have "sl_insts ?sl' = sl_insts sl @ cmp # js" by (simp add: emit_def)
  moreover have "a_base ?s' = a_base s" by (simp add: cmp(5))
  ultimately have "leave_ok env f cx sl ?sl' fr' st' s ?s'" unfolding leave_ok_def by blast
  then show ?thesis using js by blast
qed

lemma select_branch_ok:
  assumes "sel_wf sl" and "cmp_ok D sl fr" and "sel_sim f sl fr st s" and "fr_regs fr c = Some v"
    and "sc_block cx t1 \<noteq> None" and "sc_block cx t0 \<noteq> None"
    and go: "goto_bb xe (if v \<noteq> 0 then t1 else t0) fr st = Some (k, fr', st')"
  shows "\<exists>sl' s'. select_branch cx c t1 t0 sl = Some sl' \<and> leave_ok env f cx sl sl' fr' st' s s'"
proof -
  obtain t e where b: "sc_block cx t1 = Some t" "sc_block cx t0 = Some e" using assms(5,6) by blast
  obtain r where r: "sl_regs sl c = Some r" "a_reg s (f r) = v" using assms(3,4) unfolding sel_sim_def by blast
  have i: "from_ir_reg c sl = (r, sl)" using r by (simp add: from_ir_reg_def)
  have fall: "a_ctl s = Fall" using assms(3) by (simp add: sel_sim_def)
  show ?thesis
  proof (cases "sl_cmp sl r")
    case None
    let ?s1 = "s\<lparr>a_flags := flags_sub v 0\<rparr>"
    have z: "cond_holds Ne (a_flags ?s1) = (v \<noteq> 0)" using cond_after_cmp(2) [of v 0] by simp
    have st: "arm_step env (map_regs f (Inst Always (RegImmCmp Cmp r 0))) s = Some ?s1"
      using fall r by (simp add: arm_step_always)
    have "\<exists>js s'. branch_pair (sc_next cx) Ne t e = Some js \<and>
      leave_ok env f cx sl (add_block_edge cx e (add_block_edge cx t (emit (Inst Always (RegImmCmp Cmp r 0) # js) sl))) fr' st' s s'"
      by (rule branch_tail [OF assms(1,3) _ st _ _ _ _ z b go]) (use fall in simp_all)
    then show ?thesis using None i b by (auto simp: select_branch_def)
  next
    case (Some ci)
    have "cmp_fact D sl fr c ci" using assms(2) r(1) Some by (simp add: cmp_ok_def)
    then obtain y z p q where yz: "sl_regs sl y = Some (ci_lhs ci)" "sl_regs sl z = Some (ci_rhs ci)"
      "fr_regs fr y = Some p" "fr_regs fr z = Some q" "(v \<noteq> 0) = cmp_holds ci p q" and ne: "ci_cond ci \<noteq> Always"
      using assms(4) unfolding cmp_fact_def by blast
    have pq: "a_reg s (f (ci_lhs ci)) = p" "a_reg s (f (ci_rhs ci)) = q"
      using assms(3) yz unfolding sel_sim_def by fastforce+
    let ?cmp = "Inst Always (if ci_float ci then FRegRegCmp (ci_lhs ci) (ci_rhs ci) else RegRegCmp Cmp (ci_lhs ci) (ci_rhs ci))"
    let ?fl = "flags_float p q"
    let ?s1 = "if ci_float ci then s\<lparr>a_fpscr := ?fl, a_flags := ?fl\<rparr> else s\<lparr>a_flags := flags_sub p q\<rparr>"
    have st: "arm_step env (map_regs f ?cmp) s = Some ?s1" using fall pq by (simp add: arm_step_always)
    have z: "cond_holds (ci_cond ci) (a_flags ?s1) = (v \<noteq> 0)" using yz(5) by (simp add: cmp_holds_def)
    have "\<exists>js s'. branch_pair (sc_next cx) (ci_cond ci) t e = Some js \<and>
      leave_ok env f cx sl (add_block_edge cx e (add_block_edge cx t (emit (?cmp # js) sl))) fr' st' s s'"
      by (rule branch_tail [OF assms(1,3) ne st _ _ _ _ z b go]) (use fall in simp_all)
    then show ?thesis using Some i b by (auto simp: select_branch_def)
  qed
qed

lemma select_return_ok:
  assumes "sel_wf sl" and "keeps_ids f" and "sel_sim f sl fr st s" and "ty = IntT \<or> ty = FloatT" and "fr_regs fr x = Some v"
    and "exec_simple xe (ReturnInstr ty x ig) fr st = Some (k, fr', st')"
  shows "\<exists>sl' s'. select_return ty x ig sl = Some sl' \<and> leave_ok env f cx sl sl' fr' st' s s' \<and>
    (\<not> ig \<longrightarrow> a_reg s' (f (arg_reg ty 0)) = fr_ret fr')"
proof -
  obtain r where r: "sl_regs sl x = Some r" "a_reg s (f r) = v" using assms(3,5) unfolding sel_sim_def by blast
  have i: "from_ir_reg x sl = (r, sl)" using r by (simp add: from_ir_reg_def)
  have fall: "a_ctl s = Fall" using assms(3) by (simp add: sel_sim_def)
  have g: "fr_regs fr' = fr_regs fr" "same_memory st st'" "th_bb (ex_cur st') = None" "fr_ret fr' = v"
    using assms(6) r_reg_defined [of xe fr x] assms(5) by (auto simp: same_memory_def bind_eq_Some_conv)
  let ?code = "if ig then [Inst Always (Return Void)] else [Inst Always (MoveReg (arg_reg ty 0) r), Inst Always (Return ty)]"
  let ?s' = "(if ig then s else set_reg (f (arg_reg ty 0)) v s)\<lparr>a_ctl := Returned\<rparr>"
  have low: "ar_id (arg_reg ty 0) < float_count"
    by (simp add: arg_reg_def argument_registers_def float_count_def)
  have "with_code sl ?code (emit ?code sl)" by simp
  then have "sel_sim f (emit ?code sl) fr' st' (?s'\<lparr>a_ctl := Fall\<rparr>)"
  proof (rule sim_left [OF assms(3) _ g(1,2)])
    fix q assume "float_count \<le> ar_id q"
    then have "f q \<noteq> f (arg_reg ty 0)" using low keeps_ids_inj [OF assms(2), of q "arg_reg ty 0"] by simp
    then show "a_reg ?s' (f q) = a_reg s (f q)" by simp
  qed (simp_all add: assms(1))
  moreover have "arm_run env (map (map_regs f) ?code) s = Some ?s'" using fall r by (simp add: arm_step_always)
  moreover have "goes_to cx st' ?s'" using g(3) by (simp add: goes_to_def)
  moreover have "sl_insts (emit ?code sl) = sl_insts sl @ ?code" "a_base ?s' = a_base s" by (simp_all add: emit_def)
  ultimately have "leave_ok env f cx sl (emit ?code sl) fr' st' s ?s'" unfolding leave_ok_def by blast
  moreover have "select_return ty x ig sl = Some (emit ?code sl)" using assms(4) i by (simp add: select_return_def)
  ultimately show ?thesis using g(4) by (intro exI [of _ "emit ?code sl"] exI [of _ ?s']) simp
qed

section \<open>A block\<close>

lemma select_last_ok:
  assumes "sel_wf sl" and "keeps_ids f" and "cmp_ok D sl fr" and "sel_sim f sl fr st s" and "last_ok cx fr t"
    and "exec_simple xe t fr st = Some (k, fr', st')"
  shows "\<exists>sl' s'. select_instr cx t sl = Some sl' \<and> leave_ok env f cx sl sl' fr' st' s s' \<and>
    (\<forall>ty x. t = ReturnInstr ty x False \<longrightarrow> a_reg s' (f (arg_reg ty 0)) = fr_ret fr')"
proof (cases t)
  case (JumpInstr b)
  then show ?thesis using select_jump_ok [OF assms(1,4), of cx b xe k fr' st' env] assms(5,6) by (simp add: last_ok_def)
next
  case (BranchInstr c t1 t0)
  then obtain v where v: "fr_regs fr c = Some v" using assms(5) by (auto simp: last_ok_def)
  have "goto_bb xe (if v \<noteq> 0 then t1 else t0) fr st = Some (k, fr', st')"
    using assms(6) BranchInstr v r_reg_defined [of xe fr c] by (auto simp: bind_eq_Some_conv)
  then show ?thesis
    using select_branch_ok [OF assms(1,3,4) v, of cx t1 t0 xe k fr' st' env] assms(5) BranchInstr by (simp add: last_ok_def)
next
  case (ReturnInstr ty x ig)
  then obtain v where v: "fr_regs fr x = Some v" and ty: "ty = IntT \<or> ty = FloatT" using assms(5) by (auto simp: last_ok_def)
  from select_return_ok [OF assms(1,2,4) ty v assms(6) [unfolded ReturnInstr], of env cx] show ?thesis
    using ReturnInstr by simp
qed (use assms(5) in \<open>simp_all add: last_ok_def\<close>)

lemma select_instrs_append:
  "select_instrs cx (xs @ ys) st = do { st1 \<leftarrow> select_instrs cx xs st; select_instrs cx ys st1 }"
  by (induction xs arbitrary: st) (auto split: bind_splits)

text \<open>The states in which blocks are selected.\<close>

definition sel_ok :: "int set \<Rightarrow> sel_state \<Rightarrow> frame \<Rightarrow> bool" where
  "sel_ok D sl fr = (sel_wf sl \<and> constants_in D sl \<and> cmp_ok D sl fr \<and> finite (maybe_regs sl))"

lemma init_sel_ok: "sel_ok {} init_mapping fr"
  using init_mapping_wf init_cmp_ok by (simp add: sel_ok_def constants_in_def init_mapping_def maybe_regs_def)

lemma construct_block_ok:
  assumes "keeps_ids f" and "sel_ok D sl fr" and "sel_sim f sl fr st s" and b: "bb_instrs b = is @ [t]" and "ssa_from D is"
    and "run_list (ir_step xe) is (fr, st) = Some (fr1, st1)" and "last_ok cx fr1 t"
    and "exec_simple xe t fr1 st1 = Some (k, fr', st')"
  shows "\<exists>sl' s'. construct_block cx b sl = Some sl' \<and> arm_run env (map (map_regs f) (sl_insts sl')) s = Some s' \<and>
    a_base s' = a_base s \<and> sel_sim f sl' fr' st' (s'\<lparr>a_ctl := Fall\<rparr>) \<and> goes_to cx st' s' \<and>
    (\<forall>ty x. t = ReturnInstr ty x False \<longrightarrow> a_reg s' (f (arg_reg ty 0)) = fr_ret fr')"
proof -
  let ?sl = "sl\<lparr>sl_insts := []\<rparr>"
  have ok: "sel_wf ?sl" "constants_in D ?sl" "cmp_ok D ?sl fr" "finite (maybe_regs ?sl)" "sel_sim f ?sl fr st s"
    using assms(2,3)
    by (simp_all add: sel_ok_def sel_wf_def constants_in_def cmp_ok_def cmp_fact_def maybe_regs_def sel_sim_def)
  from select_instrs_ok [OF assms(1) ok assms(5,6), of cx env] obtain sl1 code s1 E where
    a: "select_instrs cx is ?sl = Some sl1" "sl_insts sl1 = code" "arm_run env (map (map_regs f) code) s = Some s1"
      "a_base s1 = a_base s" "sel_sim f sl1 fr1 st1 s1" "sel_wf sl1" "cmp_ok E sl1 fr1" by auto
  from select_last_ok [OF a(6) assms(1) a(7,5) assms(7,8), of env] obtain sl' s' code2 where
    c: "select_instr cx t sl1 = Some sl'" "sl_insts sl' = sl_insts sl1 @ code2"
      "arm_run env (map (map_regs f) code2) s1 = Some s'" "a_base s' = a_base s1"
      "sel_sim f sl' fr' st' (s'\<lparr>a_ctl := Fall\<rparr>)" "goes_to cx st' s'"
      "\<forall>ty x. t = ReturnInstr ty x False \<longrightarrow> a_reg s' (f (arg_reg ty 0)) = fr_ret fr'"
    unfolding leave_ok_def by blast
  have "construct_block cx b sl = Some sl'"
    using a(1) c(1) by (simp add: construct_block_def b select_instrs_append)
  moreover have "arm_run env (map (map_regs f) (sl_insts sl')) s = Some s'"
    using run_list_append_Some [OF a(3), of "map (map_regs f) code2"] c(2,3) a(2) by simp
  ultimately show ?thesis using a(4) c(4-7) by auto
qed

lemma type_reg_arg [simp]: "type_reg fl (arg_reg ty 0) = arg_reg ty 0"
  by (simp add: type_reg_def arg_reg_def is_pseudo_def argument_registers_def float_count_def int_count_def)

end
