(* ===== verification/PhiCopies.thy ===== *)
theory PhiCopies
  imports IRExecFacts
begin

text \<open>
  The sequence of copies that \<open>remove_phi\<close> (\<open>src/ir/opt/bb_ops.cpp\<close>) puts on an edge. The phi functions of
  a block assign at the same time; this theory models how the pass orders their assignments, and shows
  when the order is right.
\<close>

section \<open>The sequence of copies\<close>

text \<open>A list \<open>P\<close> of pairs \<open>(a, b)\<close> stands for the assignments \<open>b := a\<close>. The vector \<open>ready\<close> is a list
  from its back to its front; a copy \<open>(b, a)\<close> in the output assigns \<open>a\<close> to \<open>b\<close>.\<close>

record copy_state =
  cs_deg :: "reg \<Rightarrow> int"
  cs_loc :: "reg \<rightharpoonup> reg"
  cs_ready :: "reg list"
  cs_out :: "(reg \<times> reg) list"

definition copy_pred :: "(reg \<times> reg) list \<Rightarrow> reg \<rightharpoonup> reg" where
  "copy_pred P = foldl (\<lambda>m (a, b). m(b \<mapsto> a)) Map.empty P"

definition copy_deg :: "(reg \<times> reg) list \<Rightarrow> reg \<Rightarrow> int" where
  "copy_deg P = foldl (\<lambda>m (a, b). m(a := m a + 1)) (\<lambda>_. 0) P"

definition emit_copy :: "reg \<Rightarrow> reg \<Rightarrow> copy_state \<Rightarrow> copy_state" where
  "emit_copy a b st = (if b \<noteq> a then st\<lparr>cs_out := cs_out st @ [(b, a)]\<rparr> else st)"

definition init_copies :: "(reg \<times> reg) list \<Rightarrow> copy_state" where
  "init_copies P =
     \<lparr>cs_deg = copy_deg P, cs_loc = Map.empty,
      cs_ready = rev (map snd (filter (\<lambda>(a, b). copy_deg P b = 0) P)), cs_out = []\<rparr>"

text \<open>\<open>while (ready.size())\<close>: a register that no pending copy reads can be overwritten.\<close>

partial_function (option) ready_loop :: "(reg \<rightharpoonup> reg) \<Rightarrow> copy_state \<Rightarrow> copy_state option" where
  "ready_loop pred st =
     (case cs_ready st of
        [] \<Rightarrow> Some st
      | b # rest \<Rightarrow>
          do { a \<leftarrow> pred b;
               (let d = cs_deg st a - 1;
                    st1 = emit_copy a b (st\<lparr>cs_ready := rest\<rparr>);
                    st2 = st1\<lparr>cs_loc := (cs_loc st1)(a \<mapsto> b), cs_deg := (cs_deg st1)(a := d)\<rparr> in
                ready_loop pred (if d = 0 \<and> pred a \<noteq> None then st2\<lparr>cs_ready := a # rest\<rparr> else st2)) })"

declare ready_loop.simps [code]

text \<open>The inner \<open>for\<close> over a cycle, from \<open>b\<close> back to \<open>b\<close>.\<close>

partial_function (option) cycle_walk :: "(reg \<rightharpoonup> reg) \<Rightarrow> reg \<Rightarrow> reg \<Rightarrow> copy_state \<Rightarrow> copy_state option" where
  "cycle_walk pred b x st =
     (let st1 = st\<lparr>cs_deg := (cs_deg st)(x := 0), cs_ready := x # cs_ready st\<rparr> in
      do { y \<leftarrow> pred x; if y = b then Some st1 else cycle_walk pred b y st1 })"

declare cycle_walk.simps [code]

text \<open>\<open>while (ready.size() > 1)\<close>: every register gets the value of the one before it in the vector.
  One register stays in the vector.\<close>

fun drain :: "reg list \<Rightarrow> copy_state \<Rightarrow> copy_state" where
  "drain (x # y # r) st = drain (y # r) (emit_copy y x st)"
| "drain r st = st\<lparr>cs_ready := r\<rparr>"

definition break_cycle :: "(reg \<rightharpoonup> reg) \<Rightarrow> reg \<Rightarrow> reg \<Rightarrow> copy_state \<Rightarrow> copy_state option" where
  "break_cycle pred b l st =
     map_option (\<lambda>st1. drain (rev (l # cs_ready st1)) st1) (cycle_walk pred b b st)"

text \<open>The two loops over \<open>P\<close>: cycles of which a register has a copy outside, then the other cycles,
  through the new register \<open>n\<close>.\<close>

fun copied_cycles :: "(reg \<rightharpoonup> reg) \<Rightarrow> (reg \<times> reg) list \<Rightarrow> copy_state \<Rightarrow> copy_state option" where
  "copied_cycles pred [] st = Some st"
| "copied_cycles pred ((a, b) # P) st =
     do { st1 \<leftarrow> (case cs_loc st b of
                   Some l \<Rightarrow> if cs_deg st b \<noteq> 0 then break_cycle pred b l st else Some st
                 | None \<Rightarrow> Some st);
          copied_cycles pred P st1 }"

fun other_cycles :: "(reg \<rightharpoonup> reg) \<Rightarrow> reg \<Rightarrow> (reg \<times> reg) list \<Rightarrow> copy_state \<Rightarrow> copy_state option" where
  "other_cycles pred n [] st = Some st"
| "other_cycles pred n ((a, b) # P) st =
     do { st1 \<leftarrow> (if cs_deg st b \<noteq> 0 then break_cycle pred b n (emit_copy b n st) else Some st);
          other_cycles pred n P st1 }"

definition seq_copies :: "(reg \<times> reg) list \<Rightarrow> reg \<Rightarrow> (reg \<times> reg) list option" where
  "seq_copies P n =
     (let pred = copy_pred P in
      do { st1 \<leftarrow> ready_loop pred (init_copies P);
           st2 \<leftarrow> copied_cycles pred P st1;
           st3 \<leftarrow> other_cycles pred n P st2;
           Some (cs_out st3) })"

section \<open>Meaning of the copies\<close>

definition run_copies :: "(reg \<times> reg) list \<Rightarrow> (reg \<Rightarrow> 'v) \<Rightarrow> reg \<Rightarrow> 'v" where
  "run_copies cs r = foldl (\<lambda>r (d, s). r(d := r s)) r cs"

text \<open>All at the same time.\<close>

definition parallel :: "(reg \<times> reg) list \<Rightarrow> (reg \<Rightarrow> 'v) \<Rightarrow> reg \<Rightarrow> 'v" where
  "parallel P r x = (case copy_pred P x of Some a \<Rightarrow> r a | None \<Rightarrow> r x)"

lemma run_copies_simps [simp]:
  "run_copies [] r = r" "run_copies (cs @ [(d, s)]) r = (run_copies cs r)(d := run_copies cs r s)"
  by (simp_all add: run_copies_def)

lemma emit_copy_fields [simp]:
  "cs_deg (emit_copy a b st) = cs_deg st" "cs_loc (emit_copy a b st) = cs_loc st"
  "cs_ready (emit_copy a b st) = cs_ready st"
  "run_copies (cs_out (emit_copy a b st)) r = (run_copies (cs_out st) r)(b := run_copies (cs_out st) r a)"
  by (auto simp: emit_copy_def)

section \<open>The tables of the assignments\<close>

lemma copy_pred_Some:
  assumes "distinct (map snd P)"
  shows "copy_pred P b = Some a \<longleftrightarrow> (a, b) \<in> set P"
proof -
  have "foldl (\<lambda>m (a, b). m(b \<mapsto> a)) m P = m ++ map_of (rev (map (\<lambda>(a, b). (b, a)) P))" for m :: "reg \<rightharpoonup> reg"
    by (induction P arbitrary: m) (auto simp: map_add_def fun_eq_iff split: option.splits)
  then have "copy_pred P = map_of (rev (map (\<lambda>(a, b). (b, a)) P))" by (simp add: copy_pred_def)
  moreover have "map fst (rev (map (\<lambda>(a, b). (b, a)) P)) = rev (map snd P)" by (induction P) auto
  ultimately show ?thesis using assms by (auto simp: map_of_eq_Some_iff)
qed

lemma copy_pred_dom: "distinct (map snd P) \<Longrightarrow> dom (copy_pred P) = snd ` set P"
  by (force simp: dom_def copy_pred_Some)

lemma copy_deg_card:
  assumes "distinct (map snd P)"
  shows "copy_deg P a = int (card {b. copy_pred P b = Some a})"
proof -
  have "foldl (\<lambda>m (a, b). m(a := m a + 1)) m P a = m a + int (length (filter (\<lambda>q. fst q = a) P))" for m :: "reg \<Rightarrow> int"
    by (induction P arbitrary: m) auto
  then have "copy_deg P a = int (length (filter (\<lambda>q. fst q = a) P))" by (simp add: copy_deg_def)
  also have "length (filter (\<lambda>q. fst q = a) P) = card (snd ` set (filter (\<lambda>q. fst q = a) P))"
    using assms by (metis distinct_card distinct_map_filter length_map set_map)
  also have "snd ` set (filter (\<lambda>q. fst q = a) P) = {b. copy_pred P b = Some a}"
    by (force simp: copy_pred_Some [OF assms] image_iff)
  finally show ?thesis .
qed

text \<open>A register on a cycle of the assignments.\<close>

definition source_rel :: "(reg \<rightharpoonup> reg) \<Rightarrow> (reg \<times> reg) set" where
  "source_rel p = {(b, a). p b = Some a}"

definition on_cycle :: "(reg \<rightharpoonup> reg) \<Rightarrow> reg \<Rightarrow> bool" where
  "on_cycle p b = ((b, b) \<in> (source_rel p)\<^sup>+)"

lemma on_cycle_read: "on_cycle p b \<Longrightarrow> \<exists>c. p c = Some b \<and> on_cycle p c"
proof -
  assume b: "on_cycle p b"
  then obtain c where c: "(b, c) \<in> (source_rel p)\<^sup>*" "(c, b) \<in> source_rel p"
    unfolding on_cycle_def by (metis tranclD2)
  then have "(c, c) \<in> (source_rel p)\<^sup>+" by (meson rtrancl_into_trancl2 rtrancl_trancl_trancl trancl.r_into_trancl)
  then show ?thesis using c(2) by (auto simp: on_cycle_def source_rel_def)
qed

section \<open>The first loop\<close>

text \<open>\<open>U\<close>: the registers still to be assigned. Their sources are not overwritten yet.\<close>

definition copies_env :: "(reg \<rightharpoonup> reg) \<Rightarrow> reg set \<Rightarrow> (reg \<Rightarrow> 'v) \<Rightarrow> reg \<Rightarrow> 'v" where
  "copies_env p U r x = (if x \<in> dom p - U then r (the (p x)) else r x)"

definition loc_ok :: "(reg \<rightharpoonup> reg) \<Rightarrow> reg set \<Rightarrow> copy_state \<Rightarrow> bool" where
  "loc_ok p U st = (\<forall>a c. cs_loc st a = Some c \<longrightarrow> c \<notin> U \<and> p c = Some a)"

definition ready_ok :: "(reg \<rightharpoonup> reg) \<Rightarrow> reg set \<Rightarrow> (reg \<Rightarrow> 'v) \<Rightarrow> copy_state \<Rightarrow> bool" where
  "ready_ok p U r st =
     (U \<subseteq> dom p \<and> (\<forall>a. cs_deg st a = int (card {b \<in> U. p b = Some a})) \<and>
      distinct (cs_ready st) \<and> set (cs_ready st) = {b \<in> U. cs_deg st b = 0} \<and>
      (\<forall>y a. y \<in> U \<longrightarrow> p y = Some a \<longrightarrow> a \<in> dom p \<longrightarrow> a \<in> U) \<and>
      run_copies (cs_out st) r = copies_env p U r \<and> loc_ok p U st \<and> (\<forall>b. on_cycle p b \<longrightarrow> b \<in> U))"

lemma on_cycle_dom: "on_cycle p b \<Longrightarrow> b \<in> dom p"
  by (auto simp: on_cycle_def source_rel_def elim: tranclE converse_tranclE)

lemma init_ready_ok:
  assumes "distinct (map snd P)"
  shows "ready_ok (copy_pred P) (dom (copy_pred P)) r (init_copies P)"
proof -
  have "{b \<in> dom (copy_pred P). copy_pred P b = Some a} = {b. copy_pred P b = Some a}" for a by auto
  moreover have "distinct (map snd (filter (\<lambda>(a, b). copy_deg P b = 0) P))"
    using assms by (rule distinct_map_filter)
  moreover have "snd ` {x \<in> set P. case x of (a, b) \<Rightarrow> copy_deg P b = 0} = {b \<in> dom (copy_pred P). copy_deg P b = 0}"
    by (force simp: copy_pred_dom [OF assms])
  ultimately show ?thesis
    by (simp add: ready_ok_def init_copies_def copy_deg_card [OF assms, symmetric] loc_ok_def on_cycle_dom
        copies_env_def fun_eq_iff)
qed

lemma ready_step:
  assumes "finite (dom p)" and "ready_ok p U r st" and b: "cs_ready st = b # rest"
  shows "\<exists>a. p b = Some a \<and> b \<in> U \<and>
    (let d = cs_deg st a - 1;
         st1 = emit_copy a b (st\<lparr>cs_ready := rest\<rparr>);
         st2 = st1\<lparr>cs_loc := (cs_loc st1)(a \<mapsto> b), cs_deg := (cs_deg st1)(a := d)\<rparr> in
     ready_ok p (U - {b}) r (if d = 0 \<and> p a \<noteq> None then st2\<lparr>cs_ready := a # rest\<rparr> else st2))"
proof -
  let ?n = "\<lambda>U a. int (card {b \<in> U. p b = Some a})"
  have U: "U \<subseteq> dom p" and deg: "\<And>a. cs_deg st a = ?n U a" and dist: "distinct (b # rest)"
    and ready: "insert b (set rest) = {b \<in> U. cs_deg st b = 0}"
    and closed: "\<And>y a. y \<in> U \<Longrightarrow> p y = Some a \<Longrightarrow> a \<in> dom p \<Longrightarrow> a \<in> U"
    and env: "run_copies (cs_out st) r = copies_env p U r" and loc: "loc_ok p U st"
    and cyc: "\<And>b. on_cycle p b \<Longrightarrow> b \<in> U"
    using assms(2) b by (auto simp: ready_ok_def)
  have fin: "finite U" using U assms(1) by (rule finite_subset)
  have bU: "b \<in> U" "cs_deg st b = 0" using ready by auto
  then obtain a where a: "p b = Some a" using U by blast
  have unread: "p y \<noteq> Some b" if "y \<in> U" for y
    using bU(2) that fin by (auto simp: deg)
  have ab: "a \<noteq> b" using unread [OF bU(1)] a by auto
  have na: "a \<notin> dom p - U" using closed [OF bU(1) a] by blast
  let ?U = "U - {b}" and ?d = "cs_deg st a - 1"
  have "{y \<in> U. p y = Some a} = insert b {y \<in> ?U. p y = Some a}" using bU(1) a by auto
  then have "?n U a = ?n ?U a + 1" using fin by simp
  then have deg': "((cs_deg st)(a := ?d)) z = ?n ?U z" for z
  proof (cases "z = a")
    case False
    then have "{y \<in> ?U. p y = Some z} = {y \<in> U. p y = Some z}" using a by auto
    then show ?thesis using False deg [of z] by simp
  qed (simp add: deg)
  have arest: "a \<notin> set rest"
  proof
    assume "a \<in> set rest"
    then have "a \<in> {y \<in> U. cs_deg st y = 0}" using ready by blast
    then have "?n U a = 0" using deg [of a] by simp
    then show False using \<open>?n U a = ?n ?U a + 1\<close> by simp
  qed
  have brest: "set rest = {y \<in> ?U. cs_deg st y = 0}" using ready dist by auto
  let ?st1 = "emit_copy a b (st\<lparr>cs_ready := rest\<rparr>)"
  let ?st2 = "?st1\<lparr>cs_loc := (cs_loc ?st1)(a \<mapsto> b), cs_deg := (cs_deg ?st1)(a := ?d)\<rparr>"
  let ?st = "if ?d = 0 \<and> p a \<noteq> None then ?st2\<lparr>cs_ready := a # rest\<rparr> else ?st2"
  have ready': "set (cs_ready ?st) = {y \<in> ?U. ((cs_deg st)(a := ?d)) y = 0}" "distinct (cs_ready ?st)"
  proof -
    have aU: "a \<in> ?U" if "p a \<noteq> None" using na ab that by auto
    have "cs_deg st a \<noteq> 0" using \<open>?n U a = ?n ?U a + 1\<close> deg [of a] by simp
    then show "set (cs_ready ?st) = {y \<in> ?U. ((cs_deg st)(a := ?d)) y = 0}"
      using brest aU U by auto
    show "distinct (cs_ready ?st)" using dist arest by simp
  qed
  have env': "run_copies (cs_out ?st) r = copies_env p ?U r"
  proof -
    have "run_copies (cs_out ?st) r = (copies_env p U r)(b := copies_env p U r a)" using env by auto
    also have "copies_env p U r a = r a" using na by (auto simp: copies_env_def)
    also have "(copies_env p U r)(b := r a) = copies_env p ?U r"
      using bU(1) U a by (auto simp: copies_env_def fun_eq_iff)
    finally show ?thesis .
  qed
  have d: "cs_deg ?st = (cs_deg st)(a := ?d)" by simp
  have "ready_ok p ?U r ?st"
    unfolding ready_ok_def
  proof (intro conjI)
    show "?U \<subseteq> dom p" using U by blast
    show "\<forall>z. cs_deg ?st z = ?n ?U z" unfolding d using deg' by blast
    show "distinct (cs_ready ?st)" by (rule ready')
    show "set (cs_ready ?st) = {y \<in> ?U. cs_deg ?st y = 0}" unfolding d by (rule ready')
    show "\<forall>y z. y \<in> ?U \<longrightarrow> p y = Some z \<longrightarrow> z \<in> dom p \<longrightarrow> z \<in> ?U" using closed unread by blast
    show "run_copies (cs_out ?st) r = copies_env p ?U r" by (rule env')
    show "loc_ok p ?U ?st" using loc a bU(1) by (auto simp: loc_ok_def)
    show "\<forall>c. on_cycle p c \<longrightarrow> c \<in> ?U" using cyc on_cycle_read unread by blast
  qed
  then show ?thesis unfolding Let_def using a bU(1) by blast
qed

lemma ready_loop_ok:
  assumes "finite (dom p)" and "ready_ok p U r st"
  shows "\<exists>st' U'. ready_loop p st = Some st' \<and> ready_ok p U' r st' \<and> cs_ready st' = []"
  using assms(2)
proof (induction "card U" arbitrary: U st rule: less_induct)
  case less
  show ?case
  proof (cases "cs_ready st")
    case Nil
    then have "ready_loop p st = Some st" by (subst ready_loop.simps) simp
    then show ?thesis using less.prems Nil by blast
  next
    case (Cons b rest)
    from ready_step [OF assms(1) less.prems Cons] obtain a where a: "p b = Some a" "b \<in> U"
      and o: "let d = cs_deg st a - 1;
         st1 = emit_copy a b (st\<lparr>cs_ready := rest\<rparr>);
         st2 = st1\<lparr>cs_loc := (cs_loc st1)(a \<mapsto> b), cs_deg := (cs_deg st1)(a := d)\<rparr> in
       ready_ok p (U - {b}) r (if d = 0 \<and> p a \<noteq> None then st2\<lparr>cs_ready := a # rest\<rparr> else st2)" by blast
    have "finite U" using less.prems assms(1) by (auto simp: ready_ok_def intro: finite_subset)
    then have "card (U - {b}) < card U" using a(2) by (intro psubset_card_mono) auto
    from less.hyps [OF this o [unfolded Let_def]] show ?thesis
      by (subst ready_loop.simps) (simp add: Cons a(1) Let_def)
  qed
qed

section \<open>Cycles\<close>

text \<open>When nothing is ready, what is left are cycles: the sources of the pending assignments are exactly
  their targets.\<close>

abbreviation source :: "(reg \<rightharpoonup> reg) \<Rightarrow> reg \<Rightarrow> reg" where
  "source p \<equiv> \<lambda>b. the (p b)"

lemma pending_cycles:
  assumes "finite U" and "U \<subseteq> dom p" and "\<forall>b\<in>U. \<exists>c\<in>U. p c = Some b"
  shows "source p ` U = U" and "inj_on (source p) U"
proof -
  have "U \<subseteq> source p ` U" using assms(3) by force
  then have "U = source p ` U" by (rule card_seteq [rotated]) (use assms(1) card_image_le in auto)
  then show "source p ` U = U" by simp
  then show "inj_on (source p) U" using assms(1) by (simp add: eq_card_imp_inj_on)
qed

lemma funpow_in: "f ` U = U \<Longrightarrow> b \<in> U \<Longrightarrow> (f ^^ i) b \<in> U"
  by (induction i) auto

lemma funpow_cancel:
  "f ` U = U \<Longrightarrow> inj_on f U \<Longrightarrow> x \<in> U \<Longrightarrow> y \<in> U \<Longrightarrow> (f ^^ i) x = (f ^^ i) y \<Longrightarrow> x = y"
proof (induction i)
  case (Suc i)
  have "(f ^^ i) x = (f ^^ i) y"
    by (rule inj_onD [OF Suc.prems(2)]) (use Suc.prems funpow_in [of f U] in auto)
  then show ?case using Suc by blast
qed simp

text \<open>The cycle of \<open>b\<close>, as the walk finds it.\<close>

definition cycle_list :: "('a \<Rightarrow> 'a) \<Rightarrow> 'a \<Rightarrow> nat \<Rightarrow> 'a list" where
  "cycle_list f b k = map (\<lambda>i. (f ^^ i) b) [0..<k]"

lemma cycle_exists:
  assumes "finite U" and "f ` U = U" and "inj_on f U" and "b \<in> U"
  shows "\<exists>k. 0 < k \<and> (f ^^ k) b = b \<and> distinct (cycle_list f b k) \<and> set (cycle_list f b k) \<subseteq> U"
proof -
  have inU: "(f ^^ i) b \<in> U" for i by (rule funpow_in [OF assms(2,4)])
  have again: "(f ^^ (j - i)) b = b" if "i < j" "(f ^^ i) b = (f ^^ j) b" for i j
  proof -
    have "(f ^^ j) b = (f ^^ i) ((f ^^ (j - i)) b)"
      using that(1) by (metis comp_apply funpow_add le_add_diff_inverse less_imp_le)
    then show ?thesis using funpow_cancel [OF assms(2,3) _ assms(4), of "(f ^^ (j - i)) b" i] inU that(2) by simp
  qed
  have "\<not> inj (\<lambda>i. (f ^^ i) b)"
  proof
    assume "inj (\<lambda>i. (f ^^ i) b)"
    moreover have "finite (range (\<lambda>i. (f ^^ i) b))" by (rule finite_subset [OF _ assms(1)]) (use inU in blast)
    ultimately show False using finite_imageD infinite_UNIV_nat by blast
  qed
  then obtain i j where "i < j" "(f ^^ i) b = (f ^^ j) b"
    unfolding inj_on_def by (metis linorder_neqE_nat UNIV_I)
  then have ex: "0 < j - i \<and> (f ^^ (j - i)) b = b" using again by simp
  let ?k = "LEAST k. 0 < k \<and> (f ^^ k) b = b"
  have k: "0 < ?k \<and> (f ^^ ?k) b = b" by (rule LeastI [of "\<lambda>k. 0 < k \<and> (f ^^ k) b = b", OF ex])
  have "inj_on (\<lambda>i. (f ^^ i) b) {0..<?k}"
  proof (rule linorder_inj_onI')
    fix i j assume ij: "i \<in> {0..<?k}" "j \<in> {0..<?k}" "i < j"
    show "(f ^^ i) b \<noteq> (f ^^ j) b"
    proof
      assume "(f ^^ i) b = (f ^^ j) b"
      then have "0 < j - i \<and> (f ^^ (j - i)) b = b" using again ij(3) by simp
      then have "?k \<le> j - i" by (rule Least_le)
      then show False using ij by auto
    qed
  qed
  then have "distinct (cycle_list f b ?k)" by (simp add: cycle_list_def distinct_map)
  then show ?thesis using k inU by (intro exI [of _ ?k]) (auto simp: cycle_list_def)
qed

lemma cycle_walk_ok:
  assumes "\<And>i. p ((source p ^^ i) b) = Some ((source p ^^ Suc i) b)" and "(source p ^^ k) b = b"
    and "\<And>j. 0 < j \<Longrightarrow> j < k \<Longrightarrow> (source p ^^ j) b \<noteq> b"
  shows "i < k \<Longrightarrow> cycle_walk p b ((source p ^^ i) b) st =
    Some (st\<lparr>cs_deg := \<lambda>z. if z \<in> set (map (\<lambda>j. (source p ^^ j) b) [i..<k]) then 0 else cs_deg st z,
             cs_ready := rev (map (\<lambda>j. (source p ^^ j) b) [i..<k]) @ cs_ready st\<rparr>)"
proof (induction "k - i" arbitrary: i st)
  case (Suc d)
  let ?g = "\<lambda>j. (source p ^^ j) b"
  have up: "[i..<k] = i # [Suc i..<k]" using Suc.prems by (simp add: upt_conv_Cons)
  show ?case
  proof (cases "Suc i = k")
    case True
    then show ?thesis
      by (subst cycle_walk.simps) (use assms(1) [of i] assms(2) up in \<open>simp add: fun_upd_def\<close>)
  next
    case False
    then have lt: "Suc i < k" using Suc.prems by simp
    have ne: "?g (Suc i) \<noteq> b" by (rule assms(3)) (use lt in simp_all)
    have d: "d = k - Suc i" using Suc.hyps(2) by simp
    have f: "(\<lambda>z. if z \<in> set (map ?g [Suc i..<k]) then 0 else ((cs_deg st)(?g i := 0)) z) =
        (\<lambda>z. if z \<in> set (map ?g [i..<k]) then 0 else cs_deg st z)"
      unfolding up by auto
    let ?st = "st\<lparr>cs_deg := (cs_deg st)(?g i := 0), cs_ready := ?g i # cs_ready st\<rparr>"
    have "cycle_walk p b (?g i) st = cycle_walk p b (?g (Suc i)) ?st"
    proof -
      obtain y where y: "p (?g i) = Some y" "?g (Suc i) = y" using assms(1) [of i] by blast
      show ?thesis by (subst cycle_walk.simps) (use y ne in \<open>simp add: Let_def del: funpow.simps\<close>)
    qed
    also have "\<dots> = Some (st\<lparr>cs_deg := \<lambda>z. if z \<in> set (map ?g [i..<k]) then 0 else cs_deg st z,
        cs_ready := rev (map ?g [i..<k]) @ cs_ready st\<rparr>)"
      unfolding Suc.hyps(1) [OF d lt] f [symmetric] by (simp add: up cong: if_cong)
    finally show ?thesis .
  qed
qed simp

text \<open>Draining the vector shifts the values along it.\<close>

lemma drain_ok:
  assumes "distinct xs" and "xs \<noteq> []"
  shows "(\<forall>i. Suc i < length xs \<longrightarrow> run_copies (cs_out (drain xs st)) r (xs ! i) = run_copies (cs_out st) r (xs ! Suc i)) \<and>
    (\<forall>z. z \<notin> set (butlast xs) \<longrightarrow> run_copies (cs_out (drain xs st)) r z = run_copies (cs_out st) r z) \<and>
    cs_deg (drain xs st) = cs_deg st \<and> cs_loc (drain xs st) = cs_loc st \<and> cs_ready (drain xs st) = [last xs]"
  using assms
proof (induction xs st rule: drain.induct)
  case (1 x y zs st)
  let ?st = "emit_copy y x st" and ?E = "run_copies (cs_out st) r"
  note ih = 1(1) [OF _ list.simps(3)]
  have d: "distinct (y # zs)" "x \<notin> set (y # zs)" using 1(2) by auto
  have E: "run_copies (cs_out ?st) r = ?E(x := ?E y)" by simp
  have out: "x \<notin> set (butlast (y # zs))" using d(2) by (meson in_set_butlastD)
  have dr: "drain (x # y # zs) st = drain (y # zs) ?st" by simp
  have "run_copies (cs_out (drain (x # y # zs) st)) r ((x # y # zs) ! i) = ?E ((x # y # zs) ! Suc i)"
    if "Suc i < length (x # y # zs)" for i
  proof (cases i)
    case 0
    then show ?thesis using ih [OF d(1)] out E unfolding dr by simp
  next
    case (Suc j)
    then have j: "Suc j < length (y # zs)" using that by simp
    then have "(y # zs) ! Suc j \<in> set (y # zs)" by (rule nth_mem)
    then have "(y # zs) ! Suc j \<noteq> x" using d(2) by metis
    moreover have "run_copies (cs_out (drain (y # zs) ?st)) r ((y # zs) ! j) = run_copies (cs_out ?st) r ((y # zs) ! Suc j)"
      using ih [OF d(1)] j by blast
    ultimately show ?thesis using Suc unfolding dr E by simp
  qed
  moreover have "run_copies (cs_out (drain (x # y # zs) st)) r z = ?E z" if "z \<notin> set (butlast (x # y # zs))" for z
    using ih [OF d(1)] that unfolding dr E by auto
  ultimately show ?case using ih [OF d(1)] unfolding dr by auto
qed auto

section \<open>The last two loops\<close>

text \<open>\<open>U\<close>: the cycles not broken yet; \<open>n\<close> is the new register.\<close>

definition cycles_ok :: "(reg \<rightharpoonup> reg) \<Rightarrow> reg \<Rightarrow> reg set \<Rightarrow> (reg \<Rightarrow> 'v) \<Rightarrow> copy_state \<Rightarrow> bool" where
  "cycles_ok p n U r st =
     (U \<subseteq> dom p \<and> source p ` U = U \<and> inj_on (source p) U \<and> (\<forall>x \<in> dom p. (cs_deg st x \<noteq> 0) = (x \<in> U)) \<and>
      (\<forall>x. x \<noteq> n \<longrightarrow> run_copies (cs_out st) r x = copies_env p U r x) \<and> loc_ok p U st)"

lemma loc_value:
  assumes "cycles_ok p n U r st" and "n \<notin> dom p" and "cs_loc st b = Some l"
  shows "l \<notin> U" and "run_copies (cs_out st) r l = r b" and "p l = Some b"
proof -
  show l: "l \<notin> U" "p l = Some b" using assms(1,3) by (simp_all add: cycles_ok_def loc_ok_def)
  then have "l \<noteq> n" using assms(2) by auto
  then have "run_copies (cs_out st) r l = copies_env p U r l" using assms(1) by (simp add: cycles_ok_def)
  then show "run_copies (cs_out st) r l = r b" using l by (auto simp: copies_env_def)
qed

lemma break_cycle_ok:
  assumes "finite (dom p)" and ok: "cycles_ok p n U r st" and b: "b \<in> U" and n: "n \<notin> dom p"
    and l: "l \<notin> U" "run_copies (cs_out st) r l = r b"
    and rd: "cs_ready st = [] \<or> cs_ready st = [n] \<and> l = n"
  shows "\<exists>st' C. break_cycle p b l st = Some st' \<and> cycles_ok p n (U - C) r st' \<and> b \<in> C \<and> C \<subseteq> U \<and>
    (\<forall>c. (b, c) \<in> (source_rel p)\<^sup>+ \<longrightarrow> c \<in> C) \<and> cs_ready st' = [l] \<and> cs_loc st' = cs_loc st"
proof -
  let ?f = "source p" and ?E = "run_copies (cs_out st) r"
  have U: "U \<subseteq> dom p" "?f ` U = U" "inj_on ?f U" and deg: "\<forall>x \<in> dom p. (cs_deg st x \<noteq> 0) = (x \<in> U)"
    and env: "\<And>x. x \<noteq> n \<Longrightarrow> ?E x = copies_env p U r x" and loc: "loc_ok p U st"
    using ok by (simp_all add: cycles_ok_def)
  have fin: "finite U" using U(1) assms(1) by (rule finite_subset)
  obtain k where k: "0 < k" "(?f ^^ k) b = b" "distinct (cycle_list ?f b k)" "set (cycle_list ?f b k) \<subseteq> U"
    using cycle_exists [OF fin U(2,3) b] by blast
  let ?g = "\<lambda>i. (?f ^^ i) b" and ?ys = "cycle_list ?f b k"
  let ?C = "set ?ys"
  have inU: "?g i \<in> U" for i by (rule funpow_in [OF U(2) b])
  have EU: "?E x = r x" if "x \<in> U" for x
    using env [of x] that n U(1) by (auto simp: copies_env_def)
  have yk: "?ys ! i = ?g i" if "i < k" for i using that by (simp add: cycle_list_def)
  have len: "length ?ys = k" by (simp add: cycle_list_def)
  have bC: "b \<in> ?C" using k(1) nth_mem [of 0 ?ys] yk [of 0] len by simp
  have closed: "?f x \<in> ?C" if x: "x \<in> ?C" for x
  proof -
    obtain i where i: "i < k" "x = ?g i" using x by (auto simp: cycle_list_def)
    show ?thesis
    proof (cases "Suc i = k")
      case True
      then show ?thesis using i k(2) bC by auto
    next
      case False
      then have "?ys ! Suc i \<in> ?C" using i(1) len by (intro nth_mem) simp
      then show ?thesis using i False yk [of "Suc i"] by simp
    qed
  qed
  have CC: "?f ` ?C = ?C"
  proof (rule card_seteq)
    show "?f ` ?C \<subseteq> ?C" using closed by blast
    show "card ?C \<le> card (?f ` ?C)" using card_image [OF inj_on_subset [OF U(3) k(4)]] by simp
  qed simp
  have walk: "cycle_walk p b b st =
      Some (st\<lparr>cs_deg := \<lambda>z. if z \<in> ?C then 0 else cs_deg st z, cs_ready := rev ?ys @ cs_ready st\<rparr>)"
  proof -
    have s: "p (?g i) = Some (?g (Suc i))" for i using inU [of i] U(1) by auto
    have ne: "?g j \<noteq> b" if "0 < j" "j < k" for j
      using k(3) that yk [of j] yk [of 0] len nth_eq_iff_index_eq [OF k(3), of j 0] k(1) by simp
    from cycle_walk_ok [OF s k(2) ne, of 0 st] show ?thesis using k(1) by (simp add: cycle_list_def)
  qed
  let ?st1 = "st\<lparr>cs_deg := \<lambda>z. if z \<in> ?C then 0 else cs_deg st z, cs_ready := rev ?ys @ cs_ready st\<rparr>"
  have brk: "break_cycle p b l st = Some (drain (rev (cs_ready st) @ ?ys @ [l]) ?st1)"
    by (simp add: break_cycle_def walk)
  obtain st2 where st2: "drain (rev (cs_ready st) @ ?ys @ [l]) ?st1 = drain (?ys @ [l]) st2"
    and E2: "run_copies (cs_out st2) r = ?E" "cs_deg st2 = cs_deg ?st1" "cs_loc st2 = cs_loc st"
  proof (cases "cs_ready st = []")
    case True
    then show ?thesis using that [of ?st1] by simp
  next
    case False
    then have rn: "cs_ready st = [n]" "l = n" using rd by auto
    have "?ys \<noteq> []" using k(1) len by auto
    then obtain zs where ys: "?ys = b # zs" using yk [of 0] k(1) by (cases ?ys) auto
    have "?E b = ?E n" using EU [OF b] l(2) rn(2) by simp
    then have "run_copies (cs_out (emit_copy b n ?st1)) r = ?E" by auto
    then show ?thesis using that [of "emit_copy b n ?st1"] rn ys by simp
  qed
  have "distinct (?ys @ [l])" using k(3,4) l(1) by auto
  note dr = drain_ok [OF this, of st2 r, simplified]
  let ?st' = "drain (?ys @ [l]) st2"
  have shift: "run_copies (cs_out ?st') r x = r (?f x)" if x: "x \<in> ?C" for x
  proof -
    obtain i where i: "i < k" "x = ?ys ! i" using x len by (metis in_set_conv_nth)
    have "run_copies (cs_out ?st') r x = ?E ((?ys @ [l]) ! Suc i)"
      using dr i len E2(1) by (simp add: nth_append)
    also have "\<dots> = r (?f x)"
    proof (cases "Suc i = k")
      case True
      then show ?thesis using l(2) i yk [of i] k(2) len by (auto simp: nth_append)
    next
      case False
      then have "(?ys @ [l]) ! Suc i = ?g (Suc i)" using i(1) len yk [of "Suc i"] by (simp add: nth_append)
      then show ?thesis using EU [OF inU [of "Suc i"]] i yk [of i] by simp
    qed
    finally show ?thesis .
  qed
  have other: "run_copies (cs_out ?st') r x = ?E x" if "x \<notin> ?C" for x using dr that E2(1) by (simp add: butlast_append)
  have "cycles_ok p n (U - ?C) r ?st'"
    unfolding cycles_ok_def
  proof (intro conjI allI impI ballI)
    show "U - ?C \<subseteq> dom p" using U(1) by blast
    show "?f ` (U - ?C) = U - ?C" using inj_on_image_set_diff [OF U(3), of U ?C] k(4) U(2) CC by simp
    show "inj_on ?f (U - ?C)" using U(3) by (rule inj_on_subset) blast
    show "(cs_deg ?st' x \<noteq> 0) = (x \<in> U - ?C)" if "x \<in> dom p" for x using deg that dr E2(2) by auto
    show "loc_ok p (U - ?C) ?st'" using loc dr E2(3) by (simp add: loc_ok_def)
    fix x assume x: "x \<noteq> n"
    show "run_copies (cs_out ?st') r x = copies_env p (U - ?C) r x"
    proof (cases "x \<in> ?C")
      case True
      then show ?thesis using shift k(4) U(1) by (auto simp: copies_env_def)
    next
      case False
      then show ?thesis using other env [OF x] by (simp add: copies_env_def)
    qed
  qed
  moreover have "c \<in> ?C" if "(b, c) \<in> (source_rel p)\<^sup>+" for c
    using that
  proof (induction rule: trancl_induct)
    case (base y)
    then show ?case using closed [OF bC] by (auto simp: source_rel_def)
  next
    case (step y z)
    then show ?case using closed [of y] by (auto simp: source_rel_def)
  qed
  moreover have "break_cycle p b l st = Some ?st'" using brk st2 by simp
  moreover have "cs_ready ?st' = [l]" "cs_loc ?st' = cs_loc st" using dr E2(3) by simp_all
  ultimately show ?thesis using bC k(4) by blast
qed

text \<open>The vector keeps a register when a cycle is broken. It does no harm when there is one cycle, or when
  no register on a cycle is copied to one outside: then the register is \<open>n\<close>.\<close>

definition lone_cycles :: "(reg \<rightharpoonup> reg) \<Rightarrow> bool" where
  "lone_cycles p =
     ((\<forall>b c. on_cycle p b \<longrightarrow> p c = Some b \<longrightarrow> on_cycle p c) \<or>
      (\<forall>b c. on_cycle p b \<longrightarrow> on_cycle p c \<longrightarrow> (b, c) \<in> (source_rel p)\<^sup>+))"

lemma ready_to_cycles:
  assumes "finite (dom p)" and "ready_ok p U r st" and "cs_ready st = []"
  shows "cycles_ok p n U r st" and "b \<in> U \<Longrightarrow> on_cycle p b"
proof -
  have U: "U \<subseteq> dom p" and deg: "\<And>a. cs_deg st a = int (card {b \<in> U. p b = Some a})" and "{b \<in> U. cs_deg st b = 0} = {}"
    and closed: "\<And>y a. y \<in> U \<Longrightarrow> p y = Some a \<Longrightarrow> a \<in> dom p \<Longrightarrow> a \<in> U"
    and env: "run_copies (cs_out st) r = copies_env p U r" and loc: "loc_ok p U st"
    using assms(2,3) by (auto simp: ready_ok_def)
  have fin: "finite U" using U assms(1) by (rule finite_subset)
  have nz: "(cs_deg st x \<noteq> 0) = (\<exists>c\<in>U. p c = Some x)" for x using fin by (auto simp: deg)
  then have read: "\<forall>b\<in>U. \<exists>c\<in>U. p c = Some b" using \<open>{b \<in> U. cs_deg st b = 0} = {}\<close> by blast
  note cy = pending_cycles [OF fin U read]
  show "cycles_ok p n U r st"
    unfolding cycles_ok_def
  proof (intro conjI ballI allI impI)
    show "(cs_deg st x \<noteq> 0) = (x \<in> U)" if "x \<in> dom p" for x unfolding nz using read closed that by blast
  qed (use U cy env loc in simp_all)
  show "on_cycle p b" if b: "b \<in> U" for b
  proof -
    obtain k where k: "0 < k" "(source p ^^ k) b = b" using cycle_exists [OF fin cy b] by blast
    have s: "((source p ^^ i) b, (source p ^^ Suc i) b) \<in> source_rel p" for i
      using funpow_in [OF cy(1) b, of i] U by (auto simp: source_rel_def)
    have "(b, (source p ^^ Suc i) b) \<in> (source_rel p)\<^sup>+" for i
    proof (induction i)
      case 0
      then show ?case using s [of 0] by auto
    next
      case (Suc i)
      then show ?case using s [of "Suc i"] by (meson trancl.trancl_into_trancl)
    qed
    from this [of "k - 1"] show ?thesis using k by (simp add: on_cycle_def)
  qed
qed

lemma copied_cycles_ok:
  assumes "finite (dom p)" and "n \<notin> dom p" and "snd ` set P \<subseteq> dom p"
  shows "cycles_ok p n U r st \<Longrightarrow> cs_ready st = [] \<or> U = {} \<Longrightarrow>
    (\<forall>b\<in>U. cs_loc st b = None) \<or> (\<forall>b\<in>U. \<forall>c\<in>U. (b, c) \<in> (source_rel p)\<^sup>+) \<Longrightarrow>
    \<exists>st' U'. copied_cycles p P st = Some st' \<and> cycles_ok p n U' r st' \<and> (cs_ready st' = [] \<or> U' = {})"
  using assms(3)
proof (induction P arbitrary: U st)
  case (Cons q P)
  obtain a b where q: "q = (a, b)" by (cases q)
  have P: "snd ` set P \<subseteq> dom p" "b \<in> dom p" using Cons.prems(4) q by auto
  show ?case
  proof (cases "cs_loc st b \<noteq> None \<and> cs_deg st b \<noteq> 0")
    case True
    then obtain l where l: "cs_loc st b = Some l" by blast
    have b: "b \<in> U" using Cons.prems(1) True P(2) by (simp add: cycles_ok_def)
    then have one: "\<forall>c\<in>U. (b, c) \<in> (source_rel p)\<^sup>+" using Cons.prems(3) l by auto
    have rd: "cs_ready st = []" using Cons.prems(2) b by blast
    note lv = loc_value [OF Cons.prems(1) assms(2) l]
    from break_cycle_ok [OF assms(1) Cons.prems(1) b assms(2) lv(1,2)] rd obtain st1 C where
      s: "break_cycle p b l st = Some st1" "cycles_ok p n (U - C) r st1" "\<forall>c. (b, c) \<in> (source_rel p)\<^sup>+ \<longrightarrow> c \<in> C" by blast
    have "U - C = {}" using one s(3) by blast
    with s(2) have e: "cycles_ok p n {} r st1" by simp
    obtain st' U' where "copied_cycles p P st1 = Some st'" "cycles_ok p n U' r st'" "cs_ready st' = [] \<or> U' = {}"
      using Cons.IH [OF e _ _ P(1)] by auto
    then show ?thesis using True l s(1) q by auto
  next
    case False
    then have "copied_cycles p (q # P) st = copied_cycles p P st" by (auto simp: q split: option.splits)
    then show ?thesis using Cons.IH [OF Cons.prems(1-3) P(1)] by simp
  qed
qed auto

lemma other_cycles_ok:
  assumes "finite (dom p)" and "n \<notin> dom p" and "snd ` set P \<subseteq> dom p"
  shows "cycles_ok p n U r st \<Longrightarrow> cs_ready st = [] \<or> cs_ready st = [n] \<or> U = {} \<Longrightarrow>
    \<exists>st' U'. other_cycles p n P st = Some st' \<and> cycles_ok p n U' r st' \<and> U' \<subseteq> U \<and> U' \<inter> snd ` set P = {}"
  using assms(3)
proof (induction P arbitrary: U st)
  case (Cons q P)
  obtain a b where q: "q = (a, b)" by (cases q)
  have P: "snd ` set P \<subseteq> dom p" "b \<in> dom p" using Cons.prems(3) q by auto
  show ?case
  proof (cases "cs_deg st b = 0")
    case True
    then have "b \<notin> U" using Cons.prems(1) P(2) by (auto simp: cycles_ok_def)
    then show ?thesis using Cons.IH [OF Cons.prems(1,2) P(1)] True q by auto
  next
    case False
    then have b: "b \<in> U" using Cons.prems(1) P(2) by (simp add: cycles_ok_def)
    let ?st = "emit_copy b n st"
    have ok: "cycles_ok p n U r ?st" using Cons.prems(1) by (simp add: cycles_ok_def loc_ok_def)
    have bn: "b \<noteq> n" using P(2) assms(2) by auto
    have "run_copies (cs_out st) r b = r b" using Cons.prems(1) b bn by (auto simp: cycles_ok_def copies_env_def)
    then have v: "run_copies (cs_out ?st) r n = r b" by simp
    have nU: "n \<notin> U" using assms(2) Cons.prems(1) by (auto simp: cycles_ok_def)
    have rd: "cs_ready ?st = [] \<or> cs_ready ?st = [n] \<and> n = n" using Cons.prems(2) b by auto
    from break_cycle_ok [OF assms(1) ok b assms(2) nU v rd] obtain st1 C where
      s: "break_cycle p b n ?st = Some st1" "cycles_ok p n (U - C) r st1" "b \<in> C" "cs_ready st1 = [n]" by blast
    from Cons.IH [OF s(2) _ P(1)] s(4) obtain st' U' where
      "other_cycles p n P st1 = Some st'" "cycles_ok p n U' r st'" "U' \<subseteq> U - C" "U' \<inter> snd ` set P = {}" by blast
    then show ?thesis using False s(1,3) q by (intro exI [of _ st'] exI [of _ U']) auto
  qed
qed auto

theorem seq_copies_right:
  assumes "distinct (map snd P)" and "n \<notin> snd ` set P" and "lone_cycles (copy_pred P)"
  shows "\<exists>cs. seq_copies P n = Some cs \<and> (\<forall>x. x \<noteq> n \<longrightarrow> run_copies cs r x = parallel P r x)"
proof -
  let ?p = "copy_pred P"
  have dom: "dom ?p = snd ` set P" by (rule copy_pred_dom [OF assms(1)])
  have fin: "finite (dom ?p)" and n: "n \<notin> dom ?p" and P: "snd ` set P \<subseteq> dom ?p" using assms(2) by (simp_all add: dom)
  from ready_loop_ok [OF fin init_ready_ok [OF assms(1)], of r] obtain st1 U where
    s1: "ready_loop ?p (init_copies P) = Some st1" "ready_ok ?p U r st1" "cs_ready st1 = []" by blast
  note c1 = ready_to_cycles(1) [OF fin s1(2,3), of n] and cyc = ready_to_cycles(2) [OF fin s1(2,3)]
  have onU: "on_cycle ?p b \<Longrightarrow> b \<in> U" for b using s1(2) by (simp add: ready_ok_def)
  have lone: "(\<forall>b\<in>U. cs_loc st1 b = None) \<or> (\<forall>b\<in>U. \<forall>c\<in>U. (b, c) \<in> (source_rel ?p)\<^sup>+)"
  proof (rule disjE [OF assms(3) [unfolded lone_cycles_def]])
    assume a: "\<forall>b c. on_cycle ?p b \<longrightarrow> ?p c = Some b \<longrightarrow> on_cycle ?p c"
    have "cs_loc st1 b = None" if "b \<in> U" for b
    proof (rule ccontr)
      assume "cs_loc st1 b \<noteq> None"
      then obtain l where l: "cs_loc st1 b = Some l" by blast
      note lv = loc_value [OF c1 n l]
      have "on_cycle ?p l" using a cyc [OF that] lv(3) by blast
      then show False using onU lv(1) by blast
    qed
    then show ?thesis by blast
  qed (use cyc in blast)
  have rd: "cs_ready st1 = [] \<or> U = {}" using s1(3) by blast
  from copied_cycles_ok [OF fin n P c1 rd lone] obtain st2 V where
    s2: "copied_cycles ?p P st1 = Some st2" "cycles_ok ?p n V r st2" "cs_ready st2 = [] \<or> V = {}" by blast
  from other_cycles_ok [OF fin n P s2(2)] s2(3) obtain st3 W where
    s3: "other_cycles ?p n P st2 = Some st3" "cycles_ok ?p n W r st3" "W \<inter> snd ` set P = {}" by blast
  have "W = {}" using s3(2,3) dom by (auto simp: cycles_ok_def)
  then have "run_copies (cs_out st3) r x = parallel P r x" if "x \<noteq> n" for x
    using s3(2) that by (auto simp: cycles_ok_def copies_env_def parallel_def split: option.splits)
  then show ?thesis using s1(1) s2(1) s3(1) by (simp add: seq_copies_def)
qed

text \<open>Two cycles, and a register of the first copied outside: 3 should get the value of 1, but is
  overwritten when the second cycle is broken, because it is still in the vector.\<close>

lemma stale_register:
  "\<exists>cs. seq_copies [(2, 1), (1, 2), (1, 3), (5, 4), (4, 5)] 9 = Some cs \<and> run_copies cs r 3 = r 4 \<and>
     parallel [(2, 1), (1, 2), (1, 3), (5, 4), (4, 5)] r 3 = r 1"
proof -
  have "seq_copies [(2, 1), (1, 2), (1, 3), (5, 4), (4, 5)] 9 =
      Some [(3, 1), (1, 2), (2, 3), (9, 4), (3, 4), (4, 5), (5, 9)]" by code_simp
  then show ?thesis by (simp add: run_copies_def parallel_def copy_pred_def)
qed

end
