(* ===== verification/Blocks.thy ===== *)
theory Blocks
  imports IRExec
begin

text \<open>
  The editing of the blocks of a function that the front end and the passes share: a new block
  (\<open>NormalFunc::new_BB\<close> of \<open>src/ir/ir.hpp\<close>), a change of the block with a given key, and the instructions of a
  block by its key.
\<close>

section \<open>Definitions\<close>

text \<open>\<open>new_BB\<close>; \<open>k\<close> is the key of the new block. (The test on the name is the one of the code: a name
  that has the prefix gets it twice, one without it does not get it.)\<close>

definition new_bb :: "bb_key \<Rightarrow> string \<Rightarrow> nfunc \<Rightarrow> nfunc" where
  "new_bb k name f =
     (let n = name @ print_int (nf_max_bb_id f + 1); prefix = nf_name f @ ''::'' in
      f\<lparr>nf_max_bb_id := nf_max_bb_id f + 1,
        nf_bbs := nf_bbs f @ [\<lparr>bb_key = k, bb_name = (if take (length prefix) n = prefix then prefix @ n else n),
          bb_instrs = [], bb_id = 0, bb_disable_unroll = False, bb_disable_parallel = False, bb_thread_id = 0\<rparr>]\<rparr>)"

definition update_bb :: "bb_key \<Rightarrow> (bb \<Rightarrow> bb) \<Rightarrow> nfunc \<Rightarrow> nfunc" where
  "update_bb k g f = f\<lparr>nf_bbs := map (\<lambda>b. if bb_key b = k then g b else b) (nf_bbs f)\<rparr>"

definition instrs_at :: "nfunc \<Rightarrow> bb_key \<Rightarrow> instr list option" where
  "instrs_at f k = map_option bb_instrs (find (\<lambda>b. bb_key b = k) (nf_bbs f))"

section \<open>Facts\<close>

lemma find_update:
  assumes "\<And>b. bb_key (g b) = bb_key b"
  shows "find (\<lambda>b. bb_key b = j) (map (\<lambda>b. if bb_key b = k then g b else b) bs) =
    map_option (\<lambda>b. if bb_key b = k then g b else b) (find (\<lambda>b. bb_key b = j) bs)"
  by (induction bs) (auto simp: assms)

lemma instrs_at_update:
  assumes "\<And>b. bb_key (g b) = bb_key b"
  shows "instrs_at (update_bb k g f) j =
    (if j = k then map_option (bb_instrs \<circ> g) (find (\<lambda>b. bb_key b = k) (nf_bbs f)) else instrs_at f j)"
proof -
  have "bb_key b = j" if "find (\<lambda>b. bb_key b = j) (nf_bbs f) = Some b" for b
    using that by (auto simp: find_Some_iff)
  then show ?thesis
    by (cases "find (\<lambda>b. bb_key b = j) (nf_bbs f)") (auto simp: instrs_at_def update_bb_def find_update [OF assms])
qed

lemma instrs_at_push:
  "instrs_at (update_bb k (bb_push i) f) j = (if j = k then map_option (\<lambda>is. is @ [i]) (instrs_at f j) else instrs_at f j)"
  using instrs_at_update [of "bb_push i" k f j] by (simp add: bb_push_def instrs_at_def option.map_comp comp_def)

lemma instrs_at_last:
  "instrs_at (update_bb k (\<lambda>x. x\<lparr>bb_instrs := g (bb_instrs x)\<rparr>) f) j = (if j = k then map_option g (instrs_at f j) else instrs_at f j)"
  using instrs_at_update [of "\<lambda>x. x\<lparr>bb_instrs := g (bb_instrs x)\<rparr>" k f j] by (simp add: instrs_at_def option.map_comp comp_def)

lemma find_append: "find P (xs @ ys) = (case find P xs of None \<Rightarrow> find P ys | Some x \<Rightarrow> Some x)"
  by (induction xs) auto

end
