(* ===== verification/RemovePhi.thy ===== *)
theory RemovePhi
  imports PhiCopies Blocks "HOL-Library.Multiset"
begin

text \<open>
  \<open>remove_phi\<close> of \<open>src/ir/opt/bb_ops.cpp\<close> as a pass over functions: the moves of every edge are collected
  from the phi functions, a block with the sequence of copies is put on the edge, the phi functions go.
  The result of the pass: on its way over an edge a register gets what the phi functions assign to it.
\<close>

section \<open>The pass\<close>

text \<open>The moves of every edge, those of integers and those of floats, in the order of their first one.\<close>

type_synonym movs = "((bb_key \<times> bb_key) \<times> (reg \<times> reg) list \<times> (reg \<times> reg) list) list"

fun add_mov :: "bb_key \<times> bb_key \<Rightarrow> bool \<Rightarrow> reg \<times> reg \<Rightarrow> movs \<Rightarrow> movs" where
  "add_mov e fl m [] = [(e, if fl then ([], [m]) else ([m], []))]"
| "add_mov e fl m ((e', p, q) # ms) =
     (if e' = e then (e', if fl then (p, q @ [m]) else (p @ [m], q)) # ms else (e', p, q) # add_mov e fl m ms)"

fun phi_uses_moves :: "reg set \<Rightarrow> bb_key \<Rightarrow> reg \<Rightarrow> (reg \<times> bb_key) list \<Rightarrow> movs \<Rightarrow> movs option" where
  "phi_uses_moves fl b d [] ms = Some ms"
| "phi_uses_moves fl b d ((r, b0) # us) ms =
     (if r = d then phi_uses_moves fl b d us ms
      else if (r \<in> fl) \<noteq> (d \<in> fl) then None
      else phi_uses_moves fl b d us (add_mov (b0, b) (r \<in> fl) (r, d) ms))"

fun phi_moves :: "reg set \<Rightarrow> bb_key \<Rightarrow> instr list \<Rightarrow> movs \<Rightarrow> movs option" where
  "phi_moves fl b [] ms = Some ms"
| "phi_moves fl b (i # is) ms =
     (case i of
        PhiInstr d us \<Rightarrow> do { ms1 \<leftarrow> phi_uses_moves fl b d us ms; phi_moves fl b is ms1 }
      | _ \<Rightarrow> phi_moves fl b is ms)"

fun all_phi_moves :: "reg set \<Rightarrow> bb list \<Rightarrow> movs \<Rightarrow> movs option" where
  "all_phi_moves fl [] ms = Some ms"
| "all_phi_moves fl (b # bs) ms = do { ms1 \<leftarrow> phi_moves fl (bb_key b) (bb_instrs b) ms; all_phi_moves fl bs ms1 }"

definition is_phi :: "instr \<Rightarrow> bool" where
  "is_phi i = (case i of PhiInstr _ _ \<Rightarrow> True | _ \<Rightarrow> False)"

definition drop_phis :: "nfunc \<Rightarrow> nfunc" where
  "drop_phis f = f\<lparr>nf_bbs := map (\<lambda>b. b\<lparr>bb_instrs := filter (\<lambda>i. \<not> is_phi i) (bb_instrs b)\<rparr>) (nf_bbs f)\<rparr>"

text \<open>The block on an edge.\<close>

definition copy_instrs :: "(reg \<times> reg) list \<Rightarrow> instr list" where
  "copy_instrs cs = map (\<lambda>(b, a). UnaryOpI b a ID) cs"

definition map_last :: "('a \<Rightarrow> 'a) \<Rightarrow> 'a list \<Rightarrow> 'a list" where
  "map_last g xs = (if xs = [] then [] else butlast xs @ [g (last xs)])"

definition split_edge :: "bb_key \<Rightarrow> bb_key \<Rightarrow> bb_key \<Rightarrow> nfunc \<Rightarrow> nfunc" where
  "split_edge k b0 b f =
     update_bb k (bb_push (JumpInstr b))
       (update_bb b0 (\<lambda>x. x\<lparr>bb_instrs := map_last (map_bb (partial_map1 b k)) (bb_instrs x)\<rparr>) (new_bb k ''BB'' f))"

definition push_copies :: "bb_key \<Rightarrow> (reg \<times> reg) list \<Rightarrow> nfunc \<Rightarrow> nfunc option" where
  "push_copies k P f =
     (let (n, f1) = new_reg f in
      map_option (\<lambda>cs. update_bb k (\<lambda>x. foldl (\<lambda>x i. bb_push1 i x) x (copy_instrs cs)) f1) (seq_copies P n))"

text \<open>The edges come in the order of iteration over \<open>movs\<close>, an \<open>unordered_map\<close>.\<close>

fun edge_blocks :: "bb_key \<Rightarrow> movs \<Rightarrow> nfunc \<Rightarrow> nfunc option" where
  "edge_blocks k [] f = Some f"
| "edge_blocks k (((b0, b), p, q) # ms) f =
     do { f1 \<leftarrow> push_copies k p (split_edge k b0 b f);
          f2 \<leftarrow> push_copies k q f1;
          edge_blocks (k + 1) ms f2 }"

definition remove_phi :: "(movs \<Rightarrow> movs) \<Rightarrow> bb_key \<Rightarrow> reg set \<Rightarrow> nfunc \<Rightarrow> nfunc option" where
  "remove_phi order k fl f = do { ms \<leftarrow> all_phi_moves fl (nf_bbs f) []; edge_blocks k (order ms) (drop_phis f) }"

section \<open>The blocks of the edges\<close>

lemma bb_push1_snoc: "bb_instrs x = is @ [t] \<Longrightarrow> bb_instrs (bb_push1 i x) = is @ [i, t]"
  by (simp add: bb_push1_def)

lemma push1_all: "bb_instrs x = is @ [t] \<Longrightarrow> bb_instrs (foldl (\<lambda>x i. bb_push1 i x) x js) = is @ js @ [t]"
proof (induction js arbitrary: x "is")
  case (Cons j js)
  show ?case using Cons.IH [of "bb_push1 j x" "is @ [j]"] bb_push1_snoc [OF Cons.prems] by simp
qed simp

text \<open>The moves found for an edge are those of the phi functions of its target.\<close>

definition edge_moves :: "movs \<Rightarrow> bb_key \<times> bb_key \<Rightarrow> (reg \<times> reg) list \<times> (reg \<times> reg) list" where
  "edge_moves ms e = (case map_of ms e of Some pq \<Rightarrow> pq | None \<Rightarrow> ([], []))"

definition add_class :: "reg set \<Rightarrow> (reg \<times> reg) list \<Rightarrow> (reg \<times> reg) list \<times> (reg \<times> reg) list \<Rightarrow> (reg \<times> reg) list \<times> (reg \<times> reg) list" where
  "add_class fl M pq = (fst pq @ filter (\<lambda>m. fst m \<notin> fl) M, snd pq @ filter (\<lambda>m. fst m \<in> fl) M)"

lemma add_class_add: "add_class fl M (add_class fl N pq) = add_class fl (N @ M) pq"
  by (simp add: add_class_def)

lemma add_class_Nil [simp]: "add_class fl [] pq = pq"
  by (simp add: add_class_def)

lemma edge_moves_add:
  "edge_moves (add_mov e (fst m \<in> fl) m ms) e' = (if e' = e then add_class fl [m] (edge_moves ms e) else edge_moves ms e')"
  by (induction e "fst m \<in> fl" m ms rule: add_mov.induct) (auto simp: edge_moves_def add_class_def)

definition use_moves :: "bb_key \<Rightarrow> reg \<Rightarrow> (reg \<times> bb_key) list \<Rightarrow> (reg \<times> reg) list" where
  "use_moves b0 d us = map (\<lambda>u. (fst u, d)) (filter (\<lambda>u. snd u = b0 \<and> fst u \<noteq> d) us)"

lemma phi_uses_moves_ok:
  "phi_uses_moves fl b d us ms = Some ms' \<Longrightarrow>
     (\<forall>b0 b'. edge_moves ms' (b0, b') = (if b' = b then add_class fl (use_moves b0 d us) (edge_moves ms (b0, b)) else edge_moves ms (b0, b'))) \<and>
     (\<forall>u\<in>set us. fst u \<noteq> d \<longrightarrow> (fst u \<in> fl) = (d \<in> fl))"
proof (induction fl b d us ms rule: phi_uses_moves.induct)
  case (2 fl b d r b0 us ms)
  show ?case
  proof (cases "r = d")
    case True
    then show ?thesis using 2 by (simp add: use_moves_def)
  next
    case False
    then have c: "(r \<in> fl) = (d \<in> fl)" and e: "phi_uses_moves fl b d us (add_mov (b0, b) (r \<in> fl) (r, d) ms) = Some ms'"
      using "2.prems" by (auto split: if_splits)
    note ih = 2(2) [OF False _ e]
    have "edge_moves ms' (b1, b') =
        (if b' = b then add_class fl (use_moves b1 d ((r, b0) # us)) (edge_moves ms (b1, b)) else edge_moves ms (b1, b'))" for b1 b'
      using ih c edge_moves_add [of "(b0, b)" "(r, d)" fl ms "(b1, b)"] edge_moves_add [of "(b0, b)" "(r, d)" fl ms "(b1, b')"] False
      by (auto simp: use_moves_def add_class_add)
    then show ?thesis using ih c by auto
  qed
qed (simp add: use_moves_def)

fun instr_moves :: "bb_key \<Rightarrow> instr \<Rightarrow> (reg \<times> reg) list" where
  "instr_moves b0 (PhiInstr d us) = use_moves b0 d us"
| "instr_moves b0 i = []"

fun phi_typed :: "reg set \<Rightarrow> instr \<Rightarrow> bool" where
  "phi_typed fl (PhiInstr d us) = (\<forall>u\<in>set us. fst u \<noteq> d \<longrightarrow> (fst u \<in> fl) = (d \<in> fl))"
| "phi_typed fl i = True"

lemma phi_moves_ok:
  "phi_moves fl b is ms = Some ms' \<Longrightarrow>
     (\<forall>b0 b'. edge_moves ms' (b0, b') =
        (if b' = b then add_class fl (concat (map (instr_moves b0) is)) (edge_moves ms (b0, b)) else edge_moves ms (b0, b'))) \<and>
     list_all (phi_typed fl) is"
proof (induction "is" arbitrary: ms)
  case (Cons i "is")
  show ?case
  proof (cases "is_phi i")
    case True
    then obtain d us where i: "i = PhiInstr d us" by (cases i) (auto simp: is_phi_def)
    then obtain ms1 where m: "phi_uses_moves fl b d us ms = Some ms1" "phi_moves fl b is ms1 = Some ms'"
      using Cons.prems by (auto simp: bind_eq_Some_conv)
    show ?thesis using Cons.IH [OF m(2)] phi_uses_moves_ok [OF m(1)] i by (auto simp: add_class_add)
  next
    case False
    then have "phi_moves fl b is ms = Some ms'" "instr_moves b0 i = []" "phi_typed fl i" for b0
      using Cons.prems by (cases i; simp add: is_phi_def)+
    then show ?thesis using Cons.IH by simp
  qed
qed (simp add: edge_moves_def)

lemma all_phi_moves_ok:
  "all_phi_moves fl bs ms = Some ms' \<Longrightarrow> distinct (map bb_key bs) \<Longrightarrow>
     (\<forall>b\<in>set bs. list_all (phi_typed fl) (bb_instrs b) \<and>
        edge_moves ms' (b0, bb_key b) = add_class fl (concat (map (instr_moves b0) (bb_instrs b))) (edge_moves ms (b0, bb_key b))) \<and>
     (\<forall>k. k \<notin> bb_key ` set bs \<longrightarrow> edge_moves ms' (b0, k) = edge_moves ms (b0, k))"
proof (induction bs arbitrary: ms)
  case (Cons b bs)
  then obtain ms1 where m: "phi_moves fl (bb_key b) (bb_instrs b) ms = Some ms1" "all_phi_moves fl bs ms1 = Some ms'"
    by (auto simp: bind_eq_Some_conv)
  have d: "distinct (map bb_key bs)" "bb_key b \<notin> bb_key ` set bs" using Cons.prems(2) by auto
  note ih = Cons.IH [OF m(2) d(1)] and one = phi_moves_ok [OF m(1)]
  show ?case
  proof (intro conjI ballI allI impI)
    fix x assume x: "x \<in> set (b # bs)"
    show "list_all (phi_typed fl) (bb_instrs x)" using x ih one by auto
    show "edge_moves ms' (b0, bb_key x) = add_class fl (concat (map (instr_moves b0) (bb_instrs x))) (edge_moves ms (b0, bb_key x))"
    proof (cases "x = b")
      case True
      then show ?thesis using ih one d(2) by simp
    next
      case False
      then have x: "x \<in> set bs" using x by simp
      then have "bb_key x \<noteq> bb_key b" using d(2) by (metis image_eqI)
      then show ?thesis using bspec [OF conjunct1 [OF ih] x] one by simp
    qed
  next
    fix k assume "k \<notin> bb_key ` set (b # bs)"
    then show "edge_moves ms' (b0, k) = edge_moves ms (b0, k)" using ih one by auto
  qed
qed simp

text \<open>The phi functions of a block: one for a register, and one use for a predecessor.\<close>

fun phi_dests :: "instr list \<Rightarrow> reg list" where
  "phi_dests [] = []"
| "phi_dests (i # is) = (case i of PhiInstr d us \<Rightarrow> d # phi_dests is | _ \<Rightarrow> phi_dests is)"

definition phis_ok :: "instr list \<Rightarrow> bool" where
  "phis_ok is = (distinct (phi_dests is) \<and>
     list_all (\<lambda>i. case i of PhiInstr d us \<Rightarrow> distinct (map snd us) | _ \<Rightarrow> True) is)"

text \<open>The register a phi function reads after the block \<open>b0\<close>.\<close>

fun phi_source :: "bb_key \<Rightarrow> instr list \<Rightarrow> reg \<Rightarrow> reg option" where
  "phi_source b0 [] x = None"
| "phi_source b0 (i # is) x =
     (case i of
        PhiInstr d us \<Rightarrow> if d = x then map_of (map (\<lambda>u. (snd u, fst u)) us) b0 else phi_source b0 is x
      | _ \<Rightarrow> phi_source b0 is x)"

definition phi_values :: "bb_key \<Rightarrow> instr list \<Rightarrow> (reg \<Rightarrow> 'v) \<Rightarrow> reg \<Rightarrow> 'v" where
  "phi_values b0 is r x = (case phi_source b0 is x of Some a \<Rightarrow> r a | None \<Rightarrow> r x)"

lemma use_moves_distinct: "distinct (map snd us) \<Longrightarrow> length (use_moves b0 d us) \<le> 1"
proof -
  assume d: "distinct (map snd us)"
  have "length (filter (\<lambda>u. snd u = b0) us) \<le> 1"
    using d by (induction us) (auto simp: filter_empty_conv image_iff)
  moreover have "length (filter (\<lambda>u. snd u = b0 \<and> fst u \<noteq> d) us) \<le> length (filter (\<lambda>u. snd u = b0) us)"
    by (induction us) auto
  ultimately show ?thesis by (simp add: use_moves_def)
qed

lemma moves_of_phis:
  assumes "phis_ok is"
  shows "distinct (map snd (concat (map (instr_moves b0) is))) \<and> snd ` set (concat (map (instr_moves b0) is)) \<subseteq> set (phi_dests is) \<and>
    (\<forall>a x. (a, x) \<in> set (concat (map (instr_moves b0) is)) \<longleftrightarrow> phi_source b0 is x = Some a \<and> a \<noteq> x)"
  using assms
proof (induction "is")
  case (Cons i "is")
  show ?case
  proof (cases "is_phi i")
    case False
    then show ?thesis using Cons by (cases i) (auto simp: is_phi_def phis_ok_def)
  next
    case True
    then obtain d us where i: "i = PhiInstr d us" by (cases i) (auto simp: is_phi_def)
    have ok: "phis_ok is" and dis: "distinct (map snd us)" and d: "d \<notin> set (phi_dests is)"
      using Cons.prems i by (auto simp: phis_ok_def)
    let ?m = "use_moves b0 d us" and ?M = "concat (map (instr_moves b0) is)"
    note ih = Cons.IH [OF ok]
    have snds: "snd ` set ?m \<subseteq> {d}" by (auto simp: use_moves_def)
    have "distinct (map snd ?m)" using use_moves_distinct [OF dis, of b0 d] by (cases ?m) auto
    moreover have "set (map snd ?m) \<inter> set (map snd ?M) = {}"
    proof -
      have "set (map snd ?M) \<subseteq> set (phi_dests is)" using ih by simp
      then show ?thesis using snds d by auto
    qed
    ultimately have dist: "distinct (map snd (?m @ ?M))" using ih by (simp only: map_append distinct_append)
    have "map_of (map (\<lambda>u. (snd u, fst u)) us) b0 = Some a \<longleftrightarrow> (a, b0) \<in> set us" for a
      using dis by (subst map_of_eq_Some_iff) (auto simp: comp_def image_iff intro!: bexI)
    then have mem: "(a, x) \<in> set ?m \<longleftrightarrow> x = d \<and> map_of (map (\<lambda>u. (snd u, fst u)) us) b0 = Some a \<and> a \<noteq> x" for a x
      by (force simp: use_moves_def)
    have "(a, x) \<in> set (?m @ ?M) \<longleftrightarrow> phi_source b0 (i # is) x = Some a \<and> a \<noteq> x" for a x
    proof (cases "x = d")
      case True
      have "snd ` set ?M \<subseteq> set (phi_dests is)" using ih by blast
      then have "(a, x) \<notin> set ?M" using d True by (metis image_eqI snd_conv subsetD)
      then show ?thesis using mem [of a x] True i by auto
    next
      case False
      then show ?thesis using mem [of a x] ih i by auto
    qed
    moreover have "snd ` set (?m @ ?M) \<subseteq> set (phi_dests (i # is))"
    proof -
      have "snd ` set ?M \<subseteq> set (phi_dests is)" using ih by blast
      then show ?thesis using snds i unfolding set_append image_Un by auto
    qed
    moreover have "concat (map (instr_moves b0) (i # is)) = ?m @ ?M" using i by simp
    ultimately show ?thesis using dist by presburger
  qed
qed simp

lemma run_copies_append: "run_copies (xs @ ys) r = run_copies ys (run_copies xs r)"
  by (simp add: run_copies_def)

text \<open>The copies on the edge from \<open>b0\<close> to the block: those of integers, then those of floats.\<close>

lemma edge_copies_right:
  assumes "all_phi_moves fl bs [] = Some ms" and "distinct (map bb_key bs)" and "b \<in> set bs" and "phis_ok (bb_instrs b)"
    and pq: "edge_moves ms (b0, bb_key b) = (p, q)" and "lone_cycles (copy_pred p)" and "lone_cycles (copy_pred q)"
    and "{n, m} \<inter> (fst ` set (p @ q) \<union> snd ` set (p @ q)) = {}"
  shows "\<exists>c d. seq_copies p n = Some c \<and> seq_copies q m = Some d \<and>
    (\<forall>x. x \<noteq> n \<longrightarrow> x \<noteq> m \<longrightarrow> run_copies (c @ d) r x = phi_values b0 (bb_instrs b) r x)"
proof -
  let ?M = "concat (map (instr_moves b0) (bb_instrs b))"
  note all = all_phi_moves_ok [OF assms(1,2), of b0]
  have typed: "list_all (phi_typed fl) (bb_instrs b)" and "edge_moves ms (b0, bb_key b) = add_class fl ?M (edge_moves [] (b0, bb_key b))"
    using all assms(3) by blast+
  then have p: "p = filter (\<lambda>m. fst m \<notin> fl) ?M" and q: "q = filter (\<lambda>m. fst m \<in> fl) ?M"
    using pq by (simp_all add: edge_moves_def add_class_def)
  note M = moves_of_phis [OF assms(4), of b0]
  have cl: "(a \<in> fl) = (x \<in> fl)" if "(a, x) \<in> set ?M" for a x
  proof -
    from that obtain i where i: "i \<in> set (bb_instrs b)" "(a, x) \<in> set (instr_moves b0 i)" by auto
    obtain us where "i = PhiInstr x us" "a \<noteq> x" "a \<in> fst ` set us"
      by (insert i(2), cases i) (auto simp: use_moves_def)
    moreover from this have "phi_typed fl (PhiInstr x us)" using typed i(1) unfolding list_all_iff by blast
    ultimately show ?thesis by auto
  qed
  have dp: "distinct (map snd p)" "distinct (map snd q)" using M unfolding p q by (auto intro: distinct_map_filter)
  obtain c where c: "seq_copies p n = Some c" "\<And>x. x \<noteq> n \<Longrightarrow> run_copies c r x = parallel p r x"
    using seq_copies_right [OF dp(1) _ assms(6), of n r] assms(8) by auto
  obtain d where d: "seq_copies q m = Some d" "\<And>x. x \<noteq> m \<Longrightarrow> run_copies d (run_copies c r) x = parallel q (run_copies c r) x"
    using seq_copies_right [OF dp(2) _ assms(7), of m "run_copies c r"] assms(8) by auto
  have "run_copies (c @ d) r x = phi_values b0 (bb_instrs b) r x" if x: "x \<noteq> n" "x \<noteq> m" for x
  proof (cases "copy_pred q x")
    case (Some a)
    then have a: "(a, x) \<in> set q" using copy_pred_Some [OF dp(2)] by simp
    then have ax: "(a, x) \<in> set ?M" "a \<in> fl" unfolding q by auto
    have "a \<in> fst ` set (p @ q)" using a by force
    then have an: "a \<noteq> n" using assms(8) by blast
    have "copy_pred p a = None"
    proof (rule ccontr)
      assume "copy_pred p a \<noteq> None"
      then obtain z where "(z, a) \<in> set p" using copy_pred_Some [OF dp(1)] by auto
      then show False using cl [of z a] ax(2) unfolding p by auto
    qed
    then have "run_copies c r a = r a" using c(2) [OF an] by (simp add: parallel_def)
    moreover have "phi_source b0 (bb_instrs b) x = Some a" using M ax(1) by blast
    ultimately show ?thesis using d(2) [OF x(2)] Some by (simp add: run_copies_append parallel_def phi_values_def)
  next
    case None
    then have "run_copies (c @ d) r x = parallel p r x" using d(2) [OF x(2)] c(2) [OF x(1)] by (simp add: run_copies_append parallel_def)
    also have "\<dots> = phi_values b0 (bb_instrs b) r x"
    proof (cases "phi_source b0 (bb_instrs b) x")
      case None
      then have "(a, x) \<notin> set p" for a using M unfolding p by auto
      then have "copy_pred p x = None" using copy_pred_Some [OF dp(1), of x] by (metis not_None_eq)
      then show ?thesis using None by (simp add: parallel_def phi_values_def)
    next
      case (Some a)
      show ?thesis
      proof (cases "a = x")
        case True
        then have "(z, x) \<notin> set p" for z using M Some unfolding p by auto
        then have "copy_pred p x = None" using copy_pred_Some [OF dp(1), of x] by (metis not_None_eq)
        then show ?thesis using Some True by (simp add: parallel_def phi_values_def)
      next
        case False
        then have "(a, x) \<in> set ?M" using M Some by blast
        moreover have "(a, x) \<notin> set q" using None copy_pred_Some [OF dp(2), of x a] by simp
        ultimately have "(a, x) \<in> set p" unfolding p q by auto
        then have "copy_pred p x = Some a" using copy_pred_Some [OF dp(1)] by simp
        then show ?thesis using Some by (simp add: parallel_def phi_values_def)
      qed
    qed
    finally show ?thesis .
  qed
  then show ?thesis using c(1) d(1) by blast
qed

text \<open>What stands in the new blocks at the end of the pass.\<close>

definition keys_below :: "bb_key \<Rightarrow> nfunc \<Rightarrow> bool" where
  "keys_below k f = (\<forall>b\<in>set (nf_bbs f). bb_key b < k)"

lemma find_below: "keys_below k f \<Longrightarrow> k \<le> j \<Longrightarrow> find (\<lambda>b. bb_key b = j) (nf_bbs f) = None"
  by (force simp: keys_below_def find_None_iff)

lemma split_edge_code:
  assumes "keys_below k f" and "b0 < k"
  shows "instrs_at (split_edge k b0 b f) k = Some [JumpInstr b]" and "keys_below (k + 1) (split_edge k b0 b f)"
    and "j \<noteq> k \<Longrightarrow> j \<noteq> b0 \<Longrightarrow> instrs_at (split_edge k b0 b f) j = instrs_at f j"
    and "nf_max_reg_id (split_edge k b0 b f) = nf_max_reg_id f"
proof -
  have "find (\<lambda>b. bb_key b = k) (nf_bbs f) = None" by (rule find_below [OF assms(1)]) simp
  then have "instrs_at (new_bb k ''BB'' f) k = Some []" by (simp add: instrs_at_def new_bb_def Let_def find_append)
  then show "instrs_at (split_edge k b0 b f) k = Some [JumpInstr b]"
    using assms(2) by (simp add: split_edge_def instrs_at_push instrs_at_last)
  show "keys_below (k + 1) (split_edge k b0 b f)"
    using assms(1) by (force simp: keys_below_def split_edge_def update_bb_def new_bb_def Let_def bb_push_def)
  have "instrs_at (new_bb k ''BB'' f) j = instrs_at f j" if "j \<noteq> k"
    using that by (auto simp: instrs_at_def new_bb_def Let_def find_append split: option.splits)
  then show "j \<noteq> k \<Longrightarrow> j \<noteq> b0 \<Longrightarrow> instrs_at (split_edge k b0 b f) j = instrs_at f j"
    by (simp add: split_edge_def instrs_at_push instrs_at_last)
  show "nf_max_reg_id (split_edge k b0 b f) = nf_max_reg_id f"
    by (simp add: split_edge_def update_bb_def new_bb_def Let_def)
qed

lemma split_edge_from:
  assumes "b0 \<noteq> k"
  shows "instrs_at (split_edge k b0 b f) b0 = map_option (map_last (map_bb (partial_map1 b k))) (instrs_at f b0)"
proof -
  have "instrs_at (new_bb k ''BB'' f) b0 = instrs_at f b0"
    using assms by (auto simp: instrs_at_def new_bb_def Let_def find_append split: option.splits)
  then show ?thesis using assms by (simp add: split_edge_def instrs_at_push instrs_at_last)
qed

lemma foldl_push_key: "bb_key (foldl (\<lambda>x i. bb_push1 i x) x js) = bb_key x"
  by (induction js arbitrary: x) (auto simp: bb_push1_def)

lemma push_copies_code:
  assumes "push_copies k P f = Some f'" and "instrs_at f k = Some (js @ [t])"
  shows "\<exists>c. seq_copies P (nf_max_reg_id f + 1) = Some c \<and> instrs_at f' k = Some (js @ copy_instrs c @ [t])"
    and "j \<noteq> k \<Longrightarrow> instrs_at f' j = instrs_at f j" and "keys_below m f \<Longrightarrow> keys_below m f'"
    and "nf_max_reg_id f' = nf_max_reg_id f + 1"
proof -
  obtain c where c: "seq_copies P (nf_max_reg_id f + 1) = Some c"
    and f': "f' = update_bb k (\<lambda>x. foldl (\<lambda>x i. bb_push1 i x) x (copy_instrs c)) (snd (new_reg f))"
    using assms(1) by (auto simp: push_copies_def new_reg_def new_reg_named_def)
  have bbs: "nf_bbs (snd (new_reg f)) = nf_bbs f" by (simp add: new_reg_def new_reg_named_def)
  note up = instrs_at_update [of "\<lambda>x. foldl (\<lambda>x i. bb_push1 i x) x (copy_instrs c)", OF foldl_push_key]
  obtain x where x: "find (\<lambda>b. bb_key b = k) (nf_bbs f) = Some x" "bb_instrs x = js @ [t]"
    using assms(2) by (auto simp: instrs_at_def)
  show "\<exists>c. seq_copies P (nf_max_reg_id f + 1) = Some c \<and> instrs_at f' k = Some (js @ copy_instrs c @ [t])"
    using c x push1_all [OF x(2)] by (simp add: f' up bbs)
  show "j \<noteq> k \<Longrightarrow> instrs_at f' j = instrs_at f j" by (simp add: f' up) (simp add: instrs_at_def bbs)
  show "keys_below m f \<Longrightarrow> keys_below m f'" by (auto simp: f' keys_below_def update_bb_def bbs foldl_push_key)
  show "nf_max_reg_id f' = nf_max_reg_id f + 1" by (simp add: f' update_bb_def new_reg_def new_reg_named_def)
qed

text \<open>The last instruction of a block is retargeted once for every edge that leaves it.\<close>

fun retarget :: "bb_key \<Rightarrow> movs \<Rightarrow> bb_key \<Rightarrow> bb_key \<Rightarrow> bb_key" where
  "retarget k [] j t = t"
| "retarget k (((b0, b), p, q) # ms) j t = retarget (k + 1) ms j (if b0 = j then partial_map1 b k t else t)"

lemma retarget_Nil: "retarget k [] j = (\<lambda>t. t)"
  by (rule ext) simp

lemma retarget_Cons:
  "retarget k (((b0, b), p, q) # ms) j = (\<lambda>t. retarget (k + 1) ms j (if b0 = j then partial_map1 b k t else t))"
  by (rule ext) simp

lemma map_bb_comp: "map_bb f (map_bb g i) = map_bb (\<lambda>t. f (g t)) i"
  by (cases i) (auto simp: map_bb_def option.map_ident)

lemma map_bb_id: "map_bb (\<lambda>t. t) i = i"
  by (simp add: map_bb_def)

lemma map_last_comp: "map_last f (map_last g xs) = map_last (\<lambda>x. f (g x)) xs"
  by (simp add: map_last_def)

lemma map_last_id: "map_last (\<lambda>x. x) xs = xs"
  by (simp add: map_last_def)

lemma retarget_other: "\<forall>e\<in>set ms. snd (fst e) \<noteq> t \<Longrightarrow> retarget k ms j t = t"
  by (induction k ms j t rule: retarget.induct) (auto simp: partial_map1_def)

lemma retarget_edge:
  "distinct (map fst ms) \<Longrightarrow> \<forall>e\<in>set ms. snd (fst e) < k0 \<Longrightarrow> k0 \<le> k \<Longrightarrow> i < length ms \<Longrightarrow> fst (ms ! i) = (j, b) \<Longrightarrow>
     retarget k ms j b = k + i"
proof (induction ms arbitrary: k i)
  case (Cons e ms)
  obtain b0 b1 p q where e: "e = ((b0, b1), p, q)" by (metis prod.exhaust)
  show ?case
  proof (cases i)
    case 0
    then have "retarget (k + 1) ms j k = k" using Cons.prems(2,3) by (intro retarget_other) auto
    then show ?thesis using 0 Cons.prems(5) e by (simp add: partial_map1_def)
  next
    case (Suc m)
    then have m: "m < length ms" "fst (ms ! m) = (j, b)" using Cons.prems(4,5) by auto
    have "(j, b) \<in> fst ` set ms" using m by (metis image_eqI nth_mem)
    then have "\<not> (b0 = j \<and> b1 = b)" using Cons.prems(1) e by auto
    then show ?thesis using Cons.IH [OF _ _ _ m, of "k + 1"] Cons.prems(1-3) e Suc by (auto simp: partial_map1_def)
  qed
qed simp

lemma edge_blocks_code:
  "edge_blocks k ms f = Some f' \<Longrightarrow> keys_below k f \<Longrightarrow> \<forall>e\<in>set ms. fst (fst e) < k0 \<Longrightarrow> k0 \<le> k \<Longrightarrow>
    (\<forall>i b0 b p q. i < length ms \<longrightarrow> ms ! i = ((b0, b), p, q) \<longrightarrow>
       (\<exists>n m c d. nf_max_reg_id f < n \<and> n < m \<and> seq_copies p n = Some c \<and> seq_copies q m = Some d \<and>
          instrs_at f' (k + i) = Some (copy_instrs (c @ d) @ [JumpInstr b]))) \<and>
    (\<forall>j. k0 \<le> j \<longrightarrow> j < k \<longrightarrow> instrs_at f' j = instrs_at f j) \<and>
    (\<forall>j<k0. instrs_at f' j = map_option (map_last (map_bb (retarget k ms j))) (instrs_at f j))"
proof (induction k ms f rule: edge_blocks.induct)
  case (2 k b0 b p q ms f)
  let ?f0 = "split_edge k b0 b f"
  from "2.prems"(1) obtain f1 f2 where f: "push_copies k p ?f0 = Some f1" "push_copies k q f1 = Some f2" "edge_blocks (k + 1) ms f2 = Some f'"
    by (auto simp: bind_eq_Some_conv)
  have b0: "b0 < k0" "b0 < k" using "2.prems"(3,4) by auto
  note s = split_edge_code [OF "2.prems"(2) b0(2), where b = b]
  have e0: "instrs_at ?f0 k = Some ([] @ [JumpInstr b])" using s(1) by simp
  from push_copies_code(1) [OF f(1) e0] obtain c where c: "seq_copies p (nf_max_reg_id f + 1) = Some c"
    and e1: "instrs_at f1 k = Some (copy_instrs c @ [JumpInstr b])" by (auto simp: s(4))
  note p1 = push_copies_code(2-4) [OF f(1) e0]
  from push_copies_code(1) [OF f(2) e1] obtain d where d: "seq_copies q (nf_max_reg_id f + 2) = Some d"
    and e2: "instrs_at f2 k = Some (copy_instrs (c @ d) @ [JumpInstr b])"
    by (auto simp: p1(3) s(4) copy_instrs_def add.commute)
  note p2 = push_copies_code(2-4) [OF f(2) e1]
  have kb: "keys_below (k + 1) f2" using p2(2) p1(2) s(2) by blast
  have mx: "nf_max_reg_id f2 = nf_max_reg_id f + 2" by (simp add: p1(3) p2(3) s(4))
  have src: "\<forall>e\<in>set ms. fst (fst e) < k0" "k0 \<le> k + 1" using "2.prems"(3,4) by auto
  note ih = "2.IH" [OF f(1,2,3) kb src]
  have keep: "instrs_at f' k = instrs_at f2 k" using ih "2.prems"(4) by simp
  have "\<exists>n m c d. nf_max_reg_id f < n \<and> n < m \<and> seq_copies p' n = Some c \<and> seq_copies q' m = Some d \<and>
      instrs_at f' (k + i) = Some (copy_instrs (c @ d) @ [JumpInstr b'])"
    if i: "i < length (((b0, b), p, q) # ms)" "(((b0, b), p, q) # ms) ! i = ((b0', b'), p', q')" for i b0' b' p' q'
  proof (cases i)
    case 0
    then have "p' = p" "q' = q" "b' = b" using i(2) by auto
    then show ?thesis
      using c d e2 keep 0 by (intro exI [of _ "nf_max_reg_id f + 1"] exI [of _ "nf_max_reg_id f + 2"] exI [of _ c] exI [of _ d]) simp
  next
    case (Suc j)
    then have "j < length ms" "ms ! j = ((b0', b'), p', q')" using i by auto
    then obtain n m c d where "nf_max_reg_id f2 < n \<and> n < m \<and> seq_copies p' n = Some c \<and> seq_copies q' m = Some d \<and>
      instrs_at f' (k + 1 + j) = Some (copy_instrs (c @ d) @ [JumpInstr b'])" using ih by blast
    then show ?thesis using Suc mx by (intro exI [of _ n] exI [of _ m] exI [of _ c] exI [of _ d]) simp
  qed
  moreover have "instrs_at f' j = instrs_at f j" if j: "k0 \<le> j" "j < k" for j
  proof -
    have "instrs_at f' j = instrs_at f2 j" using ih j by simp
    then show ?thesis using p1(1) p2(1) s(3) j b0 by simp
  qed
  moreover have "instrs_at f' j = map_option (map_last (map_bb (retarget k (((b0, b), p, q) # ms) j))) (instrs_at f j)"
    if j: "j < k0" for j
  proof -
    have jk: "j \<noteq> k" using j "2.prems"(4) by simp
    have "instrs_at ?f0 j = (if j = b0 then map_option (map_last (map_bb (partial_map1 b k))) (instrs_at f j) else instrs_at f j)"
      using s(3) [OF jk] split_edge_from [OF jk] by auto
    then have "instrs_at f2 j = (if j = b0 then map_option (map_last (map_bb (partial_map1 b k))) (instrs_at f j) else instrs_at f j)"
      using p1(1) p2(1) jk by simp
    moreover have "instrs_at f' j = map_option (map_last (map_bb (retarget (k + 1) ms j))) (instrs_at f2 j)"
      using ih j by blast
    ultimately show ?thesis
      unfolding retarget_Cons by (cases "j = b0") (simp_all add: option.map_comp comp_def map_last_comp map_bb_comp)
  qed
  ultimately show ?case by blast
qed (simp add: retarget_Nil map_bb_id [abs_def] map_last_id [abs_def] option.map_ident)

lemma add_mov_keys: "distinct (map fst ms) \<Longrightarrow> distinct (map fst (add_mov e fl m ms)) \<and> fst ` set (add_mov e fl m ms) = insert e (fst ` set ms)"
  by (induction e fl m ms rule: add_mov.induct) auto

definition movs_ok :: "bb_key \<Rightarrow> movs \<Rightarrow> bool" where
  "movs_ok k ms = (distinct (map fst ms) \<and> (\<forall>e\<in>fst ` set ms. fst e < k \<and> snd e < k))"

fun uses_below :: "bb_key \<Rightarrow> instr \<Rightarrow> bool" where
  "uses_below k (PhiInstr d us) = (\<forall>u\<in>set us. snd u < k)"
| "uses_below k i = True"

lemma phi_uses_movs_ok:
  "phi_uses_moves fl b d us ms = Some ms' \<Longrightarrow> movs_ok k ms \<Longrightarrow> b < k \<Longrightarrow> \<forall>u\<in>set us. snd u < k \<Longrightarrow> movs_ok k ms'"
proof (induction fl b d us ms rule: phi_uses_moves.induct)
  case (2 fl b d r b0 us ms)
  have "movs_ok k (add_mov (b0, b) (r \<in> fl) (r, d) ms)"
    using "2.prems" add_mov_keys [of ms "(b0, b)" "r \<in> fl" "(r, d)"] by (auto simp: movs_ok_def)
  then show ?case using 2 by (auto split: if_splits)
qed auto

lemma phi_movs_ok:
  "phi_moves fl b is ms = Some ms' \<Longrightarrow> movs_ok k ms \<Longrightarrow> b < k \<Longrightarrow> list_all (uses_below k) is \<Longrightarrow> movs_ok k ms'"
proof (induction "is" arbitrary: ms)
  case (Cons i "is")
  show ?case
  proof (cases "is_phi i")
    case True
    then obtain d us where i: "i = PhiInstr d us" by (cases i) (auto simp: is_phi_def)
    then obtain ms1 where m: "phi_uses_moves fl b d us ms = Some ms1" "phi_moves fl b is ms1 = Some ms'"
      using Cons.prems(1) by (auto simp: bind_eq_Some_conv)
    show ?thesis using Cons.IH [OF m(2) phi_uses_movs_ok [OF m(1)]] Cons.prems(2-4) i by auto
  next
    case False
    then have "phi_moves fl b is ms = Some ms'" using Cons.prems(1) by (cases i; simp add: is_phi_def)
    then show ?thesis using Cons by simp
  qed
qed simp

lemma all_movs_ok:
  "all_phi_moves fl bs ms = Some ms' \<Longrightarrow> movs_ok k ms \<Longrightarrow> \<forall>b\<in>set bs. bb_key b < k \<and> list_all (uses_below k) (bb_instrs b) \<Longrightarrow>
     movs_ok k ms'"
proof (induction bs arbitrary: ms)
  case (Cons b bs)
  then obtain ms1 where m: "phi_moves fl (bb_key b) (bb_instrs b) ms = Some ms1" "all_phi_moves fl bs ms1 = Some ms'"
    by (auto simp: bind_eq_Some_conv)
  show ?case using Cons.IH [OF m(2) phi_movs_ok [OF m(1)]] Cons.prems(2,3) by auto
qed simp

text \<open>The registers of the phi functions are registers of the function.\<close>

definition regs_below :: "reg \<Rightarrow> instr list \<Rightarrow> bool" where
  "regs_below n is = list_all (\<lambda>i. case i of PhiInstr d us \<Rightarrow> d \<le> n \<and> (\<forall>u\<in>set us. fst u \<le> n) | _ \<Rightarrow> True) is"

lemma instr_moves_below:
  "regs_below n is \<Longrightarrow> (a, x) \<in> set (concat (map (instr_moves b0) is)) \<Longrightarrow> a \<le> n \<and> x \<le> n"
proof (induction "is")
  case (Cons i "is")
  then show ?case by (cases i) (auto simp: regs_below_def use_moves_def)
qed simp

lemma remove_phi_edge:
  assumes run: "remove_phi order k fl f = Some f'" and perm: "\<And>ms. mset (order ms) = mset ms"
    and bs: "distinct (map bb_key (nf_bbs f))" "\<forall>b\<in>set (nf_bbs f). bb_key b < k \<and> list_all (uses_below k) (bb_instrs b)"
    and b: "b \<in> set (nf_bbs f)" "phis_ok (bb_instrs b)" "regs_below (nf_max_reg_id f) (bb_instrs b)"
    and ms: "all_phi_moves fl (nf_bbs f) [] = Some ms" and e: "((b0, bb_key b), p, q) \<in> set ms"
    and "lone_cycles (copy_pred p)" and "lone_cycles (copy_pred q)"
  shows "\<exists>j cs g. instrs_at f' j = Some (copy_instrs cs @ [JumpInstr (bb_key b)]) \<and> g (bb_key b) = j \<and>
    instrs_at f' b0 = map_option (map_last (map_bb g)) (instrs_at (drop_phis f) b0) \<and>
    (\<forall>r x. x \<le> nf_max_reg_id f \<longrightarrow> run_copies cs r x = phi_values b0 (bb_instrs b) r x)"
proof -
  let ?ms = "order ms"
  have blocks: "edge_blocks k ?ms (drop_phis f) = Some f'" using run ms by (simp add: remove_phi_def)
  have "movs_ok k []" by (simp add: movs_ok_def)
  from all_movs_ok [OF ms this bs(2)] have mok: "movs_ok k ms" .
  have set: "set ?ms = set ms" by (rule mset_eq_setD [OF perm])
  have "mset (map fst ?ms) = mset (map fst ms)" by (simp add: perm)
  then have dist: "distinct (map fst ?ms)" using mok mset_eq_imp_distinct_iff unfolding movs_ok_def by blast
  have below: "\<forall>e\<in>set ?ms. fst (fst e) < k" "\<forall>e\<in>set ?ms. snd (fst e) < k" using mok set by (auto simp: movs_ok_def)
  have kb: "keys_below k (drop_phis f)" using bs(2) by (simp add: keys_below_def drop_phis_def)
  have mx: "nf_max_reg_id (drop_phis f) = nf_max_reg_id f" by (simp add: drop_phis_def)
  note code = edge_blocks_code [OF blocks kb below(1) order_refl, unfolded mx]
  obtain i where i: "i < length ?ms" "?ms ! i = ((b0, bb_key b), p, q)" using e set by (metis in_set_conv_nth)
  then obtain n m c d where n: "nf_max_reg_id f < n" "n < m" and cd: "seq_copies p n = Some c" "seq_copies q m = Some d"
    "instrs_at f' (k + i) = Some (copy_instrs (c @ d) @ [JumpInstr (bb_key b)])"
    using code by blast
  have pq: "edge_moves ms (b0, bb_key b) = (p, q)"
    using e mok by (simp add: edge_moves_def movs_ok_def map_of_eq_Some_iff [THEN iffD2])
  have add: "edge_moves ms (b0, bb_key b) = add_class fl (concat (map (instr_moves b0) (bb_instrs b))) ([], [])"
    using all_phi_moves_ok [OF ms bs(1), of b0] b(1) by (simp add: edge_moves_def)
  have "set (p @ q) \<subseteq> set (concat (map (instr_moves b0) (bb_instrs b)))"
    using add pq by (auto simp: add_class_def)
  then have small: "a \<le> nf_max_reg_id f \<and> x \<le> nf_max_reg_id f" if "(a, x) \<in> set (p @ q)" for a x
    using instr_moves_below [OF b(3)] that by blast
  have fresh: "{n, m} \<inter> (fst ` set (p @ q) \<union> snd ` set (p @ q)) = {}" using small n by force
  have "run_copies (c @ d) r x = phi_values b0 (bb_instrs b) r x" if "x \<le> nf_max_reg_id f" for r :: "reg \<Rightarrow> 'a" and x
    using edge_copies_right [OF ms bs(1) b(1,2) pq assms(10,11) fresh, of r] cd(1,2) n that by auto
  moreover have "b0 < k" using below(1) e set by fastforce
  then have "instrs_at f' b0 = map_option (map_last (map_bb (retarget k ?ms b0))) (instrs_at (drop_phis f) b0)"
    using code by blast
  moreover have "retarget k ?ms b0 (bb_key b) = k + i"
    using retarget_edge [OF dist below(2) order_refl i(1)] i(2) by simp
  ultimately show ?thesis using cd(3) by blast
qed

end
