(* ===== verification/Dom.thy ===== *)
theory Dom
  imports IR
begin

text \<open>
  Dominators: \<open>src/ir/opt/dom.cpp\<close>, \<open>dom.hpp\<close>, and the graph helpers of \<open>src/common/common.hpp\<close>. A node is
  the position of its block in the function; a graph is the list of the successors of every node.
  A node's father in the dominator tree is the last node, in the order of a depth-first search, whose
  removal makes it unreachable.
\<close>

section \<open>Definitions\<close>

type_synonym graph = "nat list list"

text \<open>\<open>transfer_graph\<close>: the blocks and their successors as nodes of their own.\<close>

fun bb_index :: "bb_key \<Rightarrow> bb list \<Rightarrow> nat option" where
  "bb_index k [] = None"
| "bb_index k (b # bs) = (if bb_key b = k then Some 0 else map_option Suc (bb_index k bs))"

definition transfer_graph :: "bb list \<Rightarrow> graph option" where
  "transfer_graph bs =
     those (map (\<lambda>b. do { ks \<leftarrow> out_nodes b; those (map (\<lambda>k. bb_index k bs) ks) }) bs)"

text \<open>\<open>dfs(node)\<close> on a list of nodes; \<open>vis\<close> holds the nodes with the current tag, in the order in
  which they got it. In the first round this is \<open>dfn\<close>.\<close>

partial_function (option) dfs_from :: "graph \<Rightarrow> nat list \<Rightarrow> nat list \<Rightarrow> nat list option" where
  "dfs_from g xs vis =
     (case xs of
        [] \<Rightarrow> Some vis
      | x # rest \<Rightarrow>
          if x \<in> set vis then dfs_from g rest vis
          else do { v \<leftarrow> dfs_from g (g ! x) (vis @ [x]); dfs_from g rest v })"

declare dfs_from.simps [code]

text \<open>The rounds: node \<open>v\<close> gets the tag before the search from the entry, so that the search does not
  pass it; whatever has no tag then gets \<open>v\<close> as its father.\<close>

fun dom_fathers :: "graph \<Rightarrow> nat \<Rightarrow> nat list \<Rightarrow> (nat \<rightharpoonup> nat) \<Rightarrow> (nat \<rightharpoonup> nat) option" where
  "dom_fathers g e [] fa = Some fa"
| "dom_fathers g e (v # vs) fa =
     do { vis \<leftarrow> dfs_from g [e] [v];
          dom_fathers g e vs (\<lambda>d. if d < length g \<and> d \<notin> set vis then Some v else fa d) }"

definition tree_outs :: "nat \<Rightarrow> (nat \<rightharpoonup> nat) \<Rightarrow> nat \<Rightarrow> nat list" where
  "tree_outs n fa v = filter (\<lambda>d. fa d = Some v) [0..<n]"

record dom_tree =
  dt_order :: "nat list"
  dt_dfn :: "nat \<Rightarrow> nat"
  dt_size :: "nat \<Rightarrow> nat"
  dt_depth :: "nat \<Rightarrow> nat"

text \<open>\<open>int dfs(node)\<close> on the tree: \<open>tree_dfs ch p xs\<close> is the loop over the children \<open>xs\<close> of \<open>p\<close>.\<close>

definition enter_node :: "nat \<Rightarrow> dom_tree \<Rightarrow> dom_tree" where
  "enter_node x t =
     t\<lparr>dt_order := dt_order t @ [x], dt_dfn := (dt_dfn t)(x := length (dt_order t)), dt_size := (dt_size t)(x := 1)\<rparr>"

partial_function (option) tree_dfs :: "(nat \<Rightarrow> nat list) \<Rightarrow> nat \<Rightarrow> nat list \<Rightarrow> dom_tree \<Rightarrow> dom_tree option" where
  "tree_dfs ch p xs t =
     (case xs of
        [] \<Rightarrow> Some t
      | x # rest \<Rightarrow>
          do { t1 \<leftarrow> tree_dfs ch x (ch x) (enter_node x (t\<lparr>dt_depth := (dt_depth t)(x := dt_depth t p + 1)\<rparr>));
               tree_dfs ch p rest (t1\<lparr>dt_size := (dt_size t1)(p := dt_size t1 p + dt_size t1 x)\<rparr>) })"

declare tree_dfs.simps [code]

definition sdom :: "dom_tree \<Rightarrow> nat \<Rightarrow> nat \<Rightarrow> bool" where
  "sdom t v x = (dt_dfn t v < dt_dfn t x \<and> dt_dfn t x < dt_dfn t v + dt_size t v)"

definition dom_or_same :: "dom_tree \<Rightarrow> nat \<Rightarrow> nat \<Rightarrow> bool" where
  "dom_or_same t v x = (dt_dfn t v \<le> dt_dfn t x \<and> dt_dfn t x < dt_dfn t v + dt_size t v)"

text \<open>\<open>construct_dom_frontiers\<close>: for the edge from \<open>i\<close> to \<open>j\<close>, up the tree from \<open>i\<close>.\<close>

partial_function (option) frontier_walk ::
  "dom_tree \<Rightarrow> (nat \<rightharpoonup> nat) \<Rightarrow> nat \<Rightarrow> nat option \<Rightarrow> (nat \<Rightarrow> nat list) \<Rightarrow> (nat \<Rightarrow> nat list) option" where
  "frontier_walk t fa j x df =
     (case x of
        None \<Rightarrow> Some df
      | Some v \<Rightarrow> if sdom t v j then Some df else frontier_walk t fa j (fa v) (df(v := df v @ [j])))"

declare frontier_walk.simps [code]

fun edge_frontiers :: "dom_tree \<Rightarrow> (nat \<rightharpoonup> nat) \<Rightarrow> nat \<Rightarrow> nat list \<Rightarrow> (nat \<Rightarrow> nat list) \<Rightarrow> (nat \<Rightarrow> nat list) option" where
  "edge_frontiers t fa i [] df = Some df"
| "edge_frontiers t fa i (j # js) df = do { df1 \<leftarrow> frontier_walk t fa j (Some i) df; edge_frontiers t fa i js df1 }"

fun dom_frontiers :: "graph \<Rightarrow> dom_tree \<Rightarrow> (nat \<rightharpoonup> nat) \<Rightarrow> nat list \<Rightarrow> (nat \<Rightarrow> nat list) \<Rightarrow> (nat \<Rightarrow> nat list) option" where
  "dom_frontiers g t fa [] df = Some df"
| "dom_frontiers g t fa (i # is) df = do { df1 \<leftarrow> edge_frontiers t fa i (g ! i) df; dom_frontiers g t fa is df1 }"

record dom_result =
  dr_fa :: "nat \<rightharpoonup> nat"
  dr_tree :: dom_tree
  dr_frontiers :: "nat \<Rightarrow> nat list"

definition construct_dom_tree :: "graph \<Rightarrow> nat \<Rightarrow> dom_result option" where
  "construct_dom_tree g e =
     do { dfn \<leftarrow> dfs_from g [e] [];
          fa \<leftarrow> dom_fathers g e dfn Map.empty;
          t \<leftarrow> tree_dfs (tree_outs (length g) fa) e (tree_outs (length g) fa e)
                 (enter_node e \<lparr>dt_order = [], dt_dfn = (\<lambda>_. 0), dt_size = (\<lambda>_. 0), dt_depth = (\<lambda>_. 0)\<rparr>);
          df \<leftarrow> dom_frontiers g t fa [0..<length g] (\<lambda>_. []);
          Some \<lparr>dr_fa = fa, dr_tree = t, dr_frontiers = df\<rparr> }"

definition func_dom_tree :: "nfunc \<Rightarrow> dom_result option" where
  "func_dom_tree f =
     do { g \<leftarrow> transfer_graph (nf_bbs f); e \<leftarrow> bb_index (nf_entry f) (nf_bbs f); construct_dom_tree g e }"

section \<open>Paths and dominance\<close>

definition path :: "graph \<Rightarrow> nat \<Rightarrow> nat list \<Rightarrow> nat \<Rightarrow> bool" where
  "path g u p v = (p \<noteq> [] \<and> hd p = u \<and> last p = v \<and> successively (\<lambda>x y. y \<in> set (g ! x)) p)"

definition reachable :: "graph \<Rightarrow> nat \<Rightarrow> nat \<Rightarrow> bool" where
  "reachable g e x = (\<exists>p. path g e p x)"

definition dominates :: "graph \<Rightarrow> nat \<Rightarrow> nat \<Rightarrow> nat \<Rightarrow> bool" where
  "dominates g e d x = (\<forall>p. path g e p x \<longrightarrow> d \<in> set p)"

definition flow_graph_ok :: "graph \<Rightarrow> bool" where
  "flow_graph_ok g = (\<forall>i<length g. set (g ! i) \<subseteq> {..<length g})"

lemma path_single [simp]: "path g u [u] u"
  by (simp add: path_def)

lemma path_ends: "path g u p v \<Longrightarrow> u \<in> set p \<and> v \<in> set p"
  by (auto simp: path_def)

lemma path_append: "path g u p v \<Longrightarrow> path g v (v # q) w \<Longrightarrow> path g u (p @ q) w"
  by (cases q) (auto simp: path_def successively_append_iff)

lemma path_step: "path g u p v \<Longrightarrow> w \<in> set (g ! v) \<Longrightarrow> path g u (p @ [w]) w"
  by (rule path_append) (auto simp: path_def)

lemma path_split:
  assumes "path g u (p @ [x] @ q) w"
  shows "path g u (p @ [x]) x" and "path g x (x # q) w"
  using assms by (auto simp: path_def successively_append_iff hd_append split: if_splits)

lemma path_induct [consumes 1, case_names start step]:
  assumes "path g u p v" and "P [u] u" and "\<And>p v w. path g u p v \<Longrightarrow> P p v \<Longrightarrow> w \<in> set (g ! v) \<Longrightarrow> P (p @ [w]) w"
  shows "P p v"
  using assms(1)
proof (induction p arbitrary: v rule: rev_induct)
  case (snoc w p)
  show ?case
  proof (cases "p = []")
    case True
    then show ?thesis using snoc.prems assms(2) by (auto simp: path_def)
  next
    case False
    then have "path g u p (last p)" "w \<in> set (g ! last p)" "v = w"
      using snoc.prems by (auto simp: path_def successively_append_iff)
    then show ?thesis using assms(3) snoc.IH by simp
  qed
qed (simp add: path_def)

lemma dominates_refl: "dominates g e x x"
  by (auto simp: dominates_def dest: path_ends)

lemma entry_dominates: "dominates g e e x"
  by (auto simp: dominates_def dest: path_ends)

lemma dominates_trans:
  assumes "dominates g e a b" and "dominates g e b c"
  shows "dominates g e a c"
  unfolding dominates_def
proof (intro allI impI)
  fix p assume p: "path g e p c"
  then have "b \<in> set p" using assms(2) by (simp add: dominates_def)
  then obtain q r where p': "p = q @ [b] @ r" by (metis append_Cons append_Nil in_set_conv_decomp)
  have "path g e (q @ [b]) b" by (rule path_split(1)) (use p p' in simp)
  then show "a \<in> set p" using assms(1) p' by (auto simp: dominates_def)
qed

text \<open>The dominators of a reachable node are in a row.\<close>

lemma dominators_ordered:
  assumes "reachable g e x" and "dominates g e a x" and "dominates g e b x"
  shows "dominates g e a b \<or> dominates g e b a"
proof (rule ccontr)
  assume "\<not> ?thesis"
  then obtain p q where p: "path g e p b" "a \<notin> set p" and q: "path g e q a" "b \<notin> set q"
    by (auto simp: dominates_def)
  obtain r where r: "path g e r x" using assms(1) by (auto simp: reachable_def)
  have "a \<noteq> b" using p path_ends by blast
  obtain s t where s: "r = s @ [a] @ t" "a \<notin> set t"
    using assms(2) r by (metis append_Cons append_Nil dominates_def split_list_last)
  show False
  proof (cases "b \<in> set t")
    case True
    then obtain u v where t: "t = u @ [b] @ v" by (metis append_Cons append_Nil in_set_conv_decomp)
    have "path g b (b # v) x" by (rule path_split(2) [of _ e "s @ [a] @ u"]) (use r s t in simp)
    then have "path g e (p @ v) x" by (rule path_append [OF p(1)])
    then show False using assms(2) p(2) s(2) t by (auto simp: dominates_def)
  next
    case False
    have "path g a (a # t) x" by (rule path_split(2) [of _ e s]) (use r s in simp)
    then have "path g e (q @ t) x" by (rule path_append [OF q(1)])
    then show False using assms(3) q(2) False by (auto simp: dominates_def)
  qed
qed

lemma dominates_antisym:
  assumes "reachable g e b" and "dominates g e a b" and "dominates g e b a"
  shows "a = b"
proof (rule ccontr)
  assume ne: "a \<noteq> b"
  obtain p where p: "path g e p b" using assms(1) by (auto simp: reachable_def)
  then have "path g e p b \<or> path g e p a" by blast
  from ex_has_least_nat [of "\<lambda>p. path g e p b \<or> path g e p a", OF this, of length] obtain q where
    q: "path g e q b \<or> path g e q a" and least: "\<And>r. length r < length q \<Longrightarrow> \<not> (path g e r b \<or> path g e r a)"
    by (meson linorder_not_le)
  show False
  proof (cases "path g e q b")
    case True
    then have "a \<in> set q" using assms(2) by (simp add: dominates_def)
    then obtain r t where r: "q = r @ [a] @ t" by (metis append_Cons append_Nil in_set_conv_decomp)
    have "t \<noteq> []" using True r ne by (auto simp: path_def)
    moreover have "path g e (r @ [a]) a" by (rule path_split(1)) (use True r in simp)
    ultimately show False using least [of "r @ [a]"] r by (cases t) auto
  next
    case False
    then have qa: "path g e q a" using q by blast
    then have "b \<in> set q" using assms(3) by (simp add: dominates_def)
    then obtain r t where r: "q = r @ [b] @ t" by (metis append_Cons append_Nil in_set_conv_decomp)
    have "t \<noteq> []" using qa r ne by (auto simp: path_def)
    moreover have "path g e (r @ [b]) b" by (rule path_split(1)) (use qa r in simp)
    ultimately show False using least [of "r @ [b]"] r by (cases t) auto
  qed
qed

section \<open>The search\<close>

text \<open>Every node of the list is among \<open>xs\<close>, or a successor of an earlier one.\<close>

fun grown :: "graph \<Rightarrow> nat list \<Rightarrow> nat set \<Rightarrow> nat list \<Rightarrow> bool" where
  "grown g xs S [] = True"
| "grown g xs S (y # ys) = ((y \<in> set xs \<or> (\<exists>u\<in>S. y \<in> set (g ! u))) \<and> grown g xs (insert y S) ys)"

lemma grown_append: "grown g xs S (a @ b) = (grown g xs S a \<and> grown g xs (S \<union> set a) b)"
  by (induction a arbitrary: S) (auto simp: insert_commute Un_commute)

lemma grown_mono:
  "grown g xs S new \<Longrightarrow> S \<subseteq> T \<Longrightarrow> (\<And>y. y \<in> set xs \<Longrightarrow> y \<in> set zs \<or> (\<exists>u\<in>T. y \<in> set (g ! u))) \<Longrightarrow> grown g zs T new"
proof (induction new arbitrary: S T)
  case (Cons y ys)
  have "y \<in> set zs \<or> (\<exists>u\<in>T. y \<in> set (g ! u))" using Cons.prems by auto
  moreover have "grown g zs (insert y T) ys"
    by (rule Cons.IH [of "insert y S"]) (use Cons.prems in auto)
  ultimately show ?case by simp
qed simp

definition dfs_ok :: "graph \<Rightarrow> nat list \<Rightarrow> nat list \<Rightarrow> nat list \<Rightarrow> bool" where
  "dfs_ok g xs vis vis' =
     (\<exists>new. vis' = vis @ new \<and> (distinct vis \<longrightarrow> distinct vis') \<and> set xs \<subseteq> set vis' \<and>
        (\<forall>u\<in>set new. set (g ! u) \<subseteq> set vis') \<and> grown g xs {} new)"

lemma dfs_from_ok:
  assumes "dfs_from g xs vis = Some vis'"
  shows "dfs_ok g xs vis vis'"
proof (rule dfs_from.raw_induct [OF _ assms])
  fix run :: "graph \<Rightarrow> nat list \<Rightarrow> nat list \<Rightarrow> nat list option" and g xs vis vis'
  assume ih: "\<And>g xs vis vis'. run g xs vis = Some vis' \<Longrightarrow> dfs_ok g xs vis vis'"
    and e: "(case xs of [] \<Rightarrow> Some vis
      | x # rest \<Rightarrow> if x \<in> set vis then run g rest vis
          else do { v \<leftarrow> run g (g ! x) (vis @ [x]); run g rest v }) = Some vis'"
  show "dfs_ok g xs vis vis'"
  proof (cases xs)
    case Nil
    then show ?thesis using e by (simp add: dfs_ok_def)
  next
    case (Cons x rest)
    show ?thesis
    proof (cases "x \<in> set vis")
      case True
      then have "dfs_ok g rest vis vis'" using e ih Cons by simp
      then show ?thesis using True Cons by (auto simp: dfs_ok_def elim!: grown_mono)
    next
      case False
      then obtain v where v: "run g (g ! x) (vis @ [x]) = Some v" "run g rest v = Some vis'"
        using e Cons by (auto simp: bind_eq_Some_conv)
      obtain n1 where n1: "v = (vis @ [x]) @ n1" "distinct (vis @ [x]) \<longrightarrow> distinct v" "set (g ! x) \<subseteq> set v"
        "\<forall>u\<in>set n1. set (g ! u) \<subseteq> set v" "grown g (g ! x) {} n1"
        using ih [OF v(1)] unfolding dfs_ok_def by blast
      obtain n2 where n2: "vis' = v @ n2" "distinct v \<longrightarrow> distinct vis'" "set rest \<subseteq> set vis'"
        "\<forall>u\<in>set n2. set (g ! u) \<subseteq> set vis'" "grown g rest {} n2"
        using ih [OF v(2)] unfolding dfs_ok_def by blast
      let ?new = "x # n1 @ n2"
      have "grown g xs {x} n1" using n1(5) by (rule grown_mono) auto
      moreover have "grown g xs ({x} \<union> set n1) n2" using n2(5) by (rule grown_mono) (use Cons in auto)
      ultimately have "grown g xs {} ?new" using Cons by (simp add: grown_append)
      moreover have "set v \<subseteq> set vis'" using n2(1) by auto
      ultimately show ?thesis
        unfolding dfs_ok_def using n1 n2 False Cons by (intro exI [of _ ?new]) auto
    qed
  qed
qed

lemma dfs_total:
  assumes "flow_graph_ok g"
  shows "distinct vis \<Longrightarrow> set vis \<subseteq> {..<length g} \<Longrightarrow> set xs \<subseteq> {..<length g} \<Longrightarrow>
    \<exists>vis'. dfs_from g xs vis = Some vis' \<and> distinct vis' \<and> set vis' \<subseteq> {..<length g}"
proof (induction "length g - length vis" arbitrary: vis xs rule: less_induct)
  case less
  from less.prems show ?case
  proof (induction xs)
    case Nil
    then show ?case by (subst dfs_from.simps) simp
  next
    case (Cons x rest)
    show ?case
    proof (cases "x \<in> set vis")
      case True
      then show ?thesis using Cons by (subst dfs_from.simps) simp
    next
      case False
      have x: "x < length g" using Cons.prems by simp
      have d: "distinct (vis @ [x])" "set (vis @ [x]) \<subseteq> {..<length g}" using False Cons.prems by auto
      have "card (set (vis @ [x])) \<le> card {..<length g}" by (rule card_mono) (use d in auto)
      then have lt: "length g - length (vis @ [x]) < length g - length vis" using distinct_card [OF d(1)] by simp
      have "set (g ! x) \<subseteq> {..<length g}" using assms x by (simp add: flow_graph_ok_def)
      from less.hyps [OF lt d this] obtain v where v: "dfs_from g (g ! x) (vis @ [x]) = Some v" "distinct v" "set v \<subseteq> {..<length g}"
        by blast
      have "length vis < length v" using dfs_from_ok [OF v(1)] by (auto simp: dfs_ok_def)
      moreover have "length v \<le> length g" using card_mono [OF _ v(3)] distinct_card [OF v(2)] by simp
      ultimately have lt: "length g - length v < length g - length vis" by simp
      have "set rest \<subseteq> {..<length g}" using Cons.prems by simp
      from less.hyps [OF lt v(2,3) this] obtain w where "dfs_from g rest v = Some w" "distinct w" "set w \<subseteq> {..<length g}" by blast
      then show ?thesis using False v(1) by (subst dfs_from.simps) simp
    qed
  qed
qed

lemma grown_path:
  "grown g [e] S new \<Longrightarrow> \<forall>u\<in>S. \<exists>p. path g e p u \<and> set p \<subseteq> S \<Longrightarrow> new = a @ y # b \<Longrightarrow>
     \<exists>p. path g e p y \<and> set p \<subseteq> insert y (S \<union> set a)"
proof (induction new arbitrary: S a)
  case (Cons z new)
  have z: "\<exists>p. path g e p z \<and> set p \<subseteq> insert z S"
  proof (cases "z = e")
    case True
    then show ?thesis by (intro exI [of _ "[e]"]) simp
  next
    case False
    then obtain u where u: "u \<in> S" "z \<in> set (g ! u)" using Cons.prems(1) by auto
    then obtain p where "path g e p u" "set p \<subseteq> S" using Cons.prems(2) by blast
    then show ?thesis using path_step [OF _ u(2)] by (intro exI [of _ "p @ [z]"]) auto
  qed
  show ?case
  proof (cases a)
    case Nil
    then show ?thesis using z Cons.prems(3) by simp
  next
    case (Cons x a')
    then have e: "z = x" "new = a' @ y # b" using Cons.prems(3) by auto
    have "\<forall>u\<in>insert z S. \<exists>p. path g e p u \<and> set p \<subseteq> insert z S" using z Cons.prems(2) by blast
    from Cons.IH [OF _ this e(2)] Cons.prems(1) show ?thesis using Cons e(1) by (simp add: insert_commute)
  qed
qed simp

text \<open>The search from the entry that does not pass \<open>v\<close> finds what can be reached without \<open>v\<close>.\<close>

lemma dfs_avoiding:
  assumes "dfs_from g [e] [v] = Some vis"
  shows "x \<in> set vis \<longleftrightarrow> x = v \<or> \<not> dominates g e v x"
proof -
  obtain new where new: "vis = v # new" "e \<in> set vis" "\<forall>u\<in>set new. set (g ! u) \<subseteq> set vis" "grown g [e] {} new" "distinct vis"
    using dfs_from_ok [OF assms] by (auto simp: dfs_ok_def)
  have to: "x \<in> set vis" if p: "path g e p x" "v \<notin> set p" for p
    using p
  proof (induction rule: path_induct)
    case (step p u w)
    then have "u \<in> set vis" by simp
    moreover have "u \<noteq> v" using step path_ends by fastforce
    ultimately show ?case using step.hyps new(1,3) by auto
  qed (use new(2) in simp)
  have from_new: "\<exists>p. path g e p x \<and> v \<notin> set p" if x: "x \<in> set new"
  proof -
    obtain a b where ab: "new = a @ x # b" using x by (meson split_list)
    obtain p where "path g e p x" "set p \<subseteq> insert x (set a)" using grown_path [OF new(4) _ ab] by auto
    moreover have "v \<notin> set new" using new(1,5) by simp
    ultimately show ?thesis using ab by auto
  qed
  show ?thesis using to from_new new(1) by (auto simp: dominates_def)
qed

text \<open>The order of the search: a dominator comes first.\<close>

lemma dfs_order:
  assumes "dfs_from g [e] [] = Some dfn"
  shows "set dfn = {x. reachable g e x}" and "distinct dfn"
    and "dfn = a @ x # b \<Longrightarrow> dominates g e d x \<Longrightarrow> d \<noteq> x \<Longrightarrow> d \<in> set a"
proof -
  have new: "e \<in> set dfn" "\<forall>u\<in>set dfn. set (g ! u) \<subseteq> set dfn" "grown g [e] {} dfn"
    using dfs_from_ok [OF assms] by (auto simp: dfs_ok_def)
  show "distinct dfn" using dfs_from_ok [OF assms] by (auto simp: dfs_ok_def)
  have "x \<in> set dfn" if "path g e p x" for p x
    using that by (induction rule: path_induct) (use new in auto)
  moreover have "reachable g e x" if x: "x \<in> set dfn" for x
  proof -
    obtain a b where ab: "dfn = a @ x # b" using x by (meson split_list)
    then show ?thesis using grown_path [OF new(3) _ ab] by (auto simp: reachable_def)
  qed
  ultimately show "set dfn = {x. reachable g e x}" by (auto simp: reachable_def)
  assume "dfn = a @ x # b" "dominates g e d x" "d \<noteq> x"
  then show "d \<in> set a" using grown_path [OF new(3), of a x b] by (auto simp: dominates_def)
qed

section \<open>The fathers\<close>

text \<open>The fathers after all rounds: the last strict dominator in the order of the search.\<close>

definition strict :: "graph \<Rightarrow> nat \<Rightarrow> nat \<Rightarrow> nat \<Rightarrow> bool" where
  "strict g e v d = (v \<noteq> d \<and> dominates g e v d)"

lemma dom_fathers_ok:
  assumes "flow_graph_ok g" and "e < length g"
  shows "set vs \<subseteq> {..<length g} \<Longrightarrow> \<exists>fa'. dom_fathers g e vs fa = Some fa' \<and>
    (\<forall>d. fa' d = (if d < length g \<and> (\<exists>v\<in>set vs. strict g e v d) then Some (last (filter (\<lambda>v. strict g e v d) vs)) else fa d))"
proof (induction vs arbitrary: fa)
  case (Cons v vs)
  obtain vis where vis: "dfs_from g [e] [v] = Some vis"
    using dfs_total [OF assms(1), of "[v]" "[e]"] assms(2) Cons.prems by auto
  have st: "d \<notin> set vis \<longleftrightarrow> strict g e v d" for d using dfs_avoiding [OF vis, of d] by (auto simp: strict_def)
  let ?fa = "\<lambda>d. if d < length g \<and> d \<notin> set vis then Some v else fa d"
  have "set vs \<subseteq> {..<length g}" using Cons.prems by simp
  from Cons.IH [OF this, of ?fa] obtain fa' where fa': "dom_fathers g e vs ?fa = Some fa'"
    "\<And>d. fa' d = (if d < length g \<and> (\<exists>v\<in>set vs. strict g e v d) then Some (last (filter (\<lambda>v. strict g e v d) vs)) else ?fa d)"
    by blast
  have "fa' d = (if d < length g \<and> (\<exists>w\<in>set (v # vs). strict g e w d)
      then Some (last (filter (\<lambda>v. strict g e v d) (v # vs))) else fa d)" for d
  proof (cases "\<exists>w\<in>set vs. strict g e w d")
    case True
    then have "filter (\<lambda>v. strict g e v d) vs \<noteq> []" by (simp add: filter_empty_conv)
    then show ?thesis using True fa'(2) [of d] st [of d] by auto
  next
    case False
    then have "filter (\<lambda>v. strict g e v d) vs = []" by (simp add: filter_empty_conv)
    then show ?thesis using False fa'(2) [of d] st [of d] by auto
  qed
  then show ?case using fa'(1) vis by simp
qed simp

lemma last_in_order:
  assumes "distinct vs" and "v = last (filter P vs)" and "w \<in> set vs" and "P w" and "w \<noteq> v" and "vs = a @ w # b"
  shows "v \<in> set b"
proof -
  have "filter P vs = filter P a @ w # filter P b" using assms(4,6) by simp
  then have "v = last (w # filter P b)" using assms(2) by simp
  then have "filter P b \<noteq> [] \<and> v = last (filter P b)" using assms(5) by (auto split: if_splits)
  then have "v \<in> set (filter P b)" using last_in_set [of "filter P b"] by blast
  then show ?thesis by simp
qed

definition idom :: "graph \<Rightarrow> nat \<Rightarrow> nat \<Rightarrow> nat \<Rightarrow> bool" where
  "idom g e v x = (strict g e v x \<and> (\<forall>w. strict g e w x \<longrightarrow> dominates g e w v))"

lemma reachable_dominator: "reachable g e x \<Longrightarrow> dominates g e d x \<Longrightarrow> reachable g e d"
proof -
  assume "reachable g e x" "dominates g e d x"
  then obtain p where p: "path g e p x" "d \<in> set p" by (auto simp: reachable_def dominates_def)
  then obtain r t where q: "p = r @ [d] @ t" by (metis append_Cons append_Nil in_set_conv_decomp)
  have "path g e (r @ [d]) d" by (rule path_split(1)) (use p(1) q in simp)
  then show "reachable g e d" by (auto simp: reachable_def)
qed

lemma father_idom:
  assumes dfn: "dfs_from g [e] [] = Some dfn" and "reachable g e x" and "x \<noteq> e"
    and v: "v = last (filter (\<lambda>v. strict g e v x) dfn)"
  shows "idom g e v x"
proof -
  note ord = dfs_order [OF dfn]
  have e: "strict g e e x" "e \<in> set dfn"
    using assms(3) entry_dominates ord(1) by (auto simp: strict_def reachable_def intro: exI [of _ "[e]"])
  then have "filter (\<lambda>v. strict g e v x) dfn \<noteq> []" by (auto simp: filter_empty_conv)
  then have v': "v \<in> set (filter (\<lambda>v. strict g e v x) dfn)" unfolding v by (rule last_in_set)
  then have sv: "strict g e v x" "v \<in> set dfn" by auto
  have "dominates g e w v" if w: "strict g e w x" for w
  proof (rule ccontr)
    assume not: "\<not> dominates g e w v"
    then have ne: "w \<noteq> v" using dominates_refl by auto
    have "dominates g e v w"
      using dominators_ordered [OF assms(2), of w v] w sv(1) not by (auto simp: strict_def)
    moreover have rw: "reachable g e w" using reachable_dominator [OF assms(2)] w by (auto simp: strict_def)
    then obtain a b where ab: "dfn = a @ w # b" using ord(1) by (metis mem_Collect_eq split_list)
    ultimately have "v \<in> set a" using ord(3) [OF ab] ne by blast
    moreover have "v \<in> set b" by (rule last_in_order [OF ord(2) v _ w ne ab]) (use ab in simp)
    ultimately show False using ord(2) ab by auto
  qed
  then show ?thesis using sv by (simp add: idom_def)
qed

section \<open>Numbering the tree\<close>

definition parent_rel :: "(nat \<rightharpoonup> nat) \<Rightarrow> (nat \<times> nat) set" where
  "parent_rel fa = {(x, y). fa x = Some y}"

definition ancestor :: "(nat \<rightharpoonup> nat) \<Rightarrow> nat \<Rightarrow> nat \<Rightarrow> bool" where
  "ancestor fa v x = ((x, v) \<in> (parent_rel fa)\<^sup>*)"

definition descendants :: "(nat \<rightharpoonup> nat) \<Rightarrow> nat \<Rightarrow> nat \<Rightarrow> nat set" where
  "descendants fa n v = {x. x < n \<and> ancestor fa v x}"

text \<open>Fathers are nodes and rank below their children.\<close>

definition tree_ok :: "(nat \<rightharpoonup> nat) \<Rightarrow> nat \<Rightarrow> (nat \<Rightarrow> nat) \<Rightarrow> bool" where
  "tree_ok fa n rk = (\<forall>x v. fa x = Some v \<longrightarrow> v < n \<and> rk v < rk x)"

lemma ancestor_refl [simp]: "ancestor fa x x"
  by (simp add: ancestor_def)

lemma ancestor_up: "fa x = Some y \<Longrightarrow> ancestor fa v x \<longleftrightarrow> v = x \<or> ancestor fa v y"
  unfolding ancestor_def parent_rel_def
  by (auto elim: converse_rtranclE intro: converse_rtrancl_into_rtrancl)

lemma ancestor_trans: "ancestor fa a b \<Longrightarrow> ancestor fa b c \<Longrightarrow> ancestor fa a c"
  unfolding ancestor_def by (rule rtrancl_trans)

lemma ancestor_rank:
  assumes "tree_ok fa n rk" and "ancestor fa v x"
  shows "v = x \<or> rk v < rk x"
  using assms(2) unfolding ancestor_def
proof (induction rule: converse_rtrancl_induct)
  case (step x y)
  then have "rk y < rk x" using assms(1) by (auto simp: tree_ok_def parent_rel_def)
  then show ?case using step by auto
qed simp

lemma ancestors_chain:
  assumes "ancestor fa a x" and "ancestor fa b x"
  shows "ancestor fa a b \<or> ancestor fa b a"
  using assms unfolding ancestor_def
proof (induction rule: converse_rtrancl_induct)
  case (step x y)
  show ?case
  proof (cases "b = x")
    case True
    then show ?thesis using step.hyps by (meson converse_rtrancl_into_rtrancl)
  next
    case False
    then obtain z where "(x, z) \<in> parent_rel fa" "(z, b) \<in> (parent_rel fa)\<^sup>*" 
      using step.prems converse_rtranclE [of x b "parent_rel fa"] by blast
    then show ?thesis using step by (simp add: parent_rel_def)
  qed
qed simp

lemma siblings_apart:
  assumes "tree_ok fa n rk" and "fa x = Some p" and "fa y = Some p" and "x \<noteq> y"
  shows "descendants fa n x \<inter> descendants fa n y = {}"
proof (rule ccontr)
  assume "\<not> ?thesis"
  then obtain z where "ancestor fa x z" "ancestor fa y z" by (auto simp: descendants_def)
  then have "ancestor fa x y \<or> ancestor fa y x" by (rule ancestors_chain)
  then have "ancestor fa x p \<or> ancestor fa y p" 
    using ancestor_up [of fa x p y, OF assms(2)] ancestor_up [of fa y p x, OF assms(3)] assms(4) by blast
  moreover have "rk p < rk x" "rk p < rk y" using assms(1-3) by (auto simp: tree_ok_def)
  ultimately show False using ancestor_rank [OF assms(1)] by fastforce
qed

text \<open>The descendants of a node take the places from its number on, as many as its size.\<close>

definition block_ok :: "(nat \<rightharpoonup> nat) \<Rightarrow> nat \<Rightarrow> dom_tree \<Rightarrow> nat \<Rightarrow> bool" where
  "block_ok fa n t v =
     (\<exists>a b c. dt_order t = a @ (v # b) @ c \<and> dt_dfn t v = length a \<and> dt_size t v = length (v # b) \<and>
        set (v # b) = descendants fa n v)"

lemma block_more:
  assumes "block_ok fa n t v" and "dt_order t' = dt_order t @ m" and "dt_dfn t' v = dt_dfn t v" and "dt_size t' v = dt_size t v"
  shows "block_ok fa n t' v"
proof -
  obtain a b c where "dt_order t = a @ (v # b) @ c" "dt_dfn t v = length a" "dt_size t v = length (v # b)"
    "set (v # b) = descendants fa n v" using assms(1) unfolding block_ok_def by blast
  then show ?thesis
    unfolding block_ok_def using assms(2-4) by (intro exI [of _ a] exI [of _ b] exI [of _ "c @ m"]) simp
qed

definition tree_step :: "(nat \<rightharpoonup> nat) \<Rightarrow> nat \<Rightarrow> nat \<Rightarrow> nat list \<Rightarrow> dom_tree \<Rightarrow> dom_tree \<Rightarrow> bool" where
  "tree_step fa n p xs t t' =
     (\<exists>new. dt_order t' = dt_order t @ new \<and> distinct new \<and> set new = (\<Union>x\<in>set xs. descendants fa n x) \<and>
        dt_size t' p = dt_size t p + length new \<and> dt_dfn t' p = dt_dfn t p \<and>
        (\<forall>v. v \<notin> insert p (set new) \<longrightarrow> dt_dfn t' v = dt_dfn t v \<and> dt_size t' v = dt_size t v) \<and>
        (\<forall>v\<in>set new. block_ok fa n t' v))"

lemma tree_outs_set: "set (tree_outs n fa v) = {x. x < n \<and> fa x = Some v}" "distinct (tree_outs n fa v)"
  by (auto simp: tree_outs_def)

lemma descendants_children:
  assumes "x < n" and "tree_ok fa n rk"
  shows "descendants fa n x = insert x (\<Union>y\<in>set (tree_outs n fa x). descendants fa n y)"
    and "x \<notin> (\<Union>y\<in>set (tree_outs n fa x). descendants fa n y)"
proof -
  have "z = x \<or> (\<exists>y\<in>set (tree_outs n fa x). z \<in> descendants fa n y)" if z: "z < n" "ancestor fa x z" for z
    using z(2,1) unfolding ancestor_def
  proof (induction rule: converse_rtrancl_induct)
    case (step z y)
    then have zy: "fa z = Some y" by (simp add: parent_rel_def)
    have "y < n" using assms(2) zy by (simp add: tree_ok_def)
    with step.IH consider "y = x" | w where "w \<in> set (tree_outs n fa x)" "y \<in> descendants fa n w" by blast
    then show ?case
    proof cases
      case 1
      then have "z \<in> set (tree_outs n fa x)" using zy step.prems by (simp add: tree_outs_set)
      moreover have "z \<in> descendants fa n z" using step.prems by (simp add: descendants_def)
      ultimately show ?thesis by blast
    next
      case 2
      then have "z \<in> descendants fa n w" using zy step.prems ancestor_up [of fa z y w] by (simp add: descendants_def)
      then show ?thesis using 2(1) by blast
    qed
  qed simp
  moreover have "ancestor fa x z" if "y \<in> set (tree_outs n fa x)" "ancestor fa y z" for y z
    using that ancestor_trans [of fa x y z] ancestor_up [of fa y x x] by (simp add: tree_outs_set)
  ultimately show "descendants fa n x = insert x (\<Union>y\<in>set (tree_outs n fa x). descendants fa n y)"
    using assms(1) by (auto simp: descendants_def)
  show "x \<notin> (\<Union>y\<in>set (tree_outs n fa x). descendants fa n y)"
  proof
    assume "x \<in> (\<Union>y\<in>set (tree_outs n fa x). descendants fa n y)"
    then obtain y where "fa y = Some x" "ancestor fa y x" by (auto simp: tree_outs_set descendants_def)
    then show False using ancestor_rank [OF assms(2)] assms(2) unfolding tree_ok_def by fastforce
  qed
qed

lemma tree_dfs_ok:
  assumes "tree_ok fa n rk" and "\<And>x. x < n \<Longrightarrow> rk x \<le> m"
  shows "p < n \<Longrightarrow> distinct xs \<Longrightarrow> set xs \<subseteq> set (tree_outs n fa p) \<Longrightarrow>
    \<exists>t'. tree_dfs (tree_outs n fa) p xs t = Some t' \<and> tree_step fa n p xs t t'"
proof (induction "m - rk p" arbitrary: p xs t rule: less_induct)
  case less
  from less.prems show ?case
  proof (induction xs arbitrary: t)
    case Nil
    then show ?case by (subst tree_dfs.simps) (simp add: tree_step_def)
  next
    case (Cons x rest)
    have x: "x < n" "fa x = Some p" using Cons.prems by (auto simp: tree_outs_set)
    have rk: "rk p < rk x" using assms(1) x(2) by (simp add: tree_ok_def)
    then have lt: "m - rk x < m - rk p" using assms(2) [OF x(1)] by simp
    let ?t0 = "enter_node x (t\<lparr>dt_depth := (dt_depth t)(x := dt_depth t p + 1)\<rparr>)"
    obtain t1 where t1: "tree_dfs (tree_outs n fa) x (tree_outs n fa x) ?t0 = Some t1"
      "tree_step fa n x (tree_outs n fa x) ?t0 t1"
      using less.hyps [OF lt x(1) tree_outs_set(2) order_refl] by blast
    obtain n1 where n1: "dt_order t1 = dt_order ?t0 @ n1" "distinct n1"
      "set n1 = (\<Union>y\<in>set (tree_outs n fa x). descendants fa n y)" "dt_size t1 x = dt_size ?t0 x + length n1"
      "dt_dfn t1 x = dt_dfn ?t0 x" "\<forall>v. v \<notin> insert x (set n1) \<longrightarrow> dt_dfn t1 v = dt_dfn ?t0 v \<and> dt_size t1 v = dt_size ?t0 v"
      "\<forall>v\<in>set n1. block_ok fa n t1 v"
      using t1(2) unfolding tree_step_def by blast
    note dc = descendants_children [OF x(1) assms(1)]
    have D: "descendants fa n x = set (x # n1)" "distinct (x # n1)" using dc n1(2,3) by simp_all
    have px: "p \<notin> set (x # n1)"
      using rk ancestor_rank [OF assms(1), of x p] D(1) by (auto simp: descendants_def)
    have bx: "block_ok fa n t1 x"
      unfolding block_ok_def using n1(1,4,5) D(1)
      by (intro exI [of _ "dt_order t"] exI [of _ n1] exI [of _ "[]"]) (simp add: enter_node_def)
    let ?t2 = "t1\<lparr>dt_size := (dt_size t1)(p := dt_size t1 p + dt_size t1 x)\<rparr>"
    have rest: "distinct rest" "set rest \<subseteq> set (tree_outs n fa p)" using Cons.prems by auto
    obtain t' where t': "tree_dfs (tree_outs n fa) p rest ?t2 = Some t'" "tree_step fa n p rest ?t2 t'"
      using Cons.IH [OF less.prems(1) rest] by blast
    obtain n2 where n2: "dt_order t' = dt_order ?t2 @ n2" "distinct n2" "set n2 = (\<Union>y\<in>set rest. descendants fa n y)"
      "dt_size t' p = dt_size ?t2 p + length n2" "dt_dfn t' p = dt_dfn ?t2 p"
      "\<forall>v. v \<notin> insert p (set n2) \<longrightarrow> dt_dfn t' v = dt_dfn ?t2 v \<and> dt_size t' v = dt_size ?t2 v"
      "\<forall>v\<in>set n2. block_ok fa n t' v"
      using t'(2) unfolding tree_step_def by blast
    have apart: "set (x # n1) \<inter> set n2 = {}"
    proof -
      have "descendants fa n x \<inter> descendants fa n y = {}" if y: "y \<in> set rest" for y
      proof (rule siblings_apart [OF assms(1) x(2)])
        show "fa y = Some p" using y rest(2) by (auto simp: tree_outs_set)
        show "x \<noteq> y" using y Cons.prems(2) by auto
      qed
      then show ?thesis unfolding D(1) [symmetric] n2(3) by blast
    qed
    have keep: "dt_dfn t' v = dt_dfn t1 v" "dt_size t' v = dt_size t1 v" if v: "v \<in> set (x # n1)" for v
    proof -
      have "v \<notin> insert p (set n2)" "v \<noteq> p" using v apart px by auto
      then show "dt_dfn t' v = dt_dfn t1 v" "dt_size t' v = dt_size t1 v" using n2(6) by auto
    qed
    let ?new = "(x # n1) @ n2"
    have "tree_step fa n p (x # rest) t t'"
      unfolding tree_step_def
    proof (intro exI [of _ ?new] conjI allI ballI impI)
      show "dt_order t' = dt_order t @ ?new" using n1(1) n2(1) by (simp add: enter_node_def)
      show "distinct ?new" using D(2) n2(2) apart by auto
      show "set ?new = (\<Union>y\<in>set (x # rest). descendants fa n y)" using D(1) n2(3) by simp
      show "dt_size t' p = dt_size t p + length ?new"
        using n2(4) n1(4,6) px by (simp add: enter_node_def)
      show "dt_dfn t' p = dt_dfn t p" using n2(5) n1(6) px by (simp add: enter_node_def)
      fix v
      show "dt_dfn t' v = dt_dfn t v" "dt_size t' v = dt_size t v" if "v \<notin> insert p (set ?new)"
        using n2(6) n1(6) that by (simp_all add: enter_node_def)
    next
      fix v assume v: "v \<in> set ?new"
      show "block_ok fa n t' v"
      proof (cases "v \<in> set n2")
        case False
        then have v': "v \<in> set (x # n1)" using v by auto
        then have "block_ok fa n t1 v" using bx n1(7) by auto
        then show ?thesis by (rule block_more [where m = n2]) (use n2(1) keep [OF v'] in simp_all)
      qed (use n2(7) in blast)
    qed
    then show ?case using t1(1) t'(1) by (subst tree_dfs.simps) simp
  qed
qed

lemma block_number:
  assumes "distinct (dt_order t)" and "block_ok fa n t v" and "block_ok fa n t x"
  shows "dom_or_same t v x \<longleftrightarrow> x \<in> descendants fa n v" and "dt_dfn t v = dt_dfn t x \<longleftrightarrow> v = x"
proof -
  obtain a b c where v: "dt_order t = a @ (v # b) @ c" "dt_dfn t v = length a" "dt_size t v = length (v # b)"
    "set (v # b) = descendants fa n v" using assms(2) unfolding block_ok_def by blast
  obtain a' b' c' where x: "dt_order t = a' @ (x # b') @ c'" "dt_dfn t x = length a'"
    using assms(3) unfolding block_ok_def by blast
  have nx: "dt_order t ! dt_dfn t x = x" "dt_dfn t x < length (dt_order t)" by (simp_all add: x)
  have nv: "dt_order t ! dt_dfn t v = v" "dt_dfn t v < length (dt_order t)" by (simp_all add: v(1,2))
  show "dt_dfn t v = dt_dfn t x \<longleftrightarrow> v = x" using nx nv nth_eq_iff_index_eq [OF assms(1)] by metis
  have at: "dt_order t ! (length a + k) = (v # b) ! k" if k: "k < length (v # b)" for k
  proof -
    have "dt_order t ! (length a + k) = ((v # b) @ c) ! k" unfolding v(1) by (rule nth_append_length_plus)
    then show ?thesis using k by (simp only: nth_append if_True)
  qed
  show "dom_or_same t v x \<longleftrightarrow> x \<in> descendants fa n v"
  proof
    assume "dom_or_same t v x"
    then have k: "length a \<le> dt_dfn t x" "dt_dfn t x - length a < length (v # b)" using v(2,3) by (auto simp: dom_or_same_def)
    then have "x = (v # b) ! (dt_dfn t x - length a)" using at [OF k(2)] nx(1) by simp
    then have "x \<in> set (v # b)" using nth_mem [OF k(2)] by metis
    then show "x \<in> descendants fa n v" using v(4) by blast
  next
    assume "x \<in> descendants fa n v"
    then obtain k where k: "k < length (v # b)" "(v # b) ! k = x" using v(4) by (metis in_set_conv_nth)
    then have "dt_order t ! (length a + k) = dt_order t ! dt_dfn t x" using at nx(1) by simp
    moreover have "length a + k < length (dt_order t)" using k(1) unfolding v(1) by simp
    ultimately have "dt_dfn t x = length a + k" using nth_eq_iff_index_eq [OF assms(1) _ nx(2)] by metis
    then show "dom_or_same t v x" using v(2,3) k(1) by (simp add: dom_or_same_def)
  qed
qed

section \<open>Frontiers\<close>

text \<open>What the walk from \<open>x\<close> adds to the frontier of \<open>v\<close>.\<close>

definition walk_adds :: "dom_tree \<Rightarrow> (nat \<rightharpoonup> nat) \<Rightarrow> nat \<Rightarrow> nat \<Rightarrow> nat \<Rightarrow> bool" where
  "walk_adds t fa j x v = (ancestor fa v x \<and> (\<forall>u. ancestor fa v u \<longrightarrow> ancestor fa u x \<longrightarrow> \<not> sdom t u j))"

lemma frontier_walk_ok:
  assumes "tree_ok fa n rk"
  shows "\<exists>df'. frontier_walk t fa j (Some x) df = Some df' \<and>
    (\<forall>v. set (df' v) = set (df v) \<union> (if walk_adds t fa j x v then {j} else {}))"
proof (induction "rk x" arbitrary: x df rule: less_induct)
  case less
  show ?case
  proof (cases "sdom t x j")
    case True
    then have "\<not> walk_adds t fa j x v" for v by (auto simp: walk_adds_def)
    then show ?thesis using True by (subst frontier_walk.simps) simp
  next
    case False
    let ?df = "df(x := df x @ [j])"
    show ?thesis
    proof (cases "fa x")
      case None
      have "ancestor fa v x \<longleftrightarrow> v = x" for v
        unfolding ancestor_def parent_rel_def by (rule iffI) (use None in \<open>auto elim: converse_rtranclE\<close>)
      then have "walk_adds t fa j x v \<longleftrightarrow> v = x" for v using False by (auto simp: walk_adds_def)
      moreover have "frontier_walk t fa j None ?df = Some ?df" by (subst frontier_walk.simps) simp
      ultimately show ?thesis using False None by (subst frontier_walk.simps) auto
    next
      case (Some y)
      have up: "ancestor fa v x \<longleftrightarrow> v = x \<or> ancestor fa v y" for v by (rule ancestor_up [of fa x y v, OF Some])
      have rk: "rk y < rk x" using assms Some by (simp add: tree_ok_def)
      have nxy: "\<not> ancestor fa x y" using ancestor_rank [OF assms, of x y] rk by auto
      have add: "walk_adds t fa j x v \<longleftrightarrow> v = x \<or> walk_adds t fa j y v" for v
      proof (cases "v = x")
        case True
        have "u = x" if "ancestor fa x u" "ancestor fa u x" for u
          using that ancestor_rank [OF assms that(1)] ancestor_rank [OF assms that(2)] by auto
        then show ?thesis using True False by (auto simp: walk_adds_def)
      next
        case F: False
        then show ?thesis using up nxy False by (auto simp: walk_adds_def)
      qed
      obtain df' where "frontier_walk t fa j (Some y) ?df = Some df'"
        "\<forall>v. set (df' v) = set (?df v) \<union> (if walk_adds t fa j y v then {j} else {})"
        using less.hyps [OF rk, of ?df] by blast
      then show ?thesis using False Some add by (subst frontier_walk.simps) auto
    qed
  qed
qed

lemma edge_frontiers_ok:
  assumes "tree_ok fa n rk"
  shows "\<exists>df'. edge_frontiers t fa i js df = Some df' \<and>
    (\<forall>v. set (df' v) = set (df v) \<union> {j \<in> set js. walk_adds t fa j i v})"
proof (induction js arbitrary: df)
  case (Cons j js)
  obtain df1 where df1: "frontier_walk t fa j (Some i) df = Some df1"
    "\<forall>v. set (df1 v) = set (df v) \<union> (if walk_adds t fa j i v then {j} else {})"
    using frontier_walk_ok [OF assms] by blast
  obtain df' where "edge_frontiers t fa i js df1 = Some df'"
    "\<forall>v. set (df' v) = set (df1 v) \<union> {j \<in> set js. walk_adds t fa j i v}" using Cons.IH by blast
  then show ?case using df1 by auto
qed simp

lemma dom_frontiers_ok:
  assumes "tree_ok fa n rk"
  shows "\<exists>df'. dom_frontiers g t fa is df = Some df' \<and>
    (\<forall>v. set (df' v) = set (df v) \<union> {j. \<exists>i\<in>set is. j \<in> set (g ! i) \<and> walk_adds t fa j i v})"
proof (induction "is" arbitrary: df)
  case (Cons i "is")
  obtain df1 where df1: "edge_frontiers t fa i (g ! i) df = Some df1"
    "\<forall>v. set (df1 v) = set (df v) \<union> {j \<in> set (g ! i). walk_adds t fa j i v}" using edge_frontiers_ok [OF assms] by blast
  obtain df' where "dom_frontiers g t fa is df1 = Some df'"
    "\<forall>v. set (df' v) = set (df1 v) \<union> {j. \<exists>i\<in>set is. j \<in> set (g ! i) \<and> walk_adds t fa j i v}" using Cons.IH by blast
  then show ?case using df1 by auto
qed simp

section \<open>The dominator tree\<close>

lemma last_split:
  assumes "distinct xs" and "xs = a @ x # b"
  shows "length (takeWhile (\<lambda>y. y \<noteq> x) xs) = length a"
proof -
  have "x \<notin> set a" using assms by simp
  then have "takeWhile (\<lambda>y. y \<noteq> x) xs = a" unfolding assms(2) by (auto simp: takeWhile_append2 takeWhile_tail)
  then show ?thesis by simp
qed

lemma strict_entry: "\<not> strict g e v e"
proof
  assume "strict g e v e"
  then have "v \<in> set [e]" "v \<noteq> e" unfolding strict_def dominates_def using path_single by blast+
  then show False by simp
qed

text \<open>The fathers: nodes, immediate dominators of the reachable ones, and smaller in a rank.\<close>

definition fathers_ok :: "graph \<Rightarrow> nat \<Rightarrow> (nat \<rightharpoonup> nat) \<Rightarrow> (nat \<Rightarrow> nat) \<Rightarrow> bool" where
  "fathers_ok g e fa rk =
     (tree_ok fa (length g) rk \<and> fa e = None \<and> (\<forall>x. fa x = None \<longleftrightarrow> x = e \<or> length g \<le> x) \<and>
      (\<forall>x v. reachable g e x \<longrightarrow> fa x = Some v \<longrightarrow> idom g e v x))"

lemma fathers_result:
  assumes "flow_graph_ok g" and "e < length g" and dfn: "dfs_from g [e] [] = Some dfn"
  shows "\<exists>fa rk. dom_fathers g e dfn Map.empty = Some fa \<and> fathers_ok g e fa rk \<and> (\<forall>x. rk x \<le> length dfn)"
proof -
  note ord = dfs_order [OF dfn]
  have nodes: "set dfn \<subseteq> {..<length g}" using dfs_total [OF assms(1), of "[]" "[e]"] assms(2) dfn by auto
  obtain fa where fa: "dom_fathers g e dfn Map.empty = Some fa"
    "\<And>d. fa d = (if d < length g \<and> (\<exists>v\<in>set dfn. strict g e v d) then Some (last (filter (\<lambda>v. strict g e v d) dfn)) else None)"
    using dom_fathers_ok [OF assms(1,2) nodes, of Map.empty] by auto
  let ?rk = "\<lambda>x. length (takeWhile (\<lambda>y. y \<noteq> x) dfn)"
  have e: "e \<in> set dfn" using ord(1) by (auto simp: reachable_def intro: exI [of _ "[e]"])
  have some: "\<exists>v\<in>set dfn. strict g e v x" if "x \<noteq> e" for x
    using e entry_dominates that by (intro bexI [of _ e]) (simp_all add: strict_def)
  have mem: "v \<in> set dfn" "strict g e v x" "x < length g" if "fa x = Some v" for x v
  proof -
    have x: "x < length g" "\<exists>v\<in>set dfn. strict g e v x" "v = last (filter (\<lambda>v. strict g e v x) dfn)"
      using that by (auto simp: fa(2) split: if_splits)
    then have "filter (\<lambda>v. strict g e v x) dfn \<noteq> []" by (simp add: filter_empty_conv)
    then have "v \<in> set (filter (\<lambda>v. strict g e v x) dfn)" unfolding x(3) by (rule last_in_set)
    then show "v \<in> set dfn" "strict g e v x" "x < length g" using x(1) by auto
  qed
  have less: "?rk v < ?rk x" if "fa x = Some v" for x v
  proof -
    note m = mem [OF that]
    obtain c d where cd: "dfn = c @ v # d" using m(1) by (meson split_list)
    have rv: "?rk v = length c" by (rule last_split [OF ord(2) cd])
    show ?thesis
    proof (cases "x \<in> set dfn")
      case True
      then obtain a b where ab: "dfn = a @ x # b" by (meson split_list)
      have "v \<in> set a" using ord(3) [OF ab] m(2) by (auto simp: strict_def)
      then obtain a1 a2 where a: "a = a1 @ v # a2" by (meson split_list)
      have "?rk v = length a1" by (rule last_split [OF ord(2), of _ _ "a2 @ x # b"]) (simp add: ab a)
      then show ?thesis using last_split [OF ord(2) ab] a by simp
    next
      case False
      then have "takeWhile (\<lambda>y. y \<noteq> x) dfn = dfn" by (subst takeWhile_eq_all_conv) auto
      then show ?thesis using rv cd by simp
    qed
  qed
  have "fa e = None" using strict_entry by (auto simp: fa(2))
  moreover have "fa x = None \<longleftrightarrow> x = e \<or> length g \<le> x" for x
    using some [of x] strict_entry by (cases "x = e") (auto simp: fa(2))
  moreover have "tree_ok fa (length g) ?rk" unfolding tree_ok_def using less mem nodes by blast
  moreover have "idom g e v x" if r: "reachable g e x" and v: "fa x = Some v" for x v
  proof (rule father_idom [OF dfn r])
    show "x \<noteq> e" using v \<open>fa e = None\<close> by auto
    show "v = last (filter (\<lambda>v. strict g e v x) dfn)" using v by (auto simp: fa(2) split: if_splits)
  qed
  moreover have "?rk x \<le> length dfn" for x by (rule length_takeWhile_le)
  ultimately have "fathers_ok g e fa ?rk \<and> (\<forall>x. ?rk x \<le> length dfn)" unfolding fathers_ok_def by blast
  then show ?thesis using fa(1) by blast
qed

lemma ancestor_dominates:
  assumes "fathers_ok g e fa rk" and "reachable g e x" and "x < length g"
  shows "ancestor fa v x \<longleftrightarrow> dominates g e v x"
  using assms(2,3)
proof (induction "rk x" arbitrary: x rule: less_induct)
  case less
  note ok = assms(1) [unfolded fathers_ok_def]
  show ?case
  proof (cases "fa x")
    case None
    then have x: "x = e" using ok less.prems(2) by auto
    have "ancestor fa v x \<longleftrightarrow> v = x"
      unfolding ancestor_def parent_rel_def by (rule iffI) (use None in \<open>auto elim: converse_rtranclE\<close>)
    moreover have "dominates g e v x \<longleftrightarrow> v = x" using strict_entry [of g e v] dominates_refl x by (auto simp: strict_def)
    ultimately show ?thesis by blast
  next
    case (Some y)
    have i: "idom g e y x" using ok less.prems(1) Some by blast
    have y: "y < length g" "rk y < rk x" using ok Some by (auto simp: tree_ok_def)
    have ry: "reachable g e y" using reachable_dominator [OF less.prems(1)] i by (auto simp: idom_def strict_def)
    have "ancestor fa v x \<longleftrightarrow> v = x \<or> dominates g e v y"
      using ancestor_up [of fa x y v, OF Some] less.hyps [OF y(2) ry y(1)] by blast
    moreover have "dominates g e v x \<longleftrightarrow> v = x \<or> dominates g e v y"
      using i dominates_trans [of g e v y x] dominates_refl by (auto simp: idom_def strict_def)
    ultimately show ?thesis by blast
  qed
qed

lemma entry_ancestor:
  assumes "fathers_ok g e fa rk" and "x < length g"
  shows "ancestor fa e x"
  using assms(2)
proof (induction "rk x" arbitrary: x rule: less_induct)
  case less
  note ok = assms(1) [unfolded fathers_ok_def]
  show ?case
  proof (cases "fa x")
    case None
    then show ?thesis using ok less.prems by auto
  next
    case (Some y)
    then have "y < length g" "rk y < rk x" using ok by (auto simp: tree_ok_def)
    then show ?thesis using less.hyps ancestor_up [of fa x y e, OF Some] by blast
  qed
qed

definition dom_result_ok :: "graph \<Rightarrow> nat \<Rightarrow> dom_result \<Rightarrow> bool" where
  "dom_result_ok g e r =
     (dr_fa r e = None \<and>
      (\<forall>x<length g. reachable g e x \<longrightarrow> x \<noteq> e \<longrightarrow> (\<exists>v. dr_fa r x = Some v \<and> idom g e v x)) \<and>
      (\<forall>v<length g. \<forall>x<length g. reachable g e x \<longrightarrow>
         (sdom (dr_tree r) v x \<longleftrightarrow> strict g e v x) \<and> (dom_or_same (dr_tree r) v x \<longleftrightarrow> dominates g e v x)) \<and>
      ((\<forall>x<length g. reachable g e x) \<longrightarrow>
         (\<forall>v<length g. set (dr_frontiers r v) =
            {j. (\<exists>i<length g. j \<in> set (g ! i) \<and> dominates g e v i) \<and> \<not> strict g e v j})))"

lemma construct_dom_tree_ok:
  assumes "flow_graph_ok g" and "e < length g"
  shows "\<exists>r. construct_dom_tree g e = Some r \<and> dom_result_ok g e r"
proof -
  let ?n = "length g"
  obtain dfn where dfn: "dfs_from g [e] [] = Some dfn" using dfs_total [OF assms(1), of "[]" "[e]"] assms(2) by auto
  obtain fa rk where fa: "dom_fathers g e dfn Map.empty = Some fa" "fathers_ok g e fa rk" "\<And>x. rk x \<le> length dfn"
    using fathers_result [OF assms dfn] by blast
  note ok = fa(2) [unfolded fathers_ok_def]
  have tree: "tree_ok fa ?n rk" using ok by blast
  let ?ch = "tree_outs ?n fa" and ?t0 = "enter_node e \<lparr>dt_order = [], dt_dfn = (\<lambda>_. 0), dt_size = (\<lambda>_. 0), dt_depth = (\<lambda>_. 0)\<rparr>"
  obtain t where t: "tree_dfs ?ch e (?ch e) ?t0 = Some t" "tree_step fa ?n e (?ch e) ?t0 t"
    using tree_dfs_ok [OF tree fa(3) assms(2) tree_outs_set(2) order_refl] by blast
  obtain new where new: "dt_order t = dt_order ?t0 @ new" "distinct new" "set new = (\<Union>y\<in>set (?ch e). descendants fa ?n y)"
    "dt_size t e = dt_size ?t0 e + length new" "dt_dfn t e = dt_dfn ?t0 e" "\<forall>v\<in>set new. block_ok fa ?n t v"
    using t(2) unfolding tree_step_def by blast
  note dc = descendants_children [OF assms(2) tree]
  have De: "descendants fa ?n e = {..<?n}" using entry_ancestor [OF fa(2)] by (auto simp: descendants_def)
  have order: "dt_order t = e # new" using new(1) by (simp add: enter_node_def)
  have dist: "distinct (dt_order t)" using dc(2) new(2,3) by (simp add: order)
  have eD: "set (e # new) = descendants fa ?n e" using dc(1) new(3) by simp
  then have all: "set (e # new) = {..<?n}" using De by simp
  have be: "block_ok fa ?n t e"
    unfolding block_ok_def
  proof (intro exI conjI)
    show "dt_order t = [] @ (e # new) @ []" by (simp add: order)
    show "dt_dfn t e = length []" "dt_size t e = length (e # new)" using new(4,5) by (simp_all add: enter_node_def)
  qed (rule eD)
  have block: "block_ok fa ?n t v" if "v < ?n" for v
  proof -
    have "v \<in> set (e # new)" using that all by simp
    then show ?thesis using be new(6) by auto
  qed
  have dom: "dom_or_same t v x \<longleftrightarrow> ancestor fa v x" if "v < ?n" "x < ?n" for v x
    using block_number(1) [OF dist block block, of v x] that by (simp add: descendants_def)
  have sd: "sdom t v x \<longleftrightarrow> v \<noteq> x \<and> ancestor fa v x" if "v < ?n" "x < ?n" for v x
    using dom [OF that] block_number(2) [OF dist block block, of v x] that by (auto simp: sdom_def dom_or_same_def)
  obtain df where df: "dom_frontiers g t fa [0..<?n] (\<lambda>_. []) = Some df"
    "\<And>v. set (df v) = {j. \<exists>i\<in>set [0..<?n]. j \<in> set (g ! i) \<and> walk_adds t fa j i v}"
    using dom_frontiers_ok [OF tree, of g t "[0..<?n]" "\<lambda>_. []"] by auto
  have anc: "ancestor fa v x \<longleftrightarrow> dominates g e v x" if "reachable g e x" "x < ?n" for v x
    by (rule ancestor_dominates [OF fa(2) that])
  have front: "set (df v) = {j. (\<exists>i<?n. j \<in> set (g ! i) \<and> dominates g e v i) \<and> \<not> strict g e v j}"
    if r: "\<forall>x<?n. reachable g e x" and v: "v < ?n" for v
  proof -
    have "walk_adds t fa j i v \<longleftrightarrow> dominates g e v i \<and> \<not> strict g e v j" if i: "i < ?n" "j \<in> set (g ! i)" for i j
    proof -
      have j: "j < ?n" using assms(1) i by (auto simp: flow_graph_ok_def)
      have st: "sdom t u j \<longleftrightarrow> strict g e u j" if "u < ?n" for u
        using sd [OF that j] anc r j by (simp add: strict_def)
      have un: "u < ?n" if "ancestor fa u i" for u
        using that i(1) tree unfolding ancestor_def
        by (induction rule: rtrancl_induct) (auto simp: parent_rel_def tree_ok_def)
      have "strict g e v j" if u: "ancestor fa v u" "ancestor fa u i" "strict g e u j" for u
      proof -
        have vu: "dominates g e v u" using anc r un [OF u(2)] u(1) by blast
        have "dominates g e v j" using dominates_trans [OF vu] u(3) by (simp add: strict_def)
        moreover have "v \<noteq> j"
        proof
          assume "v = j"
          then have "u = j" using dominates_antisym [of g e j u] vu u(3) r j by (auto simp: strict_def)
          then show False using u(3) by (simp add: strict_def)
        qed
        ultimately show ?thesis by (simp add: strict_def)
      qed
      then have "(\<forall>u. ancestor fa v u \<longrightarrow> ancestor fa u i \<longrightarrow> \<not> sdom t u j) \<longleftrightarrow> \<not> strict g e v j" if "ancestor fa v i"
        using st un that ancestor_refl by blast
      then show ?thesis using anc r i(1) by (auto simp: walk_adds_def)
    qed
    then show ?thesis by (auto simp: df(2))
  qed
  let ?r = "\<lparr>dr_fa = fa, dr_tree = t, dr_frontiers = df\<rparr>"
  have "construct_dom_tree g e = Some ?r" using dfn fa(1) t(1) df(1) by (simp add: construct_dom_tree_def)
  moreover have "dom_result_ok g e ?r"
    unfolding dom_result_ok_def dom_result.select_convs
  proof (intro conjI allI impI)
    show "fa e = None" using ok by blast
    show "\<exists>v. fa x = Some v \<and> idom g e v x" if x: "x < ?n" "reachable g e x" "x \<noteq> e" for x
    proof -
      have "fa x \<noteq> None" using ok x(1,3) by (simp add: not_le)
      then obtain v where "fa x = Some v" by blast
      then show ?thesis using ok x(2) by blast
    qed
    show "sdom t v x \<longleftrightarrow> strict g e v x" if "v < ?n" "x < ?n" "reachable g e x" for v x
      using sd [OF that(1,2)] anc [OF that(3,2)] by (simp add: strict_def)
    show "dom_or_same t v x \<longleftrightarrow> dominates g e v x" if "v < ?n" "x < ?n" "reachable g e x" for v x
      using dom [OF that(1,2)] anc [OF that(3,2)] by simp
  qed (rule front)
  ultimately show ?thesis by blast
qed

end
