(* ===== verification/SymTab.thy ===== *)
theory SymTab
  imports Blocks
begin

text \<open>
  The types and symbol tables of the front end: \<open>src/ast/symbol_table.cpp\<close>, \<open>symbol_table.hpp\<close>, the
  errors of \<open>src/common/errors.hpp\<close>, and the values of compile-time constants, \<open>src/ast/init_value.cpp\<close>,
  \<open>init_value.hpp\<close>. What throws or fails an assertion is the left summand.
\<close>

section \<open>Errors\<close>

text \<open>The exceptions of \<open>errors.hpp\<close>, those of the standard library that reach the driver, a failed
  assertion and undefined behaviour.\<close>

datatype front_error =
    CompileTimeValueEvalFail | MainFuncNotFound | NegativeArraySize | VoidFuncReturnValueUsed
  | InvalidInitList | DuplicateLocalName string | DuplicateGlobalName string
  | InvalidMainFuncInterface | AssignmentTypeError | InvalidBreak | InvalidContinue | InvalidReturn
  | UnrecognizedVarName string | InvalidIndexOperator | UnrecognizedFuncName string | InvalidFuncCallArg
  | RuntimeError | InvalidArgument | OutOfRange | BadAnyCast | BadVariantAccess
  | AssertionFailed | Undefined

fun andthen :: "front_error + 'a \<Rightarrow> ('a \<Rightarrow> front_error + 'b) \<Rightarrow> front_error + 'b" where
  "andthen (Inl e) f = Inl e"
| "andthen (Inr x) f = f x"

lemma andthen_cong [fundef_cong]:
  "x = y \<Longrightarrow> (\<And>v. y = Inr v \<Longrightarrow> f v = g v) \<Longrightarrow> andthen x f = andthen y g"
  by (cases y) auto

lemma andthen_Inr [simp]: "andthen x f = Inr y \<longleftrightarrow> (\<exists>v. x = Inr v \<and> f v = Inr y)"
  by (cases x) auto

definition check :: "bool \<Rightarrow> front_error \<Rightarrow> front_error + unit" where
  "check b e = (if b then Inr () else Inl e)"

lemma check_Inr [simp]: "check b e = Inr u \<longleftrightarrow> b"
  by (simp add: check_def)

definition opt_or :: "front_error \<Rightarrow> 'a option \<Rightarrow> front_error + 'a" where
  "opt_or e x = (case x of None \<Rightarrow> Inl e | Some v \<Rightarrow> Inr v)"

lemma opt_or_Inr [simp]: "opt_or e x = Inr v \<longleftrightarrow> x = Some v"
  by (simp add: opt_or_def split: option.split)

section \<open>Types\<close>

text \<open>\<open>MemSize\<close> is \<open>uint64_t\<close>.\<close>

type_synonym mem_size = "64 word"

record vtype =
  ty_scalar :: scalar_type
  ty_dims :: "mem_size list"
  ty_const :: bool
  ty_omit :: bool

definition new_type :: "scalar_type \<Rightarrow> vtype" where
  "new_type t = \<lparr>ty_scalar = t, ty_dims = [], ty_const = False, ty_omit = False\<rparr>"

definition is_array :: "vtype \<Rightarrow> bool" where
  "is_array t = (ty_dims t \<noteq> [] \<or> ty_omit t)"

definition deref_one_dim :: "vtype \<Rightarrow> front_error + vtype" where
  "deref_one_dim t =
     (if \<not> is_array t then Inl RuntimeError
      else if ty_omit t then Inr (t\<lparr>ty_omit := False\<rparr>)
      else Inr (t\<lparr>ty_dims := tl (ty_dims t)\<rparr>))"

definition count_array_dims :: "vtype \<Rightarrow> nat" where
  "count_array_dims t = (if ty_omit t then length (ty_dims t) + 1 else length (ty_dims t))"

definition count_elements :: "vtype \<Rightarrow> front_error + mem_size" where
  "count_elements t = (if ty_omit t then Inl RuntimeError else Inr (prod_list (ty_dims t)))"

definition type_size :: "vtype \<Rightarrow> front_error + mem_size" where
  "type_size t = andthen (count_elements t) (\<lambda>n. Inr (4 * n))"

definition check_assign :: "vtype \<Rightarrow> vtype \<Rightarrow> bool" where
  "check_assign t rhs =
     (if is_array t \<and> (\<not> is_array rhs \<or> ty_scalar t \<noteq> ty_scalar rhs) \<or> \<not> is_array t \<and> is_array rhs then False
      else if ty_omit t then
        (if ty_omit rhs then ty_dims t = ty_dims rhs
         else length (ty_dims rhs) = length (ty_dims t) + 1 \<and> tl (ty_dims rhs) = ty_dims t)
      else \<not> ty_omit rhs \<and> ty_dims t = ty_dims rhs)"

definition check_index :: "vtype \<Rightarrow> mem_size list \<Rightarrow> bool" where
  "check_index t index =
     (length index = count_array_dims t \<and>
      (if ty_omit t then list_all2 (<) (tl index) (ty_dims t) else list_all2 (<) index (ty_dims t)))"

text \<open>\<open>get_index\<close> walks both vectors from the back; \<open>next\<close> wraps below 0 when the sizes are used up.\<close>

fun index_loop :: "mem_size \<Rightarrow> mem_size \<Rightarrow> mem_size list \<Rightarrow> mem_size list \<Rightarrow> mem_size" where
  "index_loop step ret ds [] = ret"
| "index_loop step ret [] (i # is) = index_loop step (ret + i * step) [] is"
| "index_loop step ret (d # ds) (i # is) = index_loop (step * d) (ret + i * step) ds is"

definition get_index :: "vtype \<Rightarrow> mem_size list \<Rightarrow> mem_size" where
  "get_index t index = index_loop 1 0 (rev (ty_dims t)) (rev index)"

definition unknown_length_array :: "scalar_type \<Rightarrow> vtype" where
  "unknown_length_array s = (new_type s)\<lparr>ty_omit := True\<rparr>"

section \<open>Compile-time values\<close>

text \<open>\<open>CompileTimeValueAny\<close> is a typed scalar. \<open>value<Scalar>()\<close> converts; a \<open>float\<close> that is not in the
  range of \<open>int32_t\<close> has no defined value.\<close>

fun ct_int :: "typed_scalar \<Rightarrow> front_error + w32" where
  "ct_int (SInt x) = Inr x"
| "ct_int (SFloat x) = opt_or Undefined (f2i x)"

fun ct_float :: "typed_scalar \<Rightarrow> w32" where
  "ct_float (SInt x) = i2f x"
| "ct_float (SFloat x) = x"

text \<open>\<open>check_and_return\<close>: an \<open>int64_t\<close> result must fit.\<close>

definition check_and_return :: "int \<Rightarrow> front_error + typed_scalar" where
  "check_and_return x =
     (if x < - (2 ^ 31) \<or> 2 ^ 31 - 1 < x then Inl CompileTimeValueEvalFail else Inr (SInt (word_of_int x)))"

datatype ct_op = CtAdd | CtSub | CtMul | CtDiv | CtMod | CtLess | CtLeq | CtEq | CtNeq | CtAnd | CtOr

definition ct_bool :: "bool \<Rightarrow> front_error + typed_scalar" where
  "ct_bool b = Inr (SInt (of_bool32 b))"

fun ct_neg :: "typed_scalar \<Rightarrow> front_error + typed_scalar" where
  "ct_neg (SFloat x) = Inr (SFloat (fneg x))"
| "ct_neg (SInt x) = (if sint x = - (2 ^ 31) then Inr (SInt x) else check_and_return (- sint x))"

fun ct_not :: "typed_scalar \<Rightarrow> front_error + typed_scalar" where
  "ct_not (SFloat x) = ct_bool (feq x 0)"
| "ct_not (SInt x) = ct_bool (x = 0)"

fun ct_float_op :: "ct_op \<Rightarrow> w32 \<Rightarrow> w32 \<Rightarrow> front_error + typed_scalar" where
  "ct_float_op CtAdd x y = Inr (SFloat (fadd x y))"
| "ct_float_op CtSub x y = Inr (SFloat (fsub x y))"
| "ct_float_op CtMul x y = Inr (SFloat (fmul x y))"
| "ct_float_op CtDiv x y = Inr (SFloat (fdiv x y))"
| "ct_float_op CtMod x y = Inl CompileTimeValueEvalFail"
| "ct_float_op CtLess x y = ct_bool (flt x y)"
| "ct_float_op CtLeq x y = ct_bool (fle x y)"
| "ct_float_op CtEq x y = ct_bool (feq x y)"
| "ct_float_op CtNeq x y = ct_bool (\<not> feq x y)"
| "ct_float_op CtAnd x y = ct_bool (\<not> feq x 0 \<and> \<not> feq y 0)"
| "ct_float_op CtOr x y = ct_bool (\<not> feq x 0 \<or> \<not> feq y 0)"

fun ct_int_op :: "ct_op \<Rightarrow> w32 \<Rightarrow> w32 \<Rightarrow> front_error + typed_scalar" where
  "ct_int_op CtAdd x y = check_and_return (sint x + sint y)"
| "ct_int_op CtSub x y = check_and_return (sint x - sint y)"
| "ct_int_op CtMul x y = check_and_return (sint x * sint y)"
| "ct_int_op CtDiv x y =
     (if y = 0 then Inl CompileTimeValueEvalFail else check_and_return (c_quot (sint x) (sint y)))"
| "ct_int_op CtMod x y =
     (if y = 0 then Inl CompileTimeValueEvalFail else check_and_return (c_rem (sint x) (sint y)))"
| "ct_int_op CtLess x y = ct_bool (x <s y)"
| "ct_int_op CtLeq x y = ct_bool (x <=s y)"
| "ct_int_op CtEq x y = ct_bool (x = y)"
| "ct_int_op CtNeq x y = ct_bool (x \<noteq> y)"
| "ct_int_op CtAnd x y = ct_bool (x \<noteq> 0 \<and> y \<noteq> 0)"
| "ct_int_op CtOr x y = ct_bool (x \<noteq> 0 \<or> y \<noteq> 0)"

text \<open>The operators of \<open>CompileTimeValueAny\<close>: at \<open>float\<close> as soon as one operand is one.\<close>

fun ct_binary :: "ct_op \<Rightarrow> typed_scalar \<Rightarrow> typed_scalar \<Rightarrow> front_error + typed_scalar" where
  "ct_binary b (SInt x) (SInt y) = ct_int_op b x y"
| "ct_binary b x y = ct_float_op b (ct_float x) (ct_float y)"

text \<open>Values of a scalar type, the elements of \<open>vector<int32_t>\<close> or \<open>vector<float>\<close>.\<close>

datatype const_init = CInts "w32 list" | CFloats "w32 list"

section \<open>Tables\<close>

datatype param_type = PType vtype | PString

record func_interface =
  fi_variadic :: bool
  fi_return :: scalar_type
  fi_args :: "param_type list"

record func_entry =
  fe_func :: func_ref
  fe_interface :: func_interface

type_synonym func_table = "string \<rightharpoonup> func_entry"

definition register_func :: "string \<Rightarrow> func_ref \<Rightarrow> func_interface \<Rightarrow> func_table \<Rightarrow> func_table" where
  "register_func name f i ft = ft(name \<mapsto> \<lparr>fe_func = f, fe_interface = i\<rparr>)"

record var_entry =
  ve_obj :: "obj_key option"
  ve_type :: vtype
  ve_arg_id :: int
  ve_const_init :: const_init

type_synonym var_table = "string \<rightharpoonup> var_entry"

text \<open>A new entry has an empty vector of its type.\<close>

definition empty_init :: "scalar_type \<Rightarrow> const_init" where
  "empty_init t = (if t = IntT then CInts [] else CFloats [])"

definition register_var :: "string \<Rightarrow> obj_key option \<Rightarrow> vtype \<Rightarrow> var_table \<Rightarrow> var_table" where
  "register_var name obj t vt =
     vt(name \<mapsto> \<lparr>ve_obj = obj, ve_type = t, ve_arg_id = -1, ve_const_init = empty_init (ty_scalar t)\<rparr>)"

definition register_const :: "string \<Rightarrow> obj_key option \<Rightarrow> vtype \<Rightarrow> const_init \<Rightarrow> var_table \<Rightarrow> var_table" where
  "register_const name obj t init vt =
     vt(name \<mapsto> \<lparr>ve_obj = obj, ve_type = t, ve_arg_id = -1, ve_const_init = init\<rparr>)"

text \<open>\<open>recursively_resolve\<close>: the tables from the innermost to the outermost, the global one.\<close>

fun recursively_resolve :: "var_table list \<Rightarrow> string \<Rightarrow> var_entry option" where
  "recursively_resolve [] name = None"
| "recursively_resolve (t # ts) name =
     (case t name of Some e \<Rightarrow> Some e | None \<Rightarrow> recursively_resolve ts name)"

end
