(* ===== verification/Syntax.thy ===== *)
theory Syntax
  imports SymTab
begin

text \<open>
  The parse trees the front end walks: one constructor per labelled alternative of \<open>src/parser/SysY.g4\<close>,
  without the alternatives whose visitor only passes its child on (\<open>exp2\<close>, \<open>unary1\<close>). The tree is built by
  the generated parser; here it is the input. Number literals keep their text.
\<close>

datatype number = IntLiteral string | FloatLiteral string

text \<open>A call keeps the number of its line, an argument of \<open>starttime\<close> and \<open>stoptime\<close>.\<close>

datatype exp =
    PrimaryExp1 exp
  | LVal string "exp list"
  | PrimaryExp3 number
  | Unary2 string "rparam list" w32
  | Unary3 char exp
  | MulExp char exp exp
  | AddExp char exp exp
and rparam = ExpAsRParam exp | StringAsRParam string

datatype rel_op = RelLT | RelGT | RelLE | RelGE

datatype lexp =
    Exp1 exp
  | RelExp rel_op lexp lexp
  | EqExp bool lexp lexp
  | LAndExp lexp lexp
  | LOrExp lexp lexp

datatype btype = BInt | BFloat

datatype const_init_val = ScalarConstInitVal exp | ListConstInitVal "const_init_val list"
datatype init_val = ScalarInitVal exp | ListInitval "init_val list"

datatype const_def = ConstDef string "exp list" const_init_val
datatype var_def = UninitVarDef string "exp list" | InitVarDef string "exp list" init_val
datatype decl = ConstDecl btype "const_def list" | VarDecl btype "var_def list"

datatype stmt =
    Assignment string "exp list" exp
  | ExpStmt "exp option"
  | BlockStmt "block_item list"
  | IfStmt1 lexp stmt
  | IfStmt2 lexp stmt stmt
  | WhileStmt lexp stmt
  | BreakStmt
  | ContinueStmt
  | ReturnStmt "exp option"
and block_item = DeclItem decl | StmtItem stmt

text \<open>A parameter: its type, its name, whether it has brackets, the sizes after the empty ones.\<close>

datatype func_param = FuncFParam btype string bool "exp list"
datatype func_type = FVoid | FInt | FFloat
datatype func_def = FuncDef func_type string "func_param list" "block_item list"
datatype top_item = TopDecl decl | TopFunc func_def

text \<open>\<open>stoi(s, 0, 0)\<close>: the base follows from the prefix, the digits end at the first other character,
  a value beyond \<open>int\<close> throws.\<close>

definition is_octal :: "char \<Rightarrow> bool" where
  "is_octal c = (48 \<le> char_code c \<and> char_code c \<le> 55)"

definition parse_int32_literal :: "string \<Rightarrow> front_error + w32" where
  "parse_int32_literal s =
     (let (b, ds) =
        (if (startswith s ''0x'' \<or> startswith s ''0X'') \<and> takeWhile is_hex (drop 2 s) \<noteq> [] then (16, takeWhile is_hex (drop 2 s))
         else if s \<noteq> [] \<and> hd s = CHR ''0'' then (8, takeWhile is_octal s)
         else (10, takeWhile is_digit s))
      in if ds = [] then Inl InvalidArgument
         else if int (digits_value b ds) < 2 ^ 31 then Inr (of_nat (digits_value b ds)) else Inl OutOfRange)"

text \<open>\<open>stof(s)\<close>; a number too large for \<open>float\<close> throws. (Whether one too small does is left to the C
  library; here it does not.)\<close>

definition parse_float_literal :: "string \<Rightarrow> front_error + w32" where
  "parse_float_literal s =
     (case scan_float_a s of
        None \<Rightarrow> Inl InvalidArgument
      | Some (v, _) \<Rightarrow> (case f_decode v of Inf _ \<Rightarrow> Inl OutOfRange | _ \<Rightarrow> Inr v))"

end
