(* ===== verification/Visitor.thy ===== *)
theory Visitor
  imports Syntax
begin

text \<open>
  \<open>ASTVisitor\<close> of \<open>src/ast/ast_visitor.cpp\<close>, \<open>ast_visitor.hpp\<close>, the front end that turns a parse tree into
  the intermediate representation, with \<open>IRValue\<close> and \<open>CondJumpList\<close> of \<open>src/ast/exp_value.hpp\<close>. A visitor
  takes the state and gives an error or its result and the new state. Blocks and memory objects get keys
  from two counters; the key 0 of a block is the null pointer.
\<close>

section \<open>Values and state\<close>

record irvalue =
  iv_type :: vtype
  iv_left :: bool
  iv_reg :: reg

definition assignable :: "irvalue \<Rightarrow> bool" where
  "assignable v = (iv_left v \<and> \<not> ty_const (iv_type v) \<and> \<not> is_array (iv_type v))"

definition rvalue :: "scalar_type \<Rightarrow> reg \<Rightarrow> irvalue" where
  "rvalue t r = \<lparr>iv_type = new_type t, iv_left = False, iv_reg = r\<rparr>"

text \<open>A \<open>BB **\<close> points at a target of a branch: its block, its place there, and which target.\<close>

type_synonym slot = "bb_key \<times> nat \<times> bool"

record cond_jumps =
  true_list :: "slot list"
  false_list :: "slot list"

text \<open>What the visitors of expressions put into \<open>antlrcpp::Any\<close>.\<close>

datatype any_value = VNull | VIR irvalue | VCond cond_jumps | VConst typed_scalar

datatype value_mode = NormalMode | CompileTime | Condition

record vis =
  vs_mode :: value_mode
  vs_init :: nfunc
  vs_init_bb :: bb_key
  vs_functions :: func_table
  vs_global :: var_table
  vs_strings :: nat
  vs_scope :: mem_scope
  vs_done :: "nfunc list"
  vs_func_name :: string
  vs_func :: "nfunc option"
  vs_cur :: "bb_key option"
  vs_return_bb :: bb_key
  vs_return_value :: "(reg \<times> bb_key) list"
  vs_local :: "var_table list"
  vs_in_init :: bool
  vs_found_main :: bool
  vs_break :: "bb_key list"
  vs_continue :: "bb_key list"
  vs_scalar :: scalar_type
  vs_next_bb :: bb_key
  vs_next_obj :: obj_key

section \<open>Registers, blocks, instructions\<close>

text \<open>\<open>new_reg\<close> and \<open>new_BB\<close> work on the function of the initialisation or the current one.\<close>

definition v_new_reg :: "vis \<Rightarrow> front_error + (reg \<times> vis)" where
  "v_new_reg s =
     (if vs_in_init s \<and> vs_func s \<noteq> None then Inl RuntimeError
      else if vs_in_init s then (let (r, f) = new_reg (vs_init s) in Inr (r, s\<lparr>vs_init := f\<rparr>))
      else case vs_func s of
        Some f \<Rightarrow> (let (r, f') = new_reg f in Inr (r, s\<lparr>vs_func := Some f'\<rparr>))
      | None \<Rightarrow> Inl RuntimeError)"

definition v_new_bb :: "vis \<Rightarrow> front_error + (bb_key \<times> vis)" where
  "v_new_bb s =
     (let k = vs_next_bb s; s1 = s\<lparr>vs_next_bb := k + 1\<rparr> in
      if vs_in_init s \<and> vs_func s \<noteq> None then Inl RuntimeError
      else if vs_in_init s then Inr (k, s1\<lparr>vs_init := new_bb k ''BB'' (vs_init s)\<rparr>)
      else case vs_func s of
        Some f \<Rightarrow> Inr (k, s1\<lparr>vs_func := Some (new_bb k ''BB'' f)\<rparr>)
      | None \<Rightarrow> Inl RuntimeError)"

text \<open>A change of the block with a given key, in whichever function it is.\<close>

definition edit_bb :: "bb_key \<Rightarrow> (bb \<Rightarrow> bb) \<Rightarrow> vis \<Rightarrow> vis" where
  "edit_bb k g s = s\<lparr>vs_init := update_bb k g (vs_init s), vs_func := map_option (update_bb k g) (vs_func s)\<rparr>"

definition push_to :: "bb_key \<Rightarrow> instr \<Rightarrow> vis \<Rightarrow> vis" where
  "push_to k i s = edit_bb k (bb_push i) s"

text \<open>\<open>cur_bb->push\<close>; \<open>cur_bb\<close> may be null.\<close>

definition push_cur_bb :: "instr \<Rightarrow> vis \<Rightarrow> front_error + vis" where
  "push_cur_bb i s = (case vs_cur s of None \<Rightarrow> Inl Undefined | Some k \<Rightarrow> Inr (push_to k i s))"

fun push_all :: "instr list \<Rightarrow> vis \<Rightarrow> front_error + vis" where
  "push_all [] s = Inr s"
| "push_all (i # is) s = andthen (push_cur_bb i s) (push_all is)"

text \<open>\<open>*i = bb\<close> for a target of a branch.\<close>

definition set_target :: "bool \<Rightarrow> bb_key \<Rightarrow> instr \<Rightarrow> instr" where
  "set_target tgt1 k i =
     (case i of BranchInstr c t1 t0 \<Rightarrow> if tgt1 then BranchInstr c k t0 else BranchInstr c t1 k | _ \<Rightarrow> i)"

definition patch :: "bb_key \<Rightarrow> slot \<Rightarrow> vis \<Rightarrow> vis" where
  "patch k p s =
     (case p of (b, n, tgt1) \<Rightarrow>
        edit_bb b (\<lambda>x. x\<lparr>bb_instrs := (bb_instrs x)[n := set_target tgt1 k (bb_instrs x ! n)]\<rparr>) s)"

definition patch_all :: "bb_key \<Rightarrow> slot list \<Rightarrow> vis \<Rightarrow> vis" where
  "patch_all k ps s = foldl (\<lambda>s p. patch k p s) s ps"

section \<open>Conversions between values\<close>

definition to_irvalue :: "any_value \<Rightarrow> vis \<Rightarrow> front_error + (irvalue \<times> vis)" where
  "to_irvalue v s =
     (case v of
        VNull \<Rightarrow> Inl VoidFuncReturnValueUsed
      | VIR x \<Rightarrow> Inr (x, s)
      | VConst c \<Rightarrow> Inl AssertionFailed
      | VCond j \<Rightarrow>
          andthen (v_new_bb s) (\<lambda>(true_bb, s).
          andthen (v_new_bb s) (\<lambda>(false_bb, s).
          andthen (v_new_bb s) (\<lambda>(res_bb, s).
          let s = patch_all false_bb (false_list j) (patch_all true_bb (true_list j) s) in
          andthen (v_new_reg s) (\<lambda>(true_reg, s).
          andthen (v_new_reg s) (\<lambda>(false_reg, s).
          andthen (v_new_reg s) (\<lambda>(res_reg, s).
          let s = push_to true_bb (LoadConstI true_reg 1) s;
              s = push_to true_bb (JumpInstr res_bb) s;
              s = push_to false_bb (LoadConstI false_reg 0) s;
              s = push_to false_bb (JumpInstr res_bb) s;
              s = push_to res_bb (PhiInstr res_reg [(true_reg, true_bb), (false_reg, false_bb)]) s
          in Inr (rvalue IntT res_reg, s\<lparr>vs_cur := Some res_bb\<rparr>))))))))"

definition get_value :: "irvalue \<Rightarrow> vis \<Rightarrow> front_error + (reg \<times> vis)" where
  "get_value v s =
     (if is_array (iv_type v) then Inl AssertionFailed
      else if iv_left v then
        andthen (v_new_reg s) (\<lambda>(temp, s).
        andthen (push_cur_bb (LoadInstr temp (iv_reg v) 0 None) s) (\<lambda>s. Inr (temp, s)))
      else Inr (iv_reg v, s))"

definition get_value_as :: "scalar_type \<Rightarrow> irvalue \<Rightarrow> vis \<Rightarrow> front_error + (reg \<times> vis)" where
  "get_value_as t v s =
     andthen (get_value v s) (\<lambda>(ret, s).
     if ty_scalar (iv_type v) = t then Inr (ret, s)
     else
       andthen (v_new_reg s) (\<lambda>(temp, s).
       andthen (case t of
           IntT \<Rightarrow> push_cur_bb (UnaryOpI temp ret F2I) s
         | FloatT \<Rightarrow> push_cur_bb (UnaryOpI temp ret I2F) s
         | _ \<Rightarrow> Inl AssertionFailed) (\<lambda>s. Inr (temp, s))))"

text \<open>\<open>to_CondJumpList\<close>: the register for the float zero is taken also when it is not needed; a branch
  with open targets ends the current block.\<close>

definition cur_length :: "vis \<Rightarrow> nat" where
  "cur_length s =
     (case vs_cur s of
        None \<Rightarrow> 0
      | Some k \<Rightarrow>
          (case instrs_at (vs_init s) k of
             Some is \<Rightarrow> length is
           | None \<Rightarrow> (case vs_func s of
                        None \<Rightarrow> 0
                      | Some f \<Rightarrow> (case instrs_at f k of Some is \<Rightarrow> length is | None \<Rightarrow> 0))))"

definition to_cond_jumps :: "any_value \<Rightarrow> vis \<Rightarrow> front_error + (cond_jumps \<times> vis)" where
  "to_cond_jumps v s =
     (case v of
        VNull \<Rightarrow> Inl VoidFuncReturnValueUsed
      | VCond j \<Rightarrow> Inr (j, s)
      | VConst c \<Rightarrow> Inl AssertionFailed
      | VIR x \<Rightarrow>
          andthen (get_value x s) (\<lambda>(reg1, s).
          andthen (v_new_reg s) (\<lambda>(reg0, s).
          andthen (case ty_scalar (iv_type x) of
              IntT \<Rightarrow> Inr (reg1, s)
            | FloatT \<Rightarrow>
                andthen (v_new_reg s) (\<lambda>(reg, s).
                andthen (push_all [LoadConstF reg0 0, BinaryOpI reg reg1 reg0 FNEQ] s) (\<lambda>s. Inr (reg, s)))
            | _ \<Rightarrow> Inl AssertionFailed) (\<lambda>(reg, s).
          let n = cur_length s in
          andthen (push_cur_bb (BranchInstr reg 0 0) s) (\<lambda>s.
          case vs_cur s of
            None \<Rightarrow> Inl Undefined
          | Some k \<Rightarrow> Inr (\<lparr>true_list = [(k, n, True)], false_list = [(k, n, False)]\<rparr>, s\<lparr>vs_cur := None\<rparr>))))))"

text \<open>Reading \<open>Any\<close> as a value of one kind.\<close>

fun as_irvalue :: "any_value \<Rightarrow> front_error + irvalue" where
  "as_irvalue (VIR x) = Inr x"
| "as_irvalue _ = Inl BadAnyCast"

fun as_const :: "any_value \<Rightarrow> front_error + typed_scalar" where
  "as_const (VConst c) = Inr c"
| "as_const _ = Inl BadAnyCast"

definition resolve :: "vis \<Rightarrow> string \<Rightarrow> var_entry option" where
  "resolve s name =
     (if vs_local s \<noteq> [] then recursively_resolve (vs_local s @ [vs_global s]) name else vs_global s name)"

definition nth_or :: "'a list \<Rightarrow> nat \<Rightarrow> front_error + 'a" where
  "nth_or xs n = (if n < length xs then Inr (xs ! n) else Inl Undefined)"

text \<open>\<open>std::get<vector<...>>(entry->const_init)[n]\<close>.\<close>

definition const_at :: "var_entry \<Rightarrow> nat \<Rightarrow> front_error + typed_scalar" where
  "const_at e n =
     (if ty_scalar (ve_type e) = IntT then
        (case ve_const_init e of
           CInts ws \<Rightarrow> andthen (nth_or ws n) (\<lambda>w. Inr (SInt w)) | _ \<Rightarrow> Inl BadVariantAccess)
      else
        (case ve_const_init e of
           CFloats ws \<Rightarrow> andthen (nth_or ws n) (\<lambda>w. Inr (SFloat w)) | _ \<Rightarrow> Inl BadVariantAccess))"

text \<open>The type two operands have in common.\<close>

definition join_type :: "irvalue \<Rightarrow> irvalue \<Rightarrow> scalar_type" where
  "join_type a b = (if ty_scalar (iv_type a) = FloatT \<or> ty_scalar (iv_type b) = FloatT then FloatT else IntT)"

definition emit_binary :: "scalar_type \<Rightarrow> binary_compute \<Rightarrow> reg \<Rightarrow> reg \<Rightarrow> reg \<Rightarrow> vis \<Rightarrow> front_error + vis" where
  "emit_binary t b d x y s =
     andthen (opt_or AssertionFailed (binary_op t b)) (\<lambda>op. push_cur_bb (BinaryOpI d x y op) s)"

definition emit_unary :: "scalar_type \<Rightarrow> unary_compute \<Rightarrow> reg \<Rightarrow> reg \<Rightarrow> vis \<Rightarrow> front_error + vis" where
  "emit_unary t u d x s =
     andthen (opt_or AssertionFailed (unary_op t u)) (\<lambda>op. push_cur_bb (UnaryOpI d x op) s)"

section \<open>Expressions\<close>

text \<open>One step of the address computation of \<open>visitLVal\<close>: the size of a step, and \<open>cur\<close>, a \<open>size_t\<close>
  that wraps below 0.\<close>

definition start_step :: "mem_size list \<Rightarrow> mem_size \<Rightarrow> mem_size" where
  "start_step dims cur = 4 * prod_list (drop (unat (cur + 1)) dims)"

definition next_step :: "mem_size list \<Rightarrow> mem_size \<times> mem_size \<Rightarrow> mem_size \<times> mem_size" where
  "next_step dims sc =
     (case sc of (step, cur) \<Rightarrow>
        if unat cur < length dims then (step * dims ! unat cur, cur - 1) else (step, cur))"

fun emit_indices :: "reg \<Rightarrow> (reg \<times> mem_size) list \<Rightarrow> vis \<Rightarrow> front_error + (reg \<times> vis)" where
  "emit_indices addr [] s = Inr (addr, s)"
| "emit_indices addr ((idx, step) # xs) s =
     andthen (v_new_reg s) (\<lambda>(new_addr, s).
     andthen (push_cur_bb (ArrayIndex new_addr addr idx (ucast step) (-1)) s) (emit_indices new_addr xs))"

text \<open>Arguments of a call: a string literal is a memory object.\<close>

datatype arg = AObj obj_key | AVal irvalue

text \<open>The loop over the arguments; \<open>off\<close> is the number of argument words so far, padded so that a
  \<open>double\<close> starts at an even one.\<close>

fun call_args :: "bool \<Rightarrow> param_type list \<Rightarrow> arg list \<Rightarrow> nat \<Rightarrow> vis \<Rightarrow> front_error + ((reg \<times> scalar_type) list \<times> vis)" where
  "call_args var ps [] off s = Inr ([], s)"
| "call_args var (PType t # ps) (AVal v # as) off s =
     andthen (if is_array t then Inr (iv_reg v, IntT, s)
              else andthen (get_value_as (ty_scalar t) v s) (\<lambda>(r, s). Inr (r, ty_scalar t, s))) (\<lambda>(r, ty, s).
     andthen (call_args var ps as (off + 1) s) (\<lambda>(rs, s). Inr ((r, ty) # rs, s)))"
| "call_args var (PString # ps) (AVal v # as) off s = Inl InvalidFuncCallArg"
| "call_args var [] (AVal v # as) off s =
     andthen (get_value_as (ty_scalar (iv_type v)) v s) (\<lambda>(r, s).
     (case ty_scalar (iv_type v) of
        FloatT \<Rightarrow>
          (let pad = (if off mod 2 = 0 then [] else [(0, FloatT)]) in
           andthen (v_new_reg s) (\<lambda>(r0, s).
           andthen (push_cur_bb (UnaryOpI r0 r F2D0) s) (\<lambda>s.
           andthen (v_new_reg s) (\<lambda>(r1, s).
           andthen (push_cur_bb (UnaryOpI r1 r F2D1) s) (\<lambda>s.
           andthen (call_args var [] as (off + length pad + 2) s) (\<lambda>(rs, s).
           Inr (pad @ [(r0, FloatT), (r1, FloatT)] @ rs, s)))))))
      | IntT \<Rightarrow> andthen (call_args var [] as (off + 1) s) (\<lambda>(rs, s). Inr ((r, IntT) # rs, s))
      | _ \<Rightarrow> Inl AssertionFailed))"
| "call_args var (PString # ps) (AObj k # as) off s =
     andthen (v_new_reg s) (\<lambda>(addr, s).
     andthen (push_cur_bb (LoadAddr addr k) s) (\<lambda>s.
     andthen (call_args var ps as (off + 1) s) (\<lambda>(rs, s). Inr ((addr, IntT) # rs, s))))"
| "call_args var (PType t # ps) (AObj k # as) off s = Inl InvalidFuncCallArg"
| "call_args var [] (AObj k # as) off s = Inl AssertionFailed"

definition callee_name :: "func_ref \<Rightarrow> string" where
  "callee_name f = (case f of NormalF n \<Rightarrow> n | LibF n \<Rightarrow> n)"

text \<open>\<open>visitUnary2\<close> after its arguments have been visited.\<close>

definition finish_call :: "string \<Rightarrow> func_entry \<Rightarrow> arg list \<Rightarrow> w32 \<Rightarrow> vis \<Rightarrow> front_error + (any_value \<times> vis)" where
  "finish_call name e args line s =
     andthen (check (length (fi_args (fe_interface e)) \<le> length args) InvalidFuncCallArg) (\<lambda>_.
     andthen (check (length args \<le> length (fi_args (fe_interface e)) \<or> fi_variadic (fe_interface e)) InvalidFuncCallArg) (\<lambda>_.
     andthen (call_args (fi_variadic (fe_interface e)) (fi_args (fe_interface e)) args 0 s) (\<lambda>(regs, s).
     andthen
       (if name = ''starttime'' \<or> name = ''stoptime'' then
          andthen (v_new_reg s) (\<lambda>(r, s).
          andthen (push_cur_bb (LoadConstI r line) s) (\<lambda>s. Inr (regs @ [(r, IntT)], s)))
        else Inr (regs, s)) (\<lambda>(regs, s).
     andthen (v_new_reg s) (\<lambda>(ret, s).
     if fi_return (fe_interface e) \<noteq> Void then
       andthen (push_cur_bb (CallInstr ret (fe_func e) regs (fi_return (fe_interface e)) False False) s) (\<lambda>s.
       andthen (opt_or Undefined (vs_functions s (callee_name (fe_func e)))) (\<lambda>e'.
       Inr (VIR (rvalue (fi_return (fe_interface e')) ret), s)))
     else
       andthen (push_cur_bb (CallInstr ret (fe_func e) regs Void False False) s) (\<lambda>s. Inr (VNull, s)))))))"

text \<open>Literals.\<close>

definition visit_number :: "number \<Rightarrow> front_error + typed_scalar" where
  "visit_number n =
     (case n of
        IntLiteral t \<Rightarrow> andthen (parse_int32_literal t) (\<lambda>x. Inr (SInt x))
      | FloatLiteral t \<Rightarrow> andthen (parse_float_literal t) (\<lambda>x. Inr (SFloat x)))"

definition load_const :: "reg \<Rightarrow> typed_scalar \<Rightarrow> instr" where
  "load_const r c = (case c of SInt x \<Rightarrow> LoadConstI r x | SFloat x \<Rightarrow> LoadConstF r x)"

definition scalar_type_of :: "typed_scalar \<Rightarrow> scalar_type" where
  "scalar_type_of c = (case c of SInt _ \<Rightarrow> IntT | SFloat _ \<Rightarrow> FloatT)"

definition visit_literal :: "number \<Rightarrow> vis \<Rightarrow> front_error + (any_value \<times> vis)" where
  "visit_literal n s =
     andthen (visit_number n) (\<lambda>c.
     if vs_mode s = CompileTime then Inr (VConst c, s)
     else
       andthen (v_new_reg s) (\<lambda>(r, s).
       andthen (push_cur_bb (load_const r c) s) (\<lambda>s. Inr (VIR (rvalue (scalar_type_of c) r), s))))"

text \<open>A string literal becomes an object of the global scope; its size is not known.\<close>

definition upd_obj :: "obj_key \<Rightarrow> (mem_object \<Rightarrow> mem_object) \<Rightarrow> mem_scope \<Rightarrow> mem_scope" where
  "upd_obj k g sc = sc\<lparr>ms_objects := map (\<lambda>m. if mo_key m = k then g m else m) (ms_objects sc)\<rparr>"

definition visit_string :: "string \<Rightarrow> vis \<Rightarrow> obj_key \<times> vis" where
  "visit_string t s =
     (let k = vs_next_obj s;
          sc = new_mem_object (vs_scope s) k (''.string_literal'' @ print_int (int (vs_strings s)));
          chars = map (\<lambda>c. of_nat (char_code c)) t @ [0]
      in (k, s\<lparr>vs_next_obj := k + 1, vs_strings := vs_strings s + 1,
               vs_scope := upd_obj k (\<lambda>m. mo_init_chars m chars (2 ^ 64 - 1)) sc\<rparr>))"

text \<open>The unary operators once the operand is visited.\<close>

definition const_unary :: "char \<Rightarrow> typed_scalar \<Rightarrow> front_error + typed_scalar" where
  "const_unary op c =
     (if op = CHR ''-'' then ct_neg c else if op = CHR ''!'' then ct_not c else Inr c)"

definition unary3_normal :: "char \<Rightarrow> irvalue \<Rightarrow> vis \<Rightarrow> front_error + (any_value \<times> vis)" where
  "unary3_normal op rhs s =
     (let t = (if op = CHR ''!'' then IntT else ty_scalar (iv_type rhs)) in
      andthen (get_value_as t rhs s) (\<lambda>(x, s).
      if op = CHR ''+'' then Inr (VIR (rvalue t x), s)
      else
        andthen (v_new_reg s) (\<lambda>(res, s).
        andthen (emit_unary t (if op = CHR ''-'' then NEG else LNOT) res x s) (\<lambda>s. Inr (VIR (rvalue t res), s)))))"

definition unary3_condition :: "char \<Rightarrow> irvalue \<Rightarrow> vis \<Rightarrow> front_error + (any_value \<times> vis)" where
  "unary3_condition op rhs s =
     andthen (check (\<not> is_array (iv_type rhs)) AssertionFailed) (\<lambda>_.
     if op = CHR ''+'' then
       andthen (get_value_as (ty_scalar (iv_type rhs)) rhs s) (\<lambda>(x, s). Inr (VIR (rhs\<lparr>iv_reg := x, iv_left := False\<rparr>), s))
     else
       andthen (get_value rhs s) (\<lambda>(x, s).
       andthen (v_new_reg s) (\<lambda>(res, s).
       andthen (emit_unary (ty_scalar (iv_type rhs)) NEG res x s) (\<lambda>s.
       Inr (VIR (rvalue (ty_scalar (iv_type rhs)) res), s)))))"

text \<open>The binary operators once both operands are visited.\<close>

definition mul_op :: "char \<Rightarrow> binary_compute" where
  "mul_op op = (if op = CHR ''*'' then MUL else if op = CHR ''/'' then DIV else MOD)"

definition mul_ct :: "char \<Rightarrow> ct_op" where
  "mul_ct op = (if op = CHR ''*'' then CtMul else if op = CHR ''/'' then CtDiv else CtMod)"

definition arith_emit :: "scalar_type \<Rightarrow> binary_compute \<Rightarrow> irvalue \<Rightarrow> irvalue \<Rightarrow> vis \<Rightarrow> front_error + (reg \<times> vis)" where
  "arith_emit t b lhs rhs s =
     andthen (get_value_as t lhs s) (\<lambda>(x, s).
     andthen (get_value_as t rhs s) (\<lambda>(y, s).
     andthen (v_new_reg s) (\<lambda>(res, s).
     andthen (emit_binary t b res x y s) (\<lambda>s. Inr (res, s)))))"

text \<open>\<open>visitAddExp\<close> on an address: the offset is scaled by the size of an element, an \<open>int\<close>.\<close>

definition pointer_add :: "irvalue \<Rightarrow> irvalue \<Rightarrow> vis \<Rightarrow> front_error + (any_value \<times> vis)" where
  "pointer_add lhs rhs s =
     andthen (check (\<not> is_array (iv_type rhs)) AssertionFailed) (\<lambda>_.
     andthen (get_value_as IntT rhs s) (\<lambda>(x, s).
     andthen (deref_one_dim (iv_type lhs)) (\<lambda>t.
     andthen (v_new_reg s) (\<lambda>(size_reg, s).
     andthen (push_cur_bb (LoadConstI size_reg (4 * ucast (prod_list (ty_dims t)))) s) (\<lambda>s.
     andthen (v_new_reg s) (\<lambda>(step, s).
     andthen (push_cur_bb (BinaryOpI step x size_reg MUL) s) (\<lambda>s.
     andthen (v_new_reg s) (\<lambda>(res, s).
     andthen (push_cur_bb (BinaryOpI res (iv_reg lhs) step ADD) s) (\<lambda>s.
     Inr (VIR \<lparr>iv_type = iv_type lhs, iv_left = False, iv_reg = res\<rparr>, s))))))))))"

definition add_normal :: "char \<Rightarrow> irvalue \<Rightarrow> irvalue \<Rightarrow> vis \<Rightarrow> front_error + (any_value \<times> vis)" where
  "add_normal op lhs rhs s =
     (let (a, b) = (if is_array (iv_type rhs) then (rhs, lhs) else (lhs, rhs)) in
      if is_array (iv_type a) then pointer_add a b s
      else
        andthen (arith_emit (join_type a b) (if op = CHR ''+'' then ADD else SUB) a b s) (\<lambda>(res, s).
        Inr (VIR (rvalue (join_type a b) res), s)))"

text \<open>The visitors. In \<open>visit_index\<close> the indices of an element are visited from the last to the first
  with the running type, size of a step and position; the result lists them from the first to the last.\<close>

fun visit_exp :: "exp \<Rightarrow> vis \<Rightarrow> front_error + (any_value \<times> vis)"
  and visit_const_index :: "exp list \<Rightarrow> vis \<Rightarrow> front_error + (mem_size list \<times> vis)"
  and visit_index :: "exp list \<Rightarrow> mem_size list \<Rightarrow> vtype \<Rightarrow> mem_size \<times> mem_size \<Rightarrow> vis \<Rightarrow>
      front_error + (vtype \<times> (mem_size \<times> mem_size) \<times> (reg \<times> mem_size) list \<times> vis)"
  and visit_rparams :: "rparam list \<Rightarrow> vis \<Rightarrow> front_error + (arg list \<times> vis)" where
  "visit_exp (PrimaryExp1 e) s = visit_exp e s"
| "visit_exp (PrimaryExp3 n) s = visit_literal n s"
| "visit_exp (LVal name es) s =
     andthen (opt_or (UnrecognizedVarName name) (resolve s name)) (\<lambda>e.
     if vs_mode s = CompileTime then
       andthen (check (ty_const (ve_type e)) CompileTimeValueEvalFail) (\<lambda>_.
       if \<not> is_array (ve_type e) then
         andthen (check (es = []) InvalidIndexOperator) (\<lambda>_.
         andthen (const_at e 0) (\<lambda>c. Inr (VConst c, s)))
       else
         andthen (visit_const_index es s) (\<lambda>(index, s).
         andthen (check (check_index (ve_type e) index) CompileTimeValueEvalFail) (\<lambda>_.
         andthen (const_at e (unat (get_index (ve_type e) index))) (\<lambda>c. Inr (VConst c, s)))))
     else
       andthen (v_new_reg s) (\<lambda>(addr, s).
       andthen (push_cur_bb
           (if 0 \<le> ve_arg_id e then LoadArg IntT addr (ve_arg_id e)
            else LoadAddr addr (case ve_obj e of Some k \<Rightarrow> k | None \<Rightarrow> 0)) s) (\<lambda>s.
       if \<not> is_array (ve_type e) then
         andthen (check (es = []) InvalidIndexOperator) (\<lambda>_.
         Inr (VIR \<lparr>iv_type = ve_type e, iv_left = True, iv_reg = addr\<rparr>, s))
       else
         andthen (check (length es \<le> count_array_dims (ve_type e)) InvalidIndexOperator) (\<lambda>_.
         let dims = ty_dims (ve_type e);
             cur = of_nat (length es) - 1 - (if ty_omit (ve_type e) then 1 else 0) in
         andthen (visit_index es dims (ve_type e) (start_step dims cur, cur) s) (\<lambda>(t, sc, tmp, s).
         andthen (emit_indices addr tmp s) (\<lambda>(addr, s).
         Inr (VIR \<lparr>iv_type = t, iv_left = True, iv_reg = addr\<rparr>, s)))))))"
| "visit_exp (Unary2 name ps line) s =
     andthen (check (vs_mode s \<noteq> CompileTime) CompileTimeValueEvalFail) (\<lambda>_.
     andthen (opt_or (UnrecognizedFuncName name) (vs_functions s name)) (\<lambda>e.
     andthen (visit_rparams ps s) (\<lambda>(args, s). finish_call name e args line s)))"
| "visit_exp (Unary3 op e) s =
     andthen (check (op = CHR ''+'' \<or> op = CHR ''-'' \<or> op = CHR ''!'') AssertionFailed) (\<lambda>_.
     case vs_mode s of
       CompileTime \<Rightarrow>
         andthen (visit_exp e s) (\<lambda>(v, s).
         andthen (as_const v) (\<lambda>c. andthen (const_unary op c) (\<lambda>c. Inr (VConst c, s))))
     | NormalMode \<Rightarrow>
         andthen (visit_exp e s) (\<lambda>(v, s).
         andthen (to_irvalue v s) (\<lambda>(rhs, s). unary3_normal op rhs s))
     | Condition \<Rightarrow>
         if op = CHR ''!'' then
           andthen (visit_exp e s) (\<lambda>(v, s).
           andthen (to_cond_jumps v s) (\<lambda>(j, s).
           Inr (VCond \<lparr>true_list = false_list j, false_list = true_list j\<rparr>, s)))
         else
           andthen (visit_exp e (s\<lparr>vs_mode := NormalMode\<rparr>)) (\<lambda>(v, s).
           andthen (to_irvalue v s) (\<lambda>(rhs, s).
           andthen (unary3_condition op rhs s) (\<lambda>(v, s). Inr (v, s\<lparr>vs_mode := Condition\<rparr>)))))"
| "visit_exp (MulExp op a b) s =
     andthen (check (op = CHR ''*'' \<or> op = CHR ''/'' \<or> op = CHR ''%'') AssertionFailed) (\<lambda>_.
     if vs_mode s = CompileTime then
       andthen (visit_exp a s) (\<lambda>(v, s). andthen (as_const v) (\<lambda>lhs.
       andthen (visit_exp b s) (\<lambda>(v, s). andthen (as_const v) (\<lambda>rhs.
       andthen (ct_binary (mul_ct op) lhs rhs) (\<lambda>c. Inr (VConst c, s))))))
     else
       andthen (visit_exp a (s\<lparr>vs_mode := NormalMode\<rparr>)) (\<lambda>(v, s1). andthen (to_irvalue v s1) (\<lambda>(lhs, s1).
       andthen (visit_exp b s1) (\<lambda>(v, s1). andthen (to_irvalue v s1) (\<lambda>(rhs, s1).
       andthen (arith_emit (join_type lhs rhs) (mul_op op) lhs rhs s1) (\<lambda>(res, s1).
       Inr (VIR (rvalue (join_type lhs rhs) res), s1\<lparr>vs_mode := vs_mode s\<rparr>)))))))"
| "visit_exp (AddExp op a b) s =
     andthen (check (op = CHR ''+'' \<or> op = CHR ''-'') AssertionFailed) (\<lambda>_.
     if vs_mode s = CompileTime then
       andthen (visit_exp a s) (\<lambda>(v, s). andthen (as_const v) (\<lambda>lhs.
       andthen (visit_exp b s) (\<lambda>(v, s). andthen (as_const v) (\<lambda>rhs.
       andthen (ct_binary (if op = CHR ''+'' then CtAdd else CtSub) lhs rhs) (\<lambda>c. Inr (VConst c, s))))))
     else
       andthen (visit_exp a (s\<lparr>vs_mode := NormalMode\<rparr>)) (\<lambda>(v, s1). andthen (to_irvalue v s1) (\<lambda>(lhs, s1).
       andthen (visit_exp b s1) (\<lambda>(v, s1). andthen (to_irvalue v s1) (\<lambda>(rhs, s1).
       andthen (add_normal op lhs rhs s1) (\<lambda>(v, s1). Inr (v, s1\<lparr>vs_mode := vs_mode s\<rparr>)))))))"
| "visit_const_index [] s = Inr ([], s)"
| "visit_const_index (e # es) s =
     andthen (visit_exp e s) (\<lambda>(v, s). andthen (as_const v) (\<lambda>c. andthen (ct_int c) (\<lambda>x.
     andthen (check (0 \<le>s x) CompileTimeValueEvalFail) (\<lambda>_.
     andthen (visit_const_index es s) (\<lambda>(xs, s). Inr (ucast x # xs, s))))))"
| "visit_index [] dims t sc s = Inr (t, sc, [], s)"
| "visit_index (e # es) dims t sc s =
     andthen (visit_index es dims t sc s) (\<lambda>(t, sc, tmp, s).
     andthen (deref_one_dim t) (\<lambda>t.
     andthen (visit_exp e s) (\<lambda>(v, s).
     andthen (to_irvalue v s) (\<lambda>(x, s).
     andthen (get_value_as IntT x s) (\<lambda>(r, s).
     Inr (t, next_step dims sc, (r, fst sc) # tmp, s))))))"
| "visit_rparams [] s = Inr ([], s)"
| "visit_rparams (ExpAsRParam e # ps) s =
     andthen (check (vs_mode s \<noteq> CompileTime) AssertionFailed) (\<lambda>_.
     andthen (visit_exp e (s\<lparr>vs_mode := NormalMode\<rparr>)) (\<lambda>(v, s1).
     andthen (to_irvalue v s1) (\<lambda>(x, s1).
     andthen (visit_rparams ps (s1\<lparr>vs_mode := vs_mode s\<rparr>)) (\<lambda>(xs, s). Inr (AVal x # xs, s)))))"
| "visit_rparams (StringAsRParam t # ps) s =
     (let (k, s) = visit_string t s in
      andthen (visit_rparams ps s) (\<lambda>(xs, s). Inr (AObj k # xs, s)))"

text \<open>Logical expressions. The operands of a comparison are visited as values, those of \<open>&&\<close> and \<open>||\<close> as
  conditions, whose open branches are filled in or passed on.\<close>

definition rel_compute :: "rel_op \<Rightarrow> binary_compute" where
  "rel_compute r = (if r = RelLT \<or> r = RelGT then LESS else LEQ)"

definition rel_reversed :: "rel_op \<Rightarrow> bool" where
  "rel_reversed r = (r = RelGT \<or> r = RelGE)"

definition compare_emit :: "bool \<Rightarrow> binary_compute \<Rightarrow> irvalue \<Rightarrow> irvalue \<Rightarrow> vis \<Rightarrow> front_error + (any_value \<times> vis)" where
  "compare_emit rv b lhs rhs s =
     (let t = join_type lhs rhs in
      andthen (get_value_as t lhs s) (\<lambda>(x, s).
      andthen (get_value_as t rhs s) (\<lambda>(y, s).
      andthen (v_new_reg s) (\<lambda>(res, s).
      andthen (if rv then emit_binary t b res y x s else emit_binary t b res x y s) (\<lambda>s.
      Inr (VIR (rvalue IntT res), s))))))"

definition as_int_const :: "any_value \<Rightarrow> front_error + w32" where
  "as_int_const v = andthen (as_const v) ct_int"

text \<open>\<open>&&\<close> and \<open>||\<close> as values: a branch around the right operand, the result by a phi function.\<close>

definition logic_first :: "bool \<Rightarrow> irvalue \<Rightarrow> vis \<Rightarrow> front_error + (reg \<times> bb_key \<times> bb_key \<times> vis)" where
  "logic_first is_and lhs s =
     andthen (get_value_as IntT lhs s) (\<lambda>(x, s).
     andthen (opt_or Undefined (vs_cur s)) (\<lambda>lhs_end.
     andthen (v_new_bb s) (\<lambda>(rhs_entry, s).
     andthen (v_new_bb s) (\<lambda>(res_entry, s).
     let i = (if is_and then BranchInstr x rhs_entry res_entry else BranchInstr x res_entry rhs_entry) in
     Inr (x, lhs_end, res_entry, (push_to lhs_end i s)\<lparr>vs_cur := Some rhs_entry\<rparr>)))))"

definition logic_second :: "reg \<Rightarrow> bb_key \<Rightarrow> bb_key \<Rightarrow> irvalue \<Rightarrow> vis \<Rightarrow> front_error + (any_value \<times> vis)" where
  "logic_second x lhs_end res_entry rhs s =
     andthen (get_value_as IntT rhs s) (\<lambda>(y, s).
     andthen (push_cur_bb (JumpInstr res_entry) s) (\<lambda>s.
     andthen (opt_or Undefined (vs_cur s)) (\<lambda>rhs_end.
     andthen (v_new_reg (s\<lparr>vs_cur := Some res_entry\<rparr>)) (\<lambda>(res, s).
     andthen (push_cur_bb (PhiInstr res [(x, lhs_end), (y, rhs_end)]) s) (\<lambda>s.
     Inr (VIR (rvalue IntT res), s))))))"

fun visit_lexp :: "lexp \<Rightarrow> vis \<Rightarrow> front_error + (any_value \<times> vis)" where
  "visit_lexp (Exp1 e) s = visit_exp e s"
| "visit_lexp (RelExp r a b) s =
     (if vs_mode s = CompileTime then
        andthen (visit_lexp a s) (\<lambda>(v, s). andthen (as_const v) (\<lambda>lhs.
        andthen (visit_lexp b s) (\<lambda>(v, s). andthen (as_const v) (\<lambda>rhs.
        let (x, y) = (if rel_reversed r then (rhs, lhs) else (lhs, rhs)) in
        andthen (ct_binary (if rel_compute r = LESS then CtLess else CtLeq) x y) (\<lambda>c. Inr (VConst c, s))))))
      else
        andthen (visit_lexp a (s\<lparr>vs_mode := NormalMode\<rparr>)) (\<lambda>(v, s1). andthen (to_irvalue v s1) (\<lambda>(lhs, s1).
        andthen (visit_lexp b s1) (\<lambda>(v, s1). andthen (to_irvalue v s1) (\<lambda>(rhs, s1).
        andthen (compare_emit (rel_reversed r) (rel_compute r) lhs rhs s1) (\<lambda>(v, s1).
        Inr (v, s1\<lparr>vs_mode := vs_mode s\<rparr>)))))))"
| "visit_lexp (EqExp eq a b) s =
     (if vs_mode s = CompileTime then
        andthen (visit_lexp a s) (\<lambda>(v, s). andthen (as_const v) (\<lambda>lhs.
        andthen (visit_lexp b s) (\<lambda>(v, s). andthen (as_const v) (\<lambda>rhs.
        andthen (ct_binary (if eq then CtEq else CtNeq) lhs rhs) (\<lambda>c. Inr (VConst c, s))))))
      else
        andthen (visit_lexp a (s\<lparr>vs_mode := NormalMode\<rparr>)) (\<lambda>(v, s1). andthen (to_irvalue v s1) (\<lambda>(lhs, s1).
        andthen (visit_lexp b s1) (\<lambda>(v, s1). andthen (to_irvalue v s1) (\<lambda>(rhs, s1).
        andthen (compare_emit False (if eq then EQ else NEQ) lhs rhs s1) (\<lambda>(v, s1).
        Inr (v, s1\<lparr>vs_mode := vs_mode s\<rparr>)))))))"
| "visit_lexp (LAndExp a b) s =
     (case vs_mode s of
        CompileTime \<Rightarrow>
          andthen (visit_lexp a s) (\<lambda>(v, s). andthen (as_int_const v) (\<lambda>x.
          andthen (visit_lexp b s) (\<lambda>(v, s). andthen (as_int_const v) (\<lambda>y.
          andthen (ct_int_op CtAnd x y) (\<lambda>c. Inr (VConst c, s))))))
      | NormalMode \<Rightarrow>
          andthen (visit_lexp a s) (\<lambda>(v, s). andthen (to_irvalue v s) (\<lambda>(lhs, s).
          andthen (logic_first True lhs s) (\<lambda>(x, lhs_end, res_entry, s).
          andthen (visit_lexp b s) (\<lambda>(v, s). andthen (to_irvalue v s) (\<lambda>(rhs, s).
          logic_second x lhs_end res_entry rhs s)))))
      | Condition \<Rightarrow>
          andthen (visit_lexp a s) (\<lambda>(v, s). andthen (to_cond_jumps v s) (\<lambda>(l, s).
          andthen (v_new_bb s) (\<lambda>(k, s).
          andthen (visit_lexp b (patch_all k (true_list l) (s\<lparr>vs_cur := Some k\<rparr>))) (\<lambda>(v, s).
          andthen (to_cond_jumps v s) (\<lambda>(r, s).
          Inr (VCond (r\<lparr>false_list := false_list r @ false_list l\<rparr>), s)))))))"
| "visit_lexp (LOrExp a b) s =
     (case vs_mode s of
        CompileTime \<Rightarrow>
          andthen (visit_lexp a s) (\<lambda>(v, s). andthen (as_int_const v) (\<lambda>x.
          andthen (visit_lexp b s) (\<lambda>(v, s). andthen (as_int_const v) (\<lambda>y.
          andthen (ct_int_op CtOr x y) (\<lambda>c. Inr (VConst c, s))))))
      | NormalMode \<Rightarrow>
          andthen (visit_lexp a s) (\<lambda>(v, s). andthen (to_irvalue v s) (\<lambda>(lhs, s).
          andthen (logic_first False lhs s) (\<lambda>(x, lhs_end, res_entry, s).
          andthen (visit_lexp b s) (\<lambda>(v, s). andthen (to_irvalue v s) (\<lambda>(rhs, s).
          logic_second x lhs_end res_entry rhs s)))))
      | Condition \<Rightarrow>
          andthen (visit_lexp a s) (\<lambda>(v, s). andthen (to_cond_jumps v s) (\<lambda>(l, s).
          andthen (v_new_bb s) (\<lambda>(k, s).
          andthen (visit_lexp b (patch_all k (false_list l) (s\<lparr>vs_cur := Some k\<rparr>))) (\<lambda>(v, s).
          andthen (to_cond_jumps v s) (\<lambda>(r, s).
          Inr (VCond (r\<lparr>true_list := true_list r @ true_list l\<rparr>), s)))))))"

definition visit_cond :: "lexp \<Rightarrow> vis \<Rightarrow> front_error + (cond_jumps \<times> vis)" where
  "visit_cond c s =
     andthen (visit_lexp c (s\<lparr>vs_mode := Condition\<rparr>)) (\<lambda>(v, s). to_cond_jumps v (s\<lparr>vs_mode := NormalMode\<rparr>))"

definition visit_const_exp :: "exp \<Rightarrow> vis \<Rightarrow> front_error + (typed_scalar \<times> vis)" where
  "visit_const_exp e s =
     andthen (check (vs_mode s = NormalMode) AssertionFailed) (\<lambda>_.
     andthen (visit_exp e (s\<lparr>vs_mode := CompileTime\<rparr>)) (\<lambda>(v, s).
     andthen (as_const v) (\<lambda>c. Inr (c, s\<lparr>vs_mode := NormalMode\<rparr>))))"

end
