(* ===== verification/VisitStmt.thy ===== *)
theory VisitStmt
  imports Visitor
begin

text \<open>
  \<open>ASTVisitor\<close> continued: initial values, declarations, statements, functions and the compile unit
  (\<open>src/ast/ast_visitor.cpp\<close>, \<open>ast_visitor.hpp\<close>).
\<close>

section \<open>Initial values\<close>

definition scalar_of_btype :: "btype \<Rightarrow> scalar_type" where
  "scalar_of_btype b = (case b of BInt \<Rightarrow> IntT | BFloat \<Rightarrow> FloatT)"

fun get_array_dims :: "exp list \<Rightarrow> vis \<Rightarrow> front_error + (mem_size list \<times> vis)" where
  "get_array_dims [] s = Inr ([], s)"
| "get_array_dims (e # es) s =
     andthen (visit_const_exp e s) (\<lambda>(c, s). andthen (ct_int c) (\<lambda>x.
     andthen (check (0 \<le>s x) NegativeArraySize) (\<lambda>_.
     andthen (get_array_dims es s) (\<lambda>(xs, s). Inr (ucast x # xs, s)))))"

text \<open>\<open>value<Scalar>()\<close> as bits.\<close>

definition const_bits :: "scalar_type \<Rightarrow> typed_scalar \<Rightarrow> front_error + w32" where
  "const_bits t c = (if t = IntT then ct_int c else Inr (ct_float c))"

definition fill :: "mem_size \<Rightarrow> mem_size \<Rightarrow> nat" where
  "fill cnt n = (if cnt < n then unat (n - cnt) else 0)"

text \<open>\<open>dfs_const_init\<close>: \<open>const_list\<close> is one call of it, \<open>const_items\<close> its loop over the children with the
  number of elements so far.\<close>

fun const_list :: "scalar_type \<Rightarrow> const_init_val list \<Rightarrow> mem_size list \<Rightarrow> w32 list \<Rightarrow> vis \<Rightarrow> front_error + (w32 list \<times> vis)"
  and const_items :: "scalar_type \<Rightarrow> const_init_val list \<Rightarrow> mem_size list \<Rightarrow> mem_size \<Rightarrow> w32 list \<Rightarrow> vis \<Rightarrow>
      front_error + (mem_size \<times> w32 list \<times> vis)" where
  "const_list t node shape result s =
     (if shape = [] then Inl InvalidInitList
      else if prod_list shape = 0 then Inr (result, s)
      else andthen (const_items t node shape 0 result s) (\<lambda>(cnt, result, s).
           Inr (result @ replicate (fill cnt (prod_list shape)) 0, s)))"
| "const_items t [] shape cnt result s = Inr (cnt, result, s)"
| "const_items t (ScalarConstInitVal e # cs) shape cnt result s =
     andthen (check (cnt + 1 \<le> prod_list shape) InvalidInitList) (\<lambda>_.
     andthen (visit_const_exp e s) (\<lambda>(c, s). andthen (const_bits t c) (\<lambda>x.
     const_items t cs shape (cnt + 1) (result @ [x]) s)))"
| "const_items t (ListConstInitVal ch # cs) shape cnt result s =
     (let child = prod_list (tl shape) in
      andthen (check (cnt mod child = 0 \<and> cnt + child \<le> prod_list shape) InvalidInitList) (\<lambda>_.
      andthen (const_list t ch (tl shape) result s) (\<lambda>(result, s).
      const_items t cs shape (cnt + child) result s)))"

definition parse_const_init :: "scalar_type \<Rightarrow> const_init_val \<Rightarrow> mem_size list \<Rightarrow> vis \<Rightarrow> front_error + (w32 list \<times> vis)" where
  "parse_const_init t root shape s =
     (case root of
        ScalarConstInitVal e \<Rightarrow>
          andthen (check (shape = []) InvalidInitList) (\<lambda>_.
          andthen (visit_const_exp e s) (\<lambda>(c, s). andthen (const_bits t c) (\<lambda>x. Inr ([x], s))))
      | ListConstInitVal ch \<Rightarrow> const_list t ch shape [] s)"

text \<open>\<open>dfs_var_init\<close>: a list that does not start at a multiple of its size counts as one element, and the
  rest of what it gave is erased.\<close>

fun var_list :: "scalar_type \<Rightarrow> init_val list \<Rightarrow> mem_size list \<Rightarrow> reg option list \<Rightarrow> vis \<Rightarrow>
      front_error + (reg option list \<times> vis)"
  and var_items :: "scalar_type \<Rightarrow> init_val list \<Rightarrow> mem_size list \<Rightarrow> mem_size \<Rightarrow> reg option list \<Rightarrow> vis \<Rightarrow>
      front_error + (mem_size \<times> reg option list \<times> vis)" where
  "var_list t node shape result s =
     (if shape = [] then Inl InvalidInitList
      else if prod_list shape = 0 then Inr (result, s)
      else andthen (var_items t node shape 0 result s) (\<lambda>(cnt, result, s).
           Inr (result @ replicate (fill cnt (prod_list shape)) None, s)))"
| "var_items t [] shape cnt result s = Inr (cnt, result, s)"
| "var_items t (ScalarInitVal e # cs) shape cnt result s =
     andthen (check (cnt + 1 \<le> prod_list shape) InvalidInitList) (\<lambda>_.
     andthen (visit_exp e s) (\<lambda>(v, s). andthen (to_irvalue v s) (\<lambda>(x, s).
     andthen (get_value_as t x s) (\<lambda>(r, s).
     var_items t cs shape (cnt + 1) (result @ [Some r]) s))))"
| "var_items t (ListInitval ch # cs) shape cnt result s =
     (let child = prod_list (tl shape) in
      andthen (check (cnt + child \<le> prod_list shape) InvalidInitList) (\<lambda>_.
      andthen (var_list t ch (tl shape) result s) (\<lambda>(result, s).
      if cnt mod child \<noteq> 0 then
        var_items t cs shape (cnt + 1) (take (length result - (unat child - 1)) result) s
      else var_items t cs shape (cnt + child) result s)))"

definition parse_var_init :: "scalar_type \<Rightarrow> init_val \<Rightarrow> mem_size list \<Rightarrow> vis \<Rightarrow> front_error + (reg option list \<times> vis)" where
  "parse_var_init t root shape s =
     (case root of
        ScalarInitVal e \<Rightarrow>
          andthen (check (shape = []) InvalidInitList) (\<lambda>_.
          andthen (visit_exp e s) (\<lambda>(v, s). andthen (to_irvalue v s) (\<lambda>(x, s).
          andthen (get_value_as t x s) (\<lambda>(r, s). Inr ([Some r], s)))))
      | ListInitval ch \<Rightarrow> var_list t ch shape [] s)"

text \<open>\<open>gen_var_init_ir\<close>: the store of one element; without \<open>ignore_zero\<close> a missing element is stored as
  zero, but its address is computed either way.\<close>

definition store_element :: "reg \<Rightarrow> nat \<Rightarrow> reg \<Rightarrow> vis \<Rightarrow> front_error + vis" where
  "store_element start i x s =
     (if i = 0 then push_cur_bb (StoreInstr start x 0 None) s
      else
        andthen (v_new_reg s) (\<lambda>(index, s).
        andthen (v_new_reg s) (\<lambda>(addr, s).
        push_all [LoadConstI index (of_nat i), ArrayIndex addr start index 4 (-1), StoreInstr addr x 0 None] s)))"

fun store_elements :: "reg \<Rightarrow> reg option \<Rightarrow> nat \<Rightarrow> reg option list \<Rightarrow> vis \<Rightarrow> front_error + vis" where
  "store_elements start zero i [] s = Inr s"
| "store_elements start zero i (x # xs) s =
     andthen (case (x, zero) of
         (Some r, _) \<Rightarrow> store_element start i r s
       | (None, Some z) \<Rightarrow> store_element start i z s
       | (None, None) \<Rightarrow> Inr s) (store_elements start zero (i + 1) xs)"

definition gen_var_init_ir :: "reg option list \<Rightarrow> obj_key \<Rightarrow> bool \<Rightarrow> vis \<Rightarrow> front_error + vis" where
  "gen_var_init_ir init k ignore_zero s =
     andthen (v_new_reg s) (\<lambda>(start, s).
     if ignore_zero then
       andthen (push_cur_bb (LoadAddr start k) s) (store_elements start None 0 init)
     else
       andthen (v_new_reg s) (\<lambda>(zero, s).
       andthen (push_all [LoadAddr start k, LoadConstI zero 0] s) (store_elements start (Some zero) 0 init)))"

section \<open>Declarations\<close>

definition in_local :: "vis \<Rightarrow> string \<Rightarrow> bool" where
  "in_local s name = (case vs_local s of [] \<Rightarrow> False | t # _ \<Rightarrow> t name \<noteq> None)"

definition set_local :: "(var_table \<Rightarrow> var_table) \<Rightarrow> vis \<Rightarrow> vis" where
  "set_local g s = s\<lparr>vs_local := (case vs_local s of [] \<Rightarrow> [] | t # ts \<Rightarrow> g t # ts)\<rparr>"

text \<open>A new object in the scope of the current function or the global one, and a change of an object.\<close>

definition new_local_obj :: "string \<Rightarrow> vis \<Rightarrow> obj_key \<times> vis" where
  "new_local_obj name s =
     (let k = vs_next_obj s in
      (k, s\<lparr>vs_next_obj := k + 1,
            vs_func := map_option (\<lambda>f. f\<lparr>nf_scope := new_mem_object (nf_scope f) k name\<rparr>) (vs_func s)\<rparr>))"

definition new_global_obj :: "string \<Rightarrow> vis \<Rightarrow> obj_key \<times> vis" where
  "new_global_obj name s =
     (let k = vs_next_obj s in (k, s\<lparr>vs_next_obj := k + 1, vs_scope := new_mem_object (vs_scope s) k name\<rparr>))"

definition edit_obj :: "obj_key \<Rightarrow> (mem_object \<Rightarrow> mem_object) \<Rightarrow> vis \<Rightarrow> vis" where
  "edit_obj k g s =
     s\<lparr>vs_scope := upd_obj k g (vs_scope s),
       vs_func := map_option (\<lambda>f. f\<lparr>nf_scope := upd_obj k g (nf_scope f)\<rparr>) (vs_func s)\<rparr>"

text \<open>\<open>static_cast<int>(i)\<close> as a size again; at \<open>float\<close> a size goes through that type.\<close>

definition int_dim :: "mem_size \<Rightarrow> nat" where
  "int_dim d = unat (scast (ucast d :: w32) :: mem_size)"

definition float_dim :: "mem_size \<Rightarrow> nat" where
  "float_dim d =
     (case f_decode (f_round False (unat d) 0) of
        Fin _ m e \<Rightarrow> (if 0 \<le> e then m * 2 ^ nat e else m div 2 ^ nat (- e)) mod 2 ^ 64
      | _ \<Rightarrow> 0)"

definition sized_object :: "scalar_type \<Rightarrow> mem_size \<Rightarrow> mem_object \<Rightarrow> mem_object" where
  "sized_object t sz m = m\<lparr>mo_type := t, mo_size := unat sz\<rparr>"

definition add_dims :: "nat list \<Rightarrow> mem_object \<Rightarrow> mem_object" where
  "add_dims ds m = m\<lparr>mo_dims := mo_dims m @ ds\<rparr>"

text \<open>The stores of a local constant: every element, in order.\<close>

fun store_consts :: "scalar_type \<Rightarrow> reg \<Rightarrow> nat \<Rightarrow> w32 list \<Rightarrow> vis \<Rightarrow> front_error + vis" where
  "store_consts t start i [] s = Inr s"
| "store_consts t start i (x # xs) s =
     andthen (v_new_reg s) (\<lambda>(temp, s).
     andthen (push_cur_bb (if t = IntT then LoadConstI temp x else LoadConstF temp x) s) (\<lambda>s.
     andthen
       (if i = 0 then push_cur_bb (StoreInstr start temp 0 None) s
        else
          andthen (v_new_reg s) (\<lambda>(index, s).
          andthen (push_cur_bb (LoadConstI index (of_nat i)) s) (\<lambda>s.
          andthen (v_new_reg s) (\<lambda>(addr, s).
          push_all [ArrayIndex addr start index 4 (-1), StoreInstr addr temp 0 None] s))))
       (store_consts t start (i + 1) xs)))"

definition make_init :: "scalar_type \<Rightarrow> w32 list \<Rightarrow> const_init" where
  "make_init t xs = (if t = IntT then CInts xs else CFloats xs)"

text \<open>\<open>visitConstDefGeneric\<close>. (A local object is declared \<open>Int\<close> whatever its type.)\<close>

definition visit_const_def :: "const_def \<Rightarrow> vis \<Rightarrow> front_error + vis" where
  "visit_const_def d s =
     (case d of ConstDef name es iv \<Rightarrow>
        andthen (get_array_dims es s) (\<lambda>(dims, s).
        let sc = vs_scalar s;
            t = (new_type sc)\<lparr>ty_const := True, ty_dims := dims\<rparr> in
        andthen (parse_const_init sc iv dims s) (\<lambda>(init, s).
        andthen (count_elements t) (\<lambda>n.
        andthen (check (length init = unat n) AssertionFailed) (\<lambda>_.
        andthen (type_size t) (\<lambda>sz.
        if vs_func s \<noteq> None then
          andthen (check (\<not> in_local s name) (DuplicateLocalName name)) (\<lambda>_.
          let (k, s) = new_local_obj name s;
              s = edit_obj k (sized_object IntT sz) s in
          andthen (v_new_reg s) (\<lambda>(start, s).
          andthen (push_cur_bb (LoadAddr start k) s) (\<lambda>s.
          andthen (store_consts sc start 0 init s) (\<lambda>s.
          Inr (edit_obj k (add_dims (map (if sc = IntT then int_dim else float_dim) dims))
                 (set_local (register_const name (Some k) t (make_init sc init)) s))))))
        else
          andthen (check (vs_global s name = None \<and> vs_functions s name = None) (DuplicateGlobalName name)) (\<lambda>_.
          let (k, s) = new_global_obj name s in
          Inr (edit_obj k (\<lambda>m. add_dims (map (if sc = IntT then int_dim else float_dim) dims) (mo_init_words m sc init (unat sz)))
                 (s\<lparr>vs_global := register_const name (Some k) t (make_init sc init) (vs_global s)\<rparr>)))))))))"

definition visit_var_def :: "var_def \<Rightarrow> vis \<Rightarrow> front_error + vis" where
  "visit_var_def d s =
     (case d of
        UninitVarDef name es \<Rightarrow>
          andthen (get_array_dims es s) (\<lambda>(dims, s).
          let t = (new_type (vs_scalar s))\<lparr>ty_dims := dims\<rparr> in
          andthen
            (if vs_func s \<noteq> None then
               andthen (check (\<not> in_local s name) (DuplicateLocalName name)) (\<lambda>_.
               let (k, s) = new_local_obj name s in Inr (k, set_local (register_var name (Some k) t) s))
             else
               andthen (check (vs_global s name = None \<and> vs_functions s name = None) (DuplicateGlobalName name)) (\<lambda>_.
               let (k, s) = new_global_obj name s in
               Inr (k, s\<lparr>vs_global := register_var name (Some k) t (vs_global s)\<rparr>))) (\<lambda>(k, s).
          andthen (type_size t) (\<lambda>sz.
          Inr (edit_obj k (\<lambda>m. add_dims (map int_dim dims) (sized_object (vs_scalar s) sz m)) s))))
      | InitVarDef name es iv \<Rightarrow>
          andthen (get_array_dims es s) (\<lambda>(dims, s).
          let t = (new_type (vs_scalar s))\<lparr>ty_dims := dims\<rparr> in
          andthen (count_elements t) (\<lambda>n.
          andthen
            (if vs_func s \<noteq> None then
               andthen (check (\<not> in_local s name) (DuplicateLocalName name)) (\<lambda>_.
               let (k, s) = new_local_obj name s; s = set_local (register_var name (Some k) t) s in
               andthen (parse_var_init (ty_scalar t) iv dims s) (\<lambda>(init, s).
               andthen (check (length init = unat n) AssertionFailed) (\<lambda>_.
               andthen (gen_var_init_ir init k False s) (\<lambda>s. Inr (k, s)))))
             else
               andthen (check (vs_global s name = None \<and> vs_functions s name = None) (DuplicateGlobalName name)) (\<lambda>_.
               let (k, s) = new_global_obj name s;
                   s = s\<lparr>vs_global := register_var name (Some k) t (vs_global s),
                         vs_cur := Some (vs_init_bb s), vs_in_init := True\<rparr> in
               andthen (parse_var_init (ty_scalar t) iv dims s) (\<lambda>(init, s).
               andthen (check (length init = unat n) AssertionFailed) (\<lambda>_.
               andthen (gen_var_init_ir init k True s) (\<lambda>s.
               andthen (opt_or Undefined (vs_cur s)) (\<lambda>b.
               Inr (k, s\<lparr>vs_init_bb := b, vs_cur := None, vs_in_init := False\<rparr>)))))))
          (\<lambda>(k, s).
          andthen (type_size t) (\<lambda>sz.
          Inr (edit_obj k (\<lambda>m. add_dims (map int_dim dims) (sized_object (vs_scalar s) sz m)) s))))))"

fun visit_list :: "('a \<Rightarrow> vis \<Rightarrow> front_error + vis) \<Rightarrow> 'a list \<Rightarrow> vis \<Rightarrow> front_error + vis" where
  "visit_list f [] s = Inr s"
| "visit_list f (x # xs) s = andthen (f x s) (visit_list f xs)"

definition visit_decl :: "decl \<Rightarrow> vis \<Rightarrow> front_error + vis" where
  "visit_decl d s =
     (case d of
        ConstDecl b ds \<Rightarrow> visit_list visit_const_def ds (s\<lparr>vs_scalar := scalar_of_btype b\<rparr>)
      | VarDecl b ds \<Rightarrow> visit_list visit_var_def ds (s\<lparr>vs_scalar := scalar_of_btype b\<rparr>))"

section \<open>Statements\<close>

definition finish_assign :: "irvalue \<Rightarrow> irvalue \<Rightarrow> vis \<Rightarrow> front_error + vis" where
  "finish_assign lhs rhs s =
     andthen (check (assignable lhs) AssignmentTypeError) (\<lambda>_.
     andthen (check (check_assign (iv_type lhs) (iv_type rhs)) AssignmentTypeError) (\<lambda>_.
     andthen (get_value_as (ty_scalar (iv_type lhs)) rhs s) (\<lambda>(x, s).
     push_cur_bb (StoreInstr (iv_reg lhs) x 0 None) s)))"

text \<open>A jump out of the current block; what follows goes to a block that nothing reaches.\<close>

definition leave_block :: "bb_key \<Rightarrow> vis \<Rightarrow> front_error + vis" where
  "leave_block t s =
     andthen (push_cur_bb (JumpInstr t) s) (\<lambda>s. andthen (v_new_bb s) (\<lambda>(k, s). Inr (s\<lparr>vs_cur := Some k\<rparr>)))"

definition visit_return :: "exp option \<Rightarrow> vis \<Rightarrow> front_error + vis" where
  "visit_return eo s =
     andthen (check (vs_mode s = NormalMode) AssertionFailed) (\<lambda>_.
     andthen (opt_or Undefined (vs_functions s (vs_func_name s))) (\<lambda>fe.
     let t = fi_return (fe_interface fe) in
     case eo of
       Some e \<Rightarrow>
         andthen (check (t \<noteq> Void) InvalidReturn) (\<lambda>_.
         andthen (visit_exp e s) (\<lambda>(v, s).
         andthen (to_irvalue v s) (\<lambda>(x, s).
         andthen (get_value_as t x s) (\<lambda>(r, s).
         andthen (opt_or Undefined (vs_cur s)) (\<lambda>k.
         andthen (push_cur_bb (JumpInstr (vs_return_bb s)) s) (\<lambda>s.
         andthen (v_new_bb (s\<lparr>vs_return_value := vs_return_value s @ [(r, k)]\<rparr>)) (\<lambda>(b, s).
         Inr (s\<lparr>vs_cur := Some b\<rparr>))))))))
     | None \<Rightarrow>
         andthen (check (t = Void) InvalidReturn) (\<lambda>_. leave_block (vs_return_bb s) s)))"

definition enter_scope :: "bb_key \<Rightarrow> vis \<Rightarrow> vis" where
  "enter_scope k s = s\<lparr>vs_cur := Some k, vs_local := Map.empty # vs_local s\<rparr>"

definition leave_scope :: "vis \<Rightarrow> vis" where
  "leave_scope s = s\<lparr>vs_local := tl (vs_local s)\<rparr>"

fun visit_stmt :: "stmt \<Rightarrow> vis \<Rightarrow> front_error + vis"
  and visit_items :: "block_item list \<Rightarrow> vis \<Rightarrow> front_error + vis" where
  "visit_stmt (Assignment name es e) s =
     andthen (check (vs_mode s = NormalMode) AssertionFailed) (\<lambda>_.
     andthen (visit_exp (LVal name es) s) (\<lambda>(v, s). andthen (as_irvalue v) (\<lambda>lhs.
     andthen (visit_exp e s) (\<lambda>(v, s). andthen (to_irvalue v s) (\<lambda>(rhs, s).
     finish_assign lhs rhs s)))))"
| "visit_stmt (ExpStmt eo) s =
     (case eo of None \<Rightarrow> Inr s | Some e \<Rightarrow> andthen (visit_exp e s) (\<lambda>(v, s). Inr s))"
| "visit_stmt (BlockStmt is) s =
     andthen (visit_items is (s\<lparr>vs_local := Map.empty # vs_local s\<rparr>)) (\<lambda>s. Inr (leave_scope s))"
| "visit_stmt (IfStmt1 c t) s =
     andthen (visit_cond c s) (\<lambda>(cond, s).
     andthen (v_new_bb s) (\<lambda>(true_entry, s).
     andthen (visit_stmt t (enter_scope true_entry s)) (\<lambda>s.
     andthen (opt_or Undefined (vs_cur s)) (\<lambda>true_end.
     andthen (v_new_bb s) (\<lambda>(out, s).
     let s = push_to true_end (JumpInstr out) ((leave_scope s)\<lparr>vs_cur := Some out\<rparr>) in
     Inr (patch_all out (false_list cond) (patch_all true_entry (true_list cond) s)))))))"
| "visit_stmt (IfStmt2 c t e) s =
     andthen (visit_cond c s) (\<lambda>(cond, s).
     andthen (v_new_bb s) (\<lambda>(true_entry, s).
     andthen (visit_stmt t (enter_scope true_entry s)) (\<lambda>s.
     andthen (opt_or Undefined (vs_cur s)) (\<lambda>true_end.
     andthen (v_new_bb (leave_scope s)) (\<lambda>(false_entry, s).
     andthen (visit_stmt e (enter_scope false_entry s)) (\<lambda>s.
     andthen (opt_or Undefined (vs_cur s)) (\<lambda>false_end.
     andthen (v_new_bb s) (\<lambda>(out, s).
     let s = push_to true_end (JumpInstr out) ((leave_scope s)\<lparr>vs_cur := Some out\<rparr>);
         s = push_to false_end (JumpInstr out) s in
     Inr (patch_all false_entry (false_list cond) (patch_all true_entry (true_list cond) s))))))))))"
| "visit_stmt (WhileStmt c b) s =
     andthen (v_new_bb s) (\<lambda>(cond_entry, s).
     andthen (push_cur_bb (JumpInstr cond_entry) s) (\<lambda>s.
     andthen (visit_cond c (s\<lparr>vs_cur := Some cond_entry\<rparr>)) (\<lambda>(cond, s).
     andthen (v_new_bb s) (\<lambda>(out, s).
     andthen (v_new_bb s) (\<lambda>(body_entry, s).
     andthen (v_new_bb s) (\<lambda>(jump_back, s).
     andthen (visit_stmt b ((enter_scope body_entry s)
         \<lparr>vs_break := vs_break s @ [out], vs_continue := vs_continue s @ [jump_back]\<rparr>)) (\<lambda>s.
     andthen (opt_or Undefined (vs_cur s)) (\<lambda>body_end.
     let s = s\<lparr>vs_break := butlast (vs_break s), vs_continue := butlast (vs_continue s)\<rparr>;
         s = push_to body_end (JumpInstr jump_back) s;
         s = (leave_scope (push_to jump_back (JumpInstr cond_entry) s))\<lparr>vs_cur := Some out\<rparr> in
     Inr (patch_all out (false_list cond) (patch_all body_entry (true_list cond) s))))))))))"
| "visit_stmt BreakStmt s =
     andthen (check (vs_break s \<noteq> []) InvalidBreak) (\<lambda>_. leave_block (last (vs_break s)) s)"
| "visit_stmt ContinueStmt s =
     andthen (check (vs_continue s \<noteq> []) InvalidContinue) (\<lambda>_. leave_block (last (vs_continue s)) s)"
| "visit_stmt (ReturnStmt eo) s = visit_return eo s"
| "visit_items [] s = Inr s"
| "visit_items (DeclItem d # is) s = andthen (visit_decl d s) (visit_items is)"
| "visit_items (StmtItem t # is) s = andthen (visit_stmt t s) (visit_items is)"

section \<open>Functions and the compile unit\<close>

definition empty_scope :: "string \<Rightarrow> bool \<Rightarrow> mem_scope" where
  "empty_scope name g =
     \<lparr>ms_name = name, ms_global = g, ms_objects = [], ms_array_args = Map.empty, ms_array_arg_id = Map.empty, ms_size = 0\<rparr>"

definition empty_func :: "string \<Rightarrow> nfunc" where
  "empty_func name =
     \<lparr>nf_name = name, nf_ignore_return_value = False, nf_scope = empty_scope name False, nf_entry = 0, nf_bbs = [],
      nf_max_reg_id = 0, nf_max_bb_id = 0, nf_reg_names = [''?''], nf_arg_types = []\<rparr>"

fun visit_params :: "func_param list \<Rightarrow> vis \<Rightarrow> front_error + ((string \<times> vtype) list \<times> vis)" where
  "visit_params [] s = Inr ([], s)"
| "visit_params (FuncFParam b name arr es # ps) s =
     andthen (get_array_dims es s) (\<lambda>(dims, s).
     andthen (visit_params ps s) (\<lambda>(xs, s).
     Inr ((name, (new_type (scalar_of_btype b))\<lparr>ty_omit := arr, ty_dims := dims\<rparr>) # xs, s)))"

definition upd_func :: "(nfunc \<Rightarrow> nfunc) \<Rightarrow> vis \<Rightarrow> vis" where
  "upd_func g s = s\<lparr>vs_func := map_option g (vs_func s)\<rparr>"

text \<open>Parameter \<open>i\<close>: an array stays an argument with an object that stands for it, a scalar is stored
  to an object of its own.\<close>

definition array_param :: "nat \<Rightarrow> string \<Rightarrow> vtype \<Rightarrow> vis \<Rightarrow> front_error + vis" where
  "array_param i name t s =
     (let (k, s) = new_local_obj (''arg_'' @ name) s;
          s = edit_obj k (\<lambda>m. add_dims ((2 ^ 64 - 1) # map int_dim (ty_dims t)) (m\<lparr>mo_size := 0, mo_type := ty_scalar t, mo_arg := True\<rparr>)) s in
      andthen (opt_or Undefined (vs_func s)) (\<lambda>f.
      andthen (opt_or AssertionFailed (ms_set_arg (nf_scope f) (int i) k)) (\<lambda>sc.
      let s = upd_func (\<lambda>f. f\<lparr>nf_scope := sc, nf_arg_types := nf_arg_types f @ [IntT]\<rparr>) s in
      Inr (set_local (\<lambda>vt. (register_var name None t vt)
             (name \<mapsto> \<lparr>ve_obj = None, ve_type = t, ve_arg_id = int i, ve_const_init = empty_init (ty_scalar t)\<rparr>)) s))))"

definition scalar_param :: "nat \<Rightarrow> string \<Rightarrow> vtype \<Rightarrow> vis \<Rightarrow> front_error + vis" where
  "scalar_param i name t s =
     (let (k, s) = new_local_obj name s in
      andthen (type_size t) (\<lambda>sz.
      let s = set_local (register_var name (Some k) t) (edit_obj k (sized_object (ty_scalar t) sz) s) in
      andthen (v_new_reg s) (\<lambda>(x, s).
      andthen (v_new_reg s) (\<lambda>(addr, s).
      let a = (if ty_scalar t = IntT then IntT else FloatT) in
      andthen (push_cur_bb (LoadArg a x (int i)) s) (\<lambda>s.
      push_all [LoadAddr addr k, StoreInstr addr x 0 None] (upd_func (\<lambda>f. f\<lparr>nf_arg_types := nf_arg_types f @ [a]\<rparr>) s))))))"

fun declare_params :: "nat \<Rightarrow> (string \<times> vtype) list \<Rightarrow> vis \<Rightarrow> front_error + vis" where
  "declare_params i [] s = Inr s"
| "declare_params i ((name, t) # ps) s =
     andthen (if is_array t then array_param i name t s else scalar_param i name t s) (declare_params (i + 1) ps)"

definition return_type :: "func_type \<Rightarrow> scalar_type" where
  "return_type ft = (case ft of FVoid \<Rightarrow> Void | FInt \<Rightarrow> IntT | FFloat \<Rightarrow> FloatT)"

text \<open>The end of a function: the fall-through returns zero, and the return block merges the values.\<close>

definition finish_func :: "func_type \<Rightarrow> vis \<Rightarrow> front_error + vis" where
  "finish_func ft s =
     andthen (opt_or AssertionFailed (vs_cur s)) (\<lambda>k.
     if ft \<noteq> FVoid then
       andthen (v_new_reg s) (\<lambda>(zero, s).
       andthen (push_cur_bb (LoadConstI zero 0) s) (\<lambda>s.
       andthen
         (if ft = FFloat then
            andthen (v_new_reg s) (\<lambda>(tmp, s). andthen (push_cur_bb (UnaryOpI tmp zero I2F) s) (\<lambda>s. Inr (tmp, s)))
          else Inr (zero, s)) (\<lambda>(zero, s).
       andthen (push_cur_bb (JumpInstr (vs_return_bb s)) s) (\<lambda>s.
       let uses = vs_return_value s @ [(zero, k)] in
       andthen (v_new_reg s) (\<lambda>(r, s).
       Inr (push_to (vs_return_bb s) (ReturnInstr (return_type ft) r False)
              (push_to (vs_return_bb s) (PhiInstr r uses) s)))))))
     else
       andthen (push_cur_bb (JumpInstr (vs_return_bb s)) s) (\<lambda>s.
       andthen (v_new_reg s) (\<lambda>(r, s).
       Inr (push_to (vs_return_bb s) (ReturnInstr IntT r True) (push_to (vs_return_bb s) (LoadConstI r 0) s)))))"

text \<open>\<open>new_NormalFunc\<close> of a name that is in use destroys the function that has it, which \<open>_funcs\<close> still
  lists.\<close>

definition visit_func_def :: "func_def \<Rightarrow> vis \<Rightarrow> front_error + vis" where
  "visit_func_def d s =
     (case d of FuncDef ft name ps body \<Rightarrow>
        andthen (visit_params ps s) (\<lambda>(params, s).
        andthen (check (name \<notin> nf_name ` set (vs_init s # vs_done s)) Undefined) (\<lambda>_.
        let s = s\<lparr>vs_func := Some (empty_func name),
                  vs_functions := register_func name (NormalF name)
                    \<lparr>fi_variadic = False, fi_return = return_type ft, fi_args = map (\<lambda>p. PType (snd p)) params\<rparr> (vs_functions s)\<rparr> in
        andthen (v_new_bb s) (\<lambda>(entry, s).
        let s = (upd_func (\<lambda>f. f\<lparr>nf_entry := entry\<rparr>) s)\<lparr>vs_cur := Some entry, vs_local := [Map.empty]\<rparr> in
        andthen
          (if name = ''main'' then
             andthen (v_new_reg s) (\<lambda>(r, s).
             andthen (push_cur_bb (CallInstr r (NormalF (nf_name (vs_init s))) [] Void False False) s) (\<lambda>s.
             andthen (check (ft \<noteq> FVoid) InvalidMainFuncInterface) (\<lambda>_.
             andthen (check (params = []) InvalidMainFuncInterface) (\<lambda>_. Inr (s\<lparr>vs_found_main := True\<rparr>)))))
           else Inr s) (\<lambda>s.
        andthen (v_new_bb s) (\<lambda>(ret, s).
        andthen (declare_params 0 params (s\<lparr>vs_return_bb := ret\<rparr>)) (\<lambda>s.
        andthen (visit_items body (s\<lparr>vs_func_name := name\<rparr>)) (\<lambda>s.
        andthen (finish_func ft s) (\<lambda>s.
        andthen (opt_or Undefined (vs_func s)) (\<lambda>f.
        Inr (s\<lparr>vs_done := vs_done s @ [f], vs_func := None, vs_cur := None, vs_return_bb := 0, vs_local := [],
               vs_return_value := []\<rparr>)))))))))))"

definition visit_top :: "top_item \<Rightarrow> vis \<Rightarrow> front_error + vis" where
  "visit_top t s = (case t of TopDecl d \<Rightarrow> visit_decl d s | TopFunc d \<Rightarrow> visit_func_def d s)"

text \<open>\<open>register_lib_functions\<close>.\<close>

definition lib_interface :: "scalar_type \<Rightarrow> param_type list \<Rightarrow> bool \<Rightarrow> func_interface" where
  "lib_interface t ps v = \<lparr>fi_variadic = v, fi_return = t, fi_args = ps\<rparr>"

definition lib_interfaces :: "(string \<times> func_interface) list" where
  "lib_interfaces =
     (let i = PType (new_type IntT); f = PType (new_type FloatT);
          ia = PType (unknown_length_array IntT); fa = PType (unknown_length_array FloatT) in
      [(''getint'', lib_interface IntT [] False), (''getch'', lib_interface IntT [] False),
       (''getfloat'', lib_interface FloatT [] False), (''getarray'', lib_interface IntT [ia] False),
       (''getfarray'', lib_interface IntT [fa] False), (''putint'', lib_interface Void [i] False),
       (''putch'', lib_interface Void [i] False), (''putfloat'', lib_interface Void [f] False),
       (''putarray'', lib_interface Void [i, ia] False), (''putfarray'', lib_interface Void [i, fa] False),
       (''putf'', lib_interface Void [PString] True), (''starttime'', lib_interface Void [] False),
       (''stoptime'', lib_interface Void [] False)])"

definition lib_table :: func_table where
  "lib_table = map_of (map (\<lambda>(n, i). (n, \<lparr>fe_func = LibF n, fe_interface = i\<rparr>)) lib_interfaces)"

text \<open>The compile unit as its constructor leaves it: \<open>stdin\<close> and \<open>stdout\<close> in the global scope.\<close>

definition initial_scope :: "mem_scope option" where
  "initial_scope =
     do { let sc = new_mem_object (new_mem_object (empty_scope ''global'' True) 1 ''stdin'') 2 ''stdout'';
          sc1 \<leftarrow> ms_set_arg sc 0 1;
          ms_set_arg sc1 1 2 }"

definition initial_state :: "mem_scope \<Rightarrow> vis" where
  "initial_state sc =
     \<lparr>vs_mode = NormalMode, vs_init = (new_bb 1 ''BB'' (empty_func ''.init''))\<lparr>nf_entry := 1\<rparr>, vs_init_bb = 1,
      vs_functions = lib_table, vs_global = Map.empty, vs_strings = 0, vs_scope = sc, vs_done = [],
      vs_func_name = [], vs_func = None, vs_cur = None, vs_return_bb = 0, vs_return_value = [], vs_local = [],
      vs_in_init = False, vs_found_main = False, vs_break = [], vs_continue = [], vs_scalar = IntT,
      vs_next_bb = 2, vs_next_obj = 3\<rparr>"

definition finish_unit :: "vis \<Rightarrow> compile_unit" where
  "finish_unit s =
     (let (r, f) = new_reg (vs_init s);
          f = update_bb (vs_init_bb s) (bb_push (ReturnInstr IntT r True)) (update_bb (vs_init_bb s) (bb_push (LoadConstI r 0)) f)
      in \<lparr>cu_scope = vs_scope s, cu_funcs = f # vs_done s, cu_lib_funcs = lib_funcs\<rparr>)"

text \<open>\<open>visitCompUnit\<close>, and what \<open>main\<close> makes of its result.\<close>

definition visit_comp_unit :: "top_item list \<Rightarrow> front_error + (bool \<times> compile_unit)" where
  "visit_comp_unit ts =
     andthen (opt_or AssertionFailed initial_scope) (\<lambda>sc.
     andthen (visit_list visit_top ts (initial_state sc)) (\<lambda>s.
     Inr (vs_found_main s, finish_unit s)))"

definition front_end :: "top_item list \<Rightarrow> front_error + compile_unit" where
  "front_end ts =
     andthen (visit_comp_unit ts) (\<lambda>(found, c). if found then Inr c else Inl MainFuncNotFound)"

end
