(* ===== verification/FrontFacts.thy ===== *)
theory FrontFacts
  imports VisitStmt
begin

text \<open>
  What the front end builds is well formed. The invariant of a function under construction: its open blocks
  (\<open>O\<close>) hold no control instruction, every other block ends with its only one; targets are blocks of the
  function, but for the branch targets still to be filled in (\<open>J\<close>); every register is defined at most once;
  what an instruction refers to exists.
\<close>

section \<open>Well-formed functions\<close>

definition block_keys :: "nfunc \<Rightarrow> bb_key set" where
  "block_keys f = bb_key ` set (nf_bbs f)"

definition closed_block :: "instr list \<Rightarrow> bool" where
  "closed_block is = (is \<noteq> [] \<and> is_control (last is) \<and> (\<forall>i\<in>set (butlast is). \<not> is_control i))"

definition func_defs :: "bb list \<Rightarrow> reg list" where
  "func_defs bs = concat (map (\<lambda>b. List.map_filter def_of (bb_instrs b)) bs)"

text \<open>The registers an instruction reads are registers of the function; a call may pass the padding
  \<open>Reg{}\<close>.\<close>

definition uses_ok :: "reg \<Rightarrow> instr \<Rightarrow> bool" where
  "uses_ok M i =
     (case i of
        CallInstr d g as t nl ns \<Rightarrow> \<forall>(r, ty)\<in>set as. 1 \<le> r \<and> r \<le> M \<or> r = 0 \<and> ty = FloatT
      | _ \<Rightarrow> \<forall>r\<in>set (uses_of i). 1 \<le> r \<and> r \<le> M)"

definition refs_ok :: "func_ref set \<Rightarrow> obj_key set \<Rightarrow> bb_key set \<Rightarrow> instr \<Rightarrow> bool" where
  "refs_ok A K B i =
     (case i of
        LoadAddr d k \<Rightarrow> k \<in> K
      | CallInstr d g as t nl ns \<Rightarrow> g \<in> A
      | PhiInstr d us \<Rightarrow> snd ` set us \<subseteq> B
      | _ \<Rightarrow> True)"

definition instr_ok :: "func_ref set \<Rightarrow> obj_key set \<Rightarrow> reg \<Rightarrow> bb_key set \<Rightarrow> instr \<Rightarrow> bool" where
  "instr_ok A K M B i = ((\<forall>d. def_of i = Some d \<longrightarrow> 1 \<le> d \<and> d \<le> M) \<and> uses_ok M i \<and> refs_ok A K B i)"

definition targets_at :: "bb_key set \<Rightarrow> slot set \<Rightarrow> bb_key \<Rightarrow> nat \<Rightarrow> instr \<Rightarrow> bool" where
  "targets_at B J k n i =
     (case i of
        JumpInstr t \<Rightarrow> t \<in> B
      | BranchInstr c t1 t0 \<Rightarrow> (t1 \<in> B \<or> (k, n, True) \<in> J) \<and> (t0 \<in> B \<or> (k, n, False) \<in> J)
      | _ \<Rightarrow> True)"

definition fn_ok :: "func_ref set \<Rightarrow> obj_key set \<Rightarrow> bb_key \<Rightarrow> bb_key set \<Rightarrow> slot set \<Rightarrow> nfunc \<Rightarrow> bool" where
  "fn_ok A K N Op J f =
     (distinct (map bb_key (nf_bbs f)) \<and> (\<forall>k\<in>block_keys f. k < N) \<and> Op \<subseteq> block_keys f \<and>
      (\<forall>p\<in>J. fst p \<in> block_keys f - Op) \<and>
      (\<forall>b\<in>set (nf_bbs f). if bb_key b \<in> Op then \<forall>i\<in>set (bb_instrs b). \<not> is_control i else closed_block (bb_instrs b)) \<and>
      (\<forall>b\<in>set (nf_bbs f). \<forall>i\<in>set (bb_instrs b). instr_ok A K (nf_max_reg_id f) (block_keys f) i) \<and>
      (\<forall>b\<in>set (nf_bbs f). \<forall>n<length (bb_instrs b). targets_at (block_keys f) J (bb_key b) n (bb_instrs b ! n)) \<and>
      distinct (func_defs (nf_bbs f)) \<and> 0 \<le> nf_max_reg_id f)"

text \<open>A register that is taken but not defined yet.\<close>

definition fresh_in :: "nfunc \<Rightarrow> reg \<Rightarrow> bool" where
  "fresh_in f r = (1 \<le> r \<and> r \<le> nf_max_reg_id f \<and> r \<notin> set (func_defs (nf_bbs f)))"

lemma instr_ok_mono:
  assumes "instr_ok A K M B i" and "A \<subseteq> A'" and "K \<subseteq> K'" and "M \<le> M'" and "B \<subseteq> B'"
  shows "instr_ok A' K' M' B' i"
  using assms by (cases i) (fastforce simp: instr_ok_def uses_ok_def refs_ok_def split: option.splits)+

lemma targets_at_mono: "targets_at B J k n i \<Longrightarrow> B \<subseteq> B' \<Longrightarrow> J \<subseteq> J' \<Longrightarrow> targets_at B' J' k n i"
  by (auto simp: targets_at_def split: instr.splits)

lemma fn_ok_mono:
  assumes "fn_ok A K N Op J f" and "A \<subseteq> A'" and "K \<subseteq> K'" and "N \<le> N'"
  shows "fn_ok A' K' N' Op J f"
  using assms instr_ok_mono [of A K "nf_max_reg_id f" "block_keys f" _ A' K' "nf_max_reg_id f" "block_keys f"]
  unfolding fn_ok_def by fastforce

lemma func_defs_range:
  assumes "fn_ok A K N Op J f" and "d \<in> set (func_defs (nf_bbs f))"
  shows "1 \<le> d \<and> d \<le> nf_max_reg_id f"
  using assms unfolding fn_ok_def func_defs_def map_filter_def instr_ok_def by fastforce

subsection \<open>New registers and blocks\<close>

lemma fn_ok_new_reg:
  assumes "fn_ok A K N Op J f" and "new_reg f = (r, f')"
  shows "fn_ok A K N Op J f'" and "fresh_in f' r" and "fresh_in f x \<Longrightarrow> fresh_in f' x \<and> x \<noteq> r"
    and "nf_max_reg_id f' = nf_max_reg_id f + 1" and "nf_bbs f' = nf_bbs f" and "r = nf_max_reg_id f + 1"
proof -
  have f': "nf_max_reg_id f' = nf_max_reg_id f + 1" "nf_bbs f' = nf_bbs f" and r: "r = nf_max_reg_id f + 1"
    using assms(2) by (auto simp: new_reg_def new_reg_named_def)
  show "nf_max_reg_id f' = nf_max_reg_id f + 1" "nf_bbs f' = nf_bbs f" "r = nf_max_reg_id f + 1" by (fact f' r)+
  have B: "block_keys f' = block_keys f" by (simp add: block_keys_def f')
  have mono: "instr_ok A K (nf_max_reg_id f) (block_keys f) i \<Longrightarrow> instr_ok A K (nf_max_reg_id f + 1) (block_keys f) i" for i
    by (erule instr_ok_mono) auto
  show "fn_ok A K N Op J f'" using assms(1) mono unfolding fn_ok_def f' B by auto
  have d: "r \<notin> set (func_defs (nf_bbs f))" "0 \<le> nf_max_reg_id f"
    using func_defs_range [OF assms(1), of r] assms(1) by (auto simp: r fn_ok_def)
  then show "fresh_in f' r" by (simp add: fresh_in_def f' r)
  show "fresh_in f x \<Longrightarrow> fresh_in f' x \<and> x \<noteq> r" by (auto simp: fresh_in_def f' r)
qed

lemma fn_ok_new_bb:
  assumes "fn_ok A K N Op J f"
  shows "fn_ok A K (N + 1) (insert N Op) J (new_bb N nm f)" and "block_keys (new_bb N nm f) = insert N (block_keys f)"
    and "nf_max_reg_id (new_bb N nm f) = nf_max_reg_id f" and "func_defs (nf_bbs (new_bb N nm f)) = func_defs (nf_bbs f)"
    and "N \<notin> block_keys f"
proof -
  obtain b where b: "nf_bbs (new_bb N nm f) = nf_bbs f @ [b]" "bb_key b = N" "bb_instrs b = []"
    by (auto simp: new_bb_def Let_def)
  show B: "block_keys (new_bb N nm f) = insert N (block_keys f)" by (simp add: block_keys_def b)
  show M: "nf_max_reg_id (new_bb N nm f) = nf_max_reg_id f" by (simp add: new_bb_def Let_def)
  show D: "func_defs (nf_bbs (new_bb N nm f)) = func_defs (nf_bbs f)" by (simp add: func_defs_def b)
  show N: "N \<notin> block_keys f" using assms by (auto simp: fn_ok_def)
  have keys: "bb_key x \<noteq> N" if "x \<in> set (nf_bbs f)" for x using N that by (auto simp: block_keys_def)
  note a = assms [unfolded fn_ok_def]
  show "fn_ok A K (N + 1) (insert N Op) J (new_bb N nm f)"
    unfolding fn_ok_def B M D
  proof (intro conjI)
    show "distinct (map bb_key (nf_bbs (new_bb N nm f)))" using a N by (auto simp: b block_keys_def)
    show "\<forall>k\<in>insert N (block_keys f). k < N + 1" using a by auto
    show "insert N Op \<subseteq> insert N (block_keys f)" using a by auto
    show "\<forall>p\<in>J. fst p \<in> insert N (block_keys f) - insert N Op" using a N by auto
    show "\<forall>x\<in>set (nf_bbs (new_bb N nm f)). if bb_key x \<in> insert N Op then \<forall>i\<in>set (bb_instrs x). \<not> is_control i
        else closed_block (bb_instrs x)"
      using a keys by (auto simp: b)
    show "\<forall>x\<in>set (nf_bbs (new_bb N nm f)). \<forall>i\<in>set (bb_instrs x). instr_ok A K (nf_max_reg_id f) (insert N (block_keys f)) i"
      using a instr_ok_mono [OF _ order_refl order_refl order_refl subset_insertI] by (auto simp: b)
    show "\<forall>x\<in>set (nf_bbs (new_bb N nm f)). \<forall>n<length (bb_instrs x).
        targets_at (insert N (block_keys f)) J (bb_key x) n (bb_instrs x ! n)"
      using a targets_at_mono [OF _ subset_insertI order_refl] by (auto simp: b)
  qed (use a in auto)
qed

subsection \<open>Instructions\<close>

lemma update_split:
  assumes "distinct (map bb_key (nf_bbs f))" and "k \<in> block_keys f"
  obtains xs b ys where "nf_bbs f = xs @ b # ys" "bb_key b = k" "\<And>g. nf_bbs (update_bb k g f) = xs @ g b # ys"
    "k \<notin> bb_key ` (set xs \<union> set ys)"
proof -
  obtain b where "b \<in> set (nf_bbs f)" "bb_key b = k" using assms(2) by (auto simp: block_keys_def)
  then obtain xs ys where s: "nf_bbs f = xs @ b # ys" "bb_key b = k" by (meson split_list)
  have n: "k \<notin> bb_key ` (set xs \<union> set ys)" using assms(1) s by auto
  then have "map (\<lambda>b. if bb_key b = k then g b else b) xs = xs" "map (\<lambda>b. if bb_key b = k then g b else b) ys = ys" for g
    by (auto intro!: map_idI)
  then have "nf_bbs (update_bb k g f) = xs @ g b # ys" for g using s by (simp add: update_bb_def)
  with s n that show ?thesis by blast
qed

lemma update_bb_fields [simp]:
  "nf_max_reg_id (update_bb k g f) = nf_max_reg_id f" "nf_scope (update_bb k g f) = nf_scope f"
  "nf_name (update_bb k g f) = nf_name f" "nf_entry (update_bb k g f) = nf_entry f"
  by (simp_all add: update_bb_def)

lemma bb_push_fields [simp]: "bb_key (bb_push i b) = bb_key b" "bb_instrs (bb_push i b) = bb_instrs b @ [i]"
  by (simp_all add: bb_push_def)

lemma update_bb_keys: "(\<And>b. bb_key (g b) = bb_key b) \<Longrightarrow> block_keys (update_bb k g f) = block_keys f"
proof -
  assume "\<And>b. bb_key (g b) = bb_key b"
  then have "bb_key (if bb_key b = k then g b else b) = bb_key b" for b by simp
  then show ?thesis by (simp add: block_keys_def update_bb_def image_image del: if_image_distrib)
qed

lemma update_bb_other: "k \<notin> block_keys f \<Longrightarrow> update_bb k g f = f"
  by (cases f) (auto simp: update_bb_def block_keys_def intro!: map_idI)

lemma func_defs_append [simp]: "func_defs (xs @ ys) = func_defs xs @ func_defs ys"
  by (simp add: func_defs_def)

lemma func_defs_Cons [simp]: "func_defs (b # bs) = List.map_filter def_of (bb_instrs b) @ func_defs bs"
  by (simp add: func_defs_def)

lemma push_defs:
  "List.map_filter def_of (is @ [i]) = List.map_filter def_of is @ (case def_of i of Some d \<Rightarrow> [d] | None \<Rightarrow> [])"
  by (induction "is") (auto simp: map_filter_simps map_filter_def split: option.splits)

text \<open>An instruction at the end of an open block: \<open>Op'\<close> and \<open>J'\<close> say whether it closes the block.\<close>

lemma fn_ok_push:
  assumes ok: "fn_ok A K N Op J f" and k: "k \<in> Op"
    and i: "instr_ok A K (nf_max_reg_id f) (block_keys f) i" "\<And>d. def_of i = Some d \<Longrightarrow> d \<notin> set (func_defs (nf_bbs f))"
    and Op': "Op' = (if is_control i then Op - {k} else Op)"
    and n: "instrs_at f k = Some is"
    and J': "J \<subseteq> J'" "\<forall>p\<in>J' - J. fst p = k \<and> is_control i" "targets_at (block_keys f) J' k (length is) i"
  shows "fn_ok A K N Op' J' (update_bb k (bb_push i) f)"
    and "set (func_defs (nf_bbs (update_bb k (bb_push i) f))) = set (func_defs (nf_bbs f)) \<union> set_option (def_of i)"
proof -
  note a = ok [unfolded fn_ok_def]
  have kf: "k \<in> block_keys f" using a k by blast
  obtain xs b ys where s: "nf_bbs f = xs @ b # ys" "bb_key b = k" "\<And>g. nf_bbs (update_bb k g f) = xs @ g b # ys"
    "k \<notin> bb_key ` (set xs \<union> set ys)"
    using update_split a kf by blast
  have "find (\<lambda>b. bb_key b = k) xs = None" using s(4) by (auto simp: find_None_iff)
  then have bi: "bb_instrs b = is" using n s(1,2) by (simp add: instrs_at_def find_append)
  have B: "block_keys (update_bb k (bb_push i) f) = block_keys f" by (rule update_bb_keys) simp
  have bs: "nf_bbs (update_bb k (bb_push i) f) = xs @ bb_push i b # ys" by (rule s(3))
  have other: "bb_key x \<noteq> k" "x \<in> set (nf_bbs f)" if "x \<in> set xs \<union> set ys" for x
  proof -
    show "bb_key x \<noteq> k" using s(4) that by (metis imageI)
    show "x \<in> set (nf_bbs f)" using that by (auto simp: s(1))
  qed
  have bf: "b \<in> set (nf_bbs f)" by (simp add: s(1))
  show D: "set (func_defs (nf_bbs (update_bb k (bb_push i) f))) = set (func_defs (nf_bbs f)) \<union> set_option (def_of i)"
    unfolding bs by (auto simp: s(1) push_defs split: option.splits)
  have tg: "targets_at (block_keys f) J' (bb_key x) m (bb_instrs x ! m)"
    if "x \<in> set (nf_bbs f)" "m < length (bb_instrs x)" for x m
    using a that targets_at_mono [OF _ order_refl J'(1)] by blast
  show "fn_ok A K N Op' J' (update_bb k (bb_push i) f)"
    unfolding fn_ok_def B update_bb_fields
  proof (intro conjI)
    show "distinct (map bb_key (nf_bbs (update_bb k (bb_push i) f)))" using a unfolding bs s(1) by simp
    show "Op' \<subseteq> block_keys f" using a by (auto simp: Op')
    have "\<forall>p\<in>J. fst p \<in> block_keys f - Op" using a by blast
    then have "fst p \<in> block_keys f - Op'" if "p \<in> J'" for p
      using that J'(2) kf by (cases "p \<in> J") (auto simp: Op')
    then show "\<forall>p\<in>J'. fst p \<in> block_keys f - Op'" by blast
    have shape: "\<forall>b\<in>set (nf_bbs f). if bb_key b \<in> Op then \<forall>i\<in>set (bb_instrs b). \<not> is_control i else closed_block (bb_instrs b)"
      using a by blast
    then have "\<forall>j\<in>set is. \<not> is_control j" using bf k s(2) bi by force
    then have "if k \<in> Op' then \<forall>j\<in>set (is @ [i]). \<not> is_control j else closed_block (is @ [i])"
      using k by (auto simp: Op' closed_block_def)
    then have new: "if bb_key (bb_push i b) \<in> Op' then \<forall>j\<in>set (bb_instrs (bb_push i b)). \<not> is_control j
        else closed_block (bb_instrs (bb_push i b))" by (simp add: bi s(2))
    have "bb_key x \<in> Op' \<longleftrightarrow> bb_key x \<in> Op" if "x \<in> set xs \<union> set ys" for x using other(1) [OF that] by (simp add: Op')
    then have "if bb_key x \<in> Op' then \<forall>j\<in>set (bb_instrs x). \<not> is_control j else closed_block (bb_instrs x)"
      if "x \<in> set xs \<union> set ys" for x
      using bspec [OF shape other(2) [OF that]] that by simp
    with new have "if bb_key x \<in> Op' then \<forall>j\<in>set (bb_instrs x). \<not> is_control j else closed_block (bb_instrs x)"
      if "x \<in> set (xs @ bb_push i b # ys)" for x using that by (metis UnI1 UnI2 set_append set_ConsD Un_iff)
    then show "\<forall>x\<in>set (nf_bbs (update_bb k (bb_push i) f)). if bb_key x \<in> Op' then \<forall>i\<in>set (bb_instrs x). \<not> is_control i
        else closed_block (bb_instrs x)" unfolding bs by blast
    show "\<forall>x\<in>set (nf_bbs (update_bb k (bb_push i) f)). \<forall>j\<in>set (bb_instrs x). instr_ok A K (nf_max_reg_id f) (block_keys f) j"
    proof -
      have "instr_ok A K (nf_max_reg_id f) (block_keys f) j" if "x \<in> set (nf_bbs f)" "j \<in> set (bb_instrs x)" for x j
        using a that by blast
      then show ?thesis using i(1) unfolding bs s(1) by auto
    qed
    have "targets_at (block_keys f) J' k m (bb_instrs (bb_push i b) ! m)" if "m < length (bb_instrs (bb_push i b))" for m
      using tg [OF bf, of m] that J'(3) by (auto simp: bi s(2) nth_append less_Suc_eq)
    then show "\<forall>x\<in>set (nf_bbs (update_bb k (bb_push i) f)). \<forall>n<length (bb_instrs x).
        targets_at (block_keys f) J' (bb_key x) n (bb_instrs x ! n)"
      using tg other(2) s(2) unfolding bs by (metis Un_iff bb_push_fields(1) set_ConsD set_append)
    show "distinct (func_defs (nf_bbs (update_bb k (bb_push i) f)))"
      using a i(2) unfolding bs s(1) by (auto simp: push_defs split: option.splits)
  qed (use a in auto)
qed

text \<open>Filling in a target.\<close>

lemma set_target_simps [simp]:
  "is_control (set_target t k i) = is_control i" "def_of (set_target t k i) = def_of i"
  "instr_ok A K M B (set_target t k i) = instr_ok A K M B i"
  by (cases i; simp add: set_target_def is_control_def instr_ok_def uses_ok_def refs_ok_def)+

lemma closed_block_update:
  assumes "is_control (g (is ! n)) = is_control (is ! n)"
  shows "closed_block (is[n := g (is ! n)]) = closed_block is"
proof (cases "n < length is")
  case True
  have c: "is_control (is[n := g (is ! n)] ! m) = is_control (is ! m)" if "m < length is" for m
    using assms that by (cases "m = n") auto
  have "closed_block xs \<longleftrightarrow> xs \<noteq> [] \<and> is_control (xs ! (length xs - 1)) \<and> (\<forall>m<length xs - 1. \<not> is_control (xs ! m))" for xs
  proof -
    have "(\<forall>i\<in>set (butlast xs). \<not> is_control i) \<longleftrightarrow> (\<forall>m<length xs - 1. \<not> is_control (xs ! m))"
      by (metis in_set_conv_nth length_butlast nth_butlast)
    then show ?thesis by (auto simp: closed_block_def last_conv_nth)
  qed
  then show ?thesis using c True by (cases "is = []") auto
qed (simp add: list_update_beyond)

lemma map_filter_update:
  "def_of x = def_of (is ! n) \<Longrightarrow> n < length is \<Longrightarrow> List.map_filter def_of (is[n := x]) = List.map_filter def_of is"
proof (induction "is" arbitrary: n)
  case (Cons i "is")
  show ?case
  proof (cases n)
    case 0
    then show ?thesis using Cons.prems by (simp add: map_filter_simps)
  next
    case (Suc m)
    then show ?thesis using Cons.prems Cons.IH [of m] by (simp add: map_filter_simps split: option.split)
  qed
qed simp

definition patch_fn :: "bb_key \<Rightarrow> slot \<Rightarrow> nfunc \<Rightarrow> nfunc" where
  "patch_fn k p f =
     (case p of (b, n, t) \<Rightarrow>
        update_bb b (\<lambda>x. x\<lparr>bb_instrs := (bb_instrs x)[n := set_target t k (bb_instrs x ! n)]\<rparr>) f)"

lemma fn_ok_patch:
  assumes ok: "fn_ok A K N Op J f" and k: "k \<in> block_keys f" and p: "fst p \<in> block_keys f"
  shows "fn_ok A K N Op (J - {p}) (patch_fn k p f)" and "func_defs (nf_bbs (patch_fn k p f)) = func_defs (nf_bbs f)"
    and "block_keys (patch_fn k p f) = block_keys f" and "nf_max_reg_id (patch_fn k p f) = nf_max_reg_id f"
proof -
  obtain b0 n t where p': "p = (b0, n, t)" by (cases p)
  let ?g = "\<lambda>x. x\<lparr>bb_instrs := (bb_instrs x)[n := set_target t k (bb_instrs x ! n)]\<rparr>"
  note a = ok [unfolded fn_ok_def]
  have F: "patch_fn k p f = update_bb b0 ?g f" by (simp add: patch_fn_def p')
  show B: "block_keys (patch_fn k p f) = block_keys f" unfolding F by (rule update_bb_keys) simp
  show M: "nf_max_reg_id (patch_fn k p f) = nf_max_reg_id f" by (simp add: F)
  obtain xs b ys where s: "nf_bbs f = xs @ b # ys" "bb_key b = b0" "\<And>g. nf_bbs (update_bb b0 g f) = xs @ g b # ys"
    "b0 \<notin> bb_key ` (set xs \<union> set ys)"
    using update_split [of f b0] a p p' by auto
  have bs: "nf_bbs (patch_fn k p f) = xs @ ?g b # ys" unfolding F by (rule s(3))
  show D: "func_defs (nf_bbs (patch_fn k p f)) = func_defs (nf_bbs f)"
    unfolding bs s(1) by (cases "n < length (bb_instrs b)") (simp_all add: map_filter_update list_update_beyond)
  have other: "bb_key x \<noteq> b0" if "x \<in> set xs \<union> set ys" for x using s(4) that by (metis imageI)
  have bf: "b \<in> set (nf_bbs f)" by (simp add: s(1))
  have set: "\<forall>x\<in>set (xs @ ?g b # ys). P x" if "P (?g b)" "\<And>x. x \<in> set xs \<union> set ys \<Longrightarrow> x \<in> set (nf_bbs f) \<Longrightarrow> P x" for P x
    using that by (auto simp: s(1))
  have instrs: "j \<in> set (bb_instrs b) \<or> (\<exists>i\<in>set (bb_instrs b). j = set_target t k i)" if "j \<in> set (bb_instrs (?g b))" for j
  proof (cases "n < length (bb_instrs b)")
    case True
    have "j \<in> insert (set_target t k (bb_instrs b ! n)) (set (bb_instrs b))"
      using that subsetD [OF set_update_subset_insert] by simp
    then show ?thesis using True nth_mem by blast
  qed (use that in \<open>simp add: list_update_beyond\<close>)
  show "fn_ok A K N Op (J - {p}) (patch_fn k p f)"
    unfolding fn_ok_def B M D
  proof (intro conjI)
    show "distinct (map bb_key (nf_bbs (patch_fn k p f)))" using a unfolding bs s(1) by simp
    show "\<forall>q\<in>J - {p}. fst q \<in> block_keys f - Op" using a by blast
    have shape: "\<forall>b\<in>set (nf_bbs f). if bb_key b \<in> Op then \<forall>i\<in>set (bb_instrs b). \<not> is_control i else closed_block (bb_instrs b)"
      using a by blast
    have "\<forall>j\<in>set (bb_instrs (?g b)). \<not> is_control j" if "b0 \<in> Op"
      using bspec [OF shape bf] that s(2) instrs by (metis set_target_simps(1))
    moreover have "closed_block (bb_instrs (?g b))" if "b0 \<notin> Op"
      using bspec [OF shape bf] that s(2) closed_block_update [of "set_target t k" "bb_instrs b" n] by simp
    ultimately show "\<forall>x\<in>set (nf_bbs (patch_fn k p f)). if bb_key x \<in> Op then \<forall>i\<in>set (bb_instrs x). \<not> is_control i
        else closed_block (bb_instrs x)"
      unfolding bs using shape s(2) by (intro set) auto
    have ins: "\<forall>b\<in>set (nf_bbs f). \<forall>i\<in>set (bb_instrs b). instr_ok A K (nf_max_reg_id f) (block_keys f) i" using a by blast
    then have "\<forall>j\<in>set (bb_instrs (?g b)). instr_ok A K (nf_max_reg_id f) (block_keys f) j"
      using bf instrs by (metis set_target_simps(3))
    then show "\<forall>x\<in>set (nf_bbs (patch_fn k p f)). \<forall>i\<in>set (bb_instrs x). instr_ok A K (nf_max_reg_id f) (block_keys f) i"
      unfolding bs using ins by (intro set) auto
    have tg: "\<forall>b\<in>set (nf_bbs f). \<forall>n<length (bb_instrs b). targets_at (block_keys f) J (bb_key b) n (bb_instrs b ! n)"
      using a by blast
    have drop: "targets_at (block_keys f) (J - {p}) q m i" if "targets_at (block_keys f) J q m i" "(q, m) \<noteq> (b0, n)" for q m i
      using that by (auto simp: targets_at_def p' split: instr.splits)
    have fill: "targets_at (block_keys f) (J - {p}) b0 n (set_target t k i)" if "targets_at (block_keys f) J b0 n i" for i
      using that k by (auto simp: targets_at_def set_target_def p' split: instr.splits)
    have "targets_at (block_keys f) (J - {p}) b0 m (bb_instrs (?g b) ! m)" if m: "m < length (bb_instrs (?g b))" for m
    proof (cases "m = n")
      case True
      then show ?thesis using fill bspec [OF tg bf] m s(2) by simp
    next
      case False
      then show ?thesis using drop [of b0 m] bspec [OF tg bf] m s(2) by simp
    qed
    moreover have "targets_at (block_keys f) (J - {p}) (bb_key x) m (bb_instrs x ! m)"
      if "x \<in> set xs \<union> set ys" "x \<in> set (nf_bbs f)" "m < length (bb_instrs x)" for x m
      using drop [of "bb_key x" m] bspec [OF tg that(2)] that(3) other [OF that(1)] by simp
    ultimately show "\<forall>x\<in>set (nf_bbs (patch_fn k p f)). \<forall>n<length (bb_instrs x).
        targets_at (block_keys f) (J - {p}) (bb_key x) n (bb_instrs x ! n)"
      unfolding bs using s(2) by (intro set) auto
  qed (use a in auto)
qed

end
