(* ===== verification/FrontWf.thy ===== *)
theory FrontWf
  imports FrontFacts
begin

text \<open>
  The invariant of the visitor's state, and that the visitors of expressions keep it.
\<close>

section \<open>The state\<close>

definition cur_fn :: "vis \<Rightarrow> nfunc" where
  "cur_fn s = (if vs_in_init s then vs_init s else the (vs_func s))"

definition known_funcs :: "vis \<Rightarrow> func_ref set" where
  "known_funcs s =
     NormalF ` nf_name ` (insert (vs_init s) (set (vs_done s) \<union> set_option (vs_func s))) \<union> LibF ` fst ` set lib_interfaces"

definition obj_keys :: "mem_scope \<Rightarrow> obj_key set" where
  "obj_keys sc = mo_key ` set (ms_objects sc)"

definition known_objs :: "vis \<Rightarrow> obj_key set" where
  "known_objs s = obj_keys (vs_scope s) \<union> obj_keys (nf_scope (cur_fn s))"

definition entry_ok :: "vis \<Rightarrow> var_entry \<Rightarrow> bool" where
  "entry_ok s e = (0 \<le> ve_arg_id e \<or> (\<exists>k. ve_obj e = Some k \<and> k \<in> known_objs s))"

definition reg_ok :: "vis \<Rightarrow> reg \<Rightarrow> bool" where
  "reg_ok s r = (1 \<le> r \<and> r \<le> nf_max_reg_id (cur_fn s))"

definition instr_ok_at :: "vis \<Rightarrow> instr \<Rightarrow> bool" where
  "instr_ok_at s i = instr_ok (known_funcs s) (known_objs s) (nf_max_reg_id (cur_fn s)) (block_keys (cur_fn s)) i"

definition vis_ok :: "vis \<Rightarrow> bb_key set \<Rightarrow> slot set \<Rightarrow> bool" where
  "vis_ok s Op J =
     ((vs_func s = None) = vs_in_init s \<and>
      fn_ok (known_funcs s) (known_objs s) (vs_next_bb s) Op J (cur_fn s) \<and>
      (\<forall>e\<in>ran (vs_functions s). fe_func e \<in> known_funcs s) \<and>
      (\<forall>t\<in>set (vs_global s # vs_local s). \<forall>e\<in>ran t. entry_ok s e) \<and>
      (\<forall>(r, b)\<in>set (vs_return_value s). reg_ok s r \<and> b \<in> block_keys (cur_fn s)) \<and>
      (\<not> vs_in_init s \<longrightarrow> block_keys (vs_init s) \<inter> block_keys (cur_fn s) = {} \<and> (\<forall>k\<in>block_keys (vs_init s). k < vs_next_bb s)))"

text \<open>What a visitor keeps: only the function under construction grows.\<close>

definition grow :: "vis \<Rightarrow> vis \<Rightarrow> bool" where
  "grow s s' =
     (vs_functions s' = vs_functions s \<and> vs_global s' = vs_global s \<and> vs_done s' = vs_done s \<and>
      vs_in_init s' = vs_in_init s \<and> vs_break s' = vs_break s \<and> vs_continue s' = vs_continue s \<and>
      vs_return_bb s' = vs_return_bb s \<and> vs_mode s' = vs_mode s \<and> vs_func_name s' = vs_func_name s \<and>
      vs_found_main s' = vs_found_main s \<and> vs_init_bb s' = vs_init_bb s \<and>
      (\<not> vs_in_init s \<longrightarrow> vs_init s' = vs_init s) \<and> (vs_func s' = None) = (vs_func s = None) \<and>
      nf_name (cur_fn s') = nf_name (cur_fn s) \<and> nf_entry (cur_fn s') = nf_entry (cur_fn s) \<and>
      nf_max_reg_id (cur_fn s) \<le> nf_max_reg_id (cur_fn s') \<and> block_keys (cur_fn s) \<subseteq> block_keys (cur_fn s') \<and>
      obj_keys (vs_scope s) \<subseteq> obj_keys (vs_scope s') \<and> obj_keys (nf_scope (cur_fn s)) \<subseteq> obj_keys (nf_scope (cur_fn s')) \<and>
      vs_next_bb s \<le> vs_next_bb s')"

definition cur_open :: "vis \<Rightarrow> bb_key set \<Rightarrow> bool" where
  "cur_open s Op = (\<forall>c. vs_cur s = Some c \<longrightarrow> c \<in> Op)"

text \<open>A step inside the current block.\<close>

definition inside :: "bb_key set \<Rightarrow> slot set \<Rightarrow> vis \<Rightarrow> vis \<Rightarrow> bool" where
  "inside Op J s s' =
     (vis_ok s' Op J \<and> grow s s' \<and> vs_cur s' = vs_cur s \<and> vs_local s' = vs_local s \<and> vs_return_value s' = vs_return_value s)"

lemma grow_refl [simp]: "grow s s"
  by (simp add: grow_def)

lemma grow_trans [trans]: "grow a b \<Longrightarrow> grow b c \<Longrightarrow> grow a c"
  unfolding grow_def by auto

lemma grow_known:
  assumes "grow s s'"
  shows "known_objs s \<subseteq> known_objs s'" and "reg_ok s r \<Longrightarrow> reg_ok s' r"
    and "entry_ok s e \<Longrightarrow> entry_ok s' e"
  using assms by (auto simp: grow_def known_objs_def reg_ok_def entry_ok_def)

lemma inside_refl: "vis_ok s Op J \<Longrightarrow> inside Op J s s"
  by (simp add: inside_def)

lemma inside_trans [trans]: "inside Op J a b \<Longrightarrow> inside Op J b c \<Longrightarrow> inside Op J a c"
  unfolding inside_def using grow_trans by auto

lemma insideD:
  assumes "inside Op J s s'"
  shows "vis_ok s' Op J" and "grow s s'" and "cur_open s' Op = cur_open s Op" and "vs_cur s' = vs_cur s"
    and "vs_local s' = vs_local s" and "vs_return_value s' = vs_return_value s"
  using assms by (auto simp: inside_def cur_open_def)

lemma inside_reg: "inside Op J s s' \<Longrightarrow> reg_ok s r \<Longrightarrow> reg_ok s' r"
  using grow_known(2) insideD(2) by blast

text \<open>The fields that the invariant does not read.\<close>

lemma vis_ok_fields [simp]:
  "vis_ok (s\<lparr>vs_mode := m\<rparr>) Op J = vis_ok s Op J"
  "vis_ok (s\<lparr>vs_cur := c\<rparr>) Op J = vis_ok s Op J"
  "vis_ok (s\<lparr>vs_scalar := t\<rparr>) Op J = vis_ok s Op J"
  "vis_ok (s\<lparr>vs_break := b1\<rparr>) Op J = vis_ok s Op J"
  "vis_ok (s\<lparr>vs_continue := b2\<rparr>) Op J = vis_ok s Op J"
  "vis_ok (s\<lparr>vs_func_name := n\<rparr>) Op J = vis_ok s Op J"
  "vis_ok (s\<lparr>vs_found_main := fm\<rparr>) Op J = vis_ok s Op J"
  "vis_ok (s\<lparr>vs_return_bb := rb\<rparr>) Op J = vis_ok s Op J"
  "vis_ok (s\<lparr>vs_init_bb := ib\<rparr>) Op J = vis_ok s Op J"
  by (simp_all add: vis_ok_def known_funcs_def known_objs_def cur_fn_def reg_ok_def entry_ok_def cong: if_cong)

lemma cur_fn_fields [simp]:
  "cur_fn (s\<lparr>vs_mode := m\<rparr>) = cur_fn s" "cur_fn (s\<lparr>vs_cur := c\<rparr>) = cur_fn s" "cur_fn (s\<lparr>vs_scalar := t\<rparr>) = cur_fn s"
  "cur_fn (s\<lparr>vs_break := b1\<rparr>) = cur_fn s" "cur_fn (s\<lparr>vs_continue := b2\<rparr>) = cur_fn s" "cur_fn (s\<lparr>vs_local := l\<rparr>) = cur_fn s"
  "cur_fn (s\<lparr>vs_func_name := n\<rparr>) = cur_fn s" "cur_fn (s\<lparr>vs_return_value := rv\<rparr>) = cur_fn s"
  by (simp_all add: cur_fn_def)

section \<open>Primitive steps\<close>

lemma new_reg_inside:
  assumes "v_new_reg s = Inr (r, s')" and ok: "vis_ok s Op J"
  shows "inside Op J s s'" and "fresh_in (cur_fn s') r" and "fresh_in (cur_fn s) x \<Longrightarrow> fresh_in (cur_fn s') x \<and> x \<noteq> r" and "reg_ok s' r"
proof -
  have f0: "fn_ok (known_funcs s) (known_objs s) (vs_next_bb s) Op J (cur_fn s)" and act: "(vs_func s = None) = vs_in_init s"
    using ok by (auto simp: vis_ok_def)
  obtain f where f: "new_reg (cur_fn s) = (r, f)" "s' = (if vs_in_init s then s\<lparr>vs_init := f\<rparr> else s\<lparr>vs_func := Some f\<rparr>)"
    using assms(1) act by (auto simp: v_new_reg_def cur_fn_def split: if_splits option.splits prod.splits)
  note n = fn_ok_new_reg [OF f0 f(1)]
  have F: "cur_fn s' = f" by (simp add: f(2) cur_fn_def)
  have fields: "nf_name f = nf_name (cur_fn s)" "nf_entry f = nf_entry (cur_fn s)" "nf_scope f = nf_scope (cur_fn s)"
    using f(1) by (auto simp: new_reg_def new_reg_named_def)
  have B: "block_keys f = block_keys (cur_fn s)" by (simp add: block_keys_def n(5))
  have K: "known_funcs s' = known_funcs s"
    using fields(1) act by (auto simp: known_funcs_def f(2) cur_fn_def)
  have Ob: "known_objs s' = known_objs s" using fields(3) by (simp add: known_objs_def F) (simp add: f(2))
  have E: "entry_ok s' e = entry_ok s e" for e by (simp add: entry_ok_def Ob)
  have R: "reg_ok s x \<Longrightarrow> reg_ok s' x" for x by (simp add: reg_ok_def F n(4))
  have init: "\<not> vs_in_init s \<Longrightarrow> vs_init s' = vs_init s" by (simp add: f(2))
  have same: "vs_in_init s' = vs_in_init s" "(vs_func s' = None) = (vs_func s = None)" "vs_next_bb s' = vs_next_bb s"
    "vs_functions s' = vs_functions s" "vs_global s' = vs_global s" "vs_local s' = vs_local s" "vs_return_value s' = vs_return_value s"
    using act by (auto simp: f(2))
  have "vis_ok s' Op J"
    unfolding vis_ok_def K Ob F B same E using ok n(1) R init by (fastforce simp: vis_ok_def)
  moreover have "grow s s'"
    unfolding grow_def F B n(4) fields using same init by (auto simp: f(2))
  moreover have "vs_cur s' = vs_cur s" by (simp add: f(2))
  ultimately show "inside Op J s s'" using same(6,7) by (simp add: inside_def)
  show "fresh_in (cur_fn s') r" "fresh_in (cur_fn s) x \<Longrightarrow> fresh_in (cur_fn s') x \<and> x \<noteq> r" using n(2,3) F by blast+
  then show "reg_ok s' r" by (simp add: fresh_in_def reg_ok_def)
qed

lemma new_bb_ok:
  assumes "v_new_bb s = Inr (k, s')" and ok: "vis_ok s Op J"
  shows "vis_ok s' (insert k Op) J" and "grow s s'" and "vs_cur s' = vs_cur s" and "k \<notin> block_keys (cur_fn s)"
    and "k \<in> block_keys (cur_fn s')" and "fresh_in (cur_fn s') x = fresh_in (cur_fn s) x" and "vs_local s' = vs_local s"
    and "vs_return_value s' = vs_return_value s"
proof -
  have f0: "fn_ok (known_funcs s) (known_objs s) (vs_next_bb s) Op J (cur_fn s)" and act: "(vs_func s = None) = vs_in_init s"
    using ok by (auto simp: vis_ok_def)
  let ?f = "new_bb (vs_next_bb s) ''BB'' (cur_fn s)"
  have k: "k = vs_next_bb s" and s': "s' = (if vs_in_init s then s\<lparr>vs_next_bb := k + 1, vs_init := ?f\<rparr>
      else s\<lparr>vs_next_bb := k + 1, vs_func := Some ?f\<rparr>)"
    using assms(1) act by (auto simp: v_new_bb_def cur_fn_def Let_def split: if_splits option.splits)
  note n = fn_ok_new_bb(1-4) [OF f0, where nm = "''BB''"] fn_ok_new_bb(5) [OF f0]
  have F: "cur_fn s' = ?f" by (simp add: s' cur_fn_def)
  have fields: "nf_name ?f = nf_name (cur_fn s)" "nf_entry ?f = nf_entry (cur_fn s)" "nf_scope ?f = nf_scope (cur_fn s)"
    by (simp_all add: new_bb_def Let_def)
  have K: "known_funcs s' = known_funcs s"
    using fields(1) act by (auto simp: known_funcs_def s' cur_fn_def)
  have Ob: "known_objs s' = known_objs s" using fields(3) by (simp add: known_objs_def F) (simp add: s')
  have E: "entry_ok s' e = entry_ok s e" for e by (simp add: entry_ok_def Ob)
  have R: "reg_ok s' x = reg_ok s x" for x by (simp add: reg_ok_def F n(3))
  have init: "\<not> vs_in_init s \<Longrightarrow> vs_init s' = vs_init s" by (simp add: s')
  have same: "vs_in_init s' = vs_in_init s" "(vs_func s' = None) = (vs_func s = None)" "vs_next_bb s' = vs_next_bb s + 1"
    "vs_functions s' = vs_functions s" "vs_global s' = vs_global s" "vs_local s' = vs_local s" "vs_return_value s' = vs_return_value s"
    using act by (auto simp: s' k)
  show "vis_ok s' (insert k Op) J"
    unfolding vis_ok_def K Ob F n(2) same E R using ok n(1) init by (fastforce simp: vis_ok_def k)
  show "grow s s'"
    unfolding grow_def F n(2,3) fields using same init by (auto simp: s')
  show "vs_cur s' = vs_cur s" by (simp add: s')
  show "k \<notin> block_keys (cur_fn s)" using n(5) k by simp
  show "k \<in> block_keys (cur_fn s')" by (simp add: F n(2) k)
  show "fresh_in (cur_fn s') x = fresh_in (cur_fn s) x" by (simp add: fresh_in_def F n(3,4))
  show "vs_local s' = vs_local s" "vs_return_value s' = vs_return_value s" by (fact same)+
qed

text \<open>A change of a block of the function under construction.\<close>

lemma edit_bb_fields [simp]:
  "vs_functions (edit_bb k g s) = vs_functions s" "vs_global (edit_bb k g s) = vs_global s" "vs_local (edit_bb k g s) = vs_local s"
  "vs_done (edit_bb k g s) = vs_done s" "vs_in_init (edit_bb k g s) = vs_in_init s" "vs_cur (edit_bb k g s) = vs_cur s"
  "vs_next_bb (edit_bb k g s) = vs_next_bb s" "vs_return_value (edit_bb k g s) = vs_return_value s" "vs_scope (edit_bb k g s) = vs_scope s"
  "vs_return_bb (edit_bb k g s) = vs_return_bb s" "vs_mode (edit_bb k g s) = vs_mode s" "vs_break (edit_bb k g s) = vs_break s"
  "vs_continue (edit_bb k g s) = vs_continue s" "vs_func_name (edit_bb k g s) = vs_func_name s"
  "vs_found_main (edit_bb k g s) = vs_found_main s" "vs_init_bb (edit_bb k g s) = vs_init_bb s"
  "(vs_func (edit_bb k g s) = None) = (vs_func s = None)"
  by (simp_all add: edit_bb_def)

lemma edit_bb_ok:
  assumes ok: "vis_ok s Op J" and k: "k \<in> block_keys (cur_fn s)" and key: "\<And>b. bb_key (g b) = bb_key b"
    and new: "fn_ok (known_funcs s) (known_objs s) (vs_next_bb s) Op' J' (update_bb k g (cur_fn s))"
  shows "vis_ok (edit_bb k g s) Op' J'" and "grow s (edit_bb k g s)" and "cur_fn (edit_bb k g s) = update_bb k g (cur_fn s)"
proof -
  have act: "(vs_func s = None) = vs_in_init s" using ok by (simp add: vis_ok_def)
  have init: "vs_init (edit_bb k g s) = vs_init s" if "\<not> vs_in_init s"
  proof -
    have "k \<notin> block_keys (vs_init s)" using ok k that by (auto simp: vis_ok_def)
    then show ?thesis by (simp add: edit_bb_def update_bb_other)
  qed
  show F: "cur_fn (edit_bb k g s) = update_bb k g (cur_fn s)" using act by (auto simp: cur_fn_def edit_bb_def)
  have B: "block_keys (update_bb k g (cur_fn s)) = block_keys (cur_fn s)" by (rule update_bb_keys [OF key])
  have K: "known_funcs (edit_bb k g s) = known_funcs s"
    by (auto simp: known_funcs_def edit_bb_def image_iff)
  have Ob: "known_objs (edit_bb k g s) = known_objs s" by (simp add: known_objs_def F)
  have E: "entry_ok (edit_bb k g s) e = entry_ok s e" for e by (simp add: entry_ok_def Ob)
  have R: "reg_ok (edit_bb k g s) x = reg_ok s x" for x by (simp add: reg_ok_def F)
  have init_keys: "block_keys (vs_init (edit_bb k g s)) = block_keys (vs_init s)" if "\<not> vs_in_init s"
    using init [OF that] by simp
  show "vis_ok (edit_bb k g s) Op' J'"
    unfolding vis_ok_def K Ob F B E R edit_bb_fields using ok new init_keys by (auto simp: vis_ok_def)
  show "grow s (edit_bb k g s)"
    unfolding grow_def F B using init by simp
qed

lemma instrs_at_keys: "k \<in> block_keys f \<Longrightarrow> \<exists>is. instrs_at f k = Some is"
  by (auto simp: block_keys_def instrs_at_def find_None_iff dest: sym
      split: option.splits) (metis (mono_tags) find_None_iff not_None_eq option.simps(9))

text \<open>\<open>push\<close> of an instruction that does not leave the block, of a jump, and of an open branch.\<close>

lemma push_to_ok:
  assumes ok: "vis_ok s Op J" and k: "k \<in> Op" and i: "instr_ok_at s i" "\<And>d. def_of i = Some d \<Longrightarrow> fresh_in (cur_fn s) d"
    and nc: "\<not> is_control i"
  shows "vis_ok (push_to k i s) Op J" and "grow s (push_to k i s)"
    and "fresh_in (cur_fn s) x \<Longrightarrow> def_of i \<noteq> Some x \<Longrightarrow> fresh_in (cur_fn (push_to k i s)) x"
proof -
  have f0: "fn_ok (known_funcs s) (known_objs s) (vs_next_bb s) Op J (cur_fn s)" using ok by (simp add: vis_ok_def)
  then have kf: "k \<in> block_keys (cur_fn s)" using k by (auto simp: fn_ok_def)
  then obtain "is" where at: "instrs_at (cur_fn s) k = Some is" using instrs_at_keys by blast
  have fresh: "d \<notin> set (func_defs (nf_bbs (cur_fn s)))" if "def_of i = Some d" for d using i(2) [OF that] by (simp add: fresh_in_def)
  have tg: "targets_at (block_keys (cur_fn s)) J k (length is) i" using nc by (cases i) (simp_all add: targets_at_def is_control_def)
  note p = fn_ok_push [OF f0 k i(1) [unfolded instr_ok_at_def] fresh _ at subset_refl _ tg, of Op]
  have new: "fn_ok (known_funcs s) (known_objs s) (vs_next_bb s) Op J (update_bb k (bb_push i) (cur_fn s))" using p(1) nc by simp
  note e = edit_bb_ok [OF ok kf bb_push_fields(1) new]
  show "vis_ok (push_to k i s) Op J" "grow s (push_to k i s)" using e by (simp_all add: push_to_def)
  show "fresh_in (cur_fn (push_to k i s)) x" if "fresh_in (cur_fn s) x" "def_of i \<noteq> Some x"
    using that p(2) nc by (auto simp: push_to_def e(3) fresh_in_def)
qed

lemma push_jump_ok:
  assumes ok: "vis_ok s Op J" and k: "k \<in> Op" and i: "instr_ok_at s i" "is_control i"
    and tg: "\<And>n. targets_at (block_keys (cur_fn s)) {} k n i"
  shows "vis_ok (push_to k i s) (Op - {k}) J" and "grow s (push_to k i s)"
    and "fresh_in (cur_fn s) x \<Longrightarrow> fresh_in (cur_fn (push_to k i s)) x"
proof -
  have f0: "fn_ok (known_funcs s) (known_objs s) (vs_next_bb s) Op J (cur_fn s)" using ok by (simp add: vis_ok_def)
  then have kf: "k \<in> block_keys (cur_fn s)" using k by (auto simp: fn_ok_def)
  then obtain "is" where at: "instrs_at (cur_fn s) k = Some is" using instrs_at_keys by blast
  have nd: "def_of i = None" using i(2) by (cases i) (simp_all add: is_control_def)
  have tg': "targets_at (block_keys (cur_fn s)) J k (length is) i" by (rule targets_at_mono [OF tg]) auto
  note p = fn_ok_push [OF f0 k i(1) [unfolded instr_ok_at_def] _ _ at subset_refl _ tg', of "Op - {k}"]
  have new: "fn_ok (known_funcs s) (known_objs s) (vs_next_bb s) (Op - {k}) J (update_bb k (bb_push i) (cur_fn s))" using p(1) i(2) nd by simp
  note e = edit_bb_ok [OF ok kf bb_push_fields(1) new]
  show "vis_ok (push_to k i s) (Op - {k}) J" "grow s (push_to k i s)" using e by (simp_all add: push_to_def)
  show "fresh_in (cur_fn (push_to k i s)) x" if "fresh_in (cur_fn s) x"
    using that p(2) i(2) nd by (auto simp: push_to_def e(3) fresh_in_def)
qed

lemma push_branch_ok:
  assumes ok: "vis_ok s Op J" and k: "k \<in> Op" and r: "reg_ok s r" and cur: "vs_cur s = Some k"
  shows "vis_ok (push_to k (BranchInstr r 0 0) s) (Op - {k}) (J \<union> {(k, cur_length s, True), (k, cur_length s, False)})"
    and "grow s (push_to k (BranchInstr r 0 0) s)"
    and "{(k, cur_length s, True), (k, cur_length s, False)} \<inter> J = {}"
proof -
  let ?i = "BranchInstr r 0 0"
  have f0: "fn_ok (known_funcs s) (known_objs s) (vs_next_bb s) Op J (cur_fn s)" using ok by (simp add: vis_ok_def)
  then have kf: "k \<in> block_keys (cur_fn s)" using k by (auto simp: fn_ok_def)
  then obtain "is" where at: "instrs_at (cur_fn s) k = Some is" using instrs_at_keys by blast
  have len: "cur_length s = length is"
  proof (cases "vs_in_init s")
    case True
    then show ?thesis using at cur by (simp add: cur_length_def cur_fn_def)
  next
    case False
    then have "k \<notin> block_keys (vs_init s)" using ok kf by (auto simp: vis_ok_def)
    then have "instrs_at (vs_init s) k = None" by (auto simp: instrs_at_def find_None_iff block_keys_def)
    moreover obtain f where "vs_func s = Some f" using ok False by (auto simp: vis_ok_def)
    ultimately show ?thesis using at cur False by (simp add: cur_length_def cur_fn_def)
  qed
  let ?n = "{(k, cur_length s, True), (k, cur_length s, False)}"
  have "k \<notin> fst ` J" using f0 k by (auto simp: fn_ok_def)
  then show "?n \<inter> J = {}" by (auto simp: image_iff)
  have i: "instr_ok (known_funcs s) (known_objs s) (nf_max_reg_id (cur_fn s)) (block_keys (cur_fn s)) ?i"
    using r by (simp add: instr_ok_def uses_ok_def refs_ok_def reg_ok_def)
  have new: "fn_ok (known_funcs s) (known_objs s) (vs_next_bb s) (Op - {k}) (J \<union> ?n) (update_bb k (bb_push ?i) (cur_fn s))"
    by (rule fn_ok_push(1) [OF f0 k i _ _ at]) (auto simp: is_control_def targets_at_def len)
  note e = edit_bb_ok [OF ok kf bb_push_fields(1) new]
  show "vis_ok (push_to k ?i s) (Op - {k}) (J \<union> ?n)" "grow s (push_to k ?i s)" using e by (simp_all add: push_to_def)
qed

lemma patch_ok:
  assumes ok: "vis_ok s Op J" and k: "k \<in> block_keys (cur_fn s)" and p: "fst p \<in> block_keys (cur_fn s)"
  shows "vis_ok (patch k p s) Op (J - {p})" and "grow s (patch k p s)"
    and "fresh_in (cur_fn (patch k p s)) x = fresh_in (cur_fn s) x" and "vs_cur (patch k p s) = vs_cur s"
proof -
  obtain b n t where p': "p = (b, n, t)" by (cases p)
  let ?g = "\<lambda>x. x\<lparr>bb_instrs := (bb_instrs x)[n := set_target t k (bb_instrs x ! n)]\<rparr>"
  have f0: "fn_ok (known_funcs s) (known_objs s) (vs_next_bb s) Op J (cur_fn s)" using ok by (simp add: vis_ok_def)
  note q = fn_ok_patch [OF f0 k p]
  have P: "patch_fn k p (cur_fn s) = update_bb b ?g (cur_fn s)" "patch k p s = edit_bb b ?g s"
    by (simp_all add: patch_fn_def patch_def p')
  have b: "b \<in> block_keys (cur_fn s)" using p p' by simp
  note e = edit_bb_ok [OF ok b _ q(1) [unfolded P(1)]]
  show "vis_ok (patch k p s) Op (J - {p})" "grow s (patch k p s)" unfolding P(2) by (rule e; simp)+
  have "cur_fn (patch k p s) = patch_fn k p (cur_fn s)" unfolding P by (rule e) simp
  then show "fresh_in (cur_fn (patch k p s)) x = fresh_in (cur_fn s) x" by (simp add: fresh_in_def q(2,4))
  show "vs_cur (patch k p s) = vs_cur s" by (simp add: P(2))
qed

lemma patch_all_ok:
  assumes "vis_ok s Op J" and "k \<in> block_keys (cur_fn s)" and "\<forall>p\<in>set ps. fst p \<in> block_keys (cur_fn s)"
  shows "vis_ok (patch_all k ps s) Op (J - set ps) \<and> grow s (patch_all k ps s) \<and> vs_cur (patch_all k ps s) = vs_cur s \<and>
    (\<forall>x. fresh_in (cur_fn (patch_all k ps s)) x = fresh_in (cur_fn s) x)"
  using assms
proof (induction ps arbitrary: s J)
  case (Cons p ps)
  have pk: "fst p \<in> block_keys (cur_fn s)" using Cons.prems(3) by simp
  note q = patch_ok [OF Cons.prems(1,2) pk]
  have k: "k \<in> block_keys (cur_fn (patch k p s))" "\<forall>p'\<in>set ps. fst p' \<in> block_keys (cur_fn (patch k p s))"
    using q(2) Cons.prems(2,3) by (auto simp: grow_def)
  have J: "J - {p} - set ps = J - set (p # ps)" by auto
  show ?case using Cons.IH [OF q(1) k] q(2-4) grow_trans unfolding J by (auto simp: patch_all_def)
qed (simp add: patch_all_def)

lemma slots_keys: "vis_ok s Op J \<Longrightarrow> p \<in> J \<Longrightarrow> fst p \<in> block_keys (cur_fn s) \<and> fst p \<notin> Op"
  by (auto simp: vis_ok_def fn_ok_def)

lemma open_key: "vis_ok s Op J \<Longrightarrow> k \<in> Op \<Longrightarrow> k \<in> block_keys (cur_fn s)"
  by (auto simp: vis_ok_def fn_ok_def)

lemma push_cur_inside:
  assumes p: "push_cur_bb i s = Inr s'" and ok: "vis_ok s Op J" "cur_open s Op" and i: "instr_ok_at s i"
    and d: "\<And>d. def_of i = Some d \<Longrightarrow> fresh_in (cur_fn s) d" and nc: "\<not> is_control i"
  shows "inside Op J s s'" and "fresh_in (cur_fn s) x \<Longrightarrow> def_of i \<noteq> Some x \<Longrightarrow> fresh_in (cur_fn s') x"
proof -
  obtain c where c: "vs_cur s = Some c" "s' = push_to c i s" using p by (auto simp: push_cur_bb_def split: option.splits)
  then have "c \<in> Op" using ok(2) by (simp add: cur_open_def)
  from push_to_ok [OF ok(1) this i d nc] show "inside Op J s s'"
    "fresh_in (cur_fn s) x \<Longrightarrow> def_of i \<noteq> Some x \<Longrightarrow> fresh_in (cur_fn s') x"
    by (simp_all add: inside_def c push_to_def)
qed

section \<open>Straight code\<close>

lemma instr_ok_at_grow: "grow s s' \<Longrightarrow> known_funcs s' = known_funcs s \<Longrightarrow> instr_ok_at s i \<Longrightarrow> instr_ok_at s' i"
  unfolding instr_ok_at_def by (erule instr_ok_mono) (auto simp: grow_def known_objs_def)

text \<open>A register is taken and the next instruction defines it.\<close>

lemma emit_new:
  assumes n: "v_new_reg s = Inr (r, s1)" and p: "push_cur_bb i s1 = Inr s2" and ok: "vis_ok s Op J" "cur_open s Op"
    and i: "instr_ok_at s1 i" "def_of i = Some r" "\<not> is_control i"
  shows "inside Op J s s2" and "reg_ok s2 r" and "fresh_in (cur_fn s) x \<Longrightarrow> fresh_in (cur_fn s2) x"
proof -
  note a = new_reg_inside [OF n ok(1)]
  have co: "cur_open s1 Op" using insideD(3) [OF a(1)] ok(2) by simp
  have fr: "fresh_in (cur_fn s1) d" if "def_of i = Some d" for d using that i(2) a(2) by simp
  note b = push_cur_inside [OF p insideD(1) [OF a(1)] co i(1) fr i(3)]
  show "inside Op J s s2" using a(1) b(1) by (rule inside_trans)
  show "reg_ok s2 r" using inside_reg [OF b(1) a(4)] .
  show "fresh_in (cur_fn s) x \<Longrightarrow> fresh_in (cur_fn s2) x" using a(3) b(2) i(2) by auto
qed

lemma instr_simps:
  "instr_ok_at s (LoadInstr d a off None) = (reg_ok s d \<and> reg_ok s a)"
  "instr_ok_at s (UnaryOpI d x u) = (reg_ok s d \<and> reg_ok s x)"
  "instr_ok_at s (BinaryOpI d x y b) = (reg_ok s d \<and> reg_ok s x \<and> reg_ok s y)"
  "instr_ok_at s (LoadConstI d v) = reg_ok s d"
  "instr_ok_at s (LoadConstF d v) = reg_ok s d"
  "instr_ok_at s (LoadArg t d n) = reg_ok s d"
  "instr_ok_at s (LoadAddr d k) = (reg_ok s d \<and> k \<in> known_objs s)"
  "instr_ok_at s (ArrayIndex d x y sz l) = (reg_ok s d \<and> reg_ok s x \<and> reg_ok s y)"
  "instr_ok_at s (StoreInstr a x off None) = (reg_ok s a \<and> reg_ok s x)"
  "instr_ok_at s (JumpInstr tb)" "instr_ok_at s (BranchInstr x t1 t0) = reg_ok s x"
  "instr_ok_at s (ReturnInstr t x ig) = reg_ok s x"
  "instr_ok_at s (PhiInstr d us) = (reg_ok s d \<and> (\<forall>(r, b)\<in>set us. reg_ok s r \<and> b \<in> block_keys (cur_fn s)))"
  by (auto simp: instr_ok_at_def instr_ok_def uses_ok_def refs_ok_def reg_ok_def)

lemma control_simps:
  "\<not> is_control (LoadInstr d a off r)" "\<not> is_control (UnaryOpI d x u)" "\<not> is_control (BinaryOpI d x y b)"
  "\<not> is_control (LoadConstI d v)" "\<not> is_control (LoadConstF d v)" "\<not> is_control (LoadArg t d n)" "\<not> is_control (LoadAddr d k)"
  "\<not> is_control (ArrayIndex d x y sz l)" "\<not> is_control (StoreInstr a x off r)" "\<not> is_control (PhiInstr d us)"
  "\<not> is_control (CallInstr d g as t nl ns)" "is_control (JumpInstr tb)" "is_control (BranchInstr x t1 t0)" "is_control (ReturnInstr t x ig)"
  by (simp_all add: is_control_def)

text \<open>The judgement of a visitor of straight code that gives a register.\<close>

definition gives_reg :: "bb_key set \<Rightarrow> slot set \<Rightarrow> vis \<Rightarrow> reg \<Rightarrow> vis \<Rightarrow> bool" where
  "gives_reg Op J s r s' = (inside Op J s s' \<and> reg_ok s' r \<and> (\<forall>x. fresh_in (cur_fn s) x \<longrightarrow> fresh_in (cur_fn s') x))"

lemma gives_regI:
  assumes "v_new_reg s = Inr (r, s1)" and "push_cur_bb i s1 = Inr s2" and "vis_ok s Op J" "cur_open s Op"
    and "instr_ok_at s1 i" "def_of i = Some r" "\<not> is_control i"
  shows "gives_reg Op J s r s2"
  using emit_new [OF assms] by (simp add: gives_reg_def)

lemma gives_regD:
  assumes "gives_reg Op J s r s'"
  shows "inside Op J s s'" and "vis_ok s' Op J" and "reg_ok s' r" and "reg_ok s x \<Longrightarrow> reg_ok s' x"
    and "cur_open s' Op = cur_open s Op" and "fresh_in (cur_fn s) x \<Longrightarrow> fresh_in (cur_fn s') x" and "grow s s'"
  using assms insideD inside_reg by (auto simp: gives_reg_def)

lemma gives_reg_then: "gives_reg Op J s x s1 \<Longrightarrow> gives_reg Op J s1 r s2 \<Longrightarrow> gives_reg Op J s r s2"
  unfolding gives_reg_def using inside_trans by blast

lemma gives_reg_self: "vis_ok s Op J \<Longrightarrow> reg_ok s r \<Longrightarrow> gives_reg Op J s r s"
  by (simp add: gives_reg_def inside_refl)

lemma new_reg_ok: "v_new_reg s = Inr (r, s1) \<Longrightarrow> vis_ok s Op J \<Longrightarrow> reg_ok s1 r \<and> (\<forall>x. reg_ok s x \<longrightarrow> reg_ok s1 x)"
  using new_reg_inside(1,4) inside_reg by metis

lemma get_value_ok:
  assumes g: "get_value v s = Inr (r, s')" and ok: "vis_ok s Op J" "cur_open s Op" and r: "reg_ok s (iv_reg v)"
  shows "gives_reg Op J s r s'"
proof (cases "iv_left v")
  case True
  then obtain s1 where n: "v_new_reg s = Inr (r, s1)" "push_cur_bb (LoadInstr r (iv_reg v) 0 None) s1 = Inr s'"
    using g by (auto simp: get_value_def split: if_splits)
  show ?thesis
    by (rule gives_regI [OF n ok]) (use new_reg_ok [OF n(1) ok(1)] r in \<open>simp_all add: instr_simps control_simps\<close>)
next
  case False
  then show ?thesis using g ok r gives_reg_self by (auto simp: get_value_def split: if_splits)
qed

lemma get_value_as_ok:
  assumes g: "get_value_as t v s = Inr (r, s')" and ok: "vis_ok s Op J" "cur_open s Op" and r: "reg_ok s (iv_reg v)"
  shows "gives_reg Op J s r s'"
proof -
  obtain r1 s1 where a: "get_value v s = Inr (r1, s1)" and rest: "(if ty_scalar (iv_type v) = t then Inr (r1, s1)
     else andthen (v_new_reg s1) (\<lambda>(temp, s). andthen (case t of IntT \<Rightarrow> push_cur_bb (UnaryOpI temp r1 F2I) s
         | FloatT \<Rightarrow> push_cur_bb (UnaryOpI temp r1 I2F) s | _ \<Rightarrow> Inl AssertionFailed) (\<lambda>s. Inr (temp, s)))) = Inr (r, s')"
    using g by (auto simp: get_value_as_def)
  note v = get_value_ok [OF a ok r]
  note d = gives_regD [OF v]
  show ?thesis
  proof (cases "ty_scalar (iv_type v) = t")
    case True
    then show ?thesis using rest v by simp
  next
    case False
    then obtain s2 u where n: "v_new_reg s1 = Inr (r, s2)" "push_cur_bb (UnaryOpI r r1 u) s2 = Inr s'"
      using rest by (cases t) auto
    have "gives_reg Op J s1 r s'"
      by (rule gives_regI [OF n d(2)]) (use d(3,5) ok(2) new_reg_ok [OF n(1) d(2)] in \<open>simp_all add: instr_simps control_simps\<close>)
    then show ?thesis using v gives_reg_then by blast
  qed
qed

lemma emit_binary_ok:
  assumes n: "v_new_reg s = Inr (r, s1)" and e: "emit_binary t b r x y s1 = Inr s2" and ok: "vis_ok s Op J" "cur_open s Op"
    and xy: "reg_ok s x" "reg_ok s y"
  shows "gives_reg Op J s r s2"
proof -
  obtain op where p: "push_cur_bb (BinaryOpI r x y op) s1 = Inr s2" using e by (auto simp: emit_binary_def)
  show ?thesis
    by (rule gives_regI [OF n p ok]) (use xy new_reg_ok [OF n ok(1)] in \<open>simp_all add: instr_simps control_simps\<close>)
qed

lemma emit_unary_ok:
  assumes n: "v_new_reg s = Inr (r, s1)" and e: "emit_unary t u r x s1 = Inr s2" and ok: "vis_ok s Op J" "cur_open s Op"
    and x: "reg_ok s x"
  shows "gives_reg Op J s r s2"
proof -
  obtain op where p: "push_cur_bb (UnaryOpI r x op) s1 = Inr s2" using e by (auto simp: emit_unary_def)
  show ?thesis
    by (rule gives_regI [OF n p ok]) (use x new_reg_ok [OF n ok(1)] in \<open>simp_all add: instr_simps control_simps\<close>)
qed

lemma two_values_ok:
  assumes a: "get_value_as t lhs s = Inr (x, s1)" and b: "get_value_as t rhs s1 = Inr (y, s2)" and ok: "vis_ok s Op J" "cur_open s Op"
    and r: "reg_ok s (iv_reg lhs)" "reg_ok s (iv_reg rhs)"
  shows "gives_reg Op J s y s2" and "reg_ok s2 x"
proof -
  note a1 = get_value_as_ok [OF a ok r(1)]
  note d = gives_regD [OF a1]
  have co: "cur_open s1 Op" using d(5) ok(2) by simp
  note b1 = get_value_as_ok [OF b d(2) co d(4) [OF r(2)]]
  show "gives_reg Op J s y s2" using a1 b1 by (rule gives_reg_then)
  show "reg_ok s2 x" using gives_regD(4) [OF b1] d(3) by blast
qed

lemma arith_emit_ok:
  assumes e: "arith_emit t b lhs rhs s = Inr (r, s')" and ok: "vis_ok s Op J" "cur_open s Op"
    and r: "reg_ok s (iv_reg lhs)" "reg_ok s (iv_reg rhs)"
  shows "gives_reg Op J s r s'"
proof -
  obtain x s1 y s2 s3 where st: "get_value_as t lhs s = Inr (x, s1)" "get_value_as t rhs s1 = Inr (y, s2)"
    "v_new_reg s2 = Inr (r, s3)" "emit_binary t b r x y s3 = Inr s'"
    using e by (auto simp: arith_emit_def)
  note v = two_values_ok [OF st(1,2) ok r]
  have "gives_reg Op J s2 r s'"
    using emit_binary_ok [OF st(3,4) gives_regD(2) [OF v(1)]] gives_regD(3,5) [OF v(1)] v(2) ok(2) by simp
  then show ?thesis using v(1) gives_reg_then by blast
qed

lemma emit_indices_ok:
  assumes "emit_indices addr xs s = Inr (r, s')" and "vis_ok s Op J" "cur_open s Op" and "reg_ok s addr"
    and "\<forall>(x, sz)\<in>set xs. reg_ok s x"
  shows "gives_reg Op J s r s'"
  using assms
proof (induction xs arbitrary: addr s)
  case Nil
  then show ?case by (auto intro: gives_reg_self)
next
  case (Cons p xs)
  obtain x sz where p: "p = (x, sz)" by (cases p)
  obtain a s1 s2 where st: "v_new_reg s = Inr (a, s1)" "push_cur_bb (ArrayIndex a addr x (ucast sz) (-1)) s1 = Inr s2"
    "emit_indices a xs s2 = Inr (r, s')"
    using Cons.prems(1) by (auto simp: p)
  have g: "gives_reg Op J s a s2"
    by (rule gives_regI [OF st(1,2) Cons.prems(2,3)])
      (use Cons.prems(4,5) new_reg_ok [OF st(1) Cons.prems(2)] p in \<open>auto simp: instr_simps control_simps\<close>)
  note d = gives_regD [OF g]
  have "\<forall>(x, sz)\<in>set xs. reg_ok s2 x" using Cons.prems(5) d(4) by auto
  then have "gives_reg Op J s2 r s'" using Cons.IH [OF st(3) d(2) _ d(3)] d(5) Cons.prems(3) by simp
  then show ?case using g gives_reg_then by blast
qed

lemma pointer_add_ok:
  assumes e: "pointer_add lhs rhs s = Inr (v, s')" and ok: "vis_ok s Op J" "cur_open s Op"
    and r: "reg_ok s (iv_reg lhs)" "reg_ok s (iv_reg rhs)"
  shows "\<exists>x. v = VIR x \<and> gives_reg Op J s (iv_reg x) s'"
proof -
  obtain x s1 t sz s2 s3 st s4 s5 res s6 where st: "get_value_as IntT rhs s = Inr (x, s1)" "deref_one_dim (iv_type lhs) = Inr t"
    "v_new_reg s1 = Inr (sz, s2)" "push_cur_bb (LoadConstI sz (4 * ucast (prod_list (ty_dims t)))) s2 = Inr s3"
    "v_new_reg s3 = Inr (st, s4)" "push_cur_bb (BinaryOpI st x sz MUL) s4 = Inr s5"
    "v_new_reg s5 = Inr (res, s6)" "push_cur_bb (BinaryOpI res (iv_reg lhs) st ADD) s6 = Inr s'"
    "v = VIR \<lparr>iv_type = iv_type lhs, iv_left = False, iv_reg = res\<rparr>"
    using e by (auto simp: pointer_add_def)
  note g1 = get_value_as_ok [OF st(1) ok r(2)]
  note d1 = gives_regD [OF g1]
  have g2: "gives_reg Op J s1 sz s3"
    by (rule gives_regI [OF st(3,4) d1(2)]) (use d1(5) ok(2) new_reg_ok [OF st(3) d1(2)] in \<open>simp_all add: instr_simps control_simps\<close>)
  note d2 = gives_regD [OF g2]
  have g3: "gives_reg Op J s3 st s5"
    by (rule gives_regI [OF st(5,6) d2(2)])
      (use d1(3,5) d2(3-5) ok(2) new_reg_ok [OF st(5) d2(2)] in \<open>simp_all add: instr_simps control_simps\<close>)
  note d3 = gives_regD [OF g3]
  have l: "reg_ok s5 (iv_reg lhs)" using r(1) d1(4) d2(4) d3(4) by blast
  have g4: "gives_reg Op J s5 res s'"
    by (rule gives_regI [OF st(7,8) d3(2)])
      (use l d1(5) d2(5) d3(3,5) ok(2) new_reg_ok [OF st(7) d3(2)] in \<open>simp_all add: instr_simps control_simps\<close>)
  show ?thesis using gives_reg_then [OF gives_reg_then [OF gives_reg_then [OF g1 g2] g3] g4] st(9) by simp
qed

lemma add_normal_ok:
  assumes e: "add_normal op lhs rhs s = Inr (v, s')" and ok: "vis_ok s Op J" "cur_open s Op"
    and r: "reg_ok s (iv_reg lhs)" "reg_ok s (iv_reg rhs)"
  shows "\<exists>x. v = VIR x \<and> gives_reg Op J s (iv_reg x) s'"
proof -
  obtain a b where ab: "(if is_array (iv_type rhs) then (rhs, lhs) else (lhs, rhs)) = (a, b)" "reg_ok s (iv_reg a)" "reg_ok s (iv_reg b)"
    using r by (cases "is_array (iv_type rhs)") auto
  show ?thesis
  proof (cases "is_array (iv_type a)")
    case True
    then show ?thesis using e ab pointer_add_ok [OF _ ok ab(2,3)] by (simp add: add_normal_def)
  next
    case False
    then obtain res where "arith_emit (join_type a b) (if op = CHR ''+'' then ADD else SUB) a b s = Inr (res, s')"
      "v = VIR (rvalue (join_type a b) res)"
      using e ab(1) by (auto simp: add_normal_def Let_def)
    then show ?thesis using arith_emit_ok [OF _ ok ab(2,3)] by (simp add: rvalue_def)
  qed
qed

lemma compare_emit_ok:
  assumes e: "compare_emit rv b lhs rhs s = Inr (v, s')" and ok: "vis_ok s Op J" "cur_open s Op"
    and r: "reg_ok s (iv_reg lhs)" "reg_ok s (iv_reg rhs)"
  shows "\<exists>x. v = VIR x \<and> gives_reg Op J s (iv_reg x) s'"
proof -
  obtain x s1 y s2 s3 res where st: "get_value_as (join_type lhs rhs) lhs s = Inr (x, s1)" "get_value_as (join_type lhs rhs) rhs s1 = Inr (y, s2)"
    "v_new_reg s2 = Inr (res, s3)" "emit_binary (join_type lhs rhs) b res (if rv then y else x) (if rv then x else y) s3 = Inr s'"
    "v = VIR (rvalue IntT res)"
    using e by (auto simp: compare_emit_def Let_def split: if_splits)
  note v = two_values_ok [OF st(1,2) ok r]
  have "gives_reg Op J s2 res s'"
    by (rule emit_binary_ok [OF st(3,4) gives_regD(2) [OF v(1)]]) (use gives_regD(3,5) [OF v(1)] v(2) ok(2) in auto)
  then show ?thesis using v(1) gives_reg_then st(5) by (auto simp: rvalue_def)
qed

lemma unary3_normal_ok:
  assumes e: "unary3_normal op rhs s = Inr (v, s')" and ok: "vis_ok s Op J" "cur_open s Op" and r: "reg_ok s (iv_reg rhs)"
  shows "\<exists>x. v = VIR x \<and> gives_reg Op J s (iv_reg x) s'"
proof -
  let ?t = "if op = CHR ''!'' then IntT else ty_scalar (iv_type rhs)"
  obtain x s1 where a: "get_value_as ?t rhs s = Inr (x, s1)" using e by (auto simp: unary3_normal_def Let_def)
  note g = get_value_as_ok [OF a ok r]
  note d = gives_regD [OF g]
  show ?thesis
  proof (cases "op = CHR ''+''")
    case True
    then show ?thesis using e a g by (auto simp: unary3_normal_def Let_def rvalue_def)
  next
    case False
    then obtain res s2 u where n: "v_new_reg s1 = Inr (res, s2)" "emit_unary ?t u res x s2 = Inr s'" "v = VIR (rvalue ?t res)"
      using e a by (auto simp: unary3_normal_def Let_def)
    have "gives_reg Op J s1 res s'" using emit_unary_ok [OF n(1,2) d(2)] d(3,5) ok(2) by simp
    then show ?thesis using g gives_reg_then n(3) by (auto simp: rvalue_def)
  qed
qed

lemma unary3_condition_ok:
  assumes e: "unary3_condition op rhs s = Inr (v, s')" and ok: "vis_ok s Op J" "cur_open s Op" and r: "reg_ok s (iv_reg rhs)"
  shows "\<exists>x. v = VIR x \<and> gives_reg Op J s (iv_reg x) s'"
proof (cases "op = CHR ''+''")
  case True
  then show ?thesis using e get_value_as_ok [OF _ ok r] by (auto simp: unary3_condition_def)
next
  case False
  then obtain x s1 res s2 where st: "get_value rhs s = Inr (x, s1)" "v_new_reg s1 = Inr (res, s2)"
    "emit_unary (ty_scalar (iv_type rhs)) NEG res x s2 = Inr s'" "v = VIR (rvalue (ty_scalar (iv_type rhs)) res)"
    using e by (auto simp: unary3_condition_def)
  note g = get_value_ok [OF st(1) ok r]
  have "gives_reg Op J s1 res s'" using emit_unary_ok [OF st(2,3) gives_regD(2) [OF g]] gives_regD(3,5) [OF g] ok(2) by simp
  then show ?thesis using g gives_reg_then st(4) by (auto simp: rvalue_def)
qed

lemma visit_literal_ok:
  assumes e: "visit_literal n s = Inr (v, s')" and ok: "vis_ok s Op J" "cur_open s Op" and m: "vs_mode s \<noteq> CompileTime"
  shows "\<exists>x. v = VIR x \<and> gives_reg Op J s (iv_reg x) s'"
proof -
  obtain c r s1 where st: "v_new_reg s = Inr (r, s1)" "push_cur_bb (load_const r c) s1 = Inr s'" "v = VIR (rvalue (scalar_type_of c) r)"
    using e m by (auto simp: visit_literal_def)
  have "gives_reg Op J s r s'"
    by (rule gives_regI [OF st(1,2) ok])
      (use new_reg_ok [OF st(1) ok(1)] in \<open>auto simp: load_const_def instr_simps control_simps split: typed_scalar.split\<close>)
  then show ?thesis using st(3) by (simp add: rvalue_def)
qed

section \<open>Calls\<close>

lemma grow_funcs: "grow s s' \<Longrightarrow> vis_ok s Op J \<Longrightarrow> known_funcs s' = known_funcs s"
  by (auto simp: grow_def vis_ok_def known_funcs_def cur_fn_def split: if_splits)

definition args_ok :: "vis \<Rightarrow> (reg \<times> scalar_type) list \<Rightarrow> bool" where
  "args_ok s as = (\<forall>(r, ty)\<in>set as. reg_ok s r \<or> r = 0 \<and> ty = FloatT)"

definition arg_ok :: "vis \<Rightarrow> arg \<Rightarrow> bool" where
  "arg_ok s a = (case a of AVal v \<Rightarrow> reg_ok s (iv_reg v) | AObj k \<Rightarrow> k \<in> known_objs s)"

lemma arg_ok_grow: "grow s s' \<Longrightarrow> arg_ok s a \<Longrightarrow> arg_ok s' a"
  using grow_known(1,2) by (fastforce simp: arg_ok_def split: arg.split)

lemma args_ok_grow: "grow s s' \<Longrightarrow> args_ok s as \<Longrightarrow> args_ok s' as"
  unfolding args_ok_def using grow_known(2) by fastforce

lemma args_ok_simps [simp]:
  "args_ok s []" "args_ok s ((r, ty) # as) = ((reg_ok s r \<or> r = 0 \<and> ty = FloatT) \<and> args_ok s as)"
  "args_ok s (as @ bs) = (args_ok s as \<and> args_ok s bs)"
  by (auto simp: args_ok_def)

lemma inside_grow: "inside Op J s s' \<Longrightarrow> grow s s'"
  by (rule insideD)

lemma inside_arg:
  assumes "inside Op J s s1" and "inside Op J s1 s' \<and> args_ok s' rs" and "reg_ok s1 r"
  shows "inside Op J s s' \<and> args_ok s' ((r, ty) # rs)"
  using inside_trans [OF assms(1)] inside_reg [OF conjunct1 [OF assms(2)] assms(3)] assms(2) by simp

lemma inside_all: "inside Op J s s' \<Longrightarrow> cur_open s Op \<Longrightarrow> vis_ok s' Op J \<and> cur_open s' Op \<and> grow s s'"
  using insideD(1-3) by simp

lemma call_args_ok:
  assumes "call_args var ps as off s = Inr (rs, s')" and "vis_ok s Op J" "cur_open s Op" and "\<forall>a\<in>set as. arg_ok s a"
  shows "inside Op J s s' \<and> args_ok s' rs"
  using assms
proof (induction var ps as off s arbitrary: rs s' rule: call_args.induct)
  case (1 var ps off s)
  then show ?case by (simp add: inside_refl)
next
  case (2 var t ps v as off s)
  obtain r ty s1 rs' where st: "(if is_array t then Inr (iv_reg v, IntT, s)
      else andthen (get_value_as (ty_scalar t) v s) (\<lambda>(r, s). Inr (r, ty_scalar t, s))) = Inr (r, ty, s1)"
    "call_args var ps as (off + 1) s1 = Inr (rs', s')" "rs = (r, ty) # rs'"
    using "2.prems"(1) by auto
  have v: "reg_ok s (iv_reg v)" using "2.prems"(4) by (simp add: arg_ok_def)
  have g: "gives_reg Op J s r s1"
    using st(1) get_value_as_ok [OF _ "2.prems"(2,3) v] gives_reg_self [OF "2.prems"(2) v] by (auto split: if_splits)
  note d = gives_regD [OF g]
  have co: "cur_open s1 Op" using d(5) "2.prems"(3) by simp
  have as: "\<forall>a\<in>set as. arg_ok s1 a" using "2.prems"(4) arg_ok_grow [OF d(7)] by simp
  have "inside Op J s1 s' \<and> args_ok s' rs'" by (rule "2.IH" [OF st(1) refl refl st(2) d(2) co as])
  then show ?case unfolding st(3) by (rule inside_arg [OF d(1) _ d(3)])
next
  case (4 var v as off s)
  obtain r s1 where a: "get_value_as (ty_scalar (iv_type v)) v s = Inr (r, s1)" using "4.prems"(1) by auto
  have v: "reg_ok s (iv_reg v)" using "4.prems"(4) by (simp add: arg_ok_def)
  note g = get_value_as_ok [OF a "4.prems"(2,3) v]
  note d = gives_regD [OF g]
  have as: "\<forall>a\<in>set as. arg_ok s1 a" using "4.prems"(4) arg_ok_grow [OF d(7)] by simp
  have co: "cur_open s1 Op" using d(5) "4.prems"(3) by simp
  show ?case
  proof (cases "ty_scalar (iv_type v)")
    case FloatT
    let ?pad = "if off mod 2 = 0 then [] else [(0 :: reg, FloatT)]"
    obtain r0 s2 s3 r1 s4 s5 rs' where st: "v_new_reg s1 = Inr (r0, s2)" "push_cur_bb (UnaryOpI r0 r F2D0) s2 = Inr s3"
      "v_new_reg s3 = Inr (r1, s4)" "push_cur_bb (UnaryOpI r1 r F2D1) s4 = Inr s5"
      "call_args var [] as (off + length ?pad + 2) s5 = Inr (rs', s')" "rs = ?pad @ [(r0, FloatT), (r1, FloatT)] @ rs'"
      using "4.prems"(1) a FloatT by (clarsimp simp: Let_def)
    have g0: "gives_reg Op J s1 r0 s3"
      by (rule gives_regI [OF st(1,2) d(2) co]) (use d(3) new_reg_ok [OF st(1) d(2)] in \<open>simp_all add: instr_simps control_simps\<close>)
    note d0 = gives_regD [OF g0]
    have g1: "gives_reg Op J s3 r1 s5"
      by (rule gives_regI [OF st(3,4) d0(2)])
        (use d(3) d0(4,5) co new_reg_ok [OF st(3) d0(2)] in \<open>simp_all add: instr_simps control_simps\<close>)
    note d1 = gives_regD [OF g1]
    have g5: "grow s1 s5" using d0(7) d1(7) by (rule grow_trans)
    have co5: "cur_open s5 Op" using d1(5) d0(5) co by simp
    have as5: "\<forall>a\<in>set as. arg_ok s5 a" using as arg_ok_grow [OF g5] by simp
    have "inside Op J s5 s' \<and> args_ok s' rs'"
      by (rule "4.IH"(2) [OF a refl FloatT refl st(1) refl st(2,3) refl st(4,5) d1(2) co5 as5])
    from inside_arg [OF d1(1) this d1(3)] inside_arg [OF d0(1) _ d0(3)]
    have "inside Op J s1 s' \<and> args_ok s' ((r0, FloatT) # (r1, FloatT) # rs')" by blast
    then show ?thesis using inside_trans [OF d(1)] by (simp add: st(6))
  next
    case IntT
    then obtain rs' where st: "call_args var [] as (off + 1) s1 = Inr (rs', s')" "rs = (r, IntT) # rs'"
      using "4.prems"(1) a by auto
    have "inside Op J s1 s' \<and> args_ok s' rs'" by (rule "4.IH"(1) [OF a refl IntT st(1) d(2) co as])
    then show ?thesis unfolding st(2) by (rule inside_arg [OF d(1) _ d(3)])
  qed (use "4.prems"(1) a in auto)
next
  case (5 var ps k as off s)
  obtain r s1 s2 rs' where st: "v_new_reg s = Inr (r, s1)" "push_cur_bb (LoadAddr r k) s1 = Inr s2"
    "call_args var ps as (off + 1) s2 = Inr (rs', s')" "rs = (r, IntT) # rs'"
    using "5.prems"(1) by auto
  have "known_objs s \<subseteq> known_objs s1" using grow_known(1) inside_grow new_reg_inside(1) [OF st(1) "5.prems"(2)] by blast
  then have k: "k \<in> known_objs s1" using "5.prems"(4) by (auto simp: arg_ok_def)
  have g: "gives_reg Op J s r s2"
    by (rule gives_regI [OF st(1,2) "5.prems"(2,3)]) (use k new_reg_ok [OF st(1) "5.prems"(2)] in \<open>simp_all add: instr_simps control_simps\<close>)
  note d = gives_regD [OF g]
  have co: "cur_open s2 Op" using d(5) "5.prems"(3) by simp
  have as: "\<forall>a\<in>set as. arg_ok s2 a" using "5.prems"(4) arg_ok_grow [OF d(7)] by simp
  have "inside Op J s2 s' \<and> args_ok s' rs'" by (rule "5.IH" [OF st(1) refl st(2,3) d(2) co as])
  then show ?case unfolding st(4) by (rule inside_arg [OF d(1) _ d(3)])
qed simp_all

lemma call_instr_ok:
  "instr_ok_at s (CallInstr d g as t nl ns) = (reg_ok s d \<and> g \<in> known_funcs s \<and> args_ok s as)"
  by (auto simp: instr_ok_at_def instr_ok_def uses_ok_def refs_ok_def reg_ok_def args_ok_def)

definition value_ok :: "vis \<Rightarrow> any_value \<Rightarrow> bool" where
  "value_ok s v = (case v of VIR x \<Rightarrow> reg_ok s (iv_reg x) | _ \<Rightarrow> True)"

definition is_cond :: "any_value \<Rightarrow> bool" where
  "is_cond v = (case v of VCond j \<Rightarrow> True | _ \<Rightarrow> False)"

lemma finish_call_ok:
  assumes c: "finish_call name e args line s = Inr (v, s')" and ok: "vis_ok s Op J" "cur_open s Op"
    and args: "\<forall>a\<in>set args. arg_ok s a" and e: "e \<in> ran (vs_functions s)"
  shows "inside Op J s s' \<and> value_ok s' v \<and> \<not> is_cond v"
proof -
  obtain regs s1 where a: "call_args (fi_variadic (fe_interface e)) (fi_args (fe_interface e)) args 0 s = Inr (regs, s1)"
    using c by (auto simp: finish_call_def)
  note i1 = call_args_ok [OF a ok args]
  then have ok1: "vis_ok s1 Op J" "cur_open s1 Op" and g1: "grow s s1" using inside_all [OF _ ok(2)] by auto
  obtain regs2 s2 where b: "(if name = ''starttime'' \<or> name = ''stoptime'' then
          andthen (v_new_reg s1) (\<lambda>(r, s). andthen (push_cur_bb (LoadConstI r line) s) (\<lambda>s. Inr (regs @ [(r, IntT)], s)))
        else Inr (regs, s1)) = Inr (regs2, s2)"
    using c a by (auto simp: finish_call_def)
  have i2: "inside Op J s1 s2 \<and> args_ok s2 regs2"
  proof (cases "name = ''starttime'' \<or> name = ''stoptime''")
    case True
    then obtain r s0 where n: "v_new_reg s1 = Inr (r, s0)" "push_cur_bb (LoadConstI r line) s0 = Inr s2" "regs2 = regs @ [(r, IntT)]"
      using b by auto
    have g: "gives_reg Op J s1 r s2"
      by (rule gives_regI [OF n(1,2) ok1]) (use new_reg_ok [OF n(1) ok1(1)] in \<open>simp_all add: instr_simps control_simps\<close>)
    have "args_ok s2 regs" using i1 args_ok_grow [OF gives_regD(7) [OF g]] by blast
    then show ?thesis using gives_regD(1,3) [OF g] by (simp add: n(3))
  next
    case False
    then show ?thesis using b i1 inside_refl [OF ok1(1)] by simp
  qed
  then have ok2: "vis_ok s2 Op J" "cur_open s2 Op" and g2: "grow s s2"
    using inside_all [OF _ ok1(2)] grow_trans [OF g1] by auto
  have "\<exists>ret s3 ty. v_new_reg s2 = Inr (ret, s3) \<and> push_cur_bb (CallInstr ret (fe_func e) regs2 ty False False) s3 = Inr s' \<and>
      (v = VNull \<or> (\<exists>ty'. v = VIR (rvalue ty' ret)))"
    using c a b by (auto simp: finish_call_def split: if_splits)
  then obtain ret s3 ty where st: "v_new_reg s2 = Inr (ret, s3)" "push_cur_bb (CallInstr ret (fe_func e) regs2 ty False False) s3 = Inr s'"
    "v = VNull \<or> (\<exists>ty'. v = VIR (rvalue ty' ret))"
    by blast
  have g3: "grow s s3" using g2 inside_grow [OF new_reg_inside(1) [OF st(1) ok2(1)]] grow_trans by blast
  have "fe_func e \<in> known_funcs s" using ok(1) e by (auto simp: vis_ok_def)
  then have f: "fe_func e \<in> known_funcs s3" using grow_funcs [OF g3 ok(1)] by simp
  have ar: "args_ok s3 regs2" using args_ok_grow [OF inside_grow [OF new_reg_inside(1) [OF st(1) ok2(1)]]] i2 by blast
  have g: "gives_reg Op J s2 ret s'"
    by (rule gives_regI [OF st(1,2) ok2]) (use f ar new_reg_ok [OF st(1) ok2(1)] in \<open>simp_all add: call_instr_ok control_simps\<close>)
  have "inside Op J s s'" using inside_trans [OF inside_trans gives_regD(1) [OF g]] i1 i2 by blast
  then show ?thesis using st(3) gives_regD(3) [OF g] by (auto simp: value_ok_def is_cond_def rvalue_def)
qed

lemma upd_obj_keys: "(\<And>m. mo_key (g m) = mo_key m) \<Longrightarrow> obj_keys (upd_obj k g sc) = obj_keys sc"
proof -
  assume "\<And>m. mo_key (g m) = mo_key m"
  then have "mo_key (if mo_key m = k then g m else m) = mo_key m" for m by simp
  then show ?thesis by (simp add: obj_keys_def upd_obj_def image_image del: if_image_distrib)
qed

lemma new_mem_object_keys: "obj_keys (new_mem_object sc k n) = insert k (obj_keys sc)"
  by (simp add: obj_keys_def new_mem_object_def)

text \<open>Fields of the state around the function under construction.\<close>

lemma scope_inside:
  assumes ok: "vis_ok s Op J" and sc: "obj_keys (vs_scope s) \<subseteq> obj_keys sc"
  shows "inside Op J s (s\<lparr>vs_scope := sc, vs_strings := n, vs_next_obj := m\<rparr>)"
proof -
  let ?s = "s\<lparr>vs_scope := sc, vs_strings := n, vs_next_obj := m\<rparr>"
  have F: "cur_fn ?s = cur_fn s" "known_funcs ?s = known_funcs s" by (simp_all add: cur_fn_def known_funcs_def)
  have K: "known_objs s \<subseteq> known_objs ?s" using sc by (auto simp: known_objs_def F)
  have E: "entry_ok s e \<Longrightarrow> entry_ok ?s e" for e using K by (auto simp: entry_ok_def)
  have R: "reg_ok ?s r = reg_ok s r" for r by (simp add: reg_ok_def F)
  have "fn_ok (known_funcs s) (known_objs ?s) (vs_next_bb s) Op J (cur_fn s)"
    by (rule fn_ok_mono [OF _ subset_refl K order_refl]) (use ok in \<open>simp add: vis_ok_def\<close>)
  then have "vis_ok ?s Op J" unfolding vis_ok_def F R using ok E by (auto simp: vis_ok_def)
  moreover have "grow s ?s" using sc by (auto simp: grow_def F)
  ultimately show ?thesis by (simp add: inside_def)
qed

lemma visit_string_ok:
  assumes "visit_string t s = (k, s')" and "vis_ok s Op J"
  shows "inside Op J s s'" and "k \<in> known_objs s'"
proof -
  let ?sc = "upd_obj (vs_next_obj s) (\<lambda>m. mo_init_chars m (map (\<lambda>c. of_nat (char_code c)) t @ [0]) (2 ^ 64 - 1))
    (new_mem_object (vs_scope s) (vs_next_obj s) (''.string_literal'' @ print_int (int (vs_strings s))))"
  have s': "k = vs_next_obj s" "s' = s\<lparr>vs_scope := ?sc, vs_strings := vs_strings s + 1, vs_next_obj := vs_next_obj s + 1\<rparr>"
    using assms(1) by (auto simp: visit_string_def Let_def)
  have keys: "obj_keys ?sc = insert k (obj_keys (vs_scope s))"
    by (subst upd_obj_keys) (simp_all add: mo_init_chars_def new_mem_object_keys s'(1))
  show "inside Op J s s'" unfolding s'(2) by (rule scope_inside [OF assms(2)]) (use keys in auto)
  show "k \<in> known_objs s'" using keys by (simp add: known_objs_def s'(2))
qed

end
