(* ===== verification/FrontExp.thy ===== *)
theory FrontExp
  imports FrontWf
begin

text \<open>
  The visitors of expressions and conditions keep the invariant of the front end. An expression ends in a
  current block that is the one it started in or a new one; a condition ends with none, and with branches
  whose targets are to be filled in.
\<close>

section \<open>Judgements\<close>

text \<open>From the current block of \<open>s\<close> to the one of \<open>s'\<close>; \<open>Op'\<close> are the open blocks then.\<close>

definition goes :: "bb_key set \<Rightarrow> slot set \<Rightarrow> vis \<Rightarrow> vis \<Rightarrow> bb_key set \<Rightarrow> bool" where
  "goes Op J s s' Op' =
     (\<exists>c c'. vs_cur s = Some c \<and> c \<in> Op \<and> vs_cur s' = Some c' \<and> (c' = c \<or> c' \<notin> Op) \<and> Op' = insert c' (Op - {c}) \<and>
        vis_ok s' Op' J \<and> grow s s' \<and> vs_local s' = vs_local s \<and> vs_return_value s' = vs_return_value s)"

definition slots_of :: "cond_jumps \<Rightarrow> slot set" where
  "slots_of j = set (true_list j) \<union> set (false_list j)"

definition leaves :: "bb_key set \<Rightarrow> slot set \<Rightarrow> vis \<Rightarrow> cond_jumps \<Rightarrow> vis \<Rightarrow> bool" where
  "leaves Op J s j s' =
     (\<exists>c. vs_cur s = Some c \<and> c \<in> Op \<and> vs_cur s' = None \<and> slots_of j \<inter> J = {} \<and> vis_ok s' (Op - {c}) (J \<union> slots_of j) \<and>
        grow s s' \<and> vs_local s' = vs_local s \<and> vs_return_value s' = vs_return_value s)"

definition exp_ok :: "bb_key set \<Rightarrow> slot set \<Rightarrow> vis \<Rightarrow> any_value \<Rightarrow> vis \<Rightarrow> bool" where
  "exp_ok Op J s v s' =
     (case v of
        VCond j \<Rightarrow> leaves Op J s j s'
      | _ \<Rightarrow> \<exists>Op'. goes Op J s s' Op' \<and> value_ok s' v)"

lemma goes_trans:
  assumes "goes Op J a b Op1" and "goes Op1 J b c Op2"
  shows "goes Op J a c Op2"
proof -
  obtain x y where x: "vs_cur a = Some x" "x \<in> Op" "vs_cur b = Some y" "y = x \<or> y \<notin> Op" "Op1 = insert y (Op - {x})"
    "grow a b" "vs_local b = vs_local a" "vs_return_value b = vs_return_value a"
    using assms(1) unfolding goes_def by blast
  obtain z where z: "vs_cur c = Some z" "z = y \<or> z \<notin> Op1" "Op2 = insert z (Op1 - {y})" "vis_ok c Op2 J"
    "grow b c" "vs_local c = vs_local b" "vs_return_value c = vs_return_value b"
    using assms(2) x(3) unfolding goes_def by auto
  have o: "Op2 = insert z (Op - {x})" using x(2,4,5) z(3) by auto
  have "z = x \<or> z \<notin> Op" using x(4,5) z(2) by auto
  then show ?thesis
    unfolding goes_def
    by (intro exI [of _ x] exI [of _ z] conjI) (use x z o grow_trans [OF x(6) z(5)] in simp_all)
qed

lemma goes_start: "goes Op J s s' Op' \<Longrightarrow> \<exists>c\<in>Op. vs_cur s = Some c"
  by (auto simp: goes_def)

lemma goesD:
  assumes "goes Op J s s' Op'"
  shows "vis_ok s' Op' J" and "cur_open s' Op'" and "grow s s'" and "\<exists>c\<in>Op'. vs_cur s' = Some c"
    and "reg_ok s r \<Longrightarrow> reg_ok s' r"
  using assms grow_known(2) by (auto simp: goes_def cur_open_def)

lemma inside_goes: "inside Op J s s' \<Longrightarrow> vs_cur s = Some c \<Longrightarrow> c \<in> Op \<Longrightarrow> goes Op J s s' Op"
  by (auto simp: goes_def inside_def insert_absorb)

lemma goes_refl: "vis_ok s Op J \<Longrightarrow> vs_cur s = Some c \<Longrightarrow> c \<in> Op \<Longrightarrow> goes Op J s s Op"
  by (rule inside_goes [OF inside_refl])

lemma goes_inside: "goes Op J a b Op1 \<Longrightarrow> inside Op1 J b c \<Longrightarrow> goes Op J a c Op1"
  using goes_trans inside_goes goesD(4) by metis

lemma goes_leaves:
  assumes "goes Op J a b Op1" and "leaves Op1 J b j c"
  shows "leaves Op J a j c"
proof -
  obtain x y where x: "vs_cur a = Some x" "x \<in> Op" "vs_cur b = Some y" "y = x \<or> y \<notin> Op" "Op1 = insert y (Op - {x})"
    "grow a b" "vs_local b = vs_local a" "vs_return_value b = vs_return_value a"
    using assms(1) unfolding goes_def by blast
  have z: "vs_cur c = None" "slots_of j \<inter> J = {}" "vis_ok c (Op1 - {y}) (J \<union> slots_of j)" "grow b c"
    "vs_local c = vs_local b" "vs_return_value c = vs_return_value b"
    using assms(2) x(3) unfolding leaves_def by auto
  have "Op1 - {y} = Op - {x}" using x(2,4,5) by auto
  then show ?thesis
    unfolding leaves_def
    by (intro exI [of _ x] conjI) (use x z grow_trans [OF x(6) z(4)] in simp_all)
qed

lemma goes_exp_ok: "goes Op J a b Op1 \<Longrightarrow> exp_ok Op1 J b v c \<Longrightarrow> exp_ok Op J a v c"
  by (cases v) (auto simp: exp_ok_def dest: goes_trans goes_leaves)

lemma exp_ok_value: "goes Op J s s' Op' \<Longrightarrow> value_ok s' v \<Longrightarrow> \<not> is_cond v \<Longrightarrow> exp_ok Op J s v s'"
  by (auto simp: exp_ok_def is_cond_def split: any_value.split)

text \<open>Changing the mode changes nothing else.\<close>

lemma mode_fields [simp]:
  "vs_cur (s\<lparr>vs_mode := m\<rparr>) = vs_cur s" "vs_local (s\<lparr>vs_mode := m\<rparr>) = vs_local s"
  "reg_ok (s\<lparr>vs_mode := m\<rparr>) r = reg_ok s r" "cur_open (s\<lparr>vs_mode := m\<rparr>) Op = cur_open s Op"
  "value_ok (s\<lparr>vs_mode := m\<rparr>) v = value_ok s v"
  by (simp_all add: reg_ok_def cur_open_def value_ok_def split: any_value.split)

lemma grow_mode: "grow (s\<lparr>vs_mode := m\<rparr>) s' \<Longrightarrow> grow s (s'\<lparr>vs_mode := vs_mode s\<rparr>)"
  by (simp add: grow_def)

lemma goes_mode: "goes Op J (s\<lparr>vs_mode := m\<rparr>) s' Op' \<Longrightarrow> goes Op J s (s'\<lparr>vs_mode := vs_mode s\<rparr>) Op'"
  by (auto simp: goes_def dest: grow_mode)

lemma exp_ok_mode: "exp_ok Op J (s\<lparr>vs_mode := m\<rparr>) v s' \<Longrightarrow> exp_ok Op J s v (s'\<lparr>vs_mode := vs_mode s\<rparr>)"
  by (cases v) (auto simp: exp_ok_def leaves_def dest: grow_mode goes_mode)

section \<open>Filling in\<close>

lemma slots_in: "vis_ok s Op J \<Longrightarrow> set ps \<subseteq> J \<Longrightarrow> \<forall>p\<in>set ps. fst p \<in> block_keys (cur_fn s)"
  using slots_keys by blast

lemma patch_all_fields: "vs_local (patch_all k ps s) = vs_local s" "vs_return_value (patch_all k ps s) = vs_return_value s"
  by (induction ps arbitrary: s) (simp_all add: patch_all_def patch_def split: prod.split)

text \<open>Both lists of a condition get their targets.\<close>

lemma patch_both:
  assumes ok: "vis_ok s Op (J \<union> slots_of j)" and d: "slots_of j \<inter> J = {}" and t: "t1 \<in> block_keys (cur_fn s)" "t0 \<in> block_keys (cur_fn s)"
    and s': "s' = patch_all t0 (false_list j) (patch_all t1 (true_list j) s)"
  shows "vis_ok s' Op J" and "grow s s'" and "vs_cur s' = vs_cur s" and "fresh_in (cur_fn s') x = fresh_in (cur_fn s) x"
    and "vs_local s' = vs_local s" and "vs_return_value s' = vs_return_value s"
proof -
  let ?s1 = "patch_all t1 (true_list j) s"
  have "set (true_list j) \<subseteq> J \<union> slots_of j" "set (false_list j) \<subseteq> J \<union> slots_of j" by (auto simp: slots_of_def)
  note sl = slots_in [OF ok this(1)] slots_in [OF ok this(2)]
  note p1 = patch_all_ok [OF ok t(1) sl(1)]
  have g: "block_keys (cur_fn s) \<subseteq> block_keys (cur_fn ?s1)" using p1 by (auto simp: grow_def)
  note p2 = patch_all_ok [OF conjunct1 [OF p1] subsetD [OF g t(2)], of "false_list j"]
  have J: "(J \<union> slots_of j) - set (true_list j) - set (false_list j) = J" using d by (auto simp: slots_of_def)
  note p3 = p2 [unfolded J]
  have f: "\<forall>p\<in>set (false_list j). fst p \<in> block_keys (cur_fn ?s1)" using sl(2) g by blast
  show "vis_ok s' Op J" "vs_cur s' = vs_cur s" "fresh_in (cur_fn s') x = fresh_in (cur_fn s) x" using p3 [OF f] p1 unfolding s' by auto
  show "grow s s'" using p3 [OF f] p1 grow_trans unfolding s' by blast
  show "vs_local s' = vs_local s" "vs_return_value s' = vs_return_value s" unfolding s' by (simp_all add: patch_all_fields)
qed

lemma new_bb_open:
  assumes "v_new_bb s = Inr (k, s')" and "vis_ok s Op J"
  shows "k \<notin> Op" and "vis_ok s' (insert k Op) J" and "grow s s'" and "vs_cur s' = vs_cur s" and "k \<in> block_keys (cur_fn s')"
    and "vs_local s' = vs_local s" and "vs_return_value s' = vs_return_value s"
  using new_bb_ok [OF assms] open_key [OF assms(2)] by auto

lemma keys_grow: "grow s s' \<Longrightarrow> k \<in> block_keys (cur_fn s) \<Longrightarrow> k \<in> block_keys (cur_fn s')"
  by (auto simp: grow_def)

lemma push_to_fields [simp]:
  "vs_cur (push_to k i s) = vs_cur s" "vs_local (push_to k i s) = vs_local s"
  "vs_return_value (push_to k i s) = vs_return_value s" "vs_break (push_to k i s) = vs_break s"
  "vs_continue (push_to k i s) = vs_continue s" "vs_return_bb (push_to k i s) = vs_return_bb s"
  by (simp_all add: push_to_def)

text \<open>A block that sets a register and jumps.\<close>

lemma const_block_ok:
  assumes ok: "vis_ok s Op J" and t: "t \<in> Op" and a: "fresh_in (cur_fn s) a" and r: "r \<in> block_keys (cur_fn s)"
    and s': "s' = push_to t (JumpInstr r) (push_to t (LoadConstI a v) s)"
  shows "vis_ok s' (Op - {t}) J" and "grow s s'" and "fresh_in (cur_fn s) x \<Longrightarrow> x \<noteq> a \<Longrightarrow> fresh_in (cur_fn s') x"
proof -
  have i: "instr_ok_at s (LoadConstI a v)" using a by (simp add: instr_simps reg_ok_def fresh_in_def)
  have d: "fresh_in (cur_fn s) d" if "def_of (LoadConstI a v) = Some d" for d using that a by simp
  let ?s = "push_to t (LoadConstI a v) s"
  have p: "vis_ok ?s Op J" "grow s ?s"
    using push_to_ok(1,2) [OF ok t i d control_simps(4)] by blast+
  have f: "fresh_in (cur_fn ?s) x" if "fresh_in (cur_fn s) x" "x \<noteq> a" for x
    by (rule push_to_ok(3) [OF ok t i d control_simps(4) that(1)]) (use that in auto)
  have r1: "r \<in> block_keys (cur_fn ?s)" using keys_grow [OF p(2) r] .
  have tg: "targets_at (block_keys (cur_fn ?s)) {} t n (JumpInstr r)" for n using r1 by (simp add: targets_at_def)
  note q = push_jump_ok [OF p(1) t instr_simps(10) control_simps(12) tg]
  show "vis_ok s' (Op - {t}) J" unfolding s' by (rule q)
  have "grow ?s s'" unfolding s' by (rule q)
  then show "grow s s'" using p(2) grow_trans by blast
  show "fresh_in (cur_fn s') x" if x: "fresh_in (cur_fn s) x" "x \<noteq> a"
    unfolding s' by (rule q(3)) (rule f [OF x])
qed

lemma to_irvalue_cond:
  assumes l: "leaves Op J s j s1" and t: "to_irvalue (VCond j) s1 = Inr (x, s2)"
  shows "\<exists>Op'. goes Op J s s2 Op' \<and> reg_ok s2 (iv_reg x)"
proof -
  obtain c where c: "vs_cur s = Some c" "c \<in> Op" "slots_of j \<inter> J = {}" "vis_ok s1 (Op - {c}) (J \<union> slots_of j)" "grow s s1"
    "vs_local s1 = vs_local s" "vs_return_value s1 = vs_return_value s"
    using l by (auto simp: leaves_def)
  obtain tb sa fb sb rb sc a s4 b s5 d s6 where st: "v_new_bb s1 = Inr (tb, sa)" "v_new_bb sa = Inr (fb, sb)" "v_new_bb sb = Inr (rb, sc)"
    "v_new_reg (patch_all fb (false_list j) (patch_all tb (true_list j) sc)) = Inr (a, s4)" "v_new_reg s4 = Inr (b, s5)"
    "v_new_reg s5 = Inr (d, s6)" "x = rvalue IntT d"
    "s2 = (push_to rb (PhiInstr d [(a, tb), (b, fb)]) (push_to fb (JumpInstr rb) (push_to fb (LoadConstI b 0)
       (push_to tb (JumpInstr rb) (push_to tb (LoadConstI a 1) s6)))))\<lparr>vs_cur := Some rb\<rparr>"
    using t by (auto simp: to_irvalue_def Let_def)
  note n1 = new_bb_open [OF st(1) c(4)]
  note n2 = new_bb_open [OF st(2) n1(2)]
  note n3 = new_bb_open [OF st(3) n2(2)]
  let ?O = "insert rb (insert fb (insert tb (Op - {c})))"
  let ?sd = "patch_all fb (false_list j) (patch_all tb (true_list j) sc)"
  have k: "tb \<in> block_keys (cur_fn sc)" "fb \<in> block_keys (cur_fn sc)" using n1(5) n2(3,5) n3(3) keys_grow by blast+
  note pb = patch_both [OF n3(2) c(3) k refl]
  note r1 = new_reg_inside [OF st(4) pb(1)]
  note r2 = new_reg_inside [OF st(5) insideD(1) [OF r1(1)]]
  note r3 = new_reg_inside [OF st(6) insideD(1) [OF r2(1)]]
  have g6: "grow sc s6" using pb(2) inside_grow [OF r1(1)] inside_grow [OF r2(1)] inside_grow [OF r3(1)] grow_trans by blast
  have fr: "fresh_in (cur_fn s6) a" "fresh_in (cur_fn s6) b" "fresh_in (cur_fn s6) d" "a \<noteq> b" "a \<noteq> d" "b \<noteq> d"
    using r1(2) r2(2,3) r3(2,3) by blast+
  have k6: "tb \<in> block_keys (cur_fn s6)" "fb \<in> block_keys (cur_fn s6)" "rb \<in> block_keys (cur_fn s6)" using k n3(5) keys_grow [OF g6] by blast+
  let ?s7 = "push_to tb (JumpInstr rb) (push_to tb (LoadConstI a 1) s6)"
  note b1 = const_block_ok [OF insideD(1) [OF r3(1)] _ fr(1) k6(3) refl, where t=tb]
  have v7: "vis_ok ?s7 (?O - {tb}) J" "grow s6 ?s7" and f7: "fresh_in (cur_fn ?s7) b" "fresh_in (cur_fn ?s7) d"
    using b1(1,2) b1(3) [OF _ fr(2)] b1(3) [OF _ fr(3)] fr by auto
  let ?s8 = "push_to fb (JumpInstr rb) (push_to fb (LoadConstI b 0) ?s7)"
  have ne: "fb \<noteq> tb" "rb \<noteq> tb" "rb \<noteq> fb" "tb \<notin> Op - {c}" "fb \<notin> Op - {c}" "rb \<notin> Op - {c}" using n1(1) n2(1) n3(1) by auto
  note b2 = const_block_ok [OF v7(1) _ f7(1) keys_grow [OF v7(2) k6(3)] refl, where t=fb]
  have v8: "vis_ok ?s8 (?O - {tb} - {fb}) J" "grow ?s7 ?s8" and f8: "fresh_in (cur_fn ?s8) d"
    using b2(1,2) b2(3) [OF _ f7(2)] fr(6) ne by auto
  have O: "?O - {tb} - {fb} = insert rb (Op - {c})" using ne by auto
  have g8: "grow s6 ?s8" using v7(2) v8(2) grow_trans by blast
  have regs: "reg_ok ?s8 a" "reg_ok ?s8 b" "reg_ok ?s8 d"
    using grow_known(2) [OF g8] fr by (simp_all add: reg_ok_def fresh_in_def)
  have i: "instr_ok_at ?s8 (PhiInstr d [(a, tb), (b, fb)])"
    using regs keys_grow [OF g8] k6 by (simp add: instr_simps)
  have df: "fresh_in (cur_fn ?s8) y" if "def_of (PhiInstr d [(a, tb), (b, fb)]) = Some y" for y using that f8 by simp
  note p = push_to_ok [OF v8(1) _ i df control_simps(10)]
  let ?s9 = "push_to rb (PhiInstr d [(a, tb), (b, fb)]) ?s8"
  have v9: "vis_ok ?s9 (insert rb (Op - {c})) J" "grow ?s8 ?s9" using p ne unfolding O by auto
  have g9: "grow s ?s9" using c(5) n1(3) n2(3) n3(3) g6 g8 v9(2) grow_trans by blast
  have local: "vs_local ?s9 = vs_local s" "vs_return_value ?s9 = vs_return_value s"
    using n1(6,7) n2(6,7) n3(6,7) pb(5,6) insideD(5,6) [OF r1(1)] insideD(5,6) [OF r2(1)] insideD(5,6) [OF r3(1)] c(6,7) by simp_all
  have s2: "s2 = ?s9\<lparr>vs_cur := Some rb\<rparr>" by (simp add: st(8))
  have g2: "grow s s2" using g9 by (simp add: s2 grow_def)
  have "goes Op J s s2 (insert rb (Op - {c}))"
    unfolding goes_def
    by (intro exI [of _ c] exI [of _ rb] conjI) (use c(1,2) ne(6) v9(1) g2 local in \<open>auto simp: s2\<close>)
  moreover have "reg_ok s2 (iv_reg x)" using grow_known(2) [OF v9(2) regs(3)] by (simp add: st(7) rvalue_def s2 reg_ok_def)
  ultimately show ?thesis by blast
qed

lemma to_irvalue_ok:
  assumes "exp_ok Op J s v s1" and "to_irvalue v s1 = Inr (x, s2)"
  shows "\<exists>Op'. goes Op J s s2 Op' \<and> reg_ok s2 (iv_reg x)"
proof (cases v)
  case (VCond j)
  then show ?thesis using to_irvalue_cond assms by (simp add: exp_ok_def)
qed (use assms in \<open>auto simp: to_irvalue_def exp_ok_def value_ok_def\<close>)

lemma to_cond_jumps_ok:
  assumes e: "exp_ok Op J s v s1" and t: "to_cond_jumps v s1 = Inr (j, s2)"
  shows "leaves Op J s j s2"
proof (cases v)
  case (VIR x)
  obtain Op1 where g: "goes Op J s s1 Op1" and rx: "reg_ok s1 (iv_reg x)" using e VIR by (auto simp: exp_ok_def value_ok_def)
  note d = goesD [OF g]
  obtain reg1 s3 reg0 s4 reg s5 where st: "get_value x s1 = Inr (reg1, s3)" "v_new_reg s3 = Inr (reg0, s4)"
    "(case ty_scalar (iv_type x) of
              IntT \<Rightarrow> Inr (reg1, s4)
            | FloatT \<Rightarrow>
                andthen (v_new_reg s4) (\<lambda>(reg, s).
                andthen (push_all [LoadConstF reg0 0, BinaryOpI reg reg1 reg0 FNEQ] s) (\<lambda>s. Inr (reg, s)))
            | _ \<Rightarrow> Inl AssertionFailed) = Inr (reg, s5)"
    "andthen (push_cur_bb (BranchInstr reg 0 0) s5) (\<lambda>s.
          case vs_cur s of
            None \<Rightarrow> Inl Undefined
          | Some k \<Rightarrow> Inr (\<lparr>true_list = [(k, cur_length s5, True)], false_list = [(k, cur_length s5, False)]\<rparr>, s\<lparr>vs_cur := None\<rparr>)) = Inr (j, s2)"
    using t VIR by (fastforce simp: to_cond_jumps_def Let_def)
  note g1 = get_value_ok [OF st(1) d(1,2) rx]
  note d1 = gives_regD [OF g1]
  note r0 = new_reg_inside [OF st(2) d1(2)]
  have i4: "inside Op1 J s1 s4" using d1(1) r0(1) by (rule inside_trans)
  have co4: "cur_open s4 Op1" using insideD(3) [OF i4] d(2) by simp
  have i5: "inside Op1 J s1 s5 \<and> reg_ok s5 reg"
  proof (cases "ty_scalar (iv_type x)")
    case IntT
    then show ?thesis using st(3) i4 inside_reg [OF r0(1) d1(3)] by simp
  next
    case FloatT
    obtain s6 s7 where n: "v_new_reg s4 = Inr (reg, s6)" "push_cur_bb (LoadConstF reg0 0) s6 = Inr s7"
      "push_cur_bb (BinaryOpI reg reg1 reg0 FNEQ) s7 = Inr s5"
      using st(3) FloatT by auto
    note r1 = new_reg_inside [OF n(1) insideD(1) [OF i4]]
    have f: "fresh_in (cur_fn s6) reg0" "reg0 \<noteq> reg" "fresh_in (cur_fn s6) reg" using r0(2) r1(2,3) by blast+
    have co6: "cur_open s6 Op1" using insideD(3) [OF r1(1)] co4 by simp
    have i: "instr_ok_at s6 (LoadConstF reg0 0)" using f(1) by (simp add: instr_simps reg_ok_def fresh_in_def)
    have df: "fresh_in (cur_fn s6) y" if "def_of (LoadConstF reg0 0) = Some y" for y using that f(1) by simp
    have p1: "inside Op1 J s6 s7" by (rule push_cur_inside(1) [OF n(2) insideD(1) [OF r1(1)] co6 i df control_simps(5)])
    have f7: "fresh_in (cur_fn s7) reg"
      by (rule push_cur_inside(2) [OF n(2) insideD(1) [OF r1(1)] co6 i df control_simps(5) f(3)]) (use f(2) in auto)
    have regs: "reg_ok s7 reg" "reg_ok s7 reg0" "reg_ok s7 reg1"
    proof -
      show "reg_ok s7 reg" using f7 by (simp add: reg_ok_def fresh_in_def)
      show "reg_ok s7 reg0" using inside_reg [OF p1] f(1) by (simp add: reg_ok_def fresh_in_def)
      show "reg_ok s7 reg1" using inside_reg [OF p1] inside_reg [OF r1(1)] inside_reg [OF r0(1) d1(3)] by blast
    qed
    have co7: "cur_open s7 Op1" using insideD(3) [OF p1] co6 by simp
    have i2: "instr_ok_at s7 (BinaryOpI reg reg1 reg0 FNEQ)" using regs by (simp add: instr_simps)
    have df2: "fresh_in (cur_fn s7) y" if "def_of (BinaryOpI reg reg1 reg0 FNEQ) = Some y" for y using that f7 by simp
    have p2: "inside Op1 J s7 s5" by (rule push_cur_inside(1) [OF n(3) insideD(1) [OF p1] co7 i2 df2 control_simps(3)])
    show ?thesis using inside_trans [OF inside_trans [OF inside_trans [OF i4 r1(1)] p1] p2] inside_reg [OF p2 regs(1)] by blast
  qed (use st(3) in auto)
  have g5: "goes Op J s s5 Op1" using goes_inside [OF g] i5 by blast
  obtain k where k: "vs_cur s5 = Some k" "k \<in> Op1" using goesD(4) [OF g5] by blast
  have j: "j = \<lparr>true_list = [(k, cur_length s5, True)], false_list = [(k, cur_length s5, False)]\<rparr>"
    "s2 = (push_to k (BranchInstr reg 0 0) s5)\<lparr>vs_cur := None\<rparr>"
    using st(4) k(1) by (auto simp: push_cur_bb_def)
  have sl: "slots_of j = {(k, cur_length s5, True), (k, cur_length s5, False)}" by (auto simp: slots_of_def j(1))
  note pb = push_branch_ok [OF goesD(1) [OF g5] k(2) conjunct2 [OF i5] k(1)]
  have "leaves Op1 J s5 j s2"
    unfolding leaves_def sl
    by (intro exI [of _ k] conjI) (use k pb in \<open>auto simp: j(2) grow_def\<close>)
  then show ?thesis by (rule goes_leaves [OF g5])
qed (use assms in \<open>auto simp: to_cond_jumps_def exp_ok_def\<close>)

end
