(* ===== verification/FrontVisit.thy ===== *)
theory FrontVisit
  imports FrontExp
begin

text \<open>
  The visitors of expressions, conditions and constant expressions: by induction over the parse tree, they
  keep the invariant. At compile time they change nothing.
\<close>

section \<open>Constant expressions\<close>

lemma ct_visit:
  shows "vs_mode s = CompileTime \<Longrightarrow> visit_exp e s = Inr (v, s') \<Longrightarrow> s' = s \<and> (\<exists>c. v = VConst c)"
    and "vs_mode s2 = CompileTime \<Longrightarrow> visit_const_index es2 s2 = Inr (xs, s2') \<Longrightarrow> s2' = s2"
    and "visit_index es3 dims t sc s3 = visit_index es3 dims t sc s3" and "visit_rparams ps s4 = visit_rparams ps s4"
proof (induction e s and es2 s2 and es3 dims t sc s3 and ps s4 arbitrary: v s' and xs s2'
    rule: visit_exp_visit_const_index_visit_index_visit_rparams.induct)
  case (2 n s)
  then show ?case by (auto simp: visit_literal_def)
next
  case (3 name es s)
  then show ?case by (auto split: if_splits)
next
  case (5 op e s)
  from "5.prems" obtain v1 c c' where st: "visit_exp e s = Inr (v1, s')" "as_const v1 = Inr c" "v = VConst c'"
    and g: "check (op = CHR ''+'' \<or> op = CHR ''-'' \<or> op = CHR ''!'') AssertionFailed = Inr ()" by auto
  show ?case using "5.IH"(2) [OF g "5.prems"(1) "5.prems"(1) st(1)] st(3) by simp
next
  case (6 op a b s)
  from "6.prems" obtain v1 s1 v2 c c' where st: "visit_exp a s = Inr (v1, s1)" "as_const v1 = Inr c" "visit_exp b s1 = Inr (v2, s')"
    "v = VConst c'" and g: "check (op = CHR ''*'' \<or> op = CHR ''/'' \<or> op = CHR ''%'') AssertionFailed = Inr ()" by auto
  have s1: "s1 = s" using "6.IH"(1) [OF g "6.prems"(1) "6.prems"(1) st(1)] by simp
  show ?case using "6.IH"(2) [OF g "6.prems"(1) st(1) refl st(2)] "6.prems"(1) st(3,4) s1 by simp
next
  case (7 op a b s)
  from "7.prems" obtain v1 s1 v2 c c' where st: "visit_exp a s = Inr (v1, s1)" "as_const v1 = Inr c" "visit_exp b s1 = Inr (v2, s')"
    "v = VConst c'" and g: "check (op = CHR ''+'' \<or> op = CHR ''-'') AssertionFailed = Inr ()" by auto
  have s1: "s1 = s" using "7.IH"(1) [OF g "7.prems"(1) "7.prems"(1) st(1)] by simp
  show ?case using "7.IH"(2) [OF g "7.prems"(1) st(1) refl st(2)] "7.prems"(1) st(3,4) s1 by simp
next
  case (9 e es s)
  from "9.prems" obtain v1 s1 c x ys where st: "visit_exp e s = Inr (v1, s1)" "as_const v1 = Inr c" "ct_int c = Inr x" "0 \<le>s x"
    "visit_const_index es s1 = Inr (ys, s2')" by auto
  have s1: "s1 = s" using "9.IH"(1) [OF "9.prems"(1) st(1)] by simp
  show ?case using "9.IH"(2) [OF st(1) refl st(2,3)] "9.prems"(1) st(4,5) s1 by simp
qed auto

lemma visit_const_exp_same:
  assumes "visit_const_exp e s = Inr (c, s')"
  shows "s' = s"
proof -
  from assms obtain v s1 where st: "vs_mode s = NormalMode" "visit_exp e (s\<lparr>vs_mode := CompileTime\<rparr>) = Inr (v, s1)"
    "s' = s1\<lparr>vs_mode := NormalMode\<rparr>"
    by (auto simp: visit_const_exp_def)
  have "s1 = s\<lparr>vs_mode := CompileTime\<rparr>" using ct_visit(1) [OF _ st(2)] by simp
  then show ?thesis using st(1,3) by simp
qed

lemma get_array_dims_same: "get_array_dims es s = Inr (ds, s') \<Longrightarrow> s' = s"
  by (induction es arbitrary: ds) (auto dest: visit_const_exp_same)

lemma const_init_same:
  shows "const_list t ns shape result s = Inr (r, s') \<Longrightarrow> s' = s"
    and "const_items t ns2 shape2 cnt result2 s2 = Inr (n, r2, s2') \<Longrightarrow> s2' = s2"
proof (induction t ns shape result s and t ns2 shape2 cnt result2 s2 arbitrary: r s' and n r2 s2'
    rule: const_list_const_items.induct)
  case (1 t node shape result s)
  show ?case using "1.prems" "1.IH" by (auto split: if_splits)
next
  case (3 t e cs shape cnt result s)
  from "3.prems" obtain c s1 x where st: "cnt + 1 \<le> prod_list shape" "visit_const_exp e s = Inr (c, s1)" "const_bits t c = Inr x"
    "const_items t cs shape (cnt + 1) (result @ [x]) s1 = Inr (n, r2, s2')" by auto
  have "s1 = s" using visit_const_exp_same [OF st(2)] .
  then show ?case using "3.IH" [OF _ st(2) refl st(3,4)] st(1) by (simp add: check_def)
next
  case (4 t ch cs shape cnt result s)
  from "4.prems" obtain r1 s1 where st: "cnt mod prod_list (tl shape) = 0 \<and> cnt + prod_list (tl shape) \<le> prod_list shape"
    "const_list t ch (tl shape) result s = Inr (r1, s1)"
    "const_items t cs shape (cnt + prod_list (tl shape)) r1 s1 = Inr (n, r2, s2')" by (auto simp: Let_def)
  have "s1 = s" using "4.IH"(1) [OF refl _ st(2)] st(1) by (simp add: check_def)
  then show ?case using "4.IH"(2) [OF refl _ st(2) refl st(3)] st(1) by (simp add: check_def)
qed simp

lemma parse_const_init_same: "parse_const_init t root shape s = Inr (xs, s') \<Longrightarrow> s' = s"
  by (cases root) (auto simp: parse_const_init_def simp del: const_list.simps dest: visit_const_exp_same const_init_same(1))

section \<open>Expressions\<close>

definition started :: "vis \<Rightarrow> bb_key set \<Rightarrow> slot set \<Rightarrow> bool" where
  "started s Op J = (vis_ok s Op J \<and> (\<exists>c\<in>Op. vs_cur s = Some c))"

lemma startedD: "started s Op J \<Longrightarrow> vis_ok s Op J" "started s Op J \<Longrightarrow> cur_open s Op"
  by (auto simp: started_def cur_open_def)

lemma started_mode [simp]: "started (s\<lparr>vs_mode := m\<rparr>) Op J = started s Op J"
  by (simp add: started_def)

lemma goes_started: "goes Op J s s' Op' \<Longrightarrow> started s' Op' J"
  using goesD(1,4) by (fastforce simp: started_def)

lemma started_goes: "started s Op J \<Longrightarrow> inside Op J s s' \<Longrightarrow> goes Op J s s' Op"
  using inside_goes by (auto simp: started_def)

lemma goes_gives:
  assumes "goes Op J s s1 Op'" and "gives_reg Op' J s1 r s2"
  shows "goes Op J s s2 Op'" and "reg_ok s2 r" and "reg_ok s1 x \<Longrightarrow> reg_ok s2 x"
  using goes_inside [OF assms(1)] gives_regD [OF assms(2)] by blast+

lemma goes_gives_exp:
  assumes "goes Op J s s1 Op'" and "\<exists>x. v = VIR x \<and> gives_reg Op' J s1 (iv_reg x) s2"
  shows "exp_ok Op J s v s2"
proof -
  obtain x where x: "v = VIR x" "gives_reg Op' J s1 (iv_reg x) s2" using assms(2) by blast
  show ?thesis using goes_gives(1,2) [OF assms(1) x(2)] x(1) by (auto simp: exp_ok_def value_ok_def)
qed

text \<open>An operand, visited at \<open>s\<close> and converted to a register; then a second one.\<close>

lemma operand_ok:
  assumes "exp_ok Op J s v s1" and "to_irvalue v s1 = Inr (x, s2)"
  obtains Op' where "goes Op J s s2 Op'" "started s2 Op' J" "reg_ok s2 (iv_reg x)"
  using to_irvalue_ok [OF assms] goes_started by blast

lemma operand_mode:
  assumes "exp_ok Op J s v s1" and "to_irvalue v s1 = Inr (x, s2)"
  shows "vs_mode s2 = vs_mode s"
  using to_irvalue_ok [OF assms] goesD(3) by (fastforce simp: grow_def)

lemma operands_ok:
  assumes "exp_ok Op J s v s1" and "to_irvalue v s1 = Inr (x, s2)"
    and "\<And>Op'. started s2 Op' J \<Longrightarrow> exp_ok Op' J s2 w s3" and "to_irvalue w s3 = Inr (y, s4)"
  obtains Op' where "goes Op J s s4 Op'" "started s4 Op' J" "reg_ok s4 (iv_reg x)" "reg_ok s4 (iv_reg y)"
proof -
  obtain Op1 where a: "goes Op J s s2 Op1" "started s2 Op1 J" "reg_ok s2 (iv_reg x)" using operand_ok [OF assms(1,2)] .
  obtain Op2 where b: "goes Op1 J s2 s4 Op2" "started s4 Op2 J" "reg_ok s4 (iv_reg y)"
    using operand_ok [OF assms(3) [OF a(2)] assms(4)] .
  show ?thesis using that [OF goes_trans [OF a(1) b(1)] b(2) goesD(5) [OF b(1) a(3)] b(3)] .
qed

lemma resolve_ok:
  assumes "resolve s name = Some e" and "vis_ok s Op J"
  shows "entry_ok s e"
proof -
  have rec: "recursively_resolve ts name = Some e \<Longrightarrow> \<exists>t\<in>set ts. e \<in> ran t" for ts
    by (induction ts) (auto split: option.splits intro: ranI)
  have "\<exists>t\<in>set (vs_global s # vs_local s). e \<in> ran t"
    using assms(1) rec [of "vs_local s @ [vs_global s]"] by (auto simp: resolve_def intro: ranI split: if_splits)
  then show ?thesis using assms(2) unfolding vis_ok_def by blast
qed

lemma var_addr_ok:
  assumes r: "resolve s name = Some e" and n: "v_new_reg s = Inr (a, s1)"
    and p: "push_cur_bb (if 0 \<le> ve_arg_id e then LoadArg IntT a (ve_arg_id e)
            else LoadAddr a (case ve_obj e of Some k \<Rightarrow> k | None \<Rightarrow> 0)) s1 = Inr s2"
    and ok: "vis_ok s Op J" "cur_open s Op"
  shows "gives_reg Op J s a s2"
proof -
  have g: "grow s s1" using new_reg_inside(1) [OF n ok(1)] by (rule insideD)
  have "0 \<le> ve_arg_id e \<or> (\<exists>k. ve_obj e = Some k \<and> k \<in> known_objs s1)"
    using resolve_ok [OF r ok(1)] grow_known(1) [OF g] by (auto simp: entry_ok_def)
  then show ?thesis
    by (intro gives_regI [OF n p ok]) (use new_reg_ok [OF n ok(1)] in \<open>auto simp: instr_simps control_simps\<close>)
qed

lemma visit_ok:
  shows "started s Op J \<Longrightarrow> vs_mode s \<noteq> CompileTime \<Longrightarrow> visit_exp e s = Inr (v, s') \<Longrightarrow> exp_ok Op J s v s'"
    and "visit_const_index es2 s2 = visit_const_index es2 s2"
    and "started s3 Op3 J \<Longrightarrow> vs_mode s3 \<noteq> CompileTime \<Longrightarrow> visit_index es3 dims t sc s3 = Inr (t', sc', tmp, s3') \<Longrightarrow>
      \<exists>Op'. goes Op3 J s3 s3' Op' \<and> (\<forall>(r, sz)\<in>set tmp. reg_ok s3' r)"
    and "started s4 Op4 J \<Longrightarrow> vs_mode s4 \<noteq> CompileTime \<Longrightarrow> visit_rparams ps s4 = Inr (as, s4') \<Longrightarrow>
      \<exists>Op'. goes Op4 J s4 s4' Op' \<and> (\<forall>a\<in>set as. arg_ok s4' a)"
proof (induction e s and es2 s2 and es3 dims t sc s3 and ps s4 arbitrary: Op v s' and and Op3 t' sc' tmp s3' and Op4 as s4'
    rule: visit_exp_visit_const_index_visit_index_visit_rparams.induct)
  case (1 e s)
  show ?case using "1.IH" "1.prems" by simp
next
  case (2 n s)
  note ok = startedD [OF "2.prems"(1)]
  have "visit_literal n s = Inr (v, s')" using "2.prems"(3) by simp
  from visit_literal_ok [OF this ok "2.prems"(2)]
  obtain x where x: "v = VIR x" "gives_reg Op J s (iv_reg x) s'" by blast
  have "goes Op J s s' Op" using started_goes [OF "2.prems"(1)] gives_regD(1) [OF x(2)] .
  then show ?case using x(1) gives_regD(3) [OF x(2)] by (auto simp: exp_ok_def value_ok_def)
next
  case (3 name es s)
  note ok = startedD [OF "3.prems"(1)]
  let ?i = "\<lambda>e a. if 0 \<le> ve_arg_id e then LoadArg IntT a (ve_arg_id e) else LoadAddr a (case ve_obj e of Some k \<Rightarrow> k | None \<Rightarrow> 0)"
  obtain e a s1 s2 where st: "resolve s name = Some e" "v_new_reg s = Inr (a, s1)" "push_cur_bb (?i e a) s1 = Inr s2"
    and rest: "(if \<not> is_array (ve_type e) then
         andthen (check (es = []) InvalidIndexOperator) (\<lambda>_.
         Inr (VIR \<lparr>iv_type = ve_type e, iv_left = True, iv_reg = a\<rparr>, s2))
       else
         andthen (check (length es \<le> count_array_dims (ve_type e)) InvalidIndexOperator) (\<lambda>_.
         let dims = ty_dims (ve_type e);
             cur = of_nat (length es) - 1 - (if ty_omit (ve_type e) then 1 else 0) in
         andthen (visit_index es dims (ve_type e) (start_step dims cur, cur) s2) (\<lambda>(t, sc, tmp, s).
         andthen (emit_indices a tmp s) (\<lambda>(addr, s).
         Inr (VIR \<lparr>iv_type = t, iv_left = True, iv_reg = addr\<rparr>, s))))) = Inr (v, s')"
    using "3.prems"(2,3) by auto
  have g: "gives_reg Op J s a s2" by (rule var_addr_ok [OF st ok])
  have go: "goes Op J s s2 Op" using started_goes [OF "3.prems"(1)] gives_regD(1) [OF g] .
  show ?case
  proof (cases "is_array (ve_type e)")
    case False
    then show ?thesis using rest go gives_regD(3) [OF g] by (auto simp: exp_ok_def value_ok_def)
  next
    case True
    let ?dims = "ty_dims (ve_type e)"
    let ?cur = "of_nat (length es) - 1 - (if ty_omit (ve_type e) then 1 else 0) :: mem_size"
    obtain t sc tmp s3 addr where ar: "visit_index es ?dims (ve_type e) (start_step ?dims ?cur, ?cur) s2 = Inr (t, sc, tmp, s3)"
      "emit_indices a tmp s3 = Inr (addr, s')" "v = VIR \<lparr>iv_type = t, iv_left = True, iv_reg = addr\<rparr>"
      and le: "check (length es \<le> count_array_dims (ve_type e)) InvalidIndexOperator = Inr ()"
      using rest True by (auto simp: Let_def)
    have m2: "vs_mode s2 \<noteq> CompileTime" using gives_regD(7) [OF g] "3.prems"(2) by (simp add: grow_def)
    have "started s2 Op J" using go by (rule goes_started)
    then obtain Op' where go3: "goes Op J s2 s3 Op'" and tmp: "\<forall>(r, sz)\<in>set tmp. reg_ok s3 r"
      using "3.IH"(2) [OF _ "3.prems"(2) st(2) refl st(3) _ le refl refl _ m2 ar(1)] st(1) True by auto
    have "reg_ok s3 a" using goesD(5) [OF go3 gives_regD(3) [OF g]] .
    then have "gives_reg Op' J s3 addr s'" using emit_indices_ok [OF ar(2) goesD(1,2) [OF go3] _ tmp] by blast
    then show ?thesis using goes_gives_exp [OF goes_trans [OF go go3]] ar(3) by simp
  qed
next
  case (4 name ps line s)
  obtain e args s1 where st: "opt_or (UnrecognizedFuncName name) (vs_functions s name) = Inr e" "visit_rparams ps s = Inr (args, s1)"
    "finish_call name e args line s1 = Inr (v, s')" and m: "check (vs_mode s \<noteq> CompileTime) CompileTimeValueEvalFail = Inr ()"
    using "4.prems"(3) by auto
  obtain Op' where go: "goes Op J s s1 Op'" and args: "\<forall>a\<in>set args. arg_ok s1 a"
    using "4.IH" [OF m st(1) "4.prems"(1,2) st(2)] by blast
  have "vs_functions s1 = vs_functions s" using goesD(3) [OF go] by (simp add: grow_def)
  then have "e \<in> ran (vs_functions s1)" using st(1) by (auto intro: ranI)
  from finish_call_ok [OF st(3) goesD(1,2) [OF go] args this]
  show ?case using exp_ok_value [OF goes_inside [OF go]] by blast
next
  case (5 op e s)
  have g: "check (op = CHR ''+'' \<or> op = CHR ''-'' \<or> op = CHR ''!'') AssertionFailed = Inr ()" using "5.prems"(3) by auto
  consider (N) "vs_mode s = NormalMode" | (C) "vs_mode s = Condition" "op = CHR ''!''" | (V) "vs_mode s = Condition" "op \<noteq> CHR ''!''"
    using "5.prems"(2) by (cases "vs_mode s") auto
  then show ?case
  proof cases
    case N
    then obtain v1 s1 x s2 where st: "visit_exp e s = Inr (v1, s1)" "to_irvalue v1 s1 = Inr (x, s2)"
      "unary3_normal op x s2 = Inr (v, s')" using "5.prems"(3) by auto
    obtain Op' where go: "goes Op J s s2 Op'" "started s2 Op' J" "reg_ok s2 (iv_reg x)"
      by (rule operand_ok [OF "5.IH"(1) [OF g N "5.prems"(1,2) st(1)] st(2)])
    show ?thesis using goes_gives_exp [OF go(1) unary3_normal_ok [OF st(3) startedD [OF go(2)] go(3)]] .
  next
    case C
    then obtain v1 s1 j where st: "visit_exp e s = Inr (v1, s1)" "to_cond_jumps v1 s1 = Inr (j, s')"
      "v = VCond \<lparr>true_list = false_list j, false_list = true_list j\<rparr>" using "5.prems"(3) by auto
    have "leaves Op J s j s'" by (rule to_cond_jumps_ok [OF "5.IH"(3) [OF g C "5.prems"(1,2) st(1)] st(2)])
    moreover have "slots_of \<lparr>true_list = false_list j, false_list = true_list j\<rparr> = slots_of j" by (auto simp: slots_of_def)
    ultimately show ?thesis by (simp add: exp_ok_def st(3) leaves_def)
  next
    case V
    then obtain v1 s1 x s2 s3 where st: "visit_exp e (s\<lparr>vs_mode := NormalMode\<rparr>) = Inr (v1, s1)" "to_irvalue v1 s1 = Inr (x, s2)"
      "unary3_condition op x s2 = Inr (v, s3)" "s' = s3\<lparr>vs_mode := vs_mode s\<rparr>" using "5.prems"(3) by auto blast+
    have "started (s\<lparr>vs_mode := NormalMode\<rparr>) Op J" using "5.prems"(1) by simp
    then obtain Op' where go: "goes Op J (s\<lparr>vs_mode := NormalMode\<rparr>) s2 Op'" "started s2 Op' J" "reg_ok s2 (iv_reg x)"
      using operand_ok [OF "5.IH"(4) [OF g V _ _ st(1)] st(2)] by auto
    show ?thesis unfolding st(4)
      by (rule exp_ok_mode [OF goes_gives_exp [OF go(1) unary3_condition_ok [OF st(3) startedD [OF go(2)] go(3)]]])
  qed
next
  case (6 op a b s)
  have g: "check (op = CHR ''*'' \<or> op = CHR ''/'' \<or> op = CHR ''%'') AssertionFailed = Inr ()" using "6.prems"(3) by auto
  obtain v1 s1 x s2 w s3 y s4 r s5 where st: "visit_exp a (s\<lparr>vs_mode := NormalMode\<rparr>) = Inr (v1, s1)"
    "to_irvalue v1 s1 = Inr (x, s2)" "visit_exp b s2 = Inr (w, s3)" "to_irvalue w s3 = Inr (y, s4)"
    "arith_emit (join_type x y) (mul_op op) x y s4 = Inr (r, s5)" "v = VIR (rvalue (join_type x y) r)" "s' = s5\<lparr>vs_mode := vs_mode s\<rparr>"
    using "6.prems"(2,3) by auto
  have s0: "started (s\<lparr>vs_mode := NormalMode\<rparr>) Op J" using "6.prems"(1) by simp
  have a: "exp_ok Op J (s\<lparr>vs_mode := NormalMode\<rparr>) v1 s1"
    by (rule "6.IH"(3) [OF g "6.prems"(2) s0 _ st(1)]) simp
  have m: "vs_mode s2 \<noteq> CompileTime" using operand_mode [OF a st(2)] by simp
  obtain Op' where go: "goes Op J (s\<lparr>vs_mode := NormalMode\<rparr>) s4 Op'" "started s4 Op' J" "reg_ok s4 (iv_reg x)" "reg_ok s4 (iv_reg y)"
    by (rule operands_ok [OF a st(2) "6.IH"(4) [OF g "6.prems"(2) st(1) refl st(2) refl _ m st(3)] st(4)])
  have "gives_reg Op' J s4 r s5" by (rule arith_emit_ok [OF st(5) startedD [OF go(2)] go(3,4)])
  then have "exp_ok Op J (s\<lparr>vs_mode := NormalMode\<rparr>) v s5" using goes_gives_exp [OF go(1)] by (simp add: st(6) rvalue_def)
  then show ?case unfolding st(7) by (rule exp_ok_mode)
next
  case (7 op a b s)
  have g: "check (op = CHR ''+'' \<or> op = CHR ''-'') AssertionFailed = Inr ()" using "7.prems"(3) by auto
  obtain v1 s1 x s2 w s3 y s4 s5 where st: "visit_exp a (s\<lparr>vs_mode := NormalMode\<rparr>) = Inr (v1, s1)"
    "to_irvalue v1 s1 = Inr (x, s2)" "visit_exp b s2 = Inr (w, s3)" "to_irvalue w s3 = Inr (y, s4)"
    "add_normal op x y s4 = Inr (v, s5)" "s' = s5\<lparr>vs_mode := vs_mode s\<rparr>"
    using "7.prems"(2,3) by auto
  have s0: "started (s\<lparr>vs_mode := NormalMode\<rparr>) Op J" using "7.prems"(1) by simp
  have a: "exp_ok Op J (s\<lparr>vs_mode := NormalMode\<rparr>) v1 s1"
    by (rule "7.IH"(3) [OF g "7.prems"(2) s0 _ st(1)]) simp
  have m: "vs_mode s2 \<noteq> CompileTime" using operand_mode [OF a st(2)] by simp
  obtain Op' where go: "goes Op J (s\<lparr>vs_mode := NormalMode\<rparr>) s4 Op'" "started s4 Op' J" "reg_ok s4 (iv_reg x)" "reg_ok s4 (iv_reg y)"
    by (rule operands_ok [OF a st(2) "7.IH"(4) [OF g "7.prems"(2) st(1) refl st(2) refl _ m st(3)] st(4)])
  show ?case unfolding st(6)
    by (rule exp_ok_mode [OF goes_gives_exp [OF go(1) add_normal_ok [OF st(5) startedD [OF go(2)] go(3,4)]]])
next
  case (11 e es dims t sc s)
  obtain t1 sc1 tmp1 s1 v s2 x s4 r where st: "visit_index es dims t sc s = Inr (t1, sc1, tmp1, s1)" "deref_one_dim t1 = Inr t'"
    "visit_exp e s1 = Inr (v, s2)" "to_irvalue v s2 = Inr (x, s4)" "get_value_as IntT x s4 = Inr (r, s3')" "tmp = (r, fst sc1) # tmp1"
    using "11.prems"(3) by auto
  obtain Op1 where g1: "goes Op3 J s s1 Op1" and r1: "\<forall>(r, sz)\<in>set tmp1. reg_ok s1 r"
    using "11.IH"(1) [OF "11.prems"(1,2) st(1)] by blast
  have m1: "vs_mode s1 \<noteq> CompileTime" using goesD(3) [OF g1] "11.prems"(2) by (simp add: grow_def)
  obtain Op2 where g2: "goes Op1 J s1 s4 Op2" "started s4 Op2 J" "reg_ok s4 (iv_reg x)"
    by (rule operand_ok [OF "11.IH"(2) [OF st(1) refl refl refl st(2) goes_started [OF g1] m1 st(3)] st(4)])
  note g3 = get_value_as_ok [OF st(5) startedD [OF g2(2)] g2(3)]
  have "\<forall>(r, sz)\<in>set tmp. reg_ok s3' r"
    using r1 goesD(5) [OF g2(1)] gives_regD(3,4) [OF g3] by (auto simp: st(6))
  then show ?case using goes_gives(1) [OF goes_trans [OF g1 g2(1)] g3] by blast
next
  case (13 e ps s)
  have g: "check (vs_mode s \<noteq> CompileTime) AssertionFailed = Inr ()" using "13.prems"(3) by auto
  obtain v1 s1 x s2 xs where st: "visit_exp e (s\<lparr>vs_mode := NormalMode\<rparr>) = Inr (v1, s1)" "to_irvalue v1 s1 = Inr (x, s2)"
    "visit_rparams ps (s2\<lparr>vs_mode := vs_mode s\<rparr>) = Inr (xs, s4')" "as = AVal x # xs"
    using "13.prems"(3) by auto
  have s0: "started (s\<lparr>vs_mode := NormalMode\<rparr>) Op4 J" using "13.prems"(1) by simp
  have a: "exp_ok Op4 J (s\<lparr>vs_mode := NormalMode\<rparr>) v1 s1" by (rule "13.IH"(1) [OF g s0 _ st(1)]) simp
  obtain Op1 where g1: "goes Op4 J (s\<lparr>vs_mode := NormalMode\<rparr>) s2 Op1" "started s2 Op1 J" "reg_ok s2 (iv_reg x)"
    by (rule operand_ok [OF a st(2)])
  let ?s2 = "s2\<lparr>vs_mode := vs_mode s\<rparr>"
  have g2: "goes Op4 J s ?s2 Op1" using g1(1) by (rule goes_mode)
  obtain Op2 where g3: "goes Op1 J ?s2 s4' Op2" and xs: "\<forall>a\<in>set xs. arg_ok s4' a"
    using "13.IH"(2) [OF g st(1) refl st(2) refl goes_started [OF g2] _ st(3)] "13.prems"(2) by auto
  have "reg_ok ?s2 (iv_reg x)" using g1(3) by simp
  then have "arg_ok s4' (AVal x)" using goesD(5) [OF g3] by (simp add: arg_ok_def)
  then show ?case using goes_trans [OF g2 g3] xs by (auto simp: st(4))
next
  case (14 t ps s)
  obtain k s1 xs where st: "visit_string t s = (k, s1)" "visit_rparams ps s1 = Inr (xs, s4')" "as = AObj k # xs"
    using "14.prems"(3) by (auto simp: Let_def split: prod.splits)
  note i = visit_string_ok [OF st(1) startedD(1) [OF "14.prems"(1)]]
  have g1: "goes Op4 J s s1 Op4" using started_goes [OF "14.prems"(1) i(1)] .
  have m: "vs_mode s1 \<noteq> CompileTime" using insideD(2) [OF i(1)] "14.prems"(2) by (simp add: grow_def)
  obtain Op2 where g2: "goes Op4 J s1 s4' Op2" and xs: "\<forall>a\<in>set xs. arg_ok s4' a"
    using "14.IH" [OF st(1) [symmetric] refl goes_started [OF g1] m st(2)] by blast
  have "arg_ok s4' (AObj k)" using arg_ok_grow [OF goesD(3) [OF g2], of "AObj k"] i(2) by (simp add: arg_ok_def)
  then show ?case using goes_trans [OF g1 g2] xs by (auto simp: st(3))
qed (auto simp: goes_refl started_def intro: goes_refl)

section \<open>Logical expressions\<close>

text \<open>More branches may be taken to be open.\<close>

lemma vis_ok_slots:
  assumes "vis_ok s Op J" and "J \<subseteq> J'" and "\<forall>p\<in>J'. fst p \<in> block_keys (cur_fn s) \<and> fst p \<notin> Op"
  shows "vis_ok s Op J'"
proof -
  have "fn_ok (known_funcs s) (known_objs s) (vs_next_bb s) Op J (cur_fn s)" using assms(1) by (simp add: vis_ok_def)
  then have "fn_ok (known_funcs s) (known_objs s) (vs_next_bb s) Op J' (cur_fn s)"
    using assms(3) targets_at_mono [OF _ order_refl assms(2)] unfolding fn_ok_def by blast
  then show ?thesis using assms(1) by (simp add: vis_ok_def)
qed

lemma cond_seq_ok:
  assumes l: "leaves Op J s l s1" and n: "v_new_bb s1 = Inr (k, s2)"
    and ps: "slots_of l = set ps \<union> set qs" and s3: "s3 = patch_all k ps (s2\<lparr>vs_cur := Some k\<rparr>)"
    and IH: "\<And>Op' J'. started s3 Op' J' \<Longrightarrow> leaves Op' J' s3 r s'"
    and j: "slots_of j = slots_of r \<union> set qs"
  shows "leaves Op J s j s'"
proof -
  obtain c where c: "vs_cur s = Some c" "c \<in> Op" "slots_of l \<inter> J = {}" "vis_ok s1 (Op - {c}) (J \<union> slots_of l)" "grow s s1"
    "vs_local s1 = vs_local s" "vs_return_value s1 = vs_return_value s"
    using l by (auto simp: leaves_def)
  note nb = new_bb_open [OF n c(4)]
  let ?s2 = "s2\<lparr>vs_cur := Some k\<rparr>"
  have ok2: "vis_ok ?s2 (insert k (Op - {c})) (J \<union> slots_of l)" using nb(2) by simp
  have k2: "k \<in> block_keys (cur_fn ?s2)" using nb(5) by simp
  have "\<forall>p\<in>set ps. fst p \<in> block_keys (cur_fn ?s2)" using slots_keys [OF ok2] ps by auto
  note pa = patch_all_ok [OF ok2 k2 this]
  let ?J = "J \<union> slots_of l - set ps"
  have ok3: "vis_ok s3 (insert k (Op - {c})) ?J" "vs_cur s3 = Some k" and g23: "grow ?s2 s3" using pa unfolding s3 by auto
  have f3: "vs_local s3 = vs_local s2" "vs_return_value s3 = vs_return_value s2"
    using patch_all_fields [of k ps ?s2] by (simp_all add: s3)
  have "started s3 (insert k (Op - {c})) ?J" using ok3 by (simp add: started_def)
  from IH [OF this] have r: "vs_cur s' = None" "slots_of r \<inter> ?J = {}" "vis_ok s' (insert k (Op - {c}) - {k}) (?J \<union> slots_of r)"
    "grow s3 s'" "vs_local s' = vs_local s3" "vs_return_value s' = vs_return_value s3"
    using ok3(2) by (auto simp: leaves_def)
  have "insert k (Op - {c}) - {k} = Op - {c}" using nb(1) by auto
  with r(3) have okr: "vis_ok s' (Op - {c}) (?J \<union> slots_of r)" by simp
  have g13: "grow s1 s3" using nb(3) g23 by (auto simp: grow_def)
  have keys: "fst p \<in> block_keys (cur_fn s') \<and> fst p \<notin> Op - {c}" if "p \<in> slots_of l" for p
    using slots_keys [OF c(4), of p] that keys_grow [OF g13] keys_grow [OF r(4)] by blast
  have "vis_ok s' (Op - {c}) (J \<union> slots_of j)"
  proof (rule vis_ok_slots [OF okr])
    show "?J \<union> slots_of r \<subseteq> J \<union> slots_of j" using ps j by auto
    have "J \<subseteq> ?J \<union> slots_of r" using c(3) ps by auto
    then show "\<forall>p\<in>J \<union> slots_of j. fst p \<in> block_keys (cur_fn s') \<and> fst p \<notin> Op - {c}"
      using slots_keys [OF okr] keys ps j by blast
  qed
  moreover have "slots_of j \<inter> J = {}" using r(2) c(3) ps j by blast
  moreover have "grow s s'" using c(5) g13 r(4) grow_trans by blast
  moreover have "vs_local s' = vs_local s" "vs_return_value s' = vs_return_value s" using r(5,6) f3 nb(6,7) c(6,7) by simp_all
  ultimately show ?thesis unfolding leaves_def using c(1,2) r(1) by blast
qed

lemma logic_value_ok:
  assumes s: "started s Op J" "reg_ok s (iv_reg lhs)" and f: "logic_first is_and lhs s = Inr (x, k, out, s1)"
    and IH: "\<And>Op1. started s1 Op1 J \<Longrightarrow> exp_ok Op1 J s1 v s2" and t: "to_irvalue v s2 = Inr (rhs, s3)"
    and l: "logic_second x k out rhs s3 = Inr (w, s')"
  shows "exp_ok Op J s w s'"
proof -
  obtain c where c: "vs_cur s = Some c" "c \<in> Op" using s(1) by (auto simp: started_def)
  obtain sa re sb sc where st: "get_value_as IntT lhs s = Inr (x, sa)" "vs_cur sa = Some k" "v_new_bb sa = Inr (re, sb)"
    "v_new_bb sb = Inr (out, sc)"
    "s1 = (push_to k (if is_and then BranchInstr x re out else BranchInstr x out re) sc)\<lparr>vs_cur := Some re\<rparr>"
    using f by (auto simp: logic_first_def Let_def)
  let ?i = "if is_and then BranchInstr x re out else BranchInstr x out re"
  note g = get_value_as_ok [OF st(1) startedD [OF s(1)] s(2)]
  note d = gives_regD [OF g]
  have k: "k = c" using insideD(4) [OF d(1)] st(2) c(1) by simp
  note n1 = new_bb_open [OF st(3) d(2)]
  note n2 = new_bb_open [OF st(4) n1(2)]
  have ne: "re \<noteq> out" "re \<notin> Op" "out \<notin> Op" "k \<in> insert out (insert re Op)" using n1(1) n2(1) c(2) k by auto
  have gc: "grow sa sc" using n1(3) n2(3) grow_trans by blast
  have i: "instr_ok_at sc ?i" "is_control ?i" using grow_known(2) [OF gc d(3)] by (auto simp: instr_simps control_simps)
  have tg: "targets_at (block_keys (cur_fn sc)) {} k n ?i" for n
    using n2(5) keys_grow [OF n2(3) n1(5)] by (auto simp: targets_at_def)
  note p = push_jump_ok [OF n2(2) ne(4) i tg]
  let ?O = "insert out (insert re (Op - {k}))"
  have O: "insert out (insert re Op) - {k} = ?O" using c(2) k ne by auto
  have ok1: "vis_ok s1 ?O J" and g1: "grow sc s1" using p(1,2) by (simp_all add: st(5) O grow_def)
  have s1: "started s1 ?O J" using ok1 by (simp add: started_def st(5))
  obtain Op2 where go: "goes ?O J s1 s3 Op2" "started s3 Op2 J" "reg_ok s3 (iv_reg rhs)" using operand_ok [OF IH [OF s1] t] .
  obtain y sd c' se r sf where en: "get_value_as IntT rhs s3 = Inr (y, sd)" "vs_cur sd = Some c'" "se = push_to c' (JumpInstr out) sd"
    "v_new_reg (se\<lparr>vs_cur := Some out\<rparr>) = Inr (r, sf)" "push_cur_bb (PhiInstr r [(x, k), (y, c')]) sf = Inr s'"
    "w = VIR (rvalue IntT r)"
    using l by (auto simp: logic_second_def push_cur_bb_def split: option.splits)
  note g3 = get_value_as_ok [OF en(1) startedD [OF go(2)] go(3)]
  have god: "goes ?O J s1 sd Op2" by (rule goes_gives(1) [OF go(1) g3])
  have c': "Op2 = insert c' (?O - {re})" "c' = re \<or> c' \<notin> ?O" using god en(2) by (auto simp: goes_def st(5))
  have k1: "out \<in> block_keys (cur_fn s1)" "k \<in> block_keys (cur_fn s1)"
  proof -
    show "out \<in> block_keys (cur_fn s1)" using n2(5) keys_grow [OF g1] by blast
    have "k \<in> block_keys (cur_fn sa)" using open_key [OF d(2)] c(2) k by blast
    then show "k \<in> block_keys (cur_fn s1)" using keys_grow [OF gc] keys_grow [OF g1] by blast
  qed
  have gd: "grow s1 sd" by (rule goesD(3) [OF god])
  have c2: "c' \<in> Op2" using c'(1) by simp
  have tg2: "targets_at (block_keys (cur_fn sd)) {} c' n (JumpInstr out)" for n
    using keys_grow [OF gd k1(1)] by (simp add: targets_at_def)
  note q = push_jump_ok [OF goesD(1) [OF god] c2 instr_simps(10) control_simps(12) tg2]
  have O3: "Op2 - {c'} = insert out (Op - {k})" using c' ne by auto
  let ?se = "se\<lparr>vs_cur := Some out\<rparr>"
  have oke: "vis_ok ?se (insert out (Op - {k})) J" "cur_open ?se (insert out (Op - {k}))" and ge: "grow sd se"
    using q(1,2) by (simp_all add: O3 en(3) cur_open_def)
  have kf: "c' \<in> block_keys (cur_fn ?se)" "k \<in> block_keys (cur_fn ?se)"
    using open_key [OF goesD(1) [OF god] c2] keys_grow [OF gd k1(2)] keys_grow [OF ge] by simp_all
  have regs: "reg_ok ?se x" "reg_ok ?se y"
  proof -
    have "reg_ok s1 x" using grow_known(2) [OF g1 grow_known(2) [OF gc d(3)]] .
    then have "reg_ok sd x" by (rule grow_known(2) [OF gd])
    then show "reg_ok ?se x" "reg_ok ?se y"
      using grow_known(2) [OF ge] gives_regD(3) [OF g3] by (simp_all add: reg_ok_def)
  qed
  have gf: "grow ?se sf" using new_reg_inside(1) [OF en(4) oke(1)] by (rule insideD)
  have "gives_reg (insert out (Op - {k})) J ?se r s'"
    by (rule gives_regI [OF en(4,5) oke]) (use new_reg_ok [OF en(4) oke(1)] regs keys_grow [OF gf] kf in \<open>simp_all add: instr_simps control_simps\<close>)
  note z = gives_regD [OF this]
  have same: "vs_local ?se = vs_local s" "vs_return_value ?se = vs_return_value s"
    using god n1(6,7) n2(6,7) insideD(5,6) [OF d(1)] by (auto simp: goes_def en(3) st(5))
  have gs: "grow s s'"
  proof -
    have "grow sd ?se" using ge by (simp add: grow_def)
    then show ?thesis using d(7) gc g1 gd z(7) grow_trans by blast
  qed
  have "goes Op J s s' (insert out (Op - {k}))"
    unfolding goes_def
    by (intro exI [of _ c] exI [of _ out] conjI)
      (use c k ne z(2) gs insideD(4-6) [OF z(1)] same in simp_all)
  then show ?thesis using z(3) by (auto simp: exp_ok_def value_ok_def en(6) rvalue_def)
qed

lemma patch_all_mode [simp]: "vs_mode (patch_all k ps s) = vs_mode s"
  by (induction ps arbitrary: s) (simp_all add: patch_all_def patch_def split: prod.split)

lemma cond_mode:
  assumes "leaves Op J s l s1" and "v_new_bb s1 = Inr (k, s2)"
  shows "vs_mode (patch_all k ps (s2\<lparr>vs_cur := c\<rparr>)) = vs_mode s"
  using assms new_bb_open(3) [OF assms(2)] by (auto simp: leaves_def grow_def)

lemma logic_first_mode:
  assumes f: "logic_first is_and lhs s = Inr (x, k, out, s1)" and s: "started s Op J" "reg_ok s (iv_reg lhs)"
  shows "vs_mode s1 = vs_mode s"
proof -
  obtain sa re sb sc i where st: "get_value_as IntT lhs s = Inr (x, sa)" "v_new_bb sa = Inr (re, sb)"
    "v_new_bb sb = Inr (out, sc)" "s1 = (push_to k i sc)\<lparr>vs_cur := Some re\<rparr>"
    using f by (auto simp: logic_first_def Let_def)
  note d = gives_regD [OF get_value_as_ok [OF st(1) startedD [OF s(1)] s(2)]]
  note n1 = new_bb_open [OF st(2) d(2)]
  note n2 = new_bb_open [OF st(3) n1(2)]
  show ?thesis using d(7) n1(3) n2(3) by (simp add: st(4) grow_def push_to_def)
qed

lemma visit_lexp_ok:
  assumes "started s Op J" and "vs_mode s \<noteq> CompileTime" and "visit_lexp e s = Inr (v, s')"
  shows "exp_ok Op J s v s'"
  using assms
proof (induction e s arbitrary: Op J v s' rule: visit_lexp.induct)
  case (1 e s)
  then show ?case using visit_ok(1) by simp
next
  case (2 rl a b s)
  obtain v1 s1 x s2 w s3 y s4 s5 where st: "visit_lexp a (s\<lparr>vs_mode := NormalMode\<rparr>) = Inr (v1, s1)"
    "to_irvalue v1 s1 = Inr (x, s2)" "visit_lexp b s2 = Inr (w, s3)" "to_irvalue w s3 = Inr (y, s4)"
    "compare_emit (rel_reversed rl) (rel_compute rl) x y s4 = Inr (v, s5)" "s' = s5\<lparr>vs_mode := vs_mode s\<rparr>"
    using "2.prems"(2,3) by auto
  have a: "exp_ok Op J (s\<lparr>vs_mode := NormalMode\<rparr>) v1 s1" by (rule "2.IH"(3) [OF "2.prems"(2) _ _ st(1)]) (use "2.prems"(1) in simp_all)
  have m: "vs_mode s2 \<noteq> CompileTime" using operand_mode [OF a st(2)] by simp
  obtain Op' where go: "goes Op J (s\<lparr>vs_mode := NormalMode\<rparr>) s4 Op'" "started s4 Op' J" "reg_ok s4 (iv_reg x)" "reg_ok s4 (iv_reg y)"
    by (rule operands_ok [OF a st(2) "2.IH"(4) [OF "2.prems"(2) st(1) refl st(2) refl _ m st(3)] st(4)])
  show ?case unfolding st(6)
    by (rule exp_ok_mode [OF goes_gives_exp [OF go(1) compare_emit_ok [OF st(5) startedD [OF go(2)] go(3,4)]]])
next
  case (3 eq a b s)
  obtain v1 s1 x s2 w s3 y s4 s5 where st: "visit_lexp a (s\<lparr>vs_mode := NormalMode\<rparr>) = Inr (v1, s1)"
    "to_irvalue v1 s1 = Inr (x, s2)" "visit_lexp b s2 = Inr (w, s3)" "to_irvalue w s3 = Inr (y, s4)"
    "compare_emit False (if eq then EQ else NEQ) x y s4 = Inr (v, s5)" "s' = s5\<lparr>vs_mode := vs_mode s\<rparr>"
    using "3.prems"(2,3) by auto
  have a: "exp_ok Op J (s\<lparr>vs_mode := NormalMode\<rparr>) v1 s1" by (rule "3.IH"(3) [OF "3.prems"(2) _ _ st(1)]) (use "3.prems"(1) in simp_all)
  have m: "vs_mode s2 \<noteq> CompileTime" using operand_mode [OF a st(2)] by simp
  obtain Op' where go: "goes Op J (s\<lparr>vs_mode := NormalMode\<rparr>) s4 Op'" "started s4 Op' J" "reg_ok s4 (iv_reg x)" "reg_ok s4 (iv_reg y)"
    by (rule operands_ok [OF a st(2) "3.IH"(4) [OF "3.prems"(2) st(1) refl st(2) refl _ m st(3)] st(4)])
  show ?case unfolding st(6)
    by (rule exp_ok_mode [OF goes_gives_exp [OF go(1) compare_emit_ok [OF st(5) startedD [OF go(2)] go(3,4)]]])
next
  case (4 a b s)
  consider (V) "vs_mode s = NormalMode" | (C) "vs_mode s = Condition" using "4.prems"(2) by (cases "vs_mode s") auto
  then show ?case
  proof cases
    case V
    obtain v1 s1 lhs s2 x k out s3 w s4 rhs s5 where st: "visit_lexp a s = Inr (v1, s1)" "to_irvalue v1 s1 = Inr (lhs, s2)"
      "logic_first True lhs s2 = Inr (x, k, out, s3)" "visit_lexp b s3 = Inr (w, s4)" "to_irvalue w s4 = Inr (rhs, s5)"
      "logic_second x k out rhs s5 = Inr (v, s')"
      using "4.prems"(3) V by auto
    note a = "4.IH"(1) [OF V "4.prems"(1,2) st(1)]
    obtain Op1 where o: "goes Op J s s2 Op1" "started s2 Op1 J" "reg_ok s2 (iv_reg lhs)" using operand_ok [OF a st(2)] .
    have "vs_mode s3 = vs_mode s2" by (rule logic_first_mode [OF st(3) o(2,3)])
    then have m: "vs_mode s3 \<noteq> CompileTime" using operand_mode [OF a st(2)] V by simp
    have "exp_ok Op1 J s2 v s'"
      by (rule logic_value_ok [OF o(2,3) st(3) "4.IH"(2) [OF V st(1) refl st(2) refl st(3) refl refl refl _ m st(4)] st(5,6)])
    then show ?thesis by (rule goes_exp_ok [OF o(1)])
  next
    case C
    obtain v1 s1 l s2 k s3 w s4 r s5 where st: "visit_lexp a s = Inr (v1, s1)" "to_cond_jumps v1 s1 = Inr (l, s2)"
      "v_new_bb s2 = Inr (k, s3)" "visit_lexp b (patch_all k (true_list l) (s3\<lparr>vs_cur := Some k\<rparr>)) = Inr (w, s4)"
      "to_cond_jumps w s4 = Inr (r, s')" "v = VCond (r\<lparr>false_list := false_list r @ false_list l\<rparr>)"
      using "4.prems"(3) C by auto
    let ?s = "patch_all k (true_list l) (s3\<lparr>vs_cur := Some k\<rparr>)"
    have l: "leaves Op J s l s2" by (rule to_cond_jumps_ok [OF "4.IH"(5) [OF C "4.prems"(1,2) st(1)] st(2)])
    have m: "vs_mode ?s \<noteq> CompileTime"
      using cond_mode [OF l st(3)] C by simp
    have "leaves Op J s (r\<lparr>false_list := false_list r @ false_list l\<rparr>) s'"
      by (rule cond_seq_ok [OF l st(3) _ refl to_cond_jumps_ok [OF "4.IH"(6) [OF C st(1) refl st(2) refl st(3) refl _ m st(4)] st(5)], of "false_list l"])
        (auto simp: slots_of_def)
    then show ?thesis by (simp add: exp_ok_def st(6))
  qed
next
  case (5 a b s)
  consider (V) "vs_mode s = NormalMode" | (C) "vs_mode s = Condition" using "5.prems"(2) by (cases "vs_mode s") auto
  then show ?case
  proof cases
    case V
    obtain v1 s1 lhs s2 x k out s3 w s4 rhs s5 where st: "visit_lexp a s = Inr (v1, s1)" "to_irvalue v1 s1 = Inr (lhs, s2)"
      "logic_first False lhs s2 = Inr (x, k, out, s3)" "visit_lexp b s3 = Inr (w, s4)" "to_irvalue w s4 = Inr (rhs, s5)"
      "logic_second x k out rhs s5 = Inr (v, s')"
      using "5.prems"(3) V by auto
    note a = "5.IH"(1) [OF V "5.prems"(1,2) st(1)]
    obtain Op1 where o: "goes Op J s s2 Op1" "started s2 Op1 J" "reg_ok s2 (iv_reg lhs)" using operand_ok [OF a st(2)] .
    have "vs_mode s3 = vs_mode s2" by (rule logic_first_mode [OF st(3) o(2,3)])
    then have m: "vs_mode s3 \<noteq> CompileTime" using operand_mode [OF a st(2)] V by simp
    have "exp_ok Op1 J s2 v s'"
      by (rule logic_value_ok [OF o(2,3) st(3) "5.IH"(2) [OF V st(1) refl st(2) refl st(3) refl refl refl _ m st(4)] st(5,6)])
    then show ?thesis by (rule goes_exp_ok [OF o(1)])
  next
    case C
    obtain v1 s1 l s2 k s3 w s4 r s5 where st: "visit_lexp a s = Inr (v1, s1)" "to_cond_jumps v1 s1 = Inr (l, s2)"
      "v_new_bb s2 = Inr (k, s3)" "visit_lexp b (patch_all k (false_list l) (s3\<lparr>vs_cur := Some k\<rparr>)) = Inr (w, s4)"
      "to_cond_jumps w s4 = Inr (r, s')" "v = VCond (r\<lparr>true_list := true_list r @ true_list l\<rparr>)"
      using "5.prems"(3) C by auto
    let ?s = "patch_all k (false_list l) (s3\<lparr>vs_cur := Some k\<rparr>)"
    have l: "leaves Op J s l s2" by (rule to_cond_jumps_ok [OF "5.IH"(5) [OF C "5.prems"(1,2) st(1)] st(2)])
    have m: "vs_mode ?s \<noteq> CompileTime"
      using cond_mode [OF l st(3)] C by simp
    have "leaves Op J s (r\<lparr>true_list := true_list r @ true_list l\<rparr>) s'"
      by (rule cond_seq_ok [OF l st(3) _ refl to_cond_jumps_ok [OF "5.IH"(6) [OF C st(1) refl st(2) refl st(3) refl _ m st(4)] st(5)], of "true_list l"])
        (auto simp: slots_of_def)
    then show ?thesis by (simp add: exp_ok_def st(6))
  qed
qed

lemma visit_cond_ok:
  assumes s: "started s Op J" and m: "vs_mode s = NormalMode" and v: "visit_cond c s = Inr (j, s')"
  shows "leaves Op J s j s'"
proof -
  obtain w s1 where st: "visit_lexp c (s\<lparr>vs_mode := Condition\<rparr>) = Inr (w, s1)" "to_cond_jumps w (s1\<lparr>vs_mode := vs_mode s\<rparr>) = Inr (j, s')"
    using v m by (auto simp: visit_cond_def)
  have "exp_ok Op J (s\<lparr>vs_mode := Condition\<rparr>) w s1" by (rule visit_lexp_ok [OF _ _ st(1)]) (use s in simp_all)
  then show ?thesis using to_cond_jumps_ok [OF exp_ok_mode st(2)] by blast
qed

end
