(* ===== verification/FrontDecl.thy ===== *)
theory FrontDecl
  imports FrontVisit
begin

text \<open>
  Declarations keep the invariant of the front end: new objects, the lists of initial values, the stores of
  local constants and variables.
\<close>

section \<open>Statements in general\<close>

text \<open>Like \<open>goes\<close>, but the local tables and the list of returned values may change.\<close>

definition runs :: "bb_key set \<Rightarrow> slot set \<Rightarrow> vis \<Rightarrow> vis \<Rightarrow> bb_key set \<Rightarrow> bool" where
  "runs Op J s s' Op' =
     (\<exists>c c'. vs_cur s = Some c \<and> c \<in> Op \<and> vs_cur s' = Some c' \<and> (c' = c \<or> c' \<notin> Op) \<and> Op' = insert c' (Op - {c}) \<and>
        vis_ok s' Op' J \<and> grow s s')"

definition stays :: "bb_key set \<Rightarrow> slot set \<Rightarrow> vis \<Rightarrow> vis \<Rightarrow> bool" where
  "stays Op J s s' = (vis_ok s' Op J \<and> grow s s' \<and> vs_cur s' = vs_cur s)"

lemma goes_runs: "goes Op J s s' Op' \<Longrightarrow> runs Op J s s' Op'"
  by (auto simp: goes_def runs_def)

lemma inside_stays: "inside Op J s s' \<Longrightarrow> stays Op J s s'"
  by (simp add: inside_def stays_def)

lemma stays_refl: "vis_ok s Op J \<Longrightarrow> stays Op J s s"
  by (simp add: stays_def)

lemma stays_trans [trans]: "stays Op J a b \<Longrightarrow> stays Op J b c \<Longrightarrow> stays Op J a c"
  unfolding stays_def using grow_trans by auto

lemma staysD:
  assumes "stays Op J s s'"
  shows "vis_ok s' Op J" and "grow s s'" and "vs_cur s' = vs_cur s" and "started s Op J \<Longrightarrow> started s' Op J"
    and "cur_open s' Op = cur_open s Op"
  using assms by (auto simp: stays_def started_def cur_open_def)

lemma stays_runs: "started s Op J \<Longrightarrow> stays Op J s s' \<Longrightarrow> runs Op J s s' Op"
  by (auto simp: started_def stays_def runs_def insert_absorb)

lemma runs_trans:
  assumes "runs Op J a b Op1" and "runs Op1 J b c Op2"
  shows "runs Op J a c Op2"
proof -
  obtain x y where x: "vs_cur a = Some x" "x \<in> Op" "vs_cur b = Some y" "y = x \<or> y \<notin> Op" "Op1 = insert y (Op - {x})" "grow a b"
    using assms(1) unfolding runs_def by blast
  obtain z where z: "vs_cur c = Some z" "z = y \<or> z \<notin> Op1" "Op2 = insert z (Op1 - {y})" "vis_ok c Op2 J" "grow b c"
    using assms(2) x(3) unfolding runs_def by auto
  have o: "Op2 = insert z (Op - {x})" using x(2,4,5) z(3) by auto
  have "z = x \<or> z \<notin> Op" using x(4,5) z(2) by auto
  then show ?thesis
    unfolding runs_def
    by (intro exI [of _ x] exI [of _ z] conjI) (use x z o grow_trans [OF x(6) z(5)] in simp_all)
qed

lemma runsD:
  assumes "runs Op J s s' Op'"
  shows "vis_ok s' Op' J" and "grow s s'" and "started s' Op' J"
  using assms by (auto simp: runs_def started_def)

section \<open>Objects and local tables\<close>

lemma fn_ok_scope [simp]: "fn_ok A K N Op J (f\<lparr>nf_scope := x\<rparr>) = fn_ok A K N Op J f"
  "fn_ok A K N Op J (f\<lparr>nf_arg_types := at\<rparr>) = fn_ok A K N Op J f" "fn_ok A K N Op J (f\<lparr>nf_entry := e\<rparr>) = fn_ok A K N Op J f"
  by (simp_all add: fn_ok_def block_keys_def)

lemma objects_inside:
  assumes ok: "vis_ok s Op J" and sc: "obj_keys (vs_scope s) \<subseteq> obj_keys sc"
    and h: "\<And>f. vs_func s = Some f \<Longrightarrow> obj_keys (nf_scope f) \<subseteq> obj_keys (h (nf_scope f))"
    and s': "s' = s\<lparr>vs_scope := sc, vs_func := map_option (\<lambda>f. f\<lparr>nf_scope := h (nf_scope f), nf_arg_types := at f\<rparr>) (vs_func s), vs_next_obj := n\<rparr>"
  shows "inside Op J s s'"
proof -
  have act: "(vs_func s = None) = vs_in_init s" using ok by (simp add: vis_ok_def)
  have bl: "block_keys (f\<lparr>nf_scope := x, nf_arg_types := a\<rparr>) = block_keys f" for f x a by (simp add: block_keys_def)
  have F: "nf_bbs (cur_fn s') = nf_bbs (cur_fn s)" "nf_max_reg_id (cur_fn s') = nf_max_reg_id (cur_fn s)"
    "nf_name (cur_fn s') = nf_name (cur_fn s)" "nf_entry (cur_fn s') = nf_entry (cur_fn s)" "block_keys (cur_fn s') = block_keys (cur_fn s)"
    using act by (auto simp: s' cur_fn_def bl split: option.split)
  have fok: "fn_ok A K N Op J (cur_fn s') = fn_ok A K N Op J (cur_fn s)" for A K N
    by (simp add: fn_ok_def F)
  have A: "known_funcs s' = known_funcs s" by (auto simp: known_funcs_def s' image_iff)
  have fs: "obj_keys (nf_scope (cur_fn s)) \<subseteq> obj_keys (nf_scope (cur_fn s'))"
  proof (cases "vs_func s")
    case (Some f)
    then show ?thesis using act h [OF Some] by (simp add: s' cur_fn_def)
  qed (use act in \<open>simp add: s' cur_fn_def\<close>)
  have K: "known_objs s \<subseteq> known_objs s'" using sc fs by (auto simp: known_objs_def s')
  have E: "entry_ok s e \<Longrightarrow> entry_ok s' e" for e using K by (auto simp: entry_ok_def)
  have R: "reg_ok s' r = reg_ok s r" for r by (simp add: reg_ok_def F)
  have "fn_ok (known_funcs s) (known_objs s') (vs_next_bb s) Op J (cur_fn s')"
    unfolding fok by (rule fn_ok_mono [OF _ subset_refl K order_refl]) (use ok in \<open>simp add: vis_ok_def\<close>)
  moreover have "(vs_func s' = None) = vs_in_init s'" using act by (simp add: s')
  moreover have "vs_in_init s' = vs_in_init s" "vs_functions s' = vs_functions s" "vs_global s' = vs_global s" "vs_local s' = vs_local s"
    "vs_return_value s' = vs_return_value s" "vs_next_bb s' = vs_next_bb s" "vs_init s' = vs_init s" by (simp_all add: s')
  ultimately have "vis_ok s' Op J" unfolding vis_ok_def A F R using ok E by (auto simp: vis_ok_def)
  moreover have "grow s s'"
    unfolding grow_def F using sc fs by (auto simp: s')
  ultimately show ?thesis by (simp add: inside_def s')
qed

lemma edit_obj_inside:
  assumes ok: "vis_ok s Op J" and g: "\<And>m. mo_key (g m) = mo_key m"
  shows "inside Op J s (edit_obj k g s)" and "known_objs s \<subseteq> known_objs (edit_obj k g s)"
proof -
  let ?a = "\<lambda>f. nf_arg_types f"
  have e: "edit_obj k g s = s\<lparr>vs_scope := upd_obj k g (vs_scope s),
    vs_func := map_option (\<lambda>f. f\<lparr>nf_scope := upd_obj k g (nf_scope f), nf_arg_types := ?a f\<rparr>) (vs_func s), vs_next_obj := vs_next_obj s\<rparr>"
    by (simp add: edit_obj_def)
  show i: "inside Op J s (edit_obj k g s)"
    by (rule objects_inside [OF ok _ _ e]) (simp_all add: upd_obj_keys g)
  show "known_objs s \<subseteq> known_objs (edit_obj k g s)" using grow_known(1) [OF inside_grow [OF i]] .
qed

lemma new_local_obj_inside:
  assumes "new_local_obj name s = (k, s')" and ok: "vis_ok s Op J" and "vs_func s \<noteq> None"
  shows "inside Op J s s'" and "k \<in> known_objs s'"
proof -
  have e: "s' = s\<lparr>vs_scope := vs_scope s,
    vs_func := map_option (\<lambda>f. f\<lparr>nf_scope := new_mem_object (nf_scope f) k name, nf_arg_types := nf_arg_types f\<rparr>) (vs_func s), vs_next_obj := vs_next_obj s + 1\<rparr>"
    and k: "k = vs_next_obj s"
    using assms(1) by (auto simp: new_local_obj_def Let_def)
  show "inside Op J s s'" by (rule objects_inside [OF ok _ _ e]) (auto simp: new_mem_object_keys)
  show "k \<in> known_objs s'" using assms(3) ok by (auto simp: known_objs_def e cur_fn_def new_mem_object_keys vis_ok_def)
qed

lemma set_local_stays:
  assumes ok: "vis_ok s Op J" and g: "\<And>vt e. e \<in> ran (g vt) \<Longrightarrow> e \<in> ran vt \<or> entry_ok s e"
  shows "stays Op J s (set_local g s)"
proof -
  let ?s = "set_local g s"
  have F: "cur_fn ?s = cur_fn s" "known_funcs ?s = known_funcs s" "known_objs ?s = known_objs s"
    by (simp_all add: cur_fn_def known_funcs_def known_objs_def set_local_def)
  have E: "entry_ok ?s e = entry_ok s e" "reg_ok ?s r = reg_ok s r" for e r by (simp_all add: entry_ok_def reg_ok_def F)
  have "\<forall>t\<in>set (vs_global s # vs_local s). \<forall>e\<in>ran t. entry_ok s e" using ok by (simp add: vis_ok_def)
  then have "\<forall>t\<in>set (vs_global ?s # vs_local ?s). \<forall>e\<in>ran t. entry_ok s e"
  proof (cases "vs_local s")
    case (Cons t ts)
    then show ?thesis using g [of _ t] \<open>\<forall>t\<in>set (vs_global s # vs_local s). \<forall>e\<in>ran t. entry_ok s e\<close>
      by (auto simp: set_local_def)
  qed (simp add: set_local_def)
  then have "vis_ok ?s Op J" unfolding vis_ok_def F E using ok by (auto simp: vis_ok_def set_local_def)
  moreover have "grow s ?s" unfolding grow_def F by (simp add: set_local_def)
  ultimately show ?thesis by (simp add: stays_def set_local_def)
qed

lemma register_ran:
  "e \<in> ran (register_var name (Some k) t vt) \<Longrightarrow> e \<in> ran vt \<or> ve_obj e = Some k"
  "e \<in> ran (register_const name (Some k) t i vt) \<Longrightarrow> e \<in> ran vt \<or> ve_obj e = Some k"
  by (auto simp: register_var_def register_const_def ran_def split: if_splits)

lemma register_local_stays:
  assumes "vis_ok s Op J" and "k \<in> known_objs s"
  shows "stays Op J s (set_local (register_var name (Some k) t) s)" and "stays Op J s (set_local (register_const name (Some k) t i) s)"
  by (rule set_local_stays [OF assms(1)]; use register_ran assms(2) in \<open>force simp: entry_ok_def\<close>)+

section \<open>Stores\<close>

text \<open>An instruction that defines a register taken before.\<close>

lemma emit_fresh:
  assumes p: "push_cur_bb i s = Inr s'" and ok: "vis_ok s Op J" "cur_open s Op"
    and i: "instr_ok_at s i" "def_of i = Some d" "fresh_in (cur_fn s) d" "\<not> is_control i"
  shows "inside Op J s s'" and "reg_ok s' d" and "fresh_in (cur_fn s) x \<Longrightarrow> x \<noteq> d \<Longrightarrow> fresh_in (cur_fn s') x"
proof -
  have f: "fresh_in (cur_fn s) y" if "def_of i = Some y" for y using that i(2,3) by simp
  show a: "inside Op J s s'" by (rule push_cur_inside(1) [OF p ok i(1) f i(4)])
  show "reg_ok s' d" using inside_reg [OF a] i(3) by (simp add: reg_ok_def fresh_in_def)
  show "fresh_in (cur_fn s') x" if "fresh_in (cur_fn s) x" "x \<noteq> d"
    by (rule push_cur_inside(2) [OF p ok i(1) f i(4) that(1)]) (use that(2) i(2) in auto)
qed

lemma push_store_ok:
  assumes p: "push_cur_bb (StoreInstr a x 0 None) s = Inr s'" and ok: "vis_ok s Op J" "cur_open s Op" and r: "reg_ok s a" "reg_ok s x"
  shows "inside Op J s s'"
  by (rule push_cur_inside(1) [OF p ok]) (use r in \<open>simp_all add: instr_simps control_simps\<close>)

lemma fresh_reg_ok: "fresh_in (cur_fn s) r \<Longrightarrow> reg_ok s r"
  by (simp add: fresh_in_def reg_ok_def)

lemma inside_open: "inside Op J s s' \<Longrightarrow> cur_open s Op \<Longrightarrow> cur_open s' Op"
  using insideD(3) by simp

lemma store_element_ok:
  assumes e: "store_element start i x s = Inr s'" and ok: "vis_ok s Op J" "cur_open s Op" and r: "reg_ok s start" "reg_ok s x"
  shows "inside Op J s s'"
proof (cases "i = 0")
  case True
  then show ?thesis using e push_store_ok [OF _ ok r] by (simp add: store_element_def)
next
  case False
  then obtain ix s1 ad s2 s3 s4 where st: "v_new_reg s = Inr (ix, s1)" "v_new_reg s1 = Inr (ad, s2)"
    "push_cur_bb (LoadConstI ix (of_nat i)) s2 = Inr s3" "push_cur_bb (ArrayIndex ad start ix 4 (-1)) s3 = Inr s4"
    "push_cur_bb (StoreInstr ad x 0 None) s4 = Inr s'"
    using e by (auto simp: store_element_def)
  note a = new_reg_inside [OF st(1) ok(1)]
  note b = new_reg_inside [OF st(2) insideD(1) [OF a(1)]]
  have i2: "inside Op J s s2" using a(1) b(1) by (rule inside_trans)
  have f: "fresh_in (cur_fn s2) ix" "ix \<noteq> ad" "fresh_in (cur_fn s2) ad" using a(2) b(2,3) by blast+
  note ok2 = insideD(1) [OF i2] inside_open [OF i2 ok(2)]
  note c = emit_fresh [OF st(3) ok2 _ _ f(1)]
  have c': "inside Op J s2 s3" "reg_ok s3 ix" "fresh_in (cur_fn s3) ad"
    using c(1,2) c(3) [OF _ _ _ f(3)] f fresh_reg_ok [OF f(1)] by (simp_all add: instr_simps control_simps)
  have i3: "inside Op J s s3" using i2 c'(1) by (rule inside_trans)
  have r3: "reg_ok s3 start" "reg_ok s3 x" using inside_reg [OF i3] r by blast+
  note d = emit_fresh(1,2) [OF st(4) insideD(1) [OF i3] inside_open [OF i3 ok(2)] _ _ c'(3)]
  have d': "inside Op J s3 s4" "reg_ok s4 ad" using d r3 c'(2) fresh_reg_ok [OF c'(3)] by (simp_all add: instr_simps control_simps)
  have i4: "inside Op J s s4" using i3 d'(1) by (rule inside_trans)
  have "inside Op J s4 s'"
    by (rule push_store_ok [OF st(5) insideD(1) [OF i4] inside_open [OF i4 ok(2)] d'(2) inside_reg [OF d'(1) r3(2)]])
  with i4 show ?thesis by (rule inside_trans)
qed

definition regs_ok :: "vis \<Rightarrow> reg option list \<Rightarrow> bool" where
  "regs_ok s rs = (\<forall>r. Some r \<in> set rs \<longrightarrow> reg_ok s r)"

lemma regs_ok_grow: "grow s s' \<Longrightarrow> regs_ok s rs \<Longrightarrow> regs_ok s' rs"
  using grow_known(2) by (auto simp: regs_ok_def)

lemma store_elements_ok:
  assumes "store_elements start z i xs s = Inr s'" and "vis_ok s Op J" "cur_open s Op" and "reg_ok s start"
    and "\<forall>r\<in>set_option z. reg_ok s r" and "regs_ok s xs"
  shows "inside Op J s s'"
  using assms
proof (induction xs arbitrary: i s)
  case Nil
  then show ?case by (simp add: inside_refl)
next
  case (Cons x xs)
  obtain s1 where st: "(case (x, z) of (Some r, _) \<Rightarrow> store_element start i r s | (None, Some z) \<Rightarrow> store_element start i z s
       | (None, None) \<Rightarrow> Inr s) = Inr s1" "store_elements start z (i + 1) xs s1 = Inr s'"
    using Cons.prems(1) by auto
  have i1: "inside Op J s s1"
  proof (cases x)
    case (Some r)
    then have "reg_ok s r" using Cons.prems(6) by (simp add: regs_ok_def)
    then show ?thesis using st(1) Some store_element_ok Cons.prems(2-4) by simp
  next
    case None
    then show ?thesis using st(1) store_element_ok Cons.prems(2-5) inside_refl by (cases z) auto
  qed
  have "regs_ok s1 xs" using regs_ok_grow [OF inside_grow [OF i1], of xs] Cons.prems(6) by (simp add: regs_ok_def)
  then have "inside Op J s1 s'"
    using Cons.IH [OF st(2) insideD(1) [OF i1] inside_open [OF i1 Cons.prems(3)]] inside_reg [OF i1] Cons.prems(4,5) by blast
  with i1 show ?case by (rule inside_trans)
qed

lemma gen_var_init_ir_ok:
  assumes e: "gen_var_init_ir init k ig s = Inr s'" and ok: "vis_ok s Op J" "cur_open s Op" and k: "k \<in> known_objs s"
    and r: "regs_ok s init"
  shows "inside Op J s s'"
proof (cases ig)
  case True
  then obtain a s1 s2 where st: "v_new_reg s = Inr (a, s1)" "push_cur_bb (LoadAddr a k) s1 = Inr s2" "store_elements a None 0 init s2 = Inr s'"
    using e by (auto simp: gen_var_init_ir_def)
  have k1: "k \<in> known_objs s1" using k grow_known(1) [OF inside_grow [OF new_reg_inside(1) [OF st(1) ok(1)]]] by blast
  have g: "gives_reg Op J s a s2"
    by (rule gives_regI [OF st(1,2) ok]) (use k1 new_reg_ok [OF st(1) ok(1)] in \<open>simp_all add: instr_simps control_simps\<close>)
  note d = gives_regD [OF g]
  have "inside Op J s2 s'"
    by (rule store_elements_ok [OF st(3) d(2)]) (use d(3,5) ok(2) regs_ok_grow [OF d(7) r] in simp_all)
  with d(1) show ?thesis by (rule inside_trans)
next
  case False
  then obtain a s1 z s2 s3 s4 where st: "v_new_reg s = Inr (a, s1)" "v_new_reg s1 = Inr (z, s2)" "push_cur_bb (LoadAddr a k) s2 = Inr s3"
    "push_cur_bb (LoadConstI z 0) s3 = Inr s4" "store_elements a (Some z) 0 init s4 = Inr s'"
    using e by (auto simp: gen_var_init_ir_def)
  note a = new_reg_inside [OF st(1) ok(1)]
  note b = new_reg_inside [OF st(2) insideD(1) [OF a(1)]]
  have i2: "inside Op J s s2" using a(1) b(1) by (rule inside_trans)
  have f: "fresh_in (cur_fn s2) a" "a \<noteq> z" "fresh_in (cur_fn s2) z" using a(2) b(2,3) by blast+
  have k2: "k \<in> known_objs s2" using k grow_known(1) [OF inside_grow [OF i2]] by blast
  note c = emit_fresh [OF st(3) insideD(1) [OF i2] inside_open [OF i2 ok(2)] _ _ f(1)]
  have c': "inside Op J s2 s3" "reg_ok s3 a" "fresh_in (cur_fn s3) z"
    using c(1,2) c(3) [OF _ _ _ f(3)] f(2) k2 fresh_reg_ok [OF f(1)] by (simp_all add: instr_simps control_simps)
  have i3: "inside Op J s s3" using i2 c'(1) by (rule inside_trans)
  note d = emit_fresh(1,2) [OF st(4) insideD(1) [OF i3] inside_open [OF i3 ok(2)] _ _ c'(3)]
  have d': "inside Op J s3 s4" "reg_ok s4 z" using d fresh_reg_ok [OF c'(3)] by (simp_all add: instr_simps control_simps)
  have i4: "inside Op J s s4" using i3 d'(1) by (rule inside_trans)
  have "inside Op J s4 s'"
    by (rule store_elements_ok [OF st(5) insideD(1) [OF i4] inside_open [OF i4 ok(2)] inside_reg [OF d'(1) c'(2)]])
      (use d'(2) regs_ok_grow [OF inside_grow [OF i4] r] in simp_all)
  with i4 show ?thesis by (rule inside_trans)
qed

lemma store_consts_ok:
  assumes "store_consts t start i xs s = Inr s'" and "vis_ok s Op J" "cur_open s Op" and "reg_ok s start"
  shows "inside Op J s s'"
  using assms
proof (induction xs arbitrary: i s)
  case Nil
  then show ?case by (simp add: inside_refl)
next
  case (Cons x xs)
  obtain tmp s1 s2 s3 where st: "v_new_reg s = Inr (tmp, s1)" "push_cur_bb (if t = IntT then LoadConstI tmp x else LoadConstF tmp x) s1 = Inr s2"
    "(if i = 0 then push_cur_bb (StoreInstr start tmp 0 None) s2
        else
          andthen (v_new_reg s2) (\<lambda>(index, s).
          andthen (push_cur_bb (LoadConstI index (of_nat i)) s) (\<lambda>s.
          andthen (v_new_reg s) (\<lambda>(addr, s).
          push_all [ArrayIndex addr start index 4 (-1), StoreInstr addr tmp 0 None] s)))) = Inr s3"
    "store_consts t start (i + 1) xs s3 = Inr s'"
    using Cons.prems(1) by auto
  have g: "gives_reg Op J s tmp s2"
    by (rule gives_regI [OF st(1,2) Cons.prems(2,3)]) (use new_reg_ok [OF st(1) Cons.prems(2)] in \<open>simp_all add: instr_simps control_simps\<close>)
  note d = gives_regD [OF g]
  have co: "cur_open s2 Op" using d(5) Cons.prems(3) by simp
  have r: "reg_ok s2 start" using d(4) Cons.prems(4) .
  have i3: "inside Op J s2 s3"
  proof (cases "i = 0")
    case True
    then show ?thesis using st(3) push_store_ok [OF _ d(2) co r d(3)] by simp
  next
    case False
    then obtain ix sa sb ad sc sd where en: "v_new_reg s2 = Inr (ix, sa)" "push_cur_bb (LoadConstI ix (of_nat i)) sa = Inr sb"
      "v_new_reg sb = Inr (ad, sc)" "push_cur_bb (ArrayIndex ad start ix 4 (-1)) sc = Inr sd" "push_cur_bb (StoreInstr ad tmp 0 None) sd = Inr s3"
      using st(3) by auto
    have g1: "gives_reg Op J s2 ix sb"
      by (rule gives_regI [OF en(1,2) d(2) co]) (use new_reg_ok [OF en(1) d(2)] in \<open>simp_all add: instr_simps control_simps\<close>)
    note d1 = gives_regD [OF g1]
    have g2: "gives_reg Op J sb ad sd"
      by (rule gives_regI [OF en(3,4) d1(2)])
        (use d1(3,5) co d1(4) [OF r] new_reg_ok [OF en(3) d1(2)] in \<open>simp_all add: instr_simps control_simps\<close>)
    note d2 = gives_regD [OF g2]
    have "inside Op J sd s3"
      by (rule push_store_ok [OF en(5) d2(2)]) (use d1(5) d2(3,5) co d2(4) [OF d1(4) [OF d(3)]] in simp_all)
    then show ?thesis using inside_trans [OF d1(1) inside_trans [OF d2(1)]] by blast
  qed
  have "inside Op J s3 s'"
    using Cons.IH [OF st(4) insideD(1) [OF i3] inside_open [OF i3 co] inside_reg [OF i3 r]] .
  then show ?case using inside_trans [OF d(1) inside_trans [OF i3]] by blast
qed

section \<open>Initial values\<close>

lemma goes_mode_same: "goes Op J s s' Op' \<Longrightarrow> vs_mode s' = vs_mode s"
  by (auto simp: goes_def grow_def)

lemma started_refl: "started s Op J \<Longrightarrow> goes Op J s s Op"
  using goes_refl by (auto simp: started_def)

lemma var_scalar_ok:
  assumes "visit_exp e s = Inr (v, s1)" and "to_irvalue v s1 = Inr (x, s2)" and "get_value_as t x s2 = Inr (r, s')"
    and "started s Op J" and "vs_mode s \<noteq> CompileTime"
  obtains Op' where "goes Op J s s' Op'" "reg_ok s' r"
proof -
  obtain Op' where o: "goes Op J s s2 Op'" "started s2 Op' J" "reg_ok s2 (iv_reg x)"
    using operand_ok [OF visit_ok(1) [OF assms(4,5,1)] assms(2)] .
  note g = get_value_as_ok [OF assms(3) startedD [OF o(2)] o(3)]
  show ?thesis using that [OF goes_gives(1,2) [OF o(1) g]] .
qed

lemma var_list_ok:
  shows "var_list t ns shape result s = Inr (r, s') \<Longrightarrow> started s Op J \<Longrightarrow> vs_mode s \<noteq> CompileTime \<Longrightarrow> regs_ok s result \<Longrightarrow>
      \<exists>Op'. goes Op J s s' Op' \<and> regs_ok s' r"
    and "var_items t ns2 shape2 cnt result2 s2 = Inr (n, r2, s2') \<Longrightarrow> started s2 Op2 J \<Longrightarrow> vs_mode s2 \<noteq> CompileTime \<Longrightarrow>
      regs_ok s2 result2 \<Longrightarrow> \<exists>Op'. goes Op2 J s2 s2' Op' \<and> regs_ok s2' r2"
proof (induction t ns shape result s and t ns2 shape2 cnt result2 s2 arbitrary: Op r s' and Op2 n r2 s2'
    rule: var_list_var_items.induct)
  case (1 t node shape result s)
  have refl: "goes Op J s s Op" using started_refl [OF "1.prems"(2)] .
  show ?case
  proof (cases "shape \<noteq> [] \<and> prod_list shape \<noteq> 0")
    case True
    then obtain n r1 where st: "var_items t node shape 0 result s = Inr (n, r1, s')" "r = r1 @ replicate (fill n (prod_list shape)) None"
      using "1.prems"(1) by auto
    have "\<exists>Op'. goes Op J s s' Op' \<and> regs_ok s' r1" using "1.IH" [OF _ _ st(1) "1.prems"(2-4)] True by simp
    then show ?thesis by (auto simp: st(2) regs_ok_def)
  next
    case False
    then show ?thesis using "1.prems"(1,4) refl by (auto split: if_splits)
  qed
next
  case (2 t shape cnt result s)
  then show ?case using started_refl [OF "2.prems"(2)] by auto
next
  case (3 t e cs shape cnt result s)
  obtain v s1 x s3 y s4 where st: "check (cnt + 1 \<le> prod_list shape) InvalidInitList = Inr ()" "visit_exp e s = Inr (v, s1)"
    "to_irvalue v s1 = Inr (x, s3)" "get_value_as t x s3 = Inr (y, s4)"
    "var_items t cs shape (cnt + 1) (result @ [Some y]) s4 = Inr (n, r2, s2')"
    using "3.prems"(1) by auto
  obtain Op' where o: "goes Op2 J s s4 Op'" "reg_ok s4 y" by (rule var_scalar_ok [OF st(2-4) "3.prems"(2,3)])
  have r: "regs_ok s4 (result @ [Some y])" using o(2) regs_ok_grow [OF goesD(3) [OF o(1)] "3.prems"(4)] by (auto simp: regs_ok_def)
  have "\<exists>Op''. goes Op' J s4 s2' Op'' \<and> regs_ok s2' r2"
    using "3.IH" [OF st(1,2) refl st(3) refl st(4) refl st(5) goes_started [OF o(1)] _ r] goes_mode_same [OF o(1)] "3.prems"(3) by simp
  then show ?case using goes_trans [OF o(1)] by blast
next
  case (4 t ch cs shape cnt result s)
  let ?c = "prod_list (tl shape)"
  obtain r1 s1 where st: "check (cnt + ?c \<le> prod_list shape) InvalidInitList = Inr ()" "var_list t ch (tl shape) result s = Inr (r1, s1)"
    "(if cnt mod ?c \<noteq> 0 then var_items t cs shape (cnt + 1) (take (length r1 - (unat ?c - 1)) r1) s1
      else var_items t cs shape (cnt + ?c) r1 s1) = Inr (n, r2, s2')"
    using "4.prems"(1) by (auto simp: Let_def)
  obtain Op' where o: "goes Op2 J s s1 Op'" "regs_ok s1 r1" using "4.IH"(1) [OF refl st(1,2) "4.prems"(2-4)] by blast
  have m: "vs_mode s1 \<noteq> CompileTime" using goes_mode_same [OF o(1)] "4.prems"(3) by simp
  have "\<exists>Op''. goes Op' J s1 s2' Op'' \<and> regs_ok s2' r2"
  proof (cases "cnt mod ?c \<noteq> 0")
    case True
    have "regs_ok s1 (take (length r1 - (unat ?c - 1)) r1)" using o(2) in_set_takeD by (fastforce simp: regs_ok_def)
    then show ?thesis using "4.IH"(2) [OF refl st(1,2) refl True _ goes_started [OF o(1)] m] st(3) True by simp
  next
    case False
    then show ?thesis using "4.IH"(3) [OF refl st(1,2) refl _ _ goes_started [OF o(1)] m o(2)] st(3) by simp
  qed
  then show ?case using goes_trans [OF o(1)] by blast
qed

lemma parse_var_init_ok:
  assumes "parse_var_init t root shape s = Inr (r, s')" and "started s Op J" and "vs_mode s \<noteq> CompileTime"
  shows "\<exists>Op'. goes Op J s s' Op' \<and> regs_ok s' r"
proof (cases root)
  case (ScalarInitVal e)
  then obtain v s1 x s2 y where st: "visit_exp e s = Inr (v, s1)" "to_irvalue v s1 = Inr (x, s2)" "get_value_as t x s2 = Inr (y, s')"
    "r = [Some y]"
    using assms(1) by (auto simp: parse_var_init_def)
  obtain Op' where "goes Op J s s' Op'" "reg_ok s' y" by (rule var_scalar_ok [OF st(1-3) assms(2,3)])
  then show ?thesis by (auto simp: st(4) regs_ok_def)
next
  case (ListInitval ch)
  then have "var_list t ch shape [] s = Inr (r, s')" using assms(1) by (simp add: parse_var_init_def del: var_list.simps)
  from var_list_ok(1) [OF this assms(2,3)] show ?thesis by (simp add: regs_ok_def)
qed

section \<open>Local declarations\<close>

lemma stays_known: "stays Op J s s' \<Longrightarrow> k \<in> known_objs s \<Longrightarrow> k \<in> known_objs s'"
  using grow_known(1) staysD(2) by blast

lemma grow_func: "grow s s' \<Longrightarrow> (vs_func s' = None) = (vs_func s = None)"
  by (simp add: grow_def)

lemma object_keys [simp]: "mo_key (add_dims ds m) = mo_key m" "mo_key (sized_object t sz m) = mo_key m"
  by (simp_all add: add_dims_def sized_object_def)

lemma local_const_ok:
  assumes d: "visit_const_def (ConstDef name es iv) s = Inr s'" and s: "started s Op J" and f: "vs_func s \<noteq> None"
  shows "stays Op J s s'"
proof -
  obtain dims init k s1 s2 a s3 s4 sz t g where st: "new_local_obj name s = (k, s1)" "s2 = edit_obj k (sized_object IntT sz) s1"
    "v_new_reg s2 = Inr (a, s3)" "push_cur_bb (LoadAddr a k) s3 = Inr s4" "store_consts (vs_scalar s) a 0 init s4 = Inr g"
    "s' = edit_obj k (add_dims dims) (set_local (register_const name (Some k) t (make_init (vs_scalar s) init)) g)"
    using d f by (auto simp: visit_const_def_def Let_def split: prod.splits dest!: get_array_dims_same parse_const_init_same)
  note ok = startedD [OF s]
  note n = new_local_obj_inside [OF st(1) ok(1) f]
  have i2: "inside Op J s s2" "k \<in> known_objs s2"
  proof -
    have e: "inside Op J s1 s2" unfolding st(2) by (rule edit_obj_inside(1) [OF insideD(1) [OF n(1)]]) simp
    show "inside Op J s s2" using n(1) e by (rule inside_trans)
    show "k \<in> known_objs s2" using grow_known(1) [OF inside_grow [OF e]] n(2) by blast
  qed
  note ok2 = insideD(1) [OF i2(1)] inside_open [OF i2(1) ok(2)]
  have k3: "k \<in> known_objs s3" using i2(2) grow_known(1) [OF inside_grow [OF new_reg_inside(1) [OF st(3) ok2(1)]]] by blast
  have g4: "gives_reg Op J s2 a s4"
    by (rule gives_regI [OF st(3,4) ok2]) (use k3 new_reg_ok [OF st(3) ok2(1)] in \<open>simp_all add: instr_simps control_simps\<close>)
  note d4 = gives_regD [OF g4]
  have i5: "inside Op J s4 g" by (rule store_consts_ok [OF st(5) d4(2) _ d4(3)]) (use d4(5) ok2(2) in simp)
  have i: "inside Op J s g" using inside_trans [OF i2(1) inside_trans [OF d4(1) i5]] .
  have kg: "k \<in> known_objs g" using i2(2) grow_known(1) [OF grow_trans [OF d4(7) inside_grow [OF i5]]] by blast
  let ?g = "set_local (register_const name (Some k) t (make_init (vs_scalar s) init)) g"
  have l: "stays Op J g ?g" by (rule register_local_stays(2) [OF insideD(1) [OF i] kg])
  have "stays Op J ?g s'" unfolding st(6) by (rule inside_stays [OF edit_obj_inside(1) [OF staysD(1) [OF l]]]) simp
  then show ?thesis using stays_trans [OF inside_stays [OF i] stays_trans [OF l]] by blast
qed

lemma local_var_ok:
  assumes d: "visit_var_def vd s = Inr s'" and s: "started s Op J" and f: "vs_func s \<noteq> None" and m: "vs_mode s \<noteq> CompileTime"
  shows "\<exists>Op'. runs Op J s s' Op'"
proof (cases vd)
  case (UninitVarDef name es)
  obtain k s1 dims t sz where st: "new_local_obj name s = (k, s1)"
    "s' = edit_obj k (\<lambda>m. add_dims dims (sized_object (vs_scalar (set_local (register_var name (Some k) t) s1)) sz m))
       (set_local (register_var name (Some k) t) s1)"
    using d f unfolding UninitVarDef
    by (auto simp: visit_var_def_def Let_def split: prod.splits dest!: get_array_dims_same)
  note n = new_local_obj_inside [OF st(1) startedD(1) [OF s] f]
  note l = register_local_stays(1) [OF insideD(1) [OF n(1)] n(2), of name t]
  have "stays Op J (set_local (register_var name (Some k) t) s1) s'"
    unfolding st(2) by (rule inside_stays [OF edit_obj_inside(1) [OF staysD(1) [OF l]]]) simp
  then have "stays Op J s s'" using stays_trans [OF inside_stays [OF n(1)] stays_trans [OF l]] by blast
  then show ?thesis using stays_runs [OF s] by blast
next
  case (InitVarDef name es iv)
  obtain k s1 s2 t T dims init s3 s4 ds sz where st: "new_local_obj name s = (k, s1)" "s2 = set_local (register_var name (Some k) t) s1"
    "parse_var_init T iv dims s2 = Inr (init, s3)" "gen_var_init_ir init k False s3 = Inr s4"
    "s' = edit_obj k (\<lambda>m. add_dims ds (sized_object (vs_scalar s4) sz m)) s4"
    using d f unfolding InitVarDef
    by (auto simp: visit_var_def_def Let_def split: prod.splits dest!: get_array_dims_same)
  note n = new_local_obj_inside [OF st(1) startedD(1) [OF s] f]
  have l: "stays Op J s1 s2" unfolding st(2) by (rule register_local_stays(1) [OF insideD(1) [OF n(1)] n(2)])
  have s2: "stays Op J s s2" using inside_stays [OF n(1)] l by (rule stays_trans)
  have m2: "vs_mode s2 \<noteq> CompileTime" using staysD(2) [OF s2] m by (simp add: grow_def)
  obtain Op' where o: "goes Op J s2 s3 Op'" "regs_ok s3 init" using parse_var_init_ok [OF st(3) staysD(4) [OF s2 s] m2] by blast
  have k3: "k \<in> known_objs s3" using stays_known [OF l n(2)] grow_known(1) [OF goesD(3) [OF o(1)]] by blast
  have i4: "inside Op' J s3 s4" by (rule gen_var_init_ir_ok [OF st(4) goesD(1,2) [OF o(1)] k3 o(2)])
  have i5: "inside Op' J s4 s'" unfolding st(5) by (rule edit_obj_inside(1) [OF insideD(1) [OF i4]]) simp
  have "goes Op J s2 s' Op'" using goes_inside [OF goes_inside [OF o(1) i4] i5] .
  then show ?thesis using runs_trans [OF stays_runs [OF s s2] goes_runs] by blast
qed

lemma runs_func: "runs Op J s s' Op' \<Longrightarrow> vs_func s \<noteq> None \<Longrightarrow> vs_mode s \<noteq> CompileTime \<Longrightarrow> vs_func s' \<noteq> None \<and> vs_mode s' \<noteq> CompileTime"
  by (auto simp: runs_def grow_def)

lemma visit_list_runs:
  assumes "visit_list f xs s = Inr s'" and "started s Op J" and "vs_func s \<noteq> None" and "vs_mode s \<noteq> CompileTime"
    and "\<And>x s s' Op. x \<in> set xs \<Longrightarrow> f x s = Inr s' \<Longrightarrow> started s Op J \<Longrightarrow> vs_func s \<noteq> None \<Longrightarrow> vs_mode s \<noteq> CompileTime \<Longrightarrow>
      \<exists>Op'. runs Op J s s' Op'"
  shows "\<exists>Op'. runs Op J s s' Op'"
  using assms
proof (induction xs arbitrary: s Op)
  case Nil
  then show ?case using stays_runs [OF _ stays_refl] startedD(1) by auto
next
  case (Cons x xs)
  obtain s1 where st: "f x s = Inr s1" "visit_list f xs s1 = Inr s'" using Cons.prems(1) by auto
  obtain Op1 where r: "runs Op J s s1 Op1" using Cons.prems(5) [OF _ st(1) Cons.prems(2-4)] by auto
  have f1: "vs_func s1 \<noteq> None" "vs_mode s1 \<noteq> CompileTime" using runs_func [OF r Cons.prems(3,4)] by blast+
  have "\<exists>Op'. runs Op1 J s1 s' Op'"
    by (rule Cons.IH [OF st(2) runsD(3) [OF r] f1]) (rule Cons.prems(5), rule list.set_intros(2))
  then show ?case using runs_trans [OF r] by blast
qed

lemma scalar_field [simp]: "started (s\<lparr>vs_scalar := t\<rparr>) Op J = started s Op J" "runs Op J (s\<lparr>vs_scalar := t\<rparr>) s' Op' = runs Op J s s' Op'"
  by (simp_all add: started_def runs_def grow_def)

lemma local_decl_ok:
  assumes d: "visit_decl d s = Inr s'" and s: "started s Op J" and f: "vs_func s \<noteq> None" "vs_mode s \<noteq> CompileTime"
  shows "\<exists>Op'. runs Op J s s' Op'"
proof (cases d)
  case (ConstDecl b ds)
  have "visit_list visit_const_def ds (s\<lparr>vs_scalar := scalar_of_btype b\<rparr>) = Inr s'" using d ConstDecl by (simp add: visit_decl_def)
  then have "\<exists>Op'. runs Op J (s\<lparr>vs_scalar := scalar_of_btype b\<rparr>) s' Op'"
  proof (rule visit_list_runs)
    fix x s s' Op
    assume "visit_const_def x s = Inr s'" "started s Op J" "vs_func s \<noteq> None"
    then show "\<exists>Op'. runs Op J s s' Op'" by (cases x) (blast intro: stays_runs local_const_ok)
  qed (use s f in simp_all)
  then show ?thesis by simp
next
  case (VarDecl b ds)
  have "visit_list visit_var_def ds (s\<lparr>vs_scalar := scalar_of_btype b\<rparr>) = Inr s'" using d VarDecl by (simp add: visit_decl_def)
  then have "\<exists>Op'. runs Op J (s\<lparr>vs_scalar := scalar_of_btype b\<rparr>) s' Op'"
    by (rule visit_list_runs) (use s f in simp, use f in simp, use f in simp, rule local_var_ok)
  then show ?thesis by simp
qed

end
