(* ===== verification/FrontStmt.thy ===== *)
theory FrontStmt
  imports FrontDecl
begin

text \<open>
  Statements, functions and the compile unit: what the front end builds is well formed.
\<close>

section \<open>Statements\<close>

text \<open>The targets of \<open>break\<close>, \<open>continue\<close> and \<open>return\<close> are blocks of the function.\<close>

definition exits_ok :: "vis \<Rightarrow> bool" where
  "exits_ok s = (set (vs_break s) \<union> set (vs_continue s) \<union> {vs_return_bb s} \<subseteq> block_keys (cur_fn s))"

definition in_stmt :: "vis \<Rightarrow> bb_key set \<Rightarrow> slot set \<Rightarrow> bool" where
  "in_stmt s Op J = (started s Op J \<and> vs_func s \<noteq> None \<and> vs_mode s = NormalMode \<and> exits_ok s)"

lemma grow_exits: "grow s s' \<Longrightarrow> exits_ok s \<Longrightarrow> exits_ok s'"
  unfolding exits_ok_def grow_def by auto

lemma in_stmt_grow:
  assumes "in_stmt s Op J" and "grow s s'" and "started s' Op' J'"
  shows "in_stmt s' Op' J'"
  using assms grow_exits [OF assms(2)] by (auto simp: in_stmt_def grow_def)

lemma in_stmt_runs: "in_stmt s Op J \<Longrightarrow> runs Op J s s' Op' \<Longrightarrow> in_stmt s' Op' J"
  using in_stmt_grow runsD(2,3) by blast

lemma in_stmtD:
  assumes "in_stmt s Op J"
  shows "started s Op J" and "vs_func s \<noteq> None" and "vs_mode s \<noteq> CompileTime" and "vs_mode s = NormalMode" and "exits_ok s"
    and "vis_ok s Op J"
  using assms startedD(1) by (auto simp: in_stmt_def)

lemma runs_self: "started s Op J \<Longrightarrow> runs Op J s s Op"
  using stays_runs stays_refl startedD(1) by blast

lemma runs_new:
  assumes "vs_cur s = Some c" and "c \<in> Op" and "vs_cur s' = Some k" and "k \<notin> Op" and "vis_ok s' (insert k (Op - {c})) J" and "grow s s'"
  shows "\<exists>Op'. runs Op J s s' Op'"
  using assms unfolding runs_def by blast

lemma runs_from:
  assumes "runs (insert k Op) J s s' Op'" and "vs_cur s = Some k" and "k \<notin> Op"
  obtains k' where "vs_cur s' = Some k'" "k' \<notin> Op" "vis_ok s' (insert k' Op) J" "grow s s'"
  using assms by (auto simp: runs_def)

lemma jump_ok:
  assumes "vis_ok s Op J" and "k \<in> Op" and "t \<in> block_keys (cur_fn s)"
  shows "vis_ok (push_to k (JumpInstr t) s) (Op - {k}) J" and "grow s (push_to k (JumpInstr t) s)"
proof -
  have tg: "targets_at (block_keys (cur_fn s)) {} k n (JumpInstr t)" for n using assms(3) by (simp add: targets_at_def)
  note p = push_jump_ok [OF assms(1,2) instr_simps(10) control_simps(12) tg]
  show "vis_ok (push_to k (JumpInstr t) s) (Op - {k}) J" "grow s (push_to k (JumpInstr t) s)" by (rule p)+
qed

lemma new_bb_new:
  assumes "v_new_bb s1 = Inr (k, s2)" and "vis_ok s1 Op1 J1" and "vis_ok s Op J" and "grow s s1"
  shows "k \<notin> Op"
  using new_bb_ok(4) [OF assms(1,2)] open_key [OF assms(3)] keys_grow [OF assms(4)] by blast

lemma vis_ok_local:
  assumes "vis_ok s Op J" and "\<And>t. t \<in> set l \<Longrightarrow> t \<in> set (vs_local s) \<or> t = Map.empty"
  shows "vis_ok (s\<lparr>vs_local := l\<rparr>) Op J"
proof -
  have F: "known_funcs (s\<lparr>vs_local := l\<rparr>) = known_funcs s" "known_objs (s\<lparr>vs_local := l\<rparr>) = known_objs s"
    by (simp_all add: known_funcs_def known_objs_def)
  have E: "entry_ok (s\<lparr>vs_local := l\<rparr>) e = entry_ok s e" "reg_ok (s\<lparr>vs_local := l\<rparr>) r = reg_ok s r" for e r
    by (simp_all add: entry_ok_def reg_ok_def F)
  have "\<forall>t\<in>set (vs_global s # l). \<forall>e\<in>ran t. entry_ok s e" using assms by (fastforce simp: vis_ok_def)
  then show ?thesis unfolding vis_ok_def F E cur_fn_fields using assms(1) by (simp add: vis_ok_def)
qed

lemma in_set_tlD: "x \<in> set (tl xs) \<Longrightarrow> x \<in> set xs"
  by (cases xs) auto

lemma enter_scope_ok: "vis_ok s Op J \<Longrightarrow> vis_ok (enter_scope k s) Op J"
  using vis_ok_local [of "s\<lparr>vs_cur := Some k\<rparr>" Op J "Map.empty # vs_local s"] by (auto simp: enter_scope_def)

lemma leave_scope_ok: "vis_ok s Op J \<Longrightarrow> vis_ok (leave_scope s) Op J"
  unfolding leave_scope_def by (rule vis_ok_local) (auto dest: in_set_tlD)

lemma scope_fields [simp]:
  "vs_cur (enter_scope k s) = Some k" "cur_fn (enter_scope k s) = cur_fn s" "cur_fn (leave_scope s) = cur_fn s"
  "vs_cur (leave_scope s) = vs_cur s" "vs_mode (enter_scope k s) = vs_mode s" "vs_func (enter_scope k s) = vs_func s"
  by (simp_all add: enter_scope_def leave_scope_def)

lemma grow_fields [simp]:
  "grow s (enter_scope k s') = grow s s'" "grow s (leave_scope s') = grow s s'" "grow s (s'\<lparr>vs_cur := c\<rparr>) = grow s s'"
  "grow s (s'\<lparr>vs_local := l\<rparr>) = grow s s'" "grow s (s'\<lparr>vs_return_value := rv\<rparr>) = grow s s'"
  "grow (enter_scope k s') s = grow s' s" "grow (leave_scope s') s = grow s' s" "grow (s'\<lparr>vs_cur := c\<rparr>) s = grow s' s"
  "grow (s'\<lparr>vs_local := l\<rparr>) s = grow s' s" "grow (s'\<lparr>vs_return_value := rv\<rparr>) s = grow s' s"
  by (simp_all add: grow_def enter_scope_def leave_scope_def)

lemma exits_fields [simp]: "exits_ok (enter_scope k s) = exits_ok s" "exits_ok (s\<lparr>vs_cur := c\<rparr>) = exits_ok s"
  by (simp_all add: exits_ok_def enter_scope_def)

lemma leave_block_ok:
  assumes l: "leave_block t s = Inr s'" and s: "started s Op J" and t: "t \<in> block_keys (cur_fn s)"
  shows "\<exists>Op'. runs Op J s s' Op'"
proof -
  obtain c where c: "vs_cur s = Some c" "c \<in> Op" using s by (auto simp: started_def)
  obtain k s1 where st: "v_new_bb (push_to c (JumpInstr t) s) = Inr (k, s1)" "s' = s1\<lparr>vs_cur := Some k\<rparr>"
    using l c(1) by (auto simp: leave_block_def push_cur_bb_def)
  note j = jump_ok [OF startedD(1) [OF s] c(2) t]
  note n = new_bb_open [OF st(1) j(1)]
  show ?thesis
    by (rule runs_new [OF c]) (use n grow_trans [OF j(2) n(3)] new_bb_new [OF st(1) j(1) startedD(1) [OF s] j(2)] st(2) in simp_all)
qed

text \<open>The end of a statement with a condition: the arms jump to the block after it, and the branches of
  the condition get their targets.\<close>

lemma finish_cond_ok:
  assumes ok: "vis_ok s (insert out P) (J \<union> slots_of j)" and d: "slots_of j \<inter> J = {}"
    and t: "t1 \<in> block_keys (cur_fn s)" "t0 \<in> block_keys (cur_fn s)" and cur: "vs_cur s = Some out"
    and s': "s' = patch_all t0 (false_list j) (patch_all t1 (true_list j) s)"
    and s0: "vs_cur s0 = Some c" "c \<in> Op" "P = Op - {c}" "out \<notin> Op" "grow s0 s"
  shows "\<exists>Op'. runs Op J s0 s' Op'"
proof -
  note p = patch_both [OF ok d t s']
  show ?thesis by (rule runs_new [OF s0(1,2)]) (use p s0 cur grow_trans [OF s0(5) p(2)] in simp_all)
qed

lemma arm_ok:
  assumes n: "v_new_bb s = Inr (k, s1)" and ok: "vis_ok s P J"
    and IH: "\<And>Op'. in_stmt (enter_scope k s1) Op' J \<Longrightarrow> \<exists>Op''. runs Op' J (enter_scope k s1) s2 Op''"
    and s: "vs_func s \<noteq> None" "vs_mode s = NormalMode" "exits_ok s"
  obtains k' where "vs_cur s2 = Some k'" "k' \<notin> P" "vis_ok s2 (insert k' P) J" "grow s s2" "k \<in> block_keys (cur_fn s2)"
proof -
  note b = new_bb_open [OF n ok]
  have "started (enter_scope k s1) (insert k P) J" using enter_scope_ok [OF b(2)] by (simp add: started_def)
  then have "in_stmt (enter_scope k s1) (insert k P) J"
    using s b(3) grow_exits [OF b(3)] by (auto simp: in_stmt_def grow_def)
  from IH [OF this] obtain Op'' where r: "runs (insert k P) J (enter_scope k s1) s2 Op''" by blast
  obtain k' where k': "vs_cur s2 = Some k'" "k' \<notin> P" "vis_ok s2 (insert k' P) J" "grow (enter_scope k s1) s2"
    by (rule runs_from [OF r]) (use b(1) in simp_all)
  have g: "grow s1 s2" using k'(4) by simp
  show ?thesis using that k'(1-3) grow_trans [OF b(3) g] keys_grow [OF g b(5)] by blast
qed

lemma visit_exp_value:
  shows "vs_mode s = NormalMode \<Longrightarrow> visit_exp e s = Inr (v, s') \<Longrightarrow> started s Op J \<Longrightarrow> \<not> is_cond v"
    and "visit_const_index es2 s2 = visit_const_index es2 s2"
    and "visit_index es3 dims t sc s3 = visit_index es3 dims t sc s3" and "visit_rparams ps s4 = visit_rparams ps s4"
proof (induction e s and es2 s2 and es3 dims t sc s3 and ps s4 arbitrary: v s' and and and
    rule: visit_exp_visit_const_index_visit_index_visit_rparams.induct)
  case (1 e s)
  show ?case using "1.IH" "1.prems" by simp
next
  case (2 n s)
  then show ?case by (auto simp: visit_literal_def is_cond_def)
next
  case (3 name es s)
  show ?case using "3.prems"(1,2) by (auto simp: Let_def is_cond_def split: if_splits)
next
  case (4 name ps line s)
  have "v = VNull \<or> (\<exists>x. v = VIR x)" using "4.prems"(1,2) by (auto simp: finish_call_def split: if_splits)
  then show ?case by (auto simp: is_cond_def)
next
  case (5 op e s)
  show ?case using "5.prems"(1,2) by (auto simp: unary3_normal_def Let_def is_cond_def split: if_splits)
next
  case (6 op a b s)
  show ?case using "6.prems"(1,2) by (auto simp: is_cond_def)
next
  case (7 op a b s)
  show ?case using "7.prems"(1,2) by (auto simp: add_normal_def pointer_add_def Let_def is_cond_def split: if_splits)
qed simp_all

lemma normal_exp_ok:
  assumes "visit_exp e s = Inr (v, s')" and "started s Op J" and "vs_mode s = NormalMode"
  obtains Op' where "goes Op J s s' Op'" "value_ok s' v"
proof -
  have "exp_ok Op J s v s'" using visit_ok(1) [OF assms(2) _ assms(1)] assms(3) by simp
  moreover have "\<not> is_cond v" by (rule visit_exp_value(1) [OF assms(3,1,2)])
  ultimately show ?thesis using that by (auto simp: exp_ok_def is_cond_def split: any_value.splits)
qed

lemma vis_ok_return:
  assumes "vis_ok s Op J" and "reg_ok s r" and "k \<in> block_keys (cur_fn s)"
  shows "vis_ok (s\<lparr>vs_return_value := vs_return_value s @ [(r, k)]\<rparr>) Op J"
proof -
  let ?s = "s\<lparr>vs_return_value := vs_return_value s @ [(r, k)]\<rparr>"
  have F: "known_funcs ?s = known_funcs s" "known_objs ?s = known_objs s" by (simp_all add: known_funcs_def known_objs_def)
  have E: "entry_ok ?s e = entry_ok s e" "reg_ok ?s x = reg_ok s x" for e x by (simp_all add: entry_ok_def reg_ok_def F)
  show ?thesis unfolding vis_ok_def F E cur_fn_fields using assms by (auto simp: vis_ok_def)
qed

lemma visit_return_ok:
  assumes r: "visit_return eo s = Inr s'" and i: "in_stmt s Op J"
  shows "\<exists>Op'. runs Op J s s' Op'"
proof (cases eo)
  case None
  then have "leave_block (vs_return_bb s) s = Inr s'" using r by (auto simp: visit_return_def Let_def)
  then show ?thesis using leave_block_ok [OF _ in_stmtD(1) [OF i]] in_stmtD(5) [OF i] by (simp add: exits_ok_def)
next
  case (Some e)
  obtain v s1 x s2 y s3 k b s4 t where st: "visit_exp e s = Inr (v, s1)" "to_irvalue v s1 = Inr (x, s2)" "get_value_as t x s2 = Inr (y, s3)"
    "vs_cur s3 = Some k" "v_new_bb ((push_to k (JumpInstr (vs_return_bb s3)) s3)\<lparr>vs_return_value := vs_return_value s3 @ [(y, k)]\<rparr>) = Inr (b, s4)"
    "s' = s4\<lparr>vs_cur := Some b\<rparr>"
    using r Some by (auto simp: visit_return_def Let_def push_cur_bb_def)
  obtain c where c: "vs_cur s = Some c" "c \<in> Op" using in_stmtD(1) [OF i] by (auto simp: started_def)
  obtain Op' where o: "goes Op J s s3 Op'" "reg_ok s3 y" by (rule var_scalar_ok [OF st(1-3) in_stmtD(1,3) [OF i]])
  have k: "Op' = insert k (Op - {c})" "k = c \<or> k \<notin> Op" using o(1) st(4) c by (auto simp: goes_def)
  have P: "Op' - {k} = Op - {c}" using k by auto
  have "vs_return_bb s3 \<in> block_keys (cur_fn s3)" using grow_exits [OF goesD(3) [OF o(1)] in_stmtD(5) [OF i]] by (simp add: exits_ok_def)
  note j = jump_ok [OF goesD(1) [OF o(1)] _ this, of k, unfolded P]
  let ?s = "push_to k (JumpInstr (vs_return_bb s3)) s3"
  have j': "vis_ok ?s (Op - {c}) J" "grow s3 ?s" using j k(1) by simp_all
  have "k \<in> block_keys (cur_fn ?s)" using keys_grow [OF j'(2) open_key [OF goesD(1) [OF o(1)]]] k(1) by simp
  note q = vis_ok_return [OF j'(1) grow_known(2) [OF j'(2) o(2)] this, unfolded push_to_fields]
  have g: "grow s ?s" using goesD(3) [OF o(1)] j'(2) by (rule grow_trans)
  note n = new_bb_open [OF st(5) q]
  have b: "b \<notin> Op" by (rule new_bb_new [OF st(5) q in_stmtD(6) [OF i]]) (use g in simp)
  have "grow ?s s4" using n(3) by simp
  then have "grow s s4" using g grow_trans by blast
  then show ?thesis by (intro runs_new [OF c]) (use n b st(6) in simp_all)
qed

lemma grow_loop:
  "grow (s\<lparr>vs_break := vs_break s @ [b1], vs_continue := vs_continue s @ [b2]\<rparr>) s' \<Longrightarrow>
    grow s (s'\<lparr>vs_break := butlast (vs_break s'), vs_continue := butlast (vs_continue s')\<rparr>)"
  by (auto simp: grow_def cur_fn_def)

lemma visit_stmt_ok:
  shows "visit_stmt t s = Inr s' \<Longrightarrow> in_stmt s Op J \<Longrightarrow> \<exists>Op'. runs Op J s s' Op'"
    and "visit_items is s2 = Inr s2' \<Longrightarrow> in_stmt s2 Op2 J2 \<Longrightarrow> \<exists>Op'. runs Op2 J2 s2 s2' Op'"
proof (induction t s and "is" s2 arbitrary: Op J s' and Op2 J2 s2' rule: visit_stmt_visit_items.induct)
  case (1 name es e s)
  note i = in_stmtD [OF "1.prems"(2)]
  obtain v s1 lhs w s3 rhs s4 x s5 where st: "visit_exp (LVal name es) s = Inr (v, s1)" "v = VIR lhs" "visit_exp e s1 = Inr (w, s3)"
    "to_irvalue w s3 = Inr (rhs, s4)" "get_value_as (ty_scalar (iv_type lhs)) rhs s4 = Inr (x, s5)"
    "push_cur_bb (StoreInstr (iv_reg lhs) x 0 None) s5 = Inr s'"
    using "1.prems"(1) by (auto simp: finish_assign_def simp del: visit_exp.simps elim!: as_irvalue.elims)
  obtain Op1 where a: "goes Op J s s1 Op1" "value_ok s1 v" by (rule normal_exp_ok [OF st(1) i(1,4)])
  have m1: "vs_mode s1 \<noteq> CompileTime" using goes_mode_same [OF a(1)] i(4) by simp
  obtain Op2 where b: "goes Op1 J s1 s5 Op2" "reg_ok s5 x" by (rule var_scalar_ok [OF st(3-5) goes_started [OF a(1)] m1])
  have "reg_ok s5 (iv_reg lhs)" using goesD(5) [OF b(1)] a(2) st(2) by (simp add: value_ok_def)
  then have "inside Op2 J s5 s'" using push_store_ok [OF st(6) goesD(1,2) [OF b(1)]] b(2) by blast
  then show ?case using goes_runs [OF goes_trans [OF a(1) goes_inside [OF b(1)]]] by blast
next
  case (2 eo s)
  note i = in_stmtD [OF "2.prems"(2)]
  show ?case
  proof (cases eo)
    case None
    then show ?thesis using "2.prems"(1) runs_self [OF i(1)] by auto
  next
    case (Some e)
    then obtain v where "visit_exp e s = Inr (v, s')" using "2.prems"(1) by auto
    then show ?thesis using normal_exp_ok [OF _ i(1,4)] goes_runs by metis
  qed
next
  case (3 "is" s)
  note i = in_stmtD [OF "3.prems"(2)]
  obtain s1 where st: "visit_items is (s\<lparr>vs_local := Map.empty # vs_local s\<rparr>) = Inr s1" "s' = leave_scope s1" using "3.prems"(1) by auto
  let ?s = "s\<lparr>vs_local := Map.empty # vs_local s\<rparr>"
  have "vis_ok ?s Op J" by (rule vis_ok_local [OF i(6)]) auto
  then have "in_stmt ?s Op J" using "3.prems"(2) by (auto simp: in_stmt_def started_def exits_ok_def)
  from "3.IH" [OF st(1) this] obtain Op' where "runs Op J ?s s1 Op'" by blast
  then have "runs Op J s s' Op'" using leave_scope_ok by (auto simp: runs_def st(2))
  then show ?case by blast
next
  case (4 c t s)
  note i = in_stmtD [OF "4.prems"(2)]
  obtain j s1 te s2 s3 te' out s4 where st: "visit_cond c s = Inr (j, s1)" "v_new_bb s1 = Inr (te, s2)" "visit_stmt t (enter_scope te s2) = Inr s3"
    "vs_cur s3 = Some te'" "v_new_bb s3 = Inr (out, s4)"
    "s' = patch_all out (false_list j) (patch_all te (true_list j) (push_to te' (JumpInstr out) ((leave_scope s4)\<lparr>vs_cur := Some out\<rparr>)))"
    using "4.prems"(1) by (auto simp: Let_def)
  obtain c0 where c: "vs_cur s = Some c0" "c0 \<in> Op" "slots_of j \<inter> J = {}" "vis_ok s1 (Op - {c0}) (J \<union> slots_of j)" "grow s s1"
    using visit_cond_ok [OF i(1,4) st(1)] by (auto simp: leaves_def)
  have x: "vs_func s1 \<noteq> None" "vs_mode s1 = NormalMode" "exits_ok s1" using c(5) i(2,4) grow_exits [OF c(5) i(5)] by (auto simp: grow_def)
  obtain k where k: "vs_cur s3 = Some k" "k \<notin> Op - {c0}" "vis_ok s3 (insert k (Op - {c0})) (J \<union> slots_of j)" "grow s1 s3"
    "te \<in> block_keys (cur_fn s3)"
    by (rule arm_ok [OF st(2) c(4) "4.IH" [OF st(1) refl st(2) refl st(3)] x])
  note n = new_bb_open [OF st(5) k(3)]
  have g3: "grow s s3" using c(5) k(4) by (rule grow_trans)
  have out: "out \<notin> Op" by (rule new_bb_new [OF st(5) k(3) i(6) g3])
  let ?s5 = "(leave_scope s4)\<lparr>vs_cur := Some out\<rparr>"
  have ok5: "vis_ok ?s5 (insert out (insert k (Op - {c0}))) (J \<union> slots_of j)" using leave_scope_ok [OF n(2)] by simp
  have te': "te' = k" using st(4) k(1) by simp
  have "out \<in> block_keys (cur_fn ?s5)" using n(5) by simp
  note jm = jump_ok [OF ok5 _ this, of k]
  let ?s6 = "push_to k (JumpInstr out) ?s5"
  have P: "insert out (insert k (Op - {c0})) - {k} = insert out (Op - {c0})" using k(2) n(1) by auto
  have j6: "vis_ok ?s6 (insert out (Op - {c0})) (J \<union> slots_of j)" "grow s4 ?s6" using jm unfolding P by simp_all
  have g6: "grow s3 ?s6" using n(3) j6(2) by (rule grow_trans)
  show ?case
    by (rule finish_cond_ok [OF j6(1) c(3) keys_grow [OF g6 k(5)] keys_grow [OF j6(2) n(5)] _ st(6) [unfolded te'] c(1,2) refl out
          grow_trans [OF g3 g6]]) simp
next
  case (5 c t e s)
  note i = in_stmtD [OF "5.prems"(2)]
  obtain j s1 te s2 s3 te' fe s4 s5 fe' out s6 where st: "visit_cond c s = Inr (j, s1)" "v_new_bb s1 = Inr (te, s2)"
    "visit_stmt t (enter_scope te s2) = Inr s3" "vs_cur s3 = Some te'" "v_new_bb (leave_scope s3) = Inr (fe, s4)"
    "visit_stmt e (enter_scope fe s4) = Inr s5" "vs_cur s5 = Some fe'" "v_new_bb s5 = Inr (out, s6)"
    "s' = patch_all fe (false_list j) (patch_all te (true_list j) (push_to fe' (JumpInstr out)
       (push_to te' (JumpInstr out) ((leave_scope s6)\<lparr>vs_cur := Some out\<rparr>))))"
    using "5.prems"(1) by (auto simp: Let_def)
  obtain c0 where c: "vs_cur s = Some c0" "c0 \<in> Op" "slots_of j \<inter> J = {}" "vis_ok s1 (Op - {c0}) (J \<union> slots_of j)" "grow s s1"
    using visit_cond_ok [OF i(1,4) st(1)] by (auto simp: leaves_def)
  have x: "vs_func s1 \<noteq> None" "vs_mode s1 = NormalMode" "exits_ok s1" using c(5) i(2,4) grow_exits [OF c(5) i(5)] by (auto simp: grow_def)
  have k: "te' \<notin> Op - {c0}" "vis_ok s3 (insert te' (Op - {c0})) (J \<union> slots_of j)" "grow s1 s3" "te \<in> block_keys (cur_fn s3)"
    by (rule arm_ok [OF st(2) c(4) "5.IH"(1) [OF st(1) refl st(2) refl st(3)] x]; use st(4) in simp)+
  let ?P = "insert te' (Op - {c0})"
  have g3: "grow s (leave_scope s3)" using grow_trans [OF c(5) k(3)] by simp
  have y: "vs_func (leave_scope s3) \<noteq> None" "vs_mode (leave_scope s3) = NormalMode" "exits_ok (leave_scope s3)"
    using g3 i(2,4) grow_exits [OF g3 i(5)] by (auto simp: grow_def)
  have l: "fe' \<notin> ?P" "vis_ok s5 (insert fe' ?P) (J \<union> slots_of j)" "grow s3 s5" "fe \<in> block_keys (cur_fn s5)"
    by (rule arm_ok [OF st(5) leave_scope_ok [OF k(2)] "5.IH"(2) [OF st(1) refl st(2) refl st(3) iffD2 [OF opt_or_Inr st(4)] st(5) refl st(6)] y]; use st(7) in simp)+
  have g5: "grow s s5" using grow_trans [OF grow_trans [OF c(5) k(3)] l(3)] .
  note n = new_bb_open [OF st(8) l(2)]
  have out: "out \<notin> Op" by (rule new_bb_new [OF st(8) l(2) i(6) g5])
  let ?s7 = "(leave_scope s6)\<lparr>vs_cur := Some out\<rparr>"
  let ?s8 = "push_to te' (JumpInstr out) ?s7"
  let ?s9 = "push_to fe' (JumpInstr out) ?s8"
  have ok7: "vis_ok ?s7 (insert out (insert fe' ?P)) (J \<union> slots_of j)" using leave_scope_ok [OF n(2)] by simp
  have o7: "out \<in> block_keys (cur_fn ?s7)" using n(5) by simp
  note j8 = jump_ok [OF ok7 _ o7, of te']
  have ok8: "vis_ok ?s8 (insert out (insert fe' ?P) - {te'}) (J \<union> slots_of j)" "grow s6 ?s8" using j8 by simp_all
  note j9 = jump_ok [OF ok8(1) _ keys_grow [OF ok8(2) n(5)], of fe']
  have P: "insert out (insert fe' ?P) - {te'} - {fe'} = insert out (Op - {c0})" using k(1) l(1) n(1) by auto
  have m: "fe' \<in> insert out (insert fe' ?P) - {te'}" using l(1) by auto
  have ok9: "vis_ok ?s9 (insert out (Op - {c0})) (J \<union> slots_of j)" "grow ?s8 ?s9" using j9 [OF m] unfolding P by blast+
  have g9: "grow s5 ?s9" using grow_trans [OF n(3) grow_trans [OF ok8(2) ok9(2)]] .
  show ?case
    by (rule finish_cond_ok [OF ok9(1) c(3) keys_grow [OF grow_trans [OF l(3) g9] k(4)] keys_grow [OF g9 l(4)] _ st(9) c(1,2) refl out
          grow_trans [OF g5 g9]]) simp
next
  case (6 c b s)
  note i = in_stmtD [OF "6.prems"(2)]
  obtain c0 where c: "vs_cur s = Some c0" "c0 \<in> Op" using i(1) by (auto simp: started_def)
  obtain ce s1 j s3 out s4 be s5 jb s6 s7 be' where st: "v_new_bb s = Inr (ce, s1)"
    "push_cur_bb (JumpInstr ce) s1 = Inr (push_to c0 (JumpInstr ce) s1)"
    "visit_cond c ((push_to c0 (JumpInstr ce) s1)\<lparr>vs_cur := Some ce\<rparr>) = Inr (j, s3)" "v_new_bb s3 = Inr (out, s4)" "v_new_bb s4 = Inr (be, s5)"
    "v_new_bb s5 = Inr (jb, s6)"
    "visit_stmt b ((enter_scope be s6)\<lparr>vs_break := vs_break s6 @ [out], vs_continue := vs_continue s6 @ [jb]\<rparr>) = Inr s7"
    "vs_cur s7 = Some be'"
    "s' = patch_all out (false_list j) (patch_all be (true_list j) ((leave_scope (push_to jb (JumpInstr ce) (push_to be' (JumpInstr jb)
       (s7\<lparr>vs_break := butlast (vs_break s7), vs_continue := butlast (vs_continue s7)\<rparr>))))\<lparr>vs_cur := Some out\<rparr>))"
    using "6.prems"(1) c(1) new_bb_open(4) [OF _ i(6)] by (auto simp: Let_def push_cur_bb_def split: option.splits)
  note n1 = new_bb_open [OF st(1) i(6)]
  let ?s2 = "push_to c0 (JumpInstr ce) s1"
  note j2 = jump_ok [OF n1(2) _ n1(5), of c0]
  let ?Q = "insert ce (Op - {c0})"
  have P2: "insert ce Op - {c0} = ?Q" using n1(1) c(2) by auto
  have ok2: "vis_ok ?s2 ?Q J" "grow s ?s2" using j2 c(2) grow_trans [OF n1(3)] unfolding P2 by auto
  let ?s2' = "?s2\<lparr>vs_cur := Some ce\<rparr>"
  have s2: "started ?s2' ?Q J" "vs_mode ?s2' = NormalMode" using ok2 i(4) by (auto simp: started_def grow_def)
  have d: "slots_of j \<inter> J = {}" "vis_ok s3 (Op - {c0}) (J \<union> slots_of j)" "grow ?s2 s3"
  proof -
    have "?Q - {ce} = Op - {c0}" using n1(1) by auto
    then show "slots_of j \<inter> J = {}" "vis_ok s3 (Op - {c0}) (J \<union> slots_of j)" "grow ?s2 s3"
      using visit_cond_ok [OF s2 st(3)] by (auto simp: leaves_def)
  qed
  have g3: "grow s s3" using ok2(2) d(3) by (rule grow_trans)
  note n4 = new_bb_open [OF st(4) d(2)]
  note n5 = new_bb_open [OF st(5) n4(2)]
  note n6 = new_bb_open [OF st(6) n5(2)]
  have g36: "grow s3 s6" using grow_trans [OF n4(3) grow_trans [OF n5(3) n6(3)]] .
  have out: "out \<notin> Op" by (rule new_bb_new [OF st(4) d(2) i(6) g3])
  let ?P = "insert jb (insert out (Op - {c0}))"
  have P6: "insert jb (insert be (insert out (Op - {c0}))) = insert be ?P" and be: "be \<notin> ?P" using n5(1) n6(1) by auto
  let ?sb = "(enter_scope be s6)\<lparr>vs_break := vs_break s6 @ [out], vs_continue := vs_continue s6 @ [jb]\<rparr>"
  have k6: "out \<in> block_keys (cur_fn s6)" "be \<in> block_keys (cur_fn s6)" "jb \<in> block_keys (cur_fn s6)"
    using keys_grow [OF grow_trans [OF n5(3) n6(3)] n4(5)] keys_grow [OF n6(3) n5(5)] n6(5) by blast+
  have "exits_ok s6" using grow_exits [OF grow_trans [OF g3 g36] i(5)] .
  then have "exits_ok ?sb" using k6 by (auto simp: exits_ok_def enter_scope_def)
  moreover have "started ?sb (insert be ?P) (J \<union> slots_of j)"
    using enter_scope_ok [OF n6(2)] unfolding P6 by (simp add: started_def)
  moreover have "vs_func ?sb \<noteq> None" "vs_mode ?sb = NormalMode" using grow_trans [OF g3 g36] i(2,4) by (auto simp: grow_def)
  ultimately have "in_stmt ?sb (insert be ?P) (J \<union> slots_of j)" by (simp add: in_stmt_def)
  from "6.IH" [OF st(1) refl st(2,3) refl st(4) refl st(5) refl st(6) refl st(7) this]
  obtain Op7 where r: "runs (insert be ?P) (J \<union> slots_of j) ?sb s7 Op7" by blast
  have l: "be' \<notin> ?P" "vis_ok s7 (insert be' ?P) (J \<union> slots_of j)" "grow ?sb s7"
    by (rule runs_from [OF r _ be]; use st(8) in simp)+
  let ?s7 = "s7\<lparr>vs_break := butlast (vs_break s7), vs_continue := butlast (vs_continue s7)\<rparr>"
  have g7: "grow s6 ?s7" using grow_loop [where s = "enter_scope be s6" and ?b1.0 = out and ?b2.0 = jb] l(3) by (simp add: enter_scope_def)
  have ok7: "vis_ok ?s7 (insert be' ?P) (J \<union> slots_of j)" using l(2) by simp
  let ?s8 = "push_to be' (JumpInstr jb) ?s7"
  let ?s9 = "push_to jb (JumpInstr ce) ?s8"
  note j8 = jump_ok [OF ok7 _ keys_grow [OF g7 k6(3)], of be']
  have P8: "insert be' ?P - {be'} = ?P" using l(1) by simp
  have ok8: "vis_ok ?s8 ?P (J \<union> slots_of j)" "grow ?s7 ?s8" using j8 unfolding P8 by simp_all
  have g8: "grow s6 ?s8" using g7 ok8(2) by (rule grow_trans)
  have ce: "ce \<in> block_keys (cur_fn ?s8)"
  proof -
    have g18: "grow s1 ?s8"
      using grow_trans [OF j2(2) grow_trans [OF d(3) grow_trans [OF g36 g8]]] c(2) by simp
    show ?thesis by (rule keys_grow [OF g18 n1(5)])
  qed
  note j9 = jump_ok [OF ok8(1) _ ce, of jb]
  have P9: "?P - {jb} = insert out (Op - {c0})" using n6(1) by auto
  have ok9: "vis_ok ?s9 (insert out (Op - {c0})) (J \<union> slots_of j)" "grow ?s8 ?s9" using j9 unfolding P9 by simp_all
  have g9: "grow s6 ?s9" using g8 ok9(2) by (rule grow_trans)
  let ?s = "(leave_scope ?s9)\<lparr>vs_cur := Some out\<rparr>"
  have ok: "vis_ok ?s (insert out (Op - {c0})) (J \<union> slots_of j)" using leave_scope_ok [OF ok9(1)] by simp
  have k: "be \<in> block_keys (cur_fn ?s)" "out \<in> block_keys (cur_fn ?s)" using keys_grow [OF g9] k6 by simp_all
  have g: "grow s ?s" using grow_trans [OF g3 grow_trans [OF g36 g9]] by simp
  show ?case by (rule finish_cond_ok [OF ok d(1) k _ st(9) c refl out g]) simp
next
  case (7 s)
  note i = in_stmtD [OF "7.prems"(2)]
  have "last (vs_break s) \<in> block_keys (cur_fn s)" "leave_block (last (vs_break s)) s = Inr s'"
    using "7.prems"(1) i(5) last_in_set by (auto simp: exits_ok_def)
  then show ?case using leave_block_ok [OF _ i(1)] by blast
next
  case (8 s)
  note i = in_stmtD [OF "8.prems"(2)]
  have "last (vs_continue s) \<in> block_keys (cur_fn s)" "leave_block (last (vs_continue s)) s = Inr s'"
    using "8.prems"(1) i(5) last_in_set by (auto simp: exits_ok_def)
  then show ?case using leave_block_ok [OF _ i(1)] by blast
next
  case (9 eo s)
  then show ?case using visit_return_ok by simp
next
  case (10 s)
  then show ?case using runs_self [OF in_stmtD(1)] by auto
next
  case (11 d "is" s)
  note i = in_stmtD [OF "11.prems"(2)]
  obtain s1 where st: "visit_decl d s = Inr s1" "visit_items is s1 = Inr s2'" using "11.prems"(1) by auto
  obtain Op1 where r: "runs Op2 J2 s s1 Op1" using local_decl_ok [OF st(1) i(1-3)] by blast
  then show ?case using "11.IH" [OF st in_stmt_runs [OF "11.prems"(2) r]] runs_trans [OF r] by blast
next
  case (12 t "is" s)
  obtain s1 where st: "visit_stmt t s = Inr s1" "visit_items is s1 = Inr s2'" using "12.prems"(1) by auto
  obtain Op1 where r: "runs Op2 J2 s s1 Op1" using "12.IH"(1) [OF st(1) "12.prems"(2)] by blast
  then show ?case using "12.IH"(2) [OF st in_stmt_runs [OF "12.prems"(2) r]] runs_trans [OF r] by blast
qed

end
