(* ===== verification/FrontUnit.thy ===== *)
theory FrontUnit
  imports FrontStmt
begin

text \<open>
  Functions, global declarations and the compile unit: the invariant between two top-level items, and that
  the unit the front end returns is well formed.
\<close>

section \<open>Functions under construction\<close>

text \<open>What a function under construction leaves of the rest of the state.\<close>

definition rest_kept :: "vis \<Rightarrow> vis \<Rightarrow> bool" where
  "rest_kept s s' =
     (vs_functions s' = vs_functions s \<and> vs_global s' = vs_global s \<and> vs_done s' = vs_done s \<and>
      vs_in_init s' = vs_in_init s \<and> vs_break s' = vs_break s \<and> vs_continue s' = vs_continue s \<and>
      vs_mode s' = vs_mode s \<and> vs_init_bb s' = vs_init_bb s \<and> vs_init s' = vs_init s \<and>
      (vs_func s' = None) = (vs_func s = None) \<and> nf_name (cur_fn s') = nf_name (cur_fn s) \<and>
      nf_entry (cur_fn s') = nf_entry (cur_fn s) \<and> block_keys (cur_fn s) \<subseteq> block_keys (cur_fn s') \<and>
      obj_keys (vs_scope s) \<subseteq> obj_keys (vs_scope s') \<and> vs_next_bb s \<le> vs_next_bb s')"

lemma rest_kept_grow: "grow s s' \<Longrightarrow> \<not> vs_in_init s \<Longrightarrow> rest_kept s s'"
  by (simp add: grow_def rest_kept_def)

lemma rest_kept_trans [trans]: "rest_kept a b \<Longrightarrow> rest_kept b c \<Longrightarrow> rest_kept a c"
  unfolding rest_kept_def by auto

lemma rest_kept_in_init: "rest_kept s s' \<Longrightarrow> vs_in_init s' = vs_in_init s"
  by (simp add: rest_kept_def)

text \<open>The parameters.\<close>

lemma set_arg_keys: "ms_set_arg sc i k = Some sc' \<Longrightarrow> obj_keys sc' = obj_keys sc"
proof -
  assume "ms_set_arg sc i k = Some sc'"
  then have "ms_objects sc' = map (\<lambda>m. if mo_key m = k then m\<lparr>mo_arg := True\<rparr> else m) (ms_objects sc)"
    by (auto simp: ms_set_arg_def split: if_splits)
  then have "obj_keys sc' = obj_keys (upd_obj k (\<lambda>m. m\<lparr>mo_arg := True\<rparr>) sc)" by (simp add: obj_keys_def upd_obj_def)
  then show ?thesis by (simp add: upd_obj_keys)
qed

lemma upd_types_inside:
  assumes "vis_ok s Op J"
  shows "inside Op J s (upd_func (\<lambda>f. f\<lparr>nf_arg_types := nf_arg_types f @ [a]\<rparr>) s)"
proof -
  have e: "upd_func (\<lambda>f. f\<lparr>nf_arg_types := nf_arg_types f @ [a]\<rparr>) s = s\<lparr>vs_scope := vs_scope s,
    vs_func := map_option (\<lambda>f. f\<lparr>nf_scope := id (nf_scope f), nf_arg_types := nf_arg_types f @ [a]\<rparr>) (vs_func s), vs_next_obj := vs_next_obj s\<rparr>"
    by (simp add: upd_func_def)
  show ?thesis by (rule objects_inside [OF assms _ _ e]) simp_all
qed

lemma array_param_ok:
  assumes p: "array_param i name t s = Inr s'" and ok: "vis_ok s Op J" and f: "vs_func s \<noteq> None"
  shows "stays Op J s s'"
proof -
  let ?g = "\<lambda>m. add_dims ((2 ^ 64 - 1) # map int_dim (ty_dims t)) (m\<lparr>mo_size := 0, mo_type := ty_scalar t, mo_arg := True\<rparr>)"
  let ?e = "\<lparr>ve_obj = None, ve_type = t, ve_arg_id = int i, ve_const_init = empty_init (ty_scalar t)\<rparr>"
  obtain k s1 s2 fu sc s3 where st: "new_local_obj (''arg_'' @ name) s = (k, s1)" "s2 = edit_obj k ?g s1" "vs_func s2 = Some fu"
    "ms_set_arg (nf_scope fu) (int i) k = Some sc"
    "s3 = upd_func (\<lambda>f. f\<lparr>nf_scope := sc, nf_arg_types := nf_arg_types f @ [IntT]\<rparr>) s2"
    "s' = set_local (\<lambda>vt. (register_var name None t vt) (name \<mapsto> ?e)) s3"
    using p by (auto simp: array_param_def Let_def split: prod.splits)
  note n = new_local_obj_inside [OF st(1) ok f]
  have i2: "inside Op J s1 s2" unfolding st(2) by (rule edit_obj_inside(1) [OF insideD(1) [OF n(1)]]) simp
  have e3: "s3 = s2\<lparr>vs_scope := vs_scope s2,
    vs_func := map_option (\<lambda>f. f\<lparr>nf_scope := (\<lambda>_. sc) (nf_scope f), nf_arg_types := nf_arg_types f @ [IntT]\<rparr>) (vs_func s2), vs_next_obj := vs_next_obj s2\<rparr>"
    by (simp add: st(5) upd_func_def)
  have i3: "inside Op J s2 s3"
    by (rule objects_inside [OF insideD(1) [OF i2] _ _ e3]) (use set_arg_keys [OF st(4)] st(3) in simp_all)
  have "stays Op J s3 s'" unfolding st(6)
    by (rule set_local_stays [OF insideD(1) [OF i3]]) (auto simp: register_var_def ran_def entry_ok_def split: if_splits)
  then show ?thesis using inside_stays [OF inside_trans [OF n(1) inside_trans [OF i2 i3]]] stays_trans by blast
qed

lemma scalar_param_ok:
  assumes p: "scalar_param i name t s = Inr s'" and ok: "vis_ok s Op J" "cur_open s Op" and f: "vs_func s \<noteq> None"
  shows "stays Op J s s'"
proof -
  let ?a = "if ty_scalar t = IntT then IntT else FloatT"
  obtain k s1 sz s2 x s3 ad s4 s5 s6 where st: "new_local_obj name s = (k, s1)"
    "s2 = set_local (register_var name (Some k) t) (edit_obj k (sized_object (ty_scalar t) sz) s1)"
    "v_new_reg s2 = Inr (x, s3)" "v_new_reg s3 = Inr (ad, s4)" "push_cur_bb (LoadArg ?a x (int i)) s4 = Inr s5"
    "push_cur_bb (LoadAddr ad k) (upd_func (\<lambda>f. f\<lparr>nf_arg_types := nf_arg_types f @ [?a]\<rparr>) s5) = Inr s6"
    "push_cur_bb (StoreInstr ad x 0 None) s6 = Inr s'"
    using p by (auto simp: scalar_param_def Let_def split: prod.splits)
  note n = new_local_obj_inside [OF st(1) ok(1) f]
  note e = edit_obj_inside [OF insideD(1) [OF n(1)], where k = k and g = "sized_object (ty_scalar t) sz", OF object_keys(2)]
  have kn: "k \<in> known_objs (edit_obj k (sized_object (ty_scalar t) sz) s1)" using n(2) e(2) by blast
  have l: "stays Op J (edit_obj k (sized_object (ty_scalar t) sz) s1) s2"
    unfolding st(2) by (rule register_local_stays(1) [OF insideD(1) [OF e(1)] kn])
  have s2: "stays Op J s s2" using stays_trans [OF inside_stays [OF inside_trans [OF n(1) e(1)]] l] .
  have k2: "k \<in> known_objs s2" by (rule stays_known [OF l kn])
  note ok2 = staysD(1) [OF s2]
  note a = new_reg_inside [OF st(3) ok2]
  note b = new_reg_inside [OF st(4) insideD(1) [OF a(1)]]
  have i4: "inside Op J s2 s4" using a(1) b(1) by (rule inside_trans)
  have co: "cur_open s2 Op" using staysD(5) [OF s2] ok(2) by simp
  have fr: "fresh_in (cur_fn s4) x" "x \<noteq> ad" "fresh_in (cur_fn s4) ad" using a(2) b(2,3) by blast+
  note c = emit_fresh [OF st(5) insideD(1) [OF i4] inside_open [OF i4 co] _ _ fr(1)]
  have c': "inside Op J s4 s5" "reg_ok s5 x" "fresh_in (cur_fn s5) ad"
    using c(1,2) c(3) [OF _ _ _ fr(3)] fr fresh_reg_ok [OF fr(1)] by (simp_all add: instr_simps control_simps)
  let ?s5 = "upd_func (\<lambda>f. f\<lparr>nf_arg_types := nf_arg_types f @ [?a]\<rparr>) s5"
  have u: "inside Op J s5 ?s5" by (rule upd_types_inside [OF insideD(1) [OF c'(1)]])
  have i5: "inside Op J s2 ?s5" using inside_trans [OF i4 inside_trans [OF c'(1) u]] .
  have k5: "k \<in> known_objs ?s5" using k2 grow_known(1) [OF inside_grow [OF i5]] by blast
  have F: "nf_bbs (cur_fn ?s5) = nf_bbs (cur_fn s5)" "nf_max_reg_id (cur_fn ?s5) = nf_max_reg_id (cur_fn s5)"
    using insideD(1) [OF c'(1)] by (auto simp: cur_fn_def upd_func_def vis_ok_def)
  have f5: "fresh_in (cur_fn ?s5) ad" using c'(3) by (simp add: fresh_in_def F)
  note d = emit_fresh(1,2) [OF st(6) insideD(1) [OF i5] inside_open [OF i5 co] _ _ f5]
  have d': "inside Op J ?s5 s6" "reg_ok s6 ad" using d k5 fresh_reg_ok [OF f5] by (simp_all add: instr_simps control_simps)
  have i6: "inside Op J s2 s6" using i5 d'(1) by (rule inside_trans)
  have "inside Op J s6 s'"
    by (rule push_store_ok [OF st(7) insideD(1) [OF i6] inside_open [OF i6 co] d'(2) inside_reg [OF d'(1) inside_reg [OF u c'(2)]]])
  then show ?thesis using stays_trans [OF s2 inside_stays [OF inside_trans [OF i6]]] by blast
qed

lemma declare_params_ok:
  assumes "declare_params i ps s = Inr s'" and "vis_ok s Op J" "cur_open s Op" and "vs_func s \<noteq> None"
  shows "stays Op J s s'"
  using assms
proof (induction i ps s rule: declare_params.induct)
  case (1 i s)
  then show ?case using stays_refl by simp
next
  case (2 i name t ps s)
  obtain s1 where st: "(if is_array t then array_param i name t s else scalar_param i name t s) = Inr s1"
    "declare_params (i + 1) ps s1 = Inr s'"
    using "2.prems"(1) by auto
  have a: "stays Op J s s1"
    using st(1) array_param_ok [OF _ "2.prems"(2,4)] scalar_param_ok [OF _ "2.prems"(2-4)] by (auto split: if_splits)
  have "stays Op J s1 s'"
    by (rule "2.IH" [OF st staysD(1) [OF a]]) (use staysD(2,5) [OF a] "2.prems"(3,4) in \<open>auto simp: grow_def\<close>)
  with a show ?case by (rule stays_trans)
qed

text \<open>The last two instructions of the return block.\<close>

lemma return_block_ok:
  assumes ok: "vis_ok s {b} {}" and f: "fresh_in (cur_fn s) r" and i: "instr_ok_at s i" "def_of i = Some r" "\<not> is_control i"
    and s': "s' = push_to b (ReturnInstr t r ig) (push_to b i s)"
  shows "vis_ok s' {} {}" and "grow s s'"
proof -
  have d: "fresh_in (cur_fn s) y" if "def_of i = Some y" for y using that f i(2) by simp
  let ?s = "push_to b i s"
  have p: "vis_ok ?s {b} {}" "grow s ?s" using push_to_ok(1,2) [OF ok _ i(1) d i(3)] by blast+
  have "reg_ok ?s r" using grow_known(2) [OF p(2) fresh_reg_ok [OF f]] .
  then have ri: "instr_ok_at ?s (ReturnInstr t r ig)" by (simp add: instr_simps)
  have tg: "targets_at (block_keys (cur_fn ?s)) {} b n (ReturnInstr t r ig)" for n by (simp add: targets_at_def)
  note q = push_jump_ok [OF p(1) _ ri control_simps(14) tg]
  show "vis_ok s' {} {}" "grow s s'" using q(1,2) grow_trans [OF p(2)] by (simp_all add: s')
qed

lemma return_values_ok:
  "vis_ok s Op J \<Longrightarrow> \<forall>(r, b)\<in>set (vs_return_value s). reg_ok s r \<and> b \<in> block_keys (cur_fn s)"
  by (simp add: vis_ok_def)

lemma finish_func_ok:
  assumes f: "finish_func ft s = Inr s'" and ok: "vis_ok s {k, vs_return_bb s} {}" and k: "vs_cur s = Some k" "k \<noteq> vs_return_bb s"
  shows "vis_ok s' {} {}" and "grow s s'"
proof -
  let ?b = "vs_return_bb s"
  have P: "{k, ?b} - {k} = {?b}" using k(2) by auto
  have co: "cur_open s {k, ?b}" using k(1) by (simp add: cur_open_def)
  have "vis_ok s' {} {} \<and> grow s s'"
  proof (cases "ft = FVoid")
    case True
    then obtain r s2 where st: "v_new_reg (push_to k (JumpInstr ?b) s) = Inr (r, s2)"
      "s' = push_to (vs_return_bb s2) (ReturnInstr IntT r True) (push_to (vs_return_bb s2) (LoadConstI r 0) s2)"
      using f k(1) by (auto simp: finish_func_def push_cur_bb_def)
    note j = jump_ok [OF ok _ open_key [OF ok], of k, unfolded P]
    have j': "vis_ok (push_to k (JumpInstr ?b) s) {?b} {}" "grow s (push_to k (JumpInstr ?b) s)" using j [of ?b] by simp_all
    note n = new_reg_inside [OF st(1) j'(1)]
    have b: "vs_return_bb s2 = ?b" using insideD(2) [OF n(1)] by (simp add: grow_def)
    have i: "instr_ok_at s2 (LoadConstI r 0)" using n(4) by (simp add: instr_simps)
    note q = return_block_ok [OF insideD(1) [OF n(1)] n(2) i _ control_simps(4) st(2) [unfolded b]]
    show ?thesis using q grow_trans [OF j'(2) grow_trans [OF insideD(2) [OF n(1)]]] by simp
  next
    case False
    obtain z0 s1 s2 z s3 r s5 s4 where st: "v_new_reg s = Inr (z0, s1)" "push_cur_bb (LoadConstI z0 0) s1 = Inr s2"
      "(if ft = FFloat then andthen (v_new_reg s2) (\<lambda>(tmp, s). andthen (push_cur_bb (UnaryOpI tmp z0 I2F) s) (\<lambda>s. Inr (tmp, s)))
          else Inr (z0, s2)) = Inr (z, s3)" "push_cur_bb (JumpInstr (vs_return_bb s3)) s3 = Inr s4"
      "v_new_reg s4 = Inr (r, s5)"
      "s' = push_to (vs_return_bb s5) (ReturnInstr (return_type ft) r False)
        (push_to (vs_return_bb s5) (PhiInstr r (vs_return_value s4 @ [(z, k)])) s5)"
      using f False k(1) by (auto simp: finish_func_def Let_def)
    have g: "gives_reg {k, ?b} {} s z0 s2"
      by (rule gives_regI [OF st(1,2) ok co]) (use new_reg_ok [OF st(1) ok] in \<open>simp_all add: instr_simps control_simps\<close>)
    note d = gives_regD [OF g]
    have "gives_reg {k, ?b} {} s2 z s3"
    proof (cases "ft = FFloat")
      case True
      then obtain sa where n: "v_new_reg s2 = Inr (z, sa)" "push_cur_bb (UnaryOpI z z0 I2F) sa = Inr s3" using st(3) by auto
      show ?thesis
        by (rule gives_regI [OF n d(2)]) (use d(3,5) co new_reg_ok [OF n(1) d(2)] in \<open>simp_all add: instr_simps control_simps\<close>)
    next
      case False
      then show ?thesis using st(3) gives_reg_self [OF d(2,3)] by simp
    qed
    note e = gives_regD [OF gives_reg_then [OF g this]]
    have c3: "vs_cur s3 = Some k" "vs_return_bb s3 = ?b" using insideD(2,4) [OF e(1)] k(1) by (auto simp: grow_def)
    have s4: "s4 = push_to k (JumpInstr ?b) s3" using st(4) c3 by (simp add: push_cur_bb_def)
    have kb: "?b \<in> block_keys (cur_fn s3)" "k \<in> block_keys (cur_fn s3)" by (rule open_key [OF e(2)]; simp)+
    have j: "vis_ok s4 {?b} {}" "grow s3 s4" using jump_ok [OF e(2) _ kb(1), of k] unfolding s4 P by simp_all
    note n = new_reg_inside [OF st(5) j(1)]
    have b: "vs_return_bb s5 = ?b" using grow_trans [OF e(7) grow_trans [OF j(2) insideD(2) [OF n(1)]]] by (simp add: grow_def)
    have g35: "grow s3 s5" using j(2) insideD(2) [OF n(1)] by (rule grow_trans)
    have "\<forall>(x, y)\<in>set (vs_return_value s4). reg_ok s5 x \<and> y \<in> block_keys (cur_fn s5)"
      using return_values_ok [OF insideD(1) [OF n(1)]] insideD(6) [OF n(1)] by simp
    then have i: "instr_ok_at s5 (PhiInstr r (vs_return_value s4 @ [(z, k)]))"
      using n(4) grow_known(2) [OF g35 e(3)] keys_grow [OF g35 kb(2)] by (auto simp: instr_simps)
    note q = return_block_ok [OF insideD(1) [OF n(1)] n(2) i _ control_simps(10) st(6) [unfolded b]]
    show ?thesis using q grow_trans [OF e(7) grow_trans [OF g35]] by simp
  qed
  then show "vis_ok s' {} {}" "grow s s'" by blast+
qed

section \<open>Between two items\<close>

definition wf_fn :: "func_ref set \<Rightarrow> obj_key set \<Rightarrow> bb_key \<Rightarrow> bb_key set \<Rightarrow> nfunc \<Rightarrow> bool" where
  "wf_fn A K N Op f = (fn_ok A K N Op {} f \<and> nf_entry f \<in> block_keys f)"

definition top_ok :: "vis \<Rightarrow> bool" where
  "top_ok s =
     (vs_func s = None \<and> \<not> vs_in_init s \<and> vs_mode s = NormalMode \<and> vs_local s = [] \<and> vs_return_value s = [] \<and>
      vs_break s = [] \<and> vs_continue s = [] \<and>
      wf_fn (known_funcs s) (obj_keys (vs_scope s) \<union> obj_keys (nf_scope (vs_init s))) (vs_next_bb s) {vs_init_bb s} (vs_init s) \<and>
      (\<forall>f\<in>set (vs_done s). wf_fn (known_funcs s) (obj_keys (vs_scope s) \<union> obj_keys (nf_scope f)) (vs_next_bb s) {} f) \<and>
      distinct (map nf_name (vs_init s # vs_done s)) \<and>
      (\<forall>e\<in>ran (vs_functions s). fe_func e \<in> known_funcs s) \<and>
      (\<forall>e\<in>ran (vs_global s). 0 \<le> ve_arg_id e \<or> (\<exists>k. ve_obj e = Some k \<and> k \<in> obj_keys (vs_scope s))) \<and>
      (vs_found_main s \<longrightarrow> ''main'' \<in> nf_name ` set (vs_done s)))"

lemma wf_fn_mono: "wf_fn A K N Op f \<Longrightarrow> A \<subseteq> A' \<Longrightarrow> K \<subseteq> K' \<Longrightarrow> N \<le> N' \<Longrightarrow> wf_fn A' K' N' Op f"
  using fn_ok_mono by (auto simp: wf_fn_def)

lemma visit_params_same: "visit_params ps s = Inr (xs, s') \<Longrightarrow> s' = s"
proof (induction ps s arbitrary: xs s' rule: visit_params.induct)
  case (2 b name arr es ps s)
  obtain dims s1 ys where st: "get_array_dims es s = Inr (dims, s1)" "visit_params ps s1 = Inr (ys, s')" using "2.prems" by auto
  show ?case using "2.IH" [OF st(1) refl st(2)] get_array_dims_same [OF st(1)] by simp
qed simp

text \<open>The start of a function.\<close>

lemma start_func_ok:
  assumes t: "top_ok s" and s1: "s1 = s\<lparr>vs_func := Some (empty_func name), vs_functions := register_func name (NormalF name) fi (vs_functions s)\<rparr>"
  shows "vis_ok s1 {} {}" and "known_funcs s1 = insert (NormalF name) (known_funcs s)"
proof -
  note a = t [unfolded top_ok_def]
  have F: "cur_fn s1 = empty_func name" using a by (simp add: s1 cur_fn_def)
  show A: "known_funcs s1 = insert (NormalF name) (known_funcs s)"
    using a by (auto simp: known_funcs_def s1 empty_func_def)
  have "fn_ok (known_funcs s1) (known_objs s1) (vs_next_bb s1) {} {} (empty_func name)"
    by (simp add: fn_ok_def empty_func_def block_keys_def func_defs_def)
  moreover have "\<forall>e\<in>ran (vs_functions s1). fe_func e \<in> known_funcs s1"
  proof -
    have fs: "vs_functions s1 = (vs_functions s)(name \<mapsto> \<lparr>fe_func = NormalF name, fe_interface = fi\<rparr>)"
      by (simp add: s1 register_func_def)
    have "\<forall>e\<in>ran (vs_functions s). fe_func e \<in> known_funcs s" using a by blast
    then show ?thesis unfolding A fs by (auto simp: ran_def)
  qed
  moreover have "\<forall>t\<in>set (vs_global s1 # vs_local s1). \<forall>e\<in>ran t. entry_ok s1 e"
    using a by (auto simp: s1 entry_ok_def known_objs_def)
  moreover have "block_keys (vs_init s1) \<inter> block_keys (cur_fn s1) = {}" "\<forall>k\<in>block_keys (vs_init s1). k < vs_next_bb s1"
  proof -
    have "wf_fn (known_funcs s) (obj_keys (vs_scope s) \<union> obj_keys (nf_scope (vs_init s))) (vs_next_bb s) {vs_init_bb s} (vs_init s)"
      using a by blast
    then show "\<forall>k\<in>block_keys (vs_init s1). k < vs_next_bb s1" by (simp add: s1 wf_fn_def fn_ok_def)
    show "block_keys (vs_init s1) \<inter> block_keys (cur_fn s1) = {}" unfolding F by (simp add: block_keys_def empty_func_def)
  qed
  moreover have "(vs_func s1 = None) = vs_in_init s1" "vs_return_value s1 = []" using a by (simp_all add: s1)
  ultimately show "vis_ok s1 {} {}" unfolding vis_ok_def F by simp
qed

text \<open>The end of a function: it joins the finished ones.\<close>

lemma end_func_ok:
  assumes t: "top_ok s" and ok: "vis_ok s2 {} {}" and k: "rest_kept s1 s2" and en: "nf_entry (cur_fn s1) \<in> block_keys (cur_fn s1)"
    and s1: "vs_done s1 = vs_done s" "vs_init s1 = vs_init s" "vs_in_init s1 = vs_in_init s" "vs_init_bb s1 = vs_init_bb s"
      "vs_global s1 = vs_global s" "vs_mode s1 = vs_mode s" "vs_break s1 = vs_break s" "vs_continue s1 = vs_continue s"
      "obj_keys (vs_scope s) \<subseteq> obj_keys (vs_scope s1)" "vs_next_bb s \<le> vs_next_bb s1" "nf_name (cur_fn s1) = name"
    and name: "name \<notin> nf_name ` set (vs_init s # vs_done s)" and main: "vs_found_main s2 \<longrightarrow> name = ''main'' \<or> vs_found_main s"
    and f: "vs_func s2 = Some f"
    and s': "s' = s2\<lparr>vs_done := vs_done s2 @ [f], vs_func := None, vs_cur := None, vs_return_bb := 0, vs_local := [], vs_return_value := []\<rparr>"
  shows "top_ok s'"
proof -
  note a = t [unfolded top_ok_def] and b = k [unfolded rest_kept_def]
  have ni: "\<not> vs_in_init s2" using a b s1 by simp
  then have F: "cur_fn s2 = f" using f by (simp add: cur_fn_def)
  have A: "known_funcs s' = known_funcs s2" using f by (auto simp: known_funcs_def s')
  have AA: "known_funcs s \<subseteq> known_funcs s2" using a b s1 by (auto simp: known_funcs_def)
  have sc: "obj_keys (vs_scope s) \<subseteq> obj_keys (vs_scope s2)" and N: "vs_next_bb s \<le> vs_next_bb s2" using b s1 by auto
  have "fn_ok (known_funcs s2) (known_objs s2) (vs_next_bb s2) {} {} f" using ok F by (simp add: vis_ok_def)
  moreover have "nf_entry f \<in> block_keys f" using b en F by auto
  ultimately have wf: "wf_fn (known_funcs s2) (obj_keys (vs_scope s2) \<union> obj_keys (nf_scope f)) (vs_next_bb s2) {} f"
    by (simp add: wf_fn_def known_objs_def F)
  have old: "wf_fn (known_funcs s2) (obj_keys (vs_scope s2) \<union> obj_keys (nf_scope g)) (vs_next_bb s2) Op g"
    if "wf_fn (known_funcs s) (obj_keys (vs_scope s) \<union> obj_keys (nf_scope g)) (vs_next_bb s) Op g" for g Op
    by (rule wf_fn_mono [OF that AA _ N]) (use sc in auto)
  have nm: "nf_name f = name" using b s1 F by simp
  show ?thesis unfolding top_ok_def A
  proof (intro conjI)
    show "wf_fn (known_funcs s2) (obj_keys (vs_scope s') \<union> obj_keys (nf_scope (vs_init s'))) (vs_next_bb s') {vs_init_bb s'} (vs_init s')"
      using old a b s1 by (simp add: s')
    show "\<forall>g\<in>set (vs_done s'). wf_fn (known_funcs s2) (obj_keys (vs_scope s') \<union> obj_keys (nf_scope g)) (vs_next_bb s') {} g"
      using old a b s1 wf by (auto simp: s')
    show "distinct (map nf_name (vs_init s' # vs_done s'))" using a b s1 name nm by (auto simp: s')
    show "\<forall>e\<in>ran (vs_functions s'). fe_func e \<in> known_funcs s2" using ok by (simp add: s' vis_ok_def)
    show "\<forall>e\<in>ran (vs_global s'). 0 \<le> ve_arg_id e \<or> (\<exists>k. ve_obj e = Some k \<and> k \<in> obj_keys (vs_scope s'))"
    proof -
      have "vs_global s' = vs_global s" "vs_scope s' = vs_scope s2" using b s1 by (simp_all add: s')
      moreover have "\<forall>e\<in>ran (vs_global s). 0 \<le> ve_arg_id e \<or> (\<exists>k. ve_obj e = Some k \<and> k \<in> obj_keys (vs_scope s))"
        using a by blast
      ultimately show ?thesis using sc by (metis subsetD)
    qed
    show "vs_found_main s' \<longrightarrow> ''main'' \<in> nf_name ` set (vs_done s')"
    proof -
      have "vs_done s' = vs_done s @ [f]" "vs_found_main s' = vs_found_main s2" using b s1 by (simp_all add: s')
      moreover have "vs_found_main s \<longrightarrow> ''main'' \<in> nf_name ` set (vs_done s)" using a by blast
      ultimately show ?thesis using main nm by auto
    qed
  qed (use a b s1 in \<open>auto simp: s'\<close>)
qed

lemma set_entry_ok:
  assumes ok: "vis_ok s Op J" and f: "vs_func s \<noteq> None" and s': "s' = upd_func (\<lambda>f. f\<lparr>nf_entry := e\<rparr>) s"
  shows "vis_ok s' Op J" and "cur_fn s' = (cur_fn s)\<lparr>nf_entry := e\<rparr>"
proof -
  have ni: "\<not> vs_in_init s" using ok f by (simp add: vis_ok_def)
  show F: "cur_fn s' = (cur_fn s)\<lparr>nf_entry := e\<rparr>" using f ni by (auto simp: s' upd_func_def cur_fn_def)
  have A: "known_funcs s' = known_funcs s" by (auto simp: known_funcs_def s' upd_func_def image_iff)
  have B: "block_keys (f\<lparr>nf_entry := e\<rparr>) = block_keys f" for f by (simp add: block_keys_def)
  have K: "known_objs s' = known_objs s" by (simp add: known_objs_def F) (simp add: s' upd_func_def)
  have E: "entry_ok s' x = entry_ok s x" "reg_ok s' r = reg_ok s r" for x r by (simp_all add: entry_ok_def K reg_ok_def F)
  have same: "(vs_func s' = None) = (vs_func s = None)" "vs_in_init s' = vs_in_init s" "vs_functions s' = vs_functions s"
    "vs_global s' = vs_global s" "vs_local s' = vs_local s" "vs_return_value s' = vs_return_value s" "vs_next_bb s' = vs_next_bb s"
    "vs_init s' = vs_init s" by (simp_all add: s' upd_func_def)
  show "vis_ok s' Op J" unfolding vis_ok_def A K E same F fn_ok_scope B using ok by (simp add: vis_ok_def)
qed

lemma rest_kept_fields [simp]:
  "rest_kept s (s'\<lparr>vs_return_bb := b\<rparr>) = rest_kept s s'" "rest_kept s (s'\<lparr>vs_func_name := n\<rparr>) = rest_kept s s'"
  "rest_kept s (s'\<lparr>vs_found_main := m\<rparr>) = rest_kept s s'"
  by (simp_all add: rest_kept_def cur_fn_def)

lemma main_call_ok:
  assumes m: "(if name = ''main'' then
             andthen (v_new_reg s) (\<lambda>(r, s).
             andthen (push_cur_bb (CallInstr r (NormalF (nf_name (vs_init s))) [] Void False False) s) (\<lambda>s.
             andthen (check (ft \<noteq> FVoid) InvalidMainFuncInterface) (\<lambda>_.
             andthen (check (params = []) InvalidMainFuncInterface) (\<lambda>_. Inr (s\<lparr>vs_found_main := True\<rparr>)))))
           else Inr s) = Inr s'" and s: "started s Op J" and ni: "\<not> vs_in_init s"
  shows "started s' Op J" and "rest_kept s s'" and "vs_found_main s' \<longrightarrow> name = ''main'' \<or> vs_found_main s" and "vs_cur s' = vs_cur s"
proof -
  have "started s' Op J \<and> rest_kept s s' \<and> (vs_found_main s' \<longrightarrow> name = ''main'' \<or> vs_found_main s) \<and> vs_cur s' = vs_cur s"
  proof (cases "name = ''main''")
    case True
    then obtain r s1 s2 where st: "v_new_reg s = Inr (r, s1)" "push_cur_bb (CallInstr r (NormalF (nf_name (vs_init s1))) [] Void False False) s1 = Inr s2"
      "s' = s2\<lparr>vs_found_main := True\<rparr>"
      using m by auto
    have "NormalF (nf_name (vs_init s1)) \<in> known_funcs s1" by (simp add: known_funcs_def)
    then have "gives_reg Op J s r s2"
      by (intro gives_regI [OF st(1,2) startedD [OF s]]) (use new_reg_ok [OF st(1) startedD(1) [OF s]] in \<open>simp_all add: call_instr_ok control_simps\<close>)
    note d = gives_regD(1) [OF this]
    have "rest_kept s s2" by (rule rest_kept_grow [OF inside_grow [OF d] ni])
    then have "rest_kept s s'" by (simp add: st(3))
    then show ?thesis using staysD(4) [OF inside_stays [OF d] s] insideD(4) [OF d] by (simp add: st(3) True started_def)
  next
    case False
    then show ?thesis using m s by (simp add: rest_kept_def)
  qed
  then show "started s' Op J" "rest_kept s s'" "vs_found_main s' \<longrightarrow> name = ''main'' \<or> vs_found_main s" "vs_cur s' = vs_cur s" by blast+
qed

lemma rest_kept_refl: "rest_kept s s"
  by (simp add: rest_kept_def)

lemma visit_func_def_ok:
  assumes t: "top_ok s" and v: "visit_func_def (FuncDef ft name ps body) s = Inr s'"
  shows "top_ok s'"
proof -
  obtain params where par: "visit_params ps s = Inr (params, s)" and name: "name \<notin> nf_name ` set (vs_init s # vs_done s)"
    using v visit_params_same by (fastforce simp: visit_func_def_def)
  define s1 where "s1 = s\<lparr>vs_func := Some (empty_func name),
                  vs_functions := register_func name (NormalF name)
                    \<lparr>fi_variadic = False, fi_return = return_type ft, fi_args = map (\<lambda>p. PType (snd p)) params\<rparr> (vs_functions s)\<rparr>"
  obtain en s2 s3 s4 ret s5 s6 s7 s8 f where st: "v_new_bb s1 = Inr (en, s2)"
    "s3 = (upd_func (\<lambda>f. f\<lparr>nf_entry := en\<rparr>) s2)\<lparr>vs_cur := Some en, vs_local := [Map.empty]\<rparr>"
    "(if name = ''main'' then
             andthen (v_new_reg s3) (\<lambda>(r, s).
             andthen (push_cur_bb (CallInstr r (NormalF (nf_name (vs_init s))) [] Void False False) s) (\<lambda>s.
             andthen (check (ft \<noteq> FVoid) InvalidMainFuncInterface) (\<lambda>_.
             andthen (check (params = []) InvalidMainFuncInterface) (\<lambda>_. Inr (s\<lparr>vs_found_main := True\<rparr>)))))
           else Inr s3) = Inr s4"
    "v_new_bb s4 = Inr (ret, s5)" "declare_params 0 params (s5\<lparr>vs_return_bb := ret\<rparr>) = Inr s6"
    "visit_items body (s6\<lparr>vs_func_name := name\<rparr>) = Inr s7" "finish_func ft s7 = Inr s8" "vs_func s8 = Some f"
    "s' = s8\<lparr>vs_done := vs_done s8 @ [f], vs_func := None, vs_cur := None, vs_return_bb := 0, vs_local := [], vs_return_value := []\<rparr>"
    using v par name unfolding visit_func_def_def by (simp add: Let_def s1_def [symmetric] split: prod.splits) blast
  note a = t [unfolded top_ok_def]
  note b = start_func_ok [OF t s1_def]
  note n = new_bb_open [OF st(1) b(1)]
  have f2: "vs_func s2 \<noteq> None" "\<not> vs_in_init s2" using n(3) a by (auto simp: grow_def s1_def)
  note e = set_entry_ok [OF n(2) f2(1) refl, of en]
  have ok3: "vis_ok s3 {en} {}"
  proof -
    have "vis_ok ((upd_func (\<lambda>f. f\<lparr>nf_entry := en\<rparr>) s2)\<lparr>vs_cur := Some en\<rparr>) {en} {}" using e(1) by simp
    from vis_ok_local [OF this, of "[Map.empty]"] show ?thesis by (simp add: st(2))
  qed
  have s3: "started s3 {en} {}" using ok3 by (simp add: started_def st(2))
  have F3: "cur_fn s3 = (cur_fn s2)\<lparr>nf_entry := en\<rparr>" using e(2) by (simp add: st(2))
  have f3: "\<not> vs_in_init s3" "vs_func s3 \<noteq> None" using f2 by (simp_all add: st(2) upd_func_def)
  note m = main_call_ok [OF st(3) s3 f3(1)]
  have f4: "\<not> vs_in_init s4" "vs_func s4 \<noteq> None" using m(2) f3 by (auto simp: rest_kept_def)
  note n5 = new_bb_open [OF st(4) startedD(1) [OF m(1)]]
  let ?P = "{ret, en}"
  let ?s5 = "s5\<lparr>vs_return_bb := ret\<rparr>"
  have k5: "rest_kept s3 ?s5" using rest_kept_trans [OF m(2) rest_kept_grow [OF n5(3) f4(1)]] by simp
  have ok5: "vis_ok ?s5 ?P {}" "cur_open ?s5 ?P" "vs_func ?s5 \<noteq> None"
    using n5(2,4) m(4) k5 f3 by (auto simp: cur_open_def st(2) rest_kept_def)
  note d = declare_params_ok [OF st(5) ok5]
  have ni5: "\<not> vs_in_init ?s5" using k5 f3 by (simp add: rest_kept_def)
  have k6: "rest_kept s3 s6" using rest_kept_trans [OF k5 rest_kept_grow [OF staysD(2) [OF d] ni5]] .
  let ?s6 = "s6\<lparr>vs_func_name := name\<rparr>"
  have cur6: "vs_cur ?s6 = Some en" using staysD(3) [OF d] n5(4) m(4) by (simp add: st(2))
  have ok6: "vis_ok ?s6 (insert en {ret}) {}" using staysD(1) [OF d] by (simp add: insert_commute)
  have r6: "vs_return_bb ?s6 = ret" using staysD(2) [OF d] by (simp add: grow_def)
  have "ret \<in> block_keys (cur_fn ?s6)" by (rule open_key [OF ok6]) simp
  moreover have "vs_break ?s6 = []" "vs_continue ?s6 = []" "vs_mode ?s6 = NormalMode" "vs_func ?s6 \<noteq> None"
    using k6 a f3 n(3) by (auto simp: rest_kept_def st(2) upd_func_def grow_def s1_def)
  ultimately have "in_stmt ?s6 (insert en {ret}) {}"
    using ok6 cur6 r6 by (auto simp: in_stmt_def started_def exits_ok_def)
  from visit_stmt_ok(2) [OF st(6) this] obtain Op7 where r: "runs (insert en {ret}) {} ?s6 s7 Op7" by blast
  have ne: "en \<notin> {ret}" using n5(1) by simp
  obtain k where k: "vs_cur s7 = Some k" "k \<notin> {ret}" "vis_ok s7 (insert k {ret}) {}" "grow ?s6 s7"
    by (rule runs_from [OF r cur6 ne])
  have r7: "vs_return_bb s7 = ret" using k(4) r6 by (simp add: grow_def)
  have g: "vis_ok s8 {} {}" "grow s7 s8"
    by (rule finish_func_ok [OF st(7) _ k(1)]; use k(2,3) r7 in simp)+
  have g68: "grow ?s6 s8" using k(4) g(2) by (rule grow_trans)
  have ni6: "\<not> vs_in_init ?s6" using k6 f3 by (simp add: rest_kept_def)
  have k8: "rest_kept s3 s8" using rest_kept_trans [OF _ rest_kept_grow [OF g68 ni6]] k6 by simp
  have main: "vs_found_main s8 \<longrightarrow> name = ''main'' \<or> vs_found_main s"
  proof -
    have "vs_found_main s8 = vs_found_main s4" using g68 staysD(2) [OF d] n5(3) by (simp add: grow_def)
    moreover have "vs_found_main s3 = vs_found_main s" using n(3) by (simp add: st(2) upd_func_def grow_def s1_def)
    ultimately show ?thesis using m(3) by simp
  qed
  have en3: "nf_entry (cur_fn s3) \<in> block_keys (cur_fn s3)"
    using n(5) by (simp add: F3 block_keys_def)
  show ?thesis
    by (rule end_func_ok [OF t g(1) k8 en3 _ _ _ _ _ _ _ _ _ _ _ name main st(8,9)])
      (use n(3) a in \<open>auto simp: st(2) upd_func_def grow_def s1_def cur_fn_def empty_func_def split: option.splits\<close>)
qed

end
