(* ===== verification/FrontTop.thy ===== *)
theory FrontTop
  imports FrontUnit
begin

text \<open>
  Global declarations and the whole compile unit: the unit the front end returns is well formed.
\<close>

section \<open>Global declarations\<close>

lemma top_ok_fields [simp]: "top_ok (s\<lparr>vs_scalar := t\<rparr>) = top_ok s" "top_ok (s\<lparr>vs_cur := c\<rparr>) = top_ok s"
  by (simp_all add: top_ok_def known_funcs_def)

lemma top_ok_globals:
  assumes t: "top_ok s" and sc: "obj_keys (vs_scope s) \<subseteq> obj_keys sc"
    and g: "\<forall>e\<in>ran g. 0 \<le> ve_arg_id e \<or> (\<exists>k. ve_obj e = Some k \<and> k \<in> obj_keys sc)"
    and s': "s' = s\<lparr>vs_scope := sc, vs_global := g, vs_next_obj := n\<rparr>"
  shows "top_ok s'"
proof -
  note a = t [unfolded top_ok_def]
  have A: "known_funcs s' = known_funcs s" by (simp add: known_funcs_def s')
  have mono: "wf_fn A (obj_keys (vs_scope s) \<union> X) N Op f \<Longrightarrow> wf_fn A (obj_keys sc \<union> X) N Op f" for A X N Op f
    by (erule wf_fn_mono) (use sc in auto)
  show ?thesis unfolding top_ok_def A using a mono g by (simp add: s')
qed

lemma edit_obj_top:
  assumes t: "top_ok s" and g: "\<And>m. mo_key (g m) = mo_key m"
  shows "top_ok (edit_obj k g s)"
proof -
  have f: "vs_func s = None" using t by (simp add: top_ok_def)
  have e: "edit_obj k g s = s\<lparr>vs_scope := upd_obj k g (vs_scope s), vs_global := vs_global s, vs_next_obj := vs_next_obj s\<rparr>"
    using f by (cases s) (simp add: edit_obj_def)
  have keys: "obj_keys (upd_obj k g (vs_scope s)) = obj_keys (vs_scope s)" by (rule upd_obj_keys [OF g])
  show ?thesis by (rule top_ok_globals [OF t _ _ e]) (use t in \<open>simp_all add: keys top_ok_def\<close>)
qed

lemma new_global_top:
  assumes t: "top_ok s" and n: "new_global_obj name s = (k, s1)" and e: "ve_obj e = Some k"
  shows "top_ok (s1\<lparr>vs_global := (vs_global s1)(nm \<mapsto> e)\<rparr>)"
proof -
  have s1: "s1\<lparr>vs_global := (vs_global s1)(nm \<mapsto> e)\<rparr> =
      s\<lparr>vs_scope := new_mem_object (vs_scope s) k name, vs_global := (vs_global s)(nm \<mapsto> e), vs_next_obj := k + 1\<rparr>"
    using n by (auto simp: new_global_obj_def Let_def)
  have "\<forall>e\<in>ran (vs_global s). 0 \<le> ve_arg_id e \<or> (\<exists>k. ve_obj e = Some k \<and> k \<in> obj_keys (vs_scope s))"
    using t unfolding top_ok_def by blast
  then have "\<forall>x\<in>ran ((vs_global s)(nm \<mapsto> e)). 0 \<le> ve_arg_id x \<or> (\<exists>k'. ve_obj x = Some k' \<and> k' \<in> insert k (obj_keys (vs_scope s)))"
    using e by (auto simp: ran_def)
  then show ?thesis
    by (intro top_ok_globals [OF t _ _ s1]) (auto simp: new_mem_object_keys)
qed

lemma register_top:
  assumes "top_ok s" and "new_global_obj name s = (k, s1)"
  shows "top_ok (s1\<lparr>vs_global := register_var nm (Some k) t (vs_global s1)\<rparr>)"
    and "top_ok (s1\<lparr>vs_global := register_const nm (Some k) t i (vs_global s1)\<rparr>)"
  using new_global_top [OF assms] by (simp_all add: register_var_def register_const_def)

lemma init_words_key [simp]: "mo_key (mo_init_words m t xs n) = mo_key m"
  by (simp add: mo_init_words_def)

lemma global_const_ok:
  assumes t: "top_ok s" and d: "visit_const_def (ConstDef name es iv) s = Inr s'"
  shows "top_ok s'"
proof -
  have f: "vs_func s = None" using t by (simp add: top_ok_def)
  obtain k s1 ty i ds x n where st: "new_global_obj name s = (k, s1)"
    "s' = edit_obj k (\<lambda>m. add_dims ds (mo_init_words m (vs_scalar s) x n))
       (s1\<lparr>vs_global := register_const name (Some k) ty i (vs_global s1)\<rparr>)"
    using d f by (auto simp: visit_const_def_def Let_def split: prod.splits dest!: get_array_dims_same parse_const_init_same)
  show ?thesis unfolding st(2) by (rule edit_obj_top [OF register_top(2) [OF t st(1)]]) simp
qed

text \<open>The initial value of a global variable is computed in the function of the initialisation.\<close>

lemma start_init_ok:
  assumes t: "top_ok s" and s1: "s1 = s\<lparr>vs_cur := Some (vs_init_bb s), vs_in_init := True\<rparr>"
  shows "started s1 {vs_init_bb s} {}"
proof -
  note a = t [unfolded top_ok_def]
  have F: "cur_fn s1 = vs_init s" by (simp add: cur_fn_def s1)
  have A: "known_funcs s1 = known_funcs s" by (simp add: known_funcs_def s1)
  have K: "known_objs s1 = obj_keys (vs_scope s) \<union> obj_keys (nf_scope (vs_init s))" by (simp add: known_objs_def F) (simp add: s1)
  have "wf_fn (known_funcs s) (obj_keys (vs_scope s) \<union> obj_keys (nf_scope (vs_init s))) (vs_next_bb s) {vs_init_bb s} (vs_init s)"
    using a by blast
  then have "fn_ok (known_funcs s1) (known_objs s1) (vs_next_bb s1) {vs_init_bb s} {} (cur_fn s1)"
    unfolding A K F by (simp add: wf_fn_def s1)
  moreover have "\<forall>t\<in>set (vs_global s1 # vs_local s1). \<forall>e\<in>ran t. entry_ok s1 e"
  proof -
    have "\<forall>e\<in>ran (vs_global s). 0 \<le> ve_arg_id e \<or> (\<exists>k. ve_obj e = Some k \<and> k \<in> obj_keys (vs_scope s))" "vs_local s = []"
      using a by blast+
    then show ?thesis unfolding entry_ok_def K by (auto simp: s1)
  qed
  moreover have "\<forall>e\<in>ran (vs_functions s1). fe_func e \<in> known_funcs s1" using a unfolding A by (simp add: s1)
  moreover have "(vs_func s1 = None) = vs_in_init s1" "vs_return_value s1 = []" "vs_in_init s1" using a by (simp_all add: s1)
  ultimately have "vis_ok s1 {vs_init_bb s} {}" unfolding vis_ok_def by simp
  then show ?thesis by (simp add: started_def s1)
qed

lemma end_init_ok:
  assumes t: "top_ok s" and s1: "s1 = s\<lparr>vs_cur := Some (vs_init_bb s), vs_in_init := True\<rparr>"
    and g: "goes {vs_init_bb s} {} s1 s2 Op" and b: "vs_cur s2 = Some b"
    and s': "s' = s2\<lparr>vs_init_bb := b, vs_cur := None, vs_in_init := False\<rparr>"
  shows "top_ok s'"
proof -
  note a = t [unfolded top_ok_def]
  have ok: "vis_ok s2 {b} {}" and gr: "grow s1 s2" and same: "vs_local s2 = []" "vs_return_value s2 = []"
    using g b a by (auto simp: goes_def s1)
  note h = gr [unfolded grow_def]
  have F: "cur_fn s1 = vs_init s" "cur_fn s2 = vs_init s2" using h by (simp_all add: cur_fn_def s1)
  have A: "known_funcs s' = known_funcs s"
  proof -
    have "known_funcs s2 = known_funcs s1"
      by (rule grow_funcs [OF gr startedD(1) [OF start_init_ok [OF t s1]]])
    moreover have "known_funcs s' = known_funcs s2" "known_funcs s1 = known_funcs s" by (simp_all add: known_funcs_def s' s1)
    ultimately show ?thesis by simp
  qed
  have A2: "known_funcs s2 = known_funcs s" using A by (simp add: known_funcs_def s')
  have sc: "obj_keys (vs_scope s) \<subseteq> obj_keys (vs_scope s2)" and N: "vs_next_bb s \<le> vs_next_bb s2" using h by (simp_all add: s1)
  have "fn_ok (known_funcs s2) (known_objs s2) (vs_next_bb s2) {b} {} (vs_init s2)" using ok F by (simp add: vis_ok_def)
  moreover have "nf_entry (vs_init s2) \<in> block_keys (vs_init s2)"
  proof -
    have "nf_entry (vs_init s) \<in> block_keys (vs_init s)" using a by (simp add: wf_fn_def)
    then show ?thesis using h F by auto
  qed
  ultimately have wf: "wf_fn (known_funcs s) (obj_keys (vs_scope s2) \<union> obj_keys (nf_scope (vs_init s2))) (vs_next_bb s2) {b} (vs_init s2)"
    unfolding A2 by (simp add: wf_fn_def known_objs_def F)
  have old: "wf_fn (known_funcs s) (obj_keys (vs_scope s2) \<union> obj_keys (nf_scope f)) (vs_next_bb s2) {} f"
    if "wf_fn (known_funcs s) (obj_keys (vs_scope s) \<union> obj_keys (nf_scope f)) (vs_next_bb s) {} f" for f
    by (rule wf_fn_mono [OF that subset_refl _ N]) (use sc in auto)
  have fin: "vs_done s2 = vs_done s" "vs_global s2 = vs_global s" "nf_name (vs_init s2) = nf_name (vs_init s)"
    "vs_functions s2 = vs_functions s" "vs_found_main s2 = vs_found_main s" using h F by (simp_all add: s1)
  show ?thesis unfolding top_ok_def A
  proof (intro conjI)
    show "wf_fn (known_funcs s) (obj_keys (vs_scope s') \<union> obj_keys (nf_scope (vs_init s'))) (vs_next_bb s') {vs_init_bb s'} (vs_init s')"
      using wf by (simp add: s')
    show "\<forall>f\<in>set (vs_done s'). wf_fn (known_funcs s) (obj_keys (vs_scope s') \<union> obj_keys (nf_scope f)) (vs_next_bb s') {} f"
    proof -
      have "\<forall>f\<in>set (vs_done s). wf_fn (known_funcs s) (obj_keys (vs_scope s) \<union> obj_keys (nf_scope f)) (vs_next_bb s) {} f"
        using a by blast
      then show ?thesis using old by (simp add: s' fin)
    qed
    show "distinct (map nf_name (vs_init s' # vs_done s'))" using a by (simp add: s' fin)
    show "\<forall>e\<in>ran (vs_functions s'). fe_func e \<in> known_funcs s" using a by (simp add: s' fin)
    show "\<forall>e\<in>ran (vs_global s'). 0 \<le> ve_arg_id e \<or> (\<exists>k. ve_obj e = Some k \<and> k \<in> obj_keys (vs_scope s'))"
    proof -
      have "\<forall>e\<in>ran (vs_global s). 0 \<le> ve_arg_id e \<or> (\<exists>k. ve_obj e = Some k \<and> k \<in> obj_keys (vs_scope s))"
        using a by blast
      then show ?thesis using sc by (fastforce simp: s' fin)
    qed
    show "vs_found_main s' \<longrightarrow> ''main'' \<in> nf_name ` set (vs_done s')"
    proof -
      have "vs_found_main s \<longrightarrow> ''main'' \<in> nf_name ` set (vs_done s)" using a by blast
      then show ?thesis by (simp add: s' fin)
    qed
  qed (use a h same in \<open>simp_all add: s' s1\<close>)
qed

lemma global_var_ok:
  assumes t: "top_ok s" and d: "visit_var_def vd s = Inr s'"
  shows "top_ok s'"
proof (cases vd)
  case (UninitVarDef name es)
  have f: "vs_func s = None" using t by (simp add: top_ok_def)
  obtain k s1 ty ds sz st where st: "new_global_obj name s = (k, s1)"
    "s' = edit_obj k (\<lambda>m. add_dims ds (sized_object st sz m)) (s1\<lparr>vs_global := register_var name (Some k) ty (vs_global s1)\<rparr>)"
    using d f unfolding UninitVarDef
    by (auto simp: visit_var_def_def Let_def split: prod.splits dest!: get_array_dims_same)
  show ?thesis unfolding st(2) by (rule edit_obj_top [OF register_top(1) [OF t st(1)]]) simp
next
  case (InitVarDef name es iv)
  have f: "vs_func s = None" using t by (simp add: top_ok_def)
  obtain k s1 s2 ty T dims init s4 s5 b ds sz st where st: "new_global_obj name s = (k, s1)"
    "s2 = s1\<lparr>vs_global := register_var name (Some k) ty (vs_global s1)\<rparr>"
    "parse_var_init T iv dims (s2\<lparr>vs_cur := Some (vs_init_bb s2), vs_in_init := True\<rparr>) = Inr (init, s4)"
    "gen_var_init_ir init k True s4 = Inr s5" "vs_cur s5 = Some b"
    "s' = edit_obj k (\<lambda>m. add_dims ds (sized_object st sz m)) (s5\<lparr>vs_init_bb := b, vs_cur := None, vs_in_init := False\<rparr>)"
    using d f unfolding InitVarDef
    by (auto simp: visit_var_def_def Let_def split: prod.splits dest!: get_array_dims_same)
  have t2: "top_ok s2" unfolding st(2) by (rule register_top(1) [OF t st(1)])
  let ?s3 = "s2\<lparr>vs_cur := Some (vs_init_bb s2), vs_in_init := True\<rparr>"
  have m: "vs_mode ?s3 \<noteq> CompileTime" using t2 by (simp add: top_ok_def)
  obtain Op where g: "goes {vs_init_bb s2} {} ?s3 s4 Op" "regs_ok s4 init"
    using parse_var_init_ok [OF st(3) start_init_ok [OF t2 refl] m] by blast
  have "k \<in> obj_keys (vs_scope s2)" using st(1) by (auto simp: st(2) new_global_obj_def Let_def new_mem_object_keys)
  then have "k \<in> known_objs s4" using goesD(3) [OF g(1)] by (auto simp: known_objs_def grow_def)
  then have "inside Op {} s4 s5" by (rule gen_var_init_ir_ok [OF st(4) goesD(1,2) [OF g(1)] _ g(2)])
  then have "goes {vs_init_bb s2} {} ?s3 s5 Op" by (rule goes_inside [OF g(1)])
  from end_init_ok [OF t2 refl this st(5) refl] show ?thesis unfolding st(6) by (rule edit_obj_top) simp
qed

lemma visit_list_top:
  "visit_list f xs s = Inr s' \<Longrightarrow> top_ok s \<Longrightarrow> (\<And>x s s'. f x s = Inr s' \<Longrightarrow> top_ok s \<Longrightarrow> top_ok s') \<Longrightarrow> top_ok s'"
  by (induction xs arbitrary: s) (simp, auto)

lemma visit_top_ok:
  assumes v: "visit_top t s = Inr s'" and s: "top_ok s"
  shows "top_ok s'"
proof (cases t)
  case (TopFunc d)
  then show ?thesis using v visit_func_def_ok [OF s] by (cases d) (simp add: visit_top_def)
next
  case (TopDecl d)
  show ?thesis
  proof (cases d)
    case (ConstDecl b ds)
    have "visit_list visit_const_def ds (s\<lparr>vs_scalar := scalar_of_btype b\<rparr>) = Inr s'"
      using v by (simp add: TopDecl ConstDecl visit_top_def visit_decl_def)
    then show ?thesis
    proof (rule visit_list_top)
      fix x s s'
      assume "visit_const_def x s = Inr s'" "top_ok s"
      then show "top_ok s'" using global_const_ok by (cases x) blast
    qed (use s in simp)
  next
    case (VarDecl b ds)
    have "visit_list visit_var_def ds (s\<lparr>vs_scalar := scalar_of_btype b\<rparr>) = Inr s'"
      using v by (simp add: TopDecl VarDecl visit_top_def visit_decl_def)
    then show ?thesis by (rule visit_list_top) (use s in simp, rule global_var_ok)
  qed
qed

section \<open>The compile unit\<close>

definition jumps_ok :: "bb_key set \<Rightarrow> instr \<Rightarrow> bool" where
  "jumps_ok B i = (case i of JumpInstr t \<Rightarrow> t \<in> B | BranchInstr c t1 t0 \<Rightarrow> t1 \<in> B \<and> t0 \<in> B | _ \<Rightarrow> True)"

text \<open>A function is well formed: its blocks are distinct, the entry is one of them, each ends with its only
  control instruction, whose targets are blocks of the function; every register is defined at most once and
  is one of the function; what an instruction refers to exists.\<close>

definition func_wf :: "func_ref set \<Rightarrow> obj_key set \<Rightarrow> nfunc \<Rightarrow> bool" where
  "func_wf A K f =
     (distinct (map bb_key (nf_bbs f)) \<and> nf_entry f \<in> block_keys f \<and> distinct (func_defs (nf_bbs f)) \<and>
      (\<forall>b\<in>set (nf_bbs f). closed_block (bb_instrs b) \<and>
         (\<forall>i\<in>set (bb_instrs b). instr_ok A K (nf_max_reg_id f) (block_keys f) i \<and> jumps_ok (block_keys f) i)))"

definition unit_funcs :: "compile_unit \<Rightarrow> func_ref set" where
  "unit_funcs c = NormalF ` nf_name ` set (cu_funcs c) \<union> LibF ` lf_name ` set (cu_lib_funcs c)"

definition unit_wf :: "compile_unit \<Rightarrow> bool" where
  "unit_wf c =
     (distinct (map nf_name (cu_funcs c)) \<and> ''main'' \<in> nf_name ` set (cu_funcs c) \<and>
      (\<forall>f\<in>set (cu_funcs c). func_wf (unit_funcs c) (obj_keys (cu_scope c) \<union> obj_keys (nf_scope f)) f))"

lemma wf_fn_func_wf:
  assumes "wf_fn A K N {} f"
  shows "func_wf A K f"
proof -
  have "jumps_ok (block_keys f) i" if b: "b \<in> set (nf_bbs f)" and i: "i \<in> set (bb_instrs b)" for b i
  proof -
    obtain n where n: "n < length (bb_instrs b)" "bb_instrs b ! n = i" using i by (auto simp: in_set_conv_nth)
    have "targets_at (block_keys f) {} (bb_key b) n i" using assms b n unfolding wf_fn_def fn_ok_def by blast
    then show ?thesis by (auto simp: targets_at_def jumps_ok_def split: instr.splits)
  qed
  then show ?thesis using assms by (simp add: wf_fn_def fn_ok_def func_wf_def)
qed

lemma lib_names: "fst ` set lib_interfaces \<subseteq> lf_name ` set lib_funcs"
  by (simp add: lib_interfaces_def Let_def lib_funcs_def new_lib_func_def io_func_def pure_func_def)

lemma initial_top: "top_ok (initial_state sc)"
proof -
  have e: "fe_func e \<in> LibF ` fst ` set lib_interfaces" if "e \<in> ran lib_table" for e
  proof -
    obtain n where "lib_table n = Some e" using \<open>e \<in> ran lib_table\<close> by (auto simp: ran_def)
    then have "(n, e) \<in> set (map (\<lambda>(n, i). (n, \<lparr>fe_func = LibF n, fe_interface = i\<rparr>)) lib_interfaces)"
      unfolding lib_table_def by (rule map_of_SomeD)
    then show ?thesis by force
  qed
  have "wf_fn A K 2 {1} ((new_bb 1 ''BB'' (empty_func ''.init''))\<lparr>nf_entry := 1\<rparr>)" for A K
    by (simp add: wf_fn_def fn_ok_def new_bb_def Let_def empty_func_def block_keys_def func_defs_def)
  then show ?thesis using e by (auto simp: top_ok_def initial_state_def known_funcs_def)
qed

text \<open>The end of the initialisation.\<close>

lemma finish_init_ok:
  assumes w: "wf_fn A K N {b} f" and n: "new_reg f = (r, f1)"
    and f': "f' = update_bb b (bb_push (ReturnInstr IntT r True)) (update_bb b (bb_push (LoadConstI r 0)) f1)"
  shows "wf_fn A K N {} f'" and "nf_name f' = nf_name f" and "nf_scope f' = nf_scope f"
proof -
  have f: "fn_ok A K N {b} {} f" using w by (simp add: wf_fn_def)
  note r = fn_ok_new_reg [OF f n]
  have fields: "nf_name f1 = nf_name f" "nf_scope f1 = nf_scope f" "nf_entry f1 = nf_entry f"
    using n by (auto simp: new_reg_def new_reg_named_def)
  show "nf_name f' = nf_name f" "nf_scope f' = nf_scope f" by (simp_all add: f' fields)
  let ?f2 = "update_bb b (bb_push (LoadConstI r 0)) f1"
  have fr: "r \<notin> set (func_defs (nf_bbs f1))" "1 \<le> r" "r \<le> nf_max_reg_id f1" using r(2) by (simp_all add: fresh_in_def)
  have bk: "b \<in> block_keys f1" using r(1) by (simp add: fn_ok_def)
  obtain "is" where at: "instrs_at f1 b = Some is" using instrs_at_keys [OF bk] by blast
  have i1: "instr_ok A K (nf_max_reg_id f1) (block_keys f1) (LoadConstI r 0)"
    using fr by (simp add: instr_ok_def uses_ok_def refs_ok_def)
  have ok2: "fn_ok A K N {b} {} ?f2"
    by (rule fn_ok_push(1) [OF r(1) _ i1 _ _ at]) (use fr in \<open>auto simp: is_control_def targets_at_def\<close>)
  have bk2: "block_keys ?f2 = block_keys f1" by (rule update_bb_keys) simp
  obtain is2 where at2: "instrs_at ?f2 b = Some is2" using instrs_at_keys [of b ?f2] bk bk2 by auto
  have i2: "instr_ok A K (nf_max_reg_id ?f2) (block_keys ?f2) (ReturnInstr IntT r True)"
    using fr by (simp add: instr_ok_def uses_ok_def refs_ok_def)
  have ok3: "fn_ok A K N {} {} f'"
    unfolding f' by (rule fn_ok_push(1) [OF ok2 _ i2 _ _ at2]) (auto simp: is_control_def targets_at_def)
  have "block_keys f' = block_keys ?f2" unfolding f' by (rule update_bb_keys) simp
  moreover have "block_keys f1 = block_keys f" by (simp add: block_keys_def r(5))
  ultimately show "wf_fn A K N {} f'" using ok3 w bk2 by (simp add: wf_fn_def f' fields)
qed

lemma finish_unit_ok:
  assumes t: "top_ok s" and m: "vs_found_main s"
  shows "unit_wf (finish_unit s)"
proof -
  note a = t [unfolded top_ok_def]
  obtain r f1 where n: "new_reg (vs_init s) = (r, f1)" by fastforce
  let ?f = "update_bb (vs_init_bb s) (bb_push (ReturnInstr IntT r True)) (update_bb (vs_init_bb s) (bb_push (LoadConstI r 0)) f1)"
  have u: "finish_unit s = \<lparr>cu_scope = vs_scope s, cu_funcs = ?f # vs_done s, cu_lib_funcs = lib_funcs\<rparr>"
    by (simp add: finish_unit_def n)
  have w: "wf_fn (known_funcs s) (obj_keys (vs_scope s) \<union> obj_keys (nf_scope (vs_init s))) (vs_next_bb s) {vs_init_bb s} (vs_init s)"
    using a by blast
  note i = finish_init_ok [OF w n refl]
  have A: "known_funcs s \<subseteq> unit_funcs (finish_unit s)"
    using a lib_names i(2) by (auto simp: known_funcs_def unit_funcs_def u)
  have wf: "func_wf (unit_funcs (finish_unit s)) K f" if "wf_fn (known_funcs s) K (vs_next_bb s) {} f" for K f
    by (rule wf_fn_func_wf [OF wf_fn_mono [OF that A subset_refl order_refl]])
  have "\<forall>f\<in>set (vs_done s). wf_fn (known_funcs s) (obj_keys (vs_scope s) \<union> obj_keys (nf_scope f)) (vs_next_bb s) {} f"
    using a by blast
  then have fs: "\<forall>f\<in>set (cu_funcs (finish_unit s)).
      func_wf (unit_funcs (finish_unit s)) (obj_keys (cu_scope (finish_unit s)) \<union> obj_keys (nf_scope f)) f"
    using wf [OF i(1)] wf i(3) by (simp add: u)
  have "distinct (map nf_name (vs_init s # vs_done s))" "''main'' \<in> nf_name ` set (vs_done s)" using a m by blast+
  then show ?thesis unfolding unit_wf_def using fs i(2) by (simp add: u)
qed

lemma front_end_unit:
  assumes "front_end ts = Inr c"
  shows "unit_wf c"
proof -
  obtain sc s where st: "visit_list visit_top ts (initial_state sc) = Inr s" "vs_found_main s" "c = finish_unit s"
    using assms by (auto simp: front_end_def visit_comp_unit_def split: if_splits)
  have "top_ok s" by (rule visit_list_top [OF st(1) initial_top visit_top_ok])
  then show ?thesis using finish_unit_ok st(2,3) by simp
qed

end
