(* ===== verification/InitFacts.thy ===== *)
theory InitFacts
  imports VisitStmt
begin

text \<open>
  Arrays in the front end: the position of an element in row-major order, and the number of values an
  initial value has.
\<close>

section \<open>Positions\<close>

text \<open>Digits from the last index to the first, each below its size.\<close>

fun digits :: "nat list \<Rightarrow> nat list \<Rightarrow> nat" where
  "digits (d # ds) (i # is) = i + d * digits ds is"
| "digits _ _ = 0"

text \<open>The position in row-major order.\<close>

fun row_major :: "nat list \<Rightarrow> nat list \<Rightarrow> nat" where
  "row_major (d # ds) (i # is) = i * prod_list ds + row_major ds is"
| "row_major _ _ = 0"

lemma digits_bound:
  "list_all2 (<) is ds \<Longrightarrow> digits ds is < prod_list ds"
proof (induction "is" ds rule: list_all2_induct)
  case (Cons i "is" d ds)
  have "i + d * digits ds is < d + d * digits ds is" using Cons by simp
  also have "\<dots> = d * (digits ds is + 1)" by simp
  also have "\<dots> \<le> d * prod_list ds" using Cons.IH by (intro mult_le_mono2) simp
  finally show ?case by simp
qed simp

lemma digits_inject:
  assumes "list_all2 (<) is ds" and "list_all2 (<) js ds" and "digits ds is = digits ds js"
  shows "is = js"
  using assms
proof (induction "is" ds arbitrary: js rule: list_all2_induct)
  case (Cons i "is" d ds)
  obtain j js' where js: "js = j # js'" "j < d" "list_all2 (<) js' ds" using Cons.prems(1) by (auto simp: list_all2_Cons2)
  have e: "i + d * digits ds is = j + d * digits ds js'" using Cons.prems(2) by (simp add: js)
  have "i = (i + d * digits ds is) mod d" "j = (j + d * digits ds js') mod d" using Cons.hyps js(2) by simp_all
  then have "i = j" using e by metis
  moreover have "digits ds is = digits ds js'" using e \<open>i = j\<close> js(2) by simp
  ultimately show ?case using Cons.IH [OF js(3)] by (simp add: js)
qed simp

lemma digits_append:
  "length ds = length is \<Longrightarrow> digits (ds @ [d]) (is @ [i]) = digits ds is + prod_list ds * i"
  by (induction ds "is" rule: list_induct2) (simp_all add: algebra_simps)

lemma digits_row_major: "length ds = length is \<Longrightarrow> digits (rev ds) (rev is) = row_major ds is"
proof (induction ds "is" rule: list_induct2)
  case (Cons d ds i "is")
  have "prod_list (rev ds) = prod_list ds" by (induction ds) (simp_all add: prod_list.append mult.commute)
  then show ?case using Cons by (simp add: digits_append)
qed simp

text \<open>The loop of \<open>get_index\<close>, first as words.\<close>

fun word_digits :: "mem_size list \<Rightarrow> mem_size list \<Rightarrow> mem_size" where
  "word_digits (d # ds) (i # is) = i + d * word_digits ds is"
| "word_digits _ _ = 0"

lemma index_loop_digits:
  "length ds = length is \<Longrightarrow> index_loop step ret ds is = ret + step * word_digits ds is"
  by (induction ds "is" arbitrary: step ret rule: list_induct2) (simp_all add: algebra_simps)

lemma all_below_unat:
  "list_all2 (<) is (ds :: mem_size list) \<Longrightarrow> list_all2 (<) (map unat is) (map unat ds)"
  by (simp add: list_all2_conv_all_nth word_less_nat_alt)

lemma unat_word_digits:
  assumes "list_all2 (<) is ds" and "prod_list (map unat ds) < 2 ^ 64"
  shows "unat (word_digits ds is) = digits (map unat ds) (map unat is)"
  using assms
proof (induction "is" ds rule: list_all2_induct)
  case (Cons i "is" d ds)
  let ?D = "map unat ds" and ?I = "map unat is"
  have d: "0 < unat d" using Cons.hyps unat_mono by fastforce
  have le: "prod_list ?D \<le> unat d * prod_list ?D" using d by simp
  have "prod_list ?D < 2 ^ 64" by (rule le_less_trans [OF le]) (use Cons.prems in simp)
  then have IH: "unat (word_digits ds is) = digits ?D ?I" by (rule Cons.IH)
  have all: "list_all2 (<) (map unat (i # is)) (map unat (d # ds))"
    using all_below_unat [of "i # is" "d # ds"] Cons.hyps by simp
  have b: "unat i + unat d * digits ?D ?I < 2 ^ 64" using digits_bound [OF all] Cons.prems by simp
  have "unat (d * word_digits ds is) = unat d * digits ?D ?I" using b by (simp add: unat_mult_lem [THEN iffD1] IH)
  then show ?case using b by (simp add: unat_add_lem [THEN iffD1])
qed simp

lemma unat_prod_list:
  "prod_list (map unat ds) < 2 ^ 64 \<Longrightarrow> unat (prod_list ds :: mem_size) = prod_list (map unat ds)"
proof (induction ds)
  case (Cons d ds)
  show ?case
  proof (cases "d = 0")
    case False
    then have "0 < unat d" by (simp add: unat_gt_0)
    then have "prod_list (map unat ds) \<le> prod_list (map unat (d # ds))" by simp
    then have "unat (prod_list ds) = prod_list (map unat ds)" using Cons.IH Cons.prems le_less_trans by blast
    then show ?thesis using Cons.prems by (simp add: unat_mult_lem [THEN iffD1])
  qed simp
qed simp

lemma get_index_row_major:
  assumes c: "check_index t index" and o: "\<not> ty_omit t" and p: "prod_list (map unat (ty_dims t)) < 2 ^ 64"
  shows "unat (get_index t index) = row_major (map unat (ty_dims t)) (map unat index)"
    and "unat (get_index t index) < prod_list (map unat (ty_dims t))"
    and "check_index t js \<Longrightarrow> get_index t js = get_index t index \<Longrightarrow> js = index"
proof -
  have rp: "prod_list (rev xs) = prod_list xs" for xs :: "nat list"
    by (induction xs) (simp_all add: prod_list.append mult.commute)
  have u: "unat (get_index t is) = digits (rev (map unat (ty_dims t))) (rev (map unat is)) \<and>
      list_all2 (<) (rev (map unat is)) (rev (map unat (ty_dims t)))" if "check_index t is" for "is"
  proof -
    have a: "list_all2 (<) is (ty_dims t)" using that o by (simp add: check_index_def)
    have "get_index t is = word_digits (rev (ty_dims t)) (rev is)"
      using list_all2_lengthD [OF a] by (simp add: get_index_def index_loop_digits)
    moreover have "list_all2 (<) (rev is) (rev (ty_dims t))" using a by (simp add: list_all2_rev)
    moreover have "prod_list (map unat (rev (ty_dims t))) < 2 ^ 64" using p rp by (simp add: rev_map [symmetric])
    ultimately show ?thesis
      using unat_word_digits all_below_unat [of "rev is" "rev (ty_dims t)"] by (simp add: rev_map)
  qed
  have l: "length (ty_dims t) = length index" using c o by (simp add: check_index_def count_array_dims_def)
  show "unat (get_index t index) = row_major (map unat (ty_dims t)) (map unat index)"
    using u [OF c] digits_row_major [of "map unat (ty_dims t)" "map unat index"] l by simp
  show "unat (get_index t index) < prod_list (map unat (ty_dims t))"
    using u [OF c] digits_bound rp by metis
  show "js = index" if "check_index t js" "get_index t js = get_index t index"
  proof -
    have "rev (map unat js) = rev (map unat index)"
      using u [OF that(1)] u [OF c] that(2) digits_inject by metis
    then show ?thesis by (simp add: inj_map_eq_map)
  qed
qed

section \<open>Initial values\<close>

text \<open>The number of elements of a shape; below \<open>2 ^ 63\<close> no sum of two sizes wraps.\<close>

definition shape_size :: "mem_size list \<Rightarrow> nat" where
  "shape_size shape = prod_list (map unat shape)"

lemma shape_facts:
  assumes s: "shape_size shape < 2 ^ 63" and ne: "prod_list shape \<noteq> 0" "shape \<noteq> []"
  shows "unat (prod_list shape) = shape_size shape" and "shape_size (tl shape) \<le> shape_size shape"
    and "unat (prod_list (tl shape)) = shape_size (tl shape)" and "0 < shape_size (tl shape)"
proof -
  obtain d ds where sh: "shape = d # ds" using ne(2) by (cases shape) auto
  show u: "unat (prod_list shape) = shape_size shape" using unat_prod_list s by (simp add: shape_size_def)
  have "0 < shape_size shape" using ne(1) u by (metis unat_gt_0)
  then have "0 < unat d" "0 < shape_size ds" by (simp_all add: shape_size_def sh)
  then show "0 < shape_size (tl shape)" and le: "shape_size (tl shape) \<le> shape_size shape" by (simp_all add: shape_size_def sh)
  have "shape_size (tl shape) < 2 ^ 64" using le s by simp
  then show "unat (prod_list (tl shape)) = shape_size (tl shape)" using unat_prod_list by (simp add: shape_size_def)
qed

lemma unat_add_below: "unat (a :: mem_size) + unat b < 2 ^ 64 \<Longrightarrow> unat (a + b) = unat a + unat b"
  using unat_add_lem [of a b] by simp

lemma fill_size: "cnt \<le> n \<Longrightarrow> fill cnt n = unat n - unat cnt"
  by (auto simp: fill_def unat_sub word_le_nat_alt word_less_nat_alt)

text \<open>One element, or a list of a smaller shape, more; the count does not pass the size.\<close>

lemma count_step:
  assumes s: "shape_size shape < 2 ^ 63" and c: "unat cnt \<le> shape_size shape" and p: "unat (prod_list shape) = shape_size shape"
    and n: "unat n \<le> shape_size shape" "cnt + n \<le> prod_list shape"
  shows "unat (cnt + n) = unat cnt + unat n" and "unat cnt + unat n \<le> shape_size shape"
proof -
  show a: "unat (cnt + n) = unat cnt + unat n" by (rule unat_add_below) (use s c n(1) in simp)
  show "unat cnt + unat n \<le> shape_size shape" using n(2) a p by (simp add: word_le_nat_alt)
qed

definition lists_ok :: "mem_size list \<Rightarrow> bool" where
  "lists_ok shape = (shape_size shape < 2 ^ 63 \<and> prod_list shape \<noteq> 0 \<and> shape \<noteq> [])"

lemma const_lengths:
  shows "const_list t ns shape result s = Inr (r, s') \<Longrightarrow> shape_size shape < 2 ^ 63 \<Longrightarrow>
      length r = length result + shape_size shape"
    and "const_items t ns2 shape2 cnt result2 s2 = Inr (n, r2, s2') \<Longrightarrow> lists_ok shape2 \<Longrightarrow>
      unat cnt \<le> shape_size shape2 \<Longrightarrow>
      unat cnt \<le> unat n \<and> unat n \<le> shape_size shape2 \<and> length r2 = length result2 + (unat n - unat cnt)"
proof (induction t ns shape result s and t ns2 shape2 cnt result2 s2 arbitrary: r s' and n r2 s2'
    rule: const_list_const_items.induct)
  case (1 t node shape result s)
  show ?case
  proof (cases "shape \<noteq> [] \<and> prod_list shape \<noteq> 0")
    case True
    then obtain n r1 where st: "const_items t node shape 0 result s = Inr (n, r1, s')"
      "r = r1 @ replicate (fill n (prod_list shape)) 0"
      using "1.prems"(1) by auto
    have ok: "lists_ok shape" using True "1.prems"(2) by (simp add: lists_ok_def)
    have u: "unat (prod_list shape) = shape_size shape" using shape_facts(1) [OF "1.prems"(2)] True by blast
    have c: "unat n \<le> shape_size shape \<and> length r1 = length result + unat n"
      using "1.IH" [OF _ _ st(1) ok] True by simp
    then have "fill n (prod_list shape) = shape_size shape - unat n"
      using u by (subst fill_size) (simp_all add: word_le_nat_alt)
    then show ?thesis using c by (simp add: st(2))
  next
    case False
    then have e: "shape \<noteq> []" "prod_list shape = 0" "r = result" using "1.prems"(1) by (auto split: if_splits)
    have "shape_size shape = unat (prod_list shape)" using unat_prod_list "1.prems"(2) by (simp add: shape_size_def)
    then show ?thesis using e by simp
  qed
next
  case (2 t shape cnt result s)
  then show ?case by simp
next
  case (3 t e cs shape cnt result s)
  obtain c s1 x where st: "check (cnt + 1 \<le> prod_list shape) InvalidInitList = Inr ()" "visit_const_exp e s = Inr (c, s1)"
    "const_bits t c = Inr x" "const_items t cs shape (cnt + 1) (result @ [x]) s1 = Inr (n, r2, s2')"
    using "3.prems"(1) by auto
  have sh: "shape_size shape < 2 ^ 63" "prod_list shape \<noteq> 0" "shape \<noteq> []" using "3.prems"(2) by (simp_all add: lists_ok_def)
  note f = shape_facts [OF sh]
  have "0 < shape_size shape" using f(2,4) by simp
  then have one: "unat (1 :: mem_size) \<le> shape_size shape" by simp
  note k = count_step [OF sh(1) "3.prems"(3) f(1) one check_Inr [THEN iffD1, OF st(1)]]
  have le: "unat (cnt + 1) \<le> shape_size shape" using k by simp
  show ?case using "3.IH" [OF st(1,2) refl st(3,4) "3.prems"(2) le] k(1) by simp arith
next
  case (4 t ch cs shape cnt result s)
  let ?c = "prod_list (tl shape)"
  obtain r1 s1 where st: "check (cnt mod ?c = 0 \<and> cnt + ?c \<le> prod_list shape) InvalidInitList = Inr ()"
    "const_list t ch (tl shape) result s = Inr (r1, s1)" "const_items t cs shape (cnt + ?c) r1 s1 = Inr (n, r2, s2')"
    using "4.prems"(1) by (auto simp: Let_def)
  have sh: "shape_size shape < 2 ^ 63" "prod_list shape \<noteq> 0" "shape \<noteq> []" using "4.prems"(2) by (simp_all add: lists_ok_def)
  note f = shape_facts [OF sh]
  have le: "unat ?c \<le> shape_size shape" using f(2,3) by simp
  have g: "cnt + ?c \<le> prod_list shape" using st(1) by simp
  note k = count_step [OF sh(1) "4.prems"(3) f(1) le g]
  have l: "length r1 = length result + unat ?c"
    using "4.IH"(1) [OF refl st(1,2)] f(2,3) sh(1) by simp
  have le2: "unat (cnt + ?c) \<le> shape_size shape" using k by simp
  show ?case using "4.IH"(2) [OF refl st(1,2) refl st(3) "4.prems"(2) le2] k(1) l by simp
qed

lemma var_lengths:
  shows "var_list t ns shape result s = Inr (r, s') \<Longrightarrow> shape_size shape < 2 ^ 63 \<Longrightarrow>
      length r = length result + shape_size shape"
    and "var_items t ns2 shape2 cnt result2 s2 = Inr (n, r2, s2') \<Longrightarrow> lists_ok shape2 \<Longrightarrow>
      unat cnt \<le> shape_size shape2 \<Longrightarrow>
      unat cnt \<le> unat n \<and> unat n \<le> shape_size shape2 \<and> length r2 = length result2 + (unat n - unat cnt)"
proof (induction t ns shape result s and t ns2 shape2 cnt result2 s2 arbitrary: r s' and n r2 s2'
    rule: var_list_var_items.induct)
  case (1 t node shape result s)
  show ?case
  proof (cases "shape \<noteq> [] \<and> prod_list shape \<noteq> 0")
    case True
    then obtain n r1 where st: "var_items t node shape 0 result s = Inr (n, r1, s')"
      "r = r1 @ replicate (fill n (prod_list shape)) None"
      using "1.prems"(1) by auto
    have ok: "lists_ok shape" using True "1.prems"(2) by (simp add: lists_ok_def)
    have u: "unat (prod_list shape) = shape_size shape" using shape_facts(1) [OF "1.prems"(2)] True by blast
    have c: "unat n \<le> shape_size shape \<and> length r1 = length result + unat n"
      using "1.IH" [OF _ _ st(1) ok] True by simp
    then have "fill n (prod_list shape) = shape_size shape - unat n"
      using u by (subst fill_size) (simp_all add: word_le_nat_alt)
    then show ?thesis using c by (simp add: st(2))
  next
    case False
    then have e: "shape \<noteq> []" "prod_list shape = 0" "r = result" using "1.prems"(1) by (auto split: if_splits)
    have "shape_size shape = unat (prod_list shape)" using unat_prod_list "1.prems"(2) by (simp add: shape_size_def)
    then show ?thesis using e by simp
  qed
next
  case (2 t shape cnt result s)
  then show ?case by simp
next
  case (3 t e cs shape cnt result s)
  obtain v s1 x s3 y s4 where st: "check (cnt + 1 \<le> prod_list shape) InvalidInitList = Inr ()" "visit_exp e s = Inr (v, s1)"
    "to_irvalue v s1 = Inr (x, s3)" "get_value_as t x s3 = Inr (y, s4)"
    "var_items t cs shape (cnt + 1) (result @ [Some y]) s4 = Inr (n, r2, s2')"
    using "3.prems"(1) by auto
  have sh: "shape_size shape < 2 ^ 63" "prod_list shape \<noteq> 0" "shape \<noteq> []" using "3.prems"(2) by (simp_all add: lists_ok_def)
  note f = shape_facts [OF sh]
  have "0 < shape_size shape" using f(2,4) by simp
  then have one: "unat (1 :: mem_size) \<le> shape_size shape" by simp
  note k = count_step [OF sh(1) "3.prems"(3) f(1) one check_Inr [THEN iffD1, OF st(1)]]
  have le: "unat (cnt + 1) \<le> shape_size shape" using k by simp
  show ?case using "3.IH" [OF st(1,2) refl st(3) refl st(4) refl st(5) "3.prems"(2) le] k(1) by simp arith
next
  case (4 t ch cs shape cnt result s)
  let ?c = "prod_list (tl shape)"
  obtain r1 s1 where st: "check (cnt + ?c \<le> prod_list shape) InvalidInitList = Inr ()"
    "var_list t ch (tl shape) result s = Inr (r1, s1)"
    "(if cnt mod ?c \<noteq> 0 then var_items t cs shape (cnt + 1) (take (length r1 - (unat ?c - 1)) r1) s1
      else var_items t cs shape (cnt + ?c) r1 s1) = Inr (n, r2, s2')"
    using "4.prems"(1) by (auto simp: Let_def)
  have sh: "shape_size shape < 2 ^ 63" "prod_list shape \<noteq> 0" "shape \<noteq> []" using "4.prems"(2) by (simp_all add: lists_ok_def)
  note f = shape_facts [OF sh]
  have le: "unat ?c \<le> shape_size shape" using f(2,3) by simp
  have g: "cnt + ?c \<le> prod_list shape" using st(1) by simp
  note k = count_step [OF sh(1) "4.prems"(3) f(1) le g]
  have l: "length r1 = length result + unat ?c"
    using "4.IH"(1) [OF refl st(1,2)] f(2,3) sh(1) by simp
  have c: "0 < unat ?c" using f(3,4) by simp
  show ?case
  proof (cases "cnt mod ?c \<noteq> 0")
    case True
    have k1: "unat (cnt + 1) = unat cnt + 1" using unat_add_below [of cnt 1] k(2) c sh(1) by simp
    have le1: "unat (cnt + 1) \<le> shape_size shape" using k(2) k1 c by simp
    let ?r = "take (length r1 - (unat ?c - 1)) r1"
    have r: "length ?r = length result + 1" using l c by simp
    have i: "var_items t cs shape (cnt + 1) ?r s1 = Inr (n, r2, s2')" using st(3) True by simp
    show ?thesis using "4.IH"(2) [OF refl st(1,2) refl True i "4.prems"(2) le1] k1 r by simp arith
  next
    case False
    have le2: "unat (cnt + ?c) \<le> shape_size shape" using k by simp
    have i: "var_items t cs shape (cnt + ?c) r1 s1 = Inr (n, r2, s2')" using st(3) False by simp
    show ?thesis using "4.IH"(3) [OF refl st(1,2) refl False i "4.prems"(2) le2] k(1) l by simp
  qed
qed

lemma parse_init_lengths:
  shows "parse_const_init t root shape s = Inr (xs, s') \<Longrightarrow> shape_size shape < 2 ^ 63 \<Longrightarrow> length xs = shape_size shape"
    and "parse_var_init t root2 shape s = Inr (ys, s') \<Longrightarrow> shape_size shape < 2 ^ 63 \<Longrightarrow> length ys = shape_size shape"
proof -
  assume a: "parse_const_init t root shape s = Inr (xs, s')" "shape_size shape < 2 ^ 63"
  show "length xs = shape_size shape"
  proof (cases root)
    case (ScalarConstInitVal e)
    then show ?thesis using a(1) by (auto simp: parse_const_init_def shape_size_def)
  next
    case (ListConstInitVal ch)
    then have "const_list t ch shape [] s = Inr (xs, s')" using a(1) by (simp add: parse_const_init_def del: const_list.simps)
    then show ?thesis using const_lengths(1) a(2) by fastforce
  qed
next
  assume a: "parse_var_init t root2 shape s = Inr (ys, s')" "shape_size shape < 2 ^ 63"
  show "length ys = shape_size shape"
  proof (cases root2)
    case (ScalarInitVal e)
    then show ?thesis using a(1) by (auto simp: parse_var_init_def shape_size_def)
  next
    case (ListInitval ch)
    then have "var_list t ch shape [] s = Inr (ys, s')" using a(1) by (simp add: parse_var_init_def del: var_list.simps)
    then show ?thesis using var_lengths(1) a(2) by fastforce
  qed
qed

end
