(* ===== verification/SchedFacts.thy ===== *)
theory SchedFacts
  imports IRExecFacts
begin

text \<open>
  The threads of the interpreter take turns: \<open>schedule\<close> of \<open>IR::exec\<close> does not pass over a thread that can
  run for longer than there are threads before it.
\<close>

text \<open>A thread that does not wait, or waits for one that has finished.\<close>

definition can_run :: "int set \<Rightarrow> thread_ctx \<Rightarrow> bool" where
  "can_run fin t = (\<not> th_waiting t \<or> th_waiting_id t \<in> fin)"

lemma pick_thread_first:
  assumes "pick_thread fin ts skipped = Some (u, rest)"
  shows "\<exists>j<length ts. u = ts ! j \<and> (\<forall>m<j. \<not> can_run fin (ts ! m)) \<and> rest = drop (Suc j) ts @ skipped @ take j ts"
  using assms
proof (induction fin ts skipped rule: pick_thread.induct)
  case (2 fin t ts skipped)
  show ?case
  proof (cases "can_run fin t")
    case True
    then show ?thesis using "2.prems" by (auto simp: can_run_def split: if_splits)
  next
    case False
    then have w: "th_waiting t \<and> th_waiting_id t \<notin> fin" by (simp add: can_run_def)
    then obtain j where j: "j < length ts" "u = ts ! j" "\<forall>m<j. \<not> can_run fin (ts ! m)"
      "rest = drop (Suc j) ts @ (skipped @ [t]) @ take j ts"
      using "2.IH" "2.prems" by auto
    have "\<not> can_run fin ((t # ts) ! m)" if "m < Suc j" for m using that j(3) False by (cases m) auto
    then show ?thesis using j by (intro exI [of _ "Suc j"]) simp
  qed
qed simp

lemma can_run_mono: "can_run A t \<Longrightarrow> A \<subseteq> B \<Longrightarrow> can_run B t"
  by (auto simp: can_run_def)

lemma schedule_picks:
  assumes "schedule fr st = Done (fr', st')"
  shows "\<exists>j<length (ex_threads st). (\<forall>m<j. \<not> can_run (ex_finished st) (ex_threads st ! m)) \<and>
    ex_cur st' = (ex_threads st ! j)\<lparr>th_waiting := False, th_write_reg := None\<rparr> \<and>
    ex_threads st' = drop (Suc j) (ex_threads st) @ take j (ex_threads st) \<and> ex_finished st' = ex_finished st"
proof -
  obtain u rest where p: "pick_thread (ex_finished st) (ex_threads st) [] = Some (u, rest)"
    "st' = st\<lparr>ex_cur := u\<lparr>th_waiting := False, th_write_reg := None\<rparr>, ex_threads := rest\<rparr>"
    using assms by (auto simp: schedule_def Let_def split: if_splits option.splits)
  from pick_thread_first [OF p(1)] show ?thesis by (auto simp: p(2))
qed

text \<open>Between two switches threads only join at the end, and finished threads stay finished.\<close>

lemma schedule_reaches:
  assumes "\<And>n. n \<le> i \<Longrightarrow> \<exists>fr fr'. schedule fr (f n) = Done (fr', g n)"
    and "\<And>n. n < i \<Longrightarrow> \<exists>new. ex_threads (f (Suc n)) = ex_threads (g n) @ new"
    and "\<And>n. n < i \<Longrightarrow> ex_finished (g n) \<subseteq> ex_finished (f (Suc n))"
    and "i < length (ex_threads (f 0))" and "ex_threads (f 0) ! i = t" and "can_run (ex_finished (f 0)) t"
  shows "\<exists>n\<le>i. ex_cur (g n) = t\<lparr>th_waiting := False, th_write_reg := None\<rparr>"
  using assms
proof (induction i arbitrary: f g rule: less_induct)
  case (less i)
  obtain fr fr' where "schedule fr (f 0) = Done (fr', g 0)" using less.prems(1) by blast
  from schedule_picks [OF this] obtain j where j: "j < length (ex_threads (f 0))"
    "\<forall>m<j. \<not> can_run (ex_finished (f 0)) (ex_threads (f 0) ! m)"
    "ex_cur (g 0) = (ex_threads (f 0) ! j)\<lparr>th_waiting := False, th_write_reg := None\<rparr>"
    "ex_threads (g 0) = drop (Suc j) (ex_threads (f 0)) @ take j (ex_threads (f 0))" "ex_finished (g 0) = ex_finished (f 0)"
    by blast
  have "\<not> i < j" using j(2) less.prems(5,6) by auto
  show ?case
  proof (cases "j = i")
    case True
    then show ?thesis using j(3) less.prems(5) by blast
  next
    case False
    then have ji: "j < i" using \<open>\<not> i < j\<close> by simp
    let ?i = "i - Suc j"
    obtain new where new: "ex_threads (f (Suc 0)) = ex_threads (g 0) @ new" using less.prems(2) [of 0] ji by auto
    have len: "?i < length (drop (Suc j) (ex_threads (f 0)))" using ji less.prems(4) by simp
    have "ex_threads (f (Suc 0)) ! ?i = drop (Suc j) (ex_threads (f 0)) ! ?i" using len by (simp add: new j(4) nth_append)
    then have at: "ex_threads (f (Suc 0)) ! ?i = t" using ji less.prems(4,5) by simp
    have "\<exists>n\<le>?i. ex_cur (g (Suc n)) = t\<lparr>th_waiting := False, th_write_reg := None\<rparr>"
    proof (rule less.IH [of ?i "\<lambda>n. f (Suc n)" "\<lambda>n. g (Suc n)"])
      show "?i < i" using ji by simp
      show "\<exists>fr fr'. schedule fr (f (Suc n)) = Done (fr', g (Suc n))" if "n \<le> ?i" for n
        using less.prems(1) [of "Suc n"] that ji by simp
      show "\<exists>new. ex_threads (f (Suc (Suc n))) = ex_threads (g (Suc n)) @ new" if "n < ?i" for n
        using less.prems(2) [of "Suc n"] that ji by simp
      show "ex_finished (g (Suc n)) \<subseteq> ex_finished (f (Suc (Suc n)))" if "n < ?i" for n
        using less.prems(3) [of "Suc n"] that ji by simp
      show "?i < length (ex_threads (f (Suc 0)))" using len by (simp add: new j(4))
      show "ex_threads (f (Suc 0)) ! ?i = t" using at by simp
      show "can_run (ex_finished (f (Suc 0))) t"
        using can_run_mono [OF less.prems(6)] less.prems(3) [of 0] ji j(5) by simp
    qed
    then obtain n where n: "n \<le> ?i" "ex_cur (g (Suc n)) = t\<lparr>th_waiting := False, th_write_reg := None\<rparr>" by blast
    have "Suc n \<le> i" using n(1) ji by simp
    then show ?thesis using n(2) by blast
  qed
qed

end
