(* ===== verification/Spec2Isabelle.thy ===== *)
theory Spec2Isabelle
  imports Config UnionFind IRExecFacts MergeFacts Spill ArmEmpty SelectBlock RemovePhi Dom FrontTop InitFacts SchedFacts
begin

text \<open>
  A verification development of the Helesta compiler: SysY source to ARM assembly, with an IR
  interpreter used to check the optimisations.

  \<^bold>\<open>The program.\<close> \<open>main.cpp\<close> parses the command line (\<open>common\<close>), the front end (\<open>ast\<close>, over a parser
  generated by ANTLR) builds an \<open>IR::CompileUnit\<close> (\<open>ir/ir.hpp\<close>), the passes of \<open>ir/opt\<close> transform it,
  \<open>IR::exec\<close> (\<open>ir/ir.cpp\<close>) interprets it, and the back end (\<open>arm\<close>) selects instructions, rewrites
  them (\<open>arm/opt\<close>), allocates registers, lays out the frame and prints assembly.

  \<^bold>\<open>Theories and what they model.\<close>
  \<^item> \<open>Prelude\<close>: bounds of signed words, words and their integers, lists and maps; the locales of the
    development's interfaces.
  \<^item> \<open>Common\<close>, \<open>Config\<close>, \<open>UnionFind\<close> (\<open>common/common.hpp\<close>, \<open>common.cpp\<close>): names and their mangling, the
    configuration and the command line, the union-find with path compression.
  \<^item> \<open>Float32\<close>, \<open>Scalar\<close> (\<open>ir/scalar.hpp\<close>, the operator classes of \<open>ir/ir.hpp\<close>): binary32 arithmetic,
    both evaluations of every operator, and their algebraic predicates.
  \<^item> \<open>IR\<close> (\<open>ir/ir.hpp\<close>, \<open>ir/ir.cpp\<close>): memory objects, scopes, instructions, blocks, renaming, data layout.
  \<^item> \<open>IRExec\<close>, \<open>IRExecFacts\<close> (\<open>IR::exec\<close>): the interpreter with its threads, calls and library functions.
    The C++ recursion is bounded by fuel; more fuel never changes a result.
  \<^item> \<open>ArchInfo\<close>, \<open>ArmInst\<close> (\<open>arm/archinfo.hpp\<close>, \<open>arm/inst.hpp\<close>, \<open>arm/inst.cpp\<close>): registers, immediates,
    instructions with the registers they declare, and the helpers that emit sequences.
  \<^item> \<open>ArmSem\<close>, \<open>ArmDefUse\<close>: an operational semantics of those instructions (not in the source: it is
    the documented behaviour of the machine), and that the declared registers describe it.
  \<^item> \<open>DivOpt\<close>, \<open>WordArith\<close>, \<open>MergeInstr\<close>, \<open>MergeFacts\<close> (\<open>arm/opt/merge_instr.cpp\<close>): strength reduction.
  \<^item> \<open>AsmPrint\<close>, \<open>Frame\<close> (\<open>arm/inst.cpp\<close>, \<open>arm/block.cpp\<close>, \<open>arm/func.cpp\<close>, \<open>arm/program.cpp\<close>): assembly
    text, stack frames, prologue and epilogue, global data.
  \<^item> \<open>ArmFlow\<close>, \<open>Liveness\<close>, \<open>Dce\<close> (\<open>arm/block.hpp\<close>, \<open>arm/program.cpp\<close>, \<open>arm/opt/dce.cpp\<close>): the blocks of
    a function and how control passes between them, live registers, removal of dead instructions.
  \<^item> \<open>ArmOpt\<close>, \<open>ArmBranch\<close>, \<open>ArmEmpty\<close> (\<open>arm/opt\<close>, \<open>arm/func.cpp\<close>): the passes that rewrite one block, and the
    clean-up of branches and empty blocks.
  \<^item> \<open>Coloring\<close>, \<open>ColorFacts\<close>, \<open>GraphFacts\<close>, \<open>RegAlloc\<close>, \<open>Spill\<close> (\<open>arm/simple_coloring_alloc.hpp\<close>,
    \<open>arm/func.cpp\<close>, \<open>arm/program.cpp\<close>): the interference graph, the colouring, the renaming, spilling.
  \<^item> \<open>Select\<close>, \<open>SelectFacts\<close>, \<open>SelectBlock\<close> (\<open>arm/block.cpp\<close>, \<open>arm/func.cpp\<close>): instruction selection, and that a
    selected block does what the interpreter does.
  \<^item> \<open>Blocks\<close>, \<open>PhiCopies\<close>, \<open>RemovePhi\<close> (\<open>ir/ir.hpp\<close>, \<open>ir/opt/bb_ops.cpp\<close>): editing of blocks, and the removal
    of phi functions. \<open>Dom\<close> (\<open>ir/opt/dom.cpp\<close>): dominators and their frontiers.
  \<^item> \<open>SymTab\<close>, \<open>Syntax\<close>, \<open>Visitor\<close>, \<open>VisitStmt\<close> (\<open>ast\<close>): the front end. \<open>Syntax\<close> has the syntax trees,
    one constructor per alternative of the grammar; \<open>Visitor\<close> the values of expressions, conditions
    and their jump lists; \<open>VisitStmt\<close> initialisers, declarations, statements, functions and the unit.
  \<^item> \<open>FrontFacts\<close>, \<open>FrontWf\<close>, \<open>FrontExp\<close>, \<open>FrontVisit\<close>, \<open>FrontDecl\<close>, \<open>FrontStmt\<close>, \<open>FrontUnit\<close>, \<open>FrontTop\<close>: the
    invariant of the visitor's state (open branches are those of the jump lists at hand, registers are
    defined once, every block but the current one has ended), kept by every visit, up to the
    well-formedness of the unit. \<open>InitFacts\<close>: initialisers and indices of arrays. \<open>SchedFacts\<close>: threads.

  \<^bold>\<open>Conventions.\<close> A 32-bit integer is a \<open>32 word\<close>; C++ signed overflow wraps, as it does on the
  machine. An assertion or exception is \<open>None\<close> (or \<open>Inl\<close> of an error where the code distinguishes
  them). Pointers to registers and blocks are numbers, or keys in the front end.

  \<^bold>\<open>Bounds and fuel.\<close> \<open>IR::exec\<close> need not return, so the interpreter takes fuel; a result does not
  change with more of it. A loop that need not end is a \<open>partial_function\<close> into options, so \<open>None\<close> is
  also not returning; that the worklist of liveness, the clean-up of branches, the simplification of the
  graph, the dominators and the copies of a phi function end is proved as the existence of a result. The
  loop of the allocator over its rounds is the exception: every round is proved correct, that there is a
  round without a spill is not, and the code does not promise it. Facts on array
  sizes assume fewer than \<open>2 ^ 63\<close> or \<open>2 ^ 64\<close> elements, the range of \<open>MemSize\<close>.

  \<^bold>\<open>Not modelled.\<close> The generated parser (a source program is a syntax tree here), the allocator of
  \<open>irc_coloring_alloc.hpp\<close>, the optimisations of \<open>ir/opt\<close> other than the above with their loop and call
  analyses, the text of the IR, logging, the command loop of \<open>main.cpp\<close>, and the fixed assembly text of
  the run-time system.
\<close>

section \<open>Strength reduction in the back end\<close>

text \<open>A small machine to run the witnesses on.\<close>

definition demo_env :: arm_env where
  "demo_env = \<lparr>ae_pos = (\<lambda>_. 0), ae_sym = (\<lambda>_. 0x12345678), ae_call = (\<lambda>_ _ _ s. Some s)\<rparr>"

definition demo_state :: arm_state where
  "demo_state =
     \<lparr>a_reg = (\<lambda>r. if r = AReg IntT 41 then - 100 else if r = AReg IntT 42 then 7 else 0),
      a_mem = (\<lambda>_. 0), a_flags = Flags False False False False, a_fpscr = Flags False False False False,
      a_base = 0, a_simd = (\<lambda>_ _. 0), a_ctl = Fall\<rparr>"






text \<open>C2: the reciprocal sequence divides. For a divisor above 1 that is no power of two, the
  instructions \<open>merge_instr\<close> emits leave the truncated quotient in the destination and change
  nothing else but \<open>r4\<close> and \<open>r5\<close>, for every value of the dividend.\<close>

theorem division_by_constant:
  assumes "1 < sint v" and "\<not> is_pow2 v" and "a_ctl s = Fall"
    and "x \<notin> {lo_reg, hi_reg}" and "dst \<notin> {lo_reg, hi_reg}"
  shows "\<exists>t. arm_run env (div_seq dst x v) s = Some t
    \<and> a_reg t dst = word_of_int (c_quot (sint (a_reg s x)) (sint v))
    \<and> (\<forall>r. r \<notin> {dst, lo_reg, hi_reg} \<longrightarrow> a_reg t r = a_reg s r)"
proof -
  obtain t where t: "arm_run env (div_seq dst x v) s = Some t"
    "same_but {lo_reg, hi_reg} (set_reg dst (sdiv32 (a_reg s x) v) s) t"
    using div_seq_run [OF assms(1-3), of x dst env] assms(4,5) by auto
  have "v \<noteq> 0" using assms(1) by auto
  then show ?thesis using t same_but_fields(6) [OF t(2)] assms(5) by (auto simp: sdiv32_def)
qed

theorem division_by_constant_witness:
  "\<exists>t. arm_run demo_env (div_seq (AReg IntT 43) (AReg IntT 41) 7) demo_state = Some t
    \<and> a_reg t (AReg IntT 43) = - 14"
proof -
  have "\<not> is_pow2 7" by (simp add: is_pow2_def)
  then show ?thesis
    using division_by_constant [of 7 demo_state "AReg IntT 41" "AReg IntT 43" demo_env]
    by (auto simp: demo_state_def lo_reg_def hi_reg_def c_quot_def)
qed

text \<open>C3: \<open>div_opt\<close> meets its own assertion and the exactness condition of the method: the
  multiplier fits 32 bits, the shift is legal, and the multiplier exceeds the reciprocal by
  less than the precision of a 31-bit dividend allows.\<close>

theorem div_opt_correct:
  assumes "1 < sint v" and "\<forall>k. sint v \<noteq> 2 ^ k"
  shows "case div_opt v of (B, s) \<Rightarrow> 0 \<le> B \<and> B < 2 ^ 32 \<and> s < 32
    \<and> 2 ^ (32 + s) < B * sint v \<and> (B * sint v - 2 ^ (32 + s)) * 2 ^ 31 \<le> 2 ^ (32 + s)"
  using div_opt_magic [OF assms] by (auto simp: good_magic_def)

theorem div_opt_correct_witness:
  "case div_opt 7 of (B, s) \<Rightarrow> 0 \<le> B \<and> B < 2 ^ 32 \<and> s < 32
    \<and> 2 ^ (32 + s) < B * 7 \<and> (B * 7 - 2 ^ (32 + s)) * 2 ^ 31 \<le> 2 ^ (32 + s)"
proof -
  have "\<not> is_pow2 7" by (simp add: is_pow2_def)
  then show ?thesis using div_opt_correct [of 7] not_pow2 [of 7] by simp
qed

text \<open>C4: remainder by a constant: with the constant in the right operand the emitted
  instructions leave what \<open>x - x / v * v\<close> gives, for every divisor the pass rewrites.\<close>

theorem remainder_by_constant:
  assumes "merge_mod dst lhs rhs v = Some is" and "a_ctl s = Fall" and "a_reg s rhs = v"
    and "dst \<noteq> lhs" and "dst \<noteq> rhs" and "{dst, lhs, rhs} \<inter> scratch = {}"
  shows "\<exists>t. arm_run env is s = Some t \<and> a_reg t dst = word_of_int (c_rem (sint (a_reg s lhs)) (sint v))"
proof -
  obtain t where t: "arm_run env is s = Some t"
    "same_but scratch (set_reg dst (a_reg s lhs - sdiv32 (a_reg s lhs) v * v) s) t"
    using merge_mod_run [OF assms(1,2,4,5,3)] assms(6) by auto
  have "v \<noteq> 0" using assms(1) by (auto simp: merge_mod_def split: if_splits)
  moreover have "a_reg t dst = a_reg s lhs - sdiv32 (a_reg s lhs) v * v"
    using same_but_fields(6) [OF t(2), of dst] assms(6) by simp
  ultimately show ?thesis
    using t(1) by (auto simp: sdiv32_def c_rem_def)
qed

theorem remainder_by_constant_witness:
  "\<exists>is t. merge_mod (AReg IntT 43) (AReg IntT 41) (AReg IntT 42) 7 = Some is
     \<and> arm_run demo_env is demo_state = Some t \<and> a_reg t (AReg IntT 43) = - 2"
proof -
  have np: "\<not> is_pow2 7" by (simp add: is_pow2_def)
  let ?is = "div_seq (AReg IntT 43) (AReg IntT 41) 7
    @ always [MLInst Mls (AReg IntT 43) (AReg IntT 43) (AReg IntT 42) (AReg IntT 41)]"
  have m: "merge_mod (AReg IntT 43) (AReg IntT 41) (AReg IntT 42) 7 = Some ?is"
    using np by (simp add: merge_mod_def)
  show ?thesis
    using remainder_by_constant [OF m, of demo_state demo_env] m
    by (auto simp: demo_state_def scratch_def lo_reg_def hi_reg_def c_rem_def c_quot_def)
qed

text \<open>C5: multiplication by a constant: whenever the pass rewrites it into shifts and one
  addition or subtraction, the result is the wrapped product.\<close>

theorem multiplication_by_constant:
  assumes "merge_mul dst lhs v = Some is" and "a_ctl s = Fall"
  shows "arm_run env is s = Some (set_reg dst (a_reg s lhs * v) s)"
  using assms by (rule merge_mul_run)

theorem multiplication_by_constant_witness:
  "arm_run demo_env (always [RegRegInst RRevSub (AReg IntT 43) (AReg IntT 41) (AReg IntT 41) (Shift LSL 3)])
     demo_state = Some (set_reg (AReg IntT 43) (- 700) demo_state)"
proof -
  have "merge_mul (AReg IntT 43) (AReg IntT 41) 7 =
      Some (always [RegRegInst RRevSub (AReg IntT 43) (AReg IntT 41) (AReg IntT 41) (Shift LSL 3)])"
  proof -
    have c: "ctz 7 = 0" "ctz 8 = 3" "popcount 6 = 2" "popcount 8 = 1" by code_simp+
    show ?thesis by (simp add: merge_mul_def Let_def word_sle_eq c)
  qed
  from multiplication_by_constant [OF this, of demo_state demo_env] show ?thesis
    by (simp add: demo_state_def)
qed

section \<open>Liveness, dead instructions and clean-up\<close>

text \<open>C6: \<open>calc_live\<close> ends, with a solution of the liveness equations of the function, and with
  the least one: its sets are below any sets closed under the equations.\<close>

theorem live_least_solution:
  assumes "edges_ok bs"
  shows "\<exists>lin lout. calc_live bs = Some (lin, lout)
    \<and> live_solution (use_of bs) (def_set_of bs) (preds_of bs) lin lout
    \<and> (\<forall>Lin Lout b. live_closed (use_of bs) (def_set_of bs) (preds_of bs) Lin Lout \<longrightarrow>
         lin b \<subseteq> Lin b \<and> lout b \<subseteq> Lout b)"
  using calc_live_result [OF assms] live_ok_final by blast

text \<open>A function of two blocks; the first constant is never used.\<close>

definition demo_flow :: "flow_block list" where
  "demo_flow =
     [\<lparr>fb_id = 0, fb_insts = [Inst Always (MoveImm Mov (AReg IntT 40) 5), Inst Always (MoveImm Mov (AReg IntT 41) 7)],
       fb_in = []\<rparr>,
      \<lparr>fb_id = 1, fb_insts = [Inst Always (MoveReg (AReg IntT 0) (AReg IntT 41)), Inst Always (Return IntT)],
       fb_in = [0]\<rparr>]"

theorem live_least_solution_witness:
  "\<exists>lin lout. calc_live demo_flow = Some (lin, lout)
    \<and> live_solution (use_of demo_flow) (def_set_of demo_flow) (preds_of demo_flow) lin lout"
  using live_least_solution [of demo_flow] by (auto simp: edges_ok_def demo_flow_def)




text \<open>C8: \<open>remove_trivial_inst\<close> changes nothing: a move to itself, or of a constant the register
  already holds, can go.\<close>

theorem remove_trivial_correct:
  assumes "ctx_all trivial_step (\<lambda>_. trivial_ok env) (\<lambda>_. None) is" and "arm_run env is s = Some s'"
  shows "arm_run env (remove_trivial is) s = Some s'"
proof -
  have "trivial_sim (\<lambda>_. None) s s" by (simp add: trivial_sim_def info_ok_def)
  from trivial.block_sim [OF assms(1) this assms(2)] show ?thesis
    by (auto simp: remove_trivial_def trivial_sim_def)
qed

theorem remove_trivial_correct_witness:
  "arm_run demo_env (remove_trivial [Inst Always (MoveImm Mov (AReg IntT 4) 5), Inst Eq (MoveImm Mov (AReg IntT 4) 5)])
     demo_state = Some (set_reg (AReg IntT 4) 5 demo_state)"
proof (rule remove_trivial_correct)
  show "ctx_all trivial_step (\<lambda>_. trivial_ok demo_env) (\<lambda>_. None)
      [Inst Always (MoveImm Mov (AReg IntT 4) 5), Inst Eq (MoveImm Mov (AReg IntT 4) 5)]"
    by (simp add: trivial_ok_def exact_def tracked_def is_allocable_def usage_allocable_def int_register_usage_def
        int_count_def)
qed (simp add: arm_step_def demo_state_def skip_op_def)



text \<open>C10: \<open>check_store_stack\<close>: every stack store it leaves is in range, and when it reports no
  change the blocks are the same.\<close>

theorem check_store_stack_ranges:
  "list_all (stores_in_range pos 0) (fst (check_store_stack pos n bs))
   \<and> (snd (snd (check_store_stack pos n bs)) \<longrightarrow> fst (check_store_stack pos n bs) = bs)"
  using check_store_range [of pos n bs] check_store_same [of pos n bs]
  by (auto simp: check_store_stack_def case_prod_beta)

theorem check_store_stack_ranges_witness:
  "snd (snd (check_store_stack (\<lambda>_. 0) 100 [[Inst Always (StoreStack (AReg IntT 4) 64 0)]]))
   \<and> fst (check_store_stack (\<lambda>_. 0) 100 [[Inst Always (StoreStack (AReg IntT 4) 64 0)]])
       = [[Inst Always (StoreStack (AReg IntT 4) 64 0)]]"
proof -
  have "snd (snd (check_store_stack (\<lambda>_. 0) 100 [[Inst Always (StoreStack (AReg IntT 4) 64 0)]]))"
    by (simp add: check_store_stack_def store_step_def load_store_offset_range_def maintain_sp_def)
  then show ?thesis using check_store_stack_ranges [of "\<lambda>_. 0" 100] by blast
qed




section \<open>Register allocation\<close>









section \<open>Machine instructions\<close>







text \<open>C17: \<open>is_legal_immediate\<close> accepts exactly the immediates of the instruction set: an 8-bit
  value rotated right by an even amount.\<close>

theorem legal_immediates: "is_legal_immediate u = (\<exists>i < 16. \<exists>b \<le> (0xFF :: w32). u = word_rotr (2 * i) b)"
  by (rule legal_immediate_iff)

text \<open>C18: \<open>sp_move\<close> splits any change of the stack pointer into changes that are legal
  immediates (up to sign), and that add up to it.\<close>

theorem sp_move_correct:
  "sp_total (sp_move v) = v \<and>
   list_all (\<lambda>i. case i_op i of ChangeSP c \<Rightarrow> is_legal_immediate c \<or> is_legal_immediate (- c) | _ \<Rightarrow> False) (sp_move v)"
  using sp_move_total sp_move_legal by (fastforce simp: list_all_iff)

text \<open>C19: after \<open>cmp\<close> each condition code means the signed comparison it is named after,
  \<open>logical_not\<close> gives the complementary condition, and \<open>reverse_operand\<close> the condition for
  exchanged operands.\<close>

theorem conditions_after_cmp:
  "cond_holds c (flags_sub a b) =
     (case c of Always \<Rightarrow> True | Eq \<Rightarrow> a = b | Ne \<Rightarrow> a \<noteq> b | Ge \<Rightarrow> b <=s a | Lt \<Rightarrow> a <s b
              | Gt \<Rightarrow> b <s a | Le \<Rightarrow> a <=s b)
   \<and> cond_holds (reverse_operand c) (flags_sub b a) = cond_holds c (flags_sub a b)
   \<and> (case logical_not c of None \<Rightarrow> c = Always
      | Some d \<Rightarrow> cond_holds d (flags_sub a b) = (\<not> cond_holds c (flags_sub a b)))"
  by (cases c) (auto simp: cond_after_cmp simp del: cond_holds.simps(2-))

section \<open>Assembly text and frames\<close>

text \<open>the text \<open>load_imm_asm\<close> writes is the text of the instructions of \<open>load_imm\<close> under
  the same condition.\<close>

theorem load_imm_asm_same:
  assumes "int_reg dst"
  shows "gen_insts ac sp (map (set_cond c) (load_imm dst v)) = Some (load_imm_asm dst v c, sp)"
  using assms by (rule load_imm_asm_text)

theorem load_imm_asm_same_witness:
  "gen_insts \<lparr>ac_label = (\<lambda>_. []), ac_pos = (\<lambda>_. 0), ac_epilogue = ([], False)\<rparr> 0
     (map (set_cond Eq) (load_imm (AReg IntT 4) 70000))
   = Some (load_imm_asm (AReg IntT 4) 70000 Eq, 0)"
  by (rule load_imm_asm_same) (simp add: int_reg_def)

text \<open>C20: the text \<open>sp_move_asm\<close> writes in prologue and epilogue is the text of the
  instructions of \<open>sp_move\<close>, which leave the printer's stack pointer distance changed by
  exactly that amount, for moves down by less than 16 MB.\<close>

theorem sp_move_asm_same:
  assumes "- (2 ^ 24) < sint v"
  shows "gen_insts ac sp (sp_move v) = Some (sp_move_asm v, sp + v)"
  using assms by (rule sp_move_asm_text)

theorem sp_move_asm_same_witness:
  "gen_insts \<lparr>ac_label = (\<lambda>_. []), ac_pos = (\<lambda>_. 0), ac_epilogue = ([], False)\<rparr> 0 (sp_move (- 1028))
   = Some (sp_move_asm (- 1028), - 1028)"
  using sp_move_asm_same [of "- 1028"] by simp



section \<open>The interpreter of the intermediate representation\<close>

text \<open>A program to run: \<open>main\<close> writes 7 into a global and returns what it reads back.\<close>

definition demo_object :: mem_object where
  "demo_object = \<lparr>mo_key = 0, mo_name = ''global::x'', mo_size = 4, mo_offset = 0, mo_global = True, mo_arg = False,
     mo_init = NoData, mo_type = IntT, mo_is_const = False, mo_is_volatile = False, mo_dims = []\<rparr>"

definition demo_main :: nfunc where
  "demo_main = \<lparr>nf_name = ''main'', nf_ignore_return_value = False,
     nf_scope = \<lparr>ms_name = ''main'', ms_global = False, ms_objects = [], ms_array_args = Map.empty,
       ms_array_arg_id = Map.empty, ms_size = 0\<rparr>,
     nf_entry = 0,
     nf_bbs = [\<lparr>bb_key = 0, bb_name = ''BB1'',
       bb_instrs = [LoadAddr 1 0, LoadConstI 2 7, StoreInstr 1 2 0 None, LoadInstr 3 1 0 None, ReturnInstr IntT 3 False],
       bb_id = 0, bb_disable_unroll = False, bb_disable_parallel = False, bb_thread_id = 0\<rparr>],
     nf_max_reg_id = 3, nf_max_bb_id = 1, nf_reg_names = [], nf_arg_types = []\<rparr>"

definition demo_unit :: compile_unit where
  "demo_unit = \<lparr>cu_scope = \<lparr>ms_name = ''global'', ms_global = True, ms_objects = [demo_object],
       ms_array_args = Map.empty, ms_array_arg_id = Map.empty, ms_size = 4\<rparr>,
     cu_funcs = [demo_main], cu_lib_funcs = []\<rparr>"

definition demo_exec_env :: exec_env where
  "demo_exec_env = \<lparr>env_unit = demo_unit, env_enable_phi = False, env_junk = 0, env_junk_mem = (\<lambda>_. 0),
     env_junk_simd = (\<lambda>_ _. 0)\<rparr>"



text \<open>C23: a run writes memory only inside the address range the interpreter allocated, and never
  changes that range.\<close>

theorem exec_memory_bounds:
  assumes "exec_run n env f args st = Done (v, st')"
  shows "ex_limit st' = ex_limit st \<and> (\<forall>a. (0 \<le> a \<and> 4 * a < ex_limit st) \<or> ex_mem st' a = ex_mem st a)"
proof -
  have "ex_limit st' = ex_limit st \<and> (\<forall>a. \<not> (0 \<le> a \<and> 4 * a < ex_limit st) \<longrightarrow> ex_mem st' a = ex_mem st a)"
    using mem_inv.run_keeps [where a = "(ex_mem st, ex_limit st)" and st = st and n = n and f = f
        and args = args and env = env and v = v and st' = st'] assms by simp
  then show ?thesis by blast
qed

text \<open>C24: a call gives back the stack pointer it was entered with, whatever it calls itself.\<close>

theorem exec_restores_sp:
  assumes "exec_run n env f args st = Done (v, st')"
  shows "ex_sp st' = ex_sp st"
  using sp_inv.run_keeps [where a = "ex_sp st" and st = st and n = n and f = f and args = args] assms by auto

lemma demo_run:
  "\<exists>st'. exec_run 8 (demo_exec_env\<lparr>env_unit := compute_data_offset demo_unit\<rparr>) demo_main []
     (init_state (demo_exec_env\<lparr>env_unit := compute_data_offset demo_unit\<rparr>) []) = Done (7, st')"
proof -
  have "(case exec_run 8 (demo_exec_env\<lparr>env_unit := compute_data_offset demo_unit\<rparr>) demo_main []
     (init_state (demo_exec_env\<lparr>env_unit := compute_data_offset demo_unit\<rparr>) []) of
       Done (v, st') \<Rightarrow> v = 7 | _ \<Rightarrow> False)" by code_simp
  then show ?thesis by (auto split: outcome.splits)
qed

theorem exec_memory_bounds_witness:
  "\<exists>st'. exec_run 8 (demo_exec_env\<lparr>env_unit := compute_data_offset demo_unit\<rparr>) demo_main []
     (init_state (demo_exec_env\<lparr>env_unit := compute_data_offset demo_unit\<rparr>) []) = Done (7, st')
     \<and> ex_limit st' = 4 + 8 * 2 ^ 20"
proof -
  obtain st' where r: "exec_run 8 (demo_exec_env\<lparr>env_unit := compute_data_offset demo_unit\<rparr>) demo_main []
     (init_state (demo_exec_env\<lparr>env_unit := compute_data_offset demo_unit\<rparr>) []) = Done (7, st')"
    using demo_run by blast
  from exec_memory_bounds [OF this] have "ex_limit st' = 4 + 8 * 2 ^ 20"
    by (simp add: init_state_def Let_def demo_exec_env_def demo_unit_def compute_data_offset_def layout_scope_def demo_object_def)
  with r show ?thesis by blast
qed

theorem exec_restores_sp_witness:
  "\<exists>st'. exec_run 8 (demo_exec_env\<lparr>env_unit := compute_data_offset demo_unit\<rparr>) demo_main []
     (init_state (demo_exec_env\<lparr>env_unit := compute_data_offset demo_unit\<rparr>) []) = Done (7, st') \<and> ex_sp st' = 4"
proof -
  obtain st' where r: "exec_run 8 (demo_exec_env\<lparr>env_unit := compute_data_offset demo_unit\<rparr>) demo_main []
     (init_state (demo_exec_env\<lparr>env_unit := compute_data_offset demo_unit\<rparr>) []) = Done (7, st')"
    using demo_run by blast
  from exec_restores_sp [OF this] have "ex_sp st' = 4"
    by (simp add: init_state_def Let_def demo_exec_env_def demo_unit_def compute_data_offset_def layout_scope_def demo_object_def)
  with r show ?thesis by blast
qed

text \<open>C25: the scheduler starves no thread. Take any sequence of switches of \<open>IR::exec\<close>, \<open>f n\<close> before and \<open>g n\<close>
  after the \<open>n\<close>-th, between which threads only join the queue at its end (as \<open>schedule\<close> after a time slice, a
  taken lock or \<open>__create_threads\<close> puts them) and finished threads stay finished: a thread that can run and
  has \<open>i\<close> threads before it in the queue runs after at most \<open>i + 1\<close> switches.\<close>

theorem scheduling_fair:
  assumes "\<And>n. n \<le> i \<Longrightarrow> \<exists>fr fr'. schedule fr (f n) = Done (fr', g n)"
    and "\<And>n. n < i \<Longrightarrow> \<exists>new. ex_threads (f (Suc n)) = ex_threads (g n) @ new"
    and "\<And>n. n < i \<Longrightarrow> ex_finished (g n) \<subseteq> ex_finished (f (Suc n))"
    and "i < length (ex_threads (f 0))" and "ex_threads (f 0) ! i = t" and "can_run (ex_finished (f 0)) t"
  shows "\<exists>n\<le>i. ex_cur (g n) = t\<lparr>th_waiting := False, th_write_reg := None\<rparr>"
  using schedule_reaches [of i f g t] assms by blast

definition demo_thread :: "int \<Rightarrow> thread_ctx" where
  "demo_thread n =
     \<lparr>th_bb = Some 1, th_it = 0, th_id = n, th_waiting_id = -1, th_waiting = False, th_write_reg = None, th_simd = (\<lambda>_ _. 0)\<rparr>"

definition demo_turn :: "thread_ctx \<Rightarrow> thread_ctx list \<Rightarrow> exec_state" where
  "demo_turn t ts =
     \<lparr>ex_mem = (\<lambda>_. 0), ex_limit = 0, ex_sp = 0, ex_cur = t, ex_threads = ts, ex_finished = {}, ex_fork_cnt = 2, ex_in = [],
      ex_out = [], ex_eol = True, ex_instr_cnt = 0, ex_mem_r_cnt = 0, ex_mem_w_cnt = 0, ex_jump_cnt = 0, ex_par_cnt = 0\<rparr>"

definition demo_before :: "nat \<Rightarrow> exec_state" where
  "demo_before n =
     (if n = 0 then demo_turn (demo_thread 2) [demo_thread 0, demo_thread 1]
      else demo_turn (demo_thread 0) [demo_thread 1, demo_thread 0])"

definition demo_after :: "nat \<Rightarrow> exec_state" where
  "demo_after n = (if n = 0 then demo_turn (demo_thread 0) [demo_thread 1] else demo_turn (demo_thread 1) [demo_thread 0])"

theorem scheduling_fair_witness:
  "\<exists>n\<le>1. ex_cur (demo_after n) = (demo_thread 1)\<lparr>th_waiting := False, th_write_reg := None\<rparr>"
proof (rule scheduling_fair [of 1 demo_before demo_after])
  have "schedule fr (demo_before n) = Done (fr\<lparr>fr_time := 0\<rparr>, demo_after n)" for n fr
    by (simp add: schedule_def demo_before_def demo_after_def demo_turn_def demo_thread_def)
  then show "\<exists>fr fr'. schedule fr (demo_before n) = Done (fr', demo_after n)" for n by blast
qed (simp_all add: demo_before_def demo_after_def demo_turn_def can_run_def demo_thread_def)

text \<open>C26: the phis of a block read the registers as they are when the block is entered: the
  value set aside for each one is its operand for the predecessor, before any phi is written.\<close>

theorem phis_read_on_entry:
  assumes "enter_block env fr st = Some (fr', st')" and "env_enable_phi env"
    and "th_bb (ex_cur st) = Some k" and "find_bb (env_unit env) k = Some b"
    and "PhiInstr d us \<in> set (bb_instrs b)" and "(r, p) \<in> set us" and "fr_last_bb fr = Some p"
    and "distinct (map snd us)" and "distinct (map def_of (filter (\<lambda>i. def_of i \<noteq> None) (bb_instrs b)))"
  shows "fr_tmps fr' d = r_reg env fr r \<and> r_reg env fr r \<noteq> None \<and> fr_regs fr' = fr_regs fr"
proof -
  from assms(1-4) obtain t where t: "phi_temps env fr (bb_instrs b) Map.empty = Some t" "fr' = fr\<lparr>fr_tmps := t\<rparr>"
    by (auto simp: enter_block_def bind_eq_Some_conv)
  from phi_temps_value [OF t(1) assms(5-9)] t(2) show ?thesis by simp
qed

definition demo_phi_unit :: compile_unit where
  "demo_phi_unit = demo_unit\<lparr>cu_funcs :=
     [demo_main\<lparr>nf_bbs := [\<lparr>bb_key = 5, bb_name = ''BB2'',
        bb_instrs = [PhiInstr 1 [(2, 0), (3, 5)], PhiInstr 2 [(1, 0), (3, 5)], ReturnInstr IntT 1 False],
        bb_id = 1, bb_disable_unroll = False, bb_disable_parallel = False, bb_thread_id = 0\<rparr>]\<rparr>]\<rparr>"

text \<open>The two phis of the example exchange registers 1 and 2.\<close>

theorem phis_read_on_entry_witness:
  "\<exists>fr' st'. enter_block (demo_exec_env\<lparr>env_unit := demo_phi_unit, env_enable_phi := True\<rparr>)
     \<lparr>fr_func = demo_main, fr_args = [], fr_regs = [1 \<mapsto> 10, 2 \<mapsto> 20], fr_tmps = Map.empty,
      fr_last_bb = Some 0, fr_time = 0, fr_ret = 0\<rparr>
     ((init_state demo_exec_env [])\<lparr>ex_cur := (init_thread demo_exec_env)\<lparr>th_bb := Some 5\<rparr>\<rparr>) = Some (fr', st')
     \<and> fr_tmps fr' 2 = Some 10"
proof -
  let ?env = "demo_exec_env\<lparr>env_unit := demo_phi_unit, env_enable_phi := True\<rparr>"
  let ?fr = "\<lparr>fr_func = demo_main, fr_args = [], fr_regs = [1 \<mapsto> 10, 2 \<mapsto> 20], fr_tmps = Map.empty,
      fr_last_bb = Some 0, fr_time = 0, fr_ret = 0\<rparr> :: frame"
  let ?st = "(init_state demo_exec_env [])\<lparr>ex_cur := (init_thread demo_exec_env)\<lparr>th_bb := Some 5\<rparr>\<rparr>"
  let ?b = "\<lparr>bb_key = 5, bb_name = ''BB2'',
        bb_instrs = [PhiInstr 1 [(2, 0), (3, 5)], PhiInstr 2 [(1, 0), (3, 5)], ReturnInstr IntT 1 False],
        bb_id = 1, bb_disable_unroll = False, bb_disable_parallel = False, bb_thread_id = 0\<rparr>"
  have fb: "find_bb (env_unit ?env) 5 = Some ?b"
    by (simp add: find_bb_def demo_phi_unit_def demo_unit_def)
  have regs: "r_reg ?env ?fr 1 = Some 10" "r_reg ?env ?fr 2 = Some 20"
    by (simp_all add: r_reg_def demo_main_def)
  then obtain fr' st' where e: "enter_block ?env ?fr ?st = Some (fr', st')"
    using fb by (auto simp: enter_block_def)
  have "fr_tmps fr' 2 = r_reg ?env ?fr 1"
    using phis_read_on_entry [OF e _ _ fb, of 2 "[(1, 0), (3, 5)]" 1 0] by simp
  then show ?thesis using e regs by auto
qed

text \<open>C27: \<open>compute_data_offset\<close> gives the objects of a scope disjoint places inside it, in their
  order, as long as the scope is smaller than 2 GB.\<close>

theorem data_layout_disjoint:
  assumes "sum_list (map mo_size (ms_objects s)) < 2 ^ 31" and "i < j" and "j < length (ms_objects s)"
  shows "unat (mo_offset (ms_objects (layout_scope s) ! i)) + mo_size (ms_objects (layout_scope s) ! i)
      \<le> unat (mo_offset (ms_objects (layout_scope s) ! j))
    \<and> unat (mo_offset (ms_objects (layout_scope s) ! j)) + mo_size (ms_objects (layout_scope s) ! j)
      \<le> unat (ms_size (layout_scope s))"
  by (rule layout_scope_disjoint) (use assms in auto)

theorem data_layout_disjoint_witness:
  "unat (mo_offset (ms_objects (layout_scope (cu_scope demo_unit\<lparr>ms_objects := [demo_object, demo_object]\<rparr>)) ! 1)) + 4
     \<le> unat (ms_size (layout_scope (cu_scope demo_unit\<lparr>ms_objects := [demo_object, demo_object]\<rparr>)))"
  using data_layout_disjoint [of "cu_scope demo_unit\<lparr>ms_objects := [demo_object, demo_object]\<rparr>" 0 1]
  by (simp add: demo_object_def layout_scope_def)

text \<open>the words of a memory object's initial value: what \<open>set\<close> stored is what \<open>at\<close> reads at
  that address, and every other word is unchanged.\<close>

theorem object_words:
  assumes "mo_set m x v = Some m'" and "mo_init m = WordData ws" and "mo_size m = 4 * length ws"
    and "x mod 4 = 0" and "x + 4 \<le> mo_size m" and "y mod 4 = 0"
  shows "mo_at m' y = (if y = x then v else mo_at m y)"
  using assms by (rule mo_set_at)

theorem object_words_witness:
  "\<exists>m'. mo_set (demo_object\<lparr>mo_init := WordData [1, 2], mo_size := 8\<rparr>) 4 9 = Some m' \<and> mo_at m' 4 = 9 \<and> mo_at m' 0 = 1"
proof -
  let ?m = "demo_object\<lparr>mo_init := WordData [1, 2], mo_size := 8\<rparr>"
  obtain m' where m': "mo_set ?m 4 9 = Some m'" by (simp add: mo_set_def)
  from object_words [OF m', of "[1, 2]" 4] object_words [OF m', of "[1, 2]" 0] m' show ?thesis
    by (auto simp: mo_at_def)
qed


section \<open>Instruction selection\<close>


text \<open>A block that compares 7 with 9 and branches on the result.\<close>

definition demo_block :: bb where
  "demo_block = \<lparr>bb_key = 0, bb_name = ''BB1'',
     bb_instrs = [LoadConstI 1 7, LoadConstI 2 9, BinaryOpI 3 1 2 LESS] @ [BranchInstr 3 5 6],
     bb_id = 0, bb_disable_unroll = False, bb_disable_parallel = False, bb_thread_id = 0\<rparr>"






section \<open>Transformations of the intermediate representation\<close>

text \<open>C30: removing phi functions. After \<open>remove_phi\<close>, whatever order it takes the edges in, the control
  goes over the edge from \<open>b0\<close> to \<open>b\<close> through a new block, which ends in a jump to \<open>b\<close> and before it
  copies registers, one after the other, such that every register of the function ends up with the
  value the phi functions of \<open>b\<close> give it, at the same time, after \<open>b0\<close>. The condition \<open>lone_cycles\<close> is
  needed: with two cycles of copies of which one register is copied elsewhere the pass is wrong.\<close>

theorem remove_phi_correct:
  assumes "remove_phi order k fl f = Some f'" and "\<And>ms. mset (order ms) = mset ms"
    and "distinct (map bb_key (nf_bbs f))" and "\<forall>b\<in>set (nf_bbs f). bb_key b < k \<and> list_all (uses_below k) (bb_instrs b)"
    and "b \<in> set (nf_bbs f)" and "phis_ok (bb_instrs b)" and "regs_below (nf_max_reg_id f) (bb_instrs b)"
    and "all_phi_moves fl (nf_bbs f) [] = Some ms" and "((b0, bb_key b), p, q) \<in> set ms"
    and "lone_cycles (copy_pred p)" and "lone_cycles (copy_pred q)"
  shows "\<exists>j cs g. instrs_at f' j = Some (copy_instrs cs @ [JumpInstr (bb_key b)]) \<and> g (bb_key b) = j \<and>
    instrs_at f' b0 = map_option (map_last (map_bb g)) (instrs_at (drop_phis f) b0) \<and>
    (\<forall>r x. x \<le> nf_max_reg_id f \<longrightarrow> run_copies cs r x = phi_values b0 (bb_instrs b) r x)"
  using assms by (rule remove_phi_edge)

text \<open>A loop that exchanges two registers.\<close>

definition demo_head :: bb where
  "demo_head = demo_block\<lparr>bb_key := 1,
     bb_instrs := [PhiInstr 3 [(1, 0), (4, 1)], PhiInstr 4 [(2, 0), (3, 1)], BranchInstr 3 1 2]\<rparr>"

definition demo_swap :: nfunc where
  "demo_swap = demo_main\<lparr>nf_bbs :=
     [demo_block\<lparr>bb_instrs := [LoadConstI 1 5, LoadConstI 2 6, JumpInstr 1]\<rparr>, demo_head,
      demo_block\<lparr>bb_key := 2, bb_instrs := [ReturnInstr IntT 3 False]\<rparr>], nf_max_reg_id := 4\<rparr>"

lemma swap_cycle: "lone_cycles (copy_pred [(4, 3), (3, 4)])"
proof -
  let ?p = "copy_pred [(4, 3), (3, 4)]"
  have "(3, 4) \<in> source_rel ?p" "(4, 3) \<in> source_rel ?p" by (simp_all add: source_rel_def copy_pred_def)
  then have "on_cycle ?p 3" "on_cycle ?p 4" unfolding on_cycle_def by (meson trancl.simps)+
  then show ?thesis by (auto simp: lone_cycles_def copy_pred_def split: if_splits)
qed

theorem remove_phi_correct_witness:
  "\<exists>f' j cs. remove_phi (\<lambda>ms. ms) 3 {} demo_swap = Some f' \<and> instrs_at f' j = Some (copy_instrs cs @ [JumpInstr 1]) \<and>
     run_copies cs (\<lambda>x. x * 10) 3 = 40 \<and> run_copies cs (\<lambda>x. x * 10) 4 = 30"
proof -
  let ?ms = "[((0, 1), [(1, 3), (2, 4)], []), ((1, 1), [(4, 3), (3, 4)], [])]"
  have ms: "all_phi_moves {} (nf_bbs demo_swap) [] = Some ?ms" by code_simp
  have "remove_phi (\<lambda>ms. ms) 3 {} demo_swap \<noteq> None" by code_simp
  then obtain f' where f': "remove_phi (\<lambda>ms. ms) 3 {} demo_swap = Some f'" by blast
  have bs: "distinct (map bb_key (nf_bbs demo_swap))"
    "\<forall>b\<in>set (nf_bbs demo_swap). bb_key b < 3 \<and> list_all (uses_below 3) (bb_instrs b)"
    by (simp_all add: demo_swap_def demo_head_def demo_block_def)
  have b: "demo_head \<in> set (nf_bbs demo_swap)" "phis_ok (bb_instrs demo_head)"
    "regs_below (nf_max_reg_id demo_swap) (bb_instrs demo_head)"
    by (simp_all add: demo_swap_def demo_head_def phis_ok_def regs_below_def)
  have e: "((1, bb_key demo_head), [(4, 3), (3, 4)], []) \<in> set ?ms" by (simp add: demo_head_def)
  have nil: "lone_cycles (copy_pred [])" by (simp add: lone_cycles_def copy_pred_def)
  from remove_phi_correct [OF f' refl bs b ms e swap_cycle nil] obtain j cs where
    j: "instrs_at f' j = Some (copy_instrs cs @ [JumpInstr 1])" and
    v: "\<And>x. x \<le> 4 \<Longrightarrow> run_copies cs (\<lambda>x. x * 10 :: int) x = phi_values 1 (bb_instrs demo_head) (\<lambda>x. x * 10) x"
    by (fastforce simp: demo_head_def demo_swap_def)
  from v [of 3] v [of 4] have "run_copies cs (\<lambda>x. x * 10 :: int) 3 = 40" "run_copies cs (\<lambda>x. x * 10 :: int) 4 = 30"
    by (simp_all add: demo_head_def phi_values_def)
  then show ?thesis using f' j by blast
qed

text \<open>C31: dominators. On every graph \<open>construct_dom_tree\<close> returns. The father of a reachable node other
  than the entry is its immediate dominator; the numbers and sizes of the second search decide
  dominance, strict and not; and when every node can be reached, the frontier of a node is where its
  dominance ends: the successors of what it dominates that it does not dominate strictly.\<close>

theorem dominators_correct:
  assumes "flow_graph_ok g" and "e < length g"
  shows "\<exists>r. construct_dom_tree g e = Some r \<and> dr_fa r e = None \<and>
    (\<forall>x<length g. reachable g e x \<longrightarrow> x \<noteq> e \<longrightarrow> (\<exists>v. dr_fa r x = Some v \<and> idom g e v x)) \<and>
    (\<forall>v<length g. \<forall>x<length g. reachable g e x \<longrightarrow>
       (sdom (dr_tree r) v x \<longleftrightarrow> strict g e v x) \<and> (dom_or_same (dr_tree r) v x \<longleftrightarrow> dominates g e v x)) \<and>
    ((\<forall>x<length g. reachable g e x) \<longrightarrow>
       (\<forall>v<length g. set (dr_frontiers r v) =
          {j. (\<exists>i<length g. j \<in> set (g ! i) \<and> dominates g e v i) \<and> \<not> strict g e v j}))"
  using construct_dom_tree_ok [OF assms] unfolding dom_result_ok_def .

theorem dominators_correct_witness:
  "\<exists>r. construct_dom_tree [[1, 2], [3], [3], []] 0 = Some r \<and> dr_fa r 0 = None \<and> dr_fa r 3 = Some 0"
proof -
  let ?g = "[[1, 2], [3], [3], []] :: graph"
  have g: "flow_graph_ok ?g" by (auto simp: flow_graph_ok_def nth_Cons' split: if_splits)
  have p: "path ?g 0 [0, 1, 3] 3" "path ?g 0 [0, 2, 3] 3" by (simp_all add: path_def nth_Cons')
  then have p3: "reachable ?g 0 3" by (auto simp: reachable_def)
  have z: "v = 0" if "idom ?g 0 v 3" for v
  proof -
    have "v \<noteq> 3" "v \<in> set [0, 1, 3]" "v \<in> set [0, 2, 3]" using that p by (auto simp: idom_def strict_def dominates_def)
    then show ?thesis by auto
  qed
  have e: "0 < length ?g" by simp
  from dominators_correct [OF g e] obtain r where r: "construct_dom_tree ?g 0 = Some r" "dr_fa r 0 = None"
    "\<forall>x<length ?g. reachable ?g 0 x \<longrightarrow> x \<noteq> 0 \<longrightarrow> (\<exists>v. dr_fa r x = Some v \<and> idom ?g 0 v x)"
    by blast
  have "3 < length ?g" "(3 :: nat) \<noteq> 0" by simp_all
  with r(3) p3 obtain v where "dr_fa r 3 = Some v" "idom ?g 0 v 3" by blast
  then show ?thesis using r(1,2) z by blast
qed

section \<open>The front end\<close>

text \<open>
  \<open>int n = 3; int f(int x) { return x; } int main() { if (n) return f(n); }\<close>
\<close>

definition demo_source :: "top_item list" where
  "demo_source =
     [TopDecl (VarDecl BInt [InitVarDef ''n'' [] (ScalarInitVal (PrimaryExp3 (IntLiteral ''3'')))]),
      TopFunc (FuncDef FInt ''f'' [FuncFParam BInt ''x'' False []] [StmtItem (ReturnStmt (Some (LVal ''x'' [])))]),
      TopFunc (FuncDef FInt ''main'' []
        [StmtItem (IfStmt1 (Exp1 (LVal ''n'' [])) (ReturnStmt (Some (Unary2 ''f'' [ExpAsRParam (LVal ''n'' [])] 1))))])]"

text \<open>C32: what the front end returns is well formed, for every source program it accepts: function names
  are distinct and \<open>main\<close> is one of them; in every function the blocks are distinct and the entry is one
  of them, every block is not empty and ends with its only control instruction, whose targets are blocks of
  the function (no branch target is left open), a register is defined at most once and lies in the range of
  the function's registers, as do the registers an instruction reads, the blocks of a phi function are
  blocks of the function, and every memory object and every called function exists.\<close>

theorem front_end_well_formed:
  assumes "front_end ts = Inr c"
  shows "unit_wf c"
  using assms by (rule front_end_unit)

lemma demo_source_compiles: "case front_end demo_source of Inr c \<Rightarrow> length (cu_funcs c) = 3 | Inl _ \<Rightarrow> False"
  by code_simp

theorem front_end_well_formed_witness:
  "\<exists>c. front_end demo_source = Inr c \<and> length (cu_funcs c) = 3 \<and> unit_wf c"
proof -
  obtain c where c: "front_end demo_source = Inr c" "length (cu_funcs c) = 3"
    using demo_source_compiles by (auto split: sum.splits)
  then show ?thesis using front_end_well_formed [OF c(1)] by blast
qed

text \<open>C33: \<open>parse_const_init\<close> and \<open>parse_var_init\<close> give exactly one value for every element of the array,
  however the lists are nested and whatever they leave out, so the assertions on the number of values in
  \<open>visitConstDefGeneric\<close> and \<open>visitInitVarDef\<close> hold; sizes below \<open>2 ^ 63\<close>.\<close>

theorem init_values_complete:
  assumes "count_elements ty = Inr n" and "shape_size (ty_dims ty) < 2 ^ 63"
  shows "(\<forall>xs s'. parse_const_init t root (ty_dims ty) s = Inr (xs, s') \<longrightarrow> length xs = unat n) \<and>
    (\<forall>xs s'. parse_var_init t root2 (ty_dims ty) s = Inr (xs, s') \<longrightarrow> length xs = unat n)"
proof -
  have "n = prod_list (ty_dims ty)" using assms(1) by (auto simp: count_elements_def split: if_splits)
  then have n: "unat n = shape_size (ty_dims ty)" using unat_prod_list assms(2) by (simp add: shape_size_def)
  show ?thesis unfolding n using parse_init_lengths assms(2) by blast
qed

definition demo_array :: vtype where
  "demo_array = \<lparr>ty_scalar = IntT, ty_dims = [2, 3], ty_const = True, ty_omit = False\<rparr>"

definition demo_init :: const_init_val where
  "demo_init =
     ListConstInitVal
       [ListConstInitVal [ScalarConstInitVal (PrimaryExp3 (IntLiteral ''7''))],
        ScalarConstInitVal (PrimaryExp3 (IntLiteral ''8''))]"

definition demo_vis :: vis where "demo_vis = initial_state (empty_scope ''global'' True)"

lemma demo_init_values:
  "map_option fst (case parse_const_init IntT demo_init [2, 3] demo_vis of Inr r \<Rightarrow> Some r | Inl _ \<Rightarrow> None) =
    Some [7, 0, 0, 8, 0, 0]"
  by code_simp

theorem init_values_complete_witness:
  "\<exists>xs s'. parse_const_init IntT demo_init [2, 3] demo_vis = Inr (xs, s') \<and> length xs = 6"
proof -
  have "count_elements demo_array = Inr 6" "shape_size (ty_dims demo_array) < 2 ^ 63"
    by (simp_all add: demo_array_def count_elements_def shape_size_def)
  from init_values_complete [OF this, of IntT demo_init demo_vis "ListInitval []"]
  have "length xs = 6" if "parse_const_init IntT demo_init [2, 3] demo_vis = Inr (xs, s')" for xs s'
    using that by (simp add: demo_array_def)
  moreover obtain xs s' where "parse_const_init IntT demo_init [2, 3] demo_vis = Inr (xs, s')"
    using demo_init_values by (auto split: sum.splits)
  ultimately show ?thesis by blast
qed

text \<open>C34: \<open>Type::get_index\<close> gives an index that \<open>check_index\<close> accepts its place in row-major order, a
  place inside the array, and different indices different places.\<close>

theorem index_row_major:
  assumes "check_index t index" and "\<not> ty_omit t" and "shape_size (ty_dims t) < 2 ^ 64"
  shows "unat (get_index t index) = row_major (map unat (ty_dims t)) (map unat index) \<and>
    unat (get_index t index) < shape_size (ty_dims t) \<and>
    (\<forall>other. check_index t other \<and> get_index t other = get_index t index \<longrightarrow> other = index)"
  using get_index_row_major [OF assms(1,2)] assms(3) unfolding shape_size_def by blast

theorem index_row_major_witness: "unat (get_index demo_array [1, 2]) = 5 \<and> unat (get_index demo_array [1, 2]) < 6"
  using index_row_major [of demo_array "[1, 2]"]
  by (simp add: demo_array_def check_index_def count_array_dims_def shape_size_def)

section \<open>Constants and operators\<close>

text \<open>C35: constant folding agrees with execution: where the typed evaluation of an operator on
  operands of its input type gives a value, the evaluation on raw words gives the same bits, and
  the value has the declared result type. For binary operators and, \<open>F2D1\<close> apart, unary ones.\<close>

theorem folding_agrees:
  assumes "scalar_has_type x (binary_input_type b)" and "scalar_has_type y (binary_input_type b)"
    and "compute_binary_typed b x y = Some v"
    and "scalar_has_type z (unary_input_type u)" and "u \<noteq> F2D1" and "compute_unary_typed u z = Some w"
  shows "compute_binary b (scalar_bits x) (scalar_bits y) = Some (scalar_bits v) \<and> scalar_has_type v (binary_ret_type b)
    \<and> compute_unary u (scalar_bits z) = Some (scalar_bits w) \<and> scalar_has_type w (unary_ret_type u)"
  using typed_binary_agrees [OF assms(1-3)] typed_unary_agrees [OF assms(4,6,5)] by blast

theorem folding_agrees_witness:
  "compute_binary MOD (- 7) 3 = Some (- 1) \<and> compute_unary LNOT 5 = Some 0"
proof -
  have "compute_binary_typed MOD (SInt (- 7)) (SInt 3) = Some (SInt (- 1))"
    by (simp add: i_mod_def c_rem_def c_quot_def)
  moreover have "compute_unary_typed LNOT (SInt 5) = Some (SInt 0)" by (simp add: of_bool32_def)
  ultimately show ?thesis
    using folding_agrees [of "SInt (- 7)" MOD "SInt 3" "SInt (- 1)" "SInt 5" LNOT "SInt 0"]
    by (simp add: scalar_has_type_def)
qed



section \<open>Shared utilities\<close>

lemma mangle_decode:
  assumes "s \<noteq> []" and "well_named False s"
  shows "\<exists>t. mangle_global_var_name s = Some (''_m'' @ t) \<and> demangle t = Some s"
  using assms by (simp add: mangle_global_var_name_spec demangle_mangle_spec)

text \<open>C37: name mangling can be undone: for a name of 7-bit characters in which a digit follows
  only a letter, a digit or an underscore, the mangled name decodes to the name, so no two such
  names are mangled alike.\<close>

theorem mangle_roundtrip:
  assumes "well_named False s" and "well_named False s'" and "s \<noteq> []" and "s' \<noteq> []"
  shows "(\<exists>t. mangle_global_var_name s = Some (''_m'' @ t) \<and> demangle t = Some s)
    \<and> (mangle_global_var_name s = mangle_global_var_name s') = (s = s')"
  using mangle_decode [OF assms(3,1)] mangle_decode [OF assms(4,2)] by auto

theorem mangle_roundtrip_witness:
  "mangle_global_var_name ''main::a'' \<noteq> mangle_global_var_name ''main::b''
   \<and> (\<exists>t. mangle_global_var_name ''main::a'' = Some (''_m'' @ t) \<and> demangle t = Some ''main::a'')"
proof -
  have "well_named False ''main::a''" "well_named False ''main::b''"
    by (simp_all add: is_digit_def is_alpha_def legal_char_def char_code_def)
  then show ?thesis using mangle_roundtrip [of "''main::a''" "''main::b''"] by simp
qed

text \<open>C38: \<open>merge\<close> of the union-find structure always returns, keeps the parent links acyclic
  (so that every later \<open>operator[]\<close> returns too), and joins exactly the two classes.\<close>

theorem union_find_merge:
  assumes "uf_forest m"
  shows "\<exists>m'. uf_merge m x y = Some m' \<and> uf_forest m' \<and>
    (\<forall>z w. (\<exists>q. uf_root m' z q \<and> uf_root m' w q) =
       ((\<exists>q. uf_root m z q \<and> uf_root m w q) \<or>
        (\<exists>q. uf_root m z q \<and> uf_root m x q) \<and> (\<exists>q. uf_root m w q \<and> uf_root m y q) \<or>
        (\<exists>q. uf_root m z q \<and> uf_root m y q) \<and> (\<exists>q. uf_root m w q \<and> uf_root m x q)))"
proof -
  obtain m' rx ry where m': "uf_merge m x y = Some m'" "uf_forest m'" "uf_root m x rx" "uf_root m y ry"
    and r: "\<And>z q. uf_root m z q \<Longrightarrow> uf_root m' z (if q = rx then ry else q)"
    using uf_merge_correct [OF assms, of x y] by blast
  obtain rk where "uf_ranked m rk" using assms by (auto simp: uf_forest_def)
  then have ex: "\<exists>q. uf_root m z q" for z by (rule uf_root_exists)
  have "(\<exists>q. uf_root m' z q \<and> uf_root m' w q) =
       ((\<exists>q. uf_root m z q \<and> uf_root m w q) \<or>
        (\<exists>q. uf_root m z q \<and> uf_root m x q) \<and> (\<exists>q. uf_root m w q \<and> uf_root m y q) \<or>
        (\<exists>q. uf_root m z q \<and> uf_root m y q) \<and> (\<exists>q. uf_root m w q \<and> uf_root m x q))" for z w
  proof -
    obtain a b where ab: "uf_root m z a" "uf_root m w b" using ex by blast
    have u: "uf_root m z q = (q = a)" "uf_root m w q = (q = b)" "uf_root m x q = (q = rx)" "uf_root m y q = (q = ry)" for q
      using ab m'(3,4) uf_root_unique by metis+
    have v: "uf_root m' z q = (q = (if a = rx then ry else a))" "uf_root m' w q = (q = (if b = rx then ry else b))" for q
      using r [OF ab(1)] r [OF ab(2)] uf_root_unique by metis+
    show ?thesis unfolding u v by auto
  qed
  with m' show ?thesis by blast
qed

theorem union_find_merge_witness:
  "\<exists>m'. uf_merge Map.empty (1 :: nat) 2 = Some m' \<and> uf_forest m' \<and> (\<exists>q. uf_root m' 1 q \<and> uf_root m' 2 q)"
proof -
  have "uf_forest (Map.empty :: nat ufind)" by (auto simp: uf_forest_def uf_ranked_def)
  moreover have "uf_root Map.empty z z" for z :: nat by (simp add: uf_root.root_none)
  ultimately show ?thesis using union_find_merge [of Map.empty "1 :: nat" 2] by blast
qed

text \<open>C39: \<open>operator[]\<close> returns the root of its element; the path halving it does on the way
  changes no element's root and leaves the links acyclic.\<close>

theorem union_find_find:
  assumes "uf_forest m"
  shows "\<exists>r m'. uf_find m x = Some (r, m') \<and> uf_root m x r \<and> uf_forest m' \<and> (\<forall>z q. uf_root m' z q = uf_root m z q)"
proof -
  obtain rk where "uf_ranked m rk" using assms by (auto simp: uf_forest_def)
  from uf_find_correct [OF this, of x] show ?thesis unfolding uf_forest_def by blast
qed

theorem union_find_find_witness:
  "\<exists>r m'. uf_find [1 \<mapsto> 2, 2 \<mapsto> 3, 3 \<mapsto> (3 :: nat)] 1 = Some (r, m') \<and> uf_root [1 \<mapsto> 2, 2 \<mapsto> 3, 3 \<mapsto> 3] 1 r"
proof -
  have "uf_forest [1 \<mapsto> 2, 2 \<mapsto> 3, 3 \<mapsto> (3 :: nat)]"
    unfolding uf_forest_def uf_ranked_def by (rule exI [of _ "\<lambda>x. 3 - x"]) auto
  from union_find_find [OF this, of 1] show ?thesis by blast
qed



lemma concat_halves_sint: "concat_halves b t = sint (b OR push_bit 16 t)"
  using uint_of_sint [of "b OR push_bit 16 t"] sint_ge_m31 [of "b OR push_bit 16 t"] sint_lt_31 [of "b OR push_bit 16 t"]
  by (simp add: concat_halves_def Let_def split: if_splits)

text \<open>\<open>concat\<close> of two half words is the signed reading of the word whose low half is
  \<open>bottom\<close> and whose upper half is \<open>top\<close>, through each of its three branches; and \<open>startswith\<close>
  is the prefix test.\<close>

theorem word_and_prefix_helpers:
  "concat_halves b t = sint (b OR push_bit 16 t) \<and> startswith s p = prefix p s"
  by (simp add: concat_halves_sint startswith_prefix)

end
